(* ===== verification/Prelude.thy ===== *)
theory Prelude
  imports Main "HOL-Library.Word" "HOL-Library.List_Lexorder" "HOL-Library.Product_Lexorder"
begin

text \<open>
  Shared vocabulary of the development: the machine integer types, the status codes of
  \<^verbatim>\<open>include/utils/status.h\<close>, the sequencing combinators that mirror the
  \<^verbatim>\<open>if (!status.is_ok()) return status;\<close> idiom, and generic lemmas on lists, words and
  sorted lists that the components share.

  Conventions. A C++ \<^verbatim>\<open>Status\<close> is its \<open>StatusCode\<close> (message strings are not modelled).
  A \<^verbatim>\<open>Result<T>\<close> is \<open>StatusCode + 'a\<close> with \<open>Inl\<close> the failing status. A function that
  mutates reference parameters returns the new state beside its status, on the failing paths
  too. File offsets and sizes are \<open>nat\<close>; every overflow test of the source is written out
  against the bound the source names. Values that reach the disk are words of their width.
\<close>

named_theorems kvdb_defs "definitions unfolded together by the component proofs"
named_theorems kvdb_simps "simplification facts shared by the component proofs"

unbundle bit_operations_syntax

type_synonym u8 = "8 word"
type_synonym u16 = "16 word"
type_synonym u32 = "32 word"
type_synonym u64 = "64 word"
type_synonym byte = "8 word"

abbreviation u32_max :: nat where "u32_max \<equiv> 4294967295"
abbreviation u64_max :: nat where "u64_max \<equiv> 18446744073709551615"
abbreviation ssize_max :: nat where "ssize_max \<equiv> 9223372036854775807"

section \<open>Status codes\<close>

datatype (plugins only: code) StatusCode =
    Ok | UseAfterClose | InvalidState | DataTypeOverflow
  | OverlappingKeys
  | BadAccess | Underflow | InvalidArgument | FailedPrecondition | NotFound | AlreadyExists
  | NotSupported | InternalError | InvariantViolation | Duplicate
  | OutOfMemory | AllocationFailed | InvalidAlignment | AllocationTooLarge | BufferTooSmall
  | NullPointer | BadAlloc
  | InvalidOffset | InvalidReadSize | SizeExceedsBlockSize | SizeExceedsBlockBoundary
  | IOError | OpenFailed | ReadFailed | WriteFailed | SyncFailed | CloseFailed | RenameFailed
  | DirectorySyncFailed | GetPositionFailed | GetSizeFailed | PermissionDenied | SeekFailed
  | Corruption | BadMagic | UnsupportedVersion | UnsupportedBlockSize | ChecksumMismatch
  | InvalidHeader | InvalidFooter | InvalidBlockType | InvalidBlockAlignment
  | InvalidSectionOffset | InvalidSectionSize | InvalidPayloadSize | OffsetOutOfRange
  | OffsetOverlap | UnexpectedEOF | BadFileDescriptor
  | InsertionFailed
  | SocketCreationFailed | SocketFailure | SocketOptionFailed | SocketBindFailed

type_synonym 'a result = "StatusCode + 'a"

definition is_ok :: "StatusCode \<Rightarrow> bool" where
  "is_ok c \<longleftrightarrow> c = Ok"

section \<open>Sequencing\<close>

text \<open>
  \<open>run_all\<close> is a chain of calls, each followed by \<^verbatim>\<open>if (!status.is_ok()) return status;\<close>:
  it stops at the first failing call and keeps the state that call left behind.
\<close>

type_synonym 's action = "'s \<Rightarrow> StatusCode \<times> 's"

fun run_all :: "'s action list \<Rightarrow> 's action" where
  "run_all [] s = (Ok, s)"
| "run_all (a # as) s = (case a s of (c, s') \<Rightarrow> if is_ok c then run_all as s' else (c, s'))"

text \<open>The same idiom for calls that produce a value.\<close>

type_synonym ('s, 'a) reader = "'s \<Rightarrow> 'a result \<times> 's"

definition bind_r :: "('s, 'a) reader \<Rightarrow> ('a \<Rightarrow> ('s, 'b) reader) \<Rightarrow> ('s, 'b) reader" where
  "bind_r m k s = (case m s of (Inl e, s') \<Rightarrow> (Inl e, s') | (Inr a, s') \<Rightarrow> k a s')"

definition return_r :: "'a \<Rightarrow> ('s, 'a) reader" where
  "return_r a s = (Inr a, s)"

lemma is_ok_simps [simp]: "is_ok Ok" "is_ok c \<longleftrightarrow> c = Ok"
  by (simp_all add: is_ok_def)

lemma run_all_append:
  "run_all (as @ bs) s = (case run_all as s of (c, s') \<Rightarrow> if is_ok c then run_all bs s' else (c, s'))"
  by (induction as arbitrary: s) (auto split: prod.splits)

lemma bind_r_Inr [simp]: "m s = (Inr a, s') \<Longrightarrow> bind_r m k s = k a s'"
  by (simp add: bind_r_def)

lemma bind_r_Inl [simp]: "m s = (Inl e, s') \<Longrightarrow> bind_r m k s = (Inl e, s')"
  by (simp add: bind_r_def)

lemma bind_r_assoc: "bind_r (bind_r m k) h = bind_r m (\<lambda>a. bind_r (k a) h)"
  by (rule ext) (simp add: bind_r_def split: prod.splits sum.splits)

section \<open>Lists\<close>

lemma take_prefix_append:
  "n \<le> length xs \<Longrightarrow> take n (xs @ ys) = take n xs"
  by simp

lemma drop_take_mid: "drop (length a) (take (length a + length b) (a @ b @ c)) = b"
  by simp

end
