(* ===== verification/Records.thy ===== *)
theory Records
  imports Prelude
begin

text \<open>
  Byte-string entries and versioned records: \<^verbatim>\<open>ArenaEntry\<close> (its comparisons),
  \<^verbatim>\<open>Type\<close>, \<^verbatim>\<open>InternalRecord\<close>, the node order of \<^verbatim>\<open>driver.cpp\<close> and the
  merge order of \<^verbatim>\<open>merge_iterator.h\<close>. An entry is modelled by the bytes it refers to;
  the constructor of the source rules out a non-empty entry with a null pointer. The comparisons
  are shown to be the lexicographic linear order, so that later theories reason with the
  library's order classes.
\<close>

section \<open>Entries\<close>

type_synonym ArenaEntry = "byte list"

text \<open>\<open>memcmp\<close> of the C library on two buffers of which \<open>n\<close> bytes are compared: the sign of
  the first difference, read as unsigned bytes.\<close>

fun memcmp :: "byte list \<Rightarrow> byte list \<Rightarrow> nat \<Rightarrow> int" where
  "memcmp (x # xs) (y # ys) (Suc n) =
     (if x < y then -1 else if y < x then 1 else memcmp xs ys n)"
| "memcmp _ _ _ = 0"

definition entry_less :: "ArenaEntry \<Rightarrow> ArenaEntry \<Rightarrow> bool" where
  "entry_less a b =
     (let common = min (length a) (length b);
          comparison = memcmp a b common
      in if 0 < common \<and> comparison \<noteq> 0 then comparison < 0 else length a < length b)"

definition entry_greater :: "ArenaEntry \<Rightarrow> ArenaEntry \<Rightarrow> bool" where
  "entry_greater a b = entry_less b a"

definition entry_eq :: "ArenaEntry \<Rightarrow> ArenaEntry \<Rightarrow> bool" where
  "entry_eq a b =
     (if length a \<noteq> length b then False
      else length a = 0 \<or> memcmp a b (length a) = 0)"

definition entry_ge :: "ArenaEntry \<Rightarrow> ArenaEntry \<Rightarrow> bool" where
  "entry_ge a b = (\<not> entry_less a b)"

definition entry_le :: "ArenaEntry \<Rightarrow> ArenaEntry \<Rightarrow> bool" where
  "entry_le a b = (\<not> entry_less b a)"

section \<open>Records\<close>

text \<open>The enum has underlying type \<open>uint8_t\<close>; \<open>Undefined\<close> stands for every value other than
  \<open>Put\<close> and \<open>Tombstone\<close>, none of which the code accepts.\<close>

datatype Type = Put | Tombstone | Undefined

definition type_to_u8 :: "Type \<Rightarrow> u8" where
  "type_to_u8 t = (case t of Put \<Rightarrow> 0 | Tombstone \<Rightarrow> 1 | Undefined \<Rightarrow> 2)"

definition type_of_u8 :: "u8 \<Rightarrow> Type" where
  "type_of_u8 b = (if b = 0 then Put else if b = 1 then Tombstone else Undefined)"

record InternalRecord =
  key_entry :: ArenaEntry
  value_entry :: ArenaEntry
  rtype :: Type
  seq_num :: u64

definition internal_record_eq :: "InternalRecord \<Rightarrow> InternalRecord \<Rightarrow> bool" where
  "internal_record_eq a b \<longleftrightarrow>
     entry_eq (key_entry a) (key_entry b) \<and> entry_eq (value_entry a) (value_entry b) \<and>
     rtype a = rtype b \<and> seq_num a = seq_num b"

text \<open>\<open>InternalRecord::disk_size\<close> adds in \<open>uint32_t\<close>, so it wraps.\<close>

definition record_disk_size :: "InternalRecord \<Rightarrow> u32" where
  "record_disk_size r =
     (4 + 4 + 1 + 4 + 4 + 8) + of_nat (length (key_entry r)) + of_nat (length (value_entry r))"

text \<open>\<open>VirtualNode::operator<\<close> and \<open>operator==\<close>, and \<open>internal_before\<close> of the merge.\<close>

definition node_less :: "InternalRecord \<Rightarrow> InternalRecord \<Rightarrow> bool" where
  "node_less a b =
     (if entry_eq (key_entry a) (key_entry b) then seq_num b < seq_num a
      else entry_less (key_entry a) (key_entry b))"

definition node_greater :: "InternalRecord \<Rightarrow> InternalRecord \<Rightarrow> bool" where
  "node_greater a b = node_less b a"

definition node_eq :: "InternalRecord \<Rightarrow> InternalRecord \<Rightarrow> bool" where
  "node_eq a b \<longleftrightarrow> entry_eq (key_entry a) (key_entry b) \<and> seq_num a = seq_num b"

definition internal_before :: "InternalRecord \<Rightarrow> InternalRecord \<Rightarrow> bool" where
  "internal_before a b =
     (if entry_less (key_entry a) (key_entry b) then True
      else if entry_less (key_entry b) (key_entry a) then False
      else seq_num b < seq_num a)"

section \<open>The entry order is the lexicographic order\<close>

lemma memcmp_0 [simp]: "memcmp a b 0 = 0"
  by (cases a; cases b) simp_all

lemma memcmp_self [simp]: "memcmp a a n = 0"
proof (induction a arbitrary: n)
  case (Cons x a)
  then show ?case by (cases n) simp_all
qed simp

lemma memcmp_eq_0_iff:
  "length a = length b \<Longrightarrow> memcmp a b (length a) = 0 \<longleftrightarrow> a = b"
  by (induction a b rule: list_induct2) (auto simp: not_less dest: order.antisym)

lemma entry_eq_iff [simp]: "entry_eq a b \<longleftrightarrow> a = b"
  using memcmp_eq_0_iff [of a b] by (auto simp: entry_eq_def)

lemma entry_less_Nil [simp]: "entry_less [] b \<longleftrightarrow> b \<noteq> []" "\<not> entry_less a []"
  by (auto simp: entry_less_def)

lemma entry_less_Cons [simp]:
  "entry_less (x # xs) (y # ys) \<longleftrightarrow> x < y \<or> x = y \<and> entry_less xs ys"
  by (cases "min (length xs) (length ys)") (auto simp: entry_less_def Let_def)

lemma entry_less_iff [simp]: "entry_less a b \<longleftrightarrow> a < b"
proof (induction a arbitrary: b)
  case Nil
  show ?case by (cases b) simp_all
next
  case (Cons x xs)
  then show ?case by (cases b) simp_all
qed

lemma entry_order_simps [simp]:
  "entry_greater a b \<longleftrightarrow> b < a" "entry_ge a b \<longleftrightarrow> b \<le> a" "entry_le a b \<longleftrightarrow> a \<le> b"
  by (auto simp: entry_greater_def entry_ge_def entry_le_def)

section \<open>The record order\<close>

text \<open>Internal keys sort by user key, then by descending sequence number; the key's image in
  the library's lexicographic product order makes both comparators instances of \<open><\<close>.\<close>

definition ikey :: "InternalRecord \<Rightarrow> ArenaEntry \<times> int" where
  "ikey r = (key_entry r, - uint (seq_num r))"

lemma ikey_eq_iff: "ikey a = ikey b \<longleftrightarrow> key_entry a = key_entry b \<and> seq_num a = seq_num b"
  by (simp add: ikey_def word_uint_eq_iff)

lemma node_less_iff [simp]: "node_less a b \<longleftrightarrow> ikey a < ikey b"
  by (auto simp: node_less_def ikey_def word_less_def)

lemma internal_before_iff [simp]: "internal_before a b \<longleftrightarrow> ikey a < ikey b"
  by (auto simp: internal_before_def ikey_def word_less_def)

lemma node_order_simps [simp]:
  "node_greater a b \<longleftrightarrow> ikey b < ikey a" "node_eq a b \<longleftrightarrow> ikey a = ikey b"
  by (auto simp: node_greater_def node_eq_def ikey_eq_iff)

lemma internal_record_eq_iff [simp]: "internal_record_eq a b \<longleftrightarrow> a = b"
  by (cases a; cases b) (auto simp: internal_record_eq_def)

lemma type_u8_roundtrip: "t \<noteq> Undefined \<Longrightarrow> type_of_u8 (type_to_u8 t) = t"
  by (cases t) (simp_all add: type_of_u8_def type_to_u8_def)

text \<open>The newest record for a key in a list sorted by internal key is the first one with it.\<close>

definition newest_of :: "ArenaEntry \<Rightarrow> InternalRecord list \<Rightarrow> InternalRecord option" where
  "newest_of k rs = List.find (\<lambda>r. key_entry r = k) rs"

abbreviation sorted_records :: "InternalRecord list \<Rightarrow> bool" where
  "sorted_records rs \<equiv> sorted_wrt (\<lambda>a b. ikey a < ikey b) rs"

lemma newest_of_append:
  "newest_of k (xs @ ys) = (case newest_of k xs of None \<Rightarrow> newest_of k ys | Some r \<Rightarrow> Some r)"
  by (induction xs) (auto simp: newest_of_def)

lemma newest_of_simps [simp]:
  "newest_of k [] = None"
  "newest_of k (r # rs) = (if key_entry r = k then Some r else newest_of k rs)"
  by (auto simp: newest_of_def)

lemma newest_of_None_iff: "newest_of k rs = None \<longleftrightarrow> (\<forall>r\<in>set rs. key_entry r \<noteq> k)"
  by (induction rs) auto

lemma newest_of_SomeD: "newest_of k rs = Some r \<Longrightarrow> r \<in> set rs \<and> key_entry r = k"
  by (induction rs) (auto split: if_splits)

lemma newest_of_max:
  assumes "sorted_records rs" "newest_of k rs = Some r" "r' \<in> set rs" "key_entry r' = k"
  shows "seq_num r' \<le> seq_num r"
  using assms
  by (induction rs) (auto simp: ikey_def word_le_def split: if_splits dest: newest_of_SomeD)

end
