(* ===== verification/LevelManager.thy ===== *)
theory LevelManager
  imports Records
begin

text \<open>
  The catalogue of tables (\<^verbatim>\<open>core/engine/level_manager.cpp\<close>) and the metadata it holds
  (the struct of \<^verbatim>\<open>core/engine/table_meta.h\<close>). Level 0 is ordered newest first and may
  overlap; the other levels are sorted and disjoint. The binary searches of the source are
  \<open>std::lower_bound\<close>, modelled by its halving loop and shown to find the partition point, so the
  lookups agree with plain filters.
\<close>

section \<open>Table metadata\<close>

record TableMeta =
  table_id :: u64
  tm_level :: u32
  tm_path :: "byte list"
  min_seq :: u64
  max_seq :: u64
  file_size :: u64
  record_count :: u64
  tombstone_count :: u64
  data_block_count :: u64
  data_bytes :: u64
  smallest_key :: ArenaEntry
  largest_key :: ArenaEntry

definition key_is_inside_table :: "ArenaEntry \<Rightarrow> TableMeta \<Rightarrow> bool" where
  "key_is_inside_table key t \<longleftrightarrow> \<not> entry_less key (smallest_key t) \<and> \<not> entry_less (largest_key t) key"

definition ranges_overlap :: "ArenaEntry \<Rightarrow> ArenaEntry \<Rightarrow> ArenaEntry \<Rightarrow> ArenaEntry \<Rightarrow> bool" where
  "ranges_overlap first_smallest first_largest second_smallest second_largest \<longleftrightarrow>
     \<not> entry_less first_largest second_smallest \<and> \<not> entry_less second_largest first_smallest"

section \<open>Binary search\<close>

text \<open>\<open>std::lower_bound\<close>: the first element the test does not hold for.\<close>

function lower_bound_loop :: "('a \<Rightarrow> bool) \<Rightarrow> 'a list \<Rightarrow> nat \<Rightarrow> nat \<Rightarrow> nat" where
  "lower_bound_loop test xs first count =
     (if count = 0 then first
      else let step = count div 2; it = first + step in
        if test (xs ! it) then lower_bound_loop test xs (it + 1) (count - (step + 1))
        else lower_bound_loop test xs first step)"
  by pat_completeness auto
termination
  by (relation "measure (\<lambda>(test, xs, first, count). count)") auto

declare lower_bound_loop.simps [simp del]

definition lower_bound :: "('a \<Rightarrow> bool) \<Rightarrow> 'a list \<Rightarrow> nat" where
  "lower_bound test xs = lower_bound_loop test xs 0 (length xs)"

lemma lower_bound_loop_partition:
  assumes "\<forall>i < p. test (xs ! i)" "\<forall>i. p \<le> i \<and> i < first + count \<longrightarrow> \<not> test (xs ! i)"
    and "first \<le> p" "p \<le> first + count"
  shows "lower_bound_loop test xs first count = p"
  using assms
proof (induction test xs first count rule: lower_bound_loop.induct)
  case (1 test xs first count)
  show ?case
  proof (cases "count = 0")
    case True
    then show ?thesis using 1 by (simp add: lower_bound_loop.simps)
  next
    case False
    let ?it = "first + count div 2"
    have it: "test (xs ! ?it) \<longleftrightarrow> ?it < p" using 1(3-6) False by (auto simp: not_less)
    show ?thesis
    proof (cases "test (xs ! ?it)")
      case True
      then have "lower_bound_loop test xs (?it + 1) (count - (count div 2 + 1)) = p"
        using 1(1) [OF False refl refl True] 1(3-6) it False by auto
      then show ?thesis using True False by (subst lower_bound_loop.simps) (simp add: Let_def)
    next
      case nt: False
      have "first + count div 2 \<le> first + count" by simp
      then have "\<forall>i. p \<le> i \<and> i < ?it \<longrightarrow> \<not> test (xs ! i)" using 1(4) by (meson less_le_trans)
      then have "lower_bound_loop test xs first (count div 2) = p"
        using 1(2) [OF False refl refl nt] 1(3,5) it nt by simp
      then show ?thesis using nt False by (subst lower_bound_loop.simps) (simp add: Let_def)
    qed
  qed
qed

lemma lower_bound_append:
  assumes "\<forall>x\<in>set as. test x" "\<forall>x\<in>set bs. \<not> test x"
  shows "lower_bound test (as @ bs) = length as"
  unfolding lower_bound_def using assms
  by (intro lower_bound_loop_partition) (auto simp: nth_append)

text \<open>A test that is closed downwards along a sorted list splits it at the lower bound.\<close>

lemma lower_bound_takeWhile:
  assumes "sorted_wrt R xs" "\<forall>a b. R a b \<longrightarrow> test b \<longrightarrow> test a"
  shows "lower_bound test xs = length (takeWhile test xs)"
    and "\<forall>x\<in>set (dropWhile test xs). \<not> test x"
proof -
  show *: "\<forall>x\<in>set (dropWhile test xs). \<not> test x" using assms
    by (induction xs) auto
  have "\<forall>x\<in>set (takeWhile test xs). test x" by (metis set_takeWhileD)
  then show "lower_bound test xs = length (takeWhile test xs)"
    using lower_bound_append [of "takeWhile test xs" test "dropWhile test xs"] * by simp
qed

section \<open>The manager\<close>

record LevelManager =
  lm_levels :: "TableMeta list list"

text \<open>\<open>None\<close> is the exception for no level.\<close>

definition LevelManager_new :: "nat \<Rightarrow> LevelManager option" where
  "LevelManager_new level_count =
     (if level_count = 0 then None else Some \<lparr>lm_levels = replicate level_count []\<rparr>)"

definition insert_at :: "nat \<Rightarrow> 'a \<Rightarrow> 'a list \<Rightarrow> 'a list" where
  "insert_at i x xs = take i xs @ x # drop i xs"

definition id_in :: "u64 \<Rightarrow> TableMeta list \<Rightarrow> bool" where
  "id_in i ts \<longleftrightarrow> list_ex (\<lambda>t. table_id t = i) ts"

definition add_to_level :: "TableMeta \<Rightarrow> TableMeta list \<Rightarrow> StatusCode \<times> TableMeta list" where
  "add_to_level meta ts =
     (if tm_level meta = 0 then
        (Ok, insert_at (lower_bound (\<lambda>t. table_id t > table_id meta) ts) meta ts)
      else
        let pos = lower_bound (\<lambda>t. entry_less (smallest_key t) (smallest_key meta)) ts in
        if pos \<noteq> 0 \<and> ranges_overlap (smallest_key (ts ! (pos - 1))) (largest_key (ts ! (pos - 1)))
             (smallest_key meta) (largest_key meta)
        then (InvariantViolation, ts)
        else if pos \<noteq> length ts \<and> ranges_overlap (smallest_key meta) (largest_key meta)
             (smallest_key (ts ! pos)) (largest_key (ts ! pos))
        then (InvariantViolation, ts)
        else (Ok, insert_at pos meta ts))"

definition add_table :: "TableMeta \<Rightarrow> LevelManager action" where
  "add_table meta lm =
     (let lv = unat (tm_level meta) in
      if table_id meta = 0 then (InvalidArgument, lm)
      else if lv \<ge> length (lm_levels lm) then (InvalidArgument, lm)
      else if entry_less (largest_key meta) (smallest_key meta) then (InvalidArgument, lm)
      else if list_ex (id_in (table_id meta)) (lm_levels lm) then (Duplicate, lm)
      else case add_to_level meta (lm_levels lm ! lv) of (c, ts) \<Rightarrow>
        (c, lm\<lparr>lm_levels := (lm_levels lm)[lv := ts]\<rparr>))"

text \<open>Removal on a named level, and on whatever level has the table: the second form looks at
  every position, so that an id that occurs twice is reported.\<close>

definition positions :: "u64 \<Rightarrow> TableMeta list \<Rightarrow> nat list" where
  "positions i ts = filter (\<lambda>j. table_id (ts ! j) = i) [0 ..< length ts]"

definition remove_at :: "nat \<Rightarrow> 'a list \<Rightarrow> 'a list" where
  "remove_at i xs = take i xs @ drop (i + 1) xs"

definition remove_table_at :: "u64 \<Rightarrow> nat \<Rightarrow> LevelManager action" where
  "remove_table_at i lv lm =
     (if lv \<ge> length (lm_levels lm) then (InvalidArgument, lm)
      else case positions i (lm_levels lm ! lv) of
        [] \<Rightarrow> (NotFound, lm)
      | [j] \<Rightarrow> (Ok, lm\<lparr>lm_levels := (lm_levels lm)[lv := remove_at j (lm_levels lm ! lv)]\<rparr>)
      | _ \<Rightarrow> (InvariantViolation, lm))"

definition locations :: "u64 \<Rightarrow> LevelManager \<Rightarrow> (nat \<times> nat) list" where
  "locations i lm = concat (map (\<lambda>lv. map (Pair lv) (positions i (lm_levels lm ! lv))) [0 ..< length (lm_levels lm)])"

definition remove_table :: "u64 \<Rightarrow> u32 option \<Rightarrow> LevelManager action" where
  "remove_table i target_level lm =
     (if i = 0 then (InvalidArgument, lm)
      else case target_level of
        Some lv \<Rightarrow> remove_table_at i (unat lv) lm
      | None \<Rightarrow> (case locations i lm of
            [] \<Rightarrow> (NotFound, lm)
          | [(lv, j)] \<Rightarrow> (Ok, lm\<lparr>lm_levels := (lm_levels lm)[lv := remove_at j (lm_levels lm ! lv)]\<rparr>)
          | _ \<Rightarrow> (InvariantViolation, lm)))"

definition get_lx_tables :: "nat \<Rightarrow> LevelManager \<Rightarrow> TableMeta list option" where
  "get_lx_tables lv lm = (if lv \<ge> length (lm_levels lm) then None else Some (lm_levels lm ! lv))"

definition level_count :: "LevelManager \<Rightarrow> u32" where
  "level_count lm = of_nat (length (lm_levels lm))"

definition LevelManager_empty :: "LevelManager \<Rightarrow> bool" where
  "LevelManager_empty lm = list_all (\<lambda>ts. ts = []) (lm_levels lm)"

definition find_candidate_tables_in_level :: "nat \<Rightarrow> ArenaEntry \<Rightarrow> LevelManager \<Rightarrow> TableMeta list result" where
  "find_candidate_tables_in_level lv key lm =
     (if lv \<ge> length (lm_levels lm) then Inl NotFound
      else let ts = lm_levels lm ! lv in
        if lv = 0 then Inr (filter (key_is_inside_table key) ts)
        else let pos = lower_bound (\<lambda>t. entry_less (largest_key t) key) ts in
          if pos \<noteq> length ts \<and> key_is_inside_table key (ts ! pos) then Inr [ts ! pos] else Inr [])"

fun collect_overlapping :: "ArenaEntry \<Rightarrow> TableMeta list \<Rightarrow> TableMeta list" where
  "collect_overlapping largest [] = []"
| "collect_overlapping largest (t # ts) =
     (if entry_less largest (smallest_key t) then [] else t # collect_overlapping largest ts)"

definition find_overlapping_tables :: "nat \<Rightarrow> ArenaEntry \<Rightarrow> ArenaEntry \<Rightarrow> LevelManager \<Rightarrow> TableMeta list" where
  "find_overlapping_tables lv smallest largest lm =
     (if lv \<ge> length (lm_levels lm) \<or> entry_less largest smallest then []
      else let ts = lm_levels lm ! lv in
        if lv = 0 then filter (\<lambda>t. ranges_overlap (smallest_key t) (largest_key t) smallest largest) ts
        else collect_overlapping largest (drop (lower_bound (\<lambda>t. entry_less (largest_key t) smallest) ts) ts))"

text \<open>\<open>None\<close> stands for the exceptions: an unknown level and an overflowing sum.\<close>

fun layer_size_loop :: "TableMeta list \<Rightarrow> nat \<Rightarrow> nat option" where
  "layer_size_loop [] acc = Some acc"
| "layer_size_loop (t # ts) acc =
     (if unat (file_size t) > u64_max - acc then None else layer_size_loop ts (acc + unat (file_size t)))"

definition get_layer_size :: "nat \<Rightarrow> LevelManager \<Rightarrow> nat option" where
  "get_layer_size lv lm =
     (if lv \<ge> length (lm_levels lm) then None else layer_size_loop (lm_levels lm ! lv) 0)"

section \<open>Invariant\<close>

abbreviation below :: "TableMeta \<Rightarrow> TableMeta \<Rightarrow> bool" where
  "below a b \<equiv> largest_key a < smallest_key b"

definition table_ok :: "nat \<Rightarrow> TableMeta \<Rightarrow> bool" where
  "table_ok lv t \<longleftrightarrow> unat (tm_level t) = lv \<and> table_id t \<noteq> 0 \<and> smallest_key t \<le> largest_key t"

definition level_ok :: "nat \<Rightarrow> TableMeta list \<Rightarrow> bool" where
  "level_ok lv ts \<longleftrightarrow> (\<forall>t\<in>set ts. table_ok lv t) \<and>
     (if lv = 0 then sorted_wrt (\<lambda>a b. table_id a > table_id b) ts else sorted_wrt below ts)"

definition all_tables :: "LevelManager \<Rightarrow> TableMeta list" where
  "all_tables lm = concat (lm_levels lm)"

definition levels_ok :: "LevelManager \<Rightarrow> bool" where
  "levels_ok lm \<longleftrightarrow> lm_levels lm \<noteq> [] \<and> distinct (map table_id (all_tables lm)) \<and>
     (\<forall>lv < length (lm_levels lm). level_ok lv (lm_levels lm ! lv))"

text \<open>The helper definitions read through the library order.\<close>

lemma overlap_iff [simp]:
  "ranges_overlap a b c d \<longleftrightarrow> c \<le> b \<and> a \<le> d"
  by (auto simp: ranges_overlap_def not_less)

lemma inside_iff [simp]: "key_is_inside_table k t \<longleftrightarrow> smallest_key t \<le> k \<and> k \<le> largest_key t"
  by (auto simp: key_is_inside_table_def not_less)

lemma level_ok_sorted:
  assumes "level_ok lv ts" "0 < lv"
  shows "sorted_wrt (\<lambda>a b. below a b \<and> smallest_key a < smallest_key b \<and> largest_key a < largest_key b) ts"
proof -
  have "sorted_wrt below ts" "\<forall>t\<in>set ts. smallest_key t \<le> largest_key t"
    using assms by (auto simp: level_ok_def table_ok_def)
  then show ?thesis
    by (induction ts) (auto intro: le_less_trans less_le_trans)
qed

lemma lower_bound_split:
  assumes "sorted_wrt R xs" "\<forall>a b. R a b \<longrightarrow> test b \<longrightarrow> test a"
  shows "\<exists>as bs. xs = as @ bs \<and> lower_bound test xs = length as \<and>
    (\<forall>x\<in>set as. test x) \<and> (\<forall>x\<in>set bs. \<not> test x)"
proof (intro exI conjI)
  show "xs = takeWhile test xs @ dropWhile test xs" by simp
  show "\<forall>x\<in>set (takeWhile test xs). test x" by (metis set_takeWhileD)
qed (rule lower_bound_takeWhile [OF assms])+

lemma insert_at_append [simp]: "insert_at (length as) x (as @ bs) = as @ x # bs"
  by (simp add: insert_at_def)

lemma add_to_level_0:
  assumes "level_ok 0 ts" "table_ok 0 meta" "table_id meta \<notin> table_id ` set ts"
  shows "\<exists>as bs. ts = as @ bs \<and> add_to_level meta ts = (Ok, as @ meta # bs) \<and> level_ok 0 (as @ meta # bs)"
proof -
  have srt: "sorted_wrt (\<lambda>a b. table_id a > table_id b) ts" using assms(1) by (simp add: level_ok_def)
  obtain as bs where ts: "ts = as @ bs" and lb: "lower_bound (\<lambda>t. table_id t > table_id meta) ts = length as"
    and parts: "\<forall>x\<in>set as. table_id x > table_id meta" "\<forall>x\<in>set bs. \<not> table_id x > table_id meta"
    using lower_bound_split [OF srt, of "\<lambda>t. table_id t > table_id meta"] less_trans by blast
  have "table_id x < table_id meta" if "x \<in> set bs" for x
    using that parts(2) assms(3) ts by (metis UnI2 image_eqI linorder_less_linear set_append)
  then have "level_ok 0 (as @ meta # bs)"
    using assms(1,2) parts(1) ts by (auto simp: level_ok_def sorted_wrt_append)
  moreover have "add_to_level meta ts = (Ok, as @ meta # bs)"
    using assms(2) lb ts by (simp add: add_to_level_def table_ok_def unat_eq_0)
  ultimately show ?thesis using ts by blast
qed

lemma add_to_level_upper:
  assumes ok: "level_ok lv ts" "0 < lv" and meta: "table_ok lv meta"
  shows "if \<exists>t\<in>set ts. ranges_overlap (smallest_key t) (largest_key t) (smallest_key meta) (largest_key meta)
    then add_to_level meta ts = (InvariantViolation, ts)
    else \<exists>as bs. ts = as @ bs \<and> add_to_level meta ts = (Ok, as @ meta # bs) \<and> level_ok lv (as @ meta # bs)"
proof -
  let ?sm = "smallest_key meta" and ?la = "largest_key meta"
  have range: "?sm \<le> ?la" and lv: "tm_level meta \<noteq> 0" using meta ok(2) by (auto simp: table_ok_def)
  note srt = level_ok_sorted [OF ok]
  obtain as bs where ts: "ts = as @ bs" and lb: "lower_bound (\<lambda>t. smallest_key t < ?sm) ts = length as"
    and parts: "\<forall>x\<in>set as. smallest_key x < ?sm" "\<forall>x\<in>set bs. \<not> smallest_key x < ?sm"
    using lower_bound_split [OF srt, of "\<lambda>t. smallest_key t < ?sm"] less_trans by blast
  have left: "(\<exists>t\<in>set as. ?sm \<le> largest_key t) \<longleftrightarrow> as \<noteq> [] \<and> ?sm \<le> largest_key (last as)"
  proof (cases as rule: rev_cases)
    case (snoc as' a)
    have "\<forall>t\<in>set as'. largest_key t < largest_key a" using srt ts snoc by (simp add: sorted_wrt_append)
    then show ?thesis using snoc by (auto intro: order_trans less_imp_le)
  qed simp
  have right: "(\<exists>t\<in>set bs. smallest_key t \<le> ?la) \<longleftrightarrow> bs \<noteq> [] \<and> smallest_key (hd bs) \<le> ?la"
  proof (cases bs)
    case (Cons b bs')
    have "\<forall>t\<in>set bs'. smallest_key b < smallest_key t" using srt ts Cons by (simp add: sorted_wrt_append)
    then show ?thesis using Cons by (auto intro: order_trans less_imp_le)
  qed simp
  have over: "(\<exists>t\<in>set ts. ranges_overlap (smallest_key t) (largest_key t) ?sm ?la) \<longleftrightarrow>
      as \<noteq> [] \<and> ?sm \<le> largest_key (last as) \<or> bs \<noteq> [] \<and> smallest_key (hd bs) \<le> ?la" (is "?over \<longleftrightarrow> ?near")
  proof -
    have "x \<in> set as \<Longrightarrow> smallest_key x \<le> ?la" for x using parts(1) range by (meson less_imp_le order_trans)
    moreover have "x \<in> set bs \<Longrightarrow> ?sm \<le> largest_key x" for x
    proof -
      assume "x \<in> set bs"
      then have "?sm \<le> smallest_key x" "smallest_key x \<le> largest_key x"
        using parts(2) ok(1) ts by (auto simp: level_ok_def table_ok_def not_less)
      then show ?thesis by (rule order_trans)
    qed
    ultimately show ?thesis unfolding left [symmetric] right [symmetric] using ts by auto
  qed
  have code: "add_to_level meta ts = (if ?near then (InvariantViolation, ts) else (Ok, as @ meta # bs))"
  proof -
    have "as \<noteq> [] \<Longrightarrow> (as @ bs) ! (length as - 1) = last as" by (simp add: nth_append last_conv_nth)
    moreover have "bs \<noteq> [] \<Longrightarrow> (as @ bs) ! length as = hd bs" by (simp add: nth_append hd_conv_nth)
    moreover have "as \<noteq> [] \<Longrightarrow> smallest_key (last as) \<le> ?la"
      using parts(1) range by (meson last_in_set less_imp_le order_trans)
    moreover have "bs \<noteq> [] \<Longrightarrow> ?sm \<le> largest_key (hd bs)"
      using parts(2) ok(1) ts by (cases bs) (auto simp: level_ok_def table_ok_def not_less intro: order_trans)
    ultimately show ?thesis using lv lb ts by (auto simp: add_to_level_def Let_def)
  qed
  show ?thesis
  proof (cases ?near)
    case True
    then show ?thesis using over code by simp
  next
    case False
    then have "\<forall>t\<in>set as. below t meta" "\<forall>t\<in>set bs. below meta t" using left right by (auto simp: not_le)
    then have "level_ok lv (as @ meta # bs)"
      using ok meta ts by (auto simp: level_ok_def sorted_wrt_append)
    then show ?thesis using False over code ts by auto
  qed
qed

lemma all_tables_update:
  assumes "lv < length (lm_levels lm)"
  obtains us vs where "all_tables lm = us @ lm_levels lm ! lv @ vs"
    "\<And>ts. all_tables (lm\<lparr>lm_levels := (lm_levels lm)[lv := ts]\<rparr>) = us @ ts @ vs"
proof (rule that)
  let ?us = "concat (take lv (lm_levels lm))" and ?vs = "concat (drop (Suc lv) (lm_levels lm))"
  show "all_tables (lm\<lparr>lm_levels := (lm_levels lm)[lv := ts]\<rparr>) = ?us @ ts @ ?vs" for ts
    using assms by (simp add: all_tables_def upd_conv_take_nth_drop)
  show "all_tables lm = ?us @ lm_levels lm ! lv @ ?vs"
    using assms id_take_nth_drop [OF assms] unfolding all_tables_def by (metis concat.simps(2) concat_append)
qed

lemma ids_of_levels: "list_ex (id_in i) (lm_levels lm) \<longleftrightarrow> i \<in> table_id ` set (all_tables lm)"
  by (auto simp: list_ex_iff id_in_def all_tables_def)

lemma level_tables: "lv < length (lm_levels lm) \<Longrightarrow> set (lm_levels lm ! lv) \<subseteq> set (all_tables lm)"
  using nth_mem by (fastforce simp: all_tables_def)

text \<open>What an installation accepts, compared with every table of its level.\<close>

definition admissible :: "TableMeta \<Rightarrow> LevelManager \<Rightarrow> bool" where
  "admissible meta lm \<longleftrightarrow>
     table_id meta \<noteq> 0 \<and> unat (tm_level meta) < length (lm_levels lm) \<and>
     smallest_key meta \<le> largest_key meta \<and> table_id meta \<notin> table_id ` set (all_tables lm) \<and>
     (tm_level meta = 0 \<or> (\<forall>t\<in>set (lm_levels lm ! unat (tm_level meta)).
        \<not> ranges_overlap (smallest_key t) (largest_key t) (smallest_key meta) (largest_key meta)))"

lemma add_table_cases:
  assumes ok: "levels_ok lm"
  shows "if admissible meta lm
    then \<exists>as bs. lm_levels lm ! unat (tm_level meta) = as @ bs \<and>
      add_table meta lm = (Ok, lm\<lparr>lm_levels := (lm_levels lm)[unat (tm_level meta) := as @ meta # bs]\<rparr>) \<and>
      level_ok (unat (tm_level meta)) (as @ meta # bs)
    else fst (add_table meta lm) \<noteq> Ok \<and> snd (add_table meta lm) = lm"
proof -
  let ?lv = "unat (tm_level meta)"
  define ts where "ts = lm_levels lm ! ?lv"
  show ?thesis
  proof (cases "table_id meta \<noteq> 0 \<and> ?lv < length (lm_levels lm) \<and> smallest_key meta \<le> largest_key meta \<and>
      table_id meta \<notin> table_id ` set (all_tables lm)")
    case False
    then show ?thesis
      by (auto simp: admissible_def add_table_def Let_def ids_of_levels not_le)
  next
    case True
    have lvl: "level_ok ?lv ts" using ok True by (simp add: levels_ok_def ts_def)
    have meta: "table_ok ?lv meta" using True by (simp add: table_ok_def)
    have new: "table_id meta \<notin> table_id ` set ts" using True level_tables [of ?lv lm] by (auto simp: ts_def)
    have code: "add_table meta lm = (case add_to_level meta ts of (c, ts') \<Rightarrow>
        (c, lm\<lparr>lm_levels := (lm_levels lm)[?lv := ts']\<rparr>))"
      using True by (simp add: add_table_def Let_def ids_of_levels ts_def not_le leD)
    have same: "lm\<lparr>lm_levels := (lm_levels lm)[?lv := ts]\<rparr> = lm" by (simp add: ts_def)
    show ?thesis
    proof (cases "tm_level meta = 0")
      case z: True
      then have lv0: "?lv = 0" by simp
      have "level_ok 0 ts" "table_ok 0 meta" using lvl meta lv0 by auto
      from add_to_level_0 [OF this new] show ?thesis using True z lv0 code unfolding admissible_def ts_def [symmetric] by auto
    next
      case nz: False
      then have pos: "0 < ?lv" by (simp add: unat_gt_0)
      define ov where "ov \<longleftrightarrow>
        (\<exists>t\<in>set ts. ranges_overlap (smallest_key t) (largest_key t) (smallest_key meta) (largest_key meta))"
      have adm: "admissible meta lm \<longleftrightarrow> \<not> ov" using True nz by (auto simp: admissible_def ts_def ov_def)
      note upper = add_to_level_upper [OF lvl pos meta, folded ov_def]
      show ?thesis
      proof (cases ov)
        case True
        then show ?thesis using upper code same adm by simp
      next
        case False
        then obtain as bs where "ts = as @ bs" "add_to_level meta ts = (Ok, as @ meta # bs)"
          "level_ok ?lv (as @ meta # bs)" using upper by auto
        then show ?thesis using code adm False unfolding ts_def by auto
      qed
    qed
  qed
qed

lemma add_table_effect:
  assumes "levels_ok lm"
  shows "case add_table meta lm of (c, lm') \<Rightarrow>
    levels_ok lm' \<and> (c = Ok \<longleftrightarrow> admissible meta lm) \<and>
    (if c = Ok then set (all_tables lm') = insert meta (set (all_tables lm)) else lm' = lm)"
proof (cases "admissible meta lm")
  case False
  then show ?thesis using add_table_cases [OF assms, of meta] assms by (auto split: prod.splits)
next
  case True
  let ?lv = "unat (tm_level meta)"
  obtain as bs where ab: "lm_levels lm ! ?lv = as @ bs" "level_ok ?lv (as @ meta # bs)"
    "add_table meta lm = (Ok, lm\<lparr>lm_levels := (lm_levels lm)[?lv := as @ meta # bs]\<rparr>)"
    using add_table_cases [OF assms, of meta] True by auto
  have lv: "?lv < length (lm_levels lm)" "table_id meta \<notin> table_id ` set (all_tables lm)"
    using True by (auto simp: admissible_def)
  obtain us vs where all: "all_tables lm = us @ lm_levels lm ! ?lv @ vs"
    "\<And>ts. all_tables (lm\<lparr>lm_levels := (lm_levels lm)[?lv := ts]\<rparr>) = us @ ts @ vs"
    using all_tables_update [OF lv(1)] by blast
  have "levels_ok (lm\<lparr>lm_levels := (lm_levels lm)[?lv := as @ meta # bs]\<rparr>)"
    using assms lv ab(1,2) all by (auto simp: levels_ok_def nth_list_update)
  then show ?thesis using ab all True by auto
qed

text \<open>On a manager that satisfies the level
  invariants, \<open>add_table\<close> accepts exactly the tables with a new id, an existing level, an ordered key
  range and, above level 0, no overlap with any table of the level, although it only looks at the
  two neighbours; it then adds that table and keeps the invariants, and otherwise changes
  nothing.\<close>

lemma add_table_correct:
  assumes "levels_ok lm"
  shows "case add_table meta lm of (c, lm') \<Rightarrow>
    levels_ok lm' \<and> (c = Ok \<longleftrightarrow> admissible meta lm) \<and>
    (if c = Ok then set (all_tables lm') = insert meta (set (all_tables lm)) else lm' = lm)"
  by (rule add_table_effect [OF assms])

section \<open>Lookups agree with plain filters\<close>

lemma filter_sorted_unique:
  assumes "level_ok lv ts" "0 < lv"
  shows "filter (key_is_inside_table k) ts =
    (let pos = lower_bound (\<lambda>t. entry_less (largest_key t) k) ts in
     if pos \<noteq> length ts \<and> key_is_inside_table k (ts ! pos) then [ts ! pos] else [])"
proof -
  note srt = level_ok_sorted [OF assms]
  obtain as bs where ts: "ts = as @ bs" "lower_bound (\<lambda>t. largest_key t < k) ts = length as"
    and parts: "\<forall>x\<in>set as. largest_key x < k" "\<forall>x\<in>set bs. \<not> largest_key x < k"
    using lower_bound_split [OF srt, of "\<lambda>t. largest_key t < k"] less_trans by blast
  have none: "filter (key_is_inside_table k) as = []" using parts(1) by (auto simp: filter_empty_conv not_le)
  show ?thesis
  proof (cases bs)
    case Nil
    then show ?thesis using ts none by (simp del: inside_iff)
  next
    case (Cons b bs')
    have "k < smallest_key t" if "t \<in> set bs'" for t
      using that srt ts Cons parts(2) by (auto simp: sorted_wrt_append not_less intro: le_less_trans)
    then have "filter (key_is_inside_table k) bs' = []" by (auto simp: filter_empty_conv not_le)
    then show ?thesis using ts none Cons by (simp add: Let_def nth_append)
  qed
qed

text \<open>On every existing level of a well-formed manager the
  candidate tables for a key are exactly the tables whose range contains it, in the order of the
  level; above level 0 the binary search finds the same as a scan, at most one table.\<close>

lemma find_candidate_correct:
  assumes "levels_ok lm" "lv < length (lm_levels lm)"
  shows "find_candidate_tables_in_level lv k lm =
      Inr (filter (\<lambda>t. smallest_key t \<le> k \<and> k \<le> largest_key t) (lm_levels lm ! lv)) \<and>
    (lv = 0 \<or> length (filter (\<lambda>t. smallest_key t \<le> k \<and> k \<le> largest_key t) (lm_levels lm ! lv)) \<le> 1)"
proof -
  have eq: "filter (\<lambda>t. smallest_key t \<le> k \<and> k \<le> largest_key t) ts = filter (key_is_inside_table k) ts" for ts
    by (rule filter_cong) simp_all
  have "level_ok lv (lm_levels lm ! lv)" using assms by (simp add: levels_ok_def)
  then show ?thesis
    using filter_sorted_unique [of lv "lm_levels lm ! lv" k] assms(2) unfolding eq
    by (cases "lv = 0") (simp_all add: find_candidate_tables_in_level_def Let_def del: inside_iff)
qed

lemma collect_overlapping_filter:
  "sorted_wrt (\<lambda>a b. smallest_key a < smallest_key b) ts \<Longrightarrow>
    collect_overlapping la ts = filter (\<lambda>t. smallest_key t \<le> la) ts"
proof (induction ts)
  case (Cons t ts)
  show ?case
  proof (cases "la < smallest_key t")
    case True
    then have "\<forall>u\<in>set ts. \<not> smallest_key u \<le> la"
      using Cons.prems by (auto simp: not_le intro: less_trans)
    then show ?thesis using True by (simp add: filter_empty_conv not_le)
  qed (use Cons in \<open>auto simp: not_less not_le\<close>)
qed simp

lemma find_overlapping_filter:
  assumes "levels_ok lm" "lv < length (lm_levels lm)" "sm \<le> la"
  shows "find_overlapping_tables lv sm la lm =
    filter (\<lambda>t. smallest_key t \<le> la \<and> sm \<le> largest_key t) (lm_levels lm ! lv)"
proof (cases "lv = 0")
  case True
  then show ?thesis using assms
    by (auto simp: find_overlapping_tables_def Let_def not_less intro!: filter_cong)
next
  case False
  define ts where "ts = lm_levels lm ! lv"
  have "level_ok lv ts" "0 < lv" using assms False by (auto simp: levels_ok_def ts_def)
  note srt = level_ok_sorted [OF this]
  obtain as bs where ts: "ts = as @ bs" "lower_bound (\<lambda>t. largest_key t < sm) ts = length as"
    and parts: "\<forall>x\<in>set as. largest_key x < sm" "\<forall>x\<in>set bs. \<not> largest_key x < sm"
    using lower_bound_split [OF srt, of "\<lambda>t. largest_key t < sm"] less_trans by blast
  have "sorted_wrt (\<lambda>a b. smallest_key a < smallest_key b) bs"
    using srt ts(1) by (auto simp: sorted_wrt_append elim: sorted_wrt_mono_rel [rotated])
  then have "find_overlapping_tables lv sm la lm = filter (\<lambda>t. smallest_key t \<le> la) bs"
    using assms False ts by (simp add: find_overlapping_tables_def Let_def ts_def [symmetric] collect_overlapping_filter not_less leD)
  also have "\<dots> = filter (\<lambda>t. smallest_key t \<le> la \<and> sm \<le> largest_key t) bs"
    using parts(2) by (intro filter_cong) (auto simp: not_less)
  also have "\<dots> = filter (\<lambda>t. smallest_key t \<le> la \<and> sm \<le> largest_key t) ts"
    using parts(1) ts(1) by (auto simp: filter_empty_conv not_le)
  finally show ?thesis by (simp add: ts_def)
qed

text \<open>C17 (range lookup by binary search). The tables reported for a key interval are exactly the
  tables of the level whose range meets it.\<close>

theorem find_overlapping_correct:
  assumes "levels_ok lm" "lv < length (lm_levels lm)" "sm \<le> la"
  shows "find_overlapping_tables lv sm la lm =
    filter (\<lambda>t. smallest_key t \<le> la \<and> sm \<le> largest_key t) (lm_levels lm ! lv)"
  using assms by (rule find_overlapping_filter)

section \<open>Removal\<close>

lemma positions_Nil: "positions i ts = [] \<longleftrightarrow> i \<notin> table_id ` set ts"
  unfolding positions_def filter_empty_conv by (auto simp: image_iff) (metis in_set_conv_nth atLeastLessThan_iff le0)

lemma positions_append: "positions i (as @ bs) = positions i as @ map (\<lambda>j. length as + j) (positions i bs)"
proof -
  have "[0 ..< length as + length bs] = [0 ..< length as] @ map (\<lambda>j. length as + j) [0 ..< length bs]"
    by (rule nth_equalityI) (auto simp: nth_append)
  moreover have "filter (\<lambda>j. table_id ((as @ bs) ! j) = i) [0 ..< length as] = positions i as"
    unfolding positions_def by (rule filter_cong) (auto simp: nth_append)
  ultimately show ?thesis by (simp add: positions_def filter_map comp_def)
qed

lemma positions_unique:
  assumes "distinct (map table_id (as @ t # bs))"
  shows "positions (table_id t) (as @ t # bs) = [length as]"
proof -
  have "positions (table_id t) as = []" "positions (table_id t) bs = []"
    using assms by (auto simp: positions_Nil)
  moreover have "positions (table_id t) [t] = [0]" by (simp add: positions_def)
  ultimately show ?thesis
    using positions_append [of "table_id t" as "[t] @ bs"] positions_append [of "table_id t" "[t]" bs] by simp
qed

lemma level_ok_remove: "level_ok lv (as @ t # bs) \<Longrightarrow> level_ok lv (as @ bs)"
  by (auto simp: level_ok_def sorted_wrt_append split: if_splits)

lemma remove_table_effect:
  assumes "levels_ok lm" "i \<noteq> 0" "unat lv < length (lm_levels lm)"
  shows "case remove_table i (Some lv) lm of (c, lm') \<Rightarrow>
    levels_ok lm' \<and>
    (if i \<in> table_id ` set (lm_levels lm ! unat lv)
     then c = Ok \<and> set (all_tables lm') = {t \<in> set (all_tables lm). table_id t \<noteq> i}
     else c = NotFound \<and> lm' = lm)"
proof (cases "i \<in> table_id ` set (lm_levels lm ! unat lv)")
  case False
  then show ?thesis using assms by (simp add: remove_table_def remove_table_at_def positions_Nil [THEN iffD2])
next
  case True
  let ?lv = "unat lv"
  obtain t as bs where t: "lm_levels lm ! ?lv = as @ t # bs" "table_id t = i"
    using True by (auto dest: split_list)
  obtain us vs where all: "all_tables lm = us @ lm_levels lm ! ?lv @ vs"
    "\<And>ts. all_tables (lm\<lparr>lm_levels := (lm_levels lm)[?lv := ts]\<rparr>) = us @ ts @ vs"
    using all_tables_update [OF assms(3)] by blast
  have d: "distinct (map table_id (us @ (as @ t # bs) @ vs))" using assms(1) all t by (simp add: levels_ok_def)
  have "distinct (map table_id (as @ t # bs))" using d by (simp only: map_append distinct_append)
  then have "positions i (as @ t # bs) = [length as]" using positions_unique t(2) by blast
  then have rm: "remove_table i (Some lv) lm = (Ok, lm\<lparr>lm_levels := (lm_levels lm)[?lv := as @ bs]\<rparr>)"
    using assms(2,3) t(1) by (simp add: remove_table_def remove_table_at_def remove_at_def)
  have "levels_ok (lm\<lparr>lm_levels := (lm_levels lm)[?lv := as @ bs]\<rparr>)"
    using assms(1,3) t(1) d all level_ok_remove [of ?lv as t bs]
    by (auto simp: levels_ok_def nth_list_update)
  moreover have eq: "set (us @ (as @ bs) @ vs) = {u \<in> set (us @ (as @ t # bs) @ vs). table_id u \<noteq> i}"
    using d t(2) by auto (metis image_eqI)+
  ultimately show ?thesis
    unfolding rm prod.case all(1) all(2) t(1) eq using True t(1) by simp
qed

text \<open>On a well-formed manager, removal from a named level takes out
  exactly the table with that id and keeps the invariants; it reports \<open>NotFound\<close> when the level
  does not have the id, and never a duplicate.\<close>

lemma remove_table_correct:
  assumes "levels_ok lm" "i \<noteq> 0" "unat lv < length (lm_levels lm)"
  shows "case remove_table i (Some lv) lm of (c, lm') \<Rightarrow>
    levels_ok lm' \<and>
    (if i \<in> table_id ` set (lm_levels lm ! unat lv)
     then c = Ok \<and> set (all_tables lm') = {t \<in> set (all_tables lm). table_id t \<noteq> i}
     else c = NotFound \<and> lm' = lm)"
  by (rule remove_table_effect [OF assms])

text \<open>The size of an existing level is the sum of its file sizes, or an
  exception when the sum does not fit 64 bits; no wrapped value is returned.\<close>

lemma get_layer_size_correct:
  assumes "lv < length (lm_levels lm)"
  shows "get_layer_size lv lm =
    (let total_size = sum_list (map (unat \<circ> file_size) (lm_levels lm ! lv)) in
     if total_size \<le> u64_max then Some total_size else None)"
proof -
  have "acc \<le> u64_max \<Longrightarrow> layer_size_loop ts acc =
      (let s = acc + sum_list (map (unat \<circ> file_size) ts) in if s \<le> u64_max then Some s else None)" for ts acc
    by (induction ts acc rule: layer_size_loop.induct) (auto simp: Let_def)
  then show ?thesis using assms by (simp add: get_layer_size_def)
qed

section \<open>Examples\<close>

definition ex_table :: "u64 \<Rightarrow> u32 \<Rightarrow> byte \<Rightarrow> byte \<Rightarrow> TableMeta" where
  "ex_table i lv a b = \<lparr>table_id = i, tm_level = lv, tm_path = [115], min_seq = 1, max_seq = 9, file_size = 100,
     record_count = 3, tombstone_count = 0, data_block_count = 1, data_bytes = 60,
     smallest_key = [a], largest_key = [b]\<rparr>"

definition ex_lm :: LevelManager where
  "ex_lm = \<lparr>lm_levels = [[ex_table 5 0 10 30, ex_table 4 0 1 20], [ex_table 1 1 10 20, ex_table 2 1 30 40]]\<rparr>"

lemma ex_lm_ok: "levels_ok ex_lm"
  by (simp add: levels_ok_def ex_lm_def all_tables_def level_ok_def table_ok_def ex_table_def less_Suc_eq)

theorem find_overlapping_correct_witness:
  "find_overlapping_tables 1 [15] [30] ex_lm = [ex_table 1 1 10 20, ex_table 2 1 30 40]"
proof -
  have "1 < length (lm_levels ex_lm)" "[15] \<le> [30 :: byte]" by (simp_all add: ex_lm_def)
  from find_overlapping_correct [OF ex_lm_ok this] show ?thesis by (simp add: ex_lm_def ex_table_def)
qed

end
