(* ===== verification/CompactionScheduler.thy ===== *)
theory CompactionScheduler
  imports LevelManager
begin

text \<open>
  When and what to compact (\<^verbatim>\<open>core/compaction/compaction_options.cpp\<close>,
  \<^verbatim>\<open>core/compaction/compaction_plan.cpp\<close>, \<^verbatim>\<open>core/compaction/compaction_scheduler.cpp\<close>). The
  scheduler is a function of the level manager and the options. On levels that satisfy their invariant
  it never fails, it finds work exactly when \<open>should_compact\<close> says so, and the plan it gives is valid
  and closed: no other table of the target level meets the key range of the plan.
\<close>

section \<open>Options\<close>

record CompactionOptions =
  max_levels :: u32
  l0_file_count_trigger :: u32
  max_bytes_per_level :: "u64 list"
  target_file_size_per_level :: "u64 list"

definition CompactionOptions_default :: CompactionOptions where
  "CompactionOptions_default =
     \<lparr>max_levels = 7, l0_file_count_trigger = 4,
      max_bytes_per_level = [0, 64 * 1024 * 1024, 640 * 1024 * 1024, 6400 * 1024 * 1024,
        64000 * 1024 * 1024, 640000 * 1024 * 1024, 0],
      target_file_size_per_level = [8 * 1024 * 1024, 8 * 1024 * 1024, 16 * 1024 * 1024, 32 * 1024 * 1024,
        64 * 1024 * 1024, 128 * 1024 * 1024, 256 * 1024 * 1024]\<rparr>"

text \<open>The levels that can be the source of a compaction between levels above 0, in scan order.\<close>

definition source_levels :: "CompactionOptions \<Rightarrow> nat list" where
  "source_levels opts = [1..<unat (max_levels opts) - 1]"

definition CompactionOptions_validate :: "CompactionOptions \<Rightarrow> StatusCode" where
  "CompactionOptions_validate opts =
     (if max_levels opts < 2 then InvalidArgument
      else if l0_file_count_trigger opts = 0 then InvalidArgument
      else if length (max_bytes_per_level opts) < unat (max_levels opts) then InvalidArgument
      else if length (target_file_size_per_level opts) < unat (max_levels opts) then InvalidArgument
      else if list_ex (\<lambda>level. max_bytes_per_level opts ! level = 0) (source_levels opts)
      then InvalidArgument
      else if list_ex (\<lambda>level. target_file_size_per_level opts ! level = 0)
        [1..<unat (max_levels opts)] then InvalidArgument
      else Ok)"

section \<open>Plans\<close>

datatype CompactionReason = Manual | L0ReachedLimit | LxReachedLimit

record CompactionPlan =
  cp_reason :: CompactionReason
  source_level :: u32
  target_level :: u32
  source_tables :: "TableMeta list"
  overlapping_tables :: "TableMeta list"
  plan_smallest :: ArenaEntry
  plan_largest :: ArenaEntry
  max_output_file_size :: u64

definition table_range_is_valid :: "TableMeta \<Rightarrow> bool" where
  "table_range_is_valid t \<longleftrightarrow> \<not> entry_less (largest_key t) (smallest_key t)"

definition range_contains :: "ArenaEntry \<Rightarrow> ArenaEntry \<Rightarrow> TableMeta \<Rightarrow> bool" where
  "range_contains smallest largest t \<longleftrightarrow>
     \<not> entry_less (smallest_key t) smallest \<and> \<not> entry_less largest (largest_key t)"

text \<open>The lambda \<open>validate_table\<close> and its loop; the list stands for the set of ids seen so far.\<close>

fun validate_tables :: "CompactionPlan \<Rightarrow> u32 \<Rightarrow> TableMeta list \<Rightarrow> u64 list \<Rightarrow> u64 list option" where
  "validate_tables plan expected_level [] table_ids = Some table_ids"
| "validate_tables plan expected_level (t # ts) table_ids =
     (if table_id t = 0 \<or> tm_level t \<noteq> expected_level then None
      else if \<not> table_range_is_valid t \<or> \<not> range_contains (plan_smallest plan) (plan_largest plan) t
      then None
      else if table_id t \<in> set table_ids then None
      else validate_tables plan expected_level ts (table_id t # table_ids))"

definition CompactionPlan_validate :: "CompactionPlan \<Rightarrow> bool" where
  "CompactionPlan_validate plan =
     (if source_tables plan = [] then False
      else if source_level plan = - 1 \<or> target_level plan \<noteq> source_level plan + 1 then False
      else if max_output_file_size plan = 0 then False
      else if entry_less (plan_largest plan) (plan_smallest plan) then False
      else if cp_reason plan = L0ReachedLimit \<and> source_level plan \<noteq> 0 then False
      else if cp_reason plan = LxReachedLimit \<and> source_level plan = 0 then False
      else case validate_tables plan (source_level plan) (source_tables plan) [] of
        None \<Rightarrow> False
      | Some table_ids \<Rightarrow>
          validate_tables plan (target_level plan) (overlapping_tables plan) table_ids \<noteq> None)"

section \<open>Scheduler\<close>

fun level_size_loop :: "TableMeta list \<Rightarrow> u64 \<Rightarrow> u64" where
  "level_size_loop [] acc = acc"
| "level_size_loop (t # ts) acc =
     (if file_size t > - 1 - acc then - 1 else level_size_loop ts (acc + file_size t))"

definition level_size_bytes :: "LevelManager \<Rightarrow> nat \<Rightarrow> u64" where
  "level_size_bytes lm level =
     (case get_lx_tables level lm of None \<Rightarrow> 0 | Some ts \<Rightarrow> level_size_loop ts 0)"

definition widen_plan_range :: "TableMeta \<Rightarrow> CompactionPlan \<Rightarrow> CompactionPlan" where
  "widen_plan_range t plan =
     (let plan = (if entry_less (smallest_key t) (plan_smallest plan)
                  then plan\<lparr>plan_smallest := smallest_key t\<rparr> else plan) in
      if entry_less (plan_largest plan) (largest_key t) then plan\<lparr>plan_largest := largest_key t\<rparr> else plan)"

text \<open>The comparator given to \<open>std::max_element\<close>, and its loop.\<close>

definition smaller_table :: "TableMeta \<Rightarrow> TableMeta \<Rightarrow> bool" where
  "smaller_table lhs rhs =
     (if file_size lhs \<noteq> file_size rhs then file_size lhs < file_size rhs
      else table_id lhs > table_id rhs)"

fun max_element :: "('a \<Rightarrow> 'a \<Rightarrow> bool) \<Rightarrow> 'a \<Rightarrow> 'a list \<Rightarrow> 'a" where
  "max_element lt best [] = best"
| "max_element lt best (x # xs) = max_element lt (if lt best x then x else best) xs"

definition pick_level_compaction ::
    "LevelManager \<Rightarrow> u32 \<Rightarrow> CompactionOptions \<Rightarrow> CompactionPlan option result" where
  "pick_level_compaction lm level opts =
     (case get_lx_tables (unat level) lm of
        None \<Rightarrow> Inl InvalidState
      | Some [] \<Rightarrow> Inl InvalidState
      | Some (first # rest) \<Rightarrow>
          if level + 1 \<ge> max_levels opts then Inl InvalidState
          else let
            srcs = (if level = 0 then first # rest else [max_element smaller_table first rest]);
            plan = \<lparr>cp_reason = (if level = 0 then L0ReachedLimit else LxReachedLimit),
              source_level = level, target_level = level + 1,
              source_tables = srcs, overlapping_tables = [],
              plan_smallest = smallest_key (hd srcs), plan_largest = largest_key (hd srcs),
              max_output_file_size = target_file_size_per_level opts ! unat (level + 1)\<rparr>;
            plan = fold widen_plan_range srcs plan;
            plan = plan\<lparr>overlapping_tables :=
              find_overlapping_tables (unat (level + 1)) (plan_smallest plan) (plan_largest plan) lm\<rparr>;
            plan = fold widen_plan_range (overlapping_tables plan) plan
          in if \<not> CompactionPlan_validate plan then Inl Corruption else Inr (Some plan))"

definition l0_triggered :: "LevelManager \<Rightarrow> CompactionOptions \<Rightarrow> bool" where
  "l0_triggered lm opts =
     (case get_lx_tables 0 lm of None \<Rightarrow> False
      | Some l0 \<Rightarrow> length l0 \<ge> unat (l0_file_count_trigger opts))"

definition over_budget :: "LevelManager \<Rightarrow> CompactionOptions \<Rightarrow> nat \<Rightarrow> bool" where
  "over_budget lm opts level \<longleftrightarrow> level_size_bytes lm level > max_bytes_per_level opts ! level"

definition should_compact :: "LevelManager \<Rightarrow> CompactionOptions \<Rightarrow> bool" where
  "should_compact lm opts =
     (if \<not> is_ok (CompactionOptions_validate opts) then False
      else if l0_triggered lm opts then True
      else list_ex (over_budget lm opts) (source_levels opts))"

definition pick_compaction :: "LevelManager \<Rightarrow> CompactionOptions \<Rightarrow> CompactionPlan option result" where
  "pick_compaction lm opts =
     (let options_status = CompactionOptions_validate opts in
      if \<not> is_ok options_status then Inl options_status
      else if l0_triggered lm opts then pick_level_compaction lm 0 opts
      else case List.find (over_budget lm opts) (source_levels opts) of
        Some level \<Rightarrow> pick_level_compaction lm (of_nat level) opts
      | None \<Rightarrow> Inr None)"

section \<open>Plans that are valid\<close>

definition planned :: "CompactionPlan \<Rightarrow> TableMeta list" where
  "planned plan = source_tables plan @ overlapping_tables plan"

definition inside_plan :: "CompactionPlan \<Rightarrow> u32 \<Rightarrow> TableMeta \<Rightarrow> bool" where
  "inside_plan plan level t \<longleftrightarrow> table_ok (unat level) t \<and>
     plan_smallest plan \<le> smallest_key t \<and> largest_key t \<le> plan_largest plan"

lemma validate_tables_Some:
  "(validate_tables plan level ts seen = Some ids) \<longleftrightarrow>
     (\<forall>t\<in>set ts. inside_plan plan level t) \<and> distinct (map table_id ts) \<and>
     set (map table_id ts) \<inter> set seen = {} \<and> ids = rev (map table_id ts) @ seen"
  by (induction ts arbitrary: seen)
    (auto simp: inside_plan_def table_ok_def table_range_is_valid_def range_contains_def not_less word_unat_eq_iff)

text \<open>What \<open>validate\<close> accepts.\<close>

lemma CompactionPlan_validate_alt:
  "CompactionPlan_validate plan \<longleftrightarrow>
     source_tables plan \<noteq> [] \<and> source_level plan \<noteq> - 1 \<and> target_level plan = source_level plan + 1 \<and>
     max_output_file_size plan \<noteq> 0 \<and> plan_smallest plan \<le> plan_largest plan \<and>
     (cp_reason plan = L0ReachedLimit \<longrightarrow> source_level plan = 0) \<and>
     (cp_reason plan = LxReachedLimit \<longrightarrow> source_level plan \<noteq> 0) \<and>
     (\<forall>t\<in>set (source_tables plan). inside_plan plan (source_level plan) t) \<and>
     (\<forall>t\<in>set (overlapping_tables plan). inside_plan plan (target_level plan) t) \<and>
     distinct (map table_id (planned plan))"
proof -
  have "validate_tables plan level ts seen \<noteq> None \<longleftrightarrow>
      (\<forall>t\<in>set ts. inside_plan plan level t) \<and> distinct (map table_id ts) \<and>
      set (map table_id ts) \<inter> set seen = {}" for level ts seen
    using validate_tables_Some [of plan level ts seen] by auto
  note * = this
  show ?thesis
  proof (cases "validate_tables plan (source_level plan) (source_tables plan) []")
    case None
    then show ?thesis using * [of "source_level plan" "source_tables plan" "[]"]
      by (auto simp: CompactionPlan_validate_def planned_def)
  next
    case (Some ids)
    then have "ids = rev (map table_id (source_tables plan))"
      "\<forall>t\<in>set (source_tables plan). inside_plan plan (source_level plan) t"
      "distinct (map table_id (source_tables plan))"
      by (simp_all add: validate_tables_Some)
    then show ?thesis using Some * [of "target_level plan" "overlapping_tables plan" ids]
      by (auto simp: CompactionPlan_validate_def planned_def not_less)
  qed
qed

section \<open>Widening\<close>

lemma widen_eq:
  "widen_plan_range t plan = plan\<lparr>plan_smallest := min (smallest_key t) (plan_smallest plan),
     plan_largest := max (largest_key t) (plan_largest plan)\<rparr>"
  by (cases plan) (auto simp: widen_plan_range_def Let_def min_def max_def)

lemma fold_widen:
  "fold widen_plan_range ts plan = plan\<lparr>plan_smallest := fold min (map smallest_key ts) (plan_smallest plan),
     plan_largest := fold max (map largest_key ts) (plan_largest plan)\<rparr>"
  by (induction ts arbitrary: plan) (simp_all add: widen_eq)

lemma fold_min_le:
  fixes a :: "'a :: linorder"
  shows "fold min xs a \<le> a" "x \<in> set xs \<Longrightarrow> fold min xs a \<le> x" "fold min xs a \<in> insert a (set xs)"
proof -
  have m: "fold min xs a = Min (insert a (set xs))" by (simp add: Min.set_eq_fold [symmetric])
  show "fold min xs a \<le> a" "x \<in> set xs \<Longrightarrow> fold min xs a \<le> x" unfolding m by (auto intro: Min_le)
  show "fold min xs a \<in> insert a (set xs)" unfolding m by (rule Min_in) auto
qed

lemma fold_max_ge:
  fixes a :: "'a :: linorder"
  shows "a \<le> fold max xs a" "x \<in> set xs \<Longrightarrow> x \<le> fold max xs a" "fold max xs a \<in> insert a (set xs)"
proof -
  have m: "fold max xs a = Max (insert a (set xs))" by (simp add: Max.set_eq_fold [symmetric])
  show "a \<le> fold max xs a" "x \<in> set xs \<Longrightarrow> x \<le> fold max xs a" unfolding m by (auto intro: Max_ge)
  show "fold max xs a \<in> insert a (set xs)" unfolding m by (rule Max_in) auto
qed

text \<open>The tables of a sorted level that meet an interval, joined with it, form an interval that no
  other table of the level meets.\<close>

lemma widened_closed:
  assumes lvl: "sorted_wrt below ts" "\<forall>t\<in>set ts. smallest_key t \<le> largest_key t"
    and os: "os = filter (\<lambda>t. smallest_key t \<le> hi \<and> lo \<le> largest_key t) ts"
    and u: "u \<in> set ts" "u \<notin> set os"
  shows "\<not> (smallest_key u \<le> fold max (map largest_key os) hi \<and>
    fold min (map smallest_key os) lo \<le> largest_key u)"
proof
  assume meets: "smallest_key u \<le> fold max (map largest_key os) hi \<and>
    fold min (map smallest_key os) lo \<le> largest_key u"
  have apart: "below u v \<or> below v u" if "v \<in> set os" for v
  proof -
    have "v \<in> set ts" "v \<noteq> u" using that os u by auto
    then show ?thesis using lvl(1) u(1)
      by (metis in_set_conv_nth linorder_neqE_nat sorted_wrt_nth_less)
  qed
  have ru: "smallest_key u \<le> largest_key u" using lvl(2) u(1) by blast
  consider "hi < smallest_key u" | "largest_key u < lo" using u os by force
  then show False
  proof cases
    case 1
    then have "fold max (map largest_key os) hi \<noteq> hi" using meets by auto
    then obtain v where v: "v \<in> set os" "fold max (map largest_key os) hi = largest_key v"
      using fold_max_ge(3) [of "map largest_key os" hi] by auto
    then have "smallest_key v \<le> hi" using os by auto
    then show False using apart [OF v(1)] v(2) meets 1 ru by auto
  next
    case 2
    then have "fold min (map smallest_key os) lo \<noteq> lo" using meets by auto
    then obtain v where v: "v \<in> set os" "fold min (map smallest_key os) lo = smallest_key v"
      using fold_min_le(3) [of "map smallest_key os" lo] by auto
    then have "lo \<le> largest_key v" using os by auto
    then show False using apart [OF v(1)] v(2) meets 2 ru by auto
  qed
qed

section \<open>The scheduler on well-formed levels\<close>

definition tables_of :: "LevelManager \<Rightarrow> nat \<Rightarrow> TableMeta list" where
  "tables_of lm level = (if level < length (lm_levels lm) then lm_levels lm ! level else [])"

lemma tables_ofD:
  assumes "levels_ok lm"
  shows "level_ok level (tables_of lm level)"
    and "set (tables_of lm level) \<subseteq> set (all_tables lm)"
    and "distinct (map table_id (tables_of lm level))"
proof -
  show "level_ok level (tables_of lm level)" using assms by (auto simp: tables_of_def levels_ok_def level_ok_def)
  show "set (tables_of lm level) \<subseteq> set (all_tables lm)"
    using level_tables [of level lm] by (auto simp: tables_of_def)
  have "distinct (map table_id (concat (lm_levels lm)))" using assms by (simp add: levels_ok_def all_tables_def)
  then show "distinct (map table_id (tables_of lm level))"
    by (auto simp: tables_of_def map_concat dest!: distinct_concat_iff [THEN iffD1])
qed

lemma distinct_across:
  assumes "distinct (map f (concat xss))" "i < j" "j < length xss" "x \<in> set (xss ! i)" "y \<in> set (xss ! j)"
  shows "f x \<noteq> f y"
proof -
  have "x \<in> set (concat (take j xss))"
    using assms(2-4) nth_mem [of i "take j xss"] by (auto intro!: bexI [of _ "xss ! i"])
  moreover have "distinct (map f (concat (take j xss @ xss ! j # drop (Suc j) xss)))"
    using assms(1,3) by (simp only: id_take_nth_drop [symmetric])
  ultimately show ?thesis using assms(5) by (auto dest!: disjoint_iff [THEN iffD1, rule_format])
qed

lemma planned_distinct:
  assumes "levels_ok lm" "i \<noteq> j" "set ss \<subseteq> set (tables_of lm i)" "set os \<subseteq> set (tables_of lm j)"
    and "distinct (map table_id ss)" "distinct (map table_id os)"
  shows "distinct (map table_id (ss @ os))"
proof -
  have "table_id s \<noteq> table_id t" if st: "s \<in> set ss" "t \<in> set os" for s t
  proof -
    have "distinct (map table_id (concat (lm_levels lm)))"
      using assms(1) by (simp add: levels_ok_def all_tables_def)
    note across = distinct_across [OF this]
    have "i < length (lm_levels lm)" "j < length (lm_levels lm)" "i < j \<or> j < i"
      "s \<in> set (lm_levels lm ! i)" "t \<in> set (lm_levels lm ! j)"
      using assms(2-4) st by (auto simp: tables_of_def split: if_splits)
    then show ?thesis using across [of i j s t] across [of j i t s] by auto
  qed
  then show ?thesis using assms(5,6) by auto
qed

lemma overlapping_eq:
  assumes "levels_ok lm" "sm \<le> la"
  shows "find_overlapping_tables level sm la lm =
    filter (\<lambda>t. smallest_key t \<le> la \<and> sm \<le> largest_key t) (tables_of lm level)"
  using find_overlapping_filter [OF assms(1) _ assms(2)]
  by (cases "level < length (lm_levels lm)") (simp_all add: tables_of_def find_overlapping_tables_def)

lemma max_element_in: "max_element lt b xs \<in> insert b (set xs)"
proof (induction xs arbitrary: b)
  case (Cons x xs)
  show ?case using Cons [of x] Cons [of b] by auto
qed simp

lemma max_element_largest:
  "x \<in> insert b (set xs) \<Longrightarrow> file_size x \<le> file_size (max_element smaller_table b xs)"
proof (induction xs arbitrary: b x)
  case (Cons y ys)
  have "file_size b \<le> file_size (if smaller_table b y then y else b)"
    "file_size y \<le> file_size (if smaller_table b y then y else b)"
    by (auto simp: smaller_table_def)
  then show ?case using Cons.prems Cons.IH [of "if smaller_table b y then y else b"]
      Cons.IH [of x "if smaller_table b y then y else b"]
    by (auto intro: order_trans)
qed simp

lemma options_okD:
  assumes "CompactionOptions_validate opts = Ok"
  shows "2 \<le> unat (max_levels opts)" "l0_file_count_trigger opts \<noteq> 0"
    and "1 \<le> level \<Longrightarrow> level < unat (max_levels opts) \<Longrightarrow> target_file_size_per_level opts ! level \<noteq> 0"
    and "unat (max_levels opts) \<le> length (target_file_size_per_level opts)"
  using assms
  by (auto simp: CompactionOptions_validate_def list_ex_iff not_less word_le_nat_alt split: if_splits)

text \<open>What a plan for a level promises.\<close>

definition scheduled :: "LevelManager \<Rightarrow> CompactionOptions \<Rightarrow> nat \<Rightarrow> CompactionPlan \<Rightarrow> bool" where
  "scheduled lm opts level plan \<longleftrightarrow>
     CompactionPlan_validate plan \<and> unat (source_level plan) = level \<and>
     unat (target_level plan) = level + 1 \<and> level + 1 < unat (max_levels opts) \<and>
     set (source_tables plan) \<subseteq> set (tables_of lm level) \<and>
     set (overlapping_tables plan) \<subseteq> set (tables_of lm (level + 1)) \<and>
     (\<forall>u\<in>set (tables_of lm (level + 1)) - set (overlapping_tables plan).
        \<not> ranges_overlap (smallest_key u) (largest_key u) (plan_smallest plan) (plan_largest plan)) \<and>
     (if level = 0 then source_tables plan = tables_of lm 0
      else \<exists>t. source_tables plan = [t] \<and> (\<forall>u\<in>set (tables_of lm level). file_size u \<le> file_size t))"

lemma pick_level_scheduled:
  assumes lm: "levels_ok lm" and opts: "CompactionOptions_validate opts = Ok"
    and ne: "tables_of lm level \<noteq> []" and up: "level + 1 < unat (max_levels opts)"
  shows "\<exists>plan. pick_level_compaction lm (of_nat level) opts = Inr (Some plan) \<and> scheduled lm opts level plan"
proof -
  have "unat (max_levels opts) < 2 ^ LENGTH(32)" by (rule unsigned_less)
  then have lw: "unat (of_nat level :: u32) = level" "unat (of_nat level + 1 :: u32) = level + 1"
    "\<not> (of_nat level + 1 :: u32) \<ge> max_levels opts" "(of_nat level :: u32) = 0 \<longleftrightarrow> level = 0"
    "(of_nat level :: u32) \<noteq> - 1"
    using up by (simp_all add: word_le_nat_alt word_unat_eq_iff unat_of_nat unat_word_ariths unsigned_minus_1_eq_mask mask_eq_exp_minus_1 flip: of_nat_Suc)
  obtain f r where fr: "tables_of lm level = f # r" using ne by (cases "tables_of lm level") auto
  then have get: "get_lx_tables level lm = Some (f # r)"
    by (auto simp: get_lx_tables_def tables_of_def split: if_splits)
  define srcs where "srcs = (if level = 0 then f # r else [max_element smaller_table f r])"
  define lo where "lo = fold min (map smallest_key srcs) (smallest_key (hd srcs))"
  define hi where "hi = fold max (map largest_key srcs) (largest_key (hd srcs))"
  define os where "os = find_overlapping_tables (level + 1) lo hi lm"
  define plan where "plan = \<lparr>cp_reason = (if level = 0 then L0ReachedLimit else LxReachedLimit),
    source_level = of_nat level, target_level = of_nat level + 1, source_tables = srcs,
    overlapping_tables = os, plan_smallest = fold min (map smallest_key os) lo,
    plan_largest = fold max (map largest_key os) hi,
    max_output_file_size = target_file_size_per_level opts ! (level + 1)\<rparr>"
  have srcs: "set srcs \<subseteq> set (tables_of lm level)" "srcs \<noteq> []" "distinct (map table_id srcs)"
    using max_element_in [of smaller_table f r] tables_ofD(3) [OF lm, of level] fr by (auto simp: srcs_def)
  have ok: "\<forall>t\<in>set (tables_of lm lv). table_ok lv t" for lv
    using tables_ofD(1) [OF lm] by (auto simp: level_ok_def)
  have "lo \<le> smallest_key (hd srcs)" "largest_key (hd srcs) \<le> hi"
    by (simp_all add: lo_def hi_def fold_min_le fold_max_ge)
  moreover have "smallest_key (hd srcs) \<le> largest_key (hd srcs)"
    using bspec [OF ok [of level], of "hd srcs"] srcs(1) hd_in_set [OF srcs(2)] by (auto simp: table_ok_def)
  ultimately have "lo \<le> hi" by simp
  then have os: "os = filter (\<lambda>t. smallest_key t \<le> hi \<and> lo \<le> largest_key t) (tables_of lm (level + 1))"
    unfolding os_def by (rule overlapping_eq [OF lm])
  have dos: "distinct (map table_id os)"
    using tables_ofD(3) [OF lm, of "level + 1"] by (simp add: os distinct_map_filter)
  have range: "plan_smallest plan \<le> lo" "hi \<le> plan_largest plan"
    by (simp_all add: plan_def fold_min_le fold_max_ge)
  have insrc: "inside_plan plan (of_nat level) t" if "t \<in> set srcs" for t
  proof -
    have "table_ok level t" using ok that srcs(1) by blast
    moreover have "lo \<le> smallest_key t" "largest_key t \<le> hi"
      using that by (auto simp: lo_def hi_def intro: fold_min_le fold_max_ge)
    ultimately show ?thesis using range lw(1) by (auto simp: inside_plan_def)
  qed
  have inos: "inside_plan plan (of_nat level + 1) t" if "t \<in> set os" for t
    using that ok [of "level + 1"] os fold_min_le(2) [of "smallest_key t" "map smallest_key os"]
      fold_max_ge(2) [of "largest_key t" "map largest_key os"] lw
    by (auto simp: inside_plan_def plan_def)
  have "distinct (map table_id (srcs @ os))"
    using planned_distinct [OF lm _ srcs(1) _ srcs(3) dos, of "level + 1"] os by auto
  then have "CompactionPlan_validate plan"
    using insrc inos srcs(2) lw range \<open>lo \<le> hi\<close> options_okD(3) [OF opts, of "level + 1"] up
    by (auto simp: CompactionPlan_validate_alt plan_def planned_def)
  moreover have "pick_level_compaction lm (of_nat level) opts = (if \<not> CompactionPlan_validate plan then Inl Corruption else Inr (Some plan))"
    by (simp only: pick_level_compaction_def lw get option.case list.case Let_def fold_widen if_False
      CompactionPlan.select_convs CompactionPlan.update_convs srcs_def [symmetric] lo_def [symmetric]
      hi_def [symmetric] os_def [symmetric] plan_def)
  moreover have "\<not> ranges_overlap (smallest_key u) (largest_key u) (plan_smallest plan) (plan_largest plan)"
    if "u \<in> set (tables_of lm (level + 1)) - set os" for u
    using widened_closed [OF _ _ os, of u] that tables_ofD(1) [OF lm, of "level + 1"] ok [of "level + 1"]
    by (auto simp: plan_def level_ok_def table_ok_def)
  ultimately show ?thesis using srcs lw os fr max_element_largest [of _ f r] up
    by (auto simp: scheduled_def plan_def srcs_def)
qed

lemma level_size_0 [simp]: "tables_of lm level = [] \<Longrightarrow> level_size_bytes lm level = 0"
  by (auto simp: level_size_bytes_def get_lx_tables_def tables_of_def)

lemma over_budgetD: "over_budget lm opts level \<Longrightarrow> tables_of lm level \<noteq> []"
  by (auto simp: over_budget_def)

lemma l0_triggeredD:
  "l0_triggered lm opts \<Longrightarrow> CompactionOptions_validate opts = Ok \<Longrightarrow> tables_of lm 0 \<noteq> []"
  using options_okD(2) [of opts]
  by (auto simp: l0_triggered_def get_lx_tables_def tables_of_def word_unat_eq_iff split: if_splits)

lemma find_list_ex: "List.find P xs = None \<longleftrightarrow> \<not> list_ex P xs"
  by (induction xs) auto

lemma find_SomeD: "List.find P xs = Some x \<Longrightarrow> P x \<and> x \<in> set xs"
  by (induction xs) (auto split: if_splits)

lemma pick_compaction_cases:
  assumes lm: "levels_ok lm" and opts: "CompactionOptions_validate opts = Ok"
  shows "(\<not> should_compact lm opts \<and> pick_compaction lm opts = Inr None) \<or>
    (should_compact lm opts \<and> (\<exists>plan level. pick_compaction lm opts = Inr (Some plan) \<and> scheduled lm opts level plan))"
proof (cases "l0_triggered lm opts")
  case True
  then show ?thesis
    using pick_level_scheduled [OF lm opts l0_triggeredD [OF True opts]] options_okD(1) [OF opts] opts
    by (auto simp: pick_compaction_def should_compact_def Let_def)
next
  case l0: False
  show ?thesis
  proof (cases "List.find (over_budget lm opts) (source_levels opts)")
    case None
    then show ?thesis using l0 opts find_list_ex [of "over_budget lm opts" "source_levels opts"]
      by (simp add: pick_compaction_def should_compact_def Let_def)
  next
    case (Some level)
    from find_SomeD [OF this] have "over_budget lm opts level" "level + 1 < unat (max_levels opts)"
      by (auto simp: source_levels_def)
    then show ?thesis using pick_level_scheduled [OF lm opts over_budgetD] l0 opts Some find_list_ex [of "over_budget lm opts" "source_levels opts"]
      by (fastforce simp: pick_compaction_def should_compact_def Let_def)
  qed
qed

text \<open>The size of a level is the sum of the file sizes, cut at the largest value of the type.\<close>

lemma u64_bound: "unat (x :: u64) \<le> u64_max"
proof -
  have "unat x < u64_max + 1" using unsigned_less [of x] by simp
  then show ?thesis by linarith
qed

lemma level_size_loop_unat:
  "unat (level_size_loop ts acc) = min u64_max (unat acc + sum_list (map (\<lambda>t. unat (file_size t)) ts))"
proof (induction ts arbitrary: acc)
  case Nil
  show ?case using u64_bound [of acc] by (simp only: level_size_loop.simps list.map sum_list.Nil add_0_right min_absorb2)
next
  case (Cons t ts)
  have m: "unat (- 1 - acc :: u64) = u64_max - unat acc"
    using u64_bound [of acc]
    by (subst unat_sub) (simp_all add: unsigned_minus_1_eq_mask mask_eq_exp_minus_1 word_le_nat_alt)
  show ?case
  proof (cases "file_size t > - 1 - acc")
    case True
    then show ?thesis using m by (simp add: word_less_nat_alt unsigned_minus_1_eq_mask mask_eq_exp_minus_1)
  next
    case False
    then have "unat (acc + file_size t) = unat acc + unat (file_size t)"
      using m u64_bound [of acc] by (simp add: word_less_nat_alt unat_word_ariths not_less)
    then show ?thesis using False Cons.IH [of "acc + file_size t"] by (simp add: ac_simps)
  qed
qed

text \<open>C24 (scheduling). With valid options and levels that satisfy their invariant the scheduler never
  fails. It returns a plan exactly when \<open>should_compact\<close> holds. The plan passes validation, its inputs
  are tables of the source and the target level, no other table of the target level meets its key
  range, level 0 is taken whole and of another level a largest table is taken.\<close>

theorem pick_compaction_correct:
  assumes "levels_ok lm" "CompactionOptions_validate opts = Ok"
  shows "case pick_compaction lm opts of
      Inl e \<Rightarrow> False
    | Inr None \<Rightarrow> \<not> should_compact lm opts
    | Inr (Some plan) \<Rightarrow> should_compact lm opts \<and> CompactionPlan_validate plan \<and>
        scheduled lm opts (unat (source_level plan)) plan"
  using pick_compaction_cases [OF assms] by (auto simp: scheduled_def)

section \<open>Example\<close>

definition ex_opts :: CompactionOptions where
  "ex_opts = \<lparr>max_levels = 3, l0_file_count_trigger = 2, max_bytes_per_level = [0, 150, 0],
     target_file_size_per_level = [1, 10, 20]\<rparr>"

theorem pick_compaction_correct_witness:
  "levels_ok ex_lm \<and> CompactionOptions_validate ex_opts = Ok \<and> should_compact ex_lm ex_opts \<and>
   (case pick_compaction ex_lm ex_opts of
      Inl e \<Rightarrow> False
    | Inr None \<Rightarrow> False
    | Inr (Some plan) \<Rightarrow> CompactionPlan_validate plan \<and> scheduled ex_lm ex_opts (unat (source_level plan)) plan)"
proof -
  have v: "CompactionOptions_validate ex_opts = Ok"
    by (simp add: CompactionOptions_validate_def ex_opts_def source_levels_def upt_rec)
  have s: "should_compact ex_lm ex_opts"
    by (simp add: should_compact_def v, simp add: l0_triggered_def ex_lm_def ex_opts_def get_lx_tables_def
      over_budget_def source_levels_def level_size_bytes_def ex_table_def upt_rec)
  show ?thesis using pick_compaction_correct [OF ex_lm_ok v] v s ex_lm_ok
    by (auto split: sum.splits option.splits)
qed

end
