(* ===== verification/Endian.thy ===== *)
theory Endian
  imports Records
begin

text \<open>
  Little-endian encodings of \<^verbatim>\<open>src/utils/endian_io.cpp\<close> (namespace \<^verbatim>\<open>kvdb::endian\<close>
  and the byte arrays of \<^verbatim>\<open>kvdb::blockio\<close>), the iostream codecs built from them, and
  \<^verbatim>\<open>InternalRecord::write\<close> / \<^verbatim>\<open>read\<close> of \<^verbatim>\<open>record.cpp\<close> on top.
  The lemmas show that decoding inverts encoding at every width and for a whole record.
\<close>

section \<open>Encodings into a byte vector\<close>

definition put_u8 :: "byte list \<Rightarrow> u8 \<Rightarrow> byte list" where
  "put_u8 out v = out @ [v]"

definition put_u16_le :: "byte list \<Rightarrow> u16 \<Rightarrow> byte list" where
  "put_u16_le out v = (out @ [ucast (v AND 0xFF)]) @ [ucast (drop_bit 8 v AND 0xFF)]"

definition put_u32_le :: "byte list \<Rightarrow> u32 \<Rightarrow> byte list" where
  "put_u32_le out v =
     foldl (\<lambda>acc shift. acc @ [ucast (drop_bit shift v AND 0xFF)]) out [0, 8, 16, 24]"

definition put_u64_le :: "byte list \<Rightarrow> u64 \<Rightarrow> byte list" where
  "put_u64_le out v =
     foldl (\<lambda>acc shift. acc @ [ucast (drop_bit shift v AND 0xFF)]) out
       [0, 8, 16, 24, 32, 40, 48, 56]"

definition put_bytes_with_u32_size :: "byte list \<Rightarrow> byte list \<Rightarrow> StatusCode \<times> byte list" where
  "put_bytes_with_u32_size out bytes =
     (if length bytes > u32_max then (InvalidArgument, out)
      else (Ok, put_u32_le out (of_nat (length bytes)) @ bytes))"

section \<open>Fixed-size byte arrays\<close>

definition enc_u8 :: "u8 \<Rightarrow> byte list" where
  "enc_u8 v = [v]"

definition enc_u16 :: "u16 \<Rightarrow> byte list" where
  "enc_u16 v = [ucast (v AND 0xFF), ucast (drop_bit 8 v AND 0xFF)]"

definition enc_u32 :: "u32 \<Rightarrow> byte list" where
  "enc_u32 v =
     [ucast (v AND 0xFF), ucast (drop_bit 8 v AND 0xFF),
      ucast (drop_bit 16 v AND 0xFF), ucast (drop_bit 24 v AND 0xFF)]"

definition enc_u64 :: "u64 \<Rightarrow> byte list" where
  "enc_u64 v =
     [ucast (v AND 0xFF), ucast (drop_bit 8 v AND 0xFF),
      ucast (drop_bit 16 v AND 0xFF), ucast (drop_bit 24 v AND 0xFF),
      ucast (drop_bit 32 v AND 0xFF), ucast (drop_bit 40 v AND 0xFF),
      ucast (drop_bit 48 v AND 0xFF), ucast (drop_bit 56 v AND 0xFF)]"

definition dec_u8 :: "byte list \<Rightarrow> u8" where
  "dec_u8 bs = bs ! 0"

definition dec_u16 :: "byte list \<Rightarrow> u16" where
  "dec_u16 bs = ucast (bs ! 0) OR push_bit 8 (ucast (bs ! 1))"

definition dec_u32 :: "byte list \<Rightarrow> u32" where
  "dec_u32 bs =
     ucast (bs ! 0) OR push_bit 8 (ucast (bs ! 1)) OR
     push_bit 16 (ucast (bs ! 2)) OR push_bit 24 (ucast (bs ! 3))"

definition dec_u64 :: "byte list \<Rightarrow> u64" where
  "dec_u64 bs =
     ucast (bs ! 0) OR push_bit 8 (ucast (bs ! 1)) OR
     push_bit 16 (ucast (bs ! 2)) OR push_bit 24 (ucast (bs ! 3)) OR
     push_bit 32 (ucast (bs ! 4)) OR push_bit 40 (ucast (bs ! 5)) OR
     push_bit 48 (ucast (bs ! 6)) OR push_bit 56 (ucast (bs ! 7))"

section \<open>Decoding inverts encoding\<close>

lemma enc_length [simp]:
  "length (enc_u8 a) = 1" "length (enc_u16 b) = 2" "length (enc_u32 c) = 4" "length (enc_u64 d) = 8"
  by (simp_all add: enc_u8_def enc_u16_def enc_u32_def enc_u64_def)

lemma low_byte_mask: "(0xFF :: 'a::len word) = mask 8"
  by (simp add: mask_eq_exp_minus_1)

lemma bit_low_byte:
  "bit (ucast (drop_bit k (v :: 'a::len word) AND 0xFF) :: byte) n \<longleftrightarrow> n < 8 \<and> bit v (k + n)"
proof -
  have *: "n < LENGTH('a)" if "bit v (k + n)"
    using bit_imp_le_length [OF that] by simp
  have "bit (ucast (drop_bit k v AND 0xFF) :: byte) n \<longleftrightarrow>
      n < 8 \<and> bit v (k + n) \<and> n < LENGTH('a)"
    by (simp only: low_byte_mask bit_ucast_iff bit_and_iff bit_mask_iff bit_drop_bit_eq comp_def
      possible_bit_word) auto
  with * show ?thesis by blast
qed

lemma bit_placed_byte:
  "bit (push_bit k (ucast (ucast (drop_bit k v AND 0xFF) :: byte)) :: 'a::len word) n \<longleftrightarrow>
     n < LENGTH('a) \<and> k \<le> n \<and> n < k + 8 \<and> bit v n"
proof -
  have "bit (push_bit k (ucast b) :: 'a word) n \<longleftrightarrow> n < LENGTH('a) \<and> k \<le> n \<and> bit b (n - k)"
    for b :: byte
    by (auto simp only: bit_push_bit_iff bit_ucast_iff possible_bit_word)
  then show ?thesis by (auto simp only: bit_low_byte le_add_diff_inverse)
qed

lemma bit_first_byte:
  "bit (ucast (ucast (v AND 0xFF) :: byte) :: 'a::len word) n \<longleftrightarrow> n < LENGTH('a) \<and> n < 8 \<and> bit v n"
  using bit_placed_byte [of 0 v n] by simp

lemma dec_u8_enc [simp]: "dec_u8 (enc_u8 v) = v"
  by (simp add: dec_u8_def enc_u8_def)

lemma dec_u16_enc [simp]: "dec_u16 (enc_u16 v) = v"
proof (rule bit_word_eqI)
  fix n assume "n < LENGTH(16)"
  then have n: "n < 16" by simp
  have "bit (dec_u16 (enc_u16 v)) n \<longleftrightarrow> (n < 8 \<or> 8 \<le> n) \<and> bit v n"
    using n unfolding dec_u16_def enc_u16_def
    by (auto simp: bit_or_iff bit_placed_byte bit_first_byte)
  then show "bit (dec_u16 (enc_u16 v)) n = bit v n" by auto
qed

lemma dec_u32_enc [simp]: "dec_u32 (enc_u32 v) = v"
proof (rule bit_word_eqI)
  fix n assume "n < LENGTH(32)"
  then have n: "n < 32" by simp
  have "bit (dec_u32 (enc_u32 v)) n \<longleftrightarrow>
      (n < 8 \<or> 8 \<le> n \<and> n < 16 \<or> 16 \<le> n \<and> n < 24 \<or> 24 \<le> n) \<and> bit v n"
    using n unfolding dec_u32_def enc_u32_def
    by (auto simp: bit_or_iff bit_placed_byte bit_first_byte)
  then show "bit (dec_u32 (enc_u32 v)) n = bit v n" by auto
qed

lemma dec_u64_enc [simp]: "dec_u64 (enc_u64 v) = v"
proof (rule bit_word_eqI)
  fix n assume "n < LENGTH(64)"
  then have n: "n < 64" by simp
  show "bit (dec_u64 (enc_u64 v)) n = bit v n"
  proof (cases "bit v n")
    case True
    with n show ?thesis unfolding dec_u64_def enc_u64_def
      by (simp add: bit_or_iff bit_placed_byte bit_first_byte) linarith
  next
    case False
    then show ?thesis unfolding dec_u64_def enc_u64_def
      by (simp add: bit_or_iff bit_placed_byte bit_first_byte)
  qed
qed

lemma put_eq_enc [simp]:
  "put_u8 out a = out @ enc_u8 a" "put_u16_le out b = out @ enc_u16 b"
  "put_u32_le out c = out @ enc_u32 c" "put_u64_le out d = out @ enc_u64 d"
  by (simp_all add: put_u8_def put_u16_le_def put_u32_le_def put_u64_le_def
      enc_u8_def enc_u16_def enc_u32_def enc_u64_def)

lemma unat_of_length_u32 [simp]:
  "n \<le> u32_max \<Longrightarrow> unat (of_nat n :: u32) = n"
  by (simp add: unat_of_nat)

section \<open>Streams\<close>

text \<open>
  A \<open>std::ostream\<close> holds the bytes written so far, how many more the device accepts, and its
  good bit; a \<open>std::istream\<close> the bytes still to read and its good bit. \<open>write\<close> on a stream that
  is not good does nothing; \<open>read\<close> past the end sets the fail bit.
\<close>

record ostream =
  os_bytes :: "byte list"
  os_room :: nat
  os_good :: bool

record istream =
  is_rest :: "byte list"
  is_good :: bool

definition ostream_write :: "byte list \<Rightarrow> ostream \<Rightarrow> ostream" where
  "ostream_write bs s =
     (if \<not> os_good s then s
      else if length bs \<le> os_room s
      then s\<lparr>os_bytes := os_bytes s @ bs, os_room := os_room s - length bs\<rparr>
      else s\<lparr>os_bytes := os_bytes s @ take (os_room s) bs, os_room := 0, os_good := False\<rparr>)"

definition istream_read :: "nat \<Rightarrow> istream \<Rightarrow> byte list \<times> istream" where
  "istream_read n s =
     (if \<not> is_good s then ([], s)
      else if n \<le> length (is_rest s)
      then (take n (is_rest s), s\<lparr>is_rest := drop n (is_rest s)\<rparr>)
      else (is_rest s, s\<lparr>is_rest := [], is_good := False\<rparr>))"

definition write_encoded :: "byte list \<Rightarrow> ostream \<Rightarrow> bool \<times> ostream" where
  "write_encoded encoded out = (let out' = ostream_write encoded out in (os_good out', out'))"

definition read_encoded :: "nat \<Rightarrow> istream \<Rightarrow> byte list option \<times> istream" where
  "read_encoded n inp =
     (case istream_read n inp of (bs, inp') \<Rightarrow> (if is_good inp' then Some bs else None, inp'))"

definition write_u8 :: "u8 \<Rightarrow> ostream \<Rightarrow> bool \<times> ostream" where
  "write_u8 v out = write_encoded (enc_u8 v) out"

definition write_u64_le :: "u64 \<Rightarrow> ostream \<Rightarrow> bool \<times> ostream" where
  "write_u64_le v out = write_encoded (enc_u64 v) out"

definition stream_write_bytes_with_u32_size :: "byte list \<Rightarrow> ostream \<Rightarrow> bool \<times> ostream" where
  "stream_write_bytes_with_u32_size bytes out =
     (if length bytes > u32_max then (False, out)
      else case write_encoded (enc_u32 (of_nat (length bytes))) out of
        (ok, out1) \<Rightarrow>
          if \<not> ok then (False, out1)
          else let out2 = (if bytes \<noteq> [] then ostream_write bytes out1 else out1)
               in (os_good out2, out2))"

definition read_u8 :: "istream \<Rightarrow> u8 option \<times> istream" where
  "read_u8 inp = (case read_encoded 1 inp of (bs, inp') \<Rightarrow> (map_option dec_u8 bs, inp'))"

definition read_u64_le :: "istream \<Rightarrow> u64 option \<times> istream" where
  "read_u64_le inp = (case read_encoded 8 inp of (bs, inp') \<Rightarrow> (map_option dec_u64 bs, inp'))"

definition stream_read_bytes_with_u32_size :: "istream \<Rightarrow> byte list option \<times> istream" where
  "stream_read_bytes_with_u32_size inp =
     (case read_encoded 4 inp of
        (None, inp1) \<Rightarrow> (None, inp1)
      | (Some encoded_size, inp1) \<Rightarrow>
          let size = unat (dec_u32 encoded_size) in
          if size = 0 then (Some [], inp1)
          else case istream_read size inp1 of
            (bytes, inp2) \<Rightarrow> (if is_good inp2 then Some bytes else None, inp2))"

section \<open>InternalRecord::write and InternalRecord::read\<close>

definition record_write :: "InternalRecord \<Rightarrow> ostream \<Rightarrow> bool \<times> ostream" where
  "record_write r file =
     (if rtype r \<noteq> Put \<and> rtype r \<noteq> Tombstone then (False, file)
      else case write_u64_le (seq_num r) file of (ok, f1) \<Rightarrow>
        if \<not> ok then (False, f1)
        else case write_u8 (type_to_u8 (rtype r)) f1 of (ok, f2) \<Rightarrow>
          if \<not> ok then (False, f2)
          else case stream_write_bytes_with_u32_size (key_entry r) f2 of (ok, f3) \<Rightarrow>
            if \<not> ok then (False, f3)
            else case stream_write_bytes_with_u32_size (value_entry r) f3 of (ok, f4) \<Rightarrow>
              if \<not> ok then (False, f4) else (True, f4))"

text \<open>\<open>make_entry\<close> is the outcome of copying a byte string into the arena; a failure rolls the
  arena back and yields no record.\<close>

definition record_read ::
  "(byte list \<Rightarrow> bool) \<Rightarrow> istream \<Rightarrow> InternalRecord option \<times> istream" where
  "record_read make_entry file =
     (case read_u64_le file of
        (None, f1) \<Rightarrow> (None, f1)
      | (Some seq, f1) \<Rightarrow>
        (case read_u8 f1 of
           (None, f2) \<Rightarrow> (None, f2)
         | (Some type_raw, f2) \<Rightarrow>
           if type_raw \<noteq> type_to_u8 Put \<and> type_raw \<noteq> type_to_u8 Tombstone then (None, f2)
           else case stream_read_bytes_with_u32_size f2 of
             (None, f3) \<Rightarrow> (None, f3)
           | (Some key_bytes, f3) \<Rightarrow>
             (case stream_read_bytes_with_u32_size f3 of
                (None, f4) \<Rightarrow> (None, f4)
              | (Some value_bytes, f4) \<Rightarrow>
                if \<not> make_entry key_bytes then (None, f4)
                else if \<not> make_entry value_bytes then (None, f4)
                else (Some \<lparr>key_entry = key_bytes, value_entry = value_bytes,
                            rtype = type_of_u8 type_raw, seq_num = seq\<rparr>, f4))))"

definition record_bytes :: "InternalRecord \<Rightarrow> byte list" where
  "record_bytes r =
     enc_u64 (seq_num r) @ enc_u8 (type_to_u8 (rtype r)) @
     enc_u32 (of_nat (length (key_entry r))) @ key_entry r @
     enc_u32 (of_nat (length (value_entry r))) @ value_entry r"

definition valid_record :: "InternalRecord \<Rightarrow> bool" where
  "valid_record r \<longleftrightarrow>
     rtype r \<noteq> Undefined \<and> length (key_entry r) \<le> u32_max \<and> length (value_entry r) \<le> u32_max"

lemma write_encoded_good:
  "os_good s \<Longrightarrow> length bs \<le> os_room s \<Longrightarrow>
     write_encoded bs s = (True, s\<lparr>os_bytes := os_bytes s @ bs, os_room := os_room s - length bs\<rparr>)"
  by (simp add: write_encoded_def ostream_write_def)

lemma stream_write_sized_good:
  assumes "os_good s" "length bs \<le> u32_max" "4 + length bs \<le> os_room s"
  shows "stream_write_bytes_with_u32_size bs s =
    (True, s\<lparr>os_bytes := os_bytes s @ enc_u32 (of_nat (length bs)) @ bs,
             os_room := os_room s - (4 + length bs)\<rparr>)"
  using assms
  by (auto simp: stream_write_bytes_with_u32_size_def write_encoded_good ostream_write_def Let_def)

lemma record_write_bytes:
  assumes "valid_record r" "os_good s" "length (record_bytes r) \<le> os_room s"
  shows "record_write r s =
    (True, s\<lparr>os_bytes := os_bytes s @ record_bytes r,
             os_room := os_room s - length (record_bytes r)\<rparr>)"
  using assms
  by (cases "rtype r")
    (simp_all add: record_write_def write_u64_le_def write_u8_def write_encoded_good
      stream_write_sized_good record_bytes_def valid_record_def algebra_simps)

lemma read_encoded_append:
  "length bs = n \<Longrightarrow> read_encoded n \<lparr>is_rest = bs @ rest, is_good = True\<rparr> =
     (Some bs, \<lparr>is_rest = rest, is_good = True\<rparr>)"
  by (simp add: read_encoded_def istream_read_def)

lemma stream_read_sized_append:
  "length bs \<le> u32_max \<Longrightarrow>
   stream_read_bytes_with_u32_size
     \<lparr>is_rest = enc_u32 (of_nat (length bs)) @ bs @ rest, is_good = True\<rparr> =
     (Some bs, \<lparr>is_rest = rest, is_good = True\<rparr>)"
  by (simp add: stream_read_bytes_with_u32_size_def read_encoded_append istream_read_def Let_def)

lemma record_read_bytes:
  assumes "valid_record r" "make_entry (key_entry r)" "make_entry (value_entry r)"
  shows "record_read make_entry \<lparr>is_rest = record_bytes r @ rest, is_good = True\<rparr> =
    (Some r, \<lparr>is_rest = rest, is_good = True\<rparr>)"
  using assms
  by (cases r; cases "rtype r")
    (simp_all add: record_read_def record_bytes_def valid_record_def read_u64_le_def read_u8_def
      read_encoded_append stream_read_sized_append type_to_u8_def type_of_u8_def)

section \<open>Properties\<close>

text \<open>A valid record written to a stream with room for it reads back as the
  same record, and the reader stops exactly behind it.\<close>

lemma record_stream_roundtrip:
  assumes "valid_record r" "os_good s" "length (record_bytes r) \<le> os_room s"
    "make_entry (key_entry r)" "make_entry (value_entry r)"
  shows "\<exists>s'. record_write r s = (True, s') \<and>
    record_read make_entry \<lparr>is_rest = drop (length (os_bytes s)) (os_bytes s') @ rest, is_good = True\<rparr> =
      (Some r, \<lparr>is_rest = rest, is_good = True\<rparr>)"
  using record_write_bytes [OF assms(1-3)] record_read_bytes [OF assms(1,4,5), of rest] by simp

end
