(* ===== verification/Files.thy ===== *)
theory Files
  imports Endian
begin

text \<open>
  The file abstraction (\<^verbatim>\<open>src/abstractions/file.cpp\<close>, POSIX branch) and the block helpers
  (\<^verbatim>\<open>src/utils/file_helpers.cpp\<close>).

  A writable file keeps its bytes; the OS cursor is always the end, since the file is opened with
  a seek to the end and only appended to. The behaviour of the kernel is an input of the model:
  \<open>wenv\<close>, \<open>wsenv\<close> and \<open>renv\<close> script the outcomes of the next \<open>write\<close>, \<open>fsync\<close> and \<open>pread\<close> calls
  (short transfers, \<open>EINTR\<close>, errors); a call after the end of its script succeeds in full.
  \<open>woff\<close> and \<open>roff\<close> are the offsets the caller passes by reference. Asserts of the source are
  compiled out, as in a release build; \<open>tracked\<close> states what they would check.
\<close>

section \<open>State\<close>

datatype write_outcome = Wrote nat | WriteIntr | WriteErr
datatype sync_outcome = SyncDone | SyncIntr | SyncErr
datatype read_outcome = GotUpTo nat | ReadIntr | ReadErr

record wfile =
  wdata :: "byte list"
  wfd :: bool
  wenv :: "write_outcome list"
  wsenv :: "sync_outcome list"
  wclose_ok :: bool
  wsynced :: nat
  woff :: nat

record rfile =
  rdata :: "byte list"
  rfd :: bool
  renv :: "read_outcome list"
  rclose_ok :: bool
  roff :: nat

section \<open>PosixWritableFile\<close>

definition current_position :: "wfile \<Rightarrow> nat result" where
  "current_position f = (if \<not> wfd f then Inl GetPositionFailed else Inr (length (wdata f)))"

text \<open>One system call moves at most \<open>SSIZE_MAX\<close> bytes.\<close>

definition io_chunk :: "nat \<Rightarrow> nat" where
  "io_chunk remaining = min remaining ssize_max"

lemma io_chunk_bounds [simp]:
  "io_chunk n \<le> n" "io_chunk n = 0 \<longleftrightarrow> n = 0" "0 < io_chunk n \<longleftrightarrow> 0 < n"
  by (auto simp: io_chunk_def)

definition transfer :: "nat \<Rightarrow> byte list \<Rightarrow> wfile \<Rightarrow> wfile" where
  "transfer n data f = f\<lparr>wdata := wdata f @ take n data, woff := woff f + n\<rparr>"

function append_loop :: "byte list \<Rightarrow> wfile action" where
  "append_loop data f =
     (if data = [] then (Ok, f)
      else let chunk = io_chunk (length data) in
        case wenv f of
          [] \<Rightarrow> append_loop (drop chunk data) (transfer chunk data f)
        | WriteIntr # env \<Rightarrow> append_loop data (f\<lparr>wenv := env\<rparr>)
        | WriteErr # env \<Rightarrow> (WriteFailed, f\<lparr>wenv := env\<rparr>)
        | Wrote k # env \<Rightarrow>
            let written = min k chunk in
            if written = 0 then (WriteFailed, f\<lparr>wenv := env\<rparr>)
            else append_loop (drop written data) (transfer written data (f\<lparr>wenv := env\<rparr>)))"
  by pat_completeness auto
termination
  by (relation "measure (\<lambda>(data, f). length data + length (wenv f))")
    (auto simp: transfer_def)

declare append_loop.simps [simp del]

definition append_file :: "byte list \<Rightarrow> wfile action" where
  "append_file data f = (case current_position f of Inl e \<Rightarrow> (e, f) | Inr _ \<Rightarrow> append_loop data f)"

function fsync_loop :: "wfile action" where
  "fsync_loop f =
     (case wsenv f of
        [] \<Rightarrow> (Ok, f\<lparr>wsynced := length (wdata f)\<rparr>)
      | SyncDone # env \<Rightarrow> (Ok, f\<lparr>wsenv := env, wsynced := length (wdata f)\<rparr>)
      | SyncIntr # env \<Rightarrow> fsync_loop (f\<lparr>wsenv := env\<rparr>)
      | SyncErr # env \<Rightarrow> (SyncFailed, f\<lparr>wsenv := env\<rparr>))"
  by pat_completeness auto
termination
  by (relation "measure (\<lambda>f. length (wsenv f))") auto

declare fsync_loop.simps [simp del]

definition sync :: "wfile action" where
  "sync f = (if \<not> wfd f then (SyncFailed, f) else fsync_loop f)"

definition wclose :: "wfile action" where
  "wclose f =
     (if \<not> wfd f then (Ok, f)
      else (if wclose_ok f then Ok else CloseFailed, f\<lparr>wfd := False\<rparr>))"

definition wget_file_size :: "wfile \<Rightarrow> nat result" where
  "wget_file_size f = (if \<not> wfd f then Inl GetSizeFailed else Inr (length (wdata f)))"

section \<open>PosixReadableFile and ReadableFile::read_exact_at\<close>

function read_at_loop :: "nat \<Rightarrow> nat \<Rightarrow> byte list \<Rightarrow> rfile \<Rightarrow> StatusCode \<times> byte list \<times> rfile" where
  "read_at_loop offset rsize acc f =
     (if length acc < rsize then
        let chunk = io_chunk (rsize - length acc); current_offset = offset + length acc in
        if current_offset > ssize_max then (DataTypeOverflow, acc, f)
        else case renv f of
          [] \<Rightarrow> let got = take chunk (drop current_offset (rdata f)) in
                if got = [] then (Ok, acc, f) else read_at_loop offset rsize (acc @ got) f
        | ReadIntr # env \<Rightarrow> read_at_loop offset rsize acc (f\<lparr>renv := env\<rparr>)
        | ReadErr # env \<Rightarrow> (ReadFailed, acc, f\<lparr>renv := env\<rparr>)
        | GotUpTo k # env \<Rightarrow>
            let got = take (min (Suc k) chunk) (drop current_offset (rdata f)) in
            if got = [] then (Ok, acc, f\<lparr>renv := env\<rparr>)
            else read_at_loop offset rsize (acc @ got) (f\<lparr>renv := env\<rparr>)
      else (Ok, acc, f))"
  by pat_completeness auto
termination
  by (relation "measure (\<lambda>(offset, rsize, acc, f). (rsize - length acc) + length (renv f))")
    (auto simp: min_def not_le intro!: diff_less_mono2)

declare read_at_loop.simps [simp del]

definition read_at :: "nat \<Rightarrow> nat \<Rightarrow> rfile \<Rightarrow> StatusCode \<times> byte list \<times> rfile" where
  "read_at offset rsize f = (if \<not> rfd f then (ReadFailed, [], f) else read_at_loop offset rsize [] f)"

function read_exact_loop :: "nat \<Rightarrow> nat \<Rightarrow> byte list \<Rightarrow> (rfile, byte list) reader" where
  "read_exact_loop offset rsize out f =
     (if length out < rsize then
        case read_at (offset + length out) (rsize - length out) f of (c, got, f') \<Rightarrow>
          if \<not> is_ok c then (Inl c, f')
          else if got = [] then (Inl UnexpectedEOF, f')
          else read_exact_loop offset rsize (out @ got) f'
      else (Inr out, f\<lparr>roff := offset + length out\<rparr>))"
  by pat_completeness auto
termination
  by (relation "measure (\<lambda>(offset, rsize, out, f). rsize - length out)")
    (auto simp: neq_Nil_conv)

declare read_exact_loop.simps [simp del]

definition read_exact_at :: "nat \<Rightarrow> nat \<Rightarrow> (rfile, byte list) reader" where
  "read_exact_at offset rsize f = read_exact_loop offset rsize [] f"

definition rclose :: "rfile \<Rightarrow> StatusCode \<times> rfile" where
  "rclose f =
     (if \<not> rfd f then (Ok, f)
      else (if rclose_ok f then Ok else CloseFailed, f\<lparr>rfd := False\<rparr>))"

definition get_file_size :: "rfile \<Rightarrow> nat result" where
  "get_file_size f = (if \<not> rfd f then Inl GetSizeFailed else Inr (length (rdata f)))"

section \<open>Block helpers\<close>

definition fits_in_block :: "nat \<Rightarrow> nat \<Rightarrow> nat \<Rightarrow> StatusCode" where
  "fits_in_block offset rsize block_size =
     (if block_size = 0 then InvalidArgument
      else if rsize = 0 then Ok
      else if rsize \<le> block_size - offset mod block_size then Ok
      else SizeExceedsBlockBoundary)"

text \<open>The padding byte of \<open>align_to_block_boundary\<close>.\<close>

definition poison_byte :: byte where
  "poison_byte = 0xCD"

function pad_loop :: "nat \<Rightarrow> nat \<Rightarrow> wfile action" where
  "pad_loop poison_size pad f =
     (if pad = 0 \<or> poison_size = 0 then (Ok, f)
      else let sz = min pad poison_size in
        case append_file (replicate sz poison_byte) f of (c, f') \<Rightarrow>
          if \<not> is_ok c then (c, f') else pad_loop poison_size (pad - sz) f')"
  by pat_completeness auto
termination
  by (relation "measure (\<lambda>(p, pad, f). pad)") (auto simp: min_def)

declare pad_loop.simps [simp del]

definition align_to_block_boundary :: "nat \<Rightarrow> wfile action" where
  "align_to_block_boundary block_size f =
     (if block_size = 0 then (InvalidArgument, f)
      else case current_position f of
        Inl e \<Rightarrow> (e, f)
      | Inr pos \<Rightarrow>
          if woff f \<noteq> pos then (InvalidOffset, f)
          else let in_block = woff f mod block_size in
            if in_block = 0 then (Ok, f)
            else let pad = block_size - in_block in pad_loop (min 4096 pad) pad f)"

definition ensure_fits_in_block :: "nat \<Rightarrow> nat \<Rightarrow> wfile action" where
  "ensure_fits_in_block rsize block_size f =
     (if block_size = 0 then (InvalidArgument, f)
      else case current_position f of
        Inl e \<Rightarrow> (e, f)
      | Inr pos \<Rightarrow>
          if woff f \<noteq> pos then (InvalidOffset, f)
          else if rsize > block_size then (SizeExceedsBlockSize, f)
          else let fits = fits_in_block (woff f) rsize block_size in
            if is_ok fits then (Ok, f)
            else if \<not> is_ok fits \<and> fits \<noteq> SizeExceedsBlockBoundary then (fits, f)
            else align_to_block_boundary block_size f)"

definition align_to_block_boundary_r :: "nat \<Rightarrow> rfile action" where
  "align_to_block_boundary_r block_size f =
     (if block_size = 0 then (InvalidArgument, f)
      else let in_block = roff f mod block_size in
        if in_block = 0 then (Ok, f)
        else if int (roff f) > int u64_max - int (block_size - in_block) then (DataTypeOverflow, f)
        else (Ok, f\<lparr>roff := roff f + (block_size - in_block)\<rparr>))"

definition ensure_fits_in_block_r :: "nat \<Rightarrow> nat \<Rightarrow> rfile action" where
  "ensure_fits_in_block_r rsize block_size f =
     (if block_size = 0 then (InvalidArgument, f)
      else if rsize > block_size then (SizeExceedsBlockSize, f)
      else let fits = fits_in_block (roff f) rsize block_size in
        if is_ok fits then (Ok, f)
        else if \<not> is_ok fits \<and> fits \<noteq> SizeExceedsBlockBoundary then (fits, f)
        else align_to_block_boundary_r block_size f)"

definition move_g_to_next_block :: "nat \<Rightarrow> rfile action" where
  "move_g_to_next_block block_size f =
     (if block_size = 0 then (InvalidArgument, f)
      else let in_block = roff f mod block_size;
               jump = (if in_block = 0 then block_size else block_size - in_block) in
        if int (roff f) > int u64_max - int jump then (DataTypeOverflow, f)
        else (Ok, f\<lparr>roff := roff f + jump\<rparr>))"

definition can_read_range :: "nat \<Rightarrow> nat \<Rightarrow> nat \<Rightarrow> StatusCode" where
  "can_read_range offset read_size file_size =
     (if offset > file_size then InvalidOffset
      else if read_size > file_size - offset then InvalidReadSize
      else Ok)"

definition offset_boundary_check :: "nat \<Rightarrow> nat \<Rightarrow> StatusCode" where
  "offset_boundary_check offset file_size = (if offset > file_size then InvalidOffset else Ok)"

section \<open>What a write leaves behind\<close>

text \<open>\<open>tracked\<close> is the agreement of cursor and tracked offset that the source checks before every
  write; \<open>write_faultfree\<close> says that no scripted \<open>write\<close> outcome is an error.\<close>

definition tracked :: "wfile \<Rightarrow> bool" where
  "tracked f \<longleftrightarrow> wfd f \<and> woff f = length (wdata f)"

definition write_faultfree :: "wfile \<Rightarrow> bool" where
  "write_faultfree f \<longleftrightarrow> WriteErr \<notin> set (wenv f) \<and> Wrote 0 \<notin> set (wenv f)"

text \<open>A device that takes single bytes and reports an error after \<open>j\<close> of them.\<close>

definition stops_after :: "nat \<Rightarrow> write_outcome list \<Rightarrow> write_outcome list \<Rightarrow> bool" where
  "stops_after j env rest \<longleftrightarrow> env = replicate j (Wrote 1) @ WriteErr # rest"

lemma stops_after_cases [simp]:
  "\<not> stops_after j [] rest" "\<not> stops_after j (WriteIntr # env) rest"
  "stops_after j (WriteErr # env) rest \<longleftrightarrow> j = 0 \<and> rest = env"
  "stops_after j (Wrote k # env) rest \<longleftrightarrow> k = 1 \<and> 0 < j \<and> stops_after (j - 1) env rest"
  by (cases j; auto simp: stops_after_def)+

text \<open>
  \<open>emits a bs f\<close>: run on \<open>f\<close>, the action appends a prefix of \<open>bs\<close> and nothing else; it reports
  success exactly when it appended all of \<open>bs\<close>, fails only with \<open>WriteFailed\<close>, and succeeds
  when the device reports no error; on a device that stops after \<open>j\<close> bytes it appends the first
  \<open>j\<close> bytes and fails when there are more, and leaves a device that stops after the others.
\<close>

definition emits :: "wfile action \<Rightarrow> byte list \<Rightarrow> wfile \<Rightarrow> bool" where
  "emits a bs f \<longleftrightarrow>
     (\<exists>c f' n. a f = (c, f') \<and> n \<le> length bs \<and> (c = Ok \<longrightarrow> n = length bs) \<and>
        c \<in> {Ok, WriteFailed} \<and>
        wdata f' = wdata f @ take n bs \<and> woff f' = woff f + n \<and> wfd f' = wfd f \<and>
        wsynced f' = wsynced f \<and> wsenv f' = wsenv f \<and> wclose_ok f' = wclose_ok f \<and>
        (write_faultfree f \<longrightarrow> c = Ok \<and> write_faultfree f') \<and>
        (\<forall>j rest. stops_after j (wenv f) rest \<longrightarrow>
           (if j < length bs then c = WriteFailed \<and> n = j \<and> wenv f' = rest
            else c = Ok \<and> stops_after (j - length bs) (wenv f') rest)))"

lemma emitsI:
  assumes "a f = (c, f')" "n \<le> length bs" "c = Ok \<Longrightarrow> n = length bs" "c \<in> {Ok, WriteFailed}"
    "wdata f' = wdata f @ take n bs" "woff f' = woff f + n" "wfd f' = wfd f"
    "wsynced f' = wsynced f" "wsenv f' = wsenv f" "wclose_ok f' = wclose_ok f"
    "write_faultfree f \<Longrightarrow> c = Ok \<and> write_faultfree f'"
    "\<And>j rest. stops_after j (wenv f) rest \<Longrightarrow>
       if j < length bs then c = WriteFailed \<and> n = j \<and> wenv f' = rest
       else c = Ok \<and> stops_after (j - length bs) (wenv f') rest"
  shows "emits a bs f"
  unfolding emits_def using assms by blast

lemma emits_cong: "a f = a' f \<Longrightarrow> emits a bs f \<longleftrightarrow> emits a' bs f"
  by (simp add: emits_def)

lemma emits_skip [simp]: "a f = (Ok, f) \<Longrightarrow> emits a [] f"
  by (rule emitsI [where n = 0]) simp_all

lemma emits_okD:
  assumes "emits a bs f" "a f = (Ok, f')" "tracked f"
  shows "wdata f' = wdata f @ bs \<and> tracked f' \<and> wsynced f' = wsynced f"
  using assms unfolding emits_def tracked_def by auto

lemma emits_faultfreeD:
  assumes "emits a bs f" "tracked f" "write_faultfree f"
  obtains f' where "a f = (Ok, f')" "wdata f' = wdata f @ bs" "tracked f'" "write_faultfree f'"
    "wsynced f' = wsynced f" "wsenv f' = wsenv f" "wclose_ok f' = wclose_ok f"
  using assms unfolding emits_def tracked_def by auto

lemma emits_prefixD:
  assumes "emits a bs f" "a f = (c, f')"
  shows "\<exists>n \<le> length bs. wdata f' = wdata f @ take n bs \<and> (c = Ok \<longrightarrow> n = length bs)"
  using assms unfolding emits_def by auto

text \<open>Sequential composition: the second action runs only where the first one succeeded.\<close>

lemma emits_seq:
  assumes tr: "tracked f" and a: "emits a bs1 f"
    and b: "\<And>f'. tracked f' \<Longrightarrow> wdata f' = wdata f @ bs1 \<Longrightarrow> wsynced f' = wsynced f \<Longrightarrow> emits b bs2 f'"
  shows "emits (\<lambda>f. case a f of (c, f') \<Rightarrow> if is_ok c then b f' else (c, f')) (bs1 @ bs2) f"
proof -
  from a obtain c f1 n where a1: "a f = (c, f1)" "n \<le> length bs1" "c = Ok \<longrightarrow> n = length bs1"
    "c \<in> {Ok, WriteFailed}" "wdata f1 = wdata f @ take n bs1" "woff f1 = woff f + n" "wfd f1 = wfd f"
    "wsynced f1 = wsynced f" "wsenv f1 = wsenv f" "wclose_ok f1 = wclose_ok f"
    "write_faultfree f \<longrightarrow> c = Ok \<and> write_faultfree f1"
    and s1: "\<And>j rest. stops_after j (wenv f) rest \<Longrightarrow>
      if j < length bs1 then c = WriteFailed \<and> n = j \<and> wenv f1 = rest
      else c = Ok \<and> stops_after (j - length bs1) (wenv f1) rest"
    unfolding emits_def by blast
  show ?thesis
  proof (cases "c = Ok")
    case False
    with a1 show ?thesis
      by (intro emitsI [where c = c and f' = f1 and n = n]) (auto dest!: s1 split: if_splits)
  next
    case True
    with a1 tr have "emits b bs2 f1" by (intro b) (auto simp: tracked_def)
    then obtain c2 f2 m where b1: "b f1 = (c2, f2)" "m \<le> length bs2" "c2 = Ok \<longrightarrow> m = length bs2"
      "c2 \<in> {Ok, WriteFailed}" "wdata f2 = wdata f1 @ take m bs2" "woff f2 = woff f1 + m"
      "wfd f2 = wfd f1" "wsynced f2 = wsynced f1" "wsenv f2 = wsenv f1" "wclose_ok f2 = wclose_ok f1"
      "write_faultfree f1 \<longrightarrow> c2 = Ok \<and> write_faultfree f2"
      and s2: "\<And>j rest. stops_after j (wenv f1) rest \<Longrightarrow>
        if j < length bs2 then c2 = WriteFailed \<and> m = j \<and> wenv f2 = rest
        else c2 = Ok \<and> stops_after (j - length bs2) (wenv f2) rest"
      unfolding emits_def by blast
    have st: "if j < length (bs1 @ bs2) then c2 = WriteFailed \<and> length bs1 + m = j \<and> wenv f2 = rest
        else c2 = Ok \<and> stops_after (j - length (bs1 @ bs2)) (wenv f2) rest"
      if "stops_after j (wenv f) rest" for j rest
      using s1 [OF that] s2 [of "j - length bs1" rest] True by (auto split: if_splits)
    from True a1 b1 show ?thesis
      by (intro emitsI [where c = c2 and f' = f2 and n = "length bs1 + m", OF _ _ _ _ _ _ _ _ _ _ _ st]) auto
  qed
qed

lemma emits_run_all_Cons:
  assumes "tracked f" "emits a bs1 f"
    and "\<And>f'. tracked f' \<Longrightarrow> wdata f' = wdata f @ bs1 \<Longrightarrow> wsynced f' = wsynced f \<Longrightarrow>
      emits (run_all as) bs2 f'"
  shows "emits (run_all (a # as)) (bs1 @ bs2) f"
proof -
  have "run_all (a # as) f = (case a f of (c, f') \<Rightarrow> if is_ok c then run_all as f' else (c, f'))"
    by simp
  then show ?thesis using emits_seq [OF assms] by (simp only: emits_def)
qed

lemma emits_run_all_Nil [simp]: "emits (run_all []) [] f"
  by simp

text \<open>One transfer of \<open>k\<close> bytes followed by an action that emits the rest.\<close>

lemma emits_step:
  assumes "a f = b g" "k \<le> length bs" "emits b (drop k bs) g"
    "wdata g = wdata f @ take k bs" "woff g = woff f + k" "wfd g = wfd f"
    "wsynced g = wsynced f" "wsenv g = wsenv f" "wclose_ok g = wclose_ok f"
    "write_faultfree f \<Longrightarrow> write_faultfree g"
    "\<And>j rest. stops_after j (wenv f) rest \<Longrightarrow> k \<le> j \<and> stops_after (j - k) (wenv g) rest"
  shows "emits a bs f"
proof -
  from assms(3) obtain c f2 n where b: "b g = (c, f2)" "n \<le> length (drop k bs)"
    "c = Ok \<longrightarrow> n = length (drop k bs)" "c \<in> {Ok, WriteFailed}"
    "wdata f2 = wdata g @ take n (drop k bs)" "woff f2 = woff g + n" "wfd f2 = wfd g"
    "wsynced f2 = wsynced g" "wsenv f2 = wsenv g" "wclose_ok f2 = wclose_ok g"
    "write_faultfree g \<longrightarrow> c = Ok \<and> write_faultfree f2"
    and s2: "\<And>j rest. stops_after j (wenv g) rest \<Longrightarrow>
      if j < length (drop k bs) then c = WriteFailed \<and> n = j \<and> wenv f2 = rest
      else c = Ok \<and> stops_after (j - length (drop k bs)) (wenv f2) rest"
    unfolding emits_def by blast
  have st: "if j < length bs then c = WriteFailed \<and> k + n = j \<and> wenv f2 = rest
      else c = Ok \<and> stops_after (j - length bs) (wenv f2) rest"
    if "stops_after j (wenv f) rest" for j rest
    using assms(2) assms(11) [OF that] s2 [of "j - k" rest] by (auto split: if_splits)
  have "take (k + n) bs = take k bs @ take n (drop k bs)"
    by (rule take_add)
  with assms(1-10) b show ?thesis
    by (intro emitsI [where c = c and f' = f2 and n = "k + n", OF _ _ _ _ _ _ _ _ _ _ _ st]) auto
qed

lemma append_loop_unfold:
  "bs \<noteq> [] \<Longrightarrow> wenv f = [] \<Longrightarrow>
     append_loop bs f =
       append_loop (drop (io_chunk (length bs)) bs) (transfer (io_chunk (length bs)) bs f)"
  "bs \<noteq> [] \<Longrightarrow> wenv f = WriteIntr # env \<Longrightarrow> append_loop bs f = append_loop bs (f\<lparr>wenv := env\<rparr>)"
  "bs \<noteq> [] \<Longrightarrow> wenv f = WriteErr # env \<Longrightarrow> append_loop bs f = (WriteFailed, f\<lparr>wenv := env\<rparr>)"
  "bs \<noteq> [] \<Longrightarrow> wenv f = Wrote k # env \<Longrightarrow> w = min k (io_chunk (length bs)) \<Longrightarrow>
     append_loop bs f =
       (if w = 0 then (WriteFailed, f\<lparr>wenv := env\<rparr>)
        else append_loop (drop w bs) (transfer w bs (f\<lparr>wenv := env\<rparr>)))"
  by (simp_all only: append_loop.simps [of bs f] Let_def if_False list.case write_outcome.case)

lemma tracked_transfer [simp]:
  "tracked f \<Longrightarrow> k \<le> length bs \<Longrightarrow> tracked (transfer k bs f)"
  "tracked (f\<lparr>wenv := env\<rparr>) = tracked f"
  by (simp_all add: tracked_def transfer_def)

lemma append_loop_emits: "tracked f \<Longrightarrow> emits (append_loop bs) bs f"
proof (induction bs f rule: append_loop.induct)
  case (1 bs f)
  show ?case
  proof (cases "bs = []")
    case True
    then show ?thesis by (simp add: append_loop.simps)
  next
    case ne: False
    show ?thesis
    proof (cases "wenv f")
      case Nil
      let ?k = "io_chunk (length bs)"
      show ?thesis
        by (rule emits_step [where a = "append_loop bs" and b = "append_loop (drop ?k bs)" and k = ?k,
              OF append_loop_unfold(1) [OF ne Nil] _ 1(1) [OF ne refl Nil]])
          (use \<open>tracked f\<close> Nil in \<open>simp_all add: transfer_def tracked_def write_faultfree_def\<close>)
    next
      case (Cons e env)
      show ?thesis
      proof (cases e)
        case WriteIntr
        show ?thesis
          by (rule emits_step [where a = "append_loop bs" and b = "append_loop bs" and k = 0,
                OF append_loop_unfold(2) [OF ne Cons [unfolded WriteIntr]]])
            (use 1(3) [OF ne refl Cons WriteIntr] \<open>tracked f\<close> Cons WriteIntr in
              \<open>simp_all add: write_faultfree_def\<close>)
      next
        case WriteErr
        show ?thesis
          by (rule emitsI [where a = "append_loop bs" and n = 0, OF append_loop_unfold(3) [OF ne Cons [unfolded WriteErr]]])
            (use Cons WriteErr ne in \<open>simp_all add: write_faultfree_def\<close>)
      next
        case (Wrote k)
        define w where "w = min k (io_chunk (length bs))"
        note eq = append_loop_unfold(4) [OF ne Cons [unfolded Wrote] w_def]
        have "w \<le> length bs" by (simp add: w_def min.coboundedI2)
        show ?thesis
        proof (cases "w = 0")
          case True
          with ne have "k = 0" by (auto simp: w_def min_def split: if_splits)
          with True eq Cons Wrote show ?thesis
            by (intro emitsI [where c = WriteFailed and f' = "f\<lparr>wenv := env\<rparr>" and n = 0])
              (simp_all add: write_faultfree_def)
        next
          case False
          note IH = 1(2) [OF ne refl Cons Wrote w_def False]
          have single: "k = 1 \<Longrightarrow> w = 1" using False by (auto simp: w_def min_def split: if_splits)
          show ?thesis
            by (rule emits_step [where a = "append_loop bs" and b = "append_loop (drop w bs)" and k = w, OF eq [unfolded if_not_P [OF False]] \<open>w \<le> length bs\<close> IH])
              (use \<open>tracked f\<close> \<open>w \<le> length bs\<close> single Cons Wrote in
                \<open>auto simp: transfer_def tracked_def write_faultfree_def\<close>)
        qed
      qed
    qed
  qed
qed

lemma append_file_emits: "tracked f \<Longrightarrow> emits (append_file bs) bs f"
  using append_loop_emits [of f bs]
  by (simp add: emits_def append_file_def current_position_def tracked_def)

lemma pad_loop_emits:
  "tracked f \<Longrightarrow> 0 < p \<Longrightarrow> emits (pad_loop p pad) (replicate pad poison_byte) f"
proof (induction pad arbitrary: f rule: less_induct)
  case (less pad)
  show ?case
  proof (cases "pad = 0")
    case True
    then show ?thesis by (simp add: pad_loop.simps)
  next
    case False
    define sz where "sz = min pad p"
    with False less.prems have sz: "0 < sz" "sz + (pad - sz) = pad" by (simp_all add: min_def)
    have eq: "pad_loop p pad f =
        (case append_file (replicate sz poison_byte) f of
           (c, f') \<Rightarrow> if is_ok c then pad_loop p (pad - sz) f' else (c, f'))"
      using False less.prems
      by (simp add: pad_loop.simps [of p pad f] sz_def Let_def split: prod.split)
    have "emits (\<lambda>f. case append_file (replicate sz poison_byte) f of
        (c, f') \<Rightarrow> if is_ok c then pad_loop p (pad - sz) f' else (c, f'))
        (replicate sz poison_byte @ replicate (pad - sz) poison_byte) f"
      using less sz by (intro emits_seq append_file_emits less.IH) auto
    with sz(2) show ?thesis by (simp only: emits_def eq flip: replicate_add)
  qed
qed

text \<open>The padding that \<open>ensure_fits_in_block\<close> writes before a field of \<open>n\<close> bytes at offset \<open>off\<close>.\<close>

definition pad_before :: "nat \<Rightarrow> nat \<Rightarrow> nat \<Rightarrow> byte list" where
  "pad_before off n B =
     (if n = 0 \<or> n \<le> B - off mod B then [] else replicate (B - off mod B) poison_byte)"

lemma ensure_fits_emits:
  assumes "tracked f" "0 < B" "n \<le> B"
  shows "emits (ensure_fits_in_block n B) (pad_before (length (wdata f)) n B) f"
proof (cases "n = 0 \<or> n \<le> B - length (wdata f) mod B")
  case True
  with assms show ?thesis
    by (auto simp: pad_before_def ensure_fits_in_block_def tracked_def current_position_def
      fits_in_block_def)
next
  case False
  let ?o = "length (wdata f)"
  have nz: "?o mod B \<noteq> 0" using False assms by auto
  have eq: "ensure_fits_in_block n B f = pad_loop (min 4096 (B - ?o mod B)) (B - ?o mod B) f"
    using False assms nz
    by (simp add: ensure_fits_in_block_def align_to_block_boundary_def tracked_def
      current_position_def fits_in_block_def Let_def)
  have "emits (pad_loop (min 4096 (B - ?o mod B)) (B - ?o mod B))
      (replicate (B - ?o mod B) poison_byte) f"
    using assms by (intro pad_loop_emits) auto
  with eq False show ?thesis by (simp add: pad_before_def emits_def)
qed

lemma pad_before_ok: "off mod B + n \<le> B \<Longrightarrow> pad_before off n B = []"
  by (auto simp: pad_before_def)

text \<open>After the padding a field of at most one block lies inside a block.\<close>

lemma pad_before_fits:
  assumes "0 < B" "n \<le> B"
  shows "(off + length (pad_before off n B)) mod B + n \<le> B \<or> n = 0"
proof (cases "n = 0 \<or> n \<le> B - off mod B")
  case True
  then show ?thesis using mod_less_divisor [OF assms(1), of off] by (auto simp: pad_before_def)
next
  case False
  have "off mod B < B" using assms by simp
  then have "(off + (B - off mod B)) mod B = 0"
    by (metis add.commute le_add_diff_inverse2 less_imp_le mod_add_left_eq mod_self)
  with False assms show ?thesis by (simp add: pad_before_def)
qed

section \<open>What a read returns\<close>

text \<open>\<open>read_quiet D f\<close>: \<open>f\<close> is open on the bytes \<open>D\<close> and no scripted \<open>pread\<close> fails; short
  reads and interrupts are allowed. \<open>yields m x o f\<close>: the reader \<open>m\<close> returns \<open>x\<close> on \<open>f\<close>
  and leaves the caller's offset at \<open>o\<close>.\<close>

definition read_quiet :: "byte list \<Rightarrow> rfile \<Rightarrow> bool" where
  "read_quiet D f \<longleftrightarrow> rfd f \<and> rdata f = D \<and> ReadErr \<notin> set (renv f) \<and> length D \<le> ssize_max"

definition yields :: "(rfile, 'a) reader \<Rightarrow> 'a result \<Rightarrow> nat \<Rightarrow> rfile \<Rightarrow> bool" where
  "yields m x out f \<longleftrightarrow> (\<exists>f'. m f = (x, f') \<and> read_quiet (rdata f) f' \<and> roff f' = out)"

lemma yields_bind:
  assumes "yields m (Inr v) o1 f"
    and "\<And>f'. read_quiet (rdata f) f' \<Longrightarrow> roff f' = o1 \<Longrightarrow> yields (k v) x o2 f'"
  shows "yields (bind_r m k) x o2 f"
proof -
  from assms(1) obtain f1 where f1: "m f = (Inr v, f1)" "read_quiet (rdata f) f1" "roff f1 = o1"
    unfolding yields_def by blast
  then have "rdata f1 = rdata f" by (simp add: read_quiet_def)
  with f1 assms(2) [OF f1(2,3)] show ?thesis by (simp add: yields_def)
qed

lemma yields_bind_error: "yields m (Inl e) o1 f \<Longrightarrow> yields (bind_r m k) (Inl e) o1 f"
  unfolding yields_def by auto

lemma yields_return: "read_quiet (rdata f) f \<Longrightarrow> roff f = o1 \<Longrightarrow> yields (return_r v) (Inr v) o1 f"
  by (simp add: yields_def return_r_def)

lemma read_quiet_upd [simp]:
  "read_quiet D (f\<lparr>roff := x\<rparr>) = read_quiet D f"
  by (simp add: read_quiet_def)

text \<open>One \<open>pread\<close> of at most \<open>k\<close> bytes extends a prefix of the wanted range, or the file ends there.\<close>

lemma read_step_prefix:
  assumes "acc = take (length acc) (drop off D)" "k \<le> rsize - length acc" "length acc \<le> rsize"
  defines "got \<equiv> take k (drop (off + length acc) D)"
  shows "acc @ got = take (length (acc @ got)) (drop off D)" "length (acc @ got) \<le> rsize"
proof -
  have "take (length acc + k) (drop off D) =
      take (length acc) (drop off D) @ take k (drop (length acc) (drop off D))"
    by (rule take_add)
  also have "\<dots> = acc @ got"
    using assms(1) by (simp add: got_def add.commute)
  finally have "take (length acc + k) (drop off D) = acc @ got" .
  then show "acc @ got = take (length (acc @ got)) (drop off D)"
    by (metis append_eq_conv_conj append_take_drop_id)
  show "length (acc @ got) \<le> rsize"
    using assms(2,3) by (simp add: got_def)
qed

lemma read_step_eof:
  assumes "acc = take (length acc) (drop off D)" "0 < k" "take k (drop (off + length acc) D) = []"
    "length acc \<le> rsize"
  shows "take rsize (drop off D) = acc"
proof -
  have "drop (length acc) (drop off D) = []" using assms by (simp add: add.commute)
  then have "drop off D = acc" using assms(1) by (metis append.right_neutral append_take_drop_id)
  with assms show ?thesis by simp
qed

lemma read_at_loop_unfold:
  assumes "length acc < rsize" "\<not> ssize_max < off + length acc"
  defines "c \<equiv> io_chunk (rsize - length acc)"
  shows
    "renv f = [] \<Longrightarrow> read_at_loop off rsize acc f =
       (let got = take c (drop (off + length acc) (rdata f)) in
        if got = [] then (Ok, acc, f) else read_at_loop off rsize (acc @ got) f)"
    "renv f = ReadIntr # env \<Longrightarrow>
       read_at_loop off rsize acc f = read_at_loop off rsize acc (f\<lparr>renv := env\<rparr>)"
    "renv f = GotUpTo k # env \<Longrightarrow> read_at_loop off rsize acc f =
       (let got = take (min (Suc k) c) (drop (off + length acc) (rdata f)) in
        if got = [] then (Ok, acc, f\<lparr>renv := env\<rparr>)
        else read_at_loop off rsize (acc @ got) (f\<lparr>renv := env\<rparr>))"
  using assms by (simp_all only: read_at_loop.simps [of off rsize acc f] Let_def if_True if_False
      list.case read_outcome.case c_def)

lemma read_at_loop_quiet:
  assumes "read_quiet D f" "off \<le> length D" "acc = take (length acc) (drop off D)"
    "length acc \<le> rsize"
  shows "\<exists>f'. read_at_loop off rsize acc f = (Ok, take rsize (drop off D), f') \<and>
    read_quiet D f' \<and> roff f' = roff f"
  using assms
proof (induction "(rsize - length acc) + length (renv f)" arbitrary: acc f rule: less_induct)
  case less
  let ?c = "io_chunk (rsize - length acc)" and ?o = "off + length acc"
  note D = \<open>read_quiet D f\<close> and pre = \<open>acc = take (length acc) (drop off D)\<close>
    and le = \<open>length acc \<le> rsize\<close>
  have "length acc \<le> length D - off" using arg_cong [OF pre, of length] by simp
  with \<open>off \<le> length D\<close> D have o: "\<not> ssize_max < ?o" unfolding read_quiet_def by linarith
  have [simp]: "rdata f = D" using D by (simp add: read_quiet_def)
  have grow: "\<exists>f'. (if got = [] then (Ok, acc, g) else read_at_loop off rsize (acc @ got) g) =
      (Ok, take rsize (drop off D), f') \<and> read_quiet D f' \<and> roff f' = roff f"
    if "got = take k (drop ?o D)" "0 < k" "k \<le> rsize - length acc" "read_quiet D g"
      "length (renv g) \<le> length (renv f)" "roff g = roff f" for got k g
  proof (cases "got = []")
    case True
    with that read_step_eof [OF pre that(2) _ le] show ?thesis by simp
  next
    case False
    note p = read_step_prefix [OF pre that(3) le, folded that(1)]
    from False p(2) have "rsize - length (acc @ got) < rsize - length acc" by (cases got) auto
    with less.hyps [OF _ that(4) less.prems(2) p] that False show ?thesis by simp
  qed
  show ?case
  proof (cases "length acc < rsize")
    case False
    with le pre have "take rsize (drop off D) = acc" by simp
    with False D show ?thesis by (simp add: read_at_loop.simps [of off rsize acc f])
  next
    case True
    note unf = read_at_loop_unfold [OF True o, of f]
    show ?thesis
    proof (cases "renv f")
      case Nil
      show ?thesis
        using grow [OF refl, of ?c f] True D by (simp add: unf(1) [OF Nil] Let_def)
    next
      case (Cons e env)
      with D have q: "read_quiet D (f\<lparr>renv := env\<rparr>)" "e \<noteq> ReadErr"
        by (auto simp: read_quiet_def)
      show ?thesis
      proof (cases e)
        case (GotUpTo k)
        show ?thesis
          using grow [OF refl, of "min (Suc k) ?c" "f\<lparr>renv := env\<rparr>"] True q Cons
          by (simp add: unf(3) [OF Cons [unfolded GotUpTo]] Let_def min.coboundedI2)
      next
        case ReadIntr
        show ?thesis
          using less.hyps [of acc "f\<lparr>renv := env\<rparr>"] q less.prems Cons
          by (simp add: unf(2) [OF Cons [unfolded ReadIntr]])
      qed (use q in simp)
    qed
  qed
qed

lemma read_at_quiet:
  assumes "read_quiet D f" "off \<le> length D"
  shows "\<exists>f'. read_at off n f = (Ok, take n (drop off D), f') \<and> read_quiet D f' \<and> roff f' = roff f"
  using read_at_loop_quiet [OF assms, of "[]" n] assms by (simp add: read_at_def read_quiet_def)

text \<open>\<open>read_exact_at\<close> returns the requested range when the file holds it, and \<open>UnexpectedEOF\<close>
  with the offset unchanged when the file is shorter; no short read or interrupt changes that.\<close>

lemma read_exact_at_yields:
  assumes "read_quiet (rdata f) f" "off + n \<le> length (rdata f)"
  shows "yields (read_exact_at off n) (Inr (take n (drop off (rdata f)))) (off + n) f"
proof -
  obtain f' where f': "read_at off n f = (Ok, take n (drop off (rdata f)), f')"
    "read_quiet (rdata f) f'" "roff f' = roff f"
    using read_at_quiet [OF assms(1), of off n] assms(2) by auto
  from assms(2) have len: "length (take n (drop off (rdata f))) = n" by simp
  show ?thesis
  proof (cases "n = 0")
    case True
    with assms show ?thesis
      by (simp add: yields_def read_exact_at_def read_exact_loop.simps)
  next
    case False
    with f' len have "read_exact_loop off n [] f =
        read_exact_loop off n (take n (drop off (rdata f))) f'"
      by (subst read_exact_loop.simps) auto
    also have "\<dots> = (Inr (take n (drop off (rdata f))), f'\<lparr>roff := off + n\<rparr>)"
      using len by (subst read_exact_loop.simps) simp
    finally show ?thesis using f' by (simp add: yields_def read_exact_at_def)
  qed
qed

lemma read_exact_at_eof:
  assumes "read_quiet (rdata f) f" "off \<le> length (rdata f)" "length (rdata f) < off + n"
  shows "yields (read_exact_at off n) (Inl UnexpectedEOF) (roff f) f"
proof -
  let ?D = "rdata f" and ?got = "drop off (rdata f)"
  have got: "take n ?got = ?got" "length ?got < n" using assms by auto
  obtain g where g: "read_at off n f = (Ok, ?got, g)" "read_quiet ?D g" "roff g = roff f"
    using read_at_quiet [OF assms(1,2), of n] got by auto
  obtain h where h: "read_at (off + length ?got) (n - length ?got) g = (Ok, [], h)"
    "read_quiet ?D h" "roff h = roff f"
    using read_at_quiet [OF g(2), of "off + length ?got" "n - length ?got"] g(3) assms by auto
  have again: "read_exact_loop off n ?got g = (Inl UnexpectedEOF, h)" if "?got \<noteq> []"
    using got(2) h(1) by (subst read_exact_loop.simps) simp
  have "read_exact_loop off n [] f =
      (if ?got = [] then (Inl UnexpectedEOF, g) else read_exact_loop off n ?got g)"
    using got(2) g(1) by (subst read_exact_loop.simps) simp
  then show ?thesis
    using g h again by (auto simp: yields_def read_exact_at_def)
qed

text \<open>The read-side block helper moves the offset exactly over the padding of the write side.\<close>

lemma ensure_fits_r_eq:
  assumes "0 < B" "n \<le> B" "roff f + B \<le> u64_max"
  shows "ensure_fits_in_block_r n B f =
    (Ok, f\<lparr>roff := roff f + length (pad_before (roff f) n B)\<rparr>)"
proof (cases "n = 0 \<or> n \<le> B - roff f mod B")
  case True
  with assms show ?thesis
    by (auto simp: ensure_fits_in_block_r_def fits_in_block_def pad_before_def)
next
  case False
  with assms have "roff f mod B \<noteq> 0" by auto
  moreover have "\<not> int (roff f) > int u64_max - int (B - roff f mod B)"
    using assms(3) by linarith
  ultimately show ?thesis using False assms
    by (simp add: ensure_fits_in_block_r_def align_to_block_boundary_r_def fits_in_block_def
      pad_before_def Let_def)
qed

section \<open>Properties\<close>

text \<open>Through short writes, interrupts and errors, \<open>append\<close> only ever adds a prefix of
  the requested bytes to the file and keeps the tracked offset at its end; it reports success
  exactly when all bytes were added, fails only with \<open>WriteFailed\<close>, and succeeds on a device that
  reports no error.\<close>

lemma append_file_appends_prefix:
  assumes "tracked f" "append_file bs f = (c, f')"
  shows "tracked f' \<and> (\<exists>n \<le> length bs. wdata f' = wdata f @ take n bs \<and> (c = Ok \<longrightarrow> n = length bs)) \<and>
    (c = Ok \<or> c = WriteFailed) \<and> (write_faultfree f \<longrightarrow> c = Ok)"
proof -
  have em: "emits (append_file bs) bs f" using append_file_emits [OF assms(1)] .
  then have "c \<in> {Ok, WriteFailed}" "tracked f'" "write_faultfree f \<longrightarrow> c = Ok"
    using assms unfolding emits_def tracked_def by auto
  with emits_prefixD [OF em assms(2)] show ?thesis by auto
qed

text \<open>On a file whose reads do not fail, and through any short reads and
  interrupts, \<open>read_exact_at\<close> returns the requested range when the file holds it, and
  \<open>UnexpectedEOF\<close> when the file ends before.\<close>

lemma read_exact_at_exact:
  assumes "read_quiet D f" "off \<le> length D"
  shows "fst (read_exact_at off n f) =
    (if off + n \<le> length D then Inr (take n (drop off D)) else Inl UnexpectedEOF)"
proof -
  have D: "rdata f = D" using assms(1) by (simp add: read_quiet_def)
  show ?thesis
    using read_exact_at_yields [of f off n] read_exact_at_eof [of f off n] assms
    by (auto simp: yields_def D not_le)
qed

end
