(* ===== verification/BlockIO.thy ===== *)
theory BlockIO
  imports Files
begin

text \<open>
  Block-aware field I/O (\<^verbatim>\<open>kvdb::blockio\<close> of \<^verbatim>\<open>src/utils/endian_io.cpp\<close>) and the
  CRC helpers (\<^verbatim>\<open>crc32_helpers\<close>). The locale \<open>block_codec\<close> states what the encoders of
  the log and table formats rely on: a fixed-size field is written after its padding, and read
  back from the offset it was written at. It is interpreted for the four integer widths.
  zlib's \<open>crc32\<close> is not part of the sources: it is the parameter \<open>zlib\<close> of the definitions that
  use it.
\<close>

section \<open>Writing\<close>

definition validate_block_size :: "nat \<Rightarrow> StatusCode" where
  "validate_block_size block_size = (if block_size = 0 then InvalidArgument else Ok)"

definition check_writer_offset :: "wfile \<Rightarrow> StatusCode" where
  "check_writer_offset f =
     (case current_position f of
        Inl e \<Rightarrow> e
      | Inr pos \<Rightarrow> if pos \<noteq> woff f then InvalidOffset else Ok)"

definition prepare_write :: "nat \<Rightarrow> nat \<Rightarrow> wfile action" where
  "prepare_write n block_size f =
     (let status = validate_block_size block_size in
      if \<not> is_ok status then (status, f)
      else let status = check_writer_offset f in
        if \<not> is_ok status then (status, f) else ensure_fits_in_block n block_size f)"

definition write_u8_t :: "u8 \<Rightarrow> nat \<Rightarrow> wfile action" where
  "write_u8_t v block_size = (\<lambda>f.
      case prepare_write 1 block_size f of (c, f') \<Rightarrow>
        if is_ok c then append_file (enc_u8 v) f' else (c, f'))"

definition write_u16_t_le :: "u16 \<Rightarrow> nat \<Rightarrow> wfile action" where
  "write_u16_t_le v block_size = (\<lambda>f.
      case prepare_write 2 block_size f of (c, f') \<Rightarrow>
        if is_ok c then append_file (enc_u16 v) f' else (c, f'))"

definition write_u32_t_le :: "u32 \<Rightarrow> nat \<Rightarrow> wfile action" where
  "write_u32_t_le v block_size = (\<lambda>f.
      case prepare_write 4 block_size f of (c, f') \<Rightarrow>
        if is_ok c then append_file (enc_u32 v) f' else (c, f'))"

definition write_u64_t_le :: "u64 \<Rightarrow> nat \<Rightarrow> wfile action" where
  "write_u64_t_le v block_size = (\<lambda>f.
      case prepare_write 8 block_size f of (c, f') \<Rightarrow>
        if is_ok c then append_file (enc_u64 v) f' else (c, f'))"

definition write_bytes :: "byte list \<Rightarrow> nat \<Rightarrow> wfile action" where
  "write_bytes data block_size = (\<lambda>f.
      case prepare_write (length data) block_size f of (c, f') \<Rightarrow>
        if is_ok c then (if data = [] then (Ok, f') else append_file data f') else (c, f'))"

definition write_bytes_with_u32_size :: "byte list \<Rightarrow> nat \<Rightarrow> wfile action" where
  "write_bytes_with_u32_size data block_size f =
     (let status = validate_block_size block_size in
      if \<not> is_ok status then (status, f)
      else if length data > u32_max then (InvalidArgument, f)
      else if length data > block_size then (SizeExceedsBlockSize, f)
      else let status = check_writer_offset f in
        if \<not> is_ok status then (status, f)
        else case write_u32_t_le (of_nat (length data)) block_size f of (c, f') \<Rightarrow>
          if is_ok c then write_bytes data block_size f' else (c, f'))"

section \<open>Reading\<close>

text \<open>The common body of the fixed-size readers: skip padding, read exactly \<open>n\<close> bytes, and put
  the caller's offset back on failure.\<close>

definition read_fixed :: "nat \<Rightarrow> nat \<Rightarrow> (rfile, byte list) reader" where
  "read_fixed n block_size f =
     (let status = validate_block_size block_size in
      if \<not> is_ok status then (Inl status, f)
      else let initial_offset = roff f in
        case ensure_fits_in_block_r n block_size f of (c, f1) \<Rightarrow>
          if \<not> is_ok c then (Inl c, f1\<lparr>roff := initial_offset\<rparr>)
          else case read_exact_at (roff f1) n f1 of
            (Inl e, f2) \<Rightarrow> (Inl e, f2\<lparr>roff := initial_offset\<rparr>)
          | (Inr bs, f2) \<Rightarrow> (Inr bs, f2))"

definition read_u8_t :: "nat \<Rightarrow> (rfile, u8) reader" where
  "read_u8_t block_size = bind_r (read_fixed 1 block_size) (\<lambda>bs. return_r (dec_u8 bs))"

definition read_u16_t_le :: "nat \<Rightarrow> (rfile, u16) reader" where
  "read_u16_t_le block_size = bind_r (read_fixed 2 block_size) (\<lambda>bs. return_r (dec_u16 bs))"

definition read_u32_t_le :: "nat \<Rightarrow> (rfile, u32) reader" where
  "read_u32_t_le block_size = bind_r (read_fixed 4 block_size) (\<lambda>bs. return_r (dec_u32 bs))"

definition read_u64_t_le :: "nat \<Rightarrow> (rfile, u64) reader" where
  "read_u64_t_le block_size = bind_r (read_fixed 8 block_size) (\<lambda>bs. return_r (dec_u64 bs))"

definition read_bytes :: "nat \<Rightarrow> nat \<Rightarrow> (rfile, byte list) reader" where
  "read_bytes n block_size f =
     (let status = validate_block_size block_size in
      if \<not> is_ok status then (Inl status, f)
      else if n = 0 then (Inr [], f)
      else let initial_offset = roff f in
        case ensure_fits_in_block_r n block_size f of (c, f1) \<Rightarrow>
          if \<not> is_ok c then (Inl c, f1\<lparr>roff := initial_offset\<rparr>)
          else case read_exact_at (roff f1) n f1 of
            (Inl e, f2) \<Rightarrow> (Inl e, f2\<lparr>roff := initial_offset\<rparr>)
          | (Inr bs, f2) \<Rightarrow> (Inr bs, f2))"

definition read_bytes_with_u32_size :: "nat \<Rightarrow> nat \<Rightarrow> (rfile, byte list) reader" where
  "read_bytes_with_u32_size buffer_size block_size f =
     (let status = validate_block_size block_size in
      if \<not> is_ok status then (Inl status, f)
      else let initial_offset = roff f in
        case read_u32_t_le block_size f of
          (Inl e, f1) \<Rightarrow> (Inl e, f1\<lparr>roff := initial_offset\<rparr>)
        | (Inr encoded_size, f1) \<Rightarrow>
            if unat encoded_size > buffer_size
            then (Inl BufferTooSmall, f1\<lparr>roff := initial_offset\<rparr>)
            else case read_bytes (unat encoded_size) block_size f1 of
              (Inl e, f2) \<Rightarrow> (Inl e, f2\<lparr>roff := initial_offset\<rparr>)
            | (Inr bs, f2) \<Rightarrow> (Inr bs, f2))"

section \<open>CRC accumulation\<close>

text \<open>\<open>zlib\<close> holds the two uses of zlib's \<open>crc32\<close>: its initial value (a call on a null buffer) and
  the update by a buffer of at most \<open>UINT_MAX\<close> bytes.\<close>

record zlib =
  crc_init :: u32
  crc_update :: "u32 \<Rightarrow> byte list \<Rightarrow> u32"

function compute_crc32 :: "zlib \<Rightarrow> u32 \<Rightarrow> byte list \<Rightarrow> u32" where
  "compute_crc32 z crc data =
     (if data = [] then crc
      else let chunk_size = min (length data) u32_max
           in compute_crc32 z (crc_update z crc (take chunk_size data)) (drop chunk_size data))"
  by pat_completeness auto
termination
  by (relation "measure (\<lambda>(z, crc, data). length data)") auto

declare compute_crc32.simps [simp del]

definition crc32_of :: "zlib \<Rightarrow> byte list \<Rightarrow> u32" where
  "crc32_of z data = compute_crc32 z (crc_init z) data"

text \<open>\<open>crc32_add_pod\<close> hashes the \<open>n\<close> little-endian bytes of an unsigned integer.\<close>

definition pod_bytes :: "nat \<Rightarrow> u64 \<Rightarrow> byte list" where
  "pod_bytes n wide_value = map (\<lambda>i. ucast (drop_bit (i * 8) wide_value AND 0xFF)) [0..<n]"

definition crc32_add_u8 :: "zlib \<Rightarrow> u8 \<Rightarrow> u32 \<Rightarrow> u32" where
  "crc32_add_u8 z v crc = compute_crc32 z crc (pod_bytes 1 (ucast v))"

definition crc32_add_u32 :: "zlib \<Rightarrow> u32 \<Rightarrow> u32 \<Rightarrow> u32" where
  "crc32_add_u32 z v crc = compute_crc32 z crc (pod_bytes 4 (ucast v))"

definition crc32_add_u64 :: "zlib \<Rightarrow> u64 \<Rightarrow> u32 \<Rightarrow> u32" where
  "crc32_add_u64 z v crc = compute_crc32 z crc (pod_bytes 8 v)"

definition crc32_add_string_with_u32_size :: "zlib \<Rightarrow> byte list \<Rightarrow> u32 \<Rightarrow> bool \<times> u32" where
  "crc32_add_string_with_u32_size z value crc =
     (if length value > u32_max then (False, crc)
      else (True, compute_crc32 z (crc32_add_u32 z (of_nat (length value)) crc) value))"

section \<open>The write side emits padding and field\<close>

lemma prepare_write_emits:
  assumes "tracked f" "0 < B" "n \<le> B"
  shows "emits (prepare_write n B) (pad_before (length (wdata f)) n B) f"
proof -
  have "prepare_write n B f = ensure_fits_in_block n B f"
    using assms by (simp add: prepare_write_def validate_block_size_def check_writer_offset_def
      current_position_def tracked_def)
  with ensure_fits_emits [OF assms] show ?thesis by (simp only: emits_def)
qed

lemma field_emits:
  assumes "tracked f" "0 < B" "n \<le> B"
  shows "emits (\<lambda>f. case prepare_write n B f of (c, f') \<Rightarrow>
      if is_ok c then append_file bs f' else (c, f')) (pad_before (length (wdata f)) n B @ bs) f"
  using assms by (intro emits_seq prepare_write_emits append_file_emits)

lemma write_bytes_emits:
  assumes "tracked f" "0 < B" "length bs \<le> B"
  shows "emits (write_bytes bs B) (pad_before (length (wdata f)) (length bs) B @ bs) f"
proof -
  have "append_file [] g = (Ok, g)" if "tracked g" for g
    using that by (simp add: append_file_def current_position_def tracked_def append_loop.simps)
  then have "emits (\<lambda>f'. if bs = [] then (Ok, f') else append_file bs f') bs g" if "tracked g" for g
    using that append_file_emits [OF that, of bs] by (cases "bs = []") (simp_all add: emits_def)
  with assms show ?thesis
    unfolding write_bytes_def by (intro emits_seq prepare_write_emits) auto
qed

section \<open>The read side\<close>

lemma read_fixed_yields:
  fixes f B n
  defines "s \<equiv> roff f + length (pad_before (roff f) n B)"
  assumes "read_quiet (rdata f) f" "0 < B" "n \<le> B" "roff f + B \<le> u64_max"
    "s + n \<le> length (rdata f)"
  shows "yields (read_fixed n B) (Inr (take n (drop s (rdata f)))) (s + n) f"
proof -
  let ?f1 = "f\<lparr>roff := s\<rparr>"
  have "yields (read_exact_at s n) (Inr (take n (drop s (rdata f)))) (s + n) ?f1"
    using read_exact_at_yields [of ?f1 s n] assms by simp
  moreover have "ensure_fits_in_block_r n B f = (Ok, ?f1)"
    using ensure_fits_r_eq [of B n f] assms by simp
  ultimately show ?thesis
    using assms(3) by (auto simp: yields_def read_fixed_def validate_block_size_def Let_def)
qed

lemma read_bytes_eq_fixed: "0 < n \<Longrightarrow> read_bytes n B f = read_fixed n B f"
  by (simp add: read_bytes_def read_fixed_def Let_def)

section \<open>The interface of a fixed-size field\<close>

locale block_codec =
  fixes wr :: "'a \<Rightarrow> nat \<Rightarrow> wfile action"
    and rd :: "nat \<Rightarrow> (rfile, 'a) reader"
    and enc :: "'a \<Rightarrow> byte list"
    and dec :: "byte list \<Rightarrow> 'a"
    and n :: nat
  assumes enc_len: "length (enc v) = n"
    and dec_enc: "dec (enc v) = v"
    and wr_law: "tracked f \<Longrightarrow> 0 < B \<Longrightarrow> n \<le> B \<Longrightarrow>
      emits (wr v B) (pad_before (length (wdata f)) n B @ enc v) f"
    and rd_law: "rd B = bind_r (read_fixed n B) (\<lambda>bs. return_r (dec bs))"
begin

text \<open>Where the field fits into the current block no padding is written.\<close>

lemma wr_fits:
  "tracked f \<Longrightarrow> length (wdata f) mod B + n \<le> B \<Longrightarrow> 0 < B \<Longrightarrow> emits (wr v B) (enc v) f"
  using wr_law [of f B v] by (simp add: pad_before_ok)

lemma rd_at_pad:
  assumes "read_quiet D f" "0 < B" "n \<le> B" "roff f + B \<le> u64_max"
    "D = p @ enc v @ q" "roff f + length (pad_before (roff f) n B) = length p"
  shows "yields (rd B) (Inr v) (length p + n) f"
proof -
  have D: "rdata f = D" using assms(1) by (simp add: read_quiet_def)
  have "yields (read_fixed n B) (Inr (enc v)) (length p + n) f"
    using read_fixed_yields [of f B n] assms D enc_len [of v] by simp
  then show ?thesis
    unfolding rd_law
    by (rule yields_bind) (use D in \<open>auto simp: dec_enc yields_def return_r_def read_quiet_def\<close>)
qed

lemma rd_fits:
  assumes "read_quiet D f" "0 < B" "roff f mod B + n \<le> B" "roff f + B \<le> u64_max"
    "D = p @ enc v @ q" "roff f = length p"
  shows "yields (rd B) (Inr v) (roff f + n) f"
  using rd_at_pad [of D f B p v q] assms pad_before_ok [of "roff f" B n] by simp

text \<open>Write, then read at the offset where the write started: the value comes back.\<close>

lemma wr_rd_roundtrip:
  assumes "tracked f" "0 < B" "n \<le> B" "wr v B f = (Ok, f')"
    "read_quiet (wdata f' @ rest) g" "roff g = length (wdata f)" "roff g + B \<le> u64_max"
  shows "yields (rd B) (Inr v) (length (wdata f')) g"
proof -
  let ?pad = "pad_before (length (wdata f)) n B"
  have "wdata f' = wdata f @ ?pad @ enc v"
    using emits_okD [OF wr_law assms(4)] assms by simp
  with assms rd_at_pad [OF assms(5), of B "wdata f @ ?pad" v rest] enc_len [of v]
  show ?thesis by (simp add: add.assoc)
qed

end

interpretation u8_field: block_codec write_u8_t read_u8_t enc_u8 dec_u8 1
proof unfold_locales
  fix v and B and f
  show "tracked f \<Longrightarrow> 0 < B \<Longrightarrow> 1 \<le> B \<Longrightarrow>
      emits (write_u8_t v B) (pad_before (length (wdata f)) 1 B @ enc_u8 v) f"
    unfolding write_u8_t_def by (rule field_emits)
qed (simp_all add: read_u8_t_def)

interpretation u16_field: block_codec write_u16_t_le read_u16_t_le enc_u16 dec_u16 2
proof unfold_locales
  fix v and B and f
  show "tracked f \<Longrightarrow> 0 < B \<Longrightarrow> 2 \<le> B \<Longrightarrow>
      emits (write_u16_t_le v B) (pad_before (length (wdata f)) 2 B @ enc_u16 v) f"
    unfolding write_u16_t_le_def by (rule field_emits)
qed (simp_all add: read_u16_t_le_def)

interpretation u32_field: block_codec write_u32_t_le read_u32_t_le enc_u32 dec_u32 4
proof unfold_locales
  fix v and B and f
  show "tracked f \<Longrightarrow> 0 < B \<Longrightarrow> 4 \<le> B \<Longrightarrow>
      emits (write_u32_t_le v B) (pad_before (length (wdata f)) 4 B @ enc_u32 v) f"
    unfolding write_u32_t_le_def by (rule field_emits)
qed (simp_all add: read_u32_t_le_def)

interpretation u64_field: block_codec write_u64_t_le read_u64_t_le enc_u64 dec_u64 8
proof unfold_locales
  fix v and B and f
  show "tracked f \<Longrightarrow> 0 < B \<Longrightarrow> 8 \<le> B \<Longrightarrow>
      emits (write_u64_t_le v B) (pad_before (length (wdata f)) 8 B @ enc_u64 v) f"
    unfolding write_u64_t_le_def by (rule field_emits)
qed (simp_all add: read_u64_t_le_def)

section \<open>Properties\<close>

text \<open>A 64-bit field written through the block layer at any offset, with
  whatever padding it needed, is read back from the offset where the write started, in any file that
  continues with the written bytes, and the reader stops where the writer stopped.\<close>

lemma block_u64_roundtrip:
  assumes "tracked f" "8 \<le> B" "write_u64_t_le v B f = (Ok, f')"
    "read_quiet (wdata f' @ rest) g" "roff g = length (wdata f)" "roff g + B \<le> u64_max"
  shows "\<exists>g'. read_u64_t_le B g = (Inr v, g') \<and> roff g' = length (wdata f')"
proof -
  have "0 < B" using assms(2) by simp
  from u64_field.wr_rd_roundtrip [OF assms(1) this assms(2-6)] show ?thesis by (auto simp: yields_def)
qed

definition ex_out :: wfile where
  "ex_out = \<lparr>wdata = replicate 10 0, wfd = True, wenv = [Wrote 2, WriteIntr], wsenv = [],
     wclose_ok = True, wsynced = 0, woff = 10\<rparr>"

end
