(* ===== verification/Arena.thy ===== *)
theory Arena
  imports BlockIO
begin

text \<open>
  The arena allocator (\<^verbatim>\<open>src/core/allocator/arena.cpp\<close> and the templates of
  \<^verbatim>\<open>include/core/allocator/arena.h\<close>). A page keeps its capacity, the bytes
  handed out and its alignment; its contents are not modelled, and a pointer is the
  page it lies in and the offset inside that page, so that the base addresses can be any that have
  the alignment of their pages. Destructor entries carry the object and
  count; \<open>destroyed\<close> logs the objects whose destructor has run. \<open>oom\<close> scripts which of the next
  heap requests (\<open>operator new\<close>, growth of a vector) throw \<open>std::bad_alloc\<close>; requests after the
  end of the script succeed.
\<close>

section \<open>State\<close>

record page =
  cap :: nat
  used :: nat
  page_alignment :: nat

datatype pointer = NullPtr | PagePtr nat nat | LargePtr nat nat

record arena =
  page_size :: nat
  large_threshold :: nat
  pages :: "page list"
  large :: "page list"
  destructors :: "(pointer \<times> nat) list"
  destroyed :: "(pointer \<times> nat) list"
  oom :: "bool list"

record checkpoint =
  page_count :: nat
  page_used :: nat
  large_count :: nat
  destructor_count :: nat

definition max_page_size :: nat where
  "max_page_size = 2 ^ 20"

definition max_align :: nat where
  "max_align = 16"

definition heap_request :: "arena \<Rightarrow> bool \<times> arena" where
  "heap_request a = (case oom a of [] \<Rightarrow> (True, a) | b # bs \<Rightarrow> (\<not> b, a\<lparr>oom := bs\<rparr>))"

definition arena_init :: "nat \<Rightarrow> nat \<Rightarrow> bool list \<Rightarrow> arena option" where
  "arena_init initial_page_size initial_large_threshold script =
     (if initial_page_size = 0 then None
      else if initial_page_size > max_page_size then None
      else if initial_large_threshold = 0 then None
      else Some \<lparr>page_size = initial_page_size, large_threshold = initial_large_threshold,
        pages = [], large = [], destructors = [], destroyed = [], oom = script\<rparr>)"

section \<open>Allocation\<close>

definition has_single_bit :: "nat \<Rightarrow> bool" where
  "has_single_bit n \<longleftrightarrow> n \<in> (\<lambda>k. 2 ^ k) ` {0..<64}"

definition align_up :: "nat \<Rightarrow> nat \<Rightarrow> nat result" where
  "align_up x alignment =
     (if alignment = 0 then Inl InvalidAlignment
      else if \<not> has_single_bit alignment then Inl InvalidAlignment
      else let msk = alignment - 1 in
        if x > u64_max - msk then Inl AllocationTooLarge
        else Inr (unat ((of_nat (x + msk) :: u64) AND NOT (of_nat msk))))"

definition alloc_page :: "nat \<Rightarrow> nat \<Rightarrow> arena \<Rightarrow> page result \<times> arena" where
  "alloc_page c alignment a =
     (if c = 0 then (Inl InvalidArgument, a)
      else case heap_request a of (ok, a') \<Rightarrow>
        if ok then (Inr \<lparr>cap = c, used = 0, page_alignment = alignment\<rparr>, a')
        else (Inl AllocationFailed, a'))"

definition fits_in :: "page \<Rightarrow> nat \<Rightarrow> nat \<Rightarrow> bool result" where
  "fits_in p n alignment =
     (case align_up (used p) alignment of
        Inl e \<Rightarrow> Inl e
      | Inr offset \<Rightarrow> if offset > cap p then Inr False else Inr (n \<le> cap p - offset))"

definition get_next_page_size :: "nat \<Rightarrow> arena \<Rightarrow> nat result" where
  "get_next_page_size n a =
     (if n = 0 then Inl InvalidArgument
      else if n > max_page_size then Inl AllocationTooLarge
      else if pages a = [] then Inr (max (page_size a) n)
      else let previous = cap (last (pages a));
               doubled = (if previous > max_page_size div 2 then max_page_size else previous * 2)
           in Inr (max doubled n))"

definition append_page :: "nat \<Rightarrow> arena action" where
  "append_page n a =
     (case get_next_page_size n a of
        Inl e \<Rightarrow> (e, a)
      | Inr sz \<Rightarrow> (case alloc_page sz max_align a of
          (Inl e, a1) \<Rightarrow> (e, a1)
        | (Inr p, a1) \<Rightarrow> (case heap_request a1 of (ok, a2) \<Rightarrow>
            if ok then (Ok, a2\<lparr>pages := pages a2 @ [p]\<rparr>) else (AllocationFailed, a2))))"

definition bump_last :: "nat \<Rightarrow> nat \<Rightarrow> (arena, pointer) reader" where
  "bump_last n alignment a =
     (let p = last (pages a) in
      case align_up (used p) alignment of
        Inl e \<Rightarrow> (Inl e, a)
      | Inr offset \<Rightarrow>
          if offset > cap p \<or> n > cap p - offset then (Inl AllocationFailed, a)
          else (Inr (PagePtr (length (pages a) - 1) offset),
                a\<lparr>pages := butlast (pages a) @ [p\<lparr>used := offset + n\<rparr>]\<rparr>))"

definition alloc_small :: "nat \<Rightarrow> nat \<Rightarrow> (arena, pointer) reader" where
  "alloc_small n alignment a =
     (case (if pages a = [] then append_page n a else (Ok, a)) of (c, a1) \<Rightarrow>
      if \<not> is_ok c then (Inl c, a1)
      else case fits_in (last (pages a1)) n alignment of
        Inl e \<Rightarrow> (Inl e, a1)
      | Inr fit \<Rightarrow> (case (if \<not> fit then append_page n a1 else (Ok, a1)) of (c, a2) \<Rightarrow>
          if \<not> is_ok c then (Inl c, a2) else bump_last n alignment a2))"

definition alloc_large :: "nat \<Rightarrow> nat \<Rightarrow> (arena, pointer) reader" where
  "alloc_large n alignment a =
     (case alloc_page n alignment a of
        (Inl e, a1) \<Rightarrow> (Inl e, a1)
      | (Inr p, a1) \<Rightarrow> (case heap_request a1 of (ok, a2) \<Rightarrow>
          if ok then (Inr (LargePtr (length (large a2)) 0), a2\<lparr>large := large a2 @ [p\<lparr>used := n\<rparr>]\<rparr>)
          else (Inl AllocationFailed, a2)))"

definition alloc :: "nat \<Rightarrow> nat \<Rightarrow> (arena, pointer) reader" where
  "alloc n alignment a =
     (if n = 0 then (Inr NullPtr, a)
      else if alignment = 0 then (Inl InvalidAlignment, a)
      else if \<not> has_single_bit alignment then (Inl InvalidAlignment, a)
      else if n \<ge> large_threshold a \<or> n > max_page_size \<or> alignment > max_align
      then alloc_large n alignment a
      else alloc_small n alignment a)"

definition arena_copy_bytes :: "byte list \<Rightarrow> (arena, byte list) reader" where
  "arena_copy_bytes src a =
     (if src = [] then (Inr [], a)
      else case alloc (length src) 1 a of
        (Inl e, a') \<Rightarrow> (Inl e, a')
      | (Inr _, a') \<Rightarrow> (Inr src, a'))"

definition arena_make_entry :: "byte list \<Rightarrow> (arena, byte list) reader" where
  "arena_make_entry bytes a =
     (if length bytes > u32_max then (Inl AllocationTooLarge, a) else arena_copy_bytes bytes a)"

section \<open>Accounting\<close>

fun add_checked :: "(page \<Rightarrow> nat) \<Rightarrow> page list \<Rightarrow> nat \<Rightarrow> nat result" where
  "add_checked f [] acc = Inr acc"
| "add_checked f (p # ps) acc =
     (if int acc > int u64_max - int (f p) then Inl AllocationTooLarge
      else add_checked f ps (acc + f p))"

definition get_reserved_bytes :: "arena \<Rightarrow> nat result" where
  "get_reserved_bytes a =
     (case add_checked cap (pages a) 0 of
        Inl e \<Rightarrow> Inl e | Inr acc \<Rightarrow> add_checked cap (large a) acc)"

definition get_used_bytes :: "arena \<Rightarrow> nat result" where
  "get_used_bytes a =
     (case add_checked used (pages a) 0 of
        Inl e \<Rightarrow> Inl e | Inr acc \<Rightarrow> add_checked used (large a) acc)"

section \<open>Checkpoints, destructors, reset\<close>

definition take_checkpoint :: "arena \<Rightarrow> checkpoint" where
  "take_checkpoint a =
     \<lparr>page_count = length (pages a),
      page_used = (if pages a = [] then 0 else used (last (pages a))),
      large_count = length (large a), destructor_count = length (destructors a)\<rparr>"

fun destroy_loop :: "nat \<Rightarrow> arena \<Rightarrow> arena" where
  "destroy_loop 0 a = a"
| "destroy_loop (Suc n) a =
     destroy_loop n (a\<lparr>destructors := butlast (destructors a),
       destroyed := destroyed a @ [last (destructors a)]\<rparr>)"

definition destroy_to :: "nat \<Rightarrow> arena \<Rightarrow> arena" where
  "destroy_to n a = destroy_loop (length (destructors a) - n) a"

definition register_destructor :: "pointer \<Rightarrow> nat \<Rightarrow> arena \<Rightarrow> bool \<times> arena" where
  "register_destructor obj cnt a =
     (case heap_request a of (ok, a') \<Rightarrow>
        if ok then (True, a'\<lparr>destructors := destructors a' @ [(obj, cnt)]\<rparr>) else (False, a'))"

text \<open>\<open>None\<close> is the \<open>std::invalid_argument\<close> for a checkpoint that is no longer reachable; the
  owner check is not modelled, a checkpoint is only used with the arena that produced it.\<close>

definition rollback :: "checkpoint \<Rightarrow> arena \<Rightarrow> arena option" where
  "rollback cp a =
     (if \<not> (page_count cp \<le> length (pages a) \<and> large_count cp \<le> length (large a) \<and>
            destructor_count cp \<le> length (destructors a) \<and>
            (page_count cp = 0 \<or> page_used cp \<le> used (pages a ! (page_count cp - 1))))
      then None
      else let a1 = destroy_to (destructor_count cp) a;
               a2 = a1\<lparr>pages := take (page_count cp) (pages a1)\<rparr>;
               a3 = (if page_count cp > 0 \<and> used (last (pages a2)) > page_used cp
                     then a2\<lparr>pages := butlast (pages a2) @
                            [(last (pages a2))\<lparr>used := page_used cp\<rparr>]\<rparr>
                     else a2)
           in Some (a3\<lparr>large := take (large_count cp) (large a3)\<rparr>))"

definition arena_reset :: "bool \<Rightarrow> arena \<Rightarrow> arena" where
  "arena_reset release_all a =
     (let a1 = (destroy_to 0 a)\<lparr>large := []\<rparr> in
      if release_all then a1\<lparr>pages := []\<rparr>
      else case pages a1 of [] \<Rightarrow> a1 | p # _ \<Rightarrow> a1\<lparr>pages := [p\<lparr>used := 0\<rparr>]\<rparr>)"

section \<open>Arena-owned objects\<close>

text \<open>\<open>arena_new\<close> and \<open>arena_new_array\<close> for a type of size \<open>sz\<close> and alignment \<open>al\<close>; \<open>trivial\<close> says
  that it is trivially destructible, \<open>throws\<close> (for arrays: \<open>fault\<close>, the index of the element) that
  its constructor throws. The result \<open>None\<close> is an exception that leaves the function.\<close>

fun ptr_add :: "pointer \<Rightarrow> nat \<Rightarrow> pointer" where
  "ptr_add NullPtr k = NullPtr"
| "ptr_add (PagePtr i x) k = PagePtr i (x + k)"
| "ptr_add (LargePtr i x) k = LargePtr i (x + k)"

definition rethrow :: "checkpoint \<Rightarrow> arena \<Rightarrow> pointer result option \<times> arena" where
  "rethrow cp a = (None, case rollback cp a of None \<Rightarrow> a | Some b \<Rightarrow> b)"

definition abandon_object :: "checkpoint \<Rightarrow> pointer \<Rightarrow> arena \<Rightarrow> pointer result option \<times> arena" where
  "abandon_object cp obj a =
     (let a1 = a\<lparr>destroyed := destroyed a @ [(obj, 1)]\<rparr> in
      case rollback cp a1 of
        None \<Rightarrow> (None, a1)
      | Some b \<Rightarrow> (Some (Inl AllocationFailed), b))"

definition arena_new :: "nat \<Rightarrow> nat \<Rightarrow> bool \<Rightarrow> bool \<Rightarrow> arena \<Rightarrow> pointer result option \<times> arena" where
  "arena_new sz al trivial throws a =
     (let cp = take_checkpoint a in
      case alloc sz al a of
        (Inl e, a1) \<Rightarrow> (Some (Inl e), a1)
      | (Inr obj, a1) \<Rightarrow>
          if throws then rethrow cp a1
          else if trivial then (Some (Inr obj), a1)
          else case register_destructor obj 1 a1 of
            (True, a2) \<Rightarrow> (Some (Inr obj), a2)
          | (False, a2) \<Rightarrow> abandon_object cp obj a2)"

text \<open>The element loop, with \<open>n\<close> elements left and the next one at index \<open>i\<close>.\<close>

fun construct_loop :: "nat \<Rightarrow> bool \<Rightarrow> nat option \<Rightarrow> checkpoint \<Rightarrow> pointer \<Rightarrow> nat \<Rightarrow> nat \<Rightarrow> arena \<Rightarrow>
    pointer result option \<times> arena" where
  "construct_loop sz trivial fault cp objs 0 i a = (Some (Inr objs), a)"
| "construct_loop sz trivial fault cp objs (Suc n) i a =
     (if fault = Some i then rethrow cp a
      else if trivial then construct_loop sz trivial fault cp objs n (Suc i) a
      else case register_destructor (ptr_add objs (i * sz)) 1 a of
        (True, a1) \<Rightarrow> construct_loop sz trivial fault cp objs n (Suc i) a1
      | (False, a1) \<Rightarrow> abandon_object cp (ptr_add objs (i * sz)) a1)"

definition arena_new_array :: "nat \<Rightarrow> nat \<Rightarrow> bool \<Rightarrow> nat option \<Rightarrow> nat \<Rightarrow> arena \<Rightarrow>
    pointer result option \<times> arena" where
  "arena_new_array sz al trivial fault cnt a =
     (if cnt = 0 then (Some (Inl InvalidArgument), a)
      else if cnt > u64_max div sz then (Some (Inl AllocationTooLarge), a)
      else let cp = take_checkpoint a in
        case alloc (sz * cnt) al a of
          (Inl e, a1) \<Rightarrow> (Some (Inl e), a1)
        | (Inr objs, a1) \<Rightarrow> construct_loop sz trivial fault cp objs cnt 0 a1)"

section \<open>Alignment\<close>

lemma and_not_mask_eq: "(w :: u64) AND NOT (mask k) = push_bit k (drop_bit k w)"
  by (rule bit_eqI) (auto simp: bit_and_iff bit_not_iff bit_mask_iff bit_push_bit_iff bit_drop_bit_eq)

lemma align_up_eq:
  assumes "has_single_bit al" "x + al \<le> u64_max"
  shows "align_up x al = Inr ((x + al - 1) div al * al)"
proof -
  obtain k where k: "al = 2 ^ k" "k < 64" using assms(1) by (auto simp: has_single_bit_def)
  have m: "(of_nat (al - 1) :: u64) = mask k"
    by (simp add: k mask_eq_exp_minus_1 of_nat_diff)
  let ?y = "x + al - 1"
  have y: "?y < 2 ^ 64" using assms(2) k by simp
  have "unat ((of_nat ?y :: u64) AND NOT (of_nat (al - 1))) = unat (push_bit k (drop_bit k (of_nat ?y :: u64)))"
    by (simp only: m and_not_mask_eq)
  also have "\<dots> = take_bit LENGTH(64) (push_bit k (drop_bit k (take_bit LENGTH(64) (unat (of_nat ?y :: u64)))))"
    by (simp only: unsigned_push_bit_eq unsigned_drop_bit_eq)
  also have "unat (of_nat ?y :: u64) = ?y"
    using y by (simp add: unat_of_nat)
  also have "take_bit LENGTH(64) ?y = ?y"
    using y by (intro take_bit_nat_eq_self) simp
  also have "take_bit LENGTH(64) (push_bit k (drop_bit k ?y)) = take_bit 64 (?y div al * al)"
    by (simp add: push_bit_eq_mult drop_bit_eq_div k)
  also have "\<dots> = ?y div al * al"
    using y by (intro take_bit_nat_eq_self) (metis div_times_less_eq_dividend le_less_trans)
  finally have "unat ((of_nat (x + (al - 1)) :: u64) AND NOT (of_nat (al - 1))) = ?y div al * al"
    using k by simp
  moreover have "al \<noteq> 0" "\<not> x > u64_max - (al - 1)" using assms k by auto
  ultimately show ?thesis using assms(1) by (simp add: align_up_def Let_def)
qed

lemma align_up_bounds:
  fixes x al :: nat
  assumes "0 < al"
  shows "x \<le> (x + al - 1) div al * al" "(x + al - 1) div al * al < x + al"
proof -
  have "(x + al - 1) div al * al = (x + al - 1) - (x + al - 1) mod al"
    by (rule minus_mod_eq_div_mult [symmetric])
  moreover have "(x + al - 1) mod al < al" using assms by simp
  ultimately show "x \<le> (x + al - 1) div al * al" "(x + al - 1) div al * al < x + al"
    using assms by linarith+
qed

section \<open>Well-formedness\<close>

definition page_ok :: "page \<Rightarrow> bool" where
  "page_ok p \<longleftrightarrow> used p \<le> cap p \<and> 0 < cap p \<and> cap p \<le> max_page_size \<and> page_alignment p = max_align"

definition arena_ok :: "arena \<Rightarrow> bool" where
  "arena_ok a \<longleftrightarrow> (\<forall>p \<in> set (pages a). page_ok p) \<and> 0 < page_size a \<and>
     page_size a \<le> max_page_size \<and> 0 < large_threshold a"

text \<open>\<open>grows a b\<close>: \<open>b\<close> comes from \<open>a\<close> by handing out memory and registering destructors; the
  storage of \<open>a\<close> is still there, at most the newest page has a larger cursor.\<close>

definition pages_grow :: "page list \<Rightarrow> page list \<Rightarrow> bool" where
  "pages_grow ps qs \<longleftrightarrow> ps = [] \<or>
     (\<exists>u rest. used (last ps) \<le> u \<and> qs = butlast ps @ (last ps)\<lparr>used := u\<rparr> # rest)"

definition grows :: "arena \<Rightarrow> arena \<Rightarrow> bool" where
  "grows a b \<longleftrightarrow> page_size b = page_size a \<and> large_threshold b = large_threshold a \<and>
     (\<exists>xs. destroyed b = destroyed a @ xs) \<and> pages_grow (pages a) (pages b) \<and>
     (\<exists>ls. large b = large a @ ls) \<and> (\<exists>ds. destructors b = destructors a @ ds)"

lemma pages_grow_refl [simp]: "pages_grow ps ps"
proof (cases "ps = []")
  case False
  then have "ps = butlast ps @ (last ps)\<lparr>used := used (last ps)\<rparr> # []" by simp
  then show ?thesis unfolding pages_grow_def by blast
qed (simp add: pages_grow_def)

lemma pages_grow_append [simp]: "pages_grow ps (ps @ qs)"
proof (cases "ps = []")
  case False
  then have "ps @ qs = butlast ps @ (last ps)\<lparr>used := used (last ps)\<rparr> # qs" by simp
  then show ?thesis unfolding pages_grow_def by blast
qed (simp add: pages_grow_def)

lemma pages_grow_trans:
  assumes "pages_grow ps qs" "pages_grow qs rs"
  shows "pages_grow ps rs"
proof (cases "ps = []")
  case False
  from assms(1) False obtain u rest where q: "used (last ps) \<le> u"
    "qs = butlast ps @ (last ps)\<lparr>used := u\<rparr> # rest" by (auto simp: pages_grow_def)
  from q(2) have "qs \<noteq> []" by simp
  with assms(2) obtain v rest' where r: "used (last qs) \<le> v"
    "rs = butlast qs @ (last qs)\<lparr>used := v\<rparr> # rest'" unfolding pages_grow_def by blast
  show ?thesis
  proof (cases "rest = []")
    case True
    with q r have "used (last ps) \<le> v" "rs = butlast ps @ (last ps)\<lparr>used := v\<rparr> # rest'" by auto
    then show ?thesis unfolding pages_grow_def by blast
  next
    case False
    with q r have "rs = butlast ps @ (last ps)\<lparr>used := u\<rparr> # (butlast rest @ (last rest)\<lparr>used := v\<rparr> # rest')"
      by (auto simp: butlast_append)
    with q(1) show ?thesis unfolding pages_grow_def by blast
  qed
qed (simp add: pages_grow_def)

lemma grows_refl [simp]: "grows a a"
  by (simp add: grows_def)

lemma grows_trans: "grows a b \<Longrightarrow> grows b c \<Longrightarrow> grows a c"
  unfolding grows_def using pages_grow_trans by auto

lemma grows_oom [simp]:
  "grows (a\<lparr>oom := x\<rparr>) b = grows a b" "grows a (b\<lparr>oom := x\<rparr>) = grows a b"
  by (simp_all add: grows_def)

lemma arena_ok_oom [simp]: "arena_ok (a\<lparr>oom := x\<rparr>) = arena_ok a"
  by (simp add: arena_ok_def)

lemma heap_requestD:
  "heap_request a = (ok, b) \<Longrightarrow> \<exists>x. b = a\<lparr>oom := x\<rparr> \<and> (True \<notin> set (oom a) \<longrightarrow> ok \<and> True \<notin> set x)"
  by (cases "oom a") (auto simp: heap_request_def intro: exI [of _ "oom a"])

section \<open>The operations hand out fresh memory\<close>

definition never_oom :: "arena \<Rightarrow> bool" where
  "never_oom a \<longleftrightarrow> True \<notin> set (oom a)"

lemma get_next_page_size_bounds:
  assumes "arena_ok a" "0 < n" "n \<le> max_page_size"
  obtains sz where "get_next_page_size n a = Inr sz" "n \<le> sz" "sz \<le> max_page_size"
proof -
  have "page_size a \<le> max_page_size" using assms by (simp add: arena_ok_def)
  moreover have "(if max_page_size div 2 < c then max_page_size else c * 2) \<le> max_page_size" for c
    by (simp add: max_page_size_def)
  ultimately show ?thesis using assms that
    by (cases "pages a = []") (simp_all add: get_next_page_size_def Let_def)
qed

lemma append_pageD:
  assumes "append_page n a = (c, b)" "arena_ok a" "0 < n" "n \<le> max_page_size"
  shows "c = Ok \<or> c = AllocationFailed" "never_oom a \<longrightarrow> c = Ok \<and> never_oom b"
    "\<exists>x. if c = Ok then \<exists>sz. n \<le> sz \<and> sz \<le> max_page_size \<and>
        b = a\<lparr>oom := x, pages := pages a @ [\<lparr>cap = sz, used = 0, page_alignment = max_align\<rparr>]\<rparr>
      else b = a\<lparr>oom := x\<rparr>"
proof -
  obtain sz where sz: "get_next_page_size n a = Inr sz" "n \<le> sz" "sz \<le> max_page_size"
    using get_next_page_size_bounds [OF assms(2-4)] .
  obtain ok1 a1 where r1: "heap_request a = (ok1, a1)" by (cases "heap_request a")
  obtain ok2 a2 where r2: "heap_request a1 = (ok2, a2)" by (cases "heap_request a1")
  obtain x where x: "a1 = a\<lparr>oom := x\<rparr>" "never_oom a \<longrightarrow> ok1 \<and> True \<notin> set x"
    using heap_requestD [OF r1] by (auto simp: never_oom_def)
  obtain y where y: "a2 = a\<lparr>oom := y\<rparr>" "True \<notin> set x \<longrightarrow> ok2 \<and> True \<notin> set y"
    using heap_requestD [OF r2] x by auto
  have eq: "append_page n a = (if ok1 then if ok2
      then (Ok, a2\<lparr>pages := pages a2 @ [\<lparr>cap = sz, used = 0, page_alignment = max_align\<rparr>]\<rparr>)
      else (AllocationFailed, a2) else (AllocationFailed, a1))"
    using sz assms(3) r1 r2 by (simp add: append_page_def alloc_page_def)
  show "c = Ok \<or> c = AllocationFailed" "never_oom a \<longrightarrow> c = Ok \<and> never_oom b"
    using eq assms(1) x y by (auto simp: never_oom_def split: if_splits)
  show "\<exists>x. if c = Ok then \<exists>sz. n \<le> sz \<and> sz \<le> max_page_size \<and>
        b = a\<lparr>oom := x, pages := pages a @ [\<lparr>cap = sz, used = 0, page_alignment = max_align\<rparr>]\<rparr>
      else b = a\<lparr>oom := x\<rparr>"
    using eq assms(1) x(1) y(1) sz by (auto split: if_splits)
qed

text \<open>A request is served from the newest normal page, behind everything that page has handed out,
  or from a dedicated page of its own.\<close>

definition placed :: "arena \<Rightarrow> nat \<Rightarrow> nat \<Rightarrow> pointer \<Rightarrow> arena \<Rightarrow> bool" where
  "placed a n al p b \<longleftrightarrow>
     (\<exists>off. p = PagePtr (length (pages b) - 1) off \<and> pages b \<noteq> [] \<and> off mod al = 0 \<and>
        page_alignment (last (pages b)) mod al = 0 \<and> used (last (pages b)) = off + n \<and> length (pages a) \<le> length (pages b) \<and>
        (length (pages a) = length (pages b) \<longrightarrow> used (last (pages a)) \<le> off)) \<or>
     p = LargePtr (length (large a)) 0 \<and>
       large b = large a @ [\<lparr>cap = n, used = n, page_alignment = al\<rparr>]"

text \<open>What a served request promises: the arena stays well formed, only grows, the memory is
  placed as above, a failure is \<open>AllocationFailed\<close>, and there is none while the heap serves.\<close>

definition serves :: "arena \<Rightarrow> nat \<Rightarrow> nat \<Rightarrow> pointer result \<times> arena \<Rightarrow> bool" where
  "serves a n al rb = (case rb of (r, b) \<Rightarrow> arena_ok b \<and> grows a b \<and>
     (case r of Inl e \<Rightarrow> e = AllocationFailed \<and> \<not> never_oom a
      | Inr p \<Rightarrow> placed a n al p b \<and> (never_oom a \<longrightarrow> never_oom b)))"

lemma alloc_large_serves:
  assumes "arena_ok a" "0 < n"
  shows "serves a n al (alloc_large n al a)"
proof -
  obtain ok1 a1 where r1: "heap_request a = (ok1, a1)" by (cases "heap_request a")
  obtain ok2 a2 where r2: "heap_request a1 = (ok2, a2)" by (cases "heap_request a1")
  obtain x where x: "a1 = a\<lparr>oom := x\<rparr>" "never_oom a \<longrightarrow> ok1 \<and> True \<notin> set x"
    using heap_requestD [OF r1] by (auto simp: never_oom_def)
  obtain y where y: "a2 = a\<lparr>oom := y\<rparr>" "True \<notin> set x \<longrightarrow> ok2 \<and> True \<notin> set y"
    using heap_requestD [OF r2] x by auto
  have eq: "alloc_large n al a = (if ok1 then if ok2
      then (Inr (LargePtr (length (large a)) 0),
            a2\<lparr>large := large a2 @ [\<lparr>cap = n, used = n, page_alignment = al\<rparr>]\<rparr>)
      else (Inl AllocationFailed, a2) else (Inl AllocationFailed, a1))"
    using assms r1 r2 y(1) by (simp add: alloc_large_def alloc_page_def)
  show ?thesis unfolding eq
    using assms x y by (auto simp: serves_def arena_ok_def grows_def placed_def never_oom_def)
qed

lemma has_single_bit_pow: "k < 64 \<Longrightarrow> has_single_bit (2 ^ k)"
  by (simp add: has_single_bit_def)

lemma has_single_bit_pos: "has_single_bit al \<Longrightarrow> 0 < al"
  by (auto simp: has_single_bit_def)

lemma max_align_multiple:
  assumes "has_single_bit al" "al \<le> max_align"
  shows "max_align mod al = 0"
proof -
  obtain k where k: "al = 2 ^ k" using assms(1) by (auto simp: has_single_bit_def)
  with assms(2) have "(2::nat) ^ k \<le> 2 ^ 4" by (simp add: max_align_def)
  then have "k \<le> 4" by (rule power_le_imp_le_exp [rotated]) simp
  then have "(2::nat) ^ k dvd 2 ^ 4" by (rule le_imp_power_dvd)
  with k show ?thesis by (simp add: max_align_def)
qed

text \<open>The cursor step on the newest page, where the request fits.\<close>

lemma bump_lastD:
  assumes "arena_ok a" "pages a \<noteq> []" "has_single_bit al" "al \<le> max_align" "0 < n"
    and fit: "fits_in (last (pages a)) n al = Inr True"
  obtains p b where "bump_last n al a = (Inr p, b)" "arena_ok b" "grows a b" "placed a n al p b"
    "oom b = oom a"
proof -
  define off where "off = (used (last (pages a)) + al - 1) div al * al"
  have ok: "page_ok (last (pages a))" using assms by (simp add: arena_ok_def)
  then have "align_up (used (last (pages a))) al = Inr off"
    using assms(4) align_up_eq [OF assms(3), of "used (last (pages a))"]
    by (simp add: off_def page_ok_def max_align_def max_page_size_def)
  moreover from this fit have le: "off + n \<le> cap (last (pages a))"
    using assms(5) by (auto simp: fits_in_def split: if_splits)
  ultimately have eq: "bump_last n al a = (Inr (PagePtr (length (pages a) - 1) off),
      a\<lparr>pages := butlast (pages a) @ [(last (pages a))\<lparr>used := off + n\<rparr>]\<rparr>)" (is "_ = (_, ?b)")
    using assms(5) by (auto simp: bump_last_def Let_def)
  note b = align_up_bounds [OF has_single_bit_pos [OF assms(3)], of "used (last (pages a))",
      folded off_def]
  have "used (last (pages a)) \<le> off + n" using b(1) by simp
  then have "grows a ?b" by (auto simp: grows_def pages_grow_def)
  moreover have "page_ok ((last (pages a))\<lparr>used := off + n\<rparr>)" using ok le by (simp add: page_ok_def)
  then have "arena_ok ?b" using assms(1) by (auto simp: arena_ok_def dest: in_set_butlastD)
  moreover have "placed a n al (PagePtr (length (pages a) - 1) off) ?b"
    using b assms(2) ok max_align_multiple [OF assms(3,4)]
    by (auto simp: placed_def off_def Suc_leI page_ok_def)
  ultimately show ?thesis using that [OF eq] by simp
qed

lemma fresh_page_fits:
  assumes "has_single_bit al" "al \<le> max_align" "n \<le> sz"
  shows "fits_in \<lparr>cap = sz, used = 0, page_alignment = m\<rparr> n al = Inr True"
proof -
  have "(al - 1) div al * al = 0" using has_single_bit_pos [OF assms(1)] by simp
  then have "align_up 0 al = Inr 0"
    using align_up_eq [OF assms(1), of 0] assms(2) by (simp add: max_align_def)
  with assms(3) show ?thesis by (simp add: fits_in_def)
qed

lemma append_page_ready:
  assumes "append_page n a = (Ok, b)" "arena_ok a" "0 < n" "n \<le> max_page_size"
    "has_single_bit al" "al \<le> max_align"
  shows "arena_ok b" "grows a b" "pages b \<noteq> []" "length (pages b) = Suc (length (pages a))"
    "fits_in (last (pages b)) n al = Inr True" "large b = large a"
  using append_pageD(3) [OF assms(1-4)] assms fresh_page_fits [OF assms(5,6)]
  by (auto simp: arena_ok_def grows_def page_ok_def)

lemma append_page_fails:
  assumes "append_page n a = (c, b)" "c \<noteq> Ok" "arena_ok a" "0 < n" "n \<le> max_page_size"
  shows "arena_ok b" "grows a b" "c = AllocationFailed" "\<not> never_oom a"
  using append_pageD [OF assms(1,3-5)] assms(2,3) by auto

lemma fits_in_total:
  assumes "page_ok p" "has_single_bit al" "al \<le> max_align"
  shows "\<exists>b. fits_in p n al = Inr b"
  using align_up_eq [OF assms(2), of "used p"] assms
  by (auto simp: fits_in_def page_ok_def max_page_size_def max_align_def intro: exI [of _ False])

lemma placed_after_append:
  "placed b n al p c \<Longrightarrow> length (pages a) < length (pages b) \<Longrightarrow> large b = large a \<Longrightarrow>
    placed a n al p c"
  by (auto simp: placed_def)

lemma bump_last_serves:
  assumes "arena_ok a" "pages a \<noteq> []" "has_single_bit al" "al \<le> max_align" "0 < n"
    "fits_in (last (pages a)) n al = Inr True"
  shows "serves a n al (bump_last n al a)"
proof -
  obtain p b where "bump_last n al a = (Inr p, b)" "arena_ok b" "grows a b" "placed a n al p b"
    "oom b = oom a" using bump_lastD [OF assms] .
  then show ?thesis by (simp add: serves_def never_oom_def)
qed

lemma append_bump_serves:
  assumes "arena_ok a" "has_single_bit al" "al \<le> max_align" "0 < n" "n \<le> max_page_size"
  shows "serves a n al (case append_page n a of (c, b) \<Rightarrow>
    if \<not> is_ok c then (Inl c, b) else bump_last n al b)"
proof -
  obtain c b where cb: "append_page n a = (c, b)" by (cases "append_page n a")
  show ?thesis
  proof (cases "c = Ok")
    case True
    note b = append_page_ready [OF cb [unfolded True] assms(1,4,5,2,3)]
    have "serves b n al (bump_last n al b)"
      using bump_last_serves [OF b(1,3) assms(2-4) b(5)] .
    with b cb True placed_after_append [of b n al _ _ a] grows_trans [OF b(2)]
      append_pageD(2) [OF cb assms(1,4,5)]
    show ?thesis by (auto simp: serves_def split: sum.splits prod.splits)
  next
    case False
    with append_page_fails [OF cb False assms(1,4,5)] cb show ?thesis by (simp add: serves_def)
  qed
qed

lemma alloc_small_serves:
  assumes "arena_ok a" "has_single_bit al" "al \<le> max_align" "0 < n" "n \<le> max_page_size"
  shows "serves a n al (alloc_small n al a)"
proof (cases "pages a = []")
  case True
  have "alloc_small n al a = (case append_page n a of (c, b) \<Rightarrow>
      if \<not> is_ok c then (Inl c, b) else bump_last n al b)"
  proof (cases "append_page n a")
    case (Pair c b)
    with True append_page_ready(5) [OF _ assms(1,4,5,2,3), of b] show ?thesis
      by (cases "c = Ok") (simp_all add: alloc_small_def)
  qed
  with append_bump_serves [OF assms] show ?thesis by simp
next
  case False
  then have "page_ok (last (pages a))" using assms(1) by (simp add: arena_ok_def)
  then obtain fit where fit: "fits_in (last (pages a)) n al = Inr fit"
    using fits_in_total [OF _ assms(2,3)] by blast
  show ?thesis
  proof (cases fit)
    case True
    with False fit bump_last_serves [OF assms(1) False assms(2-4)] show ?thesis
      by (simp add: alloc_small_def)
  next
    case fits: False
    with False fit append_bump_serves [OF assms] show ?thesis by (simp add: alloc_small_def)
  qed
qed

lemma alloc_serves:
  assumes "arena_ok a" "has_single_bit al" "0 < n"
  shows "serves a n al (alloc n al a)"
  using alloc_large_serves [OF assms(1,3), of al] alloc_small_serves [OF assms(1,2) _ assms(3)]
    assms has_single_bit_pos [OF assms(2)]
  by (auto simp: alloc_def not_le not_less)

text \<open>Raw allocations register no destructor and run none: they change at most the pages and the
  heap script.\<close>

lemma alloc_keeps:
  assumes upd: "\<And>b x. g (b\<lparr>oom := x\<rparr>) = g b" "\<And>b x. g (b\<lparr>pages := x\<rparr>) = g b"
    "\<And>b x. g (b\<lparr>large := x\<rparr>) = g b"
  shows "g (snd (alloc n al a)) = g a"
proof -
  have hr: "g (snd (heap_request b)) = g b" for b
    by (simp add: heap_request_def upd split: list.split)
  have ap: "g (snd (append_page m b)) = g b" for m b
    using hr [of b] hr [of "snd (heap_request b)"]
    by (auto simp: append_page_def alloc_page_def upd split: sum.split prod.split if_split)
  have bl: "g (snd (bump_last m x b)) = g b" for m x b
    by (simp add: bump_last_def Let_def upd split: sum.split)
  have al: "g (snd (alloc_large m x b)) = g b" for m x b
    using hr [of b] hr [of "snd (heap_request b)"]
    by (auto simp: alloc_large_def alloc_page_def upd split: sum.split prod.split if_split)
  have ap': "append_page n b = (c, b') \<Longrightarrow> g b' = g b" for b c b'
    using ap [of n b] by simp
  have "g (snd (alloc_small n al a)) = g a"
    by (auto simp: alloc_small_def bl split: sum.split prod.split if_split dest!: ap')
  with al show ?thesis by (simp add: alloc_def)
qed

lemma alloc_destructors: "destructors (snd (alloc n al a)) = destructors a"
  by (rule alloc_keeps) simp_all

lemma alloc_destroyed: "destroyed (snd (alloc n al a)) = destroyed a"
  by (rule alloc_keeps) simp_all

section \<open>Traces of requests\<close>

text \<open>Runs a list of requests (size, alignment) and returns the memory handed out.\<close>

fun alloc_all :: "(nat \<times> nat) list \<Rightarrow> arena \<Rightarrow> (pointer \<times> nat \<times> nat) list \<times> arena" where
  "alloc_all [] a = ([], a)"
| "alloc_all ((n, al) # reqs) a =
     (case alloc n al a of
        (Inl _, a') \<Rightarrow> alloc_all reqs a'
      | (Inr p, a') \<Rightarrow> (case alloc_all reqs a' of (rs, b) \<Rightarrow> ((p, n, al) # rs, b)))"

fun overlap :: "pointer \<times> nat \<times> nat \<Rightarrow> pointer \<times> nat \<times> nat \<Rightarrow> bool" where
  "overlap (PagePtr i x, n, _) (PagePtr j y, m, _) \<longleftrightarrow> i = j \<and> x < y + m \<and> y < x + n"
| "overlap (LargePtr i x, n, _) (LargePtr j y, m, _) \<longleftrightarrow> i = j \<and> x < y + m \<and> y < x + n"
| "overlap _ _ \<longleftrightarrow> False"

text \<open>A region handed out lies below the cursor of its page; the alignment asked for divides the
  offset and the alignment of the page, whose base address is a multiple of the latter.\<close>

fun owned :: "arena \<Rightarrow> pointer \<times> nat \<times> nat \<Rightarrow> bool" where
  "owned a (NullPtr, n, al) \<longleftrightarrow> n = 0"
| "owned a (PagePtr i x, n, al) \<longleftrightarrow> i < length (pages a) \<and> x + n \<le> used (pages a ! i) \<and>
     x mod al = 0 \<and> page_alignment (pages a ! i) mod al = 0"
| "owned a (LargePtr i x, n, al) \<longleftrightarrow> i < length (large a) \<and> x + n \<le> used (large a ! i) \<and>
     x mod al = 0 \<and> page_alignment (large a ! i) mod al = 0"

lemma pages_grow_nth:
  "pages_grow ps qs \<Longrightarrow> i < length ps \<Longrightarrow> i < length qs \<and> used (ps ! i) \<le> used (qs ! i) \<and>
    page_alignment (qs ! i) = page_alignment (ps ! i)"
proof (cases "i = length ps - 1")
  case True
  assume *: "pages_grow ps qs" "i < length ps"
  then have "ps ! i = last ps" using True by (cases ps rule: rev_cases) auto
  with * True show ?thesis by (auto simp: pages_grow_def nth_append)
qed (auto simp: pages_grow_def nth_append nth_butlast)

lemma owned_grows: "grows a b \<Longrightarrow> owned a r \<Longrightarrow> owned b r"
  using pages_grow_nth [of "pages a" "pages b"]
  by (cases "(a, r)" rule: owned.cases) (fastforce simp: grows_def nth_append)+

lemma placed_owned: "placed a n al p b \<Longrightarrow> owned b (p, n, al)"
  by (auto simp: placed_def last_conv_nth)

lemma placed_fresh:
  assumes "placed a n al p b" "owned a r"
  shows "\<not> overlap r (p, n, al)"
proof (cases "(a, r)" rule: owned.cases)
  case (2 a' i x m al')
  then have i: "i < length (pages a)" "x + m \<le> used (pages a ! i)" using assms(2) by auto
  then have "i = length (pages b) - 1 \<Longrightarrow> length (pages a) \<le> length (pages b) \<Longrightarrow>
      length (pages a) = length (pages b) \<and> pages a ! i = last (pages a)"
    by (cases "pages a" rule: rev_cases) (auto simp: nth_append)
  with 2 i assms(1) show ?thesis by (fastforce simp: placed_def)
qed (use assms in \<open>auto simp: placed_def\<close>)

lemma alloc_grows: "arena_ok a \<Longrightarrow> arena_ok (snd (alloc n al a)) \<and> grows a (snd (alloc n al a))"
  using alloc_serves [of a al n]
  by (cases "n = 0 \<or> al = 0 \<or> \<not> has_single_bit al") (auto simp: alloc_def [of n al a] serves_def)

lemma alloc_okD:
  assumes "arena_ok a" "alloc n al a = (Inr p, b)"
  shows "owned b (p, n, al)" "owned a r \<Longrightarrow> \<not> overlap r (p, n, al)"
proof -
  have "n = 0 \<and> p = NullPtr \<or> placed a n al p b"
    using alloc_serves [OF assms(1), of al n] assms(2)
    by (cases "has_single_bit al") (auto simp: serves_def alloc_def split: if_splits)
  then show "owned b (p, n, al)" "owned a r \<Longrightarrow> \<not> overlap r (p, n, al)"
    using placed_owned [of a n al p b] placed_fresh [of a n al p b r]
    by (auto elim: overlap.elims)
qed

lemma alloc_all_owned:
  "arena_ok a \<Longrightarrow> alloc_all reqs a = (rs, b) \<Longrightarrow>
    arena_ok b \<and> grows a b \<and> (\<forall>r \<in> set rs. owned b r \<and> (\<forall>q. owned a q \<longrightarrow> \<not> overlap q r)) \<and>
    (\<forall>i j. i < j \<longrightarrow> j < length rs \<longrightarrow> \<not> overlap (rs ! i) (rs ! j))"
proof (induction reqs a arbitrary: rs b rule: alloc_all.induct)
  case (2 n al reqs a)
  obtain x a' where xa: "alloc n al a = (x, a')" by (cases "alloc n al a")
  have a': "arena_ok a'" "grows a a'" using alloc_grows [OF 2(3), of n al] xa by simp_all
  show ?case
  proof (cases x)
    case (Inl e)
    note IH = 2(1) [OF xa [symmetric] Inl a'(1)]
    from 2(4) xa Inl have "alloc_all reqs a' = (rs, b)" by simp
    from IH [OF this] show ?thesis
      using grows_trans [OF a'(2)] owned_grows [OF a'(2)] by simp
  next
    case (Inr p)
    obtain rs' b' where rb: "alloc_all reqs a' = (rs', b')" by (cases "alloc_all reqs a'")
    with 2(4) xa Inr have eq: "rs = (p, n, al) # rs'" "b = b'" by auto
    note p = alloc_okD [OF 2(3) xa [unfolded Inr]]
    note IH = 2(2) [OF xa [symmetric] Inr a'(1) rb]
    then have "grows a' b'" by simp
    have sep: "\<not> overlap (rs ! i) (rs ! j)" if "i < j" "j < length rs" for i j
    proof (cases i)
      case 0
      with that eq IH p(1) show ?thesis by (cases j) auto
    next
      case (Suc k)
      with that eq IH show ?thesis by (cases j) auto
    qed
    have "owned b' (p, n, al)" by (rule owned_grows [OF \<open>grows a' b'\<close> p(1)])
    with IH p(2) owned_grows [OF a'(2)] sep grows_trans [OF a'(2)] show ?thesis
      unfolding eq by simp
  qed
qed simp

section \<open>Rollback\<close>

lemma destroy_loop_eq:
  "destructors a = xs @ ds \<Longrightarrow> destroy_loop (length ds) a =
    a\<lparr>destructors := xs, destroyed := destroyed a @ rev ds\<rparr>"
  by (induction ds arbitrary: a rule: rev_induct) (simp_all add: butlast_append)

text \<open>A rollback to a checkpoint undoes everything handed out since, and runs the destructors
  registered since in reverse order.\<close>

lemma rollback_restores:
  assumes "grows a b"
  shows "\<exists>ds. destructors b = destructors a @ ds \<and>
    rollback (take_checkpoint a) b = Some (a\<lparr>oom := oom b, destroyed := destroyed b @ rev ds\<rparr>)"
proof -
  obtain ls ds where ld: "large b = large a @ ls" "destructors b = destructors a @ ds"
    using assms by (auto simp: grows_def)
  have dest: "destroy_to (length (destructors a)) b =
      b\<lparr>destructors := destructors a, destroyed := destroyed b @ rev ds\<rparr>"
    using destroy_loop_eq [OF ld(2)] ld by (simp add: destroy_to_def)
  have thr: "page_size b = page_size a" "large_threshold b = large_threshold a"
    using assms by (auto simp: grows_def)
  show ?thesis
  proof (cases "pages a = []")
    case True
    then show ?thesis using ld thr dest
      by (intro exI [of _ ds]) (simp add: rollback_def take_checkpoint_def Let_def)
  next
    case False
    then obtain u rest where u: "used (last (pages a)) \<le> u"
      "pages b = butlast (pages a) @ (last (pages a))\<lparr>used := u\<rparr> # rest"
      using assms by (auto simp: grows_def pages_grow_def)
    let ?ps = "butlast (pages a) @ [(last (pages a))\<lparr>used := u\<rparr>]"
    have len: "length ?ps = length (pages a)" using False by (simp add: Suc_leI)
    have tk: "take (length (pages a)) (pages b) = ?ps"
      using len u(2) by (metis append.assoc append_Cons append_Nil append_eq_conv_conj)
    have nth: "pages b ! (length (pages a) - 1) = (last (pages a))\<lparr>used := u\<rparr>"
      by (simp add: u(2) nth_append)
    have undo: "(last (pages a))\<lparr>used := used (last (pages a))\<rparr> = last (pages a)" by simp
    have "length (pages a) \<le> length (pages b)" using len u(2) by simp
    with False ld thr dest tk nth u(1) show ?thesis
      by (intro exI [of _ ds]) (auto simp: rollback_def take_checkpoint_def Let_def)
  qed
qed

lemma rollback_keeps:
  assumes "grows a b" "arena_ok a"
  shows "\<exists>c. rollback (take_checkpoint a) b = Some c \<and> arena_ok c \<and> pages c = pages a \<and>
    large c = large a \<and> destructors c = destructors a \<and> oom c = oom b"
  using rollback_restores [OF assms(1)] assms(2) by (auto simp: arena_ok_def)

lemma register_destructor_grows:
  "register_destructor p n a = (r, b) \<Longrightarrow> grows a b"
  by (auto simp: register_destructor_def grows_def dest!: heap_requestD split: prod.splits if_splits)

text \<open>Creating an object or an array either registers exactly the objects created, in order of
  construction, or, when a constructor throws or a registration fails, gives back everything
  allocated since its checkpoint.\<close>

definition created :: "arena \<Rightarrow> pointer result option \<times> arena \<Rightarrow> (pointer \<Rightarrow> (pointer \<times> nat) list) \<Rightarrow> bool" where
  "created a rb objs \<longleftrightarrow> (case rb of (r, b) \<Rightarrow> arena_ok b \<and> grows a b \<and>
     destructors b = destructors a @ (case r of Some (Inr p) \<Rightarrow> objs p | _ \<Rightarrow> []))"

lemma rollback_created:
  assumes "grows a b" "arena_ok a"
  shows "created a (rethrow (take_checkpoint a) b) objs"
    "created a (abandon_object (take_checkpoint a) q b) objs"
proof -
  have "grows b (b\<lparr>destroyed := destroyed b @ [(q, 1)]\<rparr>)" by (simp add: grows_def)
  with assms(1) have "grows a (b\<lparr>destroyed := destroyed b @ [(q, 1)]\<rparr>)" by (rule grows_trans)
  from rollback_restores [OF this] rollback_restores [OF assms(1)] assms
  show "created a (rethrow (take_checkpoint a) b) objs"
    "created a (abandon_object (take_checkpoint a) q b) objs"
    by (auto simp: created_def rethrow_def abandon_object_def Let_def arena_ok_def grows_def)
qed

lemma register_destructorD:
  assumes "register_destructor p n a = (r, b)" "arena_ok a"
  shows "arena_ok b" "destructors b = destructors a @ (if r then [(p, n)] else [])"
  using assms by (auto simp: register_destructor_def dest!: heap_requestD split: prod.splits if_splits)
    (auto simp: arena_ok_def)

lemma arena_new_created:
  assumes "arena_ok a"
  shows "created a (arena_new sz al trivial throws a) (\<lambda>p. if trivial then [] else [(p, 1)])"
proof -
  obtain r a1 where a1: "alloc sz al a = (r, a1)" by (cases "alloc sz al a")
  then have g: "arena_ok a1" "grows a a1" "destructors a1 = destructors a"
    using alloc_grows [OF assms, of sz al] alloc_destructors [of sz al a] by simp_all
  obtain ok a2 where a2: "register_destructor p 1 a1 = (ok, a2)" if "r = Inr p" for p
    by (cases r; cases "register_destructor (projr r) 1 a1") auto
  show ?thesis
  proof (cases r)
    case (Inr p)
    note d = register_destructorD [OF a2 [OF Inr] g(1)]
    have "grows a a2" using grows_trans [OF g(2) register_destructor_grows [OF a2 [OF Inr]]] .
    note undo_steps = rollback_created(1) [OF g(2) assms] rollback_created(2) [OF this assms]
    have eq: "arena_new sz al trivial throws a = (if throws then rethrow (take_checkpoint a) a1
        else if trivial then (Some (Inr p), a1) else if ok then (Some (Inr p), a2)
        else abandon_object (take_checkpoint a) p a2)"
      using a1 a2 [OF Inr] Inr by (simp add: arena_new_def Let_def)
    show ?thesis unfolding eq using undo_steps g d \<open>grows a a2\<close> by (simp add: created_def)
  qed (use a1 g in \<open>simp add: arena_new_def created_def\<close>)
qed

lemma construct_loop_created:
  assumes "arena_ok a" "arena_ok b" "grows a b"
    "destructors b = destructors a @ (if trivial then [] else map (\<lambda>k. (ptr_add p (k * sz), 1)) [0..<i])"
  shows "created a (construct_loop sz trivial fault (take_checkpoint a) p n i b)
    (\<lambda>q. if trivial then [] else map (\<lambda>k. (ptr_add q (k * sz), 1)) [0..<i + n])"
  using assms(2-)
proof (induction n arbitrary: i b)
  case 0
  then show ?case by (simp add: created_def)
next
  case (Suc n)
  obtain ok b1 where b1: "register_destructor (ptr_add p (i * sz)) 1 b = (ok, b1)"
    by (cases "register_destructor (ptr_add p (i * sz)) 1 b")
  note d = register_destructorD [OF b1 Suc.prems(1)]
  note g = grows_trans [OF Suc.prems(2) register_destructor_grows [OF b1]]
  note undo_steps = rollback_created [OF Suc.prems(2) assms(1)] rollback_created [OF g assms(1)]
  consider "fault = Some i" | "fault \<noteq> Some i" trivial | "fault \<noteq> Some i" "\<not> trivial" ok
    | "fault \<noteq> Some i" "\<not> trivial" "\<not> ok" by blast
  then show ?case
  proof cases
    case 3
    with Suc.prems(3) d(2) have "destructors b1 = destructors a @
        (if trivial then [] else map (\<lambda>k. (ptr_add p (k * sz), 1)) [0..<Suc i])" by simp
    from Suc.IH [OF d(1) g this] 3 b1 show ?thesis by simp
  next
    case 2
    with Suc.IH [of b "Suc i"] Suc.prems show ?thesis by simp
  qed (use undo_steps b1 in simp_all)
qed

lemma arena_new_array_created:
  assumes "arena_ok a"
  shows "created a (arena_new_array sz al trivial fault cnt a)
    (\<lambda>p. if trivial then [] else map (\<lambda>k. (ptr_add p (k * sz), 1)) [0..<cnt])"
proof -
  obtain r a1 where a1: "alloc (sz * cnt) al a = (r, a1)" by (cases "alloc (sz * cnt) al a")
  then have g: "arena_ok a1" "grows a a1" "destructors a1 = destructors a"
    using alloc_grows [OF assms, of "sz * cnt" al] alloc_destructors [of "sz * cnt" al a] by simp_all
  have "created a (construct_loop sz trivial fault (take_checkpoint a) p cnt 0 a1)
      (\<lambda>q. if trivial then [] else map (\<lambda>k. (ptr_add q (k * sz), 1)) [0..<cnt])" for p
  proof -
    have "destructors a1 = destructors a @ (if trivial then [] else map (\<lambda>k. (ptr_add p (k * sz), 1)) [0..<0])"
      using g(3) by simp
    from construct_loop_created [OF assms g(1,2) this, of fault cnt] show ?thesis unfolding add_0 .
  qed
  with g a1 assms show ?thesis
    by (cases r) (simp_all add: arena_new_array_def Let_def, simp_all add: created_def)
qed

text \<open>A trace of requests: raw storage, objects and arrays, whose constructors may throw.\<close>

datatype arena_request =
    Raw nat nat
  | New nat nat bool bool
  | NewArray nat nat bool "nat option" nat

text \<open>Runs a trace; the list collects the objects with a destructor that the successful requests
  created, in order of construction.\<close>

fun arena_serve :: "arena_request \<Rightarrow> arena \<Rightarrow> (pointer \<times> nat) list \<times> arena" where
  "arena_serve (Raw n al) a = ([], snd (alloc n al a))"
| "arena_serve (New sz al trivial throws) a =
     (case arena_new sz al trivial throws a of
        (Some (Inr p), b) \<Rightarrow> (if trivial then [] else [(p, 1)], b)
      | (_, b) \<Rightarrow> ([], b))"
| "arena_serve (NewArray sz al trivial fault cnt) a =
     (case arena_new_array sz al trivial fault cnt a of
        (Some (Inr p), b) \<Rightarrow> (if trivial then [] else map (\<lambda>k. (ptr_add p (k * sz), 1)) [0..<cnt], b)
      | (_, b) \<Rightarrow> ([], b))"

fun arena_run :: "arena_request list \<Rightarrow> arena \<Rightarrow> (pointer \<times> nat) list \<times> arena" where
  "arena_run [] a = ([], a)"
| "arena_run (r # rs) a =
     (case arena_serve r a of (xs, a1) \<Rightarrow> (case arena_run rs a1 of (ys, b) \<Rightarrow> (xs @ ys, b)))"

lemma arena_serve_grows:
  assumes "arena_ok a" "arena_serve r a = (xs, b)"
  shows "arena_ok b \<and> grows a b \<and> destructors b = destructors a @ xs"
proof (cases r)
  case (Raw n al)
  with assms alloc_grows [OF assms(1), of n al] alloc_destructors [of n al a] show ?thesis by auto
next
  case (New sz al trivial throws)
  with assms arena_new_created [OF assms(1), of sz al trivial throws] show ?thesis
    by (auto simp: created_def split: prod.splits option.splits sum.splits)
next
  case (NewArray sz al trivial fault cnt)
  with assms arena_new_array_created [OF assms(1), of sz al trivial fault cnt] show ?thesis
    by (auto simp: created_def split: prod.splits option.splits sum.splits)
qed

lemma arena_run_grows:
  "arena_ok a \<Longrightarrow> arena_run rs a = (xs, b) \<Longrightarrow> arena_ok b \<and> grows a b \<and> destructors b = destructors a @ xs"
proof (induction rs arbitrary: a xs)
  case (Cons r rs)
  obtain ys a1 where s: "arena_serve r a = (ys, a1)" by (cases "arena_serve r a")
  obtain zs b' where t: "arena_run rs a1 = (zs, b')" by (cases "arena_run rs a1")
  note g = arena_serve_grows [OF Cons.prems(1) s]
  with Cons.IH [of a1 zs] s t Cons.prems(2) grows_trans [of a a1 b] show ?case by auto
qed simp

lemma destroy_to_0: "destroy_to 0 a = a\<lparr>destructors := [], destroyed := destroyed a @ rev (destructors a)\<rparr>"
  using destroy_loop_eq [where ds = "destructors a" and a = a and xs = "[]"] by (simp add: destroy_to_def)

lemma arena_reset_ok: "arena_ok a \<Longrightarrow> arena_ok (arena_reset r a)"
  by (auto simp: arena_ok_def arena_reset_def destroy_to_0 page_ok_def Let_def split: list.split)

lemma add_checked_sum:
  "add_checked f ps acc = (if acc + sum_list (map f ps) \<le> u64_max \<or> ps = []
    then Inr (acc + sum_list (map f ps)) else Inl AllocationTooLarge)"
  by (induction ps arbitrary: acc) auto

lemma arena_init_ok: "arena_init ps lt script = Some a \<Longrightarrow> arena_ok a"
  by (auto simp: arena_init_def arena_ok_def split: if_splits)

section \<open>Properties\<close>

text \<open>The address of a pointer, from the base addresses of the normal and of the dedicated pages.\<close>

fun address :: "(nat \<Rightarrow> nat) \<Rightarrow> (nat \<Rightarrow> nat) \<Rightarrow> pointer \<Rightarrow> nat" where
  "address nb lb NullPtr = 0"
| "address nb lb (PagePtr i x) = nb i + x"
| "address nb lb (LargePtr i x) = lb i + x"

text \<open>\<open>operator new\<close> returns memory with the alignment it is asked for.\<close>

definition bases_ok :: "arena \<Rightarrow> (nat \<Rightarrow> nat) \<Rightarrow> (nat \<Rightarrow> nat) \<Rightarrow> bool" where
  "bases_ok a nb lb \<longleftrightarrow> (\<forall>i < length (pages a). nb i mod page_alignment (pages a ! i) = 0) \<and>
     (\<forall>i < length (large a). lb i mod page_alignment (large a ! i) = 0)"

lemma owned_aligned:
  assumes "owned b (p, n, al)" "bases_ok b nb lb"
  shows "address nb lb p mod al = 0"
proof -
  have sum: "al dvd x + y" if "m dvd x" "al dvd m" "al dvd y" for x y m :: nat
    using dvd_add [OF dvd_trans [OF that(2,1)] that(3)] .
  show ?thesis using assms by (cases p) (auto simp: bases_ok_def mod_eq_0_iff_dvd intro: sum)
qed

text \<open>C9 (no aliasing). Whatever sizes and alignments are requested from a new arena, and whichever
  heap requests fail, the regions handed out lie inside the arena's pages and no two of them
  overlap; wherever \<open>operator new\<close> puts the pages, with the alignment each was requested with, the
  address of every region is a multiple of the alignment asked for.\<close>

theorem arena_allocations_disjoint:
  assumes "arena_init ps lt script = Some a" "alloc_all reqs a = (rs, b)"
  shows "arena_ok b \<and> (\<forall>r \<in> set rs. owned b r) \<and>
    (\<forall>i j. i < j \<longrightarrow> j < length rs \<longrightarrow> \<not> overlap (rs ! i) (rs ! j)) \<and>
    (\<forall>nb lb. bases_ok b nb lb \<longrightarrow> (\<forall>(p, n, al) \<in> set rs. address nb lb p mod al = 0))"
  using alloc_all_owned [OF arena_init_ok [OF assms(1)] assms(2)] owned_aligned by blast

text \<open>C10 (rollback). After any requests for raw storage, objects and arrays, of which some may fail
  and some constructors throw, the destructor list holds exactly the objects created since, and a
  rollback to the checkpoint succeeds, destroys those objects, each once and in reverse order of
  construction, and gives back exactly the pages, dedicated pages and destructor entries of the
  checkpoint.\<close>

theorem arena_rollback_undoes:
  assumes "arena_ok a" "arena_run reqs a = (objs, b)"
  shows "destructors b = destructors a @ objs \<and>
    (\<exists>c. rollback (take_checkpoint a) b = Some c \<and> arena_ok c \<and> pages c = pages a \<and>
      large c = large a \<and> destructors c = destructors a \<and> destroyed c = destroyed b @ rev objs)"
proof -
  note g = arena_run_grows [OF assms]
  from g have "grows a b" by blast
  from rollback_restores [OF this] g assms(1) show ?thesis by (auto simp: arena_ok_def)
qed

text \<open>While the heap serves, a request with a power-of-two alignment
  succeeds; the only failure of a well-formed arena is \<open>AllocationFailed\<close>.\<close>

lemma arena_alloc_succeeds:
  assumes "arena_ok a" "has_single_bit al" "0 < n"
  shows "(never_oom a \<longrightarrow> (\<exists>p b. alloc n al a = (Inr p, b) \<and> owned b (p, n, al))) \<and>
    (\<forall>e b. alloc n al a = (Inl e, b) \<longrightarrow> e = AllocationFailed)"
proof -
  have s: "serves a n al (alloc n al a)" using alloc_serves [OF assms] .
  then show ?thesis
    using alloc_okD(1) [OF assms(1)] by (cases "alloc n al a") (auto simp: serves_def split: sum.splits)
qed

definition ex_new_arena :: arena where
  "ex_new_arena = \<lparr>page_size = 64, large_threshold = 32, pages = [], large = [], destructors = [],
     destroyed = [], oom = [False, False, False, False, True]\<rparr>"

lemma ex_new_arena_ok: "arena_ok ex_new_arena"
  by (simp add: ex_new_arena_def arena_ok_def max_page_size_def)

lemma ex_alloc_all:
  "fst (alloc_all [(5, 1), (8, 8), (8, 64)] ex_new_arena) =
    [(PagePtr 0 0, 5, 1), (PagePtr 0 8, 8, 8), (LargePtr 0 0, 8, 64)]"
proof -
  have b: "has_single_bit (Suc 0)" "has_single_bit 8" "has_single_bit 64"
    using has_single_bit_pow [of 0] has_single_bit_pow [of 3] has_single_bit_pow [of 6] by simp_all
  have a: "align_up 0 (Suc 0) = Inr 0" "align_up 5 8 = Inr 8"
    using align_up_eq [OF b(1), of 0] align_up_eq [OF b(2), of 5] by simp_all
  show ?thesis
    by (simp add: ex_new_arena_def alloc_def b a alloc_small_def append_page_def get_next_page_size_def
      alloc_page_def heap_request_def fits_in_def bump_last_def alloc_large_def max_page_size_def
      max_align_def Let_def)
qed

theorem arena_allocations_disjoint_witness:
  "\<not> overlap (PagePtr 0 0, 5, 1) (PagePtr 0 8, 8, 8) \<and>
    owned (snd (alloc_all [(5, 1), (8, 8), (8, 64)] ex_new_arena)) (PagePtr 0 8, 8, 8) \<and>
    owned (snd (alloc_all [(5, 1), (8, 8), (8, 64)] ex_new_arena)) (LargePtr 0 0, 8, 64)"
proof -
  have init: "arena_init 64 32 [False, False, False, False, True] = Some ex_new_arena"
    by (simp add: arena_init_def ex_new_arena_def max_page_size_def)
  note d = arena_allocations_disjoint [OF init prod.collapse [symmetric],
    of "[(5, 1), (8, 8), (8, 64)]", unfolded ex_alloc_all]
  from d [THEN conjunct2, THEN conjunct2, THEN conjunct1, THEN spec [of _ 0], THEN spec [of _ 1]]
    d [THEN conjunct2, THEN conjunct1]
  show ?thesis by simp
qed

lemma ex_arena_run:
  "fst (arena_run [Raw 5 1, New 8 8 False False, NewArray 4 4 False None 2,
      New 8 8 False True, NewArray 4 4 False None 2] ex_new_arena) =
    [(PagePtr 0 8, 1), (PagePtr 0 16, 1), (PagePtr 0 20, 1)]"
proof -
  have b: "has_single_bit (Suc 0)" "has_single_bit 8" "has_single_bit 4"
    using has_single_bit_pow [of 0] has_single_bit_pow [of 3] has_single_bit_pow [of 2] by simp_all
  have a: "align_up 0 (Suc 0) = Inr 0" "align_up 5 8 = Inr 8" "align_up 16 4 = Inr 16" "align_up 16 8 = Inr 16"
    using align_up_eq [OF b(1), of 0] align_up_eq [OF b(2), of 5] align_up_eq [OF b(3), of 16]
      align_up_eq [OF b(2), of 16] by simp_all
  have loop: "construct_loop sz t f cp p 2 i c = construct_loop sz t f cp p (Suc (Suc 0)) i c" for sz t f cp p i c
    by (simp only: numeral_2_eq_2)
  show ?thesis
    by (simp add: ex_new_arena_def alloc_def b a alloc_small_def append_page_def get_next_page_size_def
      alloc_page_def heap_request_def fits_in_def bump_last_def max_page_size_def arena_new_def
      arena_new_array_def register_destructor_def loop rethrow_def abandon_object_def rollback_def take_checkpoint_def
      destroy_to_def max_align_def Let_def upt_rec)
qed

theorem arena_rollback_undoes_witness:
  "\<exists>b c. arena_run [Raw 5 1, New 8 8 False False, NewArray 4 4 False None 2,
      New 8 8 False True, NewArray 4 4 False None 2] ex_new_arena =
      ([(PagePtr 0 8, 1), (PagePtr 0 16, 1), (PagePtr 0 20, 1)], b) \<and> length (destructors b) = 3 \<and>
    rollback (take_checkpoint ex_new_arena) b = Some c \<and> pages c = [] \<and> destructors c = [] \<and>
    destroyed c = destroyed b @ [(PagePtr 0 20, 1), (PagePtr 0 16, 1), (PagePtr 0 8, 1)]"
proof -
  obtain b where b: "arena_run [Raw 5 1, New 8 8 False False, NewArray 4 4 False None 2,
      New 8 8 False True, NewArray 4 4 False None 2]
      ex_new_arena = ([(PagePtr 0 8, 1), (PagePtr 0 16, 1), (PagePtr 0 20, 1)], b)"
    using ex_arena_run by (metis prod.collapse)
  from arena_rollback_undoes [OF ex_new_arena_ok b] b show ?thesis
    by (auto simp: ex_new_arena_def)
qed

end
