(* ===== verification/DBOptions.thy ===== *)
theory DBOptions
  imports CompactionScheduler Arena
begin

text \<open>
  The configuration of a database and its validation (\<^verbatim>\<open>config/db_options.h\<close>,
  \<^verbatim>\<open>config/db_options.cpp\<close>), and the options the engine hands to the compaction scheduler. A
  \<^verbatim>\<open>size_t\<close> is a \<open>nat\<close>.
\<close>

section \<open>Options\<close>

record ArenaOptions =
  ao_page_size :: nat
  ao_large_threshold :: nat

record MemTableOptions =
  mo_size_limit :: nat
  mo_immutable_tables_limit :: nat

record WALOptions =
  wo_file_size_limit :: u64
  wo_sync_on_write :: bool

record BloomFilterOptions =
  bo_hash_count :: u32
  bo_mask_bit_size :: u32

record DBCompactionOptions =
  co_enable_background_compaction :: bool
  co_max_levels :: u32
  co_l0_file_count_trigger :: nat
  co_max_bytes_per_level :: "u64 list"
  co_target_file_size_per_level :: "u64 list"

record DBOptions =
  db_path :: string
  create_if_missing :: bool
  error_if_exists :: bool
  db_block_size :: nat
  db_arena :: ArenaOptions
  db_memtable :: MemTableOptions
  db_wal :: WALOptions
  db_bloom_filter :: BloomFilterOptions
  db_compaction :: DBCompactionOptions
  db_manifest_file_size_limit :: u64
  db_lazy_loading :: bool

definition DBOptions_default :: DBOptions where
  "DBOptions_default =
     \<lparr>db_path = [], create_if_missing = True, error_if_exists = False, db_block_size = 4 * 1024,
      db_arena = \<lparr>ao_page_size = 64 * 1024, ao_large_threshold = 16 * 1024\<rparr>,
      db_memtable = \<lparr>mo_size_limit = 64 * 1024 * 1024, mo_immutable_tables_limit = 1\<rparr>,
      db_wal = \<lparr>wo_file_size_limit = 64 * 1024 * 1024, wo_sync_on_write = False\<rparr>,
      db_bloom_filter = \<lparr>bo_hash_count = 2, bo_mask_bit_size = 128\<rparr>,
      db_compaction = \<lparr>co_enable_background_compaction = True, co_max_levels = 7, co_l0_file_count_trigger = 4,
        co_max_bytes_per_level = [0, 64 * 1024 * 1024, 640 * 1024 * 1024, 6400 * 1024 * 1024,
          64000 * 1024 * 1024, 640000 * 1024 * 1024, 0],
        co_target_file_size_per_level = [8 * 1024 * 1024, 8 * 1024 * 1024, 16 * 1024 * 1024, 32 * 1024 * 1024,
          64 * 1024 * 1024, 128 * 1024 * 1024, 256 * 1024 * 1024]\<rparr>,
      db_manifest_file_size_limit = 16 * 1024 * 1024, db_lazy_loading = True\<rparr>"

section \<open>Validation\<close>

definition ArenaOptions_validate :: "ArenaOptions \<Rightarrow> StatusCode" where
  "ArenaOptions_validate opts =
     (if ao_page_size opts = 0 \<or> ao_page_size opts > 2 ^ 20 then InvalidArgument
      else if ao_large_threshold opts = 0 then InvalidArgument
      else Ok)"

definition MemTableOptions_validate :: "MemTableOptions \<Rightarrow> StatusCode" where
  "MemTableOptions_validate opts =
     (if mo_size_limit opts = 0 then InvalidArgument
      else if mo_immutable_tables_limit opts = 0 then InvalidArgument
      else Ok)"

definition WALOptions_validate :: "WALOptions \<Rightarrow> StatusCode" where
  "WALOptions_validate opts = (if wo_file_size_limit opts = 0 then InvalidArgument else Ok)"

definition BloomFilterOptions_validate :: "BloomFilterOptions \<Rightarrow> StatusCode" where
  "BloomFilterOptions_validate opts =
     (if bo_hash_count opts = 0 then InvalidArgument
      else if bo_mask_bit_size opts = 0 \<or> bo_mask_bit_size opts mod 8 \<noteq> 0 then InvalidArgument
      else Ok)"

definition SSTableOptions_validate :: "BloomFilterOptions \<Rightarrow> StatusCode" where
  "SSTableOptions_validate = BloomFilterOptions_validate"

definition DBCompactionOptions_validate :: "DBCompactionOptions \<Rightarrow> StatusCode" where
  "DBCompactionOptions_validate opts =
     (if co_max_levels opts < 2 then InvalidArgument
      else if co_l0_file_count_trigger opts = 0 \<or> co_l0_file_count_trigger opts > u32_max then InvalidArgument
      else if length (co_max_bytes_per_level opts) < unat (co_max_levels opts) \<or>
              length (co_target_file_size_per_level opts) < unat (co_max_levels opts) then InvalidArgument
      else if list_ex (\<lambda>level. co_max_bytes_per_level opts ! level = 0) [1..<unat (co_max_levels opts) - 1] then InvalidArgument
      else if list_ex (\<lambda>level. co_target_file_size_per_level opts ! level = 0) [1..<unat (co_max_levels opts)] then InvalidArgument
      else Ok)"

definition ManifestOptions_validate :: "u64 \<Rightarrow> StatusCode" where
  "ManifestOptions_validate file_size_limit = (if file_size_limit = 0 then InvalidArgument else Ok)"

definition SSTableManagerOptions_validate :: "bool \<Rightarrow> StatusCode" where
  "SSTableManagerOptions_validate lazy_loading = Ok"

definition DBOptions_validate :: "DBOptions \<Rightarrow> StatusCode" where
  "DBOptions_validate opts =
     (if db_path opts = [] then InvalidArgument
      else if db_block_size opts = 0 \<or> db_block_size opts > u32_max then InvalidArgument
      else let status = ArenaOptions_validate (db_arena opts) in if \<not> is_ok status then status
      else let status = MemTableOptions_validate (db_memtable opts) in if \<not> is_ok status then status
      else let status = WALOptions_validate (db_wal opts) in if \<not> is_ok status then status
      else let status = SSTableOptions_validate (db_bloom_filter opts) in if \<not> is_ok status then status
      else let status = DBCompactionOptions_validate (db_compaction opts) in if \<not> is_ok status then status
      else let status = ManifestOptions_validate (db_manifest_file_size_limit opts) in if \<not> is_ok status then status
      else SSTableManagerOptions_validate (db_lazy_loading opts))"

definition scheduler_options :: "DBOptions \<Rightarrow> CompactionOptions" where
  "scheduler_options opts =
     \<lparr>max_levels = co_max_levels (db_compaction opts),
      l0_file_count_trigger = of_nat (co_l0_file_count_trigger (db_compaction opts)),
      max_bytes_per_level = co_max_bytes_per_level (db_compaction opts),
      target_file_size_per_level = co_target_file_size_per_level (db_compaction opts)\<rparr>"

section \<open>Validated options\<close>

text \<open>The components accept what \<open>validate\<close> accepts: the arena can be constructed, there is a level, and
  the scheduler takes the options.\<close>

lemma DBOptions_validateD:
  assumes "DBOptions_validate opts = Ok"
  shows "db_path opts \<noteq> []" "ArenaOptions_validate (db_arena opts) = Ok" "DBCompactionOptions_validate (db_compaction opts) = Ok"
  using assms by (auto simp: DBOptions_validate_def Let_def is_ok_def split: if_splits)

lemma scheduler_options_valid:
  assumes "DBCompactionOptions_validate (db_compaction opts) = Ok"
  shows "CompactionOptions_validate (scheduler_options opts) = Ok" "2 \<le> unat (co_max_levels (db_compaction opts))"
proof -
  let ?o = "db_compaction opts"
  have v: "\<not> co_max_levels ?o < 2" "co_l0_file_count_trigger ?o \<noteq> 0" "co_l0_file_count_trigger ?o \<le> u32_max"
    "unat (co_max_levels ?o) \<le> length (co_max_bytes_per_level ?o)" "unat (co_max_levels ?o) \<le> length (co_target_file_size_per_level ?o)"
    "\<not> list_ex (\<lambda>level. co_max_bytes_per_level ?o ! level = 0) [1..<unat (co_max_levels ?o) - 1]"
    "\<not> list_ex (\<lambda>level. co_target_file_size_per_level ?o ! level = 0) [1..<unat (co_max_levels ?o)]"
    using assms unfolding DBCompactionOptions_validate_def by (simp_all split: if_splits)
  have "(of_nat (co_l0_file_count_trigger ?o) :: u32) \<noteq> 0"
  proof -
    have "unat (of_nat (co_l0_file_count_trigger ?o) :: u32) = co_l0_file_count_trigger ?o" using v(3) by (simp add: unat_of_nat)
    then show ?thesis using v(2) by (metis unat_0)
  qed
  then show "CompactionOptions_validate (scheduler_options opts) = Ok"
    using v by (simp add: CompactionOptions_validate_def scheduler_options_def source_levels_def)
  show "2 \<le> unat (co_max_levels ?o)" using v(1) by (simp add: word_less_nat_alt)
qed

lemma validated_arena:
  assumes "ArenaOptions_validate (db_arena opts) = Ok"
  shows "\<exists>a. arena_init (ao_page_size (db_arena opts)) (ao_large_threshold (db_arena opts)) script = Some a"
  using assms by (auto simp: ArenaOptions_validate_def arena_init_def max_page_size_def split: if_splits)

end
