(* ===== verification/BlockStream.thy ===== *)
theory BlockStream
  imports BlockIO
begin

text \<open>
  Sequences of fields in a block-structured file. A writer that emits fields one after the other
  pads before every field that would cross a block boundary, so the bytes it leaves depend on the
  offset it starts at; \<open>lay\<close> is that function. \<open>lays\<close> and \<open>reads\<close> relate writers and readers to a
  sequence of fields and compose along \<open>run_all\<close> and \<open>bind_r\<close>: whatever has been laid out is read
  back. The manifest and table formats rest on these rules.
\<close>

section \<open>Offset checks\<close>

definition check_offset :: "wfile action" where
  "check_offset = (\<lambda>f. (check_writer_offset f, f))"

text \<open>The failing paths put the caller's offset back.\<close>

definition restoring :: "nat \<Rightarrow> 'a result \<times> rfile \<Rightarrow> 'a result \<times> rfile" where
  "restoring initial_offset rf =
     (case rf of (Inl e, f) \<Rightarrow> (Inl e, f\<lparr>roff := initial_offset\<rparr>) | (Inr v, f) \<Rightarrow> (Inr v, f))"

lemma check_offset_emits: "tracked f \<Longrightarrow> emits check_offset [] f"
  by (simp add: check_offset_def check_writer_offset_def current_position_def tracked_def)

lemma fsync_loop_keeps:
  "fsync_loop f = (c, f') \<Longrightarrow> wdata f' = wdata f \<and> woff f' = woff f \<and> wfd f' = wfd f \<and>
    wenv f' = wenv f \<and> wclose_ok f' = wclose_ok f \<and> (c = Ok \<longrightarrow> wsynced f' = length (wdata f)) \<and>
    (c \<noteq> Ok \<longrightarrow> c = SyncFailed \<and> wsynced f' = wsynced f) \<and> set (wsenv f') \<subseteq> set (wsenv f)"
proof (induction f rule: fsync_loop.induct)
  case (1 f)
  show ?case
  proof (cases "\<exists>env. wsenv f = SyncIntr # env")
    case True
    then obtain env where e: "wsenv f = SyncIntr # env" by blast
    then have "fsync_loop (f\<lparr>wsenv := env\<rparr>) = (c, f')"
      using 1(2) by (simp add: fsync_loop.simps [of f])
    from 1(1) [OF e refl this] e show ?thesis by auto
  next
    case False
    with 1(2) show ?thesis
      by (auto simp: fsync_loop.simps [of f] split: list.splits sync_outcome.splits)
  qed
qed

lemma syncD:
  assumes "sync f = (c, f')"
  shows "wdata f' = wdata f" "tracked f' = tracked f" "wfd f' = wfd f" "write_faultfree f' = write_faultfree f"
    "c = Ok \<Longrightarrow> wsynced f' = length (wdata f)" "c \<noteq> Ok \<Longrightarrow> c = SyncFailed \<and> wsynced f' = wsynced f"
    "set (wsenv f') \<subseteq> set (wsenv f)"
  using assms fsync_loop_keeps [of f c f']
  by (auto simp: sync_def tracked_def write_faultfree_def split: if_splits)

definition sync_faultfree :: "wfile \<Rightarrow> bool" where
  "sync_faultfree f \<longleftrightarrow> SyncErr \<notin> set (wsenv f)"

lemma fsync_loop_faultfree: "sync_faultfree f \<Longrightarrow> fst (fsync_loop f) = Ok"
  by (induction f rule: fsync_loop.induct)
    (subst fsync_loop.simps, auto simp: sync_faultfree_def split: list.split sync_outcome.split)

section \<open>Bytes at an offset\<close>

definition bytes_at :: "byte list \<Rightarrow> nat \<Rightarrow> byte list \<Rightarrow> bool" where
  "bytes_at D off bs \<longleftrightarrow> (\<exists>p q. D = p @ bs @ q \<and> length p = off)"

lemma bytes_at_append:
  "bytes_at D off (a @ b) \<longleftrightarrow> bytes_at D off a \<and> bytes_at D (off + length a) b"
proof
  show "bytes_at D off (a @ b) \<Longrightarrow> bytes_at D off a \<and> bytes_at D (off + length a) b"
    unfolding bytes_at_def by (metis append.assoc length_append)
  assume "bytes_at D off a \<and> bytes_at D (off + length a) b"
  then obtain p q p' q' where D: "D = p @ a @ q" "length p = off" "D = p' @ b @ q'"
    "length p' = off + length a" unfolding bytes_at_def by blast
  then have "(p @ a) @ q = p' @ (b @ q')" "length (p @ a) = length p'" by simp_all
  then have "p' = p @ a" by (metis append_eq_append_conv)
  with D show "bytes_at D off (a @ b)" unfolding bytes_at_def by (metis append.assoc)
qed

lemma bytes_at_bound: "bytes_at D off bs \<Longrightarrow> off + length bs \<le> length D"
  by (auto simp: bytes_at_def)

lemma bytes_at_take: "bytes_at D off bs \<Longrightarrow> take (length bs) (drop off D) = bs"
  by (auto simp: bytes_at_def)

lemma quiet_data: "read_quiet D f \<Longrightarrow> rdata f = D"
  by (simp add: read_quiet_def)

section \<open>Laying out fields\<close>

fun lay :: "nat \<Rightarrow> nat \<Rightarrow> byte list list \<Rightarrow> byte list" where
  "lay B off [] = []"
| "lay B off (c # cs) =
     pad_before off (length c) B @ c @ lay B (off + length (pad_before off (length c) B) + length c) cs"

lemma lay_append: "lay B off (cs @ ds) = lay B off cs @ lay B (off + length (lay B off cs)) ds"
  by (induction B off cs rule: lay.induct) (simp_all add: add.assoc)

text \<open>No field needs padding.\<close>

fun seamless :: "nat \<Rightarrow> nat \<Rightarrow> byte list list \<Rightarrow> bool" where
  "seamless B off [] \<longleftrightarrow> True"
| "seamless B off (c # cs) \<longleftrightarrow> pad_before off (length c) B = [] \<and> seamless B (off + length c) cs"

lemma seamless_lay: "seamless B off cs \<Longrightarrow> lay B off cs = concat cs"
  by (induction B off cs rule: seamless.induct) auto

lemma lay_length: "length (concat cs) \<le> length (lay B off cs)"
  by (induction B off cs rule: lay.induct) auto

lemma lay_length_seamless: "length (lay B off cs) = length (concat cs) \<longleftrightarrow> seamless B off cs"
proof (induction B off cs rule: lay.induct)
  case (2 B off c cs)
  have "length (concat cs) \<le> length (lay B (off + length (pad_before off (length c) B) + length c) cs)"
    by (rule lay_length)
  then show ?case using 2 by (cases "pad_before off (length c) B = []") auto
qed simp

lemma seamless_append: "seamless B off (cs @ ds) \<longleftrightarrow> seamless B off cs \<and> seamless B (off + length (concat cs)) ds"
  by (induction B off cs rule: seamless.induct) (simp_all add: add.assoc)

section \<open>Writers\<close>

definition lays :: "nat \<Rightarrow> wfile action \<Rightarrow> byte list list \<Rightarrow> bool" where
  "lays B a cs \<longleftrightarrow> (\<forall>f. tracked f \<longrightarrow> emits a (lay B (length (wdata f)) cs) f)"

lemma laysD: "lays B a cs \<Longrightarrow> tracked f \<Longrightarrow> emits a (lay B (length (wdata f)) cs) f"
  by (simp add: lays_def)

lemma lays_run_all_Nil: "lays B (run_all []) []"
  by (simp add: lays_def)

lemma lays_run_all_Cons: "lays B a cs \<Longrightarrow> lays B (run_all as) ds \<Longrightarrow> lays B (run_all (a # as)) (cs @ ds)"
  unfolding lays_def
proof (intro allI impI)
  fix f assume a: "\<forall>f. tracked f \<longrightarrow> emits a (lay B (length (wdata f)) cs) f"
    "\<forall>f. tracked f \<longrightarrow> emits (run_all as) (lay B (length (wdata f)) ds) f" and t: "tracked f"
  show "emits (run_all (a # as)) (lay B (length (wdata f)) (cs @ ds)) f"
    unfolding lay_append
  proof (rule emits_run_all_Cons [OF t])
    show "emits a (lay B (length (wdata f)) cs) f" using a t by blast
    show "emits (run_all as) (lay B (length (wdata f) + length (lay B (length (wdata f)) cs)) ds) f'"
      if "tracked f'" "wdata f' = wdata f @ lay B (length (wdata f)) cs" for f'
      using a(2) that by (metis length_append)
  qed
qed

lemma lays_run_all_append:
  "lays B (run_all as) cs \<Longrightarrow> lays B (run_all bs) ds \<Longrightarrow> lays B (run_all (as @ bs)) (cs @ ds)"
  unfolding lays_def
proof (intro allI impI)
  fix f assume a: "\<forall>f. tracked f \<longrightarrow> emits (run_all as) (lay B (length (wdata f)) cs) f"
    "\<forall>f. tracked f \<longrightarrow> emits (run_all bs) (lay B (length (wdata f)) ds) f" and t: "tracked f"
  have "emits (\<lambda>f. case run_all as f of (c, f') \<Rightarrow> if is_ok c then run_all bs f' else (c, f'))
      (lay B (length (wdata f)) (cs @ ds)) f"
    unfolding lay_append
  proof (rule emits_seq [OF t])
    show "emits (run_all as) (lay B (length (wdata f)) cs) f" using a t by blast
    show "emits (run_all bs) (lay B (length (wdata f) + length (lay B (length (wdata f)) cs)) ds) f'"
      if "tracked f'" "wdata f' = wdata f @ lay B (length (wdata f)) cs" for f'
      using a(2) that by (metis length_append)
  qed
  then show "emits (run_all (as @ bs)) (lay B (length (wdata f)) (cs @ ds)) f"
    by (simp add: emits_def run_all_append)
qed

lemma lays_map: "(\<And>x. x \<in> set xs \<Longrightarrow> lays B (w x) (e x)) \<Longrightarrow> lays B (run_all (map w xs)) (concat (map e xs))"
proof (induction xs)
  case (Cons x xs)
  then have "lays B (run_all (w x # map w xs)) (e x @ concat (map e xs))"
    by (intro lays_run_all_Cons) auto
  then show ?case by (simp only: list.map concat.simps)
qed (simp add: lays_run_all_Nil)

lemma lays_skip: "(\<And>f. tracked f \<Longrightarrow> a f = (Ok, f)) \<Longrightarrow> lays B a []"
  by (simp add: lays_def)

lemma lays_cong: "(\<And>f. tracked f \<Longrightarrow> a f = b f) \<Longrightarrow> lays B b cs \<Longrightarrow> lays B a cs"
  by (simp add: lays_def emits_def)

lemma write_bytes_lays: "0 < B \<Longrightarrow> length bs \<le> B \<Longrightarrow> lays B (write_bytes bs B) [bs]"
  unfolding lays_def using write_bytes_emits by simp

section \<open>Readers\<close>

definition reads :: "nat \<Rightarrow> (rfile, 'a) reader \<Rightarrow> byte list list \<Rightarrow> 'a \<Rightarrow> bool" where
  "reads B m cs v \<longleftrightarrow> (\<forall>D f. read_quiet D f \<longrightarrow> bytes_at D (roff f) (lay B (roff f) cs) \<longrightarrow>
     yields m (Inr v) (roff f + length (lay B (roff f) cs)) f)"

lemma readsD:
  "reads B m cs v \<Longrightarrow> read_quiet D f \<Longrightarrow> bytes_at D (roff f) (lay B (roff f) cs) \<Longrightarrow>
    yields m (Inr v) (roff f + length (lay B (roff f) cs)) f"
  unfolding reads_def by blast

lemma reads_return: "reads B (return_r v) [] v"
  by (simp add: reads_def yields_def return_r_def quiet_data)

lemma reads_bind:
  assumes "reads B m cs v" "reads B (k v) ds w"
  shows "reads B (bind_r m k) (cs @ ds) w"
  unfolding reads_def lay_append
proof (intro allI impI)
  fix D and f :: rfile
  let ?a = "lay B (roff f) cs" and ?b = "lay B (roff f + length (lay B (roff f) cs)) ds"
  assume q: "read_quiet D f" and at: "bytes_at D (roff f) (?a @ ?b)"
  show "yields (bind_r m k) (Inr w) (roff f + length (?a @ ?b)) f"
  proof (rule yields_bind)
    show "yields m (Inr v) (roff f + length ?a) f"
      using readsD [OF assms(1) q] at by (simp add: bytes_at_append)
    fix g assume g: "read_quiet (rdata f) g" "roff g = roff f + length ?a"
    show "yields (k v) (Inr w) (roff f + length (?a @ ?b)) g"
      using readsD [OF assms(2), of D g] g at q by (simp add: bytes_at_append quiet_data add.assoc)
  qed
qed

lemma reads_bind_Nil: "reads B m cs v \<Longrightarrow> reads B (k v) [] w \<Longrightarrow> reads B (bind_r m k) cs w"
  using reads_bind [of B m cs v k "[]" w] by simp

context block_codec
begin

lemma wr_lays: "0 < B \<Longrightarrow> n \<le> B \<Longrightarrow> lays B (wr v B) [enc v]"
  unfolding lays_def using wr_law [of _ B v] enc_len [of v] by simp

lemma rd_reads:
  assumes "0 < B" "n \<le> B" "B \<le> u32_max"
  shows "reads B (rd B) [enc v] v"
  unfolding reads_def
proof (intro allI impI)
  fix D and f :: rfile
  assume q: "read_quiet D f" and at: "bytes_at D (roff f) (lay B (roff f) [enc v])"
  let ?pad = "pad_before (roff f) n B"
  have "bytes_at D (roff f) (?pad @ enc v)" using at enc_len [of v] by simp
  then obtain p s where D: "D = (p @ ?pad) @ enc v @ s" "length p = roff f" by (auto simp: bytes_at_def)
  have "roff f + B \<le> u64_max" using q D assms(3) by (auto simp: read_quiet_def)
  from rd_at_pad [OF q assms(1,2) this D(1)] D(2) enc_len [of v]
  show "yields (rd B) (Inr v) (roff f + length (lay B (roff f) [enc v])) f" by (simp add: add.assoc)
qed

end

lemma read_bytes_reads:
  assumes "0 < B" "length bs \<le> B" "B \<le> u32_max"
  shows "reads B (read_bytes (length bs) B) [bs] bs"
  unfolding reads_def
proof (intro allI impI)
  fix D and f :: rfile
  assume q: "read_quiet D f" and at: "bytes_at D (roff f) (lay B (roff f) [bs])"
  let ?pad = "pad_before (roff f) (length bs) B"
  show "yields (read_bytes (length bs) B) (Inr bs) (roff f + length (lay B (roff f) [bs])) f"
  proof (cases "bs = []")
    case True
    then show ?thesis
      using assms(1) q by (simp add: yields_def read_bytes_def validate_block_size_def pad_before_def quiet_data)
  next
    case False
    have at2: "bytes_at D (roff f + length ?pad) bs" using at by (simp add: bytes_at_append)
    have "roff f + B \<le> u64_max" using q bytes_at_bound [OF at] assms(3) by (auto simp: read_quiet_def)
    then have "yields (read_fixed (length bs) B) (Inr bs) (roff f + length ?pad + length bs) f"
      using read_fixed_yields [of f B "length bs"] q assms bytes_at_bound [OF at2] bytes_at_take [OF at2]
      by (simp add: quiet_data)
    then show ?thesis using False by (simp add: yields_def read_bytes_eq_fixed add.assoc)
  qed
qed

text \<open>A loop that reads a known number of items.\<close>

fun read_many :: "nat \<Rightarrow> ('s, 'a) reader \<Rightarrow> ('s, 'a list) reader" where
  "read_many 0 m = return_r []"
| "read_many (Suc k) m = bind_r m (\<lambda>x. bind_r (read_many k m) (\<lambda>xs. return_r (x # xs)))"

lemma read_many_reads:
  "(\<And>x. x \<in> set xs \<Longrightarrow> reads B m (e x) x) \<Longrightarrow> reads B (read_many (length xs) m) (concat (map e xs)) xs"
proof (induction xs)
  case (Cons x xs)
  have "reads B (bind_r (read_many (length xs) m) (\<lambda>ys. return_r (x # ys))) (concat (map e xs)) (x # xs)"
    by (rule reads_bind_Nil [OF Cons.IH]) (auto intro: Cons.prems reads_return)
  then have "reads B (read_many (Suc (length xs)) m) (e x @ concat (map e xs)) (x # xs)"
    unfolding read_many.simps by (intro reads_bind [OF Cons.prems [of x]]) simp_all
  then show ?case by simp
qed (simp add: reads_return)

section \<open>Readers that move forward\<close>

text \<open>\<open>advances k m\<close>: \<open>m\<close> leaves the file's bytes alone, and a success moves the offset by at
  least \<open>k\<close>. The loops of the loaders end because a loaded fragment moves the offset.\<close>

definition advances :: "nat \<Rightarrow> (rfile, 'a) reader \<Rightarrow> bool" where
  "advances k m \<longleftrightarrow> (\<forall>f r f'. m f = (r, f') \<longrightarrow>
     rdata f' = rdata f \<and> rfd f' = rfd f \<and> (\<forall>v. r = Inr v \<longrightarrow> roff f + k \<le> roff f'))"

lemma advancesD:
  "advances k m \<Longrightarrow> m f = (r, f') \<Longrightarrow>
    rdata f' = rdata f \<and> rfd f' = rfd f \<and> (\<forall>v. r = Inr v \<longrightarrow> roff f + k \<le> roff f')"
  unfolding advances_def by blast

lemma advances_bind:
  assumes "advances k m" "\<And>v. advances l (h v)"
  shows "advances (k + l) (bind_r m h)"
  unfolding advances_def
proof (intro allI impI)
  fix f r f' assume eq: "bind_r m h f = (r, f')"
  obtain x g where g: "m f = (x, g)" by (cases "m f")
  show "rdata f' = rdata f \<and> rfd f' = rfd f \<and> (\<forall>v. r = Inr v \<longrightarrow> roff f + (k + l) \<le> roff f')"
  proof (cases x)
    case (Inl e)
    with eq g assms(1) show ?thesis by (auto simp: advances_def)
  next
    case (Inr v)
    with eq g have hv: "h v g = (r, f')" by simp
    have "rdata g = rdata f" "rfd g = rfd f" "roff f + k \<le> roff g"
      using assms(1) g Inr by (auto simp: advances_def)
    moreover have "rdata f' = rdata g" "rfd f' = rfd g" "r = Inr w \<Longrightarrow> roff g + l \<le> roff f'" for w
      using assms(2) [of v] hv by (auto simp: advances_def)
    ultimately show ?thesis by fastforce
  qed
qed

lemma advances_return: "advances 0 (return_r v)"
  by (simp add: advances_def return_r_def)

lemma read_at_loop_keeps:
  "\<exists>c out f'. read_at_loop off n acc f = (c, out, f') \<and> rdata f' = rdata f \<and> rfd f' = rfd f \<and>
    roff f' = roff f"
proof (induction "(n - length acc) + length (renv f)" arbitrary: acc f rule: less_induct)
  case less
  let ?c = "io_chunk (n - length acc)" and ?o = "off + length acc"
  have grow: "\<exists>c out f'. (if got = [] then (Ok, acc, g) else read_at_loop off n (acc @ got) g) =
      (c, out, f') \<and> rdata f' = rdata f \<and> rfd f' = rfd f \<and> roff f' = roff f"
    if "rdata g = rdata f" "rfd g = rfd f" "roff g = roff f" "length (renv g) \<le> length (renv f)"
      "length acc < n" for got g
    using less.hyps [of "acc @ got" g] that by (cases got) auto
  show ?case
  proof (cases "length acc < n \<and> \<not> ssize_max < ?o")
    case False
    then show ?thesis by (auto simp: read_at_loop.simps [of off n acc f])
  next
    case True
    note unf = read_at_loop_unfold [OF conjunct1 [OF True] conjunct2 [OF True], of f]
    show ?thesis
    proof (cases "renv f")
      case Nil
      show ?thesis
        using grow [where g = f and got = "take ?c (drop ?o (rdata f))"] True
        by (simp only: unf(1) [OF Nil] Let_def)
    next
      case (Cons e env)
      show ?thesis
      proof (cases e)
        case (GotUpTo k)
        show ?thesis
          using grow [where g = "f\<lparr>renv := env\<rparr>" and got = "take (min (Suc k) ?c) (drop ?o (rdata f))"] True Cons
          by (simp add: unf(3) [OF Cons [unfolded GotUpTo]] Let_def)
      next
        case ReadIntr
        with Cons less.hyps [of acc "f\<lparr>renv := env\<rparr>"] show ?thesis
          by (simp add: unf(2) [OF Cons [unfolded ReadIntr]])
      next
        case ReadErr
        with Cons True show ?thesis by (simp add: read_at_loop.simps [of off n acc f] Let_def)
      qed
    qed
  qed
qed

lemma read_exact_loop_keeps:
  "read_exact_loop off n out f = (r, f') \<Longrightarrow> rdata f' = rdata f \<and> rfd f' = rfd f \<and>
    (case r of Inl _ \<Rightarrow> True | Inr _ \<Rightarrow> off + n \<le> roff f')"
proof (induction "n - length out" arbitrary: out f rule: less_induct)
  case less
  show ?case
  proof (cases "length out < n")
    case True
    obtain c got g where g: "read_at (off + length out) (n - length out) f = (c, got, g)"
      "rdata g = rdata f" "rfd g = rfd f"
      using read_at_loop_keeps [of "off + length out" "n - length out" "[]" f]
      by (cases "rfd f") (auto simp: read_at_def)
    have lt: "n - length (out @ got) < n - length out" if "got \<noteq> []" using True that by (cases got) auto
    have "read_exact_loop off n out f = (if \<not> is_ok c then (Inl c, g)
        else if got = [] then (Inl UnexpectedEOF, g) else read_exact_loop off n (out @ got) g)"
      using g True by (simp add: read_exact_loop.simps [of off n out f])
    with less.prems g less.hyps [OF lt] show ?thesis by (auto split: if_splits)
  next
    case False
    with less.prems show ?thesis by (subst (asm) read_exact_loop.simps) auto
  qed
qed

lemma ensure_fits_r_moves:
  "\<exists>c x. ensure_fits_in_block_r n B f = (c, f\<lparr>roff := x\<rparr>) \<and> roff f \<le> x"
proof (cases "0 < B")
  case True
  have "roff f \<le> roff f + (B - roff f mod B)" using mod_less_divisor [OF True, of "roff f"] by linarith
  then have move: "\<exists>c x. (Ok, f\<lparr>roff := roff f + (B - roff f mod B)\<rparr>) = (c, f\<lparr>roff := x\<rparr>) \<and> roff f \<le> x"
    by blast
  have stay: "\<exists>c x. (d, f) = (c, f\<lparr>roff := x\<rparr>) \<and> roff f \<le> x" for d
    by (intro exI [of _ d] exI [of _ "roff f"]) simp
  show ?thesis
    unfolding ensure_fits_in_block_r_def align_to_block_boundary_r_def Let_def
    by (split if_split | intro conjI impI | rule stay | rule move)+
qed (auto simp: ensure_fits_in_block_r_def intro: exI [of _ "roff f"])

lemma read_fixed_advances: "advances n (read_fixed n B)"
proof -
  show ?thesis unfolding advances_def
  proof (intro allI impI)
    fix f r f' assume eq: "read_fixed n B f = (r, f')"
    obtain c x where x: "ensure_fits_in_block_r n B f = (c, f\<lparr>roff := x\<rparr>)" "roff f \<le> x"
      using ensure_fits_r_moves by blast
    obtain y g where y: "read_exact_at x n (f\<lparr>roff := x\<rparr>) = (y, g)"
      by (cases "read_exact_at x n (f\<lparr>roff := x\<rparr>)")
    note k = read_exact_loop_keeps [OF y [unfolded read_exact_at_def]]
    show "rdata f' = rdata f \<and> rfd f' = rfd f \<and> (\<forall>v. r = Inr v \<longrightarrow> roff f + n \<le> roff f')"
      using eq x y k by (auto simp: read_fixed_def Let_def split: if_splits sum.splits)
  qed
qed

lemma read_field_advances:
  "advances 1 (read_u8_t B)" "advances 4 (read_u32_t_le B)" "advances 8 (read_u64_t_le B)"
  unfolding read_u8_t_def read_u32_t_le_def read_u64_t_le_def
  using advances_bind [OF read_fixed_advances advances_return] by simp_all

lemma advances_check:
  assumes "advances k m"
  shows "advances k (bind_r m (\<lambda>h f. if P h f then (Inr (g h), f) else (Inl (e h f), f)))"
proof -
  have "advances 0 (\<lambda>f. if P h f then (Inr (g h), f) else (Inl (e h f), f))" for h
    unfolding advances_def by auto
  from advances_bind [OF assms this] show ?thesis by simp
qed

lemma restoringD:
  "restoring i x = (Inr v, f') \<Longrightarrow> x = (Inr v, f')"
  "restoring i x = (r, f') \<Longrightarrow> rdata f' = rdata (snd x) \<and> rfd f' = rfd (snd x)"
  by (cases x; cases "fst x"; auto simp: restoring_def)+

section \<open>Readers that fail with a status\<close>

text \<open>A failing reader reports a status other than \<open>Ok\<close>.\<close>

definition fails_properly :: "(rfile, 'a) reader \<Rightarrow> bool" where
  "fails_properly m \<longleftrightarrow> (\<forall>f f'. m f \<noteq> (Inl Ok, f'))"

lemma fails_bind: "fails_properly m \<Longrightarrow> (\<And>v. fails_properly (k v)) \<Longrightarrow> fails_properly (bind_r m k)"
  unfolding fails_properly_def bind_r_def by (auto split: prod.split sum.split)

lemma fails_return: "fails_properly (return_r v)"
  by (simp add: fails_properly_def return_r_def)

lemma fails_check: "fails_properly (\<lambda>f. let c = C f in if is_ok c then (Inr v, f) else (Inl c, f))"
  by (simp add: fails_properly_def Let_def)

lemma read_exact_loop_fails: "read_exact_loop off n out f \<noteq> (Inl Ok, f')"
proof (induction "n - length out" arbitrary: out f rule: less_induct)
  case less
  obtain c got g where g: "read_at (off + length out) (n - length out) f = (c, got, g)"
    by (cases "read_at (off + length out) (n - length out) f")
  have "got \<noteq> [] \<Longrightarrow> length out < n \<Longrightarrow> n - length (out @ got) < n - length out" by (cases got) auto
  with less [of "out @ got" g] g show ?case
    by (auto simp: read_exact_loop.simps [of off n out f])
qed

lemma read_fixed_fails: "fails_properly (read_fixed n B)"
  using read_exact_loop_fails
  by (auto simp: fails_properly_def read_fixed_def read_exact_at_def validate_block_size_def Let_def
    split: prod.splits sum.splits if_splits)

lemma read_field_fails:
  "fails_properly (read_u8_t B)" "fails_properly (read_u32_t_le B)" "fails_properly (read_u64_t_le B)"
  unfolding read_u8_t_def read_u32_t_le_def read_u64_t_le_def
  by (intro fails_bind read_fixed_fails fails_return)+

lemma restoring_fails: "x \<noteq> (Inl Ok, snd x) \<Longrightarrow> restoring i x \<noteq> (Inl Ok, f')"
  by (cases x; cases "fst x") (auto simp: restoring_def)

end
