(* ===== verification/Loader.thy ===== *)
theory Loader
  imports BlockStream Arena
begin

text \<open>
  Readers that also allocate. The loaders of the manifest and of the tables read fields from a
  file and copy variable-length bytes into an arena; a failing load rolls the arena back to its
  checkpoint. A \<open>loader\<close> is such a computation; the value \<open>None\<close> is the exception of
  \<open>Arena::rollback\<close>. \<open>calm\<close> says that it is never raised, \<open>loads\<close> relates a loader to the sequence
  of fields it accepts.
\<close>

section \<open>Allocation and rollback\<close>

text \<open>Rolling back after allocations restores the arena, up to the heap script.\<close>

lemma rollback_allocs:
  assumes "grows a b" "destructors b = destructors a" "destroyed b = destroyed a"
  shows "rollback (take_checkpoint a) b = Some (a\<lparr>oom := oom b\<rparr>)"
  using rollback_restores [OF assms(1)] assms(2,3) by auto

definition extends :: "arena \<Rightarrow> arena \<Rightarrow> bool" where
  "extends a b \<longleftrightarrow> arena_ok b \<and> grows a b \<and> destructors b = destructors a \<and> destroyed b = destroyed a"

lemma extends_trans: "extends a b \<Longrightarrow> extends b c \<Longrightarrow> extends a c"
  by (auto simp: extends_def intro: grows_trans)

lemma extends_oom: "arena_ok a \<Longrightarrow> extends a (a\<lparr>oom := x\<rparr>)"
  by (simp add: extends_def)

section \<open>Loaders\<close>

type_synonym 'a loader = "rfile \<times> arena \<Rightarrow> ('a result \<times> rfile \<times> arena) option"

definition return_l :: "'a \<Rightarrow> 'a loader" where
  "return_l a s = Some (Inr a, s)"

definition bind_l :: "'a loader \<Rightarrow> ('a \<Rightarrow> 'b loader) \<Rightarrow> 'b loader" where
  "bind_l m k s = (case m s of
     None \<Rightarrow> None
   | Some (Inl e, s') \<Rightarrow> Some (Inl e, s')
   | Some (Inr a, s') \<Rightarrow> k a s')"

text \<open>A step that only reads, a check that may end the load, an allocation.\<close>

definition lift_l :: "(rfile, 'a) reader \<Rightarrow> 'a loader" where
  "lift_l m s = (case s of (f, ar) \<Rightarrow> case m f of (r, f') \<Rightarrow> Some (r, f', ar))"

definition check_l :: "(rfile \<Rightarrow> StatusCode) \<Rightarrow> unit loader" where
  "check_l c s = Some (if is_ok (c (fst s)) then Inr () else Inl (c (fst s)), s)"

definition alloc_l :: "nat \<Rightarrow> nat \<Rightarrow> pointer loader" where
  "alloc_l n al s = (case s of (f, ar) \<Rightarrow> case alloc n al ar of (r, ar') \<Rightarrow> Some (r, f, ar'))"

text \<open>The \<open>fail_and_rollback\<close> idiom: a failure leaves the caller's offset and the arena's pages as
  they were.\<close>

definition transact :: "'a loader \<Rightarrow> 'a loader" where
  "transact m s = (case s of (f, ar) \<Rightarrow> case m s of
     None \<Rightarrow> None
   | Some (Inl e, f', ar') \<Rightarrow>
       (case rollback (take_checkpoint ar) ar' of
          None \<Rightarrow> None
        | Some ar'' \<Rightarrow> Some (Inl e, f'\<lparr>roff := roff f\<rparr>, ar''))
   | Some (Inr v, s') \<Rightarrow> Some (Inr v, s'))"

text \<open>A loop that loads a known number of items.\<close>

fun repeat_l :: "nat \<Rightarrow> 'a loader \<Rightarrow> 'a list loader" where
  "repeat_l 0 m = return_l []"
| "repeat_l (Suc k) m = bind_l m (\<lambda>x. bind_l (repeat_l k m) (\<lambda>xs. return_l (x # xs)))"

section \<open>Loading always returns and moves forward\<close>

text \<open>\<open>forward k m\<close>: the bytes of the file stay, and a success moves the offset by at least \<open>k\<close>.
  \<open>calm m\<close>: no exception, the arena only grows by allocations, and a failure has a status.\<close>

definition forward :: "nat \<Rightarrow> 'a loader \<Rightarrow> bool" where
  "forward k m \<longleftrightarrow> (\<forall>f ar r f' ar'. m (f, ar) = Some (r, f', ar') \<longrightarrow>
     rdata f' = rdata f \<and> rfd f' = rfd f \<and> (\<forall>v. r = Inr v \<longrightarrow> roff f + k \<le> roff f'))"

definition calm :: "'a loader \<Rightarrow> bool" where
  "calm m \<longleftrightarrow> (\<forall>f ar. arena_ok ar \<longrightarrow>
     (\<exists>r f' ar'. m (f, ar) = Some (r, f', ar') \<and> extends ar ar' \<and> r \<noteq> Inl Ok))"

lemma forwardD:
  "forward k m \<Longrightarrow> m (f, ar) = Some (r, f', ar') \<Longrightarrow>
    rdata f' = rdata f \<and> rfd f' = rfd f \<and> (\<forall>v. r = Inr v \<longrightarrow> roff f + k \<le> roff f')"
  unfolding forward_def by blast

lemma forward_mono: "forward k m \<Longrightarrow> l \<le> k \<Longrightarrow> forward l m"
  unfolding forward_def by fastforce

lemma forward_bind:
  assumes "forward k m" "\<And>v. forward l (h v)"
  shows "forward (k + l) (bind_l m h)"
  unfolding forward_def
proof (intro allI impI)
  fix f ar r f' ar' assume eq: "bind_l m h (f, ar) = Some (r, f', ar')"
  then obtain x g br where g: "m (f, ar) = Some (x, g, br)"
    by (cases "m (f, ar)") (auto simp: bind_l_def)
  note gm = forwardD [OF assms(1) g]
  show "rdata f' = rdata f \<and> rfd f' = rfd f \<and> (\<forall>v. r = Inr v \<longrightarrow> roff f + (k + l) \<le> roff f')"
  proof (cases x)
    case (Inl e)
    then show ?thesis using eq g gm by (auto simp: bind_l_def)
  next
    case (Inr v)
    then have "h v (g, br) = Some (r, f', ar')" using eq g by (simp add: bind_l_def)
    from forwardD [OF assms(2) this] gm Inr show ?thesis by fastforce
  qed
qed

lemma forward_bind_left: "forward k m \<Longrightarrow> (\<And>v. forward 0 (h v)) \<Longrightarrow> forward k (bind_l m h)"
  using forward_bind [of k m 0 h] by simp

lemma forward_return: "forward 0 (return_l v)"
  by (simp add: forward_def return_l_def)

lemma forward_check: "forward 0 (check_l c)"
  by (simp add: forward_def check_l_def)

lemma forward_alloc: "forward 0 (alloc_l n al)"
  by (auto simp: forward_def alloc_l_def split: prod.splits)

lemma forward_lift: "advances k m \<Longrightarrow> forward k (lift_l m)"
  by (auto simp: forward_def lift_l_def dest: advancesD split: prod.splits)

lemma forward_transact: "forward k m \<Longrightarrow> forward k (transact m)"
  unfolding forward_def transact_def
  by (auto split: option.splits sum.splits prod.splits) blast+

lemma forward_if: "(P \<Longrightarrow> forward k m) \<Longrightarrow> (\<not> P \<Longrightarrow> forward k n) \<Longrightarrow> forward k (if P then m else n)"
  by simp

lemma forward_repeat: "forward 0 m \<Longrightarrow> forward 0 (repeat_l k m)"
proof (induction k)
  case (Suc k)
  then have "forward 0 (bind_l (repeat_l k m) (\<lambda>xs. return_l (x # xs)))" for x
    by (intro forward_bind_left forward_return) simp
  from forward_bind_left [OF Suc.prems this] show ?case by simp
qed (simp add: forward_return)

lemmas forward_intros = forward_bind_left forward_return forward_check forward_alloc forward_if forward_repeat

lemma calmD:
  "calm m \<Longrightarrow> arena_ok ar \<Longrightarrow> \<exists>r f' ar'. m (f, ar) = Some (r, f', ar') \<and> extends ar ar' \<and> r \<noteq> Inl Ok"
  unfolding calm_def by blast

lemma extends_refl [simp]: "extends a a \<longleftrightarrow> arena_ok a"
  by (simp add: extends_def)

lemma calm_bind: "calm m \<Longrightarrow> (\<And>v. calm (h v)) \<Longrightarrow> calm (bind_l m h)"
  unfolding calm_def
proof (intro allI impI)
  fix f ar
  assume m: "\<forall>f ar. arena_ok ar \<longrightarrow> (\<exists>r f' ar'. m (f, ar) = Some (r, f', ar') \<and> extends ar ar' \<and> r \<noteq> Inl Ok)"
    and h: "\<And>v. \<forall>f ar. arena_ok ar \<longrightarrow> (\<exists>r f' ar'. h v (f, ar) = Some (r, f', ar') \<and> extends ar ar' \<and> r \<noteq> Inl Ok)"
    and ar: "arena_ok ar"
  obtain r g br where g: "m (f, ar) = Some (r, g, br)" "extends ar br" "r \<noteq> Inl Ok" using m ar by blast
  show "\<exists>r f' ar'. bind_l m h (f, ar) = Some (r, f', ar') \<and> extends ar ar' \<and> r \<noteq> Inl Ok"
  proof (cases r)
    case (Inl e)
    then show ?thesis using g by (auto simp: bind_l_def)
  next
    case (Inr v)
    have "arena_ok br" using g(2) by (simp add: extends_def)
    then obtain r' f' ar' where "h v (g, br) = Some (r', f', ar')" "extends br ar'" "r' \<noteq> Inl Ok" using h by blast
    then show ?thesis using g Inr extends_trans by (fastforce simp: bind_l_def)
  qed
qed

lemma calm_return: "calm (return_l v)"
  by (simp add: calm_def return_l_def)

lemma calm_check: "calm (check_l c)"
  by (simp add: calm_def check_l_def)

lemma alloc_extends: "arena_ok ar \<Longrightarrow> alloc n al ar = (r, ar') \<Longrightarrow> extends ar ar'"
  using alloc_grows [of ar n al] alloc_destructors [of n al ar] alloc_destroyed [of n al ar] by (simp add: extends_def)

lemma alloc_fails: "arena_ok ar \<Longrightarrow> fst (alloc n al ar) \<noteq> Inl Ok"
  using alloc_serves [of ar al n]
  by (cases "n = 0 \<or> al = 0 \<or> \<not> has_single_bit al") (auto simp: alloc_def serves_def split: prod.splits sum.splits if_splits)

lemma calm_alloc: "calm (alloc_l n al)"
  unfolding calm_def
proof (intro allI impI)
  fix f ar assume "arena_ok ar"
  from alloc_fails [OF this, of n al] alloc_extends [OF this, of n al]
  show "\<exists>r f' ar'. alloc_l n al (f, ar) = Some (r, f', ar') \<and> extends ar ar' \<and> r \<noteq> Inl Ok"
    by (cases "alloc n al ar") (auto simp: alloc_l_def)
qed

lemma calm_lift: "fails_properly m \<Longrightarrow> calm (lift_l m)"
  by (auto simp: calm_def lift_l_def fails_properly_def split: prod.splits)

lemma rollback_extends:
  assumes "arena_ok ar" "extends ar ar'"
  shows "rollback (take_checkpoint ar) ar' = Some (ar\<lparr>oom := oom ar'\<rparr>)" "extends ar (ar\<lparr>oom := oom ar'\<rparr>)"
  using assms rollback_allocs extends_oom by (auto simp: extends_def)

lemma calm_transact: "calm m \<Longrightarrow> calm (transact m)"
  unfolding calm_def
proof (intro allI impI)
  fix f ar
  assume m: "\<forall>f ar. arena_ok ar \<longrightarrow> (\<exists>r f' ar'. m (f, ar) = Some (r, f', ar') \<and> extends ar ar' \<and> r \<noteq> Inl Ok)"
    and ar: "arena_ok ar"
  obtain r g br where g: "m (f, ar) = Some (r, g, br)" "extends ar br" "r \<noteq> Inl Ok" using m ar by blast
  then show "\<exists>r f' ar'. transact m (f, ar) = Some (r, f', ar') \<and> extends ar ar' \<and> r \<noteq> Inl Ok"
    using rollback_extends [OF ar g(2)] by (cases r) (auto simp: transact_def)
qed

lemma calm_if: "(P \<Longrightarrow> calm m) \<Longrightarrow> (\<not> P \<Longrightarrow> calm n) \<Longrightarrow> calm (if P then m else n)"
  by simp

lemma calm_repeat: "calm m \<Longrightarrow> calm (repeat_l k m)"
  by (induction k) (auto intro!: calm_bind calm_return)

lemmas calm_intros = calm_bind calm_return calm_check calm_alloc calm_if calm_repeat

section \<open>Loading what was laid out\<close>

text \<open>\<open>fits B (Some E) off cs\<close>: the fields follow each other without padding and end at or before
  \<open>E\<close>; with \<open>None\<close> there is no bound. \<open>loads B E m cs v\<close>: where the fields \<open>cs\<close> have been laid out,
  \<open>m\<close> returns \<open>v\<close> and stops behind them, or it refuses them, which it only does when they do not
  fit. The heap is assumed to serve.\<close>

definition fits :: "nat \<Rightarrow> nat option \<Rightarrow> nat \<Rightarrow> byte list list \<Rightarrow> bool" where
  "fits B E off cs \<longleftrightarrow>
     (case E of None \<Rightarrow> True | Some e \<Rightarrow> seamless B off cs \<and> off + length (concat cs) \<le> e)"

definition loads :: "nat \<Rightarrow> nat option \<Rightarrow> 'a loader \<Rightarrow> byte list list \<Rightarrow> 'a \<Rightarrow> bool" where
  "loads B E m cs v \<longleftrightarrow> (\<forall>D f ar. read_quiet D f \<longrightarrow> arena_ok ar \<longrightarrow> never_oom ar \<longrightarrow>
     bytes_at D (roff f) (lay B (roff f) cs) \<longrightarrow>
     (\<exists>r f' ar'. m (f, ar) = Some (r, f', ar') \<and> read_quiet D f' \<and> extends ar ar' \<and> never_oom ar' \<and>
        (case r of Inl e \<Rightarrow> \<not> fits B E (roff f) cs
         | Inr w \<Rightarrow> w = v \<and> roff f' = roff f + length (lay B (roff f) cs))))"

lemma loadsD:
  assumes "loads B E m cs v" "read_quiet D f" "arena_ok ar" "never_oom ar" "bytes_at D (roff f) (lay B (roff f) cs)"
  obtains (Refused) e f' ar' where "m (f, ar) = Some (Inl e, f', ar')" "read_quiet D f'" "extends ar ar'" "never_oom ar'"
      "\<not> fits B E (roff f) cs"
  | (Loaded) f' ar' where "m (f, ar) = Some (Inr v, f', ar')" "read_quiet D f'" "extends ar ar'" "never_oom ar'"
      "roff f' = roff f + length (lay B (roff f) cs)"
proof -
  obtain r f' ar' where r: "m (f, ar) = Some (r, f', ar')" "read_quiet D f'" "extends ar ar'" "never_oom ar'"
    "case r of Inl e \<Rightarrow> \<not> fits B E (roff f) cs | Inr w \<Rightarrow> w = v \<and> roff f' = roff f + length (lay B (roff f) cs)"
    using assms unfolding loads_def by blast
  then show ?thesis using that by (cases r) auto
qed

lemma loadsI:
  assumes "\<And>D f ar. read_quiet D f \<Longrightarrow> arena_ok ar \<Longrightarrow> never_oom ar \<Longrightarrow>
     bytes_at D (roff f) (lay B (roff f) cs) \<Longrightarrow>
     (\<exists>r f' ar'. m (f, ar) = Some (r, f', ar') \<and> read_quiet D f' \<and> extends ar ar' \<and> never_oom ar' \<and>
        (case r of Inl e \<Rightarrow> \<not> fits B E (roff f) cs
         | Inr w \<Rightarrow> w = v \<and> roff f' = roff f + length (lay B (roff f) cs)))"
  shows "loads B E m cs v"
  unfolding loads_def using assms by blast

lemma fits_append:
  "fits B E off (cs @ ds) \<Longrightarrow> fits B E off cs \<and> fits B E (off + length (lay B off cs)) ds"
  by (cases E) (auto simp: fits_def seamless_append seamless_lay)

lemma loads_return: "loads B E (return_l v) [] v"
  by (rule loadsI) (auto simp: return_l_def)

lemma loads_bind:
  assumes "loads B E m cs v" "loads B E (k v) ds w"
  shows "loads B E (bind_l m k) (cs @ ds) w"
proof (rule loadsI)
  fix D ar and f :: rfile
  let ?a = "lay B (roff f) cs" and ?b = "lay B (roff f + length (lay B (roff f) cs)) ds"
  assume q: "read_quiet D f" "arena_ok ar" "never_oom ar" and at: "bytes_at D (roff f) (lay B (roff f) (cs @ ds))"
  have at': "bytes_at D (roff f) ?a" "bytes_at D (roff f + length ?a) ?b"
    using at by (simp_all add: lay_append bytes_at_append)
  show "\<exists>r f' ar'. bind_l m k (f, ar) = Some (r, f', ar') \<and> read_quiet D f' \<and> extends ar ar' \<and> never_oom ar' \<and>
    (case r of Inl e \<Rightarrow> \<not> fits B E (roff f) (cs @ ds)
     | Inr x \<Rightarrow> x = w \<and> roff f' = roff f + length (lay B (roff f) (cs @ ds)))"
    using assms(1) q at'(1)
  proof (cases rule: loadsD)
    case (Refused e f' ar')
    then show ?thesis using fits_append by (fastforce simp: bind_l_def)
  next
    case (Loaded g br)
    have "arena_ok br" using Loaded(3) by (simp add: extends_def)
    from assms(2) Loaded(2) this Loaded(4) at'(2) [folded Loaded(5)] show ?thesis
    proof (cases rule: loadsD)
      case (Refused e f' ar')
      then show ?thesis
        using Loaded extends_trans [OF Loaded(3)] fits_append [of B E "roff f" cs ds] by (auto simp: bind_l_def)
    next
      case L2: (Loaded f' ar')
      then show ?thesis
        using Loaded extends_trans [OF Loaded(3)] by (auto simp: bind_l_def lay_append)
    qed
  qed
qed

lemma loads_bind_Nil: "loads B E m cs v \<Longrightarrow> loads B E (k v) [] w \<Longrightarrow> loads B E (bind_l m k) cs w"
  using loads_bind [of B E m cs v k "[]" w] by simp

lemma loads_lift:
  assumes "reads B m cs v"
  shows "loads B E (lift_l m) cs v"
proof (rule loadsI)
  fix D ar and f :: rfile
  assume q: "read_quiet D f" "arena_ok ar" "never_oom ar" "bytes_at D (roff f) (lay B (roff f) cs)"
  then obtain f' where "m f = (Inr v, f')" "read_quiet D f'" "roff f' = roff f + length (lay B (roff f) cs)"
    using readsD [OF assms q(1,4)] quiet_data [OF q(1)] by (auto simp: yields_def)
  then show "\<exists>r f' ar'. lift_l m (f, ar) = Some (r, f', ar') \<and> read_quiet D f' \<and> extends ar ar' \<and> never_oom ar' \<and>
    (case r of Inl e \<Rightarrow> \<not> fits B E (roff f) cs | Inr w \<Rightarrow> w = v \<and> roff f' = roff f + length (lay B (roff f) cs))"
    using q by (auto simp: lift_l_def)
qed

text \<open>A check before the fields it guards, and a check behind them.\<close>

lemma loads_guard:
  assumes "\<And>f. fits B E (roff f) cs \<Longrightarrow> c f = Ok" "loads B E m cs v"
  shows "loads B E (bind_l (check_l c) (\<lambda>_. m)) cs v"
proof (rule loadsI)
  fix D ar and f :: rfile
  assume q: "read_quiet D f" "arena_ok ar" "never_oom ar" "bytes_at D (roff f) (lay B (roff f) cs)"
  show "\<exists>r f' ar'. bind_l (check_l c) (\<lambda>_. m) (f, ar) = Some (r, f', ar') \<and> read_quiet D f' \<and> extends ar ar' \<and> never_oom ar' \<and>
    (case r of Inl e \<Rightarrow> \<not> fits B E (roff f) cs | Inr w \<Rightarrow> w = v \<and> roff f' = roff f + length (lay B (roff f) cs))"
  proof (cases "c f = Ok")
    case True
    then have "bind_l (check_l c) (\<lambda>_. m) (f, ar) = m (f, ar)" by (simp add: bind_l_def check_l_def)
    then show ?thesis using assms(2) q unfolding loads_def by metis
  next
    case False
    then show ?thesis using q assms(1) [of f] by (auto simp: bind_l_def check_l_def)
  qed
qed

lemma loads_then_check:
  assumes "loads B (Some E) m cs v" "\<And>f. roff f \<le> E \<Longrightarrow> c v f = Ok"
  shows "loads B (Some E) (bind_l m (\<lambda>x. bind_l (check_l (c x)) (\<lambda>_. return_l x))) cs v"
proof (rule loadsI)
  fix D ar and f :: rfile
  assume q: "read_quiet D f" "arena_ok ar" "never_oom ar" "bytes_at D (roff f) (lay B (roff f) cs)"
  from assms(1) q
  show "\<exists>r f' ar'. bind_l m (\<lambda>x. bind_l (check_l (c x)) (\<lambda>_. return_l x)) (f, ar) = Some (r, f', ar') \<and>
    read_quiet D f' \<and> extends ar ar' \<and> never_oom ar' \<and>
    (case r of Inl e \<Rightarrow> \<not> fits B (Some E) (roff f) cs | Inr w \<Rightarrow> w = v \<and> roff f' = roff f + length (lay B (roff f) cs))"
  proof (cases rule: loadsD)
    case (Refused e f' ar')
    then show ?thesis by (auto simp: bind_l_def)
  next
    case (Loaded f' ar')
    then have "fits B (Some E) (roff f) cs \<Longrightarrow> c v f' = Ok" using assms(2) by (simp add: fits_def seamless_lay)
    then show ?thesis using Loaded by (auto simp: bind_l_def check_l_def return_l_def)
  qed
qed

lemma loads_pass: "(\<And>f. c f = Ok) \<Longrightarrow> loads B E m cs v \<Longrightarrow> loads B E (bind_l (check_l c) (\<lambda>_. m)) cs v"
  by (rule loads_guard)

lemma loads_transact:
  assumes "loads B E m cs v"
  shows "loads B E (transact m) cs v"
proof (rule loadsI)
  fix D ar and f :: rfile
  assume q: "read_quiet D f" "arena_ok ar" "never_oom ar" "bytes_at D (roff f) (lay B (roff f) cs)"
  from assms q
  show "\<exists>r f' ar'. transact m (f, ar) = Some (r, f', ar') \<and> read_quiet D f' \<and> extends ar ar' \<and> never_oom ar' \<and>
    (case r of Inl e \<Rightarrow> \<not> fits B E (roff f) cs | Inr w \<Rightarrow> w = v \<and> roff f' = roff f + length (lay B (roff f) cs))"
  proof (cases rule: loadsD)
    case (Refused e f' ar')
    then show ?thesis using rollback_extends [OF q(2) Refused(3)] by (auto simp: transact_def never_oom_def)
  next
    case (Loaded f' ar')
    then show ?thesis by (auto simp: transact_def)
  qed
qed

lemma alloc_served:
  assumes "arena_ok ar" "never_oom ar" "has_single_bit al" "0 < n"
  obtains p ar' where "alloc n al ar = (Inr p, ar')" "never_oom ar'" "extends ar ar'" "p \<noteq> NullPtr"
proof (cases "alloc n al ar")
  case (Pair r ar')
  from alloc_serves [OF assms(1,3,4)] Pair assms(2) that alloc_extends [OF assms(1) Pair] show ?thesis
    by (cases r) (auto simp: serves_def placed_def)
qed

lemma loads_alloc:
  assumes "has_single_bit al" "0 < n" "\<And>p. p \<noteq> NullPtr \<Longrightarrow> loads B E (m p) cs v"
  shows "loads B E (bind_l (alloc_l n al) m) cs v"
proof (rule loadsI)
  fix D ar and f :: rfile
  assume q: "read_quiet D f" "arena_ok ar" "never_oom ar" "bytes_at D (roff f) (lay B (roff f) cs)"
  obtain p br where a: "alloc n al ar = (Inr p, br)" "never_oom br" "extends ar br" "p \<noteq> NullPtr"
    using alloc_served [OF q(2,3) assms(1,2)] .
  have eq: "bind_l (alloc_l n al) m (f, ar) = m p (f, br)" by (simp add: bind_l_def alloc_l_def a)
  have "arena_ok br" using a(3) by (simp add: extends_def)
  from assms(3) [OF a(4)] q(1) this a(2) q(4)
  show "\<exists>r f' ar'. bind_l (alloc_l n al) m (f, ar) = Some (r, f', ar') \<and> read_quiet D f' \<and>
    extends ar ar' \<and> never_oom ar' \<and>
    (case r of Inl e \<Rightarrow> \<not> fits B E (roff f) cs | Inr w \<Rightarrow> w = v \<and> roff f' = roff f + length (lay B (roff f) cs))"
    unfolding eq by (cases rule: loadsD) (use extends_trans [OF a(3)] in auto)
qed

lemma loads_repeat:
  "(\<And>x. x \<in> set xs \<Longrightarrow> loads B E m (e x) x) \<Longrightarrow> loads B E (repeat_l (length xs) m) (concat (map e xs)) xs"
proof (induction xs)
  case (Cons x xs)
  have "loads B E (bind_l (repeat_l (length xs) m) (\<lambda>ys. return_l (x # ys))) (concat (map e xs)) (x # xs)"
    by (rule loads_bind_Nil [OF Cons.IH]) (auto intro: Cons.prems loads_return)
  then have "loads B E (repeat_l (Suc (length xs)) m) (e x @ concat (map e xs)) (x # xs)"
    unfolding repeat_l.simps by (intro loads_bind [OF Cons.prems [of x]]) simp_all
  then show ?case by simp
qed (simp add: loads_return)

declare extends_refl [simp del]

end
