(* ===== verification/TableMetaIO.thy ===== *)
theory TableMetaIO
  imports LevelManager Loader
begin

text \<open>
  The durable form of a table's metadata (\<^verbatim>\<open>src/core/engine/table_meta.cpp\<close>): validation, encoded
  size, checksum, writing and loading. \<open>meta_fields\<close> is the sequence of fields the writer emits;
  the loader gives the same metadata back.
\<close>

section \<open>Operations\<close>

definition MANIFEST_BLOCK_SIZE :: nat where "MANIFEST_BLOCK_SIZE = 4096"
definition MAX_TABLE_META_VARIABLE_BYTES :: nat where "MAX_TABLE_META_VARIABLE_BYTES = MANIFEST_BLOCK_SIZE * 16"
definition TABLE_META_FIXED_DISK_BYTES :: nat where "TABLE_META_FIXED_DISK_BYTES = 8 * 8 + 4 * 4"

definition checked_u32_size :: "nat \<Rightarrow> u32 result" where
  "checked_u32_size v = (if v > u32_max then Inl AllocationTooLarge else Inr (of_nat v))"

text \<open>The \<open>size\<close> member of an entry.\<close>

definition entry_size :: "ArenaEntry \<Rightarrow> u32" where
  "entry_size e = of_nat (length e)"

definition variable_payload_size :: "u32 \<Rightarrow> u32 \<Rightarrow> u32 \<Rightarrow> nat" where
  "variable_payload_size path_size smallest_key_size largest_key_size =
     unat path_size + unat smallest_key_size + unat largest_key_size"

definition validate_variable_payload_size :: "u32 \<Rightarrow> u32 \<Rightarrow> u32 \<Rightarrow> StatusCode" where
  "validate_variable_payload_size path_size smallest_key_size largest_key_size =
     (if variable_payload_size path_size smallest_key_size largest_key_size > MAX_TABLE_META_VARIABLE_BYTES
      then AllocationTooLarge else Ok)"

definition TableMeta_validate :: "TableMeta \<Rightarrow> StatusCode" where
  "TableMeta_validate t =
     (case checked_u32_size (length (tm_path t)) of
        Inl e \<Rightarrow> e
      | Inr path_size \<Rightarrow>
          let c = validate_variable_payload_size path_size (entry_size (smallest_key t)) (entry_size (largest_key t)) in
          if \<not> is_ok c then c
          else if min_seq t > max_seq t then Corruption
          else if tombstone_count t > record_count t then Corruption
          else if data_bytes t > file_size t then Corruption
          else if record_count t \<noteq> 0 \<and> entry_size (smallest_key t) \<noteq> 0 \<and> entry_size (largest_key t) = 0
          then Corruption
          else if record_count t \<noteq> 0 \<and> entry_size (smallest_key t) \<noteq> 0 \<and> entry_size (largest_key t) \<noteq> 0 \<and>
                  entry_less (largest_key t) (smallest_key t)
          then Corruption
          else Ok)"

definition TableMeta_disk_size :: "TableMeta \<Rightarrow> u32 result" where
  "TableMeta_disk_size t =
     (let c = TableMeta_validate t in
      if \<not> is_ok c then Inl c
      else case checked_u32_size (length (tm_path t)) of
        Inl e \<Rightarrow> Inl e
      | Inr path_size \<Rightarrow>
          checked_u32_size (TABLE_META_FIXED_DISK_BYTES +
            variable_payload_size path_size (entry_size (smallest_key t)) (entry_size (largest_key t))))"

definition crc_bytes_if :: "zlib \<Rightarrow> byte list \<Rightarrow> u32 \<Rightarrow> u32" where
  "crc_bytes_if z bs crc = (if bs = [] then crc else compute_crc32 z crc bs)"

definition TableMeta_calculate_crc :: "zlib \<Rightarrow> bool \<Rightarrow> TableMeta \<Rightarrow> u32 \<Rightarrow> StatusCode \<times> u32" where
  "TableMeta_calculate_crc z init t crc_buffer =
     (let c = TableMeta_validate t in
      if \<not> is_ok c then (c, crc_buffer)
      else let crc = (if init then crc_init z else crc_buffer) in
        case checked_u32_size (length (tm_path t)) of
          Inl e \<Rightarrow> (e, crc)
        | Inr path_size \<Rightarrow>
            let crc = crc32_add_u64 z (table_id t) crc;
                crc = crc32_add_u32 z (tm_level t) crc;
                crc = crc32_add_u64 z (min_seq t) crc;
                crc = crc32_add_u64 z (max_seq t) crc;
                crc = crc32_add_u64 z (file_size t) crc;
                crc = crc32_add_u64 z (record_count t) crc;
                crc = crc32_add_u64 z (tombstone_count t) crc;
                crc = crc32_add_u64 z (data_block_count t) crc;
                crc = crc32_add_u64 z (data_bytes t) crc;
                crc = crc32_add_u32 z path_size crc;
                crc = crc32_add_u32 z (entry_size (smallest_key t)) crc;
                crc = crc32_add_u32 z (entry_size (largest_key t)) crc;
                crc = crc_bytes_if z (tm_path t) crc;
                crc = crc_bytes_if z (smallest_key t) crc
            in (Ok, crc_bytes_if z (largest_key t) crc))"

definition write_raw_bytes :: "byte list \<Rightarrow> wfile action" where
  "write_raw_bytes data f = (if data = [] then (Ok, f) else write_bytes data MANIFEST_BLOCK_SIZE f)"

definition TableMeta_write :: "TableMeta \<Rightarrow> wfile action" where
  "TableMeta_write t f =
     (let c = TableMeta_validate t in
      if \<not> is_ok c then (c, f)
      else case checked_u32_size (length (tm_path t)) of
        Inl e \<Rightarrow> (e, f)
      | Inr path_size \<Rightarrow> run_all
         [check_offset,
          write_u64_t_le (table_id t) MANIFEST_BLOCK_SIZE,
          write_u32_t_le (tm_level t) MANIFEST_BLOCK_SIZE,
          write_u64_t_le (min_seq t) MANIFEST_BLOCK_SIZE,
          write_u64_t_le (max_seq t) MANIFEST_BLOCK_SIZE,
          write_u64_t_le (file_size t) MANIFEST_BLOCK_SIZE,
          write_u64_t_le (record_count t) MANIFEST_BLOCK_SIZE,
          write_u64_t_le (tombstone_count t) MANIFEST_BLOCK_SIZE,
          write_u64_t_le (data_block_count t) MANIFEST_BLOCK_SIZE,
          write_u64_t_le (data_bytes t) MANIFEST_BLOCK_SIZE,
          write_u32_t_le path_size MANIFEST_BLOCK_SIZE,
          write_u32_t_le (entry_size (smallest_key t)) MANIFEST_BLOCK_SIZE,
          write_u32_t_le (entry_size (largest_key t)) MANIFEST_BLOCK_SIZE,
          write_raw_bytes (tm_path t),
          write_raw_bytes (smallest_key t),
          write_raw_bytes (largest_key t)] f)"

definition read_arena_bytes :: "nat \<Rightarrow> byte list loader" where
  "read_arena_bytes n =
     (if n = 0 then return_l []
      else bind_l (alloc_l n 1) (\<lambda>out.
        bind_l (check_l (\<lambda>_. if out = NullPtr then AllocationFailed else Ok)) (\<lambda>_.
          lift_l (read_bytes n MANIFEST_BLOCK_SIZE))))"

abbreviation u64_l :: "u64 loader" where
  "u64_l \<equiv> lift_l (read_u64_t_le MANIFEST_BLOCK_SIZE)"

abbreviation u32_l :: "u32 loader" where
  "u32_l \<equiv> lift_l (read_u32_t_le MANIFEST_BLOCK_SIZE)"

definition TableMeta_load :: "TableMeta loader" where
  "TableMeta_load = transact (
     bind_l u64_l (\<lambda>i. bind_l u32_l (\<lambda>lv. bind_l u64_l (\<lambda>mins. bind_l u64_l (\<lambda>maxs.
     bind_l u64_l (\<lambda>fs. bind_l u64_l (\<lambda>rc. bind_l u64_l (\<lambda>tc. bind_l u64_l (\<lambda>dbc. bind_l u64_l (\<lambda>db.
     bind_l u32_l (\<lambda>path_size. bind_l u32_l (\<lambda>smallest_size. bind_l u32_l (\<lambda>largest_size.
     bind_l (check_l (\<lambda>_. validate_variable_payload_size path_size smallest_size largest_size)) (\<lambda>_.
     bind_l (if path_size \<noteq> 0 then lift_l (read_bytes (unat path_size) MANIFEST_BLOCK_SIZE) else return_l []) (\<lambda>p.
     bind_l (read_arena_bytes (unat smallest_size)) (\<lambda>sk.
     bind_l (read_arena_bytes (unat largest_size)) (\<lambda>lk.
     let t = \<lparr>table_id = i, tm_level = lv, tm_path = p, min_seq = mins, max_seq = maxs, file_size = fs,
       record_count = rc, tombstone_count = tc, data_block_count = dbc, data_bytes = db,
       smallest_key = sk, largest_key = lk\<rparr> in
     bind_l (check_l (\<lambda>_. TableMeta_validate t)) (\<lambda>_. return_l t))))))))))))))))))"

section \<open>The layout\<close>

definition meta_fields :: "TableMeta \<Rightarrow> byte list list" where
  "meta_fields t =
     [enc_u64 (table_id t), enc_u32 (tm_level t), enc_u64 (min_seq t), enc_u64 (max_seq t), enc_u64 (file_size t),
      enc_u64 (record_count t), enc_u64 (tombstone_count t), enc_u64 (data_block_count t), enc_u64 (data_bytes t),
      enc_u32 (of_nat (length (tm_path t))), enc_u32 (entry_size (smallest_key t)), enc_u32 (entry_size (largest_key t)),
      tm_path t, smallest_key t, largest_key t]"

text \<open>What the writer needs beyond \<open>validate\<close>: every variable-length field fits into one block.\<close>

definition meta_writable :: "TableMeta \<Rightarrow> bool" where
  "meta_writable t \<longleftrightarrow> TableMeta_validate t = Ok \<and> length (tm_path t) \<le> MANIFEST_BLOCK_SIZE \<and>
     length (smallest_key t) \<le> MANIFEST_BLOCK_SIZE \<and> length (largest_key t) \<le> MANIFEST_BLOCK_SIZE"

lemma block_facts [simp]: "0 < MANIFEST_BLOCK_SIZE" "8 \<le> MANIFEST_BLOCK_SIZE" "4 \<le> MANIFEST_BLOCK_SIZE"
  "MANIFEST_BLOCK_SIZE \<le> u32_max"
  by (simp_all add: MANIFEST_BLOCK_SIZE_def)

lemma block_le_u32: "n \<le> MANIFEST_BLOCK_SIZE \<Longrightarrow> n \<le> u32_max"
  by (simp add: MANIFEST_BLOCK_SIZE_def)

lemma meta_fields_length:
  "length (concat (meta_fields t)) =
    TABLE_META_FIXED_DISK_BYTES + length (tm_path t) + length (smallest_key t) + length (largest_key t)"
  by (simp add: meta_fields_def TABLE_META_FIXED_DISK_BYTES_def)

lemma entry_size_unat: "length e \<le> u32_max \<Longrightarrow> unat (entry_size e) = length e"
  unfolding entry_size_def by simp

lemma meta_writable_sizes:
  assumes "meta_writable t"
  shows "checked_u32_size (length (tm_path t)) = Inr (of_nat (length (tm_path t)))"
    "unat (of_nat (length (tm_path t)) :: u32) = length (tm_path t)"
    "unat (entry_size (smallest_key t)) = length (smallest_key t)"
    "unat (entry_size (largest_key t)) = length (largest_key t)"
  using assms by (auto simp: meta_writable_def checked_u32_size_def not_less intro!: entry_size_unat unat_of_length_u32 dest: block_le_u32)

lemma TableMeta_disk_size_eq:
  assumes "meta_writable t"
  shows "TableMeta_disk_size t = Inr (of_nat (length (concat (meta_fields t))))"
    "length (concat (meta_fields t)) \<le> TABLE_META_FIXED_DISK_BYTES + 3 * MANIFEST_BLOCK_SIZE"
  using assms meta_writable_sizes [OF assms]
  by (simp_all add: TableMeta_disk_size_def meta_writable_def meta_fields_length variable_payload_size_def
    checked_u32_size_def TABLE_META_FIXED_DISK_BYTES_def MANIFEST_BLOCK_SIZE_def add.assoc)

lemma check_offset_lays: "lays B check_offset []"
  by (simp add: lays_def check_offset_emits)

lemma write_raw_bytes_lays:
  assumes "length bs \<le> MANIFEST_BLOCK_SIZE"
  shows "lays MANIFEST_BLOCK_SIZE (write_raw_bytes bs) [bs]"
proof (cases "bs = []")
  case True
  then show ?thesis by (simp add: lays_def write_raw_bytes_def pad_before_def)
next
  case False
  then have "write_raw_bytes bs = write_bytes bs MANIFEST_BLOCK_SIZE" by (rule_tac ext) (simp add: write_raw_bytes_def)
  then show ?thesis using write_bytes_lays assms by simp
qed

lemma lays_Cons: "lays B a [c] \<Longrightarrow> lays B (run_all as) cs \<Longrightarrow> lays B (run_all (a # as)) (c # cs)"
  using lays_run_all_Cons [of B a "[c]" as cs] by simp

lemma lays_Cons_skip: "lays B a [] \<Longrightarrow> lays B (run_all as) cs \<Longrightarrow> lays B (run_all (a # as)) cs"
  using lays_run_all_Cons [of B a "[]" as cs] by simp

lemma field_lays:
  "lays MANIFEST_BLOCK_SIZE (write_u64_t_le v MANIFEST_BLOCK_SIZE) [enc_u64 v]"
  "lays MANIFEST_BLOCK_SIZE (write_u32_t_le w MANIFEST_BLOCK_SIZE) [enc_u32 w]"
  using u64_field.wr_lays u32_field.wr_lays by simp_all

lemma TableMeta_write_lays:
  assumes "meta_writable t"
  shows "lays MANIFEST_BLOCK_SIZE (TableMeta_write t) (meta_fields t)"
proof -
  have "TableMeta_validate t = Ok" using assms by (simp add: meta_writable_def)
  then have eq: "TableMeta_write t = run_all
      [check_offset, write_u64_t_le (table_id t) MANIFEST_BLOCK_SIZE, write_u32_t_le (tm_level t) MANIFEST_BLOCK_SIZE,
       write_u64_t_le (min_seq t) MANIFEST_BLOCK_SIZE, write_u64_t_le (max_seq t) MANIFEST_BLOCK_SIZE,
       write_u64_t_le (file_size t) MANIFEST_BLOCK_SIZE, write_u64_t_le (record_count t) MANIFEST_BLOCK_SIZE,
       write_u64_t_le (tombstone_count t) MANIFEST_BLOCK_SIZE, write_u64_t_le (data_block_count t) MANIFEST_BLOCK_SIZE,
       write_u64_t_le (data_bytes t) MANIFEST_BLOCK_SIZE, write_u32_t_le (of_nat (length (tm_path t))) MANIFEST_BLOCK_SIZE,
       write_u32_t_le (entry_size (smallest_key t)) MANIFEST_BLOCK_SIZE,
       write_u32_t_le (entry_size (largest_key t)) MANIFEST_BLOCK_SIZE,
       write_raw_bytes (tm_path t), write_raw_bytes (smallest_key t), write_raw_bytes (largest_key t)]"
    using meta_writable_sizes [OF assms]
    by (rule_tac ext) (simp add: TableMeta_write_def Let_def del: run_all.simps)
  show ?thesis
    unfolding eq meta_fields_def using assms unfolding meta_writable_def
    by (intro lays_Cons_skip [OF check_offset_lays] lays_Cons) (auto intro: field_lays write_raw_bytes_lays lays_run_all_Nil)
qed

lemma field_loads:
  "loads MANIFEST_BLOCK_SIZE E u64_l [enc_u64 v] v" "loads MANIFEST_BLOCK_SIZE E u32_l [enc_u32 w] w"
  by (intro loads_lift u64_field.rd_reads u32_field.rd_reads; simp)+

lemma loads_Cons: "loads B E m [c] v \<Longrightarrow> loads B E (k v) ds w \<Longrightarrow> loads B E (bind_l m k) (c # ds) w"
  using loads_bind [of B E m "[c]" v k ds w] by simp

lemma loads_empty_field: "loads B E m [] v \<Longrightarrow> loads B E m [[]] v"
proof -
  have "lay B off [[]] = lay B off []" "fits B E off [[]] = fits B E off []" for off
    by (simp_all add: fits_def pad_before_def split: option.split)
  then show "loads B E m [] v \<Longrightarrow> loads B E m [[]] v" unfolding loads_def by presburger
qed

lemma read_bytes_loads:
  "length bs \<le> MANIFEST_BLOCK_SIZE \<Longrightarrow> n = length bs \<Longrightarrow>
    loads MANIFEST_BLOCK_SIZE E (lift_l (read_bytes n MANIFEST_BLOCK_SIZE)) [bs] bs"
  by (simp add: loads_lift read_bytes_reads)

lemma read_arena_bytes_loads:
  assumes "length bs \<le> MANIFEST_BLOCK_SIZE" "n = length bs"
  shows "loads MANIFEST_BLOCK_SIZE E (read_arena_bytes n) [bs] bs"
proof (cases "bs = []")
  case True
  then show ?thesis using assms by (simp add: read_arena_bytes_def loads_empty_field loads_return)
next
  case False
  have "has_single_bit 1" using has_single_bit_pow [of 0] by simp
  then show ?thesis
    unfolding read_arena_bytes_def using False assms
    by (auto intro!: loads_alloc loads_pass read_bytes_loads)
qed

lemma TableMeta_load_loads:
  assumes "meta_writable t"
  shows "loads MANIFEST_BLOCK_SIZE E TableMeta_load (meta_fields t) t"
proof -
  note sz = meta_writable_sizes [OF assms]
  have v: "TableMeta_validate t = Ok" using assms by (simp add: meta_writable_def)
  then have vp: "validate_variable_payload_size (of_nat (length (tm_path t))) (entry_size (smallest_key t))
      (entry_size (largest_key t)) = Ok"
    using sz(1) by (auto simp: TableMeta_validate_def Let_def split: if_splits)
  have path: "loads MANIFEST_BLOCK_SIZE E (if (of_nat (length (tm_path t)) :: u32) \<noteq> 0
      then lift_l (read_bytes (unat (of_nat (length (tm_path t)) :: u32)) MANIFEST_BLOCK_SIZE) else return_l [])
      [tm_path t] (tm_path t)"
    using assms sz(2) unfolding meta_writable_def
    by (cases "tm_path t = []") (auto intro!: read_bytes_loads loads_empty_field loads_return simp: unat_eq_0 [symmetric])
  have last: "loads MANIFEST_BLOCK_SIZE E (let r = r' in bind_l (check_l (\<lambda>_. TableMeta_validate r)) (\<lambda>_. return_l r)) [] t"
    if "r' = t" for r'
    using that v by (auto intro: loads_pass loads_return)
  show ?thesis
    unfolding TableMeta_load_def meta_fields_def
    by (intro loads_transact loads_Cons [OF field_loads(1)] loads_Cons [OF field_loads(2)] loads_pass
        loads_Cons [OF path] loads_Cons [OF read_arena_bytes_loads] last)
      (use assms sz vp in \<open>simp_all add: meta_writable_def\<close>)
qed

section \<open>Loading always returns\<close>

lemma read_bytes_advances: "advances 0 (read_bytes n B)"
proof (cases "n = 0")
  case True
  then show ?thesis by (auto simp: advances_def read_bytes_def Let_def)
next
  case False
  then have "read_bytes n B = read_fixed n B" by (intro ext read_bytes_eq_fixed) simp
  then show ?thesis using read_fixed_advances [of n B] by (force simp: advances_def)
qed

lemma read_bytes_fails: "fails_properly (read_bytes n B)"
  using read_fixed_fails [of n B]
  by (cases "n = 0") (auto simp: fails_properly_def read_bytes_eq_fixed read_bytes_def [of 0] validate_block_size_def Let_def)

lemma forward_0: "advances k m \<Longrightarrow> forward 0 (lift_l m)"
  by (rule forward_mono [OF forward_lift]) simp_all

lemmas forward_fields = forward_0 [OF read_field_advances(2)] forward_0 [OF read_field_advances(3)]
  forward_0 [OF read_bytes_advances]

lemmas calm_fields = calm_lift [OF read_field_fails(2)] calm_lift [OF read_field_fails(3)]
  calm_lift [OF read_bytes_fails]

lemma TableMeta_load_returns: "forward 0 TableMeta_load" "calm TableMeta_load"
  unfolding TableMeta_load_def Let_def read_arena_bytes_def
  by (intro forward_transact forward_intros forward_fields, intro calm_transact calm_intros calm_fields)

end
