(* ===== verification/TableFormat.thy ===== *)
theory TableFormat
  imports TableMetaIO
begin

text \<open>
  What the sections of a table share (\<^verbatim>\<open>include/core/sstable_entities/sstable_entities.h\<close> and the
  helpers that the section files repeat): constants, block types, byte comparison, checks between
  writes, and the law of zlib's checksum on which the loaders rely.
\<close>

section \<open>Constants\<close>

definition FILE_HEADER_MAGIC :: u32 where "FILE_HEADER_MAGIC = 0x53535431"
definition FILE_FOOTER_MAGIC :: u32 where "FILE_FOOTER_MAGIC = 0x46545231"
definition LATEST_SSTABLE_VERSION :: u32 where "LATEST_SSTABLE_VERSION = 1"
definition BLOCK_SIZE :: nat where "BLOCK_SIZE = 4096"

text \<open>The enumeration \<open>BlockType\<close> by its underlying byte, since any byte can be read from a file.\<close>

definition BlockType_Data :: u8 where "BlockType_Data = 1"
definition BlockType_Index :: u8 where "BlockType_Index = 2"
definition BlockType_Bloom :: u8 where "BlockType_Bloom = 3"
definition BlockType_Meta :: u8 where "BlockType_Meta = 4"

section \<open>Comparing bytes\<close>

definition compare_bytes :: "byte list \<Rightarrow> byte list \<Rightarrow> int" where
  "compare_bytes lhs rhs =
     (let common = min (length lhs) (length rhs); compared = memcmp lhs rhs common in
      if common > 0 \<and> compared < 0 then - 1
      else if common > 0 \<and> compared > 0 then 1
      else if length lhs < length rhs then - 1
      else if length lhs > length rhs then 1
      else 0)"

lemma compare_bytes_Cons:
  "compare_bytes (a # l) (b # r) = (if a < b then - 1 else if b < a then 1 else compare_bytes l r)"
  by (auto simp: compare_bytes_def Let_def)

lemma compare_bytes_simps [simp]:
  "compare_bytes l r < 0 \<longleftrightarrow> l < r" "compare_bytes l r > 0 \<longleftrightarrow> r < l" "compare_bytes l r = 0 \<longleftrightarrow> l = r"
  "compare_bytes l r \<le> 0 \<longleftrightarrow> l \<le> r"
proof -
  have *: "compare_bytes l r = (if l < r then - 1 else if r < l then 1 else 0)"
  proof (induction l arbitrary: r)
    case Nil
    then show ?case by (cases r) (auto simp: compare_bytes_def)
  next
    case (Cons a l)
    then show ?case by (cases r) (auto simp: compare_bytes_Cons, auto simp: compare_bytes_def)
  qed
  show "compare_bytes l r < 0 \<longleftrightarrow> l < r" "compare_bytes l r > 0 \<longleftrightarrow> r < l"
    "compare_bytes l r = 0 \<longleftrightarrow> l = r" "compare_bytes l r \<le> 0 \<longleftrightarrow> l \<le> r"
    using less_asym by (auto simp: * not_less)
qed

section \<open>Checksums\<close>

text \<open>zlib documents that \<open>crc32\<close> can be computed piecewise: a running value updated by two buffers is
  the value for their concatenation.\<close>

definition crc_incremental :: "zlib \<Rightarrow> bool" where
  "crc_incremental z \<longleftrightarrow> (\<forall>c a b. crc_update z (crc_update z c a) b = crc_update z c (a @ b))"

lemma compute_crc32_update:
  assumes "crc_incremental z" "d \<noteq> []"
  shows "compute_crc32 z c d = crc_update z c d"
  using assms(2)
proof (induction "length d" arbitrary: c d rule: less_induct)
  case less
  let ?n = "min (length d) u32_max"
  have eq: "compute_crc32 z c d = compute_crc32 z (crc_update z c (take ?n d)) (drop ?n d)"
    using less.prems by (subst compute_crc32.simps) (simp only: Let_def if_False)
  show ?case
  proof (cases "drop ?n d = []")
    case True
    then have "take ?n d = d" by (metis append_Nil2 append_take_drop_id)
    with True show ?thesis unfolding eq by (simp only:) (simp add: compute_crc32.simps)
  next
    case False
    have "0 < ?n" using less.prems by (cases d) simp_all
    then have "length (drop ?n d) < length d" using less.prems by (simp del: min_less_iff_conj)
    from less.hyps [OF this False] show ?thesis
      unfolding eq using assms(1) by (simp only: crc_incremental_def append_take_drop_id)
  qed
qed

lemma compute_crc32_append:
  assumes "crc_incremental z"
  shows "compute_crc32 z (compute_crc32 z c a) b = compute_crc32 z c (a @ b)"
  using assms by (cases "a = []"; cases "b = []")
    (simp_all add: compute_crc32_update compute_crc32.simps [of _ _ "[]"], simp add: crc_incremental_def)

lemma pod_bytes_enc:
  "pod_bytes 1 (ucast a) = enc_u8 a" "pod_bytes 4 (ucast b) = enc_u32 b" "pod_bytes 8 c = enc_u64 c"
proof -
  show "pod_bytes 1 (ucast a) = enc_u8 a"
    by (simp add: pod_bytes_def enc_u8_def) (auto intro!: bit_word_eqI simp: low_byte_mask bit_simps)
  show "pod_bytes 4 (ucast b) = enc_u32 b"
    by (simp add: pod_bytes_def enc_u32_def upt_rec) (auto intro!: bit_word_eqI simp: bit_simps)
  show "pod_bytes 8 c = enc_u64 c"
    by (simp add: pod_bytes_def enc_u64_def upt_rec)
qed

lemma crc32_add_enc:
  "crc32_add_u8 z a crc = compute_crc32 z crc (enc_u8 a)"
  "crc32_add_u32 z b crc = compute_crc32 z crc (enc_u32 b)"
  "crc32_add_u64 z c crc = compute_crc32 z crc (enc_u64 c)"
  by (simp_all only: crc32_add_u8_def crc32_add_u32_def crc32_add_u64_def pod_bytes_enc)

lemma crc_bytes_if_eq: "crc_bytes_if z bs crc = compute_crc32 z crc bs"
  by (simp add: crc_bytes_if_def compute_crc32.simps)

section \<open>Checks between writes\<close>

definition check_w :: "(wfile \<Rightarrow> StatusCode) \<Rightarrow> wfile action" where
  "check_w c f = (c f, f)"

lemma check_w_lays: "(\<And>f. tracked f \<Longrightarrow> c f = Ok) \<Longrightarrow> lays B (check_w c) []"
  by (rule lays_skip) (simp add: check_w_def)

section \<open>Fields\<close>

lemma block_size_facts [simp]: "0 < BLOCK_SIZE" "1 \<le> BLOCK_SIZE" "4 \<le> BLOCK_SIZE" "8 \<le> BLOCK_SIZE"
  "BLOCK_SIZE \<le> u32_max"
  by (simp_all add: BLOCK_SIZE_def)

text \<open>Fields that lie inside one block are written without padding.\<close>

lemma seamless_in_block:
  "off mod B + length (concat cs) \<le> B \<Longrightarrow> seamless B off cs"
proof (induction cs arbitrary: off)
  case (Cons c cs)
  have "pad_before off (length c) B = []" using Cons.prems by (intro pad_before_ok) simp
  moreover have "seamless B (off + length c) cs"
  proof (cases "concat cs = []")
    case True
    then have "\<forall>d\<in>set cs. d = []" by (simp add: concat_eq_Nil_conv)
    then show ?thesis by (induction cs arbitrary: off) (auto simp: pad_before_def)
  next
    case False
    then have "off mod B + length c < B" using Cons.prems by (cases "concat cs") auto
    then have "(off + length c) mod B = off mod B + length c" by (metis mod_add_left_eq mod_less)
    then show ?thesis using Cons by simp
  qed
  ultimately show ?case by simp
qed simp

lemma lay_in_block: "off mod B + length (concat cs) \<le> B \<Longrightarrow> lay B off cs = concat cs"
  by (intro seamless_lay seamless_in_block)

lemma sst_field_lays:
  "lays BLOCK_SIZE (write_u64_t_le v BLOCK_SIZE) [enc_u64 v]"
  "lays BLOCK_SIZE (write_u32_t_le w BLOCK_SIZE) [enc_u32 w]"
  "lays BLOCK_SIZE (write_u8_t x BLOCK_SIZE) [enc_u8 x]"
  "length bs \<le> BLOCK_SIZE \<Longrightarrow> lays BLOCK_SIZE (write_bytes bs BLOCK_SIZE) [bs]"
  using u64_field.wr_lays u32_field.wr_lays u8_field.wr_lays write_bytes_lays by (simp_all add: Suc_le_eq)

lemma sst_field_reads:
  "reads BLOCK_SIZE (read_u64_t_le BLOCK_SIZE) [enc_u64 v] v"
  "reads BLOCK_SIZE (read_u32_t_le BLOCK_SIZE) [enc_u32 w] w"
  "reads BLOCK_SIZE (read_u8_t BLOCK_SIZE) [enc_u8 x] x"
  "length bs \<le> BLOCK_SIZE \<Longrightarrow> reads BLOCK_SIZE (read_bytes (length bs) BLOCK_SIZE) [bs] bs"
  using u64_field.rd_reads u32_field.rd_reads u8_field.rd_reads read_bytes_reads by (simp_all add: Suc_le_eq)

text \<open>The padding up to the next block boundary.\<close>

definition align_pad :: "nat \<Rightarrow> byte list" where
  "align_pad off = (if off mod BLOCK_SIZE = 0 then [] else replicate (BLOCK_SIZE - off mod BLOCK_SIZE) poison_byte)"

lemma align_pad_aligned: "(off + length (align_pad off)) mod BLOCK_SIZE = 0"
proof (cases "off mod BLOCK_SIZE = 0")
  case False
  have "off mod BLOCK_SIZE < BLOCK_SIZE" by simp
  then have "(off + (BLOCK_SIZE - off mod BLOCK_SIZE)) mod BLOCK_SIZE = 0"
    by (metis add.commute le_add_diff_inverse2 less_imp_le mod_add_left_eq mod_self)
  then show ?thesis using False by (simp add: align_pad_def)
qed (simp add: align_pad_def)

lemma align_emits:
  assumes "tracked f"
  shows "emits (align_to_block_boundary BLOCK_SIZE) (align_pad (length (wdata f))) f"
proof (cases "length (wdata f) mod BLOCK_SIZE = 0")
  case True
  then show ?thesis using assms
    by (simp add: align_to_block_boundary_def align_pad_def tracked_def current_position_def BLOCK_SIZE_def)
next
  case False
  let ?p = "BLOCK_SIZE - length (wdata f) mod BLOCK_SIZE"
  have "align_to_block_boundary BLOCK_SIZE f = pad_loop (min 4096 ?p) ?p f"
    using assms False by (simp add: align_to_block_boundary_def tracked_def current_position_def Let_def BLOCK_SIZE_def)
  moreover have "0 < min 4096 ?p" by (simp add: BLOCK_SIZE_def)
  ultimately show ?thesis using pad_loop_emits [OF assms, of "min 4096 ?p" ?p] False
    by (simp add: align_pad_def emits_def)
qed

text \<open>Items that are written one after the other inside one block.\<close>

lemma in_block_step: "0 < (B :: nat) \<Longrightarrow> off mod B + (l + r) \<le> B \<Longrightarrow> (off + l) mod B + r \<le> B"
proof (cases "off mod B + l < B")
  case True
  then have "(off + l) mod B = off mod B + l"
    using mod_add_left_eq [of off B l] by (simp only: mod_less)
  then show "off mod B + (l + r) \<le> B \<Longrightarrow> (off + l) mod B + r \<le> B" by simp
next
  case False
  moreover assume "0 < B" "off mod B + (l + r) \<le> B"
  ultimately show ?thesis using mod_less_divisor [of B "off + l"] by linarith
qed

lemma emits_items:
  assumes "\<And>x f. x \<in> set xs \<Longrightarrow> tracked f \<Longrightarrow> length (wdata f) mod B + length (e x) \<le> B \<Longrightarrow> emits (w x) (e x) f"
    and "0 < B" "tracked f" "length (wdata f) mod B + length (concat (map e xs)) \<le> B"
  shows "emits (run_all (map w xs)) (concat (map e xs)) f"
  using assms
proof (induction xs arbitrary: f)
  case (Cons x xs)
  have "emits (run_all (w x # map w xs)) (e x @ concat (map e xs)) f"
  proof (rule emits_run_all_Cons [OF Cons.prems(3)])
    show "emits (w x) (e x) f" using Cons.prems by simp
    fix f' assume f': "tracked f'" "wdata f' = wdata f @ e x"
    have "length (wdata f') mod B + length (concat (map e xs)) \<le> B"
      using in_block_step [OF Cons.prems(2), of "length (wdata f)" "length (e x)" "length (concat (map e xs))"]
        Cons.prems(4) f'(2) by simp
    then show "emits (run_all (map w xs)) (concat (map e xs)) f'"
      using Cons.IH Cons.prems(1,2) f'(1) by simp
  qed
  then show ?case by (simp only: list.map concat.simps)
qed simp

lemma run_all_pass: "a f = (Ok, f) \<Longrightarrow> run_all (a # as) f = run_all as f"
  by simp

lemma check_w_pass: "c f = Ok \<Longrightarrow> check_w c f = (Ok, f)"
  by (simp add: check_w_def)

lemma check_offset_pass: "tracked f \<Longrightarrow> check_offset f = (Ok, f)"
  by (simp add: check_offset_def check_writer_offset_def current_position_def tracked_def)

lemma fits_pass: "tracked f \<Longrightarrow> length (wdata f) mod BLOCK_SIZE + n \<le> BLOCK_SIZE \<Longrightarrow> fits_in_block (woff f) n BLOCK_SIZE = Ok"
  by (simp add: fits_in_block_def tracked_def BLOCK_SIZE_def)

text \<open>A writer that checks itself and then lays out its fields, inside one block.\<close>

lemma emits_lays_in_block:
  assumes "lays BLOCK_SIZE (run_all as) cs" "tracked f" "length (wdata f) mod BLOCK_SIZE + length (concat cs) \<le> BLOCK_SIZE"
    and "a f = run_all as f"
  shows "emits a (concat cs) f"
  using laysD [OF assms(1,2)] lay_in_block [OF assms(3)] assms(4) by (simp add: emits_def)

lemma reads_in_block:
  assumes "reads BLOCK_SIZE m cs v" "read_quiet D f" "bytes_at D (roff f) (concat cs)"
    and "roff f mod BLOCK_SIZE + length (concat cs) \<le> BLOCK_SIZE"
  shows "yields m (Inr v) (roff f + length (concat cs)) f"
  using readsD [OF assms(1,2)] lay_in_block [OF assms(4)] assms(3) by simp

section \<open>Loaders at absolute offsets\<close>

definition seek_l :: "nat \<Rightarrow> unit loader" where
  "seek_l off s = (case s of (f, ar) \<Rightarrow> Some (Inr (), f\<lparr>roff := off\<rparr>, ar))"

definition result_l :: "'a result \<Rightarrow> 'a loader" where
  "result_l r s = Some (r, s)"

text \<open>Running a loader step by step.\<close>

lemma bind_l_step: "m s = Some (Inr v, s') \<Longrightarrow> bind_l m k s = k v s'"
  by (simp add: bind_l_def)

lemma bind_l_check: "c (fst s) = Ok \<Longrightarrow> bind_l (check_l c) k s = k () s"
  by (simp add: bind_l_def check_l_def)

lemma bind_l_lift: "m f = (Inr v, f') \<Longrightarrow> bind_l (lift_l m) k (f, ar) = k v (f', ar)"
  by (simp add: bind_l_def lift_l_def)

lemma bind_l_seek: "bind_l (seek_l off) k (f, ar) = k () (f\<lparr>roff := off\<rparr>, ar)"
  by (simp add: bind_l_def seek_l_def)

lemma bind_l_result: "bind_l (result_l (Inr v)) k s = k v s"
  by (simp add: bind_l_def result_l_def)

lemmas run_l = bind_l_check bind_l_lift bind_l_seek bind_l_result

lemma transact_ok: "m (f, ar) = Some (Inr v, s') \<Longrightarrow> transact m (f, ar) = Some (Inr v, s')"
  by (cases s') (simp add: transact_def)

end
