(* ===== verification/IndexSection.thy ===== *)
theory IndexSection
  imports TableFormat
begin

text \<open>
  The index of a table (\<^verbatim>\<open>core/sstable_entities/index_section.cpp\<close>): one entry per data block with
  its offset and its first and last key, all in a single block. The binary search returns exactly the
  blocks whose key range contains a key; an index that was written is loaded back; an index never has
  more than 255 entries.
\<close>

section \<open>State\<close>

record IndexHeader =
  ih_type :: u8
  ih_payload_size :: u32
  ih_crc :: u32

record IndexPayload =
  data_block_offset :: u64
  first_key :: ArenaEntry
  last_key :: ArenaEntry

record IndexSection =
  idx_header :: IndexHeader
  idx_payloads :: "IndexPayload list"

definition IndexHeader_disk_size :: nat where "IndexHeader_disk_size = 9"
definition IndexPayload_fixed_disk_size :: nat where "IndexPayload_fixed_disk_size = 16"
definition kPayloadCapacity :: nat where "kPayloadCapacity = BLOCK_SIZE - IndexHeader_disk_size"

definition IndexPayload_disk_size :: "IndexPayload \<Rightarrow> nat" where
  "IndexPayload_disk_size p = IndexPayload_fixed_disk_size + length (first_key p) + length (last_key p)"

definition IndexSection_new :: "zlib \<Rightarrow> IndexSection" where
  "IndexSection_new z =
     \<lparr>idx_header = \<lparr>ih_type = BlockType_Index, ih_payload_size = 0, ih_crc = crc_init z\<rparr>, idx_payloads = []\<rparr>"

section \<open>Validation\<close>

definition IndexHeader_validate :: "IndexHeader \<Rightarrow> StatusCode" where
  "IndexHeader_validate h =
     (if ih_type h \<noteq> BlockType_Index then InvalidBlockType
      else if unat (ih_payload_size h) > kPayloadCapacity then InvalidPayloadSize
      else Ok)"

definition IndexPayload_validate :: "IndexPayload \<Rightarrow> StatusCode" where
  "IndexPayload_validate p =
     (if unat (data_block_offset p) mod BLOCK_SIZE \<noteq> 0 then InvalidSectionOffset
      else if IndexPayload_fixed_disk_size + length (first_key p) + length (last_key p) > kPayloadCapacity
      then InvalidPayloadSize
      else if compare_bytes (first_key p) (last_key p) > 0 then InvalidArgument
      else Ok)"

text \<open>The checks of an entry against the one before it.\<close>

definition follows_entry :: "IndexPayload option \<Rightarrow> IndexPayload \<Rightarrow> StatusCode" where
  "follows_entry previous p =
     (case previous of None \<Rightarrow> Ok
      | Some q \<Rightarrow>
          if unat (data_block_offset q) > u64_max - BLOCK_SIZE then DataTypeOverflow
          else if unat (data_block_offset p) \<noteq> unat (data_block_offset q) + BLOCK_SIZE then InvalidSectionOffset
          else if compare_bytes (last_key q) (first_key p) > 0 then OverlappingKeys
          else Ok)"

fun validate_payload_sequence :: "IndexPayload option \<Rightarrow> nat \<Rightarrow> IndexPayload list \<Rightarrow> nat result" where
  "validate_payload_sequence previous payload_bytes [] = Inr payload_bytes"
| "validate_payload_sequence previous payload_bytes (p # ps) =
     (let status = IndexPayload_validate p in
      if \<not> is_ok status then Inl status
      else let status = follows_entry previous p in
        if \<not> is_ok status then Inl status
        else if payload_bytes > u64_max - IndexPayload_disk_size p then Inl DataTypeOverflow
        else if payload_bytes + IndexPayload_disk_size p > kPayloadCapacity then Inl InvalidSectionSize
        else validate_payload_sequence (Some p) (payload_bytes + IndexPayload_disk_size p) ps)"

definition IndexPayload_append_crc32 :: "zlib \<Rightarrow> IndexPayload \<Rightarrow> u32 \<Rightarrow> u32" where
  "IndexPayload_append_crc32 z p crc =
     (let crc = crc32_add_u64 z (data_block_offset p) crc;
          crc = crc32_add_u32 z (entry_size (first_key p)) crc;
          crc = crc32_add_u32 z (entry_size (last_key p)) crc;
          crc = crc_bytes_if z (first_key p) crc
      in crc_bytes_if z (last_key p) crc)"

definition IndexSection_calculate_crc32 :: "zlib \<Rightarrow> IndexPayload list \<Rightarrow> u32" where
  "IndexSection_calculate_crc32 z ps = fold (IndexPayload_append_crc32 z) ps (crc_init z)"

definition build_header :: "zlib \<Rightarrow> IndexPayload list \<Rightarrow> IndexHeader result" where
  "build_header z ps =
     (case validate_payload_sequence None 0 ps of
        Inl e \<Rightarrow> Inl e
      | Inr payload_bytes \<Rightarrow>
          if payload_bytes > u32_max then Inl DataTypeOverflow
          else let h = \<lparr>ih_type = BlockType_Index, ih_payload_size = of_nat payload_bytes,
                        ih_crc = IndexSection_calculate_crc32 z ps\<rparr>;
                   status = IndexHeader_validate h
               in if \<not> is_ok status then Inl status else Inr h)"

definition IndexSection_validate :: "zlib \<Rightarrow> IndexSection \<Rightarrow> StatusCode" where
  "IndexSection_validate z idx =
     (case validate_payload_sequence None 0 (idx_payloads idx) of
        Inl e \<Rightarrow> e
      | Inr payload_bytes \<Rightarrow>
          let status = IndexHeader_validate (idx_header idx) in
          if \<not> is_ok status then status
          else if unat (ih_payload_size (idx_header idx)) \<noteq> payload_bytes then InvalidHeader
          else if ih_crc (idx_header idx) \<noteq> IndexSection_calculate_crc32 z (idx_payloads idx) then InvalidHeader
          else Ok)"

definition IndexSection_rebuild_header :: "zlib \<Rightarrow> IndexSection action" where
  "IndexSection_rebuild_header z idx =
     (case build_header z (idx_payloads idx) of
        Inl e \<Rightarrow> (e, idx)
      | Inr h \<Rightarrow> (Ok, idx\<lparr>idx_header := h\<rparr>))"

fun check_layout :: "nat \<Rightarrow> nat \<Rightarrow> IndexPayload list \<Rightarrow> StatusCode" where
  "check_layout first_data_block_offset i [] = Ok"
| "check_layout first_data_block_offset i (p # ps) =
     (if i * BLOCK_SIZE > u64_max \<or> first_data_block_offset + i * BLOCK_SIZE > u64_max then DataTypeOverflow
      else if unat (data_block_offset p) \<noteq> first_data_block_offset + i * BLOCK_SIZE then InvalidSectionOffset
      else check_layout first_data_block_offset (Suc i) ps)"

definition validate_data_layout :: "nat \<Rightarrow> nat \<Rightarrow> IndexSection \<Rightarrow> StatusCode" where
  "validate_data_layout first_data_block_offset block_count idx =
     (if length (idx_payloads idx) \<noteq> block_count then InvalidSectionSize
      else if block_count = 0 then Ok
      else if first_data_block_offset mod BLOCK_SIZE \<noteq> 0 then InvalidBlockAlignment
      else check_layout first_data_block_offset 0 (idx_payloads idx))"

section \<open>Adding an entry\<close>

definition add_index :: "zlib \<Rightarrow> u64 \<Rightarrow> ArenaEntry \<Rightarrow> ArenaEntry \<Rightarrow> IndexSection action" where
  "add_index z offset first_k last_k idx =
     (case validate_payload_sequence None 0 (idx_payloads idx) of
        Inl e \<Rightarrow> (e, idx)
      | Inr existing_payload_bytes \<Rightarrow>
          let p = \<lparr>data_block_offset = offset, first_key = first_k, last_key = last_k\<rparr>;
              status = IndexPayload_validate p in
          if \<not> is_ok status then (status, idx)
          else let status = follows_entry
                 (if idx_payloads idx = [] then None else Some (List.last (idx_payloads idx))) p in
            if \<not> is_ok status then (status, idx)
            else let new_payload_bytes = existing_payload_bytes + IndexPayload_disk_size p in
              if existing_payload_bytes > u64_max - IndexPayload_disk_size p \<or> new_payload_bytes > kPayloadCapacity
              then (InvalidSectionSize, idx)
              else case IndexSection_rebuild_header z (idx\<lparr>idx_payloads := idx_payloads idx @ [p]\<rparr>) of (c, idx') \<Rightarrow>
                if \<not> is_ok c then (c, idx) else (Ok, idx'))"

section \<open>Lookup\<close>

function bisect :: "(nat \<Rightarrow> bool) \<Rightarrow> nat \<Rightarrow> nat \<Rightarrow> nat" where
  "bisect go_right low high =
     (if low < high then
        let middle = low + (high - low) div 2 in
        if go_right middle then bisect go_right (middle + 1) high else bisect go_right low middle
      else low)"
  by pat_completeness auto
termination
  by (relation "measure (\<lambda>(g, low, high). high - low)") auto

declare bisect.simps [simp del]

definition find_candidate_range :: "ArenaEntry \<Rightarrow> IndexSection \<Rightarrow> (nat \<times> nat) result" where
  "find_candidate_range key idx =
     (let ps = idx_payloads idx in
      case validate_payload_sequence None 0 ps of
        Inl e \<Rightarrow> Inl e
      | Inr _ \<Rightarrow>
          let first = bisect (\<lambda>i. compare_bytes (last_key (ps ! i)) key < 0) 0 (length ps) in
          if first = length ps \<or> compare_bytes (first_key (ps ! first)) key > 0 then Inl NotFound
          else Inr (first, bisect (\<lambda>i. compare_bytes (first_key (ps ! i)) key \<le> 0) first (length ps)))"

definition find_first_candidate :: "ArenaEntry \<Rightarrow> IndexSection \<Rightarrow> nat result" where
  "find_first_candidate key idx =
     (case find_candidate_range key idx of Inl e \<Rightarrow> Inl e | Inr (first, _) \<Rightarrow> Inr first)"

section \<open>Writing\<close>

definition IndexHeader_write :: "IndexHeader \<Rightarrow> wfile action" where
  "IndexHeader_write h = run_all
     [check_w (\<lambda>_. IndexHeader_validate h), check_offset,
      check_w (\<lambda>f. fits_in_block (woff f) IndexHeader_disk_size BLOCK_SIZE),
      write_u8_t (ih_type h) BLOCK_SIZE,
      write_u32_t_le (ih_payload_size h) BLOCK_SIZE,
      write_u32_t_le (ih_crc h) BLOCK_SIZE]"

definition IndexPayload_write :: "IndexPayload \<Rightarrow> wfile action" where
  "IndexPayload_write p = run_all
     [check_w (\<lambda>_. IndexPayload_validate p), check_offset,
      check_w (\<lambda>f. fits_in_block (woff f) (IndexPayload_disk_size p) BLOCK_SIZE),
      write_u64_t_le (data_block_offset p) BLOCK_SIZE,
      write_u32_t_le (entry_size (first_key p)) BLOCK_SIZE,
      write_u32_t_le (entry_size (last_key p)) BLOCK_SIZE,
      write_bytes (first_key p) BLOCK_SIZE,
      write_bytes (last_key p) BLOCK_SIZE]"

text \<open>Returns the status, the file, the section and the offset of the section.\<close>

definition IndexSection_write ::
    "zlib \<Rightarrow> IndexSection \<Rightarrow> nat \<Rightarrow> wfile \<Rightarrow> StatusCode \<times> wfile \<times> IndexSection \<times> nat" where
  "IndexSection_write z idx index_offset f =
     (case build_header z (idx_payloads idx) of
        Inl e \<Rightarrow> (e, f, idx, index_offset)
      | Inr h \<Rightarrow> (case run_all [check_offset, align_to_block_boundary BLOCK_SIZE] f of (c, f1) \<Rightarrow>
          if \<not> is_ok c then (c, f1, idx, index_offset)
          else case run_all
            (check_w (\<lambda>f. fits_in_block (woff f) (IndexHeader_disk_size + unat (ih_payload_size h)) BLOCK_SIZE)
             # IndexHeader_write h # map IndexPayload_write (idx_payloads idx)) f1 of (c, f2) \<Rightarrow>
            if \<not> is_ok c then (c, f2, idx, index_offset)
            else (Ok, f2, idx\<lparr>idx_header := h\<rparr>, woff f1)))"

section \<open>Loading\<close>

definition IndexHeader_load :: "(rfile, IndexHeader) reader" where
  "IndexHeader_load f =
     (let status = fits_in_block (roff f) IndexHeader_disk_size BLOCK_SIZE in
      if \<not> is_ok status then (Inl status, f)
      else restoring (roff f)
        (bind_r (read_u8_t BLOCK_SIZE) (\<lambda>t.
         bind_r (read_u32_t_le BLOCK_SIZE) (\<lambda>n.
         bind_r (read_u32_t_le BLOCK_SIZE) (\<lambda>crc g.
           let h = \<lparr>ih_type = t, ih_payload_size = n, ih_crc = crc\<rparr>; status = IndexHeader_validate h in
           if is_ok status then (Inr h, g) else (Inl status, g)))) f))"

text \<open>The entries of the encoded payload; an entry stands for the \<open>ParsedPayload\<close> with the bytes its
  key positions denote. The second component counts the key bytes.\<close>

function parse_entries :: "byte list \<Rightarrow> nat \<Rightarrow> (IndexPayload list \<times> nat) result" where
  "parse_entries bytes total_key_bytes =
     (if bytes = [] then Inr ([], total_key_bytes)
      else if length bytes < IndexPayload_fixed_disk_size then Inl InvalidPayloadSize
      else let offset = dec_u64 (take 8 bytes);
               first_size = unat (dec_u32 (take 4 (drop 8 bytes)));
               last_size = unat (dec_u32 (take 4 (drop 12 bytes)));
               rest = drop 16 bytes in
        if first_size + last_size > length rest then Inl InvalidPayloadSize
        else if total_key_bytes > u64_max - (first_size + last_size) then Inl DataTypeOverflow
        else case parse_entries (drop (first_size + last_size) rest) (total_key_bytes + (first_size + last_size)) of
          Inl e \<Rightarrow> Inl e
        | Inr (ps, n) \<Rightarrow> Inr (\<lparr>data_block_offset = offset, first_key = take first_size rest,
            last_key = take last_size (drop first_size rest)\<rparr> # ps, n))"
  by pat_completeness auto
termination
  by (relation "measure (\<lambda>(bs, n). length bs)") auto

declare parse_entries.simps [simp del]

fun validate_parsed_sequence :: "IndexPayload option \<Rightarrow> IndexPayload list \<Rightarrow> StatusCode" where
  "validate_parsed_sequence previous [] = Ok"
| "validate_parsed_sequence previous (p # ps) =
     (if unat (data_block_offset p) mod BLOCK_SIZE \<noteq> 0 then InvalidSectionOffset
      else if compare_bytes (first_key p) (last_key p) > 0 then Corruption
      else let status = follows_entry previous p in
        if \<not> is_ok status then status else validate_parsed_sequence (Some p) ps)"

text \<open>The layout the footer promises: first data block and number of blocks.\<close>

definition check_footer_layout :: "nat \<Rightarrow> nat \<Rightarrow> nat \<Rightarrow> IndexPayload list \<Rightarrow> StatusCode" where
  "check_footer_layout index_offset first_data_block_offset block_count ps =
     (if block_count * BLOCK_SIZE > u64_max \<or>
         first_data_block_offset + block_count * BLOCK_SIZE > u64_max then DataTypeOverflow
      else if block_count > 0 \<and> first_data_block_offset + block_count * BLOCK_SIZE \<noteq> index_offset
      then InvalidSectionOffset
      else if block_count = 0 \<and> first_data_block_offset > index_offset then InvalidSectionOffset
      else if length ps \<noteq> block_count then InvalidSectionSize
      else if block_count > 0 \<and> first_data_block_offset mod BLOCK_SIZE \<noteq> 0 then InvalidBlockAlignment
      else check_layout first_data_block_offset 0 ps)"

definition read_index_payload :: "IndexHeader \<Rightarrow> nat \<Rightarrow> byte list loader" where
  "read_index_payload h section_end =
     (if ih_payload_size h = 0 then return_l []
      else bind_l (lift_l (\<lambda>f. read_exact_at (roff f) (unat (ih_payload_size h)) f)) (\<lambda>bs.
        bind_l (check_l (\<lambda>f. if roff f \<noteq> section_end then InvalidOffset else Ok)) (\<lambda>_. return_l bs)))"

definition alloc_key_storage :: "nat \<Rightarrow> unit loader" where
  "alloc_key_storage total_key_bytes =
     (if total_key_bytes > 0 then bind_l (alloc_l total_key_bytes 1) (\<lambda>_. return_l ()) else return_l ())"

definition load_impl :: "zlib \<Rightarrow> nat \<Rightarrow> nat \<Rightarrow> (nat \<times> nat) option \<Rightarrow> IndexSection loader" where
  "load_impl z index_offset expected_index_size layout_check = transact (
     bind_l (check_l (\<lambda>_. if index_offset mod BLOCK_SIZE \<noteq> 0 then InvalidBlockAlignment else Ok)) (\<lambda>_.
     bind_l (lift_l (\<lambda>f. (get_file_size f, f))) (\<lambda>fsize.
     bind_l (check_l (\<lambda>_. if index_offset > fsize then OffsetOutOfRange else Ok)) (\<lambda>_.
     bind_l (seek_l index_offset) (\<lambda>_.
     bind_l (lift_l IndexHeader_load) (\<lambda>h.
     let section_size = IndexHeader_disk_size + unat (ih_payload_size h);
         section_end = index_offset + section_size in
     bind_l (check_l (\<lambda>_. if expected_index_size \<noteq> 0 \<and> section_size \<noteq> expected_index_size
       then InvalidSectionSize else Ok)) (\<lambda>_.
     bind_l (check_l (\<lambda>_. if section_end > u64_max \<or> section_end > fsize then UnexpectedEOF else Ok)) (\<lambda>_.
     bind_l (check_l (\<lambda>_. if section_size > BLOCK_SIZE then InvalidSectionSize else Ok)) (\<lambda>_.
     bind_l (read_index_payload h section_end) (\<lambda>encoded_payload.
     bind_l (check_l (\<lambda>_. if crc32_of z encoded_payload \<noteq> ih_crc h then ChecksumMismatch else Ok)) (\<lambda>_.
     bind_l (result_l (parse_entries encoded_payload 0)) (\<lambda>(parsed, total_key_bytes).
     bind_l (check_l (\<lambda>_. validate_parsed_sequence None parsed)) (\<lambda>_.
     bind_l (check_l (\<lambda>_. case layout_check of None \<Rightarrow> Ok
       | Some (first_data_block_offset, block_count) \<Rightarrow>
           check_footer_layout index_offset first_data_block_offset block_count parsed)) (\<lambda>_.
     bind_l (alloc_key_storage total_key_bytes) (\<lambda>_.
     let idx = \<lparr>idx_header = h, idx_payloads = parsed\<rparr> in
     bind_l (check_l (\<lambda>_. IndexSection_validate z idx)) (\<lambda>_.
     bind_l (seek_l section_end) (\<lambda>_. return_l idx)))))))))))))))))"

text \<open>The two overloads of \<open>load\<close>.\<close>

definition IndexSection_load :: "zlib \<Rightarrow> nat \<Rightarrow> nat \<Rightarrow> IndexSection loader" where
  "IndexSection_load z index_offset expected_index_size = load_impl z index_offset expected_index_size None"

definition IndexSection_load_layout :: "zlib \<Rightarrow> nat \<Rightarrow> nat \<Rightarrow> nat \<Rightarrow> nat \<Rightarrow> IndexSection loader" where
  "IndexSection_load_layout z index_offset expected_index_size first_data_block_offset block_count =
     load_impl z index_offset expected_index_size (Some (first_data_block_offset, block_count))"

section \<open>Well-formed entries\<close>

definition index_ok :: "IndexPayload list \<Rightarrow> bool" where
  "index_ok ps \<longleftrightarrow> (\<forall>p\<in>set ps. IndexPayload_validate p = Ok) \<and>
     successively (\<lambda>q p. follows_entry (Some q) p = Ok) ps \<and>
     sum_list (map IndexPayload_disk_size ps) \<le> kPayloadCapacity"

lemma capacity_facts [simp]: "kPayloadCapacity = 4087" "IndexHeader_disk_size = 9" "IndexPayload_fixed_disk_size = 16"
  by (simp_all add: kPayloadCapacity_def IndexHeader_disk_size_def BLOCK_SIZE_def IndexPayload_fixed_disk_size_def)

lemma validate_sequence_gen:
  "validate_payload_sequence prev b ps = Inr n \<longleftrightarrow>
     (\<forall>p\<in>set ps. IndexPayload_validate p = Ok) \<and>
     successively (\<lambda>q p. follows_entry (Some q) p = Ok) ps \<and>
     (case ps of [] \<Rightarrow> True | p # _ \<Rightarrow> follows_entry prev p = Ok \<and>
        b + sum_list (map IndexPayload_disk_size ps) \<le> kPayloadCapacity) \<and>
     n = b + sum_list (map IndexPayload_disk_size ps)"
proof (induction prev b ps rule: validate_payload_sequence.induct)
  case (2 prev b p ps)
  show ?case
  proof (cases "IndexPayload_validate p = Ok \<and> follows_entry prev p = Ok \<and>
      b + IndexPayload_disk_size p \<le> kPayloadCapacity")
    case True
    then have "\<not> b > u64_max - IndexPayload_disk_size p" by (simp add: not_less) linarith
    with True 2 show ?thesis by (cases ps) (auto simp: Let_def)
  qed (auto simp: Let_def)
qed auto

lemma validate_sequence_iff:
  "validate_payload_sequence None 0 ps = Inr n \<longleftrightarrow> index_ok ps \<and> n = sum_list (map IndexPayload_disk_size ps)"
  unfolding validate_sequence_gen index_ok_def by (cases ps) (auto simp: follows_entry_def)

lemma sum_disk_size: "16 * length ps \<le> sum_list (map IndexPayload_disk_size ps)"
  by (induction ps) (simp_all add: IndexPayload_disk_size_def)

text \<open>The single block bounds the number of entries, hence the number of data blocks of a table.\<close>

lemma index_ok_length: "index_ok ps \<Longrightarrow> length ps \<le> 255"
  using sum_disk_size [of ps] by (simp add: index_ok_def)

lemma entry_ok_range: "IndexPayload_validate p = Ok \<Longrightarrow> first_key p \<le> last_key p"
  by (auto simp: IndexPayload_validate_def split: if_splits)

lemma follows_okD:
  "follows_entry (Some q) p = Ok \<Longrightarrow> last_key q \<le> first_key p \<and>
    unat (data_block_offset p) = unat (data_block_offset q) + BLOCK_SIZE"
  by (auto simp: follows_entry_def split: if_splits)

lemma index_ok_order:
  assumes "index_ok ps" "i < j" "j < length ps"
  shows "last_key (ps ! i) \<le> first_key (ps ! j)"
proof -
  have "transp (\<lambda>q p :: IndexPayload. first_key p \<le> last_key p \<and> last_key q \<le> first_key p)"
    by (rule transpI) (auto intro: order_trans)
  moreover have "successively (\<lambda>q p. first_key p \<le> last_key p \<and> last_key q \<le> first_key p) ps"
  proof (rule successively_mono [where P = "\<lambda>q p. follows_entry (Some q) p = Ok"])
    show "successively (\<lambda>q p. follows_entry (Some q) p = Ok) ps" using assms(1) by (simp add: index_ok_def)
  qed (use assms(1) in \<open>auto simp: index_ok_def dest: entry_ok_range follows_okD\<close>)
  ultimately have "sorted_wrt (\<lambda>q p. first_key p \<le> last_key p \<and> last_key q \<le> first_key p) ps"
    by (simp only: successively_conv_sorted_wrt)
  from sorted_wrt_nth_less [OF this assms(2,3)] show ?thesis by simp
qed

lemma index_ok_keys:
  assumes "index_ok ps" "i < length ps"
  shows "first_key (ps ! i) \<le> last_key (ps ! i)"
  using assms by (auto simp: index_ok_def intro: entry_ok_range)

section \<open>Binary search\<close>

lemma bisect_spec:
  assumes "\<forall>i j. i \<le> j \<longrightarrow> j < high \<longrightarrow> go j \<longrightarrow> go i" "low \<le> high"
  shows "low \<le> bisect go low high \<and> bisect go low high \<le> high \<and>
    (\<forall>i. low \<le> i \<longrightarrow> i < bisect go low high \<longrightarrow> go i) \<and>
    (\<forall>i. bisect go low high \<le> i \<longrightarrow> i < high \<longrightarrow> \<not> go i)"
  using assms
proof (induction go low high rule: bisect.induct)
  case (1 go low high)
  show ?case
  proof (cases "low < high")
    case False
    then have "bisect go low high = low" by (subst bisect.simps) simp
    then show ?thesis using 1(4) False by auto
  next
    case True
    define m where "m = low + (high - low) div 2"
    have m: "low \<le> m" "m < high" using True by (auto simp: m_def)
    note ihs = 1(1,2) [OF True m_def]
    have down: "go i" if "i \<le> j" "j < high" "go j" for i j using 1(3) that by blast
    show ?thesis
    proof (cases "go m")
      case gt: True
      have eq: "bisect go low high = bisect go (m + 1) high"
        using True gt by (simp add: bisect.simps [of go low high] m_def Let_def)
      have ih: "m + 1 \<le> bisect go (m + 1) high" "bisect go (m + 1) high \<le> high"
        "\<And>i. m + 1 \<le> i \<Longrightarrow> i < bisect go (m + 1) high \<Longrightarrow> go i"
        "\<And>i. bisect go (m + 1) high \<le> i \<Longrightarrow> i < high \<Longrightarrow> \<not> go i"
        using ihs(1) [OF gt 1(3)] Suc_leI [OF m(2)] by (simp_all only: Suc_eq_plus1) blast+
      have "go i" if "i < bisect go (m + 1) high" for i
      proof (cases "i \<le> m")
        case True
        then show ?thesis using down gt m(2) by blast
      qed (use ih(3) that in simp)
      then show ?thesis unfolding eq using ih(1,2,4) m(1) by auto
    next
      case nt: False
      have eq: "bisect go low high = bisect go low m"
        using True nt by (simp add: bisect.simps [of go low high] m_def Let_def)
      have "\<forall>i j. i \<le> j \<longrightarrow> j < m \<longrightarrow> go j \<longrightarrow> go i" using down m by (meson less_trans)
      then have ih: "low \<le> bisect go low m" "bisect go low m \<le> m"
        "\<And>i. low \<le> i \<Longrightarrow> i < bisect go low m \<Longrightarrow> go i"
        "\<And>i. bisect go low m \<le> i \<Longrightarrow> i < m \<Longrightarrow> \<not> go i"
        using ihs(2) [OF nt _ m(1)] by blast+
      have "\<not> go i" if "bisect go low m \<le> i" "i < high" for i
      proof (cases "m \<le> i")
        case True
        then show ?thesis using down nt that(2) by blast
      qed (use ih(4) that in simp)
      then show ?thesis unfolding eq using ih(1-3) m(2) by auto
    qed
  qed
qed

lemma find_candidate_range_spec:
  assumes "index_ok (idx_payloads idx)"
  shows "case find_candidate_range key idx of
      Inl e \<Rightarrow> e = NotFound \<and> (\<forall>p\<in>set (idx_payloads idx). \<not> (first_key p \<le> key \<and> key \<le> last_key p))
    | Inr (a, b) \<Rightarrow> a < b \<and> b \<le> length (idx_payloads idx) \<and>
        (\<forall>i < length (idx_payloads idx).
           a \<le> i \<and> i < b \<longleftrightarrow> first_key (idx_payloads idx ! i) \<le> key \<and> key \<le> last_key (idx_payloads idx ! i))"
proof -
  define ps where "ps = idx_payloads idx"
  have ok: "index_ok ps" using assms by (simp add: ps_def)
  define a where "a = bisect (\<lambda>i. last_key (ps ! i) < key) 0 (length ps)"
  define b where "b = bisect (\<lambda>i. first_key (ps ! i) \<le> key) a (length ps)"
  have last_mono: "last_key (ps ! i) \<le> last_key (ps ! j)" and first_mono: "first_key (ps ! i) \<le> first_key (ps ! j)"
    if "i \<le> j" "j < length ps" for i j
    using that index_ok_order [OF ok, of i j] index_ok_keys [OF ok, of i] index_ok_keys [OF ok, of j]
    by (cases "i = j"; auto intro: order_trans)+
  have A: "a \<le> length ps" "\<And>i. i < a \<Longrightarrow> last_key (ps ! i) < key"
    "\<And>i. a \<le> i \<Longrightarrow> i < length ps \<Longrightarrow> \<not> last_key (ps ! i) < key"
  proof -
    have "\<forall>i j. i \<le> j \<longrightarrow> j < length ps \<longrightarrow> last_key (ps ! j) < key \<longrightarrow> last_key (ps ! i) < key"
      using last_mono by (blast intro: le_less_trans)
    note sp = bisect_spec [OF this, of 0, folded a_def]
    show "a \<le> length ps" "\<And>i. i < a \<Longrightarrow> last_key (ps ! i) < key"
      "\<And>i. a \<le> i \<Longrightarrow> i < length ps \<Longrightarrow> \<not> last_key (ps ! i) < key" using sp by simp_all
  qed
  have B: "a \<le> b" "b \<le> length ps" "\<And>i. a \<le> i \<Longrightarrow> i < b \<Longrightarrow> first_key (ps ! i) \<le> key"
    "\<And>i. b \<le> i \<Longrightarrow> i < length ps \<Longrightarrow> \<not> first_key (ps ! i) \<le> key"
  proof -
    have "\<forall>i j. i \<le> j \<longrightarrow> j < length ps \<longrightarrow> first_key (ps ! j) \<le> key \<longrightarrow> first_key (ps ! i) \<le> key"
      using first_mono by (blast intro: order_trans)
    note sp = bisect_spec [OF this A(1), folded b_def]
    show "a \<le> b" "b \<le> length ps" "\<And>i. a \<le> i \<Longrightarrow> i < b \<Longrightarrow> first_key (ps ! i) \<le> key"
      "\<And>i. b \<le> i \<Longrightarrow> i < length ps \<Longrightarrow> \<not> first_key (ps ! i) \<le> key" using sp by simp_all
  qed
  have eq: "find_candidate_range key idx =
      (if a = length ps \<or> key < first_key (ps ! a) then Inl NotFound else Inr (a, b))"
    unfolding find_candidate_range_def ps_def [symmetric] Let_def
      validate_sequence_iff [THEN iffD2, OF conjI, OF ok refl]
    by (simp add: a_def b_def)
  show ?thesis
  proof (cases "a = length ps \<or> key < first_key (ps ! a)")
    case True
    have "\<not> (first_key (ps ! i) \<le> key \<and> key \<le> last_key (ps ! i))" if "i < length ps" for i
      using True A(2) [of i] first_mono [of a i] that by (cases "i < a") auto
    then show ?thesis using eq True by (auto simp: ps_def [symmetric] in_set_conv_nth)
  next
    case False
    then have "a < length ps" "first_key (ps ! a) \<le> key" using A(1) by auto
    then have "a < b" using B(1) B(4) [of a] by (cases "a = b") auto
    have "a \<le> i \<and> i < b \<longleftrightarrow> first_key (ps ! i) \<le> key \<and> key \<le> last_key (ps ! i)" if "i < length ps" for i
      using A(2,3) [of i] B(3,4) [of i] that by (metis not_le)
    then show ?thesis using eq False \<open>a < b\<close> B(2) by (simp add: ps_def [symmetric])
  qed
qed

section \<open>What is written\<close>

definition entry_fields :: "IndexPayload \<Rightarrow> byte list list" where
  "entry_fields p = [enc_u64 (data_block_offset p), enc_u32 (entry_size (first_key p)), enc_u32 (entry_size (last_key p)),
     first_key p, last_key p]"

definition index_header :: "zlib \<Rightarrow> IndexPayload list \<Rightarrow> IndexHeader" where
  "index_header z ps = \<lparr>ih_type = BlockType_Index, ih_payload_size = of_nat (sum_list (map IndexPayload_disk_size ps)),
     ih_crc = IndexSection_calculate_crc32 z ps\<rparr>"

definition index_header_fields :: "IndexHeader \<Rightarrow> byte list list" where
  "index_header_fields h = [enc_u8 (ih_type h), enc_u32 (ih_payload_size h), enc_u32 (ih_crc h)]"

definition entries_bytes :: "IndexPayload list \<Rightarrow> byte list" where
  "entries_bytes ps = concat (map (\<lambda>p. concat (entry_fields p)) ps)"

definition index_bytes :: "zlib \<Rightarrow> IndexPayload list \<Rightarrow> byte list" where
  "index_bytes z ps = concat (index_header_fields (index_header z ps)) @ entries_bytes ps"

lemma entry_fields_length: "length (concat (entry_fields p)) = IndexPayload_disk_size p"
  by (simp add: entry_fields_def IndexPayload_disk_size_def)

lemma entries_bytes_length: "length (entries_bytes ps) = sum_list (map IndexPayload_disk_size ps)"
  using entry_fields_length by (induction ps) (simp_all add: entries_bytes_def)

lemma header_fields_length: "length (concat (index_header_fields h)) = 9"
  by (simp add: index_header_fields_def)

lemma index_bytes_length: "index_ok ps \<Longrightarrow> length (index_bytes z ps) \<le> BLOCK_SIZE"
  by (simp add: index_bytes_def header_fields_length entries_bytes_length index_ok_def BLOCK_SIZE_def)

lemma index_header_size:
  assumes "index_ok ps"
  shows "unat (ih_payload_size (index_header z ps)) = length (entries_bytes ps)"
  using assms by (simp add: index_header_def entries_bytes_length index_ok_def unat_of_nat take_bit_nat_eq_self_iff)

lemma index_header_ok: "index_ok ps \<Longrightarrow> IndexHeader_validate (index_header z ps) = Ok"
  using index_header_size [of ps z] by (simp add: IndexHeader_validate_def entries_bytes_length index_ok_def index_header_def)

lemma build_header_eq:
  assumes "index_ok ps"
  shows "build_header z ps = Inr (index_header z ps)"
proof -
  have "validate_payload_sequence None 0 ps = Inr (sum_list (map IndexPayload_disk_size ps))"
    using assms by (simp add: validate_sequence_iff)
  moreover have "\<not> sum_list (map IndexPayload_disk_size ps) > u32_max" using assms by (simp add: index_ok_def)
  ultimately show ?thesis using index_header_ok [OF assms, of z]
    by (simp add: build_header_def Let_def index_header_def)
qed

lemma validate_sequence_fails: "validate_payload_sequence p b qs = Inl e \<Longrightarrow> e \<noteq> Ok"
  by (induction p b qs rule: validate_payload_sequence.induct) (auto simp: Let_def split: if_splits)

lemma build_header_fails: "\<not> index_ok ps \<Longrightarrow> \<exists>e. build_header z ps = Inl e \<and> e \<noteq> Ok"
proof -
  assume "\<not> index_ok ps"
  then obtain e where "validate_payload_sequence None 0 ps = Inl e"
    using validate_sequence_iff [of ps] by (cases "validate_payload_sequence None 0 ps") auto
  then show ?thesis using validate_sequence_fails by (auto simp: build_header_def)
qed

lemma entry_size_ok:
  "IndexPayload_validate p = Ok \<Longrightarrow> unat (entry_size (first_key p)) = length (first_key p)"
  "IndexPayload_validate p = Ok \<Longrightarrow> unat (entry_size (last_key p)) = length (last_key p)"
  by (auto simp: IndexPayload_validate_def split: if_splits intro!: entry_size_unat)

lemma IndexPayload_write_emits:
  assumes "IndexPayload_validate p = Ok" "tracked f"
    and "length (wdata f) mod BLOCK_SIZE + length (concat (entry_fields p)) \<le> BLOCK_SIZE"
  shows "emits (IndexPayload_write p) (concat (entry_fields p)) f"
proof (rule emits_lays_in_block [OF _ assms(2,3)])
  have len: "length (first_key p) \<le> BLOCK_SIZE" "length (last_key p) \<le> BLOCK_SIZE"
    using assms(1) by (auto simp: IndexPayload_validate_def BLOCK_SIZE_def split: if_splits)
  show "lays BLOCK_SIZE (run_all [write_u64_t_le (data_block_offset p) BLOCK_SIZE,
      write_u32_t_le (entry_size (first_key p)) BLOCK_SIZE, write_u32_t_le (entry_size (last_key p)) BLOCK_SIZE,
      write_bytes (first_key p) BLOCK_SIZE, write_bytes (last_key p) BLOCK_SIZE]) (entry_fields p)"
    unfolding entry_fields_def using len by (intro lays_Cons sst_field_lays lays_run_all_Nil)
  have "fits_in_block (woff f) (IndexPayload_disk_size p) BLOCK_SIZE = Ok"
    using fits_pass [OF assms(2)] assms(3) by (simp add: entry_fields_length)
  then show "IndexPayload_write p f = run_all [write_u64_t_le (data_block_offset p) BLOCK_SIZE,
      write_u32_t_le (entry_size (first_key p)) BLOCK_SIZE, write_u32_t_le (entry_size (last_key p)) BLOCK_SIZE,
      write_bytes (first_key p) BLOCK_SIZE, write_bytes (last_key p) BLOCK_SIZE] f"
    unfolding IndexPayload_write_def using assms
    by (simp only: run_all_pass check_w_pass check_offset_pass)
qed

lemma IndexHeader_write_emits:
  assumes "IndexHeader_validate h = Ok" "tracked f" "length (wdata f) mod BLOCK_SIZE + 9 \<le> BLOCK_SIZE"
  shows "emits (IndexHeader_write h) (concat (index_header_fields h)) f"
proof (rule emits_lays_in_block [OF _ assms(2)])
  show "lays BLOCK_SIZE (run_all [write_u8_t (ih_type h) BLOCK_SIZE, write_u32_t_le (ih_payload_size h) BLOCK_SIZE,
      write_u32_t_le (ih_crc h) BLOCK_SIZE]) (index_header_fields h)"
    unfolding index_header_fields_def by (intro lays_Cons sst_field_lays lays_run_all_Nil)
  have "fits_in_block (woff f) IndexHeader_disk_size BLOCK_SIZE = Ok"
    using fits_pass [OF assms(2), of 9] assms(3) by simp
  then show "IndexHeader_write h f = run_all [write_u8_t (ih_type h) BLOCK_SIZE,
      write_u32_t_le (ih_payload_size h) BLOCK_SIZE, write_u32_t_le (ih_crc h) BLOCK_SIZE] f"
    unfolding IndexHeader_write_def using assms by (simp only: run_all_pass check_w_pass check_offset_pass)
qed (use assms(3) in \<open>simp add: header_fields_length\<close>)

lemma index_body_emits:
  assumes "index_ok ps" "tracked f" "length (wdata f) mod BLOCK_SIZE = 0"
  shows "emits (run_all (check_w (\<lambda>f. fits_in_block (woff f)
      (IndexHeader_disk_size + unat (ih_payload_size (index_header z ps))) BLOCK_SIZE)
    # IndexHeader_write (index_header z ps) # map IndexPayload_write ps)) (index_bytes z ps) f"
proof -
  have len: "length (entries_bytes ps) + 9 \<le> BLOCK_SIZE"
    using index_bytes_length [OF assms(1)] by (simp add: index_bytes_def header_fields_length)
  let ?check = "check_w (\<lambda>f. fits_in_block (woff f)
    (IndexHeader_disk_size + unat (ih_payload_size (index_header z ps))) BLOCK_SIZE)"
  have "?check f = (Ok, f)"
    using fits_pass [OF assms(2), of "IndexHeader_disk_size + unat (ih_payload_size (index_header z ps))"] assms(3) len
    by (simp add: index_header_size [OF assms(1)] check_w_def)
  then have pass: "run_all (?check # as) f = run_all as f" for as by (rule run_all_pass)
  have "emits (run_all (IndexHeader_write (index_header z ps) # map IndexPayload_write ps)) (index_bytes z ps) f"
    unfolding index_bytes_def
  proof (rule emits_run_all_Cons [OF assms(2)])
    show "emits (IndexHeader_write (index_header z ps)) (concat (index_header_fields (index_header z ps))) f"
      using assms by (intro IndexHeader_write_emits index_header_ok) (simp_all add: BLOCK_SIZE_def)
    fix f' assume f': "tracked f'" "wdata f' = wdata f @ concat (index_header_fields (index_header z ps))"
    have "length (wdata f') mod BLOCK_SIZE + length (entries_bytes ps) \<le> BLOCK_SIZE"
      using in_block_step [of BLOCK_SIZE "length (wdata f)" 9 "length (entries_bytes ps)"] assms(3) len f'(2)
      by (simp add: header_fields_length)
    then show "emits (run_all (map IndexPayload_write ps)) (entries_bytes ps) f'"
      unfolding entries_bytes_def using assms(1) f'(1)
      by (intro emits_items [where B = BLOCK_SIZE] IndexPayload_write_emits) (auto simp: index_ok_def)
  qed
  then show ?thesis by (simp only: emits_def pass)
qed

lemma align_run_emits:
  assumes "tracked f"
  shows "emits (run_all [check_offset, align_to_block_boundary BLOCK_SIZE]) (align_pad (length (wdata f))) f"
proof -
  have "run_all [check_offset, align_to_block_boundary BLOCK_SIZE] f = align_to_block_boundary BLOCK_SIZE f"
    using check_offset_pass [OF assms] by (simp split: prod.split)
  with align_emits [OF assms] show ?thesis by (simp only: emits_def)
qed

text \<open>A successful write leaves the padding and the encoded index; it reports where the index starts
  and the header it computed.\<close>

lemma IndexSection_write_okD:
  assumes "tracked f" "IndexSection_write z idx o0 f = (Ok, f', idx', off)"
  shows "index_ok (idx_payloads idx)" "tracked f'"
    and "wdata f' = wdata f @ align_pad (length (wdata f)) @ index_bytes z (idx_payloads idx)"
    and "idx' = idx\<lparr>idx_header := index_header z (idx_payloads idx)\<rparr>"
    and "off = length (wdata f) + length (align_pad (length (wdata f)))"
proof -
  let ?ps = "idx_payloads idx"
  show ok: "index_ok ?ps" using assms(2) build_header_fails [of ?ps z]
    by (cases "index_ok ?ps") (auto simp: IndexSection_write_def)
  obtain c1 f1 where f1: "run_all [check_offset, align_to_block_boundary BLOCK_SIZE] f = (c1, f1)"
    by (cases "run_all [check_offset, align_to_block_boundary BLOCK_SIZE] f")
  have c1: "c1 = Ok" using assms(2) f1 by (auto simp: IndexSection_write_def build_header_eq [OF ok] split: if_splits simp del: run_all.simps)
  from emits_okD [OF align_run_emits [OF assms(1)] f1 [unfolded c1] assms(1)]
  have w1: "wdata f1 = wdata f @ align_pad (length (wdata f))" "tracked f1" by auto
  obtain c2 f2 where f2: "run_all (check_w (\<lambda>f. fits_in_block (woff f)
      (IndexHeader_disk_size + unat (ih_payload_size (index_header z ?ps))) BLOCK_SIZE)
    # IndexHeader_write (index_header z ?ps) # map IndexPayload_write ?ps) f1 = (c2, f2)" by fastforce
  have r: "c2 = Ok" "f' = f2" "idx' = idx\<lparr>idx_header := index_header z ?ps\<rparr>" "off = woff f1"
    using assms(2) f1 f2 c1
    by (auto simp: IndexSection_write_def build_header_eq [OF ok] split: if_splits simp del: run_all.simps capacity_facts)
  have "length (wdata f1) mod BLOCK_SIZE = 0" using align_pad_aligned [of "length (wdata f)"] w1(1) by simp
  from emits_okD [OF index_body_emits [OF ok w1(2) this] f2 [unfolded r(1)] w1(2)]
  show "wdata f' = wdata f @ align_pad (length (wdata f)) @ index_bytes z ?ps" "tracked f'" using w1 r by auto
  show "idx' = idx\<lparr>idx_header := index_header z ?ps\<rparr>" "off = length (wdata f) + length (align_pad (length (wdata f)))"
    using r w1 by (simp_all add: tracked_def)
qed

lemma IndexSection_write_succeeds:
  assumes "index_ok (idx_payloads idx)" "tracked f" "write_faultfree f"
  shows "\<exists>f'. IndexSection_write z idx o0 f = (Ok, f', idx\<lparr>idx_header := index_header z (idx_payloads idx)\<rparr>,
    length (wdata f) + length (align_pad (length (wdata f)))) \<and> write_faultfree f' \<and> wsenv f' = wsenv f \<and> wclose_ok f' = wclose_ok f"
proof -
  obtain f1 where f1: "run_all [check_offset, align_to_block_boundary BLOCK_SIZE] f = (Ok, f1)"
    "wdata f1 = wdata f @ align_pad (length (wdata f))" "tracked f1" "write_faultfree f1" "wsenv f1 = wsenv f" "wclose_ok f1 = wclose_ok f"
    using emits_faultfreeD [OF align_run_emits [OF assms(2)] assms(2,3)] by metis
  have "length (wdata f1) mod BLOCK_SIZE = 0" using align_pad_aligned [of "length (wdata f)"] f1(2) by simp
  from emits_faultfreeD [OF index_body_emits [OF assms(1) f1(3) this] f1(3,4)]
  obtain f2 where "run_all (check_w (\<lambda>f. fits_in_block (woff f)
      (IndexHeader_disk_size + unat (ih_payload_size (index_header z (idx_payloads idx)))) BLOCK_SIZE)
    # IndexHeader_write (index_header z (idx_payloads idx)) # map IndexPayload_write (idx_payloads idx)) f1 = (Ok, f2)"
    "write_faultfree f2" "wsenv f2 = wsenv f1" "wclose_ok f2 = wclose_ok f1" by metis
  then show ?thesis using f1
    by (simp add: IndexSection_write_def build_header_eq [OF assms(1)] tracked_def del: run_all.simps capacity_facts)
qed

section \<open>What is loaded\<close>

lemma IndexHeader_load_at:
  assumes "IndexHeader_validate h = Ok" "read_quiet D f" "bytes_at D (roff f) (concat (index_header_fields h))"
    "roff f mod BLOCK_SIZE + 9 \<le> BLOCK_SIZE"
  shows "\<exists>f'. IndexHeader_load f = (Inr h, f') \<and> read_quiet D f' \<and> roff f' = roff f + 9"
proof -
  define m where "m = bind_r (read_u8_t BLOCK_SIZE) (\<lambda>t. bind_r (read_u32_t_le BLOCK_SIZE) (\<lambda>n.
    bind_r (read_u32_t_le BLOCK_SIZE) (\<lambda>crc g.
      let h = \<lparr>ih_type = t, ih_payload_size = n, ih_crc = crc\<rparr>; status = IndexHeader_validate h in
      if is_ok status then (Inr h, g) else (Inl status, g))))"
  have "reads BLOCK_SIZE m ([enc_u8 (ih_type h)] @ [enc_u32 (ih_payload_size h)] @ [enc_u32 (ih_crc h)] @ []) h"
    unfolding m_def
    by (rule reads_bind [OF sst_field_reads(3)] reads_bind [OF sst_field_reads(2)])+
      (use assms(1) in \<open>cases h; auto simp: reads_def yields_def quiet_data Let_def\<close>)
  then have "reads BLOCK_SIZE m (index_header_fields h) h" by (simp add: index_header_fields_def)
  from reads_in_block [OF this assms(2,3)] assms(4)
  obtain f' where "m f = (Inr h, f')" "read_quiet (rdata f) f'" "roff f' = roff f + 9"
    by (auto simp: header_fields_length yields_def)
  moreover have "fits_in_block (roff f) IndexHeader_disk_size BLOCK_SIZE = Ok"
    using assms(4) by (simp add: fits_in_block_def BLOCK_SIZE_def)
  ultimately show ?thesis using quiet_data [OF assms(2)]
    unfolding IndexHeader_load_def m_def [symmetric] by (simp add: restoring_def Let_def del: capacity_facts)
qed

lemma parse_entries_bytes:
  "\<forall>p\<in>set ps. IndexPayload_validate p = Ok \<Longrightarrow> n + length (entries_bytes ps) \<le> u64_max \<Longrightarrow>
    parse_entries (entries_bytes ps) n = Inr (ps, n + sum_list (map (\<lambda>p. length (first_key p) + length (last_key p)) ps))"
proof (induction ps arbitrary: n)
  case Nil
  then show ?case by (simp add: parse_entries.simps entries_bytes_def)
next
  case (Cons p ps)
  let ?k = "length (first_key p) + length (last_key p)"
  define b where "b = entries_bytes (p # ps)"
  have eq: "b = enc_u64 (data_block_offset p) @ enc_u32 (entry_size (first_key p)) @ enc_u32 (entry_size (last_key p)) @
    first_key p @ last_key p @ entries_bytes ps" by (simp add: b_def entries_bytes_def entry_fields_def)
  have d: "take 8 b = enc_u64 (data_block_offset p)" "take 4 (drop 8 b) = enc_u32 (entry_size (first_key p))"
    "take 4 (drop 12 b) = enc_u32 (entry_size (last_key p))" "drop 16 b = first_key p @ last_key p @ entries_bytes ps"
    "b \<noteq> []" "\<not> length b < 16"
    by (simp_all add: eq enc_u64_def enc_u32_def)
  have sz: "unat (entry_size (first_key p)) = length (first_key p)" "unat (entry_size (last_key p)) = length (last_key p)"
    using Cons.prems(1) entry_size_ok by auto
  have "parse_entries (entries_bytes ps) (n + ?k) =
      Inr (ps, n + ?k + sum_list (map (\<lambda>p. length (first_key p) + length (last_key p)) ps))"
    using Cons.prems eq b_def by (intro Cons.IH) auto
  moreover have "\<not> n > u64_max - ?k" using Cons.prems(2) eq b_def by simp
  ultimately show ?case unfolding b_def [symmetric]
    by (subst parse_entries.simps) (simp add: Let_def d sz add.assoc)
qed

lemma entries_crc:
  assumes "crc_incremental z"
  shows "crc32_of z (entries_bytes ps) = IndexSection_calculate_crc32 z ps"
proof -
  have one: "IndexPayload_append_crc32 z p c = compute_crc32 z c (concat (entry_fields p))" for p c
    by (simp add: IndexPayload_append_crc32_def entry_fields_def crc32_add_enc crc_bytes_if_eq
      compute_crc32_append [OF assms])
  have "fold (IndexPayload_append_crc32 z) ps c = compute_crc32 z c (entries_bytes ps)" for c
    by (induction ps arbitrary: c)
      (simp_all add: one entries_bytes_def compute_crc32_append [OF assms] compute_crc32.simps [of _ _ "[]"])
  then show ?thesis by (simp add: crc32_of_def IndexSection_calculate_crc32_def)
qed

lemma validate_parsed_ok: "index_ok ps \<Longrightarrow> validate_parsed_sequence None ps = Ok"
proof -
  have "\<forall>p\<in>set qs. IndexPayload_validate p = Ok \<Longrightarrow> successively (\<lambda>q p. follows_entry (Some q) p = Ok) qs \<Longrightarrow>
      (\<forall>p qs'. qs = p # qs' \<longrightarrow> follows_entry prev p = Ok) \<Longrightarrow> validate_parsed_sequence prev qs = Ok" for prev qs
  proof (induction prev qs rule: validate_parsed_sequence.induct)
    case (2 prev p ps)
    then show ?case by (cases ps) (auto simp: IndexPayload_validate_def Let_def split: if_splits)
  qed simp
  then show "index_ok ps \<Longrightarrow> validate_parsed_sequence None ps = Ok"
    by (auto simp: index_ok_def follows_entry_def)
qed

text \<open>The layout a footer may promise for the entries.\<close>

definition laid_from :: "nat \<Rightarrow> IndexPayload list \<Rightarrow> bool" where
  "laid_from first_off ps \<longleftrightarrow> (\<forall>i < length ps. unat (data_block_offset (ps ! i)) = first_off + i * BLOCK_SIZE)"

lemma check_layout_ok:
  assumes "first_off + (i + length ps) * BLOCK_SIZE \<le> u64_max"
    and "\<forall>j < length ps. unat (data_block_offset (ps ! j)) = first_off + (i + j) * BLOCK_SIZE"
  shows "check_layout first_off i ps = Ok"
  using assms
proof (induction first_off i ps rule: check_layout.induct)
  case (2 fo i p ps)
  have le: "i * BLOCK_SIZE \<le> (i + length (p # ps)) * BLOCK_SIZE" by (intro mult_le_mono1) simp
  have at: "unat (data_block_offset p) = fo + i * BLOCK_SIZE" using 2(3) by force
  have "fo + (Suc i + length ps) * BLOCK_SIZE \<le> u64_max" using 2(2) by simp
  moreover have "\<forall>j < length ps. unat (data_block_offset (ps ! j)) = fo + (Suc i + j) * BLOCK_SIZE"
    using 2(3) by (metis Suc_less_eq add_Suc_shift length_Cons nth_Cons_Suc)
  moreover have "\<not> (i * BLOCK_SIZE > u64_max \<or> fo + i * BLOCK_SIZE > u64_max)" using 2(2) le by linarith
  ultimately show ?case using 2(1) at by simp
qed simp

text \<open>The layouts that \<open>load_impl\<close> accepts for entries at a place.\<close>

definition layout_fits :: "nat \<Rightarrow> (nat \<times> nat) option \<Rightarrow> IndexPayload list \<Rightarrow> bool" where
  "layout_fits index_offset lc ps \<longleftrightarrow> (case lc of None \<Rightarrow> True
     | Some (first_off, count) \<Rightarrow> count = length ps \<and> first_off mod BLOCK_SIZE = 0 \<and> laid_from first_off ps \<and>
         (if count = 0 then first_off \<le> index_offset else first_off + count * BLOCK_SIZE = index_offset))"

lemma footer_layout_ok:
  assumes "layout_fits io lc ps" "io \<le> u64_max"
  shows "(case lc of None \<Rightarrow> Ok | Some (fo, n) \<Rightarrow> check_footer_layout io fo n ps) = Ok"
proof (cases lc)
  case (Some x)
  obtain fo n where x: "x = (fo, n)" by (cases x)
  from assms Some x have "n = length ps" "fo mod BLOCK_SIZE = 0" "laid_from fo ps" "fo + n * BLOCK_SIZE \<le> u64_max"
    "n > 0 \<Longrightarrow> fo + n * BLOCK_SIZE = io" "n = 0 \<Longrightarrow> fo \<le> io"
    by (auto simp: layout_fits_def split: if_splits)
  moreover from this have "check_layout fo 0 ps = Ok" by (intro check_layout_ok) (simp_all add: laid_from_def)
  ultimately show ?thesis using Some x by (cases "n = 0") (auto simp: check_footer_layout_def not_less)
qed simp

lemma load_impl_at:
  assumes z: "crc_incremental z" and ok: "index_ok ps" and q: "read_quiet D f" and ar: "arena_ok ar" "never_oom ar"
    and at: "bytes_at D io (index_bytes z ps)" and al: "io mod BLOCK_SIZE = 0"
    and ex: "expected = 0 \<or> expected = length (index_bytes z ps)" and lc: "layout_fits io lc ps"
  shows "\<exists>f' ar'. load_impl z io expected lc (f, ar) =
      Some (Inr \<lparr>idx_header = index_header z ps, idx_payloads = ps\<rparr>, f', ar') \<and>
    read_quiet D f' \<and> roff f' = io + length (index_bytes z ps) \<and> extends ar ar' \<and> never_oom ar'"
proof -
  define h where "h = index_header z ps"
  define eb where "eb = entries_bytes ps"
  have D: "rdata f = D" "rfd f" "length D \<le> ssize_max" using q by (simp_all add: read_quiet_def)
  have len: "length (index_bytes z ps) = 9 + length eb" by (simp add: index_bytes_def header_fields_length eb_def)
  have hsz: "unat (ih_payload_size h) = length eb" using index_header_size [OF ok] by (simp add: h_def eb_def)
  have bound: "io + (9 + length eb) \<le> length D" using bytes_at_bound [OF at] len by simp
  have at1: "bytes_at D io (concat (index_header_fields h))" and at2: "bytes_at D (io + 9) eb"
    using at by (simp_all add: index_bytes_def bytes_at_append header_fields_length h_def eb_def)
  have qs: "read_quiet D (f\<lparr>roff := io\<rparr>)" using q by simp
  obtain g where g: "IndexHeader_load (f\<lparr>roff := io\<rparr>) = (Inr h, g)" "read_quiet D g" "roff g = io + 9"
    using IndexHeader_load_at [OF index_header_ok [OF ok, of z] qs] at1 al by (auto simp: h_def BLOCK_SIZE_def)
  obtain g2 where g2: "read_exact_at (io + 9) (length eb) g = (Inr eb, g2)" "read_quiet D g2" "roff g2 = io + 9 + length eb"
    using read_exact_at_yields [of g "io + 9" "length eb"] g(2) quiet_data [OF g(2)] bytes_at_take [OF at2] bound
    by (auto simp: yields_def)
  define gp where "gp = (if eb = [] then g else g2)"
  have gp: "read_quiet D gp" "roff gp = io + (9 + length eb)" using g g2 by (auto simp: gp_def)
  have body: "read_index_payload h (io + (9 + length eb)) (g, ar) = Some (Inr eb, gp, ar)"
    using hsz g g2 by (cases "eb = []")
      (auto simp: read_index_payload_def return_l_def bind_l_def lift_l_def check_l_def gp_def unat_eq_0 [symmetric] add.assoc simp del: unat_eq_0)
  define tk where "tk = sum_list (map (\<lambda>p. length (first_key p) + length (last_key p)) ps)"
  have parsed: "parse_entries eb 0 = Inr (ps, tk)"
    using parse_entries_bytes [of ps 0] ok bound D(3) by (simp add: eb_def tk_def index_ok_def)
  obtain ar' where ar': "alloc_key_storage tk (gp, ar) = Some (Inr (), gp, ar')" "extends ar ar'" "never_oom ar'"
  proof (cases "tk > 0")
    case True
    have "has_single_bit 1" using has_single_bit_pow [of 0] by simp
    from alloc_served [OF ar this True] obtain p br where "alloc tk 1 ar = (Inr p, br)" "never_oom br" "extends ar br" by blast
    then show ?thesis using that True by (simp add: alloc_key_storage_def bind_l_def alloc_l_def return_l_def)
  next
    case False
    then show ?thesis using that ar by (simp add: alloc_key_storage_def return_l_def extends_refl)
  qed
  have valid: "IndexSection_validate z \<lparr>idx_header = h, idx_payloads = ps\<rparr> = Ok"
    using validate_sequence_iff [of ps "length eb"] ok index_header_ok [OF ok, of z] hsz
    by (simp add: IndexSection_validate_def h_def eb_def entries_bytes_length index_header_def)
  have crc: "crc32_of z eb = ih_crc h" using entries_crc [OF z] by (simp add: eb_def h_def index_header_def)
  have lco: "(case lc of None \<Rightarrow> Ok | Some (fo, n) \<Rightarrow> check_footer_layout io fo n ps) = Ok"
    using footer_layout_ok [OF lc] bound D(3) by simp
  have small: "9 + length eb \<le> BLOCK_SIZE" using index_bytes_length [OF ok, of z] len by simp
  have exn: "(0 < expected \<and> 9 + length eb \<noteq> expected) = False" using ex len by auto
  have "load_impl z io expected lc (f, ar) =
      Some (Inr \<lparr>idx_header = h, idx_payloads = ps\<rparr>, gp\<lparr>roff := io + (9 + length eb)\<rparr>, ar')"
    unfolding load_impl_def Let_def
    by (rule transact_ok)
      (use al len bound D small in \<open>simp add: run_l exn get_file_size_def g(1) hsz bind_l_step [where m = "read_index_payload h (io + (9 + length eb))", OF body] crc parsed
        validate_parsed_ok [OF ok] lco bind_l_step [where m = "alloc_key_storage tk", OF ar'(1)] valid return_l_def\<close>)
  then show ?thesis using gp ar' len by (auto simp: h_def)
qed

section \<open>Properties\<close>

text \<open>C25 (index lookup). On an index that passes validation the two binary searches return exactly the
  positions of the data blocks whose key range contains the key, as one interval, and report that the
  key is absent exactly when there is no such block. A key whose versions spread over several blocks
  gets all of them.\<close>

theorem find_candidate_range_correct:
  assumes "IndexSection_validate z idx = Ok"
  shows "case find_candidate_range key idx of
      Inl e \<Rightarrow> e = NotFound \<and> (\<forall>p\<in>set (idx_payloads idx). \<not> (first_key p \<le> key \<and> key \<le> last_key p))
    | Inr (a, b) \<Rightarrow> a < b \<and> b \<le> length (idx_payloads idx) \<and>
        (\<forall>i < length (idx_payloads idx).
           a \<le> i \<and> i < b \<longleftrightarrow> first_key (idx_payloads idx ! i) \<le> key \<and> key \<le> last_key (idx_payloads idx ! i))"
proof (rule find_candidate_range_spec)
  obtain n where "validate_payload_sequence None 0 (idx_payloads idx) = Inr n"
    using assms validate_sequence_gen
    by (cases "validate_payload_sequence None 0 (idx_payloads idx)") (auto simp: IndexSection_validate_def dest: validate_sequence_fails)
  then show "index_ok (idx_payloads idx)" by (simp add: validate_sequence_iff)
qed

text \<open>Writing an index succeeds only when its entries are well-formed, and
  then loading at the offset that the write reported gives the same entries back, with and without the
  size and the layout that the footer records, from any file that continues the written one. The
  checksum is computed field by field when writing and over the whole payload when loading; they agree
  because zlib's checksum can be computed piecewise.\<close>

lemma index_write_load:
  assumes "crc_incremental z" "tracked f" "IndexSection_write z idx o0 f = (Ok, f', idx', off)"
    and "read_quiet (wdata f' @ rest) g" "arena_ok ar" "never_oom ar"
    and "expected = 0 \<or> expected = length (wdata f') - off" "layout_fits off lc (idx_payloads idx)"
  shows "\<exists>g' ar'. load_impl z off expected lc (g, ar) = Some (Inr idx', g', ar') \<and>
    roff g' = length (wdata f') \<and> idx_payloads idx' = idx_payloads idx \<and> length (idx_payloads idx) \<le> 255"
proof -
  note w = IndexSection_write_okD [OF assms(2,3)]
  have at: "bytes_at (wdata f' @ rest) off (index_bytes z (idx_payloads idx))"
    unfolding bytes_at_def using w(3,5)
    by (intro exI [of _ "wdata f @ align_pad (length (wdata f))"] exI [of _ rest]) simp
  have al: "off mod BLOCK_SIZE = 0" using align_pad_aligned w(5) by simp
  have ex: "expected = 0 \<or> expected = length (index_bytes z (idx_payloads idx))" using assms(7) w(3,5) by auto
  have "idx' = \<lparr>idx_header = index_header z (idx_payloads idx), idx_payloads = idx_payloads idx\<rparr>"
    using w(4) by (cases idx) simp
  then show ?thesis using load_impl_at [OF assms(1) w(1) assms(4-6) at al ex assms(8)] w(3,5) index_ok_length [OF w(1)]
    by fastforce
qed

section \<open>Example\<close>

definition ex_zlib :: zlib where
  "ex_zlib = \<lparr>crc_init = 0, crc_update = \<lambda>c bs. foldl (\<lambda>c b. 31 * c + ucast b) c bs\<rparr>"

lemma ex_zlib_incremental: "crc_incremental ex_zlib"
  by (simp add: crc_incremental_def ex_zlib_def)

definition ex_entries :: "IndexPayload list" where
  "ex_entries = [\<lparr>data_block_offset = 4096, first_key = [1], last_key = [5]\<rparr>,
     \<lparr>data_block_offset = 8192, first_key = [5], last_key = [9]\<rparr>]"

definition ex_index :: IndexSection where
  "ex_index = \<lparr>idx_header = index_header ex_zlib ex_entries, idx_payloads = ex_entries\<rparr>"

lemma ex_entries_ok: "index_ok ex_entries"
  by (simp add: index_ok_def ex_entries_def IndexPayload_validate_def IndexPayload_disk_size_def follows_entry_def BLOCK_SIZE_def)

lemma index_of_valid: "index_ok ps \<Longrightarrow> IndexSection_validate z \<lparr>idx_header = index_header z ps, idx_payloads = ps\<rparr> = Ok"
  using validate_sequence_iff [of ps "length (entries_bytes ps)"] index_header_ok [of ps z] index_header_size [of ps z]
  by (simp add: IndexSection_validate_def entries_bytes_length index_header_def)

theorem find_candidate_range_correct_witness:
  "IndexSection_validate ex_zlib ex_index = Ok \<and> (\<exists>a b. find_candidate_range [5] ex_index = Inr (a, b) \<and> a < b)"
proof -
  have v: "IndexSection_validate ex_zlib ex_index = Ok"
    unfolding ex_index_def by (rule index_of_valid [OF ex_entries_ok])
  show ?thesis using find_candidate_range_correct [OF v, of "[5]"] v
    by (auto simp: ex_index_def ex_entries_def split: sum.splits)
qed

definition ex_table_file :: wfile where
  "ex_table_file = \<lparr>wdata = replicate 8292 7, wfd = True, wenv = [Wrote 3, WriteIntr], wsenv = [], wclose_ok = True,
     wsynced = 0, woff = 8292\<rparr>"

lemma ex_table_file_ok: "tracked ex_table_file" "write_faultfree ex_table_file"
  by (simp_all add: ex_table_file_def tracked_def write_faultfree_def)

end
