(* ===== verification/DataSection.thy ===== *)
theory DataSection
  imports IndexSection
begin

text \<open>
  The data blocks of a table under construction (\<^verbatim>\<open>core/sstable_entities/data_section.cpp\<close>). A block
  holds whole records and never exceeds 4096 bytes. Adding a record keeps the section sorted and
  appends exactly that record; writing lays the blocks out one per physical block and derives the index
  entries from them.
\<close>

section \<open>State\<close>

record DataPayload =
  pl_key :: ArenaEntry
  pl_value :: ArenaEntry
  pl_type :: u8
  pl_flags :: u32
  pl_reserved :: u32
  pl_seq :: u64

record DataHeader =
  dh_type :: u8
  dh_payload_size :: u32
  dh_crc :: u32

record DataBlock =
  db_header :: DataHeader
  db_payloads :: "DataPayload list"

record DataSection =
  data_blocks :: "DataBlock list"

definition DataHeader_new :: "zlib \<Rightarrow> DataHeader" where
  "DataHeader_new z = \<lparr>dh_type = BlockType_Data, dh_payload_size = 0, dh_crc = crc_init z\<rparr>"

definition DataHeader_disk_size :: nat where "DataHeader_disk_size = 9"
definition DataPayload_fixed_size :: nat where "DataPayload_fixed_size = 25"

definition DataPayload_of :: "InternalRecord \<Rightarrow> DataPayload" where
  "DataPayload_of r = \<lparr>pl_key = key_entry r, pl_value = value_entry r, pl_type = type_to_u8 (rtype r),
     pl_flags = 0, pl_reserved = 0, pl_seq = seq_num r\<rparr>"

definition payload_disk_size :: "DataPayload \<Rightarrow> nat" where
  "payload_disk_size p = DataPayload_fixed_size + length (pl_key p) + length (pl_value p)"

section \<open>Validation\<close>

definition is_valid_payload_type :: "u8 \<Rightarrow> bool" where
  "is_valid_payload_type t \<longleftrightarrow> t = type_to_u8 Put \<or> t = type_to_u8 Tombstone"

definition compare_keys :: "DataPayload \<Rightarrow> DataPayload \<Rightarrow> int" where
  "compare_keys lhs rhs = compare_bytes (pl_key lhs) (pl_key rhs)"

definition validate_order :: "DataPayload \<Rightarrow> DataPayload \<Rightarrow> StatusCode" where
  "validate_order previous current =
     (let key_order = compare_keys previous current in
      if key_order > 0 then InvalidArgument
      else if key_order = 0 \<and> pl_seq current > pl_seq previous then InvalidArgument
      else if key_order = 0 \<and> pl_seq current = pl_seq previous then Duplicate
      else Ok)"

definition DataPayload_validate :: "DataPayload \<Rightarrow> StatusCode" where
  "DataPayload_validate p =
     (if \<not> is_valid_payload_type (pl_type p) then InvalidArgument
      else if pl_flags p \<noteq> 0 \<or> pl_reserved p \<noteq> 0 then InvalidArgument
      else if payload_disk_size p > BLOCK_SIZE - DataHeader_disk_size then InvalidPayloadSize
      else Ok)"

definition DataBlock_disk_size :: "DataBlock \<Rightarrow> nat" where
  "DataBlock_disk_size b = DataHeader_disk_size + sum_list (map payload_disk_size (db_payloads b))"

definition can_payload_fit :: "DataPayload \<Rightarrow> DataBlock \<Rightarrow> bool" where
  "can_payload_fit p b \<longleftrightarrow> DataBlock_disk_size b + payload_disk_size p \<le> BLOCK_SIZE"

fun validate_payloads :: "DataPayload option \<Rightarrow> nat \<Rightarrow> DataPayload list \<Rightarrow> StatusCode" where
  "validate_payloads previous payload_bytes [] = Ok"
| "validate_payloads previous payload_bytes (p # ps) =
     (let status = DataPayload_validate p in
      if \<not> is_ok status then status
      else let status = (case previous of None \<Rightarrow> Ok | Some q \<Rightarrow> validate_order q p) in
        if \<not> is_ok status then status
        else let payload_bytes = payload_bytes + payload_disk_size p in
          if payload_bytes > BLOCK_SIZE - DataHeader_disk_size then InvalidPayloadSize
          else validate_payloads (Some p) payload_bytes ps)"

definition DataBlock_validate :: "DataBlock \<Rightarrow> StatusCode" where
  "DataBlock_validate b =
     (if db_payloads b = [] then InvalidState else validate_payloads None 0 (db_payloads b))"

definition DataPayload_append_crc32 :: "zlib \<Rightarrow> DataPayload \<Rightarrow> u32 \<Rightarrow> u32" where
  "DataPayload_append_crc32 z p crc =
     (let crc = crc32_add_u32 z (entry_size (pl_key p)) crc;
          crc = crc32_add_u32 z (entry_size (pl_value p)) crc;
          crc = crc32_add_u8 z (pl_type p) crc;
          crc = crc32_add_u32 z (pl_flags p) crc;
          crc = crc32_add_u32 z (pl_reserved p) crc;
          crc = crc32_add_u64 z (pl_seq p) crc;
          crc = crc_bytes_if z (pl_key p) crc
      in crc_bytes_if z (pl_value p) crc)"

definition DataBlock_calculate_crc32 :: "zlib \<Rightarrow> DataPayload list \<Rightarrow> u32" where
  "DataBlock_calculate_crc32 z ps = fold (DataPayload_append_crc32 z) ps (crc_init z)"

definition DataBlock_rebuild_header :: "zlib \<Rightarrow> DataBlock action" where
  "DataBlock_rebuild_header z b =
     (let status = DataBlock_validate b in
      if \<not> is_ok status then (status, b)
      else let payload_bytes = sum_list (map payload_disk_size (db_payloads b)) in
        if payload_bytes > u32_max then (DataTypeOverflow, b)
        else (Ok, b\<lparr>db_header := \<lparr>dh_type = BlockType_Data, dh_payload_size = of_nat payload_bytes,
          dh_crc = DataBlock_calculate_crc32 z (db_payloads b)\<rparr>\<rparr>))"

section \<open>Adding records\<close>

definition DataBlock_add_payload :: "zlib \<Rightarrow> DataPayload \<Rightarrow> DataBlock action" where
  "DataBlock_add_payload z p b =
     (let status = DataPayload_validate p in
      if \<not> is_ok status then (status, b)
      else let status = (if db_payloads b \<noteq> [] then validate_order (last (db_payloads b)) p else Ok) in
        if \<not> is_ok status then (status, b)
        else if \<not> can_payload_fit p b then (InvalidPayloadSize, b)
        else case DataBlock_rebuild_header z (b\<lparr>db_payloads := db_payloads b @ [p]\<rparr>) of (c, b') \<Rightarrow>
          if \<not> is_ok c then
            (c, if db_payloads b \<noteq> [] then snd (DataBlock_rebuild_header z b) else b\<lparr>db_header := DataHeader_new z\<rparr>)
          else (Ok, b'))"

definition last_payload :: "DataBlock list \<Rightarrow> DataPayload option" where
  "last_payload bs = map_option (\<lambda>b. last (db_payloads b)) (List.find (\<lambda>b. db_payloads b \<noteq> []) (rev bs))"

definition DataSection_add_payload :: "zlib \<Rightarrow> InternalRecord \<Rightarrow> DataSection action" where
  "DataSection_add_payload z r ds =
     (if length (key_entry r) > u32_max \<or> length (value_entry r) > u32_max then (DataTypeOverflow, ds)
      else let p = DataPayload_of r; status = DataPayload_validate p in
        if \<not> is_ok status then (status, ds)
        else let status = (case last_payload (data_blocks ds) of None \<Rightarrow> Ok | Some q \<Rightarrow> validate_order q p) in
          if \<not> is_ok status then (status, ds)
          else if data_blocks ds \<noteq> [] \<and> can_payload_fit p (last (data_blocks ds)) then
            (case DataBlock_add_payload z p (last (data_blocks ds)) of (c, b) \<Rightarrow>
               (c, ds\<lparr>data_blocks := butlast (data_blocks ds) @ [b]\<rparr>))
          else case DataBlock_add_payload z p \<lparr>db_header = DataHeader_new z, db_payloads = []\<rparr> of (c, b) \<Rightarrow>
            if \<not> is_ok c then (c, ds) else (Ok, ds\<lparr>data_blocks := data_blocks ds @ [b]\<rparr>))"

fun validate_blocks :: "DataPayload option \<Rightarrow> DataBlock list \<Rightarrow> StatusCode" where
  "validate_blocks previous_block_last [] = Ok"
| "validate_blocks previous_block_last (b # bs) =
     (let status = DataBlock_validate b in
      if \<not> is_ok status then status
      else let status = (case previous_block_last of None \<Rightarrow> Ok | Some q \<Rightarrow> validate_order q (hd (db_payloads b))) in
        if \<not> is_ok status then status else validate_blocks (Some (last (db_payloads b))) bs)"

definition DataSection_validate :: "DataSection \<Rightarrow> StatusCode" where
  "DataSection_validate ds = validate_blocks None (data_blocks ds)"

definition DataSection_disk_size :: "DataSection \<Rightarrow> nat" where
  "DataSection_disk_size ds = sum_list (map DataBlock_disk_size (data_blocks ds))"

definition physical_span :: "DataSection \<Rightarrow> nat" where
  "physical_span ds = (if data_blocks ds = [] then 0
     else (length (data_blocks ds) - 1) * BLOCK_SIZE + DataBlock_disk_size (last (data_blocks ds)))"

section \<open>Writing\<close>

definition DataHeader_write :: "DataHeader \<Rightarrow> wfile action" where
  "DataHeader_write h = run_all
     [check_offset,
      check_w (\<lambda>f. if woff f mod BLOCK_SIZE \<noteq> 0 then InvalidBlockAlignment else Ok),
      check_w (\<lambda>_. if dh_type h \<noteq> BlockType_Data then InvalidBlockType else Ok),
      check_w (\<lambda>_. if unat (dh_payload_size h) > BLOCK_SIZE - DataHeader_disk_size then InvalidPayloadSize else Ok),
      check_w (\<lambda>f. fits_in_block (woff f) DataHeader_disk_size BLOCK_SIZE),
      write_u8_t (dh_type h) BLOCK_SIZE,
      write_u32_t_le (dh_payload_size h) BLOCK_SIZE,
      write_u32_t_le (dh_crc h) BLOCK_SIZE]"

definition write_bytes_if :: "byte list \<Rightarrow> wfile action" where
  "write_bytes_if bs f = (if bs = [] then (Ok, f) else write_bytes bs BLOCK_SIZE f)"

definition DataPayload_write :: "DataPayload \<Rightarrow> wfile action" where
  "DataPayload_write p = run_all
     [check_w (\<lambda>_. DataPayload_validate p), check_offset,
      check_w (\<lambda>f. fits_in_block (woff f) (payload_disk_size p) BLOCK_SIZE),
      write_u32_t_le (entry_size (pl_key p)) BLOCK_SIZE,
      write_u32_t_le (entry_size (pl_value p)) BLOCK_SIZE,
      write_u8_t (pl_type p) BLOCK_SIZE,
      write_u32_t_le (pl_flags p) BLOCK_SIZE,
      write_u32_t_le (pl_reserved p) BLOCK_SIZE,
      write_u64_t_le (pl_seq p) BLOCK_SIZE,
      write_bytes_if (pl_key p),
      write_bytes_if (pl_value p)]"

text \<open>Status, file, block with its rebuilt header, index.\<close>

definition DataBlock_write ::
    "zlib \<Rightarrow> DataBlock \<Rightarrow> IndexSection \<Rightarrow> wfile \<Rightarrow> StatusCode \<times> wfile \<times> DataBlock \<times> IndexSection" where
  "DataBlock_write z b idx f =
     (case DataBlock_rebuild_header z b of (c, b) \<Rightarrow>
      if \<not> is_ok c then (c, f, b, idx)
      else case run_all [check_offset, align_to_block_boundary BLOCK_SIZE] f of (c, f1) \<Rightarrow>
        if \<not> is_ok c then (c, f1, b, idx)
        else let data_block_offset = woff f1 in
          case run_all (DataHeader_write (db_header b) # map DataPayload_write (db_payloads b)) f1 of (c, f2) \<Rightarrow>
            if \<not> is_ok c then (c, f2, b, idx)
            else case add_index z (of_nat data_block_offset) (pl_key (hd (db_payloads b)))
                   (pl_key (last (db_payloads b))) idx of (c, idx') \<Rightarrow> (c, f2, b, idx'))"

fun rebuild_headers :: "zlib \<Rightarrow> DataBlock list \<Rightarrow> StatusCode \<times> DataBlock list" where
  "rebuild_headers z [] = (Ok, [])"
| "rebuild_headers z (b # bs) =
     (case DataBlock_rebuild_header z b of (c, b') \<Rightarrow>
      if \<not> is_ok c then (c, b' # bs)
      else case rebuild_headers z bs of (c, bs') \<Rightarrow> (c, b' # bs'))"

fun write_blocks ::
    "zlib \<Rightarrow> DataBlock list \<Rightarrow> IndexSection \<Rightarrow> wfile \<Rightarrow> StatusCode \<times> wfile \<times> DataBlock list \<times> IndexSection" where
  "write_blocks z [] idx f = (Ok, f, [], idx)"
| "write_blocks z (b # bs) idx f =
     (case DataBlock_write z b idx f of (c, f', b', idx') \<Rightarrow>
      if \<not> is_ok c then (c, f', b' # bs, idx')
      else case write_blocks z bs idx' f' of (c, f'', bs', idx'') \<Rightarrow> (c, f'', b' # bs', idx''))"

text \<open>Status, file, section, index and data offset; the last two change only on success.\<close>

definition DataSection_write ::
    "zlib \<Rightarrow> DataSection \<Rightarrow> IndexSection \<Rightarrow> nat \<Rightarrow> wfile \<Rightarrow>
       StatusCode \<times> wfile \<times> DataSection \<times> IndexSection \<times> nat" where
  "DataSection_write z ds idx data_offset f =
     (let status = DataSection_validate ds in
      if \<not> is_ok status then (status, f, ds, idx, data_offset)
      else let status = check_writer_offset f in
        if \<not> is_ok status then (status, f, ds, idx, data_offset)
        else if data_blocks ds = [] then (Ok, f, ds, IndexSection_new z, woff f)
        else case rebuild_headers z (data_blocks ds) of (c, bs) \<Rightarrow>
          if \<not> is_ok c then (c, f, ds\<lparr>data_blocks := bs\<rparr>, idx, data_offset)
          else case align_to_block_boundary BLOCK_SIZE f of (c, f1) \<Rightarrow>
            if \<not> is_ok c then (c, f1, ds\<lparr>data_blocks := bs\<rparr>, idx, data_offset)
            else case write_blocks z bs (IndexSection_new z) f1 of (c, f2, bs', staged_index) \<Rightarrow>
              if \<not> is_ok c then (c, f2, ds\<lparr>data_blocks := bs'\<rparr>, idx, data_offset)
              else (Ok, f2, ds\<lparr>data_blocks := bs'\<rparr>, staged_index, woff f1))"

section \<open>Well-formed sections\<close>

lemma data_sizes [simp]: "DataHeader_disk_size = 9" "DataPayload_fixed_size = 25"
  by (simp_all add: DataHeader_disk_size_def DataPayload_fixed_size_def)

definition record_of :: "DataPayload \<Rightarrow> InternalRecord" where
  "record_of p = \<lparr>key_entry = pl_key p, value_entry = pl_value p, rtype = type_of_u8 (pl_type p), seq_num = pl_seq p\<rparr>"

abbreviation ordered :: "DataPayload \<Rightarrow> DataPayload \<Rightarrow> bool" where
  "ordered q p \<equiv> ikey (record_of q) < ikey (record_of p)"

lemma validate_order_iff [simp]: "validate_order q p = Ok \<longleftrightarrow> ordered q p"
  by (auto simp: validate_order_def compare_keys_def Let_def ikey_def record_of_def word_less_def word_uint_eq_iff)

definition storable :: "InternalRecord \<Rightarrow> bool" where
  "storable r \<longleftrightarrow> rtype r \<noteq> Undefined \<and> 25 + length (key_entry r) + length (value_entry r) \<le> 4087"

lemma record_of_payload: "rtype r \<noteq> Undefined \<Longrightarrow> record_of (DataPayload_of r) = r"
  by (simp add: record_of_def DataPayload_of_def type_u8_roundtrip)

lemma payload_of_valid: "DataPayload_validate (DataPayload_of r) = Ok \<longleftrightarrow> storable r"
  by (cases "rtype r") (auto simp: DataPayload_validate_def DataPayload_of_def is_valid_payload_type_def
    payload_disk_size_def storable_def type_to_u8_def BLOCK_SIZE_def)

lemma validate_payloads_gen:
  "validate_payloads prev b ps = Ok \<longleftrightarrow>
     (\<forall>p\<in>set ps. DataPayload_validate p = Ok) \<and> successively ordered ps \<and>
     (case ps of [] \<Rightarrow> True | p # _ \<Rightarrow> (case prev of None \<Rightarrow> True | Some q \<Rightarrow> ordered q p) \<and>
        b + sum_list (map payload_disk_size ps) \<le> 4087)"
proof (induction ps arbitrary: prev b)
  case (Cons p ps)
  show ?case
  proof (cases "DataPayload_validate p = Ok \<and> (case prev of None \<Rightarrow> True | Some q \<Rightarrow> ordered q p) \<and>
      b + payload_disk_size p \<le> 4087")
    case True
    then have "validate_payloads prev b (p # ps) = validate_payloads (Some p) (b + payload_disk_size p) ps"
      by (auto simp: Let_def BLOCK_SIZE_def split: option.split)
    with True Cons [of "Some p" "b + payload_disk_size p"] show ?thesis
      by (cases ps) (simp_all del: validate_payloads.simps add: add.assoc conj_ac)
  qed (auto simp: Let_def BLOCK_SIZE_def split: option.splits)
qed simp

lemma ordered_transp: "transp ordered"
  by (rule transpI) (rule less_trans)

text \<open>The payloads a block may hold.\<close>

definition block_list_ok :: "DataPayload list \<Rightarrow> bool" where
  "block_list_ok ps \<longleftrightarrow> ps \<noteq> [] \<and> (\<forall>p\<in>set ps. DataPayload_validate p = Ok) \<and> sorted_wrt ordered ps \<and>
     sum_list (map payload_disk_size ps) \<le> 4087"

definition data_header :: "zlib \<Rightarrow> DataPayload list \<Rightarrow> DataHeader" where
  "data_header z ps = \<lparr>dh_type = BlockType_Data, dh_payload_size = of_nat (sum_list (map payload_disk_size ps)),
     dh_crc = DataBlock_calculate_crc32 z ps\<rparr>"

lemma DataBlock_validate_iff: "DataBlock_validate b = Ok \<longleftrightarrow> block_list_ok (db_payloads b)"
  by (cases "db_payloads b")
    (auto simp: DataBlock_validate_def validate_payloads_gen block_list_ok_def
      successively_conv_sorted_wrt [OF ordered_transp] simp del: successively.simps validate_payloads.simps)

lemma rebuild_header_cases:
  "DataBlock_rebuild_header z b = (if block_list_ok (db_payloads b) then (Ok, b\<lparr>db_header := data_header z (db_payloads b)\<rparr>)
     else (DataBlock_validate b, b))"
  using DataBlock_validate_iff [of b]
  by (auto simp: DataBlock_rebuild_header_def Let_def block_list_ok_def data_header_def)

definition block_ok :: "zlib \<Rightarrow> DataBlock \<Rightarrow> bool" where
  "block_ok z b \<longleftrightarrow> block_list_ok (db_payloads b) \<and> db_header b = data_header z (db_payloads b)"

definition section_payloads :: "DataSection \<Rightarrow> DataPayload list" where
  "section_payloads ds = concat (map db_payloads (data_blocks ds))"

definition section_records :: "DataSection \<Rightarrow> InternalRecord list" where
  "section_records ds = map record_of (section_payloads ds)"

definition section_ok :: "zlib \<Rightarrow> DataSection \<Rightarrow> bool" where
  "section_ok z ds \<longleftrightarrow> (\<forall>b\<in>set (data_blocks ds). block_ok z b) \<and> sorted_wrt ordered (section_payloads ds)"

lemma section_ok_sorted: "section_ok z ds \<Longrightarrow> sorted_records (section_records ds)"
  by (simp add: section_ok_def section_records_def sorted_wrt_map)

lemma last_payload_eq:
  assumes "\<forall>b\<in>set bs. db_payloads b \<noteq> []"
  shows "last_payload bs = (if bs = [] then None else Some (last (concat (map db_payloads bs))))"
  using assms by (cases bs rule: rev_cases) (auto simp: last_payload_def last_append)

lemma sorted_snoc:
  assumes "sorted_wrt ordered ps" "ps \<noteq> []"
  shows "(\<forall>q\<in>set ps. ordered q p) \<longleftrightarrow> ordered (last ps) p"
  using assms by (cases ps rule: rev_cases) (auto simp: sorted_wrt_append intro: less_trans)

lemma add_to_block:
  assumes "block_ok z b \<or> db_payloads b = []" "DataPayload_validate p = Ok" "can_payload_fit p b"
    and "\<forall>q\<in>set (db_payloads b). ordered q p"
  shows "DataBlock_add_payload z p b =
    (Ok, \<lparr>db_header = data_header z (db_payloads b @ [p]), db_payloads = db_payloads b @ [p]\<rparr>)"
    and "block_list_ok (db_payloads b @ [p])"
proof -
  have lo: "db_payloads b \<noteq> [] \<Longrightarrow> validate_order (last (db_payloads b)) p = Ok" using assms(4) by simp
  show ok: "block_list_ok (db_payloads b @ [p])"
    using assms by (auto simp: block_ok_def block_list_ok_def sorted_wrt_append can_payload_fit_def
      DataBlock_disk_size_def BLOCK_SIZE_def)
  show "DataBlock_add_payload z p b =
      (Ok, \<lparr>db_header = data_header z (db_payloads b @ [p]), db_payloads = db_payloads b @ [p]\<rparr>)"
    using lo assms(2,3) ok by (cases b) (simp add: DataBlock_add_payload_def Let_def rebuild_header_cases)
qed

lemma add_payload_effect:
  assumes ok: "section_ok z ds"
  shows "DataSection_add_payload z r ds = (c, ds') \<Longrightarrow>
    (c = Ok \<longleftrightarrow> storable r \<and> (\<forall>r'\<in>set (section_records ds). ikey r' < ikey r)) \<and>
    (if c = Ok then section_ok z ds' \<and> section_records ds' = section_records ds @ [r] else ds' = ds)"
proof -
  assume eq: "DataSection_add_payload z r ds = (c, ds')"
  let ?p = "DataPayload_of r" and ?bs = "data_blocks ds" and ?ps = "section_payloads ds"
  have ne: "\<forall>b\<in>set ?bs. db_payloads b \<noteq> []" using ok by (auto simp: section_ok_def block_ok_def block_list_ok_def)
  have psne: "?ps \<noteq> []" if "?bs \<noteq> []" using ne that by (cases ?bs) (auto simp: section_payloads_def)
  have srt: "sorted_wrt ordered ?ps" using ok by (simp add: section_ok_def)
  have lp: "last_payload ?bs = (if ?bs = [] then None else Some (last ?ps))"
    using last_payload_eq [OF ne] by (simp add: section_payloads_def)
  show ?thesis
  proof (cases "storable r \<and> (\<forall>q\<in>set ?ps. ordered q ?p)")
    case False
    have "\<not> storable r \<or> (?bs \<noteq> [] \<and> \<not> ordered (last ?ps) ?p)"
      using False sorted_snoc [OF srt psne, of ?p] by (cases "?bs = []") (auto simp: section_payloads_def)
    then have "c \<noteq> Ok \<and> ds' = ds"
      using eq payload_of_valid [of r] lp by (auto simp: DataSection_add_payload_def Let_def split: if_splits)
    moreover have "storable r \<Longrightarrow> \<not> (\<forall>r'\<in>set (section_records ds). ikey r' < ikey r)"
      using False by (auto simp: section_records_def storable_def record_of_payload)
    ultimately show ?thesis by auto
  next
    case True
    then have st: "storable r" and gt: "\<forall>q\<in>set ?ps. ordered q ?p" by auto
    have v: "DataPayload_validate ?p = Ok" using st payload_of_valid by blast
    have rp: "record_of ?p = r" using st by (simp add: storable_def record_of_payload)
    have small: "\<not> (length (key_entry r) > u32_max \<or> length (value_entry r) > u32_max)"
      using st by (simp add: storable_def)
    have lo: "(case last_payload ?bs of None \<Rightarrow> Ok | Some q \<Rightarrow> validate_order q ?p) = Ok"
      using gt psne lp by simp
    have "c = Ok \<and> section_ok z ds' \<and> section_payloads ds' = ?ps @ [?p]"
    proof (cases "?bs \<noteq> [] \<and> can_payload_fit ?p (last ?bs)")
      case fit: True
      then have lastok: "block_ok z (last ?bs)" "?bs = butlast ?bs @ [last ?bs]" using ok by (auto simp: section_ok_def)
      have "set (db_payloads (last ?bs)) \<subseteq> set ?ps" using fit by (force simp: section_payloads_def)
      note ab = add_to_block [of z "last ?bs" ?p, OF disjI1 [OF lastok(1)] v] 
      have "DataBlock_add_payload z ?p (last ?bs) = (Ok, \<lparr>db_header = data_header z (db_payloads (last ?bs) @ [?p]),
          db_payloads = db_payloads (last ?bs) @ [?p]\<rparr>)" "block_list_ok (db_payloads (last ?bs) @ [?p])"
        using ab fit gt \<open>set (db_payloads (last ?bs)) \<subseteq> set ?ps\<close> by blast+
      moreover from this have "c = Ok" "ds' = ds\<lparr>data_blocks := butlast ?bs @ [\<lparr>db_header = data_header z (db_payloads (last ?bs) @ [?p]),
          db_payloads = db_payloads (last ?bs) @ [?p]\<rparr>]\<rparr>"
        using eq small v lo fit by (auto simp: DataSection_add_payload_def Let_def)
      moreover from this have sp: "section_payloads ds' = ?ps @ [?p]"
        using arg_cong [OF lastok(2), of "\<lambda>x. concat (map db_payloads x)"] by (simp add: section_payloads_def)
      ultimately show ?thesis using ok gt srt
        by (auto simp: section_ok_def block_ok_def sorted_wrt_append dest: in_set_butlastD)
    next
      case False
      have "can_payload_fit ?p \<lparr>db_header = DataHeader_new z, db_payloads = []\<rparr>"
        using st by (simp add: can_payload_fit_def DataBlock_disk_size_def payload_disk_size_def DataPayload_of_def
          storable_def BLOCK_SIZE_def)
      from add_to_block [of z "\<lparr>db_header = DataHeader_new z, db_payloads = []\<rparr>" ?p, OF _ v this]
      have a: "DataBlock_add_payload z ?p \<lparr>db_header = DataHeader_new z, db_payloads = []\<rparr> =
          (Ok, \<lparr>db_header = data_header z [?p], db_payloads = [?p]\<rparr>)" "block_list_ok [?p]" by simp_all
      then have "c = Ok" "ds' = ds\<lparr>data_blocks := ?bs @ [\<lparr>db_header = data_header z [?p], db_payloads = [?p]\<rparr>]\<rparr>"
        using eq small v lo False by (auto simp: DataSection_add_payload_def Let_def)
      then show ?thesis using ok gt srt a(2)
        by (auto simp: section_ok_def block_ok_def section_payloads_def sorted_wrt_append)
    qed
    then show ?thesis using st gt rp by (auto simp: section_records_def)
  qed
qed

section \<open>What is written\<close>

definition data_payload_fields :: "DataPayload \<Rightarrow> byte list list" where
  "data_payload_fields p = [enc_u32 (entry_size (pl_key p)), enc_u32 (entry_size (pl_value p)), enc_u8 (pl_type p),
     enc_u32 (pl_flags p), enc_u32 (pl_reserved p), enc_u64 (pl_seq p), pl_key p, pl_value p]"

definition data_header_fields :: "DataHeader \<Rightarrow> byte list list" where
  "data_header_fields h = [enc_u8 (dh_type h), enc_u32 (dh_payload_size h), enc_u32 (dh_crc h)]"

definition payloads_bytes :: "DataPayload list \<Rightarrow> byte list" where
  "payloads_bytes ps = concat (map (\<lambda>p. concat (data_payload_fields p)) ps)"

definition block_bytes :: "zlib \<Rightarrow> DataPayload list \<Rightarrow> byte list" where
  "block_bytes z ps = concat (data_header_fields (data_header z ps)) @ payloads_bytes ps"

lemma data_payload_fields_length: "length (concat (data_payload_fields p)) = payload_disk_size p"
  by (simp add: data_payload_fields_def payload_disk_size_def)

lemma payloads_bytes_length: "length (payloads_bytes ps) = sum_list (map payload_disk_size ps)"
  using data_payload_fields_length by (induction ps) (simp_all add: payloads_bytes_def)

lemma data_header_length: "length (concat (data_header_fields h)) = 9"
  by (simp add: data_header_fields_def)

lemma block_bytes_length:
  "length (block_bytes z ps) = 9 + length (payloads_bytes ps)" "block_list_ok ps \<Longrightarrow> length (block_bytes z ps) \<le> BLOCK_SIZE"
  by (simp_all add: block_bytes_def data_header_length payloads_bytes_length block_list_ok_def BLOCK_SIZE_def)

lemma data_header_size: "block_list_ok ps \<Longrightarrow> unat (dh_payload_size (data_header z ps)) = length (payloads_bytes ps)"
  by (simp add: data_header_def payloads_bytes_length block_list_ok_def unat_of_nat take_bit_nat_eq_self_iff)

lemma payload_sizes:
  "DataPayload_validate p = Ok \<Longrightarrow> unat (entry_size (pl_key p)) = length (pl_key p)"
  "DataPayload_validate p = Ok \<Longrightarrow> unat (entry_size (pl_value p)) = length (pl_value p)"
  "DataPayload_validate p = Ok \<Longrightarrow> length (pl_key p) \<le> BLOCK_SIZE"
  "DataPayload_validate p = Ok \<Longrightarrow> length (pl_value p) \<le> BLOCK_SIZE"
  by (auto simp: DataPayload_validate_def payload_disk_size_def BLOCK_SIZE_def split: if_splits intro!: entry_size_unat)

lemma write_bytes_if_lays:
  assumes "length bs \<le> BLOCK_SIZE"
  shows "lays BLOCK_SIZE (write_bytes_if bs) [bs]"
proof (cases "bs = []")
  case True
  then show ?thesis by (simp add: lays_def write_bytes_if_def pad_before_def)
next
  case False
  then have "write_bytes_if bs = write_bytes bs BLOCK_SIZE" by (intro ext) (simp add: write_bytes_if_def)
  then show ?thesis using sst_field_lays(4) [OF assms] by simp
qed

lemma DataPayload_write_emits:
  assumes "DataPayload_validate p = Ok" "tracked f"
    and "length (wdata f) mod BLOCK_SIZE + length (concat (data_payload_fields p)) \<le> BLOCK_SIZE"
  shows "emits (DataPayload_write p) (concat (data_payload_fields p)) f"
proof (rule emits_lays_in_block [OF _ assms(2,3)])
  let ?ws = "[write_u32_t_le (entry_size (pl_key p)) BLOCK_SIZE, write_u32_t_le (entry_size (pl_value p)) BLOCK_SIZE,
    write_u8_t (pl_type p) BLOCK_SIZE, write_u32_t_le (pl_flags p) BLOCK_SIZE, write_u32_t_le (pl_reserved p) BLOCK_SIZE,
    write_u64_t_le (pl_seq p) BLOCK_SIZE, write_bytes_if (pl_key p), write_bytes_if (pl_value p)]"
  show "lays BLOCK_SIZE (run_all ?ws) (data_payload_fields p)"
    unfolding data_payload_fields_def using payload_sizes(3,4) [OF assms(1)]
    by (intro lays_Cons sst_field_lays write_bytes_if_lays lays_run_all_Nil)
  have "fits_in_block (woff f) (payload_disk_size p) BLOCK_SIZE = Ok"
    using fits_pass [OF assms(2)] assms(3) by (simp add: data_payload_fields_length)
  then show "DataPayload_write p f = run_all ?ws f"
    unfolding DataPayload_write_def using assms by (simp only: run_all_pass check_w_pass check_offset_pass)
qed

lemma DataHeader_write_emits:
  assumes "block_list_ok ps" "tracked f" "length (wdata f) mod BLOCK_SIZE = 0"
  shows "emits (DataHeader_write (data_header z ps)) (concat (data_header_fields (data_header z ps))) f"
proof (rule emits_lays_in_block [OF _ assms(2)])
  let ?h = "data_header z ps"
  let ?ws = "[write_u8_t (dh_type ?h) BLOCK_SIZE, write_u32_t_le (dh_payload_size ?h) BLOCK_SIZE,
    write_u32_t_le (dh_crc ?h) BLOCK_SIZE]"
  show "lays BLOCK_SIZE (run_all ?ws) (data_header_fields ?h)"
    unfolding data_header_fields_def by (intro lays_Cons sst_field_lays lays_run_all_Nil)
  have "fits_in_block (woff f) DataHeader_disk_size BLOCK_SIZE = Ok"
    using fits_pass [OF assms(2), of 9] assms(3) by (simp add: BLOCK_SIZE_def)
  moreover have "(if woff f mod BLOCK_SIZE \<noteq> 0 then InvalidBlockAlignment else Ok) = Ok"
    "(if dh_type ?h \<noteq> BlockType_Data then InvalidBlockType else Ok) = Ok"
    "(if unat (dh_payload_size ?h) > BLOCK_SIZE - DataHeader_disk_size then InvalidPayloadSize else Ok) = Ok"
    using assms data_header_size [OF assms(1), of z]
    by (simp_all add: tracked_def data_header_def block_list_ok_def payloads_bytes_length BLOCK_SIZE_def)
  ultimately show "DataHeader_write ?h f = run_all ?ws f"
    unfolding DataHeader_write_def using assms by (simp only: run_all_pass check_w_pass check_offset_pass)
qed (use assms(3) in \<open>simp add: data_header_length BLOCK_SIZE_def\<close>)

lemma block_body_emits:
  assumes "block_list_ok ps" "tracked f" "length (wdata f) mod BLOCK_SIZE = 0"
  shows "emits (run_all (DataHeader_write (data_header z ps) # map DataPayload_write ps)) (block_bytes z ps) f"
  unfolding block_bytes_def
proof (rule emits_run_all_Cons [OF assms(2) DataHeader_write_emits [OF assms]])
  fix f' assume f': "tracked f'" "wdata f' = wdata f @ concat (data_header_fields (data_header z ps))"
  have "length (wdata f') mod BLOCK_SIZE + length (payloads_bytes ps) \<le> BLOCK_SIZE"
    using in_block_step [of BLOCK_SIZE "length (wdata f)" 9 "length (payloads_bytes ps)"] assms(3) f'(2)
      block_bytes_length [where z = z and ps = ps] assms(1) by (simp add: data_header_length)
  then show "emits (run_all (map DataPayload_write ps)) (payloads_bytes ps) f'"
    unfolding payloads_bytes_def using assms(1) f'(1)
    by (intro emits_items [where B = BLOCK_SIZE] DataPayload_write_emits) (auto simp: block_list_ok_def)
qed

text \<open>The index entry of a block that starts at an offset.\<close>

definition entry_of :: "nat \<Rightarrow> DataPayload list \<Rightarrow> IndexPayload" where
  "entry_of off ps = \<lparr>data_block_offset = of_nat off, first_key = pl_key (hd ps), last_key = pl_key (last ps)\<rparr>"

fun entries_of :: "nat \<Rightarrow> DataPayload list list \<Rightarrow> IndexPayload list" where
  "entries_of off [] = []"
| "entries_of off (ps # bs) = entry_of off ps # entries_of (off + BLOCK_SIZE) bs"

definition idx_of :: "zlib \<Rightarrow> IndexPayload list \<Rightarrow> IndexSection" where
  "idx_of z es = \<lparr>idx_header = index_header z es, idx_payloads = es\<rparr>"

lemma idx_of_new: "IndexSection_new z = idx_of z []"
  by (simp add: IndexSection_new_def idx_of_def index_header_def IndexSection_calculate_crc32_def)

lemma index_ok_snoc:
  "index_ok (es @ [e]) \<longleftrightarrow> index_ok es \<and> IndexPayload_validate e = Ok \<and>
    (es \<noteq> [] \<longrightarrow> follows_entry (Some (last es)) e = Ok) \<and>
    sum_list (map IndexPayload_disk_size es) + IndexPayload_disk_size e \<le> kPayloadCapacity"
  by (auto simp: index_ok_def successively_append_iff)

lemma add_index_cases:
  assumes "index_ok es"
  shows "add_index z off k1 k2 (idx_of z es) =
    (let e = \<lparr>data_block_offset = off, first_key = k1, last_key = k2\<rparr> in
     if index_ok (es @ [e]) then (Ok, idx_of z (es @ [e])) else (fst (add_index z off k1 k2 (idx_of z es)), idx_of z es))"
    and "\<not> index_ok (es @ [\<lparr>data_block_offset = off, first_key = k1, last_key = k2\<rparr>]) \<Longrightarrow>
      fst (add_index z off k1 k2 (idx_of z es)) \<noteq> Ok"
proof -
  define e where "e = \<lparr>data_block_offset = off, first_key = k1, last_key = k2\<rparr>"
  have v: "validate_payload_sequence None 0 es = Inr (sum_list (map IndexPayload_disk_size es))"
    using assms by (simp add: validate_sequence_iff)
  have 1: "add_index z off k1 k2 (idx_of z es) = (Ok, idx_of z (es @ [e]))" if "index_ok (es @ [e])"
  proof -
    have "\<not> sum_list (map IndexPayload_disk_size es) > u64_max - IndexPayload_disk_size e"
      using that by (simp add: index_ok_snoc not_less) linarith
    then show ?thesis
      using that v unfolding index_ok_snoc add_index_def IndexSection_rebuild_header_def
      by (auto simp: idx_of_def Let_def e_def [symmetric] build_header_eq [OF that] follows_entry_def [of None])
  qed
  have 2: "fst (add_index z off k1 k2 (idx_of z es)) \<noteq> Ok \<and> snd (add_index z off k1 k2 (idx_of z es)) = idx_of z es"
    if "\<not> index_ok (es @ [e])"
    using that v assms unfolding index_ok_snoc add_index_def
    by (auto simp: idx_of_def Let_def e_def [symmetric] split: if_splits)
  show "add_index z off k1 k2 (idx_of z es) =
    (let e = \<lparr>data_block_offset = off, first_key = k1, last_key = k2\<rparr> in
     if index_ok (es @ [e]) then (Ok, idx_of z (es @ [e])) else (fst (add_index z off k1 k2 (idx_of z es)), idx_of z es))"
    using 1 2 by (auto simp: Let_def e_def [symmetric] prod_eq_iff)
  show "\<not> index_ok (es @ [\<lparr>data_block_offset = off, first_key = k1, last_key = k2\<rparr>]) \<Longrightarrow>
      fst (add_index z off k1 k2 (idx_of z es)) \<noteq> Ok"
    using 2 by (simp add: e_def)
qed

abbreviation aligned_end :: "wfile \<Rightarrow> nat" where
  "aligned_end f \<equiv> length (wdata f) + length (align_pad (length (wdata f)))"

lemma block_ok_rebuild: "block_ok z b \<Longrightarrow> DataBlock_rebuild_header z b = (Ok, b)"
  by (simp add: block_ok_def rebuild_header_cases)

lemma DataBlock_write_okD:
  assumes "block_ok z b" "tracked f" "index_ok es" "DataBlock_write z b (idx_of z es) f = (Ok, f', b', idx')"
  shows "tracked f'" "wdata f' = wdata f @ align_pad (length (wdata f)) @ block_bytes z (db_payloads b)"
    and "b' = b" "idx' = idx_of z (es @ [entry_of (aligned_end f) (db_payloads b)])"
    and "index_ok (es @ [entry_of (aligned_end f) (db_payloads b)])"
proof -
  let ?ps = "db_payloads b"
  have h: "db_header b = data_header z ?ps" "block_list_ok ?ps" using assms(1) by (simp_all add: block_ok_def)
  obtain c1 f1 where f1: "run_all [check_offset, align_to_block_boundary BLOCK_SIZE] f = (c1, f1)"
    by (cases "run_all [check_offset, align_to_block_boundary BLOCK_SIZE] f")
  have c1: "c1 = Ok" using assms(4) f1
    by (auto simp: DataBlock_write_def block_ok_rebuild [OF assms(1)] split: if_splits simp del: run_all.simps)
  from emits_okD [OF align_run_emits [OF assms(2)] f1 [unfolded c1] assms(2)]
  have w1: "wdata f1 = wdata f @ align_pad (length (wdata f))" "tracked f1" by auto
  obtain c2 f2 where f2: "run_all (DataHeader_write (db_header b) # map DataPayload_write ?ps) f1 = (c2, f2)" by fastforce
  have c2: "c2 = Ok" using assms(4) f1 f2 c1
    by (auto simp: DataBlock_write_def block_ok_rebuild [OF assms(1)] Let_def split: if_splits simp del: run_all.simps)
  have off: "woff f1 = aligned_end f" using w1 by (simp add: tracked_def)
  have r: "f' = f2" "b' = b"
    "add_index z (of_nat (aligned_end f)) (pl_key (hd ?ps)) (pl_key (last ?ps)) (idx_of z es) = (Ok, idx')"
    using assms(4) f1 f2 c1 c2
    by (auto simp: DataBlock_write_def block_ok_rebuild [OF assms(1)] Let_def off split: prod.splits simp del: run_all.simps)
  have "length (wdata f1) mod BLOCK_SIZE = 0" using align_pad_aligned [of "length (wdata f)"] w1(1) by simp
  from emits_okD [OF block_body_emits [where z = z, OF h(2) w1(2) this, folded h(1)] f2 [unfolded c2] w1(2)]
  show "wdata f' = wdata f @ align_pad (length (wdata f)) @ block_bytes z ?ps" "tracked f'" using w1 r by auto
  show "b' = b" by (rule r)
  show ok: "index_ok (es @ [entry_of (aligned_end f) ?ps])"
    using add_index_cases(2) [OF assms(3), of "of_nat (aligned_end f)" "pl_key (hd ?ps)" "pl_key (last ?ps)" z] r(3)
    by (auto simp: entry_of_def)
  show "idx' = idx_of z (es @ [entry_of (aligned_end f) ?ps])"
    using add_index_cases(1) [OF assms(3), of z "of_nat (aligned_end f)" "pl_key (hd ?ps)" "pl_key (last ?ps)"] r(3) ok
    by (simp add: entry_of_def Let_def)
qed

lemma DataBlock_write_succeeds:
  assumes "block_ok z b" "tracked f" "write_faultfree f" "index_ok es"
    and "index_ok (es @ [entry_of (aligned_end f) (db_payloads b)])"
  shows "\<exists>f'. DataBlock_write z b (idx_of z es) f = (Ok, f', b, idx_of z (es @ [entry_of (aligned_end f) (db_payloads b)])) \<and>
    write_faultfree f' \<and> wsenv f' = wsenv f \<and> wclose_ok f' = wclose_ok f"
proof -
  let ?ps = "db_payloads b"
  have h: "db_header b = data_header z ?ps" "block_list_ok ?ps" using assms(1) by (simp_all add: block_ok_def)
  obtain f1 where f1: "run_all [check_offset, align_to_block_boundary BLOCK_SIZE] f = (Ok, f1)"
    "wdata f1 = wdata f @ align_pad (length (wdata f))" "tracked f1" "write_faultfree f1" "wsenv f1 = wsenv f" "wclose_ok f1 = wclose_ok f"
    using emits_faultfreeD [OF align_run_emits [OF assms(2)] assms(2,3)] by metis
  have "length (wdata f1) mod BLOCK_SIZE = 0" using align_pad_aligned [of "length (wdata f)"] f1(2) by simp
  from emits_faultfreeD [OF block_body_emits [where z = z, OF h(2) f1(3) this, folded h(1)] f1(3,4)]
  obtain f2 where f2: "run_all (DataHeader_write (db_header b) # map DataPayload_write ?ps) f1 = (Ok, f2)"
    "write_faultfree f2" "wsenv f2 = wsenv f1" "wclose_ok f2 = wclose_ok f1" by metis
  have off: "woff f1 = aligned_end f" using f1 by (simp add: tracked_def)
  have "add_index z (of_nat (aligned_end f)) (pl_key (hd ?ps)) (pl_key (last ?ps)) (idx_of z es) =
      (Ok, idx_of z (es @ [entry_of (aligned_end f) ?ps]))"
    using add_index_cases(1) [OF assms(4), of z "of_nat (aligned_end f)" "pl_key (hd ?ps)" "pl_key (last ?ps)"] assms(5)
    by (simp add: entry_of_def Let_def)
  then show ?thesis using f1 f2 off
    by (simp add: DataBlock_write_def block_ok_rebuild [OF assms(1)] Let_def del: run_all.simps)
qed

text \<open>After a block that starts at a block boundary the next one starts one block further.\<close>

lemma align_pad_0: "off mod BLOCK_SIZE = 0 \<Longrightarrow> align_pad off = []"
  by (simp add: align_pad_def)

lemma aligned_after_block:
  assumes "s mod BLOCK_SIZE = 0" "0 < n" "n \<le> BLOCK_SIZE"
  shows "s + n + length (align_pad (s + n)) = s + BLOCK_SIZE"
proof (cases "n = BLOCK_SIZE")
  case True
  then show ?thesis using assms(1) by (simp add: align_pad_def)
next
  case False
  then have "(s + n) mod BLOCK_SIZE = n" using assms mod_add_left_eq [of s BLOCK_SIZE n] by simp
  then show ?thesis using assms by (simp add: align_pad_def)
qed

lemma write_blocks_okD:
  assumes "\<forall>b\<in>set bs. block_ok z b" "tracked f" "index_ok es"
    and "write_blocks z bs (idx_of z es) f = (Ok, f', bs', idx')"
  shows "tracked f'" "bs' = bs" "idx' = idx_of z (es @ entries_of (aligned_end f) (map db_payloads bs))"
    and "index_ok (es @ entries_of (aligned_end f) (map db_payloads bs))"
    and "\<exists>rest. wdata f' = wdata f @ rest"
    and "\<forall>i < length bs. bytes_at (wdata f') (aligned_end f + i * BLOCK_SIZE) (block_bytes z (db_payloads (bs ! i)))"
    and "bs \<noteq> [] \<Longrightarrow> length (wdata f') = aligned_end f + (length bs - 1) * BLOCK_SIZE + DataBlock_disk_size (last bs)"
proof -
  have "tracked f' \<and> bs' = bs \<and> idx' = idx_of z (es @ entries_of (aligned_end f) (map db_payloads bs)) \<and>
    index_ok (es @ entries_of (aligned_end f) (map db_payloads bs)) \<and> (\<exists>rest. wdata f' = wdata f @ rest) \<and>
    (\<forall>i < length bs. bytes_at (wdata f') (aligned_end f + i * BLOCK_SIZE) (block_bytes z (db_payloads (bs ! i)))) \<and>
    (bs \<noteq> [] \<longrightarrow> length (wdata f') = aligned_end f + (length bs - 1) * BLOCK_SIZE + DataBlock_disk_size (last bs))"
    using assms
  proof (induction bs arbitrary: f es bs' f' idx')
    case Nil
    then show ?case by simp
  next
    case (Cons b bs)
    obtain c1 f1 b1 idx1 where w1: "DataBlock_write z b (idx_of z es) f = (c1, f1, b1, idx1)" by (metis prod_cases4)
    obtain c2 f2 bs2 idx2 where w2: "write_blocks z bs idx1 f1 = (c2, f2, bs2, idx2)" by (metis prod_cases4)
    have c: "c1 = Ok" "c2 = Ok" "f' = f2" "bs' = b1 # bs2" "idx' = idx2"
      using Cons.prems(4) w1 w2 by (auto split: if_splits)
    have bok: "block_ok z b" using Cons.prems(1) by simp
    note d = DataBlock_write_okD [OF bok Cons.prems(2,3) w1 [unfolded c(1)]]
    let ?s = "aligned_end f" and ?n = "length (block_bytes z (db_payloads b))"
    have s: "?s mod BLOCK_SIZE = 0" by (rule align_pad_aligned)
    have n: "?n = DataBlock_disk_size b" "0 < ?n" "?n \<le> BLOCK_SIZE"
      using block_bytes_length [where z = z and ps = "db_payloads b"] bok
      by (simp_all add: DataBlock_disk_size_def payloads_bytes_length block_ok_def)
    have l1: "length (wdata f1) = ?s + ?n" using d(2) by simp
    then have s1: "aligned_end f1 = ?s + BLOCK_SIZE" using aligned_after_block [OF s n(2,3)] by simp
    have "\<forall>b\<in>set bs. block_ok z b" using Cons.prems(1) by simp
    from Cons.IH [OF this d(1,5) w2 [unfolded c(2) d(4)]]
    have ih: "tracked f2" "bs2 = bs" "idx2 = idx_of z ((es @ [entry_of ?s (db_payloads b)]) @ entries_of (?s + BLOCK_SIZE) (map db_payloads bs))"
      "index_ok ((es @ [entry_of ?s (db_payloads b)]) @ entries_of (?s + BLOCK_SIZE) (map db_payloads bs))"
      "\<exists>rest. wdata f2 = wdata f1 @ rest"
      "\<forall>i < length bs. bytes_at (wdata f2) (?s + BLOCK_SIZE + i * BLOCK_SIZE) (block_bytes z (db_payloads (bs ! i)))"
      "bs \<noteq> [] \<longrightarrow> length (wdata f2) = ?s + BLOCK_SIZE + (length bs - 1) * BLOCK_SIZE + DataBlock_disk_size (last bs)"
      unfolding s1 by blast+
    obtain rest where rest: "wdata f2 = wdata f1 @ rest" using ih(5) by blast
    have at0: "bytes_at (wdata f2) ?s (block_bytes z (db_payloads b))"
      unfolding bytes_at_def rest d(2)
      by (intro exI [of _ "wdata f @ align_pad (length (wdata f))"] exI [of _ rest]) simp
    have at: "bytes_at (wdata f2) (?s + i * BLOCK_SIZE) (block_bytes z (db_payloads ((b # bs) ! i)))"
      if "i < length (b # bs)" for i
      using that at0 ih(6) by (cases i) (simp_all add: add.assoc)
    have len: "length (wdata f2) = ?s + (length (b # bs) - 1) * BLOCK_SIZE + DataBlock_disk_size (last (b # bs))"
    proof (cases "bs = []")
      case True
      then have "f2 = f1" using w2 by simp
      then show ?thesis using True l1 n(1) by simp
    next
      case False
      then show ?thesis using ih(7) by (cases bs) simp_all
    qed
    show ?case using ih(1-4) c d(3) at len rest d(2) by auto
  qed
  then show "tracked f'" "bs' = bs" "idx' = idx_of z (es @ entries_of (aligned_end f) (map db_payloads bs))"
    "index_ok (es @ entries_of (aligned_end f) (map db_payloads bs))" "\<exists>rest. wdata f' = wdata f @ rest"
    "\<forall>i < length bs. bytes_at (wdata f') (aligned_end f + i * BLOCK_SIZE) (block_bytes z (db_payloads (bs ! i)))"
    "bs \<noteq> [] \<Longrightarrow> length (wdata f') = aligned_end f + (length bs - 1) * BLOCK_SIZE + DataBlock_disk_size (last bs)"
    by blast+
qed

lemma write_blocks_succeeds:
  assumes "\<forall>b\<in>set bs. block_ok z b" "tracked f" "write_faultfree f" "index_ok es"
    and "index_ok (es @ entries_of (aligned_end f) (map db_payloads bs))"
  shows "\<exists>f' idx'. write_blocks z bs (idx_of z es) f = (Ok, f', bs, idx') \<and> write_faultfree f' \<and>
    wsenv f' = wsenv f \<and> wclose_ok f' = wclose_ok f"
  using assms
proof (induction bs arbitrary: f es)
  case (Cons b bs)
  let ?e = "entry_of (aligned_end f) (db_payloads b)"
  have bok: "block_ok z b" using Cons.prems(1) by simp
  have "index_ok (es @ [?e])" using Cons.prems(5) by (auto simp: index_ok_def successively_append_iff)
  from DataBlock_write_succeeds [OF bok Cons.prems(2-4) this] obtain f1 where
    w1: "DataBlock_write z b (idx_of z es) f = (Ok, f1, b, idx_of z (es @ [?e]))" "write_faultfree f1" "wsenv f1 = wsenv f" "wclose_ok f1 = wclose_ok f"
    by blast
  note d = DataBlock_write_okD [OF bok Cons.prems(2,4) w1(1)]
  have n: "0 < length (block_bytes z (db_payloads b))" "length (block_bytes z (db_payloads b)) \<le> BLOCK_SIZE"
    using block_bytes_length [where z = z and ps = "db_payloads b"] bok by (simp_all add: block_ok_def)
  have "aligned_end f1 = aligned_end f + BLOCK_SIZE"
    using aligned_after_block [OF align_pad_aligned n, of "length (wdata f)"] d(2) by (simp add: add.assoc)
  then have "index_ok ((es @ [?e]) @ entries_of (aligned_end f1) (map db_payloads bs))" using Cons.prems(5) by simp
  from Cons.IH [OF _ d(1) w1(2) d(5) this] Cons.prems(1) obtain f2 idx2 where
    "write_blocks z bs (idx_of z (es @ [?e])) f1 = (Ok, f2, bs, idx2)" "write_faultfree f2" "wsenv f2 = wsenv f1" "wclose_ok f2 = wclose_ok f1"
    by auto
  then show ?case using w1 by simp
qed simp

lemma rebuild_headers_ok: "\<forall>b\<in>set bs. block_ok z b \<Longrightarrow> rebuild_headers z bs = (Ok, bs)"
  by (induction bs) (simp_all add: block_ok_rebuild)

lemma validate_blocks_sorted:
  "\<forall>b\<in>set bs. block_list_ok (db_payloads b) \<Longrightarrow>
    validate_blocks prev bs = Ok \<longleftrightarrow>
      (case bs of [] \<Rightarrow> True | b # _ \<Rightarrow> (case prev of None \<Rightarrow> True | Some q \<Rightarrow> ordered q (hd (db_payloads b)))) \<and>
      sorted_wrt ordered (concat (map db_payloads bs))"
proof (induction bs arbitrary: prev)
  case (Cons b bs)
  have b: "db_payloads b \<noteq> []" "sorted_wrt ordered (db_payloads b)" using Cons.prems by (auto simp: block_list_ok_def)
  have step: "validate_blocks prev (b # bs) = Ok \<longleftrightarrow>
      (case prev of None \<Rightarrow> True | Some q \<Rightarrow> ordered q (hd (db_payloads b))) \<and> validate_blocks (Some (last (db_payloads b))) bs = Ok"
    using Cons.prems DataBlock_validate_iff [of b] by (auto simp: Let_def split: option.split)
  have ih: "validate_blocks (Some (last (db_payloads b))) bs = Ok \<longleftrightarrow>
      (case bs of [] \<Rightarrow> True | c # _ \<Rightarrow> ordered (last (db_payloads b)) (hd (db_payloads c))) \<and>
      sorted_wrt ordered (concat (map db_payloads bs))"
    using Cons by (simp split: list.split)
  show ?case
  proof (cases bs)
    case Nil
    then show ?thesis using step ih b by simp
  next
    case (Cons c cs)
    have c: "db_payloads c \<noteq> []" using Cons.prems \<open>bs = c # cs\<close> Cons.prems by (auto simp: block_list_ok_def)
    have "(\<forall>q\<in>set (db_payloads b). \<forall>p\<in>set (concat (map db_payloads bs)). ordered q p) \<longleftrightarrow>
        ordered (last (db_payloads b)) (hd (db_payloads c))" if s: "sorted_wrt ordered (concat (map db_payloads bs))"
    proof
      assume "\<forall>q\<in>set (db_payloads b). \<forall>p\<in>set (concat (map db_payloads bs)). ordered q p"
      then show "ordered (last (db_payloads b)) (hd (db_payloads c))" using b(1) c Cons by simp
    next
      assume lt: "ordered (last (db_payloads b)) (hd (db_payloads c))"
      show "\<forall>q\<in>set (db_payloads b). \<forall>p\<in>set (concat (map db_payloads bs)). ordered q p"
      proof (intro ballI)
        fix q p assume qp: "q \<in> set (db_payloads b)" "p \<in> set (concat (map db_payloads bs))"
        have "ikey (record_of q) \<le> ikey (record_of (last (db_payloads b)))"
          using b qp(1) by (cases "db_payloads b" rule: rev_cases) (auto simp: sorted_wrt_append less_imp_le)
        moreover have "concat (map db_payloads bs) = hd (db_payloads c) # tl (db_payloads c) @ concat (map db_payloads cs)"
          using Cons c by (cases "db_payloads c") simp_all
        then have "ikey (record_of (hd (db_payloads c))) \<le> ikey (record_of p)" using s qp(2) by (fastforce intro: less_imp_le)
        ultimately show "ordered q p" using lt by (meson le_less_trans less_le_trans)
      qed
    qed
    then show ?thesis unfolding step ih using b(2) Cons by (auto simp: sorted_wrt_append)
  qed
qed simp

text \<open>The section a write leaves behind: every block at its place, the derived index, and nothing else
  in between.\<close>

lemma section_ok_validate: "section_ok z ds \<Longrightarrow> DataSection_validate ds = Ok"
  using validate_blocks_sorted [of "data_blocks ds" None]
  by (auto simp: DataSection_validate_def section_ok_def section_payloads_def block_ok_def split: list.split)

lemma align_only: "tracked f \<Longrightarrow> align_to_block_boundary BLOCK_SIZE f = run_all [check_offset, align_to_block_boundary BLOCK_SIZE] f"
  using check_offset_pass [of f] by (simp split: prod.split)

lemma check_writer_tracked: "tracked f \<Longrightarrow> check_writer_offset f = Ok"
  by (simp add: check_writer_offset_def current_position_def tracked_def)

definition section_index :: "zlib \<Rightarrow> nat \<Rightarrow> DataSection \<Rightarrow> IndexSection" where
  "section_index z off ds = idx_of z (entries_of off (map db_payloads (data_blocks ds)))"

lemma DataSection_write_eq:
  assumes "section_ok z ds" "tracked f" "data_blocks ds \<noteq> []"
  shows "DataSection_write z ds idx o0 f =
    (case align_to_block_boundary BLOCK_SIZE f of (c, f1) \<Rightarrow>
      if \<not> is_ok c then (c, f1, ds, idx, o0)
      else case write_blocks z (data_blocks ds) (idx_of z []) f1 of (c, f2, bs', staged) \<Rightarrow>
        if \<not> is_ok c then (c, f2, ds\<lparr>data_blocks := bs'\<rparr>, idx, o0)
        else (Ok, f2, ds\<lparr>data_blocks := bs'\<rparr>, staged, woff f1))"
proof -
  have "rebuild_headers z (data_blocks ds) = (Ok, data_blocks ds)"
    using assms(1) by (intro rebuild_headers_ok) (simp add: section_ok_def)
  then show ?thesis
    using section_ok_validate [OF assms(1)] check_writer_tracked [OF assms(2)] assms(3)
    unfolding DataSection_write_def idx_of_new by (simp add: Let_def split: prod.split)
qed

lemma index_ok_Nil: "index_ok []"
  by (simp add: index_ok_def)

lemma DataSection_write_okD:
  assumes "section_ok z ds" "tracked f" "data_blocks ds \<noteq> []"
    and "DataSection_write z ds idx o0 f = (Ok, f', ds', idx', off)"
  shows "tracked f'" "ds' = ds" "idx' = section_index z off ds" "index_ok (idx_payloads idx')" "off = aligned_end f"
    and "\<exists>rest. wdata f' = wdata f @ rest"
    and "\<forall>i < length (data_blocks ds). bytes_at (wdata f') (off + i * BLOCK_SIZE) (block_bytes z (db_payloads (data_blocks ds ! i)))"
    and "length (wdata f') = off + physical_span ds"
proof -
  obtain c1 f1 where f1: "align_to_block_boundary BLOCK_SIZE f = (c1, f1)" by (cases "align_to_block_boundary BLOCK_SIZE f")
  have c1: "c1 = Ok" using assms(4) f1 by (auto simp: DataSection_write_eq [OF assms(1-3)] split: if_splits)
  from emits_okD [OF align_emits [OF assms(2)] f1 [unfolded c1] assms(2)]
  have w1: "wdata f1 = wdata f @ align_pad (length (wdata f))" "tracked f1" by auto
  obtain c2 f2 bs2 idx2 where w2: "write_blocks z (data_blocks ds) (idx_of z []) f1 = (c2, f2, bs2, idx2)" by (metis prod_cases4)
  have r: "c2 = Ok" "f' = f2" "ds' = ds\<lparr>data_blocks := bs2\<rparr>" "idx' = idx2" "off = woff f1"
    using assms(4) f1 w2 c1 by (auto simp: DataSection_write_eq [OF assms(1-3)] split: if_splits)
  have bok: "\<forall>b\<in>set (data_blocks ds). block_ok z b" using assms(1) by (simp add: section_ok_def)
  have off: "off = aligned_end f" using r(5) w1 by (simp add: tracked_def)
  have e1: "aligned_end f1 = off" using w1 off align_pad_aligned [of "length (wdata f)"] by (simp add: align_pad_0)
  note d = write_blocks_okD [OF bok w1(2) index_ok_Nil w2 [unfolded r(1)], unfolded e1]
  show "tracked f'" "ds' = ds" "idx' = section_index z off ds" "off = aligned_end f" using d(1-3) r off by (simp_all add: section_index_def)
  show "index_ok (idx_payloads idx')" using d(3,4) r by (simp add: idx_of_def)
  show "\<exists>rest. wdata f' = wdata f @ rest" using d(5) r w1 by auto
  show "\<forall>i < length (data_blocks ds). bytes_at (wdata f') (off + i * BLOCK_SIZE) (block_bytes z (db_payloads (data_blocks ds ! i)))"
    using d(6) r by simp
  show "length (wdata f') = off + physical_span ds" using d(7) assms(3) r by (simp add: physical_span_def)
qed

lemma DataSection_write_succeeds:
  assumes "section_ok z ds" "tracked f" "write_faultfree f" "data_blocks ds \<noteq> []"
    and "index_ok (idx_payloads (section_index z (aligned_end f) ds))"
  shows "\<exists>f'. DataSection_write z ds idx o0 f = (Ok, f', ds, section_index z (aligned_end f) ds, aligned_end f) \<and>
    write_faultfree f' \<and> wsenv f' = wsenv f \<and> wclose_ok f' = wclose_ok f"
proof -
  obtain f1 where f1: "align_to_block_boundary BLOCK_SIZE f = (Ok, f1)" "wdata f1 = wdata f @ align_pad (length (wdata f))"
    "tracked f1" "write_faultfree f1" "wsenv f1 = wsenv f" "wclose_ok f1 = wclose_ok f"
    using emits_faultfreeD [OF align_emits [OF assms(2)] assms(2,3)] by metis
  have bok: "\<forall>b\<in>set (data_blocks ds). block_ok z b" using assms(1) by (simp add: section_ok_def)
  have e1: "aligned_end f1 = aligned_end f" using f1(2) align_pad_aligned [of "length (wdata f)"] by (simp add: align_pad_0)
  have "index_ok ([] @ entries_of (aligned_end f1) (map db_payloads (data_blocks ds)))"
    using assms(5) e1 by (simp add: section_index_def idx_of_def)
  from write_blocks_succeeds [OF bok f1(3,4) index_ok_Nil this] obtain f2 idx2 where
    w2: "write_blocks z (data_blocks ds) (idx_of z []) f1 = (Ok, f2, data_blocks ds, idx2)" "write_faultfree f2"
    "wsenv f2 = wsenv f1" "wclose_ok f2 = wclose_ok f1" by blast
  have eq: "DataSection_write z ds idx o0 f = (Ok, f2, ds, idx2, woff f1)"
    using f1(1) w2(1) by (simp add: DataSection_write_eq [OF assms(1,2,4)])
  from DataSection_write_okD(3,5) [OF assms(1,2,4) eq] eq w2 f1 show ?thesis by auto
qed

section \<open>Properties\<close>

text \<open>C26 (building a data section). Adding a record to a well-formed section succeeds exactly when the
  record has a valid type, fits into a block and comes after every stored record in internal-key order.
  Success appends exactly that record and keeps the section well-formed: blocks within 4096 bytes,
  matching headers, sorted across blocks. A rejection changes nothing.\<close>

theorem data_section_add_correct:
  assumes "section_ok z ds" "DataSection_add_payload z r ds = (c, ds')"
  shows "section_ok z ds' \<and> sorted_records (section_records ds') \<and>
    (c = Ok \<longleftrightarrow> storable r \<and> (\<forall>r'\<in>set (section_records ds). ikey r' < ikey r)) \<and>
    (if c = Ok then section_records ds' = section_records ds @ [r] else ds' = ds)"
proof -
  note e = add_payload_effect [OF assms]
  then have ok: "section_ok z ds'" using assms(1) by (auto split: if_splits)
  from section_ok_sorted [OF this] show ?thesis using e ok by (intro conjI) (simp_all split: if_splits)
qed

lemma entries_of_length: "length (entries_of off bs) = length bs"
  by (induction bs arbitrary: off) simp_all

lemma section_size_bound:
  assumes "section_ok z ds"
  shows "sum_list (map payload_disk_size (section_payloads ds)) \<le> 4087 * length (data_blocks ds)"
proof -
  have "\<forall>b\<in>set bs. block_list_ok (db_payloads b) \<Longrightarrow>
      sum_list (map payload_disk_size (concat (map db_payloads bs))) \<le> 4087 * length bs" for bs
    by (induction bs) (auto simp: block_list_ok_def)
  from this [of "data_blocks ds"] show ?thesis using assms by (auto simp: section_ok_def block_ok_def section_payloads_def)
qed

definition stored_size :: "InternalRecord \<Rightarrow> nat" where
  "stored_size r = 25 + length (key_entry r) + length (value_entry r)"

lemma stored_size_record [simp]: "stored_size (record_of p) = payload_disk_size p"
  by (simp add: stored_size_def record_of_def payload_disk_size_def)

text \<open>C27 (tables are limited to about one megabyte). The index must fit into one block, so a section
  whose records need more than 255 * 4087 = 1042185 bytes is never written: the write fails even on a
  device without errors, and the index and the data offset stay as they were.\<close>

theorem data_section_size_limit:
  assumes "section_ok z ds" "tracked f" "255 * 4087 < sum_list (map stored_size (section_records ds))"
  shows "\<exists>code f' ds'. DataSection_write z ds idx o0 f = (code, f', ds', idx, o0) \<and> code \<noteq> Ok"
proof -
  have "255 < length (data_blocks ds)"
    using section_size_bound [OF assms(1)] assms(3) by (simp add: section_records_def comp_def)
  then have ne: "data_blocks ds \<noteq> []" and many: "255 < length (data_blocks ds)" by auto
  obtain code f' ds' idx' off where w: "DataSection_write z ds idx o0 f = (code, f', ds', idx', off)" by (metis prod_cases5)
  have "code \<noteq> Ok"
  proof
    assume "code = Ok"
    from DataSection_write_okD(3,4) [OF assms(1,2) ne w [unfolded this]] show False
      using index_ok_length many by (fastforce simp: section_index_def idx_of_def entries_of_length)
  qed
  moreover from this have "idx' = idx \<and> off = o0" using w
    by (auto simp: DataSection_write_eq [OF assms(1,2) ne] split: prod.splits if_splits)
  ultimately show ?thesis using w by blast
qed

section \<open>Examples\<close>

definition ex_row :: "u64 \<Rightarrow> byte list \<Rightarrow> InternalRecord" where
  "ex_row s v = \<lparr>key_entry = [7], value_entry = v, rtype = Put, seq_num = s\<rparr>"

theorem data_section_add_correct_witness:
  "section_ok ex_zlib \<lparr>data_blocks = []\<rparr> \<and>
   (case DataSection_add_payload ex_zlib (ex_row 4 [1, 2]) \<lparr>data_blocks = []\<rparr> of (c, ds') \<Rightarrow>
      c = Ok \<and> section_records ds' = [ex_row 4 [1, 2]])"
proof -
  have s: "section_ok ex_zlib \<lparr>data_blocks = []\<rparr>" by (simp add: section_ok_def section_payloads_def)
  have "storable (ex_row 4 [1, 2])" by (simp add: storable_def ex_row_def)
  then show ?thesis
    using data_section_add_correct [OF s prod.collapse [symmetric], of "ex_row 4 [1, 2]"] s
    by (auto simp: section_records_def section_payloads_def split: prod.splits)
qed

definition ex_big_block :: "zlib \<Rightarrow> nat \<Rightarrow> DataBlock" where
  "ex_big_block z i = (let ps = [DataPayload_of (ex_row (of_nat (1000 - i)) (replicate 4061 0))] in
     \<lparr>db_header = data_header z ps, db_payloads = ps\<rparr>)"

definition ex_big_section :: "zlib \<Rightarrow> DataSection" where
  "ex_big_section z = \<lparr>data_blocks = map (ex_big_block z) [0..<256]\<rparr>"

lemma ex_big_payloads:
  "section_payloads (ex_big_section z) = map (\<lambda>i. DataPayload_of (ex_row (of_nat (1000 - i)) (replicate 4061 0))) [0..<256]"
proof -
  have "concat (map (\<lambda>i. [f i]) xs) = map f xs" for f :: "nat \<Rightarrow> DataPayload" and xs by (induction xs) simp_all
  then show ?thesis by (simp add: section_payloads_def ex_big_section_def ex_big_block_def comp_def Let_def del: upt_rec upt_Suc upt_conv_Nil)
qed

lemma ex_big_ok: "section_ok z (ex_big_section z)"
proof -
  have "block_ok z (ex_big_block z i)" for i
    using payload_of_valid [of "ex_row (of_nat (1000 - i)) (replicate 4061 0)"]
    by (simp add: block_ok_def ex_big_block_def block_list_ok_def storable_def ex_row_def payload_disk_size_def
      DataPayload_of_def Let_def)
  moreover have "sorted_wrt ordered (section_payloads (ex_big_section z))"
  proof -
    have u: "uint (of_nat n :: u64) = int n" if "n \<le> 1000" for n
      using that by (simp add: unsigned_of_nat take_bit_nat_eq_self_iff)
    have w: "sorted_wrt (\<lambda>i j. i < j \<and> j < 256) [0..<256 :: nat]" by (simp add: sorted_wrt_iff_nth_less)
    have "ordered (DataPayload_of (ex_row (of_nat (1000 - i)) v)) (DataPayload_of (ex_row (of_nat (1000 - j)) v))"
      if "i < j \<and> j < 256" for i j v
      unfolding ikey_def using that by (simp add: record_of_payload ex_row_def u of_nat_diff del: of_nat_diff) linarith
    then show ?thesis unfolding ex_big_payloads sorted_wrt_map by (rule sorted_wrt_mono_rel [OF _ w])
  qed
  ultimately show ?thesis by (simp add: section_ok_def ex_big_section_def)
qed

theorem data_section_size_limit_witness:
  "\<exists>code f' ds'. DataSection_write ex_zlib (ex_big_section ex_zlib) (IndexSection_new ex_zlib) 7 ex_table_file =
    (code, f', ds', IndexSection_new ex_zlib, 7) \<and> code \<noteq> Ok"
proof (rule data_section_size_limit [OF ex_big_ok ex_table_file_ok(1)])
  have "map stored_size (section_records (ex_big_section ex_zlib)) = map (\<lambda>i. 4087) [0..<256]"
    unfolding section_records_def ex_big_payloads map_map comp_def stored_size_record
    by (rule map_cong [OF refl]) (simp add: payload_disk_size_def DataPayload_of_def ex_row_def)
  also have "\<dots> = replicate 256 4087" by (simp only: map_replicate_const length_upt diff_zero)
  finally have "sum_list (map stored_size (section_records (ex_big_section ex_zlib))) = 256 * 4087"
    by (simp only: sum_list_replicate of_nat_id)
  then show "255 * 4087 < sum_list (map stored_size (section_records (ex_big_section ex_zlib)))"
    by (simp only:)
qed

end
