(* ===== verification/FileHeader.thy ===== *)
theory FileHeader
  imports DataSection
begin

text \<open>
  The fixed header of a table (\<^verbatim>\<open>core/sstable_entities/file_header_section.cpp\<close>): written at a block
  boundary and read back, with its checksum verified before its other fields are trusted.
\<close>

section \<open>Model\<close>

record FileHeaderSection =
  fh_magic :: u32
  fh_version :: u32
  fh_flags :: u32
  fh_block_size :: u32
  fh_table_id :: u32
  fh_crc :: u32

definition FileHeader_disk_size :: nat where "FileHeader_disk_size = 24"

definition FileHeader_calculate_crc32 :: "zlib \<Rightarrow> FileHeaderSection \<Rightarrow> u32" where
  "FileHeader_calculate_crc32 z h =
     (let crc = crc32_add_u32 z (fh_magic h) (crc_init z);
          crc = crc32_add_u32 z (fh_version h) crc;
          crc = crc32_add_u32 z (fh_flags h) crc;
          crc = crc32_add_u32 z (fh_block_size h) crc
      in crc32_add_u32 z (fh_table_id h) crc)"

definition FileHeader_of :: "zlib \<Rightarrow> u32 \<Rightarrow> FileHeaderSection" where
  "FileHeader_of z tid =
     (let h = \<lparr>fh_magic = FILE_HEADER_MAGIC, fh_version = LATEST_SSTABLE_VERSION, fh_flags = 0,
               fh_block_size = of_nat BLOCK_SIZE, fh_table_id = tid, fh_crc = 0\<rparr>
      in h\<lparr>fh_crc := FileHeader_calculate_crc32 z h\<rparr>)"

definition FileHeader_new :: "zlib \<Rightarrow> FileHeaderSection" where
  "FileHeader_new z = FileHeader_of z 0"

definition validate_header_fields :: "FileHeaderSection \<Rightarrow> StatusCode" where
  "validate_header_fields h =
     (if fh_magic h \<noteq> FILE_HEADER_MAGIC then BadMagic
      else if fh_version h = 0 \<or> fh_version h > LATEST_SSTABLE_VERSION then UnsupportedVersion
      else if fh_block_size h \<noteq> of_nat BLOCK_SIZE then UnsupportedBlockSize
      else Ok)"

text \<open>Returns the status, the file and the section, whose checksum is refreshed before any byte is
  written.\<close>

definition FileHeader_write ::
    "zlib \<Rightarrow> FileHeaderSection \<Rightarrow> wfile \<Rightarrow> StatusCode \<times> wfile \<times> FileHeaderSection" where
  "FileHeader_write z h f =
     (let status = validate_header_fields h in
      if \<not> is_ok status then (status, f, h)
      else let h = h\<lparr>fh_crc := FileHeader_calculate_crc32 z h\<rparr> in
        case align_to_block_boundary BLOCK_SIZE f of (c, f1) \<Rightarrow>
          if \<not> is_ok c then (c, f1, h)
          else case run_all (map (\<lambda>v. write_u32_t_le v BLOCK_SIZE)
              [fh_magic h, fh_version h, fh_flags h, fh_block_size h, fh_table_id h, fh_crc h]) f1 of (c, f2) \<Rightarrow>
            if \<not> is_ok c then (c, f2, h)
            else case current_position f2 of
              Inl e \<Rightarrow> (e, f2, h)
            | Inr position \<Rightarrow>
                (if position \<noteq> woff f2 \<or> woff f2 - woff f1 \<noteq> FileHeader_disk_size then InvariantViolation else Ok, f2, h))"

definition act_r :: "'s action \<Rightarrow> ('s, unit) reader" where
  "act_r a s = (case a s of (c, s') \<Rightarrow> if is_ok c then (Inr (), s') else (Inl c, s'))"

definition check_r :: "('s \<Rightarrow> StatusCode) \<Rightarrow> ('s, unit) reader" where
  "check_r c s = (if is_ok (c s) then (Inr (), s) else (Inl (c s), s))"

definition offset_r :: "(rfile, nat) reader" where
  "offset_r f = (Inr (roff f), f)"

definition FileHeader_load :: "zlib \<Rightarrow> (rfile, FileHeaderSection) reader" where
  "FileHeader_load z f = restoring (roff f) (
     bind_r (act_r (align_to_block_boundary_r BLOCK_SIZE)) (\<lambda>_.
     bind_r offset_r (\<lambda>header_offset.
     bind_r (read_u32_t_le BLOCK_SIZE) (\<lambda>magic.
     bind_r (read_u32_t_le BLOCK_SIZE) (\<lambda>version.
     bind_r (read_u32_t_le BLOCK_SIZE) (\<lambda>flags.
     bind_r (read_u32_t_le BLOCK_SIZE) (\<lambda>block_size.
     bind_r (read_u32_t_le BLOCK_SIZE) (\<lambda>table_id.
     bind_r (read_u32_t_le BLOCK_SIZE) (\<lambda>crc.
     let h = \<lparr>fh_magic = magic, fh_version = version, fh_flags = flags, fh_block_size = block_size,
              fh_table_id = table_id, fh_crc = crc\<rparr> in
     bind_r (check_r (\<lambda>g. if roff g - header_offset \<noteq> FileHeader_disk_size then InvariantViolation else Ok)) (\<lambda>_.
     bind_r (check_r (\<lambda>_. if fh_magic h \<noteq> FILE_HEADER_MAGIC then BadMagic else Ok)) (\<lambda>_.
     bind_r (check_r (\<lambda>_. if FileHeader_calculate_crc32 z h \<noteq> fh_crc h then ChecksumMismatch else Ok)) (\<lambda>_.
     bind_r (check_r (\<lambda>_. validate_header_fields h)) (\<lambda>_. return_r h)))))))))))) f)"

section \<open>Steps of a reader\<close>

lemma bind_check_pass: "c s = Ok \<Longrightarrow> bind_r (check_r c) k s = k () s"
  by (simp add: check_r_def)

lemma bind_act_pass: "a s = (Ok, s') \<Longrightarrow> bind_r (act_r a) k s = k () s'"
  by (simp add: act_r_def)

lemma bind_return: "bind_r (return_r v) k = k v"
  by (simp add: fun_eq_iff bind_r_def return_r_def)

lemma bind_offset: "bind_r offset_r k f = k (roff f) f"
  by (simp add: offset_r_def)

lemma reads_check: "(\<And>f. c f = Ok) \<Longrightarrow> reads B (k ()) cs v \<Longrightarrow> reads B (bind_r (check_r c) k) cs v"
  unfolding reads_def yields_def by (simp add: bind_check_pass)

lemma yields_run: "yields m (Inr v) off f \<Longrightarrow> \<exists>f'. m f = (Inr v, f') \<and> read_quiet (rdata f) f' \<and> roff f' = off"
  by (simp add: yields_def)

section \<open>What is written and read\<close>

definition file_header_fields :: "FileHeaderSection \<Rightarrow> byte list list" where
  "file_header_fields h = map enc_u32 [fh_magic h, fh_version h, fh_flags h, fh_block_size h, fh_table_id h, fh_crc h]"

definition header_ok :: "zlib \<Rightarrow> FileHeaderSection \<Rightarrow> bool" where
  "header_ok z h \<longleftrightarrow> validate_header_fields h = Ok \<and> fh_crc h = FileHeader_calculate_crc32 z h"

lemma file_header_fields_length: "length (concat (file_header_fields h)) = 24"
  by (simp add: file_header_fields_def)

lemma header_crc_idem: "FileHeader_calculate_crc32 z (h\<lparr>fh_crc := c\<rparr>) = FileHeader_calculate_crc32 z h"
  by (simp add: FileHeader_calculate_crc32_def)

lemma header_sealed: "validate_header_fields h = Ok \<Longrightarrow> header_ok z (h\<lparr>fh_crc := FileHeader_calculate_crc32 z h\<rparr>)"
  by (simp add: header_ok_def header_crc_idem) (auto simp: validate_header_fields_def split: if_splits)

lemma FileHeader_of_ok: "header_ok z (FileHeader_of z i)"
  unfolding FileHeader_of_def Let_def
  by (rule header_sealed) (simp add: validate_header_fields_def LATEST_SSTABLE_VERSION_def)

lemma header_fields_lays:
  "lays BLOCK_SIZE (run_all (map (\<lambda>v. write_u32_t_le v BLOCK_SIZE) vs)) (map enc_u32 vs)"
  using lays_map [of vs BLOCK_SIZE "\<lambda>v. write_u32_t_le v BLOCK_SIZE" "\<lambda>v. [enc_u32 v]"] sst_field_lays(2)
  by simp

lemma header_body_emits:
  assumes "tracked f" "length (wdata f) mod BLOCK_SIZE = 0"
  shows "emits (run_all (map (\<lambda>v. write_u32_t_le v BLOCK_SIZE)
      [fh_magic h, fh_version h, fh_flags h, fh_block_size h, fh_table_id h, fh_crc h]))
    (concat (file_header_fields h)) f"
  unfolding file_header_fields_def
  by (rule emits_lays_in_block [OF header_fields_lays assms(1)]) (use assms(2) in \<open>simp_all add: BLOCK_SIZE_def\<close>)

lemma FileHeader_write_okD:
  assumes "tracked f" "FileHeader_write z h f = (Ok, f', h')"
  shows "header_ok z h'" "h' = h\<lparr>fh_crc := FileHeader_calculate_crc32 z h\<rparr>" "tracked f'"
    and "wdata f' = wdata f @ align_pad (length (wdata f)) @ concat (file_header_fields h')"
proof -
  define k where "k = h\<lparr>fh_crc := FileHeader_calculate_crc32 z h\<rparr>"
  have v: "validate_header_fields h = Ok" using assms(2) by (auto simp: FileHeader_write_def Let_def split: if_splits)
  define ws where "ws = map (\<lambda>v. write_u32_t_le v BLOCK_SIZE)
    [fh_magic k, fh_version k, fh_flags k, fh_block_size k, fh_table_id k, fh_crc k]"
  obtain c1 f1 where f1: "align_to_block_boundary BLOCK_SIZE f = (c1, f1)" by fastforce
  obtain c2 f2 where f2: "run_all ws f1 = (c2, f2)" by fastforce
  have r: "c1 = Ok" "c2 = Ok" "f' = f2" "h' = k"
    using assms(2) v f1 f2 unfolding FileHeader_write_def Let_def k_def [symmetric] ws_def [symmetric]
    by (auto split: if_splits sum.splits)
  from emits_okD [OF align_emits [OF assms(1)] f1 [unfolded r(1)] assms(1)]
  have w1: "wdata f1 = wdata f @ align_pad (length (wdata f))" "tracked f1" by auto
  have "length (wdata f1) mod BLOCK_SIZE = 0" using align_pad_aligned [of "length (wdata f)"] w1(1) by simp
  from emits_okD [OF header_body_emits [OF w1(2) this, of k, folded ws_def] f2 [unfolded r(2)] w1(2)]
  show "wdata f' = wdata f @ align_pad (length (wdata f)) @ concat (file_header_fields h')" "tracked f'"
    using w1 r by auto
  show "h' = h\<lparr>fh_crc := FileHeader_calculate_crc32 z h\<rparr>" "header_ok z h'" using r(4) header_sealed [OF v] by (simp_all add: k_def)
qed

lemma FileHeader_write_succeeds:
  assumes "tracked f" "write_faultfree f" "validate_header_fields h = Ok"
  shows "\<exists>f'. FileHeader_write z h f = (Ok, f', h\<lparr>fh_crc := FileHeader_calculate_crc32 z h\<rparr>) \<and>
    write_faultfree f' \<and> wsenv f' = wsenv f \<and> wclose_ok f' = wclose_ok f"
proof -
  define k where "k = h\<lparr>fh_crc := FileHeader_calculate_crc32 z h\<rparr>"
  define ws where "ws = map (\<lambda>v. write_u32_t_le v BLOCK_SIZE)
    [fh_magic k, fh_version k, fh_flags k, fh_block_size k, fh_table_id k, fh_crc k]"
  obtain f1 where f1: "align_to_block_boundary BLOCK_SIZE f = (Ok, f1)"
    "wdata f1 = wdata f @ align_pad (length (wdata f))" "tracked f1" "write_faultfree f1" "wsenv f1 = wsenv f" "wclose_ok f1 = wclose_ok f"
    using emits_faultfreeD [OF align_emits [OF assms(1)] assms(1,2)] by metis
  have "length (wdata f1) mod BLOCK_SIZE = 0" using align_pad_aligned [of "length (wdata f)"] f1(2) by simp
  from emits_faultfreeD [OF header_body_emits [OF f1(3) this, of k, folded ws_def] f1(3,4)]
  obtain f2 where f2: "run_all ws f1 = (Ok, f2)" "wdata f2 = wdata f1 @ concat (file_header_fields k)" "tracked f2"
    "write_faultfree f2" "wsenv f2 = wsenv f1" "wclose_ok f2 = wclose_ok f1" by metis
  have "current_position f2 = Inr (woff f2)" "woff f2 - woff f1 = 24"
    using f1(3) f2(2,3) by (simp_all add: current_position_def tracked_def file_header_fields_length)
  then show ?thesis using f1 f2 assms(3)
    unfolding FileHeader_write_def Let_def k_def [symmetric] ws_def [symmetric] by (simp add: FileHeader_disk_size_def)
qed

lemma FileHeader_load_at:
  assumes "header_ok z h" "read_quiet D f" "roff f mod BLOCK_SIZE = 0" "bytes_at D (roff f) (concat (file_header_fields h))"
  shows "\<exists>f'. FileHeader_load z f = (Inr h, f') \<and> read_quiet D f' \<and> roff f' = roff f + 24"
proof -
  have al: "align_to_block_boundary_r BLOCK_SIZE f = (Ok, f)" using assms(3) by (simp add: align_to_block_boundary_r_def)
  have lay: "lay BLOCK_SIZE (roff f) (file_header_fields h) = concat (file_header_fields h)"
    by (rule lay_in_block) (use assms(3) in \<open>simp add: file_header_fields_length BLOCK_SIZE_def\<close>)
  define six where "six = bind_r (read_u32_t_le BLOCK_SIZE) (\<lambda>magic. bind_r (read_u32_t_le BLOCK_SIZE) (\<lambda>version.
     bind_r (read_u32_t_le BLOCK_SIZE) (\<lambda>flags. bind_r (read_u32_t_le BLOCK_SIZE) (\<lambda>block_size.
     bind_r (read_u32_t_le BLOCK_SIZE) (\<lambda>table_id. bind_r (read_u32_t_le BLOCK_SIZE) (\<lambda>crc.
     return_r \<lparr>fh_magic = magic, fh_version = version, fh_flags = flags, fh_block_size = block_size,
              fh_table_id = table_id, fh_crc = crc\<rparr>))))))"
  have "reads BLOCK_SIZE six ([enc_u32 (fh_magic h)] @ [enc_u32 (fh_version h)] @ [enc_u32 (fh_flags h)] @
      [enc_u32 (fh_block_size h)] @ [enc_u32 (fh_table_id h)] @ [enc_u32 (fh_crc h)] @ []) h"
    unfolding six_def by (rule reads_bind [OF sst_field_reads(2)])+ (cases h; simp add: reads_return)
  then have "reads BLOCK_SIZE six (file_header_fields h) h" by (simp add: file_header_fields_def)
  from readsD [OF this assms(2)] lay assms(4)
  obtain f' where f': "six f = (Inr h, f')" "read_quiet D f'" "roff f' = roff f + 24"
    using quiet_data [OF assms(2)] by (auto simp: yields_def file_header_fields_length)
  have eq: "FileHeader_load z f = restoring (roff f) (bind_r six (\<lambda>h.
     bind_r (check_r (\<lambda>g. if roff g - roff f \<noteq> FileHeader_disk_size then InvariantViolation else Ok)) (\<lambda>_.
     bind_r (check_r (\<lambda>_. if fh_magic h \<noteq> FILE_HEADER_MAGIC then BadMagic else Ok)) (\<lambda>_.
     bind_r (check_r (\<lambda>_. if FileHeader_calculate_crc32 z h \<noteq> fh_crc h then ChecksumMismatch else Ok)) (\<lambda>_.
     bind_r (check_r (\<lambda>_. validate_header_fields h)) (\<lambda>_. return_r h))))) f)"
    unfolding FileHeader_load_def Let_def six_def bind_r_assoc
    by (simp only: bind_act_pass [where a = "align_to_block_boundary_r BLOCK_SIZE" and s = f, OF al] bind_offset bind_return)
  have "fh_magic h = FILE_HEADER_MAGIC" using assms(1) by (auto simp: header_ok_def validate_header_fields_def split: if_splits)
  then have "FileHeader_load z f = (Inr h, f')"
    unfolding eq bind_r_Inr [where m = six and s = f, OF f'(1)] using assms(1) f'(3)
    by (simp add: bind_check_pass header_ok_def FileHeader_disk_size_def return_r_def restoring_def)
  then show ?thesis using f' by blast
qed

end
