(* ===== verification/BloomSection.thy ===== *)
theory BloomSection
  imports FileHeader
begin

text \<open>
  The Bloom filter of a table (\<^verbatim>\<open>core/sstable_entities/bloom_section.cpp\<close>). A filter rebuilt from a
  data section never excludes a key of the section, a filter in an inconsistent state excludes nothing,
  and a written filter is loaded back.
\<close>

section \<open>State\<close>

definition BLOOM_HASH_COUNT :: u32 where "BLOOM_HASH_COUNT = 2"
definition BLOOM_MASK_BIT_SIZE :: nat where "BLOOM_MASK_BIT_SIZE = 128"

record BloomHeader =
  bh_type :: u8
  bh_payload_size :: u32
  bh_crc :: u32

record BloomPayload =
  bloom_bits :: u64
  hash_count :: u32
  key_count :: u32
  bloom_mask :: "u8 list"

record BloomSection =
  bl_header :: BloomHeader
  bl_payload :: BloomPayload

definition BloomHeader_disk_size :: nat where "BloomHeader_disk_size = 9"
definition BloomPayload_fixed_size :: nat where "BloomPayload_fixed_size = 16"
definition BloomPayload_disk_size :: nat where "BloomPayload_disk_size = BloomPayload_fixed_size + BLOOM_MASK_BIT_SIZE"
definition BloomSection_disk_size :: nat where "BloomSection_disk_size = BloomHeader_disk_size + BloomPayload_disk_size"

section \<open>Hashing\<close>

definition fnv1a64 :: "byte list \<Rightarrow> u64 \<Rightarrow> u64" where
  "fnv1a64 bytes seed = fold (\<lambda>b hash. (hash XOR ucast b) * 1099511628211) bytes (14695981039346656037 XOR seed)"

definition bloom_hash_i :: "byte list \<Rightarrow> u32 \<Rightarrow> u64" where
  "bloom_hash_i key index =
     fnv1a64 key 0x9E3779B97F4A7C15 + ucast index * fnv1a64 key 0xC2B2AE3D27D4EB4F"

definition bloom_slot :: "BloomPayload \<Rightarrow> byte list \<Rightarrow> nat \<Rightarrow> nat" where
  "bloom_slot p key i = unat (bloom_hash_i key (of_nat i) mod bloom_bits p)"

section \<open>Validation\<close>

definition validate_mask_values :: "u8 list \<Rightarrow> StatusCode" where
  "validate_mask_values vs = (if (\<exists>v\<in>set vs. v > 1) then InvalidArgument else Ok)"

definition BloomHeader_validate :: "BloomHeader \<Rightarrow> StatusCode" where
  "BloomHeader_validate h =
     (if bh_type h \<noteq> BlockType_Bloom then InvalidBlockType
      else if unat (bh_payload_size h) \<noteq> BloomPayload_disk_size then InvalidPayloadSize
      else Ok)"

definition BloomPayload_validate :: "BloomPayload \<Rightarrow> StatusCode" where
  "BloomPayload_validate p =
     (if length (bloom_mask p) \<noteq> BLOOM_MASK_BIT_SIZE then InvalidPayloadSize
      else if bloom_bits p = 0 \<or> unat (bloom_bits p) \<noteq> length (bloom_mask p) then InvalidPayloadSize
      else if hash_count p \<noteq> BLOOM_HASH_COUNT \<or> hash_count p = 0 then NotSupported
      else let status = validate_mask_values (bloom_mask p) in
        if \<not> is_ok status then status
        else let any_slot_set = (\<exists>v\<in>set (bloom_mask p). v \<noteq> 0) in
          if key_count p = 0 \<and> any_slot_set \<or> key_count p \<noteq> 0 \<and> \<not> any_slot_set then InvalidState
          else Ok)"

definition BloomPayload_calculate_crc32 :: "zlib \<Rightarrow> BloomPayload \<Rightarrow> u32" where
  "BloomPayload_calculate_crc32 z p =
     (let crc = crc32_add_u64 z (bloom_bits p) (crc_init z);
          crc = crc32_add_u32 z (hash_count p) crc;
          crc = crc32_add_u32 z (key_count p) crc
      in compute_crc32 z crc (bloom_mask p))"

definition BloomPayload_empty :: BloomPayload where
  "BloomPayload_empty = \<lparr>bloom_bits = of_nat BLOOM_MASK_BIT_SIZE, hash_count = BLOOM_HASH_COUNT, key_count = 0,
     bloom_mask = replicate BLOOM_MASK_BIT_SIZE 0\<rparr>"

definition bloom_header :: "zlib \<Rightarrow> BloomPayload \<Rightarrow> BloomHeader" where
  "bloom_header z p = \<lparr>bh_type = BlockType_Bloom, bh_payload_size = of_nat BloomPayload_disk_size,
     bh_crc = BloomPayload_calculate_crc32 z p\<rparr>"

definition BloomSection_new :: "zlib \<Rightarrow> BloomSection" where
  "BloomSection_new z = \<lparr>bl_header = bloom_header z BloomPayload_empty, bl_payload = BloomPayload_empty\<rparr>"

definition BloomSection_validate :: "zlib \<Rightarrow> BloomSection \<Rightarrow> StatusCode" where
  "BloomSection_validate z b =
     (let status = BloomHeader_validate (bl_header b) in
      if \<not> is_ok status then status
      else let status = BloomPayload_validate (bl_payload b) in
        if \<not> is_ok status then status
        else if bh_crc (bl_header b) \<noteq> BloomPayload_calculate_crc32 z (bl_payload b) then ChecksumMismatch
        else Ok)"

definition recompute_crc32 :: "zlib \<Rightarrow> BloomSection action" where
  "recompute_crc32 z b =
     (let status = BloomPayload_validate (bl_payload b) in
      if \<not> is_ok status then (status, b) else (Ok, b\<lparr>bl_header := bloom_header z (bl_payload b)\<rparr>))"

section \<open>Keys\<close>

definition add_key_to_payload :: "byte list \<Rightarrow> BloomPayload action" where
  "add_key_to_payload key p =
     (if BloomPayload_validate p \<noteq> Ok then (InvalidState, p)
      else if unat (key_count p) = u32_max then (DataTypeOverflow, p)
      else (Ok, p\<lparr>bloom_mask := fold (\<lambda>i m. m[bloom_slot p key i := 1]) [0..<unat (hash_count p)] (bloom_mask p),
                  key_count := key_count p + 1\<rparr>))"

definition add_key :: "byte list \<Rightarrow> BloomSection action" where
  "add_key key b = (case add_key_to_payload key (bl_payload b) of (c, p) \<Rightarrow> (c, b\<lparr>bl_payload := p\<rparr>))"

fun add_all_keys :: "DataPayload list \<Rightarrow> BloomPayload action" where
  "add_all_keys [] p = (Ok, p)"
| "add_all_keys (r # rs) p = (case add_key_to_payload (pl_key r) p of (c, p') \<Rightarrow>
     if \<not> is_ok c then (c, p') else add_all_keys rs p')"

definition BloomSection_rebuild :: "zlib \<Rightarrow> DataSection \<Rightarrow> BloomSection action" where
  "BloomSection_rebuild z ds b =
     (case add_all_keys (concat (map db_payloads (data_blocks ds))) BloomPayload_empty of (c, staged) \<Rightarrow>
        if \<not> is_ok c then (c, b)
        else (Ok, \<lparr>bl_header = bloom_header z staged, bl_payload = staged\<rparr>))"

definition may_contain :: "byte list \<Rightarrow> BloomSection \<Rightarrow> bool" where
  "may_contain key b =
     (let p = bl_payload b in
      if BloomPayload_validate p \<noteq> Ok then True
      else \<forall>i\<in>set [0..<unat (hash_count p)]. bloom_mask p ! bloom_slot p key i \<noteq> 0)"

section \<open>Writing and loading\<close>

definition BloomHeader_write :: "BloomHeader \<Rightarrow> wfile action" where
  "BloomHeader_write h = run_all
     [check_w (\<lambda>_. BloomHeader_validate h), check_offset,
      check_w (\<lambda>f. fits_in_block (woff f) BloomHeader_disk_size BLOCK_SIZE),
      write_u8_t (bh_type h) BLOCK_SIZE,
      write_u32_t_le (bh_payload_size h) BLOCK_SIZE,
      write_u32_t_le (bh_crc h) BLOCK_SIZE]"

definition BloomPayload_write :: "BloomPayload \<Rightarrow> wfile action" where
  "BloomPayload_write p = run_all
     [check_w (\<lambda>_. BloomPayload_validate p), check_offset,
      check_w (\<lambda>f. fits_in_block (woff f) BloomPayload_disk_size BLOCK_SIZE),
      write_u64_t_le (bloom_bits p) BLOCK_SIZE,
      write_u32_t_le (hash_count p) BLOCK_SIZE,
      write_u32_t_le (key_count p) BLOCK_SIZE,
      write_bytes (bloom_mask p) BLOCK_SIZE]"

definition BloomSection_write ::
    "zlib \<Rightarrow> BloomSection \<Rightarrow> nat \<Rightarrow> wfile \<Rightarrow> StatusCode \<times> wfile \<times> BloomSection \<times> nat" where
  "BloomSection_write z b bloom_offset f =
     (let status = check_writer_offset f in
      if \<not> is_ok status then (status, f, b, bloom_offset)
      else let status = BloomPayload_validate (bl_payload b) in
        if \<not> is_ok status then (status, f, b, bloom_offset)
        else case recompute_crc32 z b of (c, b) \<Rightarrow>
          if \<not> is_ok c then (c, f, b, bloom_offset)
          else case align_to_block_boundary BLOCK_SIZE f of (c, f1) \<Rightarrow>
            if \<not> is_ok c then (c, f1, b, bloom_offset)
            else case run_all [check_w (\<lambda>f. fits_in_block (woff f) BloomSection_disk_size BLOCK_SIZE),
                BloomHeader_write (bl_header b), BloomPayload_write (bl_payload b)] f1 of (c, f2) \<Rightarrow>
              if \<not> is_ok c then (c, f2, b, bloom_offset) else (Ok, f2, b, woff f1))"

definition BloomHeader_load :: "(rfile, BloomHeader) reader" where
  "BloomHeader_load f = restoring (roff f) (
     bind_r (check_r (\<lambda>f. fits_in_block (roff f) BloomHeader_disk_size BLOCK_SIZE)) (\<lambda>_.
     bind_r (read_u8_t BLOCK_SIZE) (\<lambda>t.
     bind_r (check_r (\<lambda>_. if t \<noteq> BlockType_Bloom then InvalidBlockType else Ok)) (\<lambda>_.
     bind_r (read_u32_t_le BLOCK_SIZE) (\<lambda>n.
     bind_r (check_r (\<lambda>_. if unat n \<noteq> BloomPayload_disk_size then InvalidPayloadSize else Ok)) (\<lambda>_.
     bind_r (read_u32_t_le BLOCK_SIZE) (\<lambda>crc.
     return_r \<lparr>bh_type = t, bh_payload_size = n, bh_crc = crc\<rparr>)))))) f)"

definition BloomPayload_load :: "(rfile, BloomPayload) reader" where
  "BloomPayload_load f = restoring (roff f) (
     bind_r (check_r (\<lambda>f. fits_in_block (roff f) BloomPayload_disk_size BLOCK_SIZE)) (\<lambda>_.
     bind_r (read_u64_t_le BLOCK_SIZE) (\<lambda>bits.
     bind_r (read_u32_t_le BLOCK_SIZE) (\<lambda>hashes.
     bind_r (read_u32_t_le BLOCK_SIZE) (\<lambda>keys.
     bind_r (read_bytes BLOOM_MASK_BIT_SIZE BLOCK_SIZE) (\<lambda>m.
     return_r \<lparr>bloom_bits = bits, hash_count = hashes, key_count = keys, bloom_mask = m\<rparr>))))) f)"

definition seek_r :: "nat \<Rightarrow> (rfile, unit) reader" where
  "seek_r off f = (Inr (), f\<lparr>roff := off\<rparr>)"

definition size_r :: "(rfile, nat) reader" where
  "size_r f = (get_file_size f, f)"

definition BloomSection_load :: "zlib \<Rightarrow> nat \<Rightarrow> (rfile, BloomSection) reader" where
  "BloomSection_load z bloom_offset f = restoring (roff f) (
     bind_r (check_r (\<lambda>_. if bloom_offset mod BLOCK_SIZE \<noteq> 0 then InvalidBlockAlignment else Ok)) (\<lambda>_.
     bind_r size_r (\<lambda>fsize.
     bind_r (check_r (\<lambda>_. can_read_range bloom_offset BloomSection_disk_size fsize)) (\<lambda>_.
     bind_r (seek_r bloom_offset) (\<lambda>_.
     bind_r BloomHeader_load (\<lambda>h.
     bind_r BloomPayload_load (\<lambda>p.
     bind_r (check_r (\<lambda>_. if BloomPayload_calculate_crc32 z p \<noteq> bh_crc h then ChecksumMismatch else Ok)) (\<lambda>_.
     bind_r (check_r (\<lambda>_. BloomPayload_validate p)) (\<lambda>_.
     return_r \<lparr>bl_header = h, bl_payload = p\<rparr>)))))))) f)"

section \<open>No false negatives\<close>

lemma bloom_sizes [simp]: "BloomHeader_disk_size = 9" "BloomPayload_disk_size = 144" "BloomSection_disk_size = 153"
  "BLOOM_MASK_BIT_SIZE = 128"
  by (simp_all add: BloomHeader_disk_size_def BloomPayload_disk_size_def BloomPayload_fixed_size_def BloomSection_disk_size_def
    BLOOM_MASK_BIT_SIZE_def)

text \<open>The slots of a key in a valid payload.\<close>

definition key_slots :: "BloomPayload \<Rightarrow> byte list \<Rightarrow> nat set" where
  "key_slots p key = bloom_slot p key ` {0, 1}"

lemma valid_payloadD:
  assumes "BloomPayload_validate p = Ok"
  shows "length (bloom_mask p) = 128" "unat (bloom_bits p) = 128" "hash_count p = 2" "bloom_slot p key i < 128"
    "\<forall>v\<in>set (bloom_mask p). v \<le> 1" "key_count p = 0 \<longleftrightarrow> (\<forall>v\<in>set (bloom_mask p). v = 0)"
proof -
  show bits: "length (bloom_mask p) = 128" "unat (bloom_bits p) = 128" "hash_count p = 2"
    "\<forall>v\<in>set (bloom_mask p). v \<le> 1" "key_count p = 0 \<longleftrightarrow> (\<forall>v\<in>set (bloom_mask p). v = 0)"
    using assms by (auto simp: BloomPayload_validate_def BLOOM_HASH_COUNT_def validate_mask_values_def Let_def not_less split: if_splits)
  show "bloom_slot p key i < 128" using bits(2) by (simp add: bloom_slot_def unat_mod)
qed

lemma valid_payloadI:
  assumes "length (bloom_mask p) = 128" "unat (bloom_bits p) = 128" "hash_count p = 2"
    "\<forall>v\<in>set (bloom_mask p). v \<le> 1" "key_count p = 0 \<longleftrightarrow> (\<forall>v\<in>set (bloom_mask p). v = 0)"
  shows "BloomPayload_validate p = Ok"
proof -
  have "bloom_bits p \<noteq> 0" using assms(2) by auto
  then show ?thesis using assms
    by (auto simp: BloomPayload_validate_def BLOOM_HASH_COUNT_def validate_mask_values_def Let_def not_less)
qed

lemma two_hashes: "[0..<2] = [0, 1]"
  by (simp add: upt_rec)

text \<open>\<open>holds p key\<close>: all slots of the key are set.\<close>

definition holds :: "BloomPayload \<Rightarrow> byte list \<Rightarrow> bool" where
  "holds p key \<longleftrightarrow> (\<forall>s\<in>key_slots p key. bloom_mask p ! s \<noteq> 0)"

lemma may_contain_iff:
  "may_contain key b \<longleftrightarrow> BloomPayload_validate (bl_payload b) \<noteq> Ok \<or> holds (bl_payload b) key"
  using valid_payloadD(3) [of "bl_payload b"]
  by (auto simp: may_contain_def Let_def holds_def key_slots_def two_hashes less_2_cases_iff)

lemma add_key_effect:
  assumes "BloomPayload_validate p = Ok" "add_key_to_payload key p = (Ok, p')"
  shows "BloomPayload_validate p' = Ok" "holds p' key" "holds p k \<Longrightarrow> holds p' k" "unat (key_count p') = unat (key_count p) + 1"
proof -
  note v = valid_payloadD [OF assms(1)]
  let ?a = "bloom_slot p key 0" and ?b = "bloom_slot p key 1"
  have n: "unat (key_count p) \<noteq> u32_max"
    and p': "p' = p\<lparr>bloom_mask := (bloom_mask p)[?a := 1, ?b := 1], key_count := key_count p + 1\<rparr>"
    using assms v(3) by (auto simp: add_key_to_payload_def two_hashes split: if_splits)
  have slot: "bloom_slot p' = bloom_slot p" by (simp add: p' bloom_slot_def fun_eq_iff)
  have ab: "?a < 128" "?b < 128" using v(4) by auto
  have at: "bloom_mask p' ! s = (if s = ?a \<or> s = ?b then 1 else bloom_mask p ! s)" for s
    using ab v(1) by (simp add: p' nth_list_update)
  show "holds p' key" by (auto simp: holds_def key_slots_def slot at)
  show "holds p k \<Longrightarrow> holds p' k" by (auto simp: holds_def key_slots_def slot at)
  show cnt: "unat (key_count p') = unat (key_count p) + 1"
  proof -
    have "unat (key_count p) < u32_max + 1" using unsigned_less [of "key_count p"] by simp
    with n have "unat (key_count p) < u32_max" by linarith
    then show ?thesis using unat_add_lem [of "key_count p" 1] by (simp add: p')
  qed
  have le: "\<forall>v\<in>set (bloom_mask p'). v \<le> 1"
    using v(5) set_update_subset_insert [of "(bloom_mask p)[?a := 1]" ?b 1] set_update_subset_insert [of "bloom_mask p" ?a 1]
    by (auto simp: p')
  have "1 \<in> set (bloom_mask p')" using ab v(1) at [of ?a] by (metis length_list_update nth_mem p' BloomPayload.select_convs(4) BloomPayload.surjective BloomPayload.update_convs(3,4))
  moreover have "key_count p' \<noteq> 0" using cnt by auto
  ultimately have "key_count p' = 0 \<longleftrightarrow> (\<forall>v\<in>set (bloom_mask p'). v = 0)" by (metis zero_neq_one)
  then show "BloomPayload_validate p' = Ok" using v le by (intro valid_payloadI) (simp_all add: p')
qed

lemma add_all_effect:
  assumes "BloomPayload_validate p = Ok" "add_all_keys rs p = (Ok, p')"
  shows "BloomPayload_validate p' = Ok \<and> (\<forall>r\<in>set rs. holds p' (pl_key r)) \<and> (\<forall>k. holds p k \<longrightarrow> holds p' k)"
  using assms
proof (induction rs arbitrary: p)
  case (Cons r rs)
  obtain c q where q: "add_key_to_payload (pl_key r) p = (c, q)" by fastforce
  with Cons.prems have "c = Ok" "add_all_keys rs q = (Ok, p')" by (auto split: if_splits)
  with add_key_effect [OF Cons.prems(1), of "pl_key r" q] q Cons.IH [of q] show ?case by auto
qed simp

lemma add_all_succeeds:
  "BloomPayload_validate p = Ok \<Longrightarrow> unat (key_count p) + length rs < u32_max \<Longrightarrow> \<exists>p'. add_all_keys rs p = (Ok, p')"
proof (induction rs arbitrary: p)
  case (Cons r rs)
  then obtain q where q: "add_key_to_payload (pl_key r) p = (Ok, q)" by (auto simp: add_key_to_payload_def)
  from add_key_effect [OF Cons.prems(1) q] Cons.prems(2) Cons.IH [of q] q show ?case by auto
qed simp

lemma empty_bloom_valid: "BloomPayload_validate BloomPayload_empty = Ok"
  by (rule valid_payloadI) (simp_all add: BloomPayload_empty_def BLOOM_HASH_COUNT_def)

lemma bloom_rebuild_effect:
  assumes "BloomSection_rebuild z ds b = (Ok, b')"
  shows "BloomPayload_validate (bl_payload b') = Ok" "bl_header b' = bloom_header z (bl_payload b')"
    and "\<forall>r\<in>set (section_records ds). may_contain (key_entry r) b'"
proof -
  obtain p where p: "add_all_keys (section_payloads ds) BloomPayload_empty = (Ok, p)" "b' = \<lparr>bl_header = bloom_header z p, bl_payload = p\<rparr>"
    using assms by (auto simp: BloomSection_rebuild_def section_payloads_def split: prod.splits if_splits)
  from add_all_effect [OF empty_bloom_valid p(1)] p(2)
  show "BloomPayload_validate (bl_payload b') = Ok" "bl_header b' = bloom_header z (bl_payload b')"
    "\<forall>r\<in>set (section_records ds). may_contain (key_entry r) b'"
    by (auto simp: may_contain_iff section_records_def record_of_def)
qed

section \<open>What is written and read\<close>

definition bloom_header_fields :: "BloomHeader \<Rightarrow> byte list list" where
  "bloom_header_fields h = [enc_u8 (bh_type h), enc_u32 (bh_payload_size h), enc_u32 (bh_crc h)]"

definition bloom_payload_fields :: "BloomPayload \<Rightarrow> byte list list" where
  "bloom_payload_fields p = [enc_u64 (bloom_bits p), enc_u32 (hash_count p), enc_u32 (key_count p), bloom_mask p]"

definition bloom_bytes :: "zlib \<Rightarrow> BloomPayload \<Rightarrow> byte list" where
  "bloom_bytes z p = concat (bloom_header_fields (bloom_header z p) @ bloom_payload_fields p)"

lemma bloom_fields_length:
  "length (concat (bloom_header_fields h)) = 9"
  "BloomPayload_validate p = Ok \<Longrightarrow> length (concat (bloom_payload_fields p)) = 144"
  "BloomPayload_validate p = Ok \<Longrightarrow> length (bloom_bytes z p) = 153"
  using valid_payloadD(1) [of p] by (simp_all add: bloom_header_fields_def bloom_payload_fields_def bloom_bytes_def)

lemma bloom_header_ok: "BloomHeader_validate (bloom_header z p) = Ok"
  by (simp add: BloomHeader_validate_def bloom_header_def unat_of_nat)

lemma BloomHeader_write_emits:
  assumes "BloomHeader_validate h = Ok" "tracked f" "length (wdata f) mod BLOCK_SIZE + 9 \<le> BLOCK_SIZE"
  shows "emits (BloomHeader_write h) (concat (bloom_header_fields h)) f"
proof (rule emits_lays_in_block [OF _ assms(2)])
  show "lays BLOCK_SIZE (run_all [write_u8_t (bh_type h) BLOCK_SIZE, write_u32_t_le (bh_payload_size h) BLOCK_SIZE,
      write_u32_t_le (bh_crc h) BLOCK_SIZE]) (bloom_header_fields h)"
    unfolding bloom_header_fields_def by (intro lays_Cons sst_field_lays lays_run_all_Nil)
  have "fits_in_block (woff f) BloomHeader_disk_size BLOCK_SIZE = Ok"
    using fits_pass [OF assms(2), of 9] assms(3) by simp
  then show "BloomHeader_write h f = run_all [write_u8_t (bh_type h) BLOCK_SIZE,
      write_u32_t_le (bh_payload_size h) BLOCK_SIZE, write_u32_t_le (bh_crc h) BLOCK_SIZE] f"
    unfolding BloomHeader_write_def using assms by (simp only: run_all_pass check_w_pass check_offset_pass)
qed (use assms(3) in \<open>simp add: bloom_fields_length\<close>)

lemma BloomPayload_write_emits:
  assumes "BloomPayload_validate p = Ok" "tracked f" "length (wdata f) mod BLOCK_SIZE + 144 \<le> BLOCK_SIZE"
  shows "emits (BloomPayload_write p) (concat (bloom_payload_fields p)) f"
proof (rule emits_lays_in_block [OF _ assms(2)])
  have "length (bloom_mask p) \<le> BLOCK_SIZE" using valid_payloadD(1) [OF assms(1)] by (simp add: BLOCK_SIZE_def)
  then show "lays BLOCK_SIZE (run_all [write_u64_t_le (bloom_bits p) BLOCK_SIZE, write_u32_t_le (hash_count p) BLOCK_SIZE,
      write_u32_t_le (key_count p) BLOCK_SIZE, write_bytes (bloom_mask p) BLOCK_SIZE]) (bloom_payload_fields p)"
    unfolding bloom_payload_fields_def by (intro lays_Cons sst_field_lays lays_run_all_Nil)
  have "fits_in_block (woff f) BloomPayload_disk_size BLOCK_SIZE = Ok"
    using fits_pass [OF assms(2), of 144] assms(3) by simp
  then show "BloomPayload_write p f = run_all [write_u64_t_le (bloom_bits p) BLOCK_SIZE, write_u32_t_le (hash_count p) BLOCK_SIZE,
      write_u32_t_le (key_count p) BLOCK_SIZE, write_bytes (bloom_mask p) BLOCK_SIZE] f"
    unfolding BloomPayload_write_def using assms by (simp only: run_all_pass check_w_pass check_offset_pass)
qed (use assms(1,3) in \<open>simp add: bloom_fields_length\<close>)

lemma bloom_body_emits:
  assumes "BloomPayload_validate p = Ok" "tracked f" "length (wdata f) mod BLOCK_SIZE = 0"
  shows "emits (run_all [check_w (\<lambda>f. fits_in_block (woff f) BloomSection_disk_size BLOCK_SIZE),
    BloomHeader_write (bloom_header z p), BloomPayload_write p]) (bloom_bytes z p) f"
proof -
  have "fits_in_block (woff f) BloomSection_disk_size BLOCK_SIZE = Ok"
    using fits_pass [OF assms(2), of 153] assms(3) by (simp add: BLOCK_SIZE_def)
  then have eq: "run_all [check_w (\<lambda>f. fits_in_block (woff f) BloomSection_disk_size BLOCK_SIZE),
      BloomHeader_write (bloom_header z p), BloomPayload_write p] f =
    run_all [BloomHeader_write (bloom_header z p), BloomPayload_write p] f"
    by (simp only: run_all_pass check_w_pass)
  have "emits (run_all [BloomHeader_write (bloom_header z p), BloomPayload_write p])
      (concat (bloom_header_fields (bloom_header z p)) @ concat (bloom_payload_fields p)) f"
  proof (rule emits_run_all_Cons [OF assms(2)])
    show "emits (BloomHeader_write (bloom_header z p)) (concat (bloom_header_fields (bloom_header z p))) f"
      using assms by (intro BloomHeader_write_emits bloom_header_ok) (simp_all add: BLOCK_SIZE_def)
    fix f' assume f': "tracked f'" "wdata f' = wdata f @ concat (bloom_header_fields (bloom_header z p))"
    have "length (wdata f') mod BLOCK_SIZE + 144 \<le> BLOCK_SIZE"
      using in_block_step [of BLOCK_SIZE "length (wdata f)" 9 144] assms(3) f'(2)
      by (simp add: bloom_fields_length BLOCK_SIZE_def)
    from BloomPayload_write_emits [OF assms(1) f'(1) this]
    show "emits (run_all [BloomPayload_write p]) (concat (bloom_payload_fields p)) f'"
      using emits_run_all_Cons [OF f'(1) _ emits_run_all_Nil, of "BloomPayload_write p" "concat (bloom_payload_fields p)"] by simp
  qed
  then show ?thesis by (simp only: emits_def eq bloom_bytes_def concat_append)
qed

lemma BloomSection_write_okD:
  assumes "tracked f" "BloomSection_write z b o0 f = (Ok, f', b', off)"
  shows "BloomPayload_validate (bl_payload b) = Ok" "b' = \<lparr>bl_header = bloom_header z (bl_payload b), bl_payload = bl_payload b\<rparr>" "tracked f'"
    and "wdata f' = wdata f @ align_pad (length (wdata f)) @ bloom_bytes z (bl_payload b)"
    and "off = length (wdata f) + length (align_pad (length (wdata f)))"
proof -
  let ?p = "bl_payload b"
  have co: "check_writer_offset f = Ok" using check_offset_pass [OF assms(1)] by (simp add: check_offset_def)
  show v: "BloomPayload_validate ?p = Ok" using assms(2) co by (auto simp: BloomSection_write_def Let_def split: if_splits)
  obtain c1 f1 where f1: "align_to_block_boundary BLOCK_SIZE f = (c1, f1)" by fastforce
  obtain c2 f2 where f2: "run_all [check_w (\<lambda>f. fits_in_block (woff f) BloomSection_disk_size BLOCK_SIZE),
    BloomHeader_write (bloom_header z ?p), BloomPayload_write ?p] f1 = (c2, f2)" by fastforce
  have r: "c1 = Ok" "c2 = Ok" "f' = f2" "b' = b\<lparr>bl_header := bloom_header z ?p\<rparr>" "off = woff f1"
    using assms(2) co v f1 f2
    by (auto simp: BloomSection_write_def recompute_crc32_def Let_def split: if_splits simp del: run_all.simps bloom_sizes)
  from emits_okD [OF align_emits [OF assms(1)] f1 [unfolded r(1)] assms(1)]
  have w1: "wdata f1 = wdata f @ align_pad (length (wdata f))" "tracked f1" by auto
  have "length (wdata f1) mod BLOCK_SIZE = 0" using align_pad_aligned [of "length (wdata f)"] w1(1) by simp
  from emits_okD [OF bloom_body_emits [OF v w1(2) this] f2 [unfolded r(2)] w1(2)]
  show "wdata f' = wdata f @ align_pad (length (wdata f)) @ bloom_bytes z ?p" "tracked f'" using w1 r by auto
  show "b' = \<lparr>bl_header = bloom_header z ?p, bl_payload = ?p\<rparr>" "off = length (wdata f) + length (align_pad (length (wdata f)))"
    using r w1 by (simp_all add: tracked_def)
qed

lemma BloomSection_write_succeeds:
  assumes "BloomPayload_validate (bl_payload b) = Ok" "tracked f" "write_faultfree f"
  shows "\<exists>f' b' off. BloomSection_write z b o0 f = (Ok, f', b', off) \<and>
    write_faultfree f' \<and> wsenv f' = wsenv f \<and> wclose_ok f' = wclose_ok f"
proof -
  let ?p = "bl_payload b"
  have co: "check_writer_offset f = Ok" using check_offset_pass [OF assms(2)] by (simp add: check_offset_def)
  obtain f1 where f1: "align_to_block_boundary BLOCK_SIZE f = (Ok, f1)"
    "wdata f1 = wdata f @ align_pad (length (wdata f))" "tracked f1" "write_faultfree f1" "wsenv f1 = wsenv f" "wclose_ok f1 = wclose_ok f"
    using emits_faultfreeD [OF align_emits [OF assms(2)] assms(2,3)] by metis
  have "length (wdata f1) mod BLOCK_SIZE = 0" using align_pad_aligned [of "length (wdata f)"] f1(2) by simp
  from emits_faultfreeD [OF bloom_body_emits [OF assms(1) f1(3) this] f1(3,4)]
  obtain f2 where "run_all [check_w (\<lambda>f. fits_in_block (woff f) BloomSection_disk_size BLOCK_SIZE),
    BloomHeader_write (bloom_header z ?p), BloomPayload_write ?p] f1 = (Ok, f2)" "write_faultfree f2" "wsenv f2 = wsenv f1"
    "wclose_ok f2 = wclose_ok f1" by metis
  then show ?thesis using f1 assms(1) co
    by (simp add: BloomSection_write_def recompute_crc32_def Let_def del: run_all.simps bloom_sizes)
qed

lemma restoring_ok: "m f = (Inr v, f') \<Longrightarrow> restoring i (m f) = (Inr v, f')"
  by (simp add: restoring_def)

lemma bind_seek: "bind_r (seek_r off) k f = k () (f\<lparr>roff := off\<rparr>)"
  by (simp add: seek_r_def)

lemma fits_pass_r: "roff f mod BLOCK_SIZE + n \<le> BLOCK_SIZE \<Longrightarrow> fits_in_block (roff f) n BLOCK_SIZE = Ok"
  by (simp add: fits_in_block_def BLOCK_SIZE_def)

lemma BloomHeader_load_at:
  assumes "BloomHeader_validate h = Ok" "read_quiet D f" "bytes_at D (roff f) (concat (bloom_header_fields h))"
    "roff f mod BLOCK_SIZE + 9 \<le> BLOCK_SIZE"
  shows "\<exists>f'. BloomHeader_load f = (Inr h, f') \<and> read_quiet D f' \<and> roff f' = roff f + 9"
proof -
  define m where "m = bind_r (read_u8_t BLOCK_SIZE) (\<lambda>t.
     bind_r (check_r (\<lambda>_. if t \<noteq> BlockType_Bloom then InvalidBlockType else Ok)) (\<lambda>_.
     bind_r (read_u32_t_le BLOCK_SIZE) (\<lambda>n.
     bind_r (check_r (\<lambda>_. if unat n \<noteq> BloomPayload_disk_size then InvalidPayloadSize else Ok)) (\<lambda>_.
     bind_r (read_u32_t_le BLOCK_SIZE) (\<lambda>crc.
     return_r \<lparr>bh_type = t, bh_payload_size = n, bh_crc = crc\<rparr>)))))"
  have v: "bh_type h = BlockType_Bloom" "unat (bh_payload_size h) = BloomPayload_disk_size"
    using assms(1) by (auto simp: BloomHeader_validate_def split: if_splits)
  have "reads BLOCK_SIZE m ([enc_u8 (bh_type h)] @ [enc_u32 (bh_payload_size h)] @ [enc_u32 (bh_crc h)] @ []) h"
    unfolding m_def using v
    by (intro reads_bind [OF sst_field_reads(3)] reads_bind [OF sst_field_reads(2)] reads_check)
      (cases h; simp add: reads_return)+
  then have "reads BLOCK_SIZE m (bloom_header_fields h) h" by (simp add: bloom_header_fields_def)
  from reads_in_block [OF this assms(2,3)] assms(4)
  obtain f' where "m f = (Inr h, f')" "read_quiet (rdata f) f'" "roff f' = roff f + 9"
    by (auto simp: bloom_fields_length yields_def)
  moreover have "fits_in_block (roff f) BloomHeader_disk_size BLOCK_SIZE = Ok" using assms(4) fits_pass_r by simp
  ultimately show ?thesis using quiet_data [OF assms(2)]
    unfolding BloomHeader_load_def m_def [symmetric] by (simp add: bind_check_pass restoring_def del: bloom_sizes)
qed

lemma BloomPayload_load_at:
  assumes "BloomPayload_validate p = Ok" "read_quiet D f" "bytes_at D (roff f) (concat (bloom_payload_fields p))"
    "roff f mod BLOCK_SIZE + 144 \<le> BLOCK_SIZE"
  shows "\<exists>f'. BloomPayload_load f = (Inr p, f') \<and> read_quiet D f' \<and> roff f' = roff f + 144"
proof -
  define m where "m = bind_r (read_u64_t_le BLOCK_SIZE) (\<lambda>bits.
     bind_r (read_u32_t_le BLOCK_SIZE) (\<lambda>hashes.
     bind_r (read_u32_t_le BLOCK_SIZE) (\<lambda>keys.
     bind_r (read_bytes BLOOM_MASK_BIT_SIZE BLOCK_SIZE) (\<lambda>m.
     return_r \<lparr>bloom_bits = bits, hash_count = hashes, key_count = keys, bloom_mask = m\<rparr>))))"
  have len: "length (bloom_mask p) = BLOOM_MASK_BIT_SIZE" "length (bloom_mask p) \<le> BLOCK_SIZE"
    using valid_payloadD(1) [OF assms(1)] by (simp_all add: BLOCK_SIZE_def)
  have "reads BLOCK_SIZE m ([enc_u64 (bloom_bits p)] @ [enc_u32 (hash_count p)] @ [enc_u32 (key_count p)] @ [bloom_mask p] @ []) p"
    unfolding m_def len(1) [symmetric]
    by (intro reads_bind [OF sst_field_reads(1)] reads_bind [OF sst_field_reads(2)]
        reads_bind [OF sst_field_reads(4) [OF len(2)]]) (cases p; simp add: reads_return)
  then have "reads BLOCK_SIZE m (bloom_payload_fields p) p" by (simp add: bloom_payload_fields_def)
  from reads_in_block [OF this assms(2,3)] assms(4)
  obtain f' where "m f = (Inr p, f')" "read_quiet (rdata f) f'" "roff f' = roff f + 144"
    by (auto simp: bloom_fields_length(2) [OF assms(1)] yields_def)
  moreover have "fits_in_block (roff f) BloomPayload_disk_size BLOCK_SIZE = Ok" using assms(4) fits_pass_r by simp
  ultimately show ?thesis using quiet_data [OF assms(2)]
    unfolding BloomPayload_load_def m_def [symmetric] by (simp add: bind_check_pass restoring_def del: bloom_sizes)
qed

lemma BloomSection_load_at:
  assumes "BloomPayload_validate p = Ok" "read_quiet D f" "off mod BLOCK_SIZE = 0" "bytes_at D off (bloom_bytes z p)"
  shows "\<exists>f'. BloomSection_load z off f = (Inr \<lparr>bl_header = bloom_header z p, bl_payload = p\<rparr>, f') \<and>
    read_quiet D f' \<and> roff f' = off + 153"
proof -
  have D: "rdata f = D" "rfd f" using assms(2) by (simp_all add: read_quiet_def)
  have at: "bytes_at D off (concat (bloom_header_fields (bloom_header z p)))" "bytes_at D (off + 9) (concat (bloom_payload_fields p))"
    using assms(4) by (simp_all add: bloom_bytes_def bytes_at_append bloom_fields_length)
  have range: "can_read_range off BloomSection_disk_size (length D) = Ok"
    using bytes_at_bound [OF assms(4)] bloom_fields_length(3) [OF assms(1)] by (simp add: can_read_range_def)
  obtain g where g: "BloomHeader_load (f\<lparr>roff := off\<rparr>) = (Inr (bloom_header z p), g)" "read_quiet D g" "roff g = off + 9"
    using BloomHeader_load_at [OF bloom_header_ok, of D "f\<lparr>roff := off\<rparr>"] assms(2,3) at(1) by (auto simp: BLOCK_SIZE_def)
  have "roff g mod BLOCK_SIZE + 144 \<le> BLOCK_SIZE"
    using in_block_step [of BLOCK_SIZE off 9 144] assms(3) g(3) by (simp add: BLOCK_SIZE_def)
  then obtain h where h: "BloomPayload_load g = (Inr p, h)" "read_quiet D h" "roff h = off + 153"
    using BloomPayload_load_at [OF assms(1) g(2)] at(2) g(3) by auto
  have "BloomSection_load z off f = (Inr \<lparr>bl_header = bloom_header z p, bl_payload = p\<rparr>, h)"
    unfolding BloomSection_load_def
    by (rule restoring_ok) (use assms(1,3) D range in \<open>simp add: bind_check_pass size_r_def get_file_size_def bind_seek g(1) h(1)
      bloom_header_def return_r_def del: bloom_sizes\<close>)
  then show ?thesis using h by blast
qed

section \<open>Properties\<close>

text \<open>C28 (no false negatives). A filter rebuilt from a data section of fewer than \<open>2^32 - 1\<close> records
  contains every key of the section; when it is written, what the file holds loads back as a filter that
  still contains all of them, from any file that continues the written one.\<close>

theorem bloom_no_false_negatives:
  assumes "length (section_records ds) < u32_max" "tracked f" "write_faultfree f"
  shows "\<exists>b' f' b'' off. BloomSection_rebuild z ds b = (Ok, b') \<and> BloomSection_write z b' o0 f = (Ok, f', b'', off) \<and>
    (\<forall>rest g. read_quiet (wdata f' @ rest) g \<longrightarrow> (\<exists>g'. BloomSection_load z off g = (Inr b'', g'))) \<and>
    (\<forall>r\<in>set (section_records ds). may_contain (key_entry r) b'')"
proof -
  obtain p where "add_all_keys (section_payloads ds) BloomPayload_empty = (Ok, p)"
    using add_all_succeeds [OF empty_bloom_valid, of "section_payloads ds"] assms(1)
    by (auto simp: section_records_def BloomPayload_empty_def)
  then obtain b' where b': "BloomSection_rebuild z ds b = (Ok, b')"
    by (simp add: BloomSection_rebuild_def section_payloads_def)
  note e = bloom_rebuild_effect [OF b']
  obtain f' b'' off where w: "BloomSection_write z b' o0 f = (Ok, f', b'', off)"
    using BloomSection_write_succeeds [OF e(1) assms(2,3)] by blast
  note d = BloomSection_write_okD [OF assms(2) w]
  have "b'' = b'" using d(2) e(2) by simp
  have "\<exists>g'. BloomSection_load z off g = (Inr b'', g')" if "read_quiet (wdata f' @ rest) g" for rest g
  proof -
    have "bytes_at (wdata f' @ rest) off (bloom_bytes z (bl_payload b'))"
      unfolding bytes_at_def using d(4,5) by (intro exI [of _ "wdata f @ align_pad (length (wdata f))"] exI [of _ rest]) simp
    moreover have "off mod BLOCK_SIZE = 0" using align_pad_aligned d(5) by simp
    ultimately show ?thesis using BloomSection_load_at [OF d(1) that] d(2) by metis
  qed
  then show ?thesis using b' w e(3) \<open>b'' = b'\<close> by blast
qed

theorem bloom_no_false_negatives_witness:
  "\<exists>b' f' b'' off. BloomSection_rebuild ex_zlib (ex_big_section ex_zlib) (BloomSection_new ex_zlib) = (Ok, b') \<and>
    BloomSection_write ex_zlib b' 0 ex_table_file = (Ok, f', b'', off) \<and> may_contain [7] b''"
proof -
  have len: "length (section_records (ex_big_section ex_zlib)) < u32_max"
    by (simp add: section_records_def ex_big_payloads)
  have "record_of (DataPayload_of (ex_row (of_nat (1000 - 0)) (replicate 4061 0))) \<in> set (section_records (ex_big_section ex_zlib))"
    unfolding section_records_def ex_big_payloads set_map by (intro imageI) simp
  moreover have "key_entry (record_of (DataPayload_of (ex_row (of_nat (1000 - 0)) (replicate 4061 0)))) = [7]"
    by (simp add: record_of_def DataPayload_of_def ex_row_def)
  ultimately show ?thesis using bloom_no_false_negatives [OF len ex_table_file_ok, of ex_zlib "BloomSection_new ex_zlib" 0] by metis
qed

end
