(* ===== verification/MetaSection.thy ===== *)
theory MetaSection
  imports BloomSection
begin

text \<open>
  The metadata of a table (\<^verbatim>\<open>core/sstable_entities/meta_section.cpp\<close>): counts, key and sequence bounds
  derived from the data section and checked against the index. What is rebuilt summarises the section,
  what is written is loaded back, and two long boundary keys make the metadata, and so the table,
  impossible to write.
\<close>

section \<open>State\<close>

record MetaHeader =
  mh_type :: u8
  mh_payload_size :: u32
  mh_crc :: u32

record MetaPayload =
  mp_record_count :: u64
  mp_tombstone_count :: u64
  mp_min_seq :: u64
  mp_max_seq :: u64
  mp_min_key :: ArenaEntry
  mp_max_key :: ArenaEntry
  mp_block_count :: u64
  mp_data_bytes :: u64

record MetaSection =
  ms_header :: MetaHeader
  ms_payload :: MetaPayload

definition MetaHeader_disk_size :: nat where "MetaHeader_disk_size = 9"
definition MetaPayload_fixed_size :: nat where "MetaPayload_fixed_size = 56"

definition MetaPayload_disk_size :: "MetaPayload \<Rightarrow> nat" where
  "MetaPayload_disk_size p = MetaPayload_fixed_size + length (mp_min_key p) + length (mp_max_key p)"

definition MetaSection_disk_size :: "MetaSection \<Rightarrow> nat" where
  "MetaSection_disk_size m = MetaHeader_disk_size + MetaPayload_disk_size (ms_payload m)"

definition MetaPayload_empty :: MetaPayload where
  "MetaPayload_empty = \<lparr>mp_record_count = 0, mp_tombstone_count = 0, mp_min_seq = 0, mp_max_seq = 0,
     mp_min_key = [], mp_max_key = [], mp_block_count = 0, mp_data_bytes = 0\<rparr>"

section \<open>Validation\<close>

definition MetaHeader_validate :: "MetaHeader \<Rightarrow> StatusCode" where
  "MetaHeader_validate h =
     (if mh_type h \<noteq> BlockType_Meta then InvalidBlockType
      else if unat (mh_payload_size h) < MetaPayload_fixed_size then InvalidPayloadSize
      else if unat (mh_payload_size h) > BLOCK_SIZE - MetaHeader_disk_size then InvalidPayloadSize
      else Ok)"

definition multiply_overflows_u64 :: "nat \<Rightarrow> nat \<Rightarrow> bool" where
  "multiply_overflows_u64 lhs rhs = (lhs \<noteq> 0 \<and> rhs > u64_max div lhs)"

definition add_overflows_u64 :: "nat \<Rightarrow> nat \<Rightarrow> bool" where
  "add_overflows_u64 lhs rhs = (lhs > u64_max - rhs)"

definition MetaPayload_validate :: "MetaPayload \<Rightarrow> StatusCode" where
  "MetaPayload_validate p =
     (let count = unat (mp_block_count p); minimum_block_bytes = DataHeader_disk_size + DataPayload_fixed_size in
      if MetaPayload_fixed_size + length (mp_min_key p) + length (mp_max_key p) > BLOCK_SIZE - MetaHeader_disk_size
      then InvalidPayloadSize
      else if mp_tombstone_count p > mp_record_count p then InvalidPayloadSize
      else if mp_record_count p = 0 then
        (if mp_tombstone_count p \<noteq> 0 \<or> mp_min_seq p \<noteq> 0 \<or> mp_max_seq p \<noteq> 0 \<or> mp_min_key p \<noteq> [] \<or>
            mp_max_key p \<noteq> [] \<or> mp_block_count p \<noteq> 0 \<or> mp_data_bytes p \<noteq> 0
         then InvalidPayloadSize else Ok)
      else if mp_block_count p = 0 then InvalidPayloadSize
      else if mp_block_count p > mp_record_count p then InvalidPayloadSize
      else if mp_min_seq p > mp_max_seq p then InvalidPayloadSize
      else if compare_bytes (mp_min_key p) (mp_max_key p) > 0 then InvalidPayloadSize
      else if multiply_overflows_u64 count minimum_block_bytes \<or> multiply_overflows_u64 count BLOCK_SIZE then DataTypeOverflow
      else if unat (mp_data_bytes p) < count * minimum_block_bytes \<or> unat (mp_data_bytes p) > count * BLOCK_SIZE
      then InvalidPayloadSize
      else Ok)"

text \<open>The smallest and the largest key seen so far.\<close>

definition observe :: "ArenaEntry \<Rightarrow> (ArenaEntry \<times> ArenaEntry) option \<Rightarrow> (ArenaEntry \<times> ArenaEntry) option" where
  "observe key seen = (case seen of
     None \<Rightarrow> Some (key, key)
   | Some (lo, hi) \<Rightarrow> Some (if compare_bytes key lo < 0 then key else lo, if compare_bytes key hi > 0 then key else hi))"

definition validate_index_consistency :: "MetaPayload \<Rightarrow> IndexSection \<Rightarrow> StatusCode" where
  "validate_index_consistency p idx =
     (let ps = idx_payloads idx in
      if unat (mp_block_count p) \<noteq> length ps then InvariantViolation
      else if mp_record_count p = 0 then (if ps \<noteq> [] then InvariantViolation else Ok)
      else if ps = [] then InvariantViolation
      else case fold (\<lambda>e seen. observe (last_key e) (observe (first_key e) seen)) ps None of
        None \<Rightarrow> InvariantViolation
      | Some (lo, hi) \<Rightarrow>
          if compare_bytes (mp_min_key p) lo \<noteq> 0 then InvariantViolation
          else if compare_bytes (mp_max_key p) hi \<noteq> 0 then InvariantViolation
          else Ok)"

definition MetaPayload_calculate_crc32 :: "zlib \<Rightarrow> MetaPayload \<Rightarrow> u32" where
  "MetaPayload_calculate_crc32 z p =
     (let crc = crc32_add_u64 z (mp_record_count p) (crc_init z);
          crc = crc32_add_u64 z (mp_tombstone_count p) crc;
          crc = crc32_add_u64 z (mp_min_seq p) crc;
          crc = crc32_add_u64 z (mp_max_seq p) crc;
          crc = crc32_add_u32 z (entry_size (mp_min_key p)) crc;
          crc = crc32_add_u32 z (entry_size (mp_max_key p)) crc;
          crc = crc32_add_u64 z (mp_block_count p) crc;
          crc = crc32_add_u64 z (mp_data_bytes p) crc;
          crc = crc_bytes_if z (mp_min_key p) crc
      in crc_bytes_if z (mp_max_key p) crc)"

definition MetaSection_new :: "zlib \<Rightarrow> MetaSection" where
  "MetaSection_new z = \<lparr>ms_header = \<lparr>mh_type = BlockType_Meta, mh_payload_size = of_nat (MetaPayload_disk_size MetaPayload_empty),
     mh_crc = MetaPayload_calculate_crc32 z MetaPayload_empty\<rparr>, ms_payload = MetaPayload_empty\<rparr>"

definition meta_build_header :: "zlib \<Rightarrow> MetaPayload \<Rightarrow> MetaHeader result" where
  "meta_build_header z p =
     (let status = MetaPayload_validate p in
      if \<not> is_ok status then Inl status
      else if MetaPayload_disk_size p > u32_max then Inl DataTypeOverflow
      else let h = \<lparr>mh_type = BlockType_Meta, mh_payload_size = of_nat (MetaPayload_disk_size p),
                    mh_crc = MetaPayload_calculate_crc32 z p\<rparr>;
               status = MetaHeader_validate h
           in if \<not> is_ok status then Inl status else Inr h)"

definition MetaSection_validate :: "zlib \<Rightarrow> IndexSection \<Rightarrow> MetaSection \<Rightarrow> StatusCode" where
  "MetaSection_validate z idx m =
     (let status = MetaHeader_validate (ms_header m) in
      if \<not> is_ok status then status
      else let status = MetaPayload_validate (ms_payload m) in
        if \<not> is_ok status then status
        else if unat (mh_payload_size (ms_header m)) \<noteq> MetaPayload_disk_size (ms_payload m) then InvalidPayloadSize
        else if MetaPayload_calculate_crc32 z (ms_payload m) \<noteq> mh_crc (ms_header m) then ChecksumMismatch
        else validate_index_consistency (ms_payload m) idx)"

section \<open>Rebuilding\<close>

text \<open>One record of a block; the flag says whether a record has been seen before.\<close>

definition scan_record :: "DataPayload \<Rightarrow> bool \<times> MetaPayload \<Rightarrow> StatusCode \<times> bool \<times> MetaPayload" where
  "scan_record r = (\<lambda>(have_record, staged).
     if type_of_u8 (pl_type r) \<noteq> Put \<and> type_of_u8 (pl_type r) \<noteq> Tombstone then (InvalidArgument, have_record, staged)
     else if pl_flags r \<noteq> 0 \<or> pl_reserved r \<noteq> 0 then (InvalidArgument, have_record, staged)
     else if unat (mp_record_count staged) = u64_max then (DataTypeOverflow, have_record, staged)
     else let staged = staged\<lparr>mp_record_count := mp_record_count staged + 1\<rparr> in
       if type_of_u8 (pl_type r) = Tombstone \<and> unat (mp_tombstone_count staged) = u64_max then (DataTypeOverflow, have_record, staged)
       else let staged = (if type_of_u8 (pl_type r) = Tombstone
           then staged\<lparr>mp_tombstone_count := mp_tombstone_count staged + 1\<rparr> else staged) in
         if \<not> have_record then
           (Ok, True, staged\<lparr>mp_min_seq := pl_seq r, mp_max_seq := pl_seq r, mp_min_key := pl_key r, mp_max_key := pl_key r\<rparr>)
         else (Ok, True, staged\<lparr>mp_min_seq := min (mp_min_seq staged) (pl_seq r), mp_max_seq := max (mp_max_seq staged) (pl_seq r),
           mp_min_key := (if compare_bytes (pl_key r) (mp_min_key staged) < 0 then pl_key r else mp_min_key staged),
           mp_max_key := (if compare_bytes (pl_key r) (mp_max_key staged) > 0 then pl_key r else mp_max_key staged)\<rparr>))"

definition scan_block :: "DataBlock \<Rightarrow> bool \<times> MetaPayload \<Rightarrow> StatusCode \<times> bool \<times> MetaPayload" where
  "scan_block b = (\<lambda>(have_record, staged).
     if db_payloads b = [] then (InvalidState, have_record, staged)
     else if DataBlock_disk_size b > BLOCK_SIZE then (InvalidPayloadSize, have_record, staged)
     else if DataBlock_disk_size b > u64_max \<or> add_overflows_u64 (unat (mp_data_bytes staged)) (DataBlock_disk_size b)
     then (DataTypeOverflow, have_record, staged)
     else run_all (map scan_record (db_payloads b))
       (have_record, staged\<lparr>mp_data_bytes := mp_data_bytes staged + of_nat (DataBlock_disk_size b)\<rparr>))"

definition MetaSection_rebuild :: "zlib \<Rightarrow> DataSection \<Rightarrow> IndexSection \<Rightarrow> MetaSection action" where
  "MetaSection_rebuild z ds idx m =
     (if length (data_blocks ds) \<noteq> length (idx_payloads idx) then (InvariantViolation, m)
      else if length (data_blocks ds) > u64_max then (DataTypeOverflow, m)
      else case run_all (map scan_block (data_blocks ds))
          (False, MetaPayload_empty\<lparr>mp_block_count := of_nat (length (data_blocks ds))\<rparr>) of (c, have_record, staged) \<Rightarrow>
        if \<not> is_ok c then (c, m)
        else let staged = (if \<not> have_record then MetaPayload_empty else staged);
                 status = MetaPayload_validate staged in
          if \<not> is_ok status then (status, m)
          else let status = validate_index_consistency staged idx in
            if \<not> is_ok status then (status, m)
            else case meta_build_header z staged of
              Inl e \<Rightarrow> (e, m)
            | Inr h \<Rightarrow> (Ok, \<lparr>ms_header = h, ms_payload = staged\<rparr>))"

section \<open>Writing and loading\<close>

definition MetaHeader_write :: "MetaHeader \<Rightarrow> wfile action" where
  "MetaHeader_write h = run_all
     [check_w (\<lambda>_. MetaHeader_validate h), check_offset,
      check_w (\<lambda>f. fits_in_block (woff f) MetaHeader_disk_size BLOCK_SIZE),
      write_u8_t (mh_type h) BLOCK_SIZE,
      write_u32_t_le (mh_payload_size h) BLOCK_SIZE,
      write_u32_t_le (mh_crc h) BLOCK_SIZE]"

definition MetaPayload_write :: "MetaPayload \<Rightarrow> wfile action" where
  "MetaPayload_write p = run_all
     [check_w (\<lambda>_. MetaPayload_validate p), check_offset,
      check_w (\<lambda>f. fits_in_block (woff f) (MetaPayload_disk_size p) BLOCK_SIZE),
      write_u64_t_le (mp_record_count p) BLOCK_SIZE,
      write_u64_t_le (mp_tombstone_count p) BLOCK_SIZE,
      write_u64_t_le (mp_min_seq p) BLOCK_SIZE,
      write_u64_t_le (mp_max_seq p) BLOCK_SIZE,
      write_u32_t_le (entry_size (mp_min_key p)) BLOCK_SIZE,
      write_u32_t_le (entry_size (mp_max_key p)) BLOCK_SIZE,
      write_u64_t_le (mp_block_count p) BLOCK_SIZE,
      write_u64_t_le (mp_data_bytes p) BLOCK_SIZE,
      write_bytes (mp_min_key p) BLOCK_SIZE,
      write_bytes (mp_max_key p) BLOCK_SIZE]"

definition MetaSection_write ::
    "zlib \<Rightarrow> MetaSection \<Rightarrow> nat \<Rightarrow> wfile \<Rightarrow> StatusCode \<times> wfile \<times> MetaSection \<times> nat" where
  "MetaSection_write z m meta_offset f =
     (case meta_build_header z (ms_payload m) of
        Inl e \<Rightarrow> (e, f, m, meta_offset)
      | Inr h \<Rightarrow> (case run_all [check_offset, align_to_block_boundary BLOCK_SIZE] f of (c, f1) \<Rightarrow>
          if \<not> is_ok c then (c, f1, m, meta_offset)
          else case run_all [MetaHeader_write h, MetaPayload_write (ms_payload m)] f1 of (c, f2) \<Rightarrow>
            if \<not> is_ok c then (c, f2, m, meta_offset)
            else (Ok, f2, m\<lparr>ms_header := h\<rparr>, woff f1)))"

definition MetaHeader_load :: "(rfile, MetaHeader) reader" where
  "MetaHeader_load f = restoring (roff f) (
     bind_r (check_r (\<lambda>f. fits_in_block (roff f) MetaHeader_disk_size BLOCK_SIZE)) (\<lambda>_.
     bind_r (read_u8_t BLOCK_SIZE) (\<lambda>t.
     bind_r (read_u32_t_le BLOCK_SIZE) (\<lambda>n.
     bind_r (read_u32_t_le BLOCK_SIZE) (\<lambda>crc.
     let h = \<lparr>mh_type = t, mh_payload_size = n, mh_crc = crc\<rparr> in
     bind_r (check_r (\<lambda>_. MetaHeader_validate h)) (\<lambda>_. return_r h))))) f)"

definition read_key_if :: "u32 \<Rightarrow> byte list loader" where
  "read_key_if n = (if unat n > 0 then lift_l (read_bytes (unat n) BLOCK_SIZE) else return_l [])"

text \<open>The fields of the payload and, after one allocation for both, its boundary keys.\<close>

definition read_meta_fields :: "MetaHeader \<Rightarrow> MetaPayload loader" where
  "read_meta_fields h =
     bind_l (lift_l (read_u64_t_le BLOCK_SIZE)) (\<lambda>records.
     bind_l (lift_l (read_u64_t_le BLOCK_SIZE)) (\<lambda>tombstones.
     bind_l (lift_l (read_u64_t_le BLOCK_SIZE)) (\<lambda>lo_seq.
     bind_l (lift_l (read_u64_t_le BLOCK_SIZE)) (\<lambda>hi_seq.
     bind_l (lift_l (read_u32_t_le BLOCK_SIZE)) (\<lambda>lo_size.
     bind_l (lift_l (read_u32_t_le BLOCK_SIZE)) (\<lambda>hi_size.
     bind_l (lift_l (read_u64_t_le BLOCK_SIZE)) (\<lambda>blocks.
     bind_l (lift_l (read_u64_t_le BLOCK_SIZE)) (\<lambda>bytes.
     bind_l (check_l (\<lambda>_. if MetaPayload_fixed_size + unat lo_size + unat hi_size \<noteq> unat (mh_payload_size h)
       then InvalidPayloadSize else Ok)) (\<lambda>_.
     bind_l (alloc_key_storage (unat lo_size + unat hi_size)) (\<lambda>_.
     bind_l (read_key_if lo_size) (\<lambda>lo.
     bind_l (read_key_if hi_size) (\<lambda>hi.
     return_l \<lparr>mp_record_count = records, mp_tombstone_count = tombstones, mp_min_seq = lo_seq, mp_max_seq = hi_seq,
       mp_min_key = lo, mp_max_key = hi, mp_block_count = blocks, mp_data_bytes = bytes\<rparr>))))))))))))"

definition MetaPayload_load :: "zlib \<Rightarrow> MetaHeader \<Rightarrow> MetaPayload loader" where
  "MetaPayload_load z h = transact (
     bind_l (check_l (\<lambda>_. MetaHeader_validate h)) (\<lambda>_.
     bind_l (check_l (\<lambda>f. fits_in_block (roff f) (unat (mh_payload_size h)) BLOCK_SIZE)) (\<lambda>_.
     bind_l (read_meta_fields h) (\<lambda>p.
     bind_l (check_l (\<lambda>_. if MetaPayload_calculate_crc32 z p \<noteq> mh_crc h then ChecksumMismatch else Ok)) (\<lambda>_.
     bind_l (check_l (\<lambda>_. MetaPayload_validate p)) (\<lambda>_. return_l p))))))"

definition MetaSection_load :: "zlib \<Rightarrow> IndexSection \<Rightarrow> nat \<Rightarrow> MetaSection loader" where
  "MetaSection_load z idx meta_offset = transact (
     bind_l (check_l (\<lambda>_. if meta_offset mod BLOCK_SIZE \<noteq> 0 then InvalidBlockAlignment else Ok)) (\<lambda>_.
     bind_l (seek_l meta_offset) (\<lambda>_.
     bind_l (lift_l MetaHeader_load) (\<lambda>h.
     bind_l (MetaPayload_load z h) (\<lambda>p.
     let m = \<lparr>ms_header = h, ms_payload = p\<rparr> in
     bind_l (check_l (\<lambda>_. MetaSection_validate z idx m)) (\<lambda>_. return_l m))))))"

section \<open>What a rebuild computes\<close>

lemma meta_sizes [simp]: "MetaHeader_disk_size = 9" "MetaPayload_fixed_size = 56"
  by (simp_all add: MetaHeader_disk_size_def MetaPayload_fixed_size_def)

abbreviation is_tombstone :: "DataPayload \<Rightarrow> bool" where
  "is_tombstone r \<equiv> type_of_u8 (pl_type r) = Tombstone"

text \<open>\<open>summarises ps p\<close>: counts and bounds of the payload are those of the records \<open>ps\<close>.\<close>

definition summarises :: "DataPayload list \<Rightarrow> MetaPayload \<Rightarrow> bool" where
  "summarises ps p \<longleftrightarrow> unat (mp_record_count p) = length ps \<and>
     unat (mp_tombstone_count p) = length (filter is_tombstone ps) \<and>
     (ps \<noteq> [] \<longrightarrow>
        mp_min_key p \<in> pl_key ` set ps \<and> mp_max_key p \<in> pl_key ` set ps \<and>
        mp_min_seq p \<in> pl_seq ` set ps \<and> mp_max_seq p \<in> pl_seq ` set ps \<and>
        (\<forall>r\<in>set ps. mp_min_key p \<le> pl_key r \<and> pl_key r \<le> mp_max_key p \<and> mp_min_seq p \<le> pl_seq r \<and> pl_seq r \<le> mp_max_seq p))"

lemma unat_nat64: "m \<le> u64_max \<Longrightarrow> unat (of_nat m :: u64) = m"
  by (simp add: unat_of_nat take_bit_nat_eq_self_iff)

lemma unat_suc64: "unat (x :: u64) < u64_max \<Longrightarrow> unat (x + 1) = unat x + 1"
  using unat_add_lem [of x 1] by simp

lemma valid_payload_flags:
  assumes "DataPayload_validate r = Ok"
  shows "pl_flags r = 0" "pl_reserved r = 0" "type_of_u8 (pl_type r) = Put \<or> type_of_u8 (pl_type r) = Tombstone"
  using assms by (auto simp: DataPayload_validate_def is_valid_payload_type_def type_of_u8_def type_to_u8_def split: if_splits)

lemma scan_record_step:
  assumes "DataPayload_validate r = Ok" "summarises ps p" "length ps < u64_max"
  shows "\<exists>p'. scan_record r (ps \<noteq> [], p) = (Ok, True, p') \<and> summarises (ps @ [r]) p' \<and>
    mp_block_count p' = mp_block_count p \<and> mp_data_bytes p' = mp_data_bytes p"
proof -
  note v = valid_payload_flags [OF assms(1)]
  have n: "unat (mp_record_count p) = length ps" and t: "unat (mp_tombstone_count p) = length (filter is_tombstone ps)"
    using assms(2) by (simp_all add: summarises_def)
  have lt: "length (filter is_tombstone ps) < u64_max" using assms(3) length_filter_le [of is_tombstone ps] by linarith
  have up: "unat (mp_record_count p + 1) = Suc (length ps)" "unat (mp_tombstone_count p + 1) = Suc (length (filter is_tombstone ps))"
    using unat_suc64 [of "mp_record_count p"] unat_suc64 [of "mp_tombstone_count p"] n t lt assms(3) by simp_all
  define q where "q = (let p1 = p\<lparr>mp_record_count := mp_record_count p + 1,
      mp_tombstone_count := if is_tombstone r then mp_tombstone_count p + 1 else mp_tombstone_count p\<rparr> in
    if ps = [] then p1\<lparr>mp_min_seq := pl_seq r, mp_max_seq := pl_seq r, mp_min_key := pl_key r, mp_max_key := pl_key r\<rparr>
    else p1\<lparr>mp_min_seq := min (mp_min_seq p) (pl_seq r), mp_max_seq := max (mp_max_seq p) (pl_seq r),
           mp_min_key := (if pl_key r < mp_min_key p then pl_key r else mp_min_key p),
           mp_max_key := (if mp_max_key p < pl_key r then pl_key r else mp_max_key p)\<rparr>)"
  have "scan_record r (ps \<noteq> [], p) = (Ok, True, q)"
    using v n t lt assms(3) by (auto simp: scan_record_def Let_def q_def)
  moreover have "summarises (ps @ [r]) q"
  proof (cases "ps = []")
    case True
    then show ?thesis using n t up by (simp add: summarises_def q_def Let_def)
  next
    case False
    then have b: "mp_min_key p \<in> pl_key ` set ps" "mp_max_key p \<in> pl_key ` set ps" "mp_min_seq p \<in> pl_seq ` set ps"
      "mp_max_seq p \<in> pl_seq ` set ps"
      "\<And>x. x\<in>set ps \<Longrightarrow> mp_min_key p \<le> pl_key x \<and> pl_key x \<le> mp_max_key p \<and> mp_min_seq p \<le> pl_seq x \<and> pl_seq x \<le> mp_max_seq p"
      using assms(2) by (auto simp: summarises_def)
    have "mp_min_key q \<in> pl_key ` set (ps @ [r])" "mp_max_key q \<in> pl_key ` set (ps @ [r])"
      "mp_min_seq q \<in> pl_seq ` set (ps @ [r])" "mp_max_seq q \<in> pl_seq ` set (ps @ [r])"
      using b(1-4) False by (auto simp: q_def Let_def min_def max_def)
    moreover have "mp_min_key q \<le> pl_key x \<and> pl_key x \<le> mp_max_key q \<and> mp_min_seq q \<le> pl_seq x \<and> pl_seq x \<le> mp_max_seq q"
      if "x \<in> set (ps @ [r])" for x
    proof -
      have le: "mp_min_key q \<le> mp_min_key p" "mp_max_key p \<le> mp_max_key q" "mp_min_seq q \<le> mp_min_seq p" "mp_max_seq p \<le> mp_max_seq q"
        "mp_min_key q \<le> pl_key r" "pl_key r \<le> mp_max_key q" "mp_min_seq q \<le> pl_seq r" "pl_seq r \<le> mp_max_seq q"
        using False by (auto simp: q_def Let_def)
      show ?thesis using b(5) [of x] le that by (auto intro: order_trans)
    qed
    moreover have "unat (mp_record_count q) = length (ps @ [r])" "unat (mp_tombstone_count q) = length (filter is_tombstone (ps @ [r]))"
      using False n t up by (auto simp: q_def Let_def)
    ultimately show ?thesis unfolding summarises_def by blast
  qed
  ultimately show ?thesis by (auto simp: q_def Let_def)
qed

lemma scan_records_step:
  assumes "\<forall>r\<in>set rs. DataPayload_validate r = Ok" "summarises ps p" "length ps + length rs \<le> u64_max"
  shows "\<exists>p'. run_all (map scan_record rs) (ps \<noteq> [], p) = (Ok, ps @ rs \<noteq> [], p') \<and> summarises (ps @ rs) p' \<and>
    mp_block_count p' = mp_block_count p \<and> mp_data_bytes p' = mp_data_bytes p"
  using assms
proof (induction rs arbitrary: ps p)
  case (Cons r rs)
  have "length ps < u64_max" using Cons.prems(3) by simp
  then obtain q where q: "scan_record r (ps \<noteq> [], p) = (Ok, True, q)" "summarises (ps @ [r]) q"
    "mp_block_count q = mp_block_count p" "mp_data_bytes q = mp_data_bytes p"
    using scan_record_step [of r ps p] Cons.prems by auto
  from Cons.IH [of "ps @ [r]" q] Cons.prems q show ?case by auto
qed simp

lemma block_record_bound:
  assumes "block_list_ok ps"
  shows "25 * length ps \<le> 4087" "9 + sum_list (map payload_disk_size ps) \<le> BLOCK_SIZE" "34 \<le> 9 + sum_list (map payload_disk_size ps)"
proof -
  have "25 * length qs \<le> sum_list (map payload_disk_size qs)" for qs
    by (induction qs) (simp_all add: payload_disk_size_def)
  from this [of ps] show "25 * length ps \<le> 4087" "9 + sum_list (map payload_disk_size ps) \<le> BLOCK_SIZE"
    "34 \<le> 9 + sum_list (map payload_disk_size ps)"
    using assms by (cases ps; simp add: block_list_ok_def BLOCK_SIZE_def payload_disk_size_def)+
qed

lemma scan_blocks_step:
  assumes "\<forall>b\<in>set bs. block_ok z b" "summarises ps p"
    and "length ps + 4096 * length bs \<le> u64_max" "unat (mp_data_bytes p) + BLOCK_SIZE * length bs \<le> u64_max"
  shows "\<exists>p'. run_all (map scan_block bs) (ps \<noteq> [], p) = (Ok, ps @ concat (map db_payloads bs) \<noteq> [], p') \<and>
    summarises (ps @ concat (map db_payloads bs)) p' \<and> mp_block_count p' = mp_block_count p \<and>
    unat (mp_data_bytes p') = unat (mp_data_bytes p) + sum_list (map DataBlock_disk_size bs)"
  using assms
proof (induction bs arbitrary: ps p)
  case (Cons b bs)
  let ?n = "DataBlock_disk_size b" and ?rs = "db_payloads b"
  have b: "block_list_ok ?rs" using Cons.prems(1) by (simp add: block_ok_def)
  note bound = block_record_bound [OF b]
  have n: "?n = 9 + sum_list (map payload_disk_size ?rs)" by (simp add: DataBlock_disk_size_def)
  have room: "unat (mp_data_bytes p) + ?n \<le> u64_max" using Cons.prems(4) bound(2) n by simp
  define q where "q = p\<lparr>mp_data_bytes := mp_data_bytes p + of_nat ?n\<rparr>"
  have un: "unat (of_nat ?n :: u64) = ?n" using unat_nat64 [of ?n] room by linarith
  then have bytes: "unat (mp_data_bytes q) = unat (mp_data_bytes p) + ?n"
    using unat_add_lem [of "mp_data_bytes p" "of_nat ?n"] room by (simp add: q_def)
  have "scan_block b (ps \<noteq> [], p) = run_all (map scan_record ?rs) (ps \<noteq> [], q)"
    using b bound(2) n room by (auto simp: scan_block_def q_def add_overflows_u64_def block_list_ok_def)
  moreover have "summarises ps q" using Cons.prems(2) by (simp add: summarises_def q_def)
  moreover have "length ps + length ?rs \<le> u64_max" using Cons.prems(3) bound(1) by simp
  ultimately obtain q' where q': "scan_block b (ps \<noteq> [], p) = (Ok, ps @ ?rs \<noteq> [], q')" "summarises (ps @ ?rs) q'"
    "mp_block_count q' = mp_block_count p" "mp_data_bytes q' = mp_data_bytes q"
    using scan_records_step [of ?rs ps q] b by (auto simp: block_list_ok_def q_def)
  have "length (ps @ ?rs) + 4096 * length bs \<le> u64_max" using Cons.prems(3) bound(1) by simp
  moreover have "unat (mp_data_bytes q') + BLOCK_SIZE * length bs \<le> u64_max"
    using Cons.prems(4) bound(2) n q'(4) bytes by simp
  ultimately show ?case using Cons.IH [OF _ q'(2)] Cons.prems(1) q' bytes by (auto simp del: append_is_Nil_conv)
qed simp

section \<open>Consistency with the index\<close>

lemma observe_sorted:
  "sorted (lo # hi # ks) \<Longrightarrow> fold observe ks (Some (lo, hi)) = Some (lo, last (hi # ks))" for ks :: "ArenaEntry list"
proof (induction ks arbitrary: hi)
  case (Cons k ks)
  then have "observe k (Some (lo, hi)) = Some (lo, k)" by (auto simp: observe_def)
  with Cons show ?case by auto
qed simp

definition entry_keys :: "IndexPayload list \<Rightarrow> ArenaEntry list" where
  "entry_keys es = concat (map (\<lambda>e. [first_key e, last_key e]) es)"

lemma observe_entries:
  "fold (\<lambda>e seen. observe (last_key e) (observe (first_key e) seen)) es s = fold observe (entry_keys es) s"
  by (induction es arbitrary: s) (simp_all add: entry_keys_def)

lemma entry_keys_sorted: "index_ok es \<Longrightarrow> sorted (entry_keys es)"
proof (induction es)
  case (Cons e es)
  have ok: "index_ok es" using Cons.prems by (cases es) (auto simp: index_ok_def)
  have e: "first_key e \<le> last_key e" using index_ok_keys [OF Cons.prems, of 0] by simp
  have "last_key e \<le> k" if "k \<in> set (entry_keys es)" for k
  proof -
    obtain i where i: "i < length es" "k = first_key (es ! i) \<or> k = last_key (es ! i)"
      using \<open>k \<in> set (entry_keys es)\<close> by (auto simp: entry_keys_def in_set_conv_nth)
    have "last_key e \<le> first_key (es ! i)" using index_ok_order [OF Cons.prems, of 0 "Suc i"] i(1) by simp
    then show ?thesis using i index_ok_keys [OF ok i(1)] by auto
  qed
  then show ?case using e Cons.IH [OF ok] by (auto simp: entry_keys_def intro: order_trans)
qed (simp add: entry_keys_def)

lemma observed_bounds:
  assumes "index_ok es" "es \<noteq> []"
  shows "fold (\<lambda>e seen. observe (last_key e) (observe (first_key e) seen)) es None =
    Some (first_key (hd es), last_key (last es))"
proof -
  obtain e rest where es: "es = e # rest" using assms(2) by (cases es) auto
  let ?ks = "last_key e # entry_keys rest"
  have ks: "entry_keys es = first_key e # ?ks" by (simp add: es entry_keys_def)
  have "sorted (first_key e # first_key e # ?ks)" using entry_keys_sorted [OF assms(1)] by (simp add: ks)
  from observe_sorted [OF this] have "fold observe (entry_keys es) None = Some (first_key e, last (first_key e # ?ks))"
    by (simp add: ks observe_def)
  moreover have "last (first_key e # ?ks) = last_key (last es)"
    by (cases rest rule: rev_cases) (simp_all add: es entry_keys_def)
  ultimately have "fold observe (entry_keys es) None = Some (first_key e, last_key (last es))" by (simp only:)
  moreover have "hd es = e" by (simp add: es)
  ultimately show ?thesis by (simp only: observe_entries)
qed

section \<open>The rebuilt metadata\<close>

definition meta_header :: "zlib \<Rightarrow> MetaPayload \<Rightarrow> MetaHeader" where
  "meta_header z p = \<lparr>mh_type = BlockType_Meta, mh_payload_size = of_nat (MetaPayload_disk_size p),
     mh_crc = MetaPayload_calculate_crc32 z p\<rparr>"

lemma valid_meta_size: "MetaPayload_validate p = Ok \<Longrightarrow> 56 + length (mp_min_key p) + length (mp_max_key p) \<le> 4087"
  by (auto simp: MetaPayload_validate_def Let_def BLOCK_SIZE_def split: if_splits)

lemma unat_nat32: "m \<le> u32_max \<Longrightarrow> unat (of_nat m :: u32) = m"
  by (simp add: unat_of_nat take_bit_nat_eq_self_iff)

lemma meta_header_size: "MetaPayload_validate p = Ok \<Longrightarrow> unat (mh_payload_size (meta_header z p)) = MetaPayload_disk_size p"
  unfolding meta_header_def MetaHeader.simps by (rule unat_nat32) (drule valid_meta_size, simp add: MetaPayload_disk_size_def)

lemma meta_header_ok: "MetaPayload_validate p = Ok \<Longrightarrow> MetaHeader_validate (meta_header z p) = Ok"
  using meta_header_size [of p z] valid_meta_size [of p]
  by (simp add: MetaHeader_validate_def MetaPayload_disk_size_def BLOCK_SIZE_def) (simp add: meta_header_def)

lemma meta_build_header_eq: "MetaPayload_validate p = Ok \<Longrightarrow> meta_build_header z p = Inr (meta_header z p)"
  using meta_header_ok [of p z] valid_meta_size [of p]
  by (simp add: meta_build_header_def Let_def meta_header_def MetaPayload_disk_size_def)

lemma meta_build_header_okD: "meta_build_header z p = Inr h \<Longrightarrow> MetaPayload_validate p = Ok \<and> h = meta_header z p"
  by (auto simp: meta_build_header_def Let_def meta_header_def split: if_splits)

lemma meta_build_header_fails: "MetaPayload_validate p \<noteq> Ok \<Longrightarrow> meta_build_header z p = Inl (MetaPayload_validate p)"
  by (simp add: meta_build_header_def Let_def)

lemma section_nonempty:
  assumes "section_ok z ds" "data_blocks ds \<noteq> []"
  shows "section_payloads ds \<noteq> []" "length (data_blocks ds) \<le> length (section_payloads ds)"
proof -
  have "\<forall>b\<in>set bs. db_payloads b \<noteq> [] \<Longrightarrow> length bs \<le> length (concat (map db_payloads bs))" for bs
    by (induction bs) (auto simp: Suc_le_eq neq_Nil_conv)
  from this [of "data_blocks ds"] show "length (data_blocks ds) \<le> length (section_payloads ds)"
    using assms(1) by (auto simp: section_ok_def block_ok_def block_list_ok_def section_payloads_def)
  with assms(2) show "section_payloads ds \<noteq> []" by auto
qed

lemma rebuild_scan:
  assumes "section_ok z ds" "length (data_blocks ds) \<le> 255"
  shows "\<exists>p. run_all (map scan_block (data_blocks ds)) (False, MetaPayload_empty\<lparr>mp_block_count := n\<rparr>) =
      (Ok, section_payloads ds \<noteq> [], p) \<and> summarises (section_payloads ds) p \<and> mp_block_count p = n \<and>
    unat (mp_data_bytes p) = DataSection_disk_size ds"
proof -
  have "summarises [] (MetaPayload_empty\<lparr>mp_block_count := n\<rparr>)" by (simp add: summarises_def MetaPayload_empty_def)
  moreover have "unat (mp_data_bytes (MetaPayload_empty\<lparr>mp_block_count := n\<rparr>)) = 0" by (simp add: MetaPayload_empty_def)
  ultimately show ?thesis
    using scan_blocks_step [of "data_blocks ds" z "[]" "MetaPayload_empty\<lparr>mp_block_count := n\<rparr>"] assms
    by (simp add: section_ok_def section_payloads_def DataSection_disk_size_def BLOCK_SIZE_def MetaPayload_empty_def)
qed

lemma sorted_key_bounds:
  assumes "sorted_wrt ordered ps" "r \<in> set ps"
  shows "pl_key (hd ps) \<le> pl_key r" "pl_key r \<le> pl_key (last ps)"
proof -
  have le: "sorted_wrt (\<lambda>a b. pl_key a \<le> pl_key b) ps"
    by (rule sorted_wrt_mono_rel [OF _ assms(1)]) (auto simp: ikey_def record_of_def)
  obtain a qs where a: "ps = a # qs" using assms(2) by (cases ps) auto
  show "pl_key (hd ps) \<le> pl_key r" using le assms(2) a by auto
  obtain b qs where b: "ps = qs @ [b]" using assms(2) by (cases ps rule: rev_cases) auto
  show "pl_key r \<le> pl_key (last ps)" using le assms(2) b by (auto simp: sorted_wrt_append)
qed

lemma summary_keys:
  assumes "summarises ps p" "sorted_wrt ordered ps" "ps \<noteq> []"
  shows "mp_min_key p = pl_key (hd ps)" "mp_max_key p = pl_key (last ps)" "mp_min_seq p \<le> mp_max_seq p"
proof -
  have b: "mp_min_key p \<in> pl_key ` set ps" "mp_max_key p \<in> pl_key ` set ps"
      "\<And>r. r\<in>set ps \<Longrightarrow> mp_min_key p \<le> pl_key r \<and> pl_key r \<le> mp_max_key p \<and> mp_min_seq p \<le> pl_seq r \<and> pl_seq r \<le> mp_max_seq p"
    using assms(1,3) by (auto simp: summarises_def)
  have hl: "hd ps \<in> set ps" "last ps \<in> set ps" using assms(3) by auto
  show "mp_min_key p = pl_key (hd ps)" using b(1) b(3) [OF hl(1)] sorted_key_bounds(1) [OF assms(2)] by force
  show "mp_max_key p = pl_key (last ps)" using b(2) b(3) [OF hl(2)] sorted_key_bounds(2) [OF assms(2)] by force
  show "mp_min_seq p \<le> mp_max_seq p" using b(3) [OF hl(1)] by (meson order_trans)
qed

lemma block_bytes_bounds:
  assumes "section_ok z ds"
  shows "34 * length (data_blocks ds) \<le> DataSection_disk_size ds" "DataSection_disk_size ds \<le> 4096 * length (data_blocks ds)"
proof -
  have "\<forall>b\<in>set bs. block_list_ok (db_payloads b) \<Longrightarrow> 34 * length bs \<le> sum_list (map DataBlock_disk_size bs) \<and>
      sum_list (map DataBlock_disk_size bs) \<le> 4096 * length bs" for bs
  proof (induction bs)
    case (Cons b bs)
    then show ?case using block_record_bound [of "db_payloads b"] by (simp add: DataBlock_disk_size_def BLOCK_SIZE_def)
  qed simp
  from this [of "data_blocks ds"] show "34 * length (data_blocks ds) \<le> DataSection_disk_size ds"
    "DataSection_disk_size ds \<le> 4096 * length (data_blocks ds)"
    using assms by (auto simp: section_ok_def block_ok_def DataSection_disk_size_def)
qed

lemma summary_valid:
  assumes ok: "section_ok z ds" "data_blocks ds \<noteq> []" "length (data_blocks ds) \<le> 255"
    and p: "summarises (section_payloads ds) p" "unat (mp_block_count p) = length (data_blocks ds)"
      "unat (mp_data_bytes p) = DataSection_disk_size ds"
  shows "MetaPayload_validate p = (if 56 + length (mp_min_key p) + length (mp_max_key p) \<le> 4087 then Ok else InvalidPayloadSize)"
proof -
  note ne = section_nonempty [OF ok(1,2)]
  have srt: "sorted_wrt ordered (section_payloads ds)" using ok(1) by (simp add: section_ok_def)
  note k = summary_keys [OF p(1) srt ne(1)]
  have n: "unat (mp_record_count p) = length (section_payloads ds)"
    "unat (mp_tombstone_count p) \<le> length (section_payloads ds)" using p(1) by (simp_all add: summarises_def)
  have "\<not> mp_tombstone_count p > mp_record_count p" "\<not> mp_block_count p > mp_record_count p"
    using n p(2) ne(2) by (simp_all add: word_less_nat_alt)
  moreover have "mp_record_count p \<noteq> 0" "mp_block_count p \<noteq> 0"
    using n(1) p(2) ne(1) ok(2) by (auto simp: unat_eq_0 [symmetric] simp del: unat_eq_0)
  moreover have "mp_min_key p \<le> mp_max_key p" using k sorted_key_bounds(1) [OF srt, of "last (section_payloads ds)"] ne(1) by simp
  moreover have "\<not> multiply_overflows_u64 (length (data_blocks ds)) 34" "\<not> multiply_overflows_u64 (length (data_blocks ds)) BLOCK_SIZE"
  proof -
    have "4096 \<le> u64_max div length (data_blocks ds)"
      using ok(2,3) by (intro div_le_mono2 [of "length (data_blocks ds)" 255 u64_max, THEN order_trans [rotated]]) auto
    then show "\<not> multiply_overflows_u64 (length (data_blocks ds)) 34" "\<not> multiply_overflows_u64 (length (data_blocks ds)) BLOCK_SIZE"
      by (auto simp: multiply_overflows_u64_def BLOCK_SIZE_def)
  qed
  ultimately show ?thesis
    using k(3) p block_bytes_bounds [OF ok(1)] by (auto simp: MetaPayload_validate_def Let_def BLOCK_SIZE_def mult.commute)
qed

definition meta_ok :: "zlib \<Rightarrow> DataSection \<Rightarrow> MetaSection \<Rightarrow> bool" where
  "meta_ok z ds m \<longleftrightarrow> summarises (section_payloads ds) (ms_payload m) \<and>
     unat (mp_block_count (ms_payload m)) = length (data_blocks ds) \<and>
     unat (mp_data_bytes (ms_payload m)) = DataSection_disk_size ds \<and>
     MetaPayload_validate (ms_payload m) = Ok \<and> ms_header m = meta_header z (ms_payload m)"

lemma entries_of_bounds:
  "bs \<noteq> [] \<Longrightarrow> \<forall>ps\<in>set bs. ps \<noteq> [] \<Longrightarrow> first_key (hd (entries_of off bs)) = pl_key (hd (concat bs)) \<and>
    last_key (last (entries_of off bs)) = pl_key (last (concat bs))"
proof (induction bs arbitrary: off)
  case (Cons ps bs)
  show ?case
  proof (cases "bs = []")
    case False
    then have "entries_of (off + BLOCK_SIZE) bs \<noteq> []" "concat bs \<noteq> []" using Cons.prems by (cases bs; auto)+
    then show ?thesis using Cons.IH [OF False] Cons.prems by (simp add: entry_of_def)
  qed (use Cons.prems in \<open>simp add: entry_of_def\<close>)
qed simp

lemma index_consistent:
  assumes "section_ok z ds" "data_blocks ds \<noteq> []" "index_ok (idx_payloads (section_index z off ds))"
    "summarises (section_payloads ds) p" "unat (mp_block_count p) = length (data_blocks ds)"
  shows "validate_index_consistency p (section_index z off ds) = Ok"
proof -
  define es where "es = entries_of off (map db_payloads (data_blocks ds))"
  have es: "idx_payloads (section_index z off ds) = es" by (simp add: section_index_def idx_of_def es_def)
  have len: "length es = length (data_blocks ds)" by (simp add: es_def entries_of_length)
  then have nees: "es \<noteq> []" using assms(2) by auto
  note ne = section_nonempty [OF assms(1,2)]
  have srt: "sorted_wrt ordered (section_payloads ds)" using assms(1) by (simp add: section_ok_def)
  note k = summary_keys [OF assms(4) srt ne(1)]
  have "first_key (hd es) = pl_key (hd (section_payloads ds))" "last_key (last es) = pl_key (last (section_payloads ds))"
    using entries_of_bounds [of "map db_payloads (data_blocks ds)" off] assms(1,2)
    by (auto simp: es_def section_payloads_def section_ok_def block_ok_def block_list_ok_def)
  moreover have "mp_record_count p \<noteq> 0"
    using assms(4) ne(1) by (auto simp: summarises_def unat_eq_0 [symmetric] simp del: unat_eq_0)
  ultimately show ?thesis
    using observed_bounds [OF assms(3) [unfolded es] nees] nees len assms(5) k
    by (simp add: validate_index_consistency_def es Let_def)
qed

lemma MetaSection_rebuild_spec:
  assumes "section_ok z ds" "data_blocks ds \<noteq> []" "index_ok (idx_payloads (section_index z off ds))"
  defines "k \<equiv> 56 + length (key_entry (hd (section_records ds))) + length (key_entry (last (section_records ds)))"
  shows "k \<le> 4087 \<Longrightarrow> \<exists>m'. MetaSection_rebuild z ds (section_index z off ds) m = (Ok, m') \<and> meta_ok z ds m'"
    and "\<not> k \<le> 4087 \<Longrightarrow> MetaSection_rebuild z ds (section_index z off ds) m = (InvalidPayloadSize, m)"
proof -
  have len: "length (idx_payloads (section_index z off ds)) = length (data_blocks ds)"
    by (simp add: section_index_def idx_of_def entries_of_length)
  then have few: "length (data_blocks ds) \<le> 255" using index_ok_length [OF assms(3)] by simp
  note ne = section_nonempty [OF assms(1,2)]
  have srt: "sorted_wrt ordered (section_payloads ds)" using assms(1) by (simp add: section_ok_def)
  obtain p where p: "run_all (map scan_block (data_blocks ds)) (False, MetaPayload_empty\<lparr>mp_block_count := of_nat (length (data_blocks ds))\<rparr>) =
      (Ok, section_payloads ds \<noteq> [], p)" "summarises (section_payloads ds) p" "mp_block_count p = of_nat (length (data_blocks ds))"
    "unat (mp_data_bytes p) = DataSection_disk_size ds"
    using rebuild_scan [OF assms(1) few] by blast
  have cnt: "unat (mp_block_count p) = length (data_blocks ds)" unfolding p(3) by (rule unat_nat64) (use few in simp)
  note k = summary_keys [OF p(2) srt ne(1)]
  have kk: "k = 56 + length (mp_min_key p) + length (mp_max_key p)"
    using ne(1) k by (simp add: k_def section_records_def hd_map last_map record_of_def)
  note v = summary_valid [OF assms(1,2) few p(2) cnt p(4), folded kk]
  have eq: "MetaSection_rebuild z ds (section_index z off ds) m =
      (if MetaPayload_validate p = Ok then (Ok, \<lparr>ms_header = meta_header z p, ms_payload = p\<rparr>) else (MetaPayload_validate p, m))"
    using p(1) ne(1) len few index_consistent [OF assms(1-3) p(2) cnt] meta_build_header_eq [of p z]
    by (auto simp: MetaSection_rebuild_def Let_def)
  show "k \<le> 4087 \<Longrightarrow> \<exists>m'. MetaSection_rebuild z ds (section_index z off ds) m = (Ok, m') \<and> meta_ok z ds m'"
    using eq v p cnt by (simp add: meta_ok_def)
  show "\<not> k \<le> 4087 \<Longrightarrow> MetaSection_rebuild z ds (section_index z off ds) m = (InvalidPayloadSize, m)"
    using eq v by simp
qed

section \<open>What is written and read\<close>

definition meta_header_fields :: "MetaHeader \<Rightarrow> byte list list" where
  "meta_header_fields h = [enc_u8 (mh_type h), enc_u32 (mh_payload_size h), enc_u32 (mh_crc h)]"

definition meta_payload_fields :: "MetaPayload \<Rightarrow> byte list list" where
  "meta_payload_fields p = [enc_u64 (mp_record_count p), enc_u64 (mp_tombstone_count p), enc_u64 (mp_min_seq p),
     enc_u64 (mp_max_seq p), enc_u32 (entry_size (mp_min_key p)), enc_u32 (entry_size (mp_max_key p)),
     enc_u64 (mp_block_count p), enc_u64 (mp_data_bytes p), mp_min_key p, mp_max_key p]"

definition meta_bytes :: "zlib \<Rightarrow> MetaPayload \<Rightarrow> byte list" where
  "meta_bytes z p = concat (meta_header_fields (meta_header z p)) @ concat (meta_payload_fields p)"

lemma meta_section_length:
  "length (concat (meta_header_fields h)) = 9" "length (concat (meta_payload_fields p)) = MetaPayload_disk_size p"
  "length (meta_bytes z p) = 9 + MetaPayload_disk_size p"
  by (simp_all add: meta_header_fields_def meta_payload_fields_def MetaPayload_disk_size_def meta_bytes_def)

lemma MetaHeader_write_emits:
  assumes "MetaHeader_validate h = Ok" "tracked f" "length (wdata f) mod BLOCK_SIZE + 9 \<le> BLOCK_SIZE"
  shows "emits (MetaHeader_write h) (concat (meta_header_fields h)) f"
proof (rule emits_lays_in_block [OF _ assms(2)])
  show "lays BLOCK_SIZE (run_all [write_u8_t (mh_type h) BLOCK_SIZE, write_u32_t_le (mh_payload_size h) BLOCK_SIZE,
      write_u32_t_le (mh_crc h) BLOCK_SIZE]) (meta_header_fields h)"
    unfolding meta_header_fields_def by (intro lays_Cons sst_field_lays lays_run_all_Nil)
  have "fits_in_block (woff f) MetaHeader_disk_size BLOCK_SIZE = Ok"
    using fits_pass [OF assms(2), of 9] assms(3) by simp
  then show "MetaHeader_write h f = run_all [write_u8_t (mh_type h) BLOCK_SIZE,
      write_u32_t_le (mh_payload_size h) BLOCK_SIZE, write_u32_t_le (mh_crc h) BLOCK_SIZE] f"
    unfolding MetaHeader_write_def using assms by (simp only: run_all_pass check_w_pass check_offset_pass)
qed (use assms(3) in \<open>simp add: meta_section_length\<close>)

lemma MetaPayload_write_emits:
  assumes "MetaPayload_validate p = Ok" "tracked f" "length (wdata f) mod BLOCK_SIZE + MetaPayload_disk_size p \<le> BLOCK_SIZE"
  shows "emits (MetaPayload_write p) (concat (meta_payload_fields p)) f"
proof (rule emits_lays_in_block [OF _ assms(2)])
  let ?ws = "[write_u64_t_le (mp_record_count p) BLOCK_SIZE, write_u64_t_le (mp_tombstone_count p) BLOCK_SIZE,
      write_u64_t_le (mp_min_seq p) BLOCK_SIZE, write_u64_t_le (mp_max_seq p) BLOCK_SIZE,
      write_u32_t_le (entry_size (mp_min_key p)) BLOCK_SIZE, write_u32_t_le (entry_size (mp_max_key p)) BLOCK_SIZE,
      write_u64_t_le (mp_block_count p) BLOCK_SIZE, write_u64_t_le (mp_data_bytes p) BLOCK_SIZE,
      write_bytes (mp_min_key p) BLOCK_SIZE, write_bytes (mp_max_key p) BLOCK_SIZE]"
  have len: "length (mp_min_key p) \<le> BLOCK_SIZE" "length (mp_max_key p) \<le> BLOCK_SIZE"
    using valid_meta_size [OF assms(1)] by (auto simp: BLOCK_SIZE_def)
  show "lays BLOCK_SIZE (run_all ?ws) (meta_payload_fields p)"
    unfolding meta_payload_fields_def using len by (intro lays_Cons sst_field_lays lays_run_all_Nil)
  have "fits_in_block (woff f) (MetaPayload_disk_size p) BLOCK_SIZE = Ok" using fits_pass [OF assms(2)] assms(3) by simp
  then show "MetaPayload_write p f = run_all ?ws f"
    unfolding MetaPayload_write_def using assms by (simp only: run_all_pass check_w_pass check_offset_pass)
qed (use assms(3) in \<open>simp add: meta_section_length\<close>)

lemma meta_body_emits:
  assumes "MetaPayload_validate p = Ok" "tracked f" "length (wdata f) mod BLOCK_SIZE = 0"
  shows "emits (run_all [MetaHeader_write (meta_header z p), MetaPayload_write p]) (meta_bytes z p) f"
  unfolding meta_bytes_def
proof (rule emits_run_all_Cons [OF assms(2)])
  show "emits (MetaHeader_write (meta_header z p)) (concat (meta_header_fields (meta_header z p))) f"
    using assms by (intro MetaHeader_write_emits meta_header_ok) (simp_all add: BLOCK_SIZE_def)
  fix f' assume f': "tracked f'" "wdata f' = wdata f @ concat (meta_header_fields (meta_header z p))"
  have "length (wdata f') mod BLOCK_SIZE + MetaPayload_disk_size p \<le> BLOCK_SIZE"
    using in_block_step [of BLOCK_SIZE "length (wdata f)" 9 "MetaPayload_disk_size p"] assms(3) f'(2) valid_meta_size [OF assms(1)]
    by (simp add: meta_section_length BLOCK_SIZE_def MetaPayload_disk_size_def)
  from MetaPayload_write_emits [OF assms(1) f'(1) this]
  show "emits (run_all [MetaPayload_write p]) (concat (meta_payload_fields p)) f'"
    using emits_run_all_Cons [OF f'(1) _ emits_run_all_Nil, of "MetaPayload_write p" "concat (meta_payload_fields p)"] by simp
qed

lemma MetaSection_write_okD:
  assumes "tracked f" "MetaSection_write z m o0 f = (Ok, f', m', off)"
  shows "MetaPayload_validate (ms_payload m) = Ok" "tracked f'"
    and "m' = \<lparr>ms_header = meta_header z (ms_payload m), ms_payload = ms_payload m\<rparr>"
    and "wdata f' = wdata f @ align_pad (length (wdata f)) @ meta_bytes z (ms_payload m)"
    and "off = length (wdata f) + length (align_pad (length (wdata f)))"
proof -
  let ?p = "ms_payload m"
  show v: "MetaPayload_validate ?p = Ok" using assms(2) meta_build_header_fails [of ?p z]
    by (cases "MetaPayload_validate ?p = Ok") (simp_all add: MetaSection_write_def)
  obtain c1 f1 where f1: "run_all [check_offset, align_to_block_boundary BLOCK_SIZE] f = (c1, f1)" by fastforce
  obtain c2 f2 where f2: "run_all [MetaHeader_write (meta_header z ?p), MetaPayload_write ?p] f1 = (c2, f2)" by fastforce
  have r: "c1 = Ok" "c2 = Ok" "f' = f2" "m' = m\<lparr>ms_header := meta_header z ?p\<rparr>" "off = woff f1"
    using assms(2) f1 f2
    by (auto simp: MetaSection_write_def meta_build_header_eq [OF v] split: if_splits simp del: run_all.simps)
  from emits_okD [OF align_run_emits [OF assms(1)] f1 [unfolded r(1)] assms(1)]
  have w1: "wdata f1 = wdata f @ align_pad (length (wdata f))" "tracked f1" by auto
  have "length (wdata f1) mod BLOCK_SIZE = 0" using align_pad_aligned [of "length (wdata f)"] w1(1) by simp
  from emits_okD [OF meta_body_emits [OF v w1(2) this] f2 [unfolded r(2)] w1(2)]
  show "wdata f' = wdata f @ align_pad (length (wdata f)) @ meta_bytes z ?p" "tracked f'" using w1 r by auto
  show "m' = \<lparr>ms_header = meta_header z ?p, ms_payload = ?p\<rparr>" "off = length (wdata f) + length (align_pad (length (wdata f)))"
    using r w1 by (simp_all add: tracked_def)
qed

lemma MetaSection_write_succeeds:
  assumes "MetaPayload_validate (ms_payload m) = Ok" "tracked f" "write_faultfree f"
  shows "\<exists>f' m' off. MetaSection_write z m o0 f = (Ok, f', m', off) \<and>
    write_faultfree f' \<and> wsenv f' = wsenv f \<and> wclose_ok f' = wclose_ok f"
proof -
  let ?p = "ms_payload m"
  obtain f1 where f1: "run_all [check_offset, align_to_block_boundary BLOCK_SIZE] f = (Ok, f1)"
    "wdata f1 = wdata f @ align_pad (length (wdata f))" "tracked f1" "write_faultfree f1" "wsenv f1 = wsenv f" "wclose_ok f1 = wclose_ok f"
    using emits_faultfreeD [OF align_run_emits [OF assms(2)] assms(2,3)] by metis
  have "length (wdata f1) mod BLOCK_SIZE = 0" using align_pad_aligned [of "length (wdata f)"] f1(2) by simp
  from emits_faultfreeD [OF meta_body_emits [OF assms(1) f1(3) this] f1(3,4)]
  obtain f2 where "run_all [MetaHeader_write (meta_header z ?p), MetaPayload_write ?p] f1 = (Ok, f2)" "write_faultfree f2"
    "wsenv f2 = wsenv f1" "wclose_ok f2 = wclose_ok f1" by metis
  then show ?thesis using f1 by (simp add: MetaSection_write_def meta_build_header_eq [OF assms(1)] del: run_all.simps)
qed

lemma MetaHeader_load_at:
  assumes "MetaHeader_validate h = Ok" "read_quiet D f" "bytes_at D (roff f) (concat (meta_header_fields h))"
    "roff f mod BLOCK_SIZE + 9 \<le> BLOCK_SIZE"
  shows "\<exists>f'. MetaHeader_load f = (Inr h, f') \<and> read_quiet D f' \<and> roff f' = roff f + 9"
proof -
  define m where "m = bind_r (read_u8_t BLOCK_SIZE) (\<lambda>t.
     bind_r (read_u32_t_le BLOCK_SIZE) (\<lambda>n.
     bind_r (read_u32_t_le BLOCK_SIZE) (\<lambda>crc.
     let h = \<lparr>mh_type = t, mh_payload_size = n, mh_crc = crc\<rparr> in
     bind_r (check_r (\<lambda>_. MetaHeader_validate h)) (\<lambda>_. return_r h))))"
  have "reads BLOCK_SIZE m ([enc_u8 (mh_type h)] @ [enc_u32 (mh_payload_size h)] @ [enc_u32 (mh_crc h)] @ []) h"
    unfolding m_def Let_def using assms(1)
    by (intro reads_bind [OF sst_field_reads(3)] reads_bind [OF sst_field_reads(2)] reads_check)
      (cases h; simp add: reads_return)+
  then have "reads BLOCK_SIZE m (meta_header_fields h) h" by (simp add: meta_header_fields_def)
  from reads_in_block [OF this assms(2,3)] assms(4)
  obtain f' where "m f = (Inr h, f')" "read_quiet (rdata f) f'" "roff f' = roff f + 9"
    by (auto simp: meta_section_length yields_def)
  moreover have "fits_in_block (roff f) MetaHeader_disk_size BLOCK_SIZE = Ok" using assms(4) fits_pass_r by simp
  ultimately show ?thesis using quiet_data [OF assms(2)]
    unfolding MetaHeader_load_def m_def [symmetric] by (simp add: bind_check_pass restoring_def del: meta_sizes)
qed

lemma alloc_key_loads:
  "loads B E m cs v \<Longrightarrow> loads B E (bind_l (alloc_key_storage n) (\<lambda>_. m)) cs v"
proof (cases "n > 0")
  case True
  moreover assume "loads B E m cs v"
  moreover have "bind_l (bind_l a (\<lambda>_. return_l ())) (\<lambda>_. m) = bind_l a (\<lambda>_. m)" for a :: "pointer loader"
    by (auto simp: fun_eq_iff bind_l_def return_l_def split: option.split sum.split)
  moreover have "has_single_bit 1" using has_single_bit_pow [of 0] by simp
  ultimately show ?thesis using loads_alloc [of 1 n B E "\<lambda>_. m" cs v] by (simp add: alloc_key_storage_def)
next
  case False
  moreover have "bind_l (return_l ()) (\<lambda>_. m) = m" by (simp add: fun_eq_iff bind_l_def return_l_def)
  ultimately show "loads B E m cs v \<Longrightarrow> ?thesis" by (simp add: alloc_key_storage_def)
qed

lemma read_key_loads:
  assumes "length bs \<le> BLOCK_SIZE"
  shows "loads BLOCK_SIZE E (read_key_if (entry_size bs)) [bs] bs"
proof -
  have sz: "unat (entry_size bs) = length bs" using assms by (intro entry_size_unat) (simp add: BLOCK_SIZE_def)
  show ?thesis
  proof (cases "bs = []")
    case True
    have "loads BLOCK_SIZE E (return_l []) [[]] []"
      by (rule loadsI) (auto simp: return_l_def pad_before_def extends_refl)
    then show ?thesis using True sz by (simp add: read_key_if_def)
  next
    case False
    then show ?thesis using loads_lift [OF sst_field_reads(4) [OF assms]] sz by (simp add: read_key_if_def)
  qed
qed

lemma read_meta_fields_loads:
  assumes "MetaPayload_validate p = Ok" "h = meta_header z p"
  shows "loads BLOCK_SIZE E (read_meta_fields h) (meta_payload_fields p) p"
proof -
  have len: "length (mp_min_key p) \<le> BLOCK_SIZE" "length (mp_max_key p) \<le> BLOCK_SIZE"
    using valid_meta_size [OF assms(1)] by (auto simp: BLOCK_SIZE_def)
  have sz: "unat (entry_size (mp_min_key p)) = length (mp_min_key p)" "unat (entry_size (mp_max_key p)) = length (mp_max_key p)"
    using valid_meta_size [OF assms(1)] by (auto intro!: entry_size_unat)
  have ok: "56 + unat (entry_size (mp_min_key p)) + unat (entry_size (mp_max_key p)) = unat (mh_payload_size h)"
    using meta_header_size [OF assms(1), of z] sz assms(2) by (simp add: MetaPayload_disk_size_def)
  have "loads BLOCK_SIZE E (read_meta_fields h)
    ([enc_u64 (mp_record_count p)] @ [enc_u64 (mp_tombstone_count p)] @ [enc_u64 (mp_min_seq p)] @
     [enc_u64 (mp_max_seq p)] @ [enc_u32 (entry_size (mp_min_key p))] @ [enc_u32 (entry_size (mp_max_key p))] @
     [enc_u64 (mp_block_count p)] @ [enc_u64 (mp_data_bytes p)] @ [mp_min_key p] @ [mp_max_key p] @ []) p"
    unfolding read_meta_fields_def
    by (intro loads_bind [OF loads_lift [OF sst_field_reads(1)]] loads_bind [OF loads_lift [OF sst_field_reads(2)]]
        loads_pass alloc_key_loads loads_bind [OF read_key_loads [OF len(1)]] loads_bind [OF read_key_loads [OF len(2)]])
      (use ok in \<open>cases p; simp add: loads_return\<close>)+
  then show ?thesis by (simp add: meta_payload_fields_def)
qed

text \<open>A loader whose fields lie inside one block.\<close>

lemma loads_in_block:
  assumes "loads BLOCK_SIZE None m cs v" "read_quiet D f" "arena_ok ar" "never_oom ar" "bytes_at D (roff f) (concat cs)"
    and "roff f mod BLOCK_SIZE + length (concat cs) \<le> BLOCK_SIZE"
  obtains f' ar' where "m (f, ar) = Some (Inr v, f', ar')" "read_quiet D f'" "extends ar ar'" "never_oom ar'"
    "roff f' = roff f + length (concat cs)"
  using assms(1-4) assms(5) [folded lay_in_block [OF assms(6)]]
  by (cases rule: loadsD) (simp_all add: fits_def lay_in_block [OF assms(6)])

lemma MetaPayload_load_at:
  assumes "MetaPayload_validate p = Ok" "read_quiet D f" "arena_ok ar" "never_oom ar"
    "bytes_at D (roff f) (concat (meta_payload_fields p))" "roff f mod BLOCK_SIZE + MetaPayload_disk_size p \<le> BLOCK_SIZE"
  obtains f' ar' where "MetaPayload_load z (meta_header z p) (f, ar) = Some (Inr p, f', ar')" "read_quiet D f'"
    "roff f' = roff f + MetaPayload_disk_size p" "extends ar ar'" "never_oom ar'"
proof -
  let ?h = "meta_header z p"
  from loads_in_block [OF read_meta_fields_loads [OF assms(1) refl] assms(2-5)] assms(6)
  obtain f' ar' where r: "read_meta_fields ?h (f, ar) = Some (Inr p, f', ar')" "read_quiet D f'" "extends ar ar'" "never_oom ar'"
    "roff f' = roff f + MetaPayload_disk_size p" by (auto simp: meta_section_length)
  have fits: "fits_in_block (roff f) (unat (mh_payload_size ?h)) BLOCK_SIZE = Ok"
    using assms(6) meta_header_size [OF assms(1), of z] by (simp add: fits_pass_r)
  have crc: "mh_crc ?h = MetaPayload_calculate_crc32 z p" by (simp add: meta_header_def)
  have "MetaPayload_load z ?h (f, ar) = Some (Inr p, f', ar')"
    unfolding MetaPayload_load_def
    by (rule transact_ok) (simp add: run_l meta_header_ok [OF assms(1)] fits bind_l_step [where m = "read_meta_fields ?h", OF r(1)]
      crc assms(1) return_l_def)
  with r that show ?thesis by blast
qed

lemma MetaSection_load_at:
  assumes "MetaPayload_validate p = Ok" "validate_index_consistency p idx = Ok" "read_quiet D f" "arena_ok ar" "never_oom ar"
    "off mod BLOCK_SIZE = 0" "bytes_at D off (meta_bytes z p)"
  obtains f' ar' where "MetaSection_load z idx off (f, ar) = Some (Inr \<lparr>ms_header = meta_header z p, ms_payload = p\<rparr>, f', ar')"
    "read_quiet D f'" "roff f' = off + length (meta_bytes z p)" "extends ar ar'" "never_oom ar'"
proof -
  let ?h = "meta_header z p"
  have at: "bytes_at D off (concat (meta_header_fields ?h))" "bytes_at D (off + 9) (concat (meta_payload_fields p))"
    using assms(7) by (simp_all add: meta_bytes_def bytes_at_append meta_section_length)
  obtain g where g: "MetaHeader_load (f\<lparr>roff := off\<rparr>) = (Inr ?h, g)" "read_quiet D g" "roff g = off + 9"
    using MetaHeader_load_at [OF meta_header_ok [OF assms(1)], of D "f\<lparr>roff := off\<rparr>" z] assms(3,6) at(1) by (auto simp: BLOCK_SIZE_def)
  have "roff g mod BLOCK_SIZE + MetaPayload_disk_size p \<le> BLOCK_SIZE"
    using in_block_step [of BLOCK_SIZE off 9 "MetaPayload_disk_size p"] assms(6) g(3) valid_meta_size [OF assms(1)]
    by (simp add: BLOCK_SIZE_def MetaPayload_disk_size_def)
  then obtain h ar' where h: "MetaPayload_load z ?h (g, ar) = Some (Inr p, h, ar')" "read_quiet D h"
    "roff h = off + length (meta_bytes z p)" "extends ar ar'" "never_oom ar'"
    using MetaPayload_load_at [OF assms(1) g(2) assms(4,5)] at(2) g(3) by (auto simp: meta_section_length add.assoc)
  have v: "MetaSection_validate z idx \<lparr>ms_header = ?h, ms_payload = p\<rparr> = Ok"
    using meta_header_ok [OF assms(1), of z] meta_header_size [OF assms(1), of z] assms(1,2)
    by (simp add: MetaSection_validate_def meta_header_def)
  have "MetaSection_load z idx off (f, ar) = Some (Inr \<lparr>ms_header = ?h, ms_payload = p\<rparr>, h, ar')"
    unfolding MetaSection_load_def Let_def
    by (rule transact_ok) (use assms(6) in \<open>simp add: run_l g(1) bind_l_step [where m = "MetaPayload_load z ?h", OF h(1)] v return_l_def\<close>)
  with h that show ?thesis by blast
qed

section \<open>Properties\<close>

text \<open>C29 (metadata). For a well-formed, non-empty data section and the index derived from it, a rebuild
  computes the number of records and tombstones, the number of blocks, and the key and sequence bounds
  that the records attain. It succeeds exactly when the first and the last key together have at most
  4031 bytes; otherwise it fails, although each record can be stored: a table whose boundary keys are
  longer cannot be written.\<close>

theorem meta_rebuild_correct:
  assumes "section_ok z ds" "data_blocks ds \<noteq> []" "index_ok (idx_payloads (section_index z off ds))"
    "MetaSection_rebuild z ds (section_index z off ds) m = (c, m')"
  shows "(c = Ok \<longleftrightarrow> length (key_entry (hd (section_records ds))) + length (key_entry (last (section_records ds))) \<le> 4031) \<and>
    (if c = Ok then unat (mp_record_count (ms_payload m')) = length (section_records ds) \<and>
       unat (mp_tombstone_count (ms_payload m')) = length (filter (\<lambda>r. rtype r = Tombstone) (section_records ds)) \<and>
       unat (mp_block_count (ms_payload m')) = length (data_blocks ds) \<and>
       mp_min_key (ms_payload m') = key_entry (hd (section_records ds)) \<and>
       mp_max_key (ms_payload m') = key_entry (last (section_records ds)) \<and>
       mp_min_seq (ms_payload m') = Min (seq_num ` set (section_records ds)) \<and>
       mp_max_seq (ms_payload m') = Max (seq_num ` set (section_records ds))
     else c = InvalidPayloadSize \<and> m' = m)"
proof (cases "length (key_entry (hd (section_records ds))) + length (key_entry (last (section_records ds))) \<le> 4031")
  case True
  then obtain m'' where "MetaSection_rebuild z ds (section_index z off ds) m = (Ok, m'')" "meta_ok z ds m''"
    using MetaSection_rebuild_spec(1) [OF assms(1-3)] by fastforce
  then have c: "c = Ok" and ok: "meta_ok z ds m'" using assms(4) by auto
  let ?ps = "section_payloads ds" and ?p = "ms_payload m'"
  have sm: "summarises ?ps ?p" "unat (mp_block_count ?p) = length (data_blocks ds)" using ok by (simp_all add: meta_ok_def)
  note ne = section_nonempty(1) [OF assms(1,2)]
  have srt: "sorted_wrt ordered ?ps" using assms(1) by (simp add: section_ok_def)
  have seqs: "seq_num ` set (section_records ds) = pl_seq ` set ?ps" by (simp add: section_records_def image_image record_of_def)
  have "mp_min_seq ?p = Min (pl_seq ` set ?ps)" "mp_max_seq ?p = Max (pl_seq ` set ?ps)"
    using sm(1) ne by (auto simp: summarises_def intro!: Min_eqI [symmetric] Max_eqI [symmetric])
  moreover have "filter (\<lambda>r. rtype r = Tombstone) (section_records ds) = map record_of (filter is_tombstone ?ps)"
    by (simp add: section_records_def filter_map comp_def record_of_def)
  ultimately show ?thesis using True c sm ne summary_keys(1,2) [OF sm(1) srt ne] unfolding seqs
    by (simp add: summarises_def section_records_def hd_map last_map record_of_def)
next
  case False
  then have "MetaSection_rebuild z ds (section_index z off ds) m = (InvalidPayloadSize, m)"
    using MetaSection_rebuild_spec(2) [OF assms(1-3)] by fastforce
  then show ?thesis using False assms(4) by auto
qed

text \<open>A section with one record whose key fills most of a block.\<close>

definition ex_long_record :: InternalRecord where
  "ex_long_record = \<lparr>key_entry = replicate 2016 1, value_entry = [], rtype = Put, seq_num = 1\<rparr>"

definition ex_long_section :: DataSection where
  "ex_long_section = \<lparr>data_blocks = [\<lparr>db_header = data_header ex_zlib [DataPayload_of ex_long_record],
     db_payloads = [DataPayload_of ex_long_record]\<rparr>]\<rparr>"

lemma ex_long_ok: "section_ok ex_zlib ex_long_section" "data_blocks ex_long_section \<noteq> []"
  "section_records ex_long_section = [ex_long_record]"
proof -
  have "storable ex_long_record" by (simp add: storable_def ex_long_record_def)
  then show "section_ok ex_zlib ex_long_section" "data_blocks ex_long_section \<noteq> []"
    "section_records ex_long_section = [ex_long_record]"
    using payload_of_valid [of ex_long_record] record_of_payload [of ex_long_record]
    by (auto simp: section_ok_def ex_long_section_def block_ok_def block_list_ok_def section_payloads_def section_records_def
      storable_def payload_disk_size_def)
     (simp add: DataPayload_of_def)
qed

lemma ex_long_index: "index_ok (idx_payloads (section_index ex_zlib 4096 ex_long_section))"
  by (simp add: section_index_def idx_of_def ex_long_section_def entry_of_def index_ok_def IndexPayload_validate_def
    IndexPayload_disk_size_def DataPayload_of_def ex_long_record_def BLOCK_SIZE_def)

theorem meta_rebuild_correct_witness:
  "\<exists>m'. MetaSection_rebuild ex_zlib ex_long_section (section_index ex_zlib 4096 ex_long_section) (MetaSection_new ex_zlib) =
    (InvalidPayloadSize, m')"
  using meta_rebuild_correct [OF ex_long_ok(1,2) ex_long_index prod.collapse [symmetric], of "MetaSection_new ex_zlib"]
  by (simp add: ex_long_ok(3)) (simp add: ex_long_record_def prod_eq_iff)

end
