(* ===== verification/FileFooter.thy ===== *)
theory FileFooter
  imports MetaSection
begin

text \<open>
  The footer of a table (\<^verbatim>\<open>core/sstable_entities/file_footer_section.cpp\<close>): the directory of the sections
  at the end of the file. A footer that was written describes the sections in their order inside the
  file and is loaded back from its end.
\<close>

section \<open>Model\<close>

record FileFooterSection =
  ff_magic :: u32
  ff_version :: u32
  ff_reserved :: u32
  ff_data_offset :: u64
  ff_block_count :: u64
  ff_index_offset :: u64
  ff_index_size :: u32
  ff_bloom_offset :: u64
  ff_bloom_size :: u32
  ff_meta_offset :: u64
  ff_meta_size :: u32
  ff_file_size :: u64
  ff_crc :: u32

definition FileFooter_disk_size :: nat where "FileFooter_disk_size = 76"
definition kSectionHeaderDiskSize :: nat where "kSectionHeaderDiskSize = 9"
definition kBloomSectionDiskSizeV1 :: nat where "kBloomSectionDiskSizeV1 = kSectionHeaderDiskSize + (8 + 4 + 4 + BLOOM_MASK_BIT_SIZE)"
definition kMetaMinimumDiskSizeV1 :: nat where "kMetaMinimumDiskSizeV1 = kSectionHeaderDiskSize + (6 * 8 + 2 * 4)"

definition IndexSection_disk_size :: "IndexSection \<Rightarrow> nat" where
  "IndexSection_disk_size idx = IndexHeader_disk_size + sum_list (map IndexPayload_disk_size (idx_payloads idx))"

definition is_block_aligned :: "nat \<Rightarrow> bool" where
  "is_block_aligned v = (v mod BLOCK_SIZE = 0)"

definition validate_section_span :: "nat \<Rightarrow> nat \<Rightarrow> nat \<Rightarrow> StatusCode" where
  "validate_section_span section_offset logical_size next_section_offset =
     (if section_offset \<ge> next_section_offset then OffsetOverlap
      else if logical_size > next_section_offset - section_offset then OffsetOverlap
      else Ok)"

definition checked_section_size :: "nat \<Rightarrow> u32 result" where
  "checked_section_size v = (if v > u32_max then Inl DataTypeOverflow else Inr (of_nat v))"

definition FileFooter_calculate_crc32 :: "zlib \<Rightarrow> FileFooterSection \<Rightarrow> u32" where
  "FileFooter_calculate_crc32 z t =
     (let crc = crc32_add_u32 z (ff_magic t) (crc_init z);
          crc = crc32_add_u32 z (ff_version t) crc;
          crc = crc32_add_u32 z (ff_reserved t) crc;
          crc = crc32_add_u64 z (ff_data_offset t) crc;
          crc = crc32_add_u64 z (ff_block_count t) crc;
          crc = crc32_add_u64 z (ff_index_offset t) crc;
          crc = crc32_add_u32 z (ff_index_size t) crc;
          crc = crc32_add_u64 z (ff_bloom_offset t) crc;
          crc = crc32_add_u32 z (ff_bloom_size t) crc;
          crc = crc32_add_u64 z (ff_meta_offset t) crc;
          crc = crc32_add_u32 z (ff_meta_size t) crc
      in crc32_add_u64 z (ff_file_size t) crc)"

definition FileFooter_new :: "zlib \<Rightarrow> FileFooterSection" where
  "FileFooter_new z =
     (let t = \<lparr>ff_magic = FILE_FOOTER_MAGIC, ff_version = LATEST_SSTABLE_VERSION, ff_reserved = 0, ff_data_offset = 0,
        ff_block_count = 0, ff_index_offset = 0, ff_index_size = 0, ff_bloom_offset = 0, ff_bloom_size = 0,
        ff_meta_offset = 0, ff_meta_size = 0, ff_file_size = 0, ff_crc = 0\<rparr>
      in t\<lparr>ff_crc := FileFooter_calculate_crc32 z t\<rparr>)"

definition FileFooter_validate :: "zlib \<Rightarrow> nat \<Rightarrow> nat \<Rightarrow> FileFooterSection \<Rightarrow> StatusCode" where
  "FileFooter_validate z footer_offset actual_file_size t =
     (let data_off = unat (ff_data_offset t); blocks = unat (ff_block_count t); index_off = unat (ff_index_offset t);
          bloom_off = unat (ff_bloom_offset t); meta_off = unat (ff_meta_offset t) in
      if ff_magic t \<noteq> FILE_FOOTER_MAGIC then BadMagic
      else if ff_version t = 0 \<or> ff_version t > LATEST_SSTABLE_VERSION then UnsupportedVersion
      else if ff_reserved t \<noteq> 0 then InvalidFooter
      else if \<not> is_block_aligned footer_offset then InvalidBlockAlignment
      else if footer_offset > u64_max - FileFooter_disk_size then DataTypeOverflow
      else if actual_file_size \<noteq> footer_offset + FileFooter_disk_size \<or> unat (ff_file_size t) \<noteq> actual_file_size then InvalidFooter
      else if \<not> is_block_aligned index_off \<or> \<not> is_block_aligned bloom_off \<or> \<not> is_block_aligned meta_off then InvalidSectionOffset
      else if blocks > 0 \<and> \<not> is_block_aligned data_off then InvalidSectionOffset
      else if blocks > 0 \<and> blocks > (u64_max - data_off) div BLOCK_SIZE then DataTypeOverflow
      else if blocks > 0 \<and> data_off + blocks * BLOCK_SIZE \<noteq> index_off then OffsetOverlap
      else if blocks = 0 \<and> data_off > index_off then InvalidSectionOffset
      else if unat (ff_index_size t) < kSectionHeaderDiskSize then InvalidSectionSize
      else if unat (ff_bloom_size t) \<noteq> kBloomSectionDiskSizeV1 then InvalidSectionSize
      else if unat (ff_meta_size t) < kMetaMinimumDiskSizeV1 \<or> unat (ff_meta_size t) > BLOCK_SIZE then InvalidSectionSize
      else let status = validate_section_span index_off (unat (ff_index_size t)) bloom_off in
        if \<not> is_ok status then status
        else let status = validate_section_span bloom_off (unat (ff_bloom_size t)) meta_off in
          if \<not> is_ok status then status
          else let status = validate_section_span meta_off (unat (ff_meta_size t)) footer_offset in
            if \<not> is_ok status then status
            else if FileFooter_calculate_crc32 z t \<noteq> ff_crc t then ChecksumMismatch
            else Ok)"

definition finalize :: "zlib \<Rightarrow> wfile \<Rightarrow> nat \<Rightarrow> FileFooterSection action" where
  "finalize z f footer_offset t =
     (case current_position f of
        Inl e \<Rightarrow> (e, t)
      | Inr position \<Rightarrow>
          if position \<noteq> footer_offset then (InvalidOffset, t)
          else if \<not> is_block_aligned footer_offset then (InvalidBlockAlignment, t)
          else case wget_file_size f of
            Inl e \<Rightarrow> (e, t)
          | Inr current_file_size \<Rightarrow>
              if current_file_size \<noteq> footer_offset then (InvalidState, t)
              else if footer_offset > u64_max - FileFooter_disk_size then (DataTypeOverflow, t)
              else let staged = t\<lparr>ff_magic := FILE_FOOTER_MAGIC, ff_version := LATEST_SSTABLE_VERSION, ff_reserved := 0,
                         ff_file_size := of_nat (footer_offset + FileFooter_disk_size)\<rparr>;
                       staged = staged\<lparr>ff_crc := FileFooter_calculate_crc32 z staged\<rparr>;
                       status = FileFooter_validate z footer_offset (unat (ff_file_size staged)) staged
                   in if \<not> is_ok status then (status, t) else (Ok, staged))"

definition FileFooter_write :: "zlib \<Rightarrow> FileFooterSection \<Rightarrow> wfile \<Rightarrow> StatusCode \<times> wfile \<times> FileFooterSection" where
  "FileFooter_write z t f =
     (case finalize z f (woff f) t of (c, staged) \<Rightarrow>
        if \<not> is_ok c then (c, f, t)
        else case run_all
            [check_w (\<lambda>f. fits_in_block (woff f) FileFooter_disk_size BLOCK_SIZE),
             write_u32_t_le (ff_magic staged) BLOCK_SIZE, write_u32_t_le (ff_version staged) BLOCK_SIZE,
             write_u32_t_le (ff_reserved staged) BLOCK_SIZE, write_u64_t_le (ff_data_offset staged) BLOCK_SIZE,
             write_u64_t_le (ff_block_count staged) BLOCK_SIZE, write_u64_t_le (ff_index_offset staged) BLOCK_SIZE,
             write_u32_t_le (ff_index_size staged) BLOCK_SIZE, write_u64_t_le (ff_bloom_offset staged) BLOCK_SIZE,
             write_u32_t_le (ff_bloom_size staged) BLOCK_SIZE, write_u64_t_le (ff_meta_offset staged) BLOCK_SIZE,
             write_u32_t_le (ff_meta_size staged) BLOCK_SIZE, write_u64_t_le (ff_file_size staged) BLOCK_SIZE,
             write_u32_t_le (ff_crc staged) BLOCK_SIZE] f of (c, f') \<Rightarrow>
          if \<not> is_ok c then (c, f', t) else (Ok, f', staged))"

definition read_footer_fields :: "(rfile, FileFooterSection) reader" where
  "read_footer_fields =
     bind_r (read_u32_t_le BLOCK_SIZE) (\<lambda>m.
     bind_r (read_u32_t_le BLOCK_SIZE) (\<lambda>v.
     bind_r (read_u32_t_le BLOCK_SIZE) (\<lambda>r.
     bind_r (read_u64_t_le BLOCK_SIZE) (\<lambda>doff.
     bind_r (read_u64_t_le BLOCK_SIZE) (\<lambda>blocks.
     bind_r (read_u64_t_le BLOCK_SIZE) (\<lambda>ioff.
     bind_r (read_u32_t_le BLOCK_SIZE) (\<lambda>isize.
     bind_r (read_u64_t_le BLOCK_SIZE) (\<lambda>boff.
     bind_r (read_u32_t_le BLOCK_SIZE) (\<lambda>bsize.
     bind_r (read_u64_t_le BLOCK_SIZE) (\<lambda>moff.
     bind_r (read_u32_t_le BLOCK_SIZE) (\<lambda>msize.
     bind_r (read_u64_t_le BLOCK_SIZE) (\<lambda>fsize.
     bind_r (read_u32_t_le BLOCK_SIZE) (\<lambda>crc.
     return_r \<lparr>ff_magic = m, ff_version = v, ff_reserved = r, ff_data_offset = doff, ff_block_count = blocks,
       ff_index_offset = ioff, ff_index_size = isize, ff_bloom_offset = boff, ff_bloom_size = bsize,
       ff_meta_offset = moff, ff_meta_size = msize, ff_file_size = fsize, ff_crc = crc\<rparr>)))))))))))))"

definition FileFooter_load :: "zlib \<Rightarrow> nat \<Rightarrow> (rfile, FileFooterSection) reader" where
  "FileFooter_load z backwards_offset f = restoring (roff f) (
     bind_r size_r (\<lambda>actual_file_size.
     bind_r (check_r (\<lambda>_. if actual_file_size < FileFooter_disk_size then UnexpectedEOF else Ok)) (\<lambda>_.
     bind_r (check_r (\<lambda>_. if backwards_offset \<noteq> 0 \<and> backwards_offset > actual_file_size then OffsetOutOfRange else Ok)) (\<lambda>_.
     bind_r offset_r (\<lambda>offset.
     let footer_offset = (if backwards_offset \<noteq> 0 then actual_file_size - backwards_offset else offset) in
     bind_r (check_r (\<lambda>_. if \<not> is_block_aligned footer_offset then InvalidBlockAlignment else Ok)) (\<lambda>_.
     bind_r (check_r (\<lambda>_. if \<not> is_ok (can_read_range footer_offset FileFooter_disk_size actual_file_size)
       then UnexpectedEOF else Ok)) (\<lambda>_.
     bind_r (check_r (\<lambda>_. if footer_offset + FileFooter_disk_size \<noteq> actual_file_size then InvalidFooter else Ok)) (\<lambda>_.
     bind_r (check_r (\<lambda>_. fits_in_block footer_offset FileFooter_disk_size BLOCK_SIZE)) (\<lambda>_.
     bind_r (seek_r footer_offset) (\<lambda>_.
     bind_r read_footer_fields (\<lambda>t.
     bind_r (check_r (\<lambda>_. if FileFooter_calculate_crc32 z t \<noteq> ff_crc t then ChecksumMismatch else Ok)) (\<lambda>_.
     bind_r (check_r (\<lambda>_. FileFooter_validate z footer_offset actual_file_size t)) (\<lambda>_.
     return_r t)))))))))))) f)"

text \<open>The four overloads of \<open>rebuild\<close>, each setting the directory entry of one section.\<close>

definition FileFooter_rebuild_data :: "DataSection \<Rightarrow> nat \<Rightarrow> FileFooterSection action" where
  "FileFooter_rebuild_data ds off t =
     (if data_blocks ds \<noteq> [] \<and> \<not> is_block_aligned off then (InvalidSectionOffset, t)
      else (Ok, t\<lparr>ff_data_offset := of_nat off, ff_block_count := of_nat (length (data_blocks ds))\<rparr>))"

definition FileFooter_rebuild_index :: "IndexSection \<Rightarrow> nat \<Rightarrow> FileFooterSection action" where
  "FileFooter_rebuild_index idx off t =
     (if \<not> is_block_aligned off then (InvalidSectionOffset, t)
      else case checked_section_size (IndexSection_disk_size idx) of
        Inl e \<Rightarrow> (e, t)
      | Inr n \<Rightarrow> if unat n < kSectionHeaderDiskSize then (InvalidSectionSize, t)
          else (Ok, t\<lparr>ff_index_offset := of_nat off, ff_index_size := n\<rparr>))"

definition FileFooter_rebuild_bloom :: "nat \<Rightarrow> FileFooterSection action" where
  "FileFooter_rebuild_bloom off t =
     (if \<not> is_block_aligned off then (InvalidSectionOffset, t)
      else case checked_section_size BloomSection_disk_size of
        Inl e \<Rightarrow> (e, t)
      | Inr n \<Rightarrow> (Ok, t\<lparr>ff_bloom_offset := of_nat off, ff_bloom_size := n\<rparr>))"

definition FileFooter_rebuild_meta :: "MetaSection \<Rightarrow> nat \<Rightarrow> FileFooterSection action" where
  "FileFooter_rebuild_meta m off t =
     (if \<not> is_block_aligned off then (InvalidSectionOffset, t)
      else case checked_section_size (MetaSection_disk_size m) of
        Inl e \<Rightarrow> (e, t)
      | Inr n \<Rightarrow> (Ok, t\<lparr>ff_meta_offset := of_nat off, ff_meta_size := n\<rparr>))"

section \<open>What is written and read\<close>

definition footer_fields :: "FileFooterSection \<Rightarrow> byte list list" where
  "footer_fields t = [enc_u32 (ff_magic t), enc_u32 (ff_version t), enc_u32 (ff_reserved t), enc_u64 (ff_data_offset t),
     enc_u64 (ff_block_count t), enc_u64 (ff_index_offset t), enc_u32 (ff_index_size t), enc_u64 (ff_bloom_offset t),
     enc_u32 (ff_bloom_size t), enc_u64 (ff_meta_offset t), enc_u32 (ff_meta_size t), enc_u64 (ff_file_size t), enc_u32 (ff_crc t)]"

lemma footer_sizes [simp]: "FileFooter_disk_size = 76" "kSectionHeaderDiskSize = 9" "kBloomSectionDiskSizeV1 = 153"
  "kMetaMinimumDiskSizeV1 = 65"
  by (simp_all add: FileFooter_disk_size_def kSectionHeaderDiskSize_def kBloomSectionDiskSizeV1_def kMetaMinimumDiskSizeV1_def)

lemma footer_fields_length: "length (concat (footer_fields t)) = 76"
  by (simp add: footer_fields_def)

lemma finalize_okD:
  assumes "tracked f" "finalize z f (woff f) t = (Ok, t')"
  shows "FileFooter_validate z (length (wdata f)) (length (wdata f) + 76) t' = Ok" "length (wdata f) mod BLOCK_SIZE = 0"
    and "t' = t\<lparr>ff_magic := ff_magic t', ff_version := ff_version t', ff_reserved := ff_reserved t',
      ff_file_size := ff_file_size t', ff_crc := ff_crc t'\<rparr>"
proof -
  let ?n = "length (wdata f)"
  have pos: "current_position f = Inr ?n" "wget_file_size f = Inr ?n" "woff f = ?n"
    using assms(1) by (simp_all add: tracked_def current_position_def wget_file_size_def)
  show al: "?n mod BLOCK_SIZE = 0" using assms(2) pos
    by (cases "?n mod BLOCK_SIZE = 0") (simp_all add: finalize_def is_block_aligned_def)
  define s where "s = t\<lparr>ff_magic := FILE_FOOTER_MAGIC, ff_version := LATEST_SSTABLE_VERSION, ff_reserved := 0,
    ff_file_size := of_nat (?n + FileFooter_disk_size)\<rparr>"
  define u where "u = s\<lparr>ff_crc := FileFooter_calculate_crc32 z s\<rparr>"
  have le: "\<not> ?n > u64_max - FileFooter_disk_size" using assms(2) pos al
    by (cases "?n > u64_max - FileFooter_disk_size") (simp_all add: finalize_def is_block_aligned_def)
  then have "?n + FileFooter_disk_size \<le> u64_max" by simp
  then have sz: "unat (ff_file_size u) = ?n + 76" using unat_nat64 [of "?n + FileFooter_disk_size"] by (simp add: u_def s_def)
  have "finalize z f (woff f) t = (let status = FileFooter_validate z ?n (?n + 76) u in if \<not> is_ok status then (status, t) else (Ok, u))"
    unfolding finalize_def pos sum.case using al le sz by (simp add: is_block_aligned_def u_def s_def Let_def)
  then have u: "t' = u" "FileFooter_validate z ?n (?n + 76) u = Ok" using assms(2) by (auto simp: Let_def split: if_splits)
  then show "FileFooter_validate z ?n (?n + 76) t' = Ok" by simp
  show "t' = t\<lparr>ff_magic := ff_magic t', ff_version := ff_version t', ff_reserved := ff_reserved t',
      ff_file_size := ff_file_size t', ff_crc := ff_crc t'\<rparr>" by (simp add: u(1) u_def s_def)
qed

lemma footer_body_emits:
  assumes "tracked f" "length (wdata f) mod BLOCK_SIZE = 0"
  shows "emits (run_all [check_w (\<lambda>f. fits_in_block (woff f) FileFooter_disk_size BLOCK_SIZE),
             write_u32_t_le (ff_magic t) BLOCK_SIZE, write_u32_t_le (ff_version t) BLOCK_SIZE,
             write_u32_t_le (ff_reserved t) BLOCK_SIZE, write_u64_t_le (ff_data_offset t) BLOCK_SIZE,
             write_u64_t_le (ff_block_count t) BLOCK_SIZE, write_u64_t_le (ff_index_offset t) BLOCK_SIZE,
             write_u32_t_le (ff_index_size t) BLOCK_SIZE, write_u64_t_le (ff_bloom_offset t) BLOCK_SIZE,
             write_u32_t_le (ff_bloom_size t) BLOCK_SIZE, write_u64_t_le (ff_meta_offset t) BLOCK_SIZE,
             write_u32_t_le (ff_meta_size t) BLOCK_SIZE, write_u64_t_le (ff_file_size t) BLOCK_SIZE,
             write_u32_t_le (ff_crc t) BLOCK_SIZE]) (concat (footer_fields t)) f"
    (is "emits (run_all (?check # ?ws)) _ f")
proof (rule emits_lays_in_block [OF _ assms(1)])
  show "lays BLOCK_SIZE (run_all ?ws) (footer_fields t)"
    unfolding footer_fields_def by (intro lays_Cons sst_field_lays lays_run_all_Nil)
  have "fits_in_block (woff f) FileFooter_disk_size BLOCK_SIZE = Ok"
    using fits_pass [OF assms(1), of 76] assms(2) by (simp add: BLOCK_SIZE_def)
  then show "run_all (?check # ?ws) f = run_all ?ws f" by (simp only: run_all_pass check_w_pass)
qed (use assms(2) in \<open>simp add: footer_fields_length BLOCK_SIZE_def\<close>)

lemma FileFooter_write_okD:
  assumes "tracked f" "FileFooter_write z t f = (Ok, f', t')"
  shows "tracked f'" "wdata f' = wdata f @ concat (footer_fields t')" "length (wdata f) mod BLOCK_SIZE = 0"
    and "FileFooter_validate z (length (wdata f)) (length (wdata f')) t' = Ok"
    and "finalize z f (woff f) t = (Ok, t')"
proof -
  obtain c1 s where s: "finalize z f (woff f) t = (c1, s)" by fastforce
  have c1: "c1 = Ok" using assms(2) s by (auto simp: FileFooter_write_def split: if_splits)
  note d = finalize_okD [OF assms(1) s [unfolded c1]]
  note em = footer_body_emits [OF assms(1) d(2), of s]
  from assms(2) have r: "t' = s" and w: "run_all [check_w (\<lambda>f. fits_in_block (woff f) FileFooter_disk_size BLOCK_SIZE),
             write_u32_t_le (ff_magic s) BLOCK_SIZE, write_u32_t_le (ff_version s) BLOCK_SIZE,
             write_u32_t_le (ff_reserved s) BLOCK_SIZE, write_u64_t_le (ff_data_offset s) BLOCK_SIZE,
             write_u64_t_le (ff_block_count s) BLOCK_SIZE, write_u64_t_le (ff_index_offset s) BLOCK_SIZE,
             write_u32_t_le (ff_index_size s) BLOCK_SIZE, write_u64_t_le (ff_bloom_offset s) BLOCK_SIZE,
             write_u32_t_le (ff_bloom_size s) BLOCK_SIZE, write_u64_t_le (ff_meta_offset s) BLOCK_SIZE,
             write_u32_t_le (ff_meta_size s) BLOCK_SIZE, write_u64_t_le (ff_file_size s) BLOCK_SIZE,
             write_u32_t_le (ff_crc s) BLOCK_SIZE] f = (Ok, f')"
    using s c1 by (auto simp: FileFooter_write_def split: if_splits prod.splits simp del: run_all.simps footer_sizes)
  show fin: "finalize z f (woff f) t = (Ok, t')" using s c1 r by simp
  from emits_okD [OF em w assms(1)] show w': "wdata f' = wdata f @ concat (footer_fields t')" and "tracked f'" using r by auto
  show "length (wdata f) mod BLOCK_SIZE = 0" by (rule d(2))
  show "FileFooter_validate z (length (wdata f)) (length (wdata f')) t' = Ok" using d(1) r w' by (simp add: footer_fields_length)
qed

lemma FileFooter_write_succeeds:
  assumes "tracked f" "write_faultfree f" "finalize z f (woff f) t = (Ok, t')"
  shows "\<exists>f'. FileFooter_write z t f = (Ok, f', t') \<and> write_faultfree f' \<and> wsenv f' = wsenv f \<and> wclose_ok f' = wclose_ok f"
  using emits_faultfreeD [OF footer_body_emits [OF assms(1) finalize_okD(2) [OF assms(1,3)], of t'] assms(1,2)] assms(3)
  by (fastforce simp: FileFooter_write_def simp del: run_all.simps footer_sizes)

lemma read_footer_fields_reads: "reads BLOCK_SIZE read_footer_fields (footer_fields t) t"
proof -
  have "reads BLOCK_SIZE read_footer_fields ([enc_u32 (ff_magic t)] @ [enc_u32 (ff_version t)] @ [enc_u32 (ff_reserved t)] @
      [enc_u64 (ff_data_offset t)] @ [enc_u64 (ff_block_count t)] @ [enc_u64 (ff_index_offset t)] @ [enc_u32 (ff_index_size t)] @
      [enc_u64 (ff_bloom_offset t)] @ [enc_u32 (ff_bloom_size t)] @ [enc_u64 (ff_meta_offset t)] @ [enc_u32 (ff_meta_size t)] @
      [enc_u64 (ff_file_size t)] @ [enc_u32 (ff_crc t)] @ []) t"
    unfolding read_footer_fields_def
    by (intro reads_bind [OF sst_field_reads(1)] reads_bind [OF sst_field_reads(2)]) (cases t; simp add: reads_return)
  then show ?thesis by (simp add: footer_fields_def)
qed

lemma footer_crc_ok: "FileFooter_validate z off n t = Ok \<Longrightarrow> FileFooter_calculate_crc32 z t = ff_crc t"
  by (simp add: FileFooter_validate_def Let_def split: if_splits)

lemma FileFooter_load_at:
  assumes "FileFooter_validate z off (length D) t = Ok" "read_quiet D f" "off mod BLOCK_SIZE = 0" "D = p @ concat (footer_fields t)"
    "length p = off"
  shows "\<exists>f'. FileFooter_load z FileFooter_disk_size f = (Inr t, f') \<and> read_quiet D f' \<and> roff f' = length D"
proof -
  have D: "rdata f = D" "rfd f" "length D = off + 76" using assms(2,4,5) by (simp_all add: read_quiet_def footer_fields_length)
  have at: "bytes_at D (roff (f\<lparr>roff := off\<rparr>)) (concat (footer_fields t))"
    unfolding bytes_at_def using assms(4,5) by (intro exI [of _ p] exI [of _ "[]"]) simp
  have q: "read_quiet D (f\<lparr>roff := off\<rparr>)" using assms(2) by simp
  from reads_in_block [OF read_footer_fields_reads q at] assms(3)
  obtain g where g: "read_footer_fields (f\<lparr>roff := off\<rparr>) = (Inr t, g)" "read_quiet D g" "roff g = length D"
    using D by (auto simp: yields_def footer_fields_length BLOCK_SIZE_def)
  have "fits_in_block off FileFooter_disk_size BLOCK_SIZE = Ok" using assms(3) by (simp add: fits_in_block_def BLOCK_SIZE_def)
  then have "FileFooter_load z FileFooter_disk_size f = (Inr t, g)"
    unfolding FileFooter_load_def Let_def
    by (intro restoring_ok) (use D assms(1,3) footer_crc_ok [OF assms(1)] in \<open>simp add: size_r_def get_file_size_def bind_check_pass bind_offset
      can_read_range_def is_block_aligned_def bind_seek g(1) return_r_def\<close>)
  then show ?thesis using g by blast
qed

text \<open>What a valid footer says about the sections.\<close>

lemma footer_validD:
  assumes "FileFooter_validate z off n t = Ok"
  shows "unat (ff_block_count t) > 0 \<Longrightarrow> unat (ff_data_offset t) mod BLOCK_SIZE = 0 \<and>
      unat (ff_data_offset t) + unat (ff_block_count t) * BLOCK_SIZE = unat (ff_index_offset t)"
    and "unat (ff_index_offset t) + unat (ff_index_size t) \<le> unat (ff_bloom_offset t)"
    and "unat (ff_bloom_offset t) + unat (ff_bloom_size t) \<le> unat (ff_meta_offset t)"
    and "unat (ff_meta_offset t) + unat (ff_meta_size t) \<le> off" "n = off + 76"
proof -
  have "(unat (ff_block_count t) > 0 \<longrightarrow> unat (ff_data_offset t) mod BLOCK_SIZE = 0 \<and>
      unat (ff_data_offset t) + unat (ff_block_count t) * BLOCK_SIZE = unat (ff_index_offset t)) \<and> n = off + 76 \<and>
    validate_section_span (unat (ff_index_offset t)) (unat (ff_index_size t)) (unat (ff_bloom_offset t)) = Ok \<and>
    validate_section_span (unat (ff_bloom_offset t)) (unat (ff_bloom_size t)) (unat (ff_meta_offset t)) = Ok \<and>
    validate_section_span (unat (ff_meta_offset t)) (unat (ff_meta_size t)) off = Ok"
    using assms by (simp add: FileFooter_validate_def Let_def is_block_aligned_def split: if_splits) auto
  then show "unat (ff_block_count t) > 0 \<Longrightarrow> unat (ff_data_offset t) mod BLOCK_SIZE = 0 \<and>
      unat (ff_data_offset t) + unat (ff_block_count t) * BLOCK_SIZE = unat (ff_index_offset t)"
    "unat (ff_index_offset t) + unat (ff_index_size t) \<le> unat (ff_bloom_offset t)"
    "unat (ff_bloom_offset t) + unat (ff_bloom_size t) \<le> unat (ff_meta_offset t)"
    "unat (ff_meta_offset t) + unat (ff_meta_size t) \<le> off" "n = off + 76"
    by (auto simp: validate_section_span_def split: if_splits)
qed

end
