(* ===== verification/DataSectionView.thy ===== *)
theory DataSectionView
  imports FileFooter
begin

text \<open>
  The lazy view of a data section (\<^verbatim>\<open>core/sstable_entities/data_section_view.cpp\<close>): the headers of the
  blocks, and on demand the validated positions of the records in a block. On a written section the view
  finds the newest record of a key and reads it back.
\<close>

section \<open>State\<close>

record ViewHeader =
  vh_header :: DataHeader
  vh_header_offset :: nat
  vh_payload_offset :: nat
  vh_payload_end :: nat
  vh_next_block :: nat

record RecordMeta =
  rm_key_size :: u32
  rm_value_size :: u32
  rm_type :: u8
  rm_seq :: u64
  rm_record_offset :: nat
  rm_key_offset :: nat
  rm_value_offset :: nat

datatype ValidationState = Unvalidated | Valid | Corrupt

record ViewBlock =
  vb_header :: ViewHeader
  vb_state :: ValidationState
  vb_corruption :: "StatusCode option"
  vb_records :: "RecordMeta list"

record DataSectionView =
  view_blocks :: "ViewBlock list"
  view_first_offset :: nat
  view_section_end :: nat

definition kHeaderSize :: nat where "kHeaderSize = DataHeader_disk_size"
definition kRecordFixedSize :: nat where "kRecordFixedSize = DataPayload_fixed_size"

definition ViewHeader_used_size :: "ViewHeader \<Rightarrow> nat" where
  "ViewHeader_used_size h = kHeaderSize + unat (dh_payload_size (vh_header h))"

definition RecordMeta_disk_size :: "RecordMeta \<Rightarrow> nat" where
  "RecordMeta_disk_size m = kRecordFixedSize + unat (rm_key_size m) + unat (rm_value_size m)"

definition ViewBlock_record_count :: "ViewBlock \<Rightarrow> nat" where
  "ViewBlock_record_count b = (if vb_state b = Valid then length (vb_records b) else 0)"

section \<open>Discovering blocks\<close>

definition ViewHeader_load :: "nat \<Rightarrow> (rfile, ViewHeader) reader" where
  "ViewHeader_load section_end f = restoring (roff f) (
     bind_r offset_r (\<lambda>header_offset.
     bind_r (check_r (\<lambda>_. if header_offset mod BLOCK_SIZE \<noteq> 0 then InvalidAlignment else Ok)) (\<lambda>_.
     bind_r (check_r (\<lambda>_. if header_offset + kHeaderSize > u64_max \<or> header_offset + kHeaderSize > section_end
       then UnexpectedEOF else Ok)) (\<lambda>_.
     bind_r (read_u8_t BLOCK_SIZE) (\<lambda>t.
     bind_r (read_u32_t_le BLOCK_SIZE) (\<lambda>n.
     bind_r (read_u32_t_le BLOCK_SIZE) (\<lambda>crc.
     bind_r (check_r (\<lambda>_. if t \<noteq> BlockType_Data then InvalidBlockType else Ok)) (\<lambda>_.
     bind_r (check_r (\<lambda>_. if unat n > BLOCK_SIZE - kHeaderSize then InvalidPayloadSize else Ok)) (\<lambda>_.
     bind_r offset_r (\<lambda>payload_offset.
     let payload_end = payload_offset + unat n; next_block = header_offset + BLOCK_SIZE in
     bind_r (check_r (\<lambda>_. if payload_end > u64_max then OffsetOutOfRange else Ok)) (\<lambda>_.
     bind_r (check_r (\<lambda>_. if next_block > u64_max then OffsetOutOfRange else Ok)) (\<lambda>_.
     bind_r (check_r (\<lambda>_. if payload_end > next_block \<or> next_block > section_end then OffsetOverlap else Ok)) (\<lambda>_.
     return_r \<lparr>vh_header = \<lparr>dh_type = t, dh_payload_size = n, dh_crc = crc\<rparr>, vh_header_offset = header_offset,
       vh_payload_offset = payload_offset, vh_payload_end = payload_end, vh_next_block = next_block\<rparr>)))))))))))) f)"

definition ViewBlock_load :: "nat \<Rightarrow> (rfile, ViewBlock) reader" where
  "ViewBlock_load section_end f = restoring (roff f) (
     bind_r (ViewHeader_load section_end) (\<lambda>h.
     bind_r (seek_r (vh_next_block h)) (\<lambda>_.
     return_r \<lparr>vb_header = h, vb_state = Unvalidated, vb_corruption = None, vb_records = []\<rparr>)) f)"

definition DataSectionView_load :: "nat \<Rightarrow> nat \<Rightarrow> nat \<Rightarrow> (rfile, DataSectionView) reader" where
  "DataSectionView_load first_block_offset block_count expected_end f = restoring (roff f) (
     bind_r size_r (\<lambda>fsize.
     bind_r (check_r (\<lambda>_. if first_block_offset > fsize then OffsetOutOfRange else Ok)) (\<lambda>_.
     bind_r (check_r (\<lambda>_. if block_count > 0 \<and> first_block_offset mod BLOCK_SIZE \<noteq> 0 then InvalidAlignment else Ok)) (\<lambda>_.
     let computed_end = first_block_offset + block_count * BLOCK_SIZE in
     bind_r (check_r (\<lambda>_. if block_count * BLOCK_SIZE > u64_max \<or> computed_end > u64_max then InvalidSectionSize else Ok)) (\<lambda>_.
     bind_r (check_r (\<lambda>_. if computed_end > fsize then InvalidSectionSize else Ok)) (\<lambda>_.
     bind_r (check_r (\<lambda>_. if expected_end \<noteq> 0 \<and> (expected_end > fsize \<or> expected_end mod BLOCK_SIZE \<noteq> 0)
       then InvalidSectionSize else Ok)) (\<lambda>_.
     bind_r (check_r (\<lambda>_. if expected_end \<noteq> 0 \<and> block_count > 0 \<and> expected_end \<noteq> computed_end
       then InvalidSectionSize else Ok)) (\<lambda>_.
     bind_r (check_r (\<lambda>_. if expected_end \<noteq> 0 \<and> block_count = 0 \<and> first_block_offset > expected_end
       then InvalidSectionSize else Ok)) (\<lambda>_.
     bind_r (seek_r first_block_offset) (\<lambda>_.
     bind_r (read_many block_count (ViewBlock_load computed_end)) (\<lambda>blocks.
     bind_r (check_r (\<lambda>f. if roff f \<noteq> computed_end then InvalidSectionSize else Ok)) (\<lambda>_.
     bind_r (seek_r (if block_count = 0 then first_block_offset else computed_end)) (\<lambda>_.
     return_r \<lparr>view_blocks = blocks, view_first_offset = first_block_offset,
       view_section_end = (if block_count = 0 \<and> expected_end \<noteq> 0 then expected_end else computed_end)\<rparr>)))))))))))) f)"

section \<open>Validating a block\<close>

text \<open>Reading with a local offset; the result carries the offset where the read ended.\<close>

definition at_r :: "nat \<Rightarrow> (rfile, 'a) reader \<Rightarrow> (rfile, 'a \<times> nat) reader" where
  "at_r off m f = (case m (f\<lparr>roff := off\<rparr>) of
     (Inl e, f') \<Rightarrow> (Inl e, f'\<lparr>roff := roff f\<rparr>)
   | (Inr v, f') \<Rightarrow> (Inr (v, roff f'), f'\<lparr>roff := roff f\<rparr>))"

text \<open>The records of the remaining bytes, which start at position \<open>pos\<close> of the payload at \<open>base\<close>.\<close>

function parse_records :: "nat \<Rightarrow> (ArenaEntry \<times> u64) option \<Rightarrow> nat \<Rightarrow> byte list \<Rightarrow> RecordMeta list result" where
  "parse_records base previous pos bytes =
     (if bytes = [] then Inr []
      else if length bytes < kRecordFixedSize then Inl Corruption
      else let key_size = dec_u32 (take 4 bytes);
               value_size = dec_u32 (take 4 (drop 4 bytes));
               t = dec_u8 (take 1 (drop 8 bytes));
               flags = dec_u32 (take 4 (drop 9 bytes));
               reserved = dec_u32 (take 4 (drop 13 bytes));
               seqn = dec_u64 (take 8 (drop 17 bytes));
               rest = drop 25 bytes;
               key = take (unat key_size) rest;
               n = unat key_size + unat value_size in
        if \<not> is_valid_payload_type t then Inl Corruption
        else if flags \<noteq> 0 \<or> reserved \<noteq> 0 then Inl Corruption
        else if n > length rest then Inl Corruption
        else if (case previous of None \<Rightarrow> False
                 | Some (previous_key, previous_seq) \<Rightarrow> compare_bytes previous_key key > 0 \<or>
                     compare_bytes previous_key key = 0 \<and> seqn \<ge> previous_seq) then Inl Corruption
        else case parse_records base (Some (key, seqn)) (pos + 25 + n) (drop n rest) of
          Inl e \<Rightarrow> Inl e
        | Inr ms \<Rightarrow> Inr (\<lparr>rm_key_size = key_size, rm_value_size = value_size, rm_type = t, rm_seq = seqn,
            rm_record_offset = base + pos, rm_key_offset = base + pos + 25,
            rm_value_offset = base + pos + 25 + unat key_size\<rparr> # ms))"
  by pat_completeness auto
termination
  by (relation "measure (\<lambda>(base, previous, pos, bytes). length bytes)") (auto simp: kRecordFixedSize_def)

declare parse_records.simps [simp del]

definition mark_corrupt :: "StatusCode \<Rightarrow> ViewBlock \<Rightarrow> ViewBlock" where
  "mark_corrupt c b = b\<lparr>vb_state := Corrupt, vb_corruption := Some c\<rparr>"

definition read_block_payload :: "ViewBlock \<Rightarrow> (rfile, byte list) reader" where
  "read_block_payload b =
     bind_r (at_r (vh_payload_offset (vb_header b)) (read_bytes (unat (dh_payload_size (vh_header (vb_header b)))) BLOCK_SIZE)) (\<lambda>(bytes, read_offset).
     bind_r (check_r (\<lambda>_. if read_offset \<noteq> vh_payload_end (vb_header b) then InvalidOffset else Ok)) (\<lambda>_.
     return_r bytes))"

definition ViewBlock_validate :: "zlib \<Rightarrow> ViewBlock \<Rightarrow> rfile \<Rightarrow> StatusCode \<times> ViewBlock \<times> rfile" where
  "ViewBlock_validate z b f =
     (let h = vb_header b; n = unat (dh_payload_size (vh_header h)) in
      if vb_state b = Valid then (Ok, b, f)
      else if vb_state b = Corrupt \<and> vb_corruption b \<noteq> None then (the (vb_corruption b), b, f)
      else if n > BLOCK_SIZE - kHeaderSize then (Corruption, mark_corrupt Corruption b, f)
      else case read_block_payload b f of
        (Inl e, f1) \<Rightarrow> (e, b, f1)
      | (Inr bytes, f1) \<Rightarrow>
          if crc32_of z bytes \<noteq> dh_crc (vh_header h) then (ChecksumMismatch, mark_corrupt ChecksumMismatch b, f1)
          else if n < kRecordFixedSize then (Corruption, mark_corrupt Corruption b, f1)
          else case parse_records (vh_payload_offset h) None 0 bytes of
            Inl e \<Rightarrow> (e, mark_corrupt e b, f1)
          | Inr ms \<Rightarrow>
              if ms = [] then (Corruption, mark_corrupt Corruption b, f1)
              else (Ok, b\<lparr>vb_records := ms, vb_corruption := None, vb_state := Valid\<rparr>, f1))"

section \<open>Searching and reading\<close>

definition record_key :: "ViewBlock \<Rightarrow> byte list \<Rightarrow> RecordMeta \<Rightarrow> ArenaEntry result" where
  "record_key b storage m =
     (let base = vh_payload_offset (vb_header b); n = unat (dh_payload_size (vh_header (vb_header b))) in
      if rm_key_offset m < base then Inl Corruption
      else let relative = rm_key_offset m - base in
        if relative > n \<or> unat (rm_key_size m) > n - relative then Inl Corruption
        else Inr (take (unat (rm_key_size m)) (drop relative storage)))"

function search_records :: "(nat \<Rightarrow> ArenaEntry result) \<Rightarrow> ArenaEntry \<Rightarrow> nat \<Rightarrow> nat \<Rightarrow> nat result" where
  "search_records key_at key low high =
     (if low < high then
        let middle = low + (high - low) div 2 in
        case key_at middle of
          Inl e \<Rightarrow> Inl e
        | Inr current \<Rightarrow>
            if compare_bytes current key < 0 then search_records key_at key (middle + 1) high
            else search_records key_at key low middle
      else Inr low)"
  by pat_completeness auto
termination
  by (relation "measure (\<lambda>(k, key, low, high). high - low)") auto

declare search_records.simps [simp del]

definition find_in_block :: "ViewBlock \<Rightarrow> byte list \<Rightarrow> ArenaEntry \<Rightarrow> nat option result" where
  "find_in_block b storage key =
     (let key_at = (\<lambda>i. record_key b storage (vb_records b ! i)) in
      case search_records key_at key 0 (length (vb_records b)) of
        Inl e \<Rightarrow> Inl e
      | Inr first \<Rightarrow>
          if first = length (vb_records b) then Inr None
          else case key_at first of
            Inl e \<Rightarrow> Inl e
          | Inr candidate \<Rightarrow> if compare_bytes candidate key \<noteq> 0 then Inr None else Inr (Some first))"

definition ViewBlock_find_first_record ::
    "zlib \<Rightarrow> ArenaEntry \<Rightarrow> ViewBlock \<Rightarrow> rfile \<Rightarrow> nat option result \<times> ViewBlock \<times> rfile" where
  "ViewBlock_find_first_record z key b f =
     (case ViewBlock_validate z b f of (c, b1, f1) \<Rightarrow>
        if \<not> is_ok c then (Inl c, b1, f1)
        else if unat (dh_payload_size (vh_header (vb_header b1))) > BLOCK_SIZE - kHeaderSize then (Inl Corruption, b1, f1)
        else case read_block_payload b1 f1 of
          (Inl e, f2) \<Rightarrow> (Inl e, b1, f2)
        | (Inr storage, f2) \<Rightarrow> (find_in_block b1 storage key, b1, f2))"

definition read_part :: "nat \<Rightarrow> nat \<Rightarrow> nat \<Rightarrow> byte list loader" where
  "read_part n off expected_end =
     (if n > 0 then
        bind_l (alloc_l n 1) (\<lambda>_.
        bind_l (lift_l (at_r off (read_bytes n BLOCK_SIZE))) (\<lambda>(bs, end_offset).
        bind_l (check_l (\<lambda>_. if end_offset \<noteq> expected_end then InvalidOffset else Ok)) (\<lambda>_. return_l bs)))
      else return_l [])"

definition ViewBlock_read_record ::
    "zlib \<Rightarrow> nat \<Rightarrow> ViewBlock \<Rightarrow> rfile \<times> arena \<Rightarrow> (InternalRecord result \<times> ViewBlock \<times> rfile \<times> arena) option" where
  "ViewBlock_read_record z i b = (\<lambda>(f, ar).
     case ViewBlock_validate z b f of (c, b1, f1) \<Rightarrow>
       if \<not> is_ok c then Some (Inl c, b1, f1, ar)
       else if i \<ge> length (vb_records b1) then Some (Inl InvalidArgument, b1, f1, ar)
       else let m = vb_records b1 ! i in
         case transact (
             bind_l (read_part (unat (rm_key_size m)) (rm_key_offset m) (rm_value_offset m)) (\<lambda>key.
             bind_l (read_part (unat (rm_value_size m)) (rm_value_offset m) (rm_record_offset m + RecordMeta_disk_size m)) (\<lambda>v.
             return_l \<lparr>key_entry = key, value_entry = v, rtype = type_of_u8 (rm_type m), seq_num = rm_seq m\<rparr>))) (f1, ar) of
           None \<Rightarrow> None
         | Some (r, f2, ar') \<Rightarrow> Some (r, b1, f2, ar'))"

section \<open>The view\<close>

definition checked_add :: "nat \<Rightarrow> nat \<Rightarrow> nat option" where
  "checked_add lhs rhs = (if lhs > u64_max - rhs then None else Some (lhs + rhs))"

definition checked_mul :: "nat \<Rightarrow> nat \<Rightarrow> nat option" where
  "checked_mul lhs rhs = (if lhs \<noteq> 0 \<and> rhs > u64_max div lhs then None else Some (lhs * rhs))"

fun sum_used :: "nat \<Rightarrow> ViewBlock list \<Rightarrow> nat result" where
  "sum_used sofar [] = Inr sofar"
| "sum_used sofar (b # bs) = (case checked_add sofar (ViewHeader_used_size (vb_header b)) of
     None \<Rightarrow> Inl InvalidSectionSize | Some n \<Rightarrow> sum_used n bs)"

definition view_logical_size :: "DataSectionView \<Rightarrow> nat result" where
  "view_logical_size v = sum_used 0 (view_blocks v)"

definition view_physical_span :: "DataSectionView \<Rightarrow> nat result" where
  "view_physical_span v =
     (if view_blocks v = [] then Inr 0
      else case checked_mul (length (view_blocks v) - 1) BLOCK_SIZE of
        None \<Rightarrow> Inl InvalidSectionSize
      | Some preceding \<Rightarrow> (case checked_add preceding (ViewHeader_used_size (vb_header (last (view_blocks v)))) of
          None \<Rightarrow> Inl InvalidSectionSize | Some n \<Rightarrow> Inr n))"

definition view_reserved_span :: "DataSectionView \<Rightarrow> nat result" where
  "view_reserved_span v =
     (case checked_mul (length (view_blocks v)) BLOCK_SIZE of None \<Rightarrow> Inl InvalidSectionSize | Some n \<Rightarrow> Inr n)"

definition view_update :: "nat \<Rightarrow> ViewBlock \<Rightarrow> DataSectionView \<Rightarrow> DataSectionView" where
  "view_update i b v = v\<lparr>view_blocks := (view_blocks v)[i := b]\<rparr>"

definition view_validate_block :: "zlib \<Rightarrow> nat \<Rightarrow> DataSectionView \<Rightarrow> rfile \<Rightarrow> StatusCode \<times> DataSectionView \<times> rfile" where
  "view_validate_block z i v f =
     (if i \<ge> length (view_blocks v) then (InvalidArgument, v, f)
      else case ViewBlock_validate z (view_blocks v ! i) f of (c, b, f') \<Rightarrow> (c, view_update i b v, f'))"

definition view_read_record ::
    "zlib \<Rightarrow> nat \<Rightarrow> nat \<Rightarrow> DataSectionView \<Rightarrow> rfile \<times> arena \<Rightarrow>
       (InternalRecord result \<times> DataSectionView \<times> rfile \<times> arena) option" where
  "view_read_record z i j v = (\<lambda>(f, ar).
     if i \<ge> length (view_blocks v) then Some (Inl InvalidArgument, v, f, ar)
     else case ViewBlock_read_record z j (view_blocks v ! i) (f, ar) of
       None \<Rightarrow> None
     | Some (r, b, f', ar') \<Rightarrow> Some (r, view_update i b v, f', ar'))"

definition view_find_first_record ::
    "zlib \<Rightarrow> nat \<Rightarrow> ArenaEntry \<Rightarrow> DataSectionView \<Rightarrow> rfile \<Rightarrow> nat option result \<times> DataSectionView \<times> rfile" where
  "view_find_first_record z i key v f =
     (if i \<ge> length (view_blocks v) then (Inl InvalidArgument, v, f)
      else case ViewBlock_find_first_record z key (view_blocks v ! i) f of (r, b, f') \<Rightarrow> (r, view_update i b v, f'))"


section \<open>Discovering a written section\<close>

lemma view_sizes [simp]: "kHeaderSize = 9" "kRecordFixedSize = 25"
  by (simp_all add: kHeaderSize_def kRecordFixedSize_def)

definition view_header :: "zlib \<Rightarrow> nat \<Rightarrow> DataPayload list \<Rightarrow> ViewHeader" where
  "view_header z off ps = \<lparr>vh_header = data_header z ps, vh_header_offset = off, vh_payload_offset = off + 9,
     vh_payload_end = off + 9 + length (payloads_bytes ps), vh_next_block = off + BLOCK_SIZE\<rparr>"

definition unread_block :: "zlib \<Rightarrow> nat \<Rightarrow> DataPayload list \<Rightarrow> ViewBlock" where
  "unread_block z off ps = \<lparr>vb_header = view_header z off ps, vb_state = Unvalidated, vb_corruption = None, vb_records = []\<rparr>"

definition data_header_reader :: "(rfile, DataHeader) reader" where
  "data_header_reader = bind_r (read_u8_t BLOCK_SIZE) (\<lambda>t. bind_r (read_u32_t_le BLOCK_SIZE) (\<lambda>n.
     bind_r (read_u32_t_le BLOCK_SIZE) (\<lambda>crc. return_r \<lparr>dh_type = t, dh_payload_size = n, dh_crc = crc\<rparr>)))"

lemma data_header_reader_reads: "reads BLOCK_SIZE data_header_reader (data_header_fields h) h"
proof -
  have "reads BLOCK_SIZE data_header_reader ([enc_u8 (dh_type h)] @ [enc_u32 (dh_payload_size h)] @ [enc_u32 (dh_crc h)] @ []) h"
    unfolding data_header_reader_def by (intro reads_bind [OF sst_field_reads(3)] reads_bind [OF sst_field_reads(2)])
      (cases h; simp add: reads_return)
  then show ?thesis by (simp add: data_header_fields_def)
qed

lemma bind_data_header:
  assumes "data_header_reader f = (Inr h, g)"
  shows "bind_r (read_u8_t BLOCK_SIZE) (\<lambda>t. bind_r (read_u32_t_le BLOCK_SIZE) (\<lambda>n.
    bind_r (read_u32_t_le BLOCK_SIZE) (\<lambda>crc. k t n crc))) f = k (dh_type h) (dh_payload_size h) (dh_crc h) g"
  using assms unfolding data_header_reader_def
  by (auto simp: bind_r_def return_r_def split: prod.splits sum.splits)

lemma ViewHeader_load_at:
  assumes "block_list_ok ps" "read_quiet D f" "roff f mod BLOCK_SIZE = 0" "bytes_at D (roff f) (block_bytes z ps)"
    "roff f + BLOCK_SIZE \<le> section_end" "section_end \<le> length D"
  shows "\<exists>f'. ViewHeader_load section_end f = (Inr (view_header z (roff f) ps), f') \<and> read_quiet D f' \<and> roff f' = roff f + 9"
proof -
  let ?h = "data_header z ps" and ?o = "roff f"
  have at: "bytes_at D ?o (concat (data_header_fields ?h))" using assms(4) by (simp add: block_bytes_def bytes_at_append)
  obtain g where g: "data_header_reader f = (Inr ?h, g)" "read_quiet D g" "roff g = ?o + 9"
    using reads_in_block [OF data_header_reader_reads assms(2) at] assms(3) quiet_data [OF assms(2)]
    by (auto simp: data_header_length yields_def BLOCK_SIZE_def)
  have D: "length D \<le> ssize_max" using assms(2) by (simp add: read_quiet_def)
  have sz: "unat (dh_payload_size ?h) = length (payloads_bytes ps)" "length (payloads_bytes ps) \<le> 4087"
    using data_header_size [OF assms(1)] assms(1) by (simp_all add: payloads_bytes_length block_list_ok_def)
  have "ViewHeader_load section_end f = (Inr (view_header z ?o ps), g)"
    unfolding ViewHeader_load_def Let_def
    by (rule restoring_ok, unfold bind_offset, subst bind_check_pass, use assms(3) in simp, subst bind_check_pass, use assms D in \<open>simp add: BLOCK_SIZE_def\<close>,
      subst bind_data_header [OF g(1)])
     (use assms D sz g(3) in \<open>simp add: bind_check_pass bind_offset return_r_def view_header_def data_header_def BLOCK_SIZE_def\<close>)
  with g show ?thesis by blast
qed

lemma ViewBlock_load_at:
  assumes "block_list_ok ps" "read_quiet D f" "roff f mod BLOCK_SIZE = 0" "bytes_at D (roff f) (block_bytes z ps)"
    "roff f + BLOCK_SIZE \<le> section_end" "section_end \<le> length D"
  shows "\<exists>f'. ViewBlock_load section_end f = (Inr (unread_block z (roff f) ps), f') \<and> read_quiet D f' \<and> roff f' = roff f + BLOCK_SIZE"
proof -
  obtain g where g: "ViewHeader_load section_end f = (Inr (view_header z (roff f) ps), g)" "read_quiet D g"
    using ViewHeader_load_at [OF assms] by blast
  have "ViewBlock_load section_end f = (Inr (unread_block z (roff f) ps), g\<lparr>roff := roff f + BLOCK_SIZE\<rparr>)"
    unfolding ViewBlock_load_def
    by (rule restoring_ok) (simp add: g(1) bind_seek return_r_def unread_block_def view_header_def)
  with g(2) show ?thesis by simp
qed

text \<open>The view of the blocks that start at \<open>off\<close>.\<close>

fun unread_blocks :: "zlib \<Rightarrow> nat \<Rightarrow> DataPayload list list \<Rightarrow> ViewBlock list" where
  "unread_blocks z off [] = []"
| "unread_blocks z off (ps # pss) = unread_block z off ps # unread_blocks z (off + BLOCK_SIZE) pss"

lemma unread_blocks_length [simp]: "length (unread_blocks z off pss) = length pss"
  by (induction pss arbitrary: off) simp_all

lemma unread_blocks_nth: "i < length pss \<Longrightarrow> unread_blocks z off pss ! i = unread_block z (off + i * BLOCK_SIZE) (pss ! i)"
  by (induction pss arbitrary: off i) (auto simp: nth_Cons add.assoc split: nat.split)

definition blocks_at :: "zlib \<Rightarrow> byte list \<Rightarrow> nat \<Rightarrow> DataPayload list list \<Rightarrow> bool" where
  "blocks_at z D off pss \<longleftrightarrow> off mod BLOCK_SIZE = 0 \<and> off + length pss * BLOCK_SIZE \<le> length D \<and>
     (\<forall>i < length pss. block_list_ok (pss ! i) \<and> bytes_at D (off + i * BLOCK_SIZE) (block_bytes z (pss ! i)))"

lemma blocks_at_Cons:
  assumes "blocks_at z D off (ps # pss)"
  shows "block_list_ok ps" "bytes_at D off (block_bytes z ps)" "blocks_at z D (off + BLOCK_SIZE) pss"
    "off mod BLOCK_SIZE = 0" "off + BLOCK_SIZE + length pss * BLOCK_SIZE \<le> length D"
proof -
  have *: "\<forall>i < Suc (length pss). block_list_ok ((ps # pss) ! i) \<and> bytes_at D (off + i * BLOCK_SIZE) (block_bytes z ((ps # pss) ! i))"
    using assms by (simp add: blocks_at_def)
  show "block_list_ok ps" "bytes_at D off (block_bytes z ps)" using * by (auto dest: spec [of _ 0])
  show "off mod BLOCK_SIZE = 0" "off + BLOCK_SIZE + length pss * BLOCK_SIZE \<le> length D" using assms by (simp_all add: blocks_at_def)
  have "block_list_ok (pss ! i) \<and> bytes_at D (off + BLOCK_SIZE + i * BLOCK_SIZE) (block_bytes z (pss ! i))" if "i < length pss" for i
    using *[rule_format, of "Suc i"] that by (simp add: add.assoc)
  then show "blocks_at z D (off + BLOCK_SIZE) pss" using assms by (auto simp: blocks_at_def add.assoc)
qed

lemma read_blocks_at:
  assumes "blocks_at z D (roff f) pss" "read_quiet D f" "roff f + length pss * BLOCK_SIZE \<le> section_end" "section_end \<le> length D"
  shows "\<exists>f'. read_many (length pss) (ViewBlock_load section_end) f = (Inr (unread_blocks z (roff f) pss), f') \<and>
    read_quiet D f' \<and> roff f' = roff f + length pss * BLOCK_SIZE"
  using assms
proof (induction pss arbitrary: f)
  case (Cons ps pss)
  note b = blocks_at_Cons [OF Cons.prems(1)]
  obtain g where g: "ViewBlock_load section_end f = (Inr (unread_block z (roff f) ps), g)" "read_quiet D g" "roff g = roff f + BLOCK_SIZE"
    using ViewBlock_load_at [OF b(1) Cons.prems(2) b(4,2) _ Cons.prems(4)] Cons.prems(3) by auto
  obtain h where h: "read_many (length pss) (ViewBlock_load section_end) g = (Inr (unread_blocks z (roff g) pss), h)"
    "read_quiet D h" "roff h = roff g + length pss * BLOCK_SIZE"
    using Cons.IH [of g] b(3) g Cons.prems(3,4) by (auto simp: add.assoc)
  then show ?case using g by (simp add: return_r_def)
qed (simp add: return_r_def)

definition unread_view :: "zlib \<Rightarrow> nat \<Rightarrow> DataPayload list list \<Rightarrow> DataSectionView" where
  "unread_view z off pss = \<lparr>view_blocks = unread_blocks z off pss, view_first_offset = off,
     view_section_end = off + length pss * BLOCK_SIZE\<rparr>"

lemma DataSectionView_load_at:
  assumes "blocks_at z D off pss" "pss \<noteq> []" "read_quiet D f"
  shows "\<exists>f'. DataSectionView_load off (length pss) (off + length pss * BLOCK_SIZE) f = (Inr (unread_view z off pss), f') \<and> read_quiet D f'"
proof -
  let ?e = "off + length pss * BLOCK_SIZE"
  have D: "length D \<le> ssize_max" "rdata f = D" "rfd f" using assms(3) by (simp_all add: read_quiet_def)
  have b: "off mod BLOCK_SIZE = 0" "?e \<le> length D" using assms(1) by (simp_all add: blocks_at_def)
  have e: "?e mod BLOCK_SIZE = 0" using b(1) by simp
  obtain g where g: "read_many (length pss) (ViewBlock_load ?e) (f\<lparr>roff := off\<rparr>) = (Inr (unread_blocks z off pss), g)"
    "read_quiet D g" "roff g = ?e"
    using read_blocks_at [of z D "f\<lparr>roff := off\<rparr>" pss ?e] assms b by auto
  have "DataSectionView_load off (length pss) ?e f = (Inr (unread_view z off pss), g\<lparr>roff := ?e\<rparr>)"
    unfolding DataSectionView_load_def Let_def
    by (rule restoring_ok)
      (use assms(2) D b e g(1,3) in \<open>simp add: size_r_def get_file_size_def bind_check_pass bind_seek return_r_def unread_view_def\<close>)
  with g(2) show ?thesis by simp
qed

section \<open>Validating a written block\<close>

fun metas_of :: "nat \<Rightarrow> DataPayload list \<Rightarrow> RecordMeta list" where
  "metas_of off [] = []"
| "metas_of off (p # ps) = \<lparr>rm_key_size = entry_size (pl_key p), rm_value_size = entry_size (pl_value p), rm_type = pl_type p,
     rm_seq = pl_seq p, rm_record_offset = off, rm_key_offset = off + 25, rm_value_offset = off + 25 + length (pl_key p)\<rparr>
     # metas_of (off + payload_disk_size p) ps"

lemma metas_of_length [simp]: "length (metas_of off ps) = length ps"
  by (induction ps arbitrary: off) simp_all

lemma parse_records_bytes:
  assumes "\<forall>p\<in>set ps. DataPayload_validate p = Ok" "sorted_wrt ordered ps"
    "case prev of None \<Rightarrow> True | Some (k, s) \<Rightarrow> \<forall>p\<in>set ps. k < pl_key p \<or> k = pl_key p \<and> pl_seq p < s"
  shows "parse_records base prev pos (payloads_bytes ps) = Inr (metas_of (base + pos) ps)"
  using assms
proof (induction ps arbitrary: prev pos)
  case Nil
  then show ?case by (simp add: parse_records.simps payloads_bytes_def)
next
  case (Cons p ps)
  define b where "b = payloads_bytes (p # ps)"
  have v: "is_valid_payload_type (pl_type p)" "pl_flags p = 0" "pl_reserved p = 0"
    using Cons.prems(1) by (auto simp: DataPayload_validate_def split: if_splits)
  have eq: "b = enc_u32 (entry_size (pl_key p)) @ enc_u32 (entry_size (pl_value p)) @ enc_u8 (pl_type p) @
    enc_u32 (pl_flags p) @ enc_u32 (pl_reserved p) @ enc_u64 (pl_seq p) @ pl_key p @ pl_value p @ payloads_bytes ps"
    by (simp add: b_def payloads_bytes_def data_payload_fields_def)
  have d: "take 4 b = enc_u32 (entry_size (pl_key p))" "take 4 (drop 4 b) = enc_u32 (entry_size (pl_value p))"
    "take (Suc 0) (drop 8 b) = enc_u8 (pl_type p)" "take 4 (drop 9 b) = enc_u32 (pl_flags p)" "take 4 (drop 13 b) = enc_u32 (pl_reserved p)"
    "take 8 (drop 17 b) = enc_u64 (pl_seq p)" "drop 25 b = pl_key p @ pl_value p @ payloads_bytes ps" "b \<noteq> []" "\<not> length b < 25"
    by (simp_all add: eq enc_u64_def enc_u32_def enc_u8_def)
  have sz: "unat (entry_size (pl_key p)) = length (pl_key p)" "unat (entry_size (pl_value p)) = length (pl_value p)"
    using Cons.prems(1) payload_sizes by auto
  have prev: "\<not> (case prev of None \<Rightarrow> False | Some (k, s) \<Rightarrow> compare_bytes k (pl_key p) > 0 \<or>
      compare_bytes k (pl_key p) = 0 \<and> pl_seq p \<ge> s)"
    using Cons.prems(3) by (auto split: option.splits prod.splits)
  have next': "\<forall>q\<in>set ps. pl_key p < pl_key q \<or> pl_key p = pl_key q \<and> pl_seq q < pl_seq p"
    using Cons.prems(2) by (auto simp: ikey_def record_of_def word_less_def)
  have "parse_records base (Some (pl_key p, pl_seq p)) (pos + 25 + (length (pl_key p) + length (pl_value p))) (payloads_bytes ps) =
      Inr (metas_of (base + pos + payload_disk_size p) ps)"
    using Cons.IH [of "Some (pl_key p, pl_seq p)" "pos + payload_disk_size p"] Cons.prems(1,2) next'
    by (simp add: payload_disk_size_def add_ac)
  then show ?case unfolding b_def [symmetric] using v prev
    by (cases prev; subst parse_records.simps) (auto simp: Let_def d sz add.assoc)
qed

lemma payloads_crc:
  assumes "crc_incremental z"
  shows "crc32_of z (payloads_bytes ps) = DataBlock_calculate_crc32 z ps"
proof -
  have one: "DataPayload_append_crc32 z p c = compute_crc32 z c (concat (data_payload_fields p))" for p c
    by (simp add: DataPayload_append_crc32_def data_payload_fields_def crc32_add_enc crc_bytes_if_eq
      compute_crc32_append [OF assms])
  have "fold (DataPayload_append_crc32 z) ps c = compute_crc32 z c (payloads_bytes ps)" for c
    by (induction ps arbitrary: c)
      (simp_all add: one payloads_bytes_def compute_crc32_append [OF assms] compute_crc32.simps [of _ _ "[]"])
  then show ?thesis by (simp add: crc32_of_def DataBlock_calculate_crc32_def)
qed

text \<open>What a view may know of a written block: nothing yet, or exactly its records.\<close>

definition valid_block :: "zlib \<Rightarrow> nat \<Rightarrow> DataPayload list \<Rightarrow> ViewBlock" where
  "valid_block z off ps = \<lparr>vb_header = view_header z off ps, vb_state = Valid, vb_corruption = None, vb_records = metas_of (off + 9) ps\<rparr>"

definition views :: "zlib \<Rightarrow> nat \<Rightarrow> DataPayload list \<Rightarrow> ViewBlock \<Rightarrow> bool" where
  "views z off ps b \<longleftrightarrow> b = unread_block z off ps \<or> b = valid_block z off ps"

lemma at_r_run:
  assumes "yields m (Inr v) out (f\<lparr>roff := off\<rparr>)"
  shows "\<exists>f'. at_r off m f = (Inr (v, out), f') \<and> read_quiet (rdata f) f' \<and> roff f' = roff f"
  using assms by (auto simp: yields_def at_r_def)

lemma at_bytes_run:
  assumes "read_quiet D f" "bytes_at D off bs" "off mod BLOCK_SIZE + length bs \<le> BLOCK_SIZE"
  shows "\<exists>f'. at_r off (read_bytes (length bs) BLOCK_SIZE) f = (Inr (bs, off + length bs), f') \<and> read_quiet D f' \<and> roff f' = roff f"
proof -
  have "yields (read_bytes (length bs) BLOCK_SIZE) (Inr bs) (off + length bs) (f\<lparr>roff := off\<rparr>)"
    using reads_in_block [OF sst_field_reads(4) [of bs], of D "f\<lparr>roff := off\<rparr>"] assms by simp
  from at_r_run [OF this] show ?thesis using quiet_data [OF assms(1)] by simp
qed

definition block_at :: "zlib \<Rightarrow> byte list \<Rightarrow> nat \<Rightarrow> DataPayload list \<Rightarrow> bool" where
  "block_at z D off ps \<longleftrightarrow> crc_incremental z \<and> block_list_ok ps \<and> off mod BLOCK_SIZE = 0 \<and> bytes_at D off (block_bytes z ps)"

lemma block_at_nth: "crc_incremental z \<Longrightarrow> blocks_at z D off pss \<Longrightarrow> i < length pss \<Longrightarrow> block_at z D (off + i * BLOCK_SIZE) (pss ! i)"
  by (simp add: blocks_at_def block_at_def)

lemma block_header_facts:
  assumes "block_at z D off ps"
  shows "unat (dh_payload_size (data_header z ps)) = length (payloads_bytes ps)" "length (payloads_bytes ps) \<le> 4087"
    "25 \<le> length (payloads_bytes ps)" "dh_crc (data_header z ps) = crc32_of z (payloads_bytes ps)"
  using data_header_size [of ps z] payloads_crc [of z ps] assms
  by (cases ps; simp add: payloads_bytes_length block_at_def block_list_ok_def data_header_def payload_disk_size_def)+

lemma payload_stored: "block_at z D off ps \<Longrightarrow> bytes_at D (off + 9) (payloads_bytes ps)"
  by (simp add: block_at_def block_bytes_def bytes_at_append data_header_length)

lemma inner_offset:
  assumes "block_at z D off ps" "k + n \<le> 4087"
  shows "(off + 9 + k) mod BLOCK_SIZE + n \<le> BLOCK_SIZE"
  using in_block_step [of BLOCK_SIZE off "9 + k" n] assms by (simp add: BLOCK_SIZE_def block_at_def add.assoc)

lemma read_payload_run:
  assumes "block_at z D off ps" "read_quiet D f" "vb_header b = view_header z off ps"
  shows "\<exists>f'. read_block_payload b f = (Inr (payloads_bytes ps), f') \<and> read_quiet D f' \<and> roff f' = roff f"
proof -
  note h = block_header_facts [OF assms(1)]
  obtain f' where f': "at_r (off + 9) (read_bytes (length (payloads_bytes ps)) BLOCK_SIZE) f =
      (Inr (payloads_bytes ps, off + 9 + length (payloads_bytes ps)), f')" "read_quiet D f'" "roff f' = roff f"
    using at_bytes_run [OF assms(2) payload_stored [OF assms(1)]] inner_offset [OF assms(1), of 0] h(2) by auto
  then show ?thesis using assms(3) h(1)
    by (simp add: read_block_payload_def view_header_def bind_check_pass return_r_def)
qed

text \<open>Validation succeeds and remembers where the records are.\<close>

lemma validate_run:
  assumes "block_at z D off ps" "read_quiet D f" "views z off ps b"
  shows "\<exists>f'. ViewBlock_validate z b f = (Ok, valid_block z off ps, f') \<and> read_quiet D f' \<and> roff f' = roff f"
proof (cases "b = valid_block z off ps")
  case True
  then show ?thesis using assms(2) by (simp add: ViewBlock_validate_def valid_block_def Let_def)
next
  case False
  then have b: "b = unread_block z off ps" using assms(3) by (simp add: views_def)
  obtain f' where f': "read_block_payload b f = (Inr (payloads_bytes ps), f')" "read_quiet D f'" "roff f' = roff f"
    using read_payload_run [OF assms(1,2), of b] b by (auto simp: unread_block_def)
  have ok: "block_list_ok ps" using assms(1) by (simp add: block_at_def)
  have "parse_records (off + 9) None 0 (payloads_bytes ps) = Inr (metas_of (off + 9) ps)"
    using parse_records_bytes [of ps None "off + 9" 0] ok by (simp add: block_list_ok_def)
  moreover have "metas_of (off + 9) ps \<noteq> []" using ok by (cases ps) (simp_all add: block_list_ok_def)
  ultimately have "ViewBlock_validate z b f = (Ok, valid_block z off ps, f')"
    using f'(1) block_header_facts [OF assms(1)] unfolding b
    by (simp add: ViewBlock_validate_def unread_block_def view_header_def valid_block_def BLOCK_SIZE_def)
  with f' show ?thesis by blast
qed

section \<open>Searching and reading a written block\<close>

definition payload_offset :: "DataPayload list \<Rightarrow> nat \<Rightarrow> nat" where
  "payload_offset ps i = sum_list (map payload_disk_size (take i ps))"

lemma metas_of_nth:
  "i < length ps \<Longrightarrow> metas_of off ps ! i = \<lparr>rm_key_size = entry_size (pl_key (ps ! i)), rm_value_size = entry_size (pl_value (ps ! i)),
     rm_type = pl_type (ps ! i), rm_seq = pl_seq (ps ! i), rm_record_offset = off + payload_offset ps i,
     rm_key_offset = off + payload_offset ps i + 25, rm_value_offset = off + payload_offset ps i + 25 + length (pl_key (ps ! i))\<rparr>"
  by (induction ps arbitrary: off i) (auto simp: payload_offset_def nth_Cons add_ac split: nat.split)

lemma payload_split:
  assumes "i < length ps"
  shows "\<exists>a b. payloads_bytes ps = a @ concat (data_payload_fields (ps ! i)) @ b \<and> length a = payload_offset ps i"
proof -
  have "ps = take i ps @ ps ! i # drop (Suc i) ps" using assms by (simp add: id_take_nth_drop)
  then have "payloads_bytes ps = payloads_bytes (take i ps) @ concat (data_payload_fields (ps ! i)) @ payloads_bytes (drop (Suc i) ps)"
    unfolding payloads_bytes_def by (metis concat.simps(2) concat_append list.simps(9) map_append)
  then show ?thesis using payloads_bytes_length [of "take i ps"] by (auto simp: payload_offset_def)
qed

lemma payload_offset_bound:
  assumes "i < length ps"
  shows "payload_offset ps i + payload_disk_size (ps ! i) \<le> length (payloads_bytes ps)"
  using payload_split [OF assms] data_payload_fields_length [of "ps ! i"] by auto

lemma payload_validI: "block_at z D off ps \<Longrightarrow> i < length ps \<Longrightarrow> DataPayload_validate (ps ! i) = Ok"
  by (simp add: block_at_def block_list_ok_def)

lemma record_key_at:
  assumes "block_at z D off ps" "i < length ps"
  shows "record_key (valid_block z off ps) (payloads_bytes ps) (metas_of (off + 9) ps ! i) = Inr (pl_key (ps ! i))"
proof -
  obtain a b where s: "payloads_bytes ps = a @ concat (data_payload_fields (ps ! i)) @ b" "length a = payload_offset ps i"
    using payload_split [OF assms(2)] by blast
  have "take (length (pl_key (ps ! i))) (drop (25 + payload_offset ps i) (payloads_bytes ps)) = pl_key (ps ! i)"
    unfolding s(1) s(2) [symmetric] by (simp add: data_payload_fields_def enc_u32_def enc_u64_def enc_u8_def)
  moreover have "length (pl_key (ps ! i)) \<le> length (payloads_bytes ps) - (25 + payload_offset ps i)" "25 + payload_offset ps i \<le> length (payloads_bytes ps)"
    using payload_offset_bound [OF assms(2)] by (simp_all add: payload_disk_size_def)
  ultimately show ?thesis
    using block_header_facts(1) [OF assms(1)] payload_sizes(1) [OF payload_validI [OF assms]] assms(2)
    by (simp add: record_key_def metas_of_nth valid_block_def view_header_def Let_def)
qed

lemma search_is_bisect:
  assumes "\<forall>i < high. key_at i = Inr (k i)"
  shows "search_records key_at key low high = Inr (bisect (\<lambda>i. k i < key) low high)"
  using assms
proof (induction "\<lambda>i. k i < key" low high rule: bisect.induct)
  case (1 low high)
  show ?case
  proof (cases "low < high")
    case True
    define m where "m = low + (high - low) div 2"
    have m: "m < high" using True by (auto simp: m_def)
    have "search_records key_at key low high = (if k m < key then search_records key_at key (m + 1) high else search_records key_at key low m)"
      using True 1(3) m by (simp add: search_records.simps [of key_at key low high] m_def Let_def)
    moreover have "bisect (\<lambda>i. k i < key) low high = (if k m < key then bisect (\<lambda>i. k i < key) (m + 1) high else bisect (\<lambda>i. k i < key) low m)"
      using True by (simp add: bisect.simps [of "\<lambda>i. k i < key" low high] m_def Let_def)
    moreover have "k m < key \<Longrightarrow> search_records key_at key (m + 1) high = Inr (bisect (\<lambda>i. k i < key) (m + 1) high)"
      using 1(1) [OF True m_def] 1(3) by simp
    moreover have "\<not> k m < key \<Longrightarrow> search_records key_at key low m = Inr (bisect (\<lambda>i. k i < key) low m)"
      using 1(2) [OF True m_def] 1(3) m by simp
    ultimately show ?thesis by simp
  qed (simp add: search_records.simps [of key_at key low high] bisect.simps [of "\<lambda>i. k i < key" low high])
qed

text \<open>The first, hence newest, record of a key among sorted payloads.\<close>

definition first_match :: "ArenaEntry \<Rightarrow> DataPayload list \<Rightarrow> nat option \<Rightarrow> bool" where
  "first_match key ps r = (case r of None \<Rightarrow> \<forall>p\<in>set ps. pl_key p \<noteq> key
     | Some i \<Rightarrow> i < length ps \<and> pl_key (ps ! i) = key \<and> (\<forall>j<i. pl_key (ps ! j) < key))"

lemma sorted_payload_keys: "sorted_wrt ordered ps \<Longrightarrow> i \<le> j \<Longrightarrow> j < length ps \<Longrightarrow> pl_key (ps ! i) \<le> pl_key (ps ! j)"
  using sorted_wrt_nth_less [of ordered ps i j] by (cases "i = j") (auto simp: ikey_def record_of_def intro: less_imp_le)

lemma find_in_block_at:
  assumes "block_at z D off ps"
  shows "\<exists>r. find_in_block (valid_block z off ps) (payloads_bytes ps) key = Inr r \<and> first_match key ps r"
proof -
  let ?b = "valid_block z off ps" and ?less = "\<lambda>i. pl_key (ps ! i) < key"
  define n where "n = bisect ?less 0 (length ps)"
  have srt: "sorted_wrt ordered ps" using assms by (simp add: block_at_def block_list_ok_def)
  have keys: "record_key ?b (payloads_bytes ps) (vb_records ?b ! i) = Inr (pl_key (ps ! i))" if "i < length ps" for i
    using record_key_at [OF assms that] by (simp add: valid_block_def)
  have len: "length (vb_records ?b) = length ps" by (simp add: valid_block_def)
  have "search_records (\<lambda>i. record_key ?b (payloads_bytes ps) (vb_records ?b ! i)) key 0 (length ps) = Inr n"
    unfolding n_def by (rule search_is_bisect) (simp add: keys)
  then have eq: "find_in_block ?b (payloads_bytes ps) key =
      Inr (if n = length ps \<or> pl_key (ps ! n) \<noteq> key then None else Some n)" if "n \<le> length ps"
    using keys [of n] that by (simp add: find_in_block_def Let_def len)
  have "\<forall>i j. i \<le> j \<longrightarrow> j < length ps \<longrightarrow> ?less j \<longrightarrow> ?less i"
    using sorted_payload_keys [OF srt] le_less_trans by blast
  from bisect_spec [OF this, of 0] have n: "n \<le> length ps" "\<forall>i<n. ?less i" "\<forall>i. n \<le> i \<longrightarrow> i < length ps \<longrightarrow> \<not> ?less i"
    unfolding n_def by blast+
  have none: "pl_key (ps ! i) \<noteq> key" if "n = length ps \<or> pl_key (ps ! n) \<noteq> key" "i < length ps" for i
  proof (cases "i < n")
    case True
    then show ?thesis using n(2) by auto
  next
    case False
    then have "n \<le> i" "n < length ps" using that(2) by simp_all
    then have "key < pl_key (ps ! n)" using n(3) that(1) by (metis le_refl linorder_neqE nat_less_le)
    then show ?thesis using sorted_payload_keys [OF srt \<open>n \<le> i\<close> that(2)] by (metis leD)
  qed
  have "first_match key ps (if n = length ps \<or> pl_key (ps ! n) \<noteq> key then None else Some n)"
  proof (cases "n = length ps \<or> pl_key (ps ! n) \<noteq> key")
    case True
    have "\<forall>p\<in>set ps. pl_key p \<noteq> key" using none [OF True] by (metis in_set_conv_nth)
    with True show ?thesis by (simp add: first_match_def)
  next
    case False
    then show ?thesis using n(1,2) by (simp add: first_match_def)
  qed
  with eq [OF n(1)] show ?thesis by blast
qed

lemma find_run:
  assumes "block_at z D off ps" "read_quiet D f" "views z off ps b"
  shows "\<exists>r f'. ViewBlock_find_first_record z key b f = (Inr r, valid_block z off ps, f') \<and> first_match key ps r \<and>
    read_quiet D f' \<and> roff f' = roff f"
proof -
  obtain g where g: "ViewBlock_validate z b f = (Ok, valid_block z off ps, g)" "read_quiet D g" "roff g = roff f"
    using validate_run [OF assms] by blast
  obtain h where h: "read_block_payload (valid_block z off ps) g = (Inr (payloads_bytes ps), h)" "read_quiet D h" "roff h = roff g"
    using read_payload_run [OF assms(1) g(2), of "valid_block z off ps"] by (auto simp: valid_block_def)
  obtain r where r: "find_in_block (valid_block z off ps) (payloads_bytes ps) key = Inr r" "first_match key ps r"
    using find_in_block_at [OF assms(1)] by blast
  have "\<not> unat (dh_payload_size (vh_header (vb_header (valid_block z off ps)))) > BLOCK_SIZE - kHeaderSize"
    using block_header_facts [OF assms(1)] by (simp add: valid_block_def view_header_def BLOCK_SIZE_def)
  then have "ViewBlock_find_first_record z key b f = (Inr r, valid_block z off ps, h)"
    using g h r by (simp add: ViewBlock_find_first_record_def)
  with r h g show ?thesis by auto
qed

lemma read_part_run:
  assumes "block_at z D off ps" "read_quiet D f" "arena_ok ar" "never_oom ar" "bytes_at D (off + 9 + k) bs" "k + length bs \<le> 4087"
  shows "\<exists>f' ar'. read_part (length bs) (off + 9 + k) (off + 9 + k + length bs) (f, ar) = Some (Inr bs, f', ar') \<and>
    read_quiet D f' \<and> roff f' = roff f \<and> extends ar ar' \<and> never_oom ar'"
proof (cases "bs = []")
  case True
  then show ?thesis using assms(2-4) by (simp add: read_part_def return_l_def extends_refl)
next
  case False
  obtain g where g: "at_r (off + 9 + k) (read_bytes (length bs) BLOCK_SIZE) f = (Inr (bs, off + 9 + k + length bs), g)"
    "read_quiet D g" "roff g = roff f"
    using at_bytes_run [OF assms(2,5)] inner_offset [OF assms(1,6)] by blast
  have "has_single_bit 1" using has_single_bit_pow [of 0] by simp
  moreover have "0 < length bs" using False by simp
  ultimately obtain p br where "alloc (length bs) 1 ar = (Inr p, br)" "never_oom br" "extends ar br"
    using alloc_served [OF assms(3,4)] by blast
  then show ?thesis using g False
    by (simp add: read_part_def bind_l_def alloc_l_def lift_l_def check_l_def return_l_def)
qed

lemma read_record_run:
  assumes "block_at z D off ps" "read_quiet D f" "views z off ps b" "arena_ok ar" "never_oom ar" "i < length ps"
  shows "\<exists>f' ar'. ViewBlock_read_record z i b (f, ar) = Some (Inr (record_of (ps ! i)), valid_block z off ps, f', ar') \<and>
    read_quiet D f' \<and> roff f' = roff f \<and> extends ar ar' \<and> never_oom ar'"
proof -
  let ?p = "ps ! i" and ?m = "metas_of (off + 9) ps ! i"
  define k where "k = payload_offset ps i + 25"
  obtain g where g: "ViewBlock_validate z b f = (Ok, valid_block z off ps, g)" "read_quiet D g" "roff g = roff f"
    using validate_run [OF assms(1-3)] by blast
  obtain a c where s: "payloads_bytes ps = a @ concat (data_payload_fields ?p) @ c" "length a = payload_offset ps i"
    using payload_split [OF assms(6)] by blast
  have at: "bytes_at D (off + 9 + k) (pl_key ?p)" "bytes_at D (off + 9 + (k + length (pl_key ?p))) (pl_value ?p)"
    using payload_stored [OF assms(1)] s unfolding s(1)
    by (simp_all add: bytes_at_append data_payload_fields_def k_def add_ac)
  have bd: "k + length (pl_key ?p) + length (pl_value ?p) \<le> 4087"
    using payload_offset_bound [OF assms(6)] block_header_facts(2) [OF assms(1)] by (simp add: payload_disk_size_def k_def)
  have sz: "unat (entry_size (pl_key ?p)) = length (pl_key ?p)" "unat (entry_size (pl_value ?p)) = length (pl_value ?p)"
    using payload_sizes [OF payload_validI [OF assms(1,6)]] by simp_all
  obtain g1 ar1 where r1: "read_part (length (pl_key ?p)) (off + 9 + k) (off + 9 + k + length (pl_key ?p)) (g, ar) = Some (Inr (pl_key ?p), g1, ar1)"
    "read_quiet D g1" "roff g1 = roff g" "extends ar ar1" "never_oom ar1"
    using read_part_run [OF assms(1) g(2) assms(4,5) at(1)] bd by auto
  obtain g2 ar2 where r2: "read_part (length (pl_value ?p)) (off + 9 + (k + length (pl_key ?p))) (off + 9 + (k + length (pl_key ?p)) + length (pl_value ?p)) (g1, ar1) =
      Some (Inr (pl_value ?p), g2, ar2)" "read_quiet D g2" "roff g2 = roff g1" "extends ar1 ar2" "never_oom ar2"
    using read_part_run [OF assms(1) r1(2) _ r1(5) at(2)] bd r1(4) by (auto simp: extends_def)
  have m: "rm_key_size ?m = entry_size (pl_key ?p)" "rm_value_size ?m = entry_size (pl_value ?p)" "rm_type ?m = pl_type ?p" "rm_seq ?m = pl_seq ?p"
    "rm_key_offset ?m = off + 9 + k" "rm_value_offset ?m = off + 9 + (k + length (pl_key ?p))"
    "rm_record_offset ?m + RecordMeta_disk_size ?m = off + 9 + (k + length (pl_key ?p)) + length (pl_value ?p)"
    using sz by (simp_all add: metas_of_nth [OF assms(6)] k_def RecordMeta_disk_size_def)
  have e: "off + 9 + k + length (pl_key ?p) = off + 9 + (k + length (pl_key ?p))" by simp
  have "ViewBlock_read_record z i b (f, ar) = Some (Inr (record_of ?p), valid_block z off ps, g2, ar2)"
    using assms(6) by (simp add: ViewBlock_read_record_def g(1) valid_block_def [of z off ps] Let_def m sz transact_def
      bind_l_step [where m = "read_part (length (pl_key ?p)) (off + 9 + k) (off + 9 + (k + length (pl_key ?p)))", OF r1(1) [unfolded e]]
      bind_l_step [where m = "read_part (length (pl_value ?p)) (off + 9 + (k + length (pl_key ?p))) (off + 9 + (k + length (pl_key ?p)) + length (pl_value ?p))", OF r2(1)] return_l_def record_of_def)
  moreover have "extends ar ar2" using extends_trans [OF r1(4) r2(4)] .
  ultimately show ?thesis using r2 r1 g by auto
qed

end
