(* ===== verification/SSTable.thy ===== *)
theory SSTable
  imports DataSectionView
begin

text \<open>
  The table object (\<^verbatim>\<open>core/engine/sstable.cpp\<close>): building, atomic publication, loading and lookup. A failed
  write never touches the published file; a written table loads and answers every lookup with the newest
  record of the key.
\<close>

section \<open>Paths and the disk\<close>

text \<open>\<open>std::filesystem::path::lexically_normal\<close> on POSIX paths: whether the path is absolute, the file
  names left after resolving dots, and whether it ends with a separator.\<close>

fun split_path :: "string \<Rightarrow> string list" where
  "split_path [] = [[]]"
| "split_path (c # cs) = (if c = CHR ''/'' then [] # split_path cs
     else case split_path cs of [] \<Rightarrow> [[c]] | p # ps \<Rightarrow> (c # p) # ps)"

fun resolve_dots :: "bool \<Rightarrow> string list \<Rightarrow> bool \<Rightarrow> string list \<Rightarrow> string list \<times> bool" where
  "resolve_dots absolute names slash [] = (names, slash)"
| "resolve_dots absolute names slash (p # ps) =
     (if p = [] \<or> p = ''.'' then resolve_dots absolute names True ps
      else if p = ''..'' \<and> names \<noteq> [] \<and> last names \<noteq> ''..'' then resolve_dots absolute (butlast names) True ps
      else if p = ''..'' \<and> absolute \<and> names = [] then resolve_dots absolute names True ps
      else resolve_dots absolute (names @ [p]) False ps)"

definition lexically_normal :: "string \<Rightarrow> bool \<times> string list \<times> bool" where
  "lexically_normal p =
     (let absolute = (p \<noteq> [] \<and> hd p = CHR ''/'') in
      case resolve_dots absolute [] False (split_path p) of (names, slash) \<Rightarrow>
        (absolute, names, slash \<and> names \<noteq> [] \<and> last names \<noteq> ''..''))"

text \<open>Files by path. What the operating system will answer during a write or an open is scripted.\<close>

type_synonym disk = "string \<rightharpoonup> byte list"

record write_env =
  we_remove_ok :: bool
  we_opened :: StatusCode
  we_writes :: "write_outcome list"
  we_syncs :: "sync_outcome list"
  we_close_ok :: bool
  we_rename_ok :: bool
  we_directory :: StatusCode

record read_env =
  re_opened :: StatusCode
  re_reads :: "read_outcome list"

definition open_writable_file :: "write_env \<Rightarrow> string \<Rightarrow> disk \<Rightarrow> wfile result" where
  "open_writable_file env p d =
     (if \<not> is_ok (we_opened env) then Inl (we_opened env)
      else Inr \<lparr>wdata = (case d p of None \<Rightarrow> [] | Some bs \<Rightarrow> bs), wfd = True, wenv = we_writes env, wsenv = we_syncs env,
        wclose_ok = we_close_ok env, wsynced = 0, woff = 0\<rparr>)"

definition open_readable_file :: "read_env \<Rightarrow> string \<Rightarrow> disk \<Rightarrow> rfile result" where
  "open_readable_file env p d =
     (if \<not> is_ok (re_opened env) then Inl (re_opened env)
      else case d p of
        None \<Rightarrow> Inl OpenFailed
      | Some bs \<Rightarrow> Inr \<lparr>rdata = bs, rfd = True, renv = re_reads env, rclose_ok = True, roff = 0\<rparr>)"

section \<open>State\<close>

datatype TableState = TableEmpty | Building | Loaded | Published

record SSTable =
  tb_path :: string
  tb_final_path :: string
  tb_state :: TableState
  tb_file_in :: "rfile option"
  tb_header :: FileHeaderSection
  tb_data :: DataSection
  tb_view :: DataSectionView
  tb_index :: IndexSection
  tb_bloom :: BloomSection
  tb_meta :: MetaSection
  tb_footer :: FileFooterSection

definition SSTable_default :: "zlib \<Rightarrow> SSTable" where
  "SSTable_default z = \<lparr>tb_path = [], tb_final_path = [], tb_state = TableEmpty, tb_file_in = None, tb_header = FileHeader_new z,
     tb_data = \<lparr>data_blocks = []\<rparr>, tb_view = \<lparr>view_blocks = [], view_first_offset = 0, view_section_end = 0\<rparr>,
     tb_index = IndexSection_new z, tb_bloom = BloomSection_new z, tb_meta = MetaSection_new z, tb_footer = FileFooter_new z\<rparr>"

definition SSTable_building :: "zlib \<Rightarrow> string \<Rightarrow> string \<Rightarrow> u32 \<Rightarrow> SSTable" where
  "SSTable_building z temporary_path destination_path tid = (SSTable_default z)\<lparr>tb_path := temporary_path,
     tb_final_path := destination_path, tb_state := Building, tb_header := FileHeader_of z tid\<rparr>"

definition SSTable_existing :: "zlib \<Rightarrow> string \<Rightarrow> SSTable" where
  "SSTable_existing z existing_path = (SSTable_default z)\<lparr>tb_path := existing_path, tb_final_path := existing_path, tb_state := Loaded\<rparr>"

definition append_record :: "zlib \<Rightarrow> InternalRecord \<Rightarrow> SSTable action" where
  "append_record z r t =
     (if tb_state t \<noteq> Building then (InvalidState, t)
      else case DataSection_add_payload z r (tb_data t) of (c, ds) \<Rightarrow> (c, t\<lparr>tb_data := ds\<rparr>))"

section \<open>Writing\<close>

text \<open>The table, the open file and the local offsets of \<open>write\<close>, which proceeds step by step and stops
  at the first failure.\<close>

record write_state =
  ws_table :: SSTable
  ws_file :: wfile
  ws_data_offset :: nat
  ws_index_offset :: nat
  ws_bloom_offset :: nat
  ws_meta_offset :: nat

definition write_header_step :: "zlib \<Rightarrow> write_state action" where
  "write_header_step z s =
     (case FileHeader_write z (tb_header (ws_table s)) (ws_file s) of (c, f, h) \<Rightarrow>
        (c, s\<lparr>ws_file := f, ws_table := (ws_table s)\<lparr>tb_header := h\<rparr>\<rparr>))"

definition write_data_step :: "zlib \<Rightarrow> write_state action" where
  "write_data_step z s =
     (case DataSection_write z (tb_data (ws_table s)) (IndexSection_new z) (ws_data_offset s) (ws_file s) of (c, f, ds, idx, off) \<Rightarrow>
        (c, s\<lparr>ws_file := f, ws_table := (ws_table s)\<lparr>tb_data := ds, tb_index := idx\<rparr>, ws_data_offset := off\<rparr>))"

definition rebuild_bloom_step :: "zlib \<Rightarrow> write_state action" where
  "rebuild_bloom_step z s =
     (case BloomSection_rebuild z (tb_data (ws_table s)) (tb_bloom (ws_table s)) of (c, b) \<Rightarrow>
        (c, s\<lparr>ws_table := (ws_table s)\<lparr>tb_bloom := b\<rparr>\<rparr>))"

definition rebuild_meta_step :: "zlib \<Rightarrow> write_state action" where
  "rebuild_meta_step z s =
     (case MetaSection_rebuild z (tb_data (ws_table s)) (tb_index (ws_table s)) (tb_meta (ws_table s)) of (c, m) \<Rightarrow>
        (c, s\<lparr>ws_table := (ws_table s)\<lparr>tb_meta := m\<rparr>\<rparr>))"

definition write_index_step :: "zlib \<Rightarrow> write_state action" where
  "write_index_step z s =
     (case IndexSection_write z (tb_index (ws_table s)) (ws_index_offset s) (ws_file s) of (c, f, idx, off) \<Rightarrow>
        (c, s\<lparr>ws_file := f, ws_table := (ws_table s)\<lparr>tb_index := idx\<rparr>, ws_index_offset := off\<rparr>))"

definition write_bloom_step :: "zlib \<Rightarrow> write_state action" where
  "write_bloom_step z s =
     (case BloomSection_write z (tb_bloom (ws_table s)) (ws_bloom_offset s) (ws_file s) of (c, f, b, off) \<Rightarrow>
        (c, s\<lparr>ws_file := f, ws_table := (ws_table s)\<lparr>tb_bloom := b\<rparr>, ws_bloom_offset := off\<rparr>))"

definition write_meta_step :: "zlib \<Rightarrow> write_state action" where
  "write_meta_step z s =
     (case MetaSection_write z (tb_meta (ws_table s)) (ws_meta_offset s) (ws_file s) of (c, f, m, off) \<Rightarrow>
        (c, s\<lparr>ws_file := f, ws_table := (ws_table s)\<lparr>tb_meta := m\<rparr>, ws_meta_offset := off\<rparr>))"

definition fits_u32 :: "nat \<Rightarrow> bool" where
  "fits_u32 n \<longleftrightarrow> n \<le> u32_max"

definition fill_footer_step :: "write_state action" where
  "fill_footer_step s =
     (let t = ws_table s; index_size = IndexSection_disk_size (tb_index t); meta_size = MetaSection_disk_size (tb_meta t) in
      if \<not> fits_u32 index_size \<or> \<not> fits_u32 BloomSection_disk_size \<or> \<not> fits_u32 meta_size then (InvalidSectionSize, s)
      else (Ok, s\<lparr>ws_table := t\<lparr>tb_footer := (tb_footer t)\<lparr>
        ff_data_offset := of_nat (ws_data_offset s), ff_block_count := of_nat (length (data_blocks (tb_data t))),
        ff_index_offset := of_nat (ws_index_offset s), ff_index_size := of_nat index_size,
        ff_bloom_offset := of_nat (ws_bloom_offset s), ff_bloom_size := of_nat BloomSection_disk_size,
        ff_meta_offset := of_nat (ws_meta_offset s), ff_meta_size := of_nat meta_size\<rparr>\<rparr>\<rparr>))"

definition align_step :: "write_state action" where
  "align_step s = (case align_to_block_boundary BLOCK_SIZE (ws_file s) of (c, f) \<Rightarrow> (c, s\<lparr>ws_file := f\<rparr>))"

definition finalize_step :: "zlib \<Rightarrow> write_state action" where
  "finalize_step z s =
     (case finalize z (ws_file s) (woff (ws_file s)) (tb_footer (ws_table s)) of (c, t) \<Rightarrow>
        (c, s\<lparr>ws_table := (ws_table s)\<lparr>tb_footer := t\<rparr>\<rparr>))"

definition write_footer_step :: "zlib \<Rightarrow> write_state action" where
  "write_footer_step z s =
     (case FileFooter_write z (tb_footer (ws_table s)) (ws_file s) of (c, f, t) \<Rightarrow>
        (c, s\<lparr>ws_file := f, ws_table := (ws_table s)\<lparr>tb_footer := t\<rparr>\<rparr>))"

definition write_steps :: "zlib \<Rightarrow> write_state action list" where
  "write_steps z = [write_header_step z, write_data_step z, rebuild_bloom_step z, rebuild_meta_step z, write_index_step z,
     write_bloom_step z, write_meta_step z, fill_footer_step, align_step, finalize_step z, write_footer_step z]"

text \<open>\<open>fsync\<close>: the bytes are made durable before the rename; once renamed the table is published even if
  the directory cannot be synchronised. \<open>filename\<close> is the path of the open file.\<close>

definition SSTable_fsync :: "write_env \<Rightarrow> wfile \<Rightarrow> SSTable \<times> disk \<Rightarrow> StatusCode \<times> SSTable \<times> disk" where
  "SSTable_fsync env f s = (case s of (t, d) \<Rightarrow>
     case sync f of (c, f1) \<Rightarrow>
       if \<not> is_ok c then (c, t, d)
       else case wclose f1 of (c, f2) \<Rightarrow>
         if \<not> is_ok c then (c, t, d)
         else if \<not> we_rename_ok env then (RenameFailed, t, d)
         else (we_directory env, t\<lparr>tb_state := Published, tb_path := tb_final_path t\<rparr>,
           d(tb_path t := None, tb_final_path t \<mapsto> wdata f2)))"

definition SSTable_write :: "zlib \<Rightarrow> write_env \<Rightarrow> SSTable \<times> disk \<Rightarrow> StatusCode \<times> SSTable \<times> disk" where
  "SSTable_write z env s = (case s of (t, d) \<Rightarrow>
     if tb_state t \<noteq> Building then (InvalidState, t, d)
     else if tb_path t = [] then (InvalidState, t, d)
     else if tb_final_path t = [] then (InvalidState, t, d)
     else if lexically_normal (tb_path t) = lexically_normal (tb_final_path t) then (InvalidArgument, t, d)
     else if \<not> we_remove_ok env then (IOError, t, d)
     else let d = d(tb_path t := None) in
       case open_writable_file env (tb_path t) d of
         Inl e \<Rightarrow> (e, t, d)
       | Inr f \<Rightarrow>
           (case run_all (write_steps z) \<lparr>ws_table = t, ws_file = f, ws_data_offset = 0, ws_index_offset = 0,
               ws_bloom_offset = 0, ws_meta_offset = 0\<rparr> of (c, s) \<Rightarrow>
              let d = d(tb_path t \<mapsto> wdata (ws_file s)) in
              if \<not> is_ok c then (c, ws_table s, d) else SSTable_fsync env (ws_file s) (ws_table s, d)))"

section \<open>Loading\<close>

definition range_fits :: "nat \<Rightarrow> nat \<Rightarrow> nat \<Rightarrow> bool" where
  "range_fits off n limit \<longleftrightarrow> off \<le> limit \<and> n \<le> limit - off"

definition check_declared_layout :: "nat \<Rightarrow> nat \<Rightarrow> FileFooterSection \<Rightarrow> StatusCode" where
  "check_declared_layout header_cursor footer_cursor t =
     (let data_off = unat (ff_data_offset t); blocks = unat (ff_block_count t); index_off = unat (ff_index_offset t);
          bloom_off = unat (ff_bloom_offset t); meta_off = unat (ff_meta_offset t) in
      if header_cursor > data_off then InvalidState
      else if blocks > u64_max div BLOCK_SIZE then InvalidState
      else if \<not> range_fits data_off (blocks * BLOCK_SIZE) index_off then InvalidState
      else if \<not> range_fits index_off (unat (ff_index_size t)) bloom_off then InvalidState
      else if \<not> range_fits bloom_off (unat (ff_bloom_size t)) meta_off then InvalidState
      else if \<not> range_fits meta_off (unat (ff_meta_size t)) footer_cursor then InvalidState
      else Ok)"

definition load_table :: "zlib \<Rightarrow> string \<Rightarrow> SSTable loader" where
  "load_table z p =
     bind_l (seek_l 0) (\<lambda>_.
     bind_l (lift_l (FileHeader_load z)) (\<lambda>h.
     bind_l (lift_l offset_r) (\<lambda>header_cursor.
     bind_l (seek_l 0) (\<lambda>_.
     bind_l (lift_l (FileFooter_load z FileFooter_disk_size)) (\<lambda>t.
     bind_l (lift_l offset_r) (\<lambda>footer_cursor.
     bind_l (check_l (\<lambda>_. check_declared_layout header_cursor footer_cursor t)) (\<lambda>_.
     let data_off = unat (ff_data_offset t); index_off = unat (ff_index_offset t); bloom_off = unat (ff_bloom_offset t);
         meta_off = unat (ff_meta_offset t) in
     bind_l (seek_l data_off) (\<lambda>_.
     bind_l (lift_l (DataSectionView_load data_off (unat (ff_block_count t)) index_off)) (\<lambda>v.
     bind_l (check_l (\<lambda>_. if view_section_end v \<noteq> index_off then InvalidSectionSize else Ok)) (\<lambda>_.
     case (checked_add index_off (unat (ff_index_size t)), checked_add bloom_off (unat (ff_bloom_size t)),
           checked_add meta_off (unat (ff_meta_size t))) of
       (Some index_end, Some bloom_end, Some meta_end) \<Rightarrow>
         bind_l (seek_l index_off) (\<lambda>_.
         bind_l (IndexSection_load z index_off 0) (\<lambda>idx.
         bind_l (check_l (\<lambda>f. if roff f \<noteq> index_end then InvalidSectionSize else Ok)) (\<lambda>_.
         bind_l (seek_l bloom_off) (\<lambda>_.
         bind_l (lift_l (BloomSection_load z bloom_off)) (\<lambda>b.
         bind_l (check_l (\<lambda>f. if roff f \<noteq> bloom_end then InvalidSectionSize else Ok)) (\<lambda>_.
         bind_l (seek_l meta_off) (\<lambda>_.
         bind_l (MetaSection_load z idx meta_off) (\<lambda>m.
         bind_l (check_l (\<lambda>f. if roff f \<noteq> meta_end then InvalidSectionSize else Ok)) (\<lambda>_.
         return_l ((SSTable_existing z p)\<lparr>tb_header := h, tb_footer := t, tb_view := v, tb_index := idx, tb_bloom := b,
           tb_meta := m\<rparr>))))))))))
     | _ \<Rightarrow> result_l (Inl InvalidSectionSize)))))))))))"

definition SSTable_load :: "zlib \<Rightarrow> read_env \<Rightarrow> string \<Rightarrow> disk \<Rightarrow> arena \<Rightarrow> (SSTable result \<times> arena) option" where
  "SSTable_load z env p d ar =
     (if p = [] then Some (Inl InvalidArgument, ar)
      else case open_readable_file env p d of
        Inl e \<Rightarrow> map_option (Pair (Inl e)) (rollback (take_checkpoint ar) ar)
      | Inr f \<Rightarrow>
          (case transact (load_table z p) (f, ar) of
             None \<Rightarrow> None
           | Some (Inl e, f', ar') \<Rightarrow> Some (Inl e, ar')
           | Some (Inr t, f', ar') \<Rightarrow> Some (Inr (t\<lparr>tb_file_in := Some f'\<rparr>), ar')))"

section \<open>Lookup\<close>

definition SSTable_get ::
    "zlib \<Rightarrow> ArenaEntry \<Rightarrow> SSTable \<times> arena \<Rightarrow> (InternalRecord option result \<times> SSTable \<times> arena) option" where
  "SSTable_get z key s = (case s of (t, ar) \<Rightarrow>
     case tb_file_in t of
       None \<Rightarrow> Some (Inl InvalidState, t, ar)
     | Some f \<Rightarrow>
         if tb_state t \<noteq> Loaded then Some (Inl InvalidState, t, ar)
         else case find_first_candidate key (tb_index t) of
           Inl e \<Rightarrow> Some (Inl e, t, ar)
         | Inr block_index \<Rightarrow>
             if block_index \<ge> length (view_blocks (tb_view t)) then Some (Inl Corruption, t, ar)
             else case view_find_first_record z block_index key (tb_view t) f of
               (Inl e, v, f1) \<Rightarrow> Some (Inl e, t\<lparr>tb_view := v, tb_file_in := Some f1\<rparr>, ar)
             | (Inr None, v, f1) \<Rightarrow> Some (Inr None, t\<lparr>tb_view := v, tb_file_in := Some f1\<rparr>, ar)
             | (Inr (Some i), v, f1) \<Rightarrow>
                 (case view_read_record z block_index i v (f1, ar) of
                    None \<Rightarrow> None
                  | Some (r, v, f2, ar') \<Rightarrow>
                      Some (case r of Inl e \<Rightarrow> Inl e | Inr x \<Rightarrow> Inr (Some x), t\<lparr>tb_view := v, tb_file_in := Some f2\<rparr>, ar')))"

definition SSTable_fixed_disk_size :: nat where
  "SSTable_fixed_disk_size = FileHeader_disk_size + (MetaHeader_disk_size + MetaPayload_fixed_size) + BloomSection_disk_size + FileFooter_disk_size"

section \<open>The bytes of a table\<close>

lemma bytes_at_grow: "bytes_at D off bs \<Longrightarrow> bytes_at (D @ E) off bs"
  unfolding bytes_at_def by (metis append.assoc)

lemma bytes_at_end: "bytes_at (D @ bs @ E) (length D) bs"
  unfolding bytes_at_def by blast

lemma align_pad_length: "length (align_pad n) < BLOCK_SIZE"
  by (simp add: align_pad_def BLOCK_SIZE_def)

lemma run_all_okE:
  assumes "run_all (a # as) s = (Ok, s')"
  obtains s1 where "a s = (Ok, s1)" "run_all as s1 = (Ok, s')"
  using assms by (auto split: prod.splits if_splits)

text \<open>What the bytes of a written table are: every section where the footer says it is.\<close>

definition table_bytes :: "zlib \<Rightarrow> byte list \<Rightarrow> DataSection \<Rightarrow> FileHeaderSection \<Rightarrow> BloomPayload \<Rightarrow> MetaPayload \<Rightarrow> FileFooterSection \<Rightarrow> bool" where
  "table_bytes z D ds h bp mp t \<longleftrightarrow>
     (let off = unat (ff_data_offset t); es = idx_payloads (section_index z off ds) in
      section_ok z ds \<and> data_blocks ds \<noteq> [] \<and> length D \<le> ssize_max \<and>
      header_ok z h \<and> bytes_at D 0 (concat (file_header_fields h)) \<and> 24 \<le> off \<and>
      unat (ff_block_count t) = length (data_blocks ds) \<and> blocks_at z D off (map db_payloads (data_blocks ds)) \<and>
      index_ok es \<and> unat (ff_index_size t) = length (index_bytes z es) \<and> bytes_at D (unat (ff_index_offset t)) (index_bytes z es) \<and>
      BloomPayload_validate bp = Ok \<and> bytes_at D (unat (ff_bloom_offset t)) (bloom_bytes z bp) \<and>
      MetaPayload_validate mp = Ok \<and> summarises (section_payloads ds) mp \<and> unat (mp_block_count mp) = length (data_blocks ds) \<and>
      unat (ff_meta_size t) = length (meta_bytes z mp) \<and> bytes_at D (unat (ff_meta_offset t)) (meta_bytes z mp) \<and>
      (\<exists>q. D = q @ concat (footer_fields t) \<and> length q mod BLOCK_SIZE = 0 \<and> FileFooter_validate z (length q) (length D) t = Ok))"

text \<open>A successful run of the steps is this chain of section writes.\<close>

definition filled_footer :: "nat \<Rightarrow> nat \<Rightarrow> nat \<Rightarrow> nat \<Rightarrow> nat \<Rightarrow> nat \<Rightarrow> nat \<Rightarrow> FileFooterSection \<Rightarrow> FileFooterSection" where
  "filled_footer doff n ioff isize boff moff msize t = t\<lparr>ff_data_offset := of_nat doff, ff_block_count := of_nat n,
     ff_index_offset := of_nat ioff, ff_index_size := of_nat isize, ff_bloom_offset := of_nat boff,
     ff_bloom_size := of_nat BloomSection_disk_size, ff_meta_offset := of_nat moff, ff_meta_size := of_nat msize\<rparr>"

definition start_state :: "SSTable \<Rightarrow> wfile \<Rightarrow> write_state" where
  "start_state t f = \<lparr>ws_table = t, ws_file = f, ws_data_offset = 0, ws_index_offset = 0, ws_bloom_offset = 0, ws_meta_offset = 0\<rparr>"

lemma write_steps_chain:
  assumes "run_all (write_steps z) (start_state t f) = (Ok, s')"
  obtains h f1 ds idx doff f2 b m idx' ioff f3 b' boff f4 m' moff f5 f6 t1 t2 f7 where
    "FileHeader_write z (tb_header t) f = (Ok, f1, h)"
    "DataSection_write z (tb_data t) (IndexSection_new z) 0 f1 = (Ok, f2, ds, idx, doff)"
    "BloomSection_rebuild z ds (tb_bloom t) = (Ok, b)"
    "MetaSection_rebuild z ds idx (tb_meta t) = (Ok, m)"
    "IndexSection_write z idx 0 f2 = (Ok, f3, idx', ioff)"
    "BloomSection_write z b 0 f3 = (Ok, f4, b', boff)"
    "MetaSection_write z m 0 f4 = (Ok, f5, m', moff)"
    "fits_u32 (IndexSection_disk_size idx')" "fits_u32 (MetaSection_disk_size m')"
    "align_to_block_boundary BLOCK_SIZE f5 = (Ok, f6)"
    "finalize z f6 (woff f6) (filled_footer doff (length (data_blocks ds)) ioff (IndexSection_disk_size idx') boff moff
       (MetaSection_disk_size m') (tb_footer t)) = (Ok, t1)"
    "FileFooter_write z t1 f6 = (Ok, f7, t2)"
    "ws_file s' = f7" "ws_table s' = t\<lparr>tb_header := h, tb_data := ds, tb_index := idx', tb_bloom := b', tb_meta := m', tb_footer := t2\<rparr>"
proof -
  obtain s1 s2 s3 s4 s5 s6 s7 s8 s9 s10 where
    s: "write_header_step z (start_state t f) = (Ok, s1)" "write_data_step z s1 = (Ok, s2)" "rebuild_bloom_step z s2 = (Ok, s3)"
    "rebuild_meta_step z s3 = (Ok, s4)" "write_index_step z s4 = (Ok, s5)" "write_bloom_step z s5 = (Ok, s6)"
    "write_meta_step z s6 = (Ok, s7)" "fill_footer_step s7 = (Ok, s8)" "align_step s8 = (Ok, s9)"
    "finalize_step z s9 = (Ok, s10)" "write_footer_step z s10 = (Ok, s')"
    using assms unfolding write_steps_def by (elim run_all_okE) simp
  obtain f1 h where 1: "FileHeader_write z (tb_header t) f = (Ok, f1, h)"
    "s1 = (start_state t f)\<lparr>ws_file := f1, ws_table := t\<lparr>tb_header := h\<rparr>\<rparr>"
    using s(1) by (auto simp: write_header_step_def start_state_def split: prod.splits)
  obtain f2 ds idx doff where 2: "DataSection_write z (tb_data t) (IndexSection_new z) 0 f1 = (Ok, f2, ds, idx, doff)"
    "s2 = s1\<lparr>ws_file := f2, ws_table := t\<lparr>tb_header := h, tb_data := ds, tb_index := idx\<rparr>, ws_data_offset := doff\<rparr>"
    using s(2) by (auto simp: write_data_step_def start_state_def 1(2) split: prod.splits)
  obtain b where 3: "BloomSection_rebuild z ds (tb_bloom t) = (Ok, b)"
    "s3 = s2\<lparr>ws_table := t\<lparr>tb_header := h, tb_data := ds, tb_index := idx, tb_bloom := b\<rparr>\<rparr>"
    using s(3) by (auto simp: rebuild_bloom_step_def 2(2) split: prod.splits)
  obtain m where 4: "MetaSection_rebuild z ds idx (tb_meta t) = (Ok, m)"
    "s4 = s3\<lparr>ws_table := t\<lparr>tb_header := h, tb_data := ds, tb_index := idx, tb_bloom := b, tb_meta := m\<rparr>\<rparr>"
    using s(4) by (auto simp: rebuild_meta_step_def 3(2) split: prod.splits)
  obtain f3 idx' ioff where 5: "IndexSection_write z idx 0 f2 = (Ok, f3, idx', ioff)"
    "s5 = s4\<lparr>ws_file := f3, ws_table := t\<lparr>tb_header := h, tb_data := ds, tb_index := idx', tb_bloom := b, tb_meta := m\<rparr>, ws_index_offset := ioff\<rparr>"
    using s(5) by (auto simp: write_index_step_def 1(2) 2(2) 3(2) 4(2) start_state_def split: prod.splits)
  obtain f4 b' boff where 6: "BloomSection_write z b 0 f3 = (Ok, f4, b', boff)"
    "s6 = s5\<lparr>ws_file := f4, ws_table := t\<lparr>tb_header := h, tb_data := ds, tb_index := idx', tb_bloom := b', tb_meta := m\<rparr>, ws_bloom_offset := boff\<rparr>"
    using s(6) by (auto simp: write_bloom_step_def 1(2) 2(2) 3(2) 4(2) 5(2) start_state_def split: prod.splits)
  obtain f5 m' moff where 7: "MetaSection_write z m 0 f4 = (Ok, f5, m', moff)"
    "s7 = s6\<lparr>ws_file := f5, ws_table := t\<lparr>tb_header := h, tb_data := ds, tb_index := idx', tb_bloom := b', tb_meta := m'\<rparr>, ws_meta_offset := moff\<rparr>"
    using s(7) by (auto simp: write_meta_step_def 1(2) 2(2) 3(2) 4(2) 5(2) 6(2) start_state_def split: prod.splits)
  define ft where "ft = filled_footer doff (length (data_blocks ds)) ioff (IndexSection_disk_size idx') boff moff (MetaSection_disk_size m') (tb_footer t)"
  have 8: "fits_u32 (IndexSection_disk_size idx')" "fits_u32 (MetaSection_disk_size m')"
    "s8 = s7\<lparr>ws_table := t\<lparr>tb_header := h, tb_data := ds, tb_index := idx', tb_bloom := b', tb_meta := m', tb_footer := ft\<rparr>\<rparr>"
    using s(8) by (auto simp: fill_footer_step_def 1(2) 2(2) 3(2) 4(2) 5(2) 6(2) 7(2) start_state_def ft_def filled_footer_def Let_def split: if_splits)
  obtain f6 where 9: "align_to_block_boundary BLOCK_SIZE f5 = (Ok, f6)" "s9 = s8\<lparr>ws_file := f6\<rparr>"
    using s(9) by (auto simp: align_step_def 7(2) 8(3) split: prod.splits)
  obtain t1 where 10: "finalize z f6 (woff f6) ft = (Ok, t1)"
    "s10 = s9\<lparr>ws_table := t\<lparr>tb_header := h, tb_data := ds, tb_index := idx', tb_bloom := b', tb_meta := m', tb_footer := t1\<rparr>\<rparr>"
    using s(10) by (auto simp: finalize_step_def 8(3) 9(2) split: prod.splits)
  obtain f7 t2 where 11: "FileFooter_write z t1 f6 = (Ok, f7, t2)" "ws_file s' = f7"
    "ws_table s' = t\<lparr>tb_header := h, tb_data := ds, tb_index := idx', tb_bloom := b', tb_meta := m', tb_footer := t2\<rparr>"
    using s(11) by (auto simp: write_footer_step_def 9(2) 10(2) split: prod.splits)
  from that [OF 1(1) 2(1) 3(1) 4(1) 5(1) 6(1) 7(1) 8(1,2) 9(1) 10(1) [unfolded ft_def] 11] show ?thesis .
qed

lemma physical_span_bound: "section_ok z ds \<Longrightarrow> physical_span ds \<le> length (data_blocks ds) * BLOCK_SIZE"
proof -
  assume ok: "section_ok z ds"
  show ?thesis
  proof (cases "data_blocks ds = []")
    case False
    have "block_list_ok (db_payloads (last (data_blocks ds)))" using ok False by (simp add: section_ok_def block_ok_def)
    then have "DataBlock_disk_size (last (data_blocks ds)) \<le> BLOCK_SIZE" by (simp add: DataBlock_disk_size_def block_list_ok_def BLOCK_SIZE_def)
    then show ?thesis using False by (cases "length (data_blocks ds)") (simp_all add: physical_span_def)
  qed (simp add: physical_span_def)
qed

lemma finalized_fields:
  assumes "tracked f" "finalize z f (woff f) t = (Ok, t1)" "FileFooter_write z t1 f = (Ok, f', t2)"
  shows "ff_data_offset t2 = ff_data_offset t" "ff_block_count t2 = ff_block_count t" "ff_index_offset t2 = ff_index_offset t"
    "ff_index_size t2 = ff_index_size t" "ff_bloom_offset t2 = ff_bloom_offset t" "ff_bloom_size t2 = ff_bloom_size t"
    "ff_meta_offset t2 = ff_meta_offset t" "ff_meta_size t2 = ff_meta_size t"
proof -
  note a = finalize_okD(3) [OF assms(1,2)] and b = finalize_okD(3) [OF assms(1) FileFooter_write_okD(5) [OF assms(1,3)]]
  show "ff_data_offset t2 = ff_data_offset t" "ff_block_count t2 = ff_block_count t" "ff_index_offset t2 = ff_index_offset t"
    "ff_index_size t2 = ff_index_size t" "ff_bloom_offset t2 = ff_bloom_offset t" "ff_bloom_size t2 = ff_bloom_size t"
    "ff_meta_offset t2 = ff_meta_offset t" "ff_meta_size t2 = ff_meta_size t"
    by (subst b, subst a, simp)+
qed

lemma written_layout:
  assumes ok: "section_ok z ds" and ne: "data_blocks ds \<noteq> []" and f: "tracked f" "wdata f = []"
    and w1: "FileHeader_write z h0 f = (Ok, f1, h)"
    and w2: "DataSection_write z ds (IndexSection_new z) 0 f1 = (Ok, f2, ds', idx, doff)"
    and w3: "IndexSection_write z idx 0 f2 = (Ok, f3, idx', ioff)"
    and w4: "BloomSection_write z b 0 f3 = (Ok, f4, b', boff)"
    and w5: "MetaSection_write z m 0 f4 = (Ok, f5, m', moff)"
    and w6: "align_to_block_boundary BLOCK_SIZE f5 = (Ok, f6)"
  defines "es \<equiv> idx_payloads (section_index z doff ds)"
  shows "tracked f6" "24 \<le> doff" "length (wdata f6) mod BLOCK_SIZE = 0"
    "bytes_at (wdata f6) 0 (concat (file_header_fields h))"
    "\<forall>i < length (data_blocks ds). bytes_at (wdata f6) (doff + i * BLOCK_SIZE) (block_bytes z (db_payloads (data_blocks ds ! i)))"
    "bytes_at (wdata f6) ioff (index_bytes z es)" "bytes_at (wdata f6) boff (bloom_bytes z (bl_payload b))"
    "bytes_at (wdata f6) moff (meta_bytes z (ms_payload m))"
    "ds' = ds" "idx = section_index z doff ds" "index_ok es" "header_ok z h" "idx' = idx_of z es" "length es \<le> 255"
    "BloomPayload_validate (bl_payload b) = Ok" "MetaPayload_validate (ms_payload m) = Ok"
    "b' = \<lparr>bl_header = bloom_header z (bl_payload b), bl_payload = bl_payload b\<rparr>"
    "m' = \<lparr>ms_header = meta_header z (ms_payload m), ms_payload = ms_payload m\<rparr>"
proof -
  note d1 = FileHeader_write_okD [OF f(1) w1]
  note d2 = DataSection_write_okD [OF ok d1(3) ne w2]
  note d3 = IndexSection_write_okD [OF d2(1) w3]
  note d4 = BloomSection_write_okD [OF d3(2) w4]
  note d5 = MetaSection_write_okD [OF d4(3) w5]
  have d6: "tracked f6" "wdata f6 = wdata f5 @ align_pad (length (wdata f5))"
    using emits_okD [OF align_emits [OF d5(2)] w6 d5(2)] by simp_all
  have es: "idx_payloads idx = es" "idx = idx_of z es" using d2(3) by (simp_all add: es_def section_index_def idx_of_def)
  have H: "wdata f1 = concat (file_header_fields h)" "length (wdata f1) = 24"
    using d1(4) f(2) by (simp_all add: align_pad_def file_header_fields_length)
  obtain r2 where r2: "wdata f2 = wdata f1 @ r2" using d2(6) by blast
  have grow: "\<exists>E. wdata f6 = wdata g @ E" if "g \<in> {f1, f2, f3, f4, f5}" for g
    using that d6(2) d5(4) d4(4) d3(3) r2 by auto
  have keep: "bytes_at (wdata g) off bs \<Longrightarrow> bytes_at (wdata f6) off bs" if "g \<in> {f1, f2, f3, f4, f5}" for g off bs
    using grow [OF that] bytes_at_grow by auto
  show "tracked f6" "24 \<le> doff" "ds' = ds" "idx = section_index z doff ds" "header_ok z h" "index_ok es"
    using d6 d2(2,3,4,5) H d1(1) es by simp_all
  show "idx' = idx_of z es" using d3(4) es by (simp add: idx_of_def)
  show few: "length es \<le> 255" using index_ok_length d2(4) es(1) by simp
  show "BloomPayload_validate (bl_payload b) = Ok" "MetaPayload_validate (ms_payload m) = Ok"
    "b' = \<lparr>bl_header = bloom_header z (bl_payload b), bl_payload = bl_payload b\<rparr>"
    "m' = \<lparr>ms_header = meta_header z (ms_payload m), ms_payload = ms_payload m\<rparr>" using d4(1,2) d5(1,3) by simp_all
  show "length (wdata f6) mod BLOCK_SIZE = 0" using align_pad_aligned [of "length (wdata f5)"] d6(2) by simp
  show "bytes_at (wdata f6) 0 (concat (file_header_fields h))"
    by (rule keep [of f1]) (use H bytes_at_end [of "[]"] in \<open>simp_all add: bytes_at_def\<close>)
  show "\<forall>i < length (data_blocks ds). bytes_at (wdata f6) (doff + i * BLOCK_SIZE) (block_bytes z (db_payloads (data_blocks ds ! i)))"
    using d2(7) keep [of f2] by blast
  show "bytes_at (wdata f6) ioff (index_bytes z es)"
    by (rule keep [of f3]) (use d3(3,5) es bytes_at_end [of "wdata f2 @ align_pad (length (wdata f2))" "index_bytes z es" "[]"] in simp_all)
  show "bytes_at (wdata f6) boff (bloom_bytes z (bl_payload b))"
    by (rule keep [of f4]) (use d4(4,5) bytes_at_end [of "wdata f3 @ align_pad (length (wdata f3))" "bloom_bytes z (bl_payload b)" "[]"] in simp_all)
  show "bytes_at (wdata f6) moff (meta_bytes z (ms_payload m))"
    by (rule keep [of f5]) (use d5(4,5) bytes_at_end [of "wdata f4 @ align_pad (length (wdata f4))" "meta_bytes z (ms_payload m)" "[]"] in simp_all)
qed

text \<open>The length of a table stays far below the limits of the footer's fields.\<close>

lemma written_size:
  assumes ok: "section_ok z ds" and ne: "data_blocks ds \<noteq> []" and f: "tracked f" "wdata f = []"
    and w1: "FileHeader_write z h0 f = (Ok, f1, h)"
    and w2: "DataSection_write z ds (IndexSection_new z) 0 f1 = (Ok, f2, ds', idx, doff)"
    and w3: "IndexSection_write z idx 0 f2 = (Ok, f3, idx', ioff)"
    and w4: "BloomSection_write z b 0 f3 = (Ok, f4, b', boff)"
    and w5: "MetaSection_write z m 0 f4 = (Ok, f5, m', moff)"
    and w6: "align_to_block_boundary BLOCK_SIZE f5 = (Ok, f6)"
  shows "length (wdata f6) \<le> 265 * BLOCK_SIZE"
proof -
  note d1 = FileHeader_write_okD [OF f(1) w1]
  note d2 = DataSection_write_okD [OF ok d1(3) ne w2]
  note d3 = IndexSection_write_okD [OF d2(1) w3]
  note d4 = BloomSection_write_okD [OF d3(2) w4]
  note d5 = MetaSection_write_okD [OF d4(3) w5]
  have d6: "wdata f6 = wdata f5 @ align_pad (length (wdata f5))" using emits_okD [OF align_emits [OF d5(2)] w6 d5(2)] by simp
  have H: "length (wdata f1) = 24" using d1(4) f(2) by (simp add: align_pad_def file_header_fields_length)
  have n: "length (data_blocks ds) \<le> 255"
    using index_ok_length [OF d2(4)] d2(3) by (simp add: section_index_def idx_of_def entries_of_length)
  have "length (wdata f2) \<le> 24 + BLOCK_SIZE + 255 * BLOCK_SIZE"
    using d2(8) physical_span_bound [OF ok] d2(5) H align_pad_length [of "length (wdata f1)"] n
    mult_le_mono1 [of "length (data_blocks ds)" 255 BLOCK_SIZE] by linarith
  moreover have "length (index_bytes z (idx_payloads idx)) \<le> BLOCK_SIZE" using index_bytes_length [OF d2(4)] .
  moreover have "length (bloom_bytes z (bl_payload b)) \<le> BLOCK_SIZE" using bloom_fields_length(3) [OF d4(1)] by (simp add: BLOCK_SIZE_def)
  moreover have "length (meta_bytes z (ms_payload m)) \<le> BLOCK_SIZE"
    using valid_meta_size [OF d5(1)] by (simp add: meta_section_length MetaPayload_disk_size_def BLOCK_SIZE_def)
  ultimately show ?thesis
    using d6 d5(4) d4(4) d3(3) align_pad_length [of "length (wdata f2)"] align_pad_length [of "length (wdata f3)"]
      align_pad_length [of "length (wdata f4)"] align_pad_length [of "length (wdata f5)"]
    by (simp add: BLOCK_SIZE_def)
qed

lemma meta_rebuild_okD:
  assumes "section_ok z ds" "data_blocks ds \<noteq> []" "index_ok (idx_payloads (section_index z off ds))"
    "MetaSection_rebuild z ds (section_index z off ds) m0 = (Ok, m)"
  shows "meta_ok z ds m"
  using MetaSection_rebuild_spec [OF assms(1-3), of m0] assms(4)
  by (cases "56 + length (key_entry (hd (section_records ds))) + length (key_entry (last (section_records ds))) \<le> 4087") auto

lemma unat_at_end: "bytes_at D off bs \<Longrightarrow> length D \<le> u64_max \<Longrightarrow> unat (of_nat off :: u64) = off"
  by (drule bytes_at_bound) (simp add: unat_nat64)

lemma write_steps_okD:
  assumes ok: "section_ok z (tb_data t)" and ne: "data_blocks (tb_data t) \<noteq> []" and f: "tracked f" "wdata f = []"
    and run: "run_all (write_steps z) (start_state t f) = (Ok, s')"
  shows "\<exists>h b m t'. ws_table s' = t\<lparr>tb_header := h, tb_index := tb_index (ws_table s'), tb_bloom := b, tb_meta := m, tb_footer := t'\<rparr> \<and>
    fh_table_id h = fh_table_id (tb_header t) \<and> tracked (ws_file s') \<and> table_bytes z (wdata (ws_file s')) (tb_data t) h (bl_payload b) (ms_payload m) t'"
  using run
proof (cases rule: write_steps_chain)
  case (1 h f1 ds idx doff f2 b m idx' ioff f3 b' boff f4 m' moff f5 f6 t1 t2 f7)
  define es where "es = idx_payloads (section_index z doff (tb_data t))"
  note l = written_layout [OF ok ne f 1(1,2,5,6,7,10), folded es_def]
  have small: "length (wdata f6) \<le> 265 * 4096" using written_size [OF ok ne f 1(1,2,5,6,7,10)] by (simp add: BLOCK_SIZE_def)
  note ff = finalized_fields [OF l(1) 1(11,12)] and w = FileFooter_write_okD [OF l(1) 1(12)]
  have D: "wdata f7 = wdata f6 @ concat (footer_fields t2)" "length (wdata f7) \<le> 266 * 4096"
    using w(2) small by (simp_all add: footer_fields_length)
  have keep: "bytes_at (wdata f7) off bs" if "bytes_at (wdata f6) off bs" for off bs using that D(1) bytes_at_grow by simp
  have n: "length (data_blocks (tb_data t)) \<le> 255" using l(14) by (simp add: es_def section_index_def idx_of_def entries_of_length)
  have u: "unat (ff_data_offset t2) = doff" "unat (ff_index_offset t2) = ioff" "unat (ff_bloom_offset t2) = boff"
    "unat (ff_meta_offset t2) = moff" "unat (ff_block_count t2) = length (data_blocks (tb_data t))"
    using unat_at_end [OF l(6)] unat_at_end [OF l(7)] unat_at_end [OF l(8)] l(5) ne small n ff
    by (auto simp: filled_footer_def l(9) unat_nat64 dest!: spec [of _ 0] unat_at_end)
  have "unat (ff_index_size t2) = IndexSection_disk_size idx'" "unat (ff_meta_size t2) = MetaSection_disk_size m'"
    using 1(8,9) ff(4,8) by (simp_all add: filled_footer_def fits_u32_def unat_nat32)
  then have sz: "unat (ff_index_size t2) = length (index_bytes z es)" "unat (ff_meta_size t2) = length (meta_bytes z (ms_payload m))"
    by (simp_all add: l(13,18) IndexSection_disk_size_def idx_of_def index_bytes_def header_fields_length entries_bytes_length
      MetaSection_disk_size_def meta_section_length)
  have "0 < unat (ff_block_count t2)" using u(5) ne by simp
  then have v: "doff mod BLOCK_SIZE = 0" "doff + length (data_blocks (tb_data t)) * BLOCK_SIZE = ioff"
    using footer_validD(1) [OF w(4)] u by simp_all
  have "\<forall>i < length (data_blocks (tb_data t)). block_list_ok (db_payloads (data_blocks (tb_data t) ! i))"
    using ok by (simp add: section_ok_def block_ok_def)
  then have blocks: "blocks_at z (wdata f7) doff (map db_payloads (data_blocks (tb_data t)))"
    using l(5) keep v bytes_at_bound [OF keep [OF l(6)]] by (simp add: blocks_at_def)
  have "meta_ok z (tb_data t) m"
    using meta_rebuild_okD [OF ok ne] 1(4) l(9,10,11) es_def by simp
  then have m: "summarises (section_payloads (tb_data t)) (ms_payload m)" "unat (mp_block_count (ms_payload m)) = length (data_blocks (tb_data t))"
    by (simp_all add: meta_ok_def)
  have "table_bytes z (wdata f7) (tb_data t) h (bl_payload b') (ms_payload m') t2"
    unfolding table_bytes_def Let_def u es_def [symmetric] using ok ne D w(3,4) l keep blocks sz m by (intro conjI) auto
  then show ?thesis using 1(13,14) w(1) l(9) FileHeader_write_okD(2) [OF f(1) 1(1)] by (intro exI [of _ h] exI [of _ b'] exI [of _ m'] exI [of _ t2]) simp
qed

section \<open>Loading a written table\<close>

lemma table_bytesD:
  assumes "table_bytes z D ds h bp mp t"
  defines "off \<equiv> unat (ff_data_offset t)"
  defines "es \<equiv> idx_payloads (section_index z off ds)"
  shows "section_ok z ds" "data_blocks ds \<noteq> []" "length D \<le> ssize_max" "header_ok z h" "bytes_at D 0 (concat (file_header_fields h))"
    "24 \<le> off" "unat (ff_block_count t) = length (data_blocks ds)" "blocks_at z D off (map db_payloads (data_blocks ds))"
    "index_ok es" "unat (ff_index_size t) = length (index_bytes z es)" "bytes_at D (unat (ff_index_offset t)) (index_bytes z es)"
    "BloomPayload_validate bp = Ok" "bytes_at D (unat (ff_bloom_offset t)) (bloom_bytes z bp)"
    "MetaPayload_validate mp = Ok" "summarises (section_payloads ds) mp" "unat (mp_block_count mp) = length (data_blocks ds)"
    "unat (ff_meta_size t) = length (meta_bytes z mp)" "bytes_at D (unat (ff_meta_offset t)) (meta_bytes z mp)"
    "\<exists>q. D = q @ concat (footer_fields t) \<and> length q mod BLOCK_SIZE = 0 \<and> FileFooter_validate z (length q) (length D) t = Ok"
  using assms(1) unfolding table_bytes_def Let_def off_def [symmetric] es_def [symmetric] by auto

lemma footer_alignedD:
  assumes "FileFooter_validate z off n t = Ok"
  shows "unat (ff_index_offset t) mod BLOCK_SIZE = 0" "unat (ff_bloom_offset t) mod BLOCK_SIZE = 0" "unat (ff_meta_offset t) mod BLOCK_SIZE = 0"
    "unat (ff_bloom_size t) = 153"
  using assms by (auto simp: FileFooter_validate_def Let_def is_block_aligned_def split: if_splits)

lemma bind_l_offset: "bind_l (lift_l offset_r) k (f, ar) = k (roff f) (f, ar)"
  by (simp add: bind_l_def lift_l_def offset_r_def)

lemma load_table_at:
  assumes z: "crc_incremental z" and tb: "table_bytes z D ds h bp mp t" and q: "read_quiet D f" and ar: "arena_ok ar" "never_oom ar"
  shows "\<exists>f' ar'. load_table z p (f, ar) = Some (Inr ((SSTable_existing z p)\<lparr>tb_header := h, tb_footer := t,
      tb_view := unread_view z (unat (ff_data_offset t)) (map db_payloads (data_blocks ds)),
      tb_index := section_index z (unat (ff_data_offset t)) ds, tb_bloom := \<lparr>bl_header = bloom_header z bp, bl_payload = bp\<rparr>,
      tb_meta := \<lparr>ms_header = meta_header z mp, ms_payload = mp\<rparr>\<rparr>), f', ar') \<and> read_quiet D f' \<and> extends ar ar' \<and> never_oom ar'"
proof -
  define off where "off = unat (ff_data_offset t)"
  define io where "io = unat (ff_index_offset t)"
  define bo where "bo = unat (ff_bloom_offset t)"
  define mo where "mo = unat (ff_meta_offset t)"
  define n where "n = length (data_blocks ds)"
  define idx where "idx = section_index z off ds"
  note T = table_bytesD [OF tb, folded off_def io_def bo_def mo_def n_def, folded idx_def]
  obtain q0 where q0: "D = q0 @ concat (footer_fields t)" "length q0 mod BLOCK_SIZE = 0" "FileFooter_validate z (length q0) (length D) t = Ok"
    using T(19) by (elim exE conjE)
  note V = footer_validD [OF q0(3), folded off_def io_def bo_def mo_def, unfolded T(7)] and A = footer_alignedD [OF q0(3), folded io_def bo_def mo_def]
  have io: "off + n * BLOCK_SIZE = io" using V(1) T(2) by (simp add: n_def)
  have lens: "io + length (index_bytes z (idx_payloads idx)) \<le> bo" "bo + 153 \<le> mo" "mo + length (meta_bytes z mp) \<le> length D"
    using V(2-5) A(4) T(10,17) by simp_all
  have big: "length D \<le> u64_max" using T(3) by simp
  obtain g1 where g1: "FileHeader_load z (f\<lparr>roff := 0\<rparr>) = (Inr h, g1)" "read_quiet D g1" "roff g1 = 24"
    using FileHeader_load_at [OF T(4), of D "f\<lparr>roff := 0\<rparr>"] T(5) q by auto
  obtain g2 where g2: "FileFooter_load z FileFooter_disk_size (g1\<lparr>roff := 0\<rparr>) = (Inr t, g2)" "read_quiet D g2" "roff g2 = length D"
    using FileFooter_load_at [OF q0(3) _ q0(2,1) refl, of "g1\<lparr>roff := 0\<rparr>"] g1(2) by auto
  have lay: "check_declared_layout 24 (length D) t = Ok"
    using T(6) io lens big A(4) T(10,17) by (auto simp: check_declared_layout_def Let_def range_fits_def off_def [symmetric] io_def [symmetric]
      bo_def [symmetric] mo_def [symmetric] T(7) BLOCK_SIZE_def)
  let ?pss = "map db_payloads (data_blocks ds)"
  have pss: "length ?pss = n" "?pss \<noteq> []" using T(2) by (simp_all add: n_def)
  obtain g3 where g3: "DataSectionView_load off n io (g2\<lparr>roff := off\<rparr>) = (Inr (unread_view z off ?pss), g3)" "read_quiet D g3"
    using DataSectionView_load_at [OF T(8) pss(2), of "g2\<lparr>roff := off\<rparr>"] g2(2) unfolding pss(1) io by auto
  have ends: "checked_add io (unat (ff_index_size t)) = Some (io + length (index_bytes z (idx_payloads idx)))"
    "checked_add bo (unat (ff_bloom_size t)) = Some (bo + 153)" "checked_add mo (unat (ff_meta_size t)) = Some (mo + length (meta_bytes z mp))"
    using lens big A(4) T(10,17) by (simp_all add: checked_add_def)
  have idx: "idx = \<lparr>idx_header = index_header z (idx_payloads idx), idx_payloads = idx_payloads idx\<rparr>"
    by (simp add: idx_def section_index_def idx_of_def)
  obtain g4 ar4 where g4: "IndexSection_load z io 0 (g3\<lparr>roff := io\<rparr>, ar) = Some (Inr idx, g4, ar4)" "read_quiet D g4"
    "roff g4 = io + length (index_bytes z (idx_payloads idx))" "extends ar ar4" "never_oom ar4"
    using load_impl_at [OF z T(9), of D "g3\<lparr>roff := io\<rparr>" ar io 0 None] g3(2) ar T(11) A(1) idx by (auto simp: IndexSection_load_def layout_fits_def)
  obtain g5 where g5: "BloomSection_load z bo (g4\<lparr>roff := bo\<rparr>) = (Inr \<lparr>bl_header = bloom_header z bp, bl_payload = bp\<rparr>, g5)" "read_quiet D g5" "roff g5 = bo + 153"
    using BloomSection_load_at [OF T(12) _ A(2) T(13), of "g4\<lparr>roff := bo\<rparr>"] g4(2) by auto
  have "validate_index_consistency mp idx = Ok" using index_consistent [OF T(1,2) _ T(15)] T(9,16) by (simp add: idx_def n_def)
  then obtain g6 ar6 where g6: "MetaSection_load z idx mo (g5\<lparr>roff := mo\<rparr>, ar4) = Some (Inr \<lparr>ms_header = meta_header z mp, ms_payload = mp\<rparr>, g6, ar6)"
    "read_quiet D g6" "roff g6 = mo + length (meta_bytes z mp)" "extends ar4 ar6" "never_oom ar6"
    using MetaSection_load_at [OF T(14) _ _ _ _ A(3) T(18), of idx "g5\<lparr>roff := mo\<rparr>" ar4] g5(2) g4(4,5) by (auto simp: extends_def)
  have ve: "view_section_end (unread_view z off ?pss) = io" using io by (simp add: unread_view_def n_def)
  have "load_table z p (f, ar) = Some (Inr ((SSTable_existing z p)\<lparr>tb_header := h, tb_footer := t, tb_view := unread_view z off ?pss,
      tb_index := idx, tb_bloom := \<lparr>bl_header = bloom_header z bp, bl_payload = bp\<rparr>, tb_meta := \<lparr>ms_header = meta_header z mp, ms_payload = mp\<rparr>\<rparr>), g6, ar6)"
    unfolding load_table_def Let_def off_def [symmetric] io_def [symmetric] bo_def [symmetric] mo_def [symmetric]
    by (simp add: run_l bind_l_offset g1 g2 g3(1) lay off_def [symmetric] io_def [symmetric] bo_def [symmetric] mo_def [symmetric] T(7)
      ends g5(1,3) g4(3) g6(3) bind_l_step [where m = "IndexSection_load z io 0", OF g4(1)] bind_l_step [where m = "MetaSection_load z idx mo", OF g6(1)]
      return_l_def ve del: footer_sizes)
  moreover have "extends ar ar6" using extends_trans [OF g4(4) g6(4)] .
  ultimately show ?thesis using g6 by (auto simp: off_def [symmetric] idx_def [symmetric])
qed

section \<open>Lookups in a loaded table\<close>

text \<open>The newest record of a key is its first one.\<close>

definition newest_in :: "ArenaEntry \<Rightarrow> InternalRecord list \<Rightarrow> InternalRecord option" where
  "newest_in key rs = List.find (\<lambda>r. key_entry r = key) rs"

lemma find_append: "List.find P (xs @ ys) = (case List.find P xs of None \<Rightarrow> List.find P ys | Some x \<Rightarrow> Some x)"
  by (induction xs) auto

lemma newest_in_map: "newest_in key (map record_of ps) = map_option record_of (List.find (\<lambda>p. pl_key p = key) ps)"
  by (induction ps) (simp_all add: newest_in_def record_of_def)

lemma entries_of_nth:
  "i < length pss \<Longrightarrow> pss ! i \<noteq> [] \<Longrightarrow> first_key (entries_of off pss ! i) = pl_key (hd (pss ! i)) \<and>
    last_key (entries_of off pss ! i) = pl_key (last (pss ! i))"
  by (induction pss arbitrary: off i) (auto simp: nth_Cons entry_of_def split: nat.split)

lemma key_in_block_range:
  assumes "sorted_wrt ordered ps" "p \<in> set ps"
  shows "pl_key (hd ps) \<le> pl_key p" "pl_key p \<le> pl_key (last ps)"
proof -
  obtain i where i: "i < length ps" "p = ps ! i" using assms(2) by (auto simp: in_set_conv_nth)
  have "ps \<noteq> []" using assms(2) by auto
  then show "pl_key (hd ps) \<le> pl_key p" "pl_key p \<le> pl_key (last ps)"
    using sorted_payload_keys [OF assms(1), of 0 i] sorted_payload_keys [OF assms(1), of i "length ps - 1"] i
    by (simp_all add: hd_conv_nth last_conv_nth)
qed

text \<open>The search of \<open>get\<close> in the blocks: the first candidate block decides.\<close>

lemma first_candidate_decides:
  assumes ok: "section_ok z ds" and io: "index_ok (idx_payloads (section_index z off ds))"
  defines "pss \<equiv> map db_payloads (data_blocks ds)"
  shows "case find_first_candidate key (section_index z off ds) of
      Inl e \<Rightarrow> e = NotFound \<and> List.find (\<lambda>p. pl_key p = key) (concat pss) = None
    | Inr a \<Rightarrow> a < length pss \<and> (\<forall>r. first_match key (pss ! a) r \<longrightarrow>
        List.find (\<lambda>p. pl_key p = key) (concat pss) = map_option (\<lambda>i. pss ! a ! i) r)"
proof -
  define es where "es = idx_payloads (section_index z off ds)"
  have es: "es = entries_of off pss" "length es = length pss" by (simp_all add: es_def section_index_def idx_of_def pss_def entries_of_length)
  have blk: "pss ! i \<noteq> []" "sorted_wrt ordered (pss ! i)" if "i < length pss" for i
    using ok that by (auto simp: section_ok_def block_ok_def block_list_ok_def pss_def)
  have rng: "first_key (es ! i) = pl_key (hd (pss ! i))" "last_key (es ! i) = pl_key (last (pss ! i))" if "i < length pss" for i
    using entries_of_nth [OF that blk(1) [OF that]] es(1) by simp_all
  have no: "\<forall>p\<in>set (pss ! i). pl_key p \<noteq> key" if "i < length pss" "\<not> (first_key (es ! i) \<le> key \<and> key \<le> last_key (es ! i))" for i
    using key_in_block_range [OF blk(2) [OF that(1)]] rng [OF that(1)] that(2) by auto
  have none: "List.find (\<lambda>p. pl_key p = key) (concat xss) = None" if "\<forall>ps\<in>set xss. \<forall>p\<in>set ps. pl_key p \<noteq> key" for xss
    using that by (auto simp: find_None_iff)
  show ?thesis
  proof (cases "find_candidate_range key (section_index z off ds)")
    case (Inl e)
    with find_candidate_range_spec [OF io, of key] have e: "e = NotFound" and out: "\<forall>p\<in>set es. \<not> (first_key p \<le> key \<and> key \<le> last_key p)"
      by (auto simp: es_def)
    have "\<forall>ps\<in>set pss. \<forall>p\<in>set ps. pl_key p \<noteq> key" using no out es(2) by (metis in_set_conv_nth nth_mem)
    then show ?thesis using Inl e none by (simp add: find_first_candidate_def)
  next
    case (Inr ab)
    obtain a b where ab: "ab = (a, b)" by fastforce
    from find_candidate_range_spec [OF io, of key] have c: "a < b" "b \<le> length es"
      "\<And>i. i < length es \<Longrightarrow> a \<le> i \<and> i < b \<longleftrightarrow> first_key (es ! i) \<le> key \<and> key \<le> last_key (es ! i)"
      unfolding Inr ab by (simp_all add: es_def)
    then have a: "a < length pss" using es(2) by simp
    have before: "\<forall>ps\<in>set (take a pss). \<forall>p\<in>set ps. pl_key p \<noteq> key"
    proof
      fix ps assume "ps \<in> set (take a pss)"
      then obtain i where "i < a" "ps = pss ! i" using a by (auto simp: in_set_conv_nth)
      then show "\<forall>p\<in>set ps. pl_key p \<noteq> key" using no [of i] c(3) [of i] es(2) a by auto
    qed
    have split: "concat pss = concat (take a pss) @ pss ! a @ concat (drop (Suc a) pss)"
      using id_take_nth_drop [OF a] by (metis concat.simps(2) concat_append)
    have "List.find (\<lambda>p. pl_key p = key) (concat pss) = map_option (\<lambda>i. pss ! a ! i) r" if r: "first_match key (pss ! a) r" for r
    proof (cases r)
      case (Some i)
      then have "List.find (\<lambda>p. pl_key p = key) (pss ! a) = Some (pss ! a ! i)"
        using r by (auto simp: first_match_def find_Some_iff intro!: exI [of _ i])
      then show ?thesis using Some none [OF before] by (simp add: split find_append)
    next
      case None
      then have here: "\<forall>p\<in>set (pss ! a). pl_key p \<noteq> key" using r by (simp add: first_match_def)
      have after: "pl_key p \<noteq> key" if j: "a < j" "j < length pss" "p \<in> set (pss ! j)" for j p
      proof (cases "j < b")
        case True
        then have "first_key (es ! j) \<le> key" "key \<le> last_key (es ! a)" using c(3) [of j] c(3) [of a] c(1) j a es(2) by simp_all
        then have "key = last_key (es ! a)" using index_ok_order [OF io, of a j] j es by (simp add: es_def [symmetric])
        then show ?thesis using here rng(2) [OF a] blk(1) [OF a] by auto
      next
        case False
        then show ?thesis using no [OF j(2)] c(3) [of j] j es(2) by auto
      qed
      have "\<forall>ps\<in>set (drop (Suc a) pss). \<forall>p\<in>set ps. pl_key p \<noteq> key"
      proof
        fix ps assume "ps \<in> set (drop (Suc a) pss)"
        then obtain i where "i < length pss - Suc a" "ps = pss ! (Suc a + i)" by (auto simp: in_set_conv_nth)
        then show "\<forall>p\<in>set ps. pl_key p \<noteq> key" using after [of "Suc a + i"] by simp
      qed
      then show ?thesis using None here none [OF before] none [of "[pss ! a]"] none [of "drop (Suc a) pss"] by (simp add: split find_append)
    qed
    then show ?thesis using Inr ab a by (simp add: find_first_candidate_def)
  qed
qed

definition table_serves :: "zlib \<Rightarrow> byte list \<Rightarrow> DataSection \<Rightarrow> SSTable \<Rightarrow> bool" where
  "table_serves z D ds t \<longleftrightarrow> crc_incremental z \<and> section_ok z ds \<and> tb_state t = Loaded \<and>
     (\<exists>f. tb_file_in t = Some f \<and> read_quiet D f) \<and>
     (\<exists>off. tb_index t = section_index z off ds \<and> index_ok (idx_payloads (tb_index t)) \<and>
        blocks_at z D off (map db_payloads (data_blocks ds)) \<and> length (view_blocks (tb_view t)) = length (data_blocks ds) \<and>
        (\<forall>i < length (data_blocks ds). views z (off + i * BLOCK_SIZE) (db_payloads (data_blocks ds ! i)) (view_blocks (tb_view t) ! i)))"

lemma view_update_same: "i < length (view_blocks v) \<Longrightarrow> view_blocks (view_update i b v) ! i = b"
  by (simp add: view_update_def)

lemma serves_update:
  assumes "table_serves z D ds t" "tb_index t = section_index z off ds" "blocks_at z D off (map db_payloads (data_blocks ds))"
    "length (view_blocks (tb_view t)) = length (data_blocks ds)"
    "\<forall>i < length (data_blocks ds). views z (off + i * BLOCK_SIZE) (db_payloads (data_blocks ds ! i)) (view_blocks (tb_view t) ! i)"
    "read_quiet D f" "v = view_update a (valid_block z (off + a * BLOCK_SIZE) (db_payloads (data_blocks ds ! a))) (tb_view t)"
  shows "table_serves z D ds (t\<lparr>tb_view := v, tb_file_in := Some f\<rparr>)"
proof -
  have "\<forall>i < length (data_blocks ds). views z (off + i * BLOCK_SIZE) (db_payloads (data_blocks ds ! i)) (view_blocks v ! i)"
  proof (intro allI impI)
    fix i assume i: "i < length (data_blocks ds)"
    show "views z (off + i * BLOCK_SIZE) (db_payloads (data_blocks ds ! i)) (view_blocks v ! i)"
      using assms(4,5,7) i by (cases "i = a") (simp_all add: view_update_def, simp add: views_def)
  qed
  then show ?thesis using assms unfolding table_serves_def by (auto simp: view_update_def intro!: exI [of _ off])
qed

lemma get_serves:
  assumes s: "table_serves z D ds t" and ar: "arena_ok ar" "never_oom ar"
  shows "\<exists>r t' ar'. SSTable_get z key (t, ar) = Some (r, t', ar') \<and> table_serves z D ds t' \<and> extends ar ar' \<and> never_oom ar' \<and>
    (case newest_in key (section_records ds) of Some x \<Rightarrow> r = Inr (Some x) | None \<Rightarrow> r = Inl NotFound \<or> r = Inr None)"
proof -
  let ?pss = "map db_payloads (data_blocks ds)"
  obtain f off where f: "tb_file_in t = Some f" "read_quiet D f" "tb_state t = Loaded" "crc_incremental z" "section_ok z ds"
    and idx: "tb_index t = section_index z off ds" "index_ok (idx_payloads (section_index z off ds))"
    and at: "blocks_at z D off ?pss" and vl: "length (view_blocks (tb_view t)) = length (data_blocks ds)"
    and vw: "\<forall>i < length (data_blocks ds). views z (off + i * BLOCK_SIZE) (db_payloads (data_blocks ds ! i)) (view_blocks (tb_view t) ! i)"
    using s unfolding table_serves_def by auto
  have new: "newest_in key (section_records ds) = map_option record_of (List.find (\<lambda>p. pl_key p = key) (concat ?pss))"
    by (simp add: section_records_def section_payloads_def newest_in_map)
  show ?thesis
  proof (cases "find_first_candidate key (section_index z off ds)")
    case (Inl e)
    then have "SSTable_get z key (t, ar) = Some (Inl NotFound, t, ar)" "List.find (\<lambda>p. pl_key p = key) (concat ?pss) = None"
      using first_candidate_decides [OF f(5) idx(2), of key] f idx(1) by (simp_all add: SSTable_get_def)
    then show ?thesis using s ar new by (simp add: extends_refl)
  next
    case (Inr a)
    then have a: "a < length (data_blocks ds)" and dec: "\<And>r. first_match key (db_payloads (data_blocks ds ! a)) r \<Longrightarrow>
        List.find (\<lambda>p. pl_key p = key) (concat ?pss) = map_option (\<lambda>i. db_payloads (data_blocks ds ! a) ! i) r"
      using first_candidate_decides [OF f(5) idx(2), of key] by auto
    let ?ps = "db_payloads (data_blocks ds ! a)" and ?o = "off + a * BLOCK_SIZE"
    have ba: "block_at z D ?o ?ps" using block_at_nth [OF f(4) at, of a] a by simp
    define v1 where "v1 = view_update a (valid_block z ?o ?ps) (tb_view t)"
    obtain r g where g: "ViewBlock_find_first_record z key (view_blocks (tb_view t) ! a) f = (Inr r, valid_block z ?o ?ps, g)"
      "first_match key ?ps r" "read_quiet D g" using find_run [OF ba f(2)] vw a by blast
    then have find: "view_find_first_record z a key (tb_view t) f = (Inr r, v1, g)"
      using a vl by (simp add: view_find_first_record_def v1_def)
    note sv = serves_update [OF s idx(1) at vl vw]
    show ?thesis
    proof (cases r)
      case None
      then have "SSTable_get z key (t, ar) = Some (Inr None, t\<lparr>tb_view := v1, tb_file_in := Some g\<rparr>, ar)"
        using f idx(1) Inr a vl find by (simp add: SSTable_get_def)
      then show ?thesis using sv [OF g(3) v1_def] dec [OF g(2)] None ar new by (simp add: extends_refl)
    next
      case (Some i)
      then have i: "i < length ?ps" using g(2) by (simp add: first_match_def)
      have "views z ?o ?ps (view_blocks v1 ! a)" using a vl by (simp add: v1_def view_update_same views_def)
      from read_record_run [OF ba g(3) this ar i] obtain k ar' where
        k: "ViewBlock_read_record z i (view_blocks v1 ! a) (g, ar) = Some (Inr (record_of (?ps ! i)), valid_block z ?o ?ps, k, ar')"
        "read_quiet D k" "extends ar ar'" "never_oom ar'" by blast
      have "view_read_record z a i v1 (g, ar) = Some (Inr (record_of (?ps ! i)), v1, k, ar')"
        using k(1) a vl by (simp add: view_read_record_def v1_def view_update_def)
      then have "SSTable_get z key (t, ar) = Some (Inr (Some (record_of (?ps ! i))), t\<lparr>tb_view := v1, tb_file_in := Some k\<rparr>, ar')"
        using f idx(1) Inr a vl find Some by (simp add: SSTable_get_def)
      then show ?thesis using sv [OF k(2) v1_def] dec [OF g(2)] Some k new by simp
    qed
  qed
qed

section \<open>Publication\<close>

lemma DataBlock_write_same: "block_ok z b \<Longrightarrow> DataBlock_write z b idx f = (c, f', b', idx') \<Longrightarrow> b' = b"
  by (auto simp: DataBlock_write_def block_ok_rebuild Let_def split: prod.splits if_splits)

lemma write_blocks_same: "\<forall>b\<in>set bs. block_ok z b \<Longrightarrow> write_blocks z bs idx f = (c, f', bs', idx') \<Longrightarrow> bs' = bs"
proof (induction bs arbitrary: idx f c f' bs' idx')
  case (Cons b bs)
  obtain c1 f1 b1 i1 where w: "DataBlock_write z b idx f = (c1, f1, b1, i1)" by (metis prod_cases4)
  obtain c2 f2 bs2 i2 where w2: "write_blocks z bs i1 f1 = (c2, f2, bs2, i2)" by (metis prod_cases4)
  have "b1 = b" "bs2 = bs" using DataBlock_write_same [OF _ w] Cons.IH [OF _ w2] Cons.prems(1) by auto
  then show ?case using Cons.prems(2) w w2 by (auto split: if_splits)
qed simp

lemma DataSection_write_same:
  assumes "section_ok z ds" "DataSection_write z ds idx o0 f = (c, f', ds', idx', off)"
  shows "ds' = ds"
proof -
  have bok: "\<forall>b\<in>set (data_blocks ds). block_ok z b" using assms(1) by (simp add: section_ok_def)
  show ?thesis using assms(2) write_blocks_same [OF bok] unfolding DataSection_write_def rebuild_headers_ok [OF bok]
    by (auto simp: Let_def split: prod.splits if_splits)
qed

text \<open>What no step of a write changes.\<close>

definition same_table :: "zlib \<Rightarrow> SSTable \<Rightarrow> write_state \<Rightarrow> bool" where
  "same_table z t s \<longleftrightarrow> tb_path (ws_table s) = tb_path t \<and> tb_final_path (ws_table s) = tb_final_path t \<and>
     tb_state (ws_table s) = tb_state t \<and> tb_file_in (ws_table s) = tb_file_in t \<and> tb_data (ws_table s) = tb_data t"

lemma run_all_keeps:
  assumes "\<And>a s c s'. a \<in> set as \<Longrightarrow> P s \<Longrightarrow> a s = (c, s') \<Longrightarrow> P s'" "P s" "run_all as s = (c, s')"
  shows "P s'"
  using assms by (induction as arbitrary: s) (auto split: prod.splits if_splits, blast+)

lemma write_step_same:
  assumes "section_ok z (tb_data t)" "a \<in> set (write_steps z)" "same_table z t s" "a s = (c, s')"
  shows "same_table z t s'"
proof -
  have data: "same_table z t s'" if "write_data_step z s = (c, s')"
  proof -
    obtain c1 f1 ds idx off where w: "DataSection_write z (tb_data t) (IndexSection_new z) (ws_data_offset s) (ws_file s) = (c1, f1, ds, idx, off)"
      by (metis prod_cases5)
    with that assms(3) DataSection_write_same [OF assms(1) w] show ?thesis by (auto simp: write_data_step_def same_table_def)
  qed
  show ?thesis
    using assms(2-4) data unfolding write_steps_def
    by (auto simp: same_table_def write_header_step_def rebuild_bloom_step_def rebuild_meta_step_def write_index_step_def
      write_bloom_step_def write_meta_step_def fill_footer_step_def align_step_def finalize_step_def write_footer_step_def Let_def
      split: prod.splits if_splits)
qed

lemma write_steps_same:
  assumes "section_ok z (tb_data t)" "run_all (write_steps z) (start_state t f) = (c, s')"
  shows "same_table z t s'"
proof (rule run_all_keeps [OF _ _ assms(2)])
  show "same_table z t (start_state t f)" by (simp add: same_table_def start_state_def)
qed (rule write_step_same [OF assms(1)])

text \<open>A table that a write has published, and its bytes.\<close>

definition published :: "zlib \<Rightarrow> DataSection \<Rightarrow> byte list \<Rightarrow> bool" where
  "published z ds D \<longleftrightarrow> (\<exists>h bp mp t. table_bytes z D ds h bp mp t)"

lemma SSTable_write_result:
  assumes ok: "section_ok z (tb_data t)" and ne: "data_blocks (tb_data t) \<noteq> []"
    and w: "SSTable_write z env (t, d) = (c, t', d')"
  shows "tb_data t' = tb_data t \<and> tb_final_path t' = tb_final_path t \<and>
    (if tb_state t' = tb_state t then c \<noteq> Ok \<and> tb_path t' = tb_path t \<and> (\<forall>p. p \<noteq> tb_path t \<longrightarrow> d' p = d p)
     else tb_state t = Building \<and> tb_state t' = Published \<and> tb_path t' = tb_final_path t \<and>
       fh_table_id (tb_header t') = fh_table_id (tb_header t) \<and>
       (\<exists>D. table_bytes z D (tb_data t) (tb_header t') (bl_payload (tb_bloom t')) (ms_payload (tb_meta t')) (tb_footer t') \<and> d' = d(tb_path t := None, tb_final_path t \<mapsto> D)))"
proof -
  let ?d0 = "d(tb_path t := None)"
  show ?thesis
  proof (cases "tb_state t = Building \<and> tb_path t \<noteq> [] \<and> tb_final_path t \<noteq> [] \<and>
      lexically_normal (tb_path t) \<noteq> lexically_normal (tb_final_path t) \<and> we_remove_ok env \<and> is_ok (we_opened env)")
    case False
    then show ?thesis using w by (auto simp: SSTable_write_def open_writable_file_def Let_def split: if_splits)
  next
    case True
    define f where "f = \<lparr>wdata = [], wfd = True, wenv = we_writes env, wsenv = we_syncs env, wclose_ok = we_close_ok env, wsynced = 0, woff = 0\<rparr>"
    have op: "open_writable_file env (tb_path t) ?d0 = Inr f" using True by (simp add: open_writable_file_def f_def)
    obtain c1 s1 where r: "run_all (write_steps z) (start_state t f) = (c1, s1)" by fastforce
    note same = write_steps_same [OF ok r, unfolded same_table_def]
    have eq: "SSTable_write z env (t, d) = (let d1 = ?d0(tb_path t \<mapsto> wdata (ws_file s1)) in
        if \<not> is_ok c1 then (c1, ws_table s1, d1) else SSTable_fsync env (ws_file s1) (ws_table s1, d1))"
      using True op r by (simp add: SSTable_write_def Let_def start_state_def)
    show ?thesis
    proof (cases "c1 = Ok")
      case False
      then show ?thesis using w same True unfolding eq by (auto simp: Let_def)
    next
      case ok1: True
      have "tracked f" "wdata f = []" by (simp_all add: tracked_def f_def)
      from write_steps_okD [OF ok ne this r [unfolded ok1]] obtain h b m t1 where
        ws: "ws_table s1 = t\<lparr>tb_header := h, tb_index := tb_index (ws_table s1), tb_bloom := b, tb_meta := m, tb_footer := t1\<rparr>"
        and pub: "fh_table_id h = fh_table_id (tb_header t)" "table_bytes z (wdata (ws_file s1)) (tb_data t) h (bl_payload b) (ms_payload m) t1" by blast
      have fields: "tb_header (ws_table s1) = h" "tb_bloom (ws_table s1) = b" "tb_meta (ws_table s1) = m" "tb_footer (ws_table s1) = t1"
        by (subst ws, simp)+
      obtain c2 f2 where s2: "sync (ws_file s1) = (c2, f2)" by fastforce
      obtain c3 f3 where s3: "wclose f2 = (c3, f3)" by fastforce
      have "wdata f3 = wdata (ws_file s1)" using syncD(1) [OF s2] s3 by (auto simp: wclose_def split: if_splits)
      then show ?thesis using w same True pub fields ok1 s2 s3 unfolding eq
        by (auto simp: Let_def SSTable_fsync_def split: if_splits intro!: exI [of _ "wdata (ws_file s1)"])
    qed
  qed
qed

lemma SSTable_write_effect:
  assumes "section_ok z (tb_data t)" "data_blocks (tb_data t) \<noteq> []" "SSTable_write z env (t, d) = (c, t', d')"
  shows "tb_data t' = tb_data t \<and> tb_final_path t' = tb_final_path t \<and>
    (if tb_state t' = tb_state t then c \<noteq> Ok \<and> tb_path t' = tb_path t \<and> (\<forall>p. p \<noteq> tb_path t \<longrightarrow> d' p = d p)
     else tb_state t = Building \<and> tb_state t' = Published \<and> tb_path t' = tb_final_path t \<and>
       (\<exists>D. published z (tb_data t) D \<and> d' = d(tb_path t := None, tb_final_path t \<mapsto> D)))"
proof -
  have "published z ds D" if "table_bytes z D ds h bp mp f" for ds D h bp mp f using that unfolding published_def by blast
  then show ?thesis using SSTable_write_result [OF assms] by (cases "tb_state t' = tb_state t") (simp, simp, blast)
qed

section \<open>Writing succeeds\<close>

lemma block_align_up:
  assumes "0 < r" "r \<le> BLOCK_SIZE"
  shows "k * BLOCK_SIZE + r + length (align_pad (k * BLOCK_SIZE + r)) = Suc k * BLOCK_SIZE"
  using assms by (cases "r = BLOCK_SIZE") (simp_all add: align_pad_def)

lemma align_up_offset:
  assumes "0 < r" "r \<le> BLOCK_SIZE" "off mod BLOCK_SIZE = 0"
  shows "off + r + length (align_pad (off + r)) = off + BLOCK_SIZE"
proof -
  obtain k where "off = k * BLOCK_SIZE" using assms(3) by (metis add.right_neutral div_mult_mod_eq)
  then show ?thesis using block_align_up [OF assms(1,2), of k] by simp
qed

lemma align_pad_strict: "n \<le> n + length (align_pad n)"
  by simp

lemma finalize_succeeds:
  assumes "tracked f" "length (wdata f) mod BLOCK_SIZE = 0" "length (wdata f) \<le> 1000000000"
    and "doff mod BLOCK_SIZE = 0" "ioff mod BLOCK_SIZE = 0" "boff mod BLOCK_SIZE = 0" "moff mod BLOCK_SIZE = 0"
    and "0 < n" "doff + n * BLOCK_SIZE = ioff" "9 \<le> isize" "ioff + isize \<le> boff" "boff + 153 \<le> moff"
    and "65 \<le> msize" "msize \<le> BLOCK_SIZE" "moff + msize \<le> length (wdata f)"
  shows "\<exists>t'. finalize z f (woff f) (filled_footer doff n ioff isize boff moff msize t) = (Ok, t')"
proof -
  let ?t = "filled_footer doff n ioff isize boff moff msize t" and ?n = "length (wdata f)"
  define s where "s = ?t\<lparr>ff_magic := FILE_FOOTER_MAGIC, ff_version := LATEST_SSTABLE_VERSION, ff_reserved := 0,
    ff_file_size := of_nat (?n + FileFooter_disk_size)\<rparr>"
  define u where "u = s\<lparr>ff_crc := FileFooter_calculate_crc32 z s\<rparr>"
  have pos: "current_position f = Inr ?n" "wget_file_size f = Inr ?n" "woff f = ?n"
    using assms(1) by (simp_all add: tracked_def current_position_def wget_file_size_def)
  have n: "n * BLOCK_SIZE \<le> 1000000000" "n \<le> 1000000000" using assms(3,9-15) by (simp_all add: BLOCK_SIZE_def)
  have un: "unat (ff_data_offset u) = doff" "unat (ff_block_count u) = n" "unat (ff_index_offset u) = ioff"
    "unat (ff_bloom_offset u) = boff" "unat (ff_meta_offset u) = moff" "unat (ff_file_size u) = ?n + 76"
    "unat (ff_index_size u) = isize" "unat (ff_bloom_size u) = 153" "unat (ff_meta_size u) = msize"
    using assms(3,9-15) n by (simp_all add: u_def s_def filled_footer_def unat_nat64 unat_nat32 BLOCK_SIZE_def del: of_nat_add)
  have crc: "FileFooter_calculate_crc32 z u = ff_crc u" by (simp add: u_def FileFooter_calculate_crc32_def)
  have fixed: "ff_magic u = FILE_FOOTER_MAGIC" "ff_version u = LATEST_SSTABLE_VERSION" "ff_reserved u = 0" by (simp_all add: u_def s_def)
  have spans: "msize \<le> ?n - moff" "153 \<le> moff - boff" "isize \<le> boff - ioff" using assms(11-15) by linarith+
  have "n \<le> (u64_max - doff) div BLOCK_SIZE"
    using n assms(3,9-15) by (subst less_eq_div_iff_mult_less_eq) simp_all
  then have "FileFooter_validate z ?n (?n + 76) u = Ok"
    unfolding FileFooter_validate_def Let_def un crc fixed
    using assms(2-15) spans n by (simp add: not_less is_block_aligned_def validate_section_span_def LATEST_SSTABLE_VERSION_def BLOCK_SIZE_def)
  then have "finalize z f (woff f) ?t = (Ok, u)"
    unfolding finalize_def pos sum.case s_def [symmetric] u_def [symmetric] Let_def un(6)
    using assms(2,3) by (simp add: is_block_aligned_def)
  then show ?thesis by blast
qed

lemma write_chain_run:
  assumes "FileHeader_write z (tb_header t) f = (Ok, f1, h)"
    "DataSection_write z (tb_data t) (IndexSection_new z) 0 f1 = (Ok, f2, ds, idx, doff)"
    "BloomSection_rebuild z ds (tb_bloom t) = (Ok, b)"
    "MetaSection_rebuild z ds idx (tb_meta t) = (Ok, m)"
    "IndexSection_write z idx 0 f2 = (Ok, f3, idx', ioff)"
    "BloomSection_write z b 0 f3 = (Ok, f4, b', boff)"
    "MetaSection_write z m 0 f4 = (Ok, f5, m', moff)"
    "fits_u32 (IndexSection_disk_size idx')" "fits_u32 (MetaSection_disk_size m')"
    "align_to_block_boundary BLOCK_SIZE f5 = (Ok, f6)"
    "finalize z f6 (woff f6) (filled_footer doff (length (data_blocks ds)) ioff (IndexSection_disk_size idx') boff moff
       (MetaSection_disk_size m') (tb_footer t)) = (Ok, t1)"
    "FileFooter_write z t1 f6 = (Ok, f7, t2)"
  shows "\<exists>s'. run_all (write_steps z) (start_state t f) = (Ok, s') \<and> ws_file s' = f7"
  using assms by (simp add: write_steps_def write_header_step_def write_data_step_def rebuild_bloom_step_def rebuild_meta_step_def
    write_index_step_def write_bloom_step_def write_meta_step_def fill_footer_step_def align_step_def finalize_step_def
    write_footer_step_def start_state_def filled_footer_def Let_def fits_u32_def)

lemma finalize_again:
  assumes "tracked f" "length (wdata f) mod BLOCK_SIZE = 0" "length (wdata f) \<le> 1000000000"
    and "doff mod BLOCK_SIZE = 0" "ioff mod BLOCK_SIZE = 0" "boff mod BLOCK_SIZE = 0" "moff mod BLOCK_SIZE = 0"
    and "0 < n" "doff + n * BLOCK_SIZE = ioff" "9 \<le> isize" "ioff + isize \<le> boff" "boff + 153 \<le> moff"
    and "65 \<le> msize" "msize \<le> BLOCK_SIZE" "moff + msize \<le> length (wdata f)"
  shows "\<exists>t1 t2. finalize z f (woff f) (filled_footer doff n ioff isize boff moff msize t) = (Ok, t1) \<and> finalize z f (woff f) t1 = (Ok, t2)"
proof -
  obtain t1 where t1: "finalize z f (woff f) (filled_footer doff n ioff isize boff moff msize t) = (Ok, t1)"
    using finalize_succeeds [OF assms] by blast
  have "filled_footer doff n ioff isize boff moff msize t1 = t1"
    by (subst (1 2) finalize_okD(3) [OF assms(1) t1]) (simp add: filled_footer_def)
  then show ?thesis using t1 finalize_succeeds [OF assms, of z t1] by auto
qed

lemma bloom_rebuild_succeeds:
  assumes "length (section_payloads ds) < u32_max"
  shows "\<exists>b'. BloomSection_rebuild z ds b = (Ok, b')"
  using add_all_succeeds [OF empty_bloom_valid, of "section_payloads ds"] assms
  by (auto simp: BloomSection_rebuild_def section_payloads_def BloomPayload_empty_def)

lemma section_count_bound:
  assumes "section_ok z ds" "length (data_blocks ds) \<le> 255"
  shows "length (section_payloads ds) < u32_max"
proof -
  have "25 * length ps \<le> sum_list (map payload_disk_size ps)" for ps
    by (induction ps) (simp_all add: payload_disk_size_def)
  from this [of "section_payloads ds"] section_size_bound [OF assms(1)] assms(2) show ?thesis by simp
qed

text \<open>When a table fits: its index fits into one block and its boundary keys into the metadata.\<close>

definition writable_section :: "zlib \<Rightarrow> DataSection \<Rightarrow> bool" where
  "writable_section z ds \<longleftrightarrow> section_ok z ds \<and> data_blocks ds \<noteq> [] \<and> index_ok (idx_payloads (section_index z BLOCK_SIZE ds)) \<and>
     length (key_entry (hd (section_records ds))) + length (key_entry (last (section_records ds))) \<le> 4031"

lemma header_pad: "24 + length (align_pad 24) = BLOCK_SIZE"
  by (simp add: align_pad_def BLOCK_SIZE_def)

lemma index_end:
  assumes "section_ok z ds" "data_blocks ds \<noteq> []" "length (wdata f) = BLOCK_SIZE + physical_span ds"
  shows "length (wdata f) + length (align_pad (length (wdata f))) = BLOCK_SIZE + length (data_blocks ds) * BLOCK_SIZE"
proof -
  have "block_list_ok (db_payloads (last (data_blocks ds)))" using assms by (simp add: section_ok_def block_ok_def)
  then have r: "0 < DataBlock_disk_size (last (data_blocks ds))" "DataBlock_disk_size (last (data_blocks ds)) \<le> BLOCK_SIZE"
    by (simp_all add: DataBlock_disk_size_def block_list_ok_def BLOCK_SIZE_def)
  obtain k where k: "length (data_blocks ds) = Suc k" using assms(2) by (cases "length (data_blocks ds)") auto
  show ?thesis using block_align_up [OF r, of "Suc k"] assms(2,3) k by (simp add: physical_span_def add_ac)
qed

lemma sections_succeed:
  assumes wr: "writable_section z (tb_data t)" and hd: "validate_header_fields (tb_header t) = Ok"
    and f: "tracked f" "wdata f = []" "write_faultfree f"
  defines "idx \<equiv> section_index z BLOCK_SIZE (tb_data t)"
  obtains f1 h f2 b m f3 idx' ioff f4 b' boff f5 m' moff f6 where
    "FileHeader_write z (tb_header t) f = (Ok, f1, h)" "DataSection_write z (tb_data t) (IndexSection_new z) 0 f1 = (Ok, f2, tb_data t, idx, BLOCK_SIZE)"
    "BloomSection_rebuild z (tb_data t) (tb_bloom t) = (Ok, b)" "MetaSection_rebuild z (tb_data t) idx (tb_meta t) = (Ok, m)"
    "IndexSection_write z idx 0 f2 = (Ok, f3, idx', ioff)" "BloomSection_write z b 0 f3 = (Ok, f4, b', boff)"
    "MetaSection_write z m 0 f4 = (Ok, f5, m', moff)" "align_to_block_boundary BLOCK_SIZE f5 = (Ok, f6)"
    "tracked f1" "tracked f2" "tracked f3" "tracked f4" "tracked f5" "length (wdata f2) = BLOCK_SIZE + physical_span (tb_data t)"
    "tracked f6" "write_faultfree f6" "wdata f6 = wdata f5 @ align_pad (length (wdata f5))" "wsenv f6 = wsenv f" "wclose_ok f6 = wclose_ok f"
proof -
  let ?ds = "tb_data t"
  have ok: "section_ok z ?ds" and ne: "data_blocks ?ds \<noteq> []" and io: "index_ok (idx_payloads idx)"
    and kb: "56 + length (key_entry (hd (section_records ?ds))) + length (key_entry (last (section_records ?ds))) \<le> 4087"
    using wr by (simp_all add: writable_section_def idx_def)
  obtain f1 h where f1: "FileHeader_write z (tb_header t) f = (Ok, f1, h)" "write_faultfree f1" "wsenv f1 = wsenv f" "wclose_ok f1 = wclose_ok f"
    using FileHeader_write_succeeds [OF f(1,3) hd] by blast
  note d1 = FileHeader_write_okD [OF f(1) f1(1)]
  have L1: "length (wdata f1) = 24" using d1(4) f(2) by (simp add: align_pad_def file_header_fields_length)
  obtain f2 where f2: "DataSection_write z ?ds (IndexSection_new z) 0 f1 = (Ok, f2, ?ds, idx, BLOCK_SIZE)" "write_faultfree f2"
    "wsenv f2 = wsenv f1" "wclose_ok f2 = wclose_ok f1"
    using DataSection_write_succeeds [OF ok d1(3) f1(2) ne] io unfolding L1 header_pad idx_def by blast
  note d2 = DataSection_write_okD [OF ok d1(3) ne f2(1)]
  have n: "length (data_blocks ?ds) \<le> 255" using index_ok_length [OF io] by (simp add: idx_def section_index_def idx_of_def entries_of_length)
  obtain b where b: "BloomSection_rebuild z ?ds (tb_bloom t) = (Ok, b)" using bloom_rebuild_succeeds [OF section_count_bound [OF ok n]] by blast
  obtain m where m: "MetaSection_rebuild z ?ds idx (tb_meta t) = (Ok, m)" "meta_ok z ?ds m"
    using MetaSection_rebuild_spec(1) [OF ok ne io [unfolded idx_def] kb] idx_def by auto
  obtain f3 idx' ioff where f3: "IndexSection_write z idx 0 f2 = (Ok, f3, idx', ioff)" "write_faultfree f3" "wsenv f3 = wsenv f2" "wclose_ok f3 = wclose_ok f2"
    using IndexSection_write_succeeds [OF io d2(1) f2(2)] by blast
  note d3 = IndexSection_write_okD [OF d2(1) f3(1)]
  obtain f4 b' boff where f4: "BloomSection_write z b 0 f3 = (Ok, f4, b', boff)" "write_faultfree f4" "wsenv f4 = wsenv f3" "wclose_ok f4 = wclose_ok f3"
    using BloomSection_write_succeeds [OF bloom_rebuild_effect(1) [OF b] d3(2) f3(2)] by blast
  note d4 = BloomSection_write_okD [OF d3(2) f4(1)]
  have "MetaPayload_validate (ms_payload m) = Ok" using m(2) by (simp add: meta_ok_def)
  from MetaSection_write_succeeds [OF this d4(3) f4(2)] obtain f5 m' moff where
    f5: "MetaSection_write z m 0 f4 = (Ok, f5, m', moff)" "write_faultfree f5" "wsenv f5 = wsenv f4" "wclose_ok f5 = wclose_ok f4" by blast
  note d5 = MetaSection_write_okD [OF d4(3) f5(1)]
  obtain f6 where f6: "align_to_block_boundary BLOCK_SIZE f5 = (Ok, f6)" "wdata f6 = wdata f5 @ align_pad (length (wdata f5))" "tracked f6"
    "write_faultfree f6" "wsenv f6 = wsenv f5" "wclose_ok f6 = wclose_ok f5"
    using emits_faultfreeD [OF align_emits [OF d5(2)] d5(2) f5(2)] by metis
  from that [OF f1(1) f2(1) b m(1) f3(1) f4(1) f5(1) f6(1) d1(3) d2(1) d3(2) d4(3) d5(2) d2(8) f6(3,4,2)] f1 f2 f3 f4 f5 f6 show ?thesis by simp
qed

lemma write_steps_succeed:
  assumes wr: "writable_section z (tb_data t)" and hd: "validate_header_fields (tb_header t) = Ok"
    and f: "tracked f" "wdata f = []" "write_faultfree f"
  shows "\<exists>s'. run_all (write_steps z) (start_state t f) = (Ok, s') \<and> tracked (ws_file s') \<and> wsenv (ws_file s') = wsenv f \<and>
    wclose_ok (ws_file s') = wclose_ok f"
  using wr hd f
proof (cases rule: sections_succeed)
  let ?ds = "tb_data t" and ?idx = "section_index z BLOCK_SIZE (tb_data t)"
  case (1 f1 h f2 b m f3 idx' ioff f4 b' boff f5 m' moff f6)
  have ok: "section_ok z ?ds" and ne: "data_blocks ?ds \<noteq> []" and io: "index_ok (idx_payloads ?idx)"
    using wr by (simp_all add: writable_section_def)
  note d3 = IndexSection_write_okD [OF 1(10,5)] and d4 = BloomSection_write_okD [OF 1(11,6)] and d5 = MetaSection_write_okD [OF 1(12,7)]
  have sz: "IndexSection_disk_size idx' = length (index_bytes z (idx_payloads ?idx))" "MetaSection_disk_size m' = length (meta_bytes z (ms_payload m))"
    using d3(4) d5(3) by (simp_all add: IndexSection_disk_size_def index_bytes_def header_fields_length entries_bytes_length
      MetaSection_disk_size_def meta_section_length)
  have isz: "9 \<le> length (index_bytes z (idx_payloads ?idx))" "length (index_bytes z (idx_payloads ?idx)) \<le> BLOCK_SIZE"
    using index_bytes_length [OF io, of z] by (simp_all add: index_bytes_def header_fields_length)
  have msz: "65 \<le> length (meta_bytes z (ms_payload m))" "length (meta_bytes z (ms_payload m)) \<le> BLOCK_SIZE"
    using valid_meta_size [OF d5(1)] by (simp_all add: meta_section_length MetaPayload_disk_size_def BLOCK_SIZE_def)
  have ioff: "BLOCK_SIZE + length (data_blocks ?ds) * BLOCK_SIZE = ioff" using index_end [OF ok ne 1(14)] d3(5) by simp
  have al: "ioff mod BLOCK_SIZE = 0" "boff mod BLOCK_SIZE = 0" "moff mod BLOCK_SIZE = 0" "length (wdata f6) mod BLOCK_SIZE = 0"
    using d3(5) d4(5) d5(5) 1(17) align_pad_aligned by simp_all
  have spans: "ioff + IndexSection_disk_size idx' \<le> boff" "boff + 153 \<le> moff" "moff + MetaSection_disk_size m' \<le> length (wdata f6)"
    using d3(3,5) d4(4,5) d5(4,5) 1(17) sz bloom_fields_length(3) [OF d4(1)] by simp_all
  have "length (wdata f6) \<le> 1000000000" using written_size [OF ok ne f(1,2) 1(1,2,5-8)] by (simp add: BLOCK_SIZE_def)
  from finalize_again [OF 1(15) al(4) this _ al(1-3) _ ioff _ spans(1,2) _ _ spans(3), of z "tb_footer t"] ne sz isz msz
  obtain t1 t2 where t: "finalize z f6 (woff f6) (filled_footer BLOCK_SIZE (length (data_blocks ?ds)) ioff (IndexSection_disk_size idx') boff moff
       (MetaSection_disk_size m') (tb_footer t)) = (Ok, t1)" "finalize z f6 (woff f6) t1 = (Ok, t2)" by auto
  obtain f7 where f7: "FileFooter_write z t1 f6 = (Ok, f7, t2)" "wsenv f7 = wsenv f6" "wclose_ok f7 = wclose_ok f6"
    using FileFooter_write_succeeds [OF 1(15,16) t(2)] by blast
  have fit: "fits_u32 (IndexSection_disk_size idx')" "fits_u32 (MetaSection_disk_size m')" using sz isz msz by (simp_all add: fits_u32_def BLOCK_SIZE_def)
  from write_chain_run [OF 1(1-7) fit 1(8) t(1) f7(1)] FileFooter_write_okD(1) [OF 1(15) f7(1)] show ?thesis using 1(18,19) f7 by auto
qed

definition calm_env :: "write_env \<Rightarrow> bool" where
  "calm_env env \<longleftrightarrow> we_remove_ok env \<and> we_opened env = Ok \<and> WriteErr \<notin> set (we_writes env) \<and> Wrote 0 \<notin> set (we_writes env) \<and>
     SyncErr \<notin> set (we_syncs env) \<and> we_close_ok env \<and> we_rename_ok env \<and> we_directory env = Ok"

lemma SSTable_write_succeeds:
  assumes "writable_section z (tb_data t)" "validate_header_fields (tb_header t) = Ok" "calm_env env" "tb_state t = Building"
    "tb_path t \<noteq> []" "tb_final_path t \<noteq> []" "lexically_normal (tb_path t) \<noteq> lexically_normal (tb_final_path t)"
  shows "fst (SSTable_write z env (t, d)) = Ok"
proof -
  define f where "f = \<lparr>wdata = [], wfd = True, wenv = we_writes env, wsenv = we_syncs env, wclose_ok = we_close_ok env, wsynced = 0, woff = 0\<rparr>"
  have f: "tracked f" "wdata f = []" "write_faultfree f" using assms(3) by (simp_all add: f_def tracked_def write_faultfree_def calm_env_def)
  obtain s' where s: "run_all (write_steps z) (start_state t f) = (Ok, s')" "tracked (ws_file s')" "wsenv (ws_file s') = we_syncs env"
    "wclose_ok (ws_file s') = we_close_ok env"
    using write_steps_succeed [OF assms(1,2) f] by (auto simp: f_def)
  have op: "open_writable_file env (tb_path t) (d(tb_path t := None)) = Inr f" using assms(3) by (simp add: open_writable_file_def f_def calm_env_def)
  obtain f2 where f2: "sync (ws_file s') = (Ok, f2)"
    using fsync_loop_faultfree [of "ws_file s'"] s(2,3) assms(3)
    by (cases "fsync_loop (ws_file s')") (simp add: sync_def tracked_def sync_faultfree_def calm_env_def)
  have "wclose_ok f2 = wclose_ok (ws_file s')" using f2 fsync_loop_keeps by (auto simp: sync_def split: if_splits)
  then show ?thesis using assms(3-) s f2 op
    by (simp add: SSTable_write_def Let_def start_state_def SSTable_fsync_def wclose_def calm_env_def)
qed

section \<open>From records to lookups\<close>

lemma append_all:
  assumes "section_ok z (tb_data t0)" "run_all (map (append_record z) rs) t0 = (Ok, t)"
  shows "section_ok z (tb_data t)" "section_records (tb_data t) = section_records (tb_data t0) @ rs" "t = t0\<lparr>tb_data := tb_data t\<rparr>"
proof -
  have "section_ok z (tb_data t) \<and> section_records (tb_data t) = section_records (tb_data t0) @ rs \<and> t = t0\<lparr>tb_data := tb_data t\<rparr>"
    using assms
  proof (induction rs arbitrary: t0)
    case (Cons r rs)
    from Cons.prems(2) obtain t1 where t1: "append_record z r t0 = (Ok, t1)" "run_all (map (append_record z) rs) t1 = (Ok, t)"
      unfolding list.map by (elim run_all_okE)
    then obtain ds where ds: "DataSection_add_payload z r (tb_data t0) = (Ok, ds)" "t1 = t0\<lparr>tb_data := ds\<rparr>"
      by (auto simp: append_record_def split: if_splits prod.splits)
    from add_payload_effect [OF Cons.prems(1) ds(1)] have "section_ok z ds" "section_records ds = section_records (tb_data t0) @ [r]"
      by (auto split: if_splits)
    then show ?case using Cons.IH [of t1] t1(2) ds(2) by auto
  qed auto
  then show "section_ok z (tb_data t)" "section_records (tb_data t) = section_records (tb_data t0) @ rs" "t = t0\<lparr>tb_data := tb_data t\<rparr>" by auto
qed

lemma empty_section_ok: "section_ok z \<lparr>data_blocks = []\<rparr>" "section_records \<lparr>data_blocks = []\<rparr> = []"
  by (simp_all add: section_ok_def section_records_def section_payloads_def)

lemma building_all:
  assumes "run_all (map (append_record z) rs) (SSTable_building z p q i) = (Ok, t)"
  shows "section_ok z (tb_data t)" "section_records (tb_data t) = rs" "tb_state t = Building" "tb_path t = p" "tb_final_path t = q"
    "tb_header t = FileHeader_of z i" "rs \<noteq> [] \<Longrightarrow> data_blocks (tb_data t) \<noteq> []"
proof -
  have d0: "tb_data (SSTable_building z p q i) = \<lparr>data_blocks = []\<rparr>" by (simp add: SSTable_building_def SSTable_default_def)
  note a = append_all [OF _ assms, unfolded d0, OF empty_section_ok(1), unfolded empty_section_ok(2)]
  show "section_ok z (tb_data t)" "section_records (tb_data t) = rs" using a(1,2) by simp_all
  show "tb_state t = Building" "tb_path t = p" "tb_final_path t = q" "tb_header t = FileHeader_of z i"
    by (subst a(3), simp add: SSTable_building_def)+
  show "rs \<noteq> [] \<Longrightarrow> data_blocks (tb_data t) \<noteq> []" using a(2) by (auto simp: section_records_def section_payloads_def)
qed

lemma load_serves:
  assumes "crc_incremental z" "published z ds D" "d p = Some D" "p \<noteq> []" "re_opened env = Ok" "ReadErr \<notin> set (re_reads env)"
    "arena_ok ar" "never_oom ar"
  shows "\<exists>t ar'. SSTable_load z env p d ar = Some (Inr t, ar') \<and> table_serves z D ds t \<and> extends ar ar' \<and> never_oom ar' \<and>
    tb_final_path t = p \<and> (\<exists>h bp mp. table_bytes z D ds h bp mp (tb_footer t))"
proof -
  obtain h bp mp t where tb: "table_bytes z D ds h bp mp t" using assms(2) by (auto simp: published_def)
  note T = table_bytesD [OF tb]
  define f where "f = \<lparr>rdata = D, rfd = True, renv = re_reads env, rclose_ok = True, roff = 0\<rparr>"
  have f: "open_readable_file env p d = Inr f" "read_quiet D f" using assms(3,5,6) T(3) by (simp_all add: open_readable_file_def f_def read_quiet_def)
  obtain f' ar' where l: "load_table z p (f, ar) = Some (Inr ((SSTable_existing z p)\<lparr>tb_header := h, tb_footer := t,
      tb_view := unread_view z (unat (ff_data_offset t)) (map db_payloads (data_blocks ds)),
      tb_index := section_index z (unat (ff_data_offset t)) ds, tb_bloom := \<lparr>bl_header = bloom_header z bp, bl_payload = bp\<rparr>,
      tb_meta := \<lparr>ms_header = meta_header z mp, ms_payload = mp\<rparr>\<rparr>), f', ar')" "read_quiet D f'" "extends ar ar'" "never_oom ar'"
    using load_table_at [OF assms(1) tb f(2) assms(7,8)] by blast
  show ?thesis
    unfolding SSTable_load_def using assms(4) f(1) transact_ok [where m = "load_table z p", OF l(1)] l(2-4) assms(1) T(1,8,9) tb
    by (auto simp: table_serves_def SSTable_existing_def unread_view_def unread_blocks_nth views_def)
qed

text \<open>Several lookups, one after the other, each on the table that the previous one left.\<close>

fun get_all :: "zlib \<Rightarrow> ArenaEntry list \<Rightarrow> SSTable \<times> arena \<Rightarrow> (InternalRecord option result list \<times> SSTable \<times> arena) option" where
  "get_all z [] s = Some ([], s)"
| "get_all z (key # keys) s = (case SSTable_get z key s of
     None \<Rightarrow> None
   | Some (r, s1) \<Rightarrow> (case get_all z keys s1 of None \<Rightarrow> None | Some (rs, s2) \<Rightarrow> Some (r # rs, s2)))"

definition answers :: "InternalRecord list \<Rightarrow> ArenaEntry \<Rightarrow> InternalRecord option result \<Rightarrow> bool" where
  "answers rs key r \<longleftrightarrow> (case newest_in key rs of Some x \<Rightarrow> r = Inr (Some x) | None \<Rightarrow> r = Inl NotFound \<or> r = Inr None)"

lemma get_all_serves:
  assumes "table_serves z D ds t" "arena_ok ar" "never_oom ar"
  shows "\<exists>rs t' ar'. get_all z keys (t, ar) = Some (rs, t', ar') \<and> list_all2 (answers (section_records ds)) keys rs"
  using assms
proof (induction keys arbitrary: t ar)
  case (Cons key keys)
  obtain r t1 ar1 where g: "SSTable_get z key (t, ar) = Some (r, t1, ar1)" "table_serves z D ds t1" "extends ar ar1" "never_oom ar1"
    "answers (section_records ds) key r"
    using get_serves [OF Cons.prems, of key] unfolding answers_def by blast
  have "arena_ok ar1" using g(3) by (simp add: extends_def)
  from Cons.IH [OF g(2) this g(4)] g(1,5) show ?case by auto
qed simp

section \<open>Properties\<close>

text \<open>C30 (a published table answers every lookup). Records that were appended to a table, written and
  published, are found again: the file at the destination loads, and any sequence of lookups returns for
  each key the newest of its records, or reports that the key is absent when there is none. Short reads
  and interrupts do not matter.\<close>

theorem sstable_roundtrip:
  assumes "crc_incremental z" "run_all (map (append_record z) rs) (SSTable_building z p q i) = (Ok, t)" "rs \<noteq> []"
    and "SSTable_write z env (t, d) = (Ok, t', d')" "q \<noteq> []"
    and "re_opened rd = Ok" "ReadErr \<notin> set (re_reads rd)" "arena_ok ar" "never_oom ar"
  shows "\<exists>t2 ar2 rs' t3 ar3. SSTable_load z rd q d' ar = Some (Inr t2, ar2) \<and>
    get_all z keys (t2, ar2) = Some (rs', t3, ar3) \<and> list_all2 (answers rs) keys rs'"
proof -
  note b = building_all [OF assms(2)]
  from SSTable_write_effect [OF b(1) b(7) [OF assms(3)] assms(4)] obtain D where
    D: "published z (tb_data t) D" "d' q = Some D" using b(5) by (auto split: if_splits)
  obtain t2 ar2 where l: "SSTable_load z rd q d' ar = Some (Inr t2, ar2)" "table_serves z D (tb_data t) t2" "extends ar ar2" "never_oom ar2"
    using load_serves [where d = d' and p = q, OF assms(1) D assms(5-9)] by blast
  have "arena_ok ar2" using l(3) by (simp add: extends_def)
  from get_all_serves [OF l(2) this l(4), of keys] l(1) b(2) show ?thesis by auto
qed

text \<open>C31 (publication is atomic). Whatever the operating system answers, a write changes the
  destination only by putting a complete table there, and no other file but the temporary one; success
  means that the table was published. A write that does not publish leaves the table in its building
  state with the same records, so that it can be tried again.\<close>

theorem sstable_write_atomic:
  assumes "section_ok z (tb_data t)" "data_blocks (tb_data t) \<noteq> []" "tb_state t = Building"
    "SSTable_write z env (t, d) = (c, t', d')" "tb_path t \<noteq> tb_final_path t"
  shows "(\<forall>p. p \<noteq> tb_path t \<longrightarrow> p \<noteq> tb_final_path t \<longrightarrow> d' p = d p) \<and> tb_data t' = tb_data t \<and>
    (tb_state t' = Published \<and> (\<exists>D. d' (tb_final_path t) = Some D \<and> published z (tb_data t) D) \<and> d' (tb_path t) = None \<or>
     tb_state t' = Building \<and> d' (tb_final_path t) = d (tb_final_path t) \<and> c \<noteq> Ok \<and> tb_path t' = tb_path t)"
  using SSTable_write_effect [OF assms(1,2,4)] assms(3,5) by (auto split: if_splits)

text \<open>C32 (writing succeeds). When the operating system reports no error, a table whose index fits into
  one block and whose boundary keys fit into the metadata is written and published.\<close>

theorem sstable_write_succeeds:
  assumes "run_all (map (append_record z) rs) (SSTable_building z p q i) = (Ok, t)" "writable_section z (tb_data t)" "calm_env env"
    "p \<noteq> []" "q \<noteq> []" "lexically_normal p \<noteq> lexically_normal q"
  shows "fst (SSTable_write z env (t, d)) = Ok"
  using building_all [OF assms(1)] assms(4-6) FileHeader_of_ok [of z i]
  by (intro SSTable_write_succeeds [OF assms(2) _ assms(3)]) (simp_all add: header_ok_def)

section \<open>Examples\<close>

text \<open>A table with one record, on a device that writes in small pieces and reads with an interrupt.\<close>

definition ex_build :: SSTable where
  "ex_build = SSTable_building ex_zlib ''t.tmp'' ''t.sst'' 7"

definition ex_sst :: SSTable where
  "ex_sst = snd (run_all (map (append_record ex_zlib) [ex_row 4 [1, 2]]) ex_build)"

definition ex_write_env :: write_env where
  "ex_write_env = \<lparr>we_remove_ok = True, we_opened = Ok, we_writes = [Wrote 3, WriteIntr], we_syncs = [SyncIntr], we_close_ok = True,
     we_rename_ok = True, we_directory = Ok\<rparr>"

definition ex_read_env :: read_env where
  "ex_read_env = \<lparr>re_opened = Ok, re_reads = [ReadIntr, GotUpTo 2]\<rparr>"

lemma ex_sst_built: "run_all (map (append_record ex_zlib) [ex_row 4 [1, 2]]) ex_build = (Ok, ex_sst)"
  "tb_data ex_sst = \<lparr>data_blocks = [\<lparr>db_header = data_header ex_zlib [DataPayload_of (ex_row 4 [1, 2])], db_payloads = [DataPayload_of (ex_row 4 [1, 2])]\<rparr>]\<rparr>"
proof -
  let ?r = "ex_row 4 [1, 2]"
  have v: "DataPayload_validate (DataPayload_of ?r) = Ok" using payload_of_valid [of ?r] by (simp add: storable_def ex_row_def)
  have fit: "can_payload_fit (DataPayload_of ?r) \<lparr>db_header = DataHeader_new ex_zlib, db_payloads = []\<rparr>"
    by (simp add: can_payload_fit_def DataBlock_disk_size_def payload_disk_size_def DataPayload_of_def ex_row_def BLOCK_SIZE_def)
  have a: "DataSection_add_payload ex_zlib ?r \<lparr>data_blocks = []\<rparr> =
      (Ok, \<lparr>data_blocks = [\<lparr>db_header = data_header ex_zlib [DataPayload_of ?r], db_payloads = [DataPayload_of ?r]\<rparr>]\<rparr>)"
    using add_to_block(1) [OF _ v fit, of ex_zlib] v
    by (simp add: DataSection_add_payload_def Let_def last_payload_def ex_row_def)
  have d0: "tb_data ex_build = \<lparr>data_blocks = []\<rparr>" "tb_state ex_build = Building"
    by (simp_all add: ex_build_def SSTable_building_def SSTable_default_def)
  show "run_all (map (append_record ex_zlib) [?r]) ex_build = (Ok, ex_sst)"
    "tb_data ex_sst = \<lparr>data_blocks = [\<lparr>db_header = data_header ex_zlib [DataPayload_of ?r], db_payloads = [DataPayload_of ?r]\<rparr>]\<rparr>"
    by (simp_all add: ex_sst_def append_record_def d0 a)
qed

lemma ex_sst_writable: "writable_section ex_zlib (tb_data ex_sst)"
proof -
  note b = building_all [OF ex_sst_built(1) [unfolded ex_build_def]]
  have "index_ok (idx_payloads (section_index ex_zlib BLOCK_SIZE (tb_data ex_sst)))"
    by (simp add: ex_sst_built(2) section_index_def idx_of_def entry_of_def index_ok_def IndexPayload_validate_def
      IndexPayload_disk_size_def DataPayload_of_def ex_row_def BLOCK_SIZE_def)
  then show ?thesis unfolding writable_section_def using b(1,2,7) by (simp add: ex_row_def)
qed

lemma ex_paths: "lexically_normal ''t.tmp'' \<noteq> lexically_normal ''t.sst''" "lexically_normal ''./a//b/../c/'' = (False, [''a'', ''c''], True)"
  by (simp_all add: lexically_normal_def)

lemma ex_calm: "calm_env ex_write_env"
  by (simp add: calm_env_def ex_write_env_def)

theorem sstable_write_succeeds_witness: "fst (SSTable_write ex_zlib ex_write_env (ex_sst, Map.empty)) = Ok"
  using sstable_write_succeeds [OF ex_sst_built(1) [unfolded ex_build_def] ex_sst_writable ex_calm _ _ ex_paths(1)] by simp

lemma ex_sst_written:
  obtains t' d' where "SSTable_write ex_zlib ex_write_env (ex_sst, Map.empty) = (Ok, t', d')"
proof -
  have "fst (SSTable_write ex_zlib ex_write_env (ex_sst, Map.empty)) = Ok"
    by (rule SSTable_write_succeeds [OF ex_sst_writable _ ex_calm])
      (use building_all [OF ex_sst_built(1) [unfolded ex_build_def]] ex_paths(1) FileHeader_of_ok [of ex_zlib 7] in \<open>simp_all add: header_ok_def\<close>)
  then show ?thesis using that by (cases "SSTable_write ex_zlib ex_write_env (ex_sst, Map.empty)") auto
qed

theorem sstable_roundtrip_witness:
  "\<exists>t' d' t2 ar2 r t3 ar3. SSTable_write ex_zlib ex_write_env (ex_sst, Map.empty) = (Ok, t', d') \<and>
     SSTable_load ex_zlib ex_read_env ''t.sst'' d' (ex_new_arena\<lparr>oom := []\<rparr>) = Some (Inr t2, ar2) \<and>
     get_all ex_zlib [[7], [9]] (t2, ar2) = Some ([Inr (Some (ex_row 4 [1, 2])), r], t3, ar3) \<and> (r = Inl NotFound \<or> r = Inr None)"
proof -
  obtain t' d' where w: "SSTable_write ex_zlib ex_write_env (ex_sst, Map.empty) = (Ok, t', d')" by (rule ex_sst_written)
  have "arena_ok (ex_new_arena\<lparr>oom := []\<rparr>)" "never_oom (ex_new_arena\<lparr>oom := []\<rparr>)"
    using ex_new_arena_ok by (simp_all add: never_oom_def)
  from sstable_roundtrip [OF ex_zlib_incremental ex_sst_built(1) [unfolded ex_build_def] _ w _ _ _ this, of ex_read_env "[[7], [9]]"]
  show ?thesis using w by (fastforce simp: ex_read_env_def list_all2_Cons1 answers_def newest_in_def ex_row_def)
qed

theorem sstable_write_atomic_witness:
  "snd (snd (SSTable_write ex_zlib ex_write_env (ex_sst, [''MANIFEST'' \<mapsto> [1]]))) ''MANIFEST'' = Some [1] \<and>
   tb_data (fst (snd (SSTable_write ex_zlib ex_write_env (ex_sst, [''MANIFEST'' \<mapsto> [1]])))) = tb_data ex_sst"
proof -
  note b = building_all [OF ex_sst_built(1) [unfolded ex_build_def]]
  obtain c t' d' where w: "SSTable_write ex_zlib ex_write_env (ex_sst, [''MANIFEST'' \<mapsto> [1]]) = (c, t', d')" by (metis prod_cases3)
  from sstable_write_atomic [OF b(1) _ b(3) w] b(4,5,7) w show ?thesis by auto
qed

end
