(* ===== verification/SSTableIterator.thy ===== *)
theory SSTableIterator
  imports SSTable
begin

text \<open>
  Reading a table block by block (\<^verbatim>\<open>core/sstable_infra/sstable_iterator.cpp\<close>), and what every source of
  sorted records promises to its clients: the locale \<open>cursor\<close>. On a published table the iterator
  delivers exactly the records of the table, in order.
\<close>

section \<open>State\<close>

text \<open>The iterator refers to its table only for the footer; the file's offset is \<open>current_offset\<close>.\<close>

record SSTableIterator =
  it_footer :: FileFooterSection
  it_file :: rfile
  it_block_count :: nat
  it_next_block :: nat
  it_record_index :: nat
  it_records :: "InternalRecord list"
  it_valid :: bool
  it_status :: StatusCode

definition SSTableIterator_new :: "SSTable \<Rightarrow> rfile \<Rightarrow> SSTableIterator" where
  "SSTableIterator_new t f = \<lparr>it_footer = tb_footer t, it_file = f\<lparr>roff := unat (ff_data_offset (tb_footer t))\<rparr>,
     it_block_count = unat (ff_block_count (tb_footer t)), it_next_block = 0, it_record_index = 0, it_records = [],
     it_valid = False, it_status = Ok\<rparr>"

definition SSTableIterator_record :: "SSTableIterator \<Rightarrow> InternalRecord" where
  "SSTableIterator_record it = it_records it ! it_record_index it"

section \<open>Loading a block\<close>

definition read_entry_bytes :: "nat \<Rightarrow> byte list loader" where
  "read_entry_bytes n = lift_l (read_bytes n BLOCK_SIZE)"

definition read_payload :: "nat \<Rightarrow> DataPayload loader" where
  "read_payload payload_end =
     bind_l (check_l (\<lambda>f. if payload_end - roff f < DataPayload_fixed_size then Corruption else Ok)) (\<lambda>_.
     bind_l (lift_l (read_u32_t_le BLOCK_SIZE)) (\<lambda>key_size.
     bind_l (lift_l (read_u32_t_le BLOCK_SIZE)) (\<lambda>value_size.
     bind_l (lift_l (read_u8_t BLOCK_SIZE)) (\<lambda>t.
     bind_l (lift_l (read_u32_t_le BLOCK_SIZE)) (\<lambda>flags.
     bind_l (lift_l (read_u32_t_le BLOCK_SIZE)) (\<lambda>reserved.
     bind_l (lift_l (read_u64_t_le BLOCK_SIZE)) (\<lambda>seqn.
     bind_l (check_l (\<lambda>f. let remaining = payload_end - roff f in
       if unat key_size > remaining \<or> unat value_size > remaining - unat key_size then Corruption else Ok)) (\<lambda>_.
     bind_l (alloc_l (unat key_size) 1) (\<lambda>_.
     bind_l (alloc_l (unat value_size) 1) (\<lambda>_.
     bind_l (read_entry_bytes (unat key_size)) (\<lambda>key.
     bind_l (read_entry_bytes (unat value_size)) (\<lambda>v.
     return_l \<lparr>pl_key = key, pl_value = v, pl_type = t, pl_flags = flags, pl_reserved = reserved, pl_seq = seqn\<rparr>))))))))))))"

lemma read_payload_forward: "forward 4 (read_payload payload_end)"
proof -
  have "forward (0 + 4) (read_payload payload_end)"
    unfolding read_payload_def read_entry_bytes_def
    by (intro forward_bind [OF forward_check] forward_bind_left [OF forward_lift [OF read_field_advances(2)]] forward_intros
      forward_fields forward_0 [OF read_field_advances(1)])
  then show ?thesis by simp
qed

function read_payloads :: "nat \<Rightarrow> DataPayload list loader" where
  "read_payloads payload_end (f, ar) =
     (if roff f < payload_end then
        (case read_payload payload_end (f, ar) of
           None \<Rightarrow> None
         | Some (Inl e, s) \<Rightarrow> Some (Inl e, s)
         | Some (Inr p, f', ar') \<Rightarrow>
             (case read_payloads payload_end (f', ar') of
                None \<Rightarrow> None
              | Some (Inl e, s) \<Rightarrow> Some (Inl e, s)
              | Some (Inr ps, s) \<Rightarrow> Some (Inr (p # ps), s)))
      else Some (Inr [], f, ar))"
  by pat_completeness auto
termination
  by (relation "measure (\<lambda>(payload_end, (f, ar)). payload_end - roff f)") (auto dest!: forwardD [OF read_payload_forward])

declare read_payloads.simps [simp del]

definition load_block :: "zlib \<Rightarrow> nat \<Rightarrow> DataPayload list loader" where
  "load_block z block_start =
     bind_l (check_l (\<lambda>_. if block_start mod BLOCK_SIZE \<noteq> 0 then InvalidBlockAlignment else Ok)) (\<lambda>_.
     bind_l (lift_l (read_u8_t BLOCK_SIZE)) (\<lambda>t.
     bind_l (check_l (\<lambda>_. if t \<noteq> BlockType_Data then InvalidBlockType else Ok)) (\<lambda>_.
     bind_l (lift_l (read_u32_t_le BLOCK_SIZE)) (\<lambda>n.
     bind_l (lift_l (read_u32_t_le BLOCK_SIZE)) (\<lambda>expected_crc.
     bind_l (check_l (\<lambda>_. if unat n > BLOCK_SIZE - DataHeader_disk_size then InvalidPayloadSize else Ok)) (\<lambda>_.
     bind_l (lift_l offset_r) (\<lambda>payload_start.
     let payload_end = payload_start + unat n in
     bind_l (check_l (\<lambda>_. if payload_end > block_start + BLOCK_SIZE then OffsetOverlap else Ok)) (\<lambda>_.
     bind_l (read_payloads payload_end) (\<lambda>payloads.
     bind_l (check_l (\<lambda>f. if roff f \<noteq> payload_end then Corruption else Ok)) (\<lambda>_.
     bind_l (check_l (\<lambda>_. if DataBlock_calculate_crc32 z payloads \<noteq> expected_crc then ChecksumMismatch else Ok)) (\<lambda>_.
     return_l payloads)))))))))))"

definition load_next_block :: "zlib \<Rightarrow> SSTableIterator \<times> arena \<Rightarrow> (StatusCode \<times> SSTableIterator \<times> arena) option" where
  "load_next_block z s = (case s of (it, ar) \<Rightarrow>
     let it = it\<lparr>it_record_index := 0, it_valid := False, it_records := []\<rparr> in
     if it_next_block it \<ge> it_block_count it then Some (Ok, it, ar)
     else let block_start = roff (it_file it) in
       case load_block z block_start (it_file it, ar) of
         None \<Rightarrow> None
       | Some (Inl e, f, ar') \<Rightarrow> Some (e, it\<lparr>it_file := f\<rparr>, ar')
       | Some (Inr payloads, f, ar') \<Rightarrow>
           let it = it\<lparr>it_records := map record_of payloads, it_file := f\<lparr>roff := block_start + BLOCK_SIZE\<rparr>,
                 it_next_block := it_next_block it + 1\<rparr> in
           if payloads = [] then Some (Corruption, it, ar') else Some (Ok, it\<lparr>it_valid := True\<rparr>, ar'))"

text \<open>The result of loading a block becomes the status of the iterator.\<close>

definition set_status :: "(StatusCode \<times> SSTableIterator \<times> arena) option \<Rightarrow> (StatusCode \<times> SSTableIterator \<times> arena) option" where
  "set_status r = map_option (\<lambda>(c, it, ar). (c, it\<lparr>it_status := c\<rparr>, ar)) r"

definition SSTableIterator_next :: "zlib \<Rightarrow> SSTableIterator \<times> arena \<Rightarrow> (StatusCode \<times> SSTableIterator \<times> arena) option" where
  "SSTableIterator_next z s = (case s of (it, ar) \<Rightarrow>
     if \<not> it_valid it then Some (Ok, it, ar)
     else let it = it\<lparr>it_record_index := it_record_index it + 1\<rparr> in
       if it_record_index it < length (it_records it) then Some (Ok, it, ar)
       else set_status (load_next_block z (it, ar)))"

definition SSTableIterator_seek_to_first :: "zlib \<Rightarrow> SSTableIterator \<times> arena \<Rightarrow> (StatusCode \<times> SSTableIterator \<times> arena) option" where
  "SSTableIterator_seek_to_first z s = (case s of (it, ar) \<Rightarrow>
     set_status (load_next_block z (it\<lparr>it_file := (it_file it)\<lparr>roff := unat (ff_data_offset (it_footer it))\<rparr>,
       it_block_count := unat (ff_block_count (it_footer it)), it_next_block := 0, it_record_index := 0, it_valid := False,
       it_status := Ok, it_records := []\<rparr>, ar)))"

section \<open>Cursors\<close>

text \<open>A loop that collects the records of a source, as in \<open>SSTableBuilder::build\<close>, and one that skips
  the older versions of a key, as in \<open>CompactionJob::run\<close>. The state is returned together with the arena.\<close>

type_synonym 's stepper = "'s \<times> arena \<Rightarrow> (StatusCode \<times> 's \<times> arena) option"

partial_function (option) collect ::
    "'s stepper \<Rightarrow> ('s \<Rightarrow> InternalRecord) \<Rightarrow> ('s \<Rightarrow> bool) \<Rightarrow> InternalRecord list \<Rightarrow> 's \<Rightarrow> arena \<Rightarrow> (InternalRecord list result \<times> 's \<times> arena) option" where
  "collect step cur live acc s ar =
     (if live s then
        (case step (s, ar) of
           None \<Rightarrow> None
         | Some (c, s', ar') \<Rightarrow> if \<not> is_ok c then Some (Inl c, s', ar') else collect step cur live (acc @ [cur s]) s' ar')
      else Some (Inr acc, s, ar))"

partial_function (option) skip_key ::
    "'s stepper \<Rightarrow> ('s \<Rightarrow> InternalRecord) \<Rightarrow> ('s \<Rightarrow> bool) \<Rightarrow> ArenaEntry \<Rightarrow> 's \<Rightarrow> arena \<Rightarrow> ('s \<times> arena) option" where
  "skip_key step cur live key s ar =
     (if live s \<and> key_entry (cur s) = key then
        (case step (s, ar) of None \<Rightarrow> None | Some (_, s', ar') \<Rightarrow> skip_key step cur live key s' ar')
      else Some (s, ar))"

locale cursor =
  fixes step :: "'s stepper" and cur :: "'s \<Rightarrow> InternalRecord" and live :: "'s \<Rightarrow> bool" and rest :: "'s \<Rightarrow> InternalRecord list \<Rightarrow> bool"
  assumes live_iff: "rest s rs \<Longrightarrow> live s \<longleftrightarrow> rs \<noteq> []"
    and cur_hd: "rest s (r # rs) \<Longrightarrow> cur s = r"
    and step_tl: "rest s (r # rs) \<Longrightarrow> arena_ok ar \<Longrightarrow> never_oom ar \<Longrightarrow>
      \<exists>s' ar'. step (s, ar) = Some (Ok, s', ar') \<and> rest s' rs \<and> extends ar ar' \<and> never_oom ar'"
begin

lemma collect_all:
  assumes "rest s rs" "arena_ok ar" "never_oom ar"
  shows "\<exists>s' ar'. collect step cur live acc s ar = Some (Inr (acc @ rs), s', ar') \<and> rest s' [] \<and> extends ar ar' \<and> never_oom ar'"
  using assms
proof (induction rs arbitrary: s ar acc)
  case Nil
  then show ?case using live_iff [OF Nil(1)] by (subst collect.simps) (simp add: extends_refl)
next
  case (Cons r rs)
  obtain s1 ar1 where s1: "step (s, ar) = Some (Ok, s1, ar1)" "rest s1 rs" "extends ar ar1" "never_oom ar1"
    using step_tl [OF Cons.prems] by blast
  have ok: "arena_ok ar1" using s1(3) by (simp add: extends_def)
  obtain s' ar' where "collect step cur live (acc @ [r]) s1 ar1 = Some (Inr ((acc @ [r]) @ rs), s', ar')" "rest s' []"
    "extends ar1 ar'" "never_oom ar'" using Cons.IH [OF s1(2) ok s1(4)] by blast
  then show ?case using s1 live_iff [OF Cons.prems(1)] cur_hd [OF Cons.prems(1)] extends_trans [OF s1(3)]
    by (subst collect.simps) auto
qed

lemma skip_key_all:
  assumes "rest s rs" "arena_ok ar" "never_oom ar"
  shows "\<exists>s' ar'. skip_key step cur live key s ar = Some (s', ar') \<and> rest s' (dropWhile (\<lambda>r. key_entry r = key) rs) \<and>
    extends ar ar' \<and> never_oom ar'"
  using assms
proof (induction rs arbitrary: s ar)
  case Nil
  then show ?case using live_iff [OF Nil(1)] by (subst skip_key.simps) (simp add: extends_refl)
next
  case (Cons r rs)
  note here = live_iff [OF Cons.prems(1)] cur_hd [OF Cons.prems(1)]
  show ?case
  proof (cases "key_entry r = key")
    case False
    then show ?thesis using here Cons.prems by (subst skip_key.simps) (simp add: extends_refl)
  next
    case True
    obtain s1 ar1 where s1: "step (s, ar) = Some (Ok, s1, ar1)" "rest s1 rs" "extends ar ar1" "never_oom ar1"
      using step_tl [OF Cons.prems] by blast
    have ok: "arena_ok ar1" using s1(3) by (simp add: extends_def)
    from Cons.IH [OF s1(2) ok s1(4)] show ?thesis using True here s1 extends_trans [OF s1(3)]
      by (subst skip_key.simps) auto
  qed
qed

end

section \<open>Iterating over a published table\<close>

lemma read_entry_reads: "length bs \<le> BLOCK_SIZE \<Longrightarrow> loads BLOCK_SIZE E (read_entry_bytes (length bs)) [bs] bs"
  unfolding read_entry_bytes_def by (intro loads_lift sst_field_reads)

lemma loads_alloc_any:
  assumes "\<And>p. loads B E (m p) cs v"
  shows "loads B E (bind_l (alloc_l n 1) m) cs v"
proof (cases "n = 0")
  case True
  then have "bind_l (alloc_l n 1) m = m NullPtr" by (intro ext) (auto simp: bind_l_def alloc_l_def alloc_def)
  then show ?thesis using assms by simp
next
  case False
  have "has_single_bit 1" using has_single_bit_pow [of 0] by simp
  then show ?thesis using False assms by (intro loads_alloc) simp_all
qed

lemma read_payload_loads:
  assumes v: "DataPayload_validate p = Ok"
  shows "loads BLOCK_SIZE (Some e) (read_payload e) (data_payload_fields p) p"
proof -
  note sz = payload_sizes [OF v]
  have fixed: "fits BLOCK_SIZE (Some e) (roff f) (data_payload_fields p) \<Longrightarrow> \<not> e - roff f < DataPayload_fixed_size" for f :: rfile
    using data_payload_fields_length [of p] by (auto simp: fits_def payload_disk_size_def)
  have var: "fits BLOCK_SIZE (Some e) (roff f) ([pl_key p] @ [pl_value p] @ []) \<Longrightarrow>
      \<not> (unat (entry_size (pl_key p)) > e - roff f \<or> unat (entry_size (pl_value p)) > e - roff f - unat (entry_size (pl_key p)))" for f :: rfile
    using sz(1,2) by (auto simp: fits_def)
  have "loads BLOCK_SIZE (Some e) (read_payload e)
    ([enc_u32 (entry_size (pl_key p))] @ [enc_u32 (entry_size (pl_value p))] @ [enc_u8 (pl_type p)] @ [enc_u32 (pl_flags p)] @
     [enc_u32 (pl_reserved p)] @ [enc_u64 (pl_seq p)] @ [pl_key p] @ [pl_value p] @ []) p"
    unfolding read_payload_def
    by (rule loads_guard, use fixed in \<open>simp add: data_payload_fields_def\<close>,
      intro loads_bind [OF loads_lift [OF sst_field_reads(1)]] loads_bind [OF loads_lift [OF sst_field_reads(2)]]
        loads_bind [OF loads_lift [OF sst_field_reads(3)]],
      rule loads_guard, use var in \<open>simp add: Let_def\<close>, unfold sz(1,2),
      intro loads_alloc_any loads_bind [OF read_entry_reads [OF sz(3)]] loads_bind [OF read_entry_reads [OF sz(4)]])
     (cases p; simp add: loads_return)
  then show ?thesis by (simp add: data_payload_fields_def)
qed

lemma read_payload_at:
  assumes v: "DataPayload_validate p = Ok" and q: "read_quiet D f" "arena_ok ar" "never_oom ar"
    and at: "bytes_at D (roff f) (concat (data_payload_fields p))" and blk: "roff f mod BLOCK_SIZE + payload_disk_size p \<le> BLOCK_SIZE"
    and pe: "roff f + payload_disk_size p \<le> payload_end"
  shows "\<exists>f' ar'. read_payload payload_end (f, ar) = Some (Inr p, f', ar') \<and> read_quiet D f' \<and> roff f' = roff f + payload_disk_size p \<and>
    extends ar ar' \<and> never_oom ar'"
proof -
  have blk': "roff f mod BLOCK_SIZE + length (concat (data_payload_fields p)) \<le> BLOCK_SIZE" using blk by (simp add: data_payload_fields_length)
  note lay = lay_in_block [OF blk'] and sl = seamless_in_block [OF blk']
  from read_payload_loads [OF v] q at [folded lay] show ?thesis
    by (cases rule: loadsD) (use sl pe lay in \<open>auto simp: fits_def data_payload_fields_length\<close>)
qed

lemma read_payloads_at:
  assumes "\<forall>p\<in>set ps. DataPayload_validate p = Ok" "read_quiet D f" "arena_ok ar" "never_oom ar" "bytes_at D (roff f) (payloads_bytes ps)"
    "roff f mod BLOCK_SIZE + length (payloads_bytes ps) \<le> BLOCK_SIZE"
  shows "\<exists>f' ar'. read_payloads (roff f + length (payloads_bytes ps)) (f, ar) = Some (Inr ps, f', ar') \<and> read_quiet D f' \<and>
    roff f' = roff f + length (payloads_bytes ps) \<and> extends ar ar' \<and> never_oom ar'"
  using assms
proof (induction ps arbitrary: f ar)
  case Nil
  then show ?case by (simp add: read_payloads.simps payloads_bytes_def extends_refl)
next
  case (Cons p ps)
  let ?e = "roff f + length (payloads_bytes (p # ps))"
  have len: "length (payloads_bytes (p # ps)) = payload_disk_size p + length (payloads_bytes ps)" by (simp add: payloads_bytes_length)
  have at: "bytes_at D (roff f) (concat (data_payload_fields p))" "bytes_at D (roff f + payload_disk_size p) (payloads_bytes ps)"
    using Cons.prems(5) by (simp_all add: payloads_bytes_def bytes_at_append data_payload_fields_length)
  obtain g ar1 where g: "read_payload ?e (f, ar) = Some (Inr p, g, ar1)" "read_quiet D g" "roff g = roff f + payload_disk_size p"
    "extends ar ar1" "never_oom ar1"
    using read_payload_at [OF _ Cons.prems(2-4) at(1), of ?e] Cons.prems(1,6) len by auto
  have "arena_ok ar1" using g(4) by (simp add: extends_def)
  moreover have "roff g mod BLOCK_SIZE + length (payloads_bytes ps) \<le> BLOCK_SIZE"
    using in_block_step [of BLOCK_SIZE "roff f" "payload_disk_size p" "length (payloads_bytes ps)"] Cons.prems(6) g(3) len by simp
  ultimately obtain h ar2 where h: "read_payloads (roff g + length (payloads_bytes ps)) (g, ar1) = Some (Inr ps, h, ar2)" "read_quiet D h"
    "roff h = roff g + length (payloads_bytes ps)" "extends ar1 ar2" "never_oom ar2"
    using Cons.IH [OF _ g(2) _ g(5)] Cons.prems(1) at(2) g(3) by auto
  define e where "e = roff f + length (payloads_bytes (p # ps))"
  have e: "roff g + length (payloads_bytes ps) = e" "roff f < e" using g(3) len by (simp_all add: e_def payload_disk_size_def)
  have "read_payloads e (f, ar) = Some (Inr (p # ps), h, ar2)"
    using g(1) [folded e_def] h(1) [unfolded e(1)] e(2) by (subst read_payloads.simps) simp
  then show ?case using h g e extends_trans [OF g(4) h(4)] unfolding e_def by auto
qed

lemma load_block_at:
  assumes "block_at z D (roff f) ps" "read_quiet D f" "arena_ok ar" "never_oom ar"
  shows "\<exists>f' ar'. load_block z (roff f) (f, ar) = Some (Inr ps, f', ar') \<and> read_quiet D f' \<and> extends ar ar' \<and> never_oom ar'"
proof -
  let ?h = "data_header z ps" and ?o = "roff f"
  note hf = block_header_facts [OF assms(1)]
  have ok: "block_list_ok ps" "?o mod BLOCK_SIZE = 0" using assms(1) by (simp_all add: block_at_def)
  have at: "bytes_at D ?o (concat (data_header_fields ?h))" using assms(1) by (simp add: block_at_def block_bytes_def bytes_at_append)
  obtain g where g: "data_header_reader f = (Inr ?h, g)" "read_quiet D g" "roff g = ?o + 9"
    using reads_in_block [OF data_header_reader_reads assms(2) at] ok(2) quiet_data [OF assms(2)]
    by (auto simp: data_header_length yields_def BLOCK_SIZE_def)
  obtain g1 g2 where r: "read_u8_t BLOCK_SIZE f = (Inr (dh_type ?h), g1)" "read_u32_t_le BLOCK_SIZE g1 = (Inr (dh_payload_size ?h), g2)"
    "read_u32_t_le BLOCK_SIZE g2 = (Inr (dh_crc ?h), g)"
    using g(1) unfolding data_header_reader_def by (cases ?h) (auto simp: bind_r_def return_r_def split: prod.splits sum.splits)
  define e where "e = ?o + 9 + length (payloads_bytes ps)"
  have "roff g mod BLOCK_SIZE + length (payloads_bytes ps) \<le> BLOCK_SIZE" using inner_offset [OF assms(1), of 0] hf(2) g(3) by simp
  from read_payloads_at [OF _ g(2) assms(3,4) _ this] obtain k ar' where
    k: "read_payloads e (g, ar) = Some (Inr ps, k, ar')" "read_quiet D k" "roff k = e" "extends ar ar'" "never_oom ar'"
    using payload_stored [OF assms(1)] g(3) ok(1) by (auto simp: block_list_ok_def e_def)
  have ty: "dh_type ?h = BlockType_Data" "dh_crc ?h = DataBlock_calculate_crc32 z ps" by (simp_all add: data_header_def)
  have small: "\<not> ?o + BLOCK_SIZE < e" "\<not> BLOCK_SIZE - DataHeader_disk_size < length (payloads_bytes ps)" using hf(2) by (simp_all add: e_def BLOCK_SIZE_def)
  have "load_block z ?o (f, ar) = Some (Inr ps, k, ar')"
    unfolding load_block_def Let_def
    by (simp add: run_l bind_l_offset r ty(1) ok(2) hf(1) small(2) g(3) e_def [symmetric] small(1)
      bind_l_step [where m = "read_payloads e", OF k(1)] k(3) ty(2) [symmetric] return_l_def del: data_sizes)
  with k show ?thesis by blast
qed

text \<open>What an iterator over the blocks \<open>pss\<close> has left: the unread records of the current block and all
  later blocks.\<close>

definition iterates :: "zlib \<Rightarrow> byte list \<Rightarrow> nat \<Rightarrow> DataPayload list list \<Rightarrow> SSTableIterator \<Rightarrow> InternalRecord list \<Rightarrow> bool" where
  "iterates z D off pss it rs \<longleftrightarrow> crc_incremental z \<and> blocks_at z D off pss \<and> read_quiet D (it_file it) \<and> it_status it = Ok \<and>
     it_block_count it = length pss \<and> it_next_block it \<le> length pss \<and> roff (it_file it) = off + it_next_block it * BLOCK_SIZE \<and>
     (if it_valid it then it_record_index it < length (it_records it) \<and>
        rs = drop (it_record_index it) (it_records it) @ map record_of (concat (drop (it_next_block it) pss))
      else rs = [] \<and> it_next_block it = length pss)"

lemma load_next_iterates:
  assumes "crc_incremental z" "blocks_at z D off pss" "read_quiet D (it_file it)" "it_block_count it = length pss"
    "it_next_block it \<le> length pss" "roff (it_file it) = off + it_next_block it * BLOCK_SIZE" "arena_ok ar" "never_oom ar"
  shows "\<exists>it' ar'. set_status (load_next_block z (it, ar)) = Some (Ok, it', ar') \<and>
    iterates z D off pss it' (map record_of (concat (drop (it_next_block it) pss))) \<and> extends ar ar' \<and> never_oom ar'"
proof (cases "it_next_block it < length pss")
  case False
  then show ?thesis using assms by (simp add: load_next_block_def set_status_def Let_def iterates_def extends_refl)
next
  case True
  let ?n = "it_next_block it"
  have "block_at z D (roff (it_file it)) (pss ! ?n)" using block_at_nth [OF assms(1,2) True] assms(6) by simp
  from load_block_at [OF this assms(3,7,8)] obtain f ar' where
    f: "load_block z (roff (it_file it)) (it_file it, ar) = Some (Inr (pss ! ?n), f, ar')" "read_quiet D f" "extends ar ar'" "never_oom ar'" by blast
  have ne: "pss ! ?n \<noteq> []" using assms(2) True by (auto simp: blocks_at_def block_list_ok_def)
  have "drop ?n pss = pss ! ?n # drop (Suc ?n) pss" using True by (simp add: Cons_nth_drop_Suc)
  then show ?thesis using f ne True assms
    by (simp add: load_next_block_def set_status_def Let_def iterates_def add_ac)
qed

interpretation table_cursor: cursor "SSTableIterator_next z" SSTableIterator_record it_valid "iterates z D off pss"
proof
  fix it rs assume "iterates z D off pss it rs"
  then show "it_valid it \<longleftrightarrow> rs \<noteq> []" by (auto simp: iterates_def split: if_splits)
next
  fix it r rs assume "iterates z D off pss it (r # rs)"
  then show "SSTableIterator_record it = r"
    by (auto simp: iterates_def SSTableIterator_record_def hd_drop_conv_nth [symmetric] split: if_splits)
      (metis append_is_Nil_conv hd_append2 drop_eq_Nil list.sel(1) not_less)
next
  fix it r rs ar assume a: "iterates z D off pss it (r # rs)" "arena_ok ar" "never_oom ar"
  let ?i = "it_record_index it + 1"
  have v: "it_valid it" "it_record_index it < length (it_records it)"
    "r # rs = drop (it_record_index it) (it_records it) @ map record_of (concat (drop (it_next_block it) pss))"
    using a(1) by (auto simp: iterates_def split: if_splits)
  have tl: "rs = drop ?i (it_records it) @ map record_of (concat (drop (it_next_block it) pss))"
    using v(2,3) by (metis Cons_nth_drop_Suc Suc_eq_plus1 append_Cons list.inject)
  show "\<exists>it' ar'. SSTableIterator_next z (it, ar) = Some (Ok, it', ar') \<and> iterates z D off pss it' rs \<and> extends ar ar' \<and> never_oom ar'"
  proof (cases "?i < length (it_records it)")
    case True
    then show ?thesis using a v(1) tl by (simp add: SSTableIterator_next_def iterates_def extends_refl)
  next
    case False
    have "SSTableIterator_next z (it, ar) = set_status (load_next_block z (it\<lparr>it_record_index := ?i\<rparr>, ar))"
      using v(1) False by (simp add: SSTableIterator_next_def)
    then show ?thesis using load_next_iterates [of z D off pss "it\<lparr>it_record_index := ?i\<rparr>" ar] a tl False
      by (simp add: iterates_def)
  qed
qed

lemma seek_iterates:
  assumes "crc_incremental z" "table_bytes z D ds h bp mp (it_footer it)" "read_quiet D (it_file it)" "arena_ok ar" "never_oom ar"
  shows "\<exists>it' ar'. SSTableIterator_seek_to_first z (it, ar) = Some (Ok, it', ar') \<and>
    iterates z D (unat (ff_data_offset (it_footer it))) (map db_payloads (data_blocks ds)) it' (section_records ds) \<and> extends ar ar' \<and> never_oom ar'"
proof -
  note T = table_bytesD [OF assms(2)]
  show ?thesis unfolding SSTableIterator_seek_to_first_def
    using load_next_iterates [OF assms(1) T(8), of "it\<lparr>it_file := (it_file it)\<lparr>roff := unat (ff_data_offset (it_footer it))\<rparr>,
       it_block_count := unat (ff_block_count (it_footer it)), it_next_block := 0, it_record_index := 0, it_valid := False,
       it_status := Ok, it_records := []\<rparr>" ar] assms(3-5) T(7)
    by (simp add: section_records_def section_payloads_def)
qed

end
