(* ===== verification/MergeIterator.thy ===== *)
theory MergeIterator
  imports SSTableIterator "HOL-Library.Multiset"
begin

text \<open>
  Merging tables (\<^verbatim>\<open>utils/merge_iterator.cpp\<close>): a heap of iterator indices whose top is the input with the
  smallest internal key. The merge is a cursor over the sorted union of the inputs.
\<close>

section \<open>State and operations\<close>

record MergeIterator =
  mg_inputs :: "SSTableIterator list"
  mg_heap :: "nat list"
  mg_valid :: bool
  mg_status :: StatusCode

definition MergeIterator_new :: MergeIterator where
  "MergeIterator_new = \<lparr>mg_inputs = [], mg_heap = [], mg_valid = False, mg_status = Ok\<rparr>"

text \<open>The queue is kept as the list of its items. \<open>HeapCompare a b\<close> says that \<open>a\<close> comes after \<open>b\<close>; the
  top is an item that comes after no other. Items that compare equal are not ordered by the standard
  library; the model takes the first, and the results below do not depend on it.\<close>

definition HeapCompare :: "SSTableIterator list \<Rightarrow> nat \<Rightarrow> nat \<Rightarrow> bool" where
  "HeapCompare inputs a b = internal_before (SSTableIterator_record (inputs ! b)) (SSTableIterator_record (inputs ! a))"

definition heap_top :: "SSTableIterator list \<Rightarrow> nat list \<Rightarrow> nat" where
  "heap_top inputs h = hd (filter (\<lambda>i. list_all (\<lambda>j. \<not> HeapCompare inputs i j) h) h)"

definition heap_pop :: "SSTableIterator list \<Rightarrow> nat list \<Rightarrow> nat list" where
  "heap_pop inputs h = remove1 (heap_top inputs h) h"

definition heap_push :: "nat \<Rightarrow> nat list \<Rightarrow> nat list" where
  "heap_push i h = h @ [i]"

definition MergeIterator_record :: "MergeIterator \<Rightarrow> InternalRecord" where
  "MergeIterator_record m = SSTableIterator_record (mg_inputs m ! heap_top (mg_inputs m) (mg_heap m))"

definition MergeIterator_next :: "zlib \<Rightarrow> MergeIterator \<times> arena \<Rightarrow> (StatusCode \<times> MergeIterator \<times> arena) option" where
  "MergeIterator_next z s = (case s of (m, ar) \<Rightarrow>
     if \<not> mg_valid m then Some (Ok, m, ar)
     else let top = heap_top (mg_inputs m) (mg_heap m); heap = heap_pop (mg_inputs m) (mg_heap m) in
       case SSTableIterator_next z (mg_inputs m ! top, ar) of
         None \<Rightarrow> None
       | Some (c, it, ar') \<Rightarrow>
           let m = m\<lparr>mg_inputs := (mg_inputs m)[top := it], mg_heap := heap, mg_status := c\<rparr> in
           if \<not> is_ok c then Some (c, m\<lparr>mg_valid := False\<rparr>, ar')
           else let heap = (if it_valid it then heap_push top heap else heap) in
             Some (Ok, m\<lparr>mg_heap := heap, mg_valid := heap \<noteq> []\<rparr>, ar'))"

text \<open>The loop of \<open>build\<close> over the inputs from index \<open>i\<close> on.\<close>

fun seek_inputs ::
    "zlib \<Rightarrow> nat \<Rightarrow> nat list \<Rightarrow> SSTableIterator list \<Rightarrow> arena \<Rightarrow> (StatusCode \<times> SSTableIterator list \<times> nat list \<times> arena) option" where
  "seek_inputs z i heap [] ar = Some (Ok, [], heap, ar)"
| "seek_inputs z i heap (it # its) ar =
     (case SSTableIterator_seek_to_first z (it, ar) of
        None \<Rightarrow> None
      | Some (c, it', ar') \<Rightarrow>
          if \<not> is_ok c then Some (c, it' # its, heap, ar')
          else (case seek_inputs z (i + 1) (if it_valid it' then heap_push i heap else heap) its ar' of
                  None \<Rightarrow> None
                | Some (c, its', heap', ar'') \<Rightarrow> Some (c, it' # its', heap', ar'')))"

definition MergeIterator_build :: "zlib \<Rightarrow> SSTableIterator list \<Rightarrow> MergeIterator \<times> arena \<Rightarrow> (StatusCode \<times> MergeIterator \<times> arena) option" where
  "MergeIterator_build z data s = (case s of (m, ar) \<Rightarrow>
     case seek_inputs z 0 [] data ar of
       None \<Rightarrow> None
     | Some (c, inputs, heap, ar') \<Rightarrow>
         Some (c, m\<lparr>mg_inputs := inputs, mg_heap := heap, mg_valid := is_ok c \<and> heap \<noteq> [], mg_status := c\<rparr>, ar'))"

section \<open>The merge is a cursor\<close>

text \<open>\<open>specs\<close> says of each input which blocks of which file it reads.\<close>

type_synonym source = "byte list \<times> nat \<times> DataPayload list list"

definition reads_source :: "zlib \<Rightarrow> source \<Rightarrow> SSTableIterator \<Rightarrow> InternalRecord list \<Rightarrow> bool" where
  "reads_source z sp it rs \<longleftrightarrow> (case sp of (D, off, pss) \<Rightarrow> iterates z D off pss it rs) \<and> sorted_records rs"

definition merges :: "zlib \<Rightarrow> source list \<Rightarrow> MergeIterator \<Rightarrow> InternalRecord list \<Rightarrow> bool" where
  "merges z specs m rs \<longleftrightarrow> (\<exists>rss. length specs = length (mg_inputs m) \<and> length rss = length (mg_inputs m) \<and>
     (\<forall>i < length rss. reads_source z (specs ! i) (mg_inputs m ! i) (rss ! i)) \<and>
     distinct (mg_heap m) \<and> set (mg_heap m) = {i. i < length rss \<and> rss ! i \<noteq> []} \<and> mg_valid m = (mg_heap m \<noteq> []) \<and> mg_status m = Ok \<and>
     sorted_records rs \<and> mset rs = mset (concat rss))"

lemma reads_source_facts:
  assumes "reads_source z sp it rs"
  shows "it_valid it \<longleftrightarrow> rs \<noteq> []" "rs = r # t \<Longrightarrow> SSTableIterator_record it = r" "it_status it = Ok"
    "rs = r # t \<Longrightarrow> arena_ok ar \<Longrightarrow> never_oom ar \<Longrightarrow>
      \<exists>it' ar'. SSTableIterator_next z (it, ar) = Some (Ok, it', ar') \<and> reads_source z sp it' t \<and> extends ar ar' \<and> never_oom ar'"
proof -
  obtain D off pss where sp: "sp = (D, off, pss)" by (metis prod_cases3)
  have it: "iterates z D off pss it rs" "sorted_records rs" using assms by (simp_all add: reads_source_def sp)
  show "it_valid it \<longleftrightarrow> rs \<noteq> []" using table_cursor.live_iff [OF it(1)] .
  show "rs = r # t \<Longrightarrow> SSTableIterator_record it = r" using table_cursor.cur_hd it(1) by blast
  show "it_status it = Ok" using it(1) by (simp add: iterates_def)
  show "\<exists>it' ar'. SSTableIterator_next z (it, ar) = Some (Ok, it', ar') \<and> reads_source z sp it' t \<and> extends ar ar' \<and> never_oom ar'"
    if "rs = r # t" "arena_ok ar" "never_oom ar"
    using table_cursor.step_tl [OF it(1) [unfolded that(1)] that(2,3)] it(2) that(1) by (auto simp: reads_source_def sp)
qed

text \<open>The input whose first record is next, and the records that remain after it.\<close>

lemma next_source:
  assumes "sorted_records (r # rs)" "mset (r # rs) = mset (concat rss)" "\<forall>i < length rss. sorted_records (rss ! i)"
  obtains i t where "i < length rss" "rss ! i = r # t" "mset rs = mset (concat (rss[i := t]))"
    "\<And>j. j < length rss \<Longrightarrow> j \<noteq> i \<Longrightarrow> set (rss ! j) \<subseteq> set rs"
proof -
  have "r \<in> set (concat rss)" using arg_cong [OF assms(2), of set_mset] by auto
  then obtain xs where "xs \<in> set rss" "r \<in> set xs" by auto
  then obtain i where i: "i < length rss" "r \<in> set (rss ! i)" by (auto simp: in_set_conv_nth [of xs])
  then obtain x t where xt: "rss ! i = x # t" by (cases "rss ! i") auto
  have "rss ! i \<in> set rss" using i(1) by simp
  then have "x \<in> set (concat rss)" using xt by (auto intro: bexI [of _ "rss ! i"])
  then have "x \<in> set (r # rs)" using arg_cong [OF assms(2), of set_mset] by simp
  moreover have "x = r \<or> ikey x < ikey r" using assms(3) i xt by auto
  ultimately have x: "x = r" using assms(1) by auto
  have split: "rss = take i rss @ (r # t) # drop (Suc i) rss" using id_take_nth_drop [OF i(1)] xt x by simp
  have upd: "rss[i := t] = take i rss @ t # drop (Suc i) rss" using i(1) by (simp add: upd_conv_take_nth_drop)
  have "mset (concat rss) = add_mset r (mset (concat (rss[i := t])))" by (subst split, simp add: upd)
  then have ms: "mset rs = mset (concat (rss[i := t]))" using assms(2) by simp
  have "set (rss ! j) \<subseteq> set rs" if "j < length rss" "j \<noteq> i" for j
  proof -
    have "rss[i := t] ! j = rss ! j" using that by simp
    then have "set (rss ! j) \<subseteq> set (concat (rss[i := t]))" using that nth_mem [of j "rss[i := t]"] by auto
    also have "\<dots> = set rs" using arg_cong [OF ms, of set_mset] by simp
    finally show ?thesis .
  qed
  then show ?thesis using that i(1) xt x ms by blast
qed

lemma heap_top_unique:
  assumes "distinct h" "i \<in> set h" "\<And>j. j \<in> set h \<Longrightarrow> j \<noteq> i \<Longrightarrow> HeapCompare inputs j i" "\<And>j. j \<in> set h \<Longrightarrow> \<not> HeapCompare inputs i j"
  shows "heap_top inputs h = i"
proof -
  have "filter (\<lambda>i. list_all (\<lambda>j. \<not> HeapCompare inputs i j) h) h = filter (\<lambda>j. j = i) h"
    using assms(2-4) by (intro filter_cong) (auto simp: list_all_iff)
  also have "\<dots> = [i]" using assms(1,2) by (induction h) (auto simp: filter_empty_conv)
  finally show ?thesis by (simp add: heap_top_def)
qed

lemma merges_top:
  assumes "merges z specs m (r # rs)"
  obtains rss i t where "i < length rss" "rss ! i = r # t" "heap_top (mg_inputs m) (mg_heap m) = i" "mset rs = mset (concat (rss[i := t]))"
    "length specs = length (mg_inputs m)" "length rss = length (mg_inputs m)"
    "\<forall>i < length rss. reads_source z (specs ! i) (mg_inputs m ! i) (rss ! i)" "distinct (mg_heap m)"
    "set (mg_heap m) = {i. i < length rss \<and> rss ! i \<noteq> []}" "mg_valid m" "mg_status m = Ok" "sorted_records (r # rs)"
proof -
  obtain rss where m: "length specs = length (mg_inputs m)" "length rss = length (mg_inputs m)"
    "\<forall>i < length rss. reads_source z (specs ! i) (mg_inputs m ! i) (rss ! i)" "distinct (mg_heap m)"
    "set (mg_heap m) = {i. i < length rss \<and> rss ! i \<noteq> []}" "mg_valid m = (mg_heap m \<noteq> [])" "mg_status m = Ok"
    "sorted_records (r # rs)" "mset (r # rs) = mset (concat rss)" using assms unfolding merges_def by blast
  have "\<forall>i < length rss. sorted_records (rss ! i)" using m(3) by (simp add: reads_source_def)
  from next_source [OF m(8,9) this] obtain i t where i: "i < length rss" "rss ! i = r # t" "mset rs = mset (concat (rss[i := t]))"
    "\<And>j. j < length rss \<Longrightarrow> j \<noteq> i \<Longrightarrow> set (rss ! j) \<subseteq> set rs" by blast
  have rec: "SSTableIterator_record (mg_inputs m ! j) = hd (rss ! j)" if "j \<in> set (mg_heap m)" for j
    using m(3,5) that reads_source_facts(2) [of z "specs ! j" "mg_inputs m ! j" "rss ! j" "hd (rss ! j)" "tl (rss ! j)"] by auto
  have ih: "i \<in> set (mg_heap m)" using i m(5) by simp
  have after: "HeapCompare (mg_inputs m) j i" if "j \<in> set (mg_heap m)" "j \<noteq> i" for j
  proof -
    have "hd (rss ! j) \<in> set rs" using i(4) [of j] that m(5) by auto
    then show ?thesis using rec [OF that(1)] rec [OF ih] i(2) m(8) by (simp add: HeapCompare_def internal_before_iff)
  qed
  moreover have "\<not> HeapCompare (mg_inputs m) i j" if "j \<in> set (mg_heap m)" for j
    using after [OF that] by (cases "j = i") (auto simp: HeapCompare_def internal_before_iff)
  ultimately have "heap_top (mg_inputs m) (mg_heap m) = i" by (intro heap_top_unique m(4) ih)
  moreover have "mg_valid m" using ih m(6) by auto
  ultimately show ?thesis using that i(1-3) m by blast
qed

interpretation merge_cursor: cursor "MergeIterator_next z" MergeIterator_record mg_valid "merges z specs"
proof
  fix m rs assume m: "merges z specs m rs"
  then obtain rss where r: "set (mg_heap m) = {i. i < length rss \<and> rss ! i \<noteq> []}" "mg_valid m = (mg_heap m \<noteq> [])" "mset rs = mset (concat rss)"
    unfolding merges_def by blast
  have "rs = [] \<longleftrightarrow> concat rss = []" using r(3) by (metis mset_zero_iff)
  also have "\<dots> \<longleftrightarrow> mg_heap m = []" using r(1) 
    by (simp add: concat_eq_Nil_conv all_set_conv_all_nth set_empty [symmetric] del: set_empty)
  finally show "mg_valid m \<longleftrightarrow> rs \<noteq> []" using r(2) by simp
next
  fix m r rs assume "merges z specs m (r # rs)"
  then show "MergeIterator_record m = r"
  proof (cases rule: merges_top)
    case (1 rss i t)
    have "reads_source z (specs ! i) (mg_inputs m ! i) (rss ! i)" using 1(1,7) by blast
    from reads_source_facts(2) [OF this 1(2)] show ?thesis using 1(3) by (simp add: MergeIterator_record_def)
  qed
next
  fix m r rs ar assume a: "merges z specs m (r # rs)" and ar: "arena_ok ar" "never_oom ar"
  from a show "\<exists>m' ar'. MergeIterator_next z (m, ar) = Some (Ok, m', ar') \<and> merges z specs m' rs \<and> extends ar ar' \<and> never_oom ar'"
  proof (cases rule: merges_top)
    case (1 rss i t)
    then obtain it' ar' where it: "SSTableIterator_next z (mg_inputs m ! i, ar) = Some (Ok, it', ar')" "reads_source z (specs ! i) it' t"
      "extends ar ar'" "never_oom ar'"
      using reads_source_facts(4) [of z "specs ! i" "mg_inputs m ! i" "rss ! i" r t ar] ar by blast
    define h where "h = (if it_valid it' then heap_push i (heap_pop (mg_inputs m) (mg_heap m)) else heap_pop (mg_inputs m) (mg_heap m))"
    define m' where "m' = m\<lparr>mg_inputs := (mg_inputs m)[i := it'], mg_heap := h, mg_status := Ok, mg_valid := h \<noteq> []\<rparr>"
    have run: "MergeIterator_next z (m, ar) = Some (Ok, m', ar')"
      using 1(3,10) it(1) by (simp add: MergeIterator_next_def Let_def m'_def h_def)
    have pop: "heap_pop (mg_inputs m) (mg_heap m) = remove1 i (mg_heap m)" using 1(3) by (simp add: heap_pop_def)
    have v: "it_valid it' \<longleftrightarrow> t \<noteq> []" using reads_source_facts(1) [OF it(2)] .
    have "distinct h" "set h = {j. j < length (rss[i := t]) \<and> rss[i := t] ! j \<noteq> []}"
      using 1(1,2,8,9) v by (auto simp: h_def pop heap_push_def nth_list_update set_remove1_eq)
    moreover have "\<forall>j < length (rss[i := t]). reads_source z (specs ! j) (mg_inputs m' ! j) (rss[i := t] ! j)"
      using 1(1,6,7) it(2) by (auto simp: m'_def nth_list_update)
    ultimately have "merges z specs m' rs" unfolding merges_def using 1(4,5,6,12)
      by (intro exI [of _ "rss[i := t]"]) (simp add: m'_def)
    then show ?thesis using run it(3,4) by blast
  qed
qed

section \<open>Building the merge\<close>

text \<open>An iterator over a published table, with the records of that table.\<close>

definition table_source :: "zlib \<Rightarrow> source \<Rightarrow> SSTableIterator \<Rightarrow> InternalRecord list \<Rightarrow> bool" where
  "table_source z sp it rs \<longleftrightarrow> (case sp of (D, off, pss) \<Rightarrow> read_quiet D (it_file it) \<and> off = unat (ff_data_offset (it_footer it)) \<and>
     (\<exists>ds h bp mp. table_bytes z D ds h bp mp (it_footer it) \<and> pss = map db_payloads (data_blocks ds) \<and> rs = section_records ds))"

lemma load_next_block_footer: "load_next_block z (it, ar) = Some (c, it', ar') \<Longrightarrow> it_footer it' = it_footer it"
  by (auto simp: load_next_block_def Let_def split: if_splits option.splits sum.splits prod.splits)

lemma seek_footer: "SSTableIterator_seek_to_first z (it, ar) = Some (c, it', ar') \<Longrightarrow> it_footer it' = it_footer it"
  by (auto simp: SSTableIterator_seek_to_first_def set_status_def dest!: load_next_block_footer)

lemma seek_source:
  assumes "crc_incremental z" "table_source z sp it rs" "arena_ok ar" "never_oom ar"
  shows "\<exists>it' ar'. SSTableIterator_seek_to_first z (it, ar) = Some (Ok, it', ar') \<and> reads_source z sp it' rs \<and>
    table_source z sp it' rs \<and> extends ar ar' \<and> never_oom ar'"
proof -
  obtain D ds h bp mp where sp: "sp = (D, unat (ff_data_offset (it_footer it)), map db_payloads (data_blocks ds))" "read_quiet D (it_file it)"
    "table_bytes z D ds h bp mp (it_footer it)" "rs = section_records ds" using assms(2) by (auto simp: table_source_def)
  obtain it' ar' where it': "SSTableIterator_seek_to_first z (it, ar) = Some (Ok, it', ar')"
    "iterates z D (unat (ff_data_offset (it_footer it))) (map db_payloads (data_blocks ds)) it' (section_records ds)" "extends ar ar'" "never_oom ar'"
    using seek_iterates [OF assms(1) sp(3,2) assms(3,4)] by blast
  have "sorted_records (section_records ds)" using table_bytesD(1) [OF sp(3)] by (rule section_ok_sorted)
  moreover have "read_quiet D (it_file it')" using it'(2) by (simp add: iterates_def)
  ultimately show ?thesis using it' sp seek_footer [OF it'(1)] by (auto simp: reads_source_def table_source_def)
qed

lemma upt_filter_Suc: "filter P [0..<Suc n] = (if P 0 then [0] else []) @ map Suc (filter (\<lambda>i. P (Suc i)) [0..<n])"
  by (simp add: upt_conv_Cons map_Suc_upt [symmetric] filter_map comp_def del: upt_Suc)

lemma seek_inputs_sources:
  assumes "crc_incremental z" "length specs = length its" "length rss = length its" "\<forall>i < length its. table_source z (specs ! i) (its ! i) (rss ! i)"
    "arena_ok ar" "never_oom ar"
  shows "\<exists>its' ar'. seek_inputs z k heap its ar = Some (Ok, its', heap @ map ((+) k) (filter (\<lambda>i. rss ! i \<noteq> []) [0..<length its]), ar') \<and>
    length its' = length its \<and> (\<forall>i < length its. reads_source z (specs ! i) (its' ! i) (rss ! i)) \<and> extends ar ar' \<and> never_oom ar'"
  using assms(2-6)
proof (induction its arbitrary: specs rss k heap ar)
  case Nil
  then show ?case by (simp add: extends_refl)
next
  case (Cons it its)
  obtain sp specs' rs rss' where c: "specs = sp # specs'" "rss = rs # rss'" using Cons.prems(1,2) by (cases specs; cases rss) auto
  have "table_source z sp it rs" using Cons.prems(3) c by fastforce
  from seek_source [OF assms(1) this Cons.prems(4,5)] obtain it' ar1 where it': "SSTableIterator_seek_to_first z (it, ar) = Some (Ok, it', ar1)"
    "reads_source z sp it' rs" "extends ar ar1" "never_oom ar1" by blast
  have v: "it_valid it' \<longleftrightarrow> rs \<noteq> []" using reads_source_facts(1) [OF it'(2)] .
  define heap1 where "heap1 = (if it_valid it' then heap_push k heap else heap)"
  have "\<forall>i < length its. table_source z (specs' ! i) (its ! i) (rss' ! i)" using Cons.prems(3) c by fastforce
  moreover have "arena_ok ar1" using it'(3) by (simp add: extends_def)
  ultimately obtain its' ar' where r: "seek_inputs z (k + 1) heap1 its ar1 =
      Some (Ok, its', heap1 @ map ((+) (k + 1)) (filter (\<lambda>i. rss' ! i \<noteq> []) [0..<length its]), ar')"
    "length its' = length its" "\<forall>i < length its. reads_source z (specs' ! i) (its' ! i) (rss' ! i)" "extends ar1 ar'" "never_oom ar'"
    using Cons.IH [of specs' rss' ar1 "k + 1" heap1] Cons.prems(1,2) c it'(4) by auto
  have "heap1 @ map ((+) (k + 1)) (filter (\<lambda>i. rss' ! i \<noteq> []) [0..<length its]) =
      heap @ map ((+) k) (filter (\<lambda>i. rss ! i \<noteq> []) [0..<length (it # its)])"
    by (simp add: heap1_def v heap_push_def upt_filter_Suc c comp_def del: upt_Suc)
  then have "seek_inputs z k heap (it # its) ar =
      Some (Ok, it' # its', heap @ map ((+) k) (filter (\<lambda>i. rss ! i \<noteq> []) [0..<length (it # its)]), ar')"
    using it'(1) r(1) by (simp add: heap1_def [symmetric] del: upt_Suc)
  moreover have "reads_source z (specs ! i) ((it' # its') ! i) (rss ! i)" if "i < length (it # its)" for i
    using that it'(2) r(3) c by (cases i) simp_all
  ultimately show ?case using r(2,5) extends_trans [OF it'(3) r(4)] by (intro exI [of _ "it' # its'"] exI [of _ ar']) simp
qed

text \<open>The sorted union of the inputs.\<close>

abbreviation merged :: "InternalRecord list list \<Rightarrow> InternalRecord list" where
  "merged rss \<equiv> sort_key ikey (concat rss)"

lemma sorted_records_map: "sorted_records rs \<longleftrightarrow> sorted_wrt (<) (map ikey rs)"
  by (simp add: sorted_wrt_map)

lemma merged_sorted: "distinct (map ikey (concat rss)) \<Longrightarrow> sorted_records (merged rss)"
proof -
  assume d: "distinct (map ikey (concat rss))"
  have "mset (map ikey (merged rss)) = mset (map ikey (concat rss))" by simp
  then have "distinct (map ikey (merged rss))" using d by (metis mset_eq_imp_distinct_iff)
  then show ?thesis unfolding sorted_records_map strict_sorted_iff by simp
qed

lemma plus_0_id: "((+) (0 :: nat)) = id"
  by auto

lemma MergeIterator_build_merges:
  assumes "crc_incremental z" "length specs = length its" "length rss = length its" "\<forall>i < length its. table_source z (specs ! i) (its ! i) (rss ! i)"
    "arena_ok ar" "never_oom ar" "distinct (map ikey (concat rss))"
  shows "\<exists>m' ar'. MergeIterator_build z its (m, ar) = Some (Ok, m', ar') \<and> merges z specs m' (merged rss) \<and> extends ar ar' \<and> never_oom ar'"
proof -
  obtain its' ar' where r: "seek_inputs z 0 [] its ar = Some (Ok, its', filter (\<lambda>i. rss ! i \<noteq> []) [0..<length its], ar')"
    "length its' = length its" "\<forall>i < length its. reads_source z (specs ! i) (its' ! i) (rss ! i)" "extends ar ar'" "never_oom ar'"
    using seek_inputs_sources [OF assms(1-6), of 0 "[]"] by (auto simp: plus_0_id)
  show ?thesis using r assms(2,3) merged_sorted [OF assms(7)]
    by (auto simp: MergeIterator_build_def merges_def intro!: exI [of _ rss])
qed

end
