(* ===== verification/BST.thy ===== *)
theory BST
  imports Records
begin

text \<open>
  What the three search trees (\<^verbatim>\<open>src/data_structures\<close>: red-black tree, treap, splay tree)
  share. A node carries an extra field (colour, priority, nothing). A pointer to a node is a
  location: the subtree at that node and the path of frames up to the root, the head of the path
  being the parent. Left, right and parent pointers of a well-linked tree determine each other, so
  the \<open>parent\<close> fields and the check \<open>expect_parent_links_valid\<close> have no counterpart here.
\<close>

section \<open>Trees and locations\<close>

datatype 'x bst = Leaf | Node "'x bst" 'x InternalRecord "'x bst"

datatype 'x frame = InLeft 'x InternalRecord "'x bst" | InRight "'x bst" 'x InternalRecord

fun plug :: "'x frame \<Rightarrow> 'x bst \<Rightarrow> 'x bst" where
  "plug (InLeft x r t) s = Node s x r t"
| "plug (InRight t x r) s = Node t x r s"

fun zip_up :: "'x bst \<Rightarrow> 'x frame list \<Rightarrow> 'x bst" where
  "zip_up t [] = t"
| "zip_up t (p # ps) = zip_up (plug p t) ps"

text \<open>The rotations at the node a location points to; without the child they do nothing.\<close>

fun left_rotate :: "'x bst \<Rightarrow> 'x bst" where
  "left_rotate (Node a x r (Node b y s c)) = Node (Node a x r b) y s c"
| "left_rotate t = t"

fun right_rotate :: "'x bst \<Rightarrow> 'x bst" where
  "right_rotate (Node (Node a y s b) x r c) = Node a y s (Node b x r c)"
| "right_rotate t = t"

section \<open>Shared operations\<close>

text \<open>The descent of \<open>bst_insert\<close>: the path to the free place, or \<open>None\<close> for a duplicate.\<close>

fun descend :: "InternalRecord \<Rightarrow> 'x bst \<Rightarrow> 'x frame list \<Rightarrow> 'x frame list option" where
  "descend v Leaf path = Some path"
| "descend v (Node l x c r) path =
     (if \<not> node_less v c \<and> \<not> node_less c v then None
      else if node_less v c then descend v l (InLeft x c r # path)
      else descend v r (InRight l x c # path))"

fun find_loop :: "ArenaEntry \<Rightarrow> 'x bst \<Rightarrow> InternalRecord option \<Rightarrow> InternalRecord option" where
  "find_loop key Leaf result = result"
| "find_loop key (Node l x c r) result =
     (if entry_less (key_entry c) key then find_loop key r result
      else find_loop key l (if entry_eq (key_entry c) key then Some c else result))"

definition tree_find_latest_by_key :: "ArenaEntry \<Rightarrow> 'x bst \<Rightarrow> InternalRecord option" where
  "tree_find_latest_by_key key t = find_loop key t None"

text \<open>The stack of the in-order iterator holds the nodes still to be visited, with their right
  subtrees.\<close>

type_synonym 'x istack = "(InternalRecord \<times> 'x bst) list"

fun push_left :: "'x bst \<Rightarrow> 'x istack \<Rightarrow> 'x istack" where
  "push_left Leaf st = st"
| "push_left (Node l x c r) st = push_left l ((c, r) # st)"

definition iter_next :: "'x istack \<Rightarrow> (InternalRecord \<times> 'x istack) option" where
  "iter_next st = (case st of [] \<Rightarrow> None | (c, r) # st' \<Rightarrow> Some (c, push_left r st'))"

fun bst_size :: "'x bst \<Rightarrow> nat" where
  "bst_size Leaf = 0"
| "bst_size (Node l x c r) = bst_size l + bst_size r + 1"

definition stack_size :: "'x istack \<Rightarrow> nat" where
  "stack_size st = sum_list (map (\<lambda>(c, r). bst_size r + 1) st)"

lemma stack_size_Cons [simp]: "stack_size ((c, r) # st) = bst_size r + 1 + stack_size st"
  by (simp add: stack_size_def)

lemma stack_size_push [simp]: "stack_size (push_left t st) = bst_size t + stack_size st"
  by (induction t st rule: push_left.induct) simp_all

lemma iter_next_smaller: "iter_next st = Some (c, st') \<Longrightarrow> stack_size st' < stack_size st"
  by (auto simp: iter_next_def split: list.splits)

function dump_loop :: "'x istack \<Rightarrow> InternalRecord list \<Rightarrow> InternalRecord list" where
  "dump_loop st out =
     (case iter_next st of None \<Rightarrow> out | Some (c, st') \<Rightarrow> dump_loop st' (out @ [c]))"
  by pat_completeness auto
termination
  by (relation "measure (\<lambda>(st, out). stack_size st)")
    (auto dest!: iter_next_smaller [OF sym] iter_next_smaller)

declare dump_loop.simps [simp del]

definition tree_dump_inorder :: "'x bst \<Rightarrow> InternalRecord list" where
  "tree_dump_inorder t = dump_loop (push_left t []) []"

function ordering_loop :: "'x istack \<Rightarrow> InternalRecord option \<Rightarrow> bool" where
  "ordering_loop st prev =
     (case iter_next st of
        None \<Rightarrow> True
      | Some (c, st') \<Rightarrow>
          if (case prev of None \<Rightarrow> False | Some p \<Rightarrow> \<not> node_less p c) then False
          else ordering_loop st' (Some c))"
  by pat_completeness auto
termination
  by (relation "measure (\<lambda>(st, prev). stack_size st)")
    (auto dest!: iter_next_smaller [OF sym] iter_next_smaller)

declare ordering_loop.simps [simp del]

definition bst_ordering_correct :: "'x bst \<Rightarrow> bool" where
  "bst_ordering_correct t = ordering_loop (push_left t []) None"

definition tree_empty :: "'x bst \<Rightarrow> bool" where
  "tree_empty t \<longleftrightarrow> t = Leaf"

text \<open>\<open>node_size\<close> is \<open>sizeof(Node)\<close>, which depends on the platform.\<close>

fun approximate_subtree_memory_usage :: "nat \<Rightarrow> 'x bst \<Rightarrow> nat" where
  "approximate_subtree_memory_usage node_size Leaf = 0"
| "approximate_subtree_memory_usage node_size (Node l x c r) =
     approximate_subtree_memory_usage node_size l + approximate_subtree_memory_usage node_size r +
     (node_size + length (key_entry c) + length (value_entry c))"

section \<open>The records of a tree\<close>

fun inorder :: "'x bst \<Rightarrow> InternalRecord list" where
  "inorder Leaf = []"
| "inorder (Node l x c r) = inorder l @ c # inorder r"

fun left_ctx :: "'x frame list \<Rightarrow> InternalRecord list" where
  "left_ctx [] = []"
| "left_ctx (InLeft x c t # ps) = left_ctx ps"
| "left_ctx (InRight t x c # ps) = left_ctx ps @ inorder t @ [c]"

fun right_ctx :: "'x frame list \<Rightarrow> InternalRecord list" where
  "right_ctx [] = []"
| "right_ctx (InLeft x c t # ps) = c # inorder t @ right_ctx ps"
| "right_ctx (InRight t x c # ps) = right_ctx ps"

lemma inorder_zip: "inorder (zip_up t ps) = left_ctx ps @ inorder t @ right_ctx ps"
proof (induction t ps rule: zip_up.induct)
  case (2 t p ps)
  then show ?case by (cases p) simp_all
qed simp

lemma inorder_rotate [simp]:
  "inorder (left_rotate t) = inorder t" "inorder (right_rotate t) = inorder t"
  by (cases t rule: left_rotate.cases; simp) (cases t rule: right_rotate.cases; simp)

text \<open>The iterator visits the records in order.\<close>

definition stack_records :: "'x istack \<Rightarrow> InternalRecord list" where
  "stack_records st = concat (map (\<lambda>(c, r). c # inorder r) st)"

lemma stack_records_simps [simp]:
  "stack_records [] = []" "stack_records ((c, r) # st) = c # inorder r @ stack_records st"
  by (simp_all add: stack_records_def)

lemma stack_records_push [simp]: "stack_records (push_left t st) = inorder t @ stack_records st"
  by (induction t st rule: push_left.induct) simp_all

lemma iter_next_records:
  "iter_next st = (case stack_records st of [] \<Rightarrow> None | c # cs \<Rightarrow> Some (c, push_left (snd (hd st)) (tl st)))"
  by (auto simp: iter_next_def split: list.splits)

lemma iter_next_Some:
  "iter_next st = Some (c, st') \<Longrightarrow> stack_records st = c # stack_records st'"
  by (auto simp: iter_next_def split: list.splits)

lemma iter_next_None: "iter_next st = None \<longleftrightarrow> st = []"
  by (auto simp: iter_next_def split: list.splits)

lemma dump_loop_records: "dump_loop st out = out @ stack_records st"
proof (induction st out rule: dump_loop.induct)
  case (1 st out)
  then show ?case
    by (subst dump_loop.simps) (auto simp: iter_next_None iter_next_Some split: option.splits)
qed

lemma tree_dump_inorder_eq [simp]: "tree_dump_inorder t = inorder t"
  by (simp add: tree_dump_inorder_def dump_loop_records)

lemma ordering_loop_iff:
  "ordering_loop st prev \<longleftrightarrow>
    sorted_records (stack_records st) \<and>
    (case prev of None \<Rightarrow> True | Some p \<Rightarrow> stack_records st = [] \<or> ikey p < ikey (hd (stack_records st)))"
proof (induction st prev rule: ordering_loop.induct)
  case (1 st prev)
  show ?case
  proof (cases "iter_next st")
    case None
    then have "st = []" by (simp add: iter_next_None)
    then show ?thesis by (subst ordering_loop.simps) (simp add: iter_next_def split: option.split)
  next
    case (Some cs)
    obtain c st' where cs: "cs = (c, st')" by (cases cs)
    have recs: "stack_records st = c # stack_records st'" using Some cs by (simp add: iter_next_Some)
    have tail: "sorted_records (c # xs) \<longleftrightarrow> sorted_records xs \<and> (xs = [] \<or> ikey c < ikey (hd xs))" for xs
      by (cases xs) (auto intro: less_trans)
    show ?thesis
      using 1 [OF Some] by (subst ordering_loop.simps) (auto simp: Some cs recs tail split: option.splits simp del: sorted_wrt.simps)
  qed
qed

lemma bst_ordering_correct_iff [simp]: "bst_ordering_correct t \<longleftrightarrow> sorted_records (inorder t)"
  by (simp add: bst_ordering_correct_def ordering_loop_iff)

section \<open>Insertion and lookup on ordered trees\<close>

text \<open>The ordered list with one more record: the specification of every driver's insertion.\<close>

fun ins_record :: "InternalRecord \<Rightarrow> InternalRecord list \<Rightarrow> InternalRecord list" where
  "ins_record v [] = [v]"
| "ins_record v (c # cs) = (if ikey v < ikey c then v # c # cs else c # ins_record v cs)"

lemma set_ins_record [simp]: "set (ins_record v xs) = insert v (set xs)"
  by (induction xs) auto

lemma sorted_ins_record:
  "sorted_records xs \<Longrightarrow> ikey v \<notin> ikey ` set xs \<Longrightarrow> sorted_records (ins_record v xs)"
  by (induction xs) (auto intro: less_trans)

lemma ins_record_between:
  "\<forall>c\<in>set xs. ikey c < ikey v \<Longrightarrow> \<forall>c\<in>set ys. ikey v < ikey c \<Longrightarrow>
    ins_record v (xs @ ys) = xs @ v # ys"
  by (induction xs) (auto, cases ys, auto)

text \<open>The descent stays in the tree; on an ordered tree it ends between smaller and larger
  records.\<close>

definition path_for :: "InternalRecord \<Rightarrow> 'x frame list \<Rightarrow> bool" where
  "path_for v ps \<longleftrightarrow> (\<forall>c\<in>set (left_ctx ps). ikey c < ikey v) \<and> (\<forall>c\<in>set (right_ctx ps). ikey v < ikey c)"

lemma path_for_Nil [simp]: "path_for v []"
  by (simp add: path_for_def)

lemma descend_zip: "descend v t path = Some ps \<Longrightarrow> zip_up Leaf ps = zip_up t path"
  by (induction v t path rule: descend.induct) (auto split: if_splits)

lemma path_for_frame:
  "path_for v (InLeft x c t # ps) \<longleftrightarrow> path_for v ps \<and> ikey v < ikey c \<and> (\<forall>d\<in>set (inorder t). ikey v < ikey d)"
  "path_for v (InRight t x c # ps) \<longleftrightarrow> path_for v ps \<and> ikey c < ikey v \<and> (\<forall>d\<in>set (inorder t). ikey d < ikey v)"
  by (auto simp: path_for_def)

lemma descend_path_for:
  "descend v t path = Some ps \<Longrightarrow> sorted_records (inorder t) \<Longrightarrow> path_for v path \<Longrightarrow> path_for v ps"
proof (induction v t path rule: descend.induct)
  case (2 v l x c r path)
  have "\<forall>d\<in>set (inorder l). ikey d < ikey c" "\<forall>d\<in>set (inorder r). ikey c < ikey d"
    "sorted_records (inorder l)" "sorted_records (inorder r)"
    using 2(4) by (simp_all add: sorted_wrt_append)
  then show ?case
    using 2(1,2,3,5) less_trans [of "ikey v" "ikey c"] less_trans [of _ "ikey c" "ikey v"]
    by (auto simp: path_for_frame split: if_splits)
qed simp

lemma descend_None:
  "descend v t path = None \<Longrightarrow> ikey v \<in> ikey ` set (inorder t)"
proof (induction v t path rule: descend.induct)
  case (2 v l x c r path)
  then show ?case
    by (cases "ikey v" "ikey c" rule: linorder_cases) (auto simp: less_not_sym split: if_splits)
qed simp

lemma descend_iff_new:
  "sorted_records (inorder t) \<Longrightarrow> descend v t [] = None \<longleftrightarrow> ikey v \<in> ikey ` set (inorder t)"
proof (rule iffI)
  assume s: "sorted_records (inorder t)" and i: "ikey v \<in> ikey ` set (inorder t)"
  show "descend v t [] = None"
  proof (rule ccontr)
    assume "descend v t [] \<noteq> None"
    then obtain ps where d: "descend v t [] = Some ps" by auto
    have "inorder t = left_ctx ps @ right_ctx ps"
      using descend_zip [OF d] inorder_zip [of Leaf ps] by simp
    then show False using descend_path_for [OF d s] i by (auto simp: path_for_def)
  qed
qed (rule descend_None)

lemma descend_insert:
  assumes "descend v t [] = Some ps" "sorted_records (inorder t)"
  shows "left_ctx ps @ v # right_ctx ps = ins_record v (inorder t)"
proof -
  have "inorder t = left_ctx ps @ right_ctx ps"
    using descend_zip [OF assms(1)] inorder_zip [of Leaf ps] by simp
  then show ?thesis
    using descend_path_for [OF assms] by (simp add: path_for_def ins_record_between)
qed

lemma newest_of_skip: "\<forall>c\<in>set xs. key_entry c \<noteq> k \<Longrightarrow> newest_of k (xs @ ys) = newest_of k ys"
  by (induction xs) auto

lemma find_loop_newest:
  "sorted_records (inorder t) \<Longrightarrow>
    find_loop k t res = (case newest_of k (inorder t) of None \<Rightarrow> res | Some r \<Rightarrow> Some r)"
proof (induction t arbitrary: res)
  case (Node l x c r)
  have s: "sorted_records (inorder l)" "sorted_records (inorder r)"
    and below: "\<forall>d\<in>set (inorder l). ikey d < ikey c" and above: "\<forall>d\<in>set (inorder r). ikey c < ikey d"
    using Node.prems by (simp_all add: sorted_wrt_append)
  have "key_entry c < k \<Longrightarrow> \<forall>d\<in>set (inorder l @ [c]). key_entry d \<noteq> k"
    using below by (auto simp: ikey_def)
  moreover have "k < key_entry c \<Longrightarrow> newest_of k (c # inorder r) = None"
    using above by (auto simp: ikey_def newest_of_None_iff)
  ultimately show ?case
    using Node.IH(1) [OF s(1)] Node.IH(2) [OF s(2)] newest_of_skip [of "inorder l @ [c]" k "inorder r"]
    by (cases "key_entry c" k rule: linorder_cases)
      (auto simp: newest_of_append split: option.splits if_splits)
qed simp

lemma tree_find_newest:
  "sorted_records (inorder t) \<Longrightarrow> tree_find_latest_by_key k t = newest_of k (inorder t)"
  by (simp add: tree_find_latest_by_key_def find_loop_newest split: option.split)

lemma tree_empty_iff [simp]: "tree_empty t \<longleftrightarrow> inorder t = []"
  by (cases t) (simp_all add: tree_empty_def)

lemma approximate_subtree_memory_usage_eq:
  "approximate_subtree_memory_usage n t =
    sum_list (map (\<lambda>c. n + length (key_entry c) + length (value_entry c)) (inorder t))"
  by (induction t) auto

end
