(* ===== verification/DriverSpec.thy ===== *)
theory DriverSpec
  imports BST
begin

text \<open>
  The interface \<^verbatim>\<open>Driver\<close> (\<^verbatim>\<open>core/engine/driver.h\<close>) of the ordered containers a
  MemTable can use, as a record of operations, and the contract its users rely on, as a locale.
  An insertion asks the heap and a random generator; \<open>chance\<close> holds the answers. The locale is
  interpreted on every container, in the theory that models it.
\<close>

record chance =
  node_oom :: bool
  update_oom :: bool
  random_priority :: u64
  promotions :: "bool list"

definition served :: "chance \<Rightarrow> bool" where
  "served ch \<longleftrightarrow> \<not> node_oom ch \<and> \<not> update_oom ch"

text \<open>\<open>d_find\<close> is the overload for a constant driver, \<open>d_find_mut\<close> the other one, which may
  restructure the container; \<open>d_dump\<close> appends to its argument.\<close>

record 'd Driver =
  d_new :: 'd
  d_insert :: "chance \<Rightarrow> InternalRecord \<Rightarrow> 'd \<Rightarrow> StatusCode \<times> 'd"
  d_find_mut :: "ArenaEntry \<Rightarrow> 'd \<Rightarrow> InternalRecord option result \<times> 'd"
  d_find :: "ArenaEntry \<Rightarrow> 'd \<Rightarrow> InternalRecord option result"
  d_validate :: "'d \<Rightarrow> bool"
  d_memory :: "'d \<Rightarrow> nat"
  d_empty :: "'d \<Rightarrow> bool"
  d_dump :: "'d \<Rightarrow> InternalRecord list \<Rightarrow> InternalRecord list"

locale ordered_driver =
  fixes D :: "'d Driver"
    and recs :: "'d \<Rightarrow> InternalRecord list"
    and inv :: "'d \<Rightarrow> bool"
  assumes new_inv: "inv (d_new D)"
    and new_recs: "recs (d_new D) = []"
    and recs_sorted: "inv d \<Longrightarrow> sorted_records (recs d)"
    and insert_ok: "inv d \<Longrightarrow> d_insert D ch r d = (Ok, d') \<Longrightarrow>
      inv d' \<and> recs d' = ins_record r (recs d)"
    and insert_fails: "inv d \<Longrightarrow> d_insert D ch r d = (c, d') \<Longrightarrow> c \<noteq> Ok \<Longrightarrow>
      d' = d \<and> c \<in> {Duplicate, OutOfMemory, BadAlloc}"
    and insert_duplicate: "inv d \<Longrightarrow> served ch \<Longrightarrow>
      fst (d_insert D ch r d) = (if ikey r \<in> ikey ` set (recs d) then Duplicate else Ok)"
    and insert_duplicate_never_ok: "inv d \<Longrightarrow> ikey r \<in> ikey ` set (recs d) \<Longrightarrow>
      fst (d_insert D ch r d) \<noteq> Ok"
    and find_newest: "inv d \<Longrightarrow> d_find D k d = Inr (newest_of k (recs d))"
    and find_mut_newest: "inv d \<Longrightarrow> fst (d_find_mut D k d) = Inr (newest_of k (recs d))"
    and find_mut_keeps: "inv d \<Longrightarrow>
      inv (snd (d_find_mut D k d)) \<and> recs (snd (d_find_mut D k d)) = recs d"
    and empty_iff: "inv d \<Longrightarrow> d_empty D d \<longleftrightarrow> recs d = []"
    and dump_recs: "inv d \<Longrightarrow> d_dump D d out = out @ recs d"

lemma newest_of_ins_record:
  assumes "sorted_records xs" "ikey r \<notin> ikey ` set xs"
  shows "newest_of k (ins_record r xs) =
    (if key_entry r = k \<and> (case newest_of k xs of None \<Rightarrow> True | Some r' \<Rightarrow> seq_num r' < seq_num r)
     then Some r else newest_of k xs)"
  using assms
proof (induction xs)
  case (Cons x xs)
  have above: "ikey r < ikey x \<Longrightarrow> y \<in> set xs \<Longrightarrow> ikey r < ikey y" for y
    using Cons.prems(1) less_trans by fastforce
  have neq: "\<not> (ikey r < ikey x) \<Longrightarrow> ikey x < ikey r" using Cons.prems(2) by auto
  show ?case
    using Cons.IH Cons.prems above neq
    by (auto simp: ikey_def word_less_def dest!: newest_of_SomeD split: option.splits if_splits)
qed simp

section \<open>Search trees as drivers\<close>

text \<open>The trees insert the same way: descend, link the node, then \<open>repair\<close> the tree around it.
  What differs is the repair and the balance invariant it keeps.\<close>

locale bst_driver =
  fixes D :: "'x bst Driver"
    and repair :: "chance \<Rightarrow> InternalRecord \<Rightarrow> 'x frame list \<Rightarrow> 'x bst"
    and inv :: "'x bst \<Rightarrow> bool"
  assumes new_leaf: "d_new D = Leaf" and leaf_inv: "inv Leaf"
    and inv_sorted: "inv t \<Longrightarrow> sorted_records (inorder t)"
    and insert_shape: "d_insert D ch r t =
      (if node_oom ch then (OutOfMemory, t)
       else case descend r t [] of None \<Rightarrow> (Duplicate, t) | Some path \<Rightarrow> (Ok, repair ch r path))"
    and repair_inorder: "inorder (repair ch r path) = left_ctx path @ r # right_ctx path"
    and repair_inv: "inv t \<Longrightarrow> descend r t [] = Some path \<Longrightarrow> inv (repair ch r path)"
    and find_tree: "d_find D k t = Inr (tree_find_latest_by_key k t)"
    and find_mut_tree: "fst (d_find_mut D k t) = Inr (tree_find_latest_by_key k t)"
    and find_mut_inv: "inv t \<Longrightarrow> inv (snd (d_find_mut D k t))"
    and find_mut_inorder: "inorder (snd (d_find_mut D k t)) = inorder t"
    and empty_tree: "d_empty D t = tree_empty t"
    and dump_tree: "d_dump D t out = out @ tree_dump_inorder t"
begin

lemma insert_okD:
  assumes "inv t" "d_insert D ch r t = (Ok, t')"
  shows "inv t' \<and> inorder t' = ins_record r (inorder t)"
  using assms(2) repair_inv [OF assms(1), of r] descend_insert [OF _ inv_sorted [OF assms(1)], of r]
  by (auto simp: insert_shape repair_inorder split: if_splits option.splits)

lemma insert_failsD:
  "d_insert D ch r t = (c, t') \<Longrightarrow> c \<noteq> Ok \<Longrightarrow> t' = t \<and> c \<in> {Duplicate, OutOfMemory, BadAlloc}"
  by (auto simp: insert_shape split: if_splits option.splits)

end

sublocale bst_driver \<subseteq> ordered_driver D inorder inv
proof
  show "inv (d_new D)" "inorder (d_new D) = []" by (simp_all add: new_leaf leaf_inv)
  show "inv t \<Longrightarrow> sorted_records (inorder t)" for t by (rule inv_sorted)
  show "inv t \<Longrightarrow> d_insert D ch r t = (Ok, t') \<Longrightarrow>
      inv t' \<and> inorder t' = ins_record r (inorder t)" for t ch r t' by (rule insert_okD)
  show "inv t \<Longrightarrow> d_insert D ch r t = (c, t') \<Longrightarrow> c \<noteq> Ok \<Longrightarrow>
      t' = t \<and> c \<in> {Duplicate, OutOfMemory, BadAlloc}" for t ch r c t' by (rule insert_failsD)
  show "inv t \<Longrightarrow> served ch \<Longrightarrow>
      fst (d_insert D ch r t) = (if ikey r \<in> ikey ` set (inorder t) then Duplicate else Ok)" for t ch r
    using descend_iff_new [OF inv_sorted, of t r]
    by (auto simp: insert_shape served_def split: option.splits)
  show "inv t \<Longrightarrow> ikey r \<in> ikey ` set (inorder t) \<Longrightarrow> fst (d_insert D ch r t) \<noteq> Ok" for t r ch
    using descend_iff_new [OF inv_sorted, of t r] by (simp add: insert_shape)
  show "inv t \<Longrightarrow> d_find D k t = Inr (newest_of k (inorder t))" for t k
    by (simp add: find_tree tree_find_newest inv_sorted)
  show "inv t \<Longrightarrow> fst (d_find_mut D k t) = Inr (newest_of k (inorder t))" for t k
    by (simp add: find_mut_tree tree_find_newest inv_sorted)
  show "inv t \<Longrightarrow> inv (snd (d_find_mut D k t)) \<and> inorder (snd (d_find_mut D k t)) = inorder t" for t k
    by (simp add: find_mut_inv find_mut_inorder)
  show "inv t \<Longrightarrow> d_empty D t \<longleftrightarrow> inorder t = []" for t by (simp add: empty_tree)
  show "inv t \<Longrightarrow> d_dump D t out = out @ inorder t" for t out by (simp add: dump_tree)
qed

end
