(* ===== verification/RBTree.thy ===== *)
theory RBTree
  imports DriverSpec
begin

text \<open>
  The red-black tree (\<^verbatim>\<open>data_structures/red_black_tree.cpp\<close>). \<open>balance\<close> follows the
  loop of the source on locations: the node \<open>v\<close> and the path above it. Its validators are
  translated as they are and serve as the invariant: every insertion keeps \<open>validate\<close> true.
\<close>

section \<open>The tree\<close>

datatype Color = Red | Black

type_synonym rbt = "Color bst"
type_synonym rbframe = "Color frame"

fun root_color :: "rbt \<Rightarrow> Color" where
  "root_color Leaf = Black"
| "root_color (Node l x c r) = x"

fun paint :: "Color \<Rightarrow> rbt \<Rightarrow> rbt" where
  "paint k Leaf = Leaf"
| "paint k (Node l x c r) = Node l k c r"

fun frame_color :: "rbframe \<Rightarrow> Color" where
  "frame_color (InLeft x c t) = x"
| "frame_color (InRight t x c) = x"

fun paint_frame :: "Color \<Rightarrow> rbframe \<Rightarrow> rbframe" where
  "paint_frame k (InLeft x c t) = InLeft k c t"
| "paint_frame k (InRight t x c) = InRight t k c"

text \<open>The location of a child.\<close>

fun go_left :: "rbt \<Rightarrow> (rbt \<times> rbframe) option" where
  "go_left Leaf = None"
| "go_left (Node l x c r) = Some (l, InLeft x c r)"

fun go_right :: "rbt \<Rightarrow> (rbt \<times> rbframe) option" where
  "go_right Leaf = None"
| "go_right (Node l x c r) = Some (r, InRight l x c)"

text \<open>The rotation of an inner grandchild to the outside, which makes \<open>v\<close> the former parent.\<close>

fun straighten_left :: "rbt \<Rightarrow> rbframe \<Rightarrow> (rbt \<times> rbframe) option" where
  "straighten_left v (InRight t x c) = go_left (left_rotate (Node t x c v))"
| "straighten_left v p = Some (v, p)"

fun straighten_right :: "rbt \<Rightarrow> rbframe \<Rightarrow> (rbt \<times> rbframe) option" where
  "straighten_right v (InLeft x c t) = go_right (right_rotate (Node v x c t))"
| "straighten_right v p = Some (v, p)"

section \<open>Insertion\<close>

text \<open>One round of the loop of \<open>balance\<close> at \<open>v\<close> with parent \<open>p\<close> and grandparent \<open>g\<close>: the new
  \<open>v\<close> and the frames that replace \<open>p\<close> and \<open>g\<close>.\<close>

definition balance_step :: "rbt \<Rightarrow> rbframe \<Rightarrow> rbframe \<Rightarrow> (rbt \<times> rbframe list) option" where
  "balance_step v p g = (case g of
     InLeft x c uncle \<Rightarrow>
       if root_color uncle = Red then
         Some (Node (plug (paint_frame Black p) v) Red c (paint Black uncle), [])
       else (case straighten_left v p of
           None \<Rightarrow> None
         | Some (v1, p1) \<Rightarrow>
             map_option (\<lambda>(v2, q). (v2, [q]))
               (go_left (right_rotate (Node (plug (paint_frame Black p1) v1) Red c uncle))))
   | InRight uncle x c \<Rightarrow>
       if root_color uncle = Red then
         Some (Node (paint Black uncle) Red c (plug (paint_frame Black p) v), [])
       else (case straighten_right v p of
           None \<Rightarrow> None
         | Some (v1, p1) \<Rightarrow>
             map_option (\<lambda>(v2, q). (v2, [q]))
               (go_right (left_rotate (Node uncle Red c (plug (paint_frame Black p1) v1))))))"

lemma balance_step_shorter: "balance_step v p g = Some (v', qs) \<Longrightarrow> length qs < 2"
  by (auto simp: balance_step_def split: frame.splits if_splits option.splits)

function balance_loop :: "rbt \<Rightarrow> rbframe list \<Rightarrow> rbt" where
  "balance_loop v path = (case path of
     p # g # gs \<Rightarrow>
       if frame_color p = Red then
         (case balance_step v p g of
            None \<Rightarrow> zip_up v path
          | Some (v', qs) \<Rightarrow> balance_loop v' (qs @ gs))
       else zip_up v path
   | _ \<Rightarrow> zip_up v path)"
  by pat_completeness auto
termination
  by (relation "measure (\<lambda>(v, path). length path)")
    (auto dest!: balance_step_shorter [OF sym] balance_step_shorter)

declare balance_loop.simps [simp del]

definition balance :: "rbt \<Rightarrow> rbframe list \<Rightarrow> rbt" where
  "balance v path = paint Black (balance_loop v path)"

text \<open>\<open>oom\<close> is the outcome of allocating the node.\<close>

definition RBTree_insert :: "bool \<Rightarrow> InternalRecord \<Rightarrow> rbt \<Rightarrow> StatusCode \<times> rbt" where
  "RBTree_insert oom entry t =
     (if oom then (OutOfMemory, t)
      else case descend entry t [] of
        None \<Rightarrow> (Duplicate, t)
      | Some path \<Rightarrow> (Ok, balance (Node Leaf Red entry Leaf) path))"

definition RBTree_find_latest_by_key :: "ArenaEntry \<Rightarrow> rbt \<Rightarrow> InternalRecord option result" where
  "RBTree_find_latest_by_key key t = Inr (tree_find_latest_by_key key t)"

definition RBTree_dump_inorder :: "rbt \<Rightarrow> InternalRecord list \<Rightarrow> InternalRecord list" where
  "RBTree_dump_inorder t out = dump_loop (push_left t []) out"

section \<open>Validators\<close>

fun subtree_has_no_red_node_with_red_child :: "rbt \<Rightarrow> bool" where
  "subtree_has_no_red_node_with_red_child Leaf = True"
| "subtree_has_no_red_node_with_red_child (Node l x c r) =
     (if x = Red \<and> root_color l = Red then False
      else if x = Red \<and> root_color r = Red then False
      else subtree_has_no_red_node_with_red_child l \<and> subtree_has_no_red_node_with_red_child r)"

definition root_is_black :: "rbt \<Rightarrow> bool" where
  "root_is_black t \<longleftrightarrow> t = Leaf \<or> root_color t = Black"

fun subtree_black_height_info :: "rbt \<Rightarrow> bool \<times> int" where
  "subtree_black_height_info Leaf = (True, 1)"
| "subtree_black_height_info (Node l x c r) =
     (let left = subtree_black_height_info l; right = subtree_black_height_info r in
      if \<not> fst left \<or> \<not> fst right then (False, -1)
      else if snd left \<noteq> snd right then (False, -1)
      else (True, snd left + (if x = Black then 1 else 0)))"

definition RBTree_validate :: "rbt \<Rightarrow> bool" where
  "RBTree_validate t \<longleftrightarrow> root_is_black t \<and> subtree_has_no_red_node_with_red_child t \<and>
     bst_ordering_correct t \<and> fst (subtree_black_height_info t)"

section \<open>Insertion keeps the records ordered\<close>

lemma inorder_paint [simp]: "inorder (paint k t) = inorder t"
  by (cases t) simp_all

lemma inorder_plug_paint [simp]:
  "inorder (plug (paint_frame k p) t) = inorder (plug p t)"
  by (cases p) simp_all

lemma go_left_Some [simp]: "go_left t = Some (v, p) \<longleftrightarrow> (\<exists>x c r. t = Node v x c r \<and> p = InLeft x c r)"
  by (cases t) auto

lemma go_right_Some [simp]: "go_right t = Some (v, p) \<longleftrightarrow> (\<exists>l x c. t = Node l x c v \<and> p = InRight l x c)"
  by (cases t) auto

lemma rotate_eqD:
  "left_rotate t = t' \<Longrightarrow> inorder t' = inorder t" "right_rotate t = t' \<Longrightarrow> inorder t' = inorder t"
  by auto

lemma straighten_inorder:
  "straighten_left v p = Some (v1, p1) \<Longrightarrow> inorder (plug p1 v1) = inorder (plug p v)"
  "straighten_right v p = Some (v1, p1) \<Longrightarrow> inorder (plug p1 v1) = inorder (plug p v)"
  by (cases p; auto dest!: rotate_eqD)+

lemma balance_step_inorder:
  assumes "balance_step v p g = Some (v', qs)"
  shows "inorder (zip_up v' qs) = inorder (plug g (plug p v))"
  using assms straighten_inorder [of v p]
  by (cases g) (auto simp: balance_step_def split: if_splits option.splits dest!: rotate_eqD)

lemma zip_up_append: "zip_up t (ps @ qs) = zip_up (zip_up t ps) qs"
  by (induction t ps rule: zip_up.induct) simp_all

lemma inorder_zip_cong: "inorder s = inorder t \<Longrightarrow> inorder (zip_up s ps) = inorder (zip_up t ps)"
  by (simp add: inorder_zip)

lemma balance_loop_inorder: "inorder (balance_loop v path) = inorder (zip_up v path)"
proof (induction v path rule: balance_loop.induct)
  case (1 v path)
  then show ?case
    by (subst balance_loop.simps)
      (auto simp: zip_up_append split: list.split option.split
        intro!: inorder_zip_cong dest: balance_step_inorder)
qed

lemma balance_inorder: "inorder (balance (Node Leaf Red entry Leaf) path) = left_ctx path @ entry # right_ctx path"
  by (simp add: balance_def balance_loop_inorder inorder_zip)

section \<open>Insertion keeps the colours\<close>

abbreviation nrr :: "rbt \<Rightarrow> bool" where
  "nrr \<equiv> subtree_has_no_red_node_with_red_child"

abbreviation bh_ok :: "rbt \<Rightarrow> bool" where
  "bh_ok t \<equiv> fst (subtree_black_height_info t)"

abbreviation bh :: "rbt \<Rightarrow> int" where
  "bh t \<equiv> snd (subtree_black_height_info t)"

fun sibling :: "rbframe \<Rightarrow> rbt" where
  "sibling (InLeft x c t) = t"
| "sibling (InRight t x c) = t"

text \<open>A path around a hole of black height \<open>h\<close>: the siblings have the height, no two reds meet
  on it, and a red frame is not the root.\<close>

fun path_ok :: "int \<Rightarrow> rbframe list \<Rightarrow> bool" where
  "path_ok h [] \<longleftrightarrow> True"
| "path_ok h (p # ps) \<longleftrightarrow>
     nrr (sibling p) \<and> bh_ok (sibling p) \<and> bh (sibling p) = h \<and>
     (frame_color p = Red \<longrightarrow> root_color (sibling p) = Black \<and> (\<exists>g gs. ps = g # gs \<and> frame_color g = Black)) \<and>
     path_ok (h + (if frame_color p = Black then 1 else 0)) ps"

definition sub_ok :: "rbt \<Rightarrow> bool" where
  "sub_ok t \<longleftrightarrow> nrr t \<and> bh_ok t"

lemma zip_up_ok:
  "sub_ok v \<Longrightarrow> path_ok (bh v) path \<Longrightarrow>
   (root_color v = Red \<longrightarrow> (case path of [] \<Rightarrow> True | p # _ \<Rightarrow> frame_color p = Black)) \<Longrightarrow>
   sub_ok (zip_up v path)"
proof (induction v path rule: zip_up.induct)
  case (2 t p ps)
  then show ?case by (cases p) (auto simp: sub_ok_def Let_def split: if_splits list.splits)
qed simp

lemma Color_not [simp]: "x \<noteq> Red \<longleftrightarrow> x = Black" "x \<noteq> Black \<longleftrightarrow> x = Red"
  by (cases x; simp)+

lemma balance_step_ok:
  assumes "balance_step v p g = Some (v', qs)" "frame_color p = Red"
    and "sub_ok v" "root_color v = Red" "path_ok (bh v) (p # g # gs)"
  shows "sub_ok v' \<and> root_color v' = Red \<and> path_ok (bh v') (qs @ gs) \<and>
    (qs = [] \<or> (\<exists>q. qs = [q] \<and> frame_color q = Black))"
proof -
  obtain a d b where v: "v = Node a Red d b" using assms(4) by (cases v) auto
  note simps = v balance_step_def sub_ok_def Let_def
  show ?thesis
  proof (cases g)
    case g: (InLeft x c u)
    show ?thesis using assms
      by (cases p; cases u) (auto simp: simps g split: if_splits)
  next
    case g: (InRight u x c)
    show ?thesis using assms
      by (cases p; cases u) (auto simp: simps g split: if_splits)
  qed
qed

lemma balance_step_returns:
  assumes "root_color v = Red"
  shows "balance_step v p g \<noteq> None"
proof -
  obtain a d b where v: "v = Node a Red d b" using assms by (cases v) auto
  show ?thesis by (cases p; cases g) (auto simp: balance_step_def v)
qed

lemma balance_loop_ok:
  "sub_ok v \<Longrightarrow> root_color v = Red \<Longrightarrow> path_ok (bh v) path \<Longrightarrow> sub_ok (balance_loop v path)"
proof (induction v path rule: balance_loop.induct)
  case (1 v path)
  show ?case
  proof (cases "\<exists>p g gs. path = p # g # gs \<and> frame_color p = Red")
    case True
    then obtain p g gs where path: "path = p # g # gs" and red: "frame_color p = Red" by blast
    obtain v' qs where step: "balance_step v p g = Some (v', qs)"
      using balance_step_returns [OF 1(3)] by fastforce
    have "sub_ok (balance_loop v' (qs @ gs))"
      using 1(1) [OF path refl red step refl] balance_step_ok [OF step red 1(2,3)] 1(4) path
      by blast
    then show ?thesis by (subst balance_loop.simps) (simp add: path red step)
  next
    case False
    then have "balance_loop v path = zip_up v path"
      by (subst balance_loop.simps) (auto split: list.splits)
    moreover have "sub_ok (zip_up v path)"
      using False 1(4) by (intro zip_up_ok 1(2,4)) (auto split: list.split)
    ultimately show ?thesis by simp
  qed
qed

lemma paint_black_ok: "sub_ok t \<Longrightarrow> sub_ok (paint Black t) \<and> root_is_black (paint Black t)"
  by (cases t) (auto simp: sub_ok_def root_is_black_def Let_def split: if_splits)

text \<open>The path of the descent through a valid tree is a valid path.\<close>

lemma descend_path_ok:
  "descend v t path = Some ps \<Longrightarrow> sub_ok t \<Longrightarrow> path_ok (bh t) path \<Longrightarrow>
   (root_color t = Red \<longrightarrow> (\<exists>p ps. path = p # ps \<and> frame_color p = Black)) \<Longrightarrow> path_ok 1 ps"
proof (induction v t path rule: descend.induct)
  case (2 v l x c r path)
  then show ?case by (auto simp: sub_ok_def Let_def split: if_splits)
qed simp

lemma RBTree_validate_iff:
  "RBTree_validate t \<longleftrightarrow> root_is_black t \<and> sub_ok t \<and> sorted_records (inorder t)"
  by (auto simp: RBTree_validate_def sub_ok_def)

lemma RBTree_validate_Leaf: "RBTree_validate Leaf"
  by (simp add: RBTree_validate_iff root_is_black_def sub_ok_def)

lemma RBTree_validate_sorted: "RBTree_validate t \<Longrightarrow> sorted_records (inorder t)"
  by (simp add: RBTree_validate_iff)

lemma balance_validate:
  assumes "RBTree_validate t" "descend entry t [] = Some ps"
  shows "RBTree_validate (balance (Node Leaf Red entry Leaf) ps)"
proof -
  have srt: "sorted_records (inorder t)" and "sub_ok t" "root_color t = Black"
    using assms by (auto simp: RBTree_validate_iff root_is_black_def)
  have "path_ok 1 ps" using descend_path_ok [OF assms(2) \<open>sub_ok t\<close>] \<open>root_color t = Black\<close> by simp
  then have "sub_ok (balance_loop (Node Leaf Red entry Leaf) ps)"
    by (intro balance_loop_ok) (auto simp: sub_ok_def)
  moreover have "sorted_records (left_ctx ps @ entry # right_ctx ps)"
    using descend_iff_new [OF srt, of entry] assms(2) descend_insert [OF assms(2) srt]
    by (simp add: sorted_ins_record [OF srt])
  then have "sorted_records (inorder (balance (Node Leaf Red entry Leaf) ps))"
    by (simp add: balance_inorder)
  ultimately show ?thesis using paint_black_ok by (simp add: RBTree_validate_iff balance_def)
qed

section \<open>The tree as a driver\<close>

definition RBTree_driver :: "nat \<Rightarrow> rbt Driver" where
  "RBTree_driver node_size =
     \<lparr>d_new = Leaf,
      d_insert = (\<lambda>ch r t. RBTree_insert (node_oom ch) r t),
      d_find_mut = (\<lambda>k t. (RBTree_find_latest_by_key k t, t)),
      d_find = RBTree_find_latest_by_key,
      d_validate = RBTree_validate,
      d_memory = approximate_subtree_memory_usage node_size,
      d_empty = tree_empty,
      d_dump = RBTree_dump_inorder\<rparr>"

interpretation rb: bst_driver "RBTree_driver n" "\<lambda>ch r path. balance (Node Leaf Red r Leaf) path" RBTree_validate
  by unfold_locales
    (auto simp: RBTree_driver_def RBTree_insert_def RBTree_find_latest_by_key_def RBTree_dump_inorder_def
      dump_loop_records balance_inorder RBTree_validate_Leaf RBTree_validate_sorted
      intro: balance_validate split: option.splits)

text \<open>C13 (the red-black tree keeps its invariant and implements the ordered list). An insertion
  into a valid tree leaves a tree that passes its own \<open>validate\<close>: the root is black, no red node
  has a red child, all paths have the same black height and the records are ordered. It fails
  only when the node cannot be allocated or a record with the same key and sequence number is
  there, and then changes nothing; otherwise the records are the old ones with the new one in its
  place.\<close>

theorem rbtree_insert_correct:
  assumes "RBTree_validate t"
  shows "case RBTree_insert oom r t of (c, t') \<Rightarrow>
    RBTree_validate t' \<and>
    c = (if oom then OutOfMemory else if ikey r \<in> ikey ` set (inorder t) then Duplicate else Ok) \<and>
    (if c = Ok then inorder t' = ins_record r (inorder t) else t' = t)"
proof -
  have srt: "sorted_records (inorder t)" using assms by (simp add: RBTree_validate_iff)
  show ?thesis
    using balance_validate [OF assms, of r] descend_iff_new [OF srt, of r] descend_insert [OF _ srt, of r] assms
    by (auto simp: RBTree_insert_def balance_inorder split: option.splits)
qed

section \<open>The tree is balanced\<close>

fun bst_height :: "'x bst \<Rightarrow> nat" where
  "bst_height Leaf = 0"
| "bst_height (Node l x c r) = max (bst_height l) (bst_height r) + 1"

lemma bh_positive: "bh_ok t \<Longrightarrow> 1 \<le> bh t"
  by (induction t) (auto simp: Let_def split: if_splits)

lemma bh_size: "bh_ok t \<Longrightarrow> 2 ^ nat (bh t - 1) \<le> bst_size t + 1"
proof (induction t)
  case (Node l x c r)
  have ok: "bh_ok l" "bh_ok r" "bh l = bh r" using Node.prems by (auto simp: Let_def split: if_splits)
  have "bh (Node l x c r) = bh r + (if x = Black then 1 else 0)" using ok by (simp add: Let_def)
  then have "nat (bh (Node l x c r) - 1) \<le> Suc (nat (bh r - 1))"
    using bh_positive [OF ok(2)] by (auto simp del: subtree_black_height_info.simps)
  then have "(2::nat) ^ nat (bh (Node l x c r) - 1) \<le> 2 ^ Suc (nat (bh r - 1))"
    by (rule power_increasing) simp
  also have "\<dots> \<le> bst_size l + bst_size r + 2"
    using Node.IH(1) [OF ok(1)] Node.IH(2) [OF ok(2)] ok(3) by simp
  finally show ?case by simp
qed simp

lemma bh_height:
  "sub_ok t \<Longrightarrow> int (bst_height t) \<le> 2 * (bh t - 1) + (if root_color t = Red then 1 else 0)"
  by (induction t) (auto simp: sub_ok_def Let_def split: if_splits)

text \<open>C15 (the red-black tree is balanced). A valid tree of \<open>n\<close> records has height at most
  \<open>2 log2 (n + 1)\<close>, so a lookup or an insertion visits at most that many nodes.\<close>

theorem rbtree_height:
  assumes "RBTree_validate t"
  shows "2 ^ ((bst_height t + 1) div 2) \<le> length (inorder t) + 1"
proof -
  have ok: "sub_ok t" "root_color t = Black" using assms by (auto simp: RBTree_validate_iff root_is_black_def)
  have "(bst_height t + 1) div 2 \<le> nat (bh t - 1)" using bh_height [OF ok(1)] ok(2) by simp
  then have "(2::nat) ^ ((bst_height t + 1) div 2) \<le> 2 ^ nat (bh t - 1)" by simp
  also have "\<dots> \<le> bst_size t + 1" using bh_size ok(1) by (simp add: sub_ok_def)
  also have "bst_size t = length (inorder t)" by (induction t) auto
  finally show ?thesis by simp
qed

section \<open>Examples\<close>

definition ex_rec :: "byte \<Rightarrow> u64 \<Rightarrow> InternalRecord" where
  "ex_rec k s = \<lparr>key_entry = [k], value_entry = [k, k], rtype = Put, seq_num = s\<rparr>"

definition ex_rbt :: rbt where
  "ex_rbt = Node (Node Leaf Red (ex_rec 1 5) Leaf) Black (ex_rec 2 7) (Node Leaf Red (ex_rec 2 3) Leaf)"

lemma ex_rbt_valid: "RBTree_validate ex_rbt"
  by (simp add: RBTree_validate_iff sub_ok_def root_is_black_def ex_rbt_def ex_rec_def ikey_def Let_def)

theorem rbtree_insert_correct_witness:
  "case RBTree_insert False (ex_rec 3 9) ex_rbt of (c, t') \<Rightarrow>
    RBTree_validate t' \<and> c = Ok \<and>
    inorder t' = [ex_rec 1 5, ex_rec 2 7, ex_rec 2 3, ex_rec 3 9]"
  using rbtree_insert_correct [OF ex_rbt_valid, of False "ex_rec 3 9"]
  by (simp add: ex_rbt_def ex_rec_def ikey_def split: prod.splits)

theorem rbtree_height_witness:
  "2 ^ ((bst_height ex_rbt + 1) div 2) \<le> length (inorder ex_rbt) + 1 \<and> bst_height ex_rbt = 2"
  using rbtree_height [OF ex_rbt_valid] by (simp add: ex_rbt_def)

end
