(* ===== verification/Treap.thy ===== *)
theory Treap
  imports DriverSpec
begin

text \<open>
  The treap (\<^verbatim>\<open>data_structures/treap.cpp\<close>). The priority a node draws from the random
  generator is an argument of the insertion. After the descent the new node is rotated up while
  its priority exceeds its parent's; the heap order of \<open>validate\<close> is shown to survive.
\<close>

section \<open>The tree\<close>

type_synonym treap = "u64 bst"

fun frame_priority :: "u64 frame \<Rightarrow> u64" where
  "frame_priority (InLeft x c t) = x"
| "frame_priority (InRight t x c) = x"

text \<open>The rotation that lifts the child \<open>v\<close> over the parent \<open>p\<close>.\<close>

fun rotate_over :: "'x frame \<Rightarrow> 'x bst \<Rightarrow> 'x bst" where
  "rotate_over (InLeft x c t) v = right_rotate (Node v x c t)"
| "rotate_over (InRight t x c) v = left_rotate (Node t x c v)"

fun bubble_up :: "u64 \<Rightarrow> treap \<Rightarrow> u64 frame list \<Rightarrow> treap" where
  "bubble_up prio v [] = v"
| "bubble_up prio v (p # ps) =
     (if prio > frame_priority p then bubble_up prio (rotate_over p v) ps else zip_up v (p # ps))"

definition Treap_bst_insert :: "u64 \<Rightarrow> InternalRecord \<Rightarrow> treap \<Rightarrow> StatusCode \<times> treap" where
  "Treap_bst_insert prio entry t =
     (case descend entry t [] of
        None \<Rightarrow> (Duplicate, t)
      | Some path \<Rightarrow> (Ok, bubble_up prio (Node Leaf prio entry Leaf) path))"

definition Treap_insert :: "bool \<Rightarrow> u64 \<Rightarrow> InternalRecord \<Rightarrow> treap \<Rightarrow> StatusCode \<times> treap" where
  "Treap_insert oom prio entry t =
     (if oom then (OutOfMemory, t) else Treap_bst_insert prio entry t)"

definition Treap_find_latest_by_key :: "ArenaEntry \<Rightarrow> treap \<Rightarrow> InternalRecord option result" where
  "Treap_find_latest_by_key key t = Inr (tree_find_latest_by_key key t)"

definition Treap_dump_inorder :: "treap \<Rightarrow> InternalRecord list \<Rightarrow> InternalRecord list" where
  "Treap_dump_inorder t out = dump_loop (push_left t []) out"

section \<open>Validators\<close>

fun has_priority_above :: "u64 \<Rightarrow> treap \<Rightarrow> bool" where
  "has_priority_above x Leaf = False"
| "has_priority_above x (Node l y c r) = (y > x)"

fun heap_ordering_correct :: "treap \<Rightarrow> bool" where
  "heap_ordering_correct Leaf = True"
| "heap_ordering_correct (Node l x c r) =
     (if has_priority_above x l then False
      else if has_priority_above x r then False
      else heap_ordering_correct l \<and> heap_ordering_correct r)"

definition Treap_validate :: "treap \<Rightarrow> bool" where
  "Treap_validate t \<longleftrightarrow> heap_ordering_correct t \<and> bst_ordering_correct t"

section \<open>Insertion keeps the order and the heap\<close>

fun root_priority :: "treap \<Rightarrow> u64" where
  "root_priority Leaf = 0"
| "root_priority (Node l x c r) = x"

lemma has_priority_above_iff [simp]: "has_priority_above x t \<longleftrightarrow> x < root_priority t"
  by (cases t) auto

lemma heap_ordering_Node [simp]:
  "heap_ordering_correct (Node l x c r) \<longleftrightarrow>
    root_priority l \<le> x \<and> root_priority r \<le> x \<and> heap_ordering_correct l \<and> heap_ordering_correct r"
  by (auto simp: not_less)

declare heap_ordering_correct.simps(2) [simp del]

lemma inorder_rotate_over [simp]: "inorder (rotate_over p v) = inorder (plug p v)"
  by (cases p) simp_all

lemma bubble_up_inorder: "inorder (bubble_up prio v path) = inorder (zip_up v path)"
  by (induction prio v path rule: bubble_up.induct) (simp_all add: inorder_zip)

text \<open>Heap order along a path whose hole may be filled with priorities up to \<open>m\<close>.\<close>

fun path_heap :: "u64 \<Rightarrow> u64 frame list \<Rightarrow> bool" where
  "path_heap m [] = True"
| "path_heap m (InLeft x c t # ps) = (m \<le> x \<and> \<not> has_priority_above x t \<and> heap_ordering_correct t \<and> path_heap x ps)"
| "path_heap m (InRight t x c # ps) = (m \<le> x \<and> \<not> has_priority_above x t \<and> heap_ordering_correct t \<and> path_heap x ps)"

lemma path_heap_mono: "path_heap m ps \<Longrightarrow> m' \<le> m \<Longrightarrow> path_heap m' ps"
  by (cases "(m, ps)" rule: path_heap.cases) auto

lemma zip_up_heap:
  "heap_ordering_correct v \<Longrightarrow> \<not> has_priority_above m v \<Longrightarrow> path_heap m ps \<Longrightarrow>
    heap_ordering_correct (zip_up v ps)"
proof (induction v ps arbitrary: m rule: zip_up.induct)
  case (2 t p ps)
  then show ?case
    by (cases p) (auto simp: not_less order_trans [of "root_priority t" m])
qed simp

text \<open>While the new node moves up, its children stay below the path around it.\<close>

lemma bubble_up_heap:
  assumes "heap_ordering_correct (Node l prio r t)" "path_heap m ps"
    and "\<not> has_priority_above m l" "\<not> has_priority_above m t"
  shows "heap_ordering_correct (bubble_up prio (Node l prio r t) ps)"
  using assms
proof (induction ps arbitrary: l t m)
  case (Cons p ps)
  show ?case
  proof (cases p)
    case (InLeft x c u)
    then show ?thesis
      using Cons.prems Cons.IH [of l "Node t x c u" x] zip_up_heap [of "Node (Node l prio r t) x c u" x ps]
      by (auto simp: not_less order_trans [of _ m x] split: if_splits)
  next
    case (InRight u x c)
    then show ?thesis
      using Cons.prems Cons.IH [of "Node u x c l" t x] zip_up_heap [of "Node u x c (Node l prio r t)" x ps]
      by (auto simp: not_less order_trans [of _ m x] split: if_splits)
  qed
qed simp

lemma descend_path_heap:
  "descend v t path = Some ps \<Longrightarrow> heap_ordering_correct t \<Longrightarrow> path_heap (root_priority t) path \<Longrightarrow>
    path_heap 0 ps"
proof (induction v t path rule: descend.induct)
  case (2 v l x c r path)
  then show ?case by (auto simp: not_less split: if_splits)
qed simp

lemma Treap_validate_Leaf: "Treap_validate Leaf"
  by (simp add: Treap_validate_def)

lemma Treap_validate_sorted: "Treap_validate t \<Longrightarrow> sorted_records (inorder t)"
  by (simp add: Treap_validate_def)

lemma bubble_up_validate:
  assumes "Treap_validate t" "descend entry t [] = Some ps"
  shows "Treap_validate (bubble_up prio (Node Leaf prio entry Leaf) ps)"
proof -
  have srt: "sorted_records (inorder t)" and heap: "heap_ordering_correct t"
    using assms by (auto simp: Treap_validate_def)
  have "path_heap 0 ps" using descend_path_heap [OF assms(2) heap] by simp
  then have "heap_ordering_correct (bubble_up prio (Node Leaf prio entry Leaf) ps)"
    by (intro bubble_up_heap) auto
  moreover have "sorted_records (left_ctx ps @ entry # right_ctx ps)"
    using descend_iff_new [OF srt, of entry] assms(2) descend_insert [OF assms(2) srt]
    by (simp add: sorted_ins_record [OF srt])
  ultimately show ?thesis by (simp add: Treap_validate_def bubble_up_inorder inorder_zip)
qed

section \<open>The tree as a driver\<close>

definition Treap_driver :: "nat \<Rightarrow> treap Driver" where
  "Treap_driver node_size =
     \<lparr>d_new = Leaf,
      d_insert = (\<lambda>ch r t. Treap_insert (node_oom ch) (random_priority ch) r t),
      d_find_mut = (\<lambda>k t. (Treap_find_latest_by_key k t, t)),
      d_find = Treap_find_latest_by_key,
      d_validate = Treap_validate,
      d_memory = approximate_subtree_memory_usage node_size,
      d_empty = tree_empty,
      d_dump = Treap_dump_inorder\<rparr>"

interpretation tp: bst_driver "Treap_driver n"
  "\<lambda>ch r path. bubble_up (random_priority ch) (Node Leaf (random_priority ch) r Leaf) path" Treap_validate
  by unfold_locales
    (auto simp: Treap_driver_def Treap_insert_def Treap_bst_insert_def Treap_find_latest_by_key_def
      Treap_dump_inorder_def dump_loop_records bubble_up_inorder inorder_zip Treap_validate_Leaf
      Treap_validate_sorted intro: bubble_up_validate split: option.splits)

text \<open>Whatever priority is
  drawn, an insertion into a valid treap leaves a treap that passes \<open>validate\<close>: records ordered
  and priorities heap-ordered. It fails only without memory or on a duplicate, changing nothing;
  otherwise the record is added in its place.\<close>

lemma treap_insert_correct:
  assumes "Treap_validate t"
  shows "case Treap_insert oom prio r t of (c, t') \<Rightarrow>
    Treap_validate t' \<and>
    c = (if oom then OutOfMemory else if ikey r \<in> ikey ` set (inorder t) then Duplicate else Ok) \<and>
    (if c = Ok then inorder t' = ins_record r (inorder t) else t' = t)"
proof -
  have srt: "sorted_records (inorder t)" using assms by (rule Treap_validate_sorted)
  show ?thesis
    using bubble_up_validate [OF assms, of r] descend_iff_new [OF srt, of r] descend_insert [OF _ srt, of r] assms
    by (auto simp: Treap_insert_def Treap_bst_insert_def bubble_up_inorder inorder_zip split: option.splits)
qed

definition ex_treap :: treap where
  "ex_treap = Node Leaf 50 \<lparr>key_entry = [1], value_entry = [], rtype = Put, seq_num = 4\<rparr> Leaf"

end
