(* ===== verification/SplayTree.thy ===== *)
theory SplayTree
  imports DriverSpec
begin

text \<open>
  The splay tree (\<^verbatim>\<open>data_structures/splay_tree.cpp\<close>). \<open>splay\<close> follows the six cases of
  the source on locations. Lookups through a mutable reference splay the node found, or the last
  node visited; lookups through a constant reference do not.
\<close>

section \<open>The tree\<close>

type_synonym splay_tree = "unit bst"

text \<open>One round of the loop of \<open>splay\<close> takes \<open>v\<close>, its parent and its grandparent to the subtree
  with \<open>v\<close> at its root.\<close>

fun splay_round :: "'x bst \<Rightarrow> 'x frame \<Rightarrow> 'x frame \<Rightarrow> 'x bst" where
  "splay_round v (InLeft x c t) (InLeft y d u) = right_rotate (right_rotate (Node (Node v x c t) y d u))"
| "splay_round v (InRight t x c) (InRight u y d) = left_rotate (left_rotate (Node u y d (Node t x c v)))"
| "splay_round v (InLeft x c t) (InRight u y d) = left_rotate (Node u y d (right_rotate (Node v x c t)))"
| "splay_round v (InRight t x c) (InLeft y d u) = right_rotate (Node (left_rotate (Node t x c v)) y d u)"

fun splay_zig :: "'x bst \<Rightarrow> 'x frame \<Rightarrow> 'x bst" where
  "splay_zig v (InLeft x c t) = right_rotate (Node v x c t)"
| "splay_zig v (InRight t x c) = left_rotate (Node t x c v)"

fun splay :: "'x bst \<Rightarrow> 'x frame list \<Rightarrow> 'x bst" where
  "splay v [] = v"
| "splay v [p] = splay_zig v p"
| "splay v (p # g # gs) = splay (splay_round v p g) gs"

definition SplayTree_bst_insert :: "InternalRecord \<Rightarrow> splay_tree \<Rightarrow> StatusCode \<times> splay_tree" where
  "SplayTree_bst_insert entry t =
     (case descend entry t [] of
        None \<Rightarrow> (Duplicate, t)
      | Some path \<Rightarrow> (Ok, splay (Node Leaf () entry Leaf) path))"

definition SplayTree_insert :: "bool \<Rightarrow> InternalRecord \<Rightarrow> splay_tree \<Rightarrow> StatusCode \<times> splay_tree" where
  "SplayTree_insert oom entry t =
     (if oom then (OutOfMemory, t) else SplayTree_bst_insert entry t)"

text \<open>The lookup keeps the locations of the best match so far and of the last node.\<close>

type_synonym 'x slocation = "'x bst \<times> 'x frame list"

fun locate_loop ::
  "ArenaEntry \<Rightarrow> 'x bst \<Rightarrow> 'x frame list \<Rightarrow> 'x slocation option \<Rightarrow> 'x slocation option \<Rightarrow>
    'x slocation option \<times> 'x slocation option" where
  "locate_loop key Leaf path res lst = (res, lst)"
| "locate_loop key (Node l x c r) path res lst =
     (let here = (Node l x c r, path) in
      if entry_less (key_entry c) key then locate_loop key r (InRight l x c # path) res (Some here)
      else locate_loop key l (InLeft x c r # path)
        (if entry_eq (key_entry c) key then Some here else res) (Some here))"

fun node_record :: "'x bst \<Rightarrow> InternalRecord option" where
  "node_record Leaf = None"
| "node_record (Node l x c r) = Some c"

definition SplayTree_find_mut :: "ArenaEntry \<Rightarrow> splay_tree \<Rightarrow> InternalRecord option result \<times> splay_tree" where
  "SplayTree_find_mut key t =
     (case locate_loop key t [] None None of
        (None, None) \<Rightarrow> (Inr None, t)
      | (None, Some (v, path)) \<Rightarrow> (Inr None, splay v path)
      | (Some (v, path), _) \<Rightarrow> (Inr (node_record v), splay v path))"

definition SplayTree_find_latest_by_key :: "ArenaEntry \<Rightarrow> splay_tree \<Rightarrow> InternalRecord option result" where
  "SplayTree_find_latest_by_key key t = Inr (tree_find_latest_by_key key t)"

definition SplayTree_dump_inorder :: "splay_tree \<Rightarrow> InternalRecord list \<Rightarrow> InternalRecord list" where
  "SplayTree_dump_inorder t out = dump_loop (push_left t []) out"

definition SplayTree_validate :: "splay_tree \<Rightarrow> bool" where
  "SplayTree_validate t \<longleftrightarrow> bst_ordering_correct t"

section \<open>Splaying keeps the records and their order\<close>

lemma splay_round_inorder: "inorder (splay_round v p g) = inorder (plug g (plug p v))"
  by (cases "(v, p, g)" rule: splay_round.cases) simp_all

lemma splay_zig_inorder: "inorder (splay_zig v p) = inorder (plug p v)"
  by (cases p) simp_all

lemma splay_inorder: "inorder (splay v path) = left_ctx path @ inorder v @ right_ctx path"
proof (induction v path rule: splay.induct)
  case (2 v p)
  then show ?case by (cases p) simp_all
next
  case (3 v p g gs)
  then show ?case by (cases p; cases g) (simp_all add: splay_round_inorder)
qed simp

text \<open>The node reaches the root.\<close>

lemma splay_root: "node_record v = Some c \<Longrightarrow> node_record (splay v path) = Some c"
proof (induction v path rule: splay.induct)
  case (2 v p)
  then show ?case by (cases v; cases p) simp_all
next
  case (3 v p g gs)
  have "node_record (splay_round v p g) = Some c"
    using 3(2) by (cases v; cases p; cases g) simp_all
  then show ?case using 3(1) by simp
qed simp

section \<open>The mutable lookup agrees with the constant one\<close>

definition in_tree :: "'x bst \<Rightarrow> 'x slocation option \<Rightarrow> bool" where
  "in_tree t loc \<longleftrightarrow> (case loc of None \<Rightarrow> True | Some (v, path) \<Rightarrow> v \<noteq> Leaf \<and> zip_up v path = t)"

lemma locate_loop_in_tree:
  "in_tree u res \<Longrightarrow> in_tree u lst \<Longrightarrow> zip_up t path = u \<Longrightarrow> locate_loop key t path res lst = (a, b) \<Longrightarrow>
    in_tree u a \<and> in_tree u b"
  by (induction key t path res lst rule: locate_loop.induct)
    (auto simp: in_tree_def Let_def split: if_splits)

definition loc_record :: "'x slocation option \<Rightarrow> InternalRecord option" where
  "loc_record loc = (case loc of None \<Rightarrow> None | Some (v, path) \<Rightarrow> node_record v)"

lemma locate_loop_find:
  "loc_record (fst (locate_loop key t path res lst)) = find_loop key t (loc_record res)"
  by (induction key t path res lst rule: locate_loop.induct) (auto simp: Let_def loc_record_def)

lemma SplayTree_find_mut_fst: "fst (SplayTree_find_mut key t) = Inr (tree_find_latest_by_key key t)"
  using locate_loop_find [of key t "[]" None None]
  by (auto simp: SplayTree_find_mut_def tree_find_latest_by_key_def loc_record_def split: prod.splits option.splits)

lemma SplayTree_find_mut_inorder: "inorder (snd (SplayTree_find_mut key t)) = inorder t"
proof -
  obtain a b where ab: "locate_loop key t [] None None = (a, b)" by (cases "locate_loop key t [] None None")
  have "in_tree t a \<and> in_tree t b" using locate_loop_in_tree [OF _ _ _ ab] by (simp add: in_tree_def)
  then show ?thesis
    by (auto simp: SplayTree_find_mut_def ab splay_inorder in_tree_def inorder_zip [symmetric] split: option.splits)
qed

lemma splay_validate:
  assumes "SplayTree_validate t" "descend entry t [] = Some ps"
  shows "SplayTree_validate (splay (Node Leaf () entry Leaf) ps)"
proof -
  have srt: "sorted_records (inorder t)" using assms by (simp add: SplayTree_validate_def)
  have "sorted_records (left_ctx ps @ entry # right_ctx ps)"
    using descend_iff_new [OF srt, of entry] assms(2) descend_insert [OF assms(2) srt]
    by (simp add: sorted_ins_record [OF srt])
  then show ?thesis by (simp add: SplayTree_validate_def splay_inorder)
qed

section \<open>The tree as a driver\<close>

definition SplayTree_driver :: "nat \<Rightarrow> splay_tree Driver" where
  "SplayTree_driver node_size =
     \<lparr>d_new = Leaf,
      d_insert = (\<lambda>ch r t. SplayTree_insert (node_oom ch) r t),
      d_find_mut = SplayTree_find_mut,
      d_find = SplayTree_find_latest_by_key,
      d_validate = SplayTree_validate,
      d_memory = approximate_subtree_memory_usage node_size,
      d_empty = tree_empty,
      d_dump = SplayTree_dump_inorder\<rparr>"

lemma SplayTree_validate_iff: "SplayTree_validate t \<longleftrightarrow> sorted_records (inorder t)"
  by (simp add: SplayTree_validate_def)

interpretation sp: bst_driver "SplayTree_driver n"
  "\<lambda>ch r path. splay (Node Leaf () r Leaf) path" SplayTree_validate
proof unfold_locales
  show "SplayTree_validate t \<Longrightarrow> descend r t [] = Some path \<Longrightarrow>
      SplayTree_validate (splay (Node Leaf () r Leaf) path)" for t r path by (rule splay_validate)
  show "SplayTree_validate t \<Longrightarrow> SplayTree_validate (snd (d_find_mut (SplayTree_driver n) k t))" for t k
    by (simp add: SplayTree_driver_def SplayTree_validate_iff SplayTree_find_mut_inorder)
qed (auto simp: SplayTree_driver_def SplayTree_insert_def SplayTree_bst_insert_def SplayTree_find_latest_by_key_def
    SplayTree_dump_inorder_def dump_loop_records splay_inorder SplayTree_find_mut_fst SplayTree_find_mut_inorder
    SplayTree_validate_iff split: option.splits)

text \<open>An insertion brings the new record to the root and adds it to
  the ordered records; a record with the same key and sequence number is refused.\<close>

lemma splay_insert_correct:
  assumes "SplayTree_validate t"
  shows "case SplayTree_insert oom r t of (c, t') \<Rightarrow>
      SplayTree_validate t' \<and>
      c = (if oom then OutOfMemory else if ikey r \<in> ikey ` set (inorder t) then Duplicate else Ok) \<and>
      (if c = Ok then node_record t' = Some r \<and> inorder t' = ins_record r (inorder t) else t' = t)"
proof -
  have srt: "sorted_records (inorder t)" using assms by (simp add: SplayTree_validate_iff)
  show ?thesis
    using splay_validate [OF assms, of r] descend_iff_new [OF srt, of r] descend_insert [OF _ srt, of r]
      assms splay_root [of "Node Leaf () r Leaf" r]
    by (auto simp: SplayTree_insert_def SplayTree_bst_insert_def splay_inorder split: option.splits)
qed

text \<open>A lookup through a mutable reference returns what the constant
  lookup returns, the newest record of the key; it keeps the records and their order and leaves a
  record it found at the root.\<close>

lemma splay_find_correct:
  assumes "SplayTree_validate t"
  shows "case SplayTree_find_mut k t of (res, t') \<Rightarrow>
      SplayTree_validate t' \<and> inorder t' = inorder t \<and>
      res = SplayTree_find_latest_by_key k t \<and> res = Inr (newest_of k (inorder t)) \<and>
      (newest_of k (inorder t) = None \<or> node_record t' = newest_of k (inorder t))"
proof -
  have srt: "sorted_records (inorder t)" using assms by (simp add: SplayTree_validate_iff)
  have res: "fst (SplayTree_find_mut k t) = Inr (newest_of k (inorder t))"
    by (simp add: SplayTree_find_mut_fst tree_find_newest [OF srt])
  have root: "newest_of k (inorder t) = Some c \<Longrightarrow> node_record (snd (SplayTree_find_mut k t)) = Some c" for c
    using res by (auto simp: SplayTree_find_mut_def splay_root split: prod.splits option.splits)
  show ?thesis
    using res root srt SplayTree_find_mut_inorder [of k t]
    by (cases "SplayTree_find_mut k t"; cases "newest_of k (inorder t)")
      (auto simp: SplayTree_validate_iff SplayTree_find_latest_by_key_def tree_find_newest)
qed

section \<open>Examples\<close>

definition ex_splay :: splay_tree where
  "ex_splay = Node Leaf () \<lparr>key_entry = [1], value_entry = [], rtype = Put, seq_num = 4\<rparr>
     (Node Leaf () \<lparr>key_entry = [2], value_entry = [], rtype = Put, seq_num = 5\<rparr> Leaf)"

lemma ex_splay_valid: "SplayTree_validate ex_splay"
  by (simp add: SplayTree_validate_iff ex_splay_def ikey_def)

text \<open>The lookup of a reader changes the shape of the tree.\<close>

lemma splay_find_restructures:
  "snd (SplayTree_find_mut [2] ex_splay) \<noteq> ex_splay"
  by (simp add: ex_splay_def SplayTree_find_mut_def Let_def)

end
