(* ===== verification/SkipList.thy ===== *)
theory SkipList
  imports DriverSpec
begin

text \<open>
  The skip list (\<^verbatim>\<open>data_structures/skip_list.cpp\<close>). Nodes live in a store indexed by
  address, with the vector of next pointers of the source; address 0 is the head. The pointer
  loops take the number of nodes as fuel, and the lemmas on \<open>walk\<close> show that they leave the loop
  because its condition is false. The coins of \<open>random_height\<close> are an argument of the insertion.
\<close>

section \<open>The list\<close>

definition MAX_LEVEL :: nat where "MAX_LEVEL = 20"

record sl_node =
  sl_rec :: InternalRecord
  sl_next :: "nat option list"

record skip_list =
  sl_nodes :: "sl_node list"
  current_level :: nat

definition sl_height :: "sl_node \<Rightarrow> nat" where
  "sl_height nd = length (sl_next nd)"

definition head_record :: InternalRecord where
  "head_record = \<lparr>key_entry = [], value_entry = [], rtype = Undefined, seq_num = 0\<rparr>"

definition SkipList_new :: skip_list where
  "SkipList_new =
     \<lparr>sl_nodes = [\<lparr>sl_rec = head_record, sl_next = replicate MAX_LEVEL None\<rparr>], current_level = 1\<rparr>"

definition nxt :: "skip_list \<Rightarrow> nat \<Rightarrow> nat \<Rightarrow> nat option" where
  "nxt s l a = sl_next (sl_nodes s ! a) ! l"

definition rec_at :: "skip_list \<Rightarrow> nat \<Rightarrow> InternalRecord" where
  "rec_at s a = sl_rec (sl_nodes s ! a)"

text \<open>The inner loop of the searches: step right on one level while the next record satisfies
  the test. The outer loop goes down from the highest level in use and notes where each level
  was left.\<close>

fun walk :: "nat \<Rightarrow> (InternalRecord \<Rightarrow> bool) \<Rightarrow> skip_list \<Rightarrow> nat \<Rightarrow> nat \<Rightarrow> nat" where
  "walk 0 test s l a = a"
| "walk (Suc fuel) test s l a =
     (case nxt s l a of
        Some b \<Rightarrow> if test (rec_at s b) then walk fuel test s l b else a
      | None \<Rightarrow> a)"

fun search :: "(InternalRecord \<Rightarrow> bool) \<Rightarrow> skip_list \<Rightarrow> nat \<Rightarrow> nat \<Rightarrow> nat option list \<Rightarrow> nat \<times> nat option list" where
  "search test s 0 a update = (a, update)"
| "search test s (Suc l) a update =
     (let b = walk (length (sl_nodes s)) test s l a in search test s l b (update[l := Some b]))"

fun random_height :: "bool list \<Rightarrow> nat \<Rightarrow> nat" where
  "random_height (True # coins) height = (if height < MAX_LEVEL then random_height coins (height + 1) else height)"
| "random_height coins height = height"

text \<open>The body of the linking loop at one level, for the new node at address \<open>n\<close>. The entries
  of \<open>update\<close> it reads are never null (\<open>insert_update\<close> below).\<close>

definition set_next :: "nat \<Rightarrow> nat \<Rightarrow> nat option \<Rightarrow> skip_list \<Rightarrow> skip_list" where
  "set_next a l v s = s\<lparr>sl_nodes := (sl_nodes s)[a := (sl_nodes s ! a)\<lparr>sl_next := (sl_next (sl_nodes s ! a))[l := v]\<rparr>]\<rparr>"

definition link_level :: "nat \<Rightarrow> nat option list \<Rightarrow> nat \<Rightarrow> skip_list \<Rightarrow> skip_list" where
  "link_level n update l s =
     (case update ! l of
        None \<Rightarrow> s
      | Some a \<Rightarrow> set_next a l (Some n) (set_next n l (nxt s l a) s))"

definition SkipList_insert :: "chance \<Rightarrow> InternalRecord \<Rightarrow> skip_list \<Rightarrow> StatusCode \<times> skip_list" where
  "SkipList_insert ch entry s =
     (if update_oom ch then (BadAlloc, s)
      else case search (\<lambda>r. node_less r entry) s (current_level s) 0 (replicate MAX_LEVEL None) of
        (cur, update) \<Rightarrow>
          if (case nxt s 0 cur of
                None \<Rightarrow> False
              | Some b \<Rightarrow> \<not> node_less entry (rec_at s b) \<and> \<not> node_less (rec_at s b) entry)
          then (Duplicate, s)
          else
            let height = random_height (promotions ch) 1;
                update = fold (\<lambda>l u. u[l := Some 0]) [current_level s ..< height] update
            in if node_oom ch then (BadAlloc, s)
               else let n = length (sl_nodes s);
                        s1 = s\<lparr>sl_nodes := sl_nodes s @ [\<lparr>sl_rec = entry, sl_next = replicate height None\<rparr>]\<rparr>;
                        s2 = fold (link_level n update) [0 ..< height] s1
                    in (Ok, if height > current_level s2 then s2\<lparr>current_level := height\<rparr> else s2))"

definition SkipList_find_latest_by_key :: "ArenaEntry \<Rightarrow> skip_list \<Rightarrow> InternalRecord option result" where
  "SkipList_find_latest_by_key key s =
     (case search (\<lambda>r. entry_less (key_entry r) key) s (current_level s) 0 [] of (cur, _) \<Rightarrow>
        case nxt s 0 cur of
          None \<Rightarrow> Inr None
        | Some b \<Rightarrow> if \<not> entry_eq (key_entry (rec_at s b)) key then Inr None else Inr (Some (rec_at s b)))"

text \<open>The addresses met from \<open>a\<close> on along one level.\<close>

fun follow :: "nat \<Rightarrow> skip_list \<Rightarrow> nat \<Rightarrow> nat option \<Rightarrow> nat list" where
  "follow 0 s l a = []"
| "follow (Suc fuel) s l a = (case a of None \<Rightarrow> [] | Some b \<Rightarrow> b # follow fuel s l (nxt s l b))"

definition dump_level_inorder :: "skip_list \<Rightarrow> nat \<Rightarrow> InternalRecord list \<Rightarrow> InternalRecord list" where
  "dump_level_inorder s l out =
     (if l \<ge> MAX_LEVEL then out
      else out @ map (rec_at s) (follow (length (sl_nodes s)) s l (nxt s l 0)))"

definition SkipList_dump_inorder :: "skip_list \<Rightarrow> InternalRecord list \<Rightarrow> InternalRecord list" where
  "SkipList_dump_inorder s out = dump_level_inorder s 0 out"

definition SkipList_empty :: "skip_list \<Rightarrow> bool" where
  "SkipList_empty s \<longleftrightarrow> nxt s 0 0 = None"

definition node_in_order :: "skip_list \<Rightarrow> nat \<Rightarrow> bool" where
  "node_in_order s a \<longleftrightarrow>
     (\<forall>l\<in>set [0 ..< sl_height (sl_nodes s ! a)]. case nxt s l a of
        None \<Rightarrow> True
      | Some b \<Rightarrow> \<not> node_less (rec_at s b) (rec_at s a))"

definition SkipList_validate :: "skip_list \<Rightarrow> bool" where
  "SkipList_validate s \<longleftrightarrow> list_all (node_in_order s) (0 # follow (length (sl_nodes s)) s 0 (nxt s 0 0))"

text \<open>\<open>fixed\<close> stands for the sizes of the members, \<open>ptr\<close> for the size of a pointer; a next vector
  is allocated once with its height.\<close>

definition SkipList_approximate_memory_usage :: "nat \<Rightarrow> nat \<Rightarrow> skip_list \<Rightarrow> nat" where
  "SkipList_approximate_memory_usage fixed ptr s =
     sum_list (map (\<lambda>a. fixed + length (key_entry (rec_at s a)) + length (value_entry (rec_at s a)) +
       ptr * sl_height (sl_nodes s ! a)) (follow (length (sl_nodes s)) s 0 (nxt s 0 0)))"

section \<open>What a list represents\<close>

text \<open>\<open>linked s l as\<close>: the addresses follow each other on level \<open>l\<close>, the last one at the end.\<close>

fun linked :: "skip_list \<Rightarrow> nat \<Rightarrow> nat list \<Rightarrow> bool" where
  "linked s l [] = True"
| "linked s l [a] = (nxt s l a = None)"
| "linked s l (a # b # as) = (nxt s l a = Some b \<and> linked s l (b # as))"

definition ht :: "skip_list \<Rightarrow> nat \<Rightarrow> nat" where
  "ht s a = sl_height (sl_nodes s ! a)"

definition at_level :: "skip_list \<Rightarrow> nat \<Rightarrow> nat list \<Rightarrow> nat list" where
  "at_level s l c = filter (\<lambda>a. l < ht s a) c"

definition sl_rep :: "skip_list \<Rightarrow> nat list \<Rightarrow> bool" where
  "sl_rep s c \<longleftrightarrow>
     (\<forall>l < MAX_LEVEL. linked s l (0 # at_level s l c)) \<and>
     distinct c \<and> (\<forall>a\<in>set c. 0 < a \<and> a < length (sl_nodes s) \<and> 0 < ht s a \<and> ht s a \<le> current_level s) \<and>
     sl_nodes s \<noteq> [] \<and> ht s 0 = MAX_LEVEL \<and> 1 \<le> current_level s \<and> current_level s \<le> MAX_LEVEL \<and>
     rec_at s 0 = head_record \<and> sorted_records (map (rec_at s) c)"

lemma sl_rep_length: "sl_rep s c \<Longrightarrow> length c < length (sl_nodes s)"
proof -
  assume r: "sl_rep s c"
  then have "set c \<subseteq> {1 ..< length (sl_nodes s)}" by (auto simp: sl_rep_def)
  then have "card (set c) \<le> length (sl_nodes s) - 1"
    using card_mono [of "{1 ..< length (sl_nodes s)}" "set c"] by simp
  moreover have "card (set c) = length c" "sl_nodes s \<noteq> []" using r by (auto simp: sl_rep_def distinct_card)
  ultimately show ?thesis by (cases "sl_nodes s") auto
qed

lemma at_level_0: "sl_rep s c \<Longrightarrow> at_level s 0 c = c"
  by (auto simp: sl_rep_def at_level_def filter_id_conv)

lemma follow_linked:
  "linked s l (a # as) \<Longrightarrow> length as \<le> fuel \<Longrightarrow> follow fuel s l (nxt s l a) = as"
proof (induction as arbitrary: a fuel)
  case Nil
  then show ?case by (cases fuel) simp_all
next
  case (Cons b as)
  then show ?case by (cases fuel) simp_all
qed

lemma sl_rep_node:
  "sl_rep s c \<Longrightarrow> a \<in> set c \<Longrightarrow>
    0 < a \<and> a < length (sl_nodes s) \<and> 0 < ht s a \<and> ht s a \<le> current_level s"
  by (simp add: sl_rep_def)

lemma sl_rep_levels: "sl_rep s c \<Longrightarrow> 0 < current_level s \<and> current_level s \<le> MAX_LEVEL"
  by (simp add: sl_rep_def)

lemma sl_rep_linked: "sl_rep s c \<Longrightarrow> l < MAX_LEVEL \<Longrightarrow> linked s l (0 # at_level s l c)"
  by (simp add: sl_rep_def)

lemma chain_unique:
  assumes "sl_rep s c"
  shows "follow (length (sl_nodes s)) s 0 (nxt s 0 0) = c"
proof (rule follow_linked)
  show "linked s 0 (0 # c)" using sl_rep_linked [OF assms, of 0] by (simp add: at_level_0 [OF assms] MAX_LEVEL_def)
qed (use sl_rep_length [OF assms] in simp)

lemma first_next: "sl_rep s c \<Longrightarrow> nxt s 0 0 = (case c of [] \<Rightarrow> None | b # _ \<Rightarrow> Some b)"
  using sl_rep_linked [of s c 0] at_level_0 [of s c] by (cases c) (simp_all add: MAX_LEVEL_def)

definition sl_recs :: "skip_list \<Rightarrow> InternalRecord list" where
  "sl_recs s = map (rec_at s) (follow (length (sl_nodes s)) s 0 (nxt s 0 0))"

definition sl_inv :: "skip_list \<Rightarrow> bool" where
  "sl_inv s \<longleftrightarrow> (\<exists>c. sl_rep s c)"

lemma sl_recs_rep: "sl_rep s c \<Longrightarrow> sl_recs s = map (rec_at s) c"
  by (simp add: sl_recs_def chain_unique)

section \<open>Searching\<close>

lemma linked_suffix: "linked s l (xs @ a # as) \<Longrightarrow> linked s l (a # as)"
proof (induction xs)
  case (Cons x xs)
  then show ?case by (cases xs) auto
qed simp

lemma walk_linked:
  assumes "linked s l (a # mid @ post)" "\<forall>b\<in>set mid. test (rec_at s b)"
    and "post = [] \<or> \<not> test (rec_at s (hd post))" "length mid < fuel"
  shows "walk fuel test s l a = last (a # mid)"
  using assms
proof (induction mid arbitrary: a fuel)
  case Nil
  then show ?case by (cases fuel; cases post) simp_all
next
  case (Cons b mid)
  then show ?case by (cases fuel) auto
qed

text \<open>A test that holds on a first part \<open>xs\<close> of the chain and nowhere in the rest \<open>ys\<close>: the
  walk on a level ends at the last node of that level in \<open>xs\<close>.\<close>

definition splits_at :: "skip_list \<Rightarrow> (InternalRecord \<Rightarrow> bool) \<Rightarrow> nat list \<Rightarrow> nat list \<Rightarrow> bool" where
  "splits_at s test xs ys \<longleftrightarrow> (\<forall>a\<in>set xs. test (rec_at s a)) \<and> (\<forall>a\<in>set ys. \<not> test (rec_at s a))"

definition left_of :: "skip_list \<Rightarrow> nat \<Rightarrow> nat list \<Rightarrow> nat" where
  "left_of s l xs = last (0 # at_level s l xs)"

lemma at_level_append [simp]: "at_level s l (xs @ ys) = at_level s l xs @ at_level s l ys"
  by (simp add: at_level_def)

lemma set_at_level: "set (at_level s l xs) \<subseteq> set xs"
  by (auto simp: at_level_def)

lemma walk_level:
  assumes rep: "sl_rep s (xs @ ys)" and cut: "splits_at s test xs ys" and l: "l < MAX_LEVEL"
    and a: "a \<in> set (0 # at_level s l xs)"
  shows "walk (length (sl_nodes s)) test s l a = left_of s l xs"
proof -
  obtain pre mid where split: "0 # at_level s l xs = pre @ a # mid" using split_list [OF a] by blast
  have "0 # at_level s l (xs @ ys) = pre @ a # mid @ at_level s l ys" using split by simp
  then have "linked s l (pre @ a # mid @ at_level s l ys)"
    using sl_rep_linked [OF rep l] by (simp only:)
  then have lnk: "linked s l (a # mid @ at_level s l ys)" by (rule linked_suffix)
  have mid: "set mid \<subseteq> set xs"
    using split set_at_level [of s l xs] by (cases pre) (auto simp: set_eq_iff)
  have "length mid \<le> length (at_level s l xs)" using arg_cong [OF split, of length] by simp
  also have "\<dots> \<le> length xs" by (simp add: at_level_def)
  also have "\<dots> < length (sl_nodes s)" using sl_rep_length [OF rep] by simp
  finally have fuel: "length mid < length (sl_nodes s)" .
  have "at_level s l ys = [] \<or> \<not> test (rec_at s (hd (at_level s l ys)))"
    using cut set_at_level [of s l ys] by (cases "at_level s l ys") (auto simp: splits_at_def)
  moreover have "\<forall>b\<in>set mid. test (rec_at s b)" using cut mid unfolding splits_at_def by blast
  ultimately have "walk (length (sl_nodes s)) test s l a = last (a # mid)"
    using walk_linked [OF lnk _ _ fuel] by blast
  also have "\<dots> = left_of s l xs" using arg_cong [OF split, of last] by (simp add: left_of_def)
  finally show ?thesis .
qed

lemma left_of_down: "left_of s (Suc l) xs \<in> set (0 # at_level s l xs)"
proof -
  have "set (0 # at_level s (Suc l) xs) \<subseteq> set (0 # at_level s l xs)" by (auto simp: at_level_def)
  moreover have "left_of s (Suc l) xs \<in> set (0 # at_level s (Suc l) xs)"
    unfolding left_of_def by (rule last_in_set) simp
  ultimately show ?thesis by blast
qed

lemma search_spec:
  assumes rep: "sl_rep s (xs @ ys)" and cut: "splits_at s test xs ys"
  shows "n \<le> MAX_LEVEL \<Longrightarrow> 0 < n \<Longrightarrow> a \<in> set (0 # at_level s (n - 1) xs) \<Longrightarrow>
    fst (search test s n a u) = left_of s 0 xs \<and>
    length (snd (search test s n a u)) = length u \<and>
    (\<forall>l < length u. snd (search test s n a u) ! l = (if l < n then Some (left_of s l xs) else u ! l))"
proof (induction n arbitrary: a u)
  case (Suc n)
  have w: "walk (length (sl_nodes s)) test s n a = left_of s n xs"
    using Suc.prems by (intro walk_level [OF rep cut]) auto
  show ?case
  proof (cases n)
    case 0
    then show ?thesis using w by (auto simp: nth_list_update Let_def)
  next
    case (Suc m)
    have "left_of s n xs \<in> set (0 # at_level s (n - 1) xs)" using left_of_down [of s m xs] Suc by simp
    then show ?thesis
      using Suc.IH [of "left_of s n xs" "u[n := Some (left_of s n xs)]"] Suc.prems w Suc
      by (auto simp: Let_def nth_list_update less_Suc_eq)
  qed
qed simp

text \<open>A test that is closed downwards splits a chain.\<close>

lemma dropWhile_sorted_wrt:
  "sorted_wrt R c \<Longrightarrow> \<forall>a b. R a b \<longrightarrow> P b \<longrightarrow> P a \<Longrightarrow> b \<in> set (dropWhile P c) \<Longrightarrow> \<not> P b"
  by (induction c) (auto split: if_splits)

lemma split_exists:
  assumes rep: "sl_rep s c"
    and mono: "\<And>r r'. ikey r < ikey r' \<Longrightarrow> test r' \<Longrightarrow> test r"
  obtains xs ys where "c = xs @ ys" "splits_at s test xs ys"
proof (rule that)
  let ?P = "\<lambda>a. test (rec_at s a)"
  show "c = takeWhile ?P c @ dropWhile ?P c" by simp
  have "sorted_wrt (\<lambda>a b. ikey (rec_at s a) < ikey (rec_at s b)) c"
    using rep by (simp add: sl_rep_def sorted_wrt_map)
  then have "\<forall>a\<in>set (dropWhile ?P c). \<not> ?P a"
    using mono dropWhile_sorted_wrt [of "\<lambda>a b. ikey (rec_at s a) < ikey (rec_at s b)" c ?P] by blast
  moreover have "\<forall>a\<in>set (takeWhile ?P c). ?P a" by (metis set_takeWhileD)
  ultimately show "splits_at s test (takeWhile ?P c) (dropWhile ?P c)"
    unfolding splits_at_def by blast
qed

text \<open>Where the searches stop: the next node on level 0 is the first one of the rest.\<close>

lemma nxt_left_of:
  assumes rep: "sl_rep s (xs @ ys)" and l: "l < MAX_LEVEL"
  shows "nxt s l (left_of s l xs) = (case at_level s l ys of [] \<Rightarrow> None | b # _ \<Rightarrow> Some b)"
proof -
  have "0 # at_level s l xs = butlast (0 # at_level s l xs) @ [left_of s l xs]"
    unfolding left_of_def by (rule append_butlast_last_id [symmetric]) simp
  then have "0 # at_level s l (xs @ ys) = butlast (0 # at_level s l xs) @ left_of s l xs # at_level s l ys"
    by (metis append.assoc append_Cons append_Nil at_level_append)
  then have "linked s l (left_of s l xs # at_level s l ys)"
    using sl_rep_linked [OF rep l] linked_suffix by metis
  then show ?thesis by (cases "at_level s l ys") simp_all
qed

lemma search_stop:
  assumes rep: "sl_rep s (xs @ ys)" and cut: "splits_at s test xs ys"
  shows "fst (search test s (current_level s) 0 u) = left_of s 0 xs"
    and "nxt s 0 (left_of s 0 xs) = (case ys of [] \<Rightarrow> None | b # _ \<Rightarrow> Some b)"
proof -
  show "fst (search test s (current_level s) 0 u) = left_of s 0 xs"
    using search_spec [OF rep cut, of "current_level s" 0 u] rep by (simp add: sl_rep_def)
  have "at_level s 0 ys = ys" using rep by (auto simp: sl_rep_def at_level_def filter_id_conv)
  then show "nxt s 0 (left_of s 0 xs) = (case ys of [] \<Rightarrow> None | b # _ \<Rightarrow> Some b)"
    using nxt_left_of [OF rep, of 0] by (simp add: MAX_LEVEL_def)
qed

lemma SkipList_find_newest:
  assumes "sl_rep s c"
  shows "SkipList_find_latest_by_key k s = Inr (newest_of k (map (rec_at s) c))"
proof -
  let ?test = "\<lambda>r. entry_less (key_entry r) k"
  obtain xs ys where c: "c = xs @ ys" and cut: "splits_at s ?test xs ys"
  proof (rule split_exists [OF assms, of ?test])
    show "ikey r < ikey r' \<Longrightarrow> ?test r' \<Longrightarrow> ?test r" for r r' by (auto simp: ikey_def)
  qed
  have rep: "sl_rep s (xs @ ys)" using assms c by simp
  have "newest_of k (map (rec_at s) c) = newest_of k (map (rec_at s) ys)"
    using cut newest_of_skip [of "map (rec_at s) xs" k] by (auto simp: c splits_at_def)
  moreover have "SkipList_find_latest_by_key k s =
      (case ys of [] \<Rightarrow> Inr None
       | b # _ \<Rightarrow> if key_entry (rec_at s b) \<noteq> k then Inr None else Inr (Some (rec_at s b)))"
    using search_stop(1) [OF rep cut, of "[]"] search_stop(2) [OF rep cut]
    by (auto simp: SkipList_find_latest_by_key_def split: prod.splits list.splits)
  moreover have "newest_of k (map (rec_at s) ys) = None"
    if "ys = b # bs" "key_entry (rec_at s b) \<noteq> k" for b bs
  proof -
    have "\<forall>a\<in>set bs. ikey (rec_at s b) < ikey (rec_at s a)"
      using rep that(1) by (simp add: sl_rep_def sorted_wrt_append)
    moreover have "k < key_entry (rec_at s b)" using cut that by (auto simp: splits_at_def)
    ultimately have "\<forall>a\<in>set ys. k < key_entry (rec_at s a)" using that(1) by (fastforce simp: ikey_def)
    then show ?thesis by (auto simp: newest_of_None_iff)
  qed
  ultimately show ?thesis by (cases ys) auto
qed

section \<open>Insertion\<close>

lemma random_height_bounds: "1 \<le> h \<Longrightarrow> h \<le> MAX_LEVEL \<Longrightarrow> 1 \<le> random_height coins h \<and> random_height coins h \<le> MAX_LEVEL"
  by (induction coins h rule: random_height.induct) auto

lemma linked_cong: "\<forall>a\<in>set as. nxt s' l a = nxt s l a \<Longrightarrow> linked s' l as = linked s l as"
  by (induction s l as rule: linked.induct) auto

lemma distinct_butlast_last:
  "distinct (as @ bs) \<Longrightarrow> as \<noteq> [] \<Longrightarrow> a \<in> set (butlast as) \<union> set bs \<Longrightarrow> a \<noteq> last as"
proof -
  assume d: "distinct (as @ bs)" and "as \<noteq> []" and a: "a \<in> set (butlast as) \<union> set bs"
  then have "as = butlast as @ [last as]" by simp
  then have "distinct (butlast as @ [last as] @ bs)" using d by (metis append.assoc)
  then show ?thesis using a by auto
qed

lemma linked_insert:
  assumes "linked s l (as @ bs)" "as \<noteq> []"
    and "\<forall>a \<in> set (butlast as) \<union> set bs. nxt s' l a = nxt s l a"
    and "nxt s' l (last as) = Some n" "nxt s' l n = nxt s l (last as)"
  shows "linked s' l (as @ n # bs)"
  using assms
proof (induction as)
  case (Cons a as)
  show ?case
  proof (cases as)
    case Nil
    then show ?thesis using Cons.prems linked_cong [of bs s' l s] by (cases bs) auto
  next
    case (Cons b as')
    then show ?thesis using Cons.IH Cons.prems by (auto split: if_splits)
  qed
qed simp

lemma set_next_simps:
  assumes "a < length (sl_nodes s)" "l < ht s a"
  shows "nxt (set_next a l v s) l' a' = (if a' = a \<and> l' = l then v else nxt s l' a')"
    and "rec_at (set_next a l v s) a' = rec_at s a'"
    and "ht (set_next a l v s) a' = ht s a'"
    and "length (sl_nodes (set_next a l v s)) = length (sl_nodes s)"
    and "current_level (set_next a l v s) = current_level s"
  using assms
  by (auto simp: set_next_def nxt_def rec_at_def ht_def sl_height_def nth_list_update)

text \<open>The linking loop, in closed form.\<close>

lemma link_levels:
  assumes "\<forall>l < h. \<exists>a. u ! l = Some a \<and> a < n \<and> l < ht s a"
    and "n < length (sl_nodes s)" "ht s n = h" "k \<le> h"
  shows "let s' = fold (link_level n u) [0 ..< k] s in
    (\<forall>l a. nxt s' l a =
      (if l < k \<and> a = n then nxt s l (the (u ! l)) else if l < k \<and> Some a = u ! l then Some n else nxt s l a)) \<and>
    rec_at s' = rec_at s \<and> ht s' = ht s \<and> length (sl_nodes s') = length (sl_nodes s) \<and>
    current_level s' = current_level s"
  using assms(4)
proof (induction k)
  case (Suc k)
  obtain a where a: "u ! k = Some a" "a < n" "k < ht s a" using assms(1) Suc.prems by (meson Suc_le_lessD)
  define t where "t = fold (link_level n u) [0 ..< k] s"
  have IH: "\<forall>l a. nxt t l a =
      (if l < k \<and> a = n then nxt s l (the (u ! l)) else if l < k \<and> Some a = u ! l then Some n else nxt s l a)"
    "rec_at t = rec_at s" "ht t = ht s" "length (sl_nodes t) = length (sl_nodes s)"
    "current_level t = current_level s"
    using Suc by (simp_all add: t_def Let_def)
  define t1 where "t1 = set_next n k (nxt t k a) t"
  have n: "n < length (sl_nodes t)" "k < ht t n" using assms(2,3) Suc.prems IH by simp_all
  note t1 = set_next_simps [OF n, of "nxt t k a", folded t1_def]
  have an: "a < length (sl_nodes t1)" "k < ht t1 a" using a assms(2) by (simp_all add: t1 IH)
  note t2 = set_next_simps [OF an, of "Some n"]
  have step: "fold (link_level n u) [0 ..< Suc k] s = set_next a k (Some n) t1"
    by (simp add: t_def [symmetric] link_level_def a t1_def)
  show ?case
    unfolding step Let_def using a by (auto simp: t1 t2 IH fun_eq_iff less_Suc_eq)
qed (simp add: Let_def)

text \<open>The entries of \<open>update\<close> the linking loop reads: the last nodes to the left, on every level
  of the new node.\<close>

lemma fold_heads_nth:
  "l < length u \<Longrightarrow> fold (\<lambda>l u. u[l := Some 0]) [i ..< j] u ! l = (if i \<le> l \<and> l < j then Some 0 else u ! l)"
proof (induction j)
  case (Suc j)
  have "length (fold (\<lambda>l u. u[l := Some 0]) [i ..< j] u) = length u"
    by (induction j) auto
  then show ?case using Suc by (auto simp: nth_list_update less_Suc_eq)
qed simp

lemma left_of_unused: "sl_rep s (xs @ ys) \<Longrightarrow> current_level s \<le> l \<Longrightarrow> left_of s l xs = 0"
proof -
  assume rep: "sl_rep s (xs @ ys)" and l: "current_level s \<le> l"
  have "\<not> l < ht s a" if "a \<in> set xs" for a using sl_rep_node [OF rep, of a] that l by simp
  then have "at_level s l xs = []" by (simp add: at_level_def filter_empty_conv)
  then show ?thesis by (simp add: left_of_def)
qed

lemma insert_update:
  assumes rep: "sl_rep s (xs @ ys)" and split: "splits_at s test xs ys"
    and h: "h \<le> MAX_LEVEL" and l: "l < h"
  shows "fold (\<lambda>l u. u[l := Some 0]) [current_level s ..< h]
    (snd (search test s (current_level s) 0 (replicate MAX_LEVEL None))) ! l = Some (left_of s l xs)"
proof -
  have cl: "current_level s \<le> MAX_LEVEL" "0 < current_level s" using rep by (auto simp: sl_rep_def)
  note spec = search_spec [OF rep split cl, of 0 "replicate MAX_LEVEL None"]
  show ?thesis
    using spec h l left_of_unused [OF rep, of l]
    by (subst fold_heads_nth) auto
qed

lemma left_of_ok:
  assumes "sl_rep s (xs @ ys)" "l < MAX_LEVEL"
  shows "left_of s l xs < length (sl_nodes s) \<and> l < ht s (left_of s l xs)"
proof -
  have "left_of s l xs \<in> set (0 # at_level s l xs)" unfolding left_of_def by (rule last_in_set) simp
  then show ?thesis using assms by (auto simp: sl_rep_def at_level_def)
qed

definition add_node :: "InternalRecord \<Rightarrow> nat \<Rightarrow> skip_list \<Rightarrow> skip_list" where
  "add_node entry h s = s\<lparr>sl_nodes := sl_nodes s @ [\<lparr>sl_rec = entry, sl_next = replicate h None\<rparr>]\<rparr>"

lemma add_node_simps:
  "length (sl_nodes (add_node entry h s)) = Suc (length (sl_nodes s))"
  "current_level (add_node entry h s) = current_level s"
  "a < length (sl_nodes s) \<Longrightarrow> nxt (add_node entry h s) l a = nxt s l a"
  "rec_at (add_node entry h s) a =
    (if a < length (sl_nodes s) then rec_at s a else if a = length (sl_nodes s) then entry else rec_at (add_node entry h s) a)"
  "ht (add_node entry h s) (length (sl_nodes s)) = h"
  "a < length (sl_nodes s) \<Longrightarrow> ht (add_node entry h s) a = ht s a"
  by (auto simp: add_node_def nxt_def rec_at_def ht_def sl_height_def nth_append)

lemma linked_level_update: "linked (s\<lparr>current_level := v\<rparr>) l as = linked s l as"
  by (rule linked_cong) (simp add: nxt_def)

lemma level_update:
  "rec_at (s\<lparr>current_level := v\<rparr>) = rec_at s" "ht (s\<lparr>current_level := v\<rparr>) = ht s"
  "at_level (s\<lparr>current_level := v\<rparr>) = at_level s"
  "linked (s\<lparr>current_level := v\<rparr>) = linked s" "sl_nodes (s\<lparr>current_level := v\<rparr>) = sl_nodes s"
  "current_level (s\<lparr>current_level := v\<rparr>) = v"
  by (auto simp: rec_at_def ht_def at_level_def linked_level_update fun_eq_iff)

lemma level_update_same: "s\<lparr>current_level := current_level s\<rparr> = s"
  by simp

text \<open>Linking a new node of height \<open>h\<close> behind the nodes to its left.\<close>

lemma link_rep:
  assumes rep: "sl_rep s (xs @ ys)" and h: "1 \<le> h" "h \<le> MAX_LEVEL"
    and u: "\<forall>l < h. u ! l = Some (left_of s l xs)"
    and srt: "sorted_records (map (rec_at s) xs @ entry # map (rec_at s) ys)"
    and t: "t = fold (link_level (length (sl_nodes s)) u) [0 ..< h] (add_node entry h s)"
  shows "sl_rep (if h > current_level t then t\<lparr>current_level := h\<rparr> else t) (xs @ length (sl_nodes s) # ys)"
    and "map (rec_at t) (xs @ length (sl_nodes s) # ys) = map (rec_at s) xs @ entry # map (rec_at s) ys"
proof -
  let ?n = "length (sl_nodes s)" and ?s1 = "add_node entry h s"
  have node: "a < ?n" if "a \<in> set xs \<or> a \<in> set ys \<or> a = 0" for a
    using that rep by (auto simp: sl_rep_def)
  have "\<forall>l < h. \<exists>a. u ! l = Some a \<and> a < ?n \<and> l < ht ?s1 a"
    using u left_of_ok [OF rep] h(2) by (auto simp: add_node_simps)
  from link_levels [OF this, of h, folded t]
  have t_nxt: "nxt t l a = (if l < h \<and> a = ?n then nxt ?s1 l (the (u ! l))
      else if l < h \<and> Some a = u ! l then Some ?n else nxt ?s1 l a)"
    and t_rec: "rec_at t = rec_at ?s1" and t_ht: "ht t = ht ?s1"
    and t_len: "length (sl_nodes t) = Suc ?n" and t_lev: "current_level t = current_level s" for l a
    by (simp_all add: Let_def add_node_simps)
  show recs: "map (rec_at t) (xs @ ?n # ys) = map (rec_at s) xs @ entry # map (rec_at s) ys"
    using node by (auto simp: t_rec add_node_simps(4))
  have lev: "at_level t l (xs @ ?n # ys) = at_level s l xs @ (if l < h then [?n] else []) @ at_level s l ys" for l
  proof -
    have "filter (\<lambda>a. l < ht t a) zs = filter (\<lambda>a. l < ht s a) zs" if "zs = xs \<or> zs = ys" for zs
      using node that by (intro filter_cong) (auto simp: t_ht add_node_simps)
    then show ?thesis by (simp add: at_level_def t_ht add_node_simps)
  qed
  have lnk: "linked t l (0 # at_level t l (xs @ ?n # ys))" if l: "l < MAX_LEVEL" for l
  proof -
    let ?as = "0 # at_level s l xs" and ?bs = "at_level s l ys"
    have old: "linked s l (?as @ ?bs)" using sl_rep_linked [OF rep l] by simp
    have below: "a < ?n" if "a \<in> set (?as @ ?bs)" for a
      using that node [of a] set_at_level [of s l xs] set_at_level [of s l ys] by auto
    have la: "last ?as = left_of s l xs" by (simp add: left_of_def)
    show ?thesis
    proof (cases "l < h")
      case True
      have "distinct (?as @ ?bs)" using rep by (auto simp: sl_rep_def at_level_def)
      then have other: "a \<noteq> last ?as" if "a \<in> set (butlast ?as) \<union> set ?bs" for a
        using that distinct_butlast_last [of ?as ?bs a] by simp
      have "linked t l (?as @ ?n # ?bs)"
      proof (rule linked_insert [OF old])
        show "\<forall>a\<in>set (butlast ?as) \<union> set ?bs. nxt t l a = nxt s l a"
        proof
          fix a assume a: "a \<in> set (butlast ?as) \<union> set ?bs"
          then have "a \<in> set (?as @ ?bs)" by (auto dest: in_set_butlastD split: if_splits)
          then show "nxt t l a = nxt s l a"
            using below other [OF a] u True la by (auto simp: t_nxt add_node_simps)
        qed
        show "nxt t l (last ?as) = Some ?n" "nxt t l ?n = nxt s l (last ?as)"
          using u True la left_of_ok [OF rep l] by (auto simp: t_nxt add_node_simps)
      qed simp
      then show ?thesis using True by (simp add: lev del: at_level_append)
    next
      case False
      then have "\<forall>a\<in>set (?as @ ?bs). nxt t l a = nxt s l a"
        using below by (auto simp: t_nxt add_node_simps)
      then have "linked t l (?as @ ?bs)" using old by (simp only: linked_cong)
      then show ?thesis using False by (simp add: lev del: at_level_append)
    qed
  qed
  have nodes: "0 < a \<and> a < Suc ?n \<and> 0 < ht t a \<and> ht t a \<le> max h (current_level s)"
    if "a \<in> set (xs @ ?n # ys)" for a
    using that sl_rep_node [OF rep, of a] h node [of 0] by (auto simp: t_ht add_node_simps)
  have ends: "sl_nodes t \<noteq> []" "ht t 0 = MAX_LEVEL" "rec_at t 0 = head_record" "distinct (xs @ ?n # ys)"
    using rep node t_len by (auto simp: sl_rep_def t_ht t_rec add_node_simps)
  have "sl_rep (t\<lparr>current_level := max h (current_level s)\<rparr>) (xs @ ?n # ys)"
    using lnk nodes ends srt h sl_rep_levels [OF rep] unfolding sl_rep_def level_update recs
    by (auto simp: t_len)
  then show "sl_rep (if h > current_level t then t\<lparr>current_level := h\<rparr> else t) (xs @ ?n # ys)"
    using level_update_same [of t] by (cases "h > current_level t") (simp_all add: max_def t_lev [symmetric])
qed

text \<open>What an insertion does.\<close>

lemma SkipList_insert_cases:
  assumes rep: "sl_rep s c"
  shows "case SkipList_insert ch entry s of (c', s') \<Rightarrow>
    c' = (if update_oom ch then BadAlloc
          else if ikey entry \<in> ikey ` set (map (rec_at s) c) then Duplicate
          else if node_oom ch then BadAlloc else Ok) \<and>
    (if c' = Ok then \<exists>d. sl_rep s' d \<and> map (rec_at s') d = ins_record entry (map (rec_at s) c) else s' = s)"
proof -
  let ?test = "\<lambda>r. node_less r entry"
  obtain xs ys where c: "c = xs @ ys" and split: "splits_at s ?test xs ys"
    by (rule split_exists [OF rep, of ?test]) (auto intro: less_trans)
  have rep: "sl_rep s (xs @ ys)" using rep c by simp
  have srt: "sorted_records (map (rec_at s) xs @ map (rec_at s) ys)" using rep by (simp add: sl_rep_def)
  have left: "\<forall>a\<in>set xs. ikey (rec_at s a) < ikey entry" and right: "\<forall>a\<in>set ys. \<not> ikey (rec_at s a) < ikey entry"
    using split by (simp_all add: splits_at_def)
  obtain update where srch: "search ?test s (current_level s) 0 (replicate MAX_LEVEL None) = (left_of s 0 xs, update)"
    using search_stop(1) [OF rep split, of "replicate MAX_LEVEL None"] by (metis prod.collapse)
  have dup: "(case nxt s 0 (left_of s 0 xs) of None \<Rightarrow> False
      | Some b \<Rightarrow> \<not> node_less entry (rec_at s b) \<and> \<not> node_less (rec_at s b) entry) \<longleftrightarrow>
    ikey entry \<in> ikey ` set (map (rec_at s) c)" (is "?dup \<longleftrightarrow> _")
  proof (cases ys)
    case Nil
    then show ?thesis using left search_stop(2) [OF rep split] c by auto
  next
    case (Cons b bs)
    have "\<forall>a\<in>set bs. ikey (rec_at s b) < ikey (rec_at s a)" using srt Cons by (simp add: sorted_wrt_append)
    then have "ikey entry \<in> ikey ` set (map (rec_at s) c) \<longleftrightarrow> ikey entry = ikey (rec_at s b)"
      using left right Cons c by (auto simp: image_iff dest: order.strict_implies_not_eq less_trans)
    then show ?thesis using search_stop(2) [OF rep split] right Cons by auto
  qed
  define h where "h = random_height (promotions ch) 1"
  define u where "u = fold (\<lambda>l u. u[l := Some 0]) [current_level s ..< h] update"
  define t where "t = fold (link_level (length (sl_nodes s)) u) [0 ..< h] (add_node entry h s)"
  have outcome: "SkipList_insert ch entry s =
      (if update_oom ch then (BadAlloc, s)
       else if ikey entry \<in> ikey ` set (map (rec_at s) c) then (Duplicate, s)
       else if node_oom ch then (BadAlloc, s)
       else (Ok, if h > current_level t then t\<lparr>current_level := h\<rparr> else t))"
    unfolding SkipList_insert_def srch prod.case dup by (simp only: Let_def h_def u_def t_def add_node_def)
  show ?thesis
  proof (cases "ikey entry \<in> ikey ` set (map (rec_at s) c)")
    case True
    then show ?thesis unfolding outcome by simp
  next
    case False
    have h: "1 \<le> h" "h \<le> MAX_LEVEL"
      using random_height_bounds [of 1 "promotions ch"] by (simp_all add: h_def MAX_LEVEL_def)
    have u: "\<forall>l < h. u ! l = Some (left_of s l xs)"
      using insert_update [OF rep split h(2)] srch by (simp add: u_def)
    have new: "ikey entry \<notin> ikey ` set (map (rec_at s) xs @ map (rec_at s) ys)"
      using False c by simp
    then have ins: "ins_record entry (map (rec_at s) c) = map (rec_at s) xs @ entry # map (rec_at s) ys"
      using left right c ins_record_between [of "map (rec_at s) xs" entry "map (rec_at s) ys"]
      by (force simp: not_less order_le_less)
    then have "sorted_records (map (rec_at s) xs @ entry # map (rec_at s) ys)"
      using sorted_ins_record [OF srt new] c by simp
    note link = link_rep [OF rep h u this t_def]
    let ?s' = "if h > current_level t then t\<lparr>current_level := h\<rparr> else t"
    have "map (rec_at ?s') (xs @ length (sl_nodes s) # ys) = ins_record entry (map (rec_at s) c)"
      using link(2) ins by (simp add: level_update)
    then show ?thesis using link(1) False unfolding outcome by auto
  qed
qed

section \<open>The list as a driver\<close>

definition SkipList_driver :: "nat \<Rightarrow> nat \<Rightarrow> skip_list Driver" where
  "SkipList_driver fixed ptr =
     \<lparr>d_new = SkipList_new,
      d_insert = SkipList_insert,
      d_find_mut = (\<lambda>k s. (SkipList_find_latest_by_key k s, s)),
      d_find = SkipList_find_latest_by_key,
      d_validate = SkipList_validate,
      d_memory = SkipList_approximate_memory_usage fixed ptr,
      d_empty = SkipList_empty,
      d_dump = SkipList_dump_inorder\<rparr>"

lemma SkipList_new_rep: "sl_rep SkipList_new []"
  by (auto simp: sl_rep_def SkipList_new_def at_level_def nxt_def ht_def sl_height_def rec_at_def MAX_LEVEL_def)

interpretation sk: ordered_driver "SkipList_driver f p" sl_recs sl_inv
proof unfold_locales
  let ?D = "SkipList_driver f p"
  show "sl_inv (d_new ?D)" "sl_recs (d_new ?D) = []"
    using SkipList_new_rep by (auto simp: SkipList_driver_def sl_inv_def sl_recs_rep)
  show "sl_inv d \<Longrightarrow> sorted_records (sl_recs d)" for d
    by (auto simp: sl_inv_def sl_recs_rep) (simp add: sl_rep_def)
  fix d assume "sl_inv d"
  then obtain c where c: "sl_rep d c" by (auto simp: sl_inv_def)
  show "d_insert ?D ch r d = (Ok, d') \<Longrightarrow> sl_inv d' \<and> sl_recs d' = ins_record r (sl_recs d)" for ch r d'
    using SkipList_insert_cases [OF c, of ch r] by (auto simp: SkipList_driver_def sl_inv_def sl_recs_rep [OF c] dest: sl_recs_rep)
  show "d_insert ?D ch r d = (c', d') \<Longrightarrow> c' \<noteq> Ok \<Longrightarrow> d' = d \<and> c' \<in> {Duplicate, OutOfMemory, BadAlloc}" for ch r c' d'
    using SkipList_insert_cases [OF c, of ch r] by (auto simp: SkipList_driver_def split: if_splits)
  show "served ch \<Longrightarrow> fst (d_insert ?D ch r d) = (if ikey r \<in> ikey ` set (sl_recs d) then Duplicate else Ok)" for ch r
    using SkipList_insert_cases [OF c, of ch r] by (auto simp: SkipList_driver_def served_def sl_recs_rep [OF c])
  show "ikey r \<in> ikey ` set (sl_recs d) \<Longrightarrow> fst (d_insert ?D ch r d) \<noteq> Ok" for r ch
    using SkipList_insert_cases [OF c, of ch r]
    by (simp add: SkipList_driver_def sl_recs_rep [OF c] split: prod.splits)
  show "d_find ?D k d = Inr (newest_of k (sl_recs d))" "fst (d_find_mut ?D k d) = Inr (newest_of k (sl_recs d))" for k
    using SkipList_find_newest [OF c] by (simp_all add: SkipList_driver_def sl_recs_rep [OF c])
  show "sl_inv (snd (d_find_mut ?D k d)) \<and> sl_recs (snd (d_find_mut ?D k d)) = sl_recs d" for k
    using c by (auto simp: SkipList_driver_def sl_inv_def)
  show "d_empty ?D d \<longleftrightarrow> sl_recs d = []"
    using first_next [OF c] by (auto simp: SkipList_driver_def SkipList_empty_def sl_recs_rep [OF c] split: list.splits)
  show "d_dump ?D d out = out @ sl_recs d" for out
    by (simp add: SkipList_driver_def SkipList_dump_inorder_def dump_level_inorder_def sl_recs_def MAX_LEVEL_def)
qed

section \<open>Validation\<close>

lemma linked_next:
  "linked s l as \<Longrightarrow> a \<in> set as \<Longrightarrow> nxt s l a = Some b \<Longrightarrow> \<exists>pre post. as = pre @ a # b # post"
proof (induction s l as rule: linked.induct)
  case (3 s l x y as)
  then show ?case
  proof (cases "a = x")
    case False
    then obtain pre post where "y # as = pre @ a # b # post" using 3 by auto
    then have "x # y # as = (x # pre) @ a # b # post" by simp
    then show ?thesis by blast
  qed (use 3 in auto)
qed auto

lemma next_in_chain:
  assumes rep: "sl_rep s c" and a: "a = 0 \<or> a \<in> set c" and l: "l < ht s a" and b: "nxt s l a = Some b"
  shows "b \<in> set c \<and> (a \<in> set c \<longrightarrow> ikey (rec_at s a) < ikey (rec_at s b))"
proof -
  have "l < MAX_LEVEL" using a l sl_rep_node [OF rep, of a] sl_rep_levels [OF rep] rep by (auto simp: sl_rep_def)
  then have lnk: "linked s l (0 # at_level s l c)" by (rule sl_rep_linked [OF rep])
  moreover have "a \<in> set (0 # at_level s l c)" using a l by (auto simp: at_level_def)
  ultimately obtain pre post where split: "0 # at_level s l c = pre @ a # b # post"
    using linked_next b by blast
  have "b \<in> set (at_level s l c)" using split by (cases pre) auto
  moreover have "sorted_wrt (\<lambda>a b. ikey (rec_at s a) < ikey (rec_at s b)) (at_level s l c)"
    using rep by (simp add: sl_rep_def at_level_def sorted_wrt_map sorted_wrt_filter)
  then have "a \<in> set c \<Longrightarrow> ikey (rec_at s a) < ikey (rec_at s b)"
    using split sl_rep_node [OF rep, of a] by (cases pre) (auto simp: sorted_wrt_append)
  ultimately show ?thesis using set_at_level by fastforce
qed

text \<open>C16 (the skip list's own validation). On a well-formed skip list \<open>validate\<close> answers true
  exactly when no record has an empty key with a positive sequence number: the head node takes
  part in the comparison with an empty key and sequence number 0.\<close>

theorem skiplist_validate_iff:
  assumes "sl_inv s"
  shows "SkipList_validate s \<longleftrightarrow> (\<forall>r\<in>set (sl_recs s). key_entry r \<noteq> [] \<or> seq_num r = 0)"
proof -
  obtain c where rep: "sl_rep s c" using assms by (auto simp: sl_inv_def)
  have inner: "node_in_order s a" if "a \<in> set c" for a
    using next_in_chain [OF rep] that by (fastforce simp: node_in_order_def ht_def split: option.split)
  have head: "\<not> node_less r (rec_at s 0) \<longleftrightarrow> key_entry r \<noteq> [] \<or> seq_num r = 0" for r
    using rep by (auto simp: sl_rep_def node_less_def head_record_def word_gt_0 simp del: node_less_iff)
  have "node_in_order s 0 \<longleftrightarrow> (\<forall>a\<in>set c. key_entry (rec_at s a) \<noteq> [] \<or> seq_num (rec_at s a) = 0)"
  proof
    assume head_ok: "node_in_order s 0"
    show "\<forall>a\<in>set c. key_entry (rec_at s a) \<noteq> [] \<or> seq_num (rec_at s a) = 0"
    proof (cases c)
      case (Cons b bs)
      have "0 \<in> set [0 ..< sl_height (sl_nodes s ! 0)]" using rep by (simp add: sl_rep_def ht_def MAX_LEVEL_def)
      then have "\<not> node_less (rec_at s b) (rec_at s 0)"
        using head_ok first_next [OF rep] Cons unfolding node_in_order_def by fastforce
      then have b: "key_entry (rec_at s b) \<noteq> [] \<or> seq_num (rec_at s b) = 0" by (simp only: head)
      have "\<forall>a\<in>set bs. ikey (rec_at s b) < ikey (rec_at s a)" using rep Cons by (simp add: sl_rep_def)
      then show ?thesis using b Cons by (auto simp: ikey_def)
    qed simp
  next
    assume ok: "\<forall>a\<in>set c. key_entry (rec_at s a) \<noteq> [] \<or> seq_num (rec_at s a) = 0"
    then show "node_in_order s 0"
      using next_in_chain [OF rep, of 0] head
      by (fastforce simp: node_in_order_def ht_def simp del: node_less_iff split: option.split)
  qed
  then show ?thesis
    using inner by (auto simp: SkipList_validate_def chain_unique [OF rep] sl_recs_rep [OF rep] list_all_iff)
qed

text \<open>C14 (the skip list implements the ordered list). From a well-formed list an insertion, with
  any coins, gives a well-formed list with the record in its place, or fails without memory or
  on a duplicate and changes nothing; a lookup returns the newest record of the key, and the
  traversal of level 0 the records in order.\<close>

theorem skiplist_correct:
  assumes "sl_inv s"
  shows "(case SkipList_insert ch r s of (c, s') \<Rightarrow>
      sl_inv s' \<and>
      c = (if update_oom ch then BadAlloc
           else if ikey r \<in> ikey ` set (sl_recs s) then Duplicate
           else if node_oom ch then BadAlloc else Ok) \<and>
      (if c = Ok then sl_recs s' = ins_record r (sl_recs s) else s' = s)) \<and>
    SkipList_find_latest_by_key k s = Inr (newest_of k (sl_recs s)) \<and>
    SkipList_dump_inorder s [] = sl_recs s \<and> sorted_records (sl_recs s)"
proof -
  obtain c where c: "sl_rep s c" using assms by (auto simp: sl_inv_def)
  have "sorted_records (sl_recs s)" using assms sk.recs_sorted by blast
  moreover have "SkipList_dump_inorder s [] = sl_recs s"
    using sk.dump_recs [OF assms, of 0 0 "[]"] by (simp add: SkipList_driver_def)
  moreover have "SkipList_find_latest_by_key k s = Inr (newest_of k (sl_recs s))"
    using SkipList_find_newest [OF c] by (simp add: sl_recs_rep [OF c])
  ultimately show ?thesis
    using SkipList_insert_cases [OF c, of ch r] assms
    by (auto simp: sl_recs_rep [OF c] sl_inv_def dest: sl_recs_rep split: if_splits)
qed

section \<open>Examples\<close>

definition ex_chance :: chance where
  "ex_chance = \<lparr>node_oom = False, update_oom = False, random_priority = 7, promotions = [True, True, False]\<rparr>"

definition ex_empty_key :: InternalRecord where
  "ex_empty_key = \<lparr>key_entry = [], value_entry = [1], rtype = Put, seq_num = 5\<rparr>"

lemma SkipList_new_inv: "sl_inv SkipList_new" "sl_recs SkipList_new = []"
  using SkipList_new_rep by (auto simp: sl_inv_def sl_recs_rep)

lemma ex_inserted:
  "sl_inv (snd (SkipList_insert ex_chance ex_empty_key SkipList_new))"
  "sl_recs (snd (SkipList_insert ex_chance ex_empty_key SkipList_new)) = [ex_empty_key]"
  using SkipList_insert_cases [OF SkipList_new_rep, of ex_chance ex_empty_key]
  by (auto simp: ex_chance_def sl_inv_def sl_recs_rep)

theorem skiplist_correct_witness:
  "(case SkipList_insert ex_chance ex_empty_key SkipList_new of (c, s') \<Rightarrow>
      sl_inv s' \<and> c = Ok \<and> sl_recs s' = [ex_empty_key]) \<and>
    SkipList_find_latest_by_key [] SkipList_new = Inr None"
  using skiplist_correct [OF SkipList_new_inv(1), of ex_chance ex_empty_key "[]"]
  by (auto simp: ex_chance_def SkipList_new_inv)

theorem skiplist_validate_iff_witness:
  "\<not> SkipList_validate (snd (SkipList_insert ex_chance ex_empty_key SkipList_new))"
proof -
  have "key_entry ex_empty_key = []" "seq_num ex_empty_key \<noteq> 0" by (simp_all add: ex_empty_key_def)
  then show ?thesis using skiplist_validate_iff [OF ex_inserted(1)] by (simp add: ex_inserted(2))
qed

end
