(* ===== verification/DriverKinds.thy ===== *)
theory DriverKinds
  imports RBTree Treap SplayTree SkipList
begin

text \<open>
  The choice of a driver (\<^verbatim>\<open>config/db_options.h\<close> selects \<^verbatim>\<open>MemTableDriver\<close> among
  the four containers) and the virtual dispatch to it. A value of \<open>any_driver\<close> is an object behind
  a \<^verbatim>\<open>shared_ptr<Driver>\<close>; the dispatch satisfies the contract of \<open>ordered_driver\<close> because
  each container does.
\<close>

datatype driver_kind = KRBTree | KSkipList | KTreap | KSplayTree

datatype any_driver = DRBTree rbt | DSkipList skip_list | DTreap treap | DSplayTree splay_tree

text \<open>The object sizes of the platform, which the memory estimates add up.\<close>

record layout =
  rb_size :: nat
  treap_size :: nat
  splay_size :: nat
  skip_size :: nat
  pointer_size :: nat

definition new_driver :: "driver_kind \<Rightarrow> any_driver" where
  "new_driver k = (case k of
     KRBTree \<Rightarrow> DRBTree (d_new (RBTree_driver 0)) | KSkipList \<Rightarrow> DSkipList (d_new (SkipList_driver 0 0))
   | KTreap \<Rightarrow> DTreap (d_new (Treap_driver 0)) | KSplayTree \<Rightarrow> DSplayTree (d_new (SplayTree_driver 0)))"

definition dispatch :: "layout \<Rightarrow> driver_kind \<Rightarrow> any_driver Driver" where
  "dispatch ly kind =
     (let R = RBTree_driver (rb_size ly); K = SkipList_driver (skip_size ly) (pointer_size ly);
          T = Treap_driver (treap_size ly); S = SplayTree_driver (splay_size ly) in
      \<lparr>d_new = new_driver kind,
       d_insert = (\<lambda>ch r d. case d of
           DRBTree t \<Rightarrow> map_prod id DRBTree (d_insert R ch r t)
         | DSkipList t \<Rightarrow> map_prod id DSkipList (d_insert K ch r t)
         | DTreap t \<Rightarrow> map_prod id DTreap (d_insert T ch r t)
         | DSplayTree t \<Rightarrow> map_prod id DSplayTree (d_insert S ch r t)),
       d_find_mut = (\<lambda>k d. case d of
           DRBTree t \<Rightarrow> map_prod id DRBTree (d_find_mut R k t)
         | DSkipList t \<Rightarrow> map_prod id DSkipList (d_find_mut K k t)
         | DTreap t \<Rightarrow> map_prod id DTreap (d_find_mut T k t)
         | DSplayTree t \<Rightarrow> map_prod id DSplayTree (d_find_mut S k t)),
       d_find = (\<lambda>k d. case d of
           DRBTree t \<Rightarrow> d_find R k t | DSkipList t \<Rightarrow> d_find K k t
         | DTreap t \<Rightarrow> d_find T k t | DSplayTree t \<Rightarrow> d_find S k t),
       d_validate = (\<lambda>d. case d of
           DRBTree t \<Rightarrow> d_validate R t | DSkipList t \<Rightarrow> d_validate K t
         | DTreap t \<Rightarrow> d_validate T t | DSplayTree t \<Rightarrow> d_validate S t),
       d_memory = (\<lambda>d. case d of
           DRBTree t \<Rightarrow> d_memory R t | DSkipList t \<Rightarrow> d_memory K t
         | DTreap t \<Rightarrow> d_memory T t | DSplayTree t \<Rightarrow> d_memory S t),
       d_empty = (\<lambda>d. case d of
           DRBTree t \<Rightarrow> d_empty R t | DSkipList t \<Rightarrow> d_empty K t
         | DTreap t \<Rightarrow> d_empty T t | DSplayTree t \<Rightarrow> d_empty S t),
       d_dump = (\<lambda>d out. case d of
           DRBTree t \<Rightarrow> d_dump R t out | DSkipList t \<Rightarrow> d_dump K t out
         | DTreap t \<Rightarrow> d_dump T t out | DSplayTree t \<Rightarrow> d_dump S t out)\<rparr>)"

fun driver_records :: "any_driver \<Rightarrow> InternalRecord list" where
  "driver_records (DRBTree t) = inorder t"
| "driver_records (DSkipList t) = sl_recs t"
| "driver_records (DTreap t) = inorder t"
| "driver_records (DSplayTree t) = inorder t"

fun driver_ok :: "any_driver \<Rightarrow> bool" where
  "driver_ok (DRBTree t) = RBTree_validate t"
| "driver_ok (DSkipList t) = sl_inv t"
| "driver_ok (DTreap t) = Treap_validate t"
| "driver_ok (DSplayTree t) = SplayTree_validate t"

lemma map_prod_eqD: "map_prod id f p = (a, b) \<Longrightarrow> \<exists>c. p = (a, c) \<and> b = f c"
  by (cases p) auto

interpretation dv: ordered_driver "dispatch ly kind" driver_records driver_ok
proof unfold_locales
  let ?D = "dispatch ly kind"
  show "driver_ok (d_new ?D)"
    using rb.new_inv sk.new_inv tp.new_inv sp.new_inv
    by (cases kind) (auto simp: dispatch_def new_driver_def Let_def)
  show "driver_records (d_new ?D) = []"
    using rb.new_recs sk.new_recs tp.new_recs sp.new_recs
    by (cases kind) (auto simp: dispatch_def new_driver_def Let_def)
  fix d assume ok: "driver_ok d"
  show "sorted_records (driver_records d)"
    using ok rb.recs_sorted sk.recs_sorted tp.recs_sorted sp.recs_sorted by (cases d) auto
  show "d_insert ?D ch r d = (Ok, d') \<Longrightarrow>
      driver_ok d' \<and> driver_records d' = ins_record r (driver_records d)" for ch r d'
    using ok by (cases d)
      (auto simp: dispatch_def Let_def rb.insert_ok sk.insert_ok tp.insert_ok sp.insert_ok dest!: map_prod_eqD)
  show "d_insert ?D ch r d = (c, d') \<Longrightarrow> c \<noteq> Ok \<Longrightarrow> d' = d \<and> c \<in> {Duplicate, OutOfMemory, BadAlloc}" for ch r c d'
    using ok by (cases d)
      (auto simp: dispatch_def Let_def dest!: map_prod_eqD dest: rb.insert_fails sk.insert_fails tp.insert_fails sp.insert_fails)
  show "served ch \<Longrightarrow>
      fst (d_insert ?D ch r d) = (if ikey r \<in> ikey ` set (driver_records d) then Duplicate else Ok)" for ch r
    using ok by (cases d)
      (simp_all add: dispatch_def Let_def rb.insert_duplicate sk.insert_duplicate tp.insert_duplicate sp.insert_duplicate)
  show "ikey r \<in> ikey ` set (driver_records d) \<Longrightarrow> fst (d_insert ?D ch r d) \<noteq> Ok" for r ch
    using ok by (cases d)
      (simp_all add: dispatch_def Let_def rb.insert_duplicate_never_ok sk.insert_duplicate_never_ok
        tp.insert_duplicate_never_ok sp.insert_duplicate_never_ok)
  show "d_find ?D k d = Inr (newest_of k (driver_records d))" for k
    using ok by (cases d) (simp_all add: dispatch_def Let_def rb.find_newest sk.find_newest tp.find_newest sp.find_newest)
  show "fst (d_find_mut ?D k d) = Inr (newest_of k (driver_records d))" for k
    using ok by (cases d)
      (simp_all add: dispatch_def Let_def rb.find_mut_newest sk.find_mut_newest tp.find_mut_newest sp.find_mut_newest)
  show "driver_ok (snd (d_find_mut ?D k d)) \<and> driver_records (snd (d_find_mut ?D k d)) = driver_records d" for k
    using ok by (cases d)
      (simp_all add: dispatch_def Let_def rb.find_mut_keeps sk.find_mut_keeps tp.find_mut_keeps sp.find_mut_keeps)
  show "d_empty ?D d \<longleftrightarrow> driver_records d = []"
    using ok by (cases d) (simp_all add: dispatch_def Let_def rb.empty_iff sk.empty_iff tp.empty_iff sp.empty_iff)
  show "d_dump ?D d out = out @ driver_records d" for out
    using ok by (cases d) (simp_all add: dispatch_def Let_def rb.dump_recs sk.dump_recs tp.dump_recs sp.dump_recs)
qed

end
