(* ===== verification/MemTable.thy ===== *)
theory MemTable
  imports DriverKinds
begin

text \<open>
  The MemTable (\<^verbatim>\<open>core/engine/mem_table.cpp\<close>): an active driver, a queue of immutable
  generations (oldest first) and the id of the next generation. Every operation runs under the
  mutex, so it is one step of \<open>mt_step\<close>; a history of the table is a sequence of steps. The
  driver is a record of operations; the client lemmas are proved in the locale of its contract
  and reach the properties through the interpretation on the four containers.
\<close>

section \<open>State and operations\<close>

record 'd ImmutableTable =
  generation_id :: u64
  table :: 'd

record 'd MemTable =
  mutable_table :: 'd
  immutable_tables :: "'d ImmutableTable list"
  next_generation_id :: u64

definition MemTable_new :: "'d Driver \<Rightarrow> 'd MemTable" where
  "MemTable_new D = \<lparr>mutable_table = d_new D, immutable_tables = [], next_generation_id = 1\<rparr>"

definition MemTable_apply :: "'d Driver \<Rightarrow> chance \<Rightarrow> InternalRecord \<Rightarrow> 'd MemTable action" where
  "MemTable_apply D ch entry m =
     (case d_insert D ch entry (mutable_table m) of (c, d) \<Rightarrow> (c, m\<lparr>mutable_table := d\<rparr>))"

definition MemTable_put ::
  "'d Driver \<Rightarrow> chance \<Rightarrow> ArenaEntry \<Rightarrow> ArenaEntry \<Rightarrow> u64 \<Rightarrow> 'd MemTable action" where
  "MemTable_put D ch key val sq =
     MemTable_apply D ch \<lparr>key_entry = key, value_entry = val, rtype = Put, seq_num = sq\<rparr>"

definition MemTable_remove :: "'d Driver \<Rightarrow> chance \<Rightarrow> ArenaEntry \<Rightarrow> u64 \<Rightarrow> 'd MemTable action" where
  "MemTable_remove D ch key sq =
     MemTable_apply D ch \<lparr>key_entry = key, value_entry = [], rtype = Tombstone, seq_num = sq\<rparr>"

text \<open>The loop of \<open>get\<close> over the generations from newest to oldest.\<close>

definition supersedes :: "InternalRecord option \<Rightarrow> InternalRecord option \<Rightarrow> bool" where
  "supersedes candidate latest = (case candidate of
     None \<Rightarrow> False
   | Some c \<Rightarrow> (case latest of None \<Rightarrow> True | Some l \<Rightarrow> seq_num c > seq_num l))"

fun get_loop ::
  "'d Driver \<Rightarrow> ArenaEntry \<Rightarrow> 'd ImmutableTable list \<Rightarrow> InternalRecord option \<Rightarrow> InternalRecord option result" where
  "get_loop D key [] latest = Inr latest"
| "get_loop D key (t # ts) latest =
     (case d_find D key (table t) of
        Inl e \<Rightarrow> Inl e
      | Inr candidate \<Rightarrow> get_loop D key ts (if supersedes candidate latest then candidate else latest))"

text \<open>\<open>get\<close> is declared const, but calls the non-constant lookup of the active table.\<close>

definition MemTable_get :: "'d Driver \<Rightarrow> ArenaEntry \<Rightarrow> ('d MemTable, InternalRecord option) reader" where
  "MemTable_get D key m =
     (case d_find_mut D key (mutable_table m) of (latest, d) \<Rightarrow>
        let m' = m\<lparr>mutable_table := d\<rparr> in
        case latest of
          Inl e \<Rightarrow> (Inl e, m')
        | Inr l \<Rightarrow> (get_loop D key (rev (immutable_tables m')) l, m'))"

text \<open>The flags are the outcomes of the two allocations: of the replacement and of the queue.\<close>

definition MemTable_freeze_mutable :: "'d Driver \<Rightarrow> bool \<Rightarrow> bool \<Rightarrow> 'd MemTable action" where
  "MemTable_freeze_mutable D factory_oom queue_oom m =
     (if factory_oom then (OutOfMemory, m)
      else if d_empty D (mutable_table m) then (Ok, m)
      else if queue_oom then (OutOfMemory, m)
      else (Ok, m\<lparr>immutable_tables := immutable_tables m @
                   [\<lparr>generation_id = next_generation_id m, table = mutable_table m\<rparr>],
                 next_generation_id := next_generation_id m + 1,
                 mutable_table := d_new D\<rparr>))"

definition MemTable_manual_freeze :: "'d Driver \<Rightarrow> bool \<Rightarrow> bool \<Rightarrow> 'd MemTable action" where
  "MemTable_manual_freeze = MemTable_freeze_mutable"

definition MemTable_oldest_immutable :: "'d MemTable \<Rightarrow> 'd ImmutableTable result" where
  "MemTable_oldest_immutable m =
     (case immutable_tables m of [] \<Rightarrow> Inl NotFound | oldest # _ \<Rightarrow> Inr oldest)"

definition MemTable_retire_oldest_immutable :: "u64 \<Rightarrow> 'd MemTable \<Rightarrow> bool \<times> 'd MemTable" where
  "MemTable_retire_oldest_immutable gid m =
     (if immutable_tables m = [] \<or> generation_id (hd (immutable_tables m)) \<noteq> gid then (False, m)
      else (True, m\<lparr>immutable_tables := tl (immutable_tables m)\<rparr>))"

definition MemTable_dump_oldest_immutable ::
  "'d Driver \<Rightarrow> bool \<Rightarrow> 'd MemTable \<Rightarrow> InternalRecord list \<Rightarrow> u64 \<Rightarrow> StatusCode \<times> InternalRecord list \<times> u64" where
  "MemTable_dump_oldest_immutable D oom m out gid =
     (case MemTable_oldest_immutable m of
        Inl e \<Rightarrow> (e, out, gid)
      | Inr snapshot \<Rightarrow>
          if oom then (OutOfMemory, out, gid)
          else (Ok, d_dump D (table snapshot) [], generation_id snapshot))"

definition MemTable_has_immutable :: "'d MemTable \<Rightarrow> bool" where
  "MemTable_has_immutable m \<longleftrightarrow> immutable_tables m \<noteq> []"

definition MemTable_immutable_count :: "'d MemTable \<Rightarrow> nat" where
  "MemTable_immutable_count m = length (immutable_tables m)"

definition MemTable_mutable_memory_usage :: "'d Driver \<Rightarrow> 'd MemTable \<Rightarrow> nat" where
  "MemTable_mutable_memory_usage D m = d_memory D (mutable_table m)"

definition MemTable_approximate_memory_usage :: "'d Driver \<Rightarrow> 'd MemTable \<Rightarrow> nat" where
  "MemTable_approximate_memory_usage D m =
     foldl (\<lambda>acc t. acc + d_memory D (table t)) (d_memory D (mutable_table m)) (immutable_tables m)"

section \<open>Histories\<close>

text \<open>Steps of the clients and steps of the flusher, which retires generations.\<close>

inductive mt_user_step :: "'d Driver \<Rightarrow> 'd MemTable \<Rightarrow> 'd MemTable \<Rightarrow> bool" for D where
  mt_apply: "MemTable_apply D ch entry m = (c, m') \<Longrightarrow> mt_user_step D m m'"
| mt_get: "MemTable_get D key m = (res, m') \<Longrightarrow> mt_user_step D m m'"
| mt_freeze: "MemTable_freeze_mutable D factory_oom queue_oom m = (c, m') \<Longrightarrow> mt_user_step D m m'"

inductive mt_step :: "'d Driver \<Rightarrow> 'd MemTable \<Rightarrow> 'd MemTable \<Rightarrow> bool" for D where
  mt_user: "mt_user_step D m m' \<Longrightarrow> mt_step D m m'"
| mt_retire: "MemTable_retire_oldest_immutable gid m = (b, m') \<Longrightarrow> mt_step D m m'"

text \<open>A sequential history of one client, and what it wrote.\<close>

datatype mt_op =
    OpPut chance ArenaEntry ArenaEntry u64
  | OpRemove chance ArenaEntry u64
  | OpGet ArenaEntry
  | OpFreeze bool bool

fun mt_exec :: "'d Driver \<Rightarrow> mt_op \<Rightarrow> 'd MemTable \<Rightarrow> 'd MemTable" where
  "mt_exec D (OpPut ch k v s) m = snd (MemTable_put D ch k v s m)"
| "mt_exec D (OpRemove ch k s) m = snd (MemTable_remove D ch k s m)"
| "mt_exec D (OpGet k) m = snd (MemTable_get D k m)"
| "mt_exec D (OpFreeze b1 b2) m = snd (MemTable_freeze_mutable D b1 b2 m)"

definition mt_run :: "'d Driver \<Rightarrow> mt_op list \<Rightarrow> 'd MemTable \<Rightarrow> 'd MemTable" where
  "mt_run D ops m = fold (mt_exec D) ops m"

fun op_writes :: "mt_op \<Rightarrow> InternalRecord list" where
  "op_writes (OpPut ch k v s) = [\<lparr>key_entry = k, value_entry = v, rtype = Put, seq_num = s\<rparr>]"
| "op_writes (OpRemove ch k s) = [\<lparr>key_entry = k, value_entry = [], rtype = Tombstone, seq_num = s\<rparr>]"
| "op_writes op = []"

fun op_served :: "mt_op \<Rightarrow> bool" where
  "op_served (OpPut ch k v s) = served ch"
| "op_served (OpRemove ch k s) = served ch"
| "op_served op = True"

definition writes :: "mt_op list \<Rightarrow> InternalRecord list" where
  "writes ops = concat (map op_writes ops)"

definition last_write :: "ArenaEntry \<Rightarrow> mt_op list \<Rightarrow> InternalRecord option" where
  "last_write k ops = newest_of k (rev (writes ops))"

section \<open>Contents and invariant\<close>

text \<open>All records, the newest generation first.\<close>

definition memtable_records :: "('d \<Rightarrow> InternalRecord list) \<Rightarrow> 'd MemTable \<Rightarrow> InternalRecord list" where
  "memtable_records recs m =
     recs (mutable_table m) @ concat (map (\<lambda>t. recs (table t)) (rev (immutable_tables m)))"

definition generations_ok :: "'d MemTable \<Rightarrow> bool" where
  "generations_ok m \<longleftrightarrow>
     sorted_wrt (\<lambda>s t. generation_id s < generation_id t) (immutable_tables m) \<and>
     (\<forall>t\<in>set (immutable_tables m). generation_id t < next_generation_id m)"

definition memtable_ok :: "('d \<Rightarrow> bool) \<Rightarrow> 'd MemTable \<Rightarrow> bool" where
  "memtable_ok good m \<longleftrightarrow> good (mutable_table m) \<and> (\<forall>t\<in>set (immutable_tables m). good (table t))"

text \<open>What a lookup has to answer, given all the records there are.\<close>

definition newest_version :: "ArenaEntry \<Rightarrow> InternalRecord set \<Rightarrow> InternalRecord option \<Rightarrow> bool" where
  "newest_version k R x \<longleftrightarrow> (case x of
     None \<Rightarrow> \<forall>r\<in>R. key_entry r \<noteq> k
   | Some r \<Rightarrow> r \<in> R \<and> key_entry r = k \<and> (\<forall>r'\<in>R. key_entry r' = k \<longrightarrow> seq_num r' \<le> seq_num r))"

lemma newest_version_of_sorted: "sorted_records rs \<Longrightarrow> newest_version k (set rs) (newest_of k rs)"
  by (auto simp: newest_version_def newest_of_None_iff newest_of_max dest: newest_of_SomeD split: option.split)

lemma newest_version_Un:
  "newest_version k A x \<Longrightarrow> newest_version k B y \<Longrightarrow>
    newest_version k (A \<union> B) (if supersedes y x then y else x)"
  by (auto simp: newest_version_def supersedes_def not_less split: option.splits dest: order_trans less_imp_le)

text \<open>Along a history, a generation at the front stays there until it is retired; afterwards
  all the generations of the queue are younger.\<close>

definition front_or_gone :: "'d ImmutableTable \<Rightarrow> 'd MemTable \<Rightarrow> bool" where
  "front_or_gone t m \<longleftrightarrow> generation_id t < next_generation_id m \<and>
     ((\<exists>ts. immutable_tables m = t # ts) \<or>
      (\<forall>s\<in>set (immutable_tables m). generation_id t < generation_id s))"

lemma next_generation_less:
  "unat (g :: u64) + 1 < 2 ^ 64 \<Longrightarrow> g < g + 1 \<and> unat (g + 1) = unat g + 1"
  by (simp add: word_less_nat_alt unat_word_ariths)

lemma newest_version_unique:
  assumes "newest_version k R x" "newest_version k R y" "inj_on seq_num R"
  shows "x = y"
proof (cases x; cases y)
  fix a b assume xy: "x = Some a" "y = Some b"
  then have "seq_num a = seq_num b" "a \<in> R" "b \<in> R"
    using assms(1,2) by (auto simp: newest_version_def intro: order.antisym)
  then show ?thesis using assms(3) xy by (auto dest: inj_onD)
qed (use assms in \<open>auto simp: newest_version_def\<close>)

lemma newest_version_increasing:
  assumes "sorted_wrt (<) (map seq_num ws)" "newest_version k (set ws) x"
  shows "x = newest_of k (rev ws)"
proof (rule newest_version_unique [OF assms(2)])
  have "distinct (map seq_num ws)" using assms(1) by (simp add: strict_sorted_iff)
  then show "inj_on seq_num (set ws)" by (simp add: distinct_map)
  show "newest_version k (set ws) (newest_of k (rev ws))" using assms(1)
  proof (induction ws rule: rev_induct)
    case (snoc w ws)
    then show ?case
      by (auto simp: newest_version_def sorted_wrt_append less_imp_le split: option.splits)
  qed (simp add: newest_version_def)
qed

context ordered_driver
begin

lemma get_loop_newest:
  "\<forall>t\<in>set ts. inv (table t) \<Longrightarrow> newest_version k R latest \<Longrightarrow>
    \<exists>x. get_loop D k ts latest = Inr x \<and> newest_version k (R \<union> (\<Union>t\<in>set ts. set (recs (table t)))) x"
proof (induction ts arbitrary: R latest)
  case (Cons t ts)
  let ?y = "newest_of k (recs (table t))"
  have "newest_version k (set (recs (table t))) ?y"
    using Cons.prems(1) by (intro newest_version_of_sorted recs_sorted) simp
  then have "newest_version k (R \<union> set (recs (table t))) (if supersedes ?y latest then ?y else latest)"
    using Cons.prems(2) by (rule newest_version_Un [rotated])
  from Cons.IH [OF _ this] Cons.prems(1) show ?case by (auto simp: find_newest Un_assoc)
qed simp

lemma get_newest:
  assumes "memtable_ok inv m" "MemTable_get D k m = (res, m')"
  shows "\<exists>x. res = Inr x \<and> newest_version k (set (memtable_records recs m)) x"
    and "memtable_ok inv m'" "memtable_records recs m' = memtable_records recs m"
    and "immutable_tables m' = immutable_tables m" "next_generation_id m' = next_generation_id m"
proof -
  have inv: "inv (mutable_table m)" "\<forall>t\<in>set (rev (immutable_tables m)). inv (table t)"
    using assms(1) by (auto simp: memtable_ok_def)
  obtain d where d: "d_find_mut D k (mutable_table m) = (Inr (newest_of k (recs (mutable_table m))), d)"
    using find_mut_newest [OF inv(1)] by (metis prod.collapse)
  have keeps: "inv d" "recs d = recs (mutable_table m)" using find_mut_keeps [OF inv(1), of k] d by auto
  have eq: "res = get_loop D k (rev (immutable_tables m)) (newest_of k (recs (mutable_table m)))"
    "m' = m\<lparr>mutable_table := d\<rparr>"
    using assms(2) by (auto simp: MemTable_get_def d Let_def)
  have "newest_version k (set (recs (mutable_table m))) (newest_of k (recs (mutable_table m)))"
    by (intro newest_version_of_sorted recs_sorted inv)
  from get_loop_newest [OF inv(2) this]
  show "\<exists>x. res = Inr x \<and> newest_version k (set (memtable_records recs m)) x"
    by (simp add: eq memtable_records_def)
  show "memtable_ok inv m'" "memtable_records recs m' = memtable_records recs m"
    "immutable_tables m' = immutable_tables m" "next_generation_id m' = next_generation_id m"
    using assms(1) keeps by (auto simp: eq memtable_ok_def memtable_records_def)
qed

lemma apply_cases:
  assumes "memtable_ok inv m" "MemTable_apply D ch r m = (c, m')"
  shows "memtable_ok inv m' \<and> immutable_tables m' = immutable_tables m \<and>
    next_generation_id m' = next_generation_id m \<and>
    (if c = Ok then set (memtable_records recs m') = insert r (set (memtable_records recs m)) else m' = m)"
proof -
  obtain d where d: "d_insert D ch r (mutable_table m) = (c, d)" "m' = m\<lparr>mutable_table := d\<rparr>"
    using assms(2) by (auto simp: MemTable_apply_def split: prod.splits)
  have "inv (mutable_table m)" using assms(1) by (simp add: memtable_ok_def)
  from insert_ok [OF this] insert_fails [OF this d(1)] d show ?thesis
    using assms(1) by (cases "c = Ok") (auto simp: memtable_ok_def memtable_records_def)
qed

lemma freeze_cases:
  assumes "memtable_ok inv m" "MemTable_freeze_mutable D b1 b2 m = (c, m')"
  shows "memtable_ok inv m' \<and> memtable_records recs m' = memtable_records recs m \<and>
    (m' = m \<or> immutable_tables m' = immutable_tables m @
        [\<lparr>generation_id = next_generation_id m, table = mutable_table m\<rparr>] \<and>
      next_generation_id m' = next_generation_id m + 1)"
  using assms new_inv new_recs
  by (auto simp: MemTable_freeze_mutable_def memtable_ok_def memtable_records_def split: if_splits)

lemma retire_cases:
  assumes "memtable_ok inv m" "MemTable_retire_oldest_immutable gid m = (b, m')"
  shows "memtable_ok inv m' \<and> next_generation_id m' = next_generation_id m \<and>
    (if b then \<exists>t. immutable_tables m = t # immutable_tables m' \<and> generation_id t = gid \<and>
        memtable_records recs m = memtable_records recs m' @ recs (table t)
     else m' = m)"
  using assms
  by (cases "immutable_tables m")
    (auto simp: MemTable_retire_oldest_immutable_def memtable_ok_def memtable_records_def split: if_splits)

lemma user_step_cases:
  assumes "mt_user_step D m m'" "memtable_ok inv m"
  shows "memtable_ok inv m' \<and>
    (immutable_tables m' = immutable_tables m \<and> next_generation_id m' = next_generation_id m \<or>
     immutable_tables m' = immutable_tables m @
       [\<lparr>generation_id = next_generation_id m, table = mutable_table m\<rparr>] \<and>
     next_generation_id m' = next_generation_id m + 1)"
  using assms(1)
proof cases
  case (mt_apply ch entry c)
  then show ?thesis using apply_cases [OF assms(2)] by blast
next
  case (mt_get key res)
  then show ?thesis using get_newest [OF assms(2)] by blast
next
  case (mt_freeze b1 b2 c)
  then show ?thesis using freeze_cases [OF assms(2)] assms(2) by blast
qed

lemma step_generations:
  assumes "mt_step D m m'" "memtable_ok inv m" "generations_ok m" "unat (next_generation_id m) + 1 < 2 ^ 64"
  shows "memtable_ok inv m' \<and> generations_ok m' \<and>
    unat (next_generation_id m') \<le> unat (next_generation_id m) + 1 \<and>
    (front_or_gone t m \<longrightarrow> front_or_gone t m')"
  using assms(1)
proof cases
  case mt_user
  from user_step_cases [OF this assms(2)] assms(3) next_generation_less [OF assms(4)] show ?thesis
    by (elim conjE disjE)
      (auto simp: generations_ok_def front_or_gone_def sorted_wrt_append intro: order.strict_trans)
next
  case (mt_retire gid b)
  from retire_cases [OF assms(2) mt_retire] assms(3) show ?thesis
    by (cases b) (auto simp: generations_ok_def front_or_gone_def)
qed

lemma steps_generations:
  "(mt_step D ^^ n) m m' \<Longrightarrow> memtable_ok inv m \<Longrightarrow> generations_ok m \<Longrightarrow>
   unat (next_generation_id m) + n < 2 ^ 64 \<Longrightarrow>
   memtable_ok inv m' \<and> generations_ok m' \<and> unat (next_generation_id m') \<le> unat (next_generation_id m) + n \<and>
   (front_or_gone t m \<longrightarrow> front_or_gone t m')"
proof (induction n arbitrary: m')
  case (Suc n)
  obtain k where k: "(mt_step D ^^ n) m k" "mt_step D k m'" using Suc.prems(1) by auto
  then show ?case using Suc.IH [OF k(1)] Suc.prems step_generations [OF k(2), of t] by auto
qed simp

lemma dumpD:
  assumes "MemTable_dump_oldest_immutable D oom m out0 gid0 = (Ok, out, gid)" "memtable_ok inv m"
  shows "\<exists>t ts. immutable_tables m = t # ts \<and> generation_id t = gid \<and> recs (table t) = out"
  using assms dump_recs
  by (auto simp: MemTable_dump_oldest_immutable_def MemTable_oldest_immutable_def memtable_ok_def
      split: sum.splits list.splits if_splits)

lemma flush_exact:
  assumes ok: "memtable_ok inv m0" "generations_ok m0"
    and dump: "MemTable_dump_oldest_immutable D oom m0 out0 gid0 = (Ok, out, gid)"
    and steps: "(mt_step D ^^ n) m0 m1" "unat (next_generation_id m0) + n < 2 ^ 64"
    and retire: "MemTable_retire_oldest_immutable gid m1 = (b, m2)"
  shows "if b then memtable_records recs m1 = memtable_records recs m2 @ out else m2 = m1"
proof -
  obtain t ts where t: "immutable_tables m0 = t # ts" "generation_id t = gid" "recs (table t) = out"
    using dumpD [OF dump ok(1)] by blast
  have "front_or_gone t m0" using t ok(2) by (auto simp: front_or_gone_def generations_ok_def)
  then have after: "memtable_ok inv m1" "front_or_gone t m1"
    using steps_generations [OF steps(1) ok steps(2)] by blast+
  show ?thesis using retire_cases [OF after(1) retire] after(2) t(2,3) by (auto simp: front_or_gone_def split: if_splits)
qed

lemma user_steps_keep_front:
  "(mt_user_step D)\<^sup>*\<^sup>* m m' \<Longrightarrow> memtable_ok inv m \<Longrightarrow> immutable_tables m = t # ts \<Longrightarrow>
    memtable_ok inv m' \<and> (\<exists>ts'. immutable_tables m' = t # ts')"
proof (induction rule: rtranclp_induct)
  case (step y z)
  then show ?case using user_step_cases [OF step(2)] by fastforce
qed blast

lemma flush_completes:
  assumes "memtable_ok inv m0" "MemTable_dump_oldest_immutable D oom m0 out0 gid0 = (Ok, out, gid)"
    and "(mt_user_step D)\<^sup>*\<^sup>* m0 m1"
  shows "\<exists>m2. MemTable_retire_oldest_immutable gid m1 = (True, m2)"
proof -
  obtain t ts where t: "immutable_tables m0 = t # ts" "generation_id t = gid"
    using dumpD [OF assms(2,1)] by blast
  then show ?thesis using user_steps_keep_front [OF assms(3,1) t(1)]
    by (auto simp: MemTable_retire_oldest_immutable_def)
qed

text \<open>A client that uses increasing sequence numbers.\<close>

lemma apply_new:
  assumes ok: "memtable_ok inv m" and new: "\<forall>r'\<in>set (memtable_records recs m). seq_num r' < seq_num r" and "served ch"
  shows "fst (MemTable_apply D ch r m) = Ok \<and> memtable_ok inv (snd (MemTable_apply D ch r m)) \<and>
    set (memtable_records recs (snd (MemTable_apply D ch r m))) = insert r (set (memtable_records recs m))"
proof -
  have "ikey r \<notin> ikey ` set (recs (mutable_table m))"
    using new by (fastforce simp: memtable_records_def ikey_eq_iff)
  then have "fst (MemTable_apply D ch r m) = Ok"
    using insert_duplicate [of "mutable_table m" ch r] assms(1,3)
    by (auto simp: MemTable_apply_def memtable_ok_def split: prod.splits)
  then show ?thesis using apply_cases [OF ok, of ch r] by (cases "MemTable_apply D ch r m") auto
qed

lemma exec_writes:
  assumes ok: "memtable_ok inv m" and srv: "op_served op"
    and new: "\<forall>w\<in>set (op_writes op). \<forall>r'\<in>set (memtable_records recs m). seq_num r' < seq_num w"
  shows "memtable_ok inv (mt_exec D op m) \<and>
    set (memtable_records recs (mt_exec D op m)) = set (op_writes op) \<union> set (memtable_records recs m)"
proof (cases op)
  case (OpGet k)
  then show ?thesis using get_newest(2,3) [OF ok, of k] by (cases "MemTable_get D k m") auto
next
  case (OpFreeze b1 b2)
  then show ?thesis using freeze_cases [OF ok, of b1 b2] by (cases "MemTable_freeze_mutable D b1 b2 m") auto
qed (use apply_new [OF ok] srv new in \<open>auto simp: MemTable_put_def MemTable_remove_def\<close>)

lemma run_writes:
  "\<forall>op\<in>set ops. op_served op \<Longrightarrow> sorted_wrt (<) (map seq_num (writes ops)) \<Longrightarrow>
    memtable_ok inv (mt_run D ops (MemTable_new D)) \<and>
    set (memtable_records recs (mt_run D ops (MemTable_new D))) = set (writes ops)"
proof (induction ops rule: rev_induct)
  case Nil
  then show ?case using new_inv new_recs
    by (simp add: mt_run_def MemTable_new_def memtable_ok_def memtable_records_def writes_def)
next
  case (snoc op ops)
  have w: "writes (ops @ [op]) = writes ops @ op_writes op" by (simp add: writes_def)
  have IH: "memtable_ok inv (mt_run D ops (MemTable_new D))"
    "set (memtable_records recs (mt_run D ops (MemTable_new D))) = set (writes ops)"
    using snoc by (auto simp: w sorted_wrt_append)
  have "\<forall>v\<in>set (op_writes op). \<forall>r\<in>set (writes ops). seq_num r < seq_num v"
    using snoc.prems(2) by (auto simp: w sorted_wrt_append)
  then show ?case using exec_writes [OF IH(1), of op] snoc.prems(1) IH(2)
    by (auto simp: mt_run_def w)
qed

lemma get_last_write:
  assumes "\<forall>op\<in>set ops. op_served op" "sorted_wrt (<) (map seq_num (writes ops))"
  shows "fst (MemTable_get D k (mt_run D ops (MemTable_new D))) = Inr (last_write k ops)"
proof -
  let ?m = "mt_run D ops (MemTable_new D)"
  have run: "memtable_ok inv ?m" "set (memtable_records recs ?m) = set (writes ops)"
    using run_writes [OF assms] by auto
  obtain res m' where g: "MemTable_get D k ?m = (res, m')" by (cases "MemTable_get D k ?m")
  obtain x where "res = Inr x" "newest_version k (set (writes ops)) x"
    using get_newest(1) [OF run(1) g] run(2) by auto
  then show ?thesis using newest_version_increasing [OF assms(2)] g by (simp add: last_write_def)
qed

end

section \<open>Properties\<close>

abbreviation mt_ok :: "any_driver MemTable \<Rightarrow> bool" where
  "mt_ok \<equiv> memtable_ok driver_ok"

abbreviation mt_records :: "any_driver MemTable \<Rightarrow> InternalRecord list" where
  "mt_records \<equiv> memtable_records driver_records"

text \<open>Over any of the four drivers, \<open>get\<close> succeeds and
  returns the record of the key with the highest sequence number among all the generations, a
  tombstone included, or nothing when no generation has the key. It may restructure the active
  table but keeps every record and the invariant.\<close>

lemma memtable_get_newest:
  assumes "mt_ok m"
  shows "case MemTable_get (dispatch ly kind) k m of (res, m') \<Rightarrow>
    (\<exists>x. res = Inr x \<and> newest_version k (set (mt_records m)) x) \<and>
    mt_ok m' \<and> mt_records m' = mt_records m"
  using dv.get_newest(1-3) [OF assms, of ly kind k]
  by (cases "MemTable_get (dispatch ly kind) k m") auto

text \<open>C11 (a lookup returns the last write). After any sequence of puts, removes, lookups and
  freezes with increasing sequence numbers, in which the heap serves the insertions (freezes may
  fail), \<open>get\<close> returns what the last put or remove of the key wrote: the table refines a map from
  keys to their last write, for each of the four drivers.\<close>

theorem memtable_get_last_write:
  assumes "\<forall>op\<in>set ops. op_served op" "sorted_wrt (<) (map seq_num (writes ops))"
  shows "fst (MemTable_get (dispatch ly kind) k (mt_run (dispatch ly kind) ops (MemTable_new (dispatch ly kind)))) =
    Inr (last_write k ops)"
  by (rule dv.get_last_write [OF assms])

text \<open>C12 (a flush retires exactly what it wrote). The flusher dumps the oldest generation and
  later retires it by its id. Whatever steps of clients and other flushers come in between, when
  the retirement succeeds it removes exactly the dumped records, and otherwise nothing; as long
  as the 64-bit generation counter does not wrap around.\<close>

theorem memtable_flush_exact:
  assumes "mt_ok m0" "generations_ok m0"
    and "MemTable_dump_oldest_immutable (dispatch ly kind) oom m0 out0 gid0 = (Ok, out, gid)"
    and "(mt_step (dispatch ly kind) ^^ n) m0 m1" "unat (next_generation_id m0) + n < 2 ^ 64"
    and "MemTable_retire_oldest_immutable gid m1 = (b, m2)"
  shows "if b then mt_records m1 = mt_records m2 @ out else m2 = m1"
  by (rule dv.flush_exact [OF assms])

text \<open>When only client steps come between the dump and the retirement,
  the retirement succeeds: freezes queue behind the generation being flushed.\<close>

lemma memtable_flush_completes:
  assumes "mt_ok m0" "MemTable_dump_oldest_immutable (dispatch ly kind) oom m0 out0 gid0 = (Ok, out, gid)"
    and "(mt_user_step (dispatch ly kind))\<^sup>*\<^sup>* m0 m1"
  shows "\<exists>m2. MemTable_retire_oldest_immutable gid m1 = (True, m2)"
  by (rule dv.flush_completes [OF assms])

text \<open>From a new table, after any number of steps that does not
  exhaust the generation counter, every driver is well formed and the generations are in
  increasing order below the next id.\<close>

lemma memtable_invariant:
  assumes "(mt_step (dispatch ly kind) ^^ n) (MemTable_new (dispatch ly kind)) m" "n + 1 < 2 ^ 64"
  shows "mt_ok m \<and> generations_ok m"
proof -
  have "mt_ok (MemTable_new (dispatch ly kind))" "generations_ok (MemTable_new (dispatch ly kind))"
    using dv.new_inv by (auto simp: MemTable_new_def memtable_ok_def generations_ok_def)
  then show ?thesis using dv.steps_generations [OF assms(1)] assms(2) by (simp add: MemTable_new_def)
qed

section \<open>Witnesses\<close>

definition ex_layout :: layout where
  "ex_layout = \<lparr>rb_size = 80, treap_size = 80, splay_size = 72, skip_size = 96, pointer_size = 8\<rparr>"

definition ex_ops :: "mt_op list" where
  "ex_ops = [OpPut ex_chance [1] [10] 1, OpFreeze False False, OpGet [1], OpRemove ex_chance [1] 2,
     OpFreeze True False, OpPut ex_chance [2] [20] 3]"

lemma ex_ops_ok:
  "\<forall>op\<in>set ex_ops. op_served op" "sorted_wrt (<) (map seq_num (writes ex_ops))"
  by (simp_all add: ex_ops_def ex_chance_def served_def writes_def)

theorem memtable_get_last_write_witness:
  "fst (MemTable_get (dispatch ex_layout KSkipList) [1]
      (mt_run (dispatch ex_layout KSkipList) ex_ops (MemTable_new (dispatch ex_layout KSkipList)))) =
    Inr (Some \<lparr>key_entry = [1], value_entry = [], rtype = Tombstone, seq_num = 2\<rparr>)"
  using memtable_get_last_write [OF ex_ops_ok, of ex_layout KSkipList "[1]"]
  by (simp add: last_write_def writes_def ex_ops_def)

definition ex_frozen :: "any_driver MemTable" where
  "ex_frozen = \<lparr>mutable_table = DSplayTree ex_splay,
     immutable_tables = [\<lparr>generation_id = 4, table = DRBTree ex_rbt\<rparr>], next_generation_id = 5\<rparr>"

lemma ex_frozen_ok: "mt_ok ex_frozen" "generations_ok ex_frozen"
  by (simp_all add: ex_frozen_def memtable_ok_def generations_ok_def ex_splay_valid ex_rbt_valid)

lemma ex_frozen_records:
  "mt_records ex_frozen = inorder ex_splay @ inorder ex_rbt"
  by (simp add: ex_frozen_def memtable_records_def)

lemma ex_dump:
  "MemTable_dump_oldest_immutable (dispatch ex_layout KRBTree) False ex_frozen [] 0 = (Ok, inorder ex_rbt, 4)"
  using dv.dump_recs [where d = "DRBTree ex_rbt" and out = "[]" and ly = ex_layout and kind = KRBTree]
  by (simp add: MemTable_dump_oldest_immutable_def MemTable_oldest_immutable_def ex_frozen_def ex_rbt_valid)

theorem memtable_flush_exact_witness:
  "mt_records ex_frozen =
    mt_records (snd (MemTable_retire_oldest_immutable 4 ex_frozen)) @ inorder ex_rbt"
proof -
  have "MemTable_retire_oldest_immutable 4 ex_frozen = (True, snd (MemTable_retire_oldest_immutable 4 ex_frozen))"
    by (simp add: MemTable_retire_oldest_immutable_def ex_frozen_def)
  moreover have "(mt_step (dispatch ex_layout KRBTree) ^^ 0) ex_frozen ex_frozen" by simp
  moreover have "unat (next_generation_id ex_frozen) + 0 < 2 ^ 64" by (simp add: ex_frozen_def)
  ultimately show ?thesis
    using memtable_flush_exact [OF ex_frozen_ok ex_dump, of 0 ex_frozen True] by simp
qed

end
