(* ===== verification/SSTableBuilder.thy ===== *)
theory SSTableBuilder
  imports MergeIterator MemTable CompactionScheduler
begin

text \<open>
  Building tables (\<^verbatim>\<open>core/sstable_infra/sstable_builder.cpp\<close>) from a vector, a memtable generation, an
  iterator or record by record, and the metadata of a finished table (\<^verbatim>\<open>make_table_meta\<close>). A builder accepts
  exactly the sorted lists of storable records; a finished table is published under its path, holds
  exactly these records, and its metadata bounds their keys and sequence numbers.
\<close>

section \<open>Batch construction\<close>

definition record_less :: "InternalRecord \<Rightarrow> InternalRecord \<Rightarrow> bool" where
  "record_less lhs rhs =
     (if entry_eq (key_entry lhs) (key_entry rhs) then seq_num lhs > seq_num rhs
      else entry_less (key_entry lhs) (key_entry rhs))"

text \<open>The loop of \<open>validate_records\<close>; \<open>prev\<close> is the record before the current one. An entry is its bytes,
  so the null-pointer checks of \<open>validate_record\<close> have no counterpart.\<close>

fun validate_from :: "InternalRecord option \<Rightarrow> InternalRecord list \<Rightarrow> StatusCode" where
  "validate_from prev [] = Ok"
| "validate_from prev (r # rs) =
     (if (case prev of None \<Rightarrow> False | Some q \<Rightarrow> record_less r q) then InvalidArgument else validate_from (Some r) rs)"

definition validate_records :: "InternalRecord list \<Rightarrow> StatusCode" where
  "validate_records rs = validate_from None rs"

definition build_impl :: "zlib \<Rightarrow> u32 \<Rightarrow> InternalRecord list \<Rightarrow> string \<Rightarrow> string \<Rightarrow> SSTable option result" where
  "build_impl z tid rs p q =
     (if rs = [] then Inr None
      else let validation = validate_records rs in
        if \<not> is_ok validation then Inl validation
        else case run_all (map (append_record z) rs) (SSTable_building z p q tid) of (c, t) \<Rightarrow>
          if \<not> is_ok c then Inl c else Inr (Some t))"

definition build_memtable ::
    "zlib \<Rightarrow> 'd Driver \<Rightarrow> bool \<Rightarrow> u32 \<Rightarrow> 'd MemTable \<Rightarrow> string \<Rightarrow> string \<Rightarrow> SSTable option result" where
  "build_memtable z D dump_oom tid m p q =
     (case MemTable_dump_oldest_immutable D dump_oom m [] 0 of (c, rs, gid) \<Rightarrow>
        if \<not> is_ok c then (if c = NotFound then Inr None else Inl c)
        else build_impl z tid rs p q)"

definition build_iterator ::
    "zlib \<Rightarrow> u32 \<Rightarrow> string \<Rightarrow> string \<Rightarrow> SSTableIterator \<times> arena \<Rightarrow> (SSTable option result \<times> SSTableIterator \<times> arena) option" where
  "build_iterator z tid p q s =
     (case SSTableIterator_seek_to_first z s of
        None \<Rightarrow> None
      | Some (c, it, ar) \<Rightarrow>
          if \<not> is_ok c then Some (Inl c, it, ar)
          else (case collect (SSTableIterator_next z) SSTableIterator_record it_valid [] it ar of
                  None \<Rightarrow> None
                | Some (Inl e, s') \<Rightarrow> Some (Inl e, s')
                | Some (Inr rs, s') \<Rightarrow> Some (build_impl z tid rs p q, s')))"

definition build_records :: "zlib \<Rightarrow> u32 \<Rightarrow> InternalRecord list \<Rightarrow> string \<Rightarrow> string \<Rightarrow> SSTable option result" where
  "build_records = build_impl"

section \<open>Estimated size\<close>

definition saturating_add :: "u64 \<Rightarrow> u64 \<Rightarrow> u64" where
  "saturating_add lhs rhs = (if lhs > - 1 - rhs then - 1 else lhs + rhs)"

record space =
  sp_records :: u64
  sp_index :: u64
  sp_block :: u64
  sp_last :: "InternalRecord option"

definition add_index_entry :: "space \<Rightarrow> u64" where
  "add_index_entry s = (case sp_last s of
     None \<Rightarrow> sp_index s
   | Some r \<Rightarrow> saturating_add (saturating_add (sp_index s) (of_nat IndexPayload_fixed_disk_size)) (ucast (entry_size (key_entry r))))"

definition space_step :: "InternalRecord \<Rightarrow> space \<Rightarrow> space" where
  "space_step r s =
     (let n = ucast (record_disk_size r) :: u64;
          s = s\<lparr>sp_records := saturating_add (sp_records s) n\<rparr>;
          s = (if sp_block s > 0 \<and> n \<le> - 1 - sp_block s \<and> sp_block s + n > of_nat BLOCK_SIZE
               then s\<lparr>sp_index := add_index_entry s, sp_block := 0, sp_last := None\<rparr> else s)
      in s\<lparr>sp_block := saturating_add (sp_block s) n, sp_last := Some r\<rparr>)"

definition approximate_disk_space :: "InternalRecord list \<Rightarrow> u64" where
  "approximate_disk_space rs =
     (let s = fold space_step rs \<lparr>sp_records = 0, sp_index = 0, sp_block = 0, sp_last = None\<rparr>;
          index_size = (if sp_block s > 0 then add_index_entry s else sp_index s)
      in saturating_add (saturating_add (saturating_add (of_nat SSTable_fixed_disk_size) (of_nat IndexHeader_disk_size)) (sp_records s)) index_size)"

section \<open>Metadata of a table\<close>

text \<open>Paths are strings in the model of the file system and bytes in the manifest.\<close>

definition path_bytes :: "string \<Rightarrow> byte list" where
  "path_bytes p = map (\<lambda>c. of_nat (of_char c)) p"

definition path_of_bytes :: "byte list \<Rightarrow> string" where
  "path_of_bytes bs = map (\<lambda>b. char_of (unat b)) bs"

definition make_table_meta :: "SSTable \<Rightarrow> u32 \<Rightarrow> arena \<Rightarrow> (TableMeta result \<times> arena) option" where
  "make_table_meta t level ar =
     (let p = ms_payload (tb_meta t); checkpoint = take_checkpoint ar;
          fail_and_rollback = (\<lambda>e ar. map_option (Pair (Inl e)) (rollback checkpoint ar)) in
      case arena_make_entry (mp_min_key p) ar of
        (Inl e, ar) \<Rightarrow> fail_and_rollback e ar
      | (Inr smallest, ar) \<Rightarrow>
          (case arena_make_entry (mp_max_key p) ar of
             (Inl e, ar) \<Rightarrow> fail_and_rollback e ar
           | (Inr largest, ar) \<Rightarrow>
               let m = \<lparr>table_id = ucast (fh_table_id (tb_header t)), tm_level = level, tm_path = path_bytes (tb_path t),
                     min_seq = mp_min_seq p, max_seq = mp_max_seq p, file_size = ff_file_size (tb_footer t),
                     record_count = mp_record_count p, tombstone_count = mp_tombstone_count p,
                     data_block_count = mp_block_count p, data_bytes = mp_data_bytes p,
                     smallest_key = smallest, largest_key = largest\<rparr>;
                   validation = TableMeta_validate m in
               if \<not> is_ok validation then fail_and_rollback validation ar else Some (Inr m, ar)))"

section \<open>Streaming construction\<close>

text \<open>The state of a streaming builder is its table.\<close>

definition SSTableStreamingBuilder_new :: "zlib \<Rightarrow> string \<Rightarrow> string \<Rightarrow> u32 \<Rightarrow> SSTable" where
  "SSTableStreamingBuilder_new = SSTable_building"

definition builder_empty :: "SSTable \<Rightarrow> bool" where
  "builder_empty t \<longleftrightarrow> data_blocks (tb_data t) = []"

definition builder_add :: "zlib \<Rightarrow> InternalRecord \<Rightarrow> SSTable action" where
  "builder_add z r t =
     (let blocks = data_blocks (tb_data t) in
      if blocks \<noteq> [] \<and> db_payloads (last blocks) \<noteq> [] \<and> record_less r (record_of (last (db_payloads (last blocks))))
      then (InvalidArgument, t) else append_record z r t)"

definition builder_approximate_disk_space :: "SSTable \<Rightarrow> u64" where
  "builder_approximate_disk_space t = approximate_disk_space (map record_of (concat (map db_payloads (data_blocks (tb_data t)))))"

definition builder_finish ::
    "zlib \<Rightarrow> write_env \<Rightarrow> u32 \<Rightarrow> SSTable \<times> disk \<times> arena \<Rightarrow> (TableMeta option result \<times> SSTable \<times> disk \<times> arena) option" where
  "builder_finish z env level s = (case s of (t, d, ar) \<Rightarrow>
     if builder_empty t then Some (Inr None, t, d, ar)
     else case SSTable_write z env (t, d) of (c, t', d') \<Rightarrow>
       if \<not> is_ok c then Some (Inl c, t', d', ar)
       else case make_table_meta t' level ar of
         None \<Rightarrow> None
       | Some (Inl e, ar') \<Rightarrow> Some (Inl e, t', d', ar')
       | Some (Inr m, ar') \<Rightarrow> Some (Inr (Some m), t', d', ar'))"

section \<open>What the batch builders accept\<close>

lemma record_less_iff [simp]: "record_less a b \<longleftrightarrow> ikey a < ikey b"
  by (auto simp: record_less_def ikey_def word_less_def)

lemma validate_from_iff:
  "validate_from prev rs = (if sorted (map ikey ((case prev of None \<Rightarrow> [] | Some q \<Rightarrow> [q]) @ rs)) then Ok else InvalidArgument)"
proof (induction prev rs rule: validate_from.induct)
  case (2 prev r rs)
  then show ?case by (cases prev) (auto simp: not_less)
qed (auto split: option.split)

lemma validate_records_iff: "validate_records rs = (if sorted (map ikey rs) then Ok else InvalidArgument)"
  by (simp add: validate_records_def validate_from_iff)

definition buildable :: "InternalRecord list \<Rightarrow> bool" where
  "buildable rs \<longleftrightarrow> sorted_records rs \<and> list_all storable rs"

lemma append_all_iff:
  assumes "section_ok z (tb_data t)" "tb_state t = Building" "sorted_records (section_records (tb_data t))"
  shows "fst (run_all (map (append_record z) rs) t) = Ok \<longleftrightarrow> list_all storable rs \<and> sorted_records (section_records (tb_data t) @ rs)"
  using assms
proof (induction rs arbitrary: t)
  case (Cons r rs)
  obtain c ds where ds: "DataSection_add_payload z r (tb_data t) = (c, ds)" by fastforce
  note e = add_payload_effect [OF Cons.prems(1) ds]
  show ?case
  proof (cases "c = Ok")
    case False
    then show ?thesis using e ds Cons.prems(2) by (auto simp: append_record_def sorted_wrt_append)
  next
    case True
    have s: "sorted_records (section_records ds)" using e True by (intro section_ok_sorted [of z]) simp
    from e Cons.IH [of "t\<lparr>tb_data := ds\<rparr>"] True ds Cons.prems(2) s show ?thesis
      by (auto simp: append_record_def)
  qed
qed simp

lemma sorted_records_weaken: "sorted_records rs \<Longrightarrow> sorted (map ikey rs)"
  by (simp add: sorted_records_map strict_sorted_iff)

lemma build_impl_spec:
  "case build_impl z tid rs p q of
     Inl e \<Rightarrow> rs \<noteq> [] \<and> \<not> buildable rs \<and> e \<noteq> Ok
   | Inr None \<Rightarrow> rs = []
   | Inr (Some t) \<Rightarrow> rs \<noteq> [] \<and> buildable rs \<and> run_all (map (append_record z) rs) (SSTable_building z p q tid) = (Ok, t)"
proof -
  let ?t0 = "SSTable_building z p q tid"
  have t0: "tb_data ?t0 = \<lparr>data_blocks = []\<rparr>" "tb_state ?t0 = Building" by (simp_all add: SSTable_building_def SSTable_default_def)
  have i: "fst (run_all (map (append_record z) rs) ?t0) = Ok \<longleftrightarrow> buildable rs"
    using append_all_iff [of z ?t0 rs] t0 empty_section_ok by (auto simp: buildable_def)
  show ?thesis
  proof (cases "rs = [] \<or> \<not> sorted (map ikey rs)")
    case True
    then show ?thesis by (auto simp: build_impl_def validate_records_iff buildable_def dest: sorted_records_weaken)
  next
    case False
    then show ?thesis using i
      by (cases "run_all (map (append_record z) rs) ?t0") (auto simp: build_impl_def validate_records_iff split: option.split)
  qed
qed

lemma build_impl_builds:
  assumes "build_impl z tid rs p q = Inr (Some t)"
  shows "section_ok z (tb_data t)" "section_records (tb_data t) = rs" "tb_state t = Building" "tb_path t = p" "tb_final_path t = q"
    "tb_header t = FileHeader_of z tid" "data_blocks (tb_data t) \<noteq> []" "buildable rs" "rs \<noteq> []"
proof -
  have b: "rs \<noteq> []" "buildable rs" "run_all (map (append_record z) rs) (SSTable_building z p q tid) = (Ok, t)"
    using build_impl_spec [where z = z and tid = tid and rs = rs and p = p and q = q] assms by auto
  note a = building_all [OF b(3)]
  show "section_ok z (tb_data t)" "section_records (tb_data t) = rs" "tb_state t = Building" "tb_path t = p" "tb_final_path t = q"
    "tb_header t = FileHeader_of z tid" "data_blocks (tb_data t) \<noteq> []" "buildable rs" "rs \<noteq> []" using a a(7) [OF b(1)] b by simp_all
qed

text \<open>Rebuilding a published table from its iterator.\<close>

lemma build_iterator_rebuilds:
  assumes "crc_incremental z" "table_source z sp it rs" "arena_ok ar" "never_oom ar"
  shows "\<exists>it' ar'. build_iterator z tid p q (it, ar) = Some (build_impl z tid rs p q, it', ar') \<and> extends ar ar' \<and> never_oom ar'"
proof -
  obtain D off pss where sp: "sp = (D, off, pss)" by (metis prod_cases3)
  obtain it1 ar1 where s: "SSTableIterator_seek_to_first z (it, ar) = Some (Ok, it1, ar1)" "reads_source z sp it1 rs" "extends ar ar1" "never_oom ar1"
    using seek_source [OF assms] by blast
  have "iterates z D off pss it1 rs" "arena_ok ar1" using s(2,3) sp by (simp_all add: reads_source_def extends_def)
  from table_cursor.collect_all [OF this s(4), of "[]"] s(1,3) extends_trans [OF s(3)] show ?thesis
    by (auto simp: build_iterator_def)
qed

lemma new_iterator_source:
  assumes "table_bytes z D ds h bp mp (tb_footer t)" "read_quiet D f"
  shows "table_source z (D, unat (ff_data_offset (tb_footer t)), map db_payloads (data_blocks ds)) (SSTableIterator_new t f) (section_records ds)"
  using assms by (auto simp: table_source_def SSTableIterator_new_def read_quiet_def)

lemma open_quiet:
  assumes "d p = Some D" "length D \<le> ssize_max" "re_opened env = Ok" "ReadErr \<notin> set (re_reads env)"
  shows "\<exists>f. open_readable_file env p d = Inr f \<and> read_quiet D f"
  using assms by (simp add: open_readable_file_def read_quiet_def)

section \<open>The estimate\<close>

lemma unat_complement: "unat (- 1 - b :: u64) = u64_max - unat b"
proof -
  have "unat (- 1 :: u64) = u64_max" by (simp add: unsigned_minus_1_eq_mask mask_eq_exp_minus_1)
  then show ?thesis using unat_sub [of b "- 1"] by (simp add: word_order.extremum)
qed

lemma saturating_add_unat: "unat (saturating_add a b) = min (unat a + unat b) u64_max"
proof (cases "unat a + unat b \<le> u64_max")
  case True
  then have "\<not> a > - 1 - b" by (simp add: word_less_nat_alt unat_complement)
  then show ?thesis using True unat_add_lem [of a b] by (simp add: saturating_add_def)
next
  case False
  then have "a > - 1 - b" using unsigned_less [of b, where 'a = nat] by (simp add: word_less_nat_alt unat_complement)
  then show ?thesis using False by (simp add: saturating_add_def unsigned_minus_1_eq_mask mask_eq_exp_minus_1)
qed

text \<open>The size computed in unbounded arithmetic: \<open>cur\<close> is the estimated size of the open block, \<open>k\<close> the
  size of its last key.\<close>

fun index_estimate :: "nat \<Rightarrow> nat \<Rightarrow> InternalRecord list \<Rightarrow> nat" where
  "index_estimate cur k [] = (if cur > 0 then 16 + k else 0)"
| "index_estimate cur k (r # rs) =
     (if cur > 0 \<and> cur + stored_size r > 4096 then 16 + k + index_estimate (stored_size r) (length (key_entry r)) rs
      else index_estimate (cur + stored_size r) (length (key_entry r)) rs)"

definition estimated_size :: "InternalRecord list \<Rightarrow> nat" where
  "estimated_size rs = 327 + sum_list (map stored_size rs) + index_estimate 0 0 rs"

definition tracks_space :: "space \<Rightarrow> nat \<Rightarrow> nat \<Rightarrow> nat \<Rightarrow> nat \<Rightarrow> bool" where
  "tracks_space s n i cur k \<longleftrightarrow> unat (sp_records s) = min n u64_max \<and> unat (sp_index s) = min i u64_max \<and> unat (sp_block s) = cur \<and> cur \<le> 4096 \<and>
     (cur > 0 \<longrightarrow> (\<exists>r. sp_last s = Some r \<and> length (key_entry r) = k \<and> storable r))"

lemma unat_widen: "unat (ucast (x :: u32) :: u64) = unat x"
  using unsigned_less [of x, where 'a = nat] by (simp add: unsigned_ucast_eq take_bit_nat_eq_self_iff)

lemma storable_sizes:
  assumes "storable r"
  shows "unat (ucast (record_disk_size r) :: u64) = stored_size r" "unat (ucast (entry_size (key_entry r)) :: u64) = length (key_entry r)"
    "0 < stored_size r" "stored_size r \<le> 4087"
proof -
  have sz: "stored_size r \<le> 4087" "length (key_entry r) \<le> 4087" using assms by (simp_all add: storable_def stored_size_def)
  have "record_disk_size r = of_nat (stored_size r)" by (simp add: record_disk_size_def stored_size_def)
  then show "unat (ucast (record_disk_size r) :: u64) = stored_size r" using sz(1) by (simp add: unat_widen unat_nat32)
  show "unat (ucast (entry_size (key_entry r)) :: u64) = length (key_entry r)" using sz(2) by (simp add: unat_widen unat_nat32 entry_size_def)
  show "0 < stored_size r" "stored_size r \<le> 4087" using sz(1) by (simp_all add: stored_size_def)
qed

lemma add_index_entry_unat:
  assumes "tracks_space s n i cur k" "0 < cur"
  shows "unat (add_index_entry s) = min (i + (16 + k)) u64_max"
proof -
  obtain r where r: "sp_last s = Some r" "length (key_entry r) = k" "storable r" "unat (sp_index s) = min i u64_max"
    using assms by (auto simp: tracks_space_def)
  show ?thesis using storable_sizes(2) [OF r(3)] r(1,2,4)
    by (simp add: add_index_entry_def saturating_add_unat IndexPayload_fixed_disk_size_def min_def)
qed

lemma space_step_tracks:
  assumes t: "tracks_space s n i cur k" and r: "storable r"
  defines "full \<equiv> 0 < cur \<and> 4096 < cur + stored_size r"
  shows "tracks_space (space_step r s) (n + stored_size r) (if full then i + (16 + k) else i)
    ((if full then 0 else cur) + stored_size r) (length (key_entry r))"
proof -
  note sz = storable_sizes [OF r]
  have c: "unat (sp_block s) = cur" "cur \<le> 4096" "unat (sp_records s) = min n u64_max" "unat (sp_index s) = min i u64_max" using t by (simp_all add: tracks_space_def)
  have add: "unat (sp_block s + ucast (record_disk_size r)) = cur + stored_size r"
    using sz c(1,2) by (subst unat_add_lem [THEN iffD1]) simp_all
  have g: "(sp_block s > 0 \<and> ucast (record_disk_size r) \<le> - 1 - sp_block s \<and> sp_block s + ucast (record_disk_size r) > of_nat BLOCK_SIZE) = full"
    using sz c(1,2) add by (auto simp: full_def word_less_nat_alt word_le_nat_alt unat_complement BLOCK_SIZE_def)
  define s1 where "s1 = s\<lparr>sp_records := saturating_add (sp_records s) (ucast (record_disk_size r))\<rparr>"
  have t1: "tracks_space s1 (n + stored_size r) i cur k" using t sz(1) by (simp add: s1_def tracks_space_def saturating_add_unat)
  have st: "space_step r s = (let s2 = (if full then s1\<lparr>sp_index := add_index_entry s1, sp_block := 0, sp_last := None\<rparr> else s1) in
      s2\<lparr>sp_block := saturating_add (sp_block s2) (ucast (record_disk_size r)), sp_last := Some r\<rparr>)"
    using g by (simp add: space_step_def Let_def s1_def)
  show ?thesis
  proof (cases full)
    case True
    then have "0 < cur" by (simp add: full_def)
    from add_index_entry_unat [OF t1 this] show ?thesis using True t1 sz r
      by (simp add: st tracks_space_def saturating_add_unat)
  next
    case False
    then have "cur + stored_size r \<le> 4096" using sz by (auto simp: full_def)
    then show ?thesis using False t1 sz r by (simp add: st tracks_space_def saturating_add_unat)
  qed
qed

lemma fold_space_tracks:
  assumes "tracks_space s n i cur k" "list_all storable rs"
  shows "\<exists>cur' k' i'. tracks_space (fold space_step rs s) (n + sum_list (map stored_size rs)) i' cur' k' \<and>
    i + index_estimate cur k rs = i' + (if cur' > 0 then 16 + k' else 0)"
  using assms
proof (induction rs arbitrary: s n i cur k)
  case Nil
  then show ?case by (intro exI [of _ cur] exI [of _ k] exI [of _ i]) auto
next
  case (Cons r rs)
  have r: "storable r" "list_all storable rs" using Cons.prems(2) by simp_all
  from Cons.IH [OF space_step_tracks [OF Cons.prems(1) r(1)] r(2)] show ?case
    by (cases "0 < cur \<and> 4096 < cur + stored_size r") (auto simp: add.assoc)
qed

lemma approximate_disk_space_eq:
  assumes "list_all storable rs"
  shows "unat (approximate_disk_space rs) = min (estimated_size rs) u64_max"
proof -
  define s where "s = fold space_step rs \<lparr>sp_records = 0, sp_index = 0, sp_block = 0, sp_last = None\<rparr>"
  have "tracks_space \<lparr>sp_records = 0, sp_index = 0, sp_block = 0, sp_last = None\<rparr> 0 0 0 0" by (simp add: tracks_space_def)
  from fold_space_tracks [OF this assms, folded s_def] obtain cur k i where
    t: "tracks_space s (sum_list (map stored_size rs)) i cur k" "index_estimate 0 0 rs = i + (if cur > 0 then 16 + k else 0)" by auto
  have b: "sp_block s > 0 \<longleftrightarrow> cur > 0" using t(1) by (auto simp: tracks_space_def word_less_nat_alt)
  have "unat (if sp_block s > 0 then add_index_entry s else sp_index s) = min (index_estimate 0 0 rs) u64_max"
    using add_index_entry_unat [OF t(1)] t b by (cases "cur > 0") (simp_all add: tracks_space_def)
  moreover have "unat (sp_records s) = min (sum_list (map stored_size rs)) u64_max" using t(1) by (simp add: tracks_space_def)
  moreover have "unat (saturating_add (of_nat SSTable_fixed_disk_size) (of_nat IndexHeader_disk_size)) = 327"
    by (simp add: saturating_add_def SSTable_fixed_disk_size_def FileHeader_disk_size_def)
  ultimately show ?thesis unfolding approximate_disk_space_def Let_def s_def [symmetric] estimated_size_def
    by (simp add: saturating_add_unat min_def)
qed

section \<open>Metadata describes the table\<close>

definition describes :: "TableMeta \<Rightarrow> InternalRecord list \<Rightarrow> bool" where
  "describes m rs \<longleftrightarrow> rs \<noteq> [] \<and> smallest_key m = key_entry (hd rs) \<and> largest_key m = key_entry (last rs) \<and>
     unat (record_count m) = length rs \<and> unat (tombstone_count m) = length (filter (\<lambda>r. rtype r = Tombstone) rs) \<and>
     min_seq m \<in> seq_num ` set rs \<and> max_seq m \<in> seq_num ` set rs \<and>
     (\<forall>r\<in>set rs. smallest_key m \<le> key_entry r \<and> key_entry r \<le> largest_key m \<and> min_seq m \<le> seq_num r \<and> seq_num r \<le> max_seq m)"

lemma make_entry_ok:
  assumes "arena_ok ar" "never_oom ar" "length bs \<le> u32_max"
  shows "\<exists>ar'. arena_make_entry bs ar = (Inr bs, ar') \<and> extends ar ar' \<and> never_oom ar'"
proof (cases "bs = []")
  case True
  then show ?thesis using assms by (simp add: arena_make_entry_def arena_copy_bytes_def extends_refl)
next
  case False
  have "has_single_bit 1" using has_single_bit_pow [of 0] by simp
  moreover have "0 < length bs" using False by simp
  ultimately obtain p br where "alloc (length bs) 1 ar = (Inr p, br)" "never_oom br" "extends ar br" by (rule alloc_served [OF assms(1,2)])
  then show ?thesis using False assms(3) by (simp add: arena_make_entry_def arena_copy_bytes_def)
qed

lemma path_bytes_inverse [simp]: "path_of_bytes (path_bytes p) = p"
proof -
  have "char_of (unat (of_nat (of_char c) :: byte)) = c" for c
    by (simp add: unat_of_nat char_of_take_bit_eq)
  then show ?thesis by (simp add: path_of_bytes_def path_bytes_def map_idI)
qed

lemma path_bytes_length [simp]: "length (path_bytes p) = length p"
  by (simp add: path_bytes_def)

lemma sorted_ends_bounds:
  assumes "sorted_records rs" "r \<in> set rs"
  shows "key_entry (hd rs) \<le> key_entry r" "key_entry r \<le> key_entry (last rs)"
proof -
  have le: "key_entry a \<le> key_entry b" if "ikey a < ikey b" for a b using that by (auto simp: ikey_def)
  obtain x xs where x: "rs = x # xs" using assms(2) by (cases rs) auto
  show "key_entry (hd rs) \<le> key_entry r" using assms le x by auto
  obtain ys y where y: "rs = ys @ [y]" using assms(2) by (cases rs rule: rev_cases) auto
  show "key_entry r \<le> key_entry (last rs)" using assms le y by (auto simp: sorted_wrt_append)
qed

lemma summarises_records:
  assumes "section_ok z ds" "data_blocks ds \<noteq> []" "summarises (section_payloads ds) mp"
  shows "section_records ds \<noteq> []" "mp_min_key mp = key_entry (hd (section_records ds))" "mp_max_key mp = key_entry (last (section_records ds))"
    "unat (mp_record_count mp) = length (section_records ds)"
    "unat (mp_tombstone_count mp) = length (filter (\<lambda>r. rtype r = Tombstone) (section_records ds))"
    "mp_min_seq mp \<in> seq_num ` set (section_records ds)" "mp_max_seq mp \<in> seq_num ` set (section_records ds)"
    "\<forall>r\<in>set (section_records ds). mp_min_key mp \<le> key_entry r \<and> key_entry r \<le> mp_max_key mp \<and> mp_min_seq mp \<le> seq_num r \<and> seq_num r \<le> mp_max_seq mp"
proof -
  let ?rs = "section_records ds"
  have "\<forall>b\<in>set (data_blocks ds). db_payloads b \<noteq> []" using assms(1) by (auto simp: section_ok_def block_ok_def block_list_ok_def)
  then show ne: "?rs \<noteq> []" using assms(2) by (cases "data_blocks ds") (auto simp: section_records_def section_payloads_def)
  have fields: "key_entry (record_of p) = pl_key p" "seq_num (record_of p) = pl_seq p" "rtype (record_of p) = type_of_u8 (pl_type p)" for p
    by (simp_all add: record_of_def)
  have s: "mp_min_key mp \<in> key_entry ` set ?rs" "mp_max_key mp \<in> key_entry ` set ?rs"
    "mp_min_seq mp \<in> seq_num ` set ?rs" "mp_max_seq mp \<in> seq_num ` set ?rs"
    "\<forall>r\<in>set ?rs. mp_min_key mp \<le> key_entry r \<and> key_entry r \<le> mp_max_key mp \<and> mp_min_seq mp \<le> seq_num r \<and> seq_num r \<le> mp_max_seq mp"
    using assms(3) ne by (auto simp: summarises_def section_records_def image_image fields)
  show "mp_min_seq mp \<in> seq_num ` set ?rs" "mp_max_seq mp \<in> seq_num ` set ?rs"
    "\<forall>r\<in>set ?rs. mp_min_key mp \<le> key_entry r \<and> key_entry r \<le> mp_max_key mp \<and> mp_min_seq mp \<le> seq_num r \<and> seq_num r \<le> mp_max_seq mp" by fact+
  show "unat (mp_record_count mp) = length ?rs" "unat (mp_tombstone_count mp) = length (filter (\<lambda>r. rtype r = Tombstone) ?rs)"
    using assms(3) by (simp_all add: summarises_def section_records_def filter_map comp_def fields)
  note srt = section_ok_sorted [OF assms(1)]
  show "mp_min_key mp = key_entry (hd ?rs)" "mp_max_key mp = key_entry (last ?rs)"
    using s(1,2,5) sorted_ends_bounds [OF srt] hd_in_set [OF ne] last_in_set [OF ne] by (auto intro!: antisym)
qed

lemma make_table_meta_published:
  assumes tb: "table_bytes z D (tb_data t) h bp (ms_payload (tb_meta t)) (tb_footer t)" and ar: "arena_ok ar" "never_oom ar" "length (tb_path t) \<le> 60000"
  shows "\<exists>m ar'. make_table_meta t level ar = Some (Inr m, ar') \<and> extends ar ar' \<and> never_oom ar' \<and>
    table_id m = ucast (fh_table_id (tb_header t)) \<and> tm_level m = level \<and> path_of_bytes (tm_path m) = tb_path t \<and>
    describes m (section_records (tb_data t))"
proof -
  let ?p = "ms_payload (tb_meta t)" and ?f = "tb_footer t"
  note T = table_bytesD [OF tb]
  note S = summarises_records [OF T(1,2,15)]
  have v: "length (mp_min_key ?p) + length (mp_max_key ?p) \<le> 4031" "mp_tombstone_count ?p \<le> mp_record_count ?p"
    "unat (mp_data_bytes ?p) \<le> unat (mp_block_count ?p) * BLOCK_SIZE"
    using T(14) by (auto simp: MetaPayload_validate_def Let_def BLOCK_SIZE_def not_less split: if_splits)
  obtain q :: "byte list" where q: "FileFooter_validate z (length q) (length D) ?f = Ok" using T(19) by blast
  have "unat (ff_file_size ?f) = length D" using q by (auto simp: FileFooter_validate_def Let_def split: if_splits)
  moreover have "0 < unat (ff_block_count ?f)" using T(2,7) by simp
  ultimately have "unat (mp_block_count ?p) * BLOCK_SIZE \<le> unat (ff_file_size ?f)"
    using footer_validD [OF q] T(7,16) by auto
  then have db: "mp_data_bytes ?p \<le> ff_file_size ?f" using v(3) by (simp add: word_le_nat_alt)
  have "length (mp_min_key ?p) \<le> u32_max" "length (mp_max_key ?p) \<le> u32_max" using v(1) by simp_all
  note small = this
  obtain ar1 where a1: "arena_make_entry (mp_min_key ?p) ar = (Inr (mp_min_key ?p), ar1)" "extends ar ar1" "never_oom ar1"
    using make_entry_ok [OF ar(1,2) small(1)] by blast
  have "arena_ok ar1" using a1(2) by (simp add: extends_def)
  from make_entry_ok [OF this a1(3) small(2)] a1 extends_trans [OF a1(2)] obtain ar2 where
    a: "arena_make_entry (mp_min_key ?p) ar = (Inr (mp_min_key ?p), ar1)" "arena_make_entry (mp_max_key ?p) ar1 = (Inr (mp_max_key ?p), ar2)"
    "extends ar ar2" "never_oom ar2" by blast
  have sz: "unat (entry_size (mp_min_key ?p)) = length (mp_min_key ?p)" "unat (entry_size (mp_max_key ?p)) = length (mp_max_key ?p)"
    using v(1) by (simp_all add: entry_size_def unat_nat32)
  have "hd (section_records (tb_data t)) \<in> set (section_records (tb_data t))" using S(1) by simp
  then have le: "mp_min_key ?p \<le> mp_max_key ?p" "mp_min_seq ?p \<le> mp_max_seq ?p" using S(8) by (meson order_trans)+
  define m where "m = \<lparr>table_id = ucast (fh_table_id (tb_header t)), tm_level = level, tm_path = path_bytes (tb_path t),
    min_seq = mp_min_seq ?p, max_seq = mp_max_seq ?p, file_size = ff_file_size ?f, record_count = mp_record_count ?p,
    tombstone_count = mp_tombstone_count ?p, data_block_count = mp_block_count ?p, data_bytes = mp_data_bytes ?p,
    smallest_key = mp_min_key ?p, largest_key = mp_max_key ?p\<rparr>"
  have "checked_u32_size (length (tm_path m)) = Inr (of_nat (length (tb_path t)))" using ar(3) by (simp add: m_def checked_u32_size_def)
  moreover have "validate_variable_payload_size (of_nat (length (tb_path t))) (entry_size (smallest_key m)) (entry_size (largest_key m)) = Ok"
    using ar(3) v(1) by (simp add: validate_variable_payload_size_def variable_payload_size_def m_def sz unat_nat32
      MAX_TABLE_META_VARIABLE_BYTES_def MANIFEST_BLOCK_SIZE_def)
  moreover have "entry_size (largest_key m) = 0 \<Longrightarrow> entry_size (smallest_key m) = 0"
    using sz le(1) by (auto simp: m_def unat_eq_0 [symmetric])
  ultimately have "TableMeta_validate m = Ok" using v(2) le db by (auto simp: TableMeta_validate_def Let_def m_def not_less)
  then have "make_table_meta t level ar = Some (Inr m, ar2)" using a(1,2) by (simp add: make_table_meta_def Let_def m_def)
  then show ?thesis using a(3,4) S by (auto simp: m_def describes_def)
qed

section \<open>The streaming builder\<close>

definition builder_holds :: "zlib \<Rightarrow> string \<Rightarrow> string \<Rightarrow> u32 \<Rightarrow> SSTable \<Rightarrow> InternalRecord list \<Rightarrow> bool" where
  "builder_holds z p q tid t rs \<longleftrightarrow> section_ok z (tb_data t) \<and> section_records (tb_data t) = rs \<and> tb_state t = Building \<and>
     tb_path t = p \<and> tb_final_path t = q \<and> tb_header t = FileHeader_of z tid"

lemma builder_new_holds: "builder_holds z p q tid (SSTableStreamingBuilder_new z p q tid) []"
  by (simp add: builder_holds_def SSTableStreamingBuilder_new_def SSTable_building_def SSTable_default_def empty_section_ok)

lemma builder_empty_iff: "builder_holds z p q tid t rs \<Longrightarrow> builder_empty t \<longleftrightarrow> rs = []"
  by (cases "data_blocks (tb_data t)")
    (auto simp: builder_holds_def builder_empty_def section_records_def section_payloads_def section_ok_def block_ok_def block_list_ok_def)

lemma builder_last:
  assumes "section_ok z (tb_data t)"
  shows "data_blocks (tb_data t) \<noteq> [] \<and> db_payloads (last (data_blocks (tb_data t))) \<noteq> [] \<and>
      record_less r (record_of (last (db_payloads (last (data_blocks (tb_data t)))))) \<longleftrightarrow>
    section_records (tb_data t) \<noteq> [] \<and> ikey r < ikey (last (section_records (tb_data t)))"
proof (cases "data_blocks (tb_data t)" rule: rev_cases)
  case Nil
  then show ?thesis by (simp add: section_records_def section_payloads_def)
next
  case (snoc bs b)
  have "db_payloads b \<noteq> []" using assms snoc by (auto simp: section_ok_def block_ok_def block_list_ok_def)
  then show ?thesis using snoc by (simp add: section_records_def section_payloads_def last_map)
qed

lemma builder_add_effect:
  assumes "builder_holds z p q tid t rs" "builder_add z r t = (c, t')"
  shows "(c = Ok \<longleftrightarrow> storable r \<and> (\<forall>r'\<in>set rs. ikey r' < ikey r)) \<and>
    (if c = Ok then builder_holds z p q tid t' (rs @ [r]) else t' = t)"
proof (cases "rs \<noteq> [] \<and> ikey r < ikey (last rs)")
  case True
  have ok: "section_ok z (tb_data t)" "section_records (tb_data t) = rs" using assms(1) by (simp_all add: builder_holds_def)
  from True have "last rs \<in> set rs" "\<not> ikey (last rs) < ikey r" by auto
  then show ?thesis using assms(2) True builder_last [OF ok(1), of r] ok(2) by (auto simp: builder_add_def Let_def)
next
  case False
  have ok: "section_ok z (tb_data t)" "section_records (tb_data t) = rs" "tb_state t = Building" using assms(1) by (simp_all add: builder_holds_def)
  have "append_record z r t = (c, t')" using assms(2) False builder_last [OF ok(1), of r] ok(2) by (auto simp: builder_add_def Let_def split: if_splits)
  then obtain ds where ds: "DataSection_add_payload z r (tb_data t) = (c, ds)" "t' = t\<lparr>tb_data := ds\<rparr>"
    using ok(3) by (auto simp: append_record_def split: prod.splits)
  from add_payload_effect [OF ok(1) ds(1)] show ?thesis using assms(1) ds(2) ok(2) by (auto simp: builder_holds_def)
qed

text \<open>What \<open>finish\<close> leaves: on success a published table with its metadata, otherwise no change outside the
  two paths of the table.\<close>

definition stored_table :: "zlib \<Rightarrow> disk \<Rightarrow> TableMeta \<Rightarrow> InternalRecord list \<Rightarrow> bool" where
  "stored_table z d m rs \<longleftrightarrow> describes m rs \<and>
     (\<exists>ds D. d (path_of_bytes (tm_path m)) = Some D \<and> published z ds D \<and> section_records ds = rs)"

lemma builder_finish_effect:
  assumes b: "builder_holds z p q tid t rs" and run: "builder_finish z env level (t, d, ar) = Some (r, t', d', ar')"
    and ar: "arena_ok ar" "never_oom ar" "length q \<le> 60000"
  shows "extends ar ar' \<and> never_oom ar' \<and> (\<forall>x. x \<noteq> p \<longrightarrow> x \<noteq> q \<longrightarrow> d' x = d x) \<and>
    (case r of
       Inl e \<Rightarrow> e \<noteq> Ok \<and> rs \<noteq> []
     | Inr None \<Rightarrow> rs = []
     | Inr (Some m) \<Rightarrow> rs \<noteq> [] \<and> table_id m = ucast tid \<and> tm_level m = level \<and> path_of_bytes (tm_path m) = q \<and> stored_table z d' m rs)"
proof (cases "rs = []")
  case True
  then show ?thesis using builder_empty_iff [OF b] run ar by (auto simp: builder_finish_def extends_refl)
next
  case False
  have ok: "section_ok z (tb_data t)" "section_records (tb_data t) = rs" "tb_state t = Building" "tb_path t = p" "tb_final_path t = q"
    "tb_header t = FileHeader_of z tid" using b by (simp_all add: builder_holds_def)
  have ne: "\<not> builder_empty t" "data_blocks (tb_data t) \<noteq> []" using builder_empty_iff [OF b] False by (simp_all add: builder_empty_def)
  obtain c t1 d1 where w: "SSTable_write z env (t, d) = (c, t1, d1)" by (metis prod_cases3)
  note R = SSTable_write_result [OF ok(1) ne(2) w]
  have d1: "\<forall>x. x \<noteq> p \<longrightarrow> x \<noteq> q \<longrightarrow> d1 x = d x" using R ok(4,5) by (auto split: if_splits)
  show ?thesis
  proof (cases "c = Ok")
    case False
    then show ?thesis using run w ne d1 ar \<open>rs \<noteq> []\<close> by (auto simp: builder_finish_def extends_refl)
  next
    case True
    then obtain D where D: "tb_path t1 = q" "fh_table_id (tb_header t1) = fh_table_id (tb_header t)" "tb_data t1 = tb_data t"
      "table_bytes z D (tb_data t1) (tb_header t1) (bl_payload (tb_bloom t1)) (ms_payload (tb_meta t1)) (tb_footer t1)" "d1 q = Some D"
      using R ok(5) by (auto split: if_splits)
    have "length (tb_path t1) \<le> 60000" using D(1) ar(3) by simp
    from make_table_meta_published [OF D(4) ar(1,2) this, of level] obtain m ar2 where
      m: "make_table_meta t1 level ar = Some (Inr m, ar2)" "extends ar ar2" "never_oom ar2" "table_id m = ucast (fh_table_id (tb_header t1))"
      "tm_level m = level" "path_of_bytes (tm_path m) = tb_path t1" "describes m (section_records (tb_data t1))" by blast
    have "fh_table_id (tb_header t1) = tid" using D(2) ok(6) by (simp add: FileHeader_of_def FileHeader_new_def)
    moreover have "published z (tb_data t) D" using D(3,4) unfolding published_def by metis
    ultimately have "stored_table z d1 m rs" "table_id m = ucast tid" using m D(1,3,5) ok(2) by (auto simp: stored_table_def)
    then show ?thesis using run w ne m D(1) d1 True False by (auto simp: builder_finish_def)
  qed
qed

section \<open>Properties\<close>

text \<open>C36 (what can be built). A builder accepts exactly the non-empty lists of storable records in strict
  internal-key order; the table then holds exactly these records and waits to be written. An empty list
  gives no table, everything else an error.\<close>

theorem build_correct:
  "case build_impl z tid rs p q of
     Inl e \<Rightarrow> e \<noteq> Ok \<and> \<not> buildable rs
   | Inr None \<Rightarrow> rs = []
   | Inr (Some t) \<Rightarrow> rs \<noteq> [] \<and> buildable rs \<and> section_ok z (tb_data t) \<and> section_records (tb_data t) = rs \<and> tb_state t = Building \<and>
       tb_path t = p \<and> tb_final_path t = q"
  using build_impl_spec [where z = z and tid = tid and rs = rs and p = p and q = q] build_impl_builds [where z = z and tid = tid and rs = rs and p = p and q = q]
  by (cases "build_impl z tid rs p q") (auto split: option.splits)

text \<open>C37 (rebuilding a table). Records that were built into a table, written and published can be read
  back block by block: the file loads, an iterator over it delivers every record in order, and building
  from that iterator gives a table with the same records again.\<close>

theorem table_rebuild_roundtrip:
  assumes "crc_incremental z" "build_impl z tid rs p q = Inr (Some t)" "SSTable_write z env (t, d) = (Ok, t', d')" "q \<noteq> []"
    and "re_opened rd = Ok" "ReadErr \<notin> set (re_reads rd)" "re_opened rd' = Ok" "ReadErr \<notin> set (re_reads rd')" "arena_ok ar" "never_oom ar"
  shows "\<exists>t1 ar1 f it ar2 t2. SSTable_load z rd q d' ar = Some (Inr t1, ar1) \<and> open_readable_file rd' q d' = Inr f \<and>
    build_iterator z tid' p' q' (SSTableIterator_new t1 f, ar1) = Some (Inr (Some t2), it, ar2) \<and> section_records (tb_data t2) = rs"
proof -
  note b = build_impl_builds [OF assms(2)]
  from SSTable_write_effect [OF b(1,7) assms(3)] obtain D where D: "published z (tb_data t) D" "d' q = Some D" using b(5) by (auto split: if_splits)
  obtain t1 ar1 h bp mp where l: "SSTable_load z rd q d' ar = Some (Inr t1, ar1)" "extends ar ar1" "never_oom ar1" "table_bytes z D (tb_data t) h bp mp (tb_footer t1)"
    using load_serves [where d = d' and p = q, OF assms(1) D assms(4-6,9,10)] by blast
  obtain f where f: "open_readable_file rd' q d' = Inr f" "read_quiet D f"
    using open_quiet [where d = d' and p = q, OF D(2) table_bytesD(3) [OF l(4)] assms(7,8)] by blast
  have "arena_ok ar1" using l(2) by (simp add: extends_def)
  from build_iterator_rebuilds [OF assms(1) new_iterator_source [OF l(4) f(2)] this l(3), of tid' p' q'] b(2)
  obtain it ar2 where it: "build_iterator z tid' p' q' (SSTableIterator_new t1 f, ar1) = Some (build_impl z tid' rs p' q', it, ar2)" by auto
  have "\<exists>t2. build_impl z tid' rs p' q' = Inr (Some t2)"
    using build_impl_spec [where z = z and tid = tid' and rs = rs and p = p' and q = q'] b(8,9) by (auto split: sum.splits option.splits)
  then show ?thesis using l(1) f(1) it build_impl_builds(2) by fastforce
qed

section \<open>Examples\<close>

lemma ex_build_impl: "build_impl ex_zlib 7 [ex_row 4 [1, 2]] ''t.tmp'' ''t.sst'' = Inr (Some ex_sst)"
  using ex_sst_built(1) by (simp add: build_impl_def validate_records_def ex_build_def)

theorem table_rebuild_roundtrip_witness:
  "\<exists>t' d' t1 ar1 f it ar2 t2. SSTable_write ex_zlib ex_write_env (ex_sst, Map.empty) = (Ok, t', d') \<and>
     SSTable_load ex_zlib ex_read_env ''t.sst'' d' (ex_new_arena\<lparr>oom := []\<rparr>) = Some (Inr t1, ar1) \<and> open_readable_file ex_read_env ''t.sst'' d' = Inr f \<and>
     build_iterator ex_zlib 8 ''u.tmp'' ''u.sst'' (SSTableIterator_new t1 f, ar1) = Some (Inr (Some t2), it, ar2) \<and>
     section_records (tb_data t2) = [ex_row 4 [1, 2]]"
proof -
  obtain t' d' where w: "SSTable_write ex_zlib ex_write_env (ex_sst, Map.empty) = (Ok, t', d')" by (rule ex_sst_written)
  have a: "arena_ok (ex_new_arena\<lparr>oom := []\<rparr>)" "never_oom (ex_new_arena\<lparr>oom := []\<rparr>)"
    using ex_new_arena_ok by (simp_all add: never_oom_def)
  have r: "re_opened ex_read_env = Ok" "ReadErr \<notin> set (re_reads ex_read_env)" by (simp_all add: ex_read_env_def)
  from table_rebuild_roundtrip [OF ex_zlib_incremental ex_build_impl w _ r r a] w show ?thesis by fastforce
qed

end
