(* ===== verification/SSTableManager.thy ===== *)
theory SSTableManager
  imports SSTableBuilder
begin

text \<open>
  The manager of table files (\<^verbatim>\<open>core/engine/sstable_manager.cpp\<close>, with the wrappers
  \<^verbatim>\<open>sstable_loader.cpp\<close> and \<^verbatim>\<open>sstable_writer.cpp\<close>): the names of files and the pool of loaded tables.
\<close>

section \<open>Names\<close>

text \<open>\<open>std::format("{:09}", n)\<close> and \<open>operator/\<close> of paths.\<close>

fun decimal :: "nat \<Rightarrow> string" where
  "decimal n = (if n < 10 then [char_of (48 + n)] else decimal (n div 10) @ [char_of (48 + n mod 10)])"

declare decimal.simps [simp del]

definition zero_pad :: "nat \<Rightarrow> string \<Rightarrow> string" where
  "zero_pad w s = replicate (w - length s) CHR ''0'' @ s"

definition path_join :: "string \<Rightarrow> string \<Rightarrow> string" where
  "path_join dir name = (if dir = [] \<or> last dir = CHR ''/'' then dir @ name else dir @ ''/'' @ name)"

definition make_table_path :: "u32 \<Rightarrow> string \<Rightarrow> string" where
  "make_table_path tid dir = path_join dir (''table-'' @ zero_pad 9 (decimal (unat tid)) @ ''.sst'')"

definition make_tmp_table_path :: "u32 \<Rightarrow> string \<Rightarrow> string" where
  "make_tmp_table_path tid dir = path_join dir (''table-'' @ zero_pad 9 (decimal (unat tid)) @ ''.sst.tmp'')"

section \<open>State and operations\<close>

text \<open>The pool shares its tables: a lookup in a table updates the caches of the pooled table.\<close>

record SSTableManager =
  sm_dir :: string
  sm_pool :: "u32 \<rightharpoonup> SSTable"

definition SSTableManager_new :: "string \<Rightarrow> SSTableManager" where
  "SSTableManager_new dir = \<lparr>sm_dir = dir, sm_pool = Map.empty\<rparr>"

definition SSTableLoader_load :: "zlib \<Rightarrow> read_env \<Rightarrow> string \<Rightarrow> disk \<Rightarrow> arena \<Rightarrow> (SSTable result \<times> arena) option" where
  "SSTableLoader_load = SSTable_load"

definition SSTableWriter_write :: "zlib \<Rightarrow> write_env \<Rightarrow> SSTable \<times> disk \<Rightarrow> StatusCode \<times> SSTable \<times> disk" where
  "SSTableWriter_write = SSTable_write"

definition open_impl ::
    "zlib \<Rightarrow> read_env \<Rightarrow> u32 \<Rightarrow> string \<Rightarrow> disk \<Rightarrow> SSTableManager \<times> arena \<Rightarrow> (SSTable result \<times> SSTableManager \<times> arena) option" where
  "open_impl z env tid p d s = (case s of (mgr, ar) \<Rightarrow>
     case sm_pool mgr tid of
       Some t \<Rightarrow> Some (Inr t, mgr, ar)
     | None \<Rightarrow>
         (case SSTableLoader_load z env p d ar of
            None \<Rightarrow> None
          | Some (Inl e, ar') \<Rightarrow> Some (Inl e, mgr, ar')
          | Some (Inr t, ar') \<Rightarrow> Some (Inr t, mgr\<lparr>sm_pool := (sm_pool mgr)(tid \<mapsto> t)\<rparr>, ar')))"

definition SSTableManager_open_id ::
    "zlib \<Rightarrow> read_env \<Rightarrow> u32 \<Rightarrow> disk \<Rightarrow> SSTableManager \<times> arena \<Rightarrow> (SSTable result \<times> SSTableManager \<times> arena) option" where
  "SSTableManager_open_id z env tid d s = open_impl z env tid (make_table_path tid (sm_dir (fst s))) d s"

definition SSTableManager_open ::
    "zlib \<Rightarrow> read_env \<Rightarrow> TableMeta \<Rightarrow> disk \<Rightarrow> SSTableManager \<times> arena \<Rightarrow> (SSTable result \<times> SSTableManager \<times> arena) option" where
  "SSTableManager_open z env m d s =
     (if unat (table_id m) > u32_max then Some (Inl InvalidArgument, s)
      else open_impl z env (ucast (table_id m)) (path_of_bytes (tm_path m)) d s)"

definition SSTableManager_get ::
    "zlib \<Rightarrow> read_env \<Rightarrow> u32 \<Rightarrow> disk \<Rightarrow> SSTableManager \<times> arena \<Rightarrow> (SSTable result \<times> SSTableManager \<times> arena) option" where
  "SSTableManager_get z env tid d s =
     (case sm_pool (fst s) tid of Some t \<Rightarrow> Some (Inr t, s) | None \<Rightarrow> SSTableManager_open_id z env tid d s)"

definition SSTableManager_build :: "zlib \<Rightarrow> 'd Driver \<Rightarrow> bool \<Rightarrow> u32 \<Rightarrow> 'd MemTable \<Rightarrow> SSTableManager \<Rightarrow> SSTable option result" where
  "SSTableManager_build z D dump_oom tid m mgr =
     build_memtable z D dump_oom tid m (make_tmp_table_path tid (sm_dir mgr)) (make_table_path tid (sm_dir mgr))"

definition SSTableManager_build_iterator ::
    "zlib \<Rightarrow> u32 \<Rightarrow> SSTableManager \<Rightarrow> SSTableIterator \<times> arena \<Rightarrow> (SSTable option result \<times> SSTableIterator \<times> arena) option" where
  "SSTableManager_build_iterator z tid mgr s =
     build_iterator z tid (make_tmp_table_path tid (sm_dir mgr)) (make_table_path tid (sm_dir mgr)) s"

definition SSTableManager_write :: "zlib \<Rightarrow> write_env \<Rightarrow> SSTable \<times> disk \<Rightarrow> StatusCode \<times> SSTable \<times> disk" where
  "SSTableManager_write = SSTableWriter_write"

definition create_streaming_builder :: "zlib \<Rightarrow> u32 \<Rightarrow> SSTableManager \<Rightarrow> SSTable" where
  "create_streaming_builder z tid mgr =
     SSTableStreamingBuilder_new z (make_tmp_table_path tid (sm_dir mgr)) (make_table_path tid (sm_dir mgr)) tid"

section \<open>Distinct tables have distinct names\<close>

fun parse_decimal :: "nat \<Rightarrow> string \<Rightarrow> nat" where
  "parse_decimal acc [] = acc"
| "parse_decimal acc (c # cs) = parse_decimal (acc * 10 + (of_char c - 48)) cs"

lemma parse_append: "parse_decimal acc (s @ t) = parse_decimal (parse_decimal acc s) t"
  by (induction acc s rule: parse_decimal.induct) simp_all

lemma digit_value: "n < 10 \<Longrightarrow> (of_char (char_of (48 + n)) :: nat) - 48 = n"
  by (simp add: of_char_of)

lemma parse_decimal_decimal: "parse_decimal 0 (decimal n) = n"
proof (induction n rule: decimal.induct)
  case (1 n)
  show ?case
  proof (cases "n < 10")
    case True
    then show ?thesis by (subst decimal.simps) (simp add: of_char_of)
  next
    case False
    then show ?thesis using 1 digit_value [of "n mod 10"] by (subst decimal.simps) (simp add: parse_append)
  qed
qed

lemma parse_zero_pad: "parse_decimal 0 (zero_pad w s) = parse_decimal 0 s"
proof -
  have "parse_decimal 0 (replicate k CHR ''0'') = 0" for k by (induction k) simp_all
  then show ?thesis by (simp add: zero_pad_def parse_append)
qed

lemma zero_pad_inj: "zero_pad w (decimal m) = zero_pad w (decimal n) \<Longrightarrow> m = n"
  using parse_zero_pad parse_decimal_decimal by metis

lemma path_join_inj: "path_join dir a = path_join dir b \<longleftrightarrow> a = b"
  by (simp add: path_join_def)

lemma table_paths_inj:
  "make_table_path i dir = make_table_path j dir \<longleftrightarrow> i = j" "make_tmp_table_path i dir = make_tmp_table_path j dir \<longleftrightarrow> i = j"
  by (auto simp: make_table_path_def make_tmp_table_path_def path_join_inj word_unat_eq_iff dest!: zero_pad_inj)

lemma table_paths_differ: "make_table_path i dir \<noteq> make_tmp_table_path j dir"
proof
  assume "make_table_path i dir = make_tmp_table_path j dir"
  then have "last (zero_pad 9 (decimal (unat i)) @ ''.sst'') = last (zero_pad 9 (decimal (unat j)) @ ''.sst.tmp'')"
    by (simp add: make_table_path_def make_tmp_table_path_def path_join_inj)
  then show False by simp
qed

lemma table_paths_nonempty: "make_table_path i dir \<noteq> []" "make_tmp_table_path i dir \<noteq> []"
  by (simp_all add: make_table_path_def make_tmp_table_path_def path_join_def)

lemma decimal_length: "n < 10 ^ k \<Longrightarrow> 0 < k \<Longrightarrow> length (decimal n) \<le> k"
proof (induction n arbitrary: k rule: decimal.induct)
  case (1 n)
  show ?case
  proof (cases "n < 10")
    case True
    then show ?thesis using 1(3) by (subst decimal.simps) simp
  next
    case False
    then obtain k' where k: "k = Suc k'" "0 < k'" using 1(2,3) by (cases k; cases "k - 1") auto
    have "n div 10 < 10 ^ k'" using 1(2) k by (simp add: less_mult_imp_div_less mult.commute)
    from 1(1) [OF False this k(2)] show ?thesis using False k by (subst decimal.simps) simp
  qed
qed

lemma table_path_length: "length (make_table_path i dir) \<le> length dir + 21"
proof -
  have "unat i < 10 ^ 10" using unsigned_less [of i, where 'a = nat] by simp
  from decimal_length [OF this] show ?thesis by (auto simp: make_table_path_def path_join_def zero_pad_def)
qed

lemma split_path_plain: "CHR ''/'' \<notin> set name \<Longrightarrow> split_path name = [name]"
  by (induction name) auto

lemma split_path_nonempty: "split_path s \<noteq> []"
  by (induction s) (auto split: list.splits)

lemma split_path_join: "CHR ''/'' \<notin> set name \<Longrightarrow> split_path (dir @ CHR ''/'' # name) = split_path dir @ [name]"
proof (induction dir)
  case Nil
  then show ?case by (simp add: split_path_plain)
next
  case (Cons c dir)
  then show ?case using split_path_nonempty [of dir] by (cases "split_path dir") (auto split: list.splits)
qed

lemma resolve_dots_last:
  assumes "p \<noteq> []" "p \<noteq> ''.''" "p \<noteq> ''..''"
  shows "resolve_dots absolute names slash (ps @ [p]) = (fst (resolve_dots absolute names slash ps) @ [p], False)"
  using assms by (induction absolute names slash ps rule: resolve_dots.induct) auto

lemma decimal_chars: "c \<in> set (decimal n) \<Longrightarrow> c \<noteq> CHR ''/''"
proof (induction n rule: decimal.induct)
  case (1 n)
  have d: "char_of (48 + k) \<noteq> CHR ''/''" if "k < 10" for k :: nat
  proof
    assume "char_of (48 + k) = CHR ''/''"
    then have "(of_char (char_of (48 + k)) :: nat) = of_char CHR ''/''" by simp
    then show False using that by (simp add: of_char_of)
  qed
  show ?case
  proof (cases "n < 10")
    case True
    then show ?thesis using 1(2) d by (subst (asm) decimal.simps) auto
  next
    case False
    then show ?thesis using 1 d [of "n mod 10"] by (subst (asm) (2) decimal.simps) auto
  qed
qed

lemma normal_join_last:
  assumes "CHR ''/'' \<notin> set name" "name \<noteq> []" "name \<noteq> ''.''" "name \<noteq> ''..''"
  shows "last (fst (snd (lexically_normal (path_join dir name)))) = name"
proof -
  have "\<exists>ps. split_path (path_join dir name) = ps @ [name]"
  proof (cases "dir = []")
    case True
    then show ?thesis using split_path_plain [OF assms(1)] by (simp add: path_join_def)
  next
    case False
    then obtain d c where d: "dir = d @ [c]" by (cases dir rule: rev_cases) auto
    show ?thesis using split_path_join [OF assms(1), of d] split_path_join [OF assms(1), of dir]
      by (cases "c = CHR ''/''") (auto simp: path_join_def d)
  qed
  then show ?thesis using resolve_dots_last [OF assms(2-4)] by (auto simp: lexically_normal_def Let_def split: prod.split)
qed

lemma paths_normal_differ: "lexically_normal (make_tmp_table_path i dir) \<noteq> lexically_normal (make_table_path i dir)"
proof
  let ?n = "''table-'' @ zero_pad 9 (decimal (unat i))"
  assume a: "lexically_normal (make_tmp_table_path i dir) = lexically_normal (make_table_path i dir)"
  have c: "CHR ''/'' \<notin> set ?n" using decimal_chars by (auto simp: zero_pad_def)
  have "last (fst (snd (lexically_normal (make_tmp_table_path i dir)))) = ?n @ ''.sst.tmp''"
    "last (fst (snd (lexically_normal (make_table_path i dir)))) = ?n @ ''.sst''"
    using c normal_join_last [of "?n @ ''.sst.tmp''" dir] normal_join_last [of "?n @ ''.sst''" dir]
    by (simp_all add: make_tmp_table_path_def make_table_path_def)
  then show False using a by simp
qed

section \<open>The pool\<close>

text \<open>A table \<open>t\<close> that stands for the file of table \<open>tid\<close>, whose records are \<open>rs\<close>.\<close>

definition stands_for :: "zlib \<Rightarrow> disk \<Rightarrow> string \<Rightarrow> InternalRecord list \<Rightarrow> SSTable \<Rightarrow> bool" where
  "stands_for z d p rs t \<longleftrightarrow> tb_final_path t = p \<and> (\<exists>D ds. d p = Some D \<and> section_records ds = rs \<and> table_serves z D ds t \<and>
     (\<exists>h bp mp. table_bytes z D ds h bp mp (tb_footer t)))"

definition on_disk :: "zlib \<Rightarrow> disk \<Rightarrow> string \<Rightarrow> InternalRecord list \<Rightarrow> bool" where
  "on_disk z d p rs \<longleftrightarrow> (\<exists>D ds. d p = Some D \<and> published z ds D \<and> section_records ds = rs)"

text \<open>The pool agrees with the files of the tables in \<open>cat\<close>, which gives the records of every live table.\<close>

definition pool_ok :: "zlib \<Rightarrow> disk \<Rightarrow> (u32 \<rightharpoonup> InternalRecord list) \<Rightarrow> SSTableManager \<Rightarrow> bool" where
  "pool_ok z d cat mgr \<longleftrightarrow> (\<forall>tid rs. cat tid = Some rs \<longrightarrow> on_disk z d (make_table_path tid (sm_dir mgr)) rs \<and>
     (\<forall>t. sm_pool mgr tid = Some t \<longrightarrow> stands_for z d (make_table_path tid (sm_dir mgr)) rs t))"

lemma open_impl_opens:
  assumes "crc_incremental z" "pool_ok z d cat mgr" "cat tid = Some rs" "p = make_table_path tid (sm_dir mgr)" "re_opened env = Ok" "ReadErr \<notin> set (re_reads env)"
    "arena_ok ar" "never_oom ar"
  shows "\<exists>t mgr' ar'. open_impl z env tid p d (mgr, ar) = Some (Inr t, mgr', ar') \<and> stands_for z d p rs t \<and> pool_ok z d cat mgr' \<and>
    sm_dir mgr' = sm_dir mgr \<and> sm_pool mgr' tid = Some t \<and> extends ar ar' \<and> never_oom ar'"
proof (cases "sm_pool mgr tid")
  case (Some t)
  then show ?thesis using assms(2-4,7,8) by (auto simp: open_impl_def pool_ok_def extends_refl)
next
  case None
  obtain D ds where D: "d p = Some D" "published z ds D" "section_records ds = rs" using assms(2-4) unfolding pool_ok_def on_disk_def by blast
  have "p \<noteq> []" using assms(4) table_paths_nonempty by simp
  from load_serves [where d = d and p = p, OF assms(1) D(2,1) this assms(5-8)] obtain t ar' where
    t: "SSTable_load z env p d ar = Some (Inr t, ar')" "table_serves z D ds t" "extends ar ar'" "never_oom ar'" "tb_final_path t = p"
    "\<exists>h bp mp. table_bytes z D ds h bp mp (tb_footer t)" by blast
  have st: "stands_for z d p rs t" using t D by (auto simp: stands_for_def)
  then have "pool_ok z d cat (mgr\<lparr>sm_pool := (sm_pool mgr)(tid \<mapsto> t)\<rparr>)" using assms(2-4) by (auto simp: pool_ok_def)
  then show ?thesis using None t(1,3,4) st by (auto simp: open_impl_def SSTableLoader_load_def)
qed

lemma manager_get_opens:
  assumes "crc_incremental z" "pool_ok z d cat mgr" "cat tid = Some rs" "re_opened env = Ok" "ReadErr \<notin> set (re_reads env)" "arena_ok ar" "never_oom ar"
  shows "\<exists>t mgr' ar'. SSTableManager_get z env tid d (mgr, ar) = Some (Inr t, mgr', ar') \<and>
    stands_for z d (make_table_path tid (sm_dir mgr)) rs t \<and> pool_ok z d cat mgr' \<and> sm_dir mgr' = sm_dir mgr \<and> extends ar ar' \<and> never_oom ar'"
proof (cases "sm_pool mgr tid")
  case (Some t)
  then show ?thesis using assms(2,3,6,7) by (auto simp: SSTableManager_get_def pool_ok_def extends_refl)
next
  case None
  then show ?thesis using open_impl_opens [OF assms(1-3) refl assms(4-7)] by (auto simp: SSTableManager_get_def SSTableManager_open_id_def)
qed

text \<open>A lookup in a pooled table.\<close>

lemma get_keeps_table: "SSTable_get z key (t, ar) = Some (r, t', ar') \<Longrightarrow> tb_final_path t' = tb_final_path t \<and> tb_footer t' = tb_footer t"
  by (auto simp: SSTable_get_def split: option.splits if_splits sum.splits prod.splits)

lemma get_stands_for:
  assumes "stands_for z d p rs t" "arena_ok ar" "never_oom ar"
  shows "\<exists>r t' ar'. SSTable_get z key (t, ar) = Some (r, t', ar') \<and> stands_for z d p rs t' \<and> extends ar ar' \<and> never_oom ar' \<and> answers rs key r"
proof -
  obtain D ds where D: "d p = Some D" "section_records ds = rs" "table_serves z D ds t" "\<exists>h bp mp. table_bytes z D ds h bp mp (tb_footer t)" "tb_final_path t = p"
    using assms(1) unfolding stands_for_def by blast
  from get_serves [OF D(3) assms(2,3), of key] obtain r t' ar' where
    g: "SSTable_get z key (t, ar) = Some (r, t', ar')" "table_serves z D ds t'" "extends ar ar'" "never_oom ar'" "answers (section_records ds) key r"
    unfolding answers_def by blast
  then show ?thesis using D get_keeps_table [OF g(1)] by (auto simp: stands_for_def)
qed

end
