(* ===== verification/VersionEdits.thy ===== *)
theory VersionEdits
  imports TableMetaIO
begin

text \<open>
  The records of the manifest (\<open>DeletedTable\<close> and \<open>VersionEdit\<close> of
  \<^verbatim>\<open>src/core/engine/manifest.cpp\<close>): validation, encoded size, checksum, writing and loading.
  \<open>edit_fields\<close> is the sequence of fields of an edit. A written edit is loaded back; the writer
  accepts an edit exactly when its fields need no padding (lemma \<open>VersionEdit_write_cases\<close>), and a
  payload with padding between its fields is never loaded (lemma \<open>VersionEdit_load_padded\<close>).
\<close>

section \<open>Data\<close>

definition MANIFEST_MAX_EDIT_SIZE :: nat where "MANIFEST_MAX_EDIT_SIZE = 64 * 1024 * 1024"
definition MANIFEST_MAX_TABLES_PER_EDIT :: nat where "MANIFEST_MAX_TABLES_PER_EDIT = 1000000"
definition MIN_PAYLOAD_SIZE :: nat where "MIN_PAYLOAD_SIZE = 4 + 4 + 4"
definition DeletedTable_disk_size :: nat where "DeletedTable_disk_size = 4 + 8"
definition EditHeader_disk_size :: nat where "EditHeader_disk_size = 4 + 4"
definition HAS_NEXT_TABLE_ID :: u32 where "HAS_NEXT_TABLE_ID = 1"
definition HAS_NEXT_SEQUENCE_NUMBER :: u32 where "HAS_NEXT_SEQUENCE_NUMBER = 2"
definition HAS_CURRENT_WAL_ID :: u32 where "HAS_CURRENT_WAL_ID = 4"
definition KNOWN_FLAGS :: u32 where "KNOWN_FLAGS = HAS_NEXT_TABLE_ID OR HAS_NEXT_SEQUENCE_NUMBER OR HAS_CURRENT_WAL_ID"

record DeletedTable =
  dt_level :: u32
  dt_table_id :: u64

record EditHeader =
  edit_crc32 :: u32
  edit_payload_size :: u32

record EditPayload =
  edit_next_table_id :: "u64 option"
  edit_next_sequence_number :: "u64 option"
  edit_current_wal_id :: "u64 option"
  deleted_tables :: "DeletedTable list"
  new_tables :: "TableMeta list"

record VersionEdit =
  edit_header :: EditHeader
  edit_payload :: EditPayload

section \<open>Helpers\<close>

definition payload_flags :: "EditPayload \<Rightarrow> u32" where
  "payload_flags p =
     (let flags = 0;
          flags = (if edit_next_table_id p \<noteq> None then flags OR HAS_NEXT_TABLE_ID else flags);
          flags = (if edit_next_sequence_number p \<noteq> None then flags OR HAS_NEXT_SEQUENCE_NUMBER else flags)
      in if edit_current_wal_id p \<noteq> None then flags OR HAS_CURRENT_WAL_ID else flags)"

definition checked_add_u64 :: "nat \<Rightarrow> nat \<Rightarrow> nat result" where
  "checked_add_u64 destination v =
     (if int v > int u64_max - int destination then Inl AllocationTooLarge else Inr (destination + v))"

definition checked_u32_count :: "nat \<Rightarrow> StatusCode" where
  "checked_u32_count v =
     (if v > MANIFEST_MAX_TABLES_PER_EDIT then AllocationTooLarge
      else if v > u32_max then AllocationTooLarge else Ok)"

definition require_remaining :: "nat \<Rightarrow> nat \<Rightarrow> rfile \<Rightarrow> StatusCode" where
  "require_remaining end_offset bytes f =
     (if roff f > end_offset \<or> bytes > end_offset - roff f then InvalidPayloadSize else Ok)"

text \<open>Subtraction of 64-bit values.\<close>

definition sub_u64 :: "nat \<Rightarrow> nat \<Rightarrow> nat" where
  "sub_u64 a b = (if b \<le> a then a - b else u64_max + 1 + a - b)"

section \<open>Deleted tables and the edit header\<close>

definition DeletedTable_calculate_crc :: "zlib \<Rightarrow> bool \<Rightarrow> DeletedTable \<Rightarrow> u32 \<Rightarrow> u32" where
  "DeletedTable_calculate_crc z init d crc_buffer =
     (let crc = (if init then crc_init z else crc_buffer) in
      crc32_add_u64 z (dt_table_id d) (crc32_add_u32 z (dt_level d) crc))"

definition DeletedTable_load :: "(rfile, DeletedTable) reader" where
  "DeletedTable_load =
     bind_r (read_u32_t_le MANIFEST_BLOCK_SIZE) (\<lambda>lv.
     bind_r (read_u64_t_le MANIFEST_BLOCK_SIZE) (\<lambda>i.
     return_r \<lparr>dt_level = lv, dt_table_id = i\<rparr>))"

definition DeletedTable_write :: "DeletedTable \<Rightarrow> wfile action" where
  "DeletedTable_write d = run_all
     [check_offset,
      write_u32_t_le (dt_level d) MANIFEST_BLOCK_SIZE,
      write_u64_t_le (dt_table_id d) MANIFEST_BLOCK_SIZE]"

definition EditHeader_write :: "EditHeader \<Rightarrow> wfile action" where
  "EditHeader_write h = run_all
     [check_offset,
      write_u32_t_le (edit_crc32 h) MANIFEST_BLOCK_SIZE,
      write_u32_t_le (edit_payload_size h) MANIFEST_BLOCK_SIZE]"

definition EditHeader_load :: "EditHeader loader" where
  "EditHeader_load =
     bind_l u32_l (\<lambda>crc.
     bind_l u32_l (\<lambda>sz.
     bind_l (check_l (\<lambda>_. if unat sz < MIN_PAYLOAD_SIZE then InvalidPayloadSize
                          else if unat sz > MANIFEST_MAX_EDIT_SIZE then InvalidPayloadSize else Ok)) (\<lambda>_.
     return_l \<lparr>edit_crc32 = crc, edit_payload_size = sz\<rparr>)))"

section \<open>Payload\<close>

definition EditPayload_validate :: "EditPayload \<Rightarrow> StatusCode" where
  "EditPayload_validate p =
     (if \<not> is_ok (checked_u32_count (length (deleted_tables p))) then checked_u32_count (length (deleted_tables p))
      else if \<not> is_ok (checked_u32_count (length (new_tables p))) then checked_u32_count (length (new_tables p))
      else if edit_next_table_id p = Some 0 then InvalidArgument
      else if edit_next_sequence_number p = Some 0 then InvalidArgument
      else if edit_current_wal_id p = Some 0 then InvalidArgument
      else if \<exists>d \<in> set (deleted_tables p). dt_table_id d = 0 then InvalidArgument
      else if \<exists>t \<in> set (new_tables p). table_id t = 0 then InvalidArgument
      else Ok)"

fun add_table_sizes :: "TableMeta list \<Rightarrow> nat \<Rightarrow> nat result" where
  "add_table_sizes [] n = Inr n"
| "add_table_sizes (t # ts) n =
     (case TableMeta_disk_size t of
        Inl e \<Rightarrow> Inl e
      | Inr table_size \<Rightarrow>
          (case checked_add_u64 n (unat table_size) of Inl e \<Rightarrow> Inl e | Inr n' \<Rightarrow> add_table_sizes ts n'))"

definition EditPayload_encoded_size :: "EditPayload \<Rightarrow> u32 result" where
  "EditPayload_encoded_size p =
     (let c = EditPayload_validate p in
      if \<not> is_ok c then Inl c
      else let n = MIN_PAYLOAD_SIZE;
               n = (if edit_next_table_id p \<noteq> None then n + 8 else n);
               n = (if edit_next_sequence_number p \<noteq> None then n + 8 else n);
               n = (if edit_current_wal_id p \<noteq> None then n + 8 else n)
        in case checked_add_u64 n (length (deleted_tables p) * DeletedTable_disk_size) of
             Inl e \<Rightarrow> Inl e
           | Inr n \<Rightarrow>
               (case add_table_sizes (new_tables p) n of
                  Inl e \<Rightarrow> Inl e
                | Inr n \<Rightarrow>
                    if n > MANIFEST_MAX_EDIT_SIZE \<or> n > u32_max then Inl AllocationTooLarge else Inr (of_nat n)))"

definition crc_opt :: "zlib \<Rightarrow> u64 option \<Rightarrow> u32 \<Rightarrow> u32" where
  "crc_opt z v crc = (case v of None \<Rightarrow> crc | Some x \<Rightarrow> crc32_add_u64 z x crc)"

fun crc_tables :: "zlib \<Rightarrow> TableMeta list \<Rightarrow> u32 \<Rightarrow> StatusCode \<times> u32" where
  "crc_tables z [] crc = (Ok, crc)"
| "crc_tables z (t # ts) crc =
     (case TableMeta_calculate_crc z False t crc of (c, crc') \<Rightarrow>
        if \<not> is_ok c then (c, crc') else crc_tables z ts crc')"

definition EditPayload_compute_crc32 :: "zlib \<Rightarrow> EditPayload \<Rightarrow> u32 \<Rightarrow> StatusCode \<times> u32" where
  "EditPayload_compute_crc32 z p crc_buffer =
     (let c = EditPayload_validate p in
      if \<not> is_ok c then (c, crc_buffer)
      else let crc = crc_init z;
               crc = crc32_add_u32 z (payload_flags p) crc;
               crc = crc_opt z (edit_next_table_id p) crc;
               crc = crc_opt z (edit_next_sequence_number p) crc;
               crc = crc_opt z (edit_current_wal_id p) crc;
               crc = crc32_add_u32 z (of_nat (length (deleted_tables p))) crc;
               crc = crc32_add_u32 z (of_nat (length (new_tables p))) crc;
               crc = fold (DeletedTable_calculate_crc z False) (deleted_tables p) crc
           in crc_tables z (new_tables p) crc)"

definition write_opt :: "u64 option \<Rightarrow> wfile action" where
  "write_opt v f = (case v of None \<Rightarrow> (Ok, f) | Some x \<Rightarrow> write_u64_t_le x MANIFEST_BLOCK_SIZE f)"

definition EditPayload_write_fields :: "EditPayload \<Rightarrow> wfile action" where
  "EditPayload_write_fields p = run_all
     ([write_u32_t_le (payload_flags p) MANIFEST_BLOCK_SIZE,
       write_opt (edit_next_table_id p),
       write_opt (edit_next_sequence_number p),
       write_opt (edit_current_wal_id p),
       write_u32_t_le (of_nat (length (deleted_tables p))) MANIFEST_BLOCK_SIZE,
       write_u32_t_le (of_nat (length (new_tables p))) MANIFEST_BLOCK_SIZE] @
      map DeletedTable_write (deleted_tables p) @
      map TableMeta_write (new_tables p))"

definition EditPayload_write :: "EditPayload \<Rightarrow> wfile action" where
  "EditPayload_write p f =
     (case EditPayload_encoded_size p of
        Inl e \<Rightarrow> (e, f)
      | Inr sz \<Rightarrow>
          let payload_begin = woff f in
          case EditPayload_write_fields p f of (c, f') \<Rightarrow>
            if \<not> is_ok c then (c, f')
            else if woff f' - payload_begin \<noteq> unat sz then (InvariantViolation, f')
            else (Ok, f'))"

text \<open>The bounded reads of \<open>Payload::load\<close>.\<close>

definition bounded_u32 :: "nat \<Rightarrow> u32 loader" where
  "bounded_u32 payload_end = bind_l (check_l (require_remaining payload_end 4)) (\<lambda>_. u32_l)"

definition bounded_u64 :: "nat \<Rightarrow> u64 loader" where
  "bounded_u64 payload_end = bind_l (check_l (require_remaining payload_end 8)) (\<lambda>_. u64_l)"

definition load_opt :: "nat \<Rightarrow> bool \<Rightarrow> u64 option loader" where
  "load_opt payload_end present =
     (if present then bind_l (bounded_u64 payload_end) (\<lambda>v. return_l (Some v)) else return_l None)"

definition load_deleted :: "nat \<Rightarrow> DeletedTable loader" where
  "load_deleted payload_end =
     bind_l (check_l (require_remaining payload_end DeletedTable_disk_size)) (\<lambda>_. lift_l DeletedTable_load)"

definition load_new :: "nat \<Rightarrow> TableMeta loader" where
  "load_new payload_end =
     bind_l (check_l (\<lambda>f. if roff f \<ge> payload_end then InvalidPayloadSize else Ok)) (\<lambda>_.
     bind_l TableMeta_load (\<lambda>t.
     bind_l (check_l (\<lambda>f. if roff f > payload_end then InvalidPayloadSize else Ok)) (\<lambda>_.
     return_l t)))"

definition check_counts :: "nat \<Rightarrow> u32 \<Rightarrow> u32 \<Rightarrow> rfile \<Rightarrow> StatusCode" where
  "check_counts payload_end deleted_count new_count f =
     (if unat deleted_count > MANIFEST_MAX_TABLES_PER_EDIT \<or> unat new_count > MANIFEST_MAX_TABLES_PER_EDIT
      then AllocationTooLarge
      else let remaining = sub_u64 payload_end (roff f);
               deleted_bytes = unat deleted_count * DeletedTable_disk_size in
        if deleted_bytes > remaining then InvalidPayloadSize
        else if unat new_count > remaining - deleted_bytes then InvalidPayloadSize
        else Ok)"

definition EditPayload_load_fields :: "nat \<Rightarrow> EditPayload loader" where
  "EditPayload_load_fields payload_end =
     bind_l (bounded_u32 payload_end) (\<lambda>flags.
     bind_l (check_l (\<lambda>_. if flags AND NOT KNOWN_FLAGS \<noteq> 0 then Corruption else Ok)) (\<lambda>_.
     bind_l (load_opt payload_end (flags AND HAS_NEXT_TABLE_ID \<noteq> 0)) (\<lambda>nt.
     bind_l (load_opt payload_end (flags AND HAS_NEXT_SEQUENCE_NUMBER \<noteq> 0)) (\<lambda>ns.
     bind_l (load_opt payload_end (flags AND HAS_CURRENT_WAL_ID \<noteq> 0)) (\<lambda>wid.
     bind_l (bounded_u32 payload_end) (\<lambda>deleted_count.
     bind_l (bounded_u32 payload_end) (\<lambda>new_count.
     bind_l (check_l (check_counts payload_end deleted_count new_count)) (\<lambda>_.
     bind_l (repeat_l (unat deleted_count) (load_deleted payload_end)) (\<lambda>ds.
     bind_l (repeat_l (unat new_count) (load_new payload_end)) (\<lambda>ts.
     return_l \<lparr>edit_next_table_id = nt, edit_next_sequence_number = ns, edit_current_wal_id = wid,
       deleted_tables = ds, new_tables = ts\<rparr>))))))))))"

definition EditPayload_load :: "u32 \<Rightarrow> EditPayload loader" where
  "EditPayload_load sz =
     bind_l (check_l (\<lambda>f. if unat sz < MIN_PAYLOAD_SIZE \<or> unat sz > MANIFEST_MAX_EDIT_SIZE then InvalidPayloadSize
                          else if int (unat sz) > int u64_max - int (roff f) then InvalidPayloadSize else Ok)) (\<lambda>_ s.
     let payload_end = roff (fst s) + unat sz in
     bind_l (EditPayload_load_fields payload_end) (\<lambda>p.
     bind_l (check_l (\<lambda>f. if roff f \<noteq> payload_end then InvalidPayloadSize else EditPayload_validate p)) (\<lambda>_.
     return_l p)) s)"

section \<open>Edits\<close>

definition VersionEdit_encoded_size :: "VersionEdit \<Rightarrow> u32 result" where
  "VersionEdit_encoded_size e =
     (case EditPayload_encoded_size (edit_payload e) of
        Inl c \<Rightarrow> Inl c
      | Inr n \<Rightarrow> if unat n > u32_max - EditHeader_disk_size then Inl AllocationTooLarge
                 else Inr (of_nat (EditHeader_disk_size + unat n)))"

definition VersionEdit_add_table :: "TableMeta \<Rightarrow> VersionEdit \<Rightarrow> VersionEdit" where
  "VersionEdit_add_table t e =
     e\<lparr>edit_payload := (edit_payload e)\<lparr>new_tables := new_tables (edit_payload e) @ [t]\<rparr>\<rparr>"

definition VersionEdit_prepare :: "zlib \<Rightarrow> VersionEdit action" where
  "VersionEdit_prepare z e =
     (case EditPayload_encoded_size (edit_payload e) of
        Inl c \<Rightarrow> (c, e)
      | Inr sz \<Rightarrow>
          (case EditPayload_compute_crc32 z (edit_payload e) 0 of (c, crc) \<Rightarrow>
             if \<not> is_ok c then (c, e)
             else (Ok, e\<lparr>edit_header := \<lparr>edit_crc32 = crc, edit_payload_size = sz\<rparr>\<rparr>)))"

definition VersionEdit_write :: "zlib \<Rightarrow> VersionEdit \<Rightarrow> wfile \<Rightarrow> StatusCode \<times> VersionEdit \<times> wfile" where
  "VersionEdit_write z e f =
     (case VersionEdit_prepare z e of (c, e') \<Rightarrow>
        if \<not> is_ok c then (c, e', f)
        else let edit_begin = woff f in
          case EditHeader_write (edit_header e') f of (c, f1) \<Rightarrow>
            if \<not> is_ok c then (c, e', f1)
            else case EditPayload_write (edit_payload e') f1 of (c, f2) \<Rightarrow>
              if \<not> is_ok c then (c, e', f2)
              else if woff f2 - edit_begin \<noteq> EditHeader_disk_size + unat (edit_payload_size (edit_header e'))
              then (InvariantViolation, e', f2)
              else (Ok, e', f2))"

text \<open>Once the declared range exists, an end of file inside it is reported as corruption.\<close>

definition eof_as_corruption :: "'a loader \<Rightarrow> 'a loader" where
  "eof_as_corruption m s = (case m s of
     None \<Rightarrow> None
   | Some (r, s') \<Rightarrow> Some (if r = Inl UnexpectedEOF then Inl Corruption else r, s'))"

definition VersionEdit_check_crc :: "zlib \<Rightarrow> VersionEdit \<Rightarrow> StatusCode" where
  "VersionEdit_check_crc z e =
     (case EditPayload_compute_crc32 z (edit_payload e) 0 of (c, actual_crc) \<Rightarrow>
        if \<not> is_ok c then c
        else if actual_crc \<noteq> edit_crc32 (edit_header e) then ChecksumMismatch else Ok)"

definition VersionEdit_load :: "zlib \<Rightarrow> nat \<Rightarrow> VersionEdit loader" where
  "VersionEdit_load z fsize =
     bind_l (check_l (\<lambda>f. if roff f > fsize \<or> EditHeader_disk_size > fsize - roff f then UnexpectedEOF else Ok)) (\<lambda>_.
     bind_l EditHeader_load (\<lambda>h.
     bind_l (check_l (\<lambda>f. if unat (edit_payload_size h) > sub_u64 fsize (roff f) then UnexpectedEOF else Ok)) (\<lambda>_.
     bind_l (eof_as_corruption (EditPayload_load (edit_payload_size h))) (\<lambda>p.
     let e = \<lparr>edit_header = h, edit_payload = p\<rparr> in
     bind_l (check_l (\<lambda>_. VersionEdit_check_crc z e)) (\<lambda>_. return_l e)))))"

section \<open>The layout\<close>

definition opt_field :: "u64 option \<Rightarrow> byte list list" where
  "opt_field v = (case v of None \<Rightarrow> [] | Some x \<Rightarrow> [enc_u64 x])"

definition deleted_fields :: "DeletedTable \<Rightarrow> byte list list" where
  "deleted_fields d = [enc_u32 (dt_level d), enc_u64 (dt_table_id d)]"

definition payload_fields :: "EditPayload \<Rightarrow> byte list list" where
  "payload_fields p = [enc_u32 (payload_flags p)] @ opt_field (edit_next_table_id p) @
     opt_field (edit_next_sequence_number p) @ opt_field (edit_current_wal_id p) @
     [enc_u32 (of_nat (length (deleted_tables p)))] @ [enc_u32 (of_nat (length (new_tables p)))] @
     concat (map deleted_fields (deleted_tables p)) @ concat (map meta_fields (new_tables p))"

definition header_fields :: "EditHeader \<Rightarrow> byte list list" where
  "header_fields h = [enc_u32 (edit_crc32 h), enc_u32 (edit_payload_size h)]"

definition edit_fields :: "VersionEdit \<Rightarrow> byte list list" where
  "edit_fields e = header_fields (edit_header e) @ payload_fields (edit_payload e)"

definition payload_writable :: "EditPayload \<Rightarrow> bool" where
  "payload_writable p \<longleftrightarrow> (\<exists>n. EditPayload_encoded_size p = Inr n) \<and> (\<forall>t \<in> set (new_tables p). meta_writable t)"

section \<open>Encoded size\<close>

lemma concat_const_length: "(\<And>x. x \<in> set xs \<Longrightarrow> length (concat (g x)) = k) \<Longrightarrow> length (concat (concat (map g xs))) = k * length xs"
  by (induction xs) simp_all

lemma concat_min_length: "(\<And>x. x \<in> set xs \<Longrightarrow> 0 < length (concat (g x))) \<Longrightarrow> length xs \<le> length (concat (concat (map g xs)))"
proof (induction xs)
  case (Cons x xs)
  then have "0 < length (concat (g x))" "length xs \<le> length (concat (concat (map g xs)))" by simp_all
  then show ?case by (simp del: length_concat length_greater_0_conv length_0_conv concat_eq_Nil_conv)
qed simp

lemma add_table_sizes_eq:
  assumes "\<forall>t \<in> set ts. meta_writable t" "add_table_sizes ts n = Inr m"
  shows "m = n + length (concat (concat (map meta_fields ts)))"
  using assms
proof (induction ts arbitrary: n)
  case (Cons t ts)
  have "length (concat (meta_fields t)) \<le> u32_max"
    using TableMeta_disk_size_eq(2) [of t] Cons.prems(1) by (simp add: TABLE_META_FIXED_DISK_BYTES_def MANIFEST_BLOCK_SIZE_def)
  then have "unat (of_nat (length (concat (meta_fields t))) :: u32) = length (concat (meta_fields t))" by simp
  moreover have "TableMeta_disk_size t = Inr (of_nat (length (concat (meta_fields t))))"
    using TableMeta_disk_size_eq(1) [of t] Cons.prems(1) by simp
  ultimately show ?case
    using Cons.prems Cons.IH [of "n + length (concat (meta_fields t))"]
    by (simp add: checked_add_u64_def add.assoc split: if_splits)
qed simp

lemma deleted_fields_length: "length (concat (concat (map deleted_fields ds))) = 12 * length ds"
  by (rule concat_const_length) (simp add: deleted_fields_def)

lemma payload_fields_length:
  "length (concat (payload_fields p)) = 12 + length (concat (opt_field (edit_next_table_id p))) +
    length (concat (opt_field (edit_next_sequence_number p))) + length (concat (opt_field (edit_current_wal_id p))) +
    12 * length (deleted_tables p) + length (concat (concat (map meta_fields (new_tables p))))"
  by (simp add: payload_fields_def deleted_fields_length)

lemma opt_field_length: "length (concat (opt_field v)) = (if v \<noteq> None then 8 else 0)"
  by (cases v) (simp_all add: opt_field_def)

lemma encoded_size_eq:
  assumes "payload_writable p"
  shows "EditPayload_encoded_size p = Inr (of_nat (length (concat (payload_fields p))))"
    "length (concat (payload_fields p)) \<le> MANIFEST_MAX_EDIT_SIZE" "MIN_PAYLOAD_SIZE \<le> length (concat (payload_fields p))"
    "unat (of_nat (length (concat (payload_fields p))) :: u32) = length (concat (payload_fields p))"
    "EditPayload_validate p = Ok"
proof -
  let ?n0 = "MIN_PAYLOAD_SIZE + (if edit_next_table_id p \<noteq> None then 8 else 0) +
    (if edit_next_sequence_number p \<noteq> None then 8 else 0) + (if edit_current_wal_id p \<noteq> None then 8 else 0)"
  obtain sz where sz: "EditPayload_encoded_size p = Inr sz" using assms by (auto simp: payload_writable_def)
  then obtain m where m: "add_table_sizes (new_tables p) (?n0 + length (deleted_tables p) * DeletedTable_disk_size) = Inr m"
    "m \<le> MANIFEST_MAX_EDIT_SIZE" "sz = of_nat m" and v: "EditPayload_validate p = Ok"
    by (auto simp: EditPayload_encoded_size_def checked_add_u64_def Let_def split: if_splits sum.splits)
  have "m = length (concat (payload_fields p))"
    using add_table_sizes_eq [OF _ m(1)] assms
    by (simp add: payload_writable_def payload_fields_length opt_field_length MIN_PAYLOAD_SIZE_def DeletedTable_disk_size_def)
  moreover have u: "m \<le> u32_max" using m(2) by (simp add: MANIFEST_MAX_EDIT_SIZE_def)
  moreover have "unat (of_nat m :: u32) = m" using u by (rule unat_of_length_u32)
  moreover have "MIN_PAYLOAD_SIZE \<le> length (concat (payload_fields p))"
    by (simp add: payload_fields_length MIN_PAYLOAD_SIZE_def)
  ultimately show "EditPayload_encoded_size p = Inr (of_nat (length (concat (payload_fields p))))"
    "length (concat (payload_fields p)) \<le> MANIFEST_MAX_EDIT_SIZE" "MIN_PAYLOAD_SIZE \<le> length (concat (payload_fields p))"
    "unat (of_nat (length (concat (payload_fields p))) :: u32) = length (concat (payload_fields p))"
    "EditPayload_validate p = Ok"
    using sz m(2,3) v by simp_all
qed

lemma crc_tables_ok: "\<forall>t \<in> set ts. meta_writable t \<Longrightarrow> \<exists>crc'. crc_tables z ts crc = (Ok, crc')"
proof (induction ts arbitrary: crc)
  case (Cons t ts)
  then have "TableMeta_validate t = Ok" "checked_u32_size (length (tm_path t)) = Inr (of_nat (length (tm_path t)))"
    using meta_writable_sizes by (simp_all add: meta_writable_def)
  then show ?case using Cons by (auto simp: TableMeta_calculate_crc_def Let_def split: prod.splits)
qed simp

definition payload_crc :: "zlib \<Rightarrow> EditPayload \<Rightarrow> u32" where
  "payload_crc z p = snd (EditPayload_compute_crc32 z p 0)"

definition prepared :: "zlib \<Rightarrow> EditPayload \<Rightarrow> VersionEdit" where
  "prepared z p = \<lparr>edit_header = \<lparr>edit_crc32 = payload_crc z p, edit_payload_size = of_nat (length (concat (payload_fields p)))\<rparr>,
     edit_payload = p\<rparr>"

lemma compute_crc_ok: "payload_writable p \<Longrightarrow> EditPayload_compute_crc32 z p 0 = (Ok, payload_crc z p)"
proof -
  assume p: "payload_writable p"
  then have v: "EditPayload_validate p = Ok" by (rule encoded_size_eq(5))
  obtain crc where "EditPayload_compute_crc32 z p 0 = (Ok, crc)"
    using crc_tables_ok [of "new_tables p"] p unfolding EditPayload_compute_crc32_def Let_def v payload_writable_def by fastforce
  then show ?thesis by (simp add: payload_crc_def)
qed

lemma prepare_eq: "payload_writable (edit_payload e) \<Longrightarrow> VersionEdit_prepare z e = (Ok, prepared z (edit_payload e))"
  by (simp add: VersionEdit_prepare_def encoded_size_eq(1) compute_crc_ok prepared_def)

section \<open>Writing an edit\<close>

lemma DeletedTable_write_lays: "lays MANIFEST_BLOCK_SIZE (DeletedTable_write d) (deleted_fields d)"
  unfolding DeletedTable_write_def deleted_fields_def
  by (intro lays_Cons_skip [OF check_offset_lays] lays_Cons field_lays lays_run_all_Nil)

lemma EditHeader_write_lays: "lays MANIFEST_BLOCK_SIZE (EditHeader_write h) (header_fields h)"
  unfolding EditHeader_write_def header_fields_def
  by (intro lays_Cons_skip [OF check_offset_lays] lays_Cons field_lays lays_run_all_Nil)

lemma write_opt_lays: "lays MANIFEST_BLOCK_SIZE (write_opt v) (opt_field v)"
proof (cases v)
  case None
  then show ?thesis by (auto simp: write_opt_def opt_field_def intro!: lays_skip)
next
  case (Some x)
  then have "write_opt v = write_u64_t_le x MANIFEST_BLOCK_SIZE" by (auto simp: write_opt_def)
  then show ?thesis using Some field_lays(1) by (simp add: opt_field_def)
qed

lemma EditPayload_write_fields_lays:
  assumes "payload_writable p"
  shows "lays MANIFEST_BLOCK_SIZE (EditPayload_write_fields p) (payload_fields p)"
proof -
  have d: "lays MANIFEST_BLOCK_SIZE (run_all (map DeletedTable_write (deleted_tables p)))
      (concat (map deleted_fields (deleted_tables p)))"
    by (rule lays_map) (rule DeletedTable_write_lays)
  have t: "lays MANIFEST_BLOCK_SIZE (run_all (map TableMeta_write (new_tables p)))
      (concat (map meta_fields (new_tables p)))"
    using assms by (intro lays_map TableMeta_write_lays) (simp add: payload_writable_def)
  show ?thesis
    unfolding EditPayload_write_fields_def payload_fields_def append_Cons append_Nil
    by (intro lays_Cons lays_run_all_Cons field_lays write_opt_lays lays_run_all_append d t)
qed

text \<open>The writer's outcome: a prefix of the laid-out edit is in the file; success means all of it and
  no padding; without device errors the only failure is the padding.\<close>

definition edit_bytes :: "nat \<Rightarrow> VersionEdit \<Rightarrow> byte list" where
  "edit_bytes off e = lay MANIFEST_BLOCK_SIZE off (edit_fields e)"

lemma edit_fields_length: "length (concat (edit_fields e)) = 8 + length (concat (payload_fields (edit_payload e)))"
  by (simp add: edit_fields_def header_fields_def)

definition unpadded :: "nat \<Rightarrow> VersionEdit \<Rightarrow> bool" where
  "unpadded off e \<longleftrightarrow> seamless MANIFEST_BLOCK_SIZE off (edit_fields e)"

lemma VersionEdit_write_cases:
  fixes z e f
  assumes "tracked f" "payload_writable (edit_payload e)"
  defines "p \<equiv> prepared z (edit_payload e)" and "off \<equiv> length (wdata f)"
  shows "\<exists>c f' n. VersionEdit_write z e f = (c, p, f') \<and> tracked f' \<and> wsynced f' = wsynced f \<and> wsenv f' = wsenv f \<and>
    n \<le> length (edit_bytes off p) \<and> wdata f' = wdata f @ take n (edit_bytes off p) \<and>
    (c = Ok \<longrightarrow> n = length (edit_bytes off p) \<and> unpadded off p) \<and>
    (write_faultfree f \<longrightarrow> write_faultfree f' \<and> n = length (edit_bytes off p) \<and> c = (if unpadded off p then Ok else InvariantViolation))"
proof -
  let ?B = MANIFEST_BLOCK_SIZE and ?hf = "header_fields (edit_header p)" and ?pf = "payload_fields (edit_payload e)"
  let ?h = "lay ?B off ?hf" and ?q = "lay ?B (off + length (lay ?B off ?hf)) ?pf"
  have prep: "VersionEdit_prepare z e = (Ok, p)" unfolding p_def by (rule prepare_eq [OF assms(2)])
  have pp: "edit_payload p = edit_payload e" "unat (edit_payload_size (edit_header p)) = length (concat ?pf)"
    using encoded_size_eq(4) [OF assms(2)] by (simp_all add: p_def prepared_def)
  have bytes: "edit_bytes off p = ?h @ ?q" by (simp add: edit_bytes_def edit_fields_def lay_append pp)
  have un: "unpadded off p \<longleftrightarrow> length ?q = length (concat ?pf) \<and> length (?h @ ?q) = 8 + length (concat ?pf)"
  proof -
    have "unpadded off p \<longleftrightarrow> length (?h @ ?q) = 8 + length (concat ?pf)"
      using lay_length_seamless [of ?B off "edit_fields p"] edit_fields_length [of p] bytes
      by (simp only: unpadded_def edit_bytes_def [symmetric] pp)
    moreover have "8 \<le> length ?h"
      using lay_length [of ?hf ?B off] by (simp add: header_fields_def del: lay.simps)
    ultimately show ?thesis using lay_length [of ?pf ?B "off + length ?h"] by (simp del: lay.simps) linarith
  qed
  obtain c1 f1 n1 where f1: "EditHeader_write (edit_header p) f = (c1, f1)" "n1 \<le> length ?h" "c1 = Ok \<longrightarrow> n1 = length ?h"
    "wdata f1 = wdata f @ take n1 ?h" "woff f1 = woff f + n1" "wfd f1 = wfd f" "wsynced f1 = wsynced f" "wsenv f1 = wsenv f"
    "write_faultfree f \<longrightarrow> c1 = Ok \<and> write_faultfree f1"
    using laysD [OF EditHeader_write_lays assms(1), of "edit_header p"] unfolding emits_def off_def by blast
  have t1: "tracked f1" using assms(1) f1 by (simp add: tracked_def)
  show ?thesis
  proof (cases "c1 = Ok")
    case False
    then have "VersionEdit_write z e f = (c1, p, f1)" by (simp add: VersionEdit_write_def prep f1(1) Let_def)
    then show ?thesis using False f1 t1 bytes by (intro exI [of _ c1] exI [of _ f1] exI [of _ n1]) auto
  next
    case True
    have off1: "length (wdata f1) = off + length ?h" using True f1 by (simp add: off_def)
    obtain c2 f2 n2 where f2: "EditPayload_write_fields (edit_payload e) f1 = (c2, f2)" "n2 \<le> length ?q" "c2 = Ok \<longrightarrow> n2 = length ?q"
      "wdata f2 = wdata f1 @ take n2 ?q" "woff f2 = woff f1 + n2" "wfd f2 = wfd f1" "wsynced f2 = wsynced f1" "wsenv f2 = wsenv f1"
      "write_faultfree f1 \<longrightarrow> c2 = Ok \<and> write_faultfree f2"
      using laysD [OF EditPayload_write_fields_lays [OF assms(2)] t1, unfolded off1] unfolding emits_def by blast
    have t2: "tracked f2" using t1 f2 by (simp add: tracked_def)
    define c where "c = (if c2 \<noteq> Ok then c2 else if unpadded off p then Ok else InvariantViolation)"
    have "VersionEdit_write z e f = (c, p, f2)"
      using True f1 f2 un
      by (simp add: VersionEdit_write_def EditPayload_write_def prep encoded_size_eq(1,4) [OF assms(2)] pp Let_def c_def
        EditHeader_disk_size_def)
    moreover have "wdata f2 = wdata f @ take (length ?h + n2) (edit_bytes off p)"
      using True f1 f2 by (simp add: bytes)
    ultimately show ?thesis
      using t2 f1 f2 True bytes by (intro exI [of _ c] exI [of _ f2] exI [of _ "length ?h + n2"]) (auto simp: c_def)
  qed
qed

section \<open>Loading an edit\<close>

lemma payload_flags_bits:
  "payload_flags p AND NOT KNOWN_FLAGS = 0"
  "payload_flags p AND HAS_NEXT_TABLE_ID \<noteq> 0 \<longleftrightarrow> edit_next_table_id p \<noteq> None"
  "payload_flags p AND HAS_NEXT_SEQUENCE_NUMBER \<noteq> 0 \<longleftrightarrow> edit_next_sequence_number p \<noteq> None"
  "payload_flags p AND HAS_CURRENT_WAL_ID \<noteq> 0 \<longleftrightarrow> edit_current_wal_id p \<noteq> None"
  by (auto simp: payload_flags_def KNOWN_FLAGS_def HAS_NEXT_TABLE_ID_def HAS_NEXT_SEQUENCE_NUMBER_def HAS_CURRENT_WAL_ID_def)

abbreviation Bm :: nat where
  "Bm \<equiv> MANIFEST_BLOCK_SIZE"

lemma loads_return_eq: "v = w \<Longrightarrow> loads B E (return_l v) [] w"
  by (simp add: loads_return)

lemma reads_return_eq: "v = w \<Longrightarrow> reads B (return_r v) [] w"
  by (simp add: reads_return)

lemma loads_remaining:
  assumes "loads Bm (Some E) m cs v" "n \<le> length (concat cs)"
  shows "loads Bm (Some E) (bind_l (check_l (require_remaining E n)) (\<lambda>_. m)) cs v"
  using assms(2) by (intro loads_guard assms(1)) (auto simp: fits_def require_remaining_def)

lemma bounded_u32_loads: "loads Bm (Some E) (bounded_u32 E) [enc_u32 w] w"
  unfolding bounded_u32_def by (rule loads_remaining [OF field_loads(2)]) simp

lemma bounded_u64_loads: "loads Bm (Some E) (bounded_u64 E) [enc_u64 v] v"
  unfolding bounded_u64_def by (rule loads_remaining [OF field_loads(1)]) simp

lemma load_opt_loads: "b = (v \<noteq> None) \<Longrightarrow> loads Bm (Some E) (load_opt E b) (opt_field v) v"
  using loads_bind_Nil [OF bounded_u64_loads loads_return]
  by (cases v) (simp_all add: load_opt_def opt_field_def loads_return)

lemma DeletedTable_loads: "loads Bm (Some E) (load_deleted E) (deleted_fields d) d"
proof -
  have "reads Bm DeletedTable_load ([enc_u32 (dt_level d)] @ [enc_u64 (dt_table_id d)] @ []) d"
    unfolding DeletedTable_load_def
    by (intro reads_bind [OF u32_field.rd_reads] reads_bind [OF u64_field.rd_reads]) (simp_all add: reads_return_eq)
  then have r: "reads Bm DeletedTable_load (deleted_fields d) d" by (simp add: deleted_fields_def)
  have len: "length (concat (deleted_fields d)) = 12" by (simp add: deleted_fields_def)
  show ?thesis unfolding load_deleted_def
    by (rule loads_remaining [OF loads_lift [OF r]]) (use len in \<open>simp add: DeletedTable_disk_size_def\<close>)
qed

lemma load_new_loads:
  assumes "meta_writable t"
  shows "loads Bm (Some E) (load_new E) (meta_fields t) t"
  unfolding load_new_def
proof (rule loads_guard)
  show "loads Bm (Some E) (bind_l TableMeta_load (\<lambda>t. bind_l (check_l (\<lambda>f. if E < roff f then InvalidPayloadSize else Ok)) (\<lambda>_. return_l t)))
      (meta_fields t) t"
    by (rule loads_then_check [OF TableMeta_load_loads [OF assms]]) simp
  show "fits Bm (Some E) (roff f) (meta_fields t) \<Longrightarrow> (if E \<le> roff f then InvalidPayloadSize else Ok) = Ok" for f :: rfile
    by (simp add: fits_def meta_fields_length TABLE_META_FIXED_DISK_BYTES_def)
qed

lemma check_counts_fits:
  assumes "fits Bm (Some E) (roff f) (concat (map deleted_fields ds) @ concat (map meta_fields ts))"
    "length ds \<le> MANIFEST_MAX_TABLES_PER_EDIT" "length ts \<le> MANIFEST_MAX_TABLES_PER_EDIT"
  shows "check_counts E (of_nat (length ds)) (of_nat (length ts)) f = Ok"
proof -
  have u: "unat (of_nat (length ds) :: u32) = length ds" "unat (of_nat (length ts) :: u32) = length ts"
    using assms(2,3) by (simp_all add: MANIFEST_MAX_TABLES_PER_EDIT_def)
  have "length ts \<le> length (concat (concat (map meta_fields ts)))"
    by (rule concat_min_length) (simp add: meta_fields_length TABLE_META_FIXED_DISK_BYTES_def)
  then have "roff f + 12 * length ds + length ts \<le> E"
    using assms(1) deleted_fields_length [of ds] by (simp add: fits_def)
  then have "roff f \<le> E" "\<not> E - roff f < length ds * 12" "\<not> E - roff f - length ds * 12 < length ts" by linarith+
  then show ?thesis
    using assms(2,3) u by (simp add: check_counts_def sub_u64_def DeletedTable_disk_size_def Let_def del: diff_diff_left)
qed

lemma validate_counts:
  assumes "EditPayload_validate p = Ok"
  shows "length (deleted_tables p) \<le> MANIFEST_MAX_TABLES_PER_EDIT" "length (new_tables p) \<le> MANIFEST_MAX_TABLES_PER_EDIT"
  using assms by (auto simp: EditPayload_validate_def checked_u32_count_def split: if_splits)

lemma EditPayload_load_fields_loads:
  assumes "payload_writable p"
  shows "loads Bm (Some E) (EditPayload_load_fields E) (payload_fields p) p"
proof -
  let ?nd = "of_nat (length (deleted_tables p)) :: u32" and ?nn = "of_nat (length (new_tables p)) :: u32"
  let ?df = "concat (map deleted_fields (deleted_tables p))" and ?tf = "concat (map meta_fields (new_tables p))"
  note c = validate_counts [OF encoded_size_eq(5) [OF assms]]
  have u: "unat ?nd = length (deleted_tables p)" "unat ?nn = length (new_tables p)"
    using c by (simp_all add: MANIFEST_MAX_TABLES_PER_EDIT_def)
  have d: "loads Bm (Some E) (repeat_l (unat ?nd) (load_deleted E)) ?df (deleted_tables p)"
    unfolding u by (intro loads_repeat DeletedTable_loads)
  have n: "loads Bm (Some E) (repeat_l (unat ?nn) (load_new E)) ?tf (new_tables p)"
    unfolding u using assms by (intro loads_repeat load_new_loads) (simp add: payload_writable_def)
  have counts: "check_counts E ?nd ?nn f = Ok" if "fits Bm (Some E) (roff f) (?df @ ?tf)" for f :: rfile
    using check_counts_fits [OF that c] .
  have flags: "(if payload_flags p AND NOT KNOWN_FLAGS \<noteq> 0 then Corruption else Ok) = Ok"
    by (simp add: payload_flags_bits)
  show ?thesis
    unfolding EditPayload_load_fields_def payload_fields_def
    by (rule loads_bind [OF bounded_u32_loads] loads_pass flags loads_bind [OF load_opt_loads [OF payload_flags_bits(2)]]
        loads_bind [OF load_opt_loads [OF payload_flags_bits(3)]] loads_bind [OF load_opt_loads [OF payload_flags_bits(4)]]
        loads_guard [OF counts] loads_bind [OF d] loads_bind_Nil [OF n] loads_return_eq | assumption | simp; fail)+
qed

text \<open>A payload is loaded back exactly when it was written without padding.\<close>

lemma EditPayload_load_at:
  assumes "payload_writable p" "read_quiet D f" "arena_ok ar" "never_oom ar"
    "bytes_at D (roff f) (lay Bm (roff f) (payload_fields p))"
  shows "\<exists>r f' ar'. EditPayload_load (of_nat (length (concat (payload_fields p)))) (f, ar) = Some (r, f', ar') \<and>
    read_quiet D f' \<and> extends ar ar' \<and> never_oom ar' \<and>
    (if seamless Bm (roff f) (payload_fields p) then r = Inr p \<and> roff f' = roff f + length (concat (payload_fields p))
     else \<exists>e. r = Inl e)"
proof -
  let ?n = "length (concat (payload_fields p))" and ?l = "length (lay Bm (roff f) (payload_fields p))"
  let ?E = "roff f + ?n"
  let ?m = "bind_l (EditPayload_load_fields ?E) (\<lambda>q.
     bind_l (check_l (\<lambda>f. if roff f \<noteq> ?E then InvalidPayloadSize else EditPayload_validate q)) (\<lambda>_. return_l q))"
  note sz = encoded_size_eq [OF assms(1)]
  have "roff f + ?l \<le> length D" using bytes_at_bound [OF assms(5)] .
  moreover have "length D \<le> ssize_max" using assms(2) by (simp add: read_quiet_def)
  ultimately have le: "?E \<le> u64_max" using lay_length [of "payload_fields p" Bm "roff f"] by simp
  have eq: "EditPayload_load (of_nat ?n) (f, ar) = ?m (f, ar)"
    using sz(2,3,4) le by (simp add: EditPayload_load_def bind_l_def [of "check_l _"] check_l_def Let_def)
  have sl: "seamless Bm (roff f) (payload_fields p) \<longleftrightarrow> ?l = ?n" using lay_length_seamless by metis
  from EditPayload_load_fields_loads [OF assms(1)] assms(2-5) show ?thesis
  proof (cases rule: loadsD [where E = "Some ?E"])
    case (Refused e f' ar')
    then show ?thesis unfolding eq by (auto simp: bind_l_def fits_def)
  next
    case (Loaded f' ar')
    then show ?thesis unfolding eq using sl sz(5) assms(2)
      by (auto simp: bind_l_def check_l_def return_l_def)
  qed
qed

lemma EditHeader_load_loads:
  assumes "MIN_PAYLOAD_SIZE \<le> unat (edit_payload_size h)" "unat (edit_payload_size h) \<le> MANIFEST_MAX_EDIT_SIZE"
  shows "loads Bm E EditHeader_load (header_fields h) h"
  unfolding EditHeader_load_def header_fields_def
  by (intro loads_Cons [OF field_loads(2)] loads_pass loads_return_eq) (use assms in auto)

lemma prepared_simps [simp]:
  "edit_payload (prepared z p) = p"
  "edit_payload_size (edit_header (prepared z p)) = of_nat (length (concat (payload_fields p)))"
  by (simp_all add: prepared_def)

lemma prepared_check_crc: "payload_writable p \<Longrightarrow> VersionEdit_check_crc z (prepared z p) = Ok"
  by (simp add: VersionEdit_check_crc_def compute_crc_ok) (simp add: prepared_def)

definition header_end :: "nat \<Rightarrow> VersionEdit \<Rightarrow> nat" where
  "header_end off e = off + length (lay Bm off (header_fields (edit_header e)))"

lemma edit_bytes_split:
  "edit_bytes off e = lay Bm off (header_fields (edit_header e)) @ lay Bm (header_end off e) (payload_fields (edit_payload e))"
  by (simp add: edit_bytes_def edit_fields_def lay_append header_end_def)

lemma header_load_at:
  assumes "payload_writable p" "read_quiet D f" "arena_ok ar" "never_oom ar"
    "bytes_at D (roff f) (lay Bm (roff f) (header_fields (edit_header (prepared z p))))"
  obtains f' ar' where "EditHeader_load (f, ar) = Some (Inr (edit_header (prepared z p)), f', ar')"
    "read_quiet D f'" "extends ar ar'" "never_oom ar'" "roff f' = header_end (roff f) (prepared z p)"
proof -
  have "loads Bm None EditHeader_load (header_fields (edit_header (prepared z p))) (edit_header (prepared z p))"
    using encoded_size_eq [OF assms(1)] by (intro EditHeader_load_loads) simp_all
  from this assms(2-5) show ?thesis
  proof (cases rule: loadsD)
    case (Refused e f' ar')
    then show ?thesis by (simp add: fits_def)
  next
    case (Loaded f' ar')
    then show ?thesis using that by (simp add: header_end_def)
  qed
qed

lemma VersionEdit_load_at:
  assumes "payload_writable p" "read_quiet D f" "arena_ok ar" "never_oom ar"
    "bytes_at D (roff f) (edit_bytes (roff f) (prepared z p))"
  shows "\<exists>r f' ar'. VersionEdit_load z (length D) (f, ar) = Some (r, f', ar') \<and> read_quiet D f' \<and> extends ar ar' \<and>
    never_oom ar' \<and>
    (if seamless Bm (header_end (roff f) (prepared z p)) (payload_fields p)
     then r = Inr (prepared z p) \<and> roff f' = roff f + length (edit_bytes (roff f) (prepared z p))
     else \<exists>e. r = Inl e \<and> e \<noteq> UnexpectedEOF)"
proof -
  let ?e = "prepared z p" and ?n = "length (concat (payload_fields p))"
  let ?h = "lay Bm (roff f) (header_fields (edit_header ?e))" and ?q = "lay Bm (header_end (roff f) ?e) (payload_fields p)"
  have at: "bytes_at D (roff f) ?h" "bytes_at D (header_end (roff f) ?e) ?q"
    using assms(5) by (simp_all add: edit_bytes_split bytes_at_append header_end_def)
  obtain g br where g: "EditHeader_load (f, ar) = Some (Inr (edit_header ?e), g, br)" "read_quiet D g" "extends ar br"
    "never_oom br" "roff g = header_end (roff f) ?e" using header_load_at [OF assms(1-4) at(1)] .
  have br: "arena_ok br" using g(3) by (simp add: extends_def)
  obtain r f' ar' where r: "EditPayload_load (of_nat ?n) (g, br) = Some (r, f', ar')" "read_quiet D f'" "extends br ar'"
    "never_oom ar'" "if seamless Bm (roff g) (payload_fields p) then r = Inr p \<and> roff f' = roff g + ?n else \<exists>e. r = Inl e"
    using EditPayload_load_at [OF assms(1) g(2) br g(4), unfolded g(5), OF at(2)] g(5) by auto
  have b: "roff f + length ?h \<le> length D" "roff g + length ?q \<le> length D" "8 \<le> length ?h" "?n \<le> length ?q"
    using bytes_at_bound [OF at(1)] bytes_at_bound [OF at(2)] g(5)
      lay_length [of "header_fields (edit_header ?e)" Bm "roff f"] lay_length [of "payload_fields p" Bm "header_end (roff f) ?e"]
    by (simp_all add: header_fields_def del: lay.simps)
  have c1: "\<not> (roff f > length D \<or> EditHeader_disk_size > length D - roff f)"
    using b(1,3) by (simp add: EditHeader_disk_size_def)
  have c2: "\<not> ?n > sub_u64 (length D) (roff g)" using b(2,4) by (simp add: sub_u64_def)
  let ?tail = "\<lambda>q. let e = \<lparr>edit_header = edit_header ?e, edit_payload = q\<rparr> in
     bind_l (check_l (\<lambda>_. VersionEdit_check_crc z e)) (\<lambda>_. return_l e)"
  have eq: "VersionEdit_load z (length D) (f, ar) = bind_l (eof_as_corruption (EditPayload_load (of_nat ?n))) ?tail (g, br)"
    using c1 c2 g(1) encoded_size_eq(4) [OF assms(1)]
    by (simp add: VersionEdit_load_def bind_l_def [of "check_l _"] bind_l_def [of EditHeader_load] check_l_def)
  have pe: "\<lparr>edit_header = edit_header ?e, edit_payload = p\<rparr> = ?e" by (simp add: prepared_def)
  have ex: "extends ar ar'" using extends_trans [OF g(3) r(3)] .
  show ?thesis
  proof (cases "seamless Bm (header_end (roff f) ?e) (payload_fields p)")
    case True
    then have "r = Inr p" "roff f' = roff f + length (edit_bytes (roff f) ?e)"
      using r(5) g(5) seamless_lay [OF True] by (simp_all add: edit_bytes_split header_end_def)
    then have "VersionEdit_load z (length D) (f, ar) = Some (Inr ?e, f', ar')"
      unfolding eq using r(1) prepared_check_crc [OF assms(1), of z]
      by (simp add: bind_l_def eof_as_corruption_def check_l_def return_l_def pe)
    with True r(2,4) ex \<open>roff f' = _\<close> show ?thesis by auto
  next
    case False
    then obtain c where "r = Inl c" using r(5) g(5) by auto
    then show ?thesis
      unfolding eq using False r(1,2,4) ex by (auto simp: bind_l_def eof_as_corruption_def)
  qed
qed

text \<open>A torn edit, written without padding, is reported as the end of the file.\<close>

lemma VersionEdit_load_torn:
  assumes "payload_writable p" "unpadded off (prepared z p)" "read_quiet D f" "arena_ok ar" "never_oom ar"
    "D = D0 @ take n (edit_bytes off (prepared z p))" "length D0 = off" "roff f = off"
    "n < length (edit_bytes off (prepared z p))"
  shows "\<exists>f' ar'. VersionEdit_load z (length D) (f, ar) = Some (Inl UnexpectedEOF, f', ar') \<and> extends ar ar' \<and> never_oom ar'"
proof (cases "n < 8")
  case True
  then show ?thesis using assms(4-9)
    by (auto simp: VersionEdit_load_def bind_l_def check_l_def EditHeader_disk_size_def extends_refl)
next
  case False
  let ?e = "prepared z p" and ?n = "length (concat (payload_fields p))"
  have "seamless Bm off (header_fields (edit_header ?e))" using assms(2) by (simp add: unpadded_def edit_fields_def seamless_append)
  then have h: "lay Bm off (header_fields (edit_header ?e)) = concat (header_fields (edit_header ?e))" by (rule seamless_lay)
  have he: "header_end off ?e = off + 8" by (simp add: header_end_def h) (simp add: header_fields_def)
  have l: "edit_bytes off ?e = concat (edit_fields ?e)" using assms(2) seamless_lay by (simp add: unpadded_def edit_bytes_def)
  have "take 8 (edit_bytes off ?e) = concat (header_fields (edit_header ?e))"
    unfolding l by (simp add: edit_fields_def header_fields_def)
  moreover have "take 8 (take n (edit_bytes off ?e)) = take 8 (edit_bytes off ?e)" using False by (simp add: min_def)
  ultimately have "take n (edit_bytes off ?e) = concat (header_fields (edit_header ?e)) @ drop 8 (take n (edit_bytes off ?e))"
    using append_take_drop_id [of 8 "take n (edit_bytes off ?e)"] by simp
  then have at: "bytes_at D (roff f) (lay Bm (roff f) (header_fields (edit_header ?e)))"
    unfolding assms(6) assms(8) h bytes_at_def using assms(7) by (metis append.assoc)
  obtain g br where g: "EditHeader_load (f, ar) = Some (Inr (edit_header ?e), g, br)" "read_quiet D g" "extends ar br"
    "never_oom br" "roff g = header_end (roff f) ?e" using header_load_at [OF assms(1,3-5) at] .
  have n: "length (edit_bytes off ?e) = 8 + ?n" unfolding l by (simp add: edit_fields_length)
  have "length D = off + n" using assms(6,7,9) by simp
  then have "?n > sub_u64 (length D) (roff g)" "\<not> (roff f > length D \<or> EditHeader_disk_size > length D - roff f)"
    using g(5) he assms(8,9) n False by (simp_all add: sub_u64_def EditHeader_disk_size_def)
  then show ?thesis
    using g encoded_size_eq(4) [OF assms(1)]
    by (auto simp: VersionEdit_load_def bind_l_def check_l_def)
qed

section \<open>Loading always returns\<close>

lemma DeletedTable_load_advances: "advances 0 DeletedTable_load"
  using advances_bind [OF read_field_advances(2) advances_bind [OF read_field_advances(3) advances_return]]
  unfolding DeletedTable_load_def by (force simp: advances_def)

lemma DeletedTable_load_fails: "fails_properly DeletedTable_load"
  unfolding DeletedTable_load_def by (intro fails_bind read_field_fails fails_return)

lemma EditPayload_load_fields_returns: "forward 0 (EditPayload_load_fields E)" "calm (EditPayload_load_fields E)"
  unfolding EditPayload_load_fields_def bounded_u32_def bounded_u64_def load_opt_def load_deleted_def load_new_def
  by (intro forward_intros forward_fields forward_lift DeletedTable_load_advances TableMeta_load_returns,
      intro calm_intros calm_fields calm_lift DeletedTable_load_fails TableMeta_load_returns)

lemma EditPayload_load_returns: "forward 0 (EditPayload_load sz)" "calm (EditPayload_load sz)"
proof -
  have let_f: "(\<And>E. forward 0 (m E)) \<Longrightarrow> forward 0 (\<lambda>s. let E = roff (fst s) + n in m E s)"
    and let_c: "(\<And>E. calm (m E)) \<Longrightarrow> calm (\<lambda>s. let E = roff (fst s) + n in m E s)"
    for m :: "nat \<Rightarrow> EditPayload loader" and n
    by (auto simp: forward_def calm_def Let_def)
  show "forward 0 (EditPayload_load sz)" "calm (EditPayload_load sz)"
    unfolding EditPayload_load_def
    by (intro forward_intros let_f EditPayload_load_fields_returns, intro calm_intros let_c EditPayload_load_fields_returns)
qed

lemma eof_as_corruption_returns:
  "forward k m \<Longrightarrow> forward k (eof_as_corruption m)" "calm m \<Longrightarrow> calm (eof_as_corruption m)"
  unfolding forward_def calm_def eof_as_corruption_def
  by (fastforce split: option.splits if_splits)+

lemma EditHeader_load_returns: "forward 8 EditHeader_load" "calm EditHeader_load"
proof -
  have "forward (4 + (4 + 0)) EditHeader_load"
    unfolding EditHeader_load_def
    by (intro forward_bind [OF forward_lift [OF read_field_advances(2)]] forward_intros)
  then show "forward 8 EditHeader_load" by simp
  show "calm EditHeader_load" unfolding EditHeader_load_def by (intro calm_intros calm_fields)
qed

lemma VersionEdit_load_returns: "forward 8 (VersionEdit_load z n)" "calm (VersionEdit_load z n)"
proof -
  have "forward (0 + (8 + 0)) (VersionEdit_load z n)"
    unfolding VersionEdit_load_def Let_def
    by (intro forward_bind [OF forward_check] forward_bind [OF EditHeader_load_returns(1)] forward_intros
      eof_as_corruption_returns EditPayload_load_returns)
  then show "forward 8 (VersionEdit_load z n)" by simp
  show "calm (VersionEdit_load z n)"
    unfolding VersionEdit_load_def Let_def
    by (intro calm_intros EditHeader_load_returns eof_as_corruption_returns EditPayload_load_returns)
qed

end
