(* ===== verification/ManifestLog.thy ===== *)
theory ManifestLog
  imports VersionEdits
begin

text \<open>
  The manifest (\<open>Manifest\<close> of \<^verbatim>\<open>src/core/engine/manifest.cpp\<close>): the file header, staging an edit on
  a copy of the level manager, committing, recovery. \<open>append_offset_\<close> is lent to the file as its
  tracked offset while an edit is written. What the file system answers (existence, size, opening,
  truncation) is an argument; a \<open>bad_alloc\<close> while an edit is staged is the flag \<open>staging_fails\<close>.
\<close>

section \<open>Header\<close>

definition MANIFEST_MAGIC :: u32 where "MANIFEST_MAGIC = 0x4D414E49"
definition MANIFEST_VERSION :: u32 where "MANIFEST_VERSION = 1"
definition ManifestHeader_disk_size :: nat where "ManifestHeader_disk_size = 6 * 4"

record ManifestHeader =
  mh_magic :: u32
  mh_version :: u32
  mh_header_size :: u32
  mh_flags :: u32
  mh_reserved :: u32
  mh_crc32 :: u32

definition ManifestHeader_default :: ManifestHeader where
  "ManifestHeader_default = \<lparr>mh_magic = MANIFEST_MAGIC, mh_version = MANIFEST_VERSION,
     mh_header_size = of_nat ManifestHeader_disk_size, mh_flags = 0, mh_reserved = 0, mh_crc32 = 0\<rparr>"

definition ManifestHeader_compute_crc32 :: "zlib \<Rightarrow> ManifestHeader \<Rightarrow> ManifestHeader" where
  "ManifestHeader_compute_crc32 z h =
     (let crc = crc_init z;
          crc = crc32_add_u32 z (mh_magic h) crc;
          crc = crc32_add_u32 z (mh_version h) crc;
          crc = crc32_add_u32 z (mh_header_size h) crc;
          crc = crc32_add_u32 z (mh_flags h) crc;
          crc = crc32_add_u32 z (mh_reserved h) crc
      in h\<lparr>mh_crc32 := crc\<rparr>)"

definition ManifestHeader_write :: "ManifestHeader \<Rightarrow> wfile action" where
  "ManifestHeader_write h = run_all
     [check_offset,
      write_u32_t_le (mh_magic h) MANIFEST_BLOCK_SIZE,
      write_u32_t_le (mh_version h) MANIFEST_BLOCK_SIZE,
      write_u32_t_le (mh_header_size h) MANIFEST_BLOCK_SIZE,
      write_u32_t_le (mh_flags h) MANIFEST_BLOCK_SIZE,
      write_u32_t_le (mh_reserved h) MANIFEST_BLOCK_SIZE,
      write_u32_t_le (mh_crc32 h) MANIFEST_BLOCK_SIZE]"

definition ManifestHeader_load :: "zlib \<Rightarrow> ManifestHeader loader" where
  "ManifestHeader_load z =
     bind_l u32_l (\<lambda>m.
     bind_l (check_l (\<lambda>_. if m \<noteq> MANIFEST_MAGIC then BadMagic else Ok)) (\<lambda>_.
     bind_l u32_l (\<lambda>v.
     bind_l (check_l (\<lambda>_. if v \<noteq> MANIFEST_VERSION then UnsupportedVersion else Ok)) (\<lambda>_.
     bind_l u32_l (\<lambda>hs.
     bind_l (check_l (\<lambda>_. if hs \<noteq> of_nat ManifestHeader_disk_size then InvalidHeader else Ok)) (\<lambda>_.
     bind_l u32_l (\<lambda>fl.
     bind_l u32_l (\<lambda>rs.
     bind_l (check_l (\<lambda>_. if fl \<noteq> 0 \<or> rs \<noteq> 0 then InvalidHeader else Ok)) (\<lambda>_.
     bind_l u32_l (\<lambda>crc.
     let h = \<lparr>mh_magic = m, mh_version = v, mh_header_size = hs, mh_flags = fl, mh_reserved = rs, mh_crc32 = crc\<rparr> in
     bind_l (check_l (\<lambda>_. if mh_crc32 (ManifestHeader_compute_crc32 z h) \<noteq> mh_crc32 h then ChecksumMismatch else Ok)) (\<lambda>_.
     return_l h)))))))))))"

section \<open>State\<close>

record StagedCounters =
  sc_next_table_id :: u64
  sc_current_wal_id :: u64
  sc_next_sequence_number :: u64

definition StagedCounters_default :: StagedCounters where
  "StagedCounters_default = \<lparr>sc_next_table_id = 1, sc_current_wal_id = 1, sc_next_sequence_number = 1\<rparr>"

record Manifest =
  m_path :: string
  m_header :: ManifestHeader
  m_counters :: StagedCounters
  m_writable :: "wfile option"
  m_readable :: "rfile option"
  append_offset :: nat
  recoverable_tail :: bool
  write_poisoned :: bool

definition Manifest_new :: "string \<Rightarrow> Manifest" where
  "Manifest_new p = \<lparr>m_path = p, m_header = ManifestHeader_default, m_counters = StagedCounters_default,
     m_writable = None, m_readable = None, append_offset = 0, recoverable_tail = False, write_poisoned = False\<rparr>"

section \<open>Staging\<close>

text \<open>The checks of \<open>check_invariants\<close> on one table, given its level and its predecessor there.\<close>

definition check_table :: "StagedCounters \<Rightarrow> nat \<Rightarrow> TableMeta option \<Rightarrow> TableMeta \<Rightarrow> StatusCode" where
  "check_table sc lv previous t =
     (if table_id t = 0 then InvariantViolation
      else if unat (tm_level t) \<noteq> lv then InvariantViolation
      else if table_id t \<ge> sc_next_table_id sc then InvariantViolation
      else if entry_less (largest_key t) (smallest_key t) then InvariantViolation
      else case previous of
        None \<Rightarrow> Ok
      | Some p \<Rightarrow>
          if lv = 0 \<and> table_id p \<le> table_id t then InvariantViolation
          else if lv > 0 \<and> \<not> entry_less (largest_key p) (smallest_key t) then InvariantViolation
          else Ok)"

fun check_tables :: "StagedCounters \<Rightarrow> nat \<Rightarrow> TableMeta option \<Rightarrow> TableMeta list \<Rightarrow> StatusCode" where
  "check_tables sc lv previous [] = Ok"
| "check_tables sc lv previous (t # ts) =
     (let c = check_table sc lv previous t in if \<not> is_ok c then c else check_tables sc lv (Some t) ts)"

fun check_levels :: "StagedCounters \<Rightarrow> nat \<Rightarrow> TableMeta list list \<Rightarrow> StatusCode" where
  "check_levels sc lv [] = Ok"
| "check_levels sc lv (ts # tss) =
     (let c = check_tables sc lv None ts in if \<not> is_ok c then c else check_levels sc (Suc lv) tss)"

definition check_invariants :: "LevelManager \<Rightarrow> StagedCounters \<Rightarrow> StatusCode" where
  "check_invariants lm sc =
     (if sc_next_table_id sc = 0 then InvariantViolation
      else if sc_current_wal_id sc = 0 then InvariantViolation
      else if sc_next_sequence_number sc = 0 then InvariantViolation
      else check_levels sc 0 (lm_levels lm))"

definition stage_delete :: "DeletedTable \<Rightarrow> (LevelManager \<times> u64) action" where
  "stage_delete d s = (case s of (lm, seen) \<Rightarrow>
     case remove_table (dt_table_id d) (Some (dt_level d)) lm of (c, lm') \<Rightarrow>
       if is_ok c then (Ok, lm', max seen (dt_table_id d)) else (c, lm', seen))"

definition stage_add :: "TableMeta \<Rightarrow> (LevelManager \<times> u64) action" where
  "stage_add t s = (case s of (lm, seen) \<Rightarrow>
     case add_table t lm of (c, lm') \<Rightarrow>
       if is_ok c then (Ok, lm', max seen (table_id t)) else (c, lm', seen))"

definition stage_next_table_id :: "u64 option \<Rightarrow> u64 \<Rightarrow> StagedCounters action" where
  "stage_next_table_id new seen sc =
     (case new of
        Some v \<Rightarrow> if v < sc_next_table_id sc then (InvariantViolation, sc) else (Ok, sc\<lparr>sc_next_table_id := v\<rparr>)
      | None \<Rightarrow>
          if seen \<ge> sc_next_table_id sc
          then (if seen = - 1 then (InvariantViolation, sc) else (Ok, sc\<lparr>sc_next_table_id := seen + 1\<rparr>))
          else (Ok, sc))"

definition stage_sequence_number :: "u64 option \<Rightarrow> StagedCounters action" where
  "stage_sequence_number new sc =
     (case new of
        None \<Rightarrow> (Ok, sc)
      | Some v \<Rightarrow> if v < sc_next_sequence_number sc then (InvariantViolation, sc)
                  else (Ok, sc\<lparr>sc_next_sequence_number := v\<rparr>))"

definition stage_wal_id :: "u64 option \<Rightarrow> StagedCounters action" where
  "stage_wal_id new sc =
     (case new of
        None \<Rightarrow> (Ok, sc)
      | Some v \<Rightarrow> if v < sc_current_wal_id sc then (InvariantViolation, sc)
                  else (Ok, sc\<lparr>sc_current_wal_id := v\<rparr>))"

definition stage_apply :: "VersionEdit \<Rightarrow> (LevelManager \<times> StagedCounters) action" where
  "stage_apply e s = (case s of (lm, sc) \<Rightarrow>
     let p = edit_payload e; c = EditPayload_validate p in
     if \<not> is_ok c then (c, lm, sc)
     else case run_all (map stage_delete (deleted_tables p) @ map stage_add (new_tables p)) (lm, 0) of (c, lm', seen) \<Rightarrow>
       if \<not> is_ok c then (c, lm', sc)
       else case run_all [stage_next_table_id (edit_next_table_id p) seen,
                          stage_sequence_number (edit_next_sequence_number p),
                          stage_wal_id (edit_current_wal_id p)] sc of (c, sc') \<Rightarrow>
         if \<not> is_ok c then (c, lm', sc')
         else (check_invariants lm' sc', lm', sc'))"

section \<open>Operations\<close>

text \<open>Recovery: the loop over the edits. \<open>None\<close> is the exception of the arena.\<close>

type_synonym replayed = "LevelManager \<times> StagedCounters \<times> nat \<times> bool \<times> rfile"

function replay :: "zlib \<Rightarrow> nat \<Rightarrow> LevelManager \<Rightarrow> StagedCounters \<Rightarrow> rfile \<times> arena \<Rightarrow> (replayed result \<times> arena) option" where
  "replay z fsize lm sc (f, ar) =
     (if roff f < fsize then
        (case VersionEdit_load z fsize (f, ar) of
           None \<Rightarrow> None
         | Some (Inl e, f', ar') \<Rightarrow>
             if e = UnexpectedEOF then Some (Inr (lm, sc, roff f, True, f'\<lparr>roff := roff f\<rparr>), ar')
             else Some (Inl e, ar')
         | Some (Inr ed, f', ar') \<Rightarrow>
             (case stage_apply ed (lm, sc) of (c, lm', sc') \<Rightarrow>
                if \<not> is_ok c then Some (Inl c, ar') else replay z fsize lm' sc' (f', ar')))
      else Some (Inr (lm, sc, roff f, False, f), ar))"
  by pat_completeness auto
termination
  by (relation "measure (\<lambda>(z, fsize, lm, sc, (f, ar)). fsize - roff f)")
    (auto dest!: forwardD [OF VersionEdit_load_returns(1)])

declare replay.simps [simp del]

definition Manifest_load ::
  "zlib \<Rightarrow> string \<Rightarrow> rfile result \<Rightarrow> LevelManager \<Rightarrow> arena \<Rightarrow> (Manifest result \<times> LevelManager \<times> arena) option" where
  "Manifest_load z p opened lm ar =
     (case opened of
        Inl e \<Rightarrow> Some (Inl e, lm, ar)
      | Inr f0 \<Rightarrow>
          (case get_file_size f0 of
             Inl e \<Rightarrow> Some (Inl e, lm, ar)
           | Inr fsize \<Rightarrow>
               if fsize < ManifestHeader_disk_size then Some (Inl UnexpectedEOF, lm, ar)
               else case ManifestHeader_load z (f0\<lparr>roff := 0\<rparr>, ar) of
                 None \<Rightarrow> None
               | Some (Inl e, f, ar1) \<Rightarrow> Some (Inl e, lm, ar1)
               | Some (Inr h, f, ar1) \<Rightarrow>
                   (case LevelManager_new (unat (level_count lm)) of
                      None \<Rightarrow> None
                    | Some recovered \<Rightarrow>
                        (case replay z fsize recovered StagedCounters_default (f, ar1) of
                           None \<Rightarrow> None
                         | Some (Inl e, ar2) \<Rightarrow> Some (Inl e, lm, ar2)
                         | Some (Inr (lm', sc, off, tail, f'), ar2) \<Rightarrow>
                             let c = check_invariants lm' sc in
                             if \<not> is_ok c then Some (Inl c, lm, ar2)
                             else Some (Inr ((Manifest_new p)\<lparr>m_header := h, m_counters := sc, m_readable := Some f',
                                    append_offset := off, recoverable_tail := tail\<rparr>), lm', ar2)))))"

definition Manifest_open_or_create ::
  "zlib \<Rightarrow> bool option \<Rightarrow> nat option \<Rightarrow> wfile result \<Rightarrow> Manifest action" where
  "Manifest_open_or_create z exists_answer size_answer opened m =
     (if m_path m = [] then (InvalidArgument, m)
      else case exists_answer of
        None \<Rightarrow> (OpenFailed, m)
      | Some ex \<Rightarrow>
          if ex \<and> size_answer = None then (OpenFailed, m)
          else if ex \<and> size_answer \<noteq> Some 0 then (AlreadyExists, m)
          else case opened of
            Inl e \<Rightarrow> (e, m)
          | Inr f0 \<Rightarrow>
              let m = m\<lparr>m_writable := Some f0, m_readable := None, append_offset := 0, recoverable_tail := False,
                    write_poisoned := False, m_header := ManifestHeader_compute_crc32 z ManifestHeader_default\<rparr> in
              case ManifestHeader_write (m_header m) (f0\<lparr>woff := 0\<rparr>) of (c, f1) \<Rightarrow>
                let m = m\<lparr>m_writable := Some f1, append_offset := woff f1\<rparr> in
                if \<not> is_ok c then (c, m\<lparr>write_poisoned := True\<rparr>)
                else case sync f1 of (c, f2) \<Rightarrow>
                  let m = m\<lparr>m_writable := Some f2\<rparr> in
                  if \<not> is_ok c then (c, m\<lparr>write_poisoned := True\<rparr>) else (Ok, m))"

text \<open>\<open>resize_file\<close> cuts or extends the file on disk, whose bytes are carried along.\<close>

definition resize_file :: "nat \<Rightarrow> byte list \<Rightarrow> byte list" where
  "resize_file n bs = take n bs @ replicate (n - length bs) 0"

definition Manifest_prepare_for_append :: "bool \<Rightarrow> (Manifest \<times> byte list) action" where
  "Manifest_prepare_for_append resize_ok s = (case s of (m, disk_bytes) \<Rightarrow>
     if write_poisoned m then (FailedPrecondition, m, disk_bytes)
     else let m = m\<lparr>m_writable := None, m_readable := None\<rparr> in
       if \<not> recoverable_tail m then (Ok, m, disk_bytes)
       else if \<not> resize_ok then (OpenFailed, m, disk_bytes)
       else (Ok, m\<lparr>recoverable_tail := False\<rparr>, resize_file (append_offset m) disk_bytes))"

definition Manifest_attach_writer :: "wfile option \<Rightarrow> Manifest action" where
  "Manifest_attach_writer writable m =
     (if write_poisoned m then (FailedPrecondition, m)
      else if recoverable_tail m then (FailedPrecondition, m)
      else case writable of
        None \<Rightarrow> (InvalidArgument, m)
      | Some f \<Rightarrow>
          (case current_position f of
             Inl e \<Rightarrow> (e, m)
           | Inr pos \<Rightarrow>
               if pos \<noteq> append_offset m then (InvalidOffset, m)
               else (Ok, m\<lparr>m_readable := None, m_writable := Some f\<rparr>)))"

definition publish_counters :: "StagedCounters \<Rightarrow> Manifest \<Rightarrow> Manifest" where
  "publish_counters sc m = m\<lparr>m_counters := sc\<rparr>"

definition Manifest_apply :: "bool \<Rightarrow> VersionEdit \<Rightarrow> (Manifest \<times> LevelManager) action" where
  "Manifest_apply staging_fails e s = (case s of (m, lm) \<Rightarrow>
     if staging_fails then (AllocationTooLarge, m, lm)
     else case stage_apply e (lm, m_counters m) of (c, staged, sc) \<Rightarrow>
       if \<not> is_ok c then (c, m, lm) else (Ok, publish_counters sc m, staged))"

definition Manifest_append_prepared :: "zlib \<Rightarrow> VersionEdit \<Rightarrow> Manifest \<Rightarrow> StatusCode \<times> VersionEdit \<times> Manifest" where
  "Manifest_append_prepared z e m =
     (if write_poisoned m then (FailedPrecondition, e, m)
      else case m_writable m of
        None \<Rightarrow> (FailedPrecondition, e, m)
      | Some f \<Rightarrow>
          (case current_position f of
             Inl c \<Rightarrow> (c, e, m\<lparr>write_poisoned := True\<rparr>)
           | Inr pos \<Rightarrow>
               if pos \<noteq> append_offset m then (InvalidOffset, e, m\<lparr>write_poisoned := True\<rparr>)
               else case VersionEdit_write z e (f\<lparr>woff := append_offset m\<rparr>) of (c, e', f') \<Rightarrow>
                 let m = m\<lparr>m_writable := Some f', append_offset := woff f'\<rparr> in
                 if \<not> is_ok c then (c, e', m\<lparr>write_poisoned := True\<rparr>) else (Ok, e', m)))"

definition Manifest_sync_writer :: "wfile \<Rightarrow> Manifest action" where
  "Manifest_sync_writer f m =
     (case sync f of (c, f') \<Rightarrow>
        let m = m\<lparr>m_writable := Some f'\<rparr> in
        if \<not> is_ok c then (c, m\<lparr>write_poisoned := True\<rparr>) else (Ok, m))"

definition Manifest_commit ::
  "zlib \<Rightarrow> bool \<Rightarrow> VersionEdit \<Rightarrow> Manifest \<times> LevelManager \<Rightarrow> StatusCode \<times> VersionEdit \<times> Manifest \<times> LevelManager" where
  "Manifest_commit z staging_fails e s = (case s of (m, lm) \<Rightarrow>
     if write_poisoned m then (FailedPrecondition, e, m, lm)
     else if m_writable m = None then (FailedPrecondition, e, m, lm)
     else if staging_fails then (AllocationTooLarge, e, m, lm)
     else case stage_apply e (lm, m_counters m) of (c, staged, sc) \<Rightarrow>
       if \<not> is_ok c then (c, e, m, lm)
       else case VersionEdit_prepare z e of (c, e1) \<Rightarrow>
         if \<not> is_ok c then (c, e1, m, lm)
         else case Manifest_append_prepared z e1 m of (c, e2, m1) \<Rightarrow>
           if \<not> is_ok c then (c, e2, m1, lm)
           else case m_writable m1 of
             None \<Rightarrow> (FailedPrecondition, e2, m1, lm)
           | Some f \<Rightarrow>
               (case Manifest_sync_writer f m1 of (c, m2) \<Rightarrow>
                  if \<not> is_ok c then (c, e2, m2, lm) else (Ok, e2, publish_counters sc m2, staged)))"

definition Manifest_sync :: "Manifest action" where
  "Manifest_sync m =
     (if write_poisoned m then (FailedPrecondition, m)
      else case m_writable m of None \<Rightarrow> (FailedPrecondition, m) | Some f \<Rightarrow> Manifest_sync_writer f m)"

definition allocate_table_id :: "(Manifest, u64) reader" where
  "allocate_table_id m =
     (if sc_next_table_id (m_counters m) = - 1 then (Inl InvariantViolation, m)
      else (Inr (sc_next_table_id (m_counters m)),
            m\<lparr>m_counters := (m_counters m)\<lparr>sc_next_table_id := sc_next_table_id (m_counters m) + 1\<rparr>\<rparr>))"

section \<open>The invariant check\<close>

definition table_order :: "nat \<Rightarrow> TableMeta \<Rightarrow> TableMeta \<Rightarrow> bool" where
  "table_order lv a b \<longleftrightarrow> (if lv = 0 then table_id a > table_id b else below a b)"

lemma level_ok_alt: "level_ok lv ts \<longleftrightarrow> (\<forall>t\<in>set ts. table_ok lv t) \<and> sorted_wrt (table_order lv) ts"
  by (cases "lv = 0") (simp_all add: level_ok_def table_order_def [abs_def])

lemma sorted_neighbours:
  assumes "\<forall>t\<in>set (u # ts). table_ok lv t"
  shows "sorted_wrt (table_order lv) (u # ts) \<longleftrightarrow> (ts = [] \<or> table_order lv u (hd ts)) \<and> sorted_wrt (table_order lv) ts"
proof (cases ts)
  case (Cons v vs)
  have "table_order lv u w" if "table_order lv u v" "table_order lv v w" "table_ok lv v" for w
    using that by (auto simp: table_order_def table_ok_def split: if_splits)
  then show ?thesis using Cons assms by auto
qed simp

lemma check_table_iff:
  "check_table sc lv prev t = Ok \<longleftrightarrow> table_ok lv t \<and> table_id t < sc_next_table_id sc \<and>
    (\<forall>u. prev = Some u \<longrightarrow> table_order lv u t)"
  by (cases prev) (auto simp: check_table_def table_ok_def table_order_def not_le not_less)

lemma check_tables_iff:
  "check_tables sc lv prev ts = Ok \<longleftrightarrow> level_ok lv ts \<and> (\<forall>t\<in>set ts. table_id t < sc_next_table_id sc) \<and>
    (\<forall>u. prev = Some u \<longrightarrow> ts = [] \<or> table_order lv u (hd ts))"
proof (induction sc lv prev ts rule: check_tables.induct)
  case (2 sc lv prev t ts)
  have c: "check_tables sc lv prev (t # ts) = Ok \<longleftrightarrow> check_table sc lv prev t = Ok \<and> check_tables sc lv (Some t) ts = Ok"
    by (simp add: Let_def)
  show ?case
  proof (cases "check_table sc lv prev t = Ok")
    case True
    have IH: "check_tables sc lv (Some t) ts = Ok \<longleftrightarrow> level_ok lv ts \<and> (\<forall>t\<in>set ts. table_id t < sc_next_table_id sc) \<and>
        (ts = [] \<or> table_order lv t (hd ts))" using 2 True by simp
    then show ?thesis unfolding c IH check_table_iff using sorted_neighbours [of t ts lv] by (auto simp: level_ok_alt)
  next
    case False
    then show ?thesis unfolding c check_table_iff by (auto simp: level_ok_alt)
  qed
qed (simp add: level_ok_def)

lemma check_levels_iff:
  "check_levels sc lv tss = Ok \<longleftrightarrow>
    (\<forall>i < length tss. level_ok (lv + i) (tss ! i) \<and> (\<forall>t\<in>set (tss ! i). table_id t < sc_next_table_id sc))"
proof (induction sc lv tss rule: check_levels.induct)
  case (2 sc lv ts tss)
  have "check_levels sc lv (ts # tss) = Ok \<longleftrightarrow> check_tables sc lv None ts = Ok \<and> check_levels sc (Suc lv) tss = Ok"
    by (simp add: Let_def)
  then show ?case using 2 by (cases "check_tables sc lv None ts = Ok") (auto simp: check_tables_iff All_less_Suc2)
qed simp

definition counters_ok :: "StagedCounters \<Rightarrow> bool" where
  "counters_ok sc \<longleftrightarrow> sc_next_table_id sc \<noteq> 0 \<and> sc_current_wal_id sc \<noteq> 0 \<and> sc_next_sequence_number sc \<noteq> 0"

lemma check_invariants_spec:
  "check_invariants lm sc = Ok \<longleftrightarrow> counters_ok sc \<and>
    (\<forall>lv < length (lm_levels lm). level_ok lv (lm_levels lm ! lv)) \<and>
    (\<forall>t\<in>set (all_tables lm). table_id t < sc_next_table_id sc)"
  by (auto simp: check_invariants_def check_levels_iff counters_ok_def all_tables_def) (metis in_set_conv_nth)

section \<open>Staging an edit\<close>

lemma remove_table_okD:
  assumes "levels_ok lm" "remove_table i (Some lv) lm = (Ok, lm')"
  shows "levels_ok lm'" "set (all_tables lm') = {t \<in> set (all_tables lm). table_id t \<noteq> i}"
proof -
  have "i \<noteq> 0" "unat lv < length (lm_levels lm)"
    using assms(2) by (auto simp: remove_table_def remove_table_at_def split: if_splits)
  from remove_table_effect [OF assms(1) this] assms(2)
  show "levels_ok lm'" "set (all_tables lm') = {t \<in> set (all_tables lm). table_id t \<noteq> i}" by (auto split: if_splits)
qed

lemma stage_deletes:
  assumes "levels_ok lm" "run_all (map stage_delete ds) (lm, seen) = (Ok, lm', seen')"
  shows "levels_ok lm' \<and> set (all_tables lm') = {t \<in> set (all_tables lm). table_id t \<notin> dt_table_id ` set ds} \<and> seen \<le> seen'"
  using assms
proof (induction ds arbitrary: lm seen)
  case (Cons d ds)
  obtain lm1 where lm1: "remove_table (dt_table_id d) (Some (dt_level d)) lm = (Ok, lm1)"
    "run_all (map stage_delete ds) (lm1, max seen (dt_table_id d)) = (Ok, lm', seen')"
    using Cons.prems(2) by (auto simp: stage_delete_def [of d] split: prod.splits if_splits)
  from Cons.IH [OF remove_table_okD(1) [OF Cons.prems(1) lm1(1)] lm1(2)] remove_table_okD(2) [OF Cons.prems(1) lm1(1)]
  show ?case by auto
qed simp

lemma stage_adds:
  assumes "levels_ok lm" "run_all (map stage_add ts) (lm, seen) = (Ok, lm', seen')"
  shows "levels_ok lm' \<and> set (all_tables lm') = set (all_tables lm) \<union> set ts \<and> seen \<le> seen' \<and> (\<forall>t\<in>set ts. table_id t \<le> seen')"
  using assms
proof (induction ts arbitrary: lm seen)
  case (Cons t ts)
  obtain lm1 where lm1: "add_table t lm = (Ok, lm1)"
    "run_all (map stage_add ts) (lm1, max seen (table_id t)) = (Ok, lm', seen')"
    using Cons.prems(2) by (auto simp: stage_add_def [of t] split: prod.splits if_splits)
  have "levels_ok lm1" "set (all_tables lm1) = insert t (set (all_tables lm))"
    using add_table_effect [OF Cons.prems(1), of t] lm1(1) by auto
  from Cons.IH [OF this(1) lm1(2)] this(2) show ?case by auto
qed simp

definition staged_tables :: "EditPayload \<Rightarrow> (LevelManager \<times> u64) action" where
  "staged_tables p = run_all (map stage_delete (deleted_tables p) @ map stage_add (new_tables p))"

lemma staged_tablesD:
  assumes "levels_ok lm" "staged_tables p (lm, 0) = (Ok, lm', seen)"
  shows "levels_ok lm'"
    "set (all_tables lm') = {t \<in> set (all_tables lm). table_id t \<notin> dt_table_id ` set (deleted_tables p)} \<union> set (new_tables p)"
    "\<forall>t\<in>set (new_tables p). table_id t \<le> seen"
proof -
  obtain lm1 s1 where "run_all (map stage_delete (deleted_tables p)) (lm, 0) = (Ok, lm1, s1)"
    "run_all (map stage_add (new_tables p)) (lm1, s1) = (Ok, lm', seen)"
    using assms(2) by (auto simp: staged_tables_def run_all_append split: prod.splits if_splits)
  from stage_deletes [OF assms(1) this(1)] stage_adds [OF _ this(2)]
  show "levels_ok lm'"
    "set (all_tables lm') = {t \<in> set (all_tables lm). table_id t \<notin> dt_table_id ` set (deleted_tables p)} \<union> set (new_tables p)"
    "\<forall>t\<in>set (new_tables p). table_id t \<le> seen" by auto
qed

definition staged_counters :: "EditPayload \<Rightarrow> u64 \<Rightarrow> StagedCounters action" where
  "staged_counters p seen = run_all [stage_next_table_id (edit_next_table_id p) seen,
     stage_sequence_number (edit_next_sequence_number p), stage_wal_id (edit_current_wal_id p)]"

definition counters_le :: "StagedCounters \<Rightarrow> StagedCounters \<Rightarrow> bool" where
  "counters_le a b \<longleftrightarrow> sc_next_table_id a \<le> sc_next_table_id b \<and> sc_current_wal_id a \<le> sc_current_wal_id b \<and>
     sc_next_sequence_number a \<le> sc_next_sequence_number b"

lemma u64_Suc: "(b :: u64) \<noteq> - 1 \<Longrightarrow> unat (b + 1) = Suc (unat b)"
proof -
  assume "b \<noteq> - 1"
  then have "unat b \<noteq> unat (- 1 :: u64)" using word_unat_eq_iff by blast
  moreover have "unat b < 2 ^ 64" using unsigned_less [of b] by simp
  ultimately have "unat b + 1 < 2 ^ 64" by (simp add: unsigned_minus_1_eq_mask mask_eq_exp_minus_1)
  then show ?thesis by (simp add: unat_word_ariths)
qed

lemma u64_less_Suc: "(b :: u64) \<noteq> - 1 \<Longrightarrow> a < b + 1 \<longleftrightarrow> a \<le> b"
  by (simp add: word_less_nat_alt word_le_nat_alt u64_Suc less_Suc_eq_le)

lemma stage_apply_okD:
  assumes "stage_apply e (lm, sc) = (Ok, lm', sc')"
  obtains seen where "EditPayload_validate (edit_payload e) = Ok" "staged_tables (edit_payload e) (lm, 0) = (Ok, lm', seen)"
    "staged_counters (edit_payload e) seen sc = (Ok, sc')" "check_invariants lm' sc' = Ok"
  using assms that
  by (auto simp: stage_apply_def Let_def staged_tables_def [symmetric] staged_counters_def [symmetric] simp del: run_all.simps
      split: if_splits prod.splits)

lemma stage_applyI:
  assumes "EditPayload_validate (edit_payload e) = Ok" "staged_tables (edit_payload e) (lm, 0) = (Ok, lm', seen)"
    "staged_counters (edit_payload e) seen sc = (Ok, sc')" "check_invariants lm' sc' = Ok"
  shows "stage_apply e (lm, sc) = (Ok, lm', sc')"
  using assms
  by (simp add: stage_apply_def Let_def staged_tables_def [symmetric] staged_counters_def [symmetric] del: run_all.simps)

lemma staged_counters_okD:
  assumes "staged_counters p seen sc = (Ok, sc')"
  shows "sc_next_table_id sc' = (case edit_next_table_id p of Some v \<Rightarrow> v
      | None \<Rightarrow> if seen \<ge> sc_next_table_id sc then seen + 1 else sc_next_table_id sc)"
    "\<forall>v. edit_next_table_id p = Some v \<longrightarrow> sc_next_table_id sc \<le> v"
    "edit_next_table_id p = None \<longrightarrow> seen \<ge> sc_next_table_id sc \<longrightarrow> seen \<noteq> - 1"
    "sc_next_sequence_number sc' = (case edit_next_sequence_number p of Some v \<Rightarrow> v | None \<Rightarrow> sc_next_sequence_number sc)"
    "\<forall>v. edit_next_sequence_number p = Some v \<longrightarrow> sc_next_sequence_number sc \<le> v"
    "sc_current_wal_id sc' = (case edit_current_wal_id p of Some v \<Rightarrow> v | None \<Rightarrow> sc_current_wal_id sc)"
    "\<forall>v. edit_current_wal_id p = Some v \<longrightarrow> sc_current_wal_id sc \<le> v"
  using assms
  by (auto simp: staged_counters_def stage_next_table_id_def stage_sequence_number_def stage_wal_id_def not_less
      split: if_splits option.splits)

lemma staged_counters_mono:
  assumes "staged_counters p seen sc = (Ok, sc')"
  shows "counters_le sc sc'"
  using staged_counters_okD [OF assms] u64_less_Suc [of seen "sc_next_table_id sc"]
  by (auto simp: counters_le_def split: option.splits if_splits)

lemma stage_apply_effect:
  assumes "levels_ok lm" "stage_apply e (lm, sc) = (Ok, lm', sc')"
  shows "levels_ok lm' \<and> check_invariants lm' sc' = Ok \<and> counters_le sc sc' \<and>
    set (all_tables lm') = {t \<in> set (all_tables lm). table_id t \<notin> dt_table_id ` set (deleted_tables (edit_payload e))} \<union>
      set (new_tables (edit_payload e))"
proof -
  obtain seen where "staged_tables (edit_payload e) (lm, 0) = (Ok, lm', seen)"
    "staged_counters (edit_payload e) seen sc = (Ok, sc')" "check_invariants lm' sc' = Ok"
    using stage_apply_okD [OF assms(2)] .
  then show ?thesis using staged_tablesD [OF assms(1)] staged_counters_mono by blast
qed

text \<open>Staging from counters that lag behind only in the table ids handed out but never installed
  gives the same levels. This is how recovery differs from the live manifest.\<close>

definition lags :: "StagedCounters \<Rightarrow> StagedCounters \<Rightarrow> bool" where
  "lags a b \<longleftrightarrow> sc_next_table_id a \<le> sc_next_table_id b \<and> sc_current_wal_id a = sc_current_wal_id b \<and>
     sc_next_sequence_number a = sc_next_sequence_number b"

lemma staged_counters_lag:
  assumes "staged_counters p seen b = (Ok, b')" "lags a b"
  obtains a' where "staged_counters p seen a = (Ok, a')" "lags a' b'"
    "sc_next_table_id a \<le> sc_next_table_id a'" "edit_next_table_id p = None \<Longrightarrow> seen < sc_next_table_id a'"
    "\<And>v. edit_next_table_id p = Some v \<Longrightarrow> sc_next_table_id a' = sc_next_table_id b'"
proof -
  note d = staged_counters_okD [OF assms(1)]
  have top: "seen \<noteq> - 1" if "edit_next_table_id p = None" "sc_next_table_id a \<le> seen"
    using d(3) that word_order.extremum [of "sc_next_table_id b"] by (metis not_le word_order.extremum_unique)
  have Suc_le: "seen + 1 \<le> x" if "seen \<noteq> - 1" "seen < x" for x :: u64
    using that u64_less_Suc [of seen x] u64_Suc [of seen] by (simp add: word_le_nat_alt word_less_nat_alt)
  have lt: "\<And>v. edit_next_table_id p = Some v \<Longrightarrow> \<not> v < sc_next_table_id a"
    using assms(2) d(2) by (force simp: lags_def)
  obtain a1 where a1: "stage_next_table_id (edit_next_table_id p) seen a = (Ok, a1)"
    "sc_next_sequence_number a1 = sc_next_sequence_number b" "sc_current_wal_id a1 = sc_current_wal_id b"
    using assms(2) lt top
    by (cases "edit_next_table_id p"; cases "sc_next_table_id a \<le> seen") (auto simp: stage_next_table_id_def lags_def)
  obtain a2 where a2: "stage_sequence_number (edit_next_sequence_number p) a1 = (Ok, a2)"
    "sc_current_wal_id a2 = sc_current_wal_id b"
    using a1 d(5) by (cases "edit_next_sequence_number p") (auto simp: stage_sequence_number_def leD)
  obtain a' where "stage_wal_id (edit_current_wal_id p) a2 = (Ok, a')"
    using a2 d(7) by (cases "edit_current_wal_id p") (auto simp: stage_wal_id_def leD)
  then have a': "staged_counters p seen a = (Ok, a')" by (simp add: staged_counters_def a1 a2)
  note e = staged_counters_okD [OF a']
  show ?thesis
  proof (rule that [OF a'])
    show "sc_next_table_id a \<le> sc_next_table_id a'" using staged_counters_mono [OF a'] by (simp add: counters_le_def)
    show "seen < sc_next_table_id a'" if "edit_next_table_id p = None"
      using that e(1) top u64_less_Suc [of seen seen] by (auto simp: not_le)
    show "sc_next_table_id a' = sc_next_table_id b'" if "edit_next_table_id p = Some v" for v
      using that e(1) d(1) by simp
    show "lags a' b'"
      using assms(2) d(1,4,6) e(1,4,6) top Suc_le by (auto simp: lags_def not_le split: option.splits if_splits)
  qed
qed

lemma stage_apply_lag:
  assumes "stage_apply e (lm, b) = (Ok, lm', b')" "lags a b" "check_invariants lm a = Ok" "levels_ok lm"
  obtains a' where "stage_apply e (lm, a) = (Ok, lm', a')" "lags a' b'"
proof -
  let ?p = "edit_payload e"
  obtain seen where s: "EditPayload_validate ?p = Ok" "staged_tables ?p (lm, 0) = (Ok, lm', seen)"
    "staged_counters ?p seen b = (Ok, b')" "check_invariants lm' b' = Ok" using stage_apply_okD [OF assms(1)] .
  obtain a' where a': "staged_counters ?p seen a = (Ok, a')" "lags a' b'" "sc_next_table_id a \<le> sc_next_table_id a'"
    "edit_next_table_id ?p = None \<Longrightarrow> seen < sc_next_table_id a'"
    "\<And>v. edit_next_table_id ?p = Some v \<Longrightarrow> sc_next_table_id a' = sc_next_table_id b'"
    using staged_counters_lag [OF s(3) assms(2)] by blast
  note t = staged_tablesD [OF assms(4) s(2)]
  have "table_id u < sc_next_table_id a'" if "u \<in> set (all_tables lm')" for u
  proof (cases "edit_next_table_id ?p")
    case (Some v)
    then show ?thesis using a'(5) s(4) that by (simp add: check_invariants_spec)
  next
    case None
    then show ?thesis
      using that t(2,3) a'(3,4) assms(3) by (auto simp: check_invariants_spec dest: order.strict_trans2 order.strict_trans1)
  qed
  moreover have "counters_ok a'"
    using a' s(4) assms(3) by (auto simp: check_invariants_spec counters_ok_def lags_def)
  ultimately have "check_invariants lm' a' = Ok" using s(4) by (simp add: check_invariants_spec)
  from stage_applyI [OF s(1,2) a'(1) this] a'(2) that show ?thesis by blast
qed

section \<open>What a commit does\<close>

lemma Manifest_commit_path: "Manifest_commit z fl e (m, lm) = (c, e', m', lm') \<Longrightarrow> m_path m' = m_path m"
  by (auto simp: Manifest_commit_def Manifest_append_prepared_def Manifest_sync_writer_def publish_counters_def Let_def
      split: if_splits option.splits sum.splits prod.splits)

lemma Manifest_commit_outcome:
  assumes "Manifest_commit z fl e (m, lm) = (c, e', m', lm')"
  shows "(c \<noteq> Ok \<longrightarrow> lm' = lm \<and> m_counters m' = m_counters m) \<and>
    (c = Ok \<longrightarrow> stage_apply e (lm, m_counters m) = (Ok, lm', m_counters m') \<and> \<not> write_poisoned m \<and> \<not> write_poisoned m' \<and>
       (\<exists>f'. m_writable m' = Some f' \<and> wsynced f' = length (wdata f'))) \<and>
    (write_poisoned m \<longrightarrow> c = FailedPrecondition \<and> m' = m)"
proof -
  obtain cs staged scl where st: "stage_apply e (lm, m_counters m) = (cs, staged, scl)" by (metis prod_cases3)
  obtain cp e1 where pr: "VersionEdit_prepare z e = (cp, e1)" by fastforce
  obtain ca e2 m1 where ap: "Manifest_append_prepared z e1 m = (ca, e2, m1)" by (metis prod_cases3)
  have m1: "m_counters m1 = m_counters m" "ca = Ok \<longrightarrow> write_poisoned m1 = write_poisoned m"
    using ap by (auto simp: Manifest_append_prepared_def current_position_def Let_def split: if_splits option.splits sum.splits prod.splits)
  show ?thesis
  proof (cases "write_poisoned m \<or> m_writable m = None \<or> fl \<or> cs \<noteq> Ok \<or> cp \<noteq> Ok \<or> ca \<noteq> Ok \<or> m_writable m1 = None")
    case True
    then show ?thesis using assms st pr ap m1
      by (auto simp: Manifest_commit_def split: if_splits option.splits)
  next
    case False
    then obtain f where f: "m_writable m1 = Some f" by blast
    obtain cy f2 where f2: "sync f = (cy, f2)" by fastforce
    then show ?thesis using assms st pr ap m1 False f syncD [OF f2]
      by (auto simp: Manifest_commit_def Manifest_sync_writer_def publish_counters_def Let_def split: if_splits)
  qed
qed

end
