(* ===== verification/CompactionJob.thy ===== *)
theory CompactionJob
  imports SSTableManager ManifestLog
begin

text \<open>
  Executing a compaction plan (\<^verbatim>\<open>core/compaction/compaction_job.cpp\<close>): the inputs are merged, the newest
  version of every key is kept (a tombstone only while deeper levels hold tables), outputs are rolled at
  the target size, and one edit replaces the inputs by the outputs.
\<close>

section \<open>Checks\<close>

definition level_contains_table :: "LevelManager \<Rightarrow> u32 \<Rightarrow> u64 \<Rightarrow> bool" where
  "level_contains_table lm level tid =
     (case get_lx_tables (unat level) lm of None \<Rightarrow> False | Some ts \<Rightarrow> list_ex (\<lambda>t. table_id t = tid) ts)"

definition plan_is_current :: "CompactionPlan \<Rightarrow> LevelManager \<Rightarrow> bool" where
  "plan_is_current plan lm \<longleftrightarrow>
     list_all (\<lambda>t. level_contains_table lm (source_level plan) (table_id t)) (source_tables plan) \<and>
     list_all (\<lambda>t. level_contains_table lm (target_level plan) (table_id t)) (overlapping_tables plan)"

function bottommost_from :: "LevelManager \<Rightarrow> nat \<Rightarrow> bool" where
  "bottommost_from lm level =
     (case get_lx_tables level lm of
        None \<Rightarrow> True
      | Some ts \<Rightarrow> if ts \<noteq> [] then False else if level = u32_max then True else bottommost_from lm (level + 1))"
  by pat_completeness auto
termination
  by (relation "measure (\<lambda>(lm, level). length (lm_levels lm) - level)") (auto simp: get_lx_tables_def split: if_splits)

declare bottommost_from.simps [simp del]

definition is_bottommost_destination :: "LevelManager \<Rightarrow> u32 \<Rightarrow> bool" where
  "is_bottommost_destination lm target = (if unat target = u32_max then True else bottommost_from lm (unat target + 1))"

definition compaction_keep_newest_record :: "Type \<Rightarrow> bool \<Rightarrow> bool" where
  "compaction_keep_newest_record t is_bottommost_level \<longleftrightarrow> \<not> (t = Tombstone \<and> is_bottommost_level)"

section \<open>State of a run\<close>

text \<open>What the operating system answers when a table is loaded, opened for iteration, written or removed.\<close>

record job_env =
  je_load :: "u64 \<Rightarrow> read_env"
  je_iter :: "u64 \<Rightarrow> read_env"
  je_write :: "u64 \<Rightarrow> write_env"
  je_remove_ok :: "string \<Rightarrow> bool"

record job =
  jb_deleted :: "DeletedTable list"
  jb_new :: "TableMeta list"
  jb_iters :: "SSTableIterator list"
  jb_builder :: "SSTable option"
  jb_next_id :: u64
  jb_mgr :: SSTableManager
  jb_disk :: disk
  jb_arena :: arena

section \<open>Inputs\<close>

definition add_input_table :: "zlib \<Rightarrow> job_env \<Rightarrow> u32 \<Rightarrow> TableMeta \<Rightarrow> job \<Rightarrow> (StatusCode \<times> job) option" where
  "add_input_table z env level m j =
     (if unat (table_id m) > u32_max then Some (InvalidState, j)
      else case SSTableManager_get z (je_load env (table_id m)) (ucast (table_id m)) (jb_disk j) (jb_mgr j, jb_arena j) of
        None \<Rightarrow> None
      | Some (Inl e, mgr, ar) \<Rightarrow> Some (e, j\<lparr>jb_mgr := mgr, jb_arena := ar\<rparr>)
      | Some (Inr t, mgr, ar) \<Rightarrow>
          let j = j\<lparr>jb_mgr := mgr, jb_arena := ar\<rparr> in
          (case open_readable_file (je_iter env (table_id m)) (tb_final_path t) (jb_disk j) of
             Inl e \<Rightarrow> Some (e, j)
           | Inr f \<Rightarrow>
               (case SSTableIterator_seek_to_first z (SSTableIterator_new t f, ar) of
                  None \<Rightarrow> None
                | Some (c, it, ar) \<Rightarrow>
                    if \<not> is_ok c then Some (c, j\<lparr>jb_arena := ar\<rparr>)
                    else Some (Ok, j\<lparr>jb_iters := jb_iters j @ [it], jb_arena := ar,
                      jb_deleted := jb_deleted j @ [\<lparr>dt_level = level, dt_table_id = table_id m\<rparr>]\<rparr>))))"

fun add_input_tables :: "zlib \<Rightarrow> job_env \<Rightarrow> u32 \<Rightarrow> TableMeta list \<Rightarrow> job \<Rightarrow> (StatusCode \<times> job) option" where
  "add_input_tables z env level [] j = Some (Ok, j)"
| "add_input_tables z env level (m # ms) j =
     (case add_input_table z env level m j of
        None \<Rightarrow> None
      | Some (c, j') \<Rightarrow> if \<not> is_ok c then Some (c, j') else add_input_tables z env level ms j')"

section \<open>Outputs\<close>

definition start_new_output :: "zlib \<Rightarrow> job action" where
  "start_new_output z j =
     (if jb_builder j \<noteq> None then (InvalidState, j)
      else if unat (jb_next_id j) > u32_max then (InvalidState, j)
      else (Ok, j\<lparr>jb_builder := Some (create_streaming_builder z (ucast (jb_next_id j)) (jb_mgr j)), jb_next_id := jb_next_id j + 1\<rparr>))"

definition finish_current_output :: "zlib \<Rightarrow> job_env \<Rightarrow> CompactionPlan \<Rightarrow> job \<Rightarrow> (StatusCode \<times> job) option" where
  "finish_current_output z env plan j =
     (case jb_builder j of
        None \<Rightarrow> Some (Ok, j)
      | Some b \<Rightarrow>
          if builder_empty b then Some (Ok, j\<lparr>jb_builder := None\<rparr>)
          else (case builder_finish z (je_write env (ucast (fh_table_id (tb_header b)))) (target_level plan) (b, jb_disk j, jb_arena j) of
                  None \<Rightarrow> None
                | Some (r, b', d', ar') \<Rightarrow>
                    let j = j\<lparr>jb_builder := Some b', jb_disk := d', jb_arena := ar'\<rparr> in
                    (case r of
                       Inl e \<Rightarrow> Some (e, j)
                     | Inr None \<Rightarrow> Some (InvalidState, j)
                     | Inr (Some m) \<Rightarrow> Some (Ok, j\<lparr>jb_new := jb_new j @ [m], jb_builder := None\<rparr>))))"

text \<open>The two parts of the body of the merge loop.\<close>

definition keep_record :: "zlib \<Rightarrow> bool \<Rightarrow> InternalRecord \<Rightarrow> job action" where
  "keep_record z bottommost newest j =
     (if compaction_keep_newest_record (rtype newest) bottommost then
        (case (if jb_builder j = None then start_new_output z j else (Ok, j)) of (c, j1) \<Rightarrow>
           if \<not> is_ok c then (c, j1)
           else case builder_add z newest (the (jb_builder j1)) of (c, b) \<Rightarrow> (c, j1\<lparr>jb_builder := Some b\<rparr>))
      else (Ok, j))"

definition roll_output :: "zlib \<Rightarrow> job_env \<Rightarrow> CompactionPlan \<Rightarrow> job \<Rightarrow> (StatusCode \<times> job) option" where
  "roll_output z env plan j =
     (case jb_builder j of
        None \<Rightarrow> Some (Ok, j)
      | Some b \<Rightarrow>
          if \<not> builder_empty b \<and> builder_approximate_disk_space b \<ge> max_output_file_size plan
          then finish_current_output z env plan j else Some (Ok, j))"

partial_function (option) merge_loop ::
    "'s stepper \<Rightarrow> ('s \<Rightarrow> InternalRecord) \<Rightarrow> ('s \<Rightarrow> bool) \<Rightarrow> (InternalRecord \<Rightarrow> job action) \<Rightarrow> (job \<Rightarrow> (StatusCode \<times> job) option) \<Rightarrow>
     's \<Rightarrow> job \<Rightarrow> (StatusCode \<times> 's \<times> job) option" where
  "merge_loop step cur live keep roll s j =
     (if live s then
        (case keep (cur s) j of (c, j1) \<Rightarrow>
           if \<not> is_ok c then Some (c, s, j1)
           else (case step (s, jb_arena j1) of
                   None \<Rightarrow> None
                 | Some (_, s1, ar1) \<Rightarrow>
                     (case skip_key step cur live (key_entry (cur s)) s1 ar1 of
                        None \<Rightarrow> None
                      | Some (s2, ar2) \<Rightarrow>
                          (case roll (j1\<lparr>jb_arena := ar2\<rparr>) of
                             None \<Rightarrow> None
                           | Some (c, j2) \<Rightarrow>
                               if \<not> is_ok c then Some (c, s2, j2) else merge_loop step cur live keep roll s2 j2))))
      else Some (Ok, s, j))"

section \<open>The run\<close>

definition cleanup_finished_outputs :: "job_env \<Rightarrow> TableMeta list \<Rightarrow> disk \<Rightarrow> disk" where
  "cleanup_finished_outputs env ms d =
     fold (\<lambda>m d. if tm_path m = [] \<or> \<not> je_remove_ok env (path_of_bytes (tm_path m)) then d else d(path_of_bytes (tm_path m) := None)) ms d"

type_synonym run_result = "(VersionEdit option result \<times> SSTableManager \<times> disk \<times> arena) option"

definition fail_job :: "job_env \<Rightarrow> StatusCode \<Rightarrow> job \<Rightarrow> run_result" where
  "fail_job env e j = Some (Inl e, jb_mgr j, cleanup_finished_outputs env (jb_new j) (jb_disk j), jb_arena j)"

definition first_bad_status :: "SSTableIterator list \<Rightarrow> StatusCode" where
  "first_bad_status its = (case List.find (\<lambda>it. \<not> is_ok (it_status it)) its of None \<Rightarrow> Ok | Some it \<Rightarrow> it_status it)"

definition job_edit :: "u64 \<Rightarrow> job \<Rightarrow> VersionEdit option" where
  "job_edit first_id j =
     (if jb_deleted j = [] \<and> jb_new j = [] then None
      else Some \<lparr>edit_header = \<lparr>edit_crc32 = 0, edit_payload_size = 0\<rparr>,
        edit_payload = \<lparr>edit_next_table_id = (if jb_next_id j \<noteq> first_id then Some (jb_next_id j) else None),
          edit_next_sequence_number = None, edit_current_wal_id = None, deleted_tables = jb_deleted j, new_tables = jb_new j\<rparr>\<rparr>)"

definition merge_inputs :: "zlib \<Rightarrow> job_env \<Rightarrow> CompactionPlan \<Rightarrow> bool \<Rightarrow> u64 \<Rightarrow> job \<Rightarrow> run_result" where
  "merge_inputs z env plan bottommost first_id j =
     (if jb_iters j = [] then Some (Inr None, jb_mgr j, jb_disk j, jb_arena j)
      else case MergeIterator_build z (jb_iters j) (MergeIterator_new, jb_arena j) of
        None \<Rightarrow> None
      | Some (_, mg, ar) \<Rightarrow>
          (case merge_loop (MergeIterator_next z) MergeIterator_record mg_valid (keep_record z bottommost) (roll_output z env plan)
                  mg (j\<lparr>jb_arena := ar\<rparr>) of
             None \<Rightarrow> None
           | Some (c, mg, j) \<Rightarrow>
               if \<not> is_ok c then fail_job env c j
               else let c = first_bad_status (mg_inputs mg) in
                 if \<not> is_ok c then fail_job env c j
                 else (case finish_current_output z env plan j of
                         None \<Rightarrow> None
                       | Some (c, j) \<Rightarrow>
                           if \<not> is_ok c then fail_job env c j
                           else Some (Inr (job_edit first_id j), jb_mgr j, jb_disk j, jb_arena j))))"

definition CompactionJob_run ::
    "zlib \<Rightarrow> job_env \<Rightarrow> CompactionPlan \<Rightarrow> LevelManager \<Rightarrow> Manifest \<Rightarrow> SSTableManager \<times> disk \<times> arena \<Rightarrow> run_result" where
  "CompactionJob_run z env plan lm mf s = (case s of (mgr, d, ar) \<Rightarrow>
     if \<not> CompactionPlan_validate plan then Some (Inl Corruption, mgr, d, ar)
     else if \<not> plan_is_current plan lm then Some (Inl InvalidState, mgr, d, ar)
     else let first_id = sc_next_table_id (m_counters mf);
              j = \<lparr>jb_deleted = [], jb_new = [], jb_iters = [], jb_builder = None, jb_next_id = first_id, jb_mgr = mgr, jb_disk = d, jb_arena = ar\<rparr> in
       (case add_input_tables z env (source_level plan) (source_tables plan) j of
          None \<Rightarrow> None
        | Some (c, j) \<Rightarrow>
            if \<not> is_ok c then fail_job env c j
            else (case add_input_tables z env (target_level plan) (overlapping_tables plan) j of
                    None \<Rightarrow> None
                  | Some (c, j) \<Rightarrow>
                      if \<not> is_ok c then fail_job env c j
                      else merge_inputs z env plan (is_bottommost_destination lm (target_level plan)) first_id j)))"

text \<open>The overload without a level snapshot.\<close>

definition CompactionJob_run_without_levels :: "CompactionPlan \<Rightarrow> VersionEdit option result" where
  "CompactionJob_run_without_levels plan = (if \<not> CompactionPlan_validate plan then Inl Corruption else Inl InvalidState)"

section \<open>What a compaction keeps\<close>

text \<open>The specification: of every key the newest record, unless it is a tombstone that nothing older can hide behind.\<close>

function retain :: "bool \<Rightarrow> InternalRecord list \<Rightarrow> InternalRecord list" where
  "retain bottommost [] = []"
| "retain bottommost (r # rs) = (if compaction_keep_newest_record (rtype r) bottommost then [r] else []) @
     retain bottommost (dropWhile (\<lambda>x. key_entry x = key_entry r) rs)"
  by pat_completeness auto
termination
  by (relation "measure (\<lambda>(b, rs). length rs)") (simp_all add: le_imp_less_Suc length_dropWhile_le)

lemma retain_subset: "set (retain b rs) \<subseteq> set rs"
  by (induction b rs rule: retain.induct) (auto dest: set_dropWhileD)

lemma sorted_key_le: "sorted_records (r # rs) \<Longrightarrow> x \<in> set rs \<Longrightarrow> key_entry r \<le> key_entry x"
  by (auto simp: ikey_def)

lemma sorted_dropWhile: "sorted_records rs \<Longrightarrow> sorted_records (dropWhile P rs)"
  by (metis sorted_wrt_append takeWhile_dropWhile_id)

text \<open>In sorted input, the records behind the versions of a key have larger keys.\<close>

lemma dropped_greater:
  assumes "sorted_records (r # rs)" "x \<in> set (dropWhile (\<lambda>x. key_entry x = key_entry r) rs)"
  shows "key_entry r < key_entry x"
proof -
  let ?d = "dropWhile (\<lambda>x. key_entry x = key_entry r) rs"
  obtain y ys where y: "?d = y # ys" using assms(2) by (cases ?d) auto
  have "y \<in> set ?d" using y by simp
  then have s: "sorted_records rs" "y \<in> set rs" using assms(1) set_dropWhileD by (simp, metis)
  have "key_entry y \<noteq> key_entry r" using hd_dropWhile [of "\<lambda>x. key_entry x = key_entry r" rs] y by auto
  then have "key_entry r < key_entry y" using sorted_key_le [OF assms(1) s(2)] by simp
  moreover have "key_entry y \<le> key_entry x" using sorted_dropWhile [OF s(1), of "\<lambda>x. key_entry x = key_entry r"] assms(2) y sorted_key_le by fastforce
  ultimately show ?thesis by simp
qed

lemma retain_keys:
  "sorted_records rs \<Longrightarrow> sorted_wrt (\<lambda>a b. key_entry a < key_entry b) (retain b rs)"
proof (induction b rs rule: retain.induct)
  case (2 b r rs)
  have "sorted_records (dropWhile (\<lambda>x. key_entry x = key_entry r) rs)" using 2(2) by (intro sorted_dropWhile) simp
  then show ?case using 2(1) dropped_greater [OF 2(2)] retain_subset by (auto simp: sorted_wrt_append)
qed simp

text \<open>What a lookup finds afterwards.\<close>

lemma newest_in_dropWhile: "k \<noteq> k' \<Longrightarrow> newest_in k (dropWhile (\<lambda>x. key_entry x = k') rs) = newest_in k rs"
  by (induction rs) (auto simp: newest_in_def)

lemma newest_in_None_iff: "newest_in k rs = None \<longleftrightarrow> (\<forall>r\<in>set rs. key_entry r \<noteq> k)"
  by (auto simp: newest_in_def find_None_iff)

lemma newest_in_retain:
  "sorted_records rs \<Longrightarrow> newest_in k (retain b rs) =
     (case newest_in k rs of None \<Rightarrow> None | Some r \<Rightarrow> if compaction_keep_newest_record (rtype r) b then Some r else None)"
proof (induction b rs rule: retain.induct)
  case (2 b r rs)
  let ?d = "dropWhile (\<lambda>x. key_entry x = key_entry r) rs"
  have s: "sorted_records ?d" using 2(2) by (intro sorted_dropWhile) simp
  show ?case
  proof (cases "key_entry r = k")
    case True
    have "newest_in k (retain b ?d) = None"
      using retain_subset [of b ?d] dropped_greater [OF 2(2)] True by (fastforce simp: newest_in_None_iff)
    then show ?thesis using True by (simp add: newest_in_def)
  next
    case False
    then have "newest_in k ?d = newest_in k rs" by (intro newest_in_dropWhile) auto
    then show ?thesis using 2(1) [OF s] False by (simp add: newest_in_def)
  qed
qed (simp add: newest_in_def)

text \<open>A record is retained when it is the newest of its key and the policy keeps it.\<close>

lemma in_retain:
  "sorted_records rs \<Longrightarrow> r \<in> set (retain b rs) \<longleftrightarrow> r \<in> set rs \<and>
    (\<forall>s\<in>set rs. key_entry s = key_entry r \<longrightarrow> seq_num s \<le> seq_num r) \<and> compaction_keep_newest_record (rtype r) b"
proof (induction b rs rule: retain.induct)
  case (2 b x rs)
  let ?d = "dropWhile (\<lambda>y. key_entry y = key_entry x) rs"
  have IH: "r \<in> set (retain b ?d) \<longleftrightarrow> r \<in> set ?d \<and>
      (\<forall>s\<in>set ?d. key_entry s = key_entry r \<longrightarrow> seq_num s \<le> seq_num r) \<and> compaction_keep_newest_record (rtype r) b"
    using 2(1) sorted_dropWhile [of rs] 2(2) by simp
  have older: "seq_num s < seq_num x" if "s \<in> set rs" "key_entry s = key_entry x" for s
    using that 2(2) by (auto simp: ikey_def word_less_def)
  show ?case
  proof (cases "key_entry r = key_entry x")
    case True
    have "r \<notin> set ?d" using dropped_greater [OF 2(2)] True by fastforce
    then have "r \<in> set (retain b (x # rs)) \<longleftrightarrow> r = x \<and> compaction_keep_newest_record (rtype x) b" using IH by auto
    moreover have "r \<in> set rs \<Longrightarrow> \<not> seq_num x \<le> seq_num r" using older True by (auto simp: not_le)
    ultimately show ?thesis using True older by (auto intro: order.strict_implies_order)
  next
    case False
    have d: "s \<in> set ?d \<longleftrightarrow> s \<in> set rs" if "key_entry s = key_entry r" for s
      using that False by (induction rs) auto
    with IH False show ?thesis by auto
  qed
qed simp

section \<open>Invariant of a run\<close>

text \<open>Output \<open>k\<close> has the identifier \<open>first + k\<close>.\<close>

definition out_id :: "u64 \<Rightarrow> nat \<Rightarrow> u32" where
  "out_id first k = of_nat (unat first + k)"

definition output_path :: "string \<Rightarrow> u64 \<Rightarrow> string \<Rightarrow> bool" where
  "output_path dir first p \<longleftrightarrow> (\<exists>i::u32. unat first \<le> unat i \<and> (p = make_table_path i dir \<or> p = make_tmp_table_path i dir))"

text \<open>Only files of outputs have changed, and the finished outputs are among them.\<close>

definition job_safe :: "string \<Rightarrow> u64 \<Rightarrow> disk \<Rightarrow> job \<Rightarrow> bool" where
  "job_safe dir first d0 j \<longleftrightarrow> (\<forall>p. \<not> output_path dir first p \<longrightarrow> jb_disk j p = d0 p) \<and>
     (\<forall>m\<in>set (jb_new j). output_path dir first (path_of_bytes (tm_path m)))"

definition output_ok :: "zlib \<Rightarrow> string \<Rightarrow> u32 \<Rightarrow> disk \<Rightarrow> u32 \<Rightarrow> TableMeta \<Rightarrow> InternalRecord list \<Rightarrow> bool" where
  "output_ok z dir level d i m rs \<longleftrightarrow> table_id m = ucast i \<and> tm_level m = level \<and> path_of_bytes (tm_path m) = make_table_path i dir \<and>
     stored_table z d m rs"

definition outputs_ok :: "zlib \<Rightarrow> string \<Rightarrow> u32 \<Rightarrow> u64 \<Rightarrow> disk \<Rightarrow> TableMeta list \<Rightarrow> InternalRecord list list \<Rightarrow> bool" where
  "outputs_ok z dir level first d ms outs \<longleftrightarrow> length ms = length outs \<and> unat first + length outs \<le> u32_max + 1 \<and> [] \<notin> set outs \<and>
     (\<forall>k < length outs. output_ok z dir level d (out_id first k) (ms ! k) (outs ! k))"

definition builder_ok :: "zlib \<Rightarrow> string \<Rightarrow> u64 \<Rightarrow> job \<Rightarrow> nat \<Rightarrow> InternalRecord list \<Rightarrow> bool" where
  "builder_ok z dir first j n opened \<longleftrightarrow> (case jb_builder j of
     None \<Rightarrow> opened = [] \<and> unat (jb_next_id j) = unat first + n
   | Some b \<Rightarrow> builder_holds z (make_tmp_table_path (out_id first n) dir) (make_table_path (out_id first n) dir) (out_id first n) b opened \<and>
       opened \<noteq> [] \<and> unat (jb_next_id j) = unat first + n + 1 \<and> unat first + n \<le> u32_max)"

definition job_ok :: "zlib \<Rightarrow> string \<Rightarrow> u32 \<Rightarrow> u64 \<Rightarrow> disk \<Rightarrow> job \<Rightarrow> InternalRecord list list \<Rightarrow> InternalRecord list \<Rightarrow> bool" where
  "job_ok z dir level first d0 j outs opened \<longleftrightarrow> job_safe dir first d0 j \<and> outputs_ok z dir level first (jb_disk j) (jb_new j) outs \<and>
     builder_ok z dir first j (length outs) opened \<and> sm_dir (jb_mgr j) = dir \<and> length dir \<le> 50000 \<and> arena_ok (jb_arena j) \<and> never_oom (jb_arena j)"

definition same_inputs :: "job \<Rightarrow> job \<Rightarrow> bool" where
  "same_inputs j j' \<longleftrightarrow> jb_deleted j' = jb_deleted j \<and> jb_iters j' = jb_iters j \<and> jb_mgr j' = jb_mgr j"

lemma job_ok_arena: "job_ok z dir level first d0 j outs opened \<Longrightarrow> arena_ok ar \<Longrightarrow> never_oom ar \<Longrightarrow>
    job_ok z dir level first d0 (j\<lparr>jb_arena := ar\<rparr>) outs opened"
  by (cases "jb_builder j") (simp_all add: job_ok_def job_safe_def builder_ok_def)

lemma out_id_unat: "unat first + k \<le> u32_max \<Longrightarrow> unat (out_id first k) = unat first + k"
  by (simp add: out_id_def unat_nat32 del: of_nat_add)

lemma started_builder:
  assumes inv: "job_ok z dir level first d0 j outs opened" and room: "unat first + length outs \<le> u32_max"
  defines "start \<equiv> (if jb_builder j = None then start_new_output z j else (Ok, j))"
  shows "fst start = Ok" "\<And>b r. builder_holds z (make_tmp_table_path (out_id first (length outs)) dir) (make_table_path (out_id first (length outs)) dir)
      (out_id first (length outs)) b (opened @ [r]) \<Longrightarrow> job_ok z dir level first d0 ((snd start)\<lparr>jb_builder := Some b\<rparr>) outs (opened @ [r])"
    "same_inputs j (snd start)"
    "jb_arena (snd start) = jb_arena j" "jb_disk (snd start) = jb_disk j" "jb_new (snd start) = jb_new j"
    "\<exists>b. jb_builder (snd start) = Some b \<and> builder_holds z (make_tmp_table_path (out_id first (length outs)) dir)
      (make_table_path (out_id first (length outs)) dir) (out_id first (length outs)) b opened"
proof -
  have *: "fst start = Ok \<and> (\<forall>b r. builder_holds z (make_tmp_table_path (out_id first (length outs)) dir) (make_table_path (out_id first (length outs)) dir)
      (out_id first (length outs)) b (opened @ [r]) \<longrightarrow> job_ok z dir level first d0 ((snd start)\<lparr>jb_builder := Some b\<rparr>) outs (opened @ [r])) \<and>
    same_inputs j (snd start) \<and>
    jb_arena (snd start) = jb_arena j \<and> jb_disk (snd start) = jb_disk j \<and> jb_new (snd start) = jb_new j \<and>
    (\<exists>b. jb_builder (snd start) = Some b \<and> builder_holds z (make_tmp_table_path (out_id first (length outs)) dir)
      (make_table_path (out_id first (length outs)) dir) (out_id first (length outs)) b opened)"
  proof (cases "jb_builder j")
    case (Some b)
    then show ?thesis using inv by (simp add: start_def job_ok_def job_safe_def builder_ok_def same_inputs_def)
  next
    case None
    then have o: "opened = []" "unat (jb_next_id j) = unat first + length outs" using inv by (simp_all add: job_ok_def builder_ok_def)
    have i: "ucast (jb_next_id j) = out_id first (length outs)" by (simp only: out_id_def o(2) [symmetric] of_nat_unat)
    have n: "unat (jb_next_id j + 1) = unat first + length outs + 1" using o(2) room by (subst unat_add_lem [THEN iffD1]) simp_all
    define b where "b = create_streaming_builder z (ucast (jb_next_id j)) (jb_mgr j)"
    have bh: "builder_holds z (make_tmp_table_path (out_id first (length outs)) dir)
      (make_table_path (out_id first (length outs)) dir) (out_id first (length outs)) b []"
      using inv builder_new_holds unfolding b_def create_streaming_builder_def i by (simp add: job_ok_def)
    have st: "start = (Ok, j\<lparr>jb_builder := Some b, jb_next_id := jb_next_id j + 1\<rparr>)"
      using None o(2) room by (simp add: start_def start_new_output_def b_def)
    show ?thesis unfolding st using inv bh n o(1) room by (simp add: job_ok_def job_safe_def builder_ok_def same_inputs_def)
  qed
  then show "fst start = Ok" "\<And>b r. builder_holds z (make_tmp_table_path (out_id first (length outs)) dir) (make_table_path (out_id first (length outs)) dir)
      (out_id first (length outs)) b (opened @ [r]) \<Longrightarrow> job_ok z dir level first d0 ((snd start)\<lparr>jb_builder := Some b\<rparr>) outs (opened @ [r])"
    "same_inputs j (snd start)"
    "jb_arena (snd start) = jb_arena j" "jb_disk (snd start) = jb_disk j" "jb_new (snd start) = jb_new j"
    "\<exists>b. jb_builder (snd start) = Some b \<and> builder_holds z (make_tmp_table_path (out_id first (length outs)) dir)
      (make_table_path (out_id first (length outs)) dir) (out_id first (length outs)) b opened" by simp_all
qed

lemma keep_record_effect:
  assumes inv: "job_ok z dir level first d0 j outs opened" and r: "storable r" "\<forall>x\<in>set opened. ikey x < ikey r"
    and room: "unat first + length outs \<le> u32_max" and run: "keep_record z b r j = (c, j')"
  shows "c = Ok" "job_ok z dir level first d0 j' outs (opened @ (if compaction_keep_newest_record (rtype r) b then [r] else []))"
    "same_inputs j j'" "jb_arena j' = jb_arena j" "jb_disk j' = jb_disk j" "jb_new j' = jb_new j"
proof -
  define start where "start = (if jb_builder j = None then start_new_output z j else (Ok, j))"
  note s = started_builder [OF inv room, folded start_def]
  obtain b1 where b1: "jb_builder (snd start) = Some b1" "builder_holds z (make_tmp_table_path (out_id first (length outs)) dir)
      (make_table_path (out_id first (length outs)) dir) (out_id first (length outs)) b1 opened" using s(7) by blast
  obtain c2 b2 where add: "builder_add z r b1 = (c2, b2)" by fastforce
  from builder_add_effect [OF b1(2) add] r have b2: "c2 = Ok" "builder_holds z (make_tmp_table_path (out_id first (length outs)) dir)
      (make_table_path (out_id first (length outs)) dir) (out_id first (length outs)) b2 (opened @ [r])" by (auto split: if_splits)
  have eq: "keep_record z b r j = (if compaction_keep_newest_record (rtype r) b then (Ok, (snd start)\<lparr>jb_builder := Some b2\<rparr>) else (Ok, j))"
    using s(1) b1(1) add b2(1) by (cases start) (simp add: keep_record_def start_def [symmetric])
  have "job_ok z dir level first d0 ((snd start)\<lparr>jb_builder := Some b2\<rparr>) outs (opened @ [r])"
    using s(2) [OF b2(2)] .
  then show "c = Ok" "job_ok z dir level first d0 j' outs (opened @ (if compaction_keep_newest_record (rtype r) b then [r] else []))"
    "same_inputs j j'" "jb_arena j' = jb_arena j" "jb_disk j' = jb_disk j" "jb_new j' = jb_new j"
    using run eq s(3-6) inv by (auto simp: same_inputs_def split: if_splits)
qed

text \<open>Without the hypothesis on the identifiers: a new output is refused when they are exhausted.\<close>

lemma keep_record_cases:
  assumes inv: "job_ok z dir level first d0 j outs opened" and r: "storable r" "\<forall>x\<in>set opened. ikey x < ikey r" and run: "keep_record z b r j = (c, j')"
  shows "if c = Ok then job_ok z dir level first d0 j' outs (opened @ (if compaction_keep_newest_record (rtype r) b then [r] else [])) \<and> same_inputs j j'
    else j' = j \<and> u32_max < unat first + length outs"
proof (cases "unat first + length outs \<le> u32_max")
  case True
  then show ?thesis using keep_record_effect [OF inv r True run] by simp
next
  case False
  then have "jb_builder j = None" "unat (jb_next_id j) = unat first + length outs" using inv by (auto simp: job_ok_def builder_ok_def split: option.splits)
  then have "keep_record z b r j = (if compaction_keep_newest_record (rtype r) b then (InvalidState, j) else (Ok, j))"
    using False by (simp add: keep_record_def start_new_output_def)
  then show ?thesis using run inv False by (auto simp: same_inputs_def)
qed

definition arena_fine :: "job \<Rightarrow> bool" where
  "arena_fine j \<longleftrightarrow> arena_ok (jb_arena j) \<and> never_oom (jb_arena j)"

lemma job_ok_arena_fine: "job_ok z dir level first d0 j outs opened \<Longrightarrow> arena_fine j"
  by (simp add: job_ok_def arena_fine_def)

lemma builder_finish_total:
  assumes "builder_holds z p q tid t rs" "arena_ok ar" "never_oom ar" "length q \<le> 60000"
  shows "\<exists>r t' d' ar'. builder_finish z env level (t, d, ar) = Some (r, t', d', ar')"
proof (cases "builder_empty t")
  case False
  have ok: "section_ok z (tb_data t)" "tb_final_path t = q" "data_blocks (tb_data t) \<noteq> []" using assms(1) False by (simp_all add: builder_holds_def builder_empty_def)
  obtain c t1 d1 where w: "SSTable_write z env (t, d) = (c, t1, d1)" by (metis prod_cases3)
  show ?thesis
  proof (cases "c = Ok")
    case True
    then obtain D where D: "tb_path t1 = q" "table_bytes z D (tb_data t1) (tb_header t1) (bl_payload (tb_bloom t1)) (ms_payload (tb_meta t1)) (tb_footer t1)"
      using SSTable_write_result [OF ok(1,3) w] ok(2) by (auto split: if_splits)
    have "length (tb_path t1) \<le> 60000" using D(1) assms(4) by simp
    from make_table_meta_published [OF D(2) assms(2,3) this, of level] show ?thesis using w False True by (auto simp: builder_finish_def)
  qed (use w False in \<open>auto simp: builder_finish_def\<close>)
qed (simp add: builder_finish_def)

lemma stored_table_frame: "stored_table z d m rs \<Longrightarrow> d' (path_of_bytes (tm_path m)) = d (path_of_bytes (tm_path m)) \<Longrightarrow> stored_table z d' m rs"
  by (simp add: stored_table_def)

lemma outputs_ok_snoc:
  assumes "outputs_ok z dir level first d ms outs" "output_ok z dir level d' (out_id first (length outs)) m rs" "rs \<noteq> []" "unat first + length outs \<le> u32_max"
    "\<And>x. x \<noteq> make_table_path (out_id first (length outs)) dir \<Longrightarrow> x \<noteq> make_tmp_table_path (out_id first (length outs)) dir \<Longrightarrow> d' x = d x"
  shows "outputs_ok z dir level first d' (ms @ [m]) (outs @ [rs])"
proof -
  have "output_ok z dir level d' (out_id first k) (ms ! k) (outs ! k)" if "k < length outs" for k
  proof -
    have o: "output_ok z dir level d (out_id first k) (ms ! k) (outs ! k)" using assms(1) that by (simp add: outputs_ok_def)
    have "out_id first k \<noteq> out_id first (length outs)" using that assms(4) out_id_unat [of first k] out_id_unat [of first "length outs"] by auto
    then have "d' (make_table_path (out_id first k) dir) = d (make_table_path (out_id first k) dir)"
      using table_paths_inj(1) table_paths_differ by (intro assms(5)) blast+
    then show ?thesis using o stored_table_frame by (auto simp: output_ok_def)
  qed
  then show ?thesis using assms(1-4) by (auto simp: outputs_ok_def nth_append less_Suc_eq)
qed

text \<open>The device reports no errors, and every selection of the records \<open>R\<close> fits the one index block of a table.\<close>

definition always_writes :: "zlib \<Rightarrow> job_env \<Rightarrow> InternalRecord set \<Rightarrow> bool" where
  "always_writes z env R \<longleftrightarrow> (\<forall>i. calm_env (je_write env i)) \<and>
     (\<forall>ds. section_ok z ds \<longrightarrow> data_blocks ds \<noteq> [] \<longrightarrow> set (section_records ds) \<subseteq> R \<longrightarrow> writable_section z ds)"

lemma builder_finish_succeeds:
  assumes "builder_holds z (make_tmp_table_path i dir) (make_table_path i dir) i t rs" "always_writes z env R" "set rs \<subseteq> R" "rs \<noteq> []"
    "builder_finish z (je_write env k) level (t, d, ar) = Some (Inl e, t', d', ar')" "arena_ok ar" "never_oom ar" "length (make_table_path i dir) \<le> 60000"
  shows False
proof -
  have ok: "section_ok z (tb_data t)" "tb_state t = Building" "tb_path t = make_tmp_table_path i dir" "tb_final_path t = make_table_path i dir"
    "tb_header t = FileHeader_of z i" "section_records (tb_data t) = rs" using assms(1) by (simp_all add: builder_holds_def)
  have ne: "\<not> builder_empty t" "data_blocks (tb_data t) \<noteq> []" using builder_empty_iff [OF assms(1)] assms(4) by (simp_all add: builder_empty_def)
  have w: "writable_section z (tb_data t)" "calm_env (je_write env k)" using assms(2,3) ok(1,6) ne(2) by (simp_all add: always_writes_def)
  have h: "validate_header_fields (tb_header t) = Ok" using FileHeader_of_ok [of z i] ok(5) by (simp add: header_ok_def)
  have "fst (SSTable_write z (je_write env k) (t, d)) = Ok"
    by (rule SSTable_write_succeeds [OF w(1) h w(2)]) (simp_all add: ok table_paths_nonempty paths_normal_differ)
  then obtain t1 d1 where t1: "SSTable_write z (je_write env k) (t, d) = (Ok, t1, d1)" by (cases "SSTable_write z (je_write env k) (t, d)") auto
  from SSTable_write_result [OF ok(1) ne(2) t1] obtain D where
    D: "tb_path t1 = make_table_path i dir" "table_bytes z D (tb_data t1) (tb_header t1) (bl_payload (tb_bloom t1)) (ms_payload (tb_meta t1)) (tb_footer t1)"
    using ok(4) by (auto split: if_splits)
  have "length (tb_path t1) \<le> 60000" using D(1) assms(8) by simp
  from make_table_meta_published [OF D(2) assms(6,7) this, of level] show False using assms(5) t1 ne(1) by (auto simp: builder_finish_def)
qed

lemma finish_effect:
  assumes inv: "job_ok z dir (target_level plan) first d0 j outs opened"
  shows "\<exists>c j'. finish_current_output z env plan j = Some (c, j') \<and> same_inputs j j' \<and> job_safe dir first d0 j' \<and> arena_fine j' \<and>
    (if c = Ok then \<exists>outs'. job_ok z dir (target_level plan) first d0 j' outs' [] \<and> concat outs' = concat outs @ opened \<and> length outs' \<le> length outs + 1
     else jb_new j' = jb_new j \<and> \<not> (always_writes z env R \<and> set opened \<subseteq> R))"
proof (cases "jb_builder j")
  case None
  then show ?thesis using inv by (auto simp: finish_current_output_def same_inputs_def job_ok_def builder_ok_def arena_fine_def intro!: exI [of _ outs])
next
  case (Some b)
  let ?i = "out_id first (length outs)" let ?p = "make_tmp_table_path ?i dir" let ?q = "make_table_path ?i dir"
  have b: "builder_holds z ?p ?q ?i b opened" "unat (jb_next_id j) = unat first + length outs + 1" "unat first + length outs \<le> u32_max"
    using inv Some by (simp_all add: job_ok_def builder_ok_def)
  have ar: "arena_ok (jb_arena j)" "never_oom (jb_arena j)" "length ?q \<le> 60000" "sm_dir (jb_mgr j) = dir"
    using inv table_path_length [of ?i dir] by (simp_all add: job_ok_def)
  have safe: "job_safe dir first d0 j" "outputs_ok z dir (target_level plan) first (jb_disk j) (jb_new j) outs" "length dir \<le> 50000"
    using inv by (simp_all add: job_ok_def)
  have io: "output_path dir first ?p" "output_path dir first ?q" using out_id_unat [OF b(3)] unfolding output_path_def by (metis le_add1)+
  show ?thesis
  proof (cases "builder_empty b")
    case True
    then show ?thesis using builder_empty_iff [OF b(1)] inv Some by (simp add: job_ok_def builder_ok_def)
  next
    case False
    then have ne: "opened \<noteq> []" using builder_empty_iff [OF b(1)] by simp
    define we where "we = je_write env (ucast (fh_table_id (tb_header b)))"
    obtain r b' d' ar' where f: "builder_finish z we (target_level plan) (b, jb_disk j, jb_arena j) = Some (r, b', d', ar')"
      using builder_finish_total [OF b(1) ar(1-3)] by blast
    note e = builder_finish_effect [OF b(1) f ar(1-3)]
    define j1 where "j1 = j\<lparr>jb_builder := Some b', jb_disk := d', jb_arena := ar'\<rparr>"
    have fine: "arena_fine j1" using e by (simp add: j1_def arena_fine_def extends_def)
    have j1: "same_inputs j j1" "job_safe dir first d0 j1" "jb_new j1 = jb_new j"
    proof -
      have all: "\<forall>x. x \<noteq> ?p \<longrightarrow> x \<noteq> ?q \<longrightarrow> d' x = jb_disk j x" using e by (elim conjE)
      have fr: "d' x = jb_disk j x" if "\<not> output_path dir first x" for x
      proof -
        have "x \<noteq> ?p" "x \<noteq> ?q" using io that by auto
        then show ?thesis using all [rule_format, of x] by simp
      qed
      show "same_inputs j j1" "job_safe dir first d0 j1" "jb_new j1 = jb_new j" using safe(1) fr by (simp_all add: j1_def same_inputs_def job_safe_def)
    qed
    show ?thesis
    proof (cases r)
      case (Inl x)
      have "\<not> (always_writes z env R \<and> set opened \<subseteq> R)"
        using builder_finish_succeeds [OF b(1) _ _ ne _ ar(1-3)] f Inl unfolding we_def by blast
      then show ?thesis using Some False f j1 fine e Inl by (auto simp: finish_current_output_def we_def [symmetric] j1_def [symmetric])
    next
      case (Inr mo)
      then obtain m where m: "r = Inr (Some m)" "table_id m = ucast ?i" "tm_level m = target_level plan" "path_of_bytes (tm_path m) = ?q"
        "stored_table z d' m opened" using e ne by (auto split: option.splits)
      define j2 where "j2 = j1\<lparr>jb_new := jb_new j1 @ [m], jb_builder := None\<rparr>"
      have eq: "finish_current_output z env plan j = Some (Ok, j2)"
        using Some False f m(1) by (simp add: finish_current_output_def we_def [symmetric] j1_def j2_def Let_def)
      have frame: "\<And>x. x \<noteq> ?q \<Longrightarrow> x \<noteq> ?p \<Longrightarrow> d' x = jb_disk j x" using e by auto
      have "output_ok z dir (target_level plan) d' ?i m opened" using m(2-5) by (simp add: output_ok_def)
      from outputs_ok_snoc [OF safe(2) this ne b(3) frame] have oo: "outputs_ok z dir (target_level plan) first d' (jb_new j @ [m]) (outs @ [opened])" .
      have s2: "job_safe dir first d0 j2" using j1(2) m(4) io by (auto simp: j2_def job_safe_def)
      have "job_ok z dir (target_level plan) first d0 j2 (outs @ [opened]) []"
        using s2 oo b(2) ar(4) safe(3) e by (simp add: job_ok_def j2_def j1_def builder_ok_def extends_def)
      then show ?thesis using eq j1(1) s2 job_ok_arena_fine by (auto simp: j2_def same_inputs_def intro!: exI [of _ "outs @ [opened]"])
    qed
  qed
qed

lemma roll_effect:
  assumes inv: "job_ok z dir (target_level plan) first d0 j outs opened"
  shows "\<exists>c j'. roll_output z env plan j = Some (c, j') \<and> same_inputs j j' \<and> job_safe dir first d0 j' \<and> arena_fine j' \<and>
    (if c = Ok then \<exists>outs' opened'. job_ok z dir (target_level plan) first d0 j' outs' opened' \<and> concat outs' @ opened' = concat outs @ opened \<and>
       length outs' \<le> length outs + 1
     else \<not> (always_writes z env R \<and> set opened \<subseteq> R))"
proof (cases "jb_builder j")
  case None
  then show ?thesis using inv by (auto simp: roll_output_def same_inputs_def job_ok_def arena_fine_def)
next
  case (Some b)
  show ?thesis
  proof (cases "\<not> builder_empty b \<and> builder_approximate_disk_space b \<ge> max_output_file_size plan")
    case True
    then have eq: "roll_output z env plan j = finish_current_output z env plan j" using Some by (simp add: roll_output_def)
    from finish_effect [OF inv, of env R] obtain c j' where f: "finish_current_output z env plan j = Some (c, j')" "same_inputs j j'" "job_safe dir first d0 j'"
      "if c = Ok then \<exists>outs'. job_ok z dir (target_level plan) first d0 j' outs' [] \<and> concat outs' = concat outs @ opened \<and> length outs' \<le> length outs + 1
       else jb_new j' = jb_new j \<and> \<not> (always_writes z env R \<and> set opened \<subseteq> R)" "arena_fine j'" by blast
    show ?thesis
    proof (cases "c = Ok")
      case True
      with f(4) obtain outs' where "job_ok z dir (target_level plan) first d0 j' outs' []" "concat outs' = concat outs @ opened" "length outs' \<le> length outs + 1" by auto
      then show ?thesis using f True unfolding eq by (intro exI [of _ c] exI [of _ j']) (auto intro!: exI [of _ outs'])
    qed (use f eq in auto)
  next
    case False
    then show ?thesis using Some inv by (auto simp: roll_output_def same_inputs_def job_ok_def arena_fine_def)
  qed
qed

context cursor
begin

lemma merge_loop_outputs:
  assumes "rest s rs" "job_ok z dir (target_level plan) first d0 j outs opened" "sorted_records rs" "list_all storable rs"
    "\<forall>x\<in>set (concat outs @ opened). \<forall>r\<in>set rs. key_entry x < key_entry r"
  shows "\<exists>c s' j'. merge_loop step cur live (keep_record z b) (roll_output z env plan) s j = Some (c, s', j') \<and>
    same_inputs j j' \<and> job_safe dir first d0 j' \<and> arena_fine j' \<and>
    (always_writes z env R \<longrightarrow> set (concat outs @ opened @ rs) \<subseteq> R \<longrightarrow> unat first + length outs + length rs \<le> u32_max \<longrightarrow> c = Ok) \<and>
    (c = Ok \<longrightarrow> rest s' [] \<and> (\<exists>outs' opened'. job_ok z dir (target_level plan) first d0 j' outs' opened' \<and>
       concat outs' @ opened' = concat outs @ opened @ retain b rs \<and> length outs' \<le> length outs + length rs))"
  using assms
proof (induction b rs arbitrary: s j outs opened rule: retain.induct)
  case (1 b)
  then show ?case using live_iff [OF 1(1)] by (subst merge_loop.simps) (auto simp: same_inputs_def job_ok_def arena_fine_def intro!: exI [of _ outs])
next
  case (2 b r rs)
  let ?d = "dropWhile (\<lambda>x. key_entry x = key_entry r) rs"
  have cur: "cur s = r" "live s" using cur_hd [OF 2(2)] live_iff [OF 2(2)] by simp_all
  have r: "storable r" "\<forall>x\<in>set opened. ikey x < ikey r" using 2(5,6) by (auto simp: ikey_def)
  obtain c1 j1 where k: "keep_record z b r j = (c1, j1)" by fastforce
  note kc = keep_record_cases [OF 2(3) r k]
  let ?kept = "if compaction_keep_newest_record (rtype r) b then [r] else []"
  show ?case
  proof (cases "c1 = Ok")
    case False
    then show ?thesis using kc cur k 2(3) by (subst merge_loop.simps) (auto simp: same_inputs_def job_ok_def arena_fine_def)
  next
    case c1: True
    have k1: "c1 = Ok" "job_ok z dir (target_level plan) first d0 j1 outs (opened @ ?kept)" "same_inputs j j1" using kc c1 by simp_all
  have ar: "arena_ok (jb_arena j1)" "never_oom (jb_arena j1)" using k1(2) by (simp_all add: job_ok_def)
  obtain s1 ar1 where s1: "step (s, jb_arena j1) = Some (Ok, s1, ar1)" "rest s1 rs" "extends (jb_arena j1) ar1" "never_oom ar1"
    using step_tl [OF 2(2) ar] by blast
  have "arena_ok ar1" using s1(3) by (simp add: extends_def)
  from skip_key_all [OF s1(2) this s1(4), of "key_entry r"] obtain s2 ar2 where
    s2: "skip_key step cur live (key_entry r) s1 ar1 = Some (s2, ar2)" "rest s2 ?d" "extends ar1 ar2" "never_oom ar2" by blast
  define j2 where "j2 = j1\<lparr>jb_arena := ar2\<rparr>"
  have j2: "job_ok z dir (target_level plan) first d0 j2 outs (opened @ ?kept)"
    using job_ok_arena [OF k1(2)] s2(3,4) by (simp add: j2_def extends_def)
  obtain c3 j3 where j3: "roll_output z env plan j2 = Some (c3, j3)" "same_inputs j2 j3" "job_safe dir first d0 j3" "arena_fine j3"
    and dn: "if c3 = Ok then \<exists>outs' opened'. job_ok z dir (target_level plan) first d0 j3 outs' opened' \<and> concat outs' @ opened' = concat outs @ opened @ ?kept \<and>
       length outs' \<le> length outs + 1 else \<not> (always_writes z env R \<and> set (opened @ ?kept) \<subseteq> R)"
    using roll_effect [OF j2, of env R] by auto
  have same: "same_inputs j j3" using k1(3) j3(2) by (simp add: same_inputs_def j2_def)
  have eq: "merge_loop step cur live (keep_record z b) (roll_output z env plan) s j =
      (if c3 = Ok then merge_loop step cur live (keep_record z b) (roll_output z env plan) s2 j3 else Some (c3, s2, j3))"
    using cur k k1(1) s1(1) s2(1) j3(1) by (subst merge_loop.simps) (simp add: j2_def)
  show ?thesis
  proof (cases "c3 = Ok")
    case False
    have "set (opened @ ?kept) \<subseteq> set (concat outs @ opened @ r # rs)" by auto
    then have "\<not> (always_writes z env R \<and> set (concat outs @ opened @ r # rs) \<subseteq> R)" using dn False by auto
    then show ?thesis using eq same j3(3,4) False by auto
  next
    case True
    with dn obtain outs3 opened3 where o3: "job_ok z dir (target_level plan) first d0 j3 outs3 opened3"
      "concat outs3 @ opened3 = concat outs @ opened @ ?kept" "length outs3 \<le> length outs + 1" by auto
    have d: "sorted_records ?d" "list_all storable ?d" "length ?d \<le> length rs"
      using 2(4,5) by (auto intro!: sorted_dropWhile simp: list_all_iff length_dropWhile_le dest: set_dropWhileD)
    have sub: "set ?d \<subseteq> set rs" by (auto dest: set_dropWhileD)
    have keys: "\<forall>x\<in>set (concat outs3 @ opened3). \<forall>y\<in>set ?d. key_entry x < key_entry y"
      unfolding o3(2) using dropped_greater [OF 2(4)] 2(6) sub by auto
    have more_room: "unat first + length outs3 + length ?d \<le> u32_max" if "unat first + length outs + length (r # rs) \<le> u32_max" using that o3(3) d(3) by simp
    from 2(1) [OF s2(2) o3(1) d(1,2) keys] obtain c s' j' where
      m: "merge_loop step cur live (keep_record z b) (roll_output z env plan) s2 j3 = Some (c, s', j')" "same_inputs j3 j'" "job_safe dir first d0 j' \<and> arena_fine j'"
      "always_writes z env R \<longrightarrow> set (concat outs3 @ opened3 @ ?d) \<subseteq> R \<longrightarrow> unat first + length outs3 + length ?d \<le> u32_max \<longrightarrow> c = Ok"
      "c = Ok \<longrightarrow> rest s' [] \<and> (\<exists>outs' opened'. job_ok z dir (target_level plan) first d0 j' outs' opened' \<and>
         concat outs' @ opened' = concat outs3 @ opened3 @ retain b ?d \<and> length outs' \<le> length outs3 + length ?d)" by blast
    have res: "concat outs3 @ opened3 @ retain b ?d = concat outs @ opened @ retain b (r # rs)" using o3(2) by (metis append.assoc retain.simps(2))
    have "length outs3 + length ?d \<le> length outs + length (r # rs)" using o3(3) d(3) by simp
    then have ok: "c = Ok \<longrightarrow> rest s' [] \<and> (\<exists>outs' opened'. job_ok z dir (target_level plan) first d0 j' outs' opened' \<and>
       concat outs' @ opened' = concat outs @ opened @ retain b (r # rs) \<and> length outs' \<le> length outs + length (r # rs))"
      using m(5) [unfolded res] by (meson le_trans)
    have "set (concat outs3 @ opened3 @ ?d) = set ((concat outs3 @ opened3) @ ?d)" by simp
    also have "\<dots> \<subseteq> set (concat outs @ opened @ r # rs)" unfolding o3(2) using sub by auto
    finally have "always_writes z env R \<longrightarrow> set (concat outs @ opened @ r # rs) \<subseteq> R \<longrightarrow> unat first + length outs + length (r # rs) \<le> u32_max \<longrightarrow> c = Ok" using m(4) more_room by blast
    moreover have "same_inputs j j'" using same m(2) by (simp add: same_inputs_def)
    ultimately show ?thesis using eq True m(1,3) ok by (intro exI [of _ c] exI [of _ s'] exI [of _ j']) simp
  qed
  qed
qed

end

section \<open>Opening the inputs\<close>

definition quiet_reads :: "job_env \<Rightarrow> bool" where
  "quiet_reads env \<longleftrightarrow> (\<forall>i. re_opened (je_load env i) = Ok \<and> ReadErr \<notin> set (re_reads (je_load env i)) \<and>
     re_opened (je_iter env i) = Ok \<and> ReadErr \<notin> set (re_reads (je_iter env i)))"

text \<open>The records of a planned table.\<close>

definition catalogued :: "(u32 \<rightharpoonup> InternalRecord list) \<Rightarrow> TableMeta \<Rightarrow> InternalRecord list \<Rightarrow> bool" where
  "catalogued cat m rs \<longleftrightarrow> unat (table_id m) \<le> u32_max \<and> cat (ucast (table_id m)) = Some rs"

definition inputs_ok :: "zlib \<Rightarrow> SSTableIterator list \<Rightarrow> InternalRecord list list \<Rightarrow> bool" where
  "inputs_ok z its rss \<longleftrightarrow> list_all2 (\<lambda>it rs. \<exists>sp. table_source z sp it rs) its rss"

lemma inputs_ok_specs:
  assumes "inputs_ok z its rss"
  obtains specs where "length specs = length its" "length rss = length its" "\<forall>i < length its. table_source z (specs ! i) (its ! i) (rss ! i)"
proof -
  have "\<forall>i < length its. \<exists>sp. table_source z sp (its ! i) (rss ! i)" using assms by (simp add: inputs_ok_def list_all2_conv_all_nth)
  then obtain g where g: "\<forall>i < length its. table_source z (g i) (its ! i) (rss ! i)" by metis
  show ?thesis by (rule that [of "map g [0..<length its]"]) (use g assms in \<open>simp_all add: inputs_ok_def list_all2_conv_all_nth\<close>)
qed

lemma get_pool_dom: "SSTableManager_get z env tid d (mgr, ar) = Some (r, mgr', ar') \<Longrightarrow> dom (sm_pool mgr') \<subseteq> insert tid (dom (sm_pool mgr))"
  by (auto simp: SSTableManager_get_def SSTableManager_open_id_def open_impl_def split: option.splits sum.splits)

lemma add_input_effect:
  assumes "crc_incremental z" "quiet_reads env" "pool_ok z (jb_disk j) cat (jb_mgr j)" "catalogued cat m rs" "inputs_ok z (jb_iters j) rss"
    "arena_ok (jb_arena j)" "never_oom (jb_arena j)"
  shows "\<exists>it mgr ar. add_input_table z env level m j = Some (Ok, j\<lparr>jb_mgr := mgr, jb_arena := ar, jb_iters := jb_iters j @ [it],
      jb_deleted := jb_deleted j @ [\<lparr>dt_level = level, dt_table_id = table_id m\<rparr>]\<rparr>) \<and>
    pool_ok z (jb_disk j) cat mgr \<and> sm_dir mgr = sm_dir (jb_mgr j) \<and> inputs_ok z (jb_iters j @ [it]) (rss @ [rs]) \<and> arena_ok ar \<and> never_oom ar \<and>
    dom (sm_pool mgr) \<subseteq> insert (ucast (table_id m)) (dom (sm_pool (jb_mgr j)))"
proof -
  let ?i = "table_id m" let ?p = "make_table_path (ucast ?i) (sm_dir (jb_mgr j))"
  have c: "unat ?i \<le> u32_max" "cat (ucast ?i) = Some rs" using assms(4) by (simp_all add: catalogued_def)
  have q: "re_opened (je_load env ?i) = Ok" "ReadErr \<notin> set (re_reads (je_load env ?i))" "re_opened (je_iter env ?i) = Ok" "ReadErr \<notin> set (re_reads (je_iter env ?i))"
    using assms(2) by (simp_all add: quiet_reads_def)
  obtain t mgr ar1 where t: "SSTableManager_get z (je_load env ?i) (ucast ?i) (jb_disk j) (jb_mgr j, jb_arena j) = Some (Inr t, mgr, ar1)"
    "stands_for z (jb_disk j) ?p rs t" "pool_ok z (jb_disk j) cat mgr" "sm_dir mgr = sm_dir (jb_mgr j)" "extends (jb_arena j) ar1" "never_oom ar1"
    using manager_get_opens [OF assms(1,3) c(2) q(1,2) assms(6,7)] by blast
  obtain D ds h bp mp where D: "jb_disk j ?p = Some D" "section_records ds = rs" "table_bytes z D ds h bp mp (tb_footer t)" "tb_final_path t = ?p"
    using t(2) unfolding stands_for_def by blast
  obtain f where f: "open_readable_file (je_iter env ?i) ?p (jb_disk j) = Inr f" "read_quiet D f"
    using open_quiet [where d = "jb_disk j" and p = ?p, OF D(1) table_bytesD(3) [OF D(3)] q(3,4)] by blast
  have "arena_ok ar1" using t(5) by (simp add: extends_def)
  from seek_source [OF assms(1) new_iterator_source [OF D(3) f(2)] this t(6)] obtain it ar2 where
    it: "SSTableIterator_seek_to_first z (SSTableIterator_new t f, ar1) = Some (Ok, it, ar2)" "\<exists>sp. table_source z sp it rs" "extends ar1 ar2" "never_oom ar2"
    using D(2) by blast
  have "inputs_ok z (jb_iters j @ [it]) (rss @ [rs])" using assms(5) it(2) by (auto simp: inputs_ok_def intro!: list_all2_appendI)
  then show ?thesis using t(1,3,4) c(1) D(4) f(1) it(1,3,4) get_pool_dom [OF t(1)]
    by (intro exI [of _ it] exI [of _ mgr] exI [of _ ar2]) (simp add: add_input_table_def Let_def extends_def)
qed

text \<open>The state after the inputs were added.\<close>

definition opened_job :: "zlib \<Rightarrow> (u32 \<rightharpoonup> InternalRecord list) \<Rightarrow> job \<Rightarrow> DeletedTable list \<Rightarrow> InternalRecord list list \<Rightarrow> job \<Rightarrow> bool" where
  "opened_job z cat j ds rss j' \<longleftrightarrow> jb_new j' = jb_new j \<and> jb_builder j' = jb_builder j \<and> jb_next_id j' = jb_next_id j \<and>
     jb_disk j' = jb_disk j \<and> jb_deleted j' = ds \<and>
     pool_ok z (jb_disk j) cat (jb_mgr j') \<and> sm_dir (jb_mgr j') = sm_dir (jb_mgr j) \<and> inputs_ok z (jb_iters j') rss \<and>
     arena_ok (jb_arena j') \<and> never_oom (jb_arena j') \<and>
     dom (sm_pool (jb_mgr j')) \<subseteq> dom (sm_pool (jb_mgr j)) \<union> (ucast \<circ> dt_table_id) ` set ds"

lemma add_inputs_effect:
  assumes "crc_incremental z" "quiet_reads env" "opened_job z cat j0 dts rss0 j" "list_all2 (catalogued cat) ms rss"
  shows "\<exists>j'. add_input_tables z env level ms j = Some (Ok, j') \<and>
    opened_job z cat j0 (dts @ map (\<lambda>m. \<lparr>dt_level = level, dt_table_id = table_id m\<rparr>) ms) (rss0 @ rss) j'"
  using assms(3,4)
proof (induction ms arbitrary: j dts rss0 rss)
  case Nil
  then show ?case by simp
next
  case (Cons m ms)
  obtain rs rss' where r: "rss = rs # rss'" "catalogued cat m rs" "list_all2 (catalogued cat) ms rss'" using Cons.prems(2) by (auto simp: list_all2_Cons1)
  note o = Cons.prems(1) [unfolded opened_job_def]
  have dj: "jb_disk j = jb_disk j0" "jb_deleted j = dts" using o by simp_all
  obtain it mgr ar where a: "add_input_table z env level m j = Some (Ok, j\<lparr>jb_mgr := mgr, jb_arena := ar, jb_iters := jb_iters j @ [it],
      jb_deleted := jb_deleted j @ [\<lparr>dt_level = level, dt_table_id = table_id m\<rparr>]\<rparr>)"
    "pool_ok z (jb_disk j) cat mgr" "sm_dir mgr = sm_dir (jb_mgr j)" "inputs_ok z (jb_iters j @ [it]) (rss0 @ [rs])" "arena_ok ar" "never_oom ar"
    "dom (sm_pool mgr) \<subseteq> insert (ucast (table_id m)) (dom (sm_pool (jb_mgr j)))"
    using add_input_effect [OF assms(1,2) _ r(2), of j rss0 level] o dj by auto
  have "dom (sm_pool mgr) \<subseteq> dom (sm_pool (jb_mgr j0)) \<union> (ucast \<circ> dt_table_id) ` set (dts @ [\<lparr>dt_level = level, dt_table_id = table_id m\<rparr>])"
  proof -
    have "dom (sm_pool (jb_mgr j)) \<subseteq> dom (sm_pool (jb_mgr j0)) \<union> (ucast \<circ> dt_table_id) ` set dts" using o by (elim conjE)
    then show ?thesis using subset_trans [OF a(7), of "insert (ucast (table_id m)) (dom (sm_pool (jb_mgr j0)) \<union> (ucast \<circ> dt_table_id) ` set dts)"]
      by (simp add: subset_insertI2)
  qed
  then have "opened_job z cat j0 (dts @ [\<lparr>dt_level = level, dt_table_id = table_id m\<rparr>]) (rss0 @ [rs]) (j\<lparr>jb_mgr := mgr, jb_arena := ar, jb_iters := jb_iters j @ [it],
      jb_deleted := jb_deleted j @ [\<lparr>dt_level = level, dt_table_id = table_id m\<rparr>]\<rparr>)"
    using a o dj unfolding opened_job_def by simp
  from Cons.IH [OF this r(3)] show ?case using a(1) r(1) by simp
qed

section \<open>The whole run\<close>

lemma valid_payload_storable: "DataPayload_validate p = Ok \<Longrightarrow> storable (record_of p)"
  by (auto simp: DataPayload_validate_def storable_def record_of_def payload_disk_size_def is_valid_payload_type_def type_to_u8_def type_of_u8_def BLOCK_SIZE_def split: if_splits)

lemma section_storable: "section_ok z ds \<Longrightarrow> list_all storable (section_records ds)"
  by (auto simp: section_ok_def block_ok_def block_list_ok_def section_records_def section_payloads_def list_all_iff intro!: valid_payload_storable)

lemma inputs_storable: "inputs_ok z its rss \<Longrightarrow> list_all storable (concat rss)"
proof -
  assume i: "inputs_ok z its rss"
  have "list_all storable rs" if "rs \<in> set rss" for rs
  proof -
    obtain k where "k < length rss" "rss ! k = rs" using \<open>rs \<in> set rss\<close> by (auto simp: in_set_conv_nth)
    then obtain it sp where "table_source z sp it rs" using i unfolding inputs_ok_def list_all2_conv_all_nth by metis
    then show ?thesis using section_storable table_bytesD(1) by (fastforce simp: table_source_def)
  qed
  then show ?thesis by (auto simp: list_all_iff)
qed

lemma merges_status: "merges z specs mg rs \<Longrightarrow> first_bad_status (mg_inputs mg) = Ok"
proof -
  assume m: "merges z specs mg rs"
  have "it_status it = Ok" if "it \<in> set (mg_inputs mg)" for it
  proof -
    obtain k where k: "k < length (mg_inputs mg)" "mg_inputs mg ! k = it" using \<open>it \<in> set (mg_inputs mg)\<close> by (auto simp: in_set_conv_nth)
    obtain rss where "length rss = length (mg_inputs mg)" "\<forall>i < length rss. reads_source z (specs ! i) (mg_inputs mg ! i) (rss ! i)"
      using m unfolding merges_def by blast
    then have "reads_source z (specs ! k) it (rss ! k)" using k by auto
    then show ?thesis by (rule reads_source_facts(3))
  qed
  then have "List.find (\<lambda>it. \<not> is_ok (it_status it)) (mg_inputs mg) = None" by (auto simp: find_None_iff)
  then show ?thesis by (simp add: first_bad_status_def)
qed

lemma cleanup_frame: "(\<And>m. m \<in> set ms \<Longrightarrow> path_of_bytes (tm_path m) \<noteq> p) \<Longrightarrow> cleanup_finished_outputs env ms d p = d p"
proof -
  have "(\<And>m. m \<in> set ms \<Longrightarrow> path_of_bytes (tm_path m) \<noteq> p) \<Longrightarrow>
    fold (\<lambda>m d. if tm_path m = [] \<or> \<not> je_remove_ok env (path_of_bytes (tm_path m)) then d else d(path_of_bytes (tm_path m) := None)) ms d p = d p" for d
    by (induction ms arbitrary: d) auto
  then show "(\<And>m. m \<in> set ms \<Longrightarrow> path_of_bytes (tm_path m) \<noteq> p) \<Longrightarrow> ?thesis" by (simp add: cleanup_finished_outputs_def)
qed

lemma pool_ok_frame:
  assumes "pool_ok z d cat mgr" "\<And>tid. cat tid \<noteq> None \<Longrightarrow> d' (make_table_path tid (sm_dir mgr)) = d (make_table_path tid (sm_dir mgr))"
  shows "pool_ok z d' cat mgr"
  using assms by (auto simp: pool_ok_def on_disk_def stands_for_def)

text \<open>The edit replaces the inputs \<open>rss\<close> by the outputs, which hold the retained records in order.\<close>

definition deletes_inputs :: "CompactionPlan \<Rightarrow> DeletedTable list" where
  "deletes_inputs plan = map (\<lambda>m. \<lparr>dt_level = source_level plan, dt_table_id = table_id m\<rparr>) (source_tables plan) @
     map (\<lambda>m. \<lparr>dt_level = target_level plan, dt_table_id = table_id m\<rparr>) (overlapping_tables plan)"

definition replaces_inputs :: "zlib \<Rightarrow> string \<Rightarrow> CompactionPlan \<Rightarrow> u64 \<Rightarrow> disk \<Rightarrow> InternalRecord list \<Rightarrow> VersionEdit \<Rightarrow> bool" where
  "replaces_inputs z dir plan first d rs edit \<longleftrightarrow> (\<exists>outs. let p = edit_payload edit in
     outputs_ok z dir (target_level plan) first d (new_tables p) outs \<and> concat outs = rs \<and> deleted_tables p = deletes_inputs plan \<and>
     edit_next_sequence_number p = None \<and> edit_current_wal_id p = None \<and>
     (case edit_next_table_id p of None \<Rightarrow> outs = [] | Some i \<Rightarrow> unat i = unat first + length outs))"

text \<open>The tail of the run, once the inputs are open.\<close>

lemma merge_inputs_effect:
  assumes z: "crc_incremental z" and inp: "inputs_ok z (jb_iters j) rss" "jb_iters j \<noteq> []" "distinct (map ikey (concat rss))"
    and inv: "job_ok z dir (target_level plan) first d0 j [] []"
    and del: "jb_deleted j = deletes_inputs plan" "deletes_inputs plan \<noteq> []"
  shows "\<exists>r d' ar'. merge_inputs z env plan b first j = Some (r, jb_mgr j, d', ar') \<and> (\<forall>p. \<not> output_path dir first p \<longrightarrow> d' p = d0 p) \<and>
    arena_ok ar' \<and> never_oom ar' \<and>
    (case r of Inl e \<Rightarrow> e \<noteq> Ok \<and> \<not> (always_writes z env (set (concat rss)) \<and> unat first + length (concat rss) \<le> u32_max) | Inr None \<Rightarrow> False
     | Inr (Some edit) \<Rightarrow> replaces_inputs z dir plan first d' (retain b (merged rss)) edit)"
proof -
  have ar: "arena_ok (jb_arena j)" "never_oom (jb_arena j)" using inv by (simp_all add: job_ok_def)
  obtain specs where sp: "length specs = length (jb_iters j)" "length rss = length (jb_iters j)" "\<forall>i < length (jb_iters j). table_source z (specs ! i) (jb_iters j ! i) (rss ! i)"
    using inputs_ok_specs [OF inp(1)] .
  obtain mg ar1 where mg: "MergeIterator_build z (jb_iters j) (MergeIterator_new, jb_arena j) = Some (Ok, mg, ar1)" "merges z specs mg (merged rss)"
    "extends (jb_arena j) ar1" "never_oom ar1"
    using MergeIterator_build_merges [OF z sp ar inp(3)] by blast
  have j1: "job_ok z dir (target_level plan) first d0 (j\<lparr>jb_arena := ar1\<rparr>) [] []" using job_ok_arena [OF inv] mg(3,4) by (simp add: extends_def)
  have srt: "sorted_records (merged rss)" "list_all storable (merged rss)"
    using merged_sorted [OF inp(3)] inputs_storable [OF inp(1)] by (auto simp: list_all_iff)
  have "\<forall>x\<in>set (concat [] @ []). \<forall>r\<in>set (merged rss). key_entry x < key_entry r" by simp
  from merge_cursor.merge_loop_outputs [OF mg(2) j1 srt(1,2) this, of b env "set (concat rss)"] obtain c mg' j2 where
    l: "merge_loop (MergeIterator_next z) MergeIterator_record mg_valid (keep_record z b) (roll_output z env plan) mg (j\<lparr>jb_arena := ar1\<rparr>) = Some (c, mg', j2)"
    "same_inputs (j\<lparr>jb_arena := ar1\<rparr>) j2" "job_safe dir first d0 j2"
    "always_writes z env (set (concat rss)) \<longrightarrow> set (merged rss) \<subseteq> set (concat rss) \<longrightarrow> unat first + length ([] :: InternalRecord list list) + length (merged rss) \<le> u32_max \<longrightarrow> c = Ok"
    "c = Ok \<longrightarrow> merges z specs mg' [] \<and> (\<exists>outs' opened'. job_ok z dir (target_level plan) first d0 j2 outs' opened' \<and> concat outs' @ opened' = retain b (merged rss))" "arena_fine j2"
    unfolding concat.simps append_Nil by blast
  have failing: "\<exists>d' ar'. fail_job env e j' = Some (Inl e, jb_mgr j, d', ar') \<and> (\<forall>p. \<not> output_path dir first p \<longrightarrow> d' p = d0 p) \<and> arena_ok ar' \<and> never_oom ar'"
    if "job_safe dir first d0 j'" "same_inputs (j\<lparr>jb_arena := ar1\<rparr>) j'" "arena_fine j'" for e j'
  proof -
    have "cleanup_finished_outputs env (jb_new j') (jb_disk j') p = d0 p" if "\<not> output_path dir first p" for p
      using \<open>job_safe dir first d0 j'\<close> that by (subst cleanup_frame) (auto simp: job_safe_def)
    then show ?thesis using \<open>same_inputs (j\<lparr>jb_arena := ar1\<rparr>) j'\<close> \<open>arena_fine j'\<close> by (simp add: fail_job_def same_inputs_def arena_fine_def)
  qed
  show ?thesis
  proof (cases "c = Ok")
    case False
    then show ?thesis using failing [OF l(3,2,6), of c] inp(2) mg(1) l(1,4) by (auto simp: merge_inputs_def)
  next
    case True
    with l(5) obtain outs2 opened2 where o: "merges z specs mg' []" "job_ok z dir (target_level plan) first d0 j2 outs2 opened2" "concat outs2 @ opened2 = retain b (merged rss)" by blast
    from finish_effect [OF o(2), of env "set (concat rss)"] obtain c3 j3 where
      f: "finish_current_output z env plan j2 = Some (c3, j3)" "same_inputs j2 j3" "job_safe dir first d0 j3"
      "if c3 = Ok then \<exists>outs'. job_ok z dir (target_level plan) first d0 j3 outs' [] \<and> concat outs' = concat outs2 @ opened2 \<and> length outs' \<le> length outs2 + 1
       else jb_new j3 = jb_new j2 \<and> \<not> (always_writes z env (set (concat rss)) \<and> set opened2 \<subseteq> set (concat rss))" "arena_fine j3"
      by blast
    have same: "same_inputs (j\<lparr>jb_arena := ar1\<rparr>) j3" using l(2) f(2) by (simp add: same_inputs_def)
    have eq: "merge_inputs z env plan b first j = (if c3 = Ok then Some (Inr (job_edit first j3), jb_mgr j3, jb_disk j3, jb_arena j3) else fail_job env c3 j3)"
      using inp(2) mg(1) l(1) True f(1) merges_status [OF o(1)] by (simp add: merge_inputs_def)
    show ?thesis
    proof (cases "c3 = Ok")
      case False
      have "set opened2 \<subseteq> set (retain b (merged rss))" unfolding o(3) [symmetric] by auto
      then have "set opened2 \<subseteq> set (concat rss)" using retain_subset [of b "merged rss"] by simp
      then show ?thesis using failing [OF f(3) same f(5), of c3] eq False f(4) by auto
    next
      case ok: True
      with f(4) o(3) obtain outs3 where o3: "job_ok z dir (target_level plan) first d0 j3 outs3 []" "concat outs3 = retain b (merged rss)" by auto
      have "jb_builder j3 = None" using o3(1) by (auto simp: job_ok_def builder_ok_def split: option.splits)
      then have n: "unat (jb_next_id j3) = unat first + length outs3" using o3(1) by (simp add: job_ok_def builder_ok_def)
      then have "jb_next_id j3 = first \<longleftrightarrow> outs3 = []" by (auto simp: word_unat_eq_iff)
      moreover have "jb_deleted j3 = deletes_inputs plan" using same del(1) by (simp add: same_inputs_def)
      ultimately have "\<exists>edit. job_edit first j3 = Some edit \<and> replaces_inputs z dir plan first (jb_disk j3) (retain b (merged rss)) edit"
        using o3 n del(2) by (auto simp: job_edit_def replaces_inputs_def job_ok_def)
      then show ?thesis using eq ok same f(3,5) by (auto simp: same_inputs_def job_safe_def arena_fine_def)
    qed
  qed
qed

lemma run_effect:
  assumes z: "crc_incremental z" and rd: "quiet_reads env" and pool: "pool_ok z d cat mgr" "list_all2 (catalogued cat) (planned plan) rss" and ikeys: "distinct (map ikey (concat rss))"
    and plan: "CompactionPlan_validate plan" "plan_is_current plan lm" and dir: "length (sm_dir mgr) \<le> 50000" and ar: "arena_ok ar" "never_oom ar"
    and room: "unat (sc_next_table_id (m_counters mf)) \<le> u32_max + 1"
  defines "first \<equiv> sc_next_table_id (m_counters mf)"
  defines "b \<equiv> is_bottommost_destination lm (target_level plan)"
  shows "\<exists>r mgr' d' ar'. CompactionJob_run z env plan lm mf (mgr, d, ar) = Some (r, mgr', d', ar') \<and> sm_dir mgr' = sm_dir mgr \<and> pool_ok z d cat mgr' \<and>
    dom (sm_pool mgr') \<subseteq> dom (sm_pool mgr) \<union> (ucast \<circ> table_id) ` set (planned plan) \<and> arena_ok ar' \<and> never_oom ar' \<and>
    (\<forall>p. \<not> output_path (sm_dir mgr) first p \<longrightarrow> d' p = d p) \<and>
    (case r of Inl e \<Rightarrow> e \<noteq> Ok \<and> \<not> (always_writes z env (set (concat rss)) \<and> unat first + length (concat rss) \<le> u32_max) | Inr None \<Rightarrow> False
     | Inr (Some edit) \<Rightarrow> replaces_inputs z (sm_dir mgr) plan first d' (retain b (merged rss)) edit)"
proof -
  define j0 where "j0 = \<lparr>jb_deleted = [], jb_new = [], jb_iters = [], jb_builder = None, jb_next_id = first, jb_mgr = mgr, jb_disk = d, jb_arena = ar\<rparr>"
  have o0: "opened_job z cat j0 [] [] j0" using pool(1) ar by (simp add: opened_job_def j0_def inputs_ok_def)
  obtain rss1 rss2 where r: "rss = rss1 @ rss2" "list_all2 (catalogued cat) (source_tables plan) rss1" "list_all2 (catalogued cat) (overlapping_tables plan) rss2"
    using pool(2) by (auto simp: planned_def list_all2_append1)
  obtain j1 where j1: "add_input_tables z env (source_level plan) (source_tables plan) j0 = Some (Ok, j1)"
    "opened_job z cat j0 (map (\<lambda>m. \<lparr>dt_level = source_level plan, dt_table_id = table_id m\<rparr>) (source_tables plan)) rss1 j1"
    using add_inputs_effect [OF z rd o0 r(2)] by auto
  obtain j2 where j2: "add_input_tables z env (target_level plan) (overlapping_tables plan) j1 = Some (Ok, j2)" "opened_job z cat j0 (deletes_inputs plan) rss j2"
    using add_inputs_effect [OF z rd j1(2) r(3)] r(1) by (auto simp: deletes_inputs_def)
  have ne: "source_tables plan \<noteq> []" using plan(1) by (auto simp: CompactionPlan_validate_def)
  then have "rss \<noteq> []" using r by auto
  then have its: "jb_iters j2 \<noteq> []" "inputs_ok z (jb_iters j2) rss" using j2(2) by (auto simp: opened_job_def inputs_ok_def)
  have inv: "job_ok z (sm_dir mgr) (target_level plan) first d j2 [] []"
    using j2(2) dir room by (simp add: opened_job_def j0_def job_ok_def job_safe_def outputs_ok_def builder_ok_def first_def)
  have "deletes_inputs plan \<noteq> []" using ne by (simp add: deletes_inputs_def)
  moreover have "jb_deleted j2 = deletes_inputs plan" "sm_dir (jb_mgr j2) = sm_dir mgr" "pool_ok z d cat (jb_mgr j2)" using j2(2) by (simp_all add: opened_job_def j0_def)
  moreover have "dom (sm_pool (jb_mgr j2)) \<subseteq> dom (sm_pool mgr) \<union> (ucast \<circ> table_id) ` set (planned plan)"
    using j2(2) unfolding opened_job_def by (auto simp: j0_def deletes_inputs_def planned_def)
  moreover have "CompactionJob_run z env plan lm mf (mgr, d, ar) = merge_inputs z env plan b first j2"
    using plan j1(1) j2(1) by (simp add: CompactionJob_run_def Let_def j0_def first_def b_def)
  ultimately show ?thesis using merge_inputs_effect [OF z its(2,1) ikeys inv, of env b] by auto
qed

section \<open>Safety on any device\<close>

text \<open>Whatever the device answers, only files of new tables change.\<close>

definition job_calm :: "zlib \<Rightarrow> string \<Rightarrow> u64 \<Rightarrow> disk \<Rightarrow> job \<Rightarrow> bool" where
  "job_calm z dir first d0 j \<longleftrightarrow> job_safe dir first d0 j \<and> sm_dir (jb_mgr j) = dir \<and> unat first \<le> unat (jb_next_id j) \<and>
     (\<forall>b. jb_builder j = Some b \<longrightarrow> (\<exists>i rs. unat first \<le> unat i \<and> builder_holds z (make_tmp_table_path i dir) (make_table_path i dir) i b rs))"

lemma job_calm_arena [simp]: "job_calm z dir first d0 (j\<lparr>jb_arena := ar\<rparr>) \<longleftrightarrow> job_calm z dir first d0 j"
  by (simp add: job_calm_def job_safe_def)

lemma make_table_meta_path: "make_table_meta t level ar = Some (Inr m, ar') \<Longrightarrow> path_of_bytes (tm_path m) = tb_path t"
  by (auto simp: make_table_meta_def Let_def split: prod.splits sum.splits if_splits)

lemma builder_finish_frame:
  assumes "builder_holds z p q tid t rs" "builder_finish z env level (t, d, ar) = Some (r, t', d', ar')"
  shows "\<forall>x. x \<noteq> p \<longrightarrow> x \<noteq> q \<longrightarrow> d' x = d x" "r = Inr (Some m) \<Longrightarrow> path_of_bytes (tm_path m) = q"
proof -
  have ok: "section_ok z (tb_data t)" "tb_path t = p" "tb_final_path t = q" using assms(1) by (simp_all add: builder_holds_def)
  have *: "(\<forall>x. x \<noteq> p \<longrightarrow> x \<noteq> q \<longrightarrow> d' x = d x) \<and> (\<forall>m. r = Inr (Some m) \<longrightarrow> path_of_bytes (tm_path m) = q)"
  proof (cases "builder_empty t")
    case True
    then show ?thesis using assms(2) by (auto simp: builder_finish_def)
  next
    case False
    then have ne: "data_blocks (tb_data t) \<noteq> []" by (simp add: builder_empty_def)
    obtain c t1 d1 where w: "SSTable_write z env (t, d) = (c, t1, d1)" by (metis prod_cases3)
    note e = SSTable_write_effect [OF ok(1) ne w]
    have "d' = d1" using assms(2) False w by (auto simp: builder_finish_def split: if_splits option.splits sum.splits prod.splits)
    moreover have "\<forall>x. x \<noteq> p \<longrightarrow> x \<noteq> q \<longrightarrow> d1 x = d x" using e ok(2,3) by (auto split: if_splits)
    moreover have "path_of_bytes (tm_path m) = q" if "r = Inr (Some m)" for m
    proof -
      have "c = Ok" "make_table_meta t1 level ar = Some (Inr m, ar')"
        using assms(2) False w that by (auto simp: builder_finish_def split: if_splits option.splits sum.splits prod.splits)
      then show ?thesis using make_table_meta_path e ok(3) by (auto split: if_splits)
    qed
    ultimately show ?thesis by blast
  qed
  then show "\<forall>x. x \<noteq> p \<longrightarrow> x \<noteq> q \<longrightarrow> d' x = d x" "r = Inr (Some m) \<Longrightarrow> path_of_bytes (tm_path m) = q" by blast+
qed

lemma alloc_error: "alloc n al a = (Inl e, b) \<Longrightarrow> e \<noteq> Ok"
proof -
  have up: "align_up x al \<noteq> Inl Ok" for x by (auto simp: align_up_def Let_def)
  have small: "bump_last n al a = (Inl e, b) \<Longrightarrow> e \<noteq> Ok" "fits_in p n al = Inl e \<Longrightarrow> e \<noteq> Ok" for a b e p
    using up by (auto simp: bump_last_def fits_in_def Let_def split: sum.splits if_splits)
  show "alloc n al a = (Inl e, b) \<Longrightarrow> e \<noteq> Ok"
    by (auto simp: alloc_def alloc_large_def alloc_small_def alloc_page_def small split: if_splits prod.splits sum.splits)
qed

lemma make_table_meta_error: "make_table_meta t level ar = Some (Inl e, ar') \<Longrightarrow> e \<noteq> Ok"
  by (auto simp: make_table_meta_def arena_make_entry_def arena_copy_bytes_def Let_def dest: alloc_error split: prod.splits sum.splits if_splits)

lemma builder_finish_error: "builder_finish z env level s = Some (Inl e, s') \<Longrightarrow> e \<noteq> Ok"
  by (auto simp: builder_finish_def dest: make_table_meta_error split: prod.splits if_splits option.splits sum.splits)

lemma finish_safe:
  assumes "job_calm z dir first d0 j" "finish_current_output z env plan j = Some (c, j')"
  shows "job_safe dir first d0 j'" "c = Ok \<Longrightarrow> job_calm z dir first d0 j'" "jb_mgr j' = jb_mgr j"
proof -
  have *: "job_safe dir first d0 j' \<and> (c = Ok \<longrightarrow> job_calm z dir first d0 j') \<and> jb_mgr j' = jb_mgr j"
  proof (cases "jb_builder j")
    case None
    then show ?thesis using assms by (auto simp: finish_current_output_def job_calm_def)
  next
    case (Some b)
    then obtain i rs where b: "unat first \<le> unat i" "builder_holds z (make_tmp_table_path i dir) (make_table_path i dir) i b rs"
      using assms(1) by (auto simp: job_calm_def)
    have io: "output_path dir first (make_tmp_table_path i dir)" "output_path dir first (make_table_path i dir)" using b(1) unfolding output_path_def by blast+
    show ?thesis
    proof (cases "builder_empty b")
      case True
      then show ?thesis using assms Some by (auto simp: finish_current_output_def job_calm_def job_safe_def)
    next
      case False
      define we where "we = je_write env (ucast (fh_table_id (tb_header b)))"
      obtain r b' d' ar' where f: "builder_finish z we (target_level plan) (b, jb_disk j, jb_arena j) = Some (r, b', d', ar')"
        using assms(2) Some False by (auto simp: finish_current_output_def we_def split: option.splits)
      note fr = builder_finish_frame [OF b(2) f]
      have err: "r \<noteq> Inl Ok" using builder_finish_error f by blast
      have d: "d' x = d0 x" if "\<not> output_path dir first x" for x
      proof -
        have "x \<noteq> make_tmp_table_path i dir" "x \<noteq> make_table_path i dir" using io that by auto
        then have "d' x = jb_disk j x" using fr(1) [rule_format, of x] by simp
        then show ?thesis using assms(1) that by (simp add: job_calm_def job_safe_def)
      qed
      have calm: "sm_dir (jb_mgr j) = dir" "unat first \<le> unat (jb_next_id j)" "\<forall>m\<in>set (jb_new j). output_path dir first (path_of_bytes (tm_path m))"
        using assms(1) by (simp_all add: job_calm_def job_safe_def)
      show ?thesis
        using assms(2) Some False f fr(2) d calm io(2) err
        by (auto simp: finish_current_output_def we_def [symmetric] Let_def job_calm_def job_safe_def split: sum.splits option.splits)
    qed
  qed
  then show "job_safe dir first d0 j'" "c = Ok \<Longrightarrow> job_calm z dir first d0 j'" "jb_mgr j' = jb_mgr j" by blast+
qed

lemma start_safe:
  assumes "job_calm z dir first d0 j" "start_new_output z j = (c, j')"
  shows "job_calm z dir first d0 j' \<and> (c = Ok \<longrightarrow> jb_builder j' \<noteq> None) \<and> jb_mgr j' = jb_mgr j"
proof (cases "jb_builder j \<noteq> None \<or> unat (jb_next_id j) > u32_max")
  case True
  then show ?thesis using assms by (auto simp: start_new_output_def split: if_splits)
next
  case False
  have n: "unat (ucast (jb_next_id j) :: u32) = unat (jb_next_id j)" using False by (simp add: unsigned_ucast_eq take_bit_nat_eq_self_iff)
  have "unat (jb_next_id j) \<le> unat (jb_next_id j + 1)" using False by (subst unat_add_lem [THEN iffD1]) simp_all
  then show ?thesis using assms False n builder_new_holds
    by (auto simp: start_new_output_def job_calm_def job_safe_def create_streaming_builder_def intro!: exI [of _ "ucast (jb_next_id j)"] exI [of _ "[]"])
qed

lemma keep_record_safe:
  assumes "job_calm z dir first d0 j" "keep_record z b r j = (c, j')"
  shows "job_calm z dir first d0 j'" "jb_mgr j' = jb_mgr j"
proof -
  obtain c1 j1 where s: "(if jb_builder j = None then start_new_output z j else (Ok, j)) = (c1, j1)" by fastforce
  have j1: "job_calm z dir first d0 j1" "c1 = Ok \<Longrightarrow> jb_builder j1 \<noteq> None" "jb_mgr j1 = jb_mgr j"
    using start_safe [OF assms(1)] s assms(1) by (auto split: if_splits)
  have *: "job_calm z dir first d0 j' \<and> jb_mgr j' = jb_mgr j"
  proof (cases "compaction_keep_newest_record (rtype r) b \<and> c1 = Ok")
    case False
    then show ?thesis using assms j1 by (auto simp: keep_record_def s split: if_splits)
  next
    case True
    then obtain t where t: "jb_builder j1 = Some t" using j1(2) by blast
    then obtain i rs where b: "unat first \<le> unat i" "builder_holds z (make_tmp_table_path i dir) (make_table_path i dir) i t rs"
      using j1(1) by (auto simp: job_calm_def)
    obtain c2 t2 where a: "builder_add z r t = (c2, t2)" by fastforce
    have "\<exists>rs. builder_holds z (make_tmp_table_path i dir) (make_table_path i dir) i t2 rs" using builder_add_effect [OF b(2) a] b(2) by (auto split: if_splits)
    moreover have "j' = j1\<lparr>jb_builder := Some t2\<rparr>" using assms(2) True s t a by (simp add: keep_record_def)
    ultimately show ?thesis using j1(1,3) b(1) by (auto simp: job_calm_def job_safe_def)
  qed
  then show "job_calm z dir first d0 j'" "jb_mgr j' = jb_mgr j" by blast+
qed

lemma roll_safe:
  assumes "job_calm z dir first d0 j" "roll_output z env plan j = Some (c, j')"
  shows "job_safe dir first d0 j'" "c = Ok \<Longrightarrow> job_calm z dir first d0 j'" "jb_mgr j' = jb_mgr j"
  using assms finish_safe [OF assms(1)] by (auto simp: roll_output_def job_calm_def split: option.splits if_splits)

lemma merge_loop_safe:
  fixes step :: "'s stepper"
  assumes "merge_loop step cur live (keep_record z b) (roll_output z env plan) s j = Some (c, s', j')" "job_calm z dir first d0 j"
  shows "job_safe dir first d0 j' \<and> (c = Ok \<longrightarrow> job_calm z dir first d0 j') \<and> jb_mgr j' = jb_mgr j"
proof -
  define P where "P = (\<lambda>(step :: 's stepper) (cur :: 's \<Rightarrow> InternalRecord) (live :: 's \<Rightarrow> bool) keep roll (s :: 's) j (y :: StatusCode \<times> 's \<times> job).
    keep = keep_record z b \<longrightarrow> roll = roll_output z env plan \<longrightarrow> job_calm z dir first d0 j \<longrightarrow>
    job_safe dir first d0 (snd (snd y)) \<and> (fst y = Ok \<longrightarrow> job_calm z dir first d0 (snd (snd y))) \<and> jb_mgr (snd (snd y)) = jb_mgr j)"
  have "P step cur live (keep_record z b) (roll_output z env plan) s j (c, s', j')"
  proof (rule merge_loop.raw_induct [of P, OF _ assms(1)])
    fix loop and step :: "'s stepper" and cur live keep roll s j and y :: "StatusCode \<times> 's \<times> job"
    assume IH: "\<And>step cur live keep roll s j y. loop step cur live keep roll s j = Some y \<Longrightarrow> P step cur live keep roll s j y"
      and body: "(if live s then case keep (cur s) j of (c, j1) \<Rightarrow> if \<not> is_ok c then Some (c, s, j1)
         else (case step (s, jb_arena j1) of None \<Rightarrow> None
               | Some (x, s1, ar1) \<Rightarrow> (case skip_key step cur live (key_entry (cur s)) s1 ar1 of None \<Rightarrow> None
                  | Some (s2, ar2) \<Rightarrow> (case roll (j1\<lparr>jb_arena := ar2\<rparr>) of None \<Rightarrow> None
                     | Some (c, j2) \<Rightarrow> if \<not> is_ok c then Some (c, s2, j2) else loop step cur live keep roll s2 j2)))
         else Some (Ok, s, j)) = Some y"
    show "P step cur live keep roll s j y"
      unfolding P_def
    proof (intro impI)
      assume kr: "keep = keep_record z b" "roll = roll_output z env plan" and calm: "job_calm z dir first d0 j"
      obtain c1 j1 where k: "keep (cur s) j = (c1, j1)" by fastforce
      have j1: "job_calm z dir first d0 j1" "jb_mgr j1 = jb_mgr j" using keep_record_safe [OF calm] k kr(1) by auto
      show "job_safe dir first d0 (snd (snd y)) \<and> (fst y = Ok \<longrightarrow> job_calm z dir first d0 (snd (snd y))) \<and> jb_mgr (snd (snd y)) = jb_mgr j"
      proof (cases "live s \<and> c1 = Ok")
        case False
        then show ?thesis using body k j1 calm by (auto simp: job_calm_def split: if_splits)
      next
        case True
        then obtain s1 ar1 s2 ar2 c2 j2 x where st: "roll (j1\<lparr>jb_arena := ar2\<rparr>) = Some (c2, j2)"
          "y = (c2, s2, j2) \<and> c2 \<noteq> Ok \<or> c2 = Ok \<and> loop step cur live keep roll s2 j2 = Some y"
          using body k by (auto split: option.splits if_splits)
        have "job_calm z dir first d0 (j1\<lparr>jb_arena := ar2\<rparr>)" using j1(1) by simp
        from roll_safe [OF this st(1) [unfolded kr(2)]] have r: "job_safe dir first d0 j2" "c2 = Ok \<Longrightarrow> job_calm z dir first d0 j2" "jb_mgr j2 = jb_mgr j"
          using j1(2) by simp_all
        from st(2) show ?thesis using r IH [unfolded P_def, of step cur live keep roll s2 j2 y] kr by auto
      qed
    qed
  qed
  then show ?thesis using assms(2) by (simp add: P_def)
qed

lemma manager_get_dir: "SSTableManager_get z env tid d (mgr, ar) = Some (r, mgr', ar') \<Longrightarrow> sm_dir mgr' = sm_dir mgr"
  by (auto simp: SSTableManager_get_def SSTableManager_open_id_def open_impl_def split: option.splits prod.splits sum.splits)

lemma add_input_safe:
  "job_calm z dir first d0 j \<Longrightarrow> add_input_table z env level m j = Some (c, j') \<Longrightarrow> job_calm z dir first d0 j'"
  by (auto simp: add_input_table_def Let_def job_calm_def job_safe_def split: if_splits option.splits prod.splits sum.splits dest!: manager_get_dir)

lemma add_inputs_safe:
  "add_input_tables z env level ms j = Some (c, j') \<Longrightarrow> job_calm z dir first d0 j \<Longrightarrow> job_calm z dir first d0 j'"
proof (induction ms arbitrary: j)
  case (Cons m ms)
  then show ?case using add_input_safe [OF Cons.prems(2)] by (auto split: option.splits if_splits)
qed simp

lemma fail_job_safe:
  assumes "job_safe dir first d0 j" "fail_job env e j = Some (r, mgr', d', ar')" "\<not> output_path dir first p"
  shows "d' p = d0 p"
proof -
  have "d' p = cleanup_finished_outputs env (jb_new j) (jb_disk j) p" using assms(2) by (simp add: fail_job_def)
  also have "\<dots> = jb_disk j p" using assms(1,3) by (intro cleanup_frame) (auto simp: job_safe_def)
  finally show ?thesis using assms(1,3) by (simp add: job_safe_def)
qed

lemma merge_inputs_safe:
  assumes "job_calm z dir first d0 j" "merge_inputs z env plan b fid j = Some (r, mgr', d', ar')" "\<not> output_path dir first p"
  shows "d' p = d0 p"
proof (cases "jb_iters j = []")
  case True
  then show ?thesis using assms by (auto simp: merge_inputs_def job_calm_def job_safe_def)
next
  case False
  then obtain x mg ar c mg' j1 where m: "MergeIterator_build z (jb_iters j) (MergeIterator_new, jb_arena j) = Some (x, mg, ar)"
    "merge_loop (MergeIterator_next z) MergeIterator_record mg_valid (keep_record z b) (roll_output z env plan) mg (j\<lparr>jb_arena := ar\<rparr>) = Some (c, mg', j1)"
    using assms(2) by (auto simp: merge_inputs_def split: option.splits)
  have l: "job_safe dir first d0 j1" "c = Ok \<Longrightarrow> job_calm z dir first d0 j1"
    using merge_loop_safe [OF m(2)] assms(1) by auto
  show ?thesis
  proof (cases "c = Ok \<and> first_bad_status (mg_inputs mg') = Ok")
    case False
    then obtain e where "fail_job env e j1 = Some (r, mgr', d', ar')" using assms(2) \<open>jb_iters j \<noteq> []\<close> m by (auto simp: merge_inputs_def Let_def split: if_splits)
    from fail_job_safe [OF l(1) this assms(3)] show ?thesis .
  next
    case True
    then obtain c2 j2 where f: "finish_current_output z env plan j1 = Some (c2, j2)"
      "c2 \<noteq> Ok \<and> fail_job env c2 j2 = Some (r, mgr', d', ar') \<or> d' = jb_disk j2"
      using assms(2) False m by (auto simp: merge_inputs_def Let_def split: option.splits if_splits)
    have s2: "job_safe dir first d0 j2" using finish_safe(1) [OF _ f(1)] l(2) True by blast
    from f(2) show ?thesis using fail_job_safe [OF s2 _ assms(3)] s2 assms(3) by (auto simp: job_safe_def)
  qed
qed

lemma run_safe:
  assumes "CompactionJob_run z env plan lm mf (mgr, d, ar) = Some (r, mgr', d', ar')" "\<not> output_path (sm_dir mgr) (sc_next_table_id (m_counters mf)) p"
  shows "d' p = d p"
proof (cases "CompactionPlan_validate plan \<and> plan_is_current plan lm")
  case False
  then show ?thesis using assms(1) by (cases "CompactionPlan_validate plan") (simp_all add: CompactionJob_run_def)
next
  case True
  define first where "first = sc_next_table_id (m_counters mf)"
  define j0 where "j0 = \<lparr>jb_deleted = [], jb_new = [], jb_iters = [], jb_builder = None, jb_next_id = first, jb_mgr = mgr, jb_disk = d, jb_arena = ar\<rparr>"
  have c0: "job_calm z (sm_dir mgr) first d j0" by (simp add: j0_def job_calm_def job_safe_def)
  have p: "\<not> output_path (sm_dir mgr) first p" using assms(2) by (simp add: first_def)
  obtain c1 j1 where j1: "add_input_tables z env (source_level plan) (source_tables plan) j0 = Some (c1, j1)"
    using assms(1) True by (auto simp: CompactionJob_run_def Let_def j0_def first_def split: option.splits)
  note s1 = add_inputs_safe [OF j1 c0]
  have safe: "fail_job env e j = Some (r, mgr', d', ar') \<Longrightarrow> job_calm z (sm_dir mgr) first d j \<Longrightarrow> d' p = d p" for e j
    using fail_job_safe [OF _ _ p] by (auto simp: job_calm_def)
  show ?thesis
  proof (cases "c1 = Ok")
    case False
    then show ?thesis using assms(1) True j1 safe [OF _ s1, of c1] by (auto simp: CompactionJob_run_def Let_def j0_def first_def)
  next
    case ok: True
    obtain c2 j2 where j2: "add_input_tables z env (target_level plan) (overlapping_tables plan) j1 = Some (c2, j2)"
      using assms(1) True j1 ok by (auto simp: CompactionJob_run_def Let_def j0_def first_def split: option.splits)
    note s2 = add_inputs_safe [OF j2 s1]
    have "(if c2 = Ok then merge_inputs z env plan (is_bottommost_destination lm (target_level plan)) first j2 else fail_job env c2 j2) = Some (r, mgr', d', ar')"
      using assms(1) True j1 ok j2 by (auto simp: CompactionJob_run_def Let_def j0_def first_def split: if_splits)
    then show ?thesis using safe [OF _ s2] merge_inputs_safe [OF s2 _ p] by (auto split: if_splits)
  qed
qed

section \<open>Properties\<close>

text \<open>C33 (a compaction replaces its inputs by what they mean). For a current plan whose inputs are
  published tables with distinct internal keys, on a device whose reads do not fail, the job returns: either
  an error, which needs a failing write, records that do not fit a table or exhausted identifiers, or an edit that deletes exactly
  the inputs and adds tables, stored under fresh names and described by their metadata, whose records
  together are in order the newest version of every key, without the tombstones when no deeper level holds a
  table. Other files are unchanged.\<close>

theorem compaction_correct:
  assumes "crc_incremental z" "quiet_reads env" "pool_ok z d cat mgr" "list_all2 (catalogued cat) (planned plan) rss" "distinct (map ikey (concat rss))"
    and "CompactionPlan_validate plan" "plan_is_current plan lm" "length (sm_dir mgr) \<le> 50000" "arena_ok ar" "never_oom ar"
    and "unat (sc_next_table_id (m_counters mf)) \<le> u32_max + 1"
  shows "\<exists>r mgr' d' ar'. CompactionJob_run z env plan lm mf (mgr, d, ar) = Some (r, mgr', d', ar') \<and>
    (\<forall>p. \<not> output_path (sm_dir mgr) (sc_next_table_id (m_counters mf)) p \<longrightarrow> d' p = d p) \<and>
    (case r of Inl e \<Rightarrow> e \<noteq> Ok \<and> \<not> (always_writes z env (set (concat rss)) \<and> unat (sc_next_table_id (m_counters mf)) + length (concat rss) \<le> u32_max) | Inr None \<Rightarrow> False
     | Inr (Some edit) \<Rightarrow> replaces_inputs z (sm_dir mgr) plan (sc_next_table_id (m_counters mf)) d'
         (retain (is_bottommost_destination lm (target_level plan)) (merged rss)) edit)"
proof -
  from run_effect [OF assms] obtain r mgr' d' ar' where "CompactionJob_run z env plan lm mf (mgr, d, ar) = Some (r, mgr', d', ar')"
    "\<forall>p. \<not> output_path (sm_dir mgr) (sc_next_table_id (m_counters mf)) p \<longrightarrow> d' p = d p"
    "case r of Inl e \<Rightarrow> e \<noteq> Ok \<and> \<not> (always_writes z env (set (concat rss)) \<and> unat (sc_next_table_id (m_counters mf)) + length (concat rss) \<le> u32_max) | Inr None \<Rightarrow> False
     | Inr (Some edit) \<Rightarrow> replaces_inputs z (sm_dir mgr) plan (sc_next_table_id (m_counters mf)) d'
         (retain (is_bottommost_destination lm (target_level plan)) (merged rss)) edit" by (elim exE conjE) rule
  then show ?thesis by blast
qed

text \<open>C35 (what a compaction keeps). Under the same conditions, when the job returns an edit, the
  tables it adds are stored, and their records together are exactly those input records that no
  input record of the same key is newer than, without the tombstones when the destination is the
  bottommost level with tables; they are in key order, every key once. So a lookup in the outputs
  finds for every key what it found in the inputs, except for a dropped tombstone.\<close>

theorem compaction_keeps_newest:
  assumes "crc_incremental z" "quiet_reads env" "pool_ok z d cat mgr" "list_all2 (catalogued cat) (planned plan) rss" "distinct (map ikey (concat rss))"
    and "CompactionPlan_validate plan" "plan_is_current plan lm" "length (sm_dir mgr) \<le> 50000" "arena_ok ar" "never_oom ar"
    and "unat (sc_next_table_id (m_counters mf)) \<le> u32_max + 1"
    and "CompactionJob_run z env plan lm mf (mgr, d, ar) = Some (Inr (Some edit), mgr', d', ar')"
  shows "\<exists>outs. outputs_ok z (sm_dir mgr) (target_level plan) (sc_next_table_id (m_counters mf)) d' (new_tables (edit_payload edit)) outs \<and>
    (\<forall>r. r \<in> set (concat outs) \<longleftrightarrow> r \<in> set (concat rss) \<and>
       (\<forall>s \<in> set (concat rss). key_entry s = key_entry r \<longrightarrow> seq_num s \<le> seq_num r) \<and>
       \<not> (rtype r = Tombstone \<and> is_bottommost_destination lm (target_level plan))) \<and>
    sorted_wrt (\<lambda>x y. key_entry x < key_entry y) (concat outs)"
proof -
  let ?b = "is_bottommost_destination lm (target_level plan)" and ?first = "sc_next_table_id (m_counters mf)"
  have srt: "sorted_records (merged rss)" by (rule merged_sorted [OF assms(5)])
  have "replaces_inputs z (sm_dir mgr) plan ?first d' (retain ?b (merged rss)) edit"
    using run_effect [OF assms(1-11)] assms(12) by auto
  then obtain outs where o: "outputs_ok z (sm_dir mgr) (target_level plan) ?first d' (new_tables (edit_payload edit)) outs"
    "concat outs = retain ?b (merged rss)" unfolding replaces_inputs_def Let_def by blast
  show ?thesis using o(1) in_retain [OF srt, of _ ?b] retain_keys [OF srt, of ?b]
    by (intro exI [of _ outs]) (simp add: o(2) compaction_keep_newest_record_def)
qed

text \<open>C34 (a failing compaction destroys nothing). Whatever the device answers, whichever allocation fails
  and whatever the input files hold, a run changes no file except those of tables with new identifiers.\<close>

theorem compaction_preserves_files:
  assumes "CompactionJob_run z env plan lm mf (mgr, d, ar) = Some (r, mgr', d', ar')"
    "unat tid < unat (sc_next_table_id (m_counters mf))"
  shows "d' (make_table_path tid (sm_dir mgr)) = d (make_table_path tid (sm_dir mgr))"
proof (rule run_safe [OF assms(1)])
  show "\<not> output_path (sm_dir mgr) (sc_next_table_id (m_counters mf)) (make_table_path tid (sm_dir mgr))"
    using assms(2) table_paths_inj(1) table_paths_differ by (auto simp: output_path_def)
qed

section \<open>Examples\<close>

text \<open>One table in level 0, whose only record moves to level 1.\<close>

lemma single_writable:
  assumes "section_ok z ds" "section_records ds = [r]" "length (key_entry r) \<le> 2000"
  shows "writable_section z ds"
proof -
  have ne: "\<forall>b\<in>set (data_blocks ds). db_payloads b \<noteq> []" using assms(1) by (auto simp: section_ok_def block_ok_def block_list_ok_def)
  obtain p where p: "concat (map db_payloads (data_blocks ds)) = [p]" "record_of p = r" using assms(2) by (auto simp: section_records_def section_payloads_def)
  obtain b bs where bs: "data_blocks ds = b # bs" using p(1) by (cases "data_blocks ds") auto
  have b: "db_payloads b = [p]" "bs = []" using p(1) ne bs by (cases "db_payloads b"; cases bs; auto)+
  have "pl_key p = key_entry r" using p(2) by (auto simp: record_of_def)
  then have "index_ok (idx_payloads (section_index z BLOCK_SIZE ds))"
    using assms(3) by (simp add: bs b section_index_def idx_of_def entry_of_def index_ok_def IndexPayload_validate_def IndexPayload_disk_size_def BLOCK_SIZE_def)
  then show ?thesis using assms bs by (simp add: writable_section_def)
qed

lemma single_selection:
  assumes "section_ok z ds" "data_blocks ds \<noteq> []" "set (section_records ds) \<subseteq> {r}"
  shows "section_records ds = [r]"
proof -
  have "\<forall>b\<in>set (data_blocks ds). db_payloads b \<noteq> []" using assms(1) by (auto simp: section_ok_def block_ok_def block_list_ok_def)
  then have ne: "section_records ds \<noteq> []" using assms(2) by (cases "data_blocks ds") (auto simp: section_records_def section_payloads_def)
  have "sorted_records (section_records ds)" using section_ok_sorted [OF assms(1)] .
  then show ?thesis using ne assms(3) by (cases "section_records ds"; cases "tl (section_records ds)") auto
qed

definition ex_cmeta :: TableMeta where
  "ex_cmeta = \<lparr>table_id = 1, tm_level = 0, tm_path = path_bytes (make_table_path 1 ''db''), min_seq = 4, max_seq = 4, file_size = 20556,
     record_count = 1, tombstone_count = 0, data_block_count = 1, data_bytes = 37, smallest_key = [7], largest_key = [7]\<rparr>"

definition ex_cplan :: CompactionPlan where
  "ex_cplan = \<lparr>cp_reason = Manual, source_level = 0, target_level = 1, source_tables = [ex_cmeta], overlapping_tables = [],
     plan_smallest = [7], plan_largest = [7], max_output_file_size = 4096\<rparr>"

definition ex_clm :: LevelManager where
  "ex_clm = \<lparr>lm_levels = [[ex_cmeta], [], []]\<rparr>"

definition ex_cmf :: Manifest where
  "ex_cmf = (Manifest_new ''db/MANIFEST'')\<lparr>m_counters := \<lparr>sc_next_table_id = 2, sc_current_wal_id = 1, sc_next_sequence_number = 5\<rparr>\<rparr>"

definition ex_jenv :: job_env where
  "ex_jenv = \<lparr>je_load = (\<lambda>_. ex_read_env), je_iter = (\<lambda>_. ex_read_env), je_write = (\<lambda>_. ex_write_env), je_remove_ok = (\<lambda>_. True)\<rparr>"

lemma ex_row_buildable: "buildable [ex_row 4 [1, 2]]" "length (key_entry (ex_row 4 [1, 2])) \<le> 2000"
  by (simp_all add: buildable_def storable_def ex_row_def)

lemma ex_ctable:
  obtains d where "on_disk ex_zlib d (make_table_path 1 ''db'') [ex_row 4 [1, 2]]"
proof -
  let ?p = "make_tmp_table_path 1 ''db''" and ?q = "make_table_path 1 ''db''"
  obtain t where t: "build_impl ex_zlib 1 [ex_row 4 [1, 2]] ?p ?q = Inr (Some t)"
    using build_impl_spec [where z = ex_zlib and tid = 1 and rs = "[ex_row 4 [1, 2]]" and p = ?p and q = ?q] ex_row_buildable(1)
    by (cases "build_impl ex_zlib 1 [ex_row 4 [1, 2]] ?p ?q") (auto split: option.splits)
  note b = build_impl_builds [OF t]
  have "validate_header_fields (tb_header t) = Ok" using FileHeader_of_ok [of ex_zlib 1] b(6) by (simp add: header_ok_def)
  then have "fst (SSTable_write ex_zlib ex_write_env (t, Map.empty)) = Ok"
    by (intro SSTable_write_succeeds [OF single_writable [OF b(1,2) ex_row_buildable(2)] _ ex_calm])
      (simp_all add: b table_paths_nonempty paths_normal_differ)
  then obtain t' d' where w: "SSTable_write ex_zlib ex_write_env (t, Map.empty) = (Ok, t', d')" by (cases "SSTable_write ex_zlib ex_write_env (t, Map.empty)") auto
  from SSTable_write_effect [OF b(1,7) w] b(2,5) have "on_disk ex_zlib d' ?q [ex_row 4 [1, 2]]" by (auto simp: on_disk_def split: if_splits)
  then show ?thesis by (rule that)
qed

lemma ex_bottommost: "is_bottommost_destination ex_clm 1"
  by (simp add: is_bottommost_destination_def ex_clm_def bottommost_from.simps get_lx_tables_def)

lemma ex_compaction:
  assumes "on_disk ex_zlib d (make_table_path 1 ''db'') [ex_row 4 [1, 2]]"
  shows "quiet_reads ex_jenv" "pool_ok ex_zlib d [1 \<mapsto> [ex_row 4 [1, 2]]] (SSTableManager_new ''db'')"
    "list_all2 (catalogued [1 \<mapsto> [ex_row 4 [1, 2]]]) (planned ex_cplan) [[ex_row 4 [1, 2]]]" "distinct (map ikey (concat [[ex_row 4 [1, 2]]]))"
    "CompactionPlan_validate ex_cplan" "plan_is_current ex_cplan ex_clm" "length (sm_dir (SSTableManager_new ''db'')) \<le> 50000"
    "arena_ok (ex_new_arena\<lparr>oom := []\<rparr>)" "never_oom (ex_new_arena\<lparr>oom := []\<rparr>)"
    "unat (sc_next_table_id (m_counters ex_cmf)) \<le> u32_max + 1"
    "always_writes ex_zlib ex_jenv (set (concat [[ex_row 4 [1, 2]]]))"
proof -
  show "quiet_reads ex_jenv" by (simp add: quiet_reads_def ex_jenv_def ex_read_env_def)
  show "pool_ok ex_zlib d [1 \<mapsto> [ex_row 4 [1, 2]]] (SSTableManager_new ''db'')" using assms by (auto simp: pool_ok_def SSTableManager_new_def)
  show "list_all2 (catalogued [1 \<mapsto> [ex_row 4 [1, 2]]]) (planned ex_cplan) [[ex_row 4 [1, 2]]]"
    by (simp add: planned_def ex_cplan_def catalogued_def ex_cmeta_def)
  show "CompactionPlan_validate ex_cplan" "plan_is_current ex_cplan ex_clm"
    by (simp_all add: CompactionPlan_validate_def ex_cplan_def ex_cmeta_def table_range_is_valid_def range_contains_def
      plan_is_current_def level_contains_table_def ex_clm_def get_lx_tables_def)
  show "arena_ok (ex_new_arena\<lparr>oom := []\<rparr>)" "never_oom (ex_new_arena\<lparr>oom := []\<rparr>)" using ex_new_arena_ok by (simp_all add: never_oom_def)
  show "always_writes ex_zlib ex_jenv (set (concat [[ex_row 4 [1, 2]]]))"
    using single_writable [OF _ single_selection ex_row_buildable(2)] ex_calm by (auto simp: always_writes_def ex_jenv_def)
qed (simp_all add: SSTableManager_new_def ex_cmf_def)

theorem compaction_correct_witness:
  "\<exists>d mgr' d' ar' edit. CompactionJob_run ex_zlib ex_jenv ex_cplan ex_clm ex_cmf (SSTableManager_new ''db'', d, ex_new_arena\<lparr>oom := []\<rparr>) =
      Some (Inr (Some edit), mgr', d', ar') \<and> replaces_inputs ex_zlib ''db'' ex_cplan 2 d' [ex_row 4 [1, 2]] edit"
proof -
  obtain d where d: "on_disk ex_zlib d (make_table_path 1 ''db'') [ex_row 4 [1, 2]]" by (rule ex_ctable)
  note x = ex_compaction [OF d]
  have k: "retain (is_bottommost_destination ex_clm (target_level ex_cplan)) (merged [[ex_row 4 [1, 2]]]) = [ex_row 4 [1, 2]]"
    "sm_dir (SSTableManager_new ''db'') = ''db''" "sc_next_table_id (m_counters ex_cmf) = 2"
    using ex_bottommost by (simp_all add: ex_cplan_def compaction_keep_newest_record_def ex_row_def SSTableManager_new_def ex_cmf_def)
  from compaction_correct [OF ex_zlib_incremental x(1-10), unfolded k] obtain r mgr' d' ar' where
    r: "CompactionJob_run ex_zlib ex_jenv ex_cplan ex_clm ex_cmf (SSTableManager_new ''db'', d, ex_new_arena\<lparr>oom := []\<rparr>) = Some (r, mgr', d', ar')"
    "case r of Inl e \<Rightarrow> e \<noteq> Ok \<and> \<not> (always_writes ex_zlib ex_jenv (set (concat [[ex_row 4 [1, 2]]])) \<and> unat (2 :: u64) + length (concat [[ex_row 4 [1, 2]]]) \<le> u32_max) | Inr None \<Rightarrow> False
     | Inr (Some edit) \<Rightarrow> replaces_inputs ex_zlib ''db'' ex_cplan 2 d' [ex_row 4 [1, 2]] edit" by (elim exE conjE) rule
  then obtain edit where "r = Inr (Some edit)" using x(11) by (cases r) (auto split: option.splits)
  then show ?thesis using r by (intro exI [of _ d] exI [of _ mgr'] exI [of _ d'] exI [of _ ar'] exI [of _ edit] conjI) simp_all
qed

theorem compaction_preserves_files_witness:
  "\<exists>d r mgr' d' ar'. CompactionJob_run ex_zlib ex_jenv ex_cplan ex_clm ex_cmf (SSTableManager_new ''db'', d, ex_new_arena\<lparr>oom := []\<rparr>) = Some (r, mgr', d', ar') \<and>
     d' (make_table_path 1 ''db'') = d (make_table_path 1 ''db'') \<and> d (make_table_path 1 ''db'') \<noteq> None"
proof -
  obtain d where d: "on_disk ex_zlib d (make_table_path 1 ''db'') [ex_row 4 [1, 2]]" by (rule ex_ctable)
  from run_effect [OF ex_zlib_incremental ex_compaction(1-10) [OF d]] obtain r mgr' d' ar' where
    r: "CompactionJob_run ex_zlib ex_jenv ex_cplan ex_clm ex_cmf (SSTableManager_new ''db'', d, ex_new_arena\<lparr>oom := []\<rparr>) = Some (r, mgr', d', ar')"
    by (elim exE conjE) rule
  have "d' (make_table_path 1 ''db'') = d (make_table_path 1 ''db'')"
    using compaction_preserves_files [OF r, of 1] by (simp add: ex_cmf_def SSTableManager_new_def)
  moreover have "d (make_table_path 1 ''db'') \<noteq> None" using d by (auto simp: on_disk_def)
  ultimately show ?thesis using r
    by (intro exI [of _ d] exI [of _ r] exI [of _ mgr'] exI [of _ d'] exI [of _ ar'] conjI)
qed

theorem compaction_keeps_newest_witness:
  "\<exists>d edit mgr' d' ar' outs. CompactionJob_run ex_zlib ex_jenv ex_cplan ex_clm ex_cmf (SSTableManager_new ''db'', d, ex_new_arena\<lparr>oom := []\<rparr>) =
      Some (Inr (Some edit), mgr', d', ar') \<and>
    outputs_ok ex_zlib ''db'' 1 2 d' (new_tables (edit_payload edit)) outs \<and> ex_row 4 [1, 2] \<in> set (concat outs)"
proof -
  obtain d where d: "on_disk ex_zlib d (make_table_path 1 ''db'') [ex_row 4 [1, 2]]" by (rule ex_ctable)
  note x = ex_compaction [OF d]
  have k: "sm_dir (SSTableManager_new ''db'') = ''db''" "sc_next_table_id (m_counters ex_cmf) = 2" "target_level ex_cplan = 1"
    by (simp_all add: SSTableManager_new_def ex_cmf_def ex_cplan_def)
  from run_effect [OF ex_zlib_incremental x(1-10)] obtain r mgr' d' ar' where
    r: "CompactionJob_run ex_zlib ex_jenv ex_cplan ex_clm ex_cmf (SSTableManager_new ''db'', d, ex_new_arena\<lparr>oom := []\<rparr>) = Some (r, mgr', d', ar')"
    "case r of Inl e \<Rightarrow> e \<noteq> Ok \<and> \<not> (always_writes ex_zlib ex_jenv (set (concat [[ex_row 4 [1, 2]]])) \<and>
        unat (sc_next_table_id (m_counters ex_cmf)) + length (concat [[ex_row 4 [1, 2]]]) \<le> u32_max) | Inr None \<Rightarrow> False
     | Inr (Some edit) \<Rightarrow> replaces_inputs ex_zlib (sm_dir (SSTableManager_new ''db'')) ex_cplan (sc_next_table_id (m_counters ex_cmf)) d'
         (retain (is_bottommost_destination ex_clm (target_level ex_cplan)) (merged [[ex_row 4 [1, 2]]])) edit" by (elim exE conjE) rule
  obtain edit where e: "r = Inr (Some edit)" using r(2) x(11) k(2) by (cases r) (auto split: option.splits)
  from compaction_keeps_newest [OF ex_zlib_incremental x(1-10) r(1) [unfolded e], unfolded k] obtain outs where
    o: "outputs_ok ex_zlib ''db'' 1 2 d' (new_tables (edit_payload edit)) outs"
    "\<forall>r. r \<in> set (concat outs) \<longleftrightarrow> r \<in> set (concat [[ex_row 4 [1, 2]]]) \<and>
       (\<forall>s \<in> set (concat [[ex_row 4 [1, 2]]]). key_entry s = key_entry r \<longrightarrow> seq_num s \<le> seq_num r) \<and>
       \<not> (rtype r = Tombstone \<and> is_bottommost_destination ex_clm 1)" by (elim exE conjE) rule
  have "ex_row 4 [1, 2] \<in> set (concat outs)" unfolding o(2) [rule_format] by (simp add: ex_row_def)
  then show ?thesis using r(1) [unfolded e] o(1) by blast
qed

end
