(* ===== verification/WAL.thy ===== *)
theory WAL
  imports Loader
begin

text \<open>
  The write-ahead log (\<^verbatim>\<open>src/core/engine/wal.cpp\<close>): the file header, fragments, the encoding of
  a logical record, the assembler, the writer, the batch loader and the streaming loader. The
  definitions follow the source function by function; zlib's \<open>crc32\<close> is the parameter \<open>z\<close>.
  The exception that \<open>Arena::rollback\<close> can throw is the value \<open>None\<close> of the loaders.
\<close>

section \<open>Constants\<close>

definition WAL_FILE_MAGIC :: u32 where "WAL_FILE_MAGIC = 0x4B565741"
definition WAL_VERSION :: u32 where "WAL_VERSION = 1"
definition WAL_FILE_BLOCK_SIZE :: nat where "WAL_FILE_BLOCK_SIZE = 4 * 1024"
definition WALFileHeader_disk_size :: nat where "WALFileHeader_disk_size = 40"
definition FragmentHeader_disk_size :: nat where "FragmentHeader_disk_size = 22"
definition kRecordPayloadPrefixSize :: nat where "kRecordPayloadPrefixSize = 4 + 4"

section \<open>File header\<close>

record WALFileHeader =
  magic :: u32
  version :: u32
  header_size :: u32
  wal_id :: u64
  start_seq :: u64
  block_size :: u32
  reserved :: u32
  header_crc32 :: u32

definition WALFileHeader_compute_crc32 :: "zlib \<Rightarrow> WALFileHeader \<Rightarrow> u32" where
  "WALFileHeader_compute_crc32 z h =
     (let crc = crc_init z;
          crc = crc32_add_u32 z (magic h) crc;
          crc = crc32_add_u32 z (version h) crc;
          crc = crc32_add_u32 z (header_size h) crc;
          crc = crc32_add_u64 z (wal_id h) crc;
          crc = crc32_add_u64 z (start_seq h) crc;
          crc = crc32_add_u32 z (block_size h) crc
      in crc32_add_u32 z (reserved h) crc)"

definition make_WALFileHeader :: "zlib \<Rightarrow> u32 \<Rightarrow> u64 \<Rightarrow> WALFileHeader" where
  "make_WALFileHeader z new_wal_id new_start_seq =
     (let h = \<lparr>magic = WAL_FILE_MAGIC, version = WAL_VERSION,
               header_size = of_nat WALFileHeader_disk_size, wal_id = ucast new_wal_id,
               start_seq = new_start_seq, block_size = of_nat WAL_FILE_BLOCK_SIZE,
               reserved = 0, header_crc32 = 0\<rparr>
      in h\<lparr>header_crc32 := WALFileHeader_compute_crc32 z h\<rparr>)"

definition self_check :: "zlib \<Rightarrow> WALFileHeader \<Rightarrow> bool" where
  "self_check z h \<longleftrightarrow> magic h = WAL_FILE_MAGIC \<and> version h = WAL_VERSION \<and>
     header_size h = of_nat WALFileHeader_disk_size \<and>
     block_size h = of_nat WAL_FILE_BLOCK_SIZE \<and> reserved h = 0 \<and>
     header_crc32 h = WALFileHeader_compute_crc32 z h"

definition WALFileHeader_write :: "zlib \<Rightarrow> WALFileHeader \<Rightarrow> wfile action" where
  "WALFileHeader_write z h f =
     (if \<not> self_check z h then (InvalidHeader, f)
      else run_all
        [check_offset,
         ensure_fits_in_block WALFileHeader_disk_size WAL_FILE_BLOCK_SIZE,
         write_u32_t_le (magic h) WAL_FILE_BLOCK_SIZE,
         write_u32_t_le (version h) WAL_FILE_BLOCK_SIZE,
         write_u32_t_le (header_size h) WAL_FILE_BLOCK_SIZE,
         write_u64_t_le (wal_id h) WAL_FILE_BLOCK_SIZE,
         write_u64_t_le (start_seq h) WAL_FILE_BLOCK_SIZE,
         write_u32_t_le (block_size h) WAL_FILE_BLOCK_SIZE,
         write_u32_t_le (reserved h) WAL_FILE_BLOCK_SIZE,
         write_u32_t_le (header_crc32 h) WAL_FILE_BLOCK_SIZE,
         check_offset] f)"

definition WALFileHeader_read_fields :: "(rfile, WALFileHeader) reader" where
  "WALFileHeader_read_fields =
     bind_r (read_u32_t_le WAL_FILE_BLOCK_SIZE) (\<lambda>m.
     bind_r (read_u32_t_le WAL_FILE_BLOCK_SIZE) (\<lambda>v.
     bind_r (read_u32_t_le WAL_FILE_BLOCK_SIZE) (\<lambda>hs.
     bind_r (read_u64_t_le WAL_FILE_BLOCK_SIZE) (\<lambda>wid.
     bind_r (read_u64_t_le WAL_FILE_BLOCK_SIZE) (\<lambda>ss.
     bind_r (read_u32_t_le WAL_FILE_BLOCK_SIZE) (\<lambda>bs.
     bind_r (read_u32_t_le WAL_FILE_BLOCK_SIZE) (\<lambda>rs.
     bind_r (read_u32_t_le WAL_FILE_BLOCK_SIZE) (\<lambda>crc.
     return_r \<lparr>magic = m, version = v, header_size = hs, wal_id = wid, start_seq = ss,
       block_size = bs, reserved = rs, header_crc32 = crc\<rparr>))))))))"

definition WALFileHeader_check :: "zlib \<Rightarrow> u32 \<Rightarrow> WALFileHeader \<Rightarrow> StatusCode" where
  "WALFileHeader_check z expected_wal_id h =
     (if magic h \<noteq> WAL_FILE_MAGIC then BadMagic
      else if version h \<noteq> WAL_VERSION then UnsupportedVersion
      else if header_size h \<noteq> of_nat WALFileHeader_disk_size then InvalidHeader
      else if wal_id h \<noteq> ucast expected_wal_id then InvalidHeader
      else if block_size h \<noteq> of_nat WAL_FILE_BLOCK_SIZE then UnsupportedBlockSize
      else if reserved h \<noteq> 0 then InvalidHeader
      else if header_crc32 h \<noteq> WALFileHeader_compute_crc32 z h then ChecksumMismatch
      else Ok)"

definition WALFileHeader_load :: "zlib \<Rightarrow> u32 \<Rightarrow> (rfile, WALFileHeader option) reader" where
  "WALFileHeader_load z expected_wal_id f =
     (let initial_offset = roff f in
      case get_file_size f of
        Inl e \<Rightarrow> (Inl e, f)
      | Inr file_size \<Rightarrow>
          if roff f = file_size then (Inr None, f)
          else if roff f > file_size then (Inl InvalidOffset, f)
          else case ensure_fits_in_block_r WALFileHeader_disk_size WAL_FILE_BLOCK_SIZE f of (c, f1) \<Rightarrow>
            if \<not> is_ok c then (Inl c, f1\<lparr>roff := initial_offset\<rparr>)
            else if roff f1 > file_size \<or> file_size - roff f1 < WALFileHeader_disk_size
            then (Inl UnexpectedEOF, f1\<lparr>roff := initial_offset\<rparr>)
            else restoring initial_offset
              (bind_r WALFileHeader_read_fields
                (\<lambda>h f2. let c = WALFileHeader_check z expected_wal_id h in
                   if is_ok c then (Inr (Some h), f2) else (Inl c, f2)) f1))"

section \<open>Fragments\<close>

text \<open>\<open>BadFragment\<close> stands for every byte outside the enumeration.\<close>

datatype FragmentType = FULL | FIRST | MIDDLE | LAST | BadFragment

definition fragment_type_to_u8 :: "FragmentType \<Rightarrow> u8" where
  "fragment_type_to_u8 t =
     (case t of FULL \<Rightarrow> 0 | FIRST \<Rightarrow> 1 | MIDDLE \<Rightarrow> 2 | LAST \<Rightarrow> 3 | BadFragment \<Rightarrow> 255)"

definition fragment_type_of_u8 :: "u8 \<Rightarrow> FragmentType" where
  "fragment_type_of_u8 b =
     (if b = 0 then FULL else if b = 1 then FIRST else if b = 2 then MIDDLE
      else if b = 3 then LAST else BadFragment)"

definition is_valid_fragment_type :: "FragmentType \<Rightarrow> bool" where
  "is_valid_fragment_type t \<longleftrightarrow> t \<in> {FULL, FIRST, MIDDLE, LAST}"

definition is_valid_record_type :: "Type \<Rightarrow> bool" where
  "is_valid_record_type t \<longleftrightarrow> t = Put \<or> t = Tombstone"

record FragmentHeader =
  fragment_crc32 :: u32
  frag_header_size :: u32
  fragment_type :: FragmentType
  frag_type :: Type
  frag_seq_num :: u64
  fragment_size :: u32

record Fragment =
  frag_header :: FragmentHeader
  payload :: "byte list"

definition Fragment_disk_size :: "Fragment \<Rightarrow> nat" where
  "Fragment_disk_size fr = FragmentHeader_disk_size + length (payload fr)"

definition Fragment_compute_crc32 :: "zlib \<Rightarrow> Fragment \<Rightarrow> u32 result" where
  "Fragment_compute_crc32 z fr =
     (let h = frag_header fr in
      if frag_header_size h \<noteq> of_nat FragmentHeader_disk_size then Inl InvalidHeader
      else if \<not> is_valid_fragment_type (fragment_type h) then Inl InvalidBlockType
      else if \<not> is_valid_record_type (frag_type h) then Inl InvalidArgument
      else if unat (fragment_size h) \<noteq> length (payload fr) then Inl InvalidPayloadSize
      else let crc = crc_init z;
               crc = crc32_add_u32 z (frag_header_size h) crc;
               crc = crc32_add_u8 z (fragment_type_to_u8 (fragment_type h)) crc;
               crc = crc32_add_u8 z (type_to_u8 (frag_type h)) crc;
               crc = crc32_add_u64 z (frag_seq_num h) crc;
               crc = crc32_add_u32 z (fragment_size h) crc
           in Inr (compute_crc32 z crc (payload fr)))"

definition FragmentHeader_write :: "FragmentHeader \<Rightarrow> wfile action" where
  "FragmentHeader_write h f =
     (if frag_header_size h \<noteq> of_nat FragmentHeader_disk_size then (InvalidHeader, f)
      else if \<not> is_valid_fragment_type (fragment_type h) then (InvalidBlockType, f)
      else if \<not> is_valid_record_type (frag_type h) then (InvalidArgument, f)
      else run_all
        [check_offset,
         ensure_fits_in_block FragmentHeader_disk_size WAL_FILE_BLOCK_SIZE,
         write_u32_t_le (fragment_crc32 h) WAL_FILE_BLOCK_SIZE,
         write_u32_t_le (frag_header_size h) WAL_FILE_BLOCK_SIZE,
         write_u8_t (fragment_type_to_u8 (fragment_type h)) WAL_FILE_BLOCK_SIZE,
         write_u8_t (type_to_u8 (frag_type h)) WAL_FILE_BLOCK_SIZE,
         write_u64_t_le (frag_seq_num h) WAL_FILE_BLOCK_SIZE,
         write_u32_t_le (fragment_size h) WAL_FILE_BLOCK_SIZE] f)"

definition FragmentHeader_read_fields :: "(rfile, FragmentHeader) reader" where
  "FragmentHeader_read_fields =
     bind_r (read_u32_t_le WAL_FILE_BLOCK_SIZE) (\<lambda>crc.
     bind_r (read_u32_t_le WAL_FILE_BLOCK_SIZE) (\<lambda>hs.
     bind_r (read_u8_t WAL_FILE_BLOCK_SIZE) (\<lambda>ft.
     bind_r (read_u8_t WAL_FILE_BLOCK_SIZE) (\<lambda>rt.
     bind_r (read_u64_t_le WAL_FILE_BLOCK_SIZE) (\<lambda>sq.
     bind_r (read_u32_t_le WAL_FILE_BLOCK_SIZE) (\<lambda>fs.
     return_r \<lparr>fragment_crc32 = crc, frag_header_size = hs,
       fragment_type = fragment_type_of_u8 ft, frag_type = type_of_u8 rt,
       frag_seq_num = sq, fragment_size = fs\<rparr>))))))"

definition FragmentHeader_check :: "FragmentHeader \<Rightarrow> StatusCode" where
  "FragmentHeader_check h =
     (if frag_header_size h \<noteq> of_nat FragmentHeader_disk_size then InvalidHeader
      else if \<not> is_valid_fragment_type (fragment_type h) then InvalidBlockType
      else if \<not> is_valid_record_type (frag_type h) then Corruption
      else Ok)"

definition FragmentHeader_load :: "(rfile, FragmentHeader) reader" where
  "FragmentHeader_load f =
     (let initial_offset = roff f in
      case ensure_fits_in_block_r FragmentHeader_disk_size WAL_FILE_BLOCK_SIZE f of (c, f1) \<Rightarrow>
        if \<not> is_ok c then (Inl c, f1\<lparr>roff := initial_offset\<rparr>)
        else restoring initial_offset
          (bind_r FragmentHeader_read_fields
            (\<lambda>h f2. let c = FragmentHeader_check h in
               if is_ok c then (Inr h, f2) else (Inl c, f2)) f1))"

definition FragmentPayload_write :: "byte list \<Rightarrow> wfile action" where
  "FragmentPayload_write bytes = run_all
     [check_offset,
      ensure_fits_in_block (length bytes) WAL_FILE_BLOCK_SIZE,
      (\<lambda>f. if bytes = [] then (Ok, f) else write_bytes bytes WAL_FILE_BLOCK_SIZE f)]"

definition FragmentPayload_load :: "nat \<Rightarrow> (rfile, byte list) reader" where
  "FragmentPayload_load n f =
     (if \<not> is_ok (fits_in_block (roff f) n WAL_FILE_BLOCK_SIZE) then (Inl InvalidPayloadSize, f)
      else if n = 0 then (Inr [], f)
      else read_bytes n WAL_FILE_BLOCK_SIZE f)"

definition Fragment_write :: "Fragment \<Rightarrow> wfile action" where
  "Fragment_write fr f =
     (if unat (fragment_size (frag_header fr)) \<noteq> length (payload fr) then (InvalidPayloadSize, f)
      else if Fragment_disk_size fr > WAL_FILE_BLOCK_SIZE then (SizeExceedsBlockSize, f)
      else run_all
        [check_offset,
         ensure_fits_in_block (Fragment_disk_size fr) WAL_FILE_BLOCK_SIZE,
         FragmentHeader_write (frag_header fr),
         FragmentPayload_write (payload fr),
         check_offset] f)"

definition Fragment_check_crc :: "zlib \<Rightarrow> Fragment \<Rightarrow> StatusCode" where
  "Fragment_check_crc z fr =
     (case Fragment_compute_crc32 z fr of
        Inl e \<Rightarrow> e
      | Inr expected_crc \<Rightarrow>
          if expected_crc \<noteq> fragment_crc32 (frag_header fr) then ChecksumMismatch else Ok)"

definition Fragment_load :: "zlib \<Rightarrow> (rfile, Fragment option) reader" where
  "Fragment_load z f =
     (let initial_offset = roff f in
      case get_file_size f of
        Inl e \<Rightarrow> (Inl e, f)
      | Inr file_size \<Rightarrow>
          if roff f = file_size then (Inr None, f)
          else if roff f > file_size then (Inl InvalidOffset, f)
          else case ensure_fits_in_block_r (FragmentHeader_disk_size + 1) WAL_FILE_BLOCK_SIZE f of (c, f1) \<Rightarrow>
            if \<not> is_ok c then (Inl c, f1\<lparr>roff := initial_offset\<rparr>)
            else if roff f1 \<ge> file_size then (Inr None, f1\<lparr>roff := file_size\<rparr>)
            else if file_size - roff f1 < FragmentHeader_disk_size
            then (Inl UnexpectedEOF, f1\<lparr>roff := initial_offset\<rparr>)
            else restoring initial_offset
              (bind_r FragmentHeader_load
                (\<lambda>h f2. let fs = unat (fragment_size h) in
                   if fs > WAL_FILE_BLOCK_SIZE - roff f2 mod WAL_FILE_BLOCK_SIZE
                   then (Inl InvalidPayloadSize, f2)
                   else if fs > WAL_FILE_BLOCK_SIZE - FragmentHeader_disk_size
                   then (Inl InvalidPayloadSize, f2)
                   else if file_size - roff f2 < fs then (Inl UnexpectedEOF, f2)
                   else bind_r (FragmentPayload_load fs)
                     (\<lambda>bytes f3. let fr = \<lparr>frag_header = h, payload = bytes\<rparr>;
                                      c = Fragment_check_crc z fr in
                        if is_ok c then (Inr (Some fr), f3) else (Inl c, f3)) f2) f1))"

section \<open>Logical records\<close>

definition append_u32_le :: "byte list \<Rightarrow> u32 \<Rightarrow> byte list" where
  "append_u32_le out v = out @ [ucast (v AND 0xFF), ucast (drop_bit 8 v AND 0xFF),
     ucast (drop_bit 16 v AND 0xFF), ucast (drop_bit 24 v AND 0xFF)]"

definition read_u32_le :: "byte list \<Rightarrow> nat \<Rightarrow> u32 result \<times> nat" where
  "read_u32_le bytes position =
     (if position > length bytes \<or> length bytes - position < 4 then (Inl UnexpectedEOF, position)
      else (Inr (ucast (bytes ! position) OR push_bit 8 (ucast (bytes ! (position + 1)))
                 OR push_bit 16 (ucast (bytes ! (position + 2)))
                 OR push_bit 24 (ucast (bytes ! (position + 3)))), position + 4))"

definition encode_record_payload :: "InternalRecord \<Rightarrow> byte list result" where
  "encode_record_payload r =
     (if \<not> is_valid_record_type (rtype r) then Inl InvalidArgument
      else let key_size = length (key_entry r); value_size = length (value_entry r) in
        if key_size > u64_max - kRecordPayloadPrefixSize then Inl AllocationTooLarge
        else if int value_size > int u64_max - int (kRecordPayloadPrefixSize + key_size)
        then Inl AllocationTooLarge
        else Inr (append_u32_le (append_u32_le [] (of_nat key_size)) (of_nat value_size) @
                  key_entry r @ value_entry r))"

text \<open>An allocation of \<open>n\<close> bytes for a decoded entry; a failing one rolls the arena back.\<close>

definition decode_alloc :: "nat \<Rightarrow> checkpoint \<Rightarrow> arena \<Rightarrow> (StatusCode \<times> arena) option" where
  "decode_alloc n cp ar =
     (if n = 0 then Some (Ok, ar)
      else case alloc n 1 ar of
        (Inr _, ar') \<Rightarrow> Some (Ok, ar')
      | (Inl e, ar') \<Rightarrow> map_option (\<lambda>ar''. (e, ar'')) (rollback cp ar'))"

definition decode_record_payload ::
  "byte list \<Rightarrow> u64 \<Rightarrow> Type \<Rightarrow> arena \<Rightarrow> (InternalRecord result \<times> arena) option" where
  "decode_record_payload bytes sq t ar =
     (if \<not> is_valid_record_type t then Some (Inl Corruption, ar)
      else case read_u32_le bytes 0 of
        (Inl e, _) \<Rightarrow> Some (Inl e, ar)
      | (Inr key_size, p1) \<Rightarrow> (case read_u32_le bytes p1 of
          (Inl e, _) \<Rightarrow> Some (Inl e, ar)
        | (Inr value_size, p2) \<Rightarrow>
            if kRecordPayloadPrefixSize + unat key_size + unat value_size \<noteq> length bytes
            then Some (Inl InvalidPayloadSize, ar)
            else let cp = take_checkpoint ar; k = unat key_size; v = unat value_size in
              case decode_alloc k cp ar of
                None \<Rightarrow> None
              | Some (c, ar1) \<Rightarrow>
                  if \<not> is_ok c then Some (Inl c, ar1)
                  else case decode_alloc v cp ar1 of
                    None \<Rightarrow> None
                  | Some (c, ar2) \<Rightarrow>
                      if \<not> is_ok c then Some (Inl c, ar2)
                      else Some (Inr \<lparr>key_entry = take k (drop p2 bytes),
                        value_entry = take v (drop (p2 + k) bytes), rtype = t, seq_num = sq\<rparr>, ar2)))"

definition is_recoverable_tail_error :: "StatusCode \<Rightarrow> bool" where
  "is_recoverable_tail_error c \<longleftrightarrow> c = UnexpectedEOF"

definition is_corruption_error :: "StatusCode \<Rightarrow> bool" where
  "is_corruption_error c \<longleftrightarrow>
     c = ChecksumMismatch \<or> c = Corruption \<or> c = BadMagic \<or> c = UnsupportedVersion \<or>
     c = UnsupportedBlockSize \<or> c = InvalidHeader \<or> c = InvalidPayloadSize \<or>
     c = InvalidBlockType \<or> c = InvalidAlignment \<or> c = OffsetOverlap"

record assembler =
  active :: bool
  asm_seq_num :: u64
  asm_type :: Type
  asm_bytes :: "byte list"

definition asm_init :: assembler where
  "asm_init = \<lparr>active = False, asm_seq_num = 0, asm_type = Put, asm_bytes = []\<rparr>"

definition asm_reset :: "assembler \<Rightarrow> assembler" where
  "asm_reset s = s\<lparr>active := False, asm_seq_num := 0, asm_type := Put, asm_bytes := []\<rparr>"

definition asm_append :: "byte list \<Rightarrow> assembler action" where
  "asm_append bytes s =
     (if int (length bytes) > int u64_max - int (length (asm_bytes s)) then (AllocationTooLarge, s)
      else (Ok, s\<lparr>asm_bytes := asm_bytes s @ bytes\<rparr>))"

definition consume ::
  "Fragment \<Rightarrow> assembler \<Rightarrow> arena \<Rightarrow> (InternalRecord option result \<times> assembler \<times> arena) option" where
  "consume fr s ar =
     (let h = frag_header fr in
      if fragment_type h = FULL then
        (if active s then Some (Inl Corruption, asm_reset s, ar)
         else case decode_record_payload (payload fr) (frag_seq_num h) (frag_type h) ar of
           None \<Rightarrow> None
         | Some (Inl e, ar') \<Rightarrow> Some (Inl e, s, ar')
         | Some (Inr r, ar') \<Rightarrow> Some (Inr (Some r), s, ar'))
      else if fragment_type h = FIRST then
        (if active s then Some (Inl Corruption, asm_reset s, ar)
         else case asm_append (payload fr) (s\<lparr>active := True, asm_seq_num := frag_seq_num h,
                asm_type := frag_type h, asm_bytes := []\<rparr>) of (c, s') \<Rightarrow>
           if \<not> is_ok c then Some (Inl c, asm_reset s', ar) else Some (Inr None, s', ar))
      else if \<not> active s then Some (Inl Corruption, asm_reset s, ar)
      else if asm_seq_num s \<noteq> frag_seq_num h \<or> asm_type s \<noteq> frag_type h
      then Some (Inl Corruption, asm_reset s, ar)
      else case asm_append (payload fr) s of (c, s') \<Rightarrow>
        if \<not> is_ok c then Some (Inl c, asm_reset s', ar)
        else if fragment_type h = MIDDLE then Some (Inr None, s', ar)
        else if fragment_type h \<noteq> LAST then Some (Inl Corruption, asm_reset s', ar)
        else case decode_record_payload (asm_bytes s') (asm_seq_num s') (asm_type s') ar of
          None \<Rightarrow> None
        | Some (Inl e, ar') \<Rightarrow> Some (Inl e, asm_reset s', ar')
        | Some (Inr r, ar') \<Rightarrow> Some (Inr (Some r), asm_reset s', ar'))"

section \<open>Readers make progress\<close>

lemma FragmentHeader_read_fields_advances: "advances 22 FragmentHeader_read_fields"
proof -
  have "advances (4 + (4 + (1 + (1 + (8 + (4 + 0)))))) FragmentHeader_read_fields"
    unfolding FragmentHeader_read_fields_def
    by (intro advances_bind advances_return read_field_advances)
  then show ?thesis by simp
qed

lemma FragmentHeader_load_advances: "advances 22 FragmentHeader_load"
  unfolding advances_def
proof (intro allI impI)
  fix f r f' assume eq: "FragmentHeader_load f = (r, f')"
  let ?m = "bind_r FragmentHeader_read_fields (\<lambda>h f2. if is_ok (FragmentHeader_check h)
    then (Inr h, f2) else (Inl (FragmentHeader_check h), f2))"
  have adv: "advances 22 ?m" by (intro advances_check FragmentHeader_read_fields_advances)
  obtain c x where x: "ensure_fits_in_block_r FragmentHeader_disk_size WAL_FILE_BLOCK_SIZE f =
    (c, f\<lparr>roff := x\<rparr>)" "roff f \<le> x" using ensure_fits_r_moves by blast
  obtain y g where y: "?m (f\<lparr>roff := x\<rparr>) = (y, g)" by (cases "?m (f\<lparr>roff := x\<rparr>)")
  have "rdata g = rdata f \<and> rfd g = rfd f \<and> (\<forall>v. y = Inr v \<longrightarrow> x + 22 \<le> roff g)"
    using advancesD [OF adv y] by simp
  with eq x y show "rdata f' = rdata f \<and> rfd f' = rfd f \<and> (\<forall>v. r = Inr v \<longrightarrow> roff f + 22 \<le> roff f')"
    by (auto simp: FragmentHeader_load_def Let_def restoring_def split: if_splits sum.splits)
qed

lemma FragmentPayload_load_advances: "advances 0 (FragmentPayload_load n)"
  unfolding advances_def
proof (intro allI impI)
  fix f r f' assume eq: "FragmentPayload_load n f = (r, f')"
  show "rdata f' = rdata f \<and> rfd f' = rfd f \<and> (\<forall>v. r = Inr v \<longrightarrow> roff f + 0 \<le> roff f')"
  proof (cases "n = 0 \<or> \<not> is_ok (fits_in_block (roff f) n WAL_FILE_BLOCK_SIZE)")
    case True
    with eq show ?thesis by (auto simp: FragmentPayload_load_def split: if_splits)
  next
    case False
    with eq have "read_fixed n WAL_FILE_BLOCK_SIZE f = (r, f')"
      using read_bytes_eq_fixed [of n WAL_FILE_BLOCK_SIZE f] by (simp add: FragmentPayload_load_def)
    from advancesD [OF read_fixed_advances this] show ?thesis by auto
  qed
qed

lemma Fragment_load_keeps:
  assumes "Fragment_load z f = (r, f')"
  shows "rdata f' = rdata f \<and> rfd f' = rfd f \<and>
    (\<forall>fr. r = Inr (Some fr) \<longrightarrow> roff f < roff f' \<and> roff f < length (rdata f))"
proof -
  define k where "k = (\<lambda>h f2. let fs = unat (fragment_size h) in
     if fs > WAL_FILE_BLOCK_SIZE - roff f2 mod WAL_FILE_BLOCK_SIZE then (Inl InvalidPayloadSize, f2)
     else if fs > WAL_FILE_BLOCK_SIZE - FragmentHeader_disk_size then (Inl InvalidPayloadSize, f2)
     else if length (rdata f) - roff f2 < fs then (Inl UnexpectedEOF, f2)
     else bind_r (FragmentPayload_load fs) (\<lambda>bytes f3.
       let fr = \<lparr>frag_header = h, payload = bytes\<rparr>; c = Fragment_check_crc z fr in
       if is_ok c then (Inr (Some fr), f3) else (Inl c, f3)) f2)"
  have k: "advances 0 (k h)" for h
  proof -
    have "advances 0 (bind_r (FragmentPayload_load fs) (\<lambda>bytes f3.
        if is_ok (Fragment_check_crc z \<lparr>frag_header = h, payload = bytes\<rparr>)
        then (Inr (Some \<lparr>frag_header = h, payload = bytes\<rparr>), f3)
        else (Inl (Fragment_check_crc z \<lparr>frag_header = h, payload = bytes\<rparr>), f3)))" for fs
      by (intro advances_check FragmentPayload_load_advances)
    then show ?thesis by (simp add: k_def Let_def advances_def)
  qed
  have adv: "advances 22 (bind_r FragmentHeader_load k)"
    using advances_bind [OF FragmentHeader_load_advances k] by simp
  obtain c x where x: "ensure_fits_in_block_r (FragmentHeader_disk_size + 1) WAL_FILE_BLOCK_SIZE f =
    (c, f\<lparr>roff := x\<rparr>)" "roff f \<le> x" using ensure_fits_r_moves by blast
  obtain y g where y: "bind_r FragmentHeader_load k (f\<lparr>roff := x\<rparr>) = (y, g)"
    by (cases "bind_r FragmentHeader_load k (f\<lparr>roff := x\<rparr>)")
  have "rdata g = rdata f \<and> rfd g = rfd f \<and> (\<forall>v. y = Inr v \<longrightarrow> x + 22 \<le> roff g)"
    using advancesD [OF adv y] by simp
  moreover have "Fragment_load z f = (if \<not> rfd f then (Inl GetSizeFailed, f)
      else if roff f = length (rdata f) then (Inr None, f)
      else if roff f > length (rdata f) then (Inl InvalidOffset, f)
      else if \<not> is_ok c then (Inl c, f)
      else if x \<ge> length (rdata f) then (Inr None, f\<lparr>roff := length (rdata f)\<rparr>)
      else if length (rdata f) - x < FragmentHeader_disk_size then (Inl UnexpectedEOF, f)
      else restoring (roff f) (y, g))"
    using x y unfolding Fragment_load_def get_file_size_def
    by (simp add: k_def Let_def)
  ultimately show ?thesis using assms x(2)
    by (auto simp: restoring_def split: if_splits sum.splits)
qed

end
