(* ===== verification/WALWriter.thy ===== *)
theory WALWriter
  imports WAL
begin

text \<open>
  The writer of the log (\<open>WALWriter\<close> of \<^verbatim>\<open>src/core/engine/wal.cpp\<close>) and what it leaves in
  the file. The open file carries the writer's tracked offset in \<open>woff\<close>. \<open>disk\<close> keeps the
  contents of a file after its handle is dropped; \<open>create\<close> receives what the file system answers
  (whether the old file could be removed, and the opened file or the failing status).
\<close>

section \<open>The writer\<close>

record WALWriter =
  wal_file :: "wfile option"
  wal_path :: string
  cur_wal_id :: u32
  disk :: "string \<Rightarrow> wfile option"

definition writer_init :: WALWriter where
  "writer_init = \<lparr>wal_file = None, wal_path = [], cur_wal_id = 0, disk = (\<lambda>_. None)\<rparr>"

definition wal_offset :: "WALWriter \<Rightarrow> nat" where
  "wal_offset w = (case wal_file w of None \<Rightarrow> 0 | Some f \<Rightarrow> woff f)"

definition drop_file :: "wfile \<Rightarrow> WALWriter \<Rightarrow> WALWriter" where
  "drop_file f w = w\<lparr>wal_file := None, wal_path := [], cur_wal_id := 0, disk := (disk w)(wal_path w \<mapsto> f)\<rparr>"

definition WALWriter_close :: "WALWriter action" where
  "WALWriter_close w =
     (case wal_file w of
        None \<Rightarrow> (Ok, w)
      | Some f \<Rightarrow> (case sync f of (sync_status, f1) \<Rightarrow> case wclose f1 of (close_status, f2) \<Rightarrow>
          (if \<not> is_ok sync_status then sync_status else close_status, drop_file f2 w)))"

definition WALWriter_create ::
  "zlib \<Rightarrow> string \<Rightarrow> u32 \<Rightarrow> u64 \<Rightarrow> bool \<Rightarrow> wfile result \<Rightarrow> WALWriter action" where
  "WALWriter_create z path new_wal_id start remove_ok opened w =
     (if path = [] then (InvalidArgument, w)
      else case (if wal_file w \<noteq> None then WALWriter_close w else (Ok, w)) of (c, w1) \<Rightarrow>
        if \<not> is_ok c then (c, w1)
        else if \<not> remove_ok then (IOError, w1)
        else let w2 = w1\<lparr>disk := (disk w1)(path := None)\<rparr> in
          case opened of
            Inl e \<Rightarrow> (e, w2)
          | Inr f \<Rightarrow>
              let w3 = w2\<lparr>wal_path := path, cur_wal_id := new_wal_id\<rparr> in
              case WALFileHeader_write z (make_WALFileHeader z new_wal_id start) (f\<lparr>woff := 0\<rparr>) of
                (c, f1) \<Rightarrow>
                  if \<not> is_ok c then (c, drop_file (snd (wclose f1)) w3)
                  else case sync f1 of (c, f2) \<Rightarrow>
                    if \<not> is_ok c then (c, drop_file (snd (wclose f2)) w3)
                    else (Ok, w3\<lparr>wal_file := Some f2\<rparr>))"

definition WALWriter_rotate ::
  "zlib \<Rightarrow> string \<Rightarrow> u32 \<Rightarrow> u64 \<Rightarrow> bool \<Rightarrow> wfile result \<Rightarrow> WALWriter action" where
  "WALWriter_rotate z path new_wal_id start remove_ok opened w =
     (case WALWriter_close w of (c, w1) \<Rightarrow>
        if \<not> is_ok c then (c, w1) else WALWriter_create z path new_wal_id start remove_ok opened w1)"

definition choose_fragment_type :: "bool \<Rightarrow> bool \<Rightarrow> FragmentType" where
  "choose_fragment_type first last_one =
     (if first \<and> last_one then FULL else if first then FIRST else if last_one then LAST else MIDDLE)"

definition make_fragment :: "zlib \<Rightarrow> InternalRecord \<Rightarrow> FragmentType \<Rightarrow> byte list \<Rightarrow> Fragment result" where
  "make_fragment z r ft chunk =
     (let fr = \<lparr>frag_header = \<lparr>fragment_crc32 = 0,
                  frag_header_size = of_nat FragmentHeader_disk_size, fragment_type = ft,
                  frag_type = rtype r, frag_seq_num = seq_num r,
                  fragment_size = of_nat (length chunk)\<rparr>, payload = chunk\<rparr> in
      case Fragment_compute_crc32 z fr of
        Inl e \<Rightarrow> Inl e
      | Inr crc \<Rightarrow> Inr (fr\<lparr>frag_header := (frag_header fr)\<lparr>fragment_crc32 := crc\<rparr>\<rparr>))"

text \<open>\<open>rest\<close> is the part of the byte sequence from \<open>payload_position\<close> on.\<close>

function write_payload_loop :: "zlib \<Rightarrow> InternalRecord \<Rightarrow> byte list \<Rightarrow> bool \<Rightarrow> wfile action" where
  "write_payload_loop z r rest first f =
     (if rest = [] then (Ok, f)
      else case run_all [check_offset,
              ensure_fits_in_block (FragmentHeader_disk_size + 1) WAL_FILE_BLOCK_SIZE] f of (c, f1) \<Rightarrow>
        if \<not> is_ok c then (c, f1)
        else let remaining_in_block = WAL_FILE_BLOCK_SIZE - woff f1 mod WAL_FILE_BLOCK_SIZE in
          if remaining_in_block < FragmentHeader_disk_size then (InvariantViolation, f1)
          else let max_payload = remaining_in_block - FragmentHeader_disk_size in
            if max_payload = 0 then (InvariantViolation, f1)
            else let n = min (length rest) max_payload;
                     ft = choose_fragment_type first (n = length rest) in
              case make_fragment z r ft (take n rest) of
                Inl e \<Rightarrow> (e, f1)
              | Inr fr \<Rightarrow> (case run_all [Fragment_write fr, check_offset] f1 of (c, f2) \<Rightarrow>
                  if \<not> is_ok c then (c, f2) else write_payload_loop z r (drop n rest) False f2))"
  by pat_completeness auto
termination
  by (relation "measure (\<lambda>(z, r, rest, first, f). length rest)") auto

declare write_payload_loop.simps [simp del]

definition WALWriter_write_payload :: "zlib \<Rightarrow> byte list \<Rightarrow> InternalRecord \<Rightarrow> WALWriter action" where
  "WALWriter_write_payload z bytes r w =
     (case wal_file w of
        None \<Rightarrow> (FailedPrecondition, w)
      | Some f \<Rightarrow>
          if bytes = [] then (InvalidArgument, w)
          else case write_payload_loop z r bytes True f of (c, f') \<Rightarrow> (c, w\<lparr>wal_file := Some f'\<rparr>))"

definition WALWriter_write :: "zlib \<Rightarrow> InternalRecord \<Rightarrow> WALWriter action" where
  "WALWriter_write z r w =
     (case wal_file w of
        None \<Rightarrow> (FailedPrecondition, w)
      | Some f \<Rightarrow>
          let status = check_writer_offset f in
          if \<not> is_ok status then (status, w)
          else case encode_record_payload r of
            Inl e \<Rightarrow> (e, w)
          | Inr bytes \<Rightarrow> WALWriter_write_payload z bytes r w)"

definition WALWriter_sync :: "WALWriter action" where
  "WALWriter_sync w =
     (case wal_file w of
        None \<Rightarrow> (FailedPrecondition, w)
      | Some f \<Rightarrow>
          let status = check_writer_offset f in
          if \<not> is_ok status then (status, w)
          else case sync f of (c, f') \<Rightarrow> (c, w\<lparr>wal_file := Some f'\<rparr>))"

section \<open>The bytes of a log\<close>

text \<open>The layout the writer produces, as a function of the offset it starts at.\<close>

definition header_bytes :: "WALFileHeader \<Rightarrow> byte list" where
  "header_bytes h = enc_u32 (magic h) @ enc_u32 (version h) @ enc_u32 (header_size h) @
     enc_u64 (wal_id h) @ enc_u64 (start_seq h) @ enc_u32 (block_size h) @
     enc_u32 (reserved h) @ enc_u32 (header_crc32 h)"

definition frag_header_bytes :: "FragmentHeader \<Rightarrow> byte list" where
  "frag_header_bytes h = enc_u32 (fragment_crc32 h) @ enc_u32 (frag_header_size h) @
     enc_u8 (fragment_type_to_u8 (fragment_type h)) @ enc_u8 (type_to_u8 (frag_type h)) @
     enc_u64 (frag_seq_num h) @ enc_u32 (fragment_size h)"

definition frag_bytes :: "Fragment \<Rightarrow> byte list" where
  "frag_bytes fr = frag_header_bytes (frag_header fr) @ payload fr"

definition frag_of :: "zlib \<Rightarrow> InternalRecord \<Rightarrow> FragmentType \<Rightarrow> byte list \<Rightarrow> Fragment" where
  "frag_of z r ft chunk =
     (case make_fragment z r ft chunk of Inr fr \<Rightarrow> fr
      | Inl _ \<Rightarrow> \<lparr>frag_header = \<lparr>fragment_crc32 = 0, frag_header_size = 0, fragment_type = ft,
          frag_type = rtype r, frag_seq_num = 0, fragment_size = 0\<rparr>, payload = chunk\<rparr>)"

text \<open>Where the next fragment starts, and how much payload it can take.\<close>

definition frag_pad :: "nat \<Rightarrow> byte list" where
  "frag_pad off = pad_before off (FragmentHeader_disk_size + 1) WAL_FILE_BLOCK_SIZE"

definition frag_room :: "nat \<Rightarrow> nat" where
  "frag_room off = WAL_FILE_BLOCK_SIZE - (off + length (frag_pad off)) mod WAL_FILE_BLOCK_SIZE -
     FragmentHeader_disk_size"

lemma frag_pad_fits:
  "(off + length (frag_pad off)) mod WAL_FILE_BLOCK_SIZE + (FragmentHeader_disk_size + 1)
     \<le> WAL_FILE_BLOCK_SIZE"
  using pad_before_fits [of WAL_FILE_BLOCK_SIZE "FragmentHeader_disk_size + 1" off]
  by (simp add: frag_pad_def WAL_FILE_BLOCK_SIZE_def FragmentHeader_disk_size_def)

lemma frag_room_pos [simp]: "0 < frag_room off" "(frag_room off = 0) = False"
  using frag_pad_fits [of off] by (simp_all add: frag_room_def)

function payload_bytes :: "zlib \<Rightarrow> InternalRecord \<Rightarrow> byte list \<Rightarrow> bool \<Rightarrow> nat \<Rightarrow> byte list" where
  "payload_bytes z r rest first off =
     (if rest = [] then []
      else let n = min (length rest) (frag_room off);
               ft = choose_fragment_type first (n = length rest) in
        frag_pad off @ frag_bytes (frag_of z r ft (take n rest)) @
        payload_bytes z r (drop n rest) False
          (off + length (frag_pad off) + FragmentHeader_disk_size + n))"
  by pat_completeness auto
termination
  by (relation "measure (\<lambda>(z, r, rest, first, off). length rest)") auto

declare payload_bytes.simps [simp del]

definition record_payload :: "InternalRecord \<Rightarrow> byte list" where
  "record_payload r = enc_u32 (of_nat (length (key_entry r))) @
     enc_u32 (of_nat (length (value_entry r))) @ key_entry r @ value_entry r"

fun log_bytes :: "zlib \<Rightarrow> InternalRecord list \<Rightarrow> nat \<Rightarrow> byte list" where
  "log_bytes z [] off = []"
| "log_bytes z (r # rs) off =
     (let bs = payload_bytes z r (record_payload r) True off in bs @ log_bytes z rs (off + length bs))"

section \<open>The writer emits the layout\<close>

lemma append_u32_le_eq: "append_u32_le out v = out @ enc_u32 v"
  by (simp add: append_u32_le_def enc_u32_def)

lemma encode_record_payload_eq:
  assumes "is_valid_record_type (rtype r)" "length (key_entry r) \<le> u32_max"
    "length (value_entry r) \<le> u32_max"
  shows "encode_record_payload r = Inr (record_payload r)"
  using assms by (simp add: encode_record_payload_def Let_def kRecordPayloadPrefixSize_def
    append_u32_le_eq record_payload_def)

lemma record_payload_ne [simp]: "record_payload r \<noteq> []"
  by (simp add: record_payload_def enc_u32_def)

lemma make_fragment_eq:
  assumes "is_valid_record_type (rtype r)" "is_valid_fragment_type ft" "length chunk \<le> WAL_FILE_BLOCK_SIZE"
  shows "make_fragment z r ft chunk = Inr (frag_of z r ft chunk)"
    "payload (frag_of z r ft chunk) = chunk"
    "unat (fragment_size (frag_header (frag_of z r ft chunk))) = length chunk"
    "frag_header_size (frag_header (frag_of z r ft chunk)) = of_nat FragmentHeader_disk_size"
    "fragment_type (frag_header (frag_of z r ft chunk)) = ft"
    "frag_type (frag_header (frag_of z r ft chunk)) = rtype r"
    "frag_seq_num (frag_header (frag_of z r ft chunk)) = seq_num r"
    "Fragment_check_crc z (frag_of z r ft chunk) = Ok"
proof -
  have "unat (of_nat (length chunk) :: u32) = length chunk"
    using assms(3) by (intro unat_of_length_u32) (simp add: WAL_FILE_BLOCK_SIZE_def)
  with assms show
    "make_fragment z r ft chunk = Inr (frag_of z r ft chunk)"
    "payload (frag_of z r ft chunk) = chunk"
    "unat (fragment_size (frag_header (frag_of z r ft chunk))) = length chunk"
    "frag_header_size (frag_header (frag_of z r ft chunk)) = of_nat FragmentHeader_disk_size"
    "fragment_type (frag_header (frag_of z r ft chunk)) = ft"
    "frag_type (frag_header (frag_of z r ft chunk)) = rtype r"
    "frag_seq_num (frag_header (frag_of z r ft chunk)) = seq_num r"
    "Fragment_check_crc z (frag_of z r ft chunk) = Ok"
    by (simp_all add: make_fragment_def frag_of_def Fragment_compute_crc32_def Fragment_check_crc_def Let_def)
qed

lemma choose_valid [simp]: "is_valid_fragment_type (choose_fragment_type a b)"
  by (simp add: is_valid_fragment_type_def choose_fragment_type_def)

lemma frag_header_bytes_length [simp]: "length (frag_header_bytes h) = FragmentHeader_disk_size"
  by (simp add: frag_header_bytes_def FragmentHeader_disk_size_def)

lemma header_bytes_length [simp]: "length (header_bytes h) = WALFileHeader_disk_size"
  by (simp add: header_bytes_def WALFileHeader_disk_size_def)

lemma block_room:
  fixes L B :: nat
  assumes "L mod B + m \<le> B" "k + n \<le> m" "0 < n"
  shows "(L + k) mod B + n \<le> B"
proof -
  have "L mod B + k < B" using assms by linarith
  then have "(L + k) mod B = L mod B + k" by (metis mod_add_left_eq mod_less)
  with assms show ?thesis by linarith
qed

lemma block_room_Suc: "(L :: nat) mod B + m \<le> B \<Longrightarrow> k + 1 \<le> m \<Longrightarrow> Suc ((L + k) mod B) \<le> B"
  using block_room [of L B m k 1] by simp

lemma ensure_fits_emits_Nil:
  assumes "tracked f" "0 < B" "length (wdata f) mod B + n \<le> B"
  shows "emits (ensure_fits_in_block n B) [] f"
  using ensure_fits_emits [OF assms(1,2), of n] assms(3) by (simp add: pad_before_ok)

lemma B_pos [simp]: "0 < WAL_FILE_BLOCK_SIZE"
  by (simp add: WAL_FILE_BLOCK_SIZE_def)

lemma FragmentHeader_write_emits:
  assumes tr: "tracked f" and h: "frag_header_size h = of_nat FragmentHeader_disk_size"
    "is_valid_fragment_type (fragment_type h)" "is_valid_record_type (frag_type h)"
    and room: "length (wdata f) mod WAL_FILE_BLOCK_SIZE + 22 \<le> WAL_FILE_BLOCK_SIZE"
  shows "emits (FragmentHeader_write h) (frag_header_bytes h) f"
proof -
  note fields = u8_field.wr_fits u32_field.wr_fits u64_field.wr_fits
  have "emits (run_all
        [check_offset,
         ensure_fits_in_block FragmentHeader_disk_size WAL_FILE_BLOCK_SIZE,
         write_u32_t_le (fragment_crc32 h) WAL_FILE_BLOCK_SIZE,
         write_u32_t_le (frag_header_size h) WAL_FILE_BLOCK_SIZE,
         write_u8_t (fragment_type_to_u8 (fragment_type h)) WAL_FILE_BLOCK_SIZE,
         write_u8_t (type_to_u8 (frag_type h)) WAL_FILE_BLOCK_SIZE,
         write_u64_t_le (frag_seq_num h) WAL_FILE_BLOCK_SIZE,
         write_u32_t_le (fragment_size h) WAL_FILE_BLOCK_SIZE])
      ([] @ [] @ enc_u32 (fragment_crc32 h) @ enc_u32 (frag_header_size h) @
       enc_u8 (fragment_type_to_u8 (fragment_type h)) @ enc_u8 (type_to_u8 (frag_type h)) @
       enc_u64 (frag_seq_num h) @ enc_u32 (fragment_size h) @ []) f"
    (is "emits (run_all ?as) _ f")
    using tr room
    by (intro emits_run_all_Cons check_offset_emits ensure_fits_emits_Nil fields emits_run_all_Nil)
      (simp_all add: FragmentHeader_disk_size_def add.assoc block_room [OF room]
        block_room_Suc [OF room])
  moreover have "FragmentHeader_write h f = run_all ?as f"
    using h by (simp only: FragmentHeader_write_def if_False not_True_eq_False simp_thms)
  ultimately show ?thesis
    by (simp only: emits_def frag_header_bytes_def append_Nil append_Nil2)
qed

lemma FragmentPayload_write_emits:
  assumes tr: "tracked f" and room: "length (wdata f) mod WAL_FILE_BLOCK_SIZE + length bs \<le> WAL_FILE_BLOCK_SIZE"
  shows "emits (FragmentPayload_write bs) bs f"
proof -
  have wr: "emits (\<lambda>f. if bs = [] then (Ok, f) else write_bytes bs WAL_FILE_BLOCK_SIZE f) bs g"
    if "tracked g" "wdata g = wdata f" for g
    using write_bytes_emits [OF that(1) B_pos, of bs] that room
    by (cases "bs = []") (simp_all add: pad_before_ok emits_def)
  have "emits (FragmentPayload_write bs) ([] @ [] @ bs @ []) f"
    unfolding FragmentPayload_write_def using tr room
    by (intro emits_run_all_Cons check_offset_emits ensure_fits_emits_Nil wr emits_run_all_Nil) simp_all
  then show ?thesis by simp
qed

lemma Fragment_write_emits:
  assumes tr: "tracked f" and h: "frag_header_size (frag_header fr) = of_nat FragmentHeader_disk_size"
    "is_valid_fragment_type (fragment_type (frag_header fr))"
    "is_valid_record_type (frag_type (frag_header fr))"
    "unat (fragment_size (frag_header fr)) = length (payload fr)"
    and room: "length (wdata f) mod WAL_FILE_BLOCK_SIZE + (22 + length (payload fr)) \<le> WAL_FILE_BLOCK_SIZE"
  shows "emits (Fragment_write fr) (frag_bytes fr) f"
proof -
  have ds: "Fragment_disk_size fr = 22 + length (payload fr)"
    by (simp add: Fragment_disk_size_def FragmentHeader_disk_size_def)
  have pay: "payload fr \<noteq> [] \<Longrightarrow> (length (wdata f) + 22) mod WAL_FILE_BLOCK_SIZE + length (payload fr)
      \<le> WAL_FILE_BLOCK_SIZE" using block_room [OF room, of 22] by simp
  have pay': "emits (FragmentPayload_write (payload fr)) (payload fr) g"
    if "tracked g" "wdata g = wdata f @ frag_header_bytes (frag_header fr)" for g
  proof (intro FragmentPayload_write_emits that)
    show "length (wdata g) mod WAL_FILE_BLOCK_SIZE + length (payload fr) \<le> WAL_FILE_BLOCK_SIZE"
      using that pay mod_less_divisor [OF B_pos, of "length (wdata g)"]
      by (cases "payload fr = []") (simp_all add: FragmentHeader_disk_size_def)
  qed
  have "emits (run_all [check_offset,
         ensure_fits_in_block (Fragment_disk_size fr) WAL_FILE_BLOCK_SIZE,
         FragmentHeader_write (frag_header fr),
         FragmentPayload_write (payload fr),
         check_offset])
      ([] @ [] @ frag_header_bytes (frag_header fr) @ payload fr @ [] @ []) f"
    (is "emits (run_all ?as) _ f")
    using tr room h ds
    by (intro emits_run_all_Cons check_offset_emits ensure_fits_emits_Nil pay'
        FragmentHeader_write_emits emits_run_all_Nil) simp_all
  moreover have "Fragment_write fr f = run_all ?as f"
  proof -
    have "\<not> Fragment_disk_size fr > WAL_FILE_BLOCK_SIZE" using room ds by simp
    with h(4) show ?thesis by (simp only: Fragment_write_def if_False simp_thms)
  qed
  ultimately show ?thesis by (simp only: emits_def frag_bytes_def append_Nil append_Nil2)
qed

text \<open>One round of the loop, after the padding has been written.\<close>

definition payload_round :: "zlib \<Rightarrow> InternalRecord \<Rightarrow> byte list \<Rightarrow> bool \<Rightarrow> wfile action" where
  "payload_round z r rest first f1 =
     (let remaining_in_block = WAL_FILE_BLOCK_SIZE - woff f1 mod WAL_FILE_BLOCK_SIZE in
      if remaining_in_block < FragmentHeader_disk_size then (InvariantViolation, f1)
      else let max_payload = remaining_in_block - FragmentHeader_disk_size in
        if max_payload = 0 then (InvariantViolation, f1)
        else let n = min (length rest) max_payload;
                 ft = choose_fragment_type first (n = length rest) in
          case make_fragment z r ft (take n rest) of
            Inl e \<Rightarrow> (e, f1)
          | Inr fr \<Rightarrow> (case run_all [Fragment_write fr, check_offset] f1 of (c, f2) \<Rightarrow>
              if is_ok c then write_payload_loop z r (drop n rest) False f2 else (c, f2)))"

lemma if_not_swap: "(if \<not> b then x else y) = (if b then y else x)"
  by simp

lemma write_payload_loop_round:
  "rest \<noteq> [] \<Longrightarrow> write_payload_loop z r rest first f =
    (case run_all [check_offset,
        ensure_fits_in_block (FragmentHeader_disk_size + 1) WAL_FILE_BLOCK_SIZE] f of (c, f1) \<Rightarrow>
      if is_ok c then payload_round z r rest first f1 else (c, f1))"
  by (subst write_payload_loop.simps) (simp only: if_not_swap payload_round_def if_False)

lemma write_payload_loop_emits:
  assumes "tracked f" "is_valid_record_type (rtype r)"
  shows "emits (write_payload_loop z r rest first) (payload_bytes z r rest first (length (wdata f))) f"
  using assms(1)
proof (induction "length rest" arbitrary: rest first f rule: less_induct)
  case less
  show ?case
  proof (cases "rest = []")
    case True
    then show ?thesis by (simp add: write_payload_loop.simps payload_bytes.simps)
  next
    case False
    define off where "off = length (wdata f)"
    define n where "n = min (length rest) (frag_room off)"
    define fr where "fr = frag_of z r (choose_fragment_type first (n = length rest)) (take n rest)"
    let ?next = "off + length (frag_pad off) + FragmentHeader_disk_size + n"
    have n: "0 < n" "n \<le> length rest" "n \<le> frag_room off" using False by (simp_all add: n_def)
    then have nB: "length (take n rest) \<le> WAL_FILE_BLOCK_SIZE" by (simp add: frag_room_def)
    note fr = make_fragment_eq [OF assms(2) choose_valid nB, of z first "n = length rest", folded fr_def]
    have round: "emits (payload_round z r rest first)
        (frag_bytes fr @ payload_bytes z r (drop n rest) False ?next) g"
      if g: "tracked g" "wdata g = wdata f @ frag_pad off" for g
    proof -
      have woff: "woff g = off + length (frag_pad off)" using g by (simp add: tracked_def off_def)
      have room: "length (wdata g) mod WAL_FILE_BLOCK_SIZE + (22 + length (payload fr)) \<le> WAL_FILE_BLOCK_SIZE"
        using frag_pad_fits [of off] n g fr(2)
        by (simp add: frag_room_def off_def FragmentHeader_disk_size_def)
      have wr: "emits (run_all [Fragment_write fr, check_offset]) (frag_bytes fr @ [] @ []) g"
        using g room fr assms(2)
        by (intro emits_run_all_Cons Fragment_write_emits check_offset_emits emits_run_all_Nil) simp_all
      have "emits (\<lambda>f. case run_all [Fragment_write fr, check_offset] f of (c, f2) \<Rightarrow>
          if is_ok c then write_payload_loop z r (drop n rest) False f2 else (c, f2))
          ((frag_bytes fr @ [] @ []) @ payload_bytes z r (drop n rest) False ?next) g"
      proof (rule emits_seq [OF g(1) wr])
        fix h assume h: "tracked h" "wdata h = wdata g @ frag_bytes fr @ [] @ []"
        then have len: "length (wdata h) = ?next"
          using g fr(2) n by (simp add: frag_bytes_def off_def)
        show "emits (write_payload_loop z r (drop n rest) False)
            (payload_bytes z r (drop n rest) False ?next) h"
          using less(1) [OF _ h(1), of "drop n rest" False] n False unfolding len by simp
      qed
      moreover have "payload_round z r rest first g =
          (case run_all [Fragment_write fr, check_offset] g of (c, f2) \<Rightarrow>
          if is_ok c then write_payload_loop z r (drop n rest) False f2 else (c, f2))"
      proof -
        have "WAL_FILE_BLOCK_SIZE - woff g mod WAL_FILE_BLOCK_SIZE - FragmentHeader_disk_size = frag_room off"
          "\<not> WAL_FILE_BLOCK_SIZE - woff g mod WAL_FILE_BLOCK_SIZE < FragmentHeader_disk_size"
          using frag_pad_fits [of off] by (simp_all add: woff frag_room_def)
        then show ?thesis
          using fr(1) by (simp add: payload_round_def Let_def n_def [symmetric] del: run_all.simps)
      qed
      ultimately show ?thesis by (simp only: emits_def append_Nil append_Nil2 append.assoc)
    qed
    have fits: "emits (ensure_fits_in_block (FragmentHeader_disk_size + 1) WAL_FILE_BLOCK_SIZE) (frag_pad off) g"
      if "tracked g" "wdata g = wdata f" for g
      using ensure_fits_emits [OF that(1) B_pos, of "FragmentHeader_disk_size + 1"] that(2)
      by (simp add: frag_pad_def off_def WAL_FILE_BLOCK_SIZE_def FragmentHeader_disk_size_def)
    have pad: "emits (run_all [check_offset,
        ensure_fits_in_block (FragmentHeader_disk_size + 1) WAL_FILE_BLOCK_SIZE]) ([] @ frag_pad off @ []) f"
      using less.prems by (intro emits_run_all_Cons check_offset_emits emits_run_all_Nil fits) simp_all
    have "emits (\<lambda>f. case run_all [check_offset,
        ensure_fits_in_block (FragmentHeader_disk_size + 1) WAL_FILE_BLOCK_SIZE] f of (c, f1) \<Rightarrow>
        if is_ok c then payload_round z r rest first f1 else (c, f1))
        (([] @ frag_pad off @ []) @ frag_bytes fr @ payload_bytes z r (drop n rest) False ?next) f"
      by (rule emits_seq [OF less.prems pad], rule round) simp_all
    moreover have "payload_bytes z r rest first off =
        frag_pad off @ frag_bytes fr @ payload_bytes z r (drop n rest) False ?next"
      using False by (simp add: payload_bytes.simps [of z r rest first off] Let_def n_def [symmetric] fr_def [symmetric])
    ultimately show ?thesis
      unfolding off_def [symmetric] by (simp only: emits_def append_Nil append_Nil2 append.assoc
        write_payload_loop_round [OF False])
  qed
qed

lemma self_check_make [simp]: "self_check z (make_WALFileHeader z wid seq)"
  by (simp add: self_check_def make_WALFileHeader_def WALFileHeader_compute_crc32_def Let_def)

lemma WALFileHeader_write_emits:
  assumes tr: "tracked f" and h: "self_check z h"
    and room: "length (wdata f) mod WAL_FILE_BLOCK_SIZE + 40 \<le> WAL_FILE_BLOCK_SIZE"
  shows "emits (WALFileHeader_write z h) (header_bytes h) f"
proof -
  note fields = u32_field.wr_fits u64_field.wr_fits
  have "emits (run_all
        [check_offset,
         ensure_fits_in_block WALFileHeader_disk_size WAL_FILE_BLOCK_SIZE,
         write_u32_t_le (magic h) WAL_FILE_BLOCK_SIZE,
         write_u32_t_le (version h) WAL_FILE_BLOCK_SIZE,
         write_u32_t_le (header_size h) WAL_FILE_BLOCK_SIZE,
         write_u64_t_le (wal_id h) WAL_FILE_BLOCK_SIZE,
         write_u64_t_le (start_seq h) WAL_FILE_BLOCK_SIZE,
         write_u32_t_le (block_size h) WAL_FILE_BLOCK_SIZE,
         write_u32_t_le (reserved h) WAL_FILE_BLOCK_SIZE,
         write_u32_t_le (header_crc32 h) WAL_FILE_BLOCK_SIZE,
         check_offset])
      ([] @ [] @ enc_u32 (magic h) @ enc_u32 (version h) @ enc_u32 (header_size h) @
       enc_u64 (wal_id h) @ enc_u64 (start_seq h) @ enc_u32 (block_size h) @
       enc_u32 (reserved h) @ enc_u32 (header_crc32 h) @ [] @ []) f"
    (is "emits (run_all ?as) _ f")
    using tr room
    by (intro emits_run_all_Cons check_offset_emits ensure_fits_emits_Nil fields emits_run_all_Nil)
      (simp_all add: WALFileHeader_disk_size_def add.assoc block_room [OF room])
  moreover have "WALFileHeader_write z h f = run_all ?as f"
    using h by (simp only: WALFileHeader_write_def if_False not_True_eq_False simp_thms)
  ultimately show ?thesis
    by (simp only: emits_def header_bytes_def append_Nil append_Nil2)
qed

section \<open>The writer as a whole\<close>

definition loggable :: "InternalRecord \<Rightarrow> bool" where
  "loggable r \<longleftrightarrow> is_valid_record_type (rtype r) \<and> length (key_entry r) \<le> u32_max \<and>
     length (value_entry r) \<le> u32_max"

text \<open>A write to an open log appends the record's layout at the end of the file.\<close>

lemma WALWriter_write_eq:
  assumes "wal_file w = Some f" "tracked f" "loggable r"
  shows "WALWriter_write z r w = (case write_payload_loop z r (record_payload r) True f of
    (c, f') \<Rightarrow> (c, w\<lparr>wal_file := Some f'\<rparr>))"
  using assms encode_record_payload_eq [of r]
  by (simp add: WALWriter_write_def WALWriter_write_payload_def loggable_def check_writer_offset_def
    current_position_def tracked_def)

text \<open>A created log holds exactly its header, and the header is durable.\<close>

lemma WALWriter_create_ok:
  assumes "WALWriter_create z path wid seq ok opened w = (Ok, w')" "opened = Inr f0" "wdata f0 = []" "wfd f0"
  obtains f where "wal_file w' = Some f" "tracked f" "wdata f = header_bytes (make_WALFileHeader z wid seq)"
    "wsynced f = length (wdata f)" "wal_path w' = path" "cur_wal_id w' = wid"
proof -
  let ?h = "make_WALFileHeader z wid seq" and ?f0 = "f0\<lparr>woff := 0\<rparr>"
  have t0: "tracked ?f0" using assms(3,4) by (simp add: tracked_def)
  have em: "emits (WALFileHeader_write z ?h) (header_bytes ?h) ?f0"
    using WALFileHeader_write_emits [OF t0 self_check_make] assms(3)
    by (simp add: WAL_FILE_BLOCK_SIZE_def)
  obtain c1 f1 where f1: "WALFileHeader_write z ?h ?f0 = (c1, f1)" by (cases "WALFileHeader_write z ?h ?f0")
  obtain c2 f2 where f2: "sync f1 = (c2, f2)" by (cases "sync f1")
  have cs: "c1 = Ok \<and> c2 = Ok \<and> wal_file w' = Some f2 \<and> wal_path w' = path \<and> cur_wal_id w' = wid"
    using assms(1,2) f1 f2
    by (auto simp: WALWriter_create_def Let_def split: if_splits prod.splits)
  with emits_okD [OF em _ t0] f1 assms(3) have "wdata f1 = header_bytes ?h" "tracked f1" by auto
  with syncD [OF f2] cs that [of f2] show ?thesis by simp
qed

text \<open>Closing reports the first failure and always gives the file up.\<close>

lemma WALWriter_close_closes:
  "WALWriter_close w = (c, w') \<Longrightarrow> wal_file w' = None \<and>
    (case wal_file w of None \<Rightarrow> w' = w \<and> c = Ok
     | Some f \<Rightarrow> (\<exists>f'. disk w' (wal_path w) = Some f' \<and> wdata f' = wdata f \<and> \<not> wfd f' \<and>
         (c = Ok \<longrightarrow> wsynced f' = length (wdata f))))"
  using syncD
  by (auto simp: WALWriter_close_def drop_file_def wclose_def split: option.splits prod.splits if_splits)

end
