(* ===== verification/WALLoader.thy ===== *)
theory WALLoader
  imports WALWriter
begin

text \<open>
  Recovery of the log: \<open>WALLoader::load\<close> and \<open>WALStreamingLoader\<close> of
  \<^verbatim>\<open>src/core/engine/wal.cpp\<close>. The loops end because a loaded fragment moves the offset
  (\<open>Fragment_load_keeps\<close>). Error messages are not modelled, so the results have no error string
  and the streaming loader no \<open>terminal_error_\<close>. \<open>None\<close> is the exception of \<open>Arena::rollback\<close>.
\<close>

section \<open>WALLoader\<close>

record LoadResult =
  records :: "InternalRecord list"
  res_header :: "WALFileHeader option"
  res_ok :: bool
  had_torn_tail :: bool
  had_corruption :: bool

type_synonym load_outcome = "(LoadResult result \<times> arena \<times> rfile) option"

text \<open>Every way out of the loop other than a clean end rolls the arena back to the last complete
  record and puts the offset there.\<close>

definition give_up ::
  "LoadResult result \<Rightarrow> checkpoint \<Rightarrow> nat \<Rightarrow> arena \<Rightarrow> rfile \<Rightarrow> load_outcome" where
  "give_up res cp last_good_offset ar f =
     map_option (\<lambda>ar'. (res, ar', f\<lparr>roff := last_good_offset\<rparr>)) (rollback cp ar)"

definition load_failed ::
  "StatusCode \<Rightarrow> LoadResult \<Rightarrow> checkpoint \<Rightarrow> nat \<Rightarrow> arena \<Rightarrow> rfile \<Rightarrow> load_outcome" where
  "load_failed code res cp last_good_offset ar f =
     (if is_recoverable_tail_error code
      then give_up (Inr (res\<lparr>had_torn_tail := True, res_ok := True\<rparr>)) cp last_good_offset ar f
      else if is_corruption_error code
      then give_up (Inr (res\<lparr>had_corruption := True, res_ok := False\<rparr>)) cp last_good_offset ar f
      else give_up (Inl code) cp last_good_offset ar f)"

function load_loop ::
  "zlib \<Rightarrow> assembler \<Rightarrow> nat \<Rightarrow> checkpoint \<Rightarrow> LoadResult \<Rightarrow> arena \<Rightarrow> rfile \<Rightarrow> load_outcome" where
  "load_loop z asm last_good_offset cp res ar f =
     (case Fragment_load z f of
        (Inl code, f1) \<Rightarrow> load_failed code res cp last_good_offset ar f1
      | (Inr None, f1) \<Rightarrow>
          if active asm
          then give_up (Inr (res\<lparr>had_torn_tail := True\<rparr>)) cp last_good_offset ar f1
          else Some (Inr res, ar, f1)
      | (Inr (Some fr), f1) \<Rightarrow> (case consume fr asm ar of
            None \<Rightarrow> None
          | Some (Inl _, _, ar1) \<Rightarrow>
              give_up (Inr (res\<lparr>had_corruption := True, res_ok := False\<rparr>)) cp last_good_offset ar1 f1
          | Some (Inr None, asm1, ar1) \<Rightarrow> load_loop z asm1 last_good_offset cp res ar1 f1
          | Some (Inr (Some r), asm1, ar1) \<Rightarrow>
              load_loop z asm1 (roff f1) (take_checkpoint ar1)
                (res\<lparr>records := records res @ [r]\<rparr>) ar1 f1))"
  by pat_completeness auto
termination
  by (relation "measure (\<lambda>(z, asm, last_good_offset, cp, res, ar, f). length (rdata f) - roff f)")
    (auto dest!: Fragment_load_keeps [OF sym] intro!: diff_less_mono2)

declare load_loop.simps [simp del]

definition WALLoader_load :: "zlib \<Rightarrow> u32 \<Rightarrow> arena \<Rightarrow> rfile \<Rightarrow> load_outcome" where
  "WALLoader_load z expected_wal_id ar f =
     (case WALFileHeader_load z expected_wal_id f of
        (Inl e, f1) \<Rightarrow> Some (Inl e, ar, f1)
      | (Inr None, f1) \<Rightarrow> Some (Inl UnexpectedEOF, ar, f1)
      | (Inr (Some h), f1) \<Rightarrow>
          load_loop z asm_init (roff f1) (take_checkpoint ar)
            \<lparr>records = [], res_header = Some h, res_ok = True, had_torn_tail = False,
             had_corruption = False\<rparr> ar f1)"

text \<open>The overload that opens the file: \<open>opened\<close> is what \<open>open_readable_file\<close> returned.\<close>

definition WALLoader_load_path ::
  "zlib \<Rightarrow> string \<Rightarrow> rfile result \<Rightarrow> u32 \<Rightarrow> arena \<Rightarrow> (LoadResult result \<times> arena) option" where
  "WALLoader_load_path z path opened expected_wal_id ar =
     (if path = [] then Some (Inl InvalidArgument, ar)
      else case opened of
        Inl e \<Rightarrow> Some (Inl e, ar)
      | Inr f \<Rightarrow> (case WALLoader_load z expected_wal_id ar (f\<lparr>roff := 0\<rparr>) of
          None \<Rightarrow> None
        | Some (load_result, ar', f') \<Rightarrow>
            let close_status = fst (rclose f') in
            (case load_result of
               Inl e \<Rightarrow> Some (Inl e, ar')
             | Inr res \<Rightarrow> if \<not> is_ok close_status then Some (Inl close_status, ar')
                         else Some (Inr res, ar'))))"

section \<open>WALStreamingLoader\<close>

datatype loader_state = Closed | Ready | EndOfFile | TornTail | Corrupted

record StreamResult =
  logical_record :: "InternalRecord option"
  str_header :: "WALFileHeader option"
  reached_eof :: bool
  str_ok :: bool
  str_torn_tail :: bool
  str_corruption :: bool
  last_good_offset :: nat

record WALStreamingLoader =
  str_file :: "rfile option"
  str_result :: StreamResult
  str_state :: loader_state
  str_arena :: arena

definition stream_result_init :: StreamResult where
  "stream_result_init = \<lparr>logical_record = None, str_header = None, reached_eof = False,
     str_ok = True, str_torn_tail = False, str_corruption = False, last_good_offset = 0\<rparr>"

definition stream_init :: "arena \<Rightarrow> WALStreamingLoader" where
  "stream_init ar = \<lparr>str_file = None, str_result = stream_result_init, str_state = Closed, str_arena = ar\<rparr>"

definition stream_open :: "rfile result \<Rightarrow> WALStreamingLoader action" where
  "stream_open opened l =
     (if str_file l \<noteq> None then (InvariantViolation, l)
      else case opened of
        Inl e \<Rightarrow> (e, l)
      | Inr f \<Rightarrow> (Ok, l\<lparr>str_file := Some f, str_result := stream_result_init, str_state := Ready\<rparr>))"

definition validate_state :: "nat \<Rightarrow> u32 \<Rightarrow> WALStreamingLoader \<Rightarrow> StatusCode" where
  "validate_state offset expected_wal_id l =
     (case str_file l of
        None \<Rightarrow> InvariantViolation
      | Some f \<Rightarrow>
          if str_state l \<noteq> Ready then InvariantViolation
          else case get_file_size f of
            Inl e \<Rightarrow> e
          | Inr file_size \<Rightarrow>
              if offset > file_size then InvalidOffset
              else case str_header (str_result l) of
                None \<Rightarrow> if offset \<noteq> 0 then InvariantViolation else Ok
              | Some h \<Rightarrow>
                  if offset = 0 then InvariantViolation
                  else if wal_id h \<noteq> ucast expected_wal_id then InvariantViolation
                  else Ok)"

definition reset_call_result :: "WALStreamingLoader \<Rightarrow> WALStreamingLoader" where
  "reset_call_result l = l\<lparr>str_result := (str_result l)\<lparr>logical_record := None, reached_eof := False,
     str_ok := True, str_torn_tail := False, str_corruption := False\<rparr>\<rparr>"

definition mark_torn_tail :: "WALStreamingLoader \<Rightarrow> WALStreamingLoader" where
  "mark_torn_tail l = l\<lparr>str_state := TornTail, str_result := (str_result l)\<lparr>str_ok := True,
     str_torn_tail := True, str_corruption := False, reached_eof := False\<rparr>\<rparr>"

definition mark_corruption :: "WALStreamingLoader \<Rightarrow> WALStreamingLoader" where
  "mark_corruption l = l\<lparr>str_state := Corrupted, str_result := (str_result l)\<lparr>str_ok := False,
     str_torn_tail := False, str_corruption := True, reached_eof := False\<rparr>\<rparr>"

text \<open>The caller's offset is the first component of the state of a call.\<close>

type_synonym stream_outcome = "(StatusCode \<times> nat \<times> WALStreamingLoader) option"

definition stream_give_up ::
  "StatusCode \<Rightarrow> (WALStreamingLoader \<Rightarrow> WALStreamingLoader) \<Rightarrow> checkpoint \<Rightarrow> arena \<Rightarrow> rfile \<Rightarrow>
    WALStreamingLoader \<Rightarrow> stream_outcome" where
  "stream_give_up code mark cp ar f l =
     map_option (\<lambda>ar'. (code, last_good_offset (str_result l),
       mark (l\<lparr>str_file := Some f, str_arena := ar'\<rparr>))) (rollback cp ar)"

function stream_loop ::
  "zlib \<Rightarrow> assembler \<Rightarrow> checkpoint \<Rightarrow> arena \<Rightarrow> rfile \<Rightarrow> WALStreamingLoader \<Rightarrow> stream_outcome" where
  "stream_loop z asm cp ar f l =
     (case Fragment_load z f of
        (Inl code, f1) \<Rightarrow>
          if is_recoverable_tail_error code then stream_give_up Ok mark_torn_tail cp ar f1 l
          else if is_corruption_error code then stream_give_up Ok mark_corruption cp ar f1 l
          else stream_give_up code (\<lambda>l. l) cp ar f1 l
      | (Inr None, f1) \<Rightarrow>
          if active asm then stream_give_up Ok mark_torn_tail cp ar f1 l
          else map_option (\<lambda>ar'. (Ok, roff f1, l\<lparr>str_file := Some f1, str_arena := ar',
                 str_state := EndOfFile, str_result := (str_result l)\<lparr>reached_eof := True\<rparr>\<rparr>))
                 (rollback cp ar)
      | (Inr (Some fr), f1) \<Rightarrow> (case consume fr asm ar of
            None \<Rightarrow> None
          | Some (Inl _, _, ar1) \<Rightarrow> stream_give_up Ok mark_corruption cp ar1 f1 l
          | Some (Inr None, asm1, ar1) \<Rightarrow> stream_loop z asm1 cp ar1 f1 l
          | Some (Inr (Some r), _, ar1) \<Rightarrow>
              Some (Ok, roff f1, l\<lparr>str_file := Some f1, str_arena := ar1,
                str_result := (str_result l)\<lparr>logical_record := Some r, last_good_offset := roff f1\<rparr>\<rparr>)))"
  by pat_completeness auto
termination
  by (relation "measure (\<lambda>(z, asm, cp, ar, f, l). length (rdata f) - roff f)")
    (auto dest!: Fragment_load_keeps [OF sym] intro!: diff_less_mono2)

declare stream_loop.simps [simp del]

definition load_next_records :: "zlib \<Rightarrow> nat \<Rightarrow> rfile \<Rightarrow> WALStreamingLoader \<Rightarrow> stream_outcome" where
  "load_next_records z offset f l =
     stream_loop z asm_init (take_checkpoint (str_arena l)) (str_arena l) (f\<lparr>roff := offset\<rparr>) l"

definition load_next :: "zlib \<Rightarrow> u32 \<Rightarrow> nat \<Rightarrow> WALStreamingLoader \<Rightarrow> stream_outcome" where
  "load_next z expected_wal_id offset l0 =
     (let l = reset_call_result l0 in
      case str_state l of
        Closed \<Rightarrow> Some (InvariantViolation, offset, l)
      | EndOfFile \<Rightarrow> Some (Ok, offset, l\<lparr>str_result := (str_result l)\<lparr>reached_eof := True\<rparr>\<rparr>)
      | TornTail \<Rightarrow> Some (Ok, offset, l\<lparr>str_result := (str_result l)\<lparr>str_torn_tail := True\<rparr>\<rparr>)
      | Corrupted \<Rightarrow> Some (Ok, offset,
          l\<lparr>str_result := (str_result l)\<lparr>str_ok := False, str_corruption := True\<rparr>\<rparr>)
      | Ready \<Rightarrow>
          let status = validate_state offset expected_wal_id l in
          if \<not> is_ok status then Some (status, offset, l)
          else case str_file l of
            None \<Rightarrow> Some (InvariantViolation, offset, l)
          | Some f \<Rightarrow> (case str_header (str_result l) of
              Some _ \<Rightarrow> load_next_records z offset f l
            | None \<Rightarrow> (case WALFileHeader_load z expected_wal_id (f\<lparr>roff := offset\<rparr>) of
                (Inl code, f1) \<Rightarrow>
                  let l1 = l\<lparr>str_file := Some f1\<rparr> in
                  if is_recoverable_tail_error code then Some (Ok, roff f1, mark_torn_tail l1)
                  else if is_corruption_error code then Some (Ok, roff f1, mark_corruption l1)
                  else Some (code, roff f1, l1)
              | (Inr None, f1) \<Rightarrow> Some (Ok, roff f1, mark_torn_tail (l\<lparr>str_file := Some f1\<rparr>))
              | (Inr (Some h), f1) \<Rightarrow>
                  let l1 = l\<lparr>str_file := Some f1, str_result := (str_result l)\<lparr>str_header := Some h\<rparr>\<rparr> in
                  if wal_id h \<noteq> ucast expected_wal_id then Some (Ok, roff f1, mark_corruption l1)
                  else load_next_records z (roff f1) f1
                    (l1\<lparr>str_result := (str_result l1)\<lparr>last_good_offset := roff f1\<rparr>\<rparr>))))"

end
