(* ===== verification/Engine.thy ===== *)
theory Engine
  imports DBOptions CompactionJob WALLoader
begin

text \<open>
  The storage engine (\<^verbatim>\<open>core/engine/engine.cpp\<close>) and the factory of \<^verbatim>\<open>core/kvdb.cpp\<close>. The
  state is the members of the class and the disk; every public operation holds the mutex and is one
  function of the state. The bytes of the log and of the manifest, which their objects hold while they are
  open, are copied to the disk after every operation on them. What the operating system answers is a
  record of answers, by path, table, log or sequence number; which allocations of the engine fail is a script.
  \<open>None\<close> is an exception that leaves the operation, or a loop that does not end.
\<close>

section \<open>State\<close>

record engine_env =
  ee_exists_ok :: "string \<Rightarrow> bool"
  ee_remove_ok :: "string \<Rightarrow> bool"
  ee_db_dir :: "bool option"
  ee_is_directory :: "bool option"
  ee_create_db_dir :: bool
  ee_create_sstable_dir :: bool
  ee_manifest_size_ok :: bool
  ee_manifest_read :: read_env
  ee_manifest_write :: write_env
  ee_manifest_resize_ok :: bool
  ee_wal_read :: read_env
  ee_wal_write :: "u32 \<Rightarrow> write_env"
  ee_table_read :: "u64 \<Rightarrow> read_env"
  ee_table_write :: "u32 \<Rightarrow> write_env"
  ee_job :: job_env
  ee_chance :: "u64 \<Rightarrow> chance"
  ee_read_oom :: "bool list"
  ee_arena_oom :: "bool list"

record 'd Engine =
  e_options :: DBOptions
  e_manifest :: Manifest
  e_lm :: LevelManager
  e_wal :: WALWriter
  e_mem :: "'d MemTable"
  e_mgr :: SSTableManager
  e_arena :: arena
  e_manifest_path :: string
  e_sstable_dir :: string
  e_next_seq :: u64
  e_wal_id :: u32
  e_flush_count :: u64
  e_compaction_count :: u64
  e_opened :: bool
  e_closed :: bool
  e_disk :: disk
  e_faults :: "bool list"

type_synonym 'd engine_step = "'d Engine \<Rightarrow> (StatusCode \<times> 'd Engine) option"

text \<open>A new engine has null pointers for its components; \<open>ensure_open\<close> keeps every operation but \<open>open\<close>
  and \<open>close\<close> from reading them, so the values here are arbitrary.\<close>

definition Engine_new :: "'d Driver \<Rightarrow> DBOptions \<Rightarrow> disk \<Rightarrow> bool list \<Rightarrow> 'd Engine" where
  "Engine_new D opts d faults =
     \<lparr>e_options = opts, e_manifest = Manifest_new [], e_lm = \<lparr>lm_levels = []\<rparr>, e_wal = writer_init, e_mem = MemTable_new D,
      e_mgr = SSTableManager_new [],
      e_arena = \<lparr>page_size = 0, large_threshold = 0, pages = [], large = [], destructors = [], destroyed = [], oom = []\<rparr>,
      e_manifest_path = [], e_sstable_dir = [], e_next_seq = 1, e_wal_id = 1, e_flush_count = 0, e_compaction_count = 0,
      e_opened = False, e_closed = False, e_disk = d, e_faults = faults\<rparr>"

definition next_fault :: "'d Engine \<Rightarrow> bool \<times> 'd Engine" where
  "next_fault e = (case e_faults e of [] \<Rightarrow> (False, e) | b # bs \<Rightarrow> (b, e\<lparr>e_faults := bs\<rparr>))"

definition then_e :: "'d engine_step \<Rightarrow> 'd engine_step \<Rightarrow> 'd engine_step" where
  "then_e a b e = (case a e of None \<Rightarrow> None | Some (c, e') \<Rightarrow> if is_ok c then b e' else Some (c, e'))"

section \<open>Helpers\<close>

definition api_value :: "InternalRecord \<Rightarrow> byte list option result" where
  "api_value r =
     (if rtype r = Tombstone then Inr None
      else if rtype r \<noteq> Put then Inl Corruption
      else Inr (Some (value_entry r)))"

definition remove_if_present :: "engine_env \<Rightarrow> string \<Rightarrow> 'd Engine action" where
  "remove_if_present env p e = (if ee_remove_ok env p then (Ok, e\<lparr>e_disk := (e_disk e)(p := None)\<rparr>) else (IOError, e))"

definition engine_wal_path :: "DBOptions \<Rightarrow> u32 \<Rightarrow> string" where
  "engine_wal_path opts wid = path_join (db_path opts) (''wal-'' @ zero_pad 9 (decimal (unat wid)) @ ''.log'')"

text \<open>The bytes of an open log or manifest on the disk.\<close>

definition wal_contents :: "string \<Rightarrow> WALWriter \<Rightarrow> byte list option" where
  "wal_contents p w = (case wal_file w of Some f \<Rightarrow> Some (wdata f) | None \<Rightarrow> map_option wdata (disk w p))"

definition wal_to_disk :: "string \<Rightarrow> WALWriter \<Rightarrow> disk \<Rightarrow> disk" where
  "wal_to_disk p w d = d(p := wal_contents p w)"

definition manifest_to_disk :: "Manifest \<Rightarrow> disk \<Rightarrow> disk" where
  "manifest_to_disk m d = (case m_writable m of None \<Rightarrow> d | Some f \<Rightarrow> d(m_path m \<mapsto> wdata f))"

text \<open>\<open>WAL::create\<close> on a new object, and the operations on the current log.\<close>

definition create_wal :: "zlib \<Rightarrow> engine_env \<Rightarrow> string \<Rightarrow> u32 \<Rightarrow> u64 \<Rightarrow> disk \<Rightarrow> StatusCode \<times> WALWriter \<times> disk" where
  "create_wal z env p wid start d =
     (let we = ee_wal_write env wid in
      case WALWriter_create z p wid start (we_remove_ok we) (open_writable_file we p (d(p := None))) writer_init of
        (c, w) \<Rightarrow> (c, w, if we_remove_ok we then wal_to_disk p w d else d))"

definition on_wal :: "WALWriter action \<Rightarrow> 'd Engine action" where
  "on_wal a e =
     (case a (e_wal e) of (c, w) \<Rightarrow>
        (c, e\<lparr>e_wal := w, e_disk := wal_to_disk (engine_wal_path (e_options e) (e_wal_id e)) w (e_disk e)\<rparr>))"

definition commit :: "zlib \<Rightarrow> VersionEdit \<Rightarrow> 'd Engine action" where
  "commit z edit e =
     (case next_fault e of (staging_fails, e) \<Rightarrow>
        case Manifest_commit z staging_fails edit (e_manifest e, e_lm e) of (c, _, m, lm) \<Rightarrow>
          (c, e\<lparr>e_manifest := m, e_lm := lm, e_disk := manifest_to_disk m (e_disk e)\<rparr>))"

definition make_edit :: "u64 option \<Rightarrow> u64 option \<Rightarrow> u64 option \<Rightarrow> TableMeta list \<Rightarrow> VersionEdit" where
  "make_edit tid sq wid ms =
     \<lparr>edit_header = \<lparr>edit_crc32 = 0, edit_payload_size = 0\<rparr>,
      edit_payload = \<lparr>edit_next_table_id = tid, edit_next_sequence_number = sq, edit_current_wal_id = wid,
        deleted_tables = [], new_tables = ms\<rparr>\<rparr>"

definition ensure_open :: "'d Engine \<Rightarrow> StatusCode" where
  "ensure_open e = (if e_closed e then UseAfterClose else if \<not> e_opened e then FailedPrecondition else Ok)"

section \<open>Opening\<close>

definition prepare_dirs :: "engine_env \<Rightarrow> 'd Engine action" where
  "prepare_dirs env e =
     (case ee_db_dir env of
        None \<Rightarrow> (IOError, e)
      | Some existed \<Rightarrow>
          let opts = e_options e;
              c = (if existed then
                     (case ee_is_directory env of
                        None \<Rightarrow> IOError
                      | Some is_dir \<Rightarrow> if \<not> is_dir then InvalidArgument else if error_if_exists opts then AlreadyExists else Ok)
                   else if \<not> create_if_missing opts then NotFound
                   else if \<not> ee_create_db_dir env then IOError else Ok) in
          if \<not> is_ok c then (c, e)
          else let e = e\<lparr>e_sstable_dir := path_join (db_path opts) ''sstables''\<rparr> in
            if \<not> ee_create_sstable_dir env then (IOError, e)
            else (Ok, e\<lparr>e_manifest_path := path_join (db_path opts) ''MANIFEST''\<rparr>))"

definition recover_manifest :: "zlib \<Rightarrow> engine_env \<Rightarrow> 'd engine_step" where
  "recover_manifest z env e =
     (let p = e_manifest_path e in
      case Manifest_load z p (open_readable_file (ee_manifest_read env) p (e_disk e)) (e_lm e) (e_arena e) of
        None \<Rightarrow> None
      | Some (Inl c, lm, ar) \<Rightarrow> Some (c, e\<lparr>e_lm := lm, e_arena := ar\<rparr>)
      | Some (Inr m, lm, ar) \<Rightarrow>
          (case Manifest_prepare_for_append (ee_manifest_resize_ok env) (m, the (e_disk e p)) of (c, m, bytes) \<Rightarrow>
             let e = e\<lparr>e_lm := lm, e_arena := ar, e_manifest := m, e_disk := (e_disk e)(p \<mapsto> bytes)\<rparr> in
             if \<not> is_ok c then Some (c, e)
             else case open_writable_file (ee_manifest_write env) p (e_disk e) of
               Inl c \<Rightarrow> Some (c, e)
             | Inr f \<Rightarrow> (case Manifest_attach_writer (Some f) m of (c, m) \<Rightarrow> Some (c, e\<lparr>e_manifest := m\<rparr>))))"

definition open_manifest :: "zlib \<Rightarrow> engine_env \<Rightarrow> 'd engine_step" where
  "open_manifest z env e =
     (let p = e_manifest_path e; here = e_disk e p \<noteq> None in
      if \<not> ee_exists_ok env p then Some (IOError, e)
      else if here \<and> \<not> ee_manifest_size_ok env then Some (IOError, e)
      else if here \<and> length (the (e_disk e p)) > 0 then recover_manifest z env e
      else case Manifest_open_or_create z (Some here) (Some (length (the (e_disk e p)))) (open_writable_file (ee_manifest_write env) p (e_disk e))
                  (Manifest_new p) of
             (c, m) \<Rightarrow> Some (c, e\<lparr>e_manifest := m, e_disk := manifest_to_disk m (e_disk e)\<rparr>))"

text \<open>The loop over the recovered records, and the loop that copies them to the replacement log.\<close>

fun replay_records :: "'d Driver \<Rightarrow> engine_env \<Rightarrow> InternalRecord list \<Rightarrow> 'd Engine action" where
  "replay_records D env [] e = (Ok, e)"
| "replay_records D env (r # rs) e =
     (case MemTable_apply D (ee_chance env (seq_num r)) r (e_mem e) of (c, m) \<Rightarrow>
        let e = e\<lparr>e_mem := m\<rparr> in
        if \<not> is_ok c then (c, e)
        else if seq_num r = - 1 then (InvariantViolation, e)
        else replay_records D env rs (e\<lparr>e_next_seq := max (e_next_seq e) (seq_num r + 1)\<rparr>))"

fun write_records :: "zlib \<Rightarrow> InternalRecord list \<Rightarrow> WALWriter action" where
  "write_records z [] w = (Ok, w)"
| "write_records z (r # rs) w = (case WALWriter_write z r w of (c, w) \<Rightarrow> if \<not> is_ok c then (c, w) else write_records z rs w)"

definition replace_wal :: "zlib \<Rightarrow> engine_env \<Rightarrow> InternalRecord list \<Rightarrow> 'd Engine action" where
  "replace_wal z env rs e =
     (if unat (e_wal_id e) = u32_max then (InvariantViolation, e)
      else let current_path = engine_wal_path (e_options e) (e_wal_id e);
               wid = e_wal_id e + 1;
               p = engine_wal_path (e_options e) wid in
        case remove_if_present env p e of (c, e) \<Rightarrow> if \<not> is_ok c then (c, e)
        else case create_wal z env p wid (if rs = [] then e_next_seq e else seq_num (hd rs)) (e_disk e) of (c, w, d) \<Rightarrow>
          let e = e\<lparr>e_disk := d\<rparr> in if \<not> is_ok c then (c, e)
        else case write_records z rs w of (c, w) \<Rightarrow>
          let e = e\<lparr>e_disk := wal_to_disk p w (e_disk e)\<rparr> in
          if \<not> is_ok c then (c, snd (remove_if_present env p (e\<lparr>e_disk := wal_to_disk p (snd (WALWriter_close w)) (e_disk e)\<rparr>)))
        else case WALWriter_sync w of (c, w) \<Rightarrow>
          let e = e\<lparr>e_disk := wal_to_disk p w (e_disk e)\<rparr> in
          if \<not> is_ok c then (c, e\<lparr>e_disk := wal_to_disk p (snd (WALWriter_close w)) (e_disk e)\<rparr>)
        else case commit z (make_edit None (Some (e_next_seq e)) (Some (ucast wid)) []) e of (c, e) \<Rightarrow>
          if \<not> is_ok c then (c, e\<lparr>e_disk := wal_to_disk p (snd (WALWriter_close w)) (e_disk e)\<rparr>)
        else remove_if_present env current_path (e\<lparr>e_wal := w, e_wal_id := wid\<rparr>))"

definition open_wal :: "zlib \<Rightarrow> 'd Driver \<Rightarrow> engine_env \<Rightarrow> 'd engine_step" where
  "open_wal z D env e =
     (let wid = sc_current_wal_id (m_counters (e_manifest e)) in
      if wid = 0 \<or> unat wid > u32_max then Some (Corruption, e)
      else let e = e\<lparr>e_wal_id := ucast wid, e_next_seq := sc_next_sequence_number (m_counters (e_manifest e))\<rparr>;
               current_path = engine_wal_path (e_options e) (e_wal_id e) in
        if \<not> ee_exists_ok env current_path then Some (IOError, e)
        else if e_disk e current_path = None then
          (case remove_if_present env current_path e of (c, e) \<Rightarrow>
             if \<not> is_ok c then Some (c, e)
             else case create_wal z env current_path (e_wal_id e) (e_next_seq e) (e_disk e) of (c, w, d) \<Rightarrow>
               Some (c, e\<lparr>e_wal := w, e_disk := d\<rparr>))
        else case WALLoader_load_path z current_path (open_readable_file (ee_wal_read env) current_path (e_disk e)) (e_wal_id e) (e_arena e) of
          None \<Rightarrow> None
        | Some (Inl c, ar) \<Rightarrow> Some (c, e\<lparr>e_arena := ar\<rparr>)
        | Some (Inr recovered, ar) \<Rightarrow>
            let e = e\<lparr>e_arena := ar\<rparr> in
            if \<not> res_ok recovered \<or> had_corruption recovered then Some (Corruption, e)
            else case replay_records D env (records recovered) e of (c, e) \<Rightarrow>
              if \<not> is_ok c then Some (c, e) else Some (replace_wal z env (records recovered) e))"

definition Engine_open :: "zlib \<Rightarrow> 'd Driver \<Rightarrow> engine_env \<Rightarrow> 'd engine_step" where
  "Engine_open z D env e =
     (if e_opened e then Some (Ok, e)
      else if e_closed e then Some (UseAfterClose, e)
      else let c = DBOptions_validate (e_options e) in if \<not> is_ok c then Some (c, e)
      else case prepare_dirs env e of (c, e) \<Rightarrow> if \<not> is_ok c then Some (c, e)
      else case next_fault e of (bad_alloc, e) \<Rightarrow> if bad_alloc then Some (OutOfMemory, e)
      else case arena_init (ao_page_size (db_arena (e_options e))) (ao_large_threshold (db_arena (e_options e))) (ee_arena_oom env) of
        None \<Rightarrow> None
      | Some ar \<Rightarrow>
          (case LevelManager_new (unat (co_max_levels (db_compaction (e_options e)))) of
             None \<Rightarrow> None
           | Some lm \<Rightarrow>
               then_e (open_manifest z env) (then_e (open_wal z D env) (\<lambda>e. Some (Ok, e\<lparr>e_opened := True\<rparr>)))
                 (e\<lparr>e_arena := ar, e_lm := lm, e_mem := MemTable_new D, e_mgr := SSTableManager_new (e_sstable_dir e)\<rparr>)))"

section \<open>Flush\<close>

definition rotate_wal :: "zlib \<Rightarrow> engine_env \<Rightarrow> 'd Engine \<Rightarrow> StatusCode \<times> (u32 \<times> WALWriter) option \<times> 'd Engine" where
  "rotate_wal z env e =
     (if MemTable_immutable_count (e_mem e) \<noteq> 1 then (Ok, None, e)
      else if unat (e_wal_id e) = u32_max then (InvariantViolation, None, e)
      else let wid = e_wal_id e + 1; p = engine_wal_path (e_options e) wid in
        case remove_if_present env p e of (c, e) \<Rightarrow> if \<not> is_ok c then (c, None, e)
        else case create_wal z env p wid (e_next_seq e) (e_disk e) of (c, w, d) \<Rightarrow>
          let e = e\<lparr>e_disk := d\<rparr> in if \<not> is_ok c then (c, None, e) else (Ok, Some (wid, w), e))"

text \<open>After the commit: retire the generation, count the flush, switch to the replacement log.\<close>

definition finish_flush :: "engine_env \<Rightarrow> u64 \<Rightarrow> (u32 \<times> WALWriter) option \<Rightarrow> 'd Engine action" where
  "finish_flush env gid replacement e =
     (case MemTable_retire_oldest_immutable gid (e_mem e) of (retired, m) \<Rightarrow>
        let e = e\<lparr>e_mem := m\<rparr> in
        if \<not> retired then (InvariantViolation, e)
        else let e = (if e_flush_count e \<noteq> - 1 then e\<lparr>e_flush_count := e_flush_count e + 1\<rparr> else e) in
          case replacement of
            None \<Rightarrow> (Ok, e)
          | Some (wid, w) \<Rightarrow>
              let old_path = engine_wal_path (e_options e) (e_wal_id e) in
              (case on_wal WALWriter_close e of (c, e) \<Rightarrow>
                 if \<not> is_ok c then (c, e)
                 else remove_if_present env old_path (e\<lparr>e_wal := w, e_wal_id := wid\<rparr>)))"

definition publish_flush :: "zlib \<Rightarrow> engine_env \<Rightarrow> u64 \<Rightarrow> TableMeta \<Rightarrow> 'd Engine action" where
  "publish_flush z env gid meta e =
     (case rotate_wal z env e of (c, replacement, e) \<Rightarrow>
        if \<not> is_ok c then (c, e)
        else case commit z (make_edit (Some (sc_next_table_id (m_counters (e_manifest e)) + 1)) (Some (e_next_seq e))
                              (map_option (ucast \<circ> fst) replacement) [meta]) e of (c, e) \<Rightarrow>
          if is_ok c then finish_flush env gid replacement e
          else (case replacement of
                  None \<Rightarrow> (c, e)
                | Some (wid, w) \<Rightarrow>
                    let p = engine_wal_path (e_options e) wid in
                    (c, snd (remove_if_present env p (e\<lparr>e_disk := wal_to_disk p (snd (WALWriter_close w)) (e_disk e)\<rparr>)))))"

definition flush_oldest_immutable :: "zlib \<Rightarrow> 'd Driver \<Rightarrow> engine_env \<Rightarrow> 'd engine_step" where
  "flush_oldest_immutable z D env e =
     (case MemTable_oldest_immutable (e_mem e) of
        Inl c \<Rightarrow> Some (if c = NotFound then Ok else c, e)
      | Inr snapshot \<Rightarrow>
          let next_id = sc_next_table_id (m_counters (e_manifest e)) in
          if next_id = 0 \<or> unat next_id > u32_max then Some (InvariantViolation, e)
          else case next_fault e of (dump_oom, e) \<Rightarrow>
            case SSTableManager_build z D dump_oom (ucast next_id) (e_mem e) (e_mgr e) of
              Inl c \<Rightarrow> Some (c, e)
            | Inr None \<Rightarrow> Some (InvariantViolation, e)
            | Inr (Some t) \<Rightarrow>
                (case SSTableManager_write z (ee_table_write env (ucast next_id)) (t, e_disk e) of (c, t, d) \<Rightarrow>
                   let e = e\<lparr>e_disk := d\<rparr> in
                   if \<not> is_ok c then Some (c, e)
                   else case make_table_meta t 0 (e_arena e) of
                     None \<Rightarrow> None
                   | Some (r, ar) \<Rightarrow>
                       let e = e\<lparr>e_arena := ar\<rparr> in
                       (case r of Inl c \<Rightarrow> Some (c, e) | Inr meta \<Rightarrow> Some (publish_flush z env (generation_id snapshot) meta e))))"

section \<open>Compaction\<close>

fun remove_obsolete :: "engine_env \<Rightarrow> string list \<Rightarrow> 'd Engine action" where
  "remove_obsolete env [] e = (Ok, e)"
| "remove_obsolete env (p # ps) e = (case remove_if_present env p e of (c, e) \<Rightarrow> if \<not> is_ok c then (c, e) else remove_obsolete env ps e)"

definition run_compaction :: "zlib \<Rightarrow> engine_env \<Rightarrow> CompactionPlan \<Rightarrow> 'd engine_step" where
  "run_compaction z env plan e =
     (case CompactionJob_run z (ee_job env) plan (e_lm e) (e_manifest e) (e_mgr e, e_disk e, e_arena e) of
        None \<Rightarrow> None
      | Some (r, mgr, d, ar) \<Rightarrow>
          let e = e\<lparr>e_mgr := mgr, e_disk := d, e_arena := ar\<rparr> in
          (case r of
             Inl c \<Rightarrow> Some (c, e)
           | Inr None \<Rightarrow> Some (Ok, e)
           | Inr (Some edit) \<Rightarrow>
               let obsolete_paths = map (\<lambda>t. path_of_bytes (tm_path t)) (source_tables plan @ overlapping_tables plan) in
               (case commit z edit e of (c, e) \<Rightarrow>
                  if \<not> is_ok c then Some (c, e)
                  else let e = (if e_compaction_count e \<noteq> - 1 then e\<lparr>e_compaction_count := e_compaction_count e + 1\<rparr> else e) in
                    Some (remove_obsolete env obsolete_paths e))))"

partial_function (option) compact_loop :: "zlib \<Rightarrow> engine_env \<Rightarrow> CompactionOptions \<Rightarrow> 'd Engine \<Rightarrow> (StatusCode \<times> 'd Engine) option" where
  "compact_loop z env opts e =
     (if should_compact (e_lm e) opts then
        (case pick_compaction (e_lm e) opts of
           Inl c \<Rightarrow> Some (c, e)
         | Inr None \<Rightarrow> Some (Ok, e)
         | Inr (Some plan) \<Rightarrow>
             (case run_compaction z env plan e of
                None \<Rightarrow> None
              | Some (c, e') \<Rightarrow> if \<not> is_ok c then Some (c, e') else compact_loop z env opts e'))
      else Some (Ok, e))"

definition maybe_compact_unlocked :: "zlib \<Rightarrow> engine_env \<Rightarrow> 'd engine_step" where
  "maybe_compact_unlocked z env e =
     (if \<not> co_enable_background_compaction (db_compaction (e_options e)) then Some (Ok, e)
      else compact_loop z env (scheduler_options (e_options e)) e)"

section \<open>Flushing everything\<close>

lemma retire_shrinks: "MemTable_retire_oldest_immutable gid m = (True, m') \<Longrightarrow> length (immutable_tables m') < length (immutable_tables m)"
  by (cases "immutable_tables m") (auto simp: MemTable_retire_oldest_immutable_def split: if_splits)

lemma helpers_keep_mem [simp]:
  "e_mem (snd (remove_if_present env p e)) = e_mem e" "e_mem (snd (next_fault e)) = e_mem e"
  "e_mem (snd (commit z edit e)) = e_mem e" "e_mem (snd (on_wal a e)) = e_mem e"
  by (auto simp: remove_if_present_def next_fault_def commit_def on_wal_def split: list.splits prod.splits)

lemma rotate_keeps_mem: "rotate_wal z env e = (c, r, e') \<Longrightarrow> e_mem e' = e_mem e"
  by (auto simp: rotate_wal_def remove_if_present_def Let_def split: if_splits prod.splits)

lemma finish_flush_shrinks:
  assumes "finish_flush env gid r e = (Ok, e')"
  shows "length (immutable_tables (e_mem e')) < length (immutable_tables (e_mem e))"
proof -
  obtain b m where m: "MemTable_retire_oldest_immutable gid (e_mem e) = (b, m)" by force
  have "b" "e_mem e' = m"
    using assms m by (auto simp: finish_flush_def on_wal_def remove_if_present_def Let_def split: if_splits option.splits prod.splits)
  then show ?thesis using retire_shrinks [of gid "e_mem e" m] m by simp
qed

lemma publish_flush_shrinks:
  assumes "publish_flush z env gid meta e = (Ok, e')"
  shows "length (immutable_tables (e_mem e')) < length (immutable_tables (e_mem e))"
proof -
  obtain c r e1 where r: "rotate_wal z env e = (c, r, e1)" by (metis prod_cases3)
  note k = rotate_keeps_mem [OF r]
  have c: "c = Ok" using assms r by (auto simp: publish_flush_def split: if_splits)
  obtain c' e2 where d: "commit z (make_edit (Some (sc_next_table_id (m_counters (e_manifest e1)) + 1)) (Some (e_next_seq e1)) (map_option (ucast \<circ> fst) r) [meta]) e1 = (c', e2)"
    by force
  then have "e_mem e2 = e_mem e" using helpers_keep_mem(3) k by (metis snd_conv)
  moreover have "finish_flush env gid r e2 = (Ok, e')"
    using assms r c d by (auto simp: publish_flush_def Let_def split: if_splits option.splits prod.splits)
  ultimately show ?thesis using finish_flush_shrinks by metis
qed

lemma build_error: "SSTableManager_build z D b tid m mgr \<noteq> Inl Ok"
  using build_impl_spec [where z = z and tid = tid and rs = "fst (snd (MemTable_dump_oldest_immutable D b m [] 0))"
      and p = "make_tmp_table_path tid (sm_dir mgr)" and q = "make_table_path tid (sm_dir mgr)"]
  by (auto simp: SSTableManager_build_def build_memtable_def split: prod.splits if_splits sum.splits)

lemma flush_oldest_publishes:
  assumes "flush_oldest_immutable z D env e = Some (Ok, e')" "MemTable_has_immutable (e_mem e)"
  obtains gid meta e1 where "publish_flush z env gid meta e1 = (Ok, e')" "e_mem e1 = e_mem e"
proof -
  obtain b e0 where f: "next_fault e = (b, e0)" by force
  then have m: "e_mem e0 = e_mem e" using helpers_keep_mem(2) by (metis snd_conv)
  obtain s ss where s: "immutable_tables (e_mem e) = s # ss" using assms(2) by (auto simp: MemTable_has_immutable_def neq_Nil_conv)
  let ?id = "sc_next_table_id (m_counters (e_manifest e))"
  obtain t where t: "SSTableManager_build z D b (ucast ?id) (e_mem e0) (e_mgr e0) = Inr (Some t)"
    using assms(1) f s build_error [of z D b "ucast ?id" "e_mem e0" "e_mgr e0"] by (auto simp: flush_oldest_immutable_def MemTable_oldest_immutable_def Let_def split: if_splits option.splits sum.splits)
  obtain c t' d where w: "SSTableManager_write z (ee_table_write env (ucast ?id)) (t, e_disk e0) = (c, t', d)" by (metis prod_cases3)
  obtain meta ar where "make_table_meta t' 0 (e_arena e0) = Some (Inr meta, ar)"
    using assms(1) f s t w make_table_meta_error [of t' 0 "e_arena e0" Ok]
    by (auto simp: flush_oldest_immutable_def MemTable_oldest_immutable_def Let_def split: if_splits option.splits sum.splits prod.splits)
  then have "publish_flush z env (generation_id s) meta (e0\<lparr>e_disk := d, e_arena := ar\<rparr>) = (Ok, e')"
    using assms(1) f s t w by (auto simp: flush_oldest_immutable_def MemTable_oldest_immutable_def Let_def split: if_splits)
  then show thesis using that m by simp
qed

lemma flush_oldest_shrinks:
  assumes "flush_oldest_immutable z D env e = Some (Ok, e')" "MemTable_has_immutable (e_mem e)"
  shows "length (immutable_tables (e_mem e')) < length (immutable_tables (e_mem e))"
  using flush_oldest_publishes [OF assms] publish_flush_shrinks by metis

function flush_loop :: "zlib \<Rightarrow> 'd Driver \<Rightarrow> engine_env \<Rightarrow> 'd Engine \<Rightarrow> (StatusCode \<times> 'd Engine) option" where
  "flush_loop z D env e =
     (if MemTable_has_immutable (e_mem e) then
        (case flush_oldest_immutable z D env e of
           None \<Rightarrow> None
         | Some (c, e') \<Rightarrow> if is_ok c then flush_loop z D env e' else Some (c, e'))
      else Some (Ok, e))"
  by pat_completeness auto
termination
  by (relation "measure (\<lambda>(z, D, env, e). length (immutable_tables (e_mem e)))") (auto dest: flush_oldest_shrinks)

declare flush_loop.simps [simp del]

definition freeze_memtable :: "'d Driver \<Rightarrow> 'd Engine action" where
  "freeze_memtable D e =
     (case next_fault e of (factory_oom, e) \<Rightarrow> case next_fault e of (queue_oom, e) \<Rightarrow>
        case MemTable_freeze_mutable D factory_oom queue_oom (e_mem e) of (c, m) \<Rightarrow> (c, e\<lparr>e_mem := m\<rparr>))"

definition flush_unlocked :: "zlib \<Rightarrow> 'd Driver \<Rightarrow> engine_env \<Rightarrow> 'd engine_step" where
  "flush_unlocked z D env e =
     (let state = ensure_open e in
      if \<not> is_ok state then Some (state, e)
      else case freeze_memtable D e of (c, e) \<Rightarrow>
        if \<not> is_ok c then Some (c, e) else then_e (flush_loop z D env) (maybe_compact_unlocked z env) e)"

definition Engine_flush :: "zlib \<Rightarrow> 'd Driver \<Rightarrow> engine_env \<Rightarrow> 'd engine_step" where
  "Engine_flush = flush_unlocked"

definition maybe_flush_unlocked :: "zlib \<Rightarrow> 'd Driver \<Rightarrow> engine_env \<Rightarrow> 'd engine_step" where
  "maybe_flush_unlocked z D env e =
     (if MemTable_mutable_memory_usage D (e_mem e) \<ge> mo_size_limit (db_memtable (e_options e)) \<or>
         wal_offset (e_wal e) \<ge> unat (wo_file_size_limit (db_wal (e_options e)))
      then flush_unlocked z D env e else Some (Ok, e))"

section \<open>Writing\<close>

definition apply_record :: "'d Driver \<Rightarrow> engine_env \<Rightarrow> InternalRecord \<Rightarrow> 'd Engine action" where
  "apply_record D env r e =
     (case MemTable_apply D (ee_chance env (seq_num r)) r (e_mem e) of (c, m) \<Rightarrow> (c, e\<lparr>e_mem := m\<rparr>))"

text \<open>The two entries of a record; a failure of the second rolls back the first.\<close>

definition make_entries :: "byte list \<Rightarrow> byte list \<Rightarrow> Type \<Rightarrow> arena \<Rightarrow> (StatusCode \<times> arena) option" where
  "make_entries key val ty ar =
     (case arena_make_entry key ar of
        (Inl c, ar1) \<Rightarrow> Some (c, ar1)
      | (Inr _, ar1) \<Rightarrow>
          (case (if ty = Tombstone then (Inr [], ar1) else arena_make_entry val ar1) of
             (Inl c, ar2) \<Rightarrow> map_option (Pair c) (rollback (take_checkpoint ar) ar2)
           | (Inr _, ar2) \<Rightarrow> Some (Ok, ar2)))"

definition put_impl :: "zlib \<Rightarrow> 'd Driver \<Rightarrow> engine_env \<Rightarrow> byte list \<Rightarrow> byte list \<Rightarrow> Type \<Rightarrow> 'd engine_step" where
  "put_impl z D env key val ty e =
     (let state = ensure_open e in
      if \<not> is_ok state then Some (state, e)
      else if ty \<noteq> Put \<and> ty \<noteq> Tombstone then Some (InvalidArgument, e)
      else if e_next_seq e = - 1 then Some (InvariantViolation, e)
      else let cp = take_checkpoint (e_arena e) in
        case make_entries key val ty (e_arena e) of
          None \<Rightarrow> None
        | Some (c, ar) \<Rightarrow>
            let e = e\<lparr>e_arena := ar\<rparr> in
            if \<not> is_ok c then Some (c, e)
            else let r = \<lparr>key_entry = key, value_entry = (if ty = Tombstone then [] else val), rtype = ty, seq_num = e_next_seq e\<rparr> in
              case on_wal (WALWriter_write z r) e of (c, e) \<Rightarrow>
                if \<not> is_ok c then map_option (\<lambda>ar. (c, e\<lparr>e_arena := ar\<rparr>)) (rollback cp (e_arena e))
                else case (if wo_sync_on_write (db_wal (e_options e)) then on_wal WALWriter_sync e else (Ok, e)) of (c, e) \<Rightarrow>
                  if \<not> is_ok c then Some (c, e)
                  else case apply_record D env r e of (c, e) \<Rightarrow>
                    if \<not> is_ok c then Some (c, e)
                    else maybe_flush_unlocked z D env (e\<lparr>e_next_seq := e_next_seq e + 1\<rparr>))"

definition Engine_put :: "zlib \<Rightarrow> 'd Driver \<Rightarrow> engine_env \<Rightarrow> byte list \<Rightarrow> byte list \<Rightarrow> 'd engine_step" where
  "Engine_put z D env key val = put_impl z D env key val Put"

definition Engine_remove :: "zlib \<Rightarrow> 'd Driver \<Rightarrow> engine_env \<Rightarrow> byte list \<Rightarrow> 'd engine_step" where
  "Engine_remove z D env key = put_impl z D env key [] Tombstone"

section \<open>Reading\<close>

text \<open>The loop over the candidates of a level: \<open>Inr None\<close> goes on to the next table. The pooled table and
  the engine share one object, so its cached blocks are kept in the pool.\<close>

fun search_candidates :: "zlib \<Rightarrow> engine_env \<Rightarrow> byte list \<Rightarrow> TableMeta list \<Rightarrow> 'd Engine \<times> arena \<Rightarrow>
    (InternalRecord option result \<times> 'd Engine \<times> arena) option" where
  "search_candidates z env key [] s = Some (Inr None, s)"
| "search_candidates z env key (meta # ms) (e, ra) =
     (case SSTableManager_open z (ee_table_read env (table_id meta)) meta (e_disk e) (e_mgr e, e_arena e) of
        None \<Rightarrow> None
      | Some (r, mgr, ar) \<Rightarrow>
          let e = e\<lparr>e_mgr := mgr, e_arena := ar\<rparr> in
          (case r of
             Inl c \<Rightarrow> Some (Inl c, e, ra)
           | Inr t \<Rightarrow>
               (case SSTable_get z key (t, ra) of
                  None \<Rightarrow> None
                | Some (r, t, ra) \<Rightarrow>
                    let e = e\<lparr>e_mgr := (e_mgr e)\<lparr>sm_pool := (sm_pool (e_mgr e))(ucast (table_id meta) \<mapsto> t)\<rparr>\<rparr> in
                    (case r of
                       Inl c \<Rightarrow> if c = NotFound then search_candidates z env key ms (e, ra) else Some (Inl c, e, ra)
                     | Inr (Some rec) \<Rightarrow> Some (Inr (Some rec), e, ra)
                     | Inr None \<Rightarrow> search_candidates z env key ms (e, ra)))))"

fun search_levels :: "zlib \<Rightarrow> engine_env \<Rightarrow> byte list \<Rightarrow> nat list \<Rightarrow> 'd Engine \<times> arena \<Rightarrow>
    (InternalRecord option result \<times> 'd Engine \<times> arena) option" where
  "search_levels z env key [] s = Some (Inr None, s)"
| "search_levels z env key (level # levels) s =
     (case find_candidate_tables_in_level level key (e_lm (fst s)) of
        Inl c \<Rightarrow> Some (Inl c, s)
      | Inr ms \<Rightarrow>
          (case search_candidates z env key ms s of
             None \<Rightarrow> None
           | Some (Inr None, s) \<Rightarrow> search_levels z env key levels s
           | Some (r, s) \<Rightarrow> Some (r, s)))"

definition Engine_get :: "zlib \<Rightarrow> 'd Driver \<Rightarrow> engine_env \<Rightarrow> byte list \<Rightarrow> 'd Engine \<Rightarrow> (byte list option result \<times> 'd Engine) option" where
  "Engine_get z D env key e =
     (let state = ensure_open e in
      if \<not> is_ok state then Some (Inl state, e)
      else if length key > u32_max then Some (Inl InvalidArgument, e)
      else case MemTable_get D key (e_mem e) of (r, m) \<Rightarrow>
        let e = e\<lparr>e_mem := m\<rparr> in
        case r of
          Inl c \<Rightarrow> Some (Inl c, e)
        | Inr (Some rec) \<Rightarrow> Some (api_value rec, e)
        | Inr None \<Rightarrow>
            (case arena_init (ao_page_size (db_arena (e_options e))) (ao_large_threshold (db_arena (e_options e))) (ee_read_oom env) of
               None \<Rightarrow> None
             | Some ra \<Rightarrow>
                 (case search_levels z env key [0..<unat (level_count (e_lm e))] (e, ra) of
                    None \<Rightarrow> None
                  | Some (Inl c, e, _) \<Rightarrow> Some (Inl c, e)
                  | Some (Inr (Some rec), e, _) \<Rightarrow> Some (api_value rec, e)
                  | Some (Inr None, e, _) \<Rightarrow> Some (Inr None, e))))"

section \<open>Manual compaction\<close>

definition widen_all :: "TableMeta list \<Rightarrow> CompactionPlan \<Rightarrow> CompactionPlan" where
  "widen_all ts plan = fold widen_plan_range ts plan"

text \<open>The loop that closes a plan under overlap in both levels; \<open>None\<close> when it does not end.\<close>

partial_function (option) close_plan :: "LevelManager \<Rightarrow> CompactionPlan \<Rightarrow> CompactionPlan option" where
  "close_plan lm plan =
     (let srcs = find_overlapping_tables (unat (source_level plan)) (plan_smallest plan) (plan_largest plan) lm;
          plan1 = plan\<lparr>source_tables := srcs\<rparr> in
      if srcs = [] then Some plan1
      else let plan2 = widen_all srcs plan1;
               targets = find_overlapping_tables (unat (target_level plan)) (plan_smallest plan2) (plan_largest plan2) lm;
               plan3 = widen_all targets (plan2\<lparr>overlapping_tables := targets\<rparr>) in
        if length (source_tables plan) = length srcs \<and> length (overlapping_tables plan) = length targets \<and>
           entry_eq (plan_smallest plan) (plan_smallest plan3) \<and> entry_eq (plan_largest plan) (plan_largest plan3)
        then Some plan3 else close_plan lm plan3)"

fun compact_levels :: "zlib \<Rightarrow> engine_env \<Rightarrow> CompactionOptions \<Rightarrow> byte list \<Rightarrow> byte list \<Rightarrow> nat list \<Rightarrow> 'd engine_step" where
  "compact_levels z env opts smallest largest [] e = Some (Ok, e)"
| "compact_levels z env opts smallest largest (level # levels) e =
     (let plan = \<lparr>cp_reason = Manual, source_level = of_nat level, target_level = of_nat level + 1, source_tables = [], overlapping_tables = [],
                  plan_smallest = smallest, plan_largest = largest, max_output_file_size = target_file_size_per_level opts ! (level + 1)\<rparr> in
      case close_plan (e_lm e) plan of
        None \<Rightarrow> None
      | Some plan \<Rightarrow>
          if source_tables plan = [] then compact_levels z env opts smallest largest levels e
          else if \<not> CompactionPlan_validate plan then Some (InvariantViolation, e)
          else then_e (run_compaction z env plan) (compact_levels z env opts smallest largest levels) e)"

definition Engine_compact_range :: "zlib \<Rightarrow> 'd Driver \<Rightarrow> engine_env \<Rightarrow> byte list \<Rightarrow> byte list \<Rightarrow> 'd engine_step" where
  "Engine_compact_range z D env begin_key end_key e =
     (if length begin_key > u32_max \<or> length end_key > u32_max then Some (InvalidArgument, e)
      else then_e (flush_unlocked z D env)
        (\<lambda>e. if entry_less end_key begin_key then Some (InvalidArgument, e)
             else compact_levels z env (scheduler_options (e_options e)) begin_key end_key [0..<unat (level_count (e_lm e)) - 1] e) e)"

section \<open>Closing\<close>

definition Engine_close :: "'d Engine action" where
  "Engine_close e =
     (if e_closed e then (Ok, e)
      else if \<not> e_opened e then (Ok, e\<lparr>e_closed := True\<rparr>)
      else case on_wal WALWriter_sync e of (c, e) \<Rightarrow> if \<not> is_ok c then (c, e)
      else case Manifest_sync (e_manifest e) of (c, m) \<Rightarrow>
        let e = e\<lparr>e_manifest := m\<rparr> in if \<not> is_ok c then (c, e)
      else case on_wal WALWriter_close e of (c, e) \<Rightarrow> if \<not> is_ok c then (c, e)
      else (Ok, e\<lparr>e_opened := False, e_closed := True\<rparr>))"

definition Engine_statistics :: "'d Engine \<Rightarrow> u64 \<times> u64" where
  "Engine_statistics e = (e_flush_count e, e_compaction_count e)"

text \<open>The factory: an engine is returned only after \<open>open\<close> has succeeded. The exceptions it catches give
  an error; \<open>bad_alloc\<close> is the first flag.\<close>

definition KVDB_open :: "zlib \<Rightarrow> 'd Driver \<Rightarrow> engine_env \<Rightarrow> DBOptions \<Rightarrow> disk \<Rightarrow> bool \<Rightarrow> bool list \<Rightarrow> 'd Engine result" where
  "KVDB_open z D env opts d bad_alloc faults =
     (if bad_alloc then Inl OutOfMemory
      else case Engine_open z D env (Engine_new D opts d faults) of
        None \<Rightarrow> Inl InternalError
      | Some (c, e) \<Rightarrow> if \<not> is_ok c then Inl c else Inr e)"

end
