(* ===== verification/EngineStore.thy ===== *)
theory EngineStore
  imports Engine
begin

text \<open>
  The tables of an open engine: a catalogue gives the records of every live table; tables that are searched
  first hold the newer versions of a key. A search through the levels returns the newest stored record.
\<close>

section \<open>Newer and older records\<close>

definition newer :: "InternalRecord set \<Rightarrow> InternalRecord set \<Rightarrow> bool" where
  "newer A B \<longleftrightarrow> (\<forall>a\<in>A. \<forall>b\<in>B. key_entry a = key_entry b \<longrightarrow> seq_num b < seq_num a)"

lemma newer_empty [simp]: "newer {} B" "newer A {}"
  by (simp_all add: newer_def)

lemma newer_Un [simp]: "newer (A \<union> B) C \<longleftrightarrow> newer A C \<and> newer B C" "newer A (B \<union> C) \<longleftrightarrow> newer A B \<and> newer A C"
  by (auto simp: newer_def)

lemma newer_UN: "newer (\<Union>i\<in>I. f i) C \<longleftrightarrow> (\<forall>i\<in>I. newer (f i) C)" "newer C (\<Union>i\<in>I. f i) \<longleftrightarrow> (\<forall>i\<in>I. newer C (f i))"
  by (auto simp: newer_def)

lemma newer_mono: "newer A B \<Longrightarrow> A' \<subseteq> A \<Longrightarrow> B' \<subseteq> B \<Longrightarrow> newer A' B'"
  by (auto simp: newer_def)

lemma newest_version_empty [simp]: "newest_version k {} x \<longleftrightarrow> x = None"
  by (auto simp: newest_version_def split: option.splits)

lemma newest_version_newer:
  assumes "newest_version k A x" "newest_version k B y" "newer A B"
  shows "newest_version k (A \<union> B) (case x of None \<Rightarrow> y | Some r \<Rightarrow> Some r)"
proof (cases x)
  case None
  then show ?thesis using assms(1,2) by (cases y) (auto simp: newest_version_def)
next
  case (Some r)
  then show ?thesis using assms(1,3) unfolding newest_version_def newer_def by (fastforce intro: less_imp_le)
qed

lemma newest_version_irrelevant: "newest_version k A x \<Longrightarrow> \<forall>b\<in>B. key_entry b \<noteq> k \<Longrightarrow> newest_version k (A \<union> B) x"
  by (auto simp: newest_version_def split: option.splits)

lemma newest_version_exists: "finite R \<Longrightarrow> \<exists>x. newest_version k R x"
proof -
  assume f: "finite R"
  let ?K = "{r \<in> R. key_entry r = k}"
  show ?thesis
  proof (cases "?K = {}")
    case True
    then show ?thesis by (intro exI [of _ None]) (auto simp: newest_version_def)
  next
    case False
    let ?m = "Max (seq_num ` ?K)"
    have fin: "finite (seq_num ` ?K)" using f by simp
    have "?m \<in> seq_num ` ?K" using Max_in [OF fin] False by blast
    then obtain r where r: "r \<in> ?K" "seq_num r = ?m" by auto
    then have "\<forall>r'\<in>?K. seq_num r' \<le> seq_num r" using Max_ge [OF fin] by auto
    then show ?thesis using r(1) by (intro exI [of _ "Some r"]) (auto simp: newest_version_def)
  qed
qed

section \<open>The catalogue\<close>

type_synonym catalogue = "u32 \<rightharpoonup> InternalRecord list"

definition table_records :: "catalogue \<Rightarrow> TableMeta \<Rightarrow> InternalRecord list" where
  "table_records cat m = the (cat (ucast (table_id m)))"

definition store_records :: "catalogue \<Rightarrow> LevelManager \<Rightarrow> InternalRecord set" where
  "store_records cat lm = (\<Union>m\<in>set (all_tables lm). set (table_records cat m))"

definition precedes :: "TableMeta \<Rightarrow> TableMeta \<Rightarrow> bool" where
  "precedes a b \<longleftrightarrow> tm_level a < tm_level b \<or> tm_level a = 0 \<and> tm_level b = 0 \<and> table_id b < table_id a"

definition live_table :: "catalogue \<Rightarrow> string \<Rightarrow> u64 \<Rightarrow> TableMeta \<Rightarrow> bool" where
  "live_table cat dir nid m \<longleftrightarrow> table_id m < nid \<and> path_of_bytes (tm_path m) = make_table_path (ucast (table_id m)) dir \<and>
     cat (ucast (table_id m)) = Some (table_records cat m) \<and> describes m (table_records cat m)"

definition store_ok :: "zlib \<Rightarrow> catalogue \<Rightarrow> disk \<Rightarrow> SSTableManager \<Rightarrow> LevelManager \<Rightarrow> u64 \<Rightarrow> bool" where
  "store_ok z cat d mgr lm nid \<longleftrightarrow> levels_ok lm \<and> length (lm_levels lm) \<le> u32_max \<and> pool_ok z d cat mgr \<and> length (sm_dir mgr) \<le> 50000 \<and>
     unat nid \<le> u32_max + 1 \<and> dom cat = (ucast \<circ> table_id) ` set (all_tables lm) \<and> (\<forall>m\<in>set (all_tables lm). live_table cat (sm_dir mgr) nid m) \<and>
     (\<forall>tid\<in>dom (sm_pool mgr). unat tid < unat nid) \<and>
     (\<forall>a\<in>set (all_tables lm). \<forall>b\<in>set (all_tables lm). precedes a b \<longrightarrow> newer (set (table_records cat a)) (set (table_records cat b)))"

lemma store_okD:
  assumes "store_ok z cat d mgr lm nid"
  shows "levels_ok lm" "length (lm_levels lm) \<le> u32_max" "pool_ok z d cat mgr" "length (sm_dir mgr) \<le> 50000" "unat nid \<le> u32_max + 1"
    "dom cat = (ucast \<circ> table_id) ` set (all_tables lm)" "\<And>m. m \<in> set (all_tables lm) \<Longrightarrow> live_table cat (sm_dir mgr) nid m"
    "\<And>tid t. sm_pool mgr tid = Some t \<Longrightarrow> unat tid < unat nid"
    "\<And>a b. a \<in> set (all_tables lm) \<Longrightarrow> b \<in> set (all_tables lm) \<Longrightarrow> precedes a b \<Longrightarrow> newer (set (table_records cat a)) (set (table_records cat b))"
  using assms unfolding store_ok_def by auto

lemma on_disk_records: "on_disk z d p rs \<Longrightarrow> sorted_records rs \<and> list_all storable rs"
  using table_bytesD(1) section_ok_sorted section_storable unfolding on_disk_def published_def by blast

lemma live_tableD:
  assumes "store_ok z cat d mgr lm nid" "m \<in> set (all_tables lm)"
  shows "unat (table_id m) \<le> u32_max" "path_of_bytes (tm_path m) = make_table_path (ucast (table_id m)) (sm_dir mgr)"
    "cat (ucast (table_id m)) = Some (table_records cat m)" "describes m (table_records cat m)" "table_id m < nid"
    "on_disk z d (make_table_path (ucast (table_id m)) (sm_dir mgr)) (table_records cat m)"
    "sorted_records (table_records cat m)" "list_all storable (table_records cat m)" "unat (ucast (table_id m) :: u32) = unat (table_id m)"
proof -
  note l = store_okD(7) [OF assms, unfolded live_table_def]
  show lt: "table_id m < nid" and "path_of_bytes (tm_path m) = make_table_path (ucast (table_id m)) (sm_dir mgr)"
    "cat (ucast (table_id m)) = Some (table_records cat m)" "describes m (table_records cat m)" using l by simp_all
  show le: "unat (table_id m) \<le> u32_max" using lt store_okD(5) [OF assms(1)] by (simp add: word_less_nat_alt)
  show od: "on_disk z d (make_table_path (ucast (table_id m)) (sm_dir mgr)) (table_records cat m)"
    using l store_okD(3) [OF assms(1)] by (simp add: pool_ok_def)
  show "sorted_records (table_records cat m)" "list_all storable (table_records cat m)" using on_disk_records [OF od] by simp_all
  show "unat (ucast (table_id m) :: u32) = unat (table_id m)" using le by (simp add: unsigned_ucast_eq take_bit_nat_eq_self)
qed

lemma described_range: "describes m rs \<Longrightarrow> r \<in> set rs \<Longrightarrow> smallest_key m \<le> key_entry r \<and> key_entry r \<le> largest_key m"
  unfolding describes_def by blast

text \<open>Only the files of live tables matter.\<close>

lemma store_ok_disk:
  assumes "store_ok z cat d mgr lm nid" "\<And>i. unat i < unat nid \<Longrightarrow> d' (make_table_path i (sm_dir mgr)) = d (make_table_path i (sm_dir mgr))"
  shows "store_ok z cat d' mgr lm nid"
proof -
  have "d' (make_table_path tid (sm_dir mgr)) = d (make_table_path tid (sm_dir mgr))" if "cat tid = Some rs" for tid rs
  proof -
    have "tid \<in> dom cat" using that by auto
    then obtain m where m: "m \<in> set (all_tables lm)" "tid = ucast (table_id m)" using store_okD(6) [OF assms(1)] by auto
    then have "unat tid < unat nid" using live_tableD(5,9) [OF assms(1) m(1)] by (simp add: word_less_nat_alt)
    then show ?thesis by (rule assms(2))
  qed
  then have "pool_ok z d' cat mgr" using store_okD(3) [OF assms(1)] unfolding pool_ok_def on_disk_def stands_for_def by fastforce
  then show ?thesis using assms(1) by (simp add: store_ok_def)
qed

lemma tables_have_level:
  assumes "levels_ok lm"
  shows "lv < length (lm_levels lm) \<Longrightarrow> m \<in> set (lm_levels lm ! lv) \<longleftrightarrow> m \<in> set (all_tables lm) \<and> unat (tm_level m) = lv"
    and "m \<in> set (all_tables lm) \<Longrightarrow> unat (tm_level m) < length (lm_levels lm)"
proof -
  have lv: "unat (tm_level m) = i" if "i < length (lm_levels lm)" "m \<in> set (lm_levels lm ! i)" for i
    using assms that by (auto simp: levels_ok_def level_ok_def table_ok_def)
  show "unat (tm_level m) < length (lm_levels lm)" if "m \<in> set (all_tables lm)"
    using that lv by (auto simp: all_tables_def in_set_conv_nth [of _ "lm_levels lm"])
  show "m \<in> set (lm_levels lm ! lv) \<longleftrightarrow> m \<in> set (all_tables lm) \<and> unat (tm_level m) = lv" if "lv < length (lm_levels lm)"
    using that lv level_tables [OF that] by (auto simp: all_tables_def in_set_conv_nth [of _ "lm_levels lm"])
qed

lemma sorted_wrt_comparable: "sorted_wrt R xs \<Longrightarrow> a \<in> set xs \<Longrightarrow> b \<in> set xs \<Longrightarrow> a \<noteq> b \<Longrightarrow> R a b \<or> R b a"
  by (induction xs) auto

text \<open>Two tables of a level above 0 share no key.\<close>

lemma same_level_apart:
  assumes st: "store_ok z cat d mgr lm nid" and m: "a \<in> set (all_tables lm)" "b \<in> set (all_tables lm)" "a \<noteq> b" "tm_level a = tm_level b" "tm_level a \<noteq> 0"
    and r: "r \<in> set (table_records cat a)" "s \<in> set (table_records cat b)"
  shows "key_entry r \<noteq> key_entry s"
proof -
  note lo = store_okD(1) [OF st]
  let ?lv = "unat (tm_level a)"
  have lv: "?lv < length (lm_levels lm)" "0 < ?lv" using tables_have_level(2) [OF lo m(1)] m(5) by (simp_all add: unat_gt_0)
  have ab: "a \<in> set (lm_levels lm ! ?lv)" "b \<in> set (lm_levels lm ! ?lv)" using tables_have_level(1) [OF lo lv(1)] m by auto
  have "level_ok ?lv (lm_levels lm ! ?lv)" using lo lv by (simp add: levels_ok_def)
  then have "sorted_wrt below (lm_levels lm ! ?lv)" using lv(2) by (simp add: level_ok_def)
  then have "below a b \<or> below b a" using ab m(3) by (rule sorted_wrt_comparable)
  moreover have "smallest_key a \<le> key_entry r" "key_entry r \<le> largest_key a" "smallest_key b \<le> key_entry s" "key_entry s \<le> largest_key b"
    using live_tableD(4) [OF st m(1)] live_tableD(4) [OF st m(2)] r by (auto simp: describes_def)
  ultimately show ?thesis by (metis leD le_less_trans less_le_trans)
qed

section \<open>Searching\<close>

definition quiet_tables :: "engine_env \<Rightarrow> bool" where
  "quiet_tables env \<longleftrightarrow> (\<forall>i. re_opened (ee_table_read env i) = Ok \<and> ReadErr \<notin> set (re_reads (ee_table_read env i)))"

definition sound_arena :: "arena \<Rightarrow> bool" where
  "sound_arena ar \<longleftrightarrow> arena_ok ar \<and> never_oom ar"

lemma open_table:
  assumes z: "crc_incremental z" and q: "quiet_tables env" and st: "store_ok z cat d mgr lm nid" and m: "m \<in> set (all_tables lm)" and ar: "sound_arena ar"
  shows "\<exists>t mgr' ar'. SSTableManager_open z (ee_table_read env (table_id m)) m d (mgr, ar) = Some (Inr t, mgr', ar') \<and>
    stands_for z d (make_table_path (ucast (table_id m)) (sm_dir mgr)) (table_records cat m) t \<and> store_ok z cat d mgr' lm nid \<and>
    sm_dir mgr' = sm_dir mgr \<and> sound_arena ar'"
proof -
  note l = live_tableD [OF st m]
  have q': "re_opened (ee_table_read env (table_id m)) = Ok" "ReadErr \<notin> set (re_reads (ee_table_read env (table_id m)))" using q by (simp_all add: quiet_tables_def)
  obtain t mgr' ar' where t: "open_impl z (ee_table_read env (table_id m)) (ucast (table_id m)) (path_of_bytes (tm_path m)) d (mgr, ar) = Some (Inr t, mgr', ar')"
    "stands_for z d (path_of_bytes (tm_path m)) (table_records cat m) t" "pool_ok z d cat mgr'" "sm_dir mgr' = sm_dir mgr" "extends ar ar'" "never_oom ar'"
    using open_impl_opens [OF z store_okD(3) [OF st] l(3,2) q'] ar unfolding sound_arena_def by blast
  have "dom (sm_pool mgr') \<subseteq> insert (ucast (table_id m)) (dom (sm_pool mgr))"
    using t(1) by (auto simp: open_impl_def split: option.splits sum.splits)
  then have "unat tid < unat nid" if "tid \<in> dom (sm_pool mgr')" for tid
    using that store_okD(8) [OF st, of tid] l(5,9) by (auto simp: word_less_nat_alt)
  then have "store_ok z cat d mgr' lm nid" using st t(3,4) by (simp add: store_ok_def)
  then show ?thesis using t l(1,2) by (auto simp: SSTableManager_open_def sound_arena_def extends_def)
qed

lemma table_answers:
  assumes "answers rs key r" "sorted_records rs"
  shows "case r of Inl c \<Rightarrow> c = NotFound \<and> newest_version key (set rs) None | Inr x \<Rightarrow> newest_version key (set rs) x"
proof -
  have "newest_in key rs = newest_of key rs" by (simp add: newest_in_def newest_of_def)
  then show ?thesis using assms newest_version_of_sorted [OF assms(2), of key] by (auto simp: answers_def split: option.splits)
qed

lemma pool_put_back:
  assumes "store_ok z cat d mgr lm nid" "m \<in> set (all_tables lm)" "stands_for z d (make_table_path (ucast (table_id m)) (sm_dir mgr)) (table_records cat m) t"
  shows "store_ok z cat d (mgr\<lparr>sm_pool := (sm_pool mgr)(ucast (table_id m) \<mapsto> t)\<rparr>) lm nid"
  using assms(1,3) live_tableD(3,5,9) [OF assms(1,2)] by (auto simp: store_ok_def pool_ok_def word_less_nat_alt)

lemma search_candidates_newest:
  assumes "crc_incremental z" "quiet_tables env" "store_ok z cat (e_disk e) (e_mgr e) (e_lm e) nid" "set ms \<subseteq> set (all_tables (e_lm e))"
    and "sorted_wrt (\<lambda>a b. newer (set (table_records cat a)) (set (table_records cat b))) ms" "sound_arena (e_arena e)" "sound_arena ra"
  shows "\<exists>x mgr ar ra'. search_candidates z env key ms (e, ra) = Some (Inr x, e\<lparr>e_mgr := mgr, e_arena := ar\<rparr>, ra') \<and>
    store_ok z cat (e_disk e) mgr (e_lm e) nid \<and> sm_dir mgr = sm_dir (e_mgr e) \<and> sound_arena ar \<and> sound_arena ra' \<and>
    newest_version key (\<Union>m\<in>set ms. set (table_records cat m)) x"
  using assms(3-)
proof (induction ms arbitrary: e ra)
  case Nil
  then show ?case by (intro exI [of _ None] exI [of _ "e_mgr e"] exI [of _ "e_arena e"] exI [of _ ra]) simp
next
  case (Cons m ms)
  have m: "m \<in> set (all_tables (e_lm e))" using Cons.prems(2) by simp
  let ?p = "make_table_path (ucast (table_id m)) (sm_dir (e_mgr e))" let ?R = "set (table_records cat m)"
  obtain t mgr1 ar1 where t: "SSTableManager_open z (ee_table_read env (table_id m)) m (e_disk e) (e_mgr e, e_arena e) = Some (Inr t, mgr1, ar1)"
    "stands_for z (e_disk e) ?p (table_records cat m) t" "store_ok z cat (e_disk e) mgr1 (e_lm e) nid" "sm_dir mgr1 = sm_dir (e_mgr e)" "sound_arena ar1"
    using open_table [OF assms(1,2) Cons.prems(1) m Cons.prems(4)] by blast
  obtain r t' ra1 where g: "SSTable_get z key (t, ra) = Some (r, t', ra1)" "stands_for z (e_disk e) ?p (table_records cat m) t'" "sound_arena ra1"
    "answers (table_records cat m) key r"
    using get_stands_for [OF t(2), of ra key] Cons.prems(5) unfolding sound_arena_def extends_def by blast
  define mgr2 where "mgr2 = mgr1\<lparr>sm_pool := (sm_pool mgr1)(ucast (table_id m) \<mapsto> t')\<rparr>"
  have st2: "store_ok z cat (e_disk e) mgr2 (e_lm e) nid" "sm_dir mgr2 = sm_dir (e_mgr e)"
    using pool_put_back [OF t(3) m, of t'] g(2) t(4) by (simp_all add: mgr2_def)
  define e2 where "e2 = e\<lparr>e_mgr := mgr1, e_arena := ar1, e_mgr := mgr2\<rparr>"
  have new: "\<forall>b\<in>set ms. newer ?R (set (table_records cat b))" using Cons.prems(3) by simp
  note a = table_answers [OF g(4) live_tableD(7) [OF Cons.prems(1) m]]
  show ?case
  proof (cases "\<exists>rec. r = Inr (Some rec)")
    case True
    then obtain rec where rec: "r = Inr (Some rec)" by blast
    have "newest_version key (?R \<union> (\<Union>b\<in>set ms. set (table_records cat b))) (Some rec)"
    proof -
      obtain y where y: "newest_version key (\<Union>b\<in>set ms. set (table_records cat b)) y" using newest_version_exists [of "\<Union>b\<in>set ms. set (table_records cat b)" key] by auto
      from newest_version_newer [OF _ y, of ?R "Some rec"] a rec new show ?thesis by (simp add: newer_UN)
    qed
    then show ?thesis using t(1) g(1,3) rec st2 t(5)
      by (intro exI [of _ "Some rec"] exI [of _ mgr2] exI [of _ ar1] exI [of _ ra1]) (simp add: Let_def mgr2_def)
  next
    case False
    then have none: "r = Inl NotFound \<or> r = Inr None" "newest_version key ?R None" using a by (auto split: sum.splits option.splits)
    have prems: "store_ok z cat (e_disk e2) (e_mgr e2) (e_lm e2) nid" "set ms \<subseteq> set (all_tables (e_lm e2))"
      "sorted_wrt (\<lambda>a b. newer (set (table_records cat a)) (set (table_records cat b))) ms" "sound_arena (e_arena e2)"
      using st2(1) Cons.prems(2,3) t(5) by (simp_all add: e2_def)
    from Cons.IH [OF prems g(3)] obtain x mgr ar ra' where
      s: "search_candidates z env key ms (e2, ra1) = Some (Inr x, e2\<lparr>e_mgr := mgr, e_arena := ar\<rparr>, ra')"
      "store_ok z cat (e_disk e2) mgr (e_lm e2) nid" "sm_dir mgr = sm_dir (e_mgr e2)" "sound_arena ar" "sound_arena ra'"
      "newest_version key (\<Union>m\<in>set ms. set (table_records cat m)) x" by blast
    have "search_candidates z env key (m # ms) (e, ra) = search_candidates z env key ms (e2, ra1)"
      using t(1) g(1) none(1) by (auto simp: Let_def mgr2_def e2_def)
    moreover have "newest_version key (?R \<union> (\<Union>m\<in>set ms. set (table_records cat m))) x"
      using newest_version_newer [OF none(2) s(6)] new by (simp add: newer_UN)
    ultimately show ?thesis using s st2(2) by (intro exI [of _ x] exI [of _ mgr] exI [of _ ar] exI [of _ ra']) (simp add: e2_def)
  qed
qed

definition level_records :: "catalogue \<Rightarrow> LevelManager \<Rightarrow> nat \<Rightarrow> InternalRecord set" where
  "level_records cat lm lv = (\<Union>m\<in>set (lm_levels lm ! lv). set (table_records cat m))"

lemma set_conv_nth_image: "set xs = (!) xs ` {0..<length xs}"
  by (auto simp: in_set_conv_nth)

lemma store_records_levels: "store_records cat lm = (\<Union>lv\<in>{0..<length (lm_levels lm)}. level_records cat lm lv)"
proof -
  have "set (all_tables lm) = (\<Union>lv\<in>{0..<length (lm_levels lm)}. set (lm_levels lm ! lv))"
    by (simp add: all_tables_def set_conv_nth_image [of "lm_levels lm"])
  then show ?thesis by (simp add: store_records_def level_records_def)
qed

lemma levels_newer:
  assumes "store_ok z cat d mgr lm nid" "i < j" "j < length (lm_levels lm)"
  shows "newer (level_records cat lm i) (level_records cat lm j)"
proof -
  note lo = store_okD(1) [OF assms(1)]
  have "newer (set (table_records cat a)) (set (table_records cat b))" if "a \<in> set (lm_levels lm ! i)" "b \<in> set (lm_levels lm ! j)" for a b
  proof (rule store_okD(9) [OF assms(1)])
    have "a \<in> set (all_tables lm) \<and> unat (tm_level a) = i" "b \<in> set (all_tables lm) \<and> unat (tm_level b) = j"
      using that tables_have_level(1) [OF lo] assms(2,3) by auto
    then show "a \<in> set (all_tables lm)" "b \<in> set (all_tables lm)" "precedes a b" using assms(2) by (simp_all add: precedes_def word_less_nat_alt)
  qed
  then show ?thesis by (simp add: level_records_def newer_UN)
qed

lemma candidates_newest_first:
  assumes st: "store_ok z cat d mgr lm nid" and lv: "lv < length (lm_levels lm)" and f: "find_candidate_tables_in_level lv key lm = Inr ms"
  shows "set ms \<subseteq> set (all_tables lm)" "sorted_wrt (\<lambda>a b. newer (set (table_records cat a)) (set (table_records cat b))) ms"
    "newest_version key (\<Union>m\<in>set ms. set (table_records cat m)) x \<Longrightarrow> newest_version key (level_records cat lm lv) x"
proof -
  note lo = store_okD(1) [OF st]
  let ?in = "\<lambda>t. smallest_key t \<le> key \<and> key \<le> largest_key t"
  have ms: "ms = filter ?in (lm_levels lm ! lv)" "lv = 0 \<or> length ms \<le> 1" using find_candidate_correct [OF lo lv, of key] f by simp_all
  show sub: "set ms \<subseteq> set (all_tables lm)" using ms(1) level_tables [OF lv] by auto
  show "sorted_wrt (\<lambda>a b. newer (set (table_records cat a)) (set (table_records cat b))) ms"
  proof (cases "lv = 0")
    case True
    have lk: "level_ok lv (lm_levels lm ! lv)" using lo lv by (simp add: levels_ok_def)
    then have srt: "sorted_wrt (\<lambda>a b. table_id a > table_id b) ms" using True ms(1) by (auto simp: level_ok_def intro: sorted_wrt_filter)
    have lvl: "tm_level a = 0" if "a \<in> set ms" for a using lk that True ms(1) by (auto simp: level_ok_def table_ok_def unat_eq_0)
    have "newer (set (table_records cat a)) (set (table_records cat b))" if "a \<in> set ms" "b \<in> set ms" "table_id b < table_id a" for a b
      using that lvl [OF that(1)] lvl [OF that(2)] sub store_okD(9) [OF st, of a b] by (auto simp: precedes_def)
    then show ?thesis by (rule sorted_wrt_mono_rel [OF _ srt])
  next
    case False
    then show ?thesis using ms(2) by (cases ms) auto
  qed
  show "newest_version key (level_records cat lm lv) x" if n: "newest_version key (\<Union>m\<in>set ms. set (table_records cat m)) x"
  proof -
    let ?rest = "\<Union>m\<in>set (lm_levels lm ! lv) - set ms. set (table_records cat m)"
    have "key_entry r \<noteq> key" if "m \<in> set (lm_levels lm ! lv) - set ms" "r \<in> set (table_records cat m)" for m r
    proof -
      have "m \<in> set (all_tables lm)" "\<not> ?in m" using that(1) level_tables [OF lv] ms(1) by auto
      then show ?thesis using described_range [OF live_tableD(4) [OF st] that(2)] by blast
    qed
    then have "newest_version key ((\<Union>m\<in>set ms. set (table_records cat m)) \<union> ?rest) x" by (intro newest_version_irrelevant [OF n]) auto
    moreover have "(\<Union>m\<in>set ms. set (table_records cat m)) \<union> ?rest = level_records cat lm lv" using ms(1) by (auto simp: level_records_def)
    ultimately show ?thesis by simp
  qed
qed

lemma search_levels_newest:
  assumes "crc_incremental z" "quiet_tables env" "store_ok z cat (e_disk e) (e_mgr e) (e_lm e) nid" "sound_arena (e_arena e)" "sound_arena ra"
    and "sorted_wrt (<) lvs" "\<forall>lv\<in>set lvs. lv < length (lm_levels (e_lm e))"
  shows "\<exists>x mgr ar ra'. search_levels z env key lvs (e, ra) = Some (Inr x, e\<lparr>e_mgr := mgr, e_arena := ar\<rparr>, ra') \<and>
    store_ok z cat (e_disk e) mgr (e_lm e) nid \<and> sm_dir mgr = sm_dir (e_mgr e) \<and> sound_arena ar \<and>
    newest_version key (\<Union>lv\<in>set lvs. level_records cat (e_lm e) lv) x"
  using assms(3-)
proof (induction lvs arbitrary: e ra)
  case Nil
  then show ?case by (intro exI [of _ None] exI [of _ "e_mgr e"] exI [of _ "e_arena e"] exI [of _ ra]) simp
next
  case (Cons lv lvs)
  have lv: "lv < length (lm_levels (e_lm e))" using Cons.prems(5) by simp
  obtain ms where f: "find_candidate_tables_in_level lv key (e_lm e) = Inr ms" using find_candidate_correct [OF store_okD(1) [OF Cons.prems(1)] lv] by blast
  note c = candidates_newest_first [OF Cons.prems(1) lv f]
  obtain x1 mgr1 ar1 ra1 where s1: "search_candidates z env key ms (e, ra) = Some (Inr x1, e\<lparr>e_mgr := mgr1, e_arena := ar1\<rparr>, ra1)"
    "store_ok z cat (e_disk e) mgr1 (e_lm e) nid" "sm_dir mgr1 = sm_dir (e_mgr e)" "sound_arena ar1" "sound_arena ra1"
    "newest_version key (\<Union>m\<in>set ms. set (table_records cat m)) x1"
    using search_candidates_newest [OF assms(1,2) Cons.prems(1) c(1,2) Cons.prems(2,3)] by blast
  note n1 = c(3) [OF s1(6)]
  let ?L = "level_records cat (e_lm e)"
  have new: "newer (?L lv) (\<Union>lv\<in>set lvs. ?L lv)" unfolding newer_UN using levels_newer [OF Cons.prems(1)] Cons.prems(4,5) by auto
  define e1 where "e1 = e\<lparr>e_mgr := mgr1, e_arena := ar1\<rparr>"
  have prems: "store_ok z cat (e_disk e1) (e_mgr e1) (e_lm e1) nid" "sound_arena (e_arena e1)" "sorted_wrt (<) lvs" "\<forall>lv\<in>set lvs. lv < length (lm_levels (e_lm e1))"
    using s1(2,4) Cons.prems(4,5) by (simp_all add: e1_def)
  from Cons.IH [OF prems(1,2) s1(5) prems(3,4)] obtain x mgr ar ra' where
    s: "search_levels z env key lvs (e1, ra1) = Some (Inr x, e1\<lparr>e_mgr := mgr, e_arena := ar\<rparr>, ra')"
    "store_ok z cat (e_disk e1) mgr (e_lm e1) nid" "sm_dir mgr = sm_dir (e_mgr e1)" "sound_arena ar"
    "newest_version key (\<Union>lv\<in>set lvs. level_records cat (e_lm e1) lv) x" by blast
  show ?case
  proof (cases x1)
    case None
    then have "newest_version key (?L lv \<union> (\<Union>lv\<in>set lvs. ?L lv)) x" using newest_version_newer [OF n1 _ new, of x] s(5) by (simp add: e1_def)
    then show ?thesis using f s1(1,3) s None by (intro exI [of _ x] exI [of _ mgr] exI [of _ ar] exI [of _ ra']) (simp add: e1_def)
  next
    case (Some r)
    then have "newest_version key (?L lv \<union> (\<Union>lv\<in>set lvs. ?L lv)) (Some r)" using newest_version_newer [OF n1 _ new, of x] s(5) by (simp add: e1_def)
    then show ?thesis using f s1(1-4) Some by (intro exI [of _ "Some r"] exI [of _ mgr1] exI [of _ ar1] exI [of _ ra1]) simp
  qed
qed

end
