(* ===== verification/EngineView.thy ===== *)
theory EngineView
  imports EngineStore
begin

text \<open>
  The invariant of an open engine and what it means as a map from keys to values. Lookups return what the
  map says; a put adds one record that is newer than all others.
\<close>

section \<open>Invariant\<close>

definition mem_layers :: "any_driver MemTable \<Rightarrow> InternalRecord set list" where
  "mem_layers m = map (set \<circ> driver_records) (mutable_table m # map table (rev (immutable_tables m)))"

definition engine_records :: "catalogue \<Rightarrow> any_driver Engine \<Rightarrow> InternalRecord set" where
  "engine_records cat e = set (mt_records (e_mem e)) \<union> store_records cat (e_lm e)"

abbreviation next_id :: "any_driver Engine \<Rightarrow> u64" where
  "next_id e \<equiv> sc_next_table_id (m_counters (e_manifest e))"

definition engine_ok :: "zlib \<Rightarrow> catalogue \<Rightarrow> any_driver Engine \<Rightarrow> bool" where
  "engine_ok z cat e \<longleftrightarrow> e_opened e \<and> \<not> e_closed e \<and> DBOptions_validate (e_options e) = Ok \<and>
     length (lm_levels (e_lm e)) = unat (co_max_levels (db_compaction (e_options e))) \<and>
     m_path (e_manifest e) = path_join (db_path (e_options e)) ''MANIFEST'' \<and>
     store_ok z cat (e_disk e) (e_mgr e) (e_lm e) (next_id e) \<and> mt_ok (e_mem e) \<and>
     sorted_wrt newer (mem_layers (e_mem e) @ [store_records cat (e_lm e)]) \<and>
     (\<forall>r\<in>engine_records cat e. seq_num r < e_next_seq e \<and> rtype r \<noteq> Undefined) \<and> sound_arena (e_arena e)"

lemma engine_okD:
  assumes "engine_ok z cat e"
  shows "e_opened e" "\<not> e_closed e" "DBOptions_validate (e_options e) = Ok" "m_path (e_manifest e) = path_join (db_path (e_options e)) ''MANIFEST''"
    "store_ok z cat (e_disk e) (e_mgr e) (e_lm e) (next_id e)" "mt_ok (e_mem e)"
    "sorted_wrt newer (mem_layers (e_mem e) @ [store_records cat (e_lm e)])"
    "\<And>r. r \<in> engine_records cat e \<Longrightarrow> seq_num r < e_next_seq e \<and> rtype r \<noteq> Undefined" "sound_arena (e_arena e)"
    "length (lm_levels (e_lm e)) = unat (co_max_levels (db_compaction (e_options e)))"
  using assms by (simp_all add: engine_ok_def)

lemma mem_layers_union: "(\<Union>A\<in>set (mem_layers m). A) = set (mt_records m)"
  by (auto simp: mem_layers_def memtable_records_def)

lemma memory_newer:
  assumes "engine_ok z cat e"
  shows "newer (set (mt_records (e_mem e))) (store_records cat (e_lm e))"
proof -
  have "\<forall>A\<in>set (mem_layers (e_mem e)). newer A (store_records cat (e_lm e))" using engine_okD(7) [OF assms] by (simp add: sorted_wrt_append)
  then show ?thesis unfolding mem_layers_union [symmetric] newer_UN .
qed

lemma engine_finite: "finite (engine_records cat e)"
  by (simp add: engine_records_def store_records_def)

text \<open>Files that are not tables.\<close>

lemma last_path_join: "name \<noteq> [] \<Longrightarrow> last (path_join dir name) = last name"
  by (auto simp: path_join_def)

lemma table_path_last: "last (make_table_path i dir) = CHR ''t''"
  unfolding make_table_path_def by (subst last_path_join) simp_all

lemma other_paths:
  "engine_wal_path opts wid \<noteq> make_table_path i dir" "path_join d ''MANIFEST'' \<noteq> make_table_path i dir"
proof -
  have "last (engine_wal_path opts wid) = CHR ''g''" "last (path_join d ''MANIFEST'') = CHR ''T''"
    unfolding engine_wal_path_def by (subst last_path_join, simp_all)+
  then show "engine_wal_path opts wid \<noteq> make_table_path i dir" "path_join d ''MANIFEST'' \<noteq> make_table_path i dir"
    using table_path_last [of i dir] by auto
qed

lemma wal_to_disk_table [simp]: "wal_to_disk (engine_wal_path opts wid) w d (make_table_path i dir) = d (make_table_path i dir)"
  using other_paths(1) [of opts wid i dir] by (simp add: wal_to_disk_def)

text \<open>The state that the meaning depends on.\<close>

lemma engine_ok_frame:
  assumes "engine_ok z cat e" "e_options e' = e_options e" "e_opened e' = e_opened e" "e_closed e' = e_closed e" "e_mem e' = e_mem e" "e_lm e' = e_lm e"
    and "e_mgr e' = e_mgr e" "e_next_seq e' = e_next_seq e" "m_path (e_manifest e') = m_path (e_manifest e)" "m_counters (e_manifest e') = m_counters (e_manifest e)"
    and "\<And>i. unat i < unat (next_id e) \<Longrightarrow> e_disk e' (make_table_path i (sm_dir (e_mgr e))) = e_disk e (make_table_path i (sm_dir (e_mgr e)))" "sound_arena (e_arena e')"
  shows "engine_ok z cat e' \<and> engine_records cat e' = engine_records cat e"
proof -
  have "store_ok z cat (e_disk e') (e_mgr e) (e_lm e) (next_id e)" using store_ok_disk [OF engine_okD(5) [OF assms(1)] assms(11)] .
  then show ?thesis using assms by (simp add: engine_ok_def engine_records_def)
qed

section \<open>Meaning\<close>

definition visible :: "InternalRecord option \<Rightarrow> byte list option" where
  "visible x = (case x of None \<Rightarrow> None | Some r \<Rightarrow> if rtype r = Put then Some (value_entry r) else None)"

definition means :: "InternalRecord set \<Rightarrow> (byte list \<rightharpoonup> byte list) \<Rightarrow> bool" where
  "means R M \<longleftrightarrow> (\<forall>k x. newest_version k R x \<longrightarrow> visible x = M k)"

definition represents :: "zlib \<Rightarrow> any_driver Engine \<Rightarrow> (byte list \<rightharpoonup> byte list) \<Rightarrow> bool" where
  "represents z e M \<longleftrightarrow> (\<exists>cat. engine_ok z cat e \<and> means (engine_records cat e) M)"

definition quiet_env :: "engine_env \<Rightarrow> bool" where
  "quiet_env env \<longleftrightarrow> quiet_tables env \<and> quiet_reads (ee_job env) \<and> True \<notin> set (ee_read_oom env)"

text \<open>Adding the newest record changes one key.\<close>

lemma means_insert:
  assumes "means R M" "\<forall>r'\<in>R. seq_num r' < seq_num r" "finite R"
  shows "means (insert r R) (M(key_entry r := visible (Some r)))"
  unfolding means_def
proof (intro allI impI)
  fix k y assume y: "newest_version k (insert r R) y"
  show "visible y = (M(key_entry r := visible (Some r))) k"
  proof (cases "key_entry r = k")
    case True
    have "y = Some r"
    proof (cases y)
      case (Some b)
      then have "b \<in> insert r R" "seq_num r \<le> seq_num b" using y True by (auto simp: newest_version_def)
      then show ?thesis using assms(2) Some by (auto dest: leD)
    qed (use y True in \<open>simp add: newest_version_def\<close>)
    then show ?thesis using True by simp
  next
    case False
    then have "newest_version k R y" using y by (auto simp: newest_version_def split: option.splits)
    then show ?thesis using assms(1) False by (auto simp: means_def)
  qed
qed

section \<open>Lookups\<close>

lemma fresh_arena:
  assumes "DBOptions_validate opts = Ok" "True \<notin> set script"
  shows "\<exists>ra. arena_init (ao_page_size (db_arena opts)) (ao_large_threshold (db_arena opts)) script = Some ra \<and> sound_arena ra"
proof -
  obtain ra where ra: "arena_init (ao_page_size (db_arena opts)) (ao_large_threshold (db_arena opts)) script = Some ra"
    using validated_arena [OF DBOptions_validateD(2) [OF assms(1)]] by blast
  then have "never_oom ra" using assms(2) by (auto simp: arena_init_def never_oom_def split: if_splits)
  then show ?thesis using ra arena_init_ok by (auto simp: sound_arena_def)
qed

lemma level_count_exact: "engine_ok z cat e \<Longrightarrow> unat (level_count (e_lm e)) = length (lm_levels (e_lm e))"
  using store_okD(2) [OF engine_okD(5), of z cat e] by (simp add: level_count_def unat_of_nat)

lemma api_value_visible: "rtype r \<noteq> Undefined \<Longrightarrow> api_value r = Inr (visible (Some r))"
  by (cases "rtype r") (simp_all add: api_value_def visible_def)

lemma get_memory:
  assumes "engine_ok z cat e" "MemTable_get (dispatch ly kind) key (e_mem e) = (r, m)"
  shows "\<exists>x. r = Inr x \<and> newest_version key (set (mt_records (e_mem e))) x" "engine_ok z cat (e\<lparr>e_mem := m\<rparr>)"
    "engine_records cat (e\<lparr>e_mem := m\<rparr>) = engine_records cat e"
proof -
  note g = dv.get_newest [OF engine_okD(6) [OF assms(1)] assms(2)]
  show "\<exists>x. r = Inr x \<and> newest_version key (set (mt_records (e_mem e))) x" by (rule g(1))
  obtain d where d: "m = (e_mem e)\<lparr>mutable_table := d\<rparr>" "d = snd (d_find_mut (dispatch ly kind) key (mutable_table (e_mem e)))"
    using assms(2) by (auto simp: MemTable_get_def Let_def split: prod.splits sum.splits)
  have "driver_records d = driver_records (mutable_table (e_mem e))"
    using dv.find_mut_keeps engine_okD(6) [OF assms(1)] d(2) by (simp add: memtable_ok_def)
  then have l: "mem_layers m = mem_layers (e_mem e)" by (simp add: d(1) mem_layers_def)
  show r: "engine_records cat (e\<lparr>e_mem := m\<rparr>) = engine_records cat e" using g(3) by (simp add: engine_records_def)
  show "engine_ok z cat (e\<lparr>e_mem := m\<rparr>)" using assms(1) g(2) l r by (simp add: engine_ok_def)
qed

lemma get_effect:
  assumes "engine_ok z cat e" "means (engine_records cat e) M" "crc_incremental z" "quiet_env env" "length key \<le> u32_max"
  shows "\<exists>e'. Engine_get z (dispatch ly kind) env key e = Some (Inr (M key), e') \<and> engine_ok z cat e' \<and> engine_records cat e' = engine_records cat e"
proof -
  obtain r m where m: "MemTable_get (dispatch ly kind) key (e_mem e) = (r, m)" by fastforce
  note g = get_memory [OF assms(1) m]
  define e1 where "e1 = e\<lparr>e_mem := m\<rparr>"
  have e1: "engine_ok z cat e1" "engine_records cat e1 = engine_records cat e" using g by (simp_all add: e1_def)
  have op: "ensure_open e = Ok" using engine_okD(1,2) [OF assms(1)] by (simp add: ensure_open_def)
  obtain x where x: "r = Inr x" "newest_version key (set (mt_records (e_mem e))) x" using g(1) by blast
  obtain y where y: "newest_version key (store_records cat (e_lm e)) y" using newest_version_exists [of "store_records cat (e_lm e)" key] by (auto simp: store_records_def)
  have n: "newest_version key (engine_records cat e) (case x of None \<Rightarrow> y | Some r \<Rightarrow> Some r)"
    unfolding engine_records_def by (rule newest_version_newer [OF x(2) y memory_newer [OF assms(1)]])
  have ty: "rtype r \<noteq> Undefined" if "newest_version key (engine_records cat e) (Some r)" for r
    using that engine_okD(8) [OF assms(1)] by (simp add: newest_version_def)
  show ?thesis
  proof (cases x)
    case (Some rec)
    then have "Engine_get z (dispatch ly kind) env key e = Some (api_value rec, e1)"
      using op assms(5) m x(1) by (simp add: Engine_get_def Let_def e1_def)
    moreover have "api_value rec = Inr (M key)" using n Some ty assms(2) api_value_visible by (auto simp: means_def)
    ultimately show ?thesis using e1 by metis
  next
    case None
    obtain ra where ra: "arena_init (ao_page_size (db_arena (e_options e))) (ao_large_threshold (db_arena (e_options e))) (ee_read_oom env) = Some ra" "sound_arena ra"
      using fresh_arena [OF engine_okD(3) [OF assms(1)], of "ee_read_oom env"] assms(4) by (auto simp: quiet_env_def)
    have q: "quiet_tables env" using assms(4) by (simp add: quiet_env_def)
    let ?ls = "[0..<length (lm_levels (e_lm e1))]"
    have "sorted_wrt (<) ?ls" "\<forall>lv\<in>set ?ls. lv < length (lm_levels (e_lm e1))" by simp_all
    from search_levels_newest [OF assms(3) q engine_okD(5,9) [OF e1(1)] ra(2) this, of key] obtain x' mgr ar ra' where
      s: "search_levels z env key ?ls (e1, ra) = Some (Inr x', e1\<lparr>e_mgr := mgr, e_arena := ar\<rparr>, ra')" "store_ok z cat (e_disk e1) mgr (e_lm e1) (next_id e1)"
      "sm_dir mgr = sm_dir (e_mgr e1)" "sound_arena ar" "newest_version key (\<Union>lv\<in>set ?ls. level_records cat (e_lm e1) lv) x'" by blast
    define e2 where "e2 = e1\<lparr>e_mgr := mgr, e_arena := ar\<rparr>"
    have e2: "engine_ok z cat e2" "engine_records cat e2 = engine_records cat e" using e1 s(2,4) by (simp_all add: e2_def engine_ok_def engine_records_def)
    have "newest_version key (store_records cat (e_lm e)) x'" using s(5) by (simp add: store_records_levels e1_def)
    then have n': "newest_version key (engine_records cat e) x'"
      using newest_version_newer [OF x(2) _ memory_newer [OF assms(1)], of x'] None by (simp add: engine_records_def)
    have eq: "Engine_get z (dispatch ly kind) env key e = Some (case x' of None \<Rightarrow> Inr None | Some rec \<Rightarrow> api_value rec, e2)"
      using op assms(5) m x(1) None ra(1) s(1) level_count_exact [OF assms(1)]
      by (cases x') (simp_all add: Engine_get_def Let_def e1_def e2_def)
    have "(case x' of None \<Rightarrow> Inr None | Some rec \<Rightarrow> api_value rec) = Inr (M key)"
    proof -
      have v: "visible x' = M key" using n' assms(2) by (simp add: means_def)
      show ?thesis
      proof (cases x')
        case None
        then show ?thesis using v by (simp add: visible_def)
      next
        case (Some rec)
        then show ?thesis using v api_value_visible [OF ty, of rec] n' by simp
      qed
    qed
    then show ?thesis using eq e2 by metis
  qed
qed

section \<open>Writes\<close>

lemma make_entries_effect:
  assumes "sound_arena ar"
  shows "\<exists>c ar'. make_entries key val ty ar = Some (c, ar') \<and> sound_arena ar' \<and> extends ar ar'"
proof (cases "length key \<le> u32_max")
  case False
  then show ?thesis using assms by (simp add: make_entries_def arena_make_entry_def sound_arena_def extends_refl)
next
  case True
  obtain ar1 where a1: "arena_make_entry key ar = (Inr key, ar1)" "extends ar ar1" "never_oom ar1" using make_entry_ok True assms unfolding sound_arena_def by blast
  have s1: "arena_ok ar1" using a1(2) by (simp add: extends_def)
  show ?thesis
  proof (cases "ty = Tombstone \<or> length val \<le> u32_max")
    case True
    then obtain ar2 x where a2: "(if ty = Tombstone then (Inr [], ar1) else arena_make_entry val ar1) = (Inr x, ar2)" "extends ar1 ar2" "never_oom ar2"
      using make_entry_ok [OF s1 a1(3), of val] a1(3) s1 by (cases "ty = Tombstone") (auto simp: extends_refl)
    then have "make_entries key val ty ar = Some (Ok, ar2)" using a1(1) by (simp add: make_entries_def)
    moreover have "arena_ok ar2" using a2(2) by (simp add: extends_def)
    ultimately show ?thesis using extends_trans [OF a1(2) a2(2)] a2(3) by (simp add: sound_arena_def)
  next
    case False
    then have "make_entries key val ty ar = map_option (Pair AllocationTooLarge) (rollback (take_checkpoint ar) ar1)"
      using a1(1) by (simp add: make_entries_def arena_make_entry_def)
    moreover have "arena_ok ar" using assms by (simp add: sound_arena_def)
    ultimately show ?thesis using rollback_extends [OF _ a1(2)] a1(3) by (auto simp: sound_arena_def never_oom_def extends_def)
  qed
qed

lemma apply_record_effect:
  assumes ok: "engine_ok z cat e" and r: "seq_num r = e_next_seq e" "rtype r \<noteq> Undefined" "e_next_seq e \<noteq> - 1"
    and run: "apply_record (dispatch ly kind) env r e = (c, e')"
  shows "if c = Ok then engine_ok z cat (e'\<lparr>e_next_seq := e_next_seq e' + 1\<rparr>) \<and> engine_records cat e' = insert r (engine_records cat e)
    else e' = e"
proof -
  let ?D = "dispatch ly kind"
  obtain d where d: "d_insert ?D (ee_chance env (seq_num r)) r (mutable_table (e_mem e)) = (c, d)" "e' = e\<lparr>e_mem := (e_mem e)\<lparr>mutable_table := d\<rparr>\<rparr>"
    using run by (auto simp: apply_record_def MemTable_apply_def split: prod.splits)
  have m: "driver_ok (mutable_table (e_mem e))" using engine_okD(6) [OF ok] by (simp add: memtable_ok_def)
  show ?thesis
  proof (cases "c = Ok")
    case False
    then show ?thesis using dv.insert_fails [OF m d(1)] d(2) by simp
  next
    case True
    then have i: "driver_ok d" "driver_records d = ins_record r (driver_records (mutable_table (e_mem e)))" using dv.insert_ok [OF m] d(1) by blast+
    let ?m = "(e_mem e)\<lparr>mutable_table := d\<rparr>"
    have rec: "engine_records cat e' = insert r (engine_records cat e)" using i(2) d(2) by (auto simp: engine_records_def memtable_records_def)
    obtain A As where A: "mem_layers (e_mem e) = A # As" "mem_layers ?m = insert r A # As" by (simp add: mem_layers_def i(2))
    have old: "seq_num x < seq_num r" if "x \<in> engine_records cat e" for x using engine_okD(8) [OF ok that] r(1) by simp
    have "\<forall>B\<in>set (As @ [store_records cat (e_lm e)]). B \<subseteq> engine_records cat e"
      using A(1) mem_layers_union [of "e_mem e"] by (auto simp: engine_records_def)
    then have nr: "\<forall>B\<in>set (As @ [store_records cat (e_lm e)]). newer {r} B" using old by (fastforce simp: newer_def)
    have "sorted_wrt newer (mem_layers ?m @ [store_records cat (e_lm e)])"
    proof -
      have "\<forall>B\<in>set (As @ [store_records cat (e_lm e)]). newer A B" "sorted_wrt newer (As @ [store_records cat (e_lm e)])"
        using engine_okD(7) [OF ok] unfolding A append_Cons by simp_all
      then show ?thesis using nr unfolding A append_Cons by (simp add: newer_def)
    qed
    moreover have "mt_ok ?m" using engine_okD(6) [OF ok] i(1) by (simp add: memtable_ok_def)
    moreover have "seq_num x < e_next_seq e + 1 \<and> rtype x \<noteq> Undefined" if "x \<in> engine_records cat e'" for x
      using that rec engine_okD(8) [OF ok, of x] r u64_less_Suc [OF r(3)] by auto
    ultimately have "engine_ok z cat (e'\<lparr>e_next_seq := e_next_seq e' + 1\<rparr>)"
      using ok unfolding engine_ok_def d(2) by (simp add: engine_records_def)
    then show ?thesis using True rec by simp
  qed
qed

lemma arena_frame: "engine_ok z cat e \<Longrightarrow> sound_arena ar \<Longrightarrow> engine_ok z cat (e\<lparr>e_arena := ar\<rparr>) \<and> engine_records cat (e\<lparr>e_arena := ar\<rparr>) = engine_records cat e"
  by (rule engine_ok_frame) simp_all

lemma on_wal_frame:
  assumes "engine_ok z cat e" "on_wal a e = (c, e')"
  shows "engine_ok z cat e' \<and> engine_records cat e' = engine_records cat e \<and> e_next_seq e' = e_next_seq e \<and> e_arena e' = e_arena e \<and> e_options e' = e_options e"
proof -
  obtain w where "e' = e\<lparr>e_wal := w, e_disk := wal_to_disk (engine_wal_path (e_options e) (e_wal_id e)) w (e_disk e)\<rparr>"
    using assms(2) by (auto simp: on_wal_def split: prod.splits)
  then show ?thesis using engine_ok_frame [OF assms(1), of e'] engine_okD(9) [OF assms(1)] by simp
qed

definition put_record :: "byte list \<Rightarrow> byte list \<Rightarrow> Type \<Rightarrow> u64 \<Rightarrow> InternalRecord" where
  "put_record key val ty sq = \<lparr>key_entry = key, value_entry = (if ty = Tombstone then [] else val), rtype = ty, seq_num = sq\<rparr>"

text \<open>A put fails without a trace in what can be read, or adds its record and goes on to the flush check.\<close>

lemma put_prefix:
  fixes ly kind
  assumes ok: "engine_ok z cat e"
  defines "D \<equiv> dispatch ly kind"
  shows "(\<exists>c e'. put_impl z D env key val ty e = Some (c, e') \<and> c \<noteq> Ok \<and> engine_ok z cat e' \<and> engine_records cat e' = engine_records cat e) \<or>
    (\<exists>e1. put_impl z D env key val ty e = maybe_flush_unlocked z D env e1 \<and> engine_ok z cat e1 \<and>
       engine_records cat e1 = insert (put_record key val ty (e_next_seq e)) (engine_records cat e))"
proof (cases "(ty \<noteq> Put \<and> ty \<noteq> Tombstone) \<or> e_next_seq e = - 1")
  case True
  then show ?thesis using ok engine_okD(1,2) [OF ok] by (auto simp: put_impl_def ensure_open_def)
next
  case False
  then have ty: "ty \<noteq> Undefined" "e_next_seq e \<noteq> - 1" "\<not> (ty \<noteq> Put \<and> ty \<noteq> Tombstone)" by auto
  have op: "ensure_open e = Ok" using engine_okD(1,2) [OF ok] by (simp add: ensure_open_def)
  let ?r = "put_record key val ty (e_next_seq e)"
  obtain c ar where m: "make_entries key val ty (e_arena e) = Some (c, ar)" "sound_arena ar" "extends (e_arena e) ar"
    using make_entries_effect [OF engine_okD(9) [OF ok]] by blast
  define e1 where "e1 = e\<lparr>e_arena := ar\<rparr>"
  have e1: "engine_ok z cat e1" "engine_records cat e1 = engine_records cat e" using arena_frame [OF ok m(2)] by (simp_all add: e1_def)
  obtain c2 e2 where w: "on_wal (WALWriter_write z ?r) e1 = (c2, e2)" by fastforce
  note f2 = on_wal_frame [OF e1(1) w]
  have e2: "engine_ok z cat e2" "engine_records cat e2 = engine_records cat e" "e_arena e2 = ar" using f2 e1(2) by (simp_all add: e1_def)
  obtain c3 e3 where y: "(if wo_sync_on_write (db_wal (e_options e2)) then on_wal WALWriter_sync e2 else (Ok, e2)) = (c3, e3)" by fastforce
  have e3: "engine_ok z cat e3" "engine_records cat e3 = engine_records cat e" "e_next_seq e3 = e_next_seq e"
  proof -
    have "engine_ok z cat e3 \<and> engine_records cat e3 = engine_records cat e2 \<and> e_next_seq e3 = e_next_seq e2"
    proof (cases "wo_sync_on_write (db_wal (e_options e2))")
      case True
      then have "on_wal WALWriter_sync e2 = (c3, e3)" using y by simp
      then show ?thesis using on_wal_frame [OF e2(1)] by blast
    qed (use y e2 in simp)
    then show "engine_ok z cat e3" "engine_records cat e3 = engine_records cat e" "e_next_seq e3 = e_next_seq e" using e2(2) f2 by (simp_all add: e1_def)
  qed
  obtain c4 e4 where p: "apply_record D env ?r e3 = (c4, e4)" by fastforce
  have "seq_num ?r = e_next_seq e3" "rtype ?r \<noteq> Undefined" "e_next_seq e3 \<noteq> - 1" using ty(1,2) e3(3) by (simp_all add: put_record_def)
  note a = apply_record_effect [OF e3(1) this p [unfolded D_def]]
  have eq: "put_impl z D env key val ty e =
      (if c \<noteq> Ok then Some (c, e1)
       else if c2 \<noteq> Ok then map_option (\<lambda>ar. (c2, e2\<lparr>e_arena := ar\<rparr>)) (rollback (take_checkpoint (e_arena e)) (e_arena e2))
       else if c3 \<noteq> Ok then Some (c3, e3)
       else if c4 \<noteq> Ok then Some (c4, e4) else maybe_flush_unlocked z D env (e4\<lparr>e_next_seq := e_next_seq e4 + 1\<rparr>))"
    using op ty m(1) w y p by (cases "ty = Tombstone"; cases "wo_sync_on_write (db_wal (e_options e2))") (simp_all add: put_impl_def Let_def e1_def put_record_def)
  show ?thesis
  proof (cases "c \<noteq> Ok \<or> c2 = Ok")
    case True
    then show ?thesis
    proof (cases "c = Ok \<and> c3 = Ok \<and> c4 = Ok")
      case True
      then have "put_impl z D env key val ty e = maybe_flush_unlocked z D env (e4\<lparr>e_next_seq := e_next_seq e4 + 1\<rparr>)" using eq \<open>c \<noteq> Ok \<or> c2 = Ok\<close> by simp
      moreover have "engine_ok z cat (e4\<lparr>e_next_seq := e_next_seq e4 + 1\<rparr>)" "engine_records cat e4 = insert ?r (engine_records cat e)" using a True e3(2) by simp_all
      ultimately show ?thesis by (intro disjI2 exI [of _ "e4\<lparr>e_next_seq := e_next_seq e4 + 1\<rparr>"]) (simp add: engine_records_def)
    next
      case False
      then show ?thesis using eq \<open>c \<noteq> Ok \<or> c2 = Ok\<close> e1 e3 a by (cases "c = Ok"; cases "c3 = Ok") auto
    qed
  next
    case False
    have r: "rollback (take_checkpoint (e_arena e)) ar = Some ((e_arena e)\<lparr>oom := oom ar\<rparr>)" "sound_arena ((e_arena e)\<lparr>oom := oom ar\<rparr>)"
      using rollback_extends [OF _ m(3)] engine_okD(9) [OF ok] m(2) by (auto simp: sound_arena_def never_oom_def extends_def)
    then have "put_impl z D env key val ty e = Some (c2, e2\<lparr>e_arena := (e_arena e)\<lparr>oom := oom ar\<rparr>\<rparr>)" using eq False e2(3) by simp
    then show ?thesis using arena_frame [OF e2(1) r(2)] e2(2) False by auto
  qed
qed

end
