(* ===== verification/EngineFlush.thy ===== *)
theory EngineFlush
  imports EngineView
begin

text \<open>
  A flush moves the oldest generation of the memory table into a table of level 0: whatever fails on the way,
  the engine stands for the same records.
\<close>

section \<open>Commits\<close>

lemma stage_keeps_level_count:
  "snd (stage_delete d (lm, s)) = (lm', s') \<Longrightarrow> length (lm_levels lm') = length (lm_levels lm)"
  "snd (stage_add t (lm, s)) = (lm', s') \<Longrightarrow> length (lm_levels lm') = length (lm_levels lm)"
  by (auto simp: stage_delete_def stage_add_def remove_table_def remove_table_at_def add_table_def Let_def
      split: prod.splits if_splits list.splits)

lemma run_all_invariant:
  assumes "run_all as s = (c, s')" "\<And>a s. a \<in> set as \<Longrightarrow> P s \<Longrightarrow> P (snd (a s))" "P s"
  shows "P s'"
  using assms
proof (induction as arbitrary: s)
  case (Cons a as)
  obtain c1 s1 where s1: "a s = (c1, s1)" by fastforce
  then have "P s1" using Cons.prems(2) [of a s] Cons.prems(3) by simp
  then show ?case using Cons s1 by (auto split: if_splits)
qed simp

lemma stage_apply_level_count:
  assumes "stage_apply e (lm, sc) = (Ok, lm', sc')"
  shows "length (lm_levels lm') = length (lm_levels lm)"
proof -
  obtain seen where "staged_tables (edit_payload e) (lm, 0) = (Ok, lm', seen)" using stage_apply_okD [OF assms] by blast
  then have "length (lm_levels (fst (lm', seen))) = length (lm_levels lm)"
    unfolding staged_tables_def
  proof (rule run_all_invariant [where P = "\<lambda>s. length (lm_levels (fst s)) = length (lm_levels lm)"])
    fix a and s :: "LevelManager \<times> u64"
    assume "a \<in> set (map stage_delete (deleted_tables (edit_payload e)) @ map stage_add (new_tables (edit_payload e)))"
      "length (lm_levels (fst s)) = length (lm_levels lm)"
    then show "length (lm_levels (fst (snd (a s)))) = length (lm_levels lm)"
      using stage_keeps_level_count by (cases s) (auto, (metis prod.collapse)+)
  qed simp
  then show ?thesis by simp
qed

lemma commit_effect:
  assumes "commit z edit e = (c, e')"
  shows "\<exists>m lm d fs. e' = e\<lparr>e_faults := fs, e_manifest := m, e_lm := lm, e_disk := d\<rparr> \<and> m_path m = m_path (e_manifest e) \<and>
    (\<forall>p. p \<noteq> m_path m \<longrightarrow> d p = e_disk e p) \<and>
    (if c = Ok then stage_apply edit (e_lm e, m_counters (e_manifest e)) = (Ok, lm, m_counters m) else lm = e_lm e \<and> m_counters m = m_counters (e_manifest e))"
proof -
  obtain b e1 where f: "next_fault e = (b, e1)" by fastforce
  obtain fs where e1: "e1 = e\<lparr>e_faults := fs\<rparr>" 
  proof (cases "e_faults e")
    case Nil
    then have "e1 = e\<lparr>e_faults := e_faults e\<rparr>" using f by (simp add: next_fault_def)
    then show ?thesis by (rule that)
  qed (use f in \<open>auto simp: next_fault_def\<close>)
  obtain ed m lm where k: "Manifest_commit z b edit (e_manifest e, e_lm e) = (c, ed, m, lm)" "e' = e\<lparr>e_faults := fs, e_manifest := m, e_lm := lm, e_disk := manifest_to_disk m (e_disk e)\<rparr>"
    using assms f e1 by (auto simp: commit_def split: prod.splits)
  have "p \<noteq> m_path m \<Longrightarrow> manifest_to_disk m (e_disk e) p = e_disk e p" for p by (simp add: manifest_to_disk_def split: option.splits)
  then show ?thesis using k(2) Manifest_commit_path [OF k(1)] Manifest_commit_outcome [OF k(1)]
    by (intro exI [of _ m] exI [of _ lm] exI [of _ "manifest_to_disk m (e_disk e)"] exI [of _ fs]) simp
qed

section \<open>A new table in the store\<close>

lemma ucast_id_inj: "unat (a :: u64) \<le> u32_max \<Longrightarrow> unat b \<le> u32_max \<Longrightarrow> (ucast a :: u32) = ucast b \<longleftrightarrow> a = b"
proof
  assume a: "unat a \<le> u32_max" "unat b \<le> u32_max" "(ucast a :: u32) = ucast b"
  have "unat (ucast a :: u32) = unat a" "unat (ucast b :: u32) = unat b" using a(1,2) by (simp_all add: unsigned_ucast_eq take_bit_nat_eq_self)
  then show "a = b" using a(3) by (simp add: word_unat_eq_iff)
qed simp

lemma u32_not_max: "unat (a :: u64) \<le> u32_max \<Longrightarrow> a \<noteq> - 1"
  by (auto simp: unsigned_minus_1_eq_mask mask_eq_exp_minus_1)

lemma unat_ucast_id: "unat (a :: u64) \<le> u32_max \<Longrightarrow> unat (ucast a :: u32) = unat a"
  by (simp add: unsigned_ucast_eq take_bit_nat_eq_self)

lemma store_add_table:
  assumes st: "store_ok z cat d mgr lm nid" and nid: "nid \<noteq> 0" "unat nid \<le> u32_max"
    and meta: "table_id meta = nid" "tm_level meta = 0" "path_of_bytes (tm_path meta) = make_table_path (ucast nid) (sm_dir mgr)" "stored_table z d meta rs"
    and lm': "levels_ok lm'" "length (lm_levels lm') = length (lm_levels lm)" "set (all_tables lm') = insert meta (set (all_tables lm))"
    and new: "newer (set rs) (store_records cat lm)"
  shows "store_ok z (cat(ucast nid \<mapsto> rs)) d mgr lm' (nid + 1)" "store_records (cat(ucast nid \<mapsto> rs)) lm' = set rs \<union> store_records cat lm"
proof -
  let ?cat = "cat(ucast nid \<mapsto> rs)" let ?T = "set (all_tables lm)"
  have n1: "nid \<noteq> - 1" using nid(2) u32_not_max by blast
  have unid: "unat (ucast nid :: u32) = unat nid" using unat_ucast_id nid(2) by blast
  have other: "table_records ?cat m = table_records cat m" "?cat (ucast (table_id m)) = cat (ucast (table_id m))" if "m \<in> ?T" for m
  proof -
    have "(ucast (table_id m) :: u32) \<noteq> ucast nid" using ucast_id_inj [OF live_tableD(1) [OF st that] nid(2)] live_tableD(5) [OF st that] by auto
    then show "table_records ?cat m = table_records cat m" "?cat (ucast (table_id m)) = cat (ucast (table_id m))" by (simp_all add: table_records_def)
  qed
  have this_one: "table_records ?cat meta = rs" "?cat (ucast (table_id meta)) = Some rs" by (simp_all add: table_records_def meta(1))
  show "store_records ?cat lm' = set rs \<union> store_records cat lm" using other(1) this_one(1) by (auto simp: store_records_def lm'(3))
  have od: "on_disk z d (make_table_path (ucast nid) (sm_dir mgr)) rs" using meta(3,4) by (auto simp: stored_table_def on_disk_def)
  have np: "sm_pool mgr (ucast nid) = None" using store_okD(8) [OF st, of "ucast nid"] unid by (cases "sm_pool mgr (ucast nid)") auto
  have "pool_ok z d ?cat mgr" using store_okD(3) [OF st] od np by (auto simp: pool_ok_def)
  moreover have "live_table ?cat (sm_dir mgr) (nid + 1) m" if "m \<in> set (all_tables lm')" for m
  proof (cases "m = meta")
    case True
    then show ?thesis using meta this_one u64_less_Suc [OF n1] by (simp add: live_table_def stored_table_def)
  next
    case False
    then have m: "m \<in> ?T" using that lm'(3) by simp
    have "table_id m < nid + 1" using live_tableD(5) [OF st m] u64_less_Suc [OF n1] by simp
    then show ?thesis using live_tableD(2-4) [OF st m] other [OF m] unfolding live_table_def by metis
  qed
  moreover have "dom ?cat = (ucast \<circ> table_id) ` set (all_tables lm')" using store_okD(6) [OF st] by (simp add: lm'(3) meta(1))
  moreover have "unat tid < unat (nid + 1)" if "tid \<in> dom (sm_pool mgr)" for tid using that store_okD(8) [OF st] u64_Suc [OF n1] by fastforce
  moreover have "newer (set (table_records ?cat a)) (set (table_records ?cat b))" if "a \<in> set (all_tables lm')" "b \<in> set (all_tables lm')" "precedes a b" for a b
  proof (cases "a = meta")
    case True
    then have "b \<in> ?T" using that lm'(3) meta(2) by (auto simp: precedes_def)
    then have "set (table_records cat b) \<subseteq> store_records cat lm" by (auto simp: store_records_def)
    then show ?thesis using newer_mono [OF new] True this_one(1) other(1) [OF \<open>b \<in> ?T\<close>] by simp
  next
    case False
    then have a: "a \<in> ?T" using that(1) lm'(3) by simp
    have "b \<noteq> meta" using that(3) meta(1,2) live_tableD(5) [OF st a] by (auto simp: precedes_def)
    then show ?thesis using a that other(1) store_okD(9) [OF st] lm'(3) by auto
  qed
  moreover have "unat (nid + 1) \<le> u32_max + 1" using u64_Suc [OF n1] nid(2) by simp
  ultimately show "store_ok z ?cat d mgr lm' (nid + 1)" using st lm'(1,2) by (simp add: store_ok_def)
qed

section \<open>Publishing a flushed generation\<close>

definition same_tables :: "disk \<Rightarrow> disk \<Rightarrow> bool" where
  "same_tables d d' \<longleftrightarrow> (\<forall>i dir. d' (make_table_path i dir) = d (make_table_path i dir))"

definition same_core :: "any_driver Engine \<Rightarrow> any_driver Engine \<Rightarrow> bool" where
  "same_core e e' \<longleftrightarrow> e_options e' = e_options e \<and> e_opened e' = e_opened e \<and> e_closed e' = e_closed e \<and> e_lm e' = e_lm e \<and> e_mgr e' = e_mgr e \<and>
     e_next_seq e' = e_next_seq e \<and> e_manifest e' = e_manifest e \<and> e_arena e' = e_arena e \<and> same_tables (e_disk e) (e_disk e')"

lemma same_core_refl [simp]: "same_core e e"
  by (simp add: same_core_def same_tables_def)

lemma same_core_trans: "same_core a b \<Longrightarrow> same_core b c \<Longrightarrow> same_core a c"
  by (simp add: same_core_def same_tables_def)

lemma engine_ok_core:
  assumes "engine_ok z cat e" "same_core e e'" "e_mem e' = e_mem e"
  shows "engine_ok z cat e' \<and> engine_records cat e' = engine_records cat e"
  using assms by (intro engine_ok_frame) (simp_all add: same_core_def same_tables_def engine_okD(9))

lemma remove_wal_core: "remove_if_present env (engine_wal_path opts wid) e = (c, e') \<Longrightarrow> same_core e e' \<and> e_mem e' = e_mem e"
  using other_paths(1) [symmetric] by (auto simp: remove_if_present_def same_core_def same_tables_def split: if_splits)

lemma on_wal_core: "on_wal a e = (c, e') \<Longrightarrow> same_core e e' \<and> e_mem e' = e_mem e"
  by (auto simp: on_wal_def same_core_def same_tables_def split: prod.splits)

lemma create_wal_tables: "create_wal z env (engine_wal_path opts wid) wid' start d = (c, w, d') \<Longrightarrow> same_tables d d'"
  by (auto simp: create_wal_def same_tables_def Let_def split: prod.splits if_splits)

lemma manifest_tables: "\<forall>p. p \<noteq> path_join x ''MANIFEST'' \<longrightarrow> d p = D p \<Longrightarrow> same_tables D d"
  using other_paths(2) [symmetric] by (simp add: same_tables_def)

lemma rotate_core:
  assumes "rotate_wal z env e = (c, r, e')"
  shows "same_core e e' \<and> e_mem e' = e_mem e"
proof (cases "MemTable_immutable_count (e_mem e) \<noteq> 1 \<or> unat (e_wal_id e) = u32_max")
  case True
  then show ?thesis using assms by (auto simp: rotate_wal_def split: if_splits)
next
  case False
  let ?p = "engine_wal_path (e_options e) (e_wal_id e + 1)"
  obtain c1 e1 where r: "remove_if_present env ?p e = (c1, e1)" by fastforce
  obtain c2 w d where k: "create_wal z env ?p (e_wal_id e + 1) (e_next_seq e1) (e_disk e1) = (c2, w, d)" by (metis prod_cases3)
  have "e' = e1 \<or> e' = e1\<lparr>e_disk := d\<rparr>" using assms False r k by (auto simp: rotate_wal_def Let_def split: if_splits)
  then show ?thesis using remove_wal_core [OF r] create_wal_tables [OF k] by (auto simp: same_core_def same_tables_def)
qed

lemma finish_flush_core:
  assumes "finish_flush env gid r e = (c, e')" "immutable_tables (e_mem e) = s # ss" "generation_id s = gid"
  shows "same_core e e' \<and> e_mem e' = (e_mem e)\<lparr>immutable_tables := ss\<rparr>"
proof -
  let ?m = "(e_mem e)\<lparr>immutable_tables := ss\<rparr>"
  define e1 where "e1 = (let e = e\<lparr>e_mem := ?m\<rparr> in if e_flush_count e \<noteq> - 1 then e\<lparr>e_flush_count := e_flush_count e + 1\<rparr> else e)"
  have e1: "same_core e e1" "e_mem e1 = ?m" by (auto simp: e1_def Let_def same_core_def same_tables_def)
  have ret: "MemTable_retire_oldest_immutable gid (e_mem e) = (True, ?m)" using assms(2,3) by (simp add: MemTable_retire_oldest_immutable_def)
  show ?thesis
  proof (cases r)
    case None
    then show ?thesis using assms(1) ret e1 by (auto simp: finish_flush_def e1_def Let_def)
  next
    case (Some wr)
    obtain wid w where wr: "wr = (wid, w)" by fastforce
    obtain c2 e2 where w: "on_wal WALWriter_close e1 = (c2, e2)" by fastforce
    note c2 = on_wal_core [OF w]
    obtain c3 e3 where m: "remove_if_present env (engine_wal_path (e_options e1) (e_wal_id e1)) (e2\<lparr>e_wal := w, e_wal_id := wid\<rparr>) = (c3, e3)" by fastforce
    note c3 = remove_wal_core [OF m]
    have "e' = e2 \<or> e' = e3" using assms(1) ret Some wr w m by (auto simp: finish_flush_def e1_def Let_def split: if_splits)
    moreover have "same_core e2 e3" using c3 by (simp add: same_core_def)
    moreover have "e_mem e2 = ?m" "e_mem e3 = ?m" "same_core e e2" using e1 c2 c3 same_core_trans by auto
    ultimately show ?thesis using same_core_trans by blast
  qed
qed

lemma mem_layers_retire:
  assumes "immutable_tables m = s # ss"
  shows "mem_layers m = mem_layers (m\<lparr>immutable_tables := ss\<rparr>) @ [set (driver_records (table s))]"
    "mt_records m = mt_records (m\<lparr>immutable_tables := ss\<rparr>) @ driver_records (table s)"
  using assms by (simp_all add: mem_layers_def memtable_records_def)

text \<open>The edit of a flush adds one table and raises the next identifier.\<close>

lemma flush_edit_staged:
  assumes "levels_ok lm" "stage_apply (make_edit (Some nid) sq wid [meta]) (lm, sc) = (Ok, lm', sc')"
  shows "levels_ok lm' \<and> length (lm_levels lm') = length (lm_levels lm) \<and> set (all_tables lm') = insert meta (set (all_tables lm)) \<and> sc_next_table_id sc' = nid"
proof -
  obtain seen where "staged_counters (edit_payload (make_edit (Some nid) sq wid [meta])) seen sc = (Ok, sc')" using stage_apply_okD [OF assms(2)] by blast
  then have "sc_next_table_id sc' = nid" using staged_counters_okD(1) by (fastforce simp: make_edit_def)
  then show ?thesis using stage_apply_effect [OF assms] stage_apply_level_count [OF assms(2)] by (simp add: make_edit_def)
qed

lemma publish_flush_effect:
  assumes ok: "engine_ok z cat e" and im: "immutable_tables (e_mem e) = s # ss" and id: "next_id e \<noteq> 0" "unat (next_id e) \<le> u32_max"
    and meta: "table_id meta = next_id e" "tm_level meta = 0" "path_of_bytes (tm_path meta) = make_table_path (ucast (next_id e)) (sm_dir (e_mgr e))"
      "stored_table z (e_disk e) meta (driver_records (table s))"
    and run: "publish_flush z env (generation_id s) meta e = (c, e')"
  shows "\<exists>cat'. engine_ok z cat' e' \<and> engine_records cat' e' = engine_records cat e"
proof -
  let ?rs = "driver_records (table s)"
  obtain c1 r e1 where rot: "rotate_wal z env e = (c1, r, e1)" by (metis prod_cases3)
  note k1 = rotate_core [OF rot]
  have ok1: "engine_ok z cat e1" "engine_records cat e1 = engine_records cat e" using engine_ok_core [OF ok] k1 by blast+
  let ?edit = "make_edit (Some (next_id e1 + 1)) (Some (e_next_seq e1)) (map_option (ucast \<circ> fst) r) [meta]"
  obtain c2 e2 where com: "commit z ?edit e1 = (c2, e2)" by fastforce
  obtain m lm d fs where e2: "e2 = e1\<lparr>e_faults := fs, e_manifest := m, e_lm := lm, e_disk := d\<rparr>" "m_path m = m_path (e_manifest e1)"
    "\<forall>p. p \<noteq> m_path m \<longrightarrow> d p = e_disk e1 p"
    "if c2 = Ok then stage_apply ?edit (e_lm e1, m_counters (e_manifest e1)) = (Ok, lm, m_counters m) else lm = e_lm e1 \<and> m_counters m = m_counters (e_manifest e1)"
    using commit_effect [OF com] by blast
  have dt: "same_tables (e_disk e1) d" using manifest_tables [of "db_path (e_options e1)" d "e_disk e1"] e2(2,3) engine_okD(4) [OF ok1(1)] by simp
  show ?thesis
  proof (cases "c1 = Ok \<and> c2 = Ok")
    case True
    have st: "store_ok z cat d (e_mgr e1) (e_lm e1) (next_id e1)"
      using store_ok_disk [OF engine_okD(5) [OF ok1(1)]] dt by (simp add: same_tables_def)
    have eq1: "next_id e1 = next_id e" "e_mgr e1 = e_mgr e" "e_mem e1 = e_mem e" "same_tables (e_disk e) (e_disk e1)" using k1 by (simp_all add: same_core_def)
    have "stored_table z d meta ?rs"
      using meta(3,4) dt eq1(4) by (simp add: stored_table_def same_tables_def)
    moreover have lm: "levels_ok lm" "length (lm_levels lm) = length (lm_levels (e_lm e1))" "set (all_tables lm) = insert meta (set (all_tables (e_lm e1)))"
      "sc_next_table_id (m_counters m) = next_id e1 + 1"
      using flush_edit_staged [OF store_okD(1) [OF st]] e2(4) True by auto
    moreover have lay: "sorted_wrt newer (mem_layers ((e_mem e)\<lparr>immutable_tables := ss\<rparr>) @ [set ?rs] @ [store_records cat (e_lm e1)])"
      using engine_okD(7) [OF ok1(1)] mem_layers_retire(1) [OF im] eq1(3) by simp
    then have "newer (set ?rs) (store_records cat (e_lm e1))" by (simp add: sorted_wrt_append)
    ultimately have st': "store_ok z (cat(ucast (next_id e) \<mapsto> ?rs)) d (e_mgr e) lm (next_id e + 1)"
      "store_records (cat(ucast (next_id e) \<mapsto> ?rs)) lm = set ?rs \<union> store_records cat (e_lm e1)"
      using store_add_table [OF st, of meta ?rs lm] id meta(1-3) eq1(1,2) by simp_all
    let ?cat = "cat(ucast (next_id e) \<mapsto> ?rs)"
    have im2: "immutable_tables (e_mem e2) = s # ss" using e2(1) im eq1(3) by simp
    have fin: "finish_flush env (generation_id s) r e2 = (c, e')" using run rot com True by (simp add: publish_flush_def)
    note k2 = finish_flush_core [OF fin im2 refl]
    define e3 where "e3 = e2\<lparr>e_mem := (e_mem e2)\<lparr>immutable_tables := ss\<rparr>\<rparr>"
    have mem3: "e_mem e3 = (e_mem e)\<lparr>immutable_tables := ss\<rparr>" using e2(1) eq1(3) by (simp add: e3_def)
    have rec3: "engine_records ?cat e3 = engine_records cat e1"
      using mem_layers_retire(2) [OF im] st'(2) e2(1) mem3 eq1(3) by (auto simp: engine_records_def e3_def)
    have "engine_ok z ?cat e3"
    proof -
      have "sorted_wrt newer (mem_layers (e_mem e3) @ [store_records ?cat lm])" using lay unfolding st'(2) mem3 by (auto simp: sorted_wrt_append)
      moreover have "mt_ok (e_mem e3)" using engine_okD(6) [OF ok] im unfolding mem3 by (simp add: memtable_ok_def)
      ultimately show ?thesis
        using ok1(1) st'(1) lm(2,4) rec3 e2(1,2) eq1 unfolding engine_ok_def by (simp add: e3_def)
    qed
    moreover have "same_core e3 e'" "e_mem e' = e_mem e3" using k2 by (simp_all add: e3_def same_core_def)
    ultimately have "engine_ok z ?cat e' \<and> engine_records ?cat e' = engine_records ?cat e3" using engine_ok_core by blast
    then show ?thesis using rec3 ok1(2) by auto
  next
    case False
    show ?thesis
    proof (cases "c1 = Ok")
      case False
      then have "e' = e1" using run rot by (simp add: publish_flush_def)
      then show ?thesis using ok1 by blast
    next
      case c1: True
      then have "c2 \<noteq> Ok" using False by simp
      then have "lm = e_lm e1" "m_counters m = m_counters (e_manifest e1)" using e2(4) by simp_all
      then have ok2: "engine_ok z cat e2" "engine_records cat e2 = engine_records cat e1"
        using engine_ok_frame [OF ok1(1), of e2] e2(1,2) dt engine_okD(9) [OF ok1(1)] by (simp_all add: same_tables_def)
      show ?thesis
      proof (cases r)
        case None
        then have "e' = e2" using run rot com c1 \<open>c2 \<noteq> Ok\<close> by (simp add: publish_flush_def)
        then show ?thesis using ok2 ok1(2) by auto
      next
        case (Some wr)
        obtain wid w where wr: "wr = (wid, w)" by fastforce
        let ?p = "engine_wal_path (e_options e2) wid"
        define e3 where "e3 = e2\<lparr>e_disk := wal_to_disk ?p (snd (WALWriter_close w)) (e_disk e2)\<rparr>"
        have "e' = snd (remove_if_present env ?p e3)" using run rot com c1 \<open>c2 \<noteq> Ok\<close> Some wr by (simp add: publish_flush_def Let_def e3_def)
        then obtain c4 where "remove_if_present env ?p e3 = (c4, e')" by (metis prod.collapse)
        then have "same_core e3 e' \<and> e_mem e' = e_mem e3" by (rule remove_wal_core)
        moreover have "same_core e2 e3" "e_mem e3 = e_mem e2" by (simp_all add: e3_def same_core_def same_tables_def)
        ultimately have "same_core e2 e'" "e_mem e' = e_mem e2" using same_core_trans by auto
        then show ?thesis using engine_ok_core [OF ok2(1)] ok2(2) ok1(2) by auto
      qed
    qed
  qed
qed

section \<open>A whole flush\<close>

text \<open>The engine stands for the same records, in memory or in tables.\<close>

definition keeps_records :: "zlib \<Rightarrow> InternalRecord set \<Rightarrow> any_driver Engine \<Rightarrow> bool" where
  "keeps_records z R e \<longleftrightarrow> (\<exists>cat. engine_ok z cat e \<and> engine_records cat e = R)"

lemma keeps_recordsI: "engine_ok z cat e \<Longrightarrow> engine_records cat e = R \<Longrightarrow> keeps_records z R e"
  by (auto simp: keeps_records_def)

lemma next_fault_core: "next_fault e = (b, e') \<Longrightarrow> same_core e e' \<and> e_mem e' = e_mem e"
  by (auto simp: next_fault_def same_core_def same_tables_def split: list.splits)

lemma built_generation:
  assumes "mt_ok m" "immutable_tables m = s # ss" "SSTableManager_build z (dispatch ly kind) b tid m mgr = Inr (Some t)"
  shows "builder_holds z (make_tmp_table_path tid (sm_dir mgr)) (make_table_path tid (sm_dir mgr)) tid t (driver_records (table s))" "driver_records (table s) \<noteq> []"
proof -
  have "driver_ok (table s)" using assms(1,2) by (simp add: memtable_ok_def)
  then have "d_dump (dispatch ly kind) (table s) [] = driver_records (table s)" using dv.dump_recs by simp
  then have "build_impl z tid (driver_records (table s)) (make_tmp_table_path tid (sm_dir mgr)) (make_table_path tid (sm_dir mgr)) = Inr (Some t)"
    using assms(2,3) by (auto simp: SSTableManager_build_def build_memtable_def MemTable_dump_oldest_immutable_def MemTable_oldest_immutable_def split: if_splits)
  from build_impl_builds [OF this] show "builder_holds z (make_tmp_table_path tid (sm_dir mgr)) (make_table_path tid (sm_dir mgr)) tid t (driver_records (table s))"
    "driver_records (table s) \<noteq> []" by (simp_all add: builder_holds_def)
qed

lemma flush_oldest_keeps:
  fixes ly kind
  assumes ok: "engine_ok z cat e"
  defines "D \<equiv> dispatch ly kind"
  shows "\<exists>c e'. flush_oldest_immutable z D env e = Some (c, e') \<and> keeps_records z (engine_records cat e) e'"
proof (cases "immutable_tables (e_mem e)")
  case Nil
  then show ?thesis using ok by (auto simp: flush_oldest_immutable_def MemTable_oldest_immutable_def intro: keeps_recordsI)
next
  case (Cons s ss)
  let ?id = "next_id e"
  show ?thesis
  proof (cases "?id = 0 \<or> unat ?id > u32_max")
    case True
    then show ?thesis using ok Cons by (auto simp: flush_oldest_immutable_def MemTable_oldest_immutable_def intro: keeps_recordsI)
  next
    case False
    obtain b e0 where f: "next_fault e = (b, e0)" by fastforce
    note k0 = next_fault_core [OF f]
    have ok0: "engine_ok z cat e0" "engine_records cat e0 = engine_records cat e" using engine_ok_core [OF ok] k0 by blast+
    have im: "immutable_tables (e_mem e0) = s # ss" "e_mgr e0 = e_mgr e" "e_manifest e0 = e_manifest e" using k0 Cons by (simp_all add: same_core_def)
    define built where "built = SSTableManager_build z D b (ucast ?id) (e_mem e0) (e_mgr e0)"
    show ?thesis
    proof (cases "\<exists>t. built = Inr (Some t)")
      case no_table: False
      then have "\<exists>c. flush_oldest_immutable z D env e = Some (c, e0)"
        using False f Cons by (cases built) (auto simp: flush_oldest_immutable_def MemTable_oldest_immutable_def Let_def built_def [symmetric] split: option.splits)
      then show ?thesis using ok0 by (auto intro: keeps_recordsI)
    next
      case True
      then obtain t where t: "built = Inr (Some t)" by blast
      let ?p = "make_tmp_table_path (ucast ?id) (sm_dir (e_mgr e0))" let ?q = "make_table_path (ucast ?id) (sm_dir (e_mgr e0))"
      note bh = built_generation [OF engine_okD(6) [OF ok0(1)] im(1) t [unfolded built_def D_def]]
      have ar: "arena_ok (e_arena e0)" "never_oom (e_arena e0)" "length ?q \<le> 60000"
        using engine_okD(9) [OF ok0(1)] store_okD(4) [OF engine_okD(5) [OF ok0(1)]] table_path_length [of "ucast ?id" "sm_dir (e_mgr e0)"] by (simp_all add: sound_arena_def)
      define we where "we = ee_table_write env (ucast ?id)"
      obtain r t' d ar' where bf: "builder_finish z we 0 (t, e_disk e0, e_arena e0) = Some (r, t', d, ar')"
        using builder_finish_total [OF bh(1) ar] by blast
      note fin = builder_finish_effect [OF bh(1) bf ar]
      have ne: "\<not> builder_empty t" using builder_empty_iff [OF bh(1)] bh(2) by simp
      define e1 where "e1 = e0\<lparr>e_disk := d, e_arena := ar'\<rparr>"
      have tid: "unat (ucast ?id :: u32) = unat ?id" using unat_ucast_id False by simp
      have frame: "d (make_table_path i (sm_dir (e_mgr e0))) = e_disk e0 (make_table_path i (sm_dir (e_mgr e0)))" if "unat i < unat (next_id e0)" for i
      proof -
        have "make_table_path i (sm_dir (e_mgr e0)) \<noteq> ?q" using that tid im(3) table_paths_inj(1) by auto
        then show ?thesis using fin table_paths_differ by blast
      qed
      have "sound_arena ar'" using fin by (simp add: sound_arena_def extends_def)
      then have ok1: "engine_ok z cat e1" "engine_records cat e1 = engine_records cat e0"
        using engine_ok_frame [OF ok0(1), of e1] frame by (simp_all add: e1_def)
      obtain c w d1 where w: "SSTable_write z we (t, e_disk e0) = (c, w, d1)" by (metis prod_cases3)
      have eq: "flush_oldest_immutable z D env e =
          (case r of Inl c \<Rightarrow> Some (c, e1) | Inr None \<Rightarrow> Some (Ok, e1) | Inr (Some meta) \<Rightarrow> Some (publish_flush z env (generation_id s) meta e1))"
        using False f Cons t bf w ne by (auto simp: flush_oldest_immutable_def MemTable_oldest_immutable_def Let_def built_def [symmetric] we_def [symmetric]
            SSTableManager_write_def SSTableWriter_write_def builder_finish_def e1_def split: if_splits option.splits sum.splits prod.splits)
      show ?thesis
      proof (cases "\<exists>meta. r = Inr (Some meta)")
        case False
        then have "\<exists>c. flush_oldest_immutable z D env e = Some (c, e1)" using eq by (auto split: sum.splits option.splits)
        then show ?thesis using ok1 ok0(2) by (auto intro: keeps_recordsI)
      next
        case True
        then obtain meta where meta: "r = Inr (Some meta)" by blast
        obtain c e' where pf: "publish_flush z env (generation_id s) meta e1 = (c, e')" by fastforce
        have m: "table_id meta = next_id e1" "tm_level meta = 0" "path_of_bytes (tm_path meta) = make_table_path (ucast (next_id e1)) (sm_dir (e_mgr e1))"
          "stored_table z (e_disk e1) meta (driver_records (table s))"
          using fin meta im(3) tid by (simp_all add: e1_def word_unat_eq_iff unat_widen)
        have "\<exists>cat'. engine_ok z cat' e' \<and> engine_records cat' e' = engine_records cat e1"
          by (rule publish_flush_effect [OF ok1(1) _ _ _ m pf, of ss]) (use False im in \<open>simp_all add: e1_def\<close>)
        then show ?thesis using eq meta pf ok1(2) ok0(2) by (auto simp: keeps_records_def)
      qed
    qed
  qed
qed

lemma flush_loop_keeps:
  "keeps_records z R e \<Longrightarrow> \<exists>c e'. flush_loop z (dispatch ly kind) env e = Some (c, e') \<and> keeps_records z R e'"
proof (induction z "dispatch ly kind" env e rule: flush_loop.induct)
  case (1 z env e)
  show ?case
  proof (cases "MemTable_has_immutable (e_mem e)")
    case False
    then show ?thesis using 1(2) by (subst flush_loop.simps) simp
  next
    case True
    obtain cat where cat: "engine_ok z cat e" "engine_records cat e = R" using 1(2) by (auto simp: keeps_records_def)
    obtain c e1 where e1: "flush_oldest_immutable z (dispatch ly kind) env e = Some (c, e1)" "keeps_records z R e1" using flush_oldest_keeps [OF cat(1)] cat(2) by blast
    have eq: "flush_loop z (dispatch ly kind) env e = (if c = Ok then flush_loop z (dispatch ly kind) env e1 else Some (c, e1))"
      using True e1(1) by (subst flush_loop.simps) simp
    show ?thesis
    proof (cases "c = Ok")
      case c: True
      from 1(1) [OF True e1(1) refl _ e1(2)] c show ?thesis using eq by simp
    qed (use eq e1(2) in simp)
  qed
qed

lemma freeze_keeps:
  assumes ok: "engine_ok z cat e" and run: "freeze_memtable (dispatch ly kind) e = (c, e')"
  shows "engine_ok z cat e'" "engine_records cat e' = engine_records cat e"
proof -
  let ?D = "dispatch ly kind"
  obtain b1 e1 where f1: "next_fault e = (b1, e1)" by fastforce
  obtain b2 e2 where f2: "next_fault e1 = (b2, e2)" by fastforce
  have ok1: "engine_ok z cat e1 \<and> engine_records cat e1 = engine_records cat e"
    by (rule engine_ok_core [OF ok next_fault_core [OF f1, THEN conjunct1] next_fault_core [OF f1, THEN conjunct2]])
  have ok2: "engine_ok z cat e2" "engine_records cat e2 = engine_records cat e"
    using engine_ok_core [OF ok1 [THEN conjunct1] next_fault_core [OF f2, THEN conjunct1] next_fault_core [OF f2, THEN conjunct2]] ok1 by simp_all
  obtain m where m: "MemTable_freeze_mutable ?D b1 b2 (e_mem e2) = (c, m)" "e' = e2\<lparr>e_mem := m\<rparr>"
    using run f1 f2 by (auto simp: freeze_memtable_def split: prod.splits)
  have "mt_ok m \<and> mt_records m = mt_records (e_mem e2) \<and> (m = e_mem e2 \<or> mem_layers m = {} # mem_layers (e_mem e2))"
    using dv.freeze_cases [OF engine_okD(6) [OF ok2(1)] m(1)] m(1) dv.new_recs [of ly kind]
    by (auto simp: MemTable_freeze_mutable_def mem_layers_def split: if_splits)
  then have "mt_ok m" "mt_records m = mt_records (e_mem e2)" "sorted_wrt newer (mem_layers m @ [store_records cat (e_lm e2)])"
    using engine_okD(7) [OF ok2(1)] by auto
  then show "engine_ok z cat e'" "engine_records cat e' = engine_records cat e" using ok2 unfolding engine_ok_def by (simp_all add: m(2) engine_records_def)
qed

end
