(* ===== verification/EngineCompact.thy ===== *)
theory EngineCompact
  imports EngineFlush
begin

text \<open>
  A compaction replaces tables of two neighbouring levels by tables of the deeper one. The engine then stands
  for fewer records, but every lookup has the same answer, and the weight of the store goes down: the loop of
  background compactions ends.
\<close>

section \<open>Dropping hidden records\<close>

lemma newest_in_version: "sorted_records rs \<Longrightarrow> newest_version k (set rs) (newest_in k rs)"
  using newest_version_of_sorted [of rs k] by (simp add: newest_in_def newest_of_def)

lemma newest_dropped:
  assumes srt: "sorted_records rs" and r: "r \<in> set rs" "key_entry r = k"
  obtains q where "q \<in> set rs" "key_entry q = k" "\<And>s. s \<in> set rs \<Longrightarrow> key_entry s = k \<Longrightarrow> seq_num s \<le> seq_num q"
    "q \<in> set (retain b rs) \<or> rtype q = Tombstone \<and> b \<and> (\<forall>s\<in>set (retain b rs). key_entry s \<noteq> k)"
proof -
  obtain q where q: "newest_in k rs = Some q" using r by (cases "newest_in k rs") (auto simp: newest_in_None_iff)
  note n = newest_in_version [OF srt, of k, unfolded q]
  have "q \<in> set (retain b rs) \<or> rtype q = Tombstone \<and> b \<and> (\<forall>s\<in>set (retain b rs). key_entry s \<noteq> k)"
  proof (cases "compaction_keep_newest_record (rtype q) b")
    case True
    then have "newest_in k (retain b rs) = Some q" using newest_in_retain [OF srt] q by simp
    then show ?thesis by (auto simp: newest_in_def find_Some_iff)
  next
    case False
    then have "newest_in k (retain b rs) = None" using newest_in_retain [OF srt] q by simp
    then show ?thesis using False by (auto simp: newest_in_None_iff compaction_keep_newest_record_def)
  qed
  then show thesis using n that [of q] by (auto simp: newest_version_def)
qed

lemma means_compact:
  assumes m: "means (A \<union> set rs) M" and srt: "sorted_records rs" and hid: "b \<Longrightarrow> newer A (set rs)"
  shows "means (A \<union> set (retain b rs)) M"
  unfolding means_def
proof (intro allI impI)
  fix k x assume x: "newest_version k (A \<union> set (retain b rs)) x"
  have sub: "set (retain b rs) \<subseteq> set rs" by (rule retain_subset)
  show "visible x = M k"
  proof (cases x)
    case (Some r)
    have r: "r \<in> A \<union> set rs" "key_entry r = k" "\<And>s. s \<in> A \<union> set (retain b rs) \<Longrightarrow> key_entry s = k \<Longrightarrow> seq_num s \<le> seq_num r"
      using x Some sub by (auto simp: newest_version_def)
    have "seq_num s \<le> seq_num r" if s: "s \<in> A \<union> set rs" "key_entry s = k" for s
    proof (cases "s \<in> A")
      case False
      then have "s \<in> set rs" using s by simp
      from newest_dropped [OF srt this s(2), of b] obtain q where q: "q \<in> set rs" "key_entry q = k" "seq_num s \<le> seq_num q"
        "q \<in> set (retain b rs) \<or> b \<and> (\<forall>s\<in>set (retain b rs). key_entry s \<noteq> k)" using s(2) \<open>s \<in> set rs\<close> by metis
      from q(4) show ?thesis
      proof
        assume "q \<in> set (retain b rs)"
        then show ?thesis using r(3) [of q] q(2,3) by simp
      next
        assume b: "b \<and> (\<forall>s\<in>set (retain b rs). key_entry s \<noteq> k)"
        then have "r \<in> A" using x Some r(2) by (auto simp: newest_version_def)
        then show ?thesis using hid b q(1,2) r(2) q(3) unfolding newer_def by (metis less_imp_le order_trans)
      qed
    qed (use r(3) s in simp)
    then have "newest_version k (A \<union> set rs) x" using r(1,2) Some by (simp add: newest_version_def)
    then show ?thesis using m by (simp add: means_def)
  next
    case None
    then have none: "\<forall>s\<in>A \<union> set (retain b rs). key_entry s \<noteq> k" using x by (simp add: newest_version_def)
    show ?thesis
    proof (cases "\<exists>r\<in>set rs. key_entry r = k")
      case True
      then obtain r where "r \<in> set rs" "key_entry r = k" by blast
      from newest_dropped [OF srt this, of b] none obtain q where q: "q \<in> set rs" "key_entry q = k" "rtype q = Tombstone"
        "\<And>s. s \<in> set rs \<Longrightarrow> key_entry s = k \<Longrightarrow> seq_num s \<le> seq_num q" by (metis UnI2)
      then have "newest_version k (A \<union> set rs) (Some q)" using none by (auto simp: newest_version_def)
      then have "visible (Some q) = M k" using m by (simp add: means_def)
      then show ?thesis using q(3) None by (simp add: visible_def)
    next
      case False
      then have "newest_version k (A \<union> set rs) None" using none by (auto simp: newest_version_def)
      then show ?thesis using m None by (simp add: means_def)
    qed
  qed
qed

section \<open>Different tables hold different records\<close>

lemma ikey_eq: "ikey r = ikey s \<longleftrightarrow> key_entry r = key_entry s \<and> seq_num r = seq_num s"
  by (auto simp: ikey_def word_uint_eq_iff)

lemma sorted_distinct_ikeys: "sorted_records rs \<Longrightarrow> distinct (map ikey rs)"
  by (induction rs) auto

lemma tables_apart:
  assumes st: "store_ok z cat d mgr lm nid" and m: "a \<in> set (all_tables lm)" "b \<in> set (all_tables lm)" "a \<noteq> b"
    and r: "r \<in> set (table_records cat a)" "s \<in> set (table_records cat b)"
  shows "ikey r \<noteq> ikey s"
proof -
  have ids: "table_id a \<noteq> table_id b" using store_okD(1) [OF st] m by (auto simp: levels_ok_def distinct_map inj_on_def)
  consider "precedes a b" | "precedes b a" | "tm_level a = tm_level b" "tm_level a \<noteq> 0"
    using ids unfolding precedes_def by (metis linorder_neqE)
  then show ?thesis
  proof cases
    case 1
    then show ?thesis using store_okD(9) [OF st m(1,2)] r unfolding newer_def ikey_eq by (metis less_irrefl)
  next
    case 2
    then show ?thesis using store_okD(9) [OF st m(2,1)] r unfolding newer_def ikey_eq by (metis less_irrefl)
  next
    case 3
    then show ?thesis using same_level_apart [OF st m 3 r] by (simp add: ikey_eq)
  qed
qed

lemma planned_ikeys:
  assumes "store_ok z cat d mgr lm nid" "set ts \<subseteq> set (all_tables lm)" "distinct ts"
  shows "distinct (map ikey (concat (map (table_records cat) ts)))"
  using assms(2,3)
proof (induction ts)
  case (Cons t ts)
  have t: "t \<in> set (all_tables lm)" using Cons.prems(1) by simp
  have "ikey r \<noteq> ikey s" if "r \<in> set (table_records cat t)" "u \<in> set ts" "s \<in> set (table_records cat u)" for r s u
    using tables_apart [OF assms(1) t, of u r s] that Cons.prems by auto
  then have "ikey ` set (table_records cat t) \<inter> ikey ` (\<Union>u\<in>set ts. set (table_records cat u)) = {}" by blast
  then show ?case using Cons sorted_distinct_ikeys [OF live_tableD(7) [OF assms(1) t]] by simp
qed simp

section \<open>Closed plans\<close>

text \<open>The ranges of two tables are disjoint.\<close>

definition apart :: "TableMeta \<Rightarrow> TableMeta \<Rightarrow> bool" where
  "apart s t \<longleftrightarrow> largest_key s < smallest_key t \<or> largest_key t < smallest_key s"

text \<open>No other table of the source level meets a source table, no other table of the target level meets an input.\<close>

definition closed_plan :: "LevelManager \<Rightarrow> CompactionPlan \<Rightarrow> bool" where
  "closed_plan lm plan \<longleftrightarrow> CompactionPlan_validate plan \<and> set (planned plan) \<subseteq> set (all_tables lm) \<and>
     (\<forall>u\<in>set (all_tables lm) - set (planned plan).
        (tm_level u = source_level plan \<longrightarrow> (\<forall>t\<in>set (source_tables plan). apart u t)) \<and>
        (tm_level u = target_level plan \<longrightarrow> (\<forall>t\<in>set (planned plan). apart u t)))"

lemma closed_planD:
  assumes "closed_plan lm plan"
  shows "CompactionPlan_validate plan" "set (planned plan) \<subseteq> set (all_tables lm)" "distinct (planned plan)" "source_tables plan \<noteq> []"
    "\<And>t. t \<in> set (source_tables plan) \<Longrightarrow> tm_level t = source_level plan" "\<And>t. t \<in> set (overlapping_tables plan) \<Longrightarrow> tm_level t = target_level plan"
    "unat (target_level plan) = unat (source_level plan) + 1"
proof -
  show v: "CompactionPlan_validate plan" and "set (planned plan) \<subseteq> set (all_tables lm)" using assms by (simp_all add: closed_plan_def)
  note a = v [unfolded CompactionPlan_validate_alt]
  show "distinct (planned plan)" using a by (simp add: distinct_map)
  show "source_tables plan \<noteq> []" "\<And>t. t \<in> set (source_tables plan) \<Longrightarrow> tm_level t = source_level plan"
    "\<And>t. t \<in> set (overlapping_tables plan) \<Longrightarrow> tm_level t = target_level plan"
    using a by (auto simp: inside_plan_def table_ok_def word_unat_eq_iff)
  have "unat (source_level plan) \<noteq> unat (- 1 :: u32)" using a by (simp add: word_unat_eq_iff)
  moreover have "unat (source_level plan) < 2 ^ 32" using unsigned_less [of "source_level plan"] by simp
  ultimately show "unat (target_level plan) = unat (source_level plan) + 1"
    using a by (simp add: unat_word_ariths unsigned_minus_1_eq_mask mask_eq_exp_minus_1)
qed

lemma apart_newer:
  assumes "store_ok z cat d mgr lm nid" "u \<in> set (all_tables lm)" "t \<in> set (all_tables lm)" "apart u t"
  shows "newer (set (table_records cat u)) (set (table_records cat t))"
proof -
  have "key_entry r \<noteq> key_entry s" if "r \<in> set (table_records cat u)" "s \<in> set (table_records cat t)" for r s
    using described_range [OF live_tableD(4) [OF assms(1,2)] that(1)] described_range [OF live_tableD(4) [OF assms(1,3)] that(2)] assms(4)
    unfolding apart_def by (metis leD le_less_trans less_le_trans)
  then show ?thesis by (simp add: newer_def)
qed

lemma others_newer:
  assumes st: "store_ok z cat d mgr lm nid" and cp: "closed_plan lm plan" and u: "u \<in> set (all_tables lm)" "u \<notin> set (planned plan)" "tm_level u \<le> target_level plan"
    and t: "t \<in> set (planned plan)"
  shows "newer (set (table_records cat u)) (set (table_records cat t))"
proof (cases "tm_level u < tm_level t")
  case True
  then show ?thesis using store_okD(9) [OF st u(1)] closed_planD(2) [OF cp] t by (auto simp: precedes_def)
next
  case False
  have "apart u t"
  proof (cases "t \<in> set (source_tables plan)")
    case True
    note lv = closed_planD(5) [OF cp True] closed_planD(7) [OF cp]
    then have "tm_level u = source_level plan \<or> tm_level u = target_level plan" using False u(3) by (auto simp: word_le_nat_alt word_less_nat_alt word_unat_eq_iff)
    then show ?thesis using cp u(1,2) t True unfolding closed_plan_def by blast
  next
    case f: False
    then have "tm_level t = target_level plan" using closed_planD(6) [OF cp] t by (simp add: planned_def)
    then have "tm_level u = target_level plan" using False u(3) by simp
    then show ?thesis using cp u(1,2) t unfolding closed_plan_def by blast
  qed
  then show ?thesis using apart_newer [OF st u(1)] closed_planD(2) [OF cp] t by blast
qed

lemma deeper_older:
  assumes st: "store_ok z cat d mgr lm nid" and cp: "closed_plan lm plan" and u: "u \<in> set (all_tables lm)" "target_level plan < tm_level u" and t: "t \<in> set (planned plan)"
  shows "newer (set (table_records cat t)) (set (table_records cat u))"
proof (rule store_okD(9) [OF st _ u(1)])
  show "t \<in> set (all_tables lm)" using closed_planD(2) [OF cp] t by blast
  have "tm_level t \<le> target_level plan" using t closed_planD(5-7) [OF cp] by (auto simp: planned_def word_le_nat_alt)
  then show "precedes t u" using u(2) unfolding precedes_def by (blast intro: le_less_trans)
qed

lemma bottommost_shallow:
  assumes "bottommost_from lm lv" "levels_ok lm" "length (lm_levels lm) \<le> u32_max" "m \<in> set (all_tables lm)"
  shows "unat (tm_level m) < lv"
  using assms
proof (induction lm lv rule: bottommost_from.induct)
  case (1 lm lv)
  show ?case
  proof (cases "lv < length (lm_levels lm)")
    case True
    then have "lm_levels lm ! lv = []" "lv \<noteq> u32_max" "bottommost_from lm (lv + 1)"
      using 1(2,4) by (simp_all add: bottommost_from.simps [of lm lv] get_lx_tables_def split: if_splits)
    then have "unat (tm_level m) < lv + 1" using 1(1) [of "[]"] True 1(3-) by (simp add: get_lx_tables_def)
    moreover have "unat (tm_level m) \<noteq> lv" using tables_have_level(1) [OF 1(3) True, of m] \<open>lm_levels lm ! lv = []\<close> 1(5) by auto
    ultimately show ?thesis by simp
  next
    case False
    then show ?thesis using tables_have_level(2) [OF 1(3,5)] by simp
  qed
qed

lemma bottommost_target:
  assumes "is_bottommost_destination lm t" "levels_ok lm" "length (lm_levels lm) \<le> u32_max" "m \<in> set (all_tables lm)"
  shows "tm_level m \<le> t"
proof (cases "unat t = u32_max")
  case True
  then show ?thesis using tables_have_level(2) [OF assms(2,4)] assms(3) by (simp add: word_le_nat_alt)
next
  case False
  then show ?thesis using bottommost_shallow [of lm "unat t + 1" m] assms by (simp add: is_bottommost_destination_def word_le_nat_alt)
qed

lemma plan_current:
  assumes "closed_plan lm plan" "levels_ok lm"
  shows "plan_is_current plan lm"
proof -
  have "level_contains_table lm (tm_level t) (table_id t)" if "t \<in> set (all_tables lm)" for t
    using tables_have_level(1) [OF assms(2), of "unat (tm_level t)" t] tables_have_level(2) [OF assms(2) that] that
    by (auto simp: level_contains_table_def get_lx_tables_def list_ex_iff)
  then show ?thesis using closed_planD(2,5,6) [OF assms(1)] unfolding plan_is_current_def list_all_iff planned_def
    by (metis UnI1 UnI2 set_append subsetD)
qed

section \<open>Replacing tables\<close>

definition other_tables :: "LevelManager \<Rightarrow> CompactionPlan \<Rightarrow> TableMeta set" where
  "other_tables lm plan = set (all_tables lm) - set (planned plan)"

definition replaced :: "catalogue \<Rightarrow> CompactionPlan \<Rightarrow> u64 \<Rightarrow> InternalRecord list list \<Rightarrow> catalogue" where
  "replaced cat plan first outs = (\<lambda>i. if unat i < unat first then if i \<in> (ucast \<circ> table_id) ` set (planned plan) then None else cat i
     else if unat i - unat first < length outs then Some (outs ! (unat i - unat first)) else None)"

lemma narrow_widen: "(ucast (ucast (x :: u32) :: u64) :: u32) = x"
proof -
  have "unat x < 2 ^ 32" using unsigned_less [of x] by simp
  then have "unat (ucast x :: u64) \<le> u32_max" by (simp add: unat_widen)
  then show ?thesis using unat_ucast_id [of "ucast x"] by (simp add: word_unat_eq_iff unat_widen)
qed

lemma output_table:
  assumes "outputs_ok z dir level first d ms outs" "m \<in> set ms"
  obtains k where "k < length outs" "unat (table_id m) = unat first + k" "(ucast (table_id m) :: u32) = out_id first k" "unat first + k \<le> u32_max"
    "unat (out_id first k) = unat first + k" "tm_level m = level" "path_of_bytes (tm_path m) = make_table_path (out_id first k) dir" "stored_table z d m (outs ! k)"
    "replaced cat plan first outs (ucast (table_id m)) = Some (outs ! k)" "table_records (replaced cat plan first outs) m = outs ! k"
proof -
  obtain k where k: "k < length outs" "m = ms ! k" using assms by (auto simp: outputs_ok_def in_set_conv_nth)
  then have o: "output_ok z dir level d (out_id first k) m (outs ! k)" "unat first + k \<le> u32_max" using assms(1) by (auto simp: outputs_ok_def)
  have u: "unat (out_id first k) = unat first + k" using out_id_unat [OF o(2)] .
  have i: "unat (table_id m) = unat first + k" "(ucast (table_id m) :: u32) = out_id first k"
    using o(1) u by (simp_all add: output_ok_def unat_widen narrow_widen)
  have "replaced cat plan first outs (ucast (table_id m)) = Some (outs ! k)" using i(2) u k(1) by (simp add: replaced_def)
  then show thesis using that [OF k(1) i o(2) u] o(1) by (simp add: output_ok_def table_records_def)
qed

lemma output_records:
  assumes "outputs_ok z dir level first d ms outs"
  shows "map (table_records (replaced cat plan first outs)) ms = outs"
proof (rule nth_equalityI)
  fix k assume "k < length (map (table_records (replaced cat plan first outs)) ms)"
  then have k: "k < length outs" "k < length ms" "output_ok z dir level d (out_id first k) (ms ! k) (outs ! k)" "unat first + k \<le> u32_max"
    using assms by (auto simp: outputs_ok_def)
  have "(ucast (table_id (ms ! k)) :: u32) = out_id first k" using k(3) by (simp add: output_ok_def narrow_widen)
  then show "map (table_records (replaced cat plan first outs)) ms ! k = outs ! k"
    using out_id_unat [OF k(4)] k(1,2) by (simp add: table_records_def replaced_def)
qed (use assms in \<open>simp add: outputs_ok_def\<close>)

lemma kept_table:
  assumes st: "store_ok z cat d mgr lm nid" and cp: "closed_plan lm plan" and m: "m \<in> other_tables lm plan"
  shows "replaced cat plan nid outs (ucast (table_id m)) = Some (table_records cat m)" "table_records (replaced cat plan nid outs) m = table_records cat m"
proof -
  have a: "m \<in> set (all_tables lm)" "m \<notin> set (planned plan)" using m by (auto simp: other_tables_def)
  have "table_id m \<noteq> table_id t" if "t \<in> set (planned plan)" for t
  proof -
    have "t \<in> set (all_tables lm)" "m \<noteq> t" using that closed_planD(2) [OF cp] a(2) by auto
    then show ?thesis using store_okD(1) [OF st] a(1) by (auto simp: levels_ok_def distinct_map inj_on_def)
  qed
  then have "(ucast (table_id m) :: u32) \<noteq> ucast (table_id t)" if "t \<in> set (planned plan)" for t
    using that ucast_id_inj [OF live_tableD(1) [OF st a(1)] live_tableD(1) [OF st, of t]] closed_planD(2) [OF cp] by auto
  then have "(ucast (table_id m) :: u32) \<notin> (ucast \<circ> table_id) ` set (planned plan)" by auto
  moreover have "unat (ucast (table_id m) :: u32) < unat nid" using live_tableD(5,9) [OF st a(1)] by (simp add: word_less_nat_alt)
  ultimately show r: "replaced cat plan nid outs (ucast (table_id m)) = Some (table_records cat m)"
    using live_tableD(3) [OF st a(1)] by (simp add: replaced_def)
  then show "table_records (replaced cat plan nid outs) m = table_records cat m" by (simp add: table_records_def)
qed

lemma replaced_dom:
  assumes st: "store_ok z cat d mgr lm nid" and cp: "closed_plan lm plan" and outs: "outputs_ok z dir level nid d' ms outs"
  shows "dom (replaced cat plan nid outs) = (ucast \<circ> table_id) ` (other_tables lm plan \<union> set ms)"
proof (intro set_eqI iffI)
  fix i assume "i \<in> dom (replaced cat plan nid outs)"
  then obtain rs where i: "replaced cat plan nid outs i = Some rs" by blast
  show "i \<in> (ucast \<circ> table_id) ` (other_tables lm plan \<union> set ms)"
  proof (cases "unat i < unat nid")
    case True
    then have "i \<notin> (ucast \<circ> table_id) ` set (planned plan)" "i \<in> dom cat" using i by (auto simp: replaced_def split: if_splits)
    then show ?thesis using store_okD(6) [OF st] by (auto simp: other_tables_def)
  next
    case False
    let ?k = "unat i - unat nid"
    have k: "?k < length outs" "unat i = unat nid + ?k" using i False by (auto simp: replaced_def split: if_splits)
    then have m: "ms ! ?k \<in> set ms" "output_ok z dir level d' (out_id nid ?k) (ms ! ?k) (outs ! ?k)" "unat nid + ?k \<le> u32_max"
      using outs by (auto simp: outputs_ok_def)
    have "i = out_id nid ?k" using out_id_unat [OF m(3)] k(2) by (simp add: word_unat_eq_iff)
    then have "i = ucast (table_id (ms ! ?k))" using m(2) by (simp add: output_ok_def narrow_widen)
    then show ?thesis using m(1) by auto
  qed
next
  fix i :: u32 assume "i \<in> (ucast \<circ> table_id) ` (other_tables lm plan \<union> set ms)"
  then obtain m where m: "i = ucast (table_id m)" "m \<in> other_tables lm plan \<union> set ms" by auto
  then have "replaced cat plan nid outs i \<noteq> None"
    using kept_table(1) [OF st cp, of m outs] by (cases "m \<in> set ms") (auto elim!: output_table [OF outs, of m cat plan])
  then show "i \<in> dom (replaced cat plan nid outs)" by blast
qed

lemma store_replace:
  assumes st: "store_ok z cat d mgr lm nid" and cp: "closed_plan lm plan" and outs: "outputs_ok z (sm_dir mgr) (target_level plan) nid d' ms outs"
    and sub: "set (concat outs) \<subseteq> (\<Union>t\<in>set (planned plan). set (table_records cat t))"
    and dsk: "\<And>i. unat i < unat nid \<Longrightarrow> d' (make_table_path i (sm_dir mgr)) = d (make_table_path i (sm_dir mgr))"
    and mg: "sm_dir mgr' = sm_dir mgr" "pool_ok z d cat mgr'" "\<And>tid. tid \<in> dom (sm_pool mgr') \<Longrightarrow> unat tid < unat nid"
    and lm': "levels_ok lm'" "length (lm_levels lm') = length (lm_levels lm)" "set (all_tables lm') = other_tables lm plan \<union> set ms"
    and nid': "unat nid' = unat nid + length outs"
  defines "cat' \<equiv> replaced cat plan nid outs"
  shows "store_ok z cat' d' mgr' lm' nid'" "store_records cat' lm' = (\<Union>t\<in>other_tables lm plan. set (table_records cat t)) \<union> set (concat outs)"
proof -
  note old = kept_table [OF st cp, of _ outs, folded cat'_def]
  note recs = output_records [OF outs, of cat plan, folded cat'_def]
  have new_union: "(\<Union>m\<in>set ms. set (table_records cat' m)) = set (concat outs)" unfolding recs [symmetric] by simp
  have new: "tm_level m = target_level plan" "live_table cat' (sm_dir mgr) nid' m" if "m \<in> set ms" for m
  proof -
    from output_table [OF outs that, of cat plan, folded cat'_def] obtain k where k: "k < length outs" "unat (table_id m) = unat nid + k"
      "(ucast (table_id m) :: u32) = out_id nid k" "tm_level m = target_level plan" "path_of_bytes (tm_path m) = make_table_path (out_id nid k) (sm_dir mgr)"
      "stored_table z d' m (outs ! k)" "cat' (ucast (table_id m)) = Some (outs ! k)" "table_records cat' m = outs ! k" by metis
    then show "tm_level m = target_level plan" by simp
    show "live_table cat' (sm_dir mgr) nid' m" using k nid' by (simp add: live_table_def stored_table_def word_less_nat_alt)
  qed
  have new_sub: "set (table_records cat' m) \<subseteq> (\<Union>t\<in>set (planned plan). set (table_records cat t))" if "m \<in> set ms" for m
    using new_union sub that by blast
  show "store_records cat' lm' = (\<Union>t\<in>other_tables lm plan. set (table_records cat t)) \<union> set (concat outs)"
    unfolding store_records_def lm'(3) using old(2) new_union by auto
  have od: "on_disk z d' (make_table_path tid (sm_dir mgr)) rs \<and> (\<forall>t. sm_pool mgr' tid = Some t \<longrightarrow> stands_for z d' (make_table_path tid (sm_dir mgr)) rs t)"
    if c: "cat' tid = Some rs" for tid rs
  proof (cases "unat tid < unat nid")
    case True
    then have "cat tid = Some rs" using c by (auto simp: cat'_def replaced_def split: if_splits)
    then show ?thesis using mg(1,2) dsk [OF True] by (auto simp: pool_ok_def on_disk_def stands_for_def)
  next
    case False
    have "tid \<in> (ucast \<circ> table_id) ` (other_tables lm plan \<union> set ms)" using replaced_dom [OF st cp outs] c by (auto simp: cat'_def)
    then obtain m where m: "m \<in> set ms" "tid = ucast (table_id m)" using False live_tableD(5,9) [OF st] by (auto simp: other_tables_def word_less_nat_alt)
    from output_table [OF outs m(1), of cat plan, folded cat'_def] c m(2) obtain k where
      "path_of_bytes (tm_path m) = make_table_path tid (sm_dir mgr)" "stored_table z d' m rs" by (metis option.inject)
    then show ?thesis using mg(3) [of tid] False by (auto simp: stored_table_def on_disk_def)
  qed
  moreover have "live_table cat' (sm_dir mgr) nid' m" if "m \<in> set (all_tables lm')" for m
  proof (cases "m \<in> set ms")
    case False
    then have m: "m \<in> other_tables lm plan" "m \<in> set (all_tables lm)" using that lm'(3) by (auto simp: other_tables_def)
    have "table_id m < nid'" using live_tableD(5) [OF st m(2)] nid' by (simp add: word_less_nat_alt)
    then show ?thesis using live_tableD(2,4) [OF st m(2)] old [OF m(1)] by (simp add: live_table_def)
  qed (rule new(2))
  moreover have "newer (set (table_records cat' a)) (set (table_records cat' b))" if ab: "a \<in> set (all_tables lm')" "b \<in> set (all_tables lm')" "precedes a b" for a b
  proof -
    have pos: "target_level plan \<noteq> 0" using closed_planD(7) [OF cp] by auto
    consider "a \<in> other_tables lm plan" "b \<in> other_tables lm plan" | "a \<in> set ms" "b \<in> other_tables lm plan" "b \<notin> set ms"
      | "a \<in> other_tables lm plan" "b \<in> set ms" | "a \<in> set ms" "b \<in> set ms" using ab(1,2) lm'(3) by blast
    then show ?thesis
    proof cases
      case 1
      then show ?thesis using store_okD(9) [OF st _ _ ab(3)] old(2) by (simp add: other_tables_def)
    next
      case 2
      have "target_level plan < tm_level b" using ab(3) new(1) [OF 2(1)] pos by (auto simp: precedes_def)
      then have "newer (\<Union>t\<in>set (planned plan). set (table_records cat t)) (set (table_records cat b))"
        unfolding newer_UN using deeper_older [OF st cp] 2(2) by (simp add: other_tables_def)
      then show ?thesis using newer_mono new_sub [OF 2(1)] old(2) [OF 2(2)] by simp
    next
      case 3
      have "tm_level a \<le> target_level plan" using ab(3) new(1) [OF 3(2)] pos by (auto simp: precedes_def)
      then have "newer (set (table_records cat a)) (\<Union>t\<in>set (planned plan). set (table_records cat t))"
        unfolding newer_UN using others_newer [OF st cp] 3(1) by (simp add: other_tables_def)
      then show ?thesis using newer_mono new_sub [OF 3(2)] old(2) [OF 3(1)] by simp
    next
      case 4
      then show ?thesis using ab(3) new(1) pos by (simp add: precedes_def)
    qed
  qed
  moreover have "unat tid < unat nid'" if "tid \<in> dom (sm_pool mgr')" for tid using mg(3) [OF that] nid' by simp
  moreover have "unat nid' \<le> u32_max + 1" using nid' outs by (simp add: outputs_ok_def)
  moreover have "dom cat' = (ucast \<circ> table_id) ` set (all_tables lm')" using replaced_dom [OF st cp outs] lm'(3) by (simp add: cat'_def)
  ultimately show "store_ok z cat' d' mgr' lm' nid'" using st lm'(1,2) mg(1) by (simp add: store_ok_def pool_ok_def)
qed

section \<open>Weight\<close>

text \<open>Every record counts the levels from its own to the bottom.\<close>

definition weight :: "catalogue \<Rightarrow> LevelManager \<Rightarrow> nat" where
  "weight cat lm = (\<Sum>t\<in>set (all_tables lm). length (table_records cat t) * (length (lm_levels lm) - unat (tm_level t)))"

lemma sum_set_le: "sum f (set xs) \<le> (sum_list (map f xs) :: nat)"
  by (induction xs) (simp_all add: sum.insert_if)

lemma sum_Un_le: "finite A \<Longrightarrow> finite B \<Longrightarrow> sum f (A \<union> B) \<le> sum f A + (sum f B :: nat)"
  using sum.union_inter [of A B f] by simp

lemma weight_replace:
  assumes st: "store_ok z cat d mgr lm nid" and cp: "closed_plan lm plan" and outs: "outputs_ok z dir (target_level plan) nid d' ms outs"
    and len: "length (concat outs) \<le> length (concat (map (table_records cat) (planned plan)))"
    and lm': "length (lm_levels lm') = length (lm_levels lm)" "set (all_tables lm') = other_tables lm plan \<union> set ms"
  shows "weight (replaced cat plan nid outs) lm' < weight cat lm"
proof -
  let ?L = "length (lm_levels lm)" let ?W = "?L - unat (target_level plan)" let ?cat = "replaced cat plan nid outs"
  let ?f = "\<lambda>cat t. length (table_records cat t) * (?L - unat (tm_level t))"
  note pD = closed_planD [OF cp]
  have all: "set (all_tables lm) = other_tables lm plan \<union> set (planned plan)" "other_tables lm plan \<inter> set (planned plan) = {}" "finite (other_tables lm plan)"
    using pD(2) by (auto simp: other_tables_def)
  have "weight ?cat lm' \<le> sum (?f ?cat) (other_tables lm plan) + sum (?f ?cat) (set ms)"
    unfolding weight_def lm' using all(3) by (intro sum_Un_le) auto
  moreover have "sum (?f ?cat) (other_tables lm plan) = sum (?f cat) (other_tables lm plan)" using kept_table(2) [OF st cp] by (intro sum.cong) simp_all
  moreover have "sum (?f ?cat) (set ms) \<le> ?W * length (concat outs)"
  proof -
    have "tm_level m = target_level plan" if "m \<in> set ms" for m using output_table [OF outs that] by metis
    then have "sum_list (map (?f ?cat) ms) = sum_list (map (\<lambda>m. ?W * length (table_records ?cat m)) ms)" by (intro arg_cong [of _ _ sum_list] map_cong) simp_all
    also have "\<dots> = ?W * sum_list (map length (map (table_records ?cat) ms))" by (simp add: sum_list_const_mult comp_def)
    also have "\<dots> = ?W * length (concat outs)" unfolding output_records [OF outs] by (simp add: length_concat)
    finally show ?thesis using sum_set_le [of "?f ?cat" ms] by simp
  qed
  moreover have "?W * length (concat (map (table_records cat) (planned plan))) < sum (?f cat) (set (planned plan))"
  proof -
    obtain s where s: "s \<in> set (source_tables plan)" "s \<in> set (planned plan)" using pD(4) by (cases "source_tables plan") (auto simp: planned_def)
    have "?W * length (table_records cat t) \<le> ?f cat t" if "t \<in> set (planned plan)" for t
    proof -
      have "unat (tm_level t) \<le> unat (target_level plan)" using that pD(5,6,7) by (auto simp: planned_def)
      then have "?W \<le> ?L - unat (tm_level t)" by simp
      then show ?thesis by simp
    qed
    moreover have "?W * length (table_records cat s) < ?f cat s"
    proof -
      have sa: "s \<in> set (all_tables lm)" using pD(2) s(2) by blast
      have "table_records cat s \<noteq> []" "unat (source_level plan) < ?L"
        using live_tableD(4) [OF st sa] tables_have_level(2) [OF store_okD(1) [OF st] sa] pD(5) [OF s(1)] by (simp_all add: describes_def)
      then show ?thesis using pD(5) [OF s(1)] pD(7) by simp
    qed
    ultimately have "(\<Sum>t\<in>set (planned plan). ?W * length (table_records cat t)) < sum (?f cat) (set (planned plan))"
      using s(2) by (intro sum_strict_mono_ex1) auto
    moreover have "(\<Sum>t\<in>set (planned plan). ?W * length (table_records cat t)) = ?W * length (concat (map (table_records cat) (planned plan)))"
      using pD(3) by (simp add: sum_list_distinct_conv_sum_set [symmetric] length_concat comp_def sum_list_const_mult)
    ultimately show ?thesis by simp
  qed
  moreover have "weight cat lm = sum (?f cat) (other_tables lm plan) + sum (?f cat) (set (planned plan))"
    unfolding weight_def all(1) using all(2,3) by (intro sum.union_disjoint) auto
  moreover have "?W * length (concat outs) \<le> ?W * length (concat (map (table_records cat) (planned plan)))" using len by simp
  ultimately show ?thesis by linarith
qed

section \<open>A compaction\<close>

lemma remove_obsolete_effect:
  "remove_obsolete env ps e = (c, e') \<Longrightarrow> \<exists>d. e' = e\<lparr>e_disk := d\<rparr> \<and> (\<forall>p. p \<notin> set ps \<longrightarrow> d p = e_disk e p)"
proof (induction ps arbitrary: e)
  case Nil
  then show ?case by (intro exI [of _ "e_disk e"]) simp
next
  case (Cons p ps)
  show ?case
  proof (cases "ee_remove_ok env p")
    case True
    let ?e = "e\<lparr>e_disk := (e_disk e)(p := None)\<rparr>"
    have "remove_obsolete env ps ?e = (c, e')" using Cons.prems True by (simp add: remove_if_present_def)
    from Cons.IH [OF this] obtain d where "e' = ?e\<lparr>e_disk := d\<rparr>" "\<forall>x. x \<notin> set ps \<longrightarrow> d x = e_disk ?e x" by blast
    then show ?thesis by (intro exI [of _ d]) auto
  next
    case False
    then show ?thesis using Cons.prems by (intro exI [of _ "e_disk e"]) (simp add: remove_if_present_def)
  qed
qed

lemma stage_seen:
  assumes "staged_tables p (lm, 0) = (Ok, lm', seen)" "n \<noteq> 0" "\<forall>t\<in>set (deleted_tables p). dt_table_id t < n" "\<forall>t\<in>set (new_tables p). table_id t < n"
  shows "seen < n"
proof -
  have "snd (lm', seen) < n" using assms(1) unfolding staged_tables_def
  proof (rule run_all_invariant [where P = "\<lambda>s. snd s < n"])
    fix a and s :: "LevelManager \<times> u64"
    assume a: "a \<in> set (map stage_delete (deleted_tables p) @ map stage_add (new_tables p))" "snd s < n"
    obtain lm1 k where s: "s = (lm1, k)" by fastforce
    from a(1) consider t where "t \<in> set (deleted_tables p)" "a = stage_delete t" | t where "t \<in> set (new_tables p)" "a = stage_add t" by auto
    then show "snd (snd (a s)) < n" by cases (use a(2) s assms(3,4) in \<open>auto simp: stage_delete_def stage_add_def split: prod.splits\<close>)
  qed (use assms(2) in \<open>simp add: word_gt_0\<close>)
  then show ?thesis by simp
qed

text \<open>The edit of a compaction, once it is committed.\<close>

lemma compaction_staged:
  assumes st: "store_ok z cat d mgr lm (sc_next_table_id sc)" and cp: "closed_plan lm plan" and run: "stage_apply edit (lm, sc) = (Ok, lm', sc')"
    and rep: "deleted_tables (edit_payload edit) = deletes_inputs plan"
      "case edit_next_table_id (edit_payload edit) of None \<Rightarrow> new_tables (edit_payload edit) = [] \<and> n = 0 | Some i \<Rightarrow> unat i = unat (sc_next_table_id sc) + n"
  shows "levels_ok lm'" "length (lm_levels lm') = length (lm_levels lm)" "set (all_tables lm') = other_tables lm plan \<union> set (new_tables (edit_payload edit))"
    "unat (sc_next_table_id sc') = unat (sc_next_table_id sc) + n"
proof -
  let ?p = "edit_payload edit"
  note lo = store_okD(1) [OF st]
  note e = stage_apply_effect [OF lo run]
  show "levels_ok lm'" using e by blast
  show "length (lm_levels lm') = length (lm_levels lm)" by (rule stage_apply_level_count [OF run])
  have del: "dt_table_id ` set (deleted_tables ?p) = table_id ` set (planned plan)" unfolding rep(1) deletes_inputs_def planned_def by force
  have "table_id t \<in> table_id ` set (planned plan) \<longleftrightarrow> t \<in> set (planned plan)" if "t \<in> set (all_tables lm)" for t
  proof
    assume "table_id t \<in> table_id ` set (planned plan)"
    then obtain u where u: "u \<in> set (planned plan)" "table_id t = table_id u" by auto
    then have "t = u" using lo that closed_planD(2) [OF cp] by (auto simp: levels_ok_def distinct_map inj_on_def)
    then show "t \<in> set (planned plan)" using u(1) by simp
  qed simp
  then show "set (all_tables lm') = other_tables lm plan \<union> set (new_tables ?p)" using e del by (auto simp: other_tables_def)
  obtain seen where s: "staged_tables ?p (lm, 0) = (Ok, lm', seen)" "staged_counters ?p seen sc = (Ok, sc')" using stage_apply_okD [OF run] by blast
  note ct = staged_counters_okD(1) [OF s(2)]
  show "unat (sc_next_table_id sc') = unat (sc_next_table_id sc) + n"
  proof (cases "edit_next_table_id ?p")
    case None
    have lt: "table_id t < sc_next_table_id sc" if "t \<in> set (planned plan)" for t using live_tableD(5) [OF st] closed_planD(2) [OF cp] that by blast
    then have "\<forall>t\<in>set (deleted_tables ?p). dt_table_id t < sc_next_table_id sc" using del by (metis imageE image_eqI)
    moreover have "sc_next_table_id sc \<noteq> 0" using lt [of "hd (source_tables plan)"] closed_planD(4) [OF cp] by (auto simp: planned_def)
    ultimately have "seen < sc_next_table_id sc" using stage_seen [OF s(1)] None rep(2) by simp
    then show ?thesis using ct None rep(2) leD by auto
  qed (use ct rep(2) in simp)
qed

lemma engine_ok_job:
  assumes ok: "engine_ok z cat e" and mgr: "sm_dir mgr = sm_dir (e_mgr e)" "pool_ok z (e_disk e) cat mgr" "\<And>tid. tid \<in> dom (sm_pool mgr) \<Longrightarrow> unat tid < unat (next_id e)"
    and d: "\<And>i. unat i < unat (next_id e) \<Longrightarrow> d (make_table_path i (sm_dir mgr)) = e_disk e (make_table_path i (sm_dir mgr))" and ar: "sound_arena ar"
  shows "engine_ok z cat (e\<lparr>e_mgr := mgr, e_disk := d, e_arena := ar\<rparr>)" "engine_records cat (e\<lparr>e_mgr := mgr, e_disk := d, e_arena := ar\<rparr>) = engine_records cat e"
proof -
  have "store_ok z cat (e_disk e) mgr (e_lm e) (next_id e)" using engine_okD(5) [OF ok] mgr by (simp add: store_ok_def)
  then have "store_ok z cat d mgr (e_lm e) (next_id e)" by (rule store_ok_disk) (rule d)
  then show "engine_ok z cat (e\<lparr>e_mgr := mgr, e_disk := d, e_arena := ar\<rparr>)" "engine_records cat (e\<lparr>e_mgr := mgr, e_disk := d, e_arena := ar\<rparr>) = engine_records cat e"
    using ok ar by (simp_all add: engine_ok_def engine_records_def)
qed

lemma outputs_ok_frame:
  assumes "outputs_ok z dir level first d ms outs" "same_tables d d'"
  shows "outputs_ok z dir level first d' ms outs"
proof -
  have "output_ok z dir level d' i m rs" if "output_ok z dir level d i m rs" for i m rs
    using that assms(2) stored_table_frame [of z d m rs d'] by (simp add: output_ok_def same_tables_def)
  then show ?thesis using assms(1) by (simp add: outputs_ok_def)
qed

lemma old_path: "unat i < unat first \<Longrightarrow> \<not> output_path dir first (make_table_path i dir)"
  using table_paths_inj(1) table_paths_differ by (auto simp: output_path_def)

definition inputs :: "catalogue \<Rightarrow> CompactionPlan \<Rightarrow> InternalRecord list list" where
  "inputs cat plan = map (table_records cat) (planned plan)"

lemma inputs_merged:
  assumes "store_ok z cat d mgr lm nid" "closed_plan lm plan"
  shows "distinct (map ikey (concat (inputs cat plan)))" "sorted_records (merged (inputs cat plan))" "list_all2 (catalogued cat) (planned plan) (inputs cat plan)"
    "set (merged (inputs cat plan)) = (\<Union>t\<in>set (planned plan). set (table_records cat t))"
proof -
  show d: "distinct (map ikey (concat (inputs cat plan)))" unfolding inputs_def by (rule planned_ikeys [OF assms(1) closed_planD(2,3) [OF assms(2)]])
  show "sorted_records (merged (inputs cat plan))" by (rule merged_sorted [OF d])
  show "list_all2 (catalogued cat) (planned plan) (inputs cat plan)"
  proof -
    have "catalogued cat m (table_records cat m)" if "m \<in> set (planned plan)" for m
      using live_tableD(1,3) [OF assms(1), of m] closed_planD(2) [OF assms(2)] that by (auto simp: catalogued_def)
    then show ?thesis by (simp add: inputs_def list_all2_map2 list_all2_same)
  qed
  show "set (merged (inputs cat plan)) = (\<Union>t\<in>set (planned plan). set (table_records cat t))" by (simp add: inputs_def)
qed

lemma job_outcome:
  assumes ok: "engine_ok z cat e" and cp: "closed_plan (e_lm e) plan" and z: "crc_incremental z" and q: "quiet_reads (ee_job env)"
  defines "b \<equiv> is_bottommost_destination (e_lm e) (target_level plan)"
  shows "\<exists>r mgr d ar. CompactionJob_run z (ee_job env) plan (e_lm e) (e_manifest e) (e_mgr e, e_disk e, e_arena e) = Some (r, mgr, d, ar) \<and>
    engine_ok z cat (e\<lparr>e_mgr := mgr, e_disk := d, e_arena := ar\<rparr>) \<and> engine_records cat (e\<lparr>e_mgr := mgr, e_disk := d, e_arena := ar\<rparr>) = engine_records cat e \<and>
    (case r of Inl c \<Rightarrow> c \<noteq> Ok | Inr None \<Rightarrow> False | Inr (Some edit) \<Rightarrow> replaces_inputs z (sm_dir mgr) plan (next_id e) d (retain b (merged (inputs cat plan))) edit)"
proof -
  note st = engine_okD(5) [OF ok]
  have ar: "arena_ok (e_arena e)" "never_oom (e_arena e)" using engine_okD(9) [OF ok] by (simp_all add: sound_arena_def)
  obtain r mgr d ar' where r: "CompactionJob_run z (ee_job env) plan (e_lm e) (e_manifest e) (e_mgr e, e_disk e, e_arena e) = Some (r, mgr, d, ar')"
    "sm_dir mgr = sm_dir (e_mgr e)" "pool_ok z (e_disk e) cat mgr" "dom (sm_pool mgr) \<subseteq> dom (sm_pool (e_mgr e)) \<union> (ucast \<circ> table_id) ` set (planned plan)"
    "arena_ok ar'" "never_oom ar'" "\<forall>p. \<not> output_path (sm_dir (e_mgr e)) (next_id e) p \<longrightarrow> d p = e_disk e p"
    "case r of Inl c \<Rightarrow> c \<noteq> Ok \<and> \<not> (always_writes z (ee_job env) (set (concat (inputs cat plan))) \<and> unat (next_id e) + length (concat (inputs cat plan)) \<le> u32_max)
       | Inr None \<Rightarrow> False | Inr (Some edit) \<Rightarrow> replaces_inputs z (sm_dir (e_mgr e)) plan (next_id e) d (retain b (merged (inputs cat plan))) edit"
    using run_effect [OF z q store_okD(3) [OF st] inputs_merged(3,1) [OF st cp] closed_planD(1) [OF cp] plan_current [OF cp store_okD(1) [OF st]] store_okD(4) [OF st] ar store_okD(5) [OF st]]
    unfolding b_def by blast
  have "unat tid < unat (next_id e)" if tid: "tid \<in> dom (sm_pool mgr)" for tid
  proof (cases "tid \<in> dom (sm_pool (e_mgr e))")
    case False
    then have "tid \<in> (ucast \<circ> table_id) ` set (planned plan)" using tid r(4) by blast
    then obtain m where m: "m \<in> set (planned plan)" "tid = ucast (table_id m)" by auto
    then have "m \<in> set (all_tables (e_lm e))" using closed_planD(2) [OF cp] by blast
    then show ?thesis using live_tableD(5,9) [OF st] m(2) by (simp add: word_less_nat_alt)
  qed (use store_okD(8) [OF st, of tid] in blast)
  moreover have "d (make_table_path i (sm_dir mgr)) = e_disk e (make_table_path i (sm_dir mgr))" if "unat i < unat (next_id e)" for i
    using r(2,7) old_path [OF that] by simp
  moreover have "sound_arena ar'" using r(5,6) by (simp add: sound_arena_def)
  ultimately have "engine_ok z cat (e\<lparr>e_mgr := mgr, e_disk := d, e_arena := ar'\<rparr>)" "engine_records cat (e\<lparr>e_mgr := mgr, e_disk := d, e_arena := ar'\<rparr>) = engine_records cat e"
    using engine_ok_job [OF ok r(2,3)] by blast+
  moreover have "case r of Inl c \<Rightarrow> c \<noteq> Ok | Inr None \<Rightarrow> False | Inr (Some edit) \<Rightarrow> replaces_inputs z (sm_dir mgr) plan (next_id e) d (retain b (merged (inputs cat plan))) edit"
    using r(2,8) by (simp split: sum.splits option.splits)
  ultimately show ?thesis using r(1) by blast
qed

text \<open>The committed edit. The engine that results has the same memory, and lookups see the same map.\<close>

lemma length_retain: "length (retain b rs) \<le> length rs"
proof (induction b rs rule: retain.induct)
  case (2 b r rs)
  then show ?case using length_dropWhile_le [of "\<lambda>x. key_entry x = key_entry r" rs] by auto
qed simp

lemma compaction_committed:
  assumes ok: "engine_ok z cat e" and cp: "closed_plan (e_lm e) plan" and M: "means (engine_records cat e) M"
    and b: "b = is_bottommost_destination (e_lm e) (target_level plan)"
    and rep: "replaces_inputs z (sm_dir (e_mgr e)) plan (next_id e) (e_disk e) (retain b (merged (inputs cat plan))) edit"
    and e': "e' = e\<lparr>e_faults := fs, e_manifest := m, e_lm := lm, e_disk := d\<rparr>" "m_path m = m_path (e_manifest e)" "same_tables (e_disk e) d"
      "stage_apply edit (e_lm e, m_counters (e_manifest e)) = (Ok, lm, m_counters m)"
  shows "\<exists>outs. let cat' = replaced cat plan (next_id e) outs in engine_ok z cat' e' \<and> means (engine_records cat' e') M \<and> weight cat' lm < weight cat (e_lm e)"
proof -
  note st = engine_okD(5) [OF ok]
  note inp = inputs_merged [OF st cp]
  let ?rs = "merged (inputs cat plan)" let ?p = "edit_payload edit"
  let ?others = "\<Union>t\<in>other_tables (e_lm e) plan. set (table_records cat t)"
  obtain outs where o: "outputs_ok z (sm_dir (e_mgr e)) (target_level plan) (next_id e) (e_disk e) (new_tables ?p) outs" "concat outs = retain b ?rs" "deleted_tables ?p = deletes_inputs plan"
    "case edit_next_table_id ?p of None \<Rightarrow> outs = [] | Some i \<Rightarrow> unat i = unat (next_id e) + length outs"
    using rep by (auto simp: replaces_inputs_def Let_def)
  have "case edit_next_table_id ?p of None \<Rightarrow> new_tables ?p = [] \<and> length outs = 0 | Some i \<Rightarrow> unat i = unat (next_id e) + length outs"
    using o(1,4) by (auto simp: outputs_ok_def split: option.splits)
  note stg = compaction_staged [OF st cp e'(4) o(3) this]
  define cat' where "cat' = replaced cat plan (next_id e) outs"
  have sub: "set (concat outs) \<subseteq> (\<Union>t\<in>set (planned plan). set (table_records cat t))" using retain_subset [of b ?rs] unfolding o(2) inp(4) .
  have d: "d (make_table_path i (sm_dir (e_mgr e))) = e_disk e (make_table_path i (sm_dir (e_mgr e)))" for i using e'(3) by (simp add: same_tables_def)
  have pool: "unat tid < unat (next_id e)" if "tid \<in> dom (sm_pool (e_mgr e))" for tid using that store_okD(8) [OF st, of tid] by auto
  have st': "store_ok z cat' d (e_mgr e) lm (sc_next_table_id (m_counters m))" "store_records cat' lm = ?others \<union> set (retain b ?rs)"
    using store_replace [OF st cp outputs_ok_frame [OF o(1) e'(3)] sub d refl store_okD(3) [OF st] pool stg] by (simp_all add: cat'_def o(2))
  have old: "store_records cat (e_lm e) = ?others \<union> set ?rs"
    unfolding inp(4) store_records_def other_tables_def using closed_planD(2) [OF cp] by blast
  have less: "store_records cat' lm \<subseteq> store_records cat (e_lm e)" using retain_subset [of b ?rs] unfolding st'(2) old by blast
  then have sub': "engine_records cat' e' \<subseteq> engine_records cat e" unfolding engine_records_def by (auto simp: e'(1))
  have "newer A (store_records cat' lm)" if "A \<in> set (mem_layers (e_mem e))" for A
    using newer_mono [OF _ order_refl less] engine_okD(7) [OF ok] that by (simp add: sorted_wrt_append)
  then have lay: "sorted_wrt newer (mem_layers (e_mem e) @ [store_records cat' lm])" using engine_okD(7) [OF ok] by (simp add: sorted_wrt_append)
  have "\<forall>r\<in>engine_records cat' e'. seq_num r < e_next_seq e \<and> rtype r \<noteq> Undefined" using sub' engine_okD(8) [OF ok] by blast
  then have ok': "engine_ok z cat' e'" using ok st'(1) lay stg(2) e'(1,2) unfolding engine_ok_def by simp
  let ?A = "set (mt_records (e_mem e)) \<union> ?others"
  have "newer ?A (set ?rs)" if b
  proof -
    have "newer (set (mt_records (e_mem e))) (set ?rs)" using newer_mono [OF memory_newer [OF ok] order_refl] old by blast
    moreover have "newer ?others (set ?rs)"
      unfolding inp(4) newer_UN using others_newer [OF st cp] bottommost_target [OF _ store_okD(1,2) [OF st]] that b by (auto simp: other_tables_def)
    ultimately show ?thesis by simp
  qed
  moreover have "engine_records cat e = ?A \<union> set ?rs" "engine_records cat' e' = ?A \<union> set (retain b ?rs)"
    unfolding engine_records_def old st'(2) by (simp_all add: e'(1) st'(2) Un_assoc)
  ultimately have "means (engine_records cat' e') M" using means_compact [OF _ inp(2), of ?A M b] M by simp
  moreover have "weight cat' lm < weight cat (e_lm e)"
  proof -
    have "length (concat outs) \<le> length (concat (map (table_records cat) (planned plan)))" using length_retain [of b ?rs] by (simp add: o(2) inputs_def)
    then show ?thesis unfolding cat'_def by (rule weight_replace [OF st cp o(1) _ stg(2,3)])
  qed
  ultimately show ?thesis using ok' by (intro exI [of _ outs]) (simp add: cat'_def Let_def)
qed

text \<open>Obsolete files.\<close>

lemma engine_ok_catalogued:
  assumes ok: "engine_ok z cat e" and d: "\<And>i. i \<in> dom cat \<Longrightarrow> d (make_table_path i (sm_dir (e_mgr e))) = e_disk e (make_table_path i (sm_dir (e_mgr e)))"
  shows "engine_ok z cat (e\<lparr>e_disk := d\<rparr>)" "engine_records cat (e\<lparr>e_disk := d\<rparr>) = engine_records cat e"
proof -
  note st = engine_okD(5) [OF ok]
  have "pool_ok z d cat (e_mgr e)" by (rule pool_ok_frame [OF store_okD(3) [OF st]]) (use d in blast)
  then have "store_ok z cat d (e_mgr e) (e_lm e) (next_id e)" using st by (simp add: store_ok_def)
  then show "engine_ok z cat (e\<lparr>e_disk := d\<rparr>)" "engine_records cat (e\<lparr>e_disk := d\<rparr>) = engine_records cat e" using ok by (simp_all add: engine_ok_def engine_records_def)
qed

lemma count_compaction:
  "engine_ok z cat e \<Longrightarrow> engine_ok z cat (if b then e\<lparr>e_compaction_count := n\<rparr> else e) \<and> engine_records cat (if b then e\<lparr>e_compaction_count := n\<rparr> else e) = engine_records cat e"
  by (simp add: engine_ok_def engine_records_def)

lemma obsolete_files:
  assumes st: "store_ok z cat d mgr lm nid" and cp: "closed_plan lm plan" and i: "i \<in> dom (replaced cat plan nid outs)" and dir: "dir = sm_dir mgr"
  shows "make_table_path i dir \<notin> set (map (\<lambda>t. path_of_bytes (tm_path t)) (source_tables plan @ overlapping_tables plan))"
proof
  assume "make_table_path i dir \<in> set (map (\<lambda>t. path_of_bytes (tm_path t)) (source_tables plan @ overlapping_tables plan))"
  then have "\<exists>t\<in>set (planned plan). make_table_path i dir = path_of_bytes (tm_path t)" unfolding planned_def set_map image_iff .
  then obtain t where t: "t \<in> set (planned plan)" "path_of_bytes (tm_path t) = make_table_path i dir" by metis
  then have ta: "t \<in> set (all_tables lm)" using closed_planD(2) [OF cp] by blast
  have "i = ucast (table_id t)" using live_tableD(2) [OF st ta] t(2) table_paths_inj(1) dir by simp
  moreover have "unat (ucast (table_id t) :: u32) < unat nid" using live_tableD(5,9) [OF st ta] by (simp add: word_less_nat_alt)
  ultimately have "replaced cat plan nid outs i = None" using t(1) by (auto simp: replaced_def)
  then show False using i by blast
qed

lemma run_compaction_effect:
  assumes ok: "engine_ok z cat e" and cp: "closed_plan (e_lm e) plan" and M: "means (engine_records cat e) M" and z: "crc_incremental z" and q: "quiet_reads (ee_job env)"
  shows "\<exists>c e' cat'. run_compaction z env plan e = Some (c, e') \<and> engine_ok z cat' e' \<and> means (engine_records cat' e') M \<and> e_options e' = e_options e \<and>
    (c = Ok \<longrightarrow> weight cat' (e_lm e') < weight cat (e_lm e))"
proof -
  let ?b = "is_bottommost_destination (e_lm e) (target_level plan)"
  obtain r mgr d ar where job: "CompactionJob_run z (ee_job env) plan (e_lm e) (e_manifest e) (e_mgr e, e_disk e, e_arena e) = Some (r, mgr, d, ar)"
    "engine_ok z cat (e\<lparr>e_mgr := mgr, e_disk := d, e_arena := ar\<rparr>)" "engine_records cat (e\<lparr>e_mgr := mgr, e_disk := d, e_arena := ar\<rparr>) = engine_records cat e"
    "case r of Inl c \<Rightarrow> c \<noteq> Ok | Inr None \<Rightarrow> False | Inr (Some edit) \<Rightarrow> replaces_inputs z (sm_dir mgr) plan (next_id e) d (retain ?b (merged (inputs cat plan))) edit"
    using job_outcome [OF ok cp z q] by blast
  define e1 where "e1 = e\<lparr>e_mgr := mgr, e_disk := d, e_arena := ar\<rparr>"
  have ok1: "engine_ok z cat e1" "means (engine_records cat e1) M" "closed_plan (e_lm e1) plan" "e_lm e1 = e_lm e" using job(2,3) M cp by (simp_all add: e1_def)
  show ?thesis
  proof (cases r)
    case (Inl c)
    then have "run_compaction z env plan e = Some (c, e1)" "c \<noteq> Ok" using job(1,4) by (simp_all add: run_compaction_def e1_def Let_def)
    then show ?thesis using ok1 by (intro exI [of _ c] exI [of _ e1] exI [of _ cat]) (simp add: e1_def)
  next
    case (Inr x)
    then obtain edit where edit: "r = Inr (Some edit)" using job(4) by (cases x) simp_all
    then have rep: "replaces_inputs z (sm_dir (e_mgr e1)) plan (next_id e1) (e_disk e1) (retain ?b (merged (inputs cat plan))) edit" using job(4) by (simp add: e1_def)
    obtain c2 e2 where com: "commit z edit e1 = (c2, e2)" by fastforce
    obtain m lm d2 fs where e2: "e2 = e1\<lparr>e_faults := fs, e_manifest := m, e_lm := lm, e_disk := d2\<rparr>" "m_path m = m_path (e_manifest e1)"
      "\<forall>p. p \<noteq> m_path m \<longrightarrow> d2 p = e_disk e1 p"
      "if c2 = Ok then stage_apply edit (e_lm e1, m_counters (e_manifest e1)) = (Ok, lm, m_counters m) else lm = e_lm e1 \<and> m_counters m = m_counters (e_manifest e1)"
      using commit_effect [OF com] by blast
    have dt: "same_tables (e_disk e1) d2" using manifest_tables [of "db_path (e_options e1)" d2 "e_disk e1"] e2(2,3) engine_okD(4) [OF ok1(1)] by simp
    show ?thesis
    proof (cases "c2 = Ok")
      case False
      then have "run_compaction z env plan e = Some (c2, e2)" using job(1) edit com by (simp add: run_compaction_def Let_def e1_def)
      moreover have "engine_ok z cat e2" "engine_records cat e2 = engine_records cat e1"
        using engine_ok_frame [OF ok1(1), of e2] e2(1,2,4) False dt engine_okD(9) [OF ok1(1)] by (simp_all add: same_tables_def)
      ultimately show ?thesis using ok1(2) False e2(1) by (intro exI [of _ c2] exI [of _ e2] exI [of _ cat]) (simp add: e1_def)
    next
      case True
      then have stg: "stage_apply edit (e_lm e1, m_counters (e_manifest e1)) = (Ok, lm, m_counters m)" using e2(4) by simp
      obtain outs where o: "engine_ok z (replaced cat plan (next_id e1) outs) e2" "means (engine_records (replaced cat plan (next_id e1) outs) e2) M"
        "weight (replaced cat plan (next_id e1) outs) lm < weight cat (e_lm e1)"
        using compaction_committed [OF ok1(1,3,2) _ rep e2(1,2) dt stg] ok1(4) by (auto simp: Let_def)
      let ?cat = "replaced cat plan (next_id e1) outs"
      let ?ps = "map (\<lambda>t. path_of_bytes (tm_path t)) (source_tables plan @ overlapping_tables plan)"
      define e3 where "e3 = (if e_compaction_count e2 \<noteq> - 1 then e2\<lparr>e_compaction_count := e_compaction_count e2 + 1\<rparr> else e2)"
      have ok3: "engine_ok z ?cat e3" "engine_records ?cat e3 = engine_records ?cat e2" unfolding e3_def using count_compaction [OF o(1)] by blast+
      have eq3: "e_lm e3 = lm" "e_options e3 = e_options e" "e_mgr e3 = e_mgr e1" by (simp_all add: e3_def e2(1) e1_def)
      obtain c4 e4 where rem: "remove_obsolete env ?ps e3 = (c4, e4)" by fastforce
      then obtain d4 where d4: "e4 = e3\<lparr>e_disk := d4\<rparr>" "\<forall>p. p \<notin> set ?ps \<longrightarrow> d4 p = e_disk e3 p" using remove_obsolete_effect by blast
      have "d4 (make_table_path i (sm_dir (e_mgr e3))) = e_disk e3 (make_table_path i (sm_dir (e_mgr e3)))" if "i \<in> dom ?cat" for i
        using d4(2) obsolete_files [OF engine_okD(5) [OF ok1(1)] ok1(3) that refl] eq3(3) by simp
      note ok4 = engine_ok_catalogued [OF ok3(1) this, folded d4(1)]
      have "run_compaction z env plan e = Some (c4, e4)" using job(1) edit com True rem by (simp add: run_compaction_def Let_def e1_def e3_def)
      then show ?thesis using ok4 ok3(2) o(2,3) eq3 ok1(4) d4(1) by (intro exI [of _ c4] exI [of _ e4] exI [of _ ?cat]) simp
    qed
  qed
qed

end
