(* ===== verification/EngineRefine.thy ===== *)
theory EngineRefine
  imports EngineCompact
begin

text \<open>
  An open engine is a map from keys to values: lookups read it, puts and removes update it, flushes and
  compactions leave it alone. Every operation returns, also when devices and commits fail.
\<close>

section \<open>Plans of the scheduler\<close>

lemma level_apart:
  assumes "levels_ok lm" "a \<in> set (tables_of lm level)" "b \<in> set (tables_of lm level)" "a \<noteq> b" "level \<noteq> 0"
  shows "apart a b"
proof -
  have "sorted_wrt below (tables_of lm level)" using tables_ofD(1) [OF assms(1), of level] assms(5) by (simp add: level_ok_def)
  then show ?thesis using sorted_wrt_comparable [OF _ assms(2-4)] by (auto simp: apart_def)
qed

lemma table_of_level: "levels_ok lm \<Longrightarrow> u \<in> set (all_tables lm) \<Longrightarrow> u \<in> set (tables_of lm (unat (tm_level u)))"
  using tables_have_level(1) [of lm "unat (tm_level u)" u] tables_have_level(2) [of lm u] by (simp add: tables_of_def)

lemma inside_apart:
  assumes "CompactionPlan_validate plan" "\<not> (smallest_key u \<le> plan_largest plan \<and> plan_smallest plan \<le> largest_key u)" "t \<in> set (planned plan)"
  shows "apart u t"
proof -
  have "plan_smallest plan \<le> smallest_key t" "largest_key t \<le> plan_largest plan"
    using assms(1,3) by (auto simp: CompactionPlan_validate_alt inside_plan_def planned_def)
  then show ?thesis using assms(2) unfolding apart_def by (meson le_less_trans less_le_trans not_le)
qed

lemma scheduled_closed:
  assumes lm: "levels_ok lm" and s: "scheduled lm opts level plan"
  shows "closed_plan lm plan"
proof -
  have d: "CompactionPlan_validate plan" "unat (source_level plan) = level" "unat (target_level plan) = level + 1"
    "set (source_tables plan) \<subseteq> set (tables_of lm level)" "set (overlapping_tables plan) \<subseteq> set (tables_of lm (level + 1))"
    "\<And>u. u \<in> set (tables_of lm (level + 1)) - set (overlapping_tables plan) \<Longrightarrow> \<not> (smallest_key u \<le> plan_largest plan \<and> plan_smallest plan \<le> largest_key u)"
    "level = 0 \<Longrightarrow> source_tables plan = tables_of lm 0"
    using s by (auto simp: scheduled_def split: if_splits)
  have "set (planned plan) \<subseteq> set (all_tables lm)" using d(4,5) tables_ofD(2) [OF lm] unfolding planned_def set_append by blast
  moreover have "apart u t" if u: "u \<in> set (all_tables lm) - set (planned plan)" "tm_level u = source_level plan" "t \<in> set (source_tables plan)" for u t
  proof -
    have us: "u \<in> set (tables_of lm level)" "u \<notin> set (source_tables plan)" using table_of_level [OF lm, of u] u d(2) by (auto simp: planned_def)
    then have "level \<noteq> 0" using d(7) by metis
    then show ?thesis using level_apart [OF lm us(1), of t] d(4) u(3) us(2) by auto
  qed
  moreover have "apart u t" if u: "u \<in> set (all_tables lm) - set (planned plan)" "tm_level u = target_level plan" "t \<in> set (planned plan)" for u t
  proof -
    have "u \<in> set (tables_of lm (level + 1)) - set (overlapping_tables plan)" using table_of_level [OF lm, of u] u d(3) by (auto simp: planned_def)
    then show ?thesis using inside_apart [OF d(1) d(6) u(3)] by blast
  qed
  ultimately show ?thesis using d(1) by (simp add: closed_plan_def)
qed

section \<open>Background compaction\<close>

text \<open>What every step keeps.\<close>

definition shows_map :: "zlib \<Rightarrow> (byte list \<rightharpoonup> byte list) \<Rightarrow> catalogue \<Rightarrow> any_driver Engine \<Rightarrow> bool" where
  "shows_map z M cat e \<longleftrightarrow> engine_ok z cat e \<and> means (engine_records cat e) M"

lemma represents_iff: "represents z e M \<longleftrightarrow> (\<exists>cat. shows_map z M cat e)"
  by (simp add: represents_def shows_map_def)

lemma compaction_step:
  assumes "shows_map z M cat e" "closed_plan (e_lm e) plan" "crc_incremental z" "quiet_reads (ee_job env)"
  obtains c e' cat' where "run_compaction z env plan e = Some (c, e')" "shows_map z M cat' e'" "c = Ok \<Longrightarrow> weight cat' (e_lm e') < weight cat (e_lm e)"
  using run_compaction_effect [OF _ assms(2) _ assms(3,4)] assms(1) unfolding shows_map_def by blast

lemma compact_loop_effect:
  assumes z: "crc_incremental z" and q: "quiet_reads (ee_job env)" and opts: "CompactionOptions_validate opts = Ok"
  shows "shows_map z M cat e \<Longrightarrow> \<exists>c e'. compact_loop z env opts e = Some (c, e') \<and> represents z e' M"
proof (induction "weight cat (e_lm e)" arbitrary: cat e rule: less_induct)
  case less
  have lo: "levels_ok (e_lm e)" using less.prems store_okD(1) [OF engine_okD(5)] by (auto simp: shows_map_def)
  show ?case
  proof (cases "should_compact (e_lm e) opts")
    case False
    then show ?thesis using less.prems by (subst compact_loop.simps) (auto simp: represents_iff)
  next
    case True
    then obtain plan level where p: "pick_compaction (e_lm e) opts = Inr (Some plan)" "scheduled (e_lm e) opts level plan"
      using pick_compaction_cases [OF lo opts] by blast
    obtain c e1 cat1 where r: "run_compaction z env plan e = Some (c, e1)" "shows_map z M cat1 e1" "c = Ok \<Longrightarrow> weight cat1 (e_lm e1) < weight cat (e_lm e)"
      using compaction_step [OF less.prems scheduled_closed [OF lo p(2)] z q] by metis
    have eq: "compact_loop z env opts e = (if c \<noteq> Ok then Some (c, e1) else compact_loop z env opts e1)"
      using True p(1) r(1) by (subst compact_loop.simps) simp
    show ?thesis
    proof (cases "c = Ok")
      case True
      then show ?thesis using less.hyps [OF r(3) r(2)] eq by simp
    next
      case False
      then show ?thesis using eq r(2) by (auto simp: represents_iff)
    qed
  qed
qed

lemma maybe_compact_effect:
  assumes "represents z e M" "crc_incremental z" "quiet_reads (ee_job env)"
  shows "\<exists>c e'. maybe_compact_unlocked z env e = Some (c, e') \<and> represents z e' M"
proof (cases "co_enable_background_compaction (db_compaction (e_options e))")
  case True
  obtain cat where cat: "shows_map z M cat e" using assms(1) by (auto simp: represents_iff)
  then have "CompactionOptions_validate (scheduler_options (e_options e)) = Ok" using scheduler_options_valid(1) [OF DBOptions_validateD(3) [OF engine_okD(3)]] by (auto simp: shows_map_def)
  then show ?thesis using compact_loop_effect [OF assms(2,3) _ cat] True by (simp add: maybe_compact_unlocked_def)
qed (use assms(1) in \<open>simp add: maybe_compact_unlocked_def\<close>)

section \<open>Flush\<close>

lemma flush_unlocked_effect:
  assumes rep: "represents z e M" and z: "crc_incremental z" "quiet_reads (ee_job env)"
  shows "\<exists>c e'. flush_unlocked z (dispatch ly kind) env e = Some (c, e') \<and> represents z e' M"
proof -
  let ?D = "dispatch ly kind"
  obtain cat where ok: "engine_ok z cat e" and M: "means (engine_records cat e) M" using rep by (auto simp: represents_def)
  have op: "ensure_open e = Ok" using engine_okD(1,2) [OF ok] by (simp add: ensure_open_def)
  obtain c1 e1 where f: "freeze_memtable ?D e = (c1, e1)" by fastforce
  note k1 = freeze_keeps [OF ok f]
  obtain c2 e2 where l: "flush_loop z ?D env e1 = Some (c2, e2)" "keeps_records z (engine_records cat e) e2"
    using flush_loop_keeps [OF keeps_recordsI [OF k1]] by blast
  have r: "represents z e1 M" "represents z e2 M" using k1 l(2) M by (auto simp: represents_def keeps_records_def)
  obtain c3 e3 where m: "maybe_compact_unlocked z env e2 = Some (c3, e3)" "represents z e3 M" using maybe_compact_effect [OF r(2) z] by blast
  have "flush_unlocked z ?D env e = (if c1 \<noteq> Ok then Some (c1, e1) else if c2 = Ok then Some (c3, e3) else Some (c2, e2))"
    using op f l(1) m(1) by (simp add: flush_unlocked_def then_e_def)
  then show ?thesis using r m(2) by auto
qed

section \<open>Closing a plan\<close>

lemma filter_grows:
  assumes "\<forall>t\<in>set xs. p t \<longrightarrow> q t"
  shows "length (filter p xs) \<le> length (filter q xs)" "length (filter p xs) = length (filter q xs) \<Longrightarrow> filter p xs = filter q xs"
proof -
  have *: "length (filter p xs) \<le> length (filter q xs) \<and> (length (filter p xs) = length (filter q xs) \<longrightarrow> filter p xs = filter q xs)"
    using assms by (induction xs) auto
  then show "length (filter p xs) \<le> length (filter q xs)" "length (filter p xs) = length (filter q xs) \<Longrightarrow> filter p xs = filter q xs" by blast+
qed

lemma fold_min_max_inside:
  fixes a :: "'a :: linorder"
  shows "\<forall>x\<in>set xs. a \<le> x \<Longrightarrow> fold min xs a = a" "\<forall>x\<in>set xs. x \<le> a \<Longrightarrow> fold max xs a = a"
  by (induction xs) (simp_all add: min_absorb2 max_absorb2)

definition meets :: "byte list \<Rightarrow> byte list \<Rightarrow> TableMeta \<Rightarrow> bool" where
  "meets lo hi t \<longleftrightarrow> smallest_key t \<le> hi \<and> lo \<le> largest_key t"

text \<open>The tables a plan lists are chosen from the two levels, and its range covers them.\<close>

definition growing_plan :: "LevelManager \<Rightarrow> CompactionPlan \<Rightarrow> bool" where
  "growing_plan lm plan \<longleftrightarrow> plan_smallest plan \<le> plan_largest plan \<and>
     (\<exists>p. source_tables plan = filter p (tables_of lm (unat (source_level plan)))) \<and> (\<exists>q. overlapping_tables plan = filter q (tables_of lm (unat (target_level plan)))) \<and>
     (\<forall>t\<in>set (planned plan). plan_smallest plan \<le> smallest_key t \<and> largest_key t \<le> plan_largest plan)"


lemma widened_range:
  fixes ts :: "TableMeta list"
  shows "fold min (map smallest_key ts) lo \<le> lo" "hi \<le> fold max (map largest_key ts) hi"
    "t \<in> set ts \<Longrightarrow> fold min (map smallest_key ts) lo \<le> smallest_key t" "t \<in> set ts \<Longrightarrow> largest_key t \<le> fold max (map largest_key ts) hi"
  by (simp_all add: fold_min_le fold_max_ge)

text \<open>One pass of the loop.\<close>

lemma close_plan_pass:
  assumes lm: "levels_ok lm" and g: "growing_plan lm plan"
  shows "(\<exists>plan'. close_plan lm plan = Some plan' \<and> (source_tables plan' \<noteq> [] \<longrightarrow> CompactionPlan_validate plan' \<longrightarrow> closed_plan lm plan')) \<or>
    (\<exists>plan'. close_plan lm plan = close_plan lm plan' \<and> growing_plan lm plan' \<and> source_level plan' = source_level plan \<and> target_level plan' = target_level plan \<and>
       length (planned plan) < length (planned plan'))" (is "?ends \<or> ?grows")
proof -
  define S where "S = tables_of lm (unat (source_level plan))"
  define T where "T = tables_of lm (unat (target_level plan))"
  define srcs where "srcs = filter (meets (plan_smallest plan) (plan_largest plan)) S"
  define plan2 where "plan2 = plan\<lparr>source_tables := srcs, plan_smallest := fold min (map smallest_key srcs) (plan_smallest plan), plan_largest := fold max (map largest_key srcs) (plan_largest plan)\<rparr>"
  define targets where "targets = filter (meets (plan_smallest plan2) (plan_largest plan2)) T"
  define plan3 where "plan3 = plan2\<lparr>overlapping_tables := targets, plan_smallest := fold min (map smallest_key targets) (plan_smallest plan2), plan_largest := fold max (map largest_key targets) (plan_largest plan2)\<rparr>"
  have r0: "plan_smallest plan \<le> plan_largest plan" using g by (simp add: growing_plan_def)
  have r2: "plan_smallest plan2 \<le> plan_smallest plan" "plan_largest plan \<le> plan_largest plan2" "\<forall>t\<in>set srcs. plan_smallest plan2 \<le> smallest_key t \<and> largest_key t \<le> plan_largest plan2"
    by (simp_all add: plan2_def widened_range)
  have r3: "plan_smallest plan3 \<le> plan_smallest plan2" "plan_largest plan2 \<le> plan_largest plan3" "\<forall>t\<in>set targets. plan_smallest plan3 \<le> smallest_key t \<and> largest_key t \<le> plan_largest plan3"
    by (simp_all add: plan3_def widened_range)
  have lv: "source_level plan3 = source_level plan" "target_level plan3 = target_level plan" "source_tables plan3 = srcs" "overlapping_tables plan3 = targets"
    by (simp_all add: plan3_def plan2_def)
  have f1: "find_overlapping_tables (unat (source_level plan)) (plan_smallest plan) (plan_largest plan) lm = srcs"
    using overlapping_eq [OF lm r0] by (simp add: srcs_def S_def meets_def [abs_def])
  have "plan_smallest plan2 \<le> plan_largest plan2" using r0 r2 by (meson order_trans)
  then have f2: "find_overlapping_tables (unat (target_level plan)) (plan_smallest plan2) (plan_largest plan2) lm = targets"
    using overlapping_eq [OF lm] by (simp add: targets_def T_def meets_def [abs_def])
  have w: "widen_all srcs (plan\<lparr>source_tables := srcs\<rparr>) = plan2" "widen_all targets (plan2\<lparr>overlapping_tables := targets\<rparr>) = plan3"
    by (simp_all add: widen_all_def fold_widen plan2_def plan3_def)
  let ?stable = "length (source_tables plan) = length srcs \<and> length (overlapping_tables plan) = length targets \<and> plan_smallest plan = plan_smallest plan3 \<and> plan_largest plan = plan_largest plan3"
  have eq: "close_plan lm plan = (if srcs = [] then Some (plan\<lparr>source_tables := srcs\<rparr>) else if ?stable then Some plan3 else close_plan lm plan3)"
    by (subst close_plan.simps) (simp add: Let_def f1 f2 w)
  have in3: "plan_smallest plan3 \<le> smallest_key t \<and> largest_key t \<le> plan_largest plan3" if "t \<in> set (planned plan3)" for t
    using that r2(3) r3 unfolding planned_def lv by (auto intro: order_trans)
  have g3: "growing_plan lm plan3" unfolding growing_plan_def lv
    using in3 r0 r2(1,2) r3(1,2) by (auto simp: srcs_def targets_def S_def T_def intro: order_trans)
  consider "srcs = []" | "srcs \<noteq> []" ?stable | "srcs \<noteq> []" "\<not> ?stable" by blast
  then show ?thesis
  proof cases
    case 1
    then have "close_plan lm plan = Some (plan\<lparr>source_tables := []\<rparr>)" using eq by simp
    then have ?ends by (intro exI [of _ "plan\<lparr>source_tables := []\<rparr>"]) simp
    then show ?thesis ..
  next
    case 2
    then have same: "plan_smallest plan2 = plan_smallest plan" "plan_largest plan2 = plan_largest plan" using r2(1,2) r3(1,2) by (auto intro: order_antisym)
    have "closed_plan lm plan3" if v: "CompactionPlan_validate plan3"
    proof -
      have "set (planned plan3) \<subseteq> set (all_tables lm)" using tables_ofD(2) [OF lm] by (auto simp: planned_def lv srcs_def targets_def S_def T_def)
      moreover have out: "apart u t" if "u \<in> set (all_tables lm) - set (planned plan3)" "tm_level u = source_level plan \<or> tm_level u = target_level plan" "t \<in> set (planned plan3)" for u t
      proof (rule inside_apart [OF v _ that(3)])
        have "u \<in> set S \<or> u \<in> set T" using table_of_level [OF lm, of u] that(1,2) by (auto simp: S_def T_def)
        then have "\<not> meets (plan_smallest plan) (plan_largest plan) u" using that(1) same by (auto simp: planned_def lv srcs_def targets_def)
        then show "\<not> (smallest_key u \<le> plan_largest plan3 \<and> plan_smallest plan3 \<le> largest_key u)" using 2(2) by (simp add: meets_def)
      qed
      ultimately show ?thesis using v by (simp add: closed_plan_def lv planned_def)
    qed
    then have ?ends using eq 2 by (intro exI [of _ plan3]) simp
    then show ?thesis ..
  next
    case 3
    obtain p q where pq: "source_tables plan = filter p S" "overlapping_tables plan = filter q T" using g by (auto simp: growing_plan_def S_def T_def)
    have ins: "plan_smallest plan \<le> smallest_key t \<and> largest_key t \<le> plan_largest plan" if "t \<in> set (source_tables plan) \<union> set (overlapping_tables plan)" for t
      using g that by (auto simp: growing_plan_def planned_def)
    have ok: "smallest_key t \<le> largest_key t" if "t \<in> set S \<union> set T" for t
      using tables_ofD(1) [OF lm] that by (auto simp: S_def T_def level_ok_def table_ok_def)
    have mt: "meets (plan_smallest plan) (plan_largest plan) t" if "t \<in> set (source_tables plan) \<union> set (overlapping_tables plan)" for t
      using ins [OF that] ok [of t] that pq unfolding meets_def by (auto intro: order_trans)
    have g1: "\<forall>t\<in>set S. p t \<longrightarrow> meets (plan_smallest plan) (plan_largest plan) t" using mt pq by auto
    have g2: "\<forall>t\<in>set T. q t \<longrightarrow> meets (plan_smallest plan2) (plan_largest plan2) t" using mt pq r2(1,2) unfolding meets_def by (auto intro: order_trans)
    have "\<not> (length (source_tables plan) = length srcs \<and> length (overlapping_tables plan) = length targets)"
    proof
      assume "length (source_tables plan) = length srcs \<and> length (overlapping_tables plan) = length targets"
      then have e: "source_tables plan = srcs" "overlapping_tables plan = targets" using filter_grows(2) [OF g1] filter_grows(2) [OF g2] pq by (simp_all add: srcs_def targets_def)
      have s2: "plan_smallest plan2 = plan_smallest plan" "plan_largest plan2 = plan_largest plan"
        unfolding plan2_def using ins e(1) by (simp_all add: fold_min_max_inside)
      have "plan_smallest plan3 = plan_smallest plan" "plan_largest plan3 = plan_largest plan"
        unfolding plan3_def using ins e(2) by (simp_all add: fold_min_max_inside s2)
      then show False using 3 e by simp
    qed
    moreover have "length (source_tables plan) \<le> length srcs" "length (overlapping_tables plan) \<le> length targets"
      using filter_grows(1) [OF g1] filter_grows(1) [OF g2] pq by (simp_all add: srcs_def targets_def)
    ultimately have "length (planned plan) < length (planned plan3)" unfolding planned_def lv length_append by linarith
    then have ?grows using eq 3 g3 lv(1,2) by (intro exI [of _ plan3]) simp
    then show ?thesis ..
  qed
qed

lemma close_plan_closes:
  assumes lm: "levels_ok lm"
  shows "growing_plan lm plan \<Longrightarrow> \<exists>plan'. close_plan lm plan = Some plan' \<and> (source_tables plan' \<noteq> [] \<longrightarrow> CompactionPlan_validate plan' \<longrightarrow> closed_plan lm plan')"
proof (induction "length (tables_of lm (unat (source_level plan))) + length (tables_of lm (unat (target_level plan))) - length (planned plan)" arbitrary: plan rule: less_induct)
  case less
  let ?n = "\<lambda>p. length (tables_of lm (unat (source_level p))) + length (tables_of lm (unat (target_level p)))"
  have bound: "length (planned p) \<le> ?n p" if gp: "growing_plan lm p" for p
  proof -
    obtain f g where "source_tables p = filter f (tables_of lm (unat (source_level p)))" "overlapping_tables p = filter g (tables_of lm (unat (target_level p)))"
      using gp by (auto simp: growing_plan_def)
    then show ?thesis by (simp add: planned_def add_mono)
  qed
  from close_plan_pass [OF lm less.prems] show ?case
  proof
    assume "\<exists>plan'. close_plan lm plan = close_plan lm plan' \<and> growing_plan lm plan' \<and> source_level plan' = source_level plan \<and>
      target_level plan' = target_level plan \<and> length (planned plan) < length (planned plan')"
    then obtain p where p: "close_plan lm plan = close_plan lm p" "growing_plan lm p" "source_level p = source_level plan" "target_level p = target_level plan"
      "length (planned plan) < length (planned p)" by blast
    have "?n p - length (planned p) < ?n plan - length (planned plan)" using bound [OF p(2)] p(3-5) by simp
    from less.hyps [OF this p(2)] show ?thesis using p(1) by simp
  qed
qed

section \<open>Manual compaction\<close>

lemma compact_levels_effect:
  assumes z: "crc_incremental z" and q: "quiet_reads (ee_job env)" and r: "smallest \<le> largest"
  shows "represents z e M \<Longrightarrow> \<exists>c e'. compact_levels z env opts smallest largest levels e = Some (c, e') \<and> represents z e' M"
proof (induction levels arbitrary: e)
  case (Cons level levels)
  obtain cat where cat: "shows_map z M cat e" using Cons.prems by (auto simp: represents_iff)
  then have lo: "levels_ok (e_lm e)" using store_okD(1) [OF engine_okD(5)] by (auto simp: shows_map_def)
  let ?plan = "\<lparr>cp_reason = Manual, source_level = of_nat level, target_level = of_nat level + 1, source_tables = [], overlapping_tables = [],
    plan_smallest = smallest, plan_largest = largest, max_output_file_size = target_file_size_per_level opts ! (level + 1)\<rparr>"
  have none: "\<exists>p. [] = filter p ts" for ts :: "TableMeta list" by (intro exI [of _ "\<lambda>_. False"]) simp
  then have "growing_plan (e_lm e) ?plan" using r by (simp add: growing_plan_def planned_def)
  from close_plan_closes [OF lo this] obtain plan where
    p: "close_plan (e_lm e) ?plan = Some plan" "source_tables plan \<noteq> [] \<longrightarrow> CompactionPlan_validate plan \<longrightarrow> closed_plan (e_lm e) plan" by blast
  have eq: "compact_levels z env opts smallest largest (level # levels) e =
      (if source_tables plan = [] then compact_levels z env opts smallest largest levels e
       else if \<not> CompactionPlan_validate plan then Some (InvariantViolation, e)
       else then_e (run_compaction z env plan) (compact_levels z env opts smallest largest levels) e)"
    using p(1) by (simp add: Let_def)
  show ?case
  proof (cases "source_tables plan \<noteq> [] \<and> CompactionPlan_validate plan")
    case True
    obtain c e1 cat1 where run: "run_compaction z env plan e = Some (c, e1)" "shows_map z M cat1 e1"
      using compaction_step [OF cat _ z q] p(2) True by metis
    then have "represents z e1 M" by (auto simp: represents_iff)
    then show ?thesis using Cons.IH [of e1] eq True run(1) by (auto simp: then_e_def)
  next
    case False
    then show ?thesis using Cons.IH [OF Cons.prems] Cons.prems eq by auto
  qed
qed simp

lemma compact_range_effect:
  assumes rep: "represents z e M" and z: "crc_incremental z" and q: "quiet_reads (ee_job env)"
  shows "\<exists>c e'. Engine_compact_range z (dispatch ly kind) env first_entry last_entry e = Some (c, e') \<and> represents z e' M"
proof -
  obtain c e1 where f: "flush_unlocked z (dispatch ly kind) env e = Some (c, e1)" "represents z e1 M" using flush_unlocked_effect [OF rep z q] by blast
  show ?thesis
  proof (cases "first_entry \<le> last_entry")
    case True
    then have "\<not> entry_less last_entry first_entry" by simp
    then show ?thesis using compact_levels_effect [OF z q True f(2)] f rep by (auto simp: Engine_compact_range_def then_e_def)
  next
    case False
    then have "entry_less last_entry first_entry" by simp
    then show ?thesis using f rep by (auto simp: Engine_compact_range_def then_e_def)
  qed
qed

section \<open>Writes\<close>

lemma put_effect:
  assumes rep: "represents z e M" and z: "crc_incremental z" and q: "quiet_reads (ee_job env)" and ty: "ty = Put \<or> ty = Tombstone"
  shows "\<exists>c e'. put_impl z (dispatch ly kind) env key val ty e = Some (c, e') \<and>
    (represents z e' (M(key := if ty = Put then Some val else None)) \<or> c \<noteq> Ok \<and> represents z e' M)"
proof -
  obtain cat where ok: "engine_ok z cat e" and M: "means (engine_records cat e) M" using rep by (auto simp: represents_def)
  let ?r = "put_record key val ty (e_next_seq e)" let ?M = "M(key := if ty = Put then Some val else None)"
  from put_prefix [OF ok, of ly kind env key val ty] show ?thesis
  proof
    assume "\<exists>c e'. put_impl z (dispatch ly kind) env key val ty e = Some (c, e') \<and> c \<noteq> Ok \<and> engine_ok z cat e' \<and> engine_records cat e' = engine_records cat e"
    then obtain c e' where "put_impl z (dispatch ly kind) env key val ty e = Some (c, e')" "c \<noteq> Ok" "engine_ok z cat e'" "engine_records cat e' = engine_records cat e" by blast
    then show ?thesis using M by (intro exI [of _ c] exI [of _ e']) (auto simp: represents_def)
  next
    assume "\<exists>e1. put_impl z (dispatch ly kind) env key val ty e = maybe_flush_unlocked z (dispatch ly kind) env e1 \<and> engine_ok z cat e1 \<and>
      engine_records cat e1 = insert ?r (engine_records cat e)"
    then obtain e1 where e1: "put_impl z (dispatch ly kind) env key val ty e = maybe_flush_unlocked z (dispatch ly kind) env e1" "engine_ok z cat e1"
      "engine_records cat e1 = insert ?r (engine_records cat e)" by blast
    have "means (insert ?r (engine_records cat e)) (M(key_entry ?r := visible (Some ?r)))"
      by (rule means_insert [OF M _ engine_finite]) (use engine_okD(8) [OF ok] in \<open>simp add: put_record_def\<close>)
    moreover have "M(key_entry ?r := visible (Some ?r)) = ?M" using ty by (auto simp: put_record_def visible_def)
    ultimately have "represents z e1 ?M" using e1(2,3) by (auto simp: represents_def)
    then have "\<exists>c e'. maybe_flush_unlocked z (dispatch ly kind) env e1 = Some (c, e') \<and> represents z e' ?M"
      using flush_unlocked_effect [OF _ z q] by (simp add: maybe_flush_unlocked_def)
    then show ?thesis using e1(1) by auto
  qed
qed

end
