(* ===== verification/ManifestRecovery.thy ===== *)
theory ManifestRecovery
  imports ManifestLog
begin

text \<open>
  Committing and recovering. \<open>log_ok\<close> relates the live manifest to its file: the header and the
  committed edits, all durable, whose replay gives the live levels. A commit keeps the relation or
  poisons the manifest; recovery from any prefix that keeps the committed edits gives the state before
  or after the edit that was being written. An edit whose payload needs padding breaks this: the
  commit fails and the file can no longer be loaded.
\<close>

section \<open>The bytes of a manifest\<close>

definition manifest_header :: "zlib \<Rightarrow> ManifestHeader" where
  "manifest_header z = ManifestHeader_compute_crc32 z ManifestHeader_default"

definition mheader_fields :: "ManifestHeader \<Rightarrow> byte list list" where
  "mheader_fields h = [enc_u32 (mh_magic h), enc_u32 (mh_version h), enc_u32 (mh_header_size h), enc_u32 (mh_flags h),
     enc_u32 (mh_reserved h), enc_u32 (mh_crc32 h)]"

definition head_bytes :: "zlib \<Rightarrow> byte list" where
  "head_bytes z = concat (mheader_fields (manifest_header z))"

fun edits_bytes :: "nat \<Rightarrow> VersionEdit list \<Rightarrow> byte list" where
  "edits_bytes off [] = []"
| "edits_bytes off (e # es) = edit_bytes off e @ edits_bytes (off + length (edit_bytes off e)) es"

fun all_unpadded :: "nat \<Rightarrow> VersionEdit list \<Rightarrow> bool" where
  "all_unpadded off [] \<longleftrightarrow> True"
| "all_unpadded off (e # es) \<longleftrightarrow> unpadded off e \<and> all_unpadded (off + length (edit_bytes off e)) es"

lemma edits_bytes_append: "edits_bytes off (es @ ds) = edits_bytes off es @ edits_bytes (off + length (edits_bytes off es)) ds"
  by (induction off es rule: edits_bytes.induct) (simp_all add: add.assoc)

lemma all_unpadded_append: "all_unpadded off (es @ ds) \<longleftrightarrow> all_unpadded off es \<and> all_unpadded (off + length (edits_bytes off es)) ds"
  by (induction off es rule: all_unpadded.induct) (simp_all add: add.assoc)

lemma head_bytes_length [simp]: "length (head_bytes z) = ManifestHeader_disk_size"
  by (simp add: head_bytes_def mheader_fields_def ManifestHeader_disk_size_def)

lemma mheader_seamless: "seamless Bm 0 (mheader_fields h)"
  by (simp add: mheader_fields_def pad_before_def MANIFEST_BLOCK_SIZE_def)

lemma ManifestHeader_write_emits:
  assumes "tracked f" "wdata f = []"
  shows "emits (ManifestHeader_write (manifest_header z)) (head_bytes z) f"
proof -
  have "lays Bm (ManifestHeader_write h) (mheader_fields h)" for h
    unfolding ManifestHeader_write_def mheader_fields_def
    by (intro lays_Cons_skip [OF check_offset_lays] lays_Cons field_lays lays_run_all_Nil)
  from laysD [OF this assms(1)] show ?thesis
    using assms(2) seamless_lay [OF mheader_seamless] by (simp add: head_bytes_def)
qed

lemma ManifestHeader_load_loads: "loads Bm E (ManifestHeader_load z) (mheader_fields (manifest_header z)) (manifest_header z)"
proof -
  have h: "mh_magic (manifest_header z) = MANIFEST_MAGIC" "mh_version (manifest_header z) = MANIFEST_VERSION"
    "mh_header_size (manifest_header z) = of_nat ManifestHeader_disk_size" "mh_flags (manifest_header z) = 0"
    "mh_reserved (manifest_header z) = 0"
    "mh_crc32 (ManifestHeader_compute_crc32 z (manifest_header z)) = mh_crc32 (manifest_header z)"
    by (simp_all add: manifest_header_def ManifestHeader_compute_crc32_def ManifestHeader_default_def Let_def)
  have last: "loads Bm E (let h = h' in bind_l (check_l (\<lambda>_. if mh_crc32 (ManifestHeader_compute_crc32 z h) \<noteq> mh_crc32 h
      then ChecksumMismatch else Ok)) (\<lambda>_. return_l h)) [] (manifest_header z)" if "h' = manifest_header z" for h'
    using that h(6) by (auto intro: loads_pass loads_return)
  show ?thesis
    unfolding ManifestHeader_load_def mheader_fields_def
    by (intro loads_Cons [OF field_loads(2)] loads_pass last; ((simp; fail) | (simp add: h(1-5); fail)))
qed

section \<open>Replaying\<close>

abbreviation stages :: "zlib \<Rightarrow> EditPayload list \<Rightarrow> (LevelManager \<times> StagedCounters) action" where
  "stages z ps \<equiv> run_all (map (\<lambda>p. stage_apply (prepared z p)) ps)"

lemma stage_apply_payload: "edit_payload e = edit_payload e' \<Longrightarrow> stage_apply e = stage_apply e'"
  by (rule ext) (simp add: stage_apply_def)

lemma edit_bytes_pos: "8 \<le> length (edit_bytes off e)"
  using lay_length [of "edit_fields e" Bm off] by (simp add: edit_bytes_def edit_fields_length)

lemma unpadded_payload: "unpadded off (prepared z p) \<Longrightarrow> seamless Bm (header_end off (prepared z p)) (payload_fields p)"
  by (auto simp: unpadded_def edit_fields_def seamless_append header_end_def seamless_lay)

lemma replay_edits:
  assumes "\<forall>p\<in>set ps. payload_writable p" "all_unpadded (roff f) (map (prepared z) ps)" "read_quiet D f"
    "arena_ok ar" "never_oom ar" "bytes_at D (roff f) (edits_bytes (roff f) (map (prepared z) ps))"
    "stages z ps (lm, sc) = (Ok, lm', sc')"
  shows "\<exists>f' ar'. replay z (length D) lm sc (f, ar) = replay z (length D) lm' sc' (f', ar') \<and> read_quiet D f' \<and>
    arena_ok ar' \<and> never_oom ar' \<and> roff f' = roff f + length (edits_bytes (roff f) (map (prepared z) ps))"
  using assms
proof (induction ps arbitrary: f ar lm sc)
  case (Cons p ps)
  let ?b = "edit_bytes (roff f) (prepared z p)"
  have at: "bytes_at D (roff f) ?b" "bytes_at D (roff f + length ?b) (edits_bytes (roff f + length ?b) (map (prepared z) ps))"
    using Cons.prems(6) by (simp_all add: bytes_at_append)
  obtain g br where g: "VersionEdit_load z (length D) (f, ar) = Some (Inr (prepared z p), g, br)" "read_quiet D g"
    "extends ar br" "never_oom br" "roff g = roff f + length ?b"
    using VersionEdit_load_at [OF _ Cons.prems(3-5) at(1)] Cons.prems(1,2) unpadded_payload [of "roff f" z p] by auto
  obtain lm1 sc1 where s: "stage_apply (prepared z p) (lm, sc) = (Ok, lm1, sc1)" "stages z ps (lm1, sc1) = (Ok, lm', sc')"
    using Cons.prems(7) by (auto split: prod.splits if_splits)
  have "roff f < length D" using bytes_at_bound [OF at(1)] edit_bytes_pos [of "roff f" "prepared z p"] by simp
  then have eq: "replay z (length D) lm sc (f, ar) = replay z (length D) lm1 sc1 (g, br)"
    by (subst replay.simps) (simp add: g(1) s(1))
  have "arena_ok br" using g(3) by (simp add: extends_def)
  from Cons.IH [OF _ _ g(2) this g(4) _ s(2)] Cons.prems(1,2) at(2) g(5) show ?case
    unfolding eq by (auto simp: add.assoc)
qed auto

section \<open>Committing\<close>

text \<open>Every path and key of an edit's tables fits into one block.\<close>

definition fits_blocks :: "VersionEdit \<Rightarrow> bool" where
  "fits_blocks e \<longleftrightarrow> (\<forall>t\<in>set (new_tables (edit_payload e)). length (tm_path t) \<le> Bm \<and>
     length (smallest_key t) \<le> Bm \<and> length (largest_key t) \<le> Bm)"

lemma add_table_sizes_valid: "add_table_sizes ts n = Inr m \<Longrightarrow> \<forall>t\<in>set ts. TableMeta_validate t = Ok"
proof (induction ts n rule: add_table_sizes.induct)
  case (2 t ts n)
  obtain k where k: "TableMeta_disk_size t = Inr k" using 2(2) by (cases "TableMeta_disk_size t") auto
  then have "TableMeta_validate t = Ok" by (simp add: TableMeta_disk_size_def Let_def split: if_splits)
  then show ?case using 2 k by (cases "checked_add_u64 n (unat k)") auto
qed simp

lemma payload_writableI:
  assumes "EditPayload_encoded_size (edit_payload e) = Inr n" "fits_blocks e"
  shows "payload_writable (edit_payload e)"
proof -
  obtain k m where "add_table_sizes (new_tables (edit_payload e)) k = Inr m"
    using assms(1) unfolding EditPayload_encoded_size_def Let_def by (auto split: if_splits sum.splits)
  from add_table_sizes_valid [OF this] assms show ?thesis by (auto simp: payload_writable_def fits_blocks_def meta_writable_def)
qed

lemma disk_size_fails: "TableMeta_disk_size t \<noteq> Inl Ok"
  by (auto simp: TableMeta_disk_size_def checked_u32_size_def Let_def split: sum.split)

lemma add_table_sizes_fails: "add_table_sizes ts n \<noteq> Inl Ok"
proof (induction ts n rule: add_table_sizes.induct)
  case (2 t ts n)
  then show ?case using disk_size_fails [of t]
    by (cases "TableMeta_disk_size t"; cases "checked_add_u64 n (unat (projr (TableMeta_disk_size t)))")
      (auto simp: checked_add_u64_def split: if_splits)
qed simp

lemma encoded_size_fails: "EditPayload_encoded_size p \<noteq> Inl Ok"
  using add_table_sizes_fails unfolding EditPayload_encoded_size_def Let_def checked_add_u64_def
  by (auto split: sum.split)

definition log_ok :: "zlib \<Rightarrow> LevelManager \<Rightarrow> EditPayload list \<Rightarrow> StagedCounters \<Rightarrow> wfile \<Rightarrow> Manifest \<Rightarrow> LevelManager \<Rightarrow> bool" where
  "log_ok z lm0 ps sc f m lm \<longleftrightarrow> m_writable m = Some f \<and> wfd f \<and> append_offset m = length (wdata f) \<and> \<not> write_poisoned m \<and>
     wsynced f = length (wdata f) \<and> wdata f = head_bytes z @ edits_bytes ManifestHeader_disk_size (map (prepared z) ps) \<and>
     (\<forall>p\<in>set ps. payload_writable p) \<and> all_unpadded ManifestHeader_disk_size (map (prepared z) ps) \<and>
     stages z ps (lm0, StagedCounters_default) = (Ok, lm, sc) \<and> lags sc (m_counters m) \<and> levels_ok lm \<and>
     check_invariants lm sc = Ok"

lemma log_offset: "log_ok z lm0 ps sc f m lm \<Longrightarrow> append_offset m = ManifestHeader_disk_size +
    length (edits_bytes ManifestHeader_disk_size (map (prepared z) ps))"
  by (simp add: log_ok_def)

text \<open>A commit extends the log, changes nothing, or poisons the manifest with a prefix of the edit
  in the file.\<close>

lemma commit_cases:
  assumes "log_ok z lm0 ps sc f m lm" "Manifest_commit z fl e (m, lm) = (c, e', m', lm')" "fits_blocks e"
  defines "p \<equiv> edit_payload e" and "off \<equiv> append_offset m"
  obtains (Committed) sc' f' scl where "c = Ok" "log_ok z lm0 (ps @ [p]) sc' f' m' lm'"
      "stage_apply e (lm, m_counters m) = (Ok, lm', scl)" "m_counters m' = scl" "unpadded off (prepared z p)" "payload_writable p"
      "wdata f' = wdata f @ edit_bytes off (prepared z p)"
  | (Rejected) "c \<noteq> Ok" "m' = m" "lm' = lm"
      "fl \<or> fst (stage_apply e (lm, m_counters m)) \<noteq> Ok \<or> (\<exists>err. EditPayload_encoded_size p = Inl err)"
  | (Poisoned) k f' staged scl where "c \<noteq> Ok" "lm' = lm" "write_poisoned m'" "m_writable m' = Some f'" "m_counters m' = m_counters m"
      "stage_apply e (lm, m_counters m) = (Ok, staged, scl)" "payload_writable p"
      "wdata f' = wdata f @ take k (edit_bytes off (prepared z p))" "k \<le> length (edit_bytes off (prepared z p))"
      "write_faultfree f \<longrightarrow> k = length (edit_bytes off (prepared z p)) \<and> (c = InvariantViolation \<longleftrightarrow> \<not> unpadded off (prepared z p))"
      "write_faultfree f \<longrightarrow> unpadded off (prepared z p) \<longrightarrow> wsenv f \<noteq> []"
proof -
  have L: "m_writable m = Some f" "wfd f" "off = length (wdata f)" "\<not> write_poisoned m"
    using assms(1) by (simp_all add: log_ok_def off_def)
  obtain cs staged scl where st: "stage_apply e (lm, m_counters m) = (cs, staged, scl)" by (metis prod_cases3)
  obtain cp e1 where pr: "VersionEdit_prepare z e = (cp, e1)" by fastforce
  show ?thesis
  proof (cases "fl \<or> cs \<noteq> Ok \<or> cp \<noteq> Ok")
    case True
    have "\<exists>err. EditPayload_encoded_size p = Inl err" if "cp \<noteq> Ok"
    proof (cases "EditPayload_encoded_size p")
      case (Inr n)
      then have "VersionEdit_prepare z e = (Ok, prepared z p)"
        using prepare_eq payload_writableI [OF _ assms(3)] by (simp add: p_def)
      then show ?thesis using pr that by simp
    qed simp
    then show ?thesis using True assms(2) L st pr by (intro Rejected) (auto simp: Manifest_commit_def split: if_splits)
  next
    case False
    obtain n where n: "EditPayload_encoded_size p = Inr n"
      using False pr encoded_size_fails [of p] by (auto simp: VersionEdit_prepare_def p_def split: sum.splits)
    have w: "payload_writable p" unfolding p_def using payload_writableI n assms(3) p_def by blast
    have e1: "e1 = prepared z p" using prepare_eq [of e z] w pr by (simp add: p_def)
    let ?f = "f\<lparr>woff := off\<rparr>"
    have t: "tracked ?f" using L by (simp add: tracked_def)
    have w1: "payload_writable (edit_payload e1)" using e1 w by simp
    obtain cw f1 k where f1: "VersionEdit_write z e1 ?f = (cw, prepared z p, f1)" "tracked f1" "wsynced f1 = wsynced f"
      "wsenv f1 = wsenv f" "k \<le> length (edit_bytes off (prepared z p))" "wdata f1 = wdata f @ take k (edit_bytes off (prepared z p))"
      "cw = Ok \<longrightarrow> k = length (edit_bytes off (prepared z p)) \<and> unpadded off (prepared z p)"
      "write_faultfree f \<longrightarrow> k = length (edit_bytes off (prepared z p)) \<and> cw = (if unpadded off (prepared z p) then Ok else InvariantViolation)"
      using VersionEdit_write_cases [OF t w1, of z] L(3) e1 by (auto simp: write_faultfree_def)
    let ?m1 = "m\<lparr>m_writable := Some f1, append_offset := woff f1\<rparr>"
    have ap: "Manifest_append_prepared z e1 m = (cw, prepared z p, if cw = Ok then ?m1 else ?m1\<lparr>write_poisoned := True\<rparr>)"
      using L f1(1) by (simp add: Manifest_append_prepared_def current_position_def off_def Let_def)
    obtain cy f2 where f2: "sync f1 = (cy, f2)" by fastforce
    note sy = syncD [OF f2]
    show ?thesis
    proof (cases "cw = Ok \<and> cy = Ok")
      case True
      have cm: "c = Ok" "lm' = staged" "m' = publish_counters scl (?m1\<lparr>m_writable := Some f2\<rparr>)"
        using assms(2) False True L st pr ap f2
        by (auto simp: Manifest_commit_def Manifest_sync_writer_def Let_def e1)
      have "stage_apply e (lm, m_counters m) = (Ok, staged, scl)" using st False by simp
      then obtain sc' where sc': "stage_apply e (lm, sc) = (Ok, staged, sc')" "lags sc' scl"
        using stage_apply_lag [of e lm "m_counters m" staged scl sc] assms(1) by (auto simp: log_ok_def)
      have eff: "levels_ok staged \<and> check_invariants staged sc' = Ok"
        using stage_apply_effect [OF _ sc'(1)] assms(1) by (auto simp: log_ok_def)
      have "stage_apply (prepared z p) = stage_apply e" by (rule stage_apply_payload) (simp add: p_def)
      then have "stages z (ps @ [p]) (lm0, StagedCounters_default) = (Ok, staged, sc')"
        using assms(1) sc'(1) by (simp add: run_all_append log_ok_def)
      then have "log_ok z lm0 (ps @ [p]) sc' f2 m' lm'"
        using assms(1) f1 sy True cm w sc'(2) eff L(3) t
        by (auto simp: log_ok_def publish_counters_def tracked_def edits_bytes_append all_unpadded_append off_def)
      then show ?thesis using Committed [of sc' f2 scl] cm f1 sy True st False w
        by (simp add: publish_counters_def)
    next
      case bad: False
      have cm: "c \<noteq> Ok" "lm' = lm" "write_poisoned m'" "m_counters m' = m_counters m"
        "\<exists>f'. m_writable m' = Some f' \<and> wdata f' = wdata f1" "c = (if cw = Ok then cy else cw)"
        using assms(2) False bad L st pr ap f2 sy
        by (auto simp: Manifest_commit_def Manifest_sync_writer_def Let_def e1 split: if_splits)
      have sf: "cy \<noteq> Ok \<Longrightarrow> cy = SyncFailed" using sy(6) by simp
      obtain f' where f': "m_writable m' = Some f'" "wdata f' = wdata f1" using cm(5) by blast
      have "write_faultfree f \<longrightarrow> k = length (edit_bytes off (prepared z p)) \<and> (c = InvariantViolation \<longleftrightarrow> \<not> unpadded off (prepared z p))"
        using f1(8) cm(1,6) sf by (auto split: if_splits)
      moreover have "write_faultfree f \<longrightarrow> unpadded off (prepared z p) \<longrightarrow> wsenv f \<noteq> []"
        using f1(2,4,8) f2 bad by (auto simp: sync_def fsync_loop.simps [of f1] tracked_def)
      ultimately show ?thesis using Poisoned [of f' staged scl k] cm f' f1(5,6) st False w by simp
    qed
  qed
qed

section \<open>Sessions\<close>

text \<open>What a process does with an open manifest, in any order: commits, allocations of table ids,
  explicit syncs.\<close>

datatype mstep = CommitEdit bool VersionEdit | AllocateId | SyncManifest

fun manifest_step :: "zlib \<Rightarrow> mstep \<Rightarrow> Manifest \<times> LevelManager \<Rightarrow> Manifest \<times> LevelManager" where
  "manifest_step z (CommitEdit fl e) (m, lm) = (case Manifest_commit z fl e (m, lm) of (c, e', s) \<Rightarrow> s)"
| "manifest_step z AllocateId (m, lm) = (snd (allocate_table_id m), lm)"
| "manifest_step z SyncManifest (m, lm) = (snd (Manifest_sync m), lm)"

fun step_fits :: "mstep \<Rightarrow> bool" where
  "step_fits (CommitEdit fl e) \<longleftrightarrow> fits_blocks e"
| "step_fits _ \<longleftrightarrow> True"

lemma poisoned_stays:
  "write_poisoned m \<Longrightarrow> manifest_step z st (m, lm) = (m', lm') \<Longrightarrow> write_poisoned m'"
  by (cases st) (auto simp: Manifest_commit_def allocate_table_id_def Manifest_sync_def split: if_splits)

lemma allocate_lags:
  "lags a (m_counters m) \<Longrightarrow> allocate_table_id m = (r, m') \<Longrightarrow> lags a (m_counters m')"
  using u64_less_Suc [of "sc_next_table_id (m_counters m)" "sc_next_table_id a"]
  by (auto simp: allocate_table_id_def lags_def split: if_splits)

lemma manifest_step_ok:
  assumes "log_ok z lm0 ps sc f m lm" "manifest_step z st (m, lm) = (m', lm')" "step_fits st"
  shows "write_poisoned m' \<or> (\<exists>ps' sc' f'. log_ok z lm0 ps' sc' f' m' lm')"
proof (cases st)
  case (CommitEdit fl e)
  obtain c e' where cm: "Manifest_commit z fl e (m, lm) = (c, e', m', lm')"
    using assms(2) CommitEdit by (auto split: prod.splits)
  have "fits_blocks e" using assms(3) CommitEdit by simp
  with assms(1) cm show ?thesis by (cases rule: commit_cases) (use assms(1) in auto)
next
  case AllocateId
  then have a: "allocate_table_id m = (fst (allocate_table_id m), m')" "lm' = lm" using assms(2) by auto
  then have "m_writable m' = m_writable m" "append_offset m' = append_offset m" "write_poisoned m' = write_poisoned m"
    by (auto simp: allocate_table_id_def split: if_splits)
  then show ?thesis using assms(1) a allocate_lags [OF _ a(1)] unfolding log_ok_def by metis
next
  case SyncManifest
  have L: "m_writable m = Some f" "\<not> write_poisoned m" using assms(1) by (simp_all add: log_ok_def)
  obtain c f' where s: "sync f = (c, f')" by fastforce
  then have m': "m' = (if c = Ok then m\<lparr>m_writable := Some f'\<rparr> else m\<lparr>m_writable := Some f', write_poisoned := True\<rparr>)" "lm' = lm"
    using assms(2) SyncManifest L by (auto simp: Manifest_sync_def Manifest_sync_writer_def Let_def)
  then show ?thesis
  proof (cases "c = Ok")
    case True
    then have "log_ok z lm0 ps sc f' m' lm'" using assms(1) m' syncD [OF s] by (simp add: log_ok_def)
    then show ?thesis by blast
  qed simp
qed

lemma manifest_steps_ok:
  assumes "fold (manifest_step z) sts (m, lm) = (m', lm')" "\<forall>st\<in>set sts. step_fits st"
    "write_poisoned m \<or> (\<exists>ps sc f. log_ok z lm0 ps sc f m lm)"
  shows "write_poisoned m' \<or> (\<exists>ps sc f. log_ok z lm0 ps sc f m' lm')"
  using assms
proof (induction sts arbitrary: m lm)
  case (Cons st sts)
  obtain m1 lm1 where s: "manifest_step z st (m, lm) = (m1, lm1)" by fastforce
  have "write_poisoned m1 \<or> (\<exists>ps sc f. log_ok z lm0 ps sc f m1 lm1)"
    using Cons.prems(2,3) poisoned_stays [OF _ s] manifest_step_ok [OF _ s] by auto
  from Cons.IH [OF _ _ this] Cons.prems(1,2) s show ?case by simp
qed simp

lemma levels_ok_new: "LevelManager_new n = Some lm \<Longrightarrow> levels_ok lm \<and> all_tables lm = [] \<and> length (lm_levels lm) = n"
  by (auto simp: LevelManager_new_def levels_ok_def all_tables_def level_ok_def split: if_splits)

lemma created_log_ok:
  assumes "Manifest_open_or_create z ex sz (Inr f0) (Manifest_new p) = (Ok, m)" "wdata f0 = []" "wfd f0" "LevelManager_new n = Some lm"
  shows "\<exists>f. log_ok z lm [] StagedCounters_default f m lm \<and> (write_faultfree f0 \<longrightarrow> write_faultfree f) \<and>
    (wsenv f0 = [] \<longrightarrow> wsenv f = [])"
proof -
  let ?f0 = "f0\<lparr>woff := 0\<rparr>"
  have t: "tracked ?f0" "wdata ?f0 = []" using assms(2,3) by (simp_all add: tracked_def)
  obtain c1 f1 where f1: "ManifestHeader_write (manifest_header z) ?f0 = (c1, f1)" by fastforce
  obtain c2 f2 where f2: "sync f1 = (c2, f2)" by fastforce
  have m: "c1 = Ok" "c2 = Ok" "m_writable m = Some f2" "append_offset m = woff f1" "\<not> write_poisoned m"
    "m_counters m = StagedCounters_default"
    using assms(1) f1 f2
    by (auto simp: Manifest_open_or_create_def Let_def manifest_header_def Manifest_new_def split: option.splits if_splits)
  have "wdata f1 = head_bytes z \<and> tracked f1"
    using emits_okD [OF ManifestHeader_write_emits [OF t]] f1 m(1) t by simp
  moreover have "check_invariants lm StagedCounters_default = Ok"
    using levels_ok_new [OF assms(4)] by (auto simp: check_invariants_spec counters_ok_def StagedCounters_default_def levels_ok_def)
  ultimately have "log_ok z lm [] StagedCounters_default f2 m lm"
    using m syncD [OF f2] levels_ok_new [OF assms(4)] by (simp add: log_ok_def tracked_def lags_def)
  moreover have "(write_faultfree f0 \<longrightarrow> write_faultfree f2) \<and> (wsenv f0 = [] \<longrightarrow> wsenv f2 = [])"
    using ManifestHeader_write_emits [OF t, of z] f1 syncD(4,7) [OF f2] by (auto simp: emits_def write_faultfree_def)
  ultimately show ?thesis by blast
qed

lemma session_log_ok:
  assumes "Manifest_open_or_create z ex sz (Inr f0) (Manifest_new p) = (Ok, m0)" "wdata f0 = []" "wfd f0" "LevelManager_new n = Some lm0"
    "fold (manifest_step z) sts (m0, lm0) = (m, lm)" "\<forall>st\<in>set sts. step_fits st" "\<not> write_poisoned m" "m_writable m = Some f"
  obtains ps sc where "log_ok z lm0 ps sc f m lm"
proof -
  have "\<exists>ps sc f. log_ok z lm0 ps sc f m0 lm0" using created_log_ok [OF assms(1-4)] by blast
  then obtain ps sc f' where l: "log_ok z lm0 ps sc f' m lm" using manifest_steps_ok [OF assms(5,6)] assms(7) by blast
  then have "f' = f" using assms(8) by (simp add: log_ok_def)
  then show ?thesis using l that by blast
qed

section \<open>Loading\<close>

text \<open>Loading a file that starts with the header and the committed edits is replaying what follows.\<close>

lemma manifest_load_prefix:
  assumes "log_ok z lm0 ps sc f m lm" "LevelManager_new n = Some lm0" "n \<le> u32_max" "length (lm_levels lmx) = n"
    "D = wdata f @ rest" "read_quiet D g" "arena_ok ar" "never_oom ar"
  obtains h br where "read_quiet D h" "arena_ok br" "never_oom br" "roff h = length (wdata f)"
    "Manifest_load z path (Inr g) lmx ar =
      (case replay z (length D) lm sc (h, br) of
         None \<Rightarrow> None
       | Some (Inl e, ar2) \<Rightarrow> Some (Inl e, lmx, ar2)
       | Some (Inr (lm', sc', off, tail, f'), ar2) \<Rightarrow>
           let c = check_invariants lm' sc' in
           if \<not> is_ok c then Some (Inl c, lmx, ar2)
           else Some (Inr ((Manifest_new path)\<lparr>m_header := manifest_header z, m_counters := sc', m_readable := Some f',
                  append_offset := off, recoverable_tail := tail\<rparr>), lm', ar2))"
proof -
  let ?es = "map (prepared z) ps" and ?g = "g\<lparr>roff := 0\<rparr>"
  have D: "D = head_bytes z @ edits_bytes ManifestHeader_disk_size ?es @ rest" using assms(1,5) by (simp add: log_ok_def)
  have at: "bytes_at D (roff ?g) (lay Bm (roff ?g) (mheader_fields (manifest_header z)))"
    using seamless_lay [OF mheader_seamless, of "manifest_header z"] D by (auto simp: bytes_at_def head_bytes_def)
  have len: "length (lay Bm (roff ?g) (mheader_fields (manifest_header z))) = ManifestHeader_disk_size"
    using seamless_lay [OF mheader_seamless, of "manifest_header z"] head_bytes_length [of z] by (simp add: head_bytes_def)
  have q: "read_quiet D ?g" using assms(6) by simp
  obtain g1 ar1 where g1: "ManifestHeader_load z (?g, ar) = Some (Inr (manifest_header z), g1, ar1)" "read_quiet D g1"
    "extends ar ar1" "never_oom ar1" "roff g1 = ManifestHeader_disk_size"
    using loadsD [OF ManifestHeader_load_loads [of None z] q assms(7,8) at] len by (auto simp: fits_def)
  have at1: "bytes_at D (roff g1) (edits_bytes (roff g1) ?es)"
    unfolding D g1(5) bytes_at_def using head_bytes_length by blast
  have ps: "\<forall>p\<in>set ps. payload_writable p" "all_unpadded (roff g1) ?es" "stages z ps (lm0, StagedCounters_default) = (Ok, lm, sc)"
    using assms(1) g1(5) by (simp_all add: log_ok_def)
  have "arena_ok ar1" using g1(3) by (simp add: extends_def)
  obtain h br where h: "replay z (length D) lm0 StagedCounters_default (g1, ar1) = replay z (length D) lm sc (h, br)"
    "read_quiet D h" "arena_ok br" "never_oom br" "roff h = roff g1 + length (edits_bytes (roff g1) ?es)"
    using replay_edits [OF ps(1,2) g1(2) \<open>arena_ok ar1\<close> g1(4) at1 ps(3)] by blast
  have "roff h = length (wdata f)" using h(5) g1(5) assms(1) by (simp add: log_ok_def)
  moreover have "get_file_size g = Inr (length D)" "\<not> length D < ManifestHeader_disk_size"
    using assms(6) D by (simp_all add: get_file_size_def read_quiet_def)
  moreover have "LevelManager_new (unat (level_count lmx)) = Some lm0"
    using assms(2-4) by (simp add: level_count_def)
  ultimately show ?thesis
    using that [OF h(2-4)] g1(1) h(1) by (simp add: Manifest_load_def)
qed

lemma manifest_created:
  assumes "wdata f0 = []" "wfd f0" "write_faultfree f0" "sync_faultfree f0" "p \<noteq> []"
  shows "\<exists>m. Manifest_open_or_create z (Some False) sz (Inr f0) (Manifest_new p) = (Ok, m) \<and> m_path m = p \<and> m_counters m = StagedCounters_default"
proof -
  let ?f0 = "f0\<lparr>woff := 0\<rparr>"
  have t: "tracked ?f0" "wdata ?f0 = []" "write_faultfree ?f0" using assms by (simp_all add: tracked_def write_faultfree_def)
  obtain f1 where f1: "ManifestHeader_write (manifest_header z) ?f0 = (Ok, f1)" "wsenv f1 = wsenv ?f0" "tracked f1"
    using emits_faultfreeD [OF ManifestHeader_write_emits [OF t(1,2)] t(1,3)] by blast
  have "fst (sync f1) = Ok" using fsync_loop_faultfree [of f1] f1(2,3) assms(4) by (cases "fsync_loop f1") (simp add: sync_def tracked_def sync_faultfree_def)
  then show ?thesis
    using assms(5) f1(1) by (auto simp: Manifest_open_or_create_def Let_def Manifest_new_def manifest_header_def split: prod.splits)
qed

section \<open>The edit behind the committed ones\<close>

lemma replay_end: "\<not> roff h < n \<Longrightarrow> replay z n lm sc (h, br) = Some (Inr (lm, sc, roff h, False, h), br)"
  by (subst replay.simps) simp


section \<open>Properties\<close>


text \<open>C19 (padded edits lock the database out). On a device without errors, committing a valid edit
  whose payload needs padding at a block boundary fails with \<open>InvariantViolation\<close> and poisons the
  manifest, but the complete record is in the file, and from then on \<open>Manifest::load\<close> fails on that
  file: the record is not treated as a recoverable tail.\<close>

theorem manifest_padded_edit_locks_out:
  assumes "Manifest_open_or_create z ex sz (Inr f0) (Manifest_new path) = (Ok, m0)" "wdata f0 = []" "wfd f0"
    "LevelManager_new n = Some lm0" "n \<le> u32_max"
    "fold (manifest_step z) sts (m0, lm0) = (m, lm)" "\<forall>st\<in>set sts. step_fits st" "\<not> write_poisoned m" "m_writable m = Some f"
    "write_faultfree f" "Manifest_commit z False e (m, lm) = (c, e', m', lm')" "fits_blocks e"
    "fst (stage_apply e (lm, m_counters m)) = Ok" "EditPayload_encoded_size (edit_payload e) = Inr bytes"
    "\<not> seamless Bm (header_end (append_offset m) (prepared z (edit_payload e))) (payload_fields (edit_payload e))"
    "m_writable m' = Some f'" "read_quiet (wdata f') g" "arena_ok ar" "never_oom ar" "length (lm_levels lmx) = n"
  shows "c = InvariantViolation \<and> lm' = lm \<and> write_poisoned m' \<and>
    (\<exists>err ar'. Manifest_load z path (Inr g) lmx ar = Some (Inl err, lmx, ar'))"
proof -
  obtain ps sc where log: "log_ok z lm0 ps sc f m lm" using session_log_ok [OF assms(1-4,6-9)] .
  let ?p = "edit_payload e" and ?off = "append_offset m"
  let ?B = "edit_bytes ?off (prepared z ?p)"
  have pad: "\<not> unpadded ?off (prepared z ?p)" using unpadded_payload assms(15) by blast
  have off: "?off = length (wdata f)" using log by (simp add: log_ok_def)
  obtain w: "payload_writable ?p" "wdata f' = wdata f @ ?B" "c = InvariantViolation" "lm' = lm" "write_poisoned m'"
    using log assms(11,12)
  proof (cases rule: commit_cases)
    case (Committed sc' f'' scl)
    then show ?thesis using pad by simp
  next
    case Rejected
    then show ?thesis using assms(13,14) by simp
  next
    case (Poisoned k f'' staged scl)
    then show ?thesis using that assms(10,16) pad by simp
  qed
  obtain h br where h: "read_quiet (wdata f') h" "arena_ok br" "never_oom br" "roff h = length (wdata f)"
    "Manifest_load z path (Inr g) lmx ar =
      (case replay z (length (wdata f')) lm sc (h, br) of
         None \<Rightarrow> None
       | Some (Inl e, ar2) \<Rightarrow> Some (Inl e, lmx, ar2)
       | Some (Inr (lm', sc', off, tail, f'), ar2) \<Rightarrow>
           let c = check_invariants lm' sc' in
           if \<not> is_ok c then Some (Inl c, lmx, ar2)
           else Some (Inr ((Manifest_new path)\<lparr>m_header := manifest_header z, m_counters := sc', m_readable := Some f',
                  append_offset := off, recoverable_tail := tail\<rparr>), lm', ar2))"
    using manifest_load_prefix [OF log assms(4,5,20) w(2) assms(17-19)] by blast
  have at: "bytes_at (wdata f') (roff h) (edit_bytes (roff h) (prepared z ?p))"
    unfolding w(2) h(4) off bytes_at_def by (intro exI [of _ "wdata f"] exI [of _ "[]"]) simp
  obtain err g' ar' where "VersionEdit_load z (length (wdata f')) (h, br) = Some (Inl err, g', ar')" "err \<noteq> UnexpectedEOF"
    using VersionEdit_load_at [OF w(1) h(1-3) at] assms(15) h(4) off by auto
  moreover have "roff h < length (wdata f')" using h(4) w(2) edit_bytes_pos [of ?off "prepared z ?p"] by auto
  ultimately have "replay z (length (wdata f')) lm sc (h, br) = Some (Inl err, ar')" by (subst replay.simps) simp
  then show ?thesis using w h(5) by simp
qed



text \<open>C21 (recovery returns). Whatever the bytes of the file and the behaviour of the device and of
  the heap, loading a manifest returns; a failed load leaves the caller's levels alone; the arena's
  rollbacks never raise.\<close>

lemma replay_returns:
  "arena_ok ar \<Longrightarrow> \<exists>r ar'. replay z n lm sc (f, ar) = Some (r, ar') \<and> extends ar ar'"
proof (induction "n - roff f" arbitrary: lm sc f ar rule: less_induct)
  case less
  obtain r f' ar' where v: "VersionEdit_load z n (f, ar) = Some (r, f', ar')" "extends ar ar'"
    using calmD [OF VersionEdit_load_returns(2) less.prems] by blast
  show ?case
  proof (cases "roff f < n")
    case False
    then show ?thesis using less.prems by (simp add: replay_end extends_refl)
  next
    case True
    show ?thesis
    proof (cases r)
      case (Inl e)
      then show ?thesis using True v by (subst replay.simps) auto
    next
      case (Inr ed)
      have fw: "roff f + 8 \<le> roff f'" using forwardD [OF VersionEdit_load_returns(1) v(1)] Inr by simp
      obtain c lm1 sc1 where s: "stage_apply ed (lm, sc) = (c, lm1, sc1)" by (metis prod_cases3)
      have "arena_ok ar'" using v(2) by (simp add: extends_def)
      moreover have "n - roff f' < n - roff f" using fw True by simp
      ultimately obtain r2 ar2 where "replay z n lm1 sc1 (f', ar') = Some (r2, ar2)" "extends ar' ar2"
        using less.hyps by blast
      then show ?thesis using True v Inr s extends_trans [OF v(2)] by (subst replay.simps) auto
    qed
  qed
qed

theorem manifest_load_returns:
  assumes "arena_ok ar" "0 < length (lm_levels lm)" "length (lm_levels lm) \<le> u32_max"
  shows "\<exists>r lm' ar'. Manifest_load z path opened lm ar = Some (r, lm', ar') \<and> extends ar ar' \<and>
    (\<forall>e. r = Inl e \<longrightarrow> lm' = lm)"
proof -
  have lv: "LevelManager_new (unat (level_count lm)) = Some \<lparr>lm_levels = replicate (length (lm_levels lm)) []\<rparr>"
    using assms(2,3) by (simp add: level_count_def LevelManager_new_def)
  have calm_h: "calm (ManifestHeader_load z)"
    unfolding ManifestHeader_load_def Let_def by (intro calm_intros calm_fields)
  show ?thesis
  proof (cases opened)
    case (Inl e)
    then show ?thesis using assms(1) by (simp add: Manifest_load_def extends_refl)
  next
    case (Inr f0)
    obtain r g br where g: "ManifestHeader_load z (f0\<lparr>roff := 0\<rparr>, ar) = Some (r, g, br)" "extends ar br"
      using calmD [OF calm_h assms(1)] by blast
    have br: "arena_ok br" using g(2) by (simp add: extends_def)
    obtain r2 ar2 where r2: "replay z (length (rdata f0)) \<lparr>lm_levels = replicate (length (lm_levels lm)) []\<rparr> StagedCounters_default (g, br) =
        Some (r2, ar2)" "extends br ar2" using replay_returns [OF br] by blast
    show ?thesis
      using Inr g r2 lv extends_trans [OF g(2) r2(2)] assms(1)
      by (cases r; cases r2) (auto simp: Manifest_load_def get_file_size_def extends_refl Let_def split: prod.splits)
  qed
qed

text \<open>C22 (an edit is applied as a whole). Applying an edit to well-formed levels removes exactly its
  deleted tables and adds exactly its new ones, keeps the level invariants, establishes the checked
  invariants, and moves no counter backwards.\<close>

theorem stage_apply_correct:
  assumes "levels_ok lm" "stage_apply e (lm, sc) = (Ok, lm', sc')"
  shows "levels_ok lm' \<and> counters_le sc sc' \<and> counters_ok sc' \<and>
    set (all_tables lm') = {t \<in> set (all_tables lm). table_id t \<notin> dt_table_id ` set (deleted_tables (edit_payload e))} \<union>
      set (new_tables (edit_payload e)) \<and>
    (\<forall>t\<in>set (all_tables lm'). table_id t < sc_next_table_id sc')"
  using stage_apply_effect [OF assms] by (simp add: check_invariants_spec)

text \<open>C23 (the invariant check). \<open>check_invariants\<close>, which compares neighbours only, accepts exactly the
  managers whose counters are positive, whose levels are ordered (newest first on level 0, disjoint
  ascending ranges above) and whose table ids are all below the next table id.\<close>

theorem check_invariants_iff:
  "check_invariants lm sc = Ok \<longleftrightarrow> counters_ok sc \<and>
    (\<forall>lv < length (lm_levels lm). level_ok lv (lm_levels lm ! lv)) \<and>
    (\<forall>t\<in>set (all_tables lm). table_id t < sc_next_table_id sc)"
  by (rule check_invariants_spec)

section \<open>Examples\<close>

definition ex_crc :: zlib where
  "ex_crc = \<lparr>crc_init = 0, crc_update = (\<lambda>c bs. c + of_nat (length bs))\<rparr>"

definition ex_mfile :: wfile where
  "ex_mfile = \<lparr>wdata = [], wfd = True, wenv = [], wsenv = [], wclose_ok = True, wsynced = 0, woff = 0\<rparr>"

definition ex_meta :: "nat \<Rightarrow> TableMeta" where
  "ex_meta n = \<lparr>table_id = 1, tm_level = 0, tm_path = replicate n 65, min_seq = 1, max_seq = 9, file_size = 100,
     record_count = 3, tombstone_count = 0, data_block_count = 1, data_bytes = 60,
     smallest_key = [1, 2], largest_key = [3, 4]\<rparr>"

definition ex_edit :: "nat \<Rightarrow> VersionEdit" where
  "ex_edit n = \<lparr>edit_header = \<lparr>edit_crc32 = 0, edit_payload_size = 0\<rparr>,
     edit_payload = \<lparr>edit_next_table_id = None, edit_next_sequence_number = Some 10, edit_current_wal_id = None,
       deleted_tables = [], new_tables = [ex_meta n]\<rparr>\<rparr>"

definition ex_levels :: LevelManager where
  "ex_levels = \<lparr>lm_levels = [[], []]\<rparr>"

definition ex_levels' :: "nat \<Rightarrow> LevelManager" where
  "ex_levels' n = \<lparr>lm_levels = [[ex_meta n], []]\<rparr>"

lemma ex_stage: "stage_apply (ex_edit n) (ex_levels, StagedCounters_default) =
    (Ok, ex_levels' n, \<lparr>sc_next_table_id = 2, sc_current_wal_id = 1, sc_next_sequence_number = 10\<rparr>)"
  by (simp add: stage_apply_def ex_edit_def EditPayload_validate_def checked_u32_count_def MANIFEST_MAX_TABLES_PER_EDIT_def
    stage_add_def add_table_def ex_levels_def ex_levels'_def ex_meta_def id_in_def add_to_level_def lower_bound_def
    lower_bound_loop.simps insert_at_def stage_next_table_id_def StagedCounters_default_def stage_sequence_number_def
    stage_wal_id_def check_invariants_def check_table_def Let_def) (simp add: word_le_nat_alt)

lemma ex_encoded:
  assumes "n \<le> 4096"
  shows "EditPayload_encoded_size (edit_payload (ex_edit n)) = Inr (of_nat (20 + 80 + n + 4))"
proof -
  have u: "unat (of_nat n :: u32) = n" using assms by simp
  have "TableMeta_validate (ex_meta n) = Ok"
    using assms u by (simp add: TableMeta_validate_def ex_meta_def checked_u32_size_def validate_variable_payload_size_def
      variable_payload_size_def entry_size_def MAX_TABLE_META_VARIABLE_BYTES_def MANIFEST_BLOCK_SIZE_def Let_def)
  then have w: "meta_writable (ex_meta n)" using assms by (simp add: meta_writable_def ex_meta_def MANIFEST_BLOCK_SIZE_def)
  have "length (concat (meta_fields (ex_meta n))) = 80 + n + 4"
    by (simp add: meta_fields_length TABLE_META_FIXED_DISK_BYTES_def ex_meta_def)
  moreover have "unat (of_nat (80 + n + 4) :: u32) = 80 + n + 4" using assms by (intro unat_of_length_u32) simp
  ultimately have "TableMeta_disk_size (ex_meta n) = Inr (of_nat (80 + n + 4))" "unat (of_nat (80 + n + 4) :: u32) = 80 + n + 4"
    using TableMeta_disk_size_eq(1) [OF w] by simp_all
  then show ?thesis using assms
    by (simp add: EditPayload_encoded_size_def ex_edit_def EditPayload_validate_def checked_u32_count_def
      MANIFEST_MAX_TABLES_PER_EDIT_def MIN_PAYLOAD_SIZE_def checked_add_u64_def MANIFEST_MAX_EDIT_SIZE_def Let_def ex_meta_def)
qed

lemma ex_fits: "n \<le> 4096 \<Longrightarrow> fits_blocks (ex_edit n)"
  by (simp add: fits_blocks_def ex_edit_def ex_meta_def MANIFEST_BLOCK_SIZE_def)

lemma ex_new: "LevelManager_new 2 = Some ex_levels"
  by (simp add: LevelManager_new_def ex_levels_def numeral_2_eq_2)

text \<open>The fields of the example edit: its first key starts at offset \<open>132 + n\<close> of a new manifest.\<close>

lemma ex_fields:
  obtains bs where "payload_fields (edit_payload (ex_edit n)) = bs @ [[1, 2], [3, 4]]"
    "seamless Bm 32 bs \<longleftrightarrow> n \<le> 3964" "length (concat bs) = 100 + n"
proof
  let ?m = "ex_meta n" and ?p = "edit_payload (ex_edit n)"
  let ?bs = "[enc_u32 (payload_flags ?p), enc_u64 10, enc_u32 0, enc_u32 1, enc_u64 (table_id ?m), enc_u32 (tm_level ?m),
    enc_u64 (min_seq ?m), enc_u64 (max_seq ?m), enc_u64 (file_size ?m), enc_u64 (record_count ?m), enc_u64 (tombstone_count ?m),
    enc_u64 (data_block_count ?m), enc_u64 (data_bytes ?m), enc_u32 (of_nat n), enc_u32 2, enc_u32 2, replicate n 65]"
  show "payload_fields ?p = ?bs @ [[1, 2], [3, 4]]"
    by (simp add: payload_fields_def ex_edit_def opt_field_def meta_fields_def ex_meta_def entry_size_def)
  show "seamless Bm 32 ?bs \<longleftrightarrow> n \<le> 3964" by (auto simp: pad_before_def MANIFEST_BLOCK_SIZE_def)
  show "length (concat ?bs) = 100 + n" by simp
qed

definition ex_marena :: arena where
  "ex_marena = \<lparr>page_size = 64, large_threshold = 32, pages = [], large = [], destructors = [], destroyed = [], oom = []\<rparr>"

lemma ex_marena_ok: "arena_ok ex_marena" "never_oom ex_marena"
  by (simp_all add: ex_marena_def arena_ok_def never_oom_def max_page_size_def)

definition ex_mreader :: "byte list \<Rightarrow> rfile" where
  "ex_mreader D = \<lparr>rdata = D, rfd = True, renv = [GotUpTo 3, ReadIntr], rclose_ok = True, roff = 0\<rparr>"

text \<open>A fresh manifest on a device without errors, and one commit on it.\<close>

lemma ex_session:
  obtains m0 f c e' m' lm' where
    "Manifest_open_or_create ex_crc (Some False) None (Inr ex_mfile) (Manifest_new ''M'') = (Ok, m0)"
    "log_ok ex_crc ex_levels [] StagedCounters_default f m0 ex_levels" "write_faultfree f" "wsenv f = []" "append_offset m0 = 24"
    "m_counters m0 = StagedCounters_default" "Manifest_commit ex_crc False (ex_edit n) (m0, ex_levels) = (c, e', m', lm')"
proof -
  have f0: "wdata ex_mfile = []" "wfd ex_mfile" "write_faultfree ex_mfile" "sync_faultfree ex_mfile"
    by (simp_all add: ex_mfile_def write_faultfree_def sync_faultfree_def)
  obtain m0 where m0: "Manifest_open_or_create ex_crc (Some False) None (Inr ex_mfile) (Manifest_new ''M'') = (Ok, m0)"
    using manifest_created [OF f0, of "''M''"] by auto
  obtain f where f: "log_ok ex_crc ex_levels [] StagedCounters_default f m0 ex_levels" "write_faultfree f" "wsenv f = []"
    using created_log_ok [OF m0 f0(1,2) ex_new] f0(3) by (auto simp: ex_mfile_def)
  have "append_offset m0 = 24" using log_offset [OF f(1)] by (simp add: ManifestHeader_disk_size_def)
  moreover have "m_counters m0 = StagedCounters_default"
    using m0 by (auto simp: Manifest_open_or_create_def Let_def Manifest_new_def split: prod.splits if_splits)
  moreover obtain c e' m' lm' where "Manifest_commit ex_crc False (ex_edit n) (m0, ex_levels) = (c, e', m', lm')"
    by (metis prod_cases4)
  ultimately show ?thesis using that m0 f by blast
qed

lemma ex_header_end: "header_end 24 (prepared ex_crc p) = 32"
  by (simp add: header_end_def header_fields_def pad_before_def MANIFEST_BLOCK_SIZE_def)




theorem manifest_padded_edit_locks_out_witness:
  "\<exists>m0 e' m' f' err ar'. Manifest_open_or_create ex_crc (Some False) None (Inr ex_mfile) (Manifest_new ''M'') = (Ok, m0) \<and>
    Manifest_commit ex_crc False (ex_edit 3963) (m0, ex_levels) = (InvariantViolation, e', m', ex_levels) \<and>
    m_writable m' = Some f' \<and>
    Manifest_load ex_crc ''M'' (Inr (ex_mreader (wdata f'))) ex_levels ex_marena = Some (Inl err, ex_levels, ar')"
proof -
  let ?e = "ex_edit 3963"
  obtain m0 f c e' m' lm' where s:
    "Manifest_open_or_create ex_crc (Some False) None (Inr ex_mfile) (Manifest_new ''M'') = (Ok, m0)"
    "log_ok ex_crc ex_levels [] StagedCounters_default f m0 ex_levels" "write_faultfree f" "wsenv f = []" "append_offset m0 = 24"
    "m_counters m0 = StagedCounters_default" "Manifest_commit ex_crc False ?e (m0, ex_levels) = (c, e', m', lm')"
    using ex_session [of 3963] .
  have fb: "fits_blocks ?e" using ex_fits by simp
  obtain bs where bs: "payload_fields (edit_payload ?e) = bs @ [[1, 2], [3, 4]]" "seamless Bm 32 bs \<longleftrightarrow> (3963 :: nat) \<le> 3964"
    "length (concat bs) = 100 + 3963" using ex_fields [of 3963] .
  have pad: "\<not> seamless Bm (header_end (append_offset m0) (prepared ex_crc (edit_payload ?e))) (payload_fields (edit_payload ?e))"
    unfolding s(5) ex_header_end bs(1) seamless_append using bs(3) by (simp add: pad_before_def MANIFEST_BLOCK_SIZE_def)
  then have npad: "\<not> unpadded (append_offset m0) (prepared ex_crc (edit_payload ?e))" using unpadded_payload by blast
  have st: "fst (stage_apply ?e (ex_levels, m_counters m0)) = Ok" using ex_stage [of 3963] s(6) by simp
  from s(2,7) fb obtain f' where c: "m_writable m' = Some f'"
    "wdata f' = wdata f @ edit_bytes 24 (prepared ex_crc (edit_payload ?e))"
  proof (cases rule: commit_cases)
    case (Committed sc' f' scl)
    then show ?thesis using npad by simp
  next
    case Rejected
    then show ?thesis using st ex_encoded [of 3963] by simp
  next
    case (Poisoned k f' staged scl)
    then show ?thesis using that s(3,5) npad by simp
  qed
  have wf: "m_writable m0 = Some f" "\<not> write_poisoned m0" "length (wdata f) = 24"
    using s(2) by (simp_all add: log_ok_def ManifestHeader_disk_size_def)
  have "length (lay Bm 24 (edit_fields (prepared ex_crc (edit_payload ?e)))) \<le> ssize_max - 24"
    unfolding edit_fields_def lay_append bs(1) prepared_simps
    using seamless_lay [of Bm 32 bs] bs(2,3) by (simp add: header_fields_def pad_before_def MANIFEST_BLOCK_SIZE_def)
  then have q: "read_quiet (wdata f') (ex_mreader (wdata f'))"
    using c(2) wf(3) by (simp add: read_quiet_def ex_mreader_def edit_bytes_def)
  have "wdata ex_mfile = []" "wfd ex_mfile" "(2 :: nat) \<le> u32_max" "length (lm_levels ex_levels) = 2"
    by (simp_all add: ex_mfile_def ex_levels_def)
  with manifest_padded_edit_locks_out [OF s(1) _ _ ex_new, of "[]" m0 ex_levels f ?e c e' m' lm' "of_nat (20 + 80 + 3963 + 4)" f'
      "ex_mreader (wdata f')" ex_marena ex_levels] s(3,7) fb c(1) wf q ex_marena_ok pad st ex_encoded [of 3963]
  have "c = InvariantViolation \<and> lm' = ex_levels \<and>
      (\<exists>err ar'. Manifest_load ex_crc ''M'' (Inr (ex_mreader (wdata f'))) ex_levels ex_marena = Some (Inl err, ex_levels, ar'))" by simp
  then show ?thesis using s(1,7) c(1) by blast
qed


theorem manifest_load_returns_witness:
  "\<exists>r lm' ar'. Manifest_load ex_crc ''M'' (Inr (ex_mreader [1, 2, 3])) ex_levels ex_marena = Some (r, lm', ar') \<and> extends ex_marena ar'"
  using manifest_load_returns [OF ex_marena_ok(1), of ex_levels ex_crc "''M''" "Inr (ex_mreader [1, 2, 3])"]
  by (auto simp: ex_levels_def)

theorem stage_apply_correct_witness:
  "levels_ok (ex_levels' 7) \<and> set (all_tables (ex_levels' 7)) = {ex_meta 7}"
proof -
  have "levels_ok ex_levels" using levels_ok_new [OF ex_new] by simp
  from stage_apply_correct [OF this ex_stage [of 7]] show ?thesis by (simp add: ex_edit_def ex_levels_def all_tables_def)
qed

theorem check_invariants_iff_witness:
  "check_invariants (ex_levels' 7) StagedCounters_default \<noteq> Ok"
  using check_invariants_iff [of "ex_levels' 7" StagedCounters_default]
  by (simp add: ex_levels'_def all_tables_def ex_meta_def StagedCounters_default_def)

end
