(* ===== verification/WALRecovery.thy ===== *)
theory WALRecovery
  imports WALLoader
begin

text \<open>
  Recovery of a prefix of a log. The loader is run on any prefix of the layout of a list of records,
  which covers a clean shutdown, a torn tail and a last write that failed half way: exactly the
  records that lie completely in the prefix come back, in order, the offset stands behind the last
  of them, and nothing is reported as corruption. Sessions that go on after a failed write are in
  theory WALSession.
\<close>

section \<open>Reading a fragment back\<close>

text \<open>\<open>parses m bs v\<close>: wherever \<open>bs\<close> stands in a file, inside one block, the reader \<open>m\<close> started
  there returns \<open>v\<close> and stops behind it.\<close>

definition parses :: "(rfile, 'a) reader \<Rightarrow> byte list \<Rightarrow> 'a \<Rightarrow> bool" where
  "parses m bs v \<longleftrightarrow> (\<forall>D f. read_quiet D f \<longrightarrow> bytes_at D (roff f) bs \<longrightarrow>
     roff f mod WAL_FILE_BLOCK_SIZE + length bs \<le> WAL_FILE_BLOCK_SIZE \<longrightarrow>
     yields m (Inr v) (roff f + length bs) f)"

lemma parsesD:
  "parses m bs v \<Longrightarrow> read_quiet D f \<Longrightarrow> bytes_at D (roff f) bs \<Longrightarrow>
    roff f mod WAL_FILE_BLOCK_SIZE + length bs \<le> WAL_FILE_BLOCK_SIZE \<Longrightarrow>
    yields m (Inr v) (roff f + length bs) f"
  unfolding parses_def by blast

lemma quiet_room: "read_quiet D f \<Longrightarrow> roff f \<le> length D \<Longrightarrow> roff f + WAL_FILE_BLOCK_SIZE \<le> u64_max"
  by (simp add: read_quiet_def WAL_FILE_BLOCK_SIZE_def)

lemma parses_return: "parses (return_r v) [] v"
  by (simp add: parses_def yields_def return_r_def quiet_data)

lemma parses_bind:
  assumes "parses m a v" "parses (k v) b w"
  shows "parses (bind_r m k) (a @ b) w"
  unfolding parses_def
proof (intro allI impI)
  fix D f
  assume q: "read_quiet D f" and at: "bytes_at D (roff f) (a @ b)"
    and room: "roff f mod WAL_FILE_BLOCK_SIZE + length (a @ b) \<le> WAL_FILE_BLOCK_SIZE"
  show "yields (bind_r m k) (Inr w) (roff f + length (a @ b)) f"
  proof (rule yields_bind)
    show "yields m (Inr v) (roff f + length a) f"
      using parsesD [OF assms(1) q] at room by (simp add: bytes_at_append)
    fix g assume g: "read_quiet (rdata f) g" "roff g = roff f + length a"
    have "roff g mod WAL_FILE_BLOCK_SIZE + length b \<le> WAL_FILE_BLOCK_SIZE"
      using g(2) room block_room [of "roff f" WAL_FILE_BLOCK_SIZE "length (a @ b)" "length a" "length b"]
        mod_less_divisor [OF B_pos, of "roff g"] by (cases "b = []") simp_all
    with parsesD [OF assms(2), of D g] g at q show "yields (k v) (Inr w) (roff f + length (a @ b)) g"
      by (simp add: bytes_at_append quiet_data add.assoc)
  qed
qed

context block_codec
begin

lemma rd_parses: "parses (rd WAL_FILE_BLOCK_SIZE) (enc v) v"
  unfolding parses_def
proof (intro allI impI)
  fix D f
  assume q: "read_quiet D f" and at: "bytes_at D (roff f) (enc v)"
    and room: "roff f mod WAL_FILE_BLOCK_SIZE + length (enc v) \<le> WAL_FILE_BLOCK_SIZE"
  obtain p s where "D = p @ enc v @ s" "roff f = length p" using at by (auto simp: bytes_at_def)
  then show "yields (rd WAL_FILE_BLOCK_SIZE) (Inr v) (roff f + length (enc v)) f"
    using rd_fits [OF q B_pos, of p v s] room enc_len [of v] quiet_room [OF q] by simp
qed

end

lemmas field_parses = u8_field.rd_parses u32_field.rd_parses u64_field.rd_parses

lemma fragment_type_roundtrip: "is_valid_fragment_type t \<Longrightarrow> fragment_type_of_u8 (fragment_type_to_u8 t) = t"
  by (cases t) (simp_all add: is_valid_fragment_type_def fragment_type_of_u8_def fragment_type_to_u8_def)

definition good_header :: "FragmentHeader \<Rightarrow> bool" where
  "good_header h \<longleftrightarrow> frag_header_size h = of_nat FragmentHeader_disk_size \<and>
     is_valid_fragment_type (fragment_type h) \<and> is_valid_record_type (frag_type h)"

lemma record_type_roundtrip: "is_valid_record_type t \<Longrightarrow> type_of_u8 (type_to_u8 t) = t"
  by (rule type_u8_roundtrip) (auto simp: is_valid_record_type_def)

lemma FragmentHeader_read_fields_parses:
  assumes "good_header h"
  shows "parses FragmentHeader_read_fields (frag_header_bytes h) h"
proof -
  have "parses FragmentHeader_read_fields (enc_u32 (fragment_crc32 h) @ enc_u32 (frag_header_size h) @
     enc_u8 (fragment_type_to_u8 (fragment_type h)) @ enc_u8 (type_to_u8 (frag_type h)) @
     enc_u64 (frag_seq_num h) @ enc_u32 (fragment_size h) @ [])
     \<lparr>fragment_crc32 = fragment_crc32 h, frag_header_size = frag_header_size h,
      fragment_type = fragment_type_of_u8 (fragment_type_to_u8 (fragment_type h)),
      frag_type = type_of_u8 (type_to_u8 (frag_type h)), frag_seq_num = frag_seq_num h,
      fragment_size = fragment_size h\<rparr>"
    unfolding FragmentHeader_read_fields_def
    by (rule parses_bind field_parses parses_return)+
  with assms show ?thesis
    by (cases h) (simp add: frag_header_bytes_def fragment_type_roundtrip record_type_roundtrip good_header_def)
qed

lemma WALFileHeader_read_fields_parses: "parses WALFileHeader_read_fields (header_bytes h) h"
proof -
  have "parses WALFileHeader_read_fields (enc_u32 (magic h) @ enc_u32 (version h) @
     enc_u32 (header_size h) @ enc_u64 (wal_id h) @ enc_u64 (start_seq h) @ enc_u32 (block_size h) @
     enc_u32 (reserved h) @ enc_u32 (header_crc32 h) @ [])
     \<lparr>magic = magic h, version = version h, header_size = header_size h, wal_id = wal_id h,
      start_seq = start_seq h, block_size = block_size h, reserved = reserved h,
      header_crc32 = header_crc32 h\<rparr>"
    unfolding WALFileHeader_read_fields_def
    by (rule parses_bind field_parses parses_return)+
  then show ?thesis by (cases h) (simp add: header_bytes_def)
qed

lemma ensure_fits_r_stay:
  "0 < B \<Longrightarrow> roff f mod B + n \<le> B \<Longrightarrow> ensure_fits_in_block_r n B f = (Ok, f)"
  by (auto simp: ensure_fits_in_block_r_def fits_in_block_def)

lemma good_header_check: "good_header h \<Longrightarrow> FragmentHeader_check h = Ok"
  by (simp add: good_header_def FragmentHeader_check_def)

lemma yields_restoring: "yields m (Inr v) o1 f \<Longrightarrow> yields (\<lambda>f. restoring i (m f)) (Inr v) o1 f"
  by (auto simp: yields_def restoring_def)

lemma FragmentHeader_load_parses:
  assumes "good_header h"
  shows "parses FragmentHeader_load (frag_header_bytes h) h"
  unfolding parses_def
proof (intro allI impI)
  fix D f
  assume q: "read_quiet D f" and at: "bytes_at D (roff f) (frag_header_bytes h)"
    and room: "roff f mod WAL_FILE_BLOCK_SIZE + length (frag_header_bytes h) \<le> WAL_FILE_BLOCK_SIZE"
  obtain g where g: "FragmentHeader_read_fields f = (Inr h, g)" "read_quiet D g"
    "roff g = roff f + length (frag_header_bytes h)"
    using parsesD [OF FragmentHeader_read_fields_parses [OF assms] q at room] quiet_data [OF q]
    by (auto simp: yields_def)
  have "ensure_fits_in_block_r FragmentHeader_disk_size WAL_FILE_BLOCK_SIZE f = (Ok, f)"
    using room by (intro ensure_fits_r_stay) simp_all
  with g good_header_check [OF assms] have "FragmentHeader_load f = (Inr h, g)"
    by (simp add: FragmentHeader_load_def restoring_def)
  with g quiet_data [OF q] show "yields FragmentHeader_load (Inr h) (roff f + length (frag_header_bytes h)) f"
    by (simp add: yields_def)
qed

lemma FragmentPayload_load_parses: "parses (FragmentPayload_load (length bs)) bs bs"
  unfolding parses_def
proof (intro allI impI)
  fix D f
  assume q: "read_quiet D f" and at: "bytes_at D (roff f) bs"
    and room: "roff f mod WAL_FILE_BLOCK_SIZE + length bs \<le> WAL_FILE_BLOCK_SIZE"
  have fit: "fits_in_block (roff f) (length bs) WAL_FILE_BLOCK_SIZE = Ok"
    using room by (auto simp: fits_in_block_def)
  show "yields (FragmentPayload_load (length bs)) (Inr bs) (roff f + length bs) f"
  proof (cases "bs = []")
    case True
    then show ?thesis using q fit by (simp add: yields_def FragmentPayload_load_def quiet_data)
  next
    case False
    have "yields (read_fixed (length bs) WAL_FILE_BLOCK_SIZE) (Inr bs) (roff f + length bs) f"
      using read_fixed_yields [of f WAL_FILE_BLOCK_SIZE "length bs"] q room
        pad_before_ok [OF room] bytes_at_bound [OF at] bytes_at_take [OF at] quiet_room [OF q]
      by (simp add: quiet_data)
    with False fit show ?thesis
      by (simp add: yields_def FragmentPayload_load_def read_bytes_eq_fixed)
  qed
qed

section \<open>Fragments in a truncated file\<close>

definition good_fragment :: "zlib \<Rightarrow> Fragment \<Rightarrow> bool" where
  "good_fragment z fr \<longleftrightarrow> good_header (frag_header fr) \<and>
     unat (fragment_size (frag_header fr)) = length (payload fr) \<and> Fragment_check_crc z fr = Ok"

text \<open>The body of \<open>Fragment_load\<close> behind the padding.\<close>

definition fragment_body :: "zlib \<Rightarrow> nat \<Rightarrow> FragmentHeader \<Rightarrow> (rfile, Fragment option) reader" where
  "fragment_body z file_size h f2 = (let fs = unat (fragment_size h) in
     if fs > WAL_FILE_BLOCK_SIZE - roff f2 mod WAL_FILE_BLOCK_SIZE then (Inl InvalidPayloadSize, f2)
     else if fs > WAL_FILE_BLOCK_SIZE - FragmentHeader_disk_size then (Inl InvalidPayloadSize, f2)
     else if file_size - roff f2 < fs then (Inl UnexpectedEOF, f2)
     else bind_r (FragmentPayload_load fs) (\<lambda>bytes f3.
       let fr = \<lparr>frag_header = h, payload = bytes\<rparr>; c = Fragment_check_crc z fr in
       if is_ok c then (Inr (Some fr), f3) else (Inl c, f3)) f2)"

lemma Fragment_load_at:
  assumes "read_quiet D f" "roff f < length D"
  defines "s \<equiv> roff f + length (frag_pad (roff f))"
  shows "Fragment_load z f =
    (if s \<ge> length D then (Inr None, f\<lparr>roff := length D\<rparr>)
     else if length D - s < FragmentHeader_disk_size then (Inl UnexpectedEOF, f)
     else restoring (roff f) (bind_r FragmentHeader_load (fragment_body z (length D)) (f\<lparr>roff := s\<rparr>)))"
proof -
  have "ensure_fits_in_block_r (FragmentHeader_disk_size + 1) WAL_FILE_BLOCK_SIZE f = (Ok, f\<lparr>roff := s\<rparr>)"
    using ensure_fits_r_eq [of WAL_FILE_BLOCK_SIZE "FragmentHeader_disk_size + 1" f] quiet_room [OF assms(1)] assms(2)
    by (simp add: s_def frag_pad_def WAL_FILE_BLOCK_SIZE_def FragmentHeader_disk_size_def)
  moreover have "get_file_size f = Inr (length D)"
    using assms(1) by (simp add: get_file_size_def read_quiet_def)
  ultimately show ?thesis
    using assms(2) by (simp add: Fragment_load_def fragment_body_def [abs_def] Let_def)
qed

text \<open>Nothing but padding is left: the end of the log.\<close>

lemma Fragment_load_end:
  assumes "read_quiet D f" "roff f \<le> length D" "length D \<le> roff f + length (frag_pad (roff f))"
  shows "yields (Fragment_load z) (Inr None) (length D) f"
proof (cases "roff f = length D")
  case True
  with assms(1) show ?thesis
    by (simp add: yields_def Fragment_load_def get_file_size_def read_quiet_def)
next
  case False
  with assms Fragment_load_at [OF assms(1), of z] show ?thesis by (simp add: yields_def quiet_data)
qed

lemma fragment_eta: "\<lparr>frag_header = frag_header fr, payload = payload fr\<rparr> = fr"
  by simp

lemma fragment_body_at:
  assumes q: "read_quiet D g" and fr: "good_fragment z fr" and g: "roff g = s + 22"
    and room: "s mod WAL_FILE_BLOCK_SIZE + (22 + length (payload fr)) \<le> WAL_FILE_BLOCK_SIZE"
    and le: "s + 22 \<le> length D"
  shows "length D < s + 22 + length (payload fr) \<Longrightarrow>
      yields (fragment_body z (length D) (frag_header fr)) (Inl UnexpectedEOF) (s + 22) g"
    and "bytes_at D (s + 22) (payload fr) \<Longrightarrow>
      yields (fragment_body z (length D) (frag_header fr)) (Inr (Some fr)) (s + 22 + length (payload fr)) g"
proof -
  let ?n = "length (payload fr)"
  have room': "roff g mod WAL_FILE_BLOCK_SIZE + ?n \<le> WAL_FILE_BLOCK_SIZE"
    using g block_room [OF room, of 22 ?n] mod_less_divisor [OF B_pos, of "roff g"] by (cases "?n = 0") simp_all
  have n: "unat (fragment_size (frag_header fr)) = ?n" "\<not> ?n > WAL_FILE_BLOCK_SIZE - FragmentHeader_disk_size"
    using fr room by (simp_all add: good_fragment_def FragmentHeader_disk_size_def)
  have n': "\<not> ?n > WAL_FILE_BLOCK_SIZE - roff g mod WAL_FILE_BLOCK_SIZE" using room' by simp
  show "yields (fragment_body z (length D) (frag_header fr)) (Inl UnexpectedEOF) (s + 22) g"
    if "length D < s + 22 + ?n"
  proof -
    have "length D - (s + 22) < ?n" using that le by linarith
    then show ?thesis using n n' g q by (simp add: fragment_body_def Let_def yields_def quiet_data)
  qed
  assume at: "bytes_at D (s + 22) (payload fr)"
  obtain k where k: "FragmentPayload_load ?n g = (Inr (payload fr), k)" "read_quiet D k" "roff k = s + 22 + ?n"
    using parsesD [OF FragmentPayload_load_parses q, of "payload fr"] at room' g quiet_data [OF q]
    by (auto simp: yields_def)
  have "\<not> length D - roff g < ?n" using bytes_at_bound [OF at] g by simp
  then have "fragment_body z (length D) (frag_header fr) g = (Inr (Some fr), k)"
    using n n' k fr by (simp add: fragment_body_def good_fragment_def Let_def fragment_eta)
  with k q show "yields (fragment_body z (length D) (frag_header fr)) (Inr (Some fr)) (s + 22 + ?n) g"
    by (simp add: yields_def quiet_data)
qed

text \<open>A fragment that lies completely in the file is returned, one that is cut off reports
  \<open>UnexpectedEOF\<close> and leaves the offset alone.\<close>

lemma Fragment_load_cases:
  fixes D f z fr
  defines "s \<equiv> roff f + length (frag_pad (roff f))"
  assumes q: "read_quiet D f" and fr: "good_fragment z fr"
    and room: "s mod WAL_FILE_BLOCK_SIZE + (22 + length (payload fr)) \<le> WAL_FILE_BLOCK_SIZE"
  shows "bytes_at D s (frag_bytes fr) \<Longrightarrow>
      yields (Fragment_load z) (Inr (Some fr)) (s + length (frag_bytes fr)) f"
    and "s < length D \<Longrightarrow> length D = s + m \<Longrightarrow> m < length (frag_bytes fr) \<Longrightarrow>
      bytes_at D s (take m (frag_bytes fr)) \<Longrightarrow>
      yields (Fragment_load z) (Inl UnexpectedEOF) (roff f) f"
proof -
  let ?g = "f\<lparr>roff := s\<rparr>"
  have h: "good_header (frag_header fr)" using fr by (simp add: good_fragment_def)
  have len: "length (frag_bytes fr) = 22 + length (payload fr)"
    by (simp add: frag_bytes_def FragmentHeader_disk_size_def)
  have hdr: "\<exists>k. FragmentHeader_load ?g = (Inr (frag_header fr), k) \<and> read_quiet D k \<and> roff k = s + 22"
    if "bytes_at D s (frag_header_bytes (frag_header fr))"
    using parsesD [OF FragmentHeader_load_parses [OF h], of D ?g] that q room
    by (auto simp: yields_def quiet_data FragmentHeader_disk_size_def)
  have sf: "roff f \<le> s" by (simp add: s_def)
  show "yields (Fragment_load z) (Inr (Some fr)) (s + length (frag_bytes fr)) f"
    if at: "bytes_at D s (frag_bytes fr)"
  proof -
    have le: "s + 22 \<le> length D" using bytes_at_bound [OF at] len by simp
    have at': "bytes_at D s (frag_header_bytes (frag_header fr))" "bytes_at D (s + 22) (payload fr)"
      using at by (simp_all add: frag_bytes_def bytes_at_append FragmentHeader_disk_size_def)
    obtain k where k: "FragmentHeader_load ?g = (Inr (frag_header fr), k)" "read_quiet D k" "roff k = s + 22"
      using hdr [OF at'(1)] by blast
    obtain l where "fragment_body z (length D) (frag_header fr) k = (Inr (Some fr), l)" "read_quiet D l"
      "roff l = s + 22 + length (payload fr)"
      using fragment_body_at(2) [OF k(2) fr k(3) room le at'(2)] k(2) by (auto simp: yields_def quiet_data)
    with k le sf len Fragment_load_at [OF q, of z, folded s_def] q show ?thesis
      by (simp add: yields_def restoring_def quiet_data FragmentHeader_disk_size_def)
  qed
  show "yields (Fragment_load z) (Inl UnexpectedEOF) (roff f) f"
    if m: "s < length D" "length D = s + m" "m < length (frag_bytes fr)" "bytes_at D s (take m (frag_bytes fr))"
  proof (cases "m < 22")
    case True
    with m sf Fragment_load_at [OF q, of z, folded s_def] q show ?thesis
      by (simp add: yields_def quiet_data FragmentHeader_disk_size_def)
  next
    case False
    then have "take m (frag_bytes fr) = frag_header_bytes (frag_header fr) @ take (m - 22) (payload fr)"
      by (simp add: frag_bytes_def FragmentHeader_disk_size_def)
    with m have "bytes_at D s (frag_header_bytes (frag_header fr))" by (simp add: bytes_at_append)
    then obtain k where k: "FragmentHeader_load ?g = (Inr (frag_header fr), k)" "read_quiet D k" "roff k = s + 22"
      using hdr by blast
    obtain l where "fragment_body z (length D) (frag_header fr) k = (Inl UnexpectedEOF, l)" "read_quiet D l"
      using fragment_body_at(1) [OF k(2) fr k(3) room] m False len k(2) by (auto simp: yields_def quiet_data)
    with k m False sf Fragment_load_at [OF q, of z, folded s_def] q show ?thesis
      by (simp add: yields_def restoring_def quiet_data FragmentHeader_disk_size_def)
  qed
qed

section \<open>Decoding and assembling\<close>

lemma bytes_nth_4: "length bs = 4 \<Longrightarrow> bs = [bs ! 0, bs ! 1, bs ! 2, bs ! 3]"
  by (rule nth_equalityI) (auto simp: less_Suc_eq numeral_eq_Suc)

lemma read_u32_le_at:
  "read_u32_le (p @ enc_u32 v @ s) (length p) = (Inr v, length p + 4)"
proof -
  have nth: "(p @ enc_u32 v @ s) ! (length p + i) = enc_u32 v ! i" if "i < 4" for i
    using that by (simp add: nth_append)
  have "dec_u32 (enc_u32 v) = v" by simp
  then show ?thesis
    using nth [of 0] nth [of 1] nth [of 2] nth [of 3]
    by (simp add: read_u32_le_def dec_u32_def)
qed

text \<open>The arena as the loader sees it: it only grows and its heap requests succeed.\<close>

definition arena_live :: "arena \<Rightarrow> bool" where
  "arena_live a \<longleftrightarrow> arena_ok a \<and> never_oom a"

lemma single_bit_1: "has_single_bit 1"
  unfolding has_single_bit_def by (rule image_eqI [of _ _ 0]) simp_all

lemma decode_alloc_ok:
  assumes "arena_live a"
  obtains b where "decode_alloc n cp a = Some (Ok, b)" "arena_live b" "grows a b"
proof (cases "n = 0")
  case True
  then show ?thesis using that [of a] assms by (simp add: decode_alloc_def)
next
  case False
  then have "serves a n 1 (alloc n 1 a)"
    using assms single_bit_1 by (intro alloc_serves) (simp_all add: arena_live_def)
  then obtain p b where "alloc n 1 a = (Inr p, b)" "arena_ok b" "grows a b" "never_oom b"
    using assms by (cases "alloc n 1 a") (auto simp: serves_def arena_live_def split: sum.splits)
  then show ?thesis using that [of b] False by (simp add: decode_alloc_def arena_live_def)
qed

lemma decode_encoded:
  assumes "loggable r" "arena_live a"
  obtains b where "decode_record_payload (record_payload r) (seq_num r) (rtype r) a = Some (Inr r, b)"
    "arena_live b" "grows a b"
proof -
  let ?k = "length (key_entry r)" and ?v = "length (value_entry r)"
  obtain a1 where a1: "decode_alloc ?k (take_checkpoint a) a = Some (Ok, a1)" "arena_live a1" "grows a a1"
    using decode_alloc_ok [OF assms(2)] by blast
  obtain a2 where a2: "decode_alloc ?v (take_checkpoint a) a1 = Some (Ok, a2)" "arena_live a2" "grows a1 a2"
    using decode_alloc_ok [OF a1(2)] by blast
  have u: "unat (of_nat ?k :: u32) = ?k" "unat (of_nat ?v :: u32) = ?v"
    using assms(1) by (simp_all add: loggable_def)
  have r1: "read_u32_le (record_payload r) 0 = (Inr (of_nat ?k), 4)"
    using read_u32_le_at [of "[]" "of_nat ?k"] by (simp add: record_payload_def)
  have r2: "read_u32_le (record_payload r) 4 = (Inr (of_nat ?v), 8)"
    using read_u32_le_at [of "enc_u32 (of_nat ?k)" "of_nat ?v"] by (simp add: record_payload_def)
  have "decode_record_payload (record_payload r) (seq_num r) (rtype r) a = Some (Inr r, a2)"
    using assms(1) a1(1) a2(1) r1 r2 u
    by (simp add: decode_record_payload_def loggable_def kRecordPayloadPrefixSize_def record_payload_def Let_def)
  with a2 grows_trans [OF a1(3) a2(3)] that show ?thesis by blast
qed

text \<open>The state of the assembler in the middle of the fragments of \<open>r\<close>, with \<open>got\<close> collected.\<close>

definition assembling :: "InternalRecord \<Rightarrow> byte list \<Rightarrow> bool \<Rightarrow> assembler \<Rightarrow> bool" where
  "assembling r got first s \<longleftrightarrow>
     (if first then s = asm_init \<and> got = []
      else s = \<lparr>active = True, asm_seq_num = seq_num r, asm_type = rtype r, asm_bytes = got\<rparr>)"

lemma record_payload_small: "loggable r \<Longrightarrow> length (record_payload r) \<le> 8 + 2 * u32_max"
  by (simp add: record_payload_def loggable_def)

lemma asm_append_ok:
  "length (asm_bytes s) + length bs \<le> 8 + 2 * u32_max \<Longrightarrow>
    asm_append bs s = (Ok, s\<lparr>asm_bytes := asm_bytes s @ bs\<rparr>)"
  by (simp add: asm_append_def)

lemma consume_more:
  assumes "assembling r got first s" "loggable r" "length chunk \<le> WAL_FILE_BLOCK_SIZE"
    "length (got @ chunk) \<le> length (record_payload r)"
  shows "\<exists>s'. consume (frag_of z r (choose_fragment_type first False) chunk) s ar = Some (Inr None, s', ar) \<and>
    assembling r (got @ chunk) False s'"
proof -
  have t: "is_valid_record_type (rtype r)" using assms(2) by (simp add: loggable_def)
  note fr = make_fragment_eq [OF t choose_valid assms(3), of z first False]
  have ap: "asm_append chunk s' = (Ok, s'\<lparr>asm_bytes := asm_bytes s' @ chunk\<rparr>)" if "asm_bytes s' = got" for s'
    using that assms(4) record_payload_small [OF assms(2)] by (intro asm_append_ok) simp
  show ?thesis
    using assms(1) fr ap
    by (cases first) (auto simp: consume_def assembling_def choose_fragment_type_def asm_init_def Let_def)
qed

lemma consume_last:
  assumes "assembling r got first s" "loggable r" "length chunk \<le> WAL_FILE_BLOCK_SIZE"
    "got @ chunk = record_payload r" "arena_live ar"
  shows "\<exists>ar'. consume (frag_of z r (choose_fragment_type first True) chunk) s ar =
      Some (Inr (Some r), asm_init, ar') \<and> arena_live ar' \<and> grows ar ar'"
proof -
  have t: "is_valid_record_type (rtype r)" using assms(2) by (simp add: loggable_def)
  note fr = make_fragment_eq [OF t choose_valid assms(3), of z first True]
  obtain b where b: "decode_record_payload (record_payload r) (seq_num r) (rtype r) ar = Some (Inr r, b)"
    "arena_live b" "grows ar b" using decode_encoded [OF assms(2,5)] .
  have "length got + length chunk = length (record_payload r)"
    using arg_cong [OF assms(4), of length] by simp
  then have ap: "asm_append chunk s' = (Ok, s'\<lparr>asm_bytes := asm_bytes s' @ chunk\<rparr>)" if "asm_bytes s' = got" for s'
    using that record_payload_small [OF assms(2)] by (intro asm_append_ok) simp
  show ?thesis
    using assms(1,4) fr ap b
    by (cases first) (auto simp: consume_def assembling_def choose_fragment_type_def asm_init_def asm_reset_def Let_def)
qed

section \<open>The loop over one logical record\<close>

lemma rollback_here: "rollback (take_checkpoint a) a = Some a"
  using rollback_restores [OF grows_refl, of a] by auto

lemma load_loop_cases:
  "Fragment_load z f = (Inl UnexpectedEOF, f1) \<Longrightarrow>
    load_loop z s lg (take_checkpoint ar) res ar f =
      Some (Inr (res\<lparr>had_torn_tail := True, res_ok := True\<rparr>), ar, f1\<lparr>roff := lg\<rparr>)"
  "Fragment_load z f = (Inr None, f1) \<Longrightarrow>
    load_loop z s lg (take_checkpoint ar) res ar f =
      (if active s then Some (Inr (res\<lparr>had_torn_tail := True\<rparr>), ar, f1\<lparr>roff := lg\<rparr>)
       else Some (Inr res, ar, f1))"
  "Fragment_load z f = (Inr (Some fr), f1) \<Longrightarrow> consume fr s ar = Some (Inr None, s', ar') \<Longrightarrow>
    load_loop z s lg cp res ar f = load_loop z s' lg cp res ar' f1"
  "Fragment_load z f = (Inr (Some fr), f1) \<Longrightarrow> consume fr s ar = Some (Inr (Some r), s', ar') \<Longrightarrow>
    load_loop z s lg cp res ar f =
      load_loop z s' (roff f1) (take_checkpoint ar') (res\<lparr>records := records res @ [r]\<rparr>) ar' f1"
  by (simp_all add: load_loop.simps [of z s lg _ res ar f] load_failed_def give_up_def
    is_recoverable_tail_error_def rollback_here)

text \<open>The next fragment of a payload: what it is and where it lies.\<close>

definition next_size :: "byte list \<Rightarrow> nat \<Rightarrow> nat" where
  "next_size rest off = min (length rest) (frag_room off)"

definition next_frag :: "zlib \<Rightarrow> InternalRecord \<Rightarrow> byte list \<Rightarrow> bool \<Rightarrow> nat \<Rightarrow> Fragment" where
  "next_frag z r rest first off =
     frag_of z r (choose_fragment_type first (next_size rest off = length rest)) (take (next_size rest off) rest)"

definition next_off :: "byte list \<Rightarrow> nat \<Rightarrow> nat" where
  "next_off rest off = off + length (frag_pad off) + 22 + next_size rest off"

lemma payload_bytes_unfold:
  "rest \<noteq> [] \<Longrightarrow> payload_bytes z r rest first off =
    frag_pad off @ frag_bytes (next_frag z r rest first off) @
    payload_bytes z r (drop (next_size rest off) rest) False (next_off rest off)"
  by (simp add: payload_bytes.simps [of z r rest first off] Let_def next_size_def next_frag_def
    next_off_def FragmentHeader_disk_size_def)

lemma next_frag_good:
  assumes "loggable r" "rest \<noteq> []"
  shows "good_fragment z (next_frag z r rest first off)"
    "payload (next_frag z r rest first off) = take (next_size rest off) rest"
    "0 < next_size rest off" "next_size rest off \<le> length rest"
    "length (take (next_size rest off) rest) \<le> WAL_FILE_BLOCK_SIZE"
    "(off + length (frag_pad off)) mod WAL_FILE_BLOCK_SIZE + (22 + next_size rest off) \<le> WAL_FILE_BLOCK_SIZE"
    "length (frag_bytes (next_frag z r rest first off)) = 22 + next_size rest off"
    "(off + length (frag_pad off)) mod WAL_FILE_BLOCK_SIZE + (22 + length (payload (next_frag z r rest first off)))
      \<le> WAL_FILE_BLOCK_SIZE"
proof -
  have t: "is_valid_record_type (rtype r)" using assms(1) by (simp add: loggable_def)
  show n: "0 < next_size rest off" "next_size rest off \<le> length rest"
    using assms(2) by (simp_all add: next_size_def)
  have "next_size rest off \<le> frag_room off" by (simp add: next_size_def)
  then show room: "(off + length (frag_pad off)) mod WAL_FILE_BLOCK_SIZE + (22 + next_size rest off) \<le> WAL_FILE_BLOCK_SIZE"
    using frag_pad_fits [of off] by (simp add: frag_room_def FragmentHeader_disk_size_def)
  then show len: "length (take (next_size rest off) rest) \<le> WAL_FILE_BLOCK_SIZE" by simp
  note fr = make_fragment_eq [OF t choose_valid len, of z first "next_size rest off = length rest", folded next_frag_def]
  show "good_fragment z (next_frag z r rest first off)"
    using fr t by (simp add: good_fragment_def good_header_def)
  show "payload (next_frag z r rest first off) = take (next_size rest off) rest" by (rule fr(2))
  then show "length (frag_bytes (next_frag z r rest first off)) = 22 + next_size rest off"
    "(off + length (frag_pad off)) mod WAL_FILE_BLOCK_SIZE + (22 + length (payload (next_frag z r rest first off)))
      \<le> WAL_FILE_BLOCK_SIZE"
    using n room by (simp_all add: frag_bytes_def FragmentHeader_disk_size_def)
qed

text \<open>All of the record is in the file: the loop continues behind it with the record added.\<close>

lemma load_loop_complete:
  assumes "read_quiet D f" "assembling r got first s" "got @ rest = record_payload r" "rest \<noteq> []"
    "loggable r" "arena_live ar" "bytes_at D (roff f) (payload_bytes z r rest first (roff f))"
  shows "\<exists>ar' f'. load_loop z s lg cp res ar f =
      load_loop z asm_init (roff f') (take_checkpoint ar') (res\<lparr>records := records res @ [r]\<rparr>) ar' f' \<and>
    arena_live ar' \<and> grows ar ar' \<and> read_quiet D f' \<and>
    roff f' = roff f + length (payload_bytes z r rest first (roff f))"
  using assms
proof (induction "length rest" arbitrary: rest got first s f rule: less_induct)
  case less
  let ?n = "next_size rest (roff f)" and ?fr = "next_frag z r rest first (roff f)"
  let ?nx = "next_off rest (roff f)"
  note nf = next_frag_good [OF less.prems(5,4)]
  note unf = payload_bytes_unfold [OF less.prems(4), of z r first "roff f"]
  have at: "bytes_at D (roff f + length (frag_pad (roff f))) (frag_bytes ?fr)"
    "bytes_at D ?nx (payload_bytes z r (drop ?n rest) False ?nx)"
    using less.prems(7) nf(7) by (simp_all add: unf bytes_at_append next_off_def add.assoc)
  obtain g where g: "Fragment_load z f = (Inr (Some ?fr), g)" "read_quiet D g" "roff g = ?nx"
    using Fragment_load_cases(1) [OF less.prems(1) nf(1) nf(8) at(1)] nf(7) quiet_data [OF less.prems(1)]
    by (auto simp: yields_def next_off_def add.assoc)
  show ?case
  proof (cases "?n = length rest")
    case True
    then have "got @ take ?n rest = record_payload r" using less.prems(3) by simp
    from consume_last [OF less.prems(2,5) nf(5) this less.prems(6), of z] True
    obtain ar' where "consume ?fr s ar = Some (Inr (Some r), asm_init, ar')" "arena_live ar'" "grows ar ar'"
      by (auto simp: next_frag_def)
    moreover have "payload_bytes z r rest first (roff f) = frag_pad (roff f) @ frag_bytes ?fr"
      using True by (simp add: unf payload_bytes.simps [of z r "[]"])
    ultimately show ?thesis
      using g nf(7) by (intro exI [of _ ar'] exI [of _ g]) (simp add: load_loop_cases(4) next_off_def)
  next
    case False
    have "length (got @ take ?n rest) \<le> length (record_payload r)"
      using arg_cong [OF less.prems(3), of length] by simp
    from consume_more [OF less.prems(2,5) nf(5) this, of z ar] False
    obtain s' where s': "consume ?fr s ar = Some (Inr None, s', ar)" "assembling r (got @ take ?n rest) False s'"
      by (auto simp: next_frag_def)
    have "drop ?n rest \<noteq> []" "length (drop ?n rest) < length rest"
      using False nf(3) [of "roff f"] nf(4) [of "roff f"] by auto
    from less.hyps [OF this(2) g(2) s'(2) _ this(1) less.prems(5,6)] less.prems(3) at(2) g(3)
    obtain ar' f' where "load_loop z s' lg cp res ar g =
        load_loop z asm_init (roff f') (take_checkpoint ar') (res\<lparr>records := records res @ [r]\<rparr>) ar' f'"
      "arena_live ar'" "grows ar ar'" "read_quiet D f'"
      "roff f' = ?nx + length (payload_bytes z r (drop ?n rest) False ?nx)"
      by auto
    with g s' nf(7) show ?thesis
      by (intro exI [of _ ar'] exI [of _ f']) (simp add: load_loop_cases(3) unf next_off_def)
  qed
qed

text \<open>The record is cut off: the loop ends without it. It reports a torn tail unless nothing but
  padding had been written, and nothing is reported as corruption.\<close>

lemma bytes_at_prefix: "bytes_at D off (take m bs) \<Longrightarrow> k \<le> m \<Longrightarrow> bytes_at D off (take k bs)"
  using bytes_at_append [of D off "take k bs" "drop k (take m bs)"]
  by (metis append_take_drop_id min.absorb1 take_take)

lemma load_loop_torn:
  assumes "read_quiet D f" "assembling r got first s" "got @ rest = record_payload r" "rest \<noteq> []"
    "loggable r" "length D = roff f + m" "m < length (payload_bytes z r rest first (roff f))"
    "bytes_at D (roff f) (take m (payload_bytes z r rest first (roff f)))" "res_ok res"
  shows "\<exists>f'. load_loop z s lg (take_checkpoint ar) res ar f =
      Some (Inr (if first \<and> m \<le> length (frag_pad (roff f)) then res else res\<lparr>had_torn_tail := True\<rparr>), ar, f') \<and>
    roff f' = (if first \<and> m \<le> length (frag_pad (roff f)) then length D else lg)"
  using assms
proof (induction "length rest" arbitrary: rest got first s f m rule: less_induct)
  case less
  let ?n = "next_size rest (roff f)" and ?fr = "next_frag z r rest first (roff f)"
  let ?nx = "next_off rest (roff f)" and ?pad = "frag_pad (roff f)"
  let ?more = "payload_bytes z r (drop ?n rest) False ?nx"
  note nf = next_frag_good [OF less.prems(5,4)]
  note unf = payload_bytes_unfold [OF less.prems(4), of z r first "roff f"]
  have ok: "res\<lparr>had_torn_tail := True, res_ok := True\<rparr> = res\<lparr>had_torn_tail := True\<rparr>"
    using less.prems(9) by simp
  consider (pad) "m \<le> length ?pad" | (frag) "length ?pad < m" "m < length ?pad + (22 + ?n)"
    | (beyond) "length ?pad + (22 + ?n) \<le> m" by linarith
  then show ?case
  proof cases
    case pad
    then obtain g where g: "Fragment_load z f = (Inr None, g)" "roff g = length D"
      using Fragment_load_end [OF less.prems(1), of z] less.prems(6) by (auto simp: yields_def)
    have "active s = (\<not> first)" using less.prems(2) by (auto simp: assembling_def asm_init_def)
    with g pad show ?thesis by (cases first) (simp_all add: load_loop_cases(2) del: ok)
  next
    case frag
    have "take m (payload_bytes z r rest first (roff f)) = ?pad @ take (m - length ?pad) (frag_bytes ?fr)"
      using frag nf(7) by (simp add: unf)
    then have at: "bytes_at D (roff f + length ?pad) (take (m - length ?pad) (frag_bytes ?fr))"
      using less.prems(8) by (simp add: bytes_at_append)
    have len: "roff f + length ?pad < length D" "length D = roff f + length ?pad + (m - length ?pad)"
      "m - length ?pad < length (frag_bytes ?fr)" using frag nf(7) less.prems(6) by simp_all
    obtain g where "Fragment_load z f = (Inl UnexpectedEOF, g)"
      using Fragment_load_cases(2) [OF less.prems(1) nf(1,8) len at] by (auto simp: yields_def)
    with frag ok show ?thesis by (simp add: load_loop_cases(1))
  next
    case beyond
    let ?m = "m - (length ?pad + (22 + ?n))"
    have tk: "take m (payload_bytes z r rest first (roff f)) = ?pad @ frag_bytes ?fr @ take ?m ?more"
      using beyond nf(7) by (simp add: unf)
    have at: "bytes_at D (roff f + length ?pad) (frag_bytes ?fr)" "bytes_at D ?nx (take ?m ?more)"
      using less.prems(8) nf(7) unfolding tk by (simp_all add: bytes_at_append next_off_def add.assoc)
    obtain g where g: "Fragment_load z f = (Inr (Some ?fr), g)" "read_quiet D g" "roff g = ?nx"
      using Fragment_load_cases(1) [OF less.prems(1) nf(1) nf(8) at(1)] nf(7) quiet_data [OF less.prems(1)]
      by (auto simp: yields_def next_off_def add.assoc)
    have more: "?m < length ?more" using beyond less.prems(7) nf(7) by (simp add: unf)
    then have ne: "drop ?n rest \<noteq> []" by (auto simp: payload_bytes.simps [of z r "[]"])
    have "length (got @ take ?n rest) \<le> length (record_payload r)"
      using arg_cong [OF less.prems(3), of length] by simp
    from consume_more [OF less.prems(2,5) nf(5) this, of z ar] ne
    obtain s' where s': "consume ?fr s ar = Some (Inr None, s', ar)" "assembling r (got @ take ?n rest) False s'"
      by (auto simp: next_frag_def)
    have lt: "length (drop ?n rest) < length rest" using nf(3) [of "roff f"] less.prems(4) by simp
    have D: "length D = roff g + ?m" using beyond less.prems(6) g(3) by (simp add: next_off_def)
    from less.hyps [OF lt g(2) s'(2) _ ne less.prems(5) D] less.prems(3,9) more at(2) g(3)
    obtain f' where "load_loop z s' lg (take_checkpoint ar) res ar g =
        Some (Inr (res\<lparr>had_torn_tail := True\<rparr>), ar, f')" "roff f' = lg" by auto
    with g s' beyond show ?thesis by (intro exI [of _ f']) (simp add: load_loop_cases(3))
  qed
qed

section \<open>The whole log\<close>

text \<open>The records that lie completely in the first \<open>n\<close> bytes of the log, whether something other
  than padding follows them, and the offset behind the last of them.\<close>

fun recovered :: "zlib \<Rightarrow> InternalRecord list \<Rightarrow> nat \<Rightarrow> nat \<Rightarrow> InternalRecord list" where
  "recovered z [] off n = []"
| "recovered z (r # rs) off n =
     (let k = length (payload_bytes z r (record_payload r) True off) in
      if k \<le> n then r # recovered z rs (off + k) (n - k) else [])"

fun tail_torn :: "zlib \<Rightarrow> InternalRecord list \<Rightarrow> nat \<Rightarrow> nat \<Rightarrow> bool" where
  "tail_torn z [] off n = False"
| "tail_torn z (r # rs) off n =
     (let k = length (payload_bytes z r (record_payload r) True off) in
      if k \<le> n then tail_torn z rs (off + k) (n - k) else length (frag_pad off) < n)"

lemma recovered_take: "recovered z rs off n = take (length (recovered z rs off n)) rs"
  by (induction rs arbitrary: off n) (auto simp: Let_def)

lemma recovered_all:
  "length (log_bytes z rs off) \<le> n \<Longrightarrow> recovered z rs off n = rs \<and> \<not> tail_torn z rs off n"
  by (induction rs arbitrary: off n) (auto simp: Let_def)

lemma recovered_synced:
  "j \<le> length rs \<Longrightarrow> length (log_bytes z (take j rs) off) \<le> n \<Longrightarrow> j \<le> length (recovered z rs off n)"
proof (induction rs arbitrary: off n j)
  case (Cons r rs)
  then show ?case by (cases j) (auto simp: Let_def)
qed simp

lemma load_loop_log:
  assumes "read_quiet D f" "length D = roff f + m" "m \<le> length (log_bytes z rs (roff f))"
    "bytes_at D (roff f) (take m (log_bytes z rs (roff f)))" "\<forall>r \<in> set rs. loggable r" "arena_live ar"
    "res_ok res" "\<not> had_torn_tail res"
  shows "\<exists>ar' f'. load_loop z asm_init (roff f) (take_checkpoint ar) res ar f =
      Some (Inr (res\<lparr>records := records res @ recovered z rs (roff f) m,
        had_torn_tail := tail_torn z rs (roff f) m\<rparr>), ar', f') \<and>
    arena_live ar' \<and> grows ar ar' \<and>
    roff f' = (if tail_torn z rs (roff f) m
      then roff f + length (log_bytes z (recovered z rs (roff f) m) (roff f)) else length D)"
  using assms
proof (induction rs arbitrary: f m ar res)
  case Nil
  then obtain g where "Fragment_load z f = (Inr None, g)" "roff g = length D"
    using Fragment_load_end [OF Nil.prems(1), of z] by (auto simp: yields_def)
  with Nil.prems show ?case by (simp add: load_loop_cases(2) asm_init_def)
next
  case (Cons r rs)
  let ?bs = "payload_bytes z r (record_payload r) True (roff f)"
  let ?off = "roff f + length ?bs"
  have asm: "assembling r [] True asm_init" "[] @ record_payload r = record_payload r"
    by (simp_all add: assembling_def)
  have r: "loggable r" using Cons.prems(5) by simp
  show ?case
  proof (cases "length ?bs \<le> m")
    case True
    have tk: "take m (log_bytes z (r # rs) (roff f)) = ?bs @ take (m - length ?bs) (log_bytes z rs ?off)"
      using True by (simp add: Let_def)
    have at: "bytes_at D (roff f) ?bs" "bytes_at D ?off (take (m - length ?bs) (log_bytes z rs ?off))"
      using Cons.prems(4) unfolding tk by (simp_all add: bytes_at_append)
    obtain ar1 g where g: "load_loop z asm_init (roff f) (take_checkpoint ar) res ar f =
        load_loop z asm_init (roff g) (take_checkpoint ar1) (res\<lparr>records := records res @ [r]\<rparr>) ar1 g"
      "arena_live ar1" "grows ar ar1" "read_quiet D g" "roff g = ?off"
      using load_loop_complete [OF Cons.prems(1) asm record_payload_ne r Cons.prems(6) at(1)] by blast
    have "length D = roff g + (m - length ?bs)" "m - length ?bs \<le> length (log_bytes z rs (roff g))"
      using Cons.prems(2,3) True g(5) by (simp_all add: Let_def)
    from Cons.IH [OF g(4) this _ _ g(2), of "res\<lparr>records := records res @ [r]\<rparr>"] at(2) g(5) Cons.prems(5,7,8)
    obtain ar' f' where "load_loop z asm_init (roff g) (take_checkpoint ar1) (res\<lparr>records := records res @ [r]\<rparr>) ar1 g =
        Some (Inr (res\<lparr>records := records res @ r # recovered z rs ?off (m - length ?bs),
          had_torn_tail := tail_torn z rs ?off (m - length ?bs)\<rparr>), ar', f')"
      "arena_live ar'" "grows ar1 ar'" "roff f' = (if tail_torn z rs ?off (m - length ?bs)
        then ?off + length (log_bytes z (recovered z rs ?off (m - length ?bs)) ?off) else length D)"
      by auto
    with g(1) True grows_trans [OF g(3)] show ?thesis by (auto simp: Let_def)
  next
    case False
    then have tk: "take m (log_bytes z (r # rs) (roff f)) = take m ?bs" by (simp add: Let_def)
    from False have m: "m < length ?bs" by simp
    obtain f' where "load_loop z asm_init (roff f) (take_checkpoint ar) res ar f =
        Some (Inr (if m \<le> length (frag_pad (roff f)) then res else res\<lparr>had_torn_tail := True\<rparr>), ar, f')"
      "roff f' = (if m \<le> length (frag_pad (roff f)) then length D else roff f)"
      using load_loop_torn [OF Cons.prems(1) asm record_payload_ne r Cons.prems(2) m
        Cons.prems(4) [unfolded tk] Cons.prems(7), of "roff f" ar] by auto
    with False Cons.prems(6,8) show ?thesis by (auto simp: Let_def not_le)
  qed
qed

section \<open>The file header\<close>

lemma make_header_fields [simp]:
  "WALFileHeader_check z wid (make_WALFileHeader z wid seq) = Ok"
  by (simp add: WALFileHeader_check_def make_WALFileHeader_def WALFileHeader_compute_crc32_def Let_def)

lemma WALFileHeader_load_at:
  assumes q: "read_quiet D f" and o: "roff f = 0" and D: "D \<noteq> []"
  shows "WALFileHeader_load z wid f =
    (if length D < 40 then (Inl UnexpectedEOF, f)
     else restoring 0 (bind_r WALFileHeader_read_fields
       (\<lambda>h f2. let c = WALFileHeader_check z wid h in
          if is_ok c then (Inr (Some h), f2) else (Inl c, f2)) f))"
proof -
  have "ensure_fits_in_block_r WALFileHeader_disk_size WAL_FILE_BLOCK_SIZE f = (Ok, f)"
    using o by (intro ensure_fits_r_stay) (simp_all add: WAL_FILE_BLOCK_SIZE_def WALFileHeader_disk_size_def)
  moreover have "get_file_size f = Inr (length D)" using q by (simp add: get_file_size_def read_quiet_def)
  moreover have "f\<lparr>roff := 0\<rparr> = f" using o by simp
  ultimately show ?thesis
    using o D by (simp add: WALFileHeader_load_def Let_def WALFileHeader_disk_size_def)
qed

text \<open>The outcome of loading a file that starts with a complete header, for any header.\<close>

lemma WALFileHeader_load_header:
  assumes q: "read_quiet D f" and o: "roff f = 0" and D: "bytes_at D 0 (header_bytes h)"
  shows "yields (WALFileHeader_load z wid)
    (if WALFileHeader_check z wid h = Ok then Inr (Some h) else Inl (WALFileHeader_check z wid h))
    (if WALFileHeader_check z wid h = Ok then 40 else 0) f"
proof -
  have le: "40 \<le> length D" using bytes_at_bound [OF D] by (simp add: WALFileHeader_disk_size_def)
  have room: "roff f mod WAL_FILE_BLOCK_SIZE + length (header_bytes h) \<le> WAL_FILE_BLOCK_SIZE"
    using o by (simp add: WAL_FILE_BLOCK_SIZE_def WALFileHeader_disk_size_def)
  obtain g where g: "WALFileHeader_read_fields f = (Inr h, g)" "read_quiet D g" "roff g = 40"
    using parsesD [OF WALFileHeader_read_fields_parses q _ room] D o quiet_data [OF q]
    by (auto simp: yields_def WALFileHeader_disk_size_def)
  have "D \<noteq> []" using le by auto
  from WALFileHeader_load_at [OF q o this, of z wid] g le show ?thesis
    by (simp add: yields_def restoring_def quiet_data [OF q] Let_def)
qed

section \<open>Write, crash, recover\<close>

text \<open>The bytes of a log with its header.\<close>

definition wal_bytes :: "zlib \<Rightarrow> u32 \<Rightarrow> u64 \<Rightarrow> InternalRecord list \<Rightarrow> byte list" where
  "wal_bytes z wid seq rs = header_bytes (make_WALFileHeader z wid seq) @ log_bytes z rs 40"

lemma WALLoader_load_prefix:
  assumes q: "read_quiet D f" and o: "roff f = 0" and D: "D = take k (wal_bytes z wid seq rs)"
    and k: "40 \<le> k" "k \<le> length (wal_bytes z wid seq rs)"
    and rs: "\<forall>r \<in> set rs. loggable r" and ar: "arena_live ar"
  shows "\<exists>ar' f'. WALLoader_load z wid ar f = Some (Inr \<lparr>records = recovered z rs 40 (k - 40),
      res_header = Some (make_WALFileHeader z wid seq), res_ok = True,
      had_torn_tail = tail_torn z rs 40 (k - 40), had_corruption = False\<rparr>, ar', f') \<and>
    arena_live ar' \<and> grows ar ar' \<and>
    roff f' = (if tail_torn z rs 40 (k - 40)
      then 40 + length (log_bytes z (recovered z rs 40 (k - 40)) 40) else k)"
proof -
  let ?h = "make_WALFileHeader z wid seq"
  have D': "D = header_bytes ?h @ take (k - 40) (log_bytes z rs 40)"
    using k(1) by (simp add: D wal_bytes_def WALFileHeader_disk_size_def)
  have len: "length D = k" using D k(2) by simp
  have hb: "length (header_bytes ?h) = 40" by (simp add: WALFileHeader_disk_size_def)
  have at: "bytes_at D 0 (header_bytes ?h)" "bytes_at D 40 (take (k - 40) (log_bytes z rs 40))"
    using bytes_at_append [of D 0 "header_bytes ?h" "take (k - 40) (log_bytes z rs 40)"] D' hb
    by (auto simp: bytes_at_def)
  obtain g where g: "WALFileHeader_load z wid f = (Inr (Some ?h), g)" "read_quiet D g" "roff g = 40"
    using WALFileHeader_load_header [OF q o at(1), of z wid] quiet_data [OF q] by (auto simp: yields_def)
  have "k - 40 \<le> length (log_bytes z rs (roff g))" "length D = roff g + (k - 40)"
    using k len hb g(3) by (simp_all add: wal_bytes_def)
  from load_loop_log [OF g(2) this(2,1) _ rs ar, where res = "\<lparr>records = [], res_header = Some ?h,
      res_ok = True, had_torn_tail = False, had_corruption = False\<rparr>"] at(2) g(3) len
  show ?thesis by (auto simp: WALLoader_load_def g(1))
qed

lemma log_bytes_append:
  "log_bytes z (rs @ qs) off = log_bytes z rs off @ log_bytes z qs (off + length (log_bytes z rs off))"
  by (induction rs arbitrary: off) (simp_all add: Let_def add.assoc)

text \<open>A log is not loaded under another generation's id: the loader
  fails with \<open>InvalidHeader\<close>, returns no record, and leaves the offset at the start.\<close>

lemma wal_wrong_id_rejected:
  assumes "read_quiet D g" "roff g = 0" "D = take k (wal_bytes z wid seq rs)" "40 \<le> k" "wid \<noteq> wid'"
  shows "\<exists>g'. WALLoader_load z wid' ar g = Some (Inl InvalidHeader, ar, g') \<and> roff g' = 0"
proof -
  let ?h = "make_WALFileHeader z wid seq"
  have "bytes_at D 0 (header_bytes ?h)"
    using assms(3,4) by (auto simp: wal_bytes_def bytes_at_def WALFileHeader_disk_size_def)
  moreover have "WALFileHeader_check z wid' ?h = InvalidHeader"
  proof -
    have "(ucast wid :: u64) \<noteq> ucast wid'"
    proof
      assume eq: "(ucast wid :: u64) = ucast wid'"
      have "wid = wid'"
      proof (rule bit_word_eqI)
        fix n assume "n < LENGTH(32)"
        then show "bit wid n = bit wid' n"
          using arg_cong [OF eq, of "\<lambda>w. bit w n"] by (simp add: bit_ucast_iff)
      qed
      with assms(5) show False ..
    qed
    then show ?thesis by (simp add: WALFileHeader_check_def make_WALFileHeader_def Let_def)
  qed
  ultimately obtain g' where "WALFileHeader_load z wid' g = (Inl InvalidHeader, g')" "roff g' = 0"
    using WALFileHeader_load_header [OF assms(1,2), of ?h z wid'] by (auto simp: yields_def)
  then show ?thesis by (simp add: WALLoader_load_def)
qed

text \<open>A file cut off inside its header holds no log: the loader fails with
  \<open>UnexpectedEOF\<close> and returns no record.\<close>

lemma wal_short_header_rejected:
  assumes "read_quiet D g" "roff g = 0" "length D < 40"
  shows "\<exists>g'. WALLoader_load z wid ar g = Some (Inl UnexpectedEOF, ar, g')"
proof (cases "D = []")
  case True
  with assms show ?thesis
    by (simp add: WALLoader_load_def WALFileHeader_load_def get_file_size_def read_quiet_def)
next
  case False
  with WALFileHeader_load_at [OF assms(1,2) False, of z wid] assms(3) show ?thesis
    by (simp add: WALLoader_load_def)
qed

end
