(* ===== verification/WALStreaming.thy ===== *)
theory WALStreaming
  imports WALRecovery
begin

text \<open>
  Further properties of the loaders: they return on every input, whatever the bytes of the file,
  the behaviour of the device and of the heap; the batch loader is the iteration of the streaming
  loader; the terminal states of the streaming loader are stable.
\<close>

section \<open>Loading always returns\<close>

lemma decode_alloc_total:
  assumes "extends a b" "arena_ok a"
  obtains c b' where "decode_alloc n (take_checkpoint a) b = Some (c, b')" "extends a b'"
proof (cases "n = 0")
  case True
  then show ?thesis using that assms by (simp add: decode_alloc_def)
next
  case False
  obtain x b1 where b1: "alloc n 1 b = (x, b1)" by (cases "alloc n 1 b")
  have "extends b b1"
    using alloc_grows [of b n 1] alloc_destructors [of n 1 b] alloc_destroyed [of n 1 b] assms b1 by (simp add: extends_def)
  with assms have ex: "extends a b1" by (blast intro: extends_trans)
  then have "rollback (take_checkpoint a) b1 = Some (a\<lparr>oom := oom b1\<rparr>)"
    by (auto simp: extends_def intro: rollback_allocs)
  with False b1 ex that extends_oom [OF assms(2), of "oom b1"] show ?thesis
    by (cases x) (simp_all add: decode_alloc_def)
qed

lemma decode_record_payload_total:
  assumes "arena_ok a"
  shows "\<exists>x b. decode_record_payload bytes sq t a = Some (x, b) \<and> extends a b"
proof -
  have refl: "extends a a" using assms by (simp add: extends_def)
  have stay: "\<exists>x b. Some (e, a) = Some (x, b) \<and> extends a b" for e :: "InternalRecord result"
    using refl by blast
  have body: "\<exists>x b. (case decode_alloc k (take_checkpoint a) a of None \<Rightarrow> None
      | Some (c, ar1) \<Rightarrow> if \<not> is_ok c then Some (Inl c, ar1)
        else case decode_alloc v (take_checkpoint a) ar1 of None \<Rightarrow> None
        | Some (c, ar2) \<Rightarrow> if \<not> is_ok c then Some (Inl c, ar2) else Some (Inr r, ar2)) = Some (x, b) \<and>
      extends a b" for k v and r :: InternalRecord
  proof -
    obtain c1 b1 where b1: "decode_alloc k (take_checkpoint a) a = Some (c1, b1)" "extends a b1"
      using decode_alloc_total [OF refl assms] by blast
    obtain c2 b2 where b2: "decode_alloc v (take_checkpoint a) b1 = Some (c2, b2)" "extends a b2"
      using decode_alloc_total [OF b1(2) assms] by blast
    show ?thesis using b1 b2 by simp
  qed
  show ?thesis
    unfolding decode_record_payload_def Let_def
    by (auto simp: stay body refl split: sum.split prod.split)
qed

lemma consume_total:
  assumes "arena_ok ar"
  shows "\<exists>x s' ar'. consume fr s ar = Some (x, s', ar') \<and> extends ar ar'"
proof -
  have stay: "extends ar ar" using assms by (simp add: extends_def)
  have dec: "\<exists>x s' ar'. (case decode_record_payload bs sq t ar of None \<Rightarrow> None
       | Some (Inl e, ar') \<Rightarrow> Some (Inl e, u, ar')
       | Some (Inr r, ar') \<Rightarrow> Some (Inr (Some r), u, ar')) = Some (x, s', ar') \<and> extends ar ar'"
    for bs sq t and u :: assembler
    using decode_record_payload_total [OF assms, of bs sq t] by (auto split: sum.split)
  show ?thesis
    unfolding consume_def Let_def by (auto simp: stay dec split: prod.split)
qed

lemma give_up_total:
  assumes "arena_ok a" "grows a ar"
  shows "\<exists>ar' f'. give_up r (take_checkpoint a) lg ar f = Some (r, ar', f') \<and> arena_ok ar'"
  using rollback_keeps [OF assms(2,1)] by (auto simp: give_up_def)

lemma load_failed_total:
  assumes "arena_ok a" "grows a ar"
  shows "\<exists>r ar' f'. load_failed c res (take_checkpoint a) lg ar f = Some (r, ar', f') \<and> arena_ok ar'"
  using give_up_total [OF assms] unfolding load_failed_def by (metis (full_types))

lemma load_loop_total:
  assumes "arena_ok a" "grows a ar" "arena_ok ar"
  shows "\<exists>r ar' f'. load_loop z s lg (take_checkpoint a) res ar f = Some (r, ar', f') \<and> arena_ok ar'"
  using assms
proof (induction "length (rdata f) - roff f" arbitrary: f s lg a res ar rule: less_induct)
  case less
  obtain x g where g: "Fragment_load z f = (x, g)" by (cases "Fragment_load z f")
  note unf = load_loop.simps [of z s lg "take_checkpoint a" res ar f]
  show ?case
  proof (cases x)
    case (Inl code)
    then show ?thesis using load_failed_total [OF less.prems(1,2)] by (simp add: unf g)
  next
    case (Inr o1)
    show ?thesis
    proof (cases o1)
      case None
      with give_up_total [OF less.prems(1,2), of "Inr (res\<lparr>had_torn_tail := True\<rparr>)" lg g] less.prems(3) Inr g
      show ?thesis by (cases "active s") (auto simp: unf)
    next
      case (Some fr)
      obtain y s' ar' where c: "consume fr s ar = Some (y, s', ar')" "extends ar ar'"
        using consume_total [OF less.prems(3)] by blast
      have gr: "grows a ar'" "arena_ok ar'" using c(2) less.prems(2) grows_trans by (auto simp: extends_def)
      have lt: "length (rdata g) - roff g < length (rdata f) - roff f"
        using Fragment_load_keeps [OF g] Inr Some by (simp add: diff_less_mono2)
      show ?thesis
      proof (cases y)
        case (Inl e)
        with give_up_total [OF less.prems(1) gr(1), of "Inr (res\<lparr>had_corruption := True, res_ok := False\<rparr>)" lg g]
          Inr Some c g show ?thesis by (auto simp: unf)
      next
        case y: (Inr z')
        show ?thesis
          using less.hyps [OF lt less.prems(1) gr] less.hyps [OF lt gr(2) grows_refl gr(2)] y Inr Some c g
          by (cases z') (simp_all add: unf)
      qed
    qed
  qed
qed

text \<open>C7 (totality). The loader returns on every file, device script and heap script: no input
  makes it loop, and its rollbacks never raise; the arena stays well formed.\<close>

theorem wal_load_total:
  assumes "arena_ok ar"
  shows "\<exists>r ar' g'. WALLoader_load z wid ar g = Some (r, ar', g') \<and> arena_ok ar'"
  using load_loop_total [OF assms grows_refl assms] assms
  by (auto simp: WALLoader_load_def split: prod.split sum.split option.split)

section \<open>The batch loader iterates the streaming loader\<close>

text \<open>What the batch loader does with the outcome of one streaming step: continue behind the record
  that was returned, or stop with the status or terminal state that was reported.\<close>

definition batch_after :: "zlib \<Rightarrow> LoadResult \<Rightarrow> stream_outcome \<Rightarrow> load_outcome" where
  "batch_after z res out =
     (case out of
        None \<Rightarrow> None
      | Some (c, off, l) \<Rightarrow> (case str_file l of
          None \<Rightarrow> None
        | Some f \<Rightarrow> (case logical_record (str_result l) of
            Some r \<Rightarrow> load_loop z asm_init off (take_checkpoint (str_arena l))
              (res\<lparr>records := records res @ [r]\<rparr>) (str_arena l) (f\<lparr>roff := off\<rparr>)
          | None \<Rightarrow>
              Some (if c \<noteq> Ok then Inl c
                    else Inr (case str_state l of
                        TornTail \<Rightarrow> res\<lparr>had_torn_tail := True\<rparr>
                      | Corrupted \<Rightarrow> res\<lparr>had_corruption := True, res_ok := False\<rparr>
                      | _ \<Rightarrow> res), str_arena l, f\<lparr>roff := off\<rparr>))))"

lemma consume_NoneD: "consume fr s ar = Some (Inr None, s', ar') \<Longrightarrow> ar' = ar \<and> active s'"
  by (auto simp: consume_def asm_append_def Let_def split: if_splits option.splits sum.splits prod.splits)

lemma consume_SomeD:
  "consume fr s ar = Some (Inr (Some r), s', ar') \<Longrightarrow> s = asm_init \<or> active s \<Longrightarrow> s' = asm_init"
  by (auto simp: consume_def asm_init_def asm_reset_def Let_def split: if_splits option.splits sum.splits prod.splits)

lemma FragmentHeader_load_fails: "fails_properly FragmentHeader_load"
proof -
  have "fails_properly (bind_r FragmentHeader_read_fields
      (\<lambda>h f2. let c = FragmentHeader_check h in if is_ok c then (Inr h, f2) else (Inl c, f2)))"
    unfolding FragmentHeader_read_fields_def by (intro fails_bind read_field_fails fails_return fails_check)
  then show ?thesis unfolding fails_properly_def
    by (auto simp: FragmentHeader_load_def Let_def split: prod.splits if_splits dest!: restoring_fails [rotated])
qed

lemma FragmentPayload_load_fails: "fails_properly (FragmentPayload_load n)"
  using read_fixed_fails [of n WAL_FILE_BLOCK_SIZE]
  by (cases "n = 0") (auto simp: fails_properly_def FragmentPayload_load_def read_bytes_eq_fixed)

lemma Fragment_load_fails: "Fragment_load z f \<noteq> (Inl Ok, f')"
proof -
  have body: "fails_properly (fragment_body z n h)" for n h
  proof -
    have "fails_properly (bind_r (FragmentPayload_load fs) (\<lambda>bytes f3.
        let c = Fragment_check_crc z \<lparr>frag_header = h, payload = bytes\<rparr> in
        if is_ok c then (Inr (Some \<lparr>frag_header = h, payload = bytes\<rparr>), f3) else (Inl c, f3)))" for fs
      by (intro fails_bind FragmentPayload_load_fails fails_check)
    then show ?thesis unfolding fails_properly_def fragment_body_def Let_def by simp
  qed
  have "bind_r FragmentHeader_load (fragment_body z n) g \<noteq> (Inl Ok, g')" for n g g'
    using fails_bind [OF FragmentHeader_load_fails body, of "\<lambda>_. n"] by (simp add: fails_properly_def)
  then have "restoring i (bind_r FragmentHeader_load (fragment_body z n) g) \<noteq> (Inl Ok, f')" for i n g
    by (intro restoring_fails) (metis prod.collapse)
  moreover obtain c x where "ensure_fits_in_block_r (FragmentHeader_disk_size + 1) WAL_FILE_BLOCK_SIZE f =
    (c, f\<lparr>roff := x\<rparr>)" using ensure_fits_r_moves by blast
  then have "Fragment_load z f = (if \<not> rfd f then (Inl GetSizeFailed, f)
      else if roff f = length (rdata f) then (Inr None, f)
      else if roff f > length (rdata f) then (Inl InvalidOffset, f)
      else if \<not> is_ok c then (Inl c, f)
      else if x \<ge> length (rdata f) then (Inr None, f\<lparr>roff := length (rdata f)\<rparr>)
      else if length (rdata f) - x < FragmentHeader_disk_size then (Inl UnexpectedEOF, f)
      else restoring (roff f) (bind_r FragmentHeader_load (fragment_body z (length (rdata f))) (f\<lparr>roff := x\<rparr>)))"
    by (simp add: Fragment_load_def get_file_size_def fragment_body_def [abs_def] Let_def)
  ultimately show ?thesis by simp
qed

lemma load_loop_stream:
  assumes "s = asm_init \<or> active s" "last_good_offset (str_result l) = lg"
    "logical_record (str_result l) = None" "str_state l = Ready" "res_ok res"
  shows "load_loop z s lg (take_checkpoint ar) res ar f =
    batch_after z res (stream_loop z s (take_checkpoint ar) ar f l)"
  using assms(1)
proof (induction "length (rdata f) - roff f" arbitrary: f s rule: less_induct)
  case less
  obtain x g where g: "Fragment_load z f = (x, g)" by (cases "Fragment_load z f")
  note unf = load_loop.simps [of z s lg "take_checkpoint ar" res ar f]
    stream_loop.simps [of z s "take_checkpoint ar" ar f l] g
  have ok: "res\<lparr>had_torn_tail := True, res_ok := True\<rparr> = res\<lparr>had_torn_tail := True\<rparr>" using assms(5) by simp
  note marks = batch_after_def stream_give_up_def give_up_def mark_torn_tail_def mark_corruption_def
    rollback_here
  show ?case
  proof (cases x)
    case (Inl code)
    have "code \<noteq> Ok" using Fragment_load_fails [of z f g] g Inl by auto
    with assms(2-4) ok show ?thesis unfolding unf Inl by (simp add: load_failed_def marks)
  next
    case (Inr o1)
    show ?thesis
    proof (cases o1)
      case None
      with assms(2-4) show ?thesis unfolding unf Inr by (simp add: marks)
    next
      case (Some fr)
      have lt: "length (rdata g) - roff g < length (rdata f) - roff f"
        using Fragment_load_keeps [OF g] Inr Some by (simp add: diff_less_mono2)
      show ?thesis
      proof (cases "consume fr s ar")
        case None
        then show ?thesis unfolding unf Inr Some by (simp add: batch_after_def)
      next
        case (Some t)
        obtain y s' ar' where t: "t = (y, s', ar')" by (cases t)
        show ?thesis
          using less.hyps [OF lt, of s'] consume_NoneD [of fr s ar s' ar'] consume_SomeD [of fr s ar _ s' ar'] less.prems
            assms(2-4) Some t Inr \<open>o1 = Some fr\<close>
          unfolding unf by (auto simp: marks split: sum.split option.split)
      qed
    qed
  qed
qed

lemma reset_call_fields [simp]:
  "str_state (reset_call_result l) = str_state l" "str_file (reset_call_result l) = str_file l"
  "str_arena (reset_call_result l) = str_arena l"
  "str_header (str_result (reset_call_result l)) = str_header (str_result l)"
  "last_good_offset (str_result (reset_call_result l)) = last_good_offset (str_result l)"
  "logical_record (str_result (reset_call_result l)) = None"
  by (simp_all add: reset_call_result_def)

lemma load_next_ready:
  assumes "str_state l = Ready" "str_file l = Some f" "str_header (str_result l) = Some h"
    "validate_state off wid (reset_call_result l) = Ok"
  shows "load_next z wid off l = stream_loop z asm_init (take_checkpoint (str_arena l)) (str_arena l)
    (f\<lparr>roff := off\<rparr>) (reset_call_result l)"
  using assms by (simp add: load_next_def load_next_records_def)

text \<open>C8 (streaming loader refines batch loader). From any point between two records the batch
  loop does what one \<open>load_next\<close> call reports: it continues behind the record that the call
  returned, or stops with the call's status or terminal state.\<close>

theorem wal_batch_iterates_streaming:
  assumes "str_state l = Ready" "str_file l = Some f" "str_header (str_result l) = Some h"
    "validate_state off wid l = Ok" "last_good_offset (str_result l) = off" "res_ok res"
  shows "load_loop z asm_init off (take_checkpoint (str_arena l)) res (str_arena l) (f\<lparr>roff := off\<rparr>) =
    batch_after z res (load_next z wid off l)"
proof -
  let ?l = "reset_call_result l"
  have "validate_state off wid ?l = Ok"
    using assms(4) by (simp only: validate_state_def reset_call_fields)
  note n = load_next_ready [OF assms(1-3) this, of z]
  show ?thesis unfolding n
    using assms(1,5,6) by (intro load_loop_stream) simp_all
qed

text \<open>Once the end of the file, a torn tail or corruption has been reported,
  every further \<open>load_next\<close> reports the same, reads nothing, returns no record and leaves offset,
  file and arena alone.\<close>

lemma wal_terminal_states_stable:
  assumes "str_state l \<in> {EndOfFile, TornTail, Corrupted}"
  shows "\<exists>l'. load_next z wid off l = Some (Ok, off, l') \<and> str_state l' = str_state l \<and>
    str_file l' = str_file l \<and> str_arena l' = str_arena l \<and> logical_record (str_result l') = None \<and>
    last_good_offset (str_result l') = last_good_offset (str_result l) \<and>
    load_next z wid off l' = Some (Ok, off, l') \<and>
    (reached_eof (str_result l'), str_torn_tail (str_result l'), str_corruption (str_result l')) =
      (str_state l = EndOfFile, str_state l = TornTail, str_state l = Corrupted)"
  using assms by (auto simp: load_next_def reset_call_result_def)

end
