(* ===== verification/WALSession.thy ===== *)
theory WALSession
  imports WALStreaming "HOL-Library.Sublist"
begin

text \<open>
  Sessions of the log. A session is any list of calls to \<open>write\<close> and \<open>sync\<close>; like the callers of
  the writer it goes on after a call that failed. The records written before the first failed write
  are \<open>intact\<close>: they come back from every crash that keeps their bytes, whatever follows them in the
  file. A write that follows a failed one stands behind a torn record, and may be lost although it
  was acknowledged.
\<close>

section \<open>Sessions\<close>

datatype wal_call = LogWrite InternalRecord | LogSync

definition WALWriter_call :: "zlib \<Rightarrow> wal_call \<Rightarrow> WALWriter action" where
  "WALWriter_call z c = (case c of LogWrite r \<Rightarrow> WALWriter_write z r | LogSync \<Rightarrow> WALWriter_sync)"

fun WALWriter_calls :: "zlib \<Rightarrow> wal_call list \<Rightarrow> WALWriter \<Rightarrow> StatusCode list \<times> WALWriter" where
  "WALWriter_calls z [] w = ([], w)"
| "WALWriter_calls z (c # cs) w =
     (case WALWriter_call z c w of (s, w1) \<Rightarrow>
      case WALWriter_calls z cs w1 of (ss, w2) \<Rightarrow> (s # ss, w2))"

text \<open>The records given to the log; those written before the first write that failed; whether a
  write follows one that failed.\<close>

fun logged :: "wal_call list \<Rightarrow> InternalRecord list" where
  "logged [] = []"
| "logged (LogWrite r # cs) = r # logged cs"
| "logged (LogSync # cs) = logged cs"

fun intact :: "wal_call list \<Rightarrow> StatusCode list \<Rightarrow> InternalRecord list" where
  "intact (LogWrite r # cs) (s # ss) = (if s = Ok then r # intact cs ss else [])"
| "intact (LogSync # cs) (s # ss) = intact cs ss"
| "intact _ _ = []"

fun resumed :: "wal_call list \<Rightarrow> StatusCode list \<Rightarrow> bool" where
  "resumed (LogWrite r # cs) (s # ss) \<longleftrightarrow> (if s = Ok then resumed cs ss else logged cs \<noteq> [])"
| "resumed (LogSync # cs) (s # ss) \<longleftrightarrow> resumed cs ss"
| "resumed _ _ \<longleftrightarrow> False"

lemma logged_append [simp]: "logged (cs @ ds) = logged cs @ logged ds"
  by (induction cs rule: logged.induct) simp_all

lemma intact_append: "length ss = length cs \<Longrightarrow> prefix (intact cs ss) (intact (cs @ ds) (ss @ ts))"
  by (induction cs ss rule: intact.induct) auto

lemma intact_writes: "intact (map LogWrite rs) (replicate (length rs) Ok) = rs" "logged (map LogWrite rs) = rs"
  by (induction rs) simp_all

lemma WALWriter_calls_append:
  assumes "WALWriter_calls z cs w = (ss, w1)" "WALWriter_calls z ds w1 = (ts, w2)"
  shows "WALWriter_calls z (cs @ ds) w = (ss @ ts, w2)" "length ss = length cs"
proof -
  from assms(1) have "WALWriter_calls z (cs @ ds) w = (ss @ ts, w2) \<and> length ss = length cs"
    by (induction cs arbitrary: w ss) (auto simp: assms(2) split: prod.splits)
  then show "WALWriter_calls z (cs @ ds) w = (ss @ ts, w2)" "length ss = length cs" by simp_all
qed

lemma intact_logged: "prefix (intact cs ss) (logged cs)"
  by (induction cs ss rule: intact.induct) auto

lemma intact_loggable: "\<forall>r \<in> set (logged cs). loggable r \<Longrightarrow> \<forall>r \<in> set (intact cs ss). loggable r"
  using set_mono_prefix [OF intact_logged] by blast

lemma resumed_none: "logged cs = [] \<Longrightarrow> \<not> resumed cs ss"
  by (induction cs ss rule: resumed.induct) auto

lemma intact_not_resumed: "intact cs ss = logged cs \<Longrightarrow> \<not> resumed cs ss"
  by (induction cs ss rule: resumed.induct) (auto simp: resumed_none split: if_splits)

lemma emits_stopsD:
  assumes "emits a bs f" "a f = (c, f')" "stops_after j (wenv f) rest"
  shows "j < length bs \<Longrightarrow> c = WriteFailed \<and> wenv f' = rest"
    "length bs \<le> j \<Longrightarrow> c = Ok \<and> stops_after (j - length bs) (wenv f') rest" "wsenv f' = wsenv f"
proof -
  from assms obtain n where n: "wsenv f' = wsenv f" "\<forall>j rest. stops_after j (wenv f) rest \<longrightarrow>
      (if j < length bs then c = WriteFailed \<and> n = j \<and> wenv f' = rest
       else c = Ok \<and> stops_after (j - length bs) (wenv f') rest)"
    unfolding emits_def by auto
  from n(2) [rule_format, OF assms(3)] n(1) show "j < length bs \<Longrightarrow> c = WriteFailed \<and> wenv f' = rest"
    "length bs \<le> j \<Longrightarrow> c = Ok \<and> stops_after (j - length bs) (wenv f') rest" "wsenv f' = wsenv f" by simp_all
qed

text \<open>A single write appends a prefix of the record's layout, and keeps the writer's offset right
  also when it fails.\<close>

lemma WALWriter_write_bytes:
  assumes "wal_file w = Some f" "tracked f" "loggable r" "WALWriter_write z r w = (c, w')"
  defines "bs \<equiv> payload_bytes z r (record_payload r) True (length (wdata f))"
  obtains f' n where "wal_file w' = Some f'" "tracked f'" "n \<le> length bs" "wdata f' = wdata f @ take n bs"
    "c = Ok \<longrightarrow> n = length bs" "wsynced f' = wsynced f" "wsenv f' = wsenv f"
    "write_faultfree f \<longrightarrow> c = Ok \<and> write_faultfree f'"
    "\<And>j rest. stops_after j (wenv f) rest \<Longrightarrow>
       if j < length bs then c = WriteFailed \<and> n = j \<and> wenv f' = rest
       else c = Ok \<and> stops_after (j - length bs) (wenv f') rest"
proof -
  have em: "emits (write_payload_loop z r (record_payload r) True) bs f"
    unfolding bs_def using assms by (intro write_payload_loop_emits) (auto simp: loggable_def)
  obtain f' where f': "write_payload_loop z r (record_payload r) True f = (c, f')" "w' = w\<lparr>wal_file := Some f'\<rparr>"
    using assms(4) WALWriter_write_eq [OF assms(1-3), of z]
    by (cases "write_payload_loop z r (record_payload r) True f") auto
  from em obtain n where n: "n \<le> length bs" "c = Ok \<longrightarrow> n = length bs" "wdata f' = wdata f @ take n bs"
    "woff f' = woff f + n" "wfd f' = wfd f" "wsynced f' = wsynced f" "wsenv f' = wsenv f"
    "write_faultfree f \<longrightarrow> c = Ok \<and> write_faultfree f'"
    "\<forall>j rest. stops_after j (wenv f) rest \<longrightarrow>
       (if j < length bs then c = WriteFailed \<and> n = j \<and> wenv f' = rest
        else c = Ok \<and> stops_after (j - length bs) (wenv f') rest)"
    unfolding emits_def f'(1) by auto
  have "tracked f'" using assms(2) n by (simp add: tracked_def)
  with that [of f' n] f'(2) n show ?thesis by simp
qed

lemma WALWriter_sync_bytes:
  assumes "wal_file w = Some f" "tracked f" "WALWriter_sync w = (c, w')"
  obtains f' where "wal_file w' = Some f'" "tracked f'" "wdata f' = wdata f" "sync f = (c, f')"
    "write_faultfree f' = write_faultfree f" "c = Ok \<longrightarrow> wsynced f' = length (wdata f)"
    "c \<noteq> Ok \<longrightarrow> wsynced f' = wsynced f" "sync_faultfree f \<longrightarrow> c = Ok \<and> sync_faultfree f'"
proof -
  obtain f' where f': "sync f = (c, f')" "w' = w\<lparr>wal_file := Some f'\<rparr>"
    using assms by (cases "sync f")
      (auto simp: WALWriter_sync_def check_writer_offset_def current_position_def tracked_def)
  note sy = syncD [OF f'(1)]
  have "sync_faultfree f \<longrightarrow> c = Ok \<and> sync_faultfree f'"
    using fsync_loop_faultfree [of f] sy(7) f'(1) assms(2)
    by (auto simp: sync_def tracked_def sync_faultfree_def)
  with that [of f'] f' sy assms(2) show ?thesis by auto
qed

text \<open>What a session leaves in the file: the layout of the intact records, and behind it what the
  calls from the first failed write on appended. Without a write after a failed one the file is a
  prefix of the layout of all records. What is durable stays durable.\<close>

lemma WALWriter_calls_bytes:
  assumes "wal_file w = Some f" "tracked f" "\<forall>r \<in> set (logged cs). loggable r"
    "WALWriter_calls z cs w = (ss, w')"
  shows "\<exists>f' tail n. wal_file w' = Some f' \<and> tracked f' \<and>
    wdata f' = wdata f @ log_bytes z (intact cs ss) (length (wdata f)) @ tail \<and>
    (intact cs ss = logged cs \<longrightarrow> tail = []) \<and>
    (\<not> resumed cs ss \<longrightarrow> wdata f' = wdata f @ take n (log_bytes z (logged cs) (length (wdata f)))) \<and>
    (wsynced f \<le> length (wdata f) \<longrightarrow> wsynced f \<le> wsynced f' \<and> wsynced f' \<le> length (wdata f')) \<and>
    (write_faultfree f \<and> sync_faultfree f \<longrightarrow> set ss \<subseteq> {Ok} \<and> intact cs ss = logged cs)"
  using assms
proof (induction cs arbitrary: w f ss)
  case Nil
  then show ?case by (intro exI [of _ f] exI [of _ "[]"] exI [of _ 0]) auto
next
  case (Cons c cs)
  obtain s w1 where w1: "WALWriter_call z c w = (s, w1)" by (cases "WALWriter_call z c w")
  obtain ss' where ss: "WALWriter_calls z cs w1 = (ss', w')" "ss = s # ss'"
    using Cons.prems(4) w1 by (auto split: prod.splits)
  have log: "\<forall>r \<in> set (logged cs). loggable r" using Cons.prems(3) by (cases c) auto
  show ?case
  proof (cases c)
    case LogSync
    obtain g where g: "wal_file w1 = Some g" "tracked g" "wdata g = wdata f"
      "write_faultfree g = write_faultfree f" "s = Ok \<longrightarrow> wsynced g = length (wdata f)"
      "s \<noteq> Ok \<longrightarrow> wsynced g = wsynced f" "sync_faultfree f \<longrightarrow> s = Ok \<and> sync_faultfree g"
      using WALWriter_sync_bytes [OF Cons.prems(1,2)] w1 LogSync by (auto simp: WALWriter_call_def)
    have "wsynced f \<le> length (wdata f) \<longrightarrow> wsynced f \<le> wsynced g \<and> wsynced g \<le> length (wdata g)"
      using g by (cases "s = Ok") auto
    note sy = this
    from Cons.IH [OF g(1,2) log ss(1)] obtain f' tail m where f': "wal_file w' = Some f'" "tracked f'"
      "wdata f' = wdata f @ log_bytes z (intact cs ss') (length (wdata f)) @ tail"
      "intact cs ss' = logged cs \<longrightarrow> tail = []"
      "\<not> resumed cs ss' \<longrightarrow> wdata f' = wdata f @ take m (log_bytes z (logged cs) (length (wdata f)))"
      "wsynced g \<le> length (wdata g) \<longrightarrow> wsynced g \<le> wsynced f' \<and> wsynced f' \<le> length (wdata f')"
      "write_faultfree g \<and> sync_faultfree g \<longrightarrow> set ss' \<subseteq> {Ok} \<and> intact cs ss' = logged cs"
      unfolding g(3) by blast
    have "wsynced f \<le> length (wdata f) \<longrightarrow> wsynced f \<le> wsynced f' \<and> wsynced f' \<le> length (wdata f')"
      using sy f'(6) by linarith
    moreover have "write_faultfree f \<and> sync_faultfree f \<longrightarrow> set ss \<subseteq> {Ok} \<and> intact (c # cs) ss = logged (c # cs)"
      using f'(7) g(4,7) ss(2) LogSync by auto
    ultimately show ?thesis using f'(1-5) LogSync ss(2)
      by (intro exI [of _ f'] exI [of _ tail] exI [of _ m]) simp
  next
    case (LogWrite r)
    let ?bs = "payload_bytes z r (record_payload r) True (length (wdata f))"
    have r: "loggable r" "WALWriter_write z r w = (s, w1)"
      using Cons.prems(3) w1 LogWrite by (simp_all add: WALWriter_call_def)
    obtain g n where g: "wal_file w1 = Some g" "tracked g" "n \<le> length ?bs" "wdata g = wdata f @ take n ?bs"
      "s = Ok \<longrightarrow> n = length ?bs" "wsynced g = wsynced f" "wsenv g = wsenv f"
      "write_faultfree f \<longrightarrow> s = Ok \<and> write_faultfree g"
      by (rule WALWriter_write_bytes [OF Cons.prems(1,2) r])
    from Cons.IH [OF g(1,2) log ss(1)] obtain f' tail m where f': "wal_file w' = Some f'" "tracked f'"
      "wdata f' = wdata g @ log_bytes z (intact cs ss') (length (wdata g)) @ tail"
      "intact cs ss' = logged cs \<longrightarrow> tail = []"
      "\<not> resumed cs ss' \<longrightarrow> wdata f' = wdata g @ take m (log_bytes z (logged cs) (length (wdata g)))"
      "wsynced g \<le> length (wdata g) \<longrightarrow> wsynced g \<le> wsynced f' \<and> wsynced f' \<le> length (wdata f')"
      "write_faultfree g \<and> sync_faultfree g \<longrightarrow> set ss' \<subseteq> {Ok} \<and> intact cs ss' = logged cs"
      by blast
    have ff: "write_faultfree f \<and> sync_faultfree f \<longrightarrow> set ss \<subseteq> {Ok} \<and> intact (c # cs) ss = logged (c # cs)"
      using f'(7) g(7,8) ss(2) LogWrite by (auto simp: sync_faultfree_def)
    have sy: "wsynced f \<le> length (wdata f) \<longrightarrow> wsynced f \<le> wsynced f' \<and> wsynced f' \<le> length (wdata f')"
      using f'(6) g(4,6) by auto
    show ?thesis
    proof (cases "s = Ok")
      case True
      with f' g ff sy LogWrite ss(2) show ?thesis
        by (intro exI [of _ f'] exI [of _ tail] exI [of _ "length ?bs + m"]) (simp add: Let_def)
    next
      case False
      have "\<not> resumed (c # cs) ss \<longrightarrow> wdata f' = wdata f @ take n (log_bytes z (logged (c # cs)) (length (wdata f)))"
      proof
        assume "\<not> resumed (c # cs) ss"
        then have e: "logged cs = []" using False LogWrite ss(2) by simp
        then have "\<not> resumed cs ss'" by (rule resumed_none)
        with f'(5) e g(3,4) LogWrite show "wdata f' = wdata f @ take n (log_bytes z (logged (c # cs)) (length (wdata f)))"
          by (simp add: Let_def)
      qed
      with f'(1-3) g(4) ff sy False LogWrite ss(2) show ?thesis
        by (intro exI [of _ f'] exI [of _ "take n ?bs @ log_bytes z (intact cs ss') (length (wdata g)) @ tail"] exI [of _ n]) simp
    qed
  qed
qed

section \<open>Loading behind arbitrary bytes\<close>

text \<open>\<open>reads_any n m\<close>: where \<open>n\<close> bytes are left in the file and in the block, the reader takes them,
  whatever they are.\<close>

definition reads_any :: "nat \<Rightarrow> (rfile, 'a) reader \<Rightarrow> bool" where
  "reads_any n m \<longleftrightarrow> (\<forall>f. read_quiet (rdata f) f \<longrightarrow> roff f + n \<le> length (rdata f) \<longrightarrow>
     roff f mod WAL_FILE_BLOCK_SIZE + n \<le> WAL_FILE_BLOCK_SIZE \<longrightarrow> (\<exists>v. yields m (Inr v) (roff f + n) f))"

lemma reads_anyD:
  assumes "reads_any n m" "read_quiet D f" "roff f + n \<le> length D"
    "roff f mod WAL_FILE_BLOCK_SIZE + n \<le> WAL_FILE_BLOCK_SIZE"
  obtains v g where "m f = (Inr v, g)" "read_quiet D g" "roff g = roff f + n"
proof -
  have D: "rdata f = D" by (rule quiet_data [OF assms(2)])
  have "\<exists>v. yields m (Inr v) (roff f + n) f"
    using assms unfolding reads_any_def D [symmetric] by blast
  then show ?thesis using that unfolding yields_def D by blast
qed

lemma reads_any_return: "reads_any 0 (return_r v)"
  by (auto simp: reads_any_def intro: yields_return)

lemma reads_any_bind:
  assumes "reads_any n m" "\<And>v. reads_any k (h v)"
  shows "reads_any (n + k) (bind_r m h)"
  unfolding reads_any_def
proof (intro allI impI)
  fix f
  assume q: "read_quiet (rdata f) f" and le: "roff f + (n + k) \<le> length (rdata f)"
    and room: "roff f mod WAL_FILE_BLOCK_SIZE + (n + k) \<le> WAL_FILE_BLOCK_SIZE"
  have rm: "roff f + n \<le> length (rdata f)" "roff f mod WAL_FILE_BLOCK_SIZE + n \<le> WAL_FILE_BLOCK_SIZE"
    using le room by simp_all
  obtain v g where g: "m f = (Inr v, g)" "read_quiet (rdata f) g" "roff g = roff f + n"
    by (rule reads_anyD [OF assms(1) q rm])
  have "roff g mod WAL_FILE_BLOCK_SIZE + k \<le> WAL_FILE_BLOCK_SIZE" "roff g + k \<le> length (rdata f)"
    using g(3) le room block_room [of "roff f" WAL_FILE_BLOCK_SIZE "n + k" n k]
      mod_less_divisor [OF B_pos, of "roff g"] by (cases "k = 0"; simp)+
  then obtain w g' where "h v g = (Inr w, g')" "read_quiet (rdata f) g'" "roff g' = roff g + k"
    using reads_anyD [OF assms(2) g(2)] by metis
  with g have "yields (bind_r m h) (Inr w) (roff f + (n + k)) f" by (simp add: yields_def quiet_data add.assoc)
  then show "\<exists>w. yields (bind_r m h) (Inr w) (roff f + (n + k)) f" ..
qed

lemma read_fixed_any: "reads_any n (read_fixed n WAL_FILE_BLOCK_SIZE)"
  unfolding reads_any_def
proof (intro allI impI)
  fix f
  assume q: "read_quiet (rdata f) f" and le: "roff f + n \<le> length (rdata f)"
    and room: "roff f mod WAL_FILE_BLOCK_SIZE + n \<le> WAL_FILE_BLOCK_SIZE"
  show "\<exists>v. yields (read_fixed n WAL_FILE_BLOCK_SIZE) (Inr v) (roff f + n) f"
    using read_fixed_yields [of f WAL_FILE_BLOCK_SIZE n] q le room pad_before_ok [OF room] quiet_room [OF q]
    by auto
qed

lemma read_field_any:
  "reads_any 1 (read_u8_t WAL_FILE_BLOCK_SIZE)" "reads_any 4 (read_u32_t_le WAL_FILE_BLOCK_SIZE)"
  "reads_any 8 (read_u64_t_le WAL_FILE_BLOCK_SIZE)"
  unfolding read_u8_t_def read_u32_t_le_def read_u64_t_le_def
  using reads_any_bind [OF read_fixed_any reads_any_return] by simp_all

lemma FragmentHeader_read_fields_any: "reads_any 22 FragmentHeader_read_fields"
proof -
  have "reads_any (4 + (4 + (1 + (1 + (8 + (4 + 0)))))) FragmentHeader_read_fields"
    unfolding FragmentHeader_read_fields_def by (intro reads_any_bind reads_any_return read_field_any)
  then show ?thesis by simp
qed

text \<open>On a quiet device a fragment that cannot be loaded is a torn tail or corruption.\<close>

definition bad_bytes :: "StatusCode \<Rightarrow> bool" where
  "bad_bytes c \<longleftrightarrow> is_recoverable_tail_error c \<or> is_corruption_error c"

lemma FragmentHeader_load_quiet:
  assumes q: "read_quiet D f" and le: "roff f + 22 \<le> length D"
    and room: "roff f mod WAL_FILE_BLOCK_SIZE + 22 \<le> WAL_FILE_BLOCK_SIZE"
  obtains (ok) h g where "FragmentHeader_load f = (Inr h, g)" "FragmentHeader_check h = Ok" "read_quiet D g" "roff g = roff f + 22"
    | (bad) c g where "FragmentHeader_load f = (Inl c, g)" "bad_bytes c" "read_quiet D g"
proof -
  obtain h g where g: "FragmentHeader_read_fields f = (Inr h, g)" "read_quiet D g" "roff g = roff f + 22"
    by (rule reads_anyD [OF FragmentHeader_read_fields_any q le room])
  have "ensure_fits_in_block_r FragmentHeader_disk_size WAL_FILE_BLOCK_SIZE f = (Ok, f)"
    using room by (intro ensure_fits_r_stay) (simp_all add: FragmentHeader_disk_size_def)
  with g have eq: "FragmentHeader_load f = (if FragmentHeader_check h = Ok then (Inr h, g)
      else (Inl (FragmentHeader_check h), g\<lparr>roff := roff f\<rparr>))"
    by (simp add: FragmentHeader_load_def Let_def restoring_def)
  have codes: "FragmentHeader_check h \<noteq> Ok \<Longrightarrow> bad_bytes (FragmentHeader_check h)"
    by (auto simp: FragmentHeader_check_def bad_bytes_def is_corruption_error_def)
  show ?thesis
  proof (cases "FragmentHeader_check h = Ok")
    case True
    with ok [of h g] eq g show ?thesis by simp
  next
    case False
    with bad [of "FragmentHeader_check h" "g\<lparr>roff := roff f\<rparr>"] eq g codes show ?thesis by simp
  qed
qed

lemma fragment_body_quiet:
  assumes q: "read_quiet D f" and le: "roff f \<le> length D" and h: "FragmentHeader_check h = Ok"
  obtains (ok) fr g where "fragment_body z (length D) h f = (Inr (Some fr), g)" "read_quiet D g" "roff g \<le> length D"
    | (bad) c g where "fragment_body z (length D) h f = (Inl c, g)" "bad_bytes c" "read_quiet D g"
proof -
  let ?n = "unat (fragment_size h)"
  have codes: "bad_bytes InvalidPayloadSize" "bad_bytes UnexpectedEOF"
    by (simp_all add: bad_bytes_def is_corruption_error_def is_recoverable_tail_error_def)
  consider (size) "?n > WAL_FILE_BLOCK_SIZE - roff f mod WAL_FILE_BLOCK_SIZE \<or>
      ?n > WAL_FILE_BLOCK_SIZE - FragmentHeader_disk_size" | (eof) "length D - roff f < ?n"
    | (all) "?n \<le> WAL_FILE_BLOCK_SIZE - roff f mod WAL_FILE_BLOCK_SIZE"
      "?n \<le> WAL_FILE_BLOCK_SIZE - FragmentHeader_disk_size" "?n \<le> length D - roff f" by linarith
  then show ?thesis
  proof cases
    case all
    have room: "roff f mod WAL_FILE_BLOCK_SIZE + ?n \<le> WAL_FILE_BLOCK_SIZE" "roff f + ?n \<le> length D"
      using all mod_less_divisor [OF B_pos, of "roff f"] le by linarith+
    have fit: "is_ok (fits_in_block (roff f) ?n WAL_FILE_BLOCK_SIZE)" using all(1) by (simp add: fits_in_block_def)
    obtain bs g where g: "FragmentPayload_load ?n f = (Inr bs, g)" "read_quiet D g" "roff g = roff f + ?n" "length bs = ?n"
    proof (cases "?n = 0")
      case True
      with fit q that [of "[]" f] show ?thesis by (simp add: FragmentPayload_load_def)
    next
      case False
      have "yields (read_fixed ?n WAL_FILE_BLOCK_SIZE) (Inr (take ?n (drop (roff f) D))) (roff f + ?n) f"
        using read_fixed_yields [of f WAL_FILE_BLOCK_SIZE ?n] q room pad_before_ok [OF room(1)] quiet_room [OF q] le
        by (simp add: quiet_data)
      then obtain g where "read_fixed ?n WAL_FILE_BLOCK_SIZE f = (Inr (take ?n (drop (roff f) D)), g)" "read_quiet D g"
        "roff g = roff f + ?n" using q by (auto simp: yields_def quiet_data)
      with fit False room(2) that show ?thesis by (simp add: FragmentPayload_load_def read_bytes_eq_fixed)
    qed
    let ?fr = "\<lparr>frag_header = h, payload = bs\<rparr>"
    have eq: "fragment_body z (length D) h f = (if Fragment_check_crc z ?fr = Ok then (Inr (Some ?fr), g)
        else (Inl (Fragment_check_crc z ?fr), g))"
      using all g by (simp add: fragment_body_def Let_def)
    have crc: "Fragment_check_crc z ?fr \<noteq> Ok \<Longrightarrow> bad_bytes (Fragment_check_crc z ?fr)"
      using h g(4) by (auto simp: Fragment_check_crc_def Fragment_compute_crc32_def FragmentHeader_check_def
        bad_bytes_def is_corruption_error_def Let_def split: if_splits)
    show ?thesis
    proof (cases "Fragment_check_crc z ?fr = Ok")
      case True
      with ok [of ?fr g] eq g room(2) show ?thesis by simp
    next
      case False
      with bad [of "Fragment_check_crc z ?fr" g] eq g crc show ?thesis by simp
    qed
  next
    case size
    then have "fragment_body z (length D) h f = (Inl InvalidPayloadSize, f)" by (auto simp: fragment_body_def Let_def)
    from bad [OF this codes(1) q] show ?thesis .
  next
    case eof
    then have "fragment_body z (length D) h f = (Inl InvalidPayloadSize, f) \<or>
        fragment_body z (length D) h f = (Inl UnexpectedEOF, f)" by (simp add: fragment_body_def Let_def)
    with bad [OF _ codes(1) q] bad [OF _ codes(2) q] show ?thesis by blast
  qed
qed

lemma Fragment_load_quiet:
  assumes q: "read_quiet D f" and le: "roff f \<le> length D"
  obtains x g where "Fragment_load z f = (x, g)" "read_quiet D g" "\<And>c. x = Inl c \<Longrightarrow> bad_bytes c"
    "\<And>fr. x = Inr (Some fr) \<Longrightarrow> roff g \<le> length D"
proof (cases "roff f < length D")
  case False
  with le q that [of "Inr None" f] show ?thesis
    by (simp add: Fragment_load_def get_file_size_def read_quiet_def)
next
  case True
  define s where "s = roff f + length (frag_pad (roff f))"
  let ?f = "f\<lparr>roff := s\<rparr>"
  note at = Fragment_load_at [OF q True, of z, folded s_def]
  have eof: "bad_bytes UnexpectedEOF" by (simp add: bad_bytes_def is_recoverable_tail_error_def)
  consider (clean) "length D \<le> s" | (short) "s < length D" "length D - s < 22" | (frag) "s < length D" "s + 22 \<le> length D"
    by linarith
  then show ?thesis
  proof cases
    case frag
    have room: "roff ?f mod WAL_FILE_BLOCK_SIZE + 22 \<le> WAL_FILE_BLOCK_SIZE"
      using frag_pad_fits [of "roff f"] by (simp add: s_def FragmentHeader_disk_size_def)
    have F: "Fragment_load z f = restoring (roff f) (bind_r FragmentHeader_load (fragment_body z (length D)) ?f)"
    proof -
      have "\<not> s \<ge> length D" "\<not> length D - s < FragmentHeader_disk_size"
        using frag by (simp_all add: FragmentHeader_disk_size_def)
      then show ?thesis using at by (simp only: if_False)
    qed
    have qf: "read_quiet D ?f" "roff ?f + 22 \<le> length D" using q frag(2) by simp_all
    show ?thesis
    proof (rule FragmentHeader_load_quiet [OF qf room])
      fix c g assume g: "FragmentHeader_load ?f = (Inl c, g)" "bad_bytes c" "read_quiet D g"
      then have "Fragment_load z f = (Inl c, g\<lparr>roff := roff f\<rparr>)" by (simp add: F restoring_def)
      from that [OF this] g show ?thesis by simp
    next
      fix h g assume g: "FragmentHeader_load ?f = (Inr h, g)" "FragmentHeader_check h = Ok" "read_quiet D g"
        "roff g = roff ?f + 22"
      have le': "roff g \<le> length D" using g(4) frag(2) by simp
      show ?thesis
      proof (rule fragment_body_quiet [OF g(3) le' g(2), of z])
        fix c k assume k: "fragment_body z (length D) h g = (Inl c, k)" "bad_bytes c" "read_quiet D k"
        with g have "Fragment_load z f = (Inl c, k\<lparr>roff := roff f\<rparr>)" by (simp add: F restoring_def)
        from that [OF this] k show ?thesis by simp
      next
        fix fr k assume k: "fragment_body z (length D) h g = (Inr (Some fr), k)" "read_quiet D k" "roff k \<le> length D"
        with g have "Fragment_load z f = (Inr (Some fr), k)" by (simp add: F restoring_def)
        from that [OF this] k show ?thesis by simp
      qed
    qed
  next
    case short
    then have "Fragment_load z f = (Inl UnexpectedEOF, f)" using at by (simp add: FragmentHeader_disk_size_def)
    from that [OF this q] eof show ?thesis by simp
  next
    case clean
    then have "Fragment_load z f = (Inr None, f\<lparr>roff := length D\<rparr>)" using at by simp
    from that [OF this] q show ?thesis by simp
  qed
qed

text \<open>From any point of any file the loop returns a result that keeps the records found so far.\<close>

lemma give_up_grows:
  assumes "arena_ok a" "grows a ar"
  shows "\<exists>ar'. give_up r (take_checkpoint a) lg ar f = Some (r, ar', f\<lparr>roff := lg\<rparr>) \<and> arena_ok ar' \<and> grows a ar'"
proof -
  obtain ds where "rollback (take_checkpoint a) ar = Some (a\<lparr>oom := oom ar, destroyed := destroyed ar @ rev ds\<rparr>)"
    using rollback_restores [OF assms(2)] by blast
  with assms show ?thesis by (auto simp: give_up_def arena_ok_def grows_def)
qed

lemma load_failed_grows:
  assumes "arena_ok a" "grows a ar" "bad_bytes c"
  shows "\<exists>res' ar' f'. load_failed c res (take_checkpoint a) lg ar f = Some (Inr res', ar', f') \<and>
    arena_ok ar' \<and> grows a ar' \<and> records res' = records res"
proof (cases "is_recoverable_tail_error c")
  case True
  with give_up_grows [OF assms(1,2), of "Inr (res\<lparr>had_torn_tail := True, res_ok := True\<rparr>)" lg f]
  show ?thesis by (auto simp: load_failed_def)
next
  case False
  with assms(3) give_up_grows [OF assms(1,2), of "Inr (res\<lparr>had_corruption := True, res_ok := False\<rparr>)" lg f]
  show ?thesis by (auto simp: load_failed_def bad_bytes_def)
qed

lemma load_loop_quiet:
  assumes "read_quiet D f" "roff f \<le> length D" "arena_ok a" "grows a ar" "arena_ok ar"
  shows "\<exists>res' ar' f'. load_loop z s lg (take_checkpoint a) res ar f = Some (Inr res', ar', f') \<and>
    arena_ok ar' \<and> grows a ar' \<and> prefix (records res) (records res')"
  using assms
proof (induction "length D - roff f" arbitrary: f s lg a res ar rule: less_induct)
  case less
  obtain x g where g: "Fragment_load z f = (x, g)" "read_quiet D g" "\<And>c. x = Inl c \<Longrightarrow> bad_bytes c"
    "\<And>fr. x = Inr (Some fr) \<Longrightarrow> roff g \<le> length D"
    using Fragment_load_quiet [OF less.prems(1,2)] by metis
  note unf = load_loop.simps [of z s lg "take_checkpoint a" res ar f]
  note stop = give_up_grows [OF less.prems(3)]
  show ?case
  proof (cases x)
    case (Inl c)
    with load_failed_grows [OF less.prems(3,4) g(3) [OF Inl], of res lg g] g(1) show ?thesis
      by (auto simp: unf)
  next
    case (Inr o1)
    show ?thesis
    proof (cases o1)
      case None
      with stop [OF less.prems(4), of "Inr (res\<lparr>had_torn_tail := True\<rparr>)" lg g] less.prems(4,5) Inr g(1)
      show ?thesis by (cases "active s") (auto simp: unf)
    next
      case (Some fr)
      obtain y s' ar' where c: "consume fr s ar = Some (y, s', ar')" "extends ar ar'"
        using consume_total [OF less.prems(5)] by blast
      have gr: "grows a ar'" "arena_ok ar'" using c(2) less.prems(4) grows_trans by (auto simp: extends_def)
      have gl: "roff g \<le> length D" using g(4) Inr Some by simp
      have lt: "length D - roff g < length D - roff f"
        using Fragment_load_keeps [OF g(1)] Inr Some less.prems(1) by (simp add: quiet_data diff_less_mono2)
      show ?thesis
      proof (cases y)
        case (Inl e)
        with stop [OF gr(1), of "Inr (res\<lparr>had_corruption := True, res_ok := False\<rparr>)" lg g] Inr Some c g(1)
        show ?thesis by (auto simp: unf)
      next
        case y: (Inr z')
        show ?thesis
        proof (cases z')
          case None
          with less.hyps [OF lt g(2) gl less.prems(3) gr, of s' lg res] y Inr Some c g(1) show ?thesis
            by (simp add: unf)
        next
          case r: (Some r)
          from less.hyps [OF lt g(2) gl gr(2) grows_refl gr(2), of s' "roff g" "res\<lparr>records := records res @ [r]\<rparr>"]
          obtain res' ar'' f' where "load_loop z s' (roff g) (take_checkpoint ar') (res\<lparr>records := records res @ [r]\<rparr>) ar' g =
              Some (Inr res', ar'', f')" "arena_ok ar''" "grows ar' ar''" "prefix (records res @ [r]) (records res')" by auto
          with y r Inr Some c g(1) grows_trans [OF gr(1)] show ?thesis by (auto simp: unf dest: append_prefixD)
        qed
      qed
    qed
  qed
qed

text \<open>The loop passes over complete records, whatever stands behind them.\<close>

lemma load_loop_records:
  assumes "read_quiet D f" "bytes_at D (roff f) (log_bytes z rs (roff f))" "\<forall>r \<in> set rs. loggable r" "arena_live ar"
  shows "\<exists>ar' f'. load_loop z asm_init (roff f) (take_checkpoint ar) res ar f =
      load_loop z asm_init (roff f') (take_checkpoint ar') (res\<lparr>records := records res @ rs\<rparr>) ar' f' \<and>
    arena_live ar' \<and> grows ar ar' \<and> read_quiet D f' \<and> roff f' = roff f + length (log_bytes z rs (roff f))"
  using assms
proof (induction rs arbitrary: f ar res)
  case Nil
  then show ?case by (intro exI [of _ ar] exI [of _ f]) simp
next
  case (Cons r rs)
  let ?bs = "payload_bytes z r (record_payload r) True (roff f)"
  have asm: "assembling r [] True asm_init" "[] @ record_payload r = record_payload r" by (simp_all add: assembling_def)
  have at: "bytes_at D (roff f) ?bs" "bytes_at D (roff f + length ?bs) (log_bytes z rs (roff f + length ?bs))"
    using Cons.prems(2) by (simp_all add: Let_def bytes_at_append)
  have "loggable r" using Cons.prems(3) by simp
  then obtain ar1 g where g: "load_loop z asm_init (roff f) (take_checkpoint ar) res ar f =
      load_loop z asm_init (roff g) (take_checkpoint ar1) (res\<lparr>records := records res @ [r]\<rparr>) ar1 g"
    "arena_live ar1" "grows ar ar1" "read_quiet D g" "roff g = roff f + length ?bs"
    using load_loop_complete [OF Cons.prems(1) asm record_payload_ne _ Cons.prems(4) at(1)] by blast
  from Cons.IH [OF g(4) _ _ g(2), of "res\<lparr>records := records res @ [r]\<rparr>"] at(2) g(5) Cons.prems(3)
  obtain ar' f' where "load_loop z asm_init (roff g) (take_checkpoint ar1) (res\<lparr>records := records res @ [r]\<rparr>) ar1 g =
      load_loop z asm_init (roff f') (take_checkpoint ar') (res\<lparr>records := records res @ r # rs\<rparr>) ar' f'"
    "arena_live ar'" "grows ar1 ar'" "read_quiet D f'" "roff f' = roff g + length (log_bytes z rs (roff g))" by auto
  with g(1,3,5) grows_trans [of ar ar1 ar'] show ?case
    by (intro exI [of _ ar'] exI [of _ f']) (simp add: Let_def)
qed

lemma load_header:
  assumes "read_quiet D f" "roff f = 0" "D = header_bytes (make_WALFileHeader z wid seq) @ X"
  obtains g where "WALLoader_load z wid ar f = load_loop z asm_init (roff g) (take_checkpoint ar)
      \<lparr>records = [], res_header = Some (make_WALFileHeader z wid seq), res_ok = True,
       had_torn_tail = False, had_corruption = False\<rparr> ar g"
    "read_quiet D g" "roff g = 40" "\<And>bs Y. X = bs @ Y \<Longrightarrow> bytes_at D (roff g) bs"
proof -
  let ?h = "make_WALFileHeader z wid seq"
  have at: "bytes_at D 0 (header_bytes ?h)" using assms(3) by (auto simp: bytes_at_def)
  obtain g where g: "WALFileHeader_load z wid f = (Inr (Some ?h), g)" "read_quiet D g" "roff g = 40"
    using WALFileHeader_load_header [OF assms(1,2) at, of z wid] quiet_data [OF assms(1)] by (auto simp: yields_def)
  moreover have "bytes_at D 40 bs" if "X = bs @ Y" for bs Y
    using assms(3) that by (auto simp: bytes_at_def WALFileHeader_disk_size_def)
  ultimately show ?thesis using that [of g] by (simp add: WALLoader_load_def)
qed

lemma WALLoader_load_log:
  assumes "read_quiet D f" "roff f = 0"
    "D = header_bytes (make_WALFileHeader z wid seq) @ log_bytes z rs 40 @ tail"
    "\<forall>r \<in> set rs. loggable r" "arena_live ar"
  shows "\<exists>res ar' f'. WALLoader_load z wid ar f = Some (Inr res, ar', f') \<and> arena_ok ar' \<and> grows ar ar' \<and>
    prefix rs (records res)"
proof -
  let ?res = "\<lparr>records = [], res_header = Some (make_WALFileHeader z wid seq), res_ok = True,
     had_torn_tail = False, had_corruption = False\<rparr> :: LoadResult"
  obtain g where g: "WALLoader_load z wid ar f = load_loop z asm_init (roff g) (take_checkpoint ar) ?res ar g"
    "read_quiet D g" "roff g = 40" "bytes_at D (roff g) (log_bytes z rs 40)"
    using load_header [OF assms(1-3), of ar] by metis
  obtain ar1 k where k: "load_loop z asm_init (roff g) (take_checkpoint ar) ?res ar g =
      load_loop z asm_init (roff k) (take_checkpoint ar1) (?res\<lparr>records := records ?res @ rs\<rparr>) ar1 k"
    "arena_live ar1" "grows ar ar1" "read_quiet D k" "roff k = 40 + length (log_bytes z rs 40)"
    using load_loop_records [OF g(2) _ assms(4,5), of z ?res] g(3,4) by auto
  have "roff k \<le> length D" using k(5) assms(3) by (simp add: WALFileHeader_disk_size_def)
  moreover have "arena_ok ar1" using k(2) by (simp add: arena_live_def)
  ultimately obtain res ar' f' where "load_loop z asm_init (roff k) (take_checkpoint ar1) (?res\<lparr>records := records ?res @ rs\<rparr>) ar1 k =
      Some (Inr res, ar', f')" "arena_ok ar'" "grows ar1 ar'" "prefix rs (records res)"
    using load_loop_quiet [OF k(4) _ _ grows_refl, of ar1 z asm_init "roff k" "?res\<lparr>records := records ?res @ rs\<rparr>"] by auto
  with g(1) k(1) grows_trans [OF k(3)] show ?thesis by auto
qed

section \<open>Write, crash, recover\<close>

text \<open>What is in the file of a log that was created and used.\<close>

lemma session_bytes:
  assumes "WALWriter_create z path wid seq True (Inr f0) w0 = (Ok, w)" "wdata f0 = []" "wfd f0"
    "\<forall>r \<in> set (logged cs). loggable r" "WALWriter_calls z cs w = (ss, w')" "wal_file w' = Some f"
  obtains tail n where
    "wdata f = header_bytes (make_WALFileHeader z wid seq) @ log_bytes z (intact cs ss) 40 @ tail"
    "intact cs ss = logged cs \<longrightarrow> tail = []"
    "\<not> resumed cs ss \<longrightarrow> wdata f = take n (wal_bytes z wid seq (logged cs))"
    "40 \<le> wsynced f" "wsynced f \<le> length (wdata f)" "tracked f"
proof -
  let ?h = "make_WALFileHeader z wid seq"
  have hb: "length (header_bytes ?h) = 40" by (simp add: WALFileHeader_disk_size_def)
  obtain f1 where f1: "wal_file w = Some f1" "tracked f1" "wdata f1 = header_bytes ?h" "wsynced f1 = length (wdata f1)"
    using WALWriter_create_ok [OF assms(1) refl assms(2,3)] by metis
  from WALWriter_calls_bytes [OF f1(1,2) assms(4,5)] obtain f2 tail n where t: "wal_file w' = Some f2" "tracked f2"
    "wdata f2 = header_bytes ?h @ log_bytes z (intact cs ss) 40 @ tail" "intact cs ss = logged cs \<longrightarrow> tail = []"
    "\<not> resumed cs ss \<longrightarrow> wdata f2 = header_bytes ?h @ take n (log_bytes z (logged cs) 40)"
    "wsynced f1 \<le> length (wdata f1) \<longrightarrow> wsynced f1 \<le> wsynced f2 \<and> wsynced f2 \<le> length (wdata f2)"
    unfolding f1(3) hb by blast
  have f2: "f2 = f" using t(1) assms(6) by simp
  have sy: "40 \<le> wsynced f" "wsynced f \<le> length (wdata f)" using t(6) f1(3,4) hb f2 by simp_all
  have "header_bytes ?h @ take n (log_bytes z (logged cs) 40) = take (40 + n) (wal_bytes z wid seq (logged cs))"
    using hb by (simp add: wal_bytes_def)
  with t(2-5) sy f2 that [of tail "40 + n"] show ?thesis by simp
qed

text \<open>Loading a prefix of the file that keeps the layout of some of the records.\<close>

lemma load_cut:
  assumes "read_quiet (take k (header_bytes (make_WALFileHeader z wid seq) @ log_bytes z rs 40 @ tail)) g"
    "roff g = 0" "\<forall>r \<in> set rs. loggable r" "arena_live ar" "40 \<le> k"
  obtains res ar' g' where "WALLoader_load z wid ar g = Some (Inr res, ar', g')" "arena_ok ar'" "grows ar ar'"
    "40 + length (log_bytes z rs 40) \<le> k \<longrightarrow> prefix rs (records res)"
    "k < 40 + length (log_bytes z rs 40) \<longrightarrow> prefix (records res) rs"
proof (cases "40 + length (log_bytes z rs 40) \<le> k")
  case True
  let ?h = "make_WALFileHeader z wid seq"
  have "take k (header_bytes ?h @ log_bytes z rs 40 @ tail) =
      header_bytes ?h @ log_bytes z rs 40 @ take (k - 40 - length (log_bytes z rs 40)) tail"
    using True by (simp add: WALFileHeader_disk_size_def)
  from WALLoader_load_log [OF assms(1,2) this assms(3,4)] True that show ?thesis by auto
next
  case False
  have pre: "prefix (recovered z rs 40 (k - 40)) rs"
    using recovered_take [of z rs 40 "k - 40"] take_is_prefix by metis
  have D: "take k (header_bytes (make_WALFileHeader z wid seq) @ log_bytes z rs 40 @ tail) = take k (wal_bytes z wid seq rs)"
    "k \<le> length (wal_bytes z wid seq rs)"
    using False by (simp_all add: wal_bytes_def WALFileHeader_disk_size_def)
  obtain ar' f' where "WALLoader_load z wid ar g = Some (Inr \<lparr>records = recovered z rs 40 (k - 40),
      res_header = Some (make_WALFileHeader z wid seq), res_ok = True,
      had_torn_tail = tail_torn z rs 40 (k - 40), had_corruption = False\<rparr>, ar', f')" "arena_live ar'" "grows ar ar'"
    using WALLoader_load_prefix [OF assms(1,2) D(1) assms(5) D(2) assms(3,4)] by blast
  with that [OF this(1)] False pre show ?thesis by (simp add: arena_live_def)
qed

text \<open>Without a write after a failed one the loader reports no corruption.\<close>

lemma load_cut_clean:
  assumes "read_quiet (take k (take n (wal_bytes z wid seq rs))) g" "roff g = 0" "\<forall>r \<in> set rs. loggable r"
    "arena_live ar" "40 \<le> k" "k \<le> length (take n (wal_bytes z wid seq rs))"
    "WALLoader_load z wid ar g = Some (Inr res, ar', g')"
  shows "res_ok res" "\<not> had_corruption res" "prefix (records res) rs"
    "k = length (wal_bytes z wid seq rs) \<Longrightarrow> records res = rs \<and> \<not> had_torn_tail res \<and> roff g' = k"
proof -
  have D: "take k (take n (wal_bytes z wid seq rs)) = take k (wal_bytes z wid seq rs)" "k \<le> length (wal_bytes z wid seq rs)"
    using assms(6) by (simp_all add: min_absorb1)
  obtain br f' where L: "WALLoader_load z wid ar g = Some (Inr \<lparr>records = recovered z rs 40 (k - 40),
      res_header = Some (make_WALFileHeader z wid seq), res_ok = True,
      had_torn_tail = tail_torn z rs 40 (k - 40), had_corruption = False\<rparr>, br, f')"
    "roff f' = (if tail_torn z rs 40 (k - 40)
      then 40 + length (log_bytes z (recovered z rs 40 (k - 40)) 40) else k)"
    using WALLoader_load_prefix [OF assms(1,2) D(1) assms(5) D(2) assms(3,4)] by blast
  then show "res_ok res" "\<not> had_corruption res" using assms(7) by auto
  have "prefix (recovered z rs 40 (k - 40)) rs" using recovered_take [of z rs 40 "k - 40"] take_is_prefix by metis
  then show "prefix (records res) rs" using L assms(7) by auto
  assume "k = length (wal_bytes z wid seq rs)"
  then have "length (log_bytes z rs 40) \<le> k - 40" by (simp add: wal_bytes_def WALFileHeader_disk_size_def)
  from recovered_all [OF this] L assms(7) show "records res = rs \<and> \<not> had_torn_tail res \<and> roff g' = k" by auto
qed

text \<open>C5 (crash recovery). Create a log, make any calls to \<open>write\<close> and \<open>sync\<close> with any outcome of the
  device, going on after failures as the engine does, and cut the file anywhere behind its header:
  the batch loader returns a result, and its records agree with those written before the first
  failed write: they are a prefix of them, or extend all of them, the latter when nothing is cut
  off. When no write follows a failed one the loader reports no corruption and returns a prefix of
  the records given to the log; when no write failed and nothing is cut off it returns all of them,
  without a torn tail.\<close>

theorem wal_crash_recovery:
  assumes "WALWriter_create z path wid seq True (Inr f0) w0 = (Ok, w)" "wdata f0 = []" "wfd f0"
    "\<forall>r \<in> set (logged cs). loggable r" "WALWriter_calls z cs w = (ss, w')" "wal_file w' = Some f"
    "40 \<le> k" "k \<le> length (wdata f)" "read_quiet (take k (wdata f)) g" "roff g = 0" "arena_live ar"
  shows "\<exists>res ar' g'. WALLoader_load z wid ar g = Some (Inr res, ar', g') \<and> arena_ok ar' \<and> grows ar ar' \<and>
    (prefix (records res) (intact cs ss) \<or> prefix (intact cs ss) (records res)) \<and>
    (k = length (wdata f) \<longrightarrow> prefix (intact cs ss) (records res)) \<and>
    (\<not> resumed cs ss \<longrightarrow> res_ok res \<and> \<not> had_corruption res \<and> prefix (records res) (logged cs)) \<and>
    (intact cs ss = logged cs \<and> k = length (wdata f) \<longrightarrow>
       records res = logged cs \<and> \<not> had_torn_tail res \<and> roff g' = k)"
proof -
  let ?rs = "intact cs ss" and ?h = "make_WALFileHeader z wid seq"
  obtain tail n where t: "wdata f = header_bytes ?h @ log_bytes z ?rs 40 @ tail"
    "?rs = logged cs \<longrightarrow> tail = []" "\<not> resumed cs ss \<longrightarrow> wdata f = take n (wal_bytes z wid seq (logged cs))"
    by (rule session_bytes [OF assms(1-6)])
  obtain res ar' g' where L: "WALLoader_load z wid ar g = Some (Inr res, ar', g')" "arena_ok ar'" "grows ar ar'"
    "40 + length (log_bytes z ?rs 40) \<le> k \<longrightarrow> prefix ?rs (records res)"
    "k < 40 + length (log_bytes z ?rs 40) \<longrightarrow> prefix (records res) ?rs"
    by (rule load_cut [OF assms(9) [unfolded t(1)] assms(10) intact_loggable [OF assms(4)] assms(11,7)])
  have either: "prefix (records res) ?rs \<or> prefix ?rs (records res)" using L(4,5) not_le by blast
  have whole: "prefix ?rs (records res)" if "k = length (wdata f)"
    using that t(1) by (intro L(4) [THEN mp]) (simp add: WALFileHeader_disk_size_def)
  have clean: "res_ok res \<and> \<not> had_corruption res \<and> prefix (records res) (logged cs)" if "\<not> resumed cs ss"
    using load_cut_clean(1-3) [OF assms(9) [unfolded t(3) [THEN mp, OF that]] assms(10,4,11,7) assms(8) [unfolded t(3) [THEN mp, OF that]] L(1)]
    by blast
  have all: "records res = logged cs \<and> \<not> had_torn_tail res \<and> roff g' = k"
    if i: "?rs = logged cs" "k = length (wdata f)"
  proof -
    note nr = t(3) [THEN mp, OF intact_not_resumed [OF i(1)]]
    have "k = length (wal_bytes z wid seq (logged cs))" using i t(1) t(2) [THEN mp, OF i(1)] by (simp add: wal_bytes_def)
    from load_cut_clean(4) [OF assms(9) [unfolded nr] assms(10,4,11,7) assms(8) [unfolded nr] L(1) this] show ?thesis .
  qed
  show ?thesis using L(1-3) either whole clean all by blast
qed

text \<open>C6 (durability). Whatever is called after a successful sync and however that ends, also when
  writes go on behind a failed one, a crash that keeps the synced bytes loses none of the records
  that were written before the sync and before the first failed write. When no write follows a
  failed one the loader also reports no corruption and returns only records given to the log, in
  order.\<close>

theorem wal_synced_records_survive:
  assumes "WALWriter_create z path wid seq True (Inr f0) w0 = (Ok, w)" "wdata f0 = []" "wfd f0"
    "\<forall>r \<in> set (logged cs). loggable r" "WALWriter_calls z cs w = (ss, w1)"
    "WALWriter_sync w1 = (Ok, w2)" "\<forall>r \<in> set (logged ds). loggable r" "WALWriter_calls z ds w2 = (ts, w3)"
    "wal_file w3 = Some f" "wsynced f \<le> k" "k \<le> length (wdata f)"
    "read_quiet (take k (wdata f)) g" "roff g = 0" "arena_live ar"
  shows "\<exists>res ar' g'. WALLoader_load z wid ar g = Some (Inr res, ar', g') \<and>
    prefix (intact cs ss) (records res) \<and>
    (\<not> resumed (cs @ LogSync # ds) (ss @ Ok # ts) \<longrightarrow>
       res_ok res \<and> \<not> had_corruption res \<and> prefix (records res) (logged (cs @ ds)))"
proof -
  let ?rs = "intact cs ss" and ?h = "make_WALFileHeader z wid seq"
  have "WALWriter_calls z (LogSync # ds) w1 = (Ok # ts, w3)" using assms(6,8) by (simp add: WALWriter_call_def)
  note calls = WALWriter_calls_append [OF assms(5) this]
  have ld: "\<forall>r \<in> set (logged (cs @ LogSync # ds)). loggable r" using assms(4,7) by auto
  obtain f00 where f00: "wal_file w = Some f00" "tracked f00" using WALWriter_create_ok [OF assms(1) refl assms(2,3)] by metis
  obtain f1 where f1: "wal_file w1 = Some f1" using WALWriter_calls_bytes [OF f00 assms(4,5)] by blast
  obtain tail1 where t1: "wdata f1 = header_bytes ?h @ log_bytes z ?rs 40 @ tail1" "tracked f1"
    by (rule session_bytes [OF assms(1-5) f1])
  obtain f2 where f2: "wal_file w2 = Some f2" "tracked f2" "wdata f2 = wdata f1" "wsynced f2 = length (wdata f1)"
    by (rule WALWriter_sync_bytes [OF f1 t1(2) assms(6)]) auto
  from WALWriter_calls_bytes [OF f2(1,2) assms(7,8)] assms(9) obtain tail2 where t2: "wdata f = wdata f2 @ tail2"
    "wsynced f2 \<le> length (wdata f2) \<longrightarrow> wsynced f2 \<le> wsynced f" by fastforce
  have D: "wdata f = header_bytes ?h @ log_bytes z ?rs 40 @ (tail1 @ tail2)" using t1 t2 f2 by simp
  have k: "40 + length (log_bytes z ?rs 40) \<le> k" "40 \<le> k"
    using t1(1) t2(2) f2(3,4) assms(10) by (simp_all add: WALFileHeader_disk_size_def)
  obtain res ar' g' where L: "WALLoader_load z wid ar g = Some (Inr res, ar', g')" "prefix ?rs (records res)"
    by (rule load_cut [OF assms(12) [unfolded D] assms(13) intact_loggable [OF assms(4)] assms(14) k(2)]) (use k(1) in blast)
  obtain n where n: "\<not> resumed (cs @ LogSync # ds) (ss @ Ok # ts) \<longrightarrow>
      wdata f = take n (wal_bytes z wid seq (logged (cs @ LogSync # ds)))"
    by (rule session_bytes [OF assms(1-3) ld calls(1) assms(9)])
  have "res_ok res \<and> \<not> had_corruption res \<and> prefix (records res) (logged (cs @ ds))"
    if "\<not> resumed (cs @ LogSync # ds) (ss @ Ok # ts)"
    using load_cut_clean(1-3) [OF assms(12) [unfolded n [THEN mp, OF that]] assms(13) ld assms(14) k(2) assms(11) [unfolded n [THEN mp, OF that]] L(1)]
    by simp
  with L show ?thesis by blast
qed

text \<open>The device fails a write exactly behind the first fragment of a record that needs more.\<close>

definition torn_behind_first :: "zlib \<Rightarrow> InternalRecord \<Rightarrow> wfile \<Rightarrow> wfile \<Rightarrow> bool" where
  "torn_behind_first z r f f' \<longleftrightarrow> (let off = length (wdata f); p = record_payload r in
     next_size p off < length p \<and> wdata f' = wdata f @ frag_pad off @ frag_bytes (next_frag z r p True off))"

lemma consume_while_active:
  "active s \<Longrightarrow> consume (next_frag z q p True off) s ar = Some (Inl Corruption, asm_reset s, ar)"
  by (cases "next_size p off = length p")
    (simp_all add: consume_def next_frag_def frag_of_def make_fragment_def choose_fragment_type_def
      Fragment_compute_crc32_def Let_def split: sum.split)

text \<open>Loading a log in which a record of several fragments ends behind its first fragment and another
  record follows.\<close>

lemma load_behind_torn:
  fixes z rs r q
  defines "off \<equiv> 40 + length (log_bytes z rs 40)" and "p \<equiv> record_payload r"
  defines "off2 \<equiv> next_off p off" and "fr \<equiv> next_frag z r p True off"
  assumes "read_quiet D g" "roff g = 0"
    "D = header_bytes (make_WALFileHeader z wid seq) @ log_bytes z rs 40 @ frag_pad off @ frag_bytes fr @
       payload_bytes z q (record_payload q) True off2 @ tail"
    "next_size p off < length p" "\<forall>r \<in> set rs. loggable r" "loggable r" "loggable q" "arena_live ar"
  shows "\<exists>res ar' g'. WALLoader_load z wid ar g = Some (Inr res, ar', g') \<and>
    records res = rs \<and> had_corruption res \<and> \<not> res_ok res"
proof -
  let ?q = "record_payload q" and ?n = "next_size p off" and ?fq = "next_frag z q (record_payload q) True off2"
  have nf: "good_fragment z fr" "length (take ?n p) \<le> WAL_FILE_BLOCK_SIZE" "length (frag_bytes fr) = 22 + ?n"
    "(off + length (frag_pad off)) mod WAL_FILE_BLOCK_SIZE + (22 + length (payload fr)) \<le> WAL_FILE_BLOCK_SIZE"
    unfolding fr_def p_def by (rule next_frag_good [OF assms(10) record_payload_ne])+
  have nq: "good_fragment z ?fq"
    "(off2 + length (frag_pad off2)) mod WAL_FILE_BLOCK_SIZE + (22 + length (payload ?fq)) \<le> WAL_FILE_BLOCK_SIZE"
    by (rule next_frag_good [OF assms(11) record_payload_ne])+
  let ?h = "make_WALFileHeader z wid seq"
  let ?res = "\<lparr>records = [], res_header = Some ?h, res_ok = True, had_torn_tail = False, had_corruption = False\<rparr> :: LoadResult"
  have X: "log_bytes z rs 40 @ frag_pad off @ frag_bytes fr @ payload_bytes z q ?q True off2 @ tail =
      (log_bytes z rs 40 @ (frag_pad off @ frag_bytes fr) @ frag_pad off2 @ frag_bytes ?fq) @
      payload_bytes z q (drop (next_size ?q off2) ?q) False (next_off ?q off2) @ tail"
    using payload_bytes_unfold [of ?q z q True off2] by simp
  obtain g1 where g1: "WALLoader_load z wid ar g = load_loop z asm_init (roff g1) (take_checkpoint ar) ?res ar g1"
    "read_quiet D g1" "roff g1 = 40" "bytes_at D (roff g1) (log_bytes z rs 40 @ (frag_pad off @ frag_bytes fr) @
      frag_pad off2 @ frag_bytes ?fq)"
    using load_header [OF assms(5-7), of ar] X by metis
  then have at: "bytes_at D 40 (log_bytes z rs 40)" "bytes_at D (off + length (frag_pad off)) (frag_bytes fr)"
    "bytes_at D (off2 + length (frag_pad off2)) (frag_bytes ?fq)"
    using nf(3) by (simp_all add: bytes_at_append next_off_def off_def off2_def add.assoc)
  obtain ar1 g2 where g2: "load_loop z asm_init (roff g1) (take_checkpoint ar) ?res ar g1 =
      load_loop z asm_init (roff g2) (take_checkpoint ar1) (?res\<lparr>records := records ?res @ rs\<rparr>) ar1 g2"
    "read_quiet D g2" "roff g2 = off"
    using load_loop_records [OF g1(2) _ assms(9,12), of z ?res] g1(3) at(1) by (auto simp: off_def)
  obtain g3 where g3: "Fragment_load z g2 = (Inr (Some fr), g3)" "read_quiet D g3" "roff g3 = off2"
    using Fragment_load_cases(1) [OF g2(2) nf(1), unfolded g2(3), OF nf(4) at(2)] nf(3) quiet_data [OF g2(2)]
    by (auto simp: yields_def next_off_def off2_def add.assoc)
  obtain g4 where g4: "Fragment_load z g3 = (Inr (Some ?fq), g4)"
    using Fragment_load_cases(1) [OF g3(2) nq(1), unfolded g3(3), OF nq(2) at(3)] by (auto simp: yields_def)
  have asm: "assembling r [] True asm_init" "length ([] @ take ?n p) \<le> length (record_payload r)"
    by (simp_all add: assembling_def p_def)
  obtain s' where s': "consume fr asm_init ar1 = Some (Inr None, s', ar1)" "active s'"
    using consume_more [OF asm(1) assms(10) nf(2) asm(2), of z ar1] assms(8)
    by (auto simp: next_frag_def fr_def assembling_def)
  from consume_while_active [OF s'(2), of z q ?q off2 ar1] g4 g1(1) g2(1) show ?thesis
    by (simp add: load_loop_cases(3) [OF g3(1) s'(1)] load_loop.simps [of z s'] give_up_def rollback_here)
qed

text \<open>C38 (a lost acknowledged write). The writer accepts writes after a failed one. When a record
  of several fragments fails behind its first fragment and the next write succeeds, loading the
  whole file reports corruption and returns only what was written before the failure: the
  acknowledged record and everything behind it is lost, also when it was synced.\<close>

theorem wal_write_after_failure_lost:
  assumes "WALWriter_create z path wid seq True (Inr f0) w0 = (Ok, w)" "wdata f0 = []" "wfd f0"
    "\<forall>r \<in> set rs. loggable r" "loggable r" "loggable q" "\<forall>r \<in> set (logged cs). loggable r"
    "WALWriter_calls z (map LogWrite rs) w = (replicate (length rs) Ok, w1)" "wal_file w1 = Some f1"
    "WALWriter_write z r w1 = (WriteFailed, w2)" "wal_file w2 = Some f2" "torn_behind_first z r f1 f2"
    "WALWriter_calls z (LogWrite q # cs) w2 = (Ok # ss, w3)" "wal_file w3 = Some f"
    "read_quiet (wdata f) g" "roff g = 0" "arena_live ar"
  shows "\<exists>res ar' g'. WALLoader_load z wid ar g = Some (Inr res, ar', g') \<and>
    records res = rs \<and> had_corruption res \<and> \<not> res_ok res"
proof -
  let ?h = "make_WALFileHeader z wid seq" and ?off = "40 + length (log_bytes z rs 40)" and ?p = "record_payload r"
  have lrs: "\<forall>r \<in> set (logged (map LogWrite rs)). loggable r" using assms(4) by (simp add: intact_writes)
  obtain tail where t: "wdata f1 = header_bytes ?h @ log_bytes z (intact (map LogWrite rs) (replicate (length rs) Ok)) 40 @ tail"
    "intact (map LogWrite rs) (replicate (length rs) Ok) = logged (map LogWrite rs) \<longrightarrow> tail = []" "tracked f1"
    by (rule session_bytes [OF assms(1-3) lrs assms(8,9)])
  then have D1: "wdata f1 = header_bytes ?h @ log_bytes z rs 40" by (simp add: intact_writes)
  then have off: "length (wdata f1) = ?off" by (simp add: WALFileHeader_disk_size_def)
  have D2: "wdata f2 = wdata f1 @ frag_pad ?off @ frag_bytes (next_frag z r ?p True ?off)" and short: "next_size ?p ?off < length ?p"
    using assms(12) off by (simp_all add: torn_behind_first_def Let_def)
  have "length (frag_bytes (next_frag z r ?p True ?off)) = 22 + next_size ?p ?off"
    by (rule next_frag_good [OF assms(5) record_payload_ne])
  then have off2: "length (wdata f2) = next_off ?p ?off" using D2 off by (simp add: next_off_def add.assoc)
  have t2: "tracked f2" by (rule WALWriter_write_bytes [OF assms(9) t(3) assms(5,10)]) (use assms(11) in simp)
  have lq: "\<forall>r \<in> set (logged (LogWrite q # cs)). loggable r" using assms(6,7) by simp
  obtain tail2 where D3: "wdata f = wdata f2 @ payload_bytes z q (record_payload q) True (next_off ?p ?off) @ tail2"
    using WALWriter_calls_bytes [OF assms(11) t2 lq assms(13)] assms(14) off2 by (auto simp: Let_def)
  show ?thesis
    by (rule load_behind_torn [OF assms(15,16) _ short assms(4-6,17)]) (use D1 D2 D3 in simp)
qed

end
