(* ===== verification/WALExamples.thy ===== *)
theory WALExamples
  imports WALSession
begin

text \<open>
  Liveness of the writer on a device without errors, and concrete runs of the log: the theorems of
  the recovery theories applied to a log of one record, written with short writes and interrupts.
\<close>

section \<open>The device permitting, writing succeeds\<close>

lemma WALWriter_create_succeeds:
  assumes "path \<noteq> []" "wal_file w = None" "wdata f0 = []" "wfd f0" "write_faultfree f0" "sync_faultfree f0"
  obtains w' f where "WALWriter_create z path wid seq True (Inr f0) w = (Ok, w')" "wal_file w' = Some f"
    "write_faultfree f" "sync_faultfree f"
proof -
  let ?h = "make_WALFileHeader z wid seq" and ?f0 = "f0\<lparr>woff := 0\<rparr>"
  have t0: "tracked ?f0" "write_faultfree ?f0" using assms by (simp_all add: tracked_def write_faultfree_def)
  have em: "emits (WALFileHeader_write z ?h) (header_bytes ?h) ?f0"
    using WALFileHeader_write_emits [OF t0(1) self_check_make] assms(3)
    by (simp add: WAL_FILE_BLOCK_SIZE_def)
  obtain f1 where f1: "WALFileHeader_write z ?h ?f0 = (Ok, f1)" "tracked f1" "write_faultfree f1" "wsenv f1 = wsenv f0"
    using emits_faultfreeD [OF em t0] by auto
  obtain c f2 where f2: "sync f1 = (c, f2)" by (cases "sync f1")
  have "c = Ok" using fsync_loop_faultfree [of f1] f1 assms(6) f2
    by (simp add: sync_def tracked_def sync_faultfree_def)
  moreover have "sync_faultfree f2" using syncD(7) [OF f2] f1(4) assms(6) by (auto simp: sync_faultfree_def)
  ultimately show ?thesis using f1 f2 assms(1,2) syncD(4) [OF f2] that
    by (simp add: WALWriter_create_def Let_def)
qed

text \<open>On a device that reports no error (short writes and interrupts allowed), with
  the old file removed and the new one opened, creating the log and writing loggable records to it
  succeeds.\<close>

lemma wal_writes_succeed:
  assumes "path \<noteq> []" "wal_file w0 = None" "wdata f0 = []" "wfd f0" "write_faultfree f0" "sync_faultfree f0"
    "\<forall>r \<in> set rs. loggable r"
  shows "\<exists>w w'. WALWriter_create z path wid seq True (Inr f0) w0 = (Ok, w) \<and>
    WALWriter_calls z (map LogWrite rs) w = (replicate (length rs) Ok, w')"
proof -
  obtain w f where w: "WALWriter_create z path wid seq True (Inr f0) w0 = (Ok, w)" "wal_file w = Some f"
    "write_faultfree f" "sync_faultfree f" using WALWriter_create_succeeds [OF assms(1-6)] .
  have t: "tracked f" using WALWriter_create_ok [OF w(1) refl assms(3,4)] w(2) by auto
  obtain ss w' where sw: "WALWriter_calls z (map LogWrite rs) w = (ss, w')"
    by (cases "WALWriter_calls z (map LogWrite rs) w")
  have "set ss \<subseteq> {Ok}" using WALWriter_calls_bytes [OF w(2) t _ sw] w(3,4) assms(7) by (auto simp: intact_writes)
  moreover have "length ss = length rs"
    using WALWriter_calls_append(2) [OF sw WALWriter_calls.simps(1)] by simp
  ultimately have "ss = replicate (length rs) Ok" by (auto intro: replicate_eqI)
  with w(1) sw show ?thesis by blast
qed

section \<open>A concrete log\<close>

definition ex_zlib :: zlib where
  "ex_zlib = \<lparr>crc_init = 0, crc_update = (\<lambda>c bs. fold (\<lambda>b c. 31 * c + ucast b) bs c)\<rparr>"

definition ex_rec :: InternalRecord where
  "ex_rec = \<lparr>key_entry = [107, 49], value_entry = [118], rtype = Put, seq_num = 7\<rparr>"

definition ex_wfile :: wfile where
  "ex_wfile = \<lparr>wdata = [], wfd = True, wenv = [Wrote 3, WriteIntr], wsenv = [SyncIntr],
     wclose_ok = True, wsynced = 0, woff = 0\<rparr>"

definition ex_arena :: arena where
  "ex_arena = \<lparr>page_size = 64, large_threshold = 16, pages = [], large = [], destructors = [],
     destroyed = [], oom = []\<rparr>"

definition ex_writer :: WALWriter where
  "ex_writer = snd (WALWriter_create ex_zlib ''wal'' 1 5 True (Inr ex_wfile) writer_init)"

definition ex_written :: WALWriter where
  "ex_written = snd (WALWriter_calls ex_zlib [LogWrite ex_rec] ex_writer)"

definition ex_file :: wfile where
  "ex_file = the (wal_file ex_written)"

definition ex_reader :: "byte list \<Rightarrow> rfile" where
  "ex_reader D = \<lparr>rdata = D, rfd = True, renv = [GotUpTo 1, ReadIntr], rclose_ok = True, roff = 0\<rparr>"

lemma ex_loggable: "loggable ex_rec"
  by (simp add: loggable_def ex_rec_def is_valid_record_type_def)

lemma ex_length:
  assumes "off mod 4096 \<le> 4000"
  shows "length (log_bytes z [ex_rec] off) = 33"
proof -
  have l: "length (record_payload ex_rec) = 11" by (simp add: record_payload_def ex_rec_def)
  have pad: "frag_pad off = []"
    using assms by (simp add: frag_pad_def pad_before_def FragmentHeader_disk_size_def WAL_FILE_BLOCK_SIZE_def)
  have n: "next_size (record_payload ex_rec) off = 11"
    using assms by (simp add: next_size_def l frag_room_def pad FragmentHeader_disk_size_def WAL_FILE_BLOCK_SIZE_def)
  show ?thesis
    using next_frag_good(7) [OF ex_loggable record_payload_ne]
    by (simp add: payload_bytes_unfold pad n l payload_bytes.simps [of z ex_rec "[]"])
qed

lemma ex_arena_live: "arena_live ex_arena"
  by (simp add: arena_live_def arena_ok_def never_oom_def ex_arena_def max_page_size_def)

lemma ex_device: "wdata ex_wfile = []" "wfd ex_wfile" "write_faultfree ex_wfile" "sync_faultfree ex_wfile"
  by (simp_all add: ex_wfile_def write_faultfree_def sync_faultfree_def)

lemma ex_run:
  "WALWriter_create ex_zlib ''wal'' 1 5 True (Inr ex_wfile) writer_init = (Ok, ex_writer)"
  "WALWriter_calls ex_zlib [LogWrite ex_rec] ex_writer = ([Ok], ex_written)"
proof -
  have w: "wal_file writer_init = None" "''wal'' \<noteq> []" by (simp_all add: writer_init_def)
  obtain w w' where wf: "WALWriter_create ex_zlib ''wal'' 1 5 True (Inr ex_wfile) writer_init = (Ok, w)"
    "WALWriter_calls ex_zlib (map LogWrite [ex_rec]) w = (replicate (length [ex_rec]) Ok, w')"
    using wal_writes_succeed [OF w(2,1) ex_device, where rs = "[ex_rec]" and z = ex_zlib and wid = 1 and seq = 5] ex_loggable
    by (metis list.set_intros(1) empty_iff list.set(1) set_ConsD)
  then show "WALWriter_create ex_zlib ''wal'' 1 5 True (Inr ex_wfile) writer_init = (Ok, ex_writer)"
    by (simp add: ex_writer_def)
  with wf show "WALWriter_calls ex_zlib [LogWrite ex_rec] ex_writer = ([Ok], ex_written)"
    by (simp add: ex_written_def)
qed

lemma ex_sync: "\<exists>w. WALWriter_sync ex_written = (Ok, w)"
proof -
  have w: "wal_file writer_init = None" "''wal'' \<noteq> []" by (simp_all add: writer_init_def)
  obtain f where f: "wal_file ex_writer = Some f" "write_faultfree f" "sync_faultfree f"
    by (rule WALWriter_create_succeeds [OF w(2,1) ex_device, where z = ex_zlib and wid = 1 and seq = 5]) (use ex_run(1) in auto)
  have t: "tracked f" using WALWriter_create_ok [OF ex_run(1) refl ex_device(1,2)] f(1) by auto
  obtain c v where cv: "WALWriter_sync ex_written = (c, v)" by (cases "WALWriter_sync ex_written")
  then have "WALWriter_calls ex_zlib [LogSync] ex_written = ([c], v)" by (simp add: WALWriter_call_def)
  note calls = WALWriter_calls_append(1) [OF ex_run(2) this]
  have "\<forall>r \<in> set (logged ([LogWrite ex_rec] @ [LogSync])). loggable r" using ex_loggable by simp
  from WALWriter_calls_bytes [OF f(1) t this calls] f(2,3) cv show ?thesis by auto
qed

lemma ex_file_bytes:
  "wal_file ex_written = Some ex_file" "wdata ex_file = wal_bytes ex_zlib 1 5 [ex_rec]"
  "length (wdata ex_file) = 73" "tracked ex_file" "wsynced ex_file \<le> 73"
proof -
  have l: "\<forall>r \<in> set (logged [LogWrite ex_rec]). loggable r" using ex_loggable by simp
  obtain f where f: "wal_file ex_writer = Some f" "tracked f"
    using WALWriter_create_ok [OF ex_run(1) refl ex_device(1,2)] by metis
  then show e: "wal_file ex_written = Some ex_file"
    using WALWriter_calls_bytes [OF f l ex_run(2)] by (auto simp: ex_file_def)
  obtain tail where t: "wdata ex_file = header_bytes (make_WALFileHeader ex_zlib 1 5) @
      log_bytes ex_zlib (intact [LogWrite ex_rec] [Ok]) 40 @ tail"
    "intact [LogWrite ex_rec] [Ok] = logged [LogWrite ex_rec] \<longrightarrow> tail = []" "tracked ex_file"
    "wsynced ex_file \<le> length (wdata ex_file)"
    by (rule session_bytes [OF ex_run(1) ex_device(1,2) l ex_run(2) e])
  then show "wdata ex_file = wal_bytes ex_zlib 1 5 [ex_rec]" "tracked ex_file" by (simp_all add: wal_bytes_def)
  then show "length (wdata ex_file) = 73" "wsynced ex_file \<le> 73"
    using ex_length [of 40 ex_zlib] t(4) by (simp_all add: wal_bytes_def WALFileHeader_disk_size_def)
qed

lemma ex_quiet: "length D \<le> 9000 \<Longrightarrow> read_quiet D (ex_reader D)" "roff (ex_reader D) = 0"
  by (simp_all add: read_quiet_def ex_reader_def)

section \<open>A write behind a failed one\<close>

lemma WALWriter_create_stops:
  assumes "path \<noteq> []" "wal_file w = None" "wdata f0 = []" "wfd f0" "stops_after (40 + j) (wenv f0) rest" "sync_faultfree f0"
  obtains w' f where "WALWriter_create z path wid seq True (Inr f0) w = (Ok, w')" "wal_file w' = Some f"
    "stops_after j (wenv f) rest" "sync_faultfree f" "length (wdata f) = 40" "tracked f"
proof -
  let ?h = "make_WALFileHeader z wid seq" and ?f0 = "f0\<lparr>woff := 0\<rparr>"
  have t0: "tracked ?f0" "stops_after (40 + j) (wenv ?f0) rest" using assms by (simp_all add: tracked_def)
  have em: "emits (WALFileHeader_write z ?h) (header_bytes ?h) ?f0"
    using WALFileHeader_write_emits [OF t0(1) self_check_make] assms(3) by (simp add: WAL_FILE_BLOCK_SIZE_def)
  obtain c1 f1 where f1: "WALFileHeader_write z ?h ?f0 = (c1, f1)" by (cases "WALFileHeader_write z ?h ?f0")
  have ok: "c1 = Ok" "stops_after j (wenv f1) rest" "wsenv f1 = wsenv f0"
    using emits_stopsD [OF em f1 t0(2)] by (simp_all add: WALFileHeader_disk_size_def)
  have f1': "wdata f1 = header_bytes ?h" "tracked f1" using emits_okD [OF em _ t0(1)] f1 ok(1) assms(3) by auto
  obtain c2 f2 where f2: "sync f1 = (c2, f2)" by (cases "sync f1")
  have fs: "fsync_loop f1 = (c2, f2)" using f2 f1'(2) by (simp add: sync_def tracked_def split: if_splits)
  have s: "c2 = Ok" using fsync_loop_faultfree [of f1] fs ok(3) assms(6) by (simp add: sync_faultfree_def)
  note keep = fsync_loop_keeps [OF fs]
  have "WALWriter_create z path wid seq True (Inr f0) w =
      (Ok, w\<lparr>disk := (disk w)(path := None), wal_path := path, cur_wal_id := wid, wal_file := Some f2\<rparr>)"
    using f1 f2 ok(1) s assms(1,2) by (simp add: WALWriter_create_def Let_def)
  with that [OF this] keep f1' ok s assms(6) syncD(2) [OF f2] show ?thesis
    by (auto simp: sync_faultfree_def WALFileHeader_disk_size_def)
qed

definition ex_big :: InternalRecord where
  "ex_big = \<lparr>key_entry = [107], value_entry = replicate 5000 0, rtype = Put, seq_num = 8\<rparr>"

definition ex_stop_file :: wfile where
  "ex_stop_file = \<lparr>wdata = [], wfd = True, wenv = replicate 4096 (Wrote 1) @ [WriteErr], wsenv = [],
     wclose_ok = True, wsynced = 0, woff = 0\<rparr>"

lemma ex_big_fragment:
  "loggable ex_big" "frag_pad 40 = []" "next_size (record_payload ex_big) 40 = 4034"
  "length (record_payload ex_big) = 5009"
  "length (frag_bytes (next_frag z ex_big (record_payload ex_big) True 40)) = 4056"
proof -
  show l: "loggable ex_big" by (simp add: loggable_def ex_big_def is_valid_record_type_def)
  show p: "frag_pad 40 = []"
    by (simp add: frag_pad_def pad_before_def FragmentHeader_disk_size_def WAL_FILE_BLOCK_SIZE_def)
  show n: "length (record_payload ex_big) = 5009" by (simp add: record_payload_def ex_big_def)
  show s: "next_size (record_payload ex_big) 40 = 4034"
    by (simp add: next_size_def n frag_room_def p FragmentHeader_disk_size_def WAL_FILE_BLOCK_SIZE_def)
  have "length (frag_bytes (next_frag z ex_big (record_payload ex_big) True 40)) = 22 + next_size (record_payload ex_big) 40"
    by (rule next_frag_good [OF l record_payload_ne])
  then show "length (frag_bytes (next_frag z ex_big (record_payload ex_big) True 40)) = 4056" by (simp add: s)
qed

lemma ex_torn_write:
  assumes "wal_file w = Some f" "tracked f" "length (wdata f) = 40" "stops_after 4056 (wenv f) []" "sync_faultfree f"
  obtains w' f' where "WALWriter_write z ex_big w = (WriteFailed, w')" "wal_file w' = Some f'" "tracked f'"
    "torn_behind_first z ex_big f f'" "write_faultfree f'" "sync_faultfree f'" "length (wdata f') = 4096"
proof -
  let ?p = "record_payload ex_big"
  let ?bs = "payload_bytes z ex_big ?p True 40"
  obtain c w' where cw: "WALWriter_write z ex_big w = (c, w')" by (cases "WALWriter_write z ex_big w")
  note b = ex_big_fragment(1-4) ex_big_fragment(5) [of z]
  have bs: "?bs = frag_bytes (next_frag z ex_big ?p True 40) @
      payload_bytes z ex_big (drop 4034 ?p) False (next_off ?p 40)"
    using payload_bytes_unfold [of ?p z ex_big True 40] b(2,3) by simp
  have "drop 4034 ?p \<noteq> []" using b(4) by simp
  from payload_bytes_unfold [OF this, of z ex_big False "next_off ?p 40"]
  have "payload_bytes z ex_big (drop 4034 ?p) False (next_off ?p 40) \<noteq> []"
    by (auto simp: frag_bytes_def frag_header_bytes_def enc_u32_def)
  then have long: "4056 < length ?bs" using bs b(5) by simp
  obtain f' n where f': "wal_file w' = Some f'" "tracked f'" "wdata f' = wdata f @ take n ?bs" "wsenv f' = wsenv f"
    "c = WriteFailed" "n = 4056" "wenv f' = []"
    by (rule WALWriter_write_bytes [OF assms(1,2) b(1) cw]) (use assms(3,4) long in fastforce)
  have tk: "take n ?bs = frag_bytes (next_frag z ex_big ?p True 40)" using bs b(5) f'(6) by simp
  have "torn_behind_first z ex_big f f'" using b(2-4) f'(3) tk assms(3) by (simp add: torn_behind_first_def)
  moreover have "length (wdata f') = 4096" using f'(3) tk b(5) assms(3) by simp
  ultimately show ?thesis using that [of w' f'] cw f'(1,2,4,5,7) assms(5)
    by (simp add: write_faultfree_def sync_faultfree_def)
qed

section \<open>Witnesses\<close>

theorem wal_crash_recovery_witness:
  "\<exists>res ar' g'. WALLoader_load ex_zlib 1 ex_arena (ex_reader (take 73 (wdata ex_file))) =
      Some (Inr res, ar', g') \<and> res_ok res \<and> \<not> had_corruption res \<and> records res = [ex_rec] \<and> \<not> had_torn_tail res"
proof -
  have "read_quiet (take 73 (wdata ex_file)) (ex_reader (take 73 (wdata ex_file)))" by (intro ex_quiet) simp
  from wal_crash_recovery [OF ex_run(1) ex_device(1,2) _ ex_run(2) ex_file_bytes(1) _ _ this ex_quiet(2) ex_arena_live]
    ex_loggable ex_file_bytes(3) show ?thesis by auto
qed

theorem wal_synced_records_survive_witness:
  "\<exists>w res ar' g'. WALWriter_sync ex_written = (Ok, w) \<and>
    WALLoader_load ex_zlib 1 ex_arena (ex_reader (take 73 (wdata (the (wal_file w))))) =
      Some (Inr res, ar', g') \<and> res_ok res \<and> \<not> had_corruption res \<and> records res = [ex_rec]"
proof -
  obtain c w where cw: "WALWriter_sync ex_written = (c, w)" by (cases "WALWriter_sync ex_written")
  have ok: "c = Ok" using ex_sync cw by auto
  obtain f where f: "wal_file w = Some f" "wdata f = wdata ex_file" "wsynced f = 73"
    by (rule WALWriter_sync_bytes [OF ex_file_bytes(1,4) cw]) (use ok ex_file_bytes(3) in auto)
  have q: "read_quiet (take 73 (wdata f)) (ex_reader (take 73 (wdata f)))" by (intro ex_quiet) simp
  have l: "\<forall>r \<in> set (logged [LogWrite ex_rec]). loggable r" "\<forall>r \<in> set (logged []). loggable r" using ex_loggable by simp_all
  from wal_synced_records_survive [OF ex_run(1) ex_device(1,2) l(1) ex_run(2) cw [unfolded ok] l(2)
      WALWriter_calls.simps(1) f(1) _ _ q ex_quiet(2) ex_arena_live] f cw ok ex_file_bytes(3)
  show ?thesis by (auto intro: prefix_order.antisym)
qed

theorem wal_write_after_failure_lost_witness:
  "\<exists>w1 w2 w3 f res ar' g'.
    WALWriter_create ex_zlib ''wal'' 1 5 True (Inr ex_stop_file) writer_init = (Ok, w1) \<and>
    WALWriter_write ex_zlib ex_big w1 = (WriteFailed, w2) \<and>
    WALWriter_calls ex_zlib [LogWrite ex_rec, LogSync] w2 = ([Ok, Ok], w3) \<and> wal_file w3 = Some f \<and>
    WALLoader_load ex_zlib 1 ex_arena (ex_reader (wdata f)) = Some (Inr res, ar', g') \<and>
    records res = [] \<and> had_corruption res"
proof -
  have st: "stops_after (40 + 4056) (wenv ex_stop_file) []" "wdata ex_stop_file = []" "wfd ex_stop_file" "sync_faultfree ex_stop_file"
    by (simp_all add: ex_stop_file_def stops_after_def sync_faultfree_def)
  obtain w1 f1 where w1: "WALWriter_create ex_zlib ''wal'' 1 5 True (Inr ex_stop_file) writer_init = (Ok, w1)"
    "wal_file w1 = Some f1" "stops_after 4056 (wenv f1) []" "sync_faultfree f1" "length (wdata f1) = 40" "tracked f1"
    by (rule WALWriter_create_stops [OF _ _ st(2,3,1,4), of "''wal''" writer_init]) (simp_all add: writer_init_def)
  obtain w2 f2 where w2: "WALWriter_write ex_zlib ex_big w1 = (WriteFailed, w2)" "wal_file w2 = Some f2" "tracked f2"
    "torn_behind_first ex_zlib ex_big f1 f2" "write_faultfree f2" "sync_faultfree f2" "length (wdata f2) = 4096"
    by (rule ex_torn_write [OF w1(2,6,5,3,4)])
  let ?cs = "[LogWrite ex_rec, LogSync]"
  have l: "\<forall>r \<in> set (logged ?cs). loggable r" using ex_loggable by simp
  obtain ss w3 where w3: "WALWriter_calls ex_zlib ?cs w2 = (ss, w3)" by (cases "WALWriter_calls ex_zlib ?cs w2")
  obtain f where f: "wal_file w3 = Some f" "set ss \<subseteq> {Ok}" "length (wdata f) \<le> 9000"
    using WALWriter_calls_bytes [OF w2(2,3) l w3] w2(5-7) ex_length [of 4096 ex_zlib] by auto
  have "length ss = 2" using WALWriter_calls_append(2) [OF w3 WALWriter_calls.simps(1)] by simp
  then have ss: "ss = [Ok, Ok]" using f(2) by (auto simp: length_Suc_conv numeral_2_eq_2)
  have b: "loggable ex_big" by (rule ex_big_fragment)
  from wal_write_after_failure_lost [OF w1(1) st(2,3) _ b ex_loggable _ _ w1(2) w2(1,2,4) w3 [unfolded ss] f(1)
      ex_quiet(1) [OF f(3)] ex_quiet(2) ex_arena_live, of "[]"] w1(1) w2(1) w3 ss f(1)
  show ?thesis by auto
qed

theorem wal_load_total_witness:
  "\<exists>r ar' g'. WALLoader_load ex_zlib 1 ex_arena (ex_reader [0xFF, 0]) = Some (r, ar', g') \<and> arena_ok ar'"
  by (rule wal_load_total) (use ex_arena_live in \<open>simp add: arena_live_def\<close>)

definition ex_loader :: "loader_state \<Rightarrow> WALStreamingLoader" where
  "ex_loader st = \<lparr>str_file = Some (ex_reader (take 73 (wdata ex_file))),
     str_result = stream_result_init\<lparr>str_header := Some (make_WALFileHeader ex_zlib 1 5), last_good_offset := 40\<rparr>,
     str_state = st, str_arena = ex_arena\<rparr>"

theorem wal_batch_iterates_streaming_witness:
  "load_loop ex_zlib asm_init 40 (take_checkpoint ex_arena) \<lparr>records = [], res_header = None, res_ok = True,
      had_torn_tail = False, had_corruption = False\<rparr> ex_arena ((ex_reader (take 73 (wdata ex_file)))\<lparr>roff := 40\<rparr>) =
    batch_after ex_zlib \<lparr>records = [], res_header = None, res_ok = True, had_torn_tail = False,
      had_corruption = False\<rparr> (load_next ex_zlib 1 40 (ex_loader Ready))"
  using wal_batch_iterates_streaming [of "ex_loader Ready" "ex_reader (take 73 (wdata ex_file))"
    "make_WALFileHeader ex_zlib 1 5" 40 1 _ ex_zlib] ex_file_bytes(3)
  by (simp add: ex_loader_def stream_result_init_def validate_state_def get_file_size_def ex_reader_def
    make_WALFileHeader_def Let_def)

end
