(* ===== verification/EngineCorrect.thy ===== *)
theory EngineCorrect
  imports EngineRefine ManifestRecovery WALExamples
begin

text \<open>
  The contract of the database: a new database is the empty map, and any sequence of calls behaves like the
  same sequence on a map.
\<close>

section \<open>A new database\<close>

text \<open>The operating system lets the engine create its directories and files, and reports no errors.\<close>

definition calm_open :: "DBOptions \<Rightarrow> engine_env \<Rightarrow> bool" where
  "calm_open opts env \<longleftrightarrow>
     (ee_db_dir env = Some False \<and> create_if_missing opts \<and> ee_create_db_dir env \<or>
      ee_db_dir env = Some True \<and> ee_is_directory env = Some True \<and> \<not> error_if_exists opts) \<and>
     ee_create_sstable_dir env \<and> (\<forall>p. ee_exists_ok env p \<and> ee_remove_ok env p) \<and> calm_env (ee_manifest_write env) \<and>
     calm_env (ee_wal_write env 1) \<and> True \<notin> set (ee_arena_oom env)"

definition fresh_disk :: "DBOptions \<Rightarrow> disk \<Rightarrow> bool" where
  "fresh_disk opts d \<longleftrightarrow> d (path_join (db_path opts) ''MANIFEST'') = None \<and> d (engine_wal_path opts 1) = None"

lemma calm_file:
  assumes "calm_env env" "d p = None"
  obtains f where "open_writable_file env p d = Inr f" "wdata f = []" "wfd f" "write_faultfree f" "sync_faultfree f"
  using assms by (simp add: calm_env_def open_writable_file_def write_faultfree_def sync_faultfree_def)

lemma wal_created:
  assumes "calm_env (ee_wal_write env wid)" "d p = None" "p \<noteq> []"
  shows "\<exists>w d'. create_wal z env p wid start d = (Ok, w, d')"
proof -
  obtain f where f: "open_writable_file (ee_wal_write env wid) p (d(p := None)) = Inr f" "wdata f = []" "wfd f" "write_faultfree f" "sync_faultfree f"
    by (rule calm_file [OF assms(1), where d = "d(p := None)" and p = p]) simp_all
  obtain w where "WALWriter_create z p wid start True (Inr f) writer_init = (Ok, w)"
    using WALWriter_create_succeeds [OF assms(3) _ f(2-), of writer_init z wid start] by (auto simp: writer_init_def)
  then show ?thesis using f(1) assms(1) by (simp add: create_wal_def Let_def calm_env_def)
qed

lemma path_join_nonempty: "name \<noteq> [] \<Longrightarrow> path_join dir name \<noteq> []"
  by (simp add: path_join_def)

lemma empty_levels_ok: "n \<noteq> 0 \<Longrightarrow> levels_ok \<lparr>lm_levels = replicate n []\<rparr>"
  by (simp add: levels_ok_def all_tables_def level_ok_def)

lemma empty_engine:
  assumes "e_opened e" "\<not> e_closed e" "DBOptions_validate (e_options e) = Ok" "e_lm e = \<lparr>lm_levels = replicate (unat (co_max_levels (db_compaction (e_options e)))) []\<rparr>"
    and "m_path (e_manifest e) = path_join (db_path (e_options e)) ''MANIFEST''" "m_counters (e_manifest e) = StagedCounters_default"
    and "e_mem e = MemTable_new (dispatch ly kind)" "e_mgr e = SSTableManager_new dir" "length dir \<le> 50000" "sound_arena (e_arena e)"
  shows "represents z e Map.empty"
proof -
  let ?n = "unat (co_max_levels (db_compaction (e_options e)))"
  have n: "?n \<noteq> 0" using scheduler_options_valid(2) [OF DBOptions_validateD(3) [OF assms(3)]] by simp
  have "?n < 2 ^ 32" using unsigned_less [of "co_max_levels (db_compaction (e_options e))"] by simp
  then have "store_ok z Map.empty (e_disk e) (e_mgr e) (e_lm e) (next_id e)"
    using empty_levels_ok [OF n] assms(4,6,8,9) by (simp add: store_ok_def all_tables_def pool_ok_def SSTableManager_new_def StagedCounters_default_def)
  moreover have "mt_ok (e_mem e)" "mt_records (e_mem e) = []" "mem_layers (e_mem e) = [{}]"
    using assms(7) dv.new_inv [of ly kind] dv.new_recs [of ly kind] by (simp_all add: MemTable_new_def memtable_ok_def memtable_records_def mem_layers_def)
  moreover have "store_records Map.empty (e_lm e) = {}" using assms(4) by (simp add: store_records_def all_tables_def)
  ultimately have "engine_ok z Map.empty e" "engine_records Map.empty e = {}" using assms by (simp_all add: engine_ok_def engine_records_def)
  then show ?thesis unfolding represents_def by (intro exI [of _ Map.empty]) (simp add: means_def visible_def)
qed

lemma open_fresh_effect:
  assumes v: "DBOptions_validate opts = Ok" "length (db_path opts) \<le> 40000" and d: "fresh_disk opts d" and c: "calm_open opts env" and f: "True \<notin> set faults"
  shows "\<exists>e. KVDB_open z (dispatch ly kind) env opts d False faults = Inr e \<and> represents z e Map.empty \<and>
    e_next_seq e = 1 \<and> e_mem e = MemTable_new (dispatch ly kind)"
proof -
  let ?D = "dispatch ly kind" let ?mp = "path_join (db_path opts) ''MANIFEST''" let ?wp = "engine_wal_path opts 1" let ?dir = "path_join (db_path opts) ''sstables''"
  define e0 where "e0 = Engine_new ?D opts d faults"
  define e1 where "e1 = e0\<lparr>e_sstable_dir := ?dir, e_manifest_path := ?mp\<rparr>"
  have p: "prepare_dirs env e0 = (Ok, e1)" using c by (auto simp: prepare_dirs_def e0_def e1_def Engine_new_def calm_open_def Let_def)
  obtain e2 fs where e2: "next_fault e1 = (False, e2)" "e2 = e1\<lparr>e_faults := fs\<rparr>"
    using f by (cases faults) (auto simp: next_fault_def e1_def e0_def Engine_new_def)
  obtain ar where ar: "arena_init (ao_page_size (db_arena opts)) (ao_large_threshold (db_arena opts)) (ee_arena_oom env) = Some ar" "sound_arena ar"
    using fresh_arena [OF v(1)] c by (auto simp: calm_open_def)
  let ?n = "unat (co_max_levels (db_compaction opts))"
  have n: "?n \<noteq> 0" using scheduler_options_valid(2) [OF DBOptions_validateD(3) [OF v(1)]] by simp
  define e3 where "e3 = e2\<lparr>e_arena := ar, e_lm := \<lparr>lm_levels = replicate ?n []\<rparr>, e_mem := MemTable_new ?D, e_mgr := SSTableManager_new ?dir\<rparr>"
  have s3: "e_options e3 = opts" "e_manifest_path e3 = ?mp" "e_disk e3 = d" by (simp_all add: e3_def e2(2) e1_def e0_def Engine_new_def)
  have o1: "Engine_open z ?D env e0 = then_e (open_manifest z env) (then_e (open_wal z ?D env) (\<lambda>e. Some (Ok, e\<lparr>e_opened := True\<rparr>))) e3"
    using v(1) p e2 ar(1) n by (simp add: Engine_open_def e0_def Engine_new_def LevelManager_new_def e3_def e1_def)
  have dn: "d ?mp = None" "d ?wp = None" using d by (simp_all add: fresh_disk_def)
  obtain f0 where f0: "open_writable_file (ee_manifest_write env) ?mp d = Inr f0" "wdata f0 = []" "wfd f0" "write_faultfree f0" "sync_faultfree f0"
    using calm_file [where env = "ee_manifest_write env" and p = ?mp and d = d] dn(1) c by (auto simp: calm_open_def)
  obtain m where m: "Manifest_open_or_create z (Some False) (Some (length (the (d ?mp)))) (Inr f0) (Manifest_new ?mp) = (Ok, m)" "m_path m = ?mp" "m_counters m = StagedCounters_default"
    using manifest_created [OF f0(2-) path_join_nonempty, of "''MANIFEST''"] by blast
  define e4 where "e4 = e3\<lparr>e_manifest := m, e_disk := manifest_to_disk m (e_disk e3)\<rparr>"
  have o2: "open_manifest z env e3 = Some (Ok, e4)" using s3 dn(1) f0(1) m(1) c by (simp add: open_manifest_def Let_def e4_def calm_open_def)
  have "last ?wp = CHR ''g''" "last ?mp = CHR ''T''" unfolding engine_wal_path_def by (subst last_path_join, simp_all)+
  then have "?wp \<noteq> ?mp" by auto
  then have dw: "e_disk e4 ?wp = None" using dn(2) s3(3) m(2) by (simp add: e4_def manifest_to_disk_def split: option.splits)
  define e5 where "e5 = e4\<lparr>e_wal_id := 1, e_next_seq := 1, e_disk := (e_disk e4)(?wp := None)\<rparr>"
  obtain w d5 where w: "create_wal z env ?wp 1 1 (e_disk e5) = (Ok, w, d5)"
    using wal_created [of env 1 "e_disk e5" ?wp z 1] c path_join_nonempty by (auto simp: calm_open_def e5_def engine_wal_path_def)
  define e6 where "e6 = e5\<lparr>e_wal := w, e_disk := d5\<rparr>"
  have s4: "e_options e4 = opts" "m_counters (e_manifest e4) = StagedCounters_default" using s3(1) m(3) by (simp_all add: e4_def)
  have o3: "open_wal z ?D env e4 = Some (Ok, e6)"
    using s4 dw w c by (simp add: open_wal_def Let_def StagedCounters_default_def remove_if_present_def calm_open_def e5_def e6_def)
  define e7 where "e7 = e6\<lparr>e_opened := True\<rparr>"
  have o: "KVDB_open z ?D env opts d False faults = Inr e7"
    using o1 o2 o3 by (simp add: KVDB_open_def then_e_def e0_def e7_def)
  have "length ?dir \<le> 50000" using v(2) by (simp add: path_join_def)
  then have "represents z e7 Map.empty"
    by (rule empty_engine [where dir = ?dir, rotated 8])
      (use v(1) m(2,3) ar(2) in \<open>simp_all add: e7_def e6_def e5_def e4_def e3_def e2(2) e1_def e0_def Engine_new_def\<close>)
  moreover have "e_next_seq e7 = 1" "e_mem e7 = MemTable_new ?D" by (simp_all add: e7_def e6_def e5_def e4_def e3_def)
  ultimately show ?thesis using o by blast
qed

section \<open>The contract\<close>

datatype call = CallGet "byte list" | CallPut "byte list" "byte list" | CallRemove "byte list" | CallFlush | CallCompactRange "byte list" "byte list"

datatype reply = Value "byte list option result" | Done StatusCode

fun engine_call :: "zlib \<Rightarrow> 'd Driver \<Rightarrow> engine_env \<Rightarrow> call \<Rightarrow> 'd Engine \<Rightarrow> (reply \<times> 'd Engine) option" where
  "engine_call z D env (CallGet k) e = map_option (map_prod Value id) (Engine_get z D env k e)"
| "engine_call z D env (CallPut k v) e = map_option (map_prod Done id) (Engine_put z D env k v e)"
| "engine_call z D env (CallRemove k) e = map_option (map_prod Done id) (Engine_remove z D env k e)"
| "engine_call z D env CallFlush e = map_option (map_prod Done id) (Engine_flush z D env e)"
| "engine_call z D env (CallCompactRange a b) e = map_option (map_prod Done id) (Engine_compact_range z D env a b e)"

text \<open>A sequence of calls, each with what the operating system answers during it.\<close>

fun run_calls :: "('env \<Rightarrow> call \<Rightarrow> 's \<Rightarrow> (reply \<times> 's) option) \<Rightarrow> ('env \<times> call) list \<Rightarrow> 's \<Rightarrow> (reply list \<times> 's) option" where
  "run_calls run [] s = Some ([], s)"
| "run_calls run ((env, c) # cs) s =
     (case run env c s of None \<Rightarrow> None | Some (r, s) \<Rightarrow> map_option (map_prod (Cons r) id) (run_calls run cs s))"

text \<open>The specification: a map, where a write that reports a failure may still take effect.\<close>

inductive map_call :: "(byte list \<rightharpoonup> byte list) \<Rightarrow> call \<Rightarrow> reply \<Rightarrow> (byte list \<rightharpoonup> byte list) \<Rightarrow> bool" where
  get: "length k \<le> u32_max \<Longrightarrow> map_call M (CallGet k) (Value (Inr (M k))) M"
| get_too_long: "length k > u32_max \<Longrightarrow> map_call M (CallGet k) (Value (Inl InvalidArgument)) M"
| put: "map_call M (CallPut k v) (Done c) (M(k \<mapsto> v))"
| put_fails: "c \<noteq> Ok \<Longrightarrow> map_call M (CallPut k v) (Done c) M"
| remove: "map_call M (CallRemove k) (Done c) (M(k := None))"
| remove_fails: "c \<noteq> Ok \<Longrightarrow> map_call M (CallRemove k) (Done c) M"
| flush: "map_call M CallFlush (Done c) M"
| compact: "map_call M (CallCompactRange a b) (Done c) M"

inductive map_calls :: "(byte list \<rightharpoonup> byte list) \<Rightarrow> call list \<Rightarrow> reply list \<Rightarrow> (byte list \<rightharpoonup> byte list) \<Rightarrow> bool" where
  stop: "map_calls M [] [] M"
| step: "map_call M c r M' \<Longrightarrow> map_calls M' cs rs M'' \<Longrightarrow> map_calls M (c # cs) (r # rs) M''"

inductive_cases map_callE: "map_call M (CallPut k v) r M'" "map_call M (CallGet k) r M'"
inductive_cases map_callsE: "map_calls M [] rs M'" "map_calls M (c # cs) rs M'"

text \<open>Whoever serves one call serves any sequence of calls.\<close>

locale map_service =
  fixes run :: "'env \<Rightarrow> call \<Rightarrow> 's \<Rightarrow> (reply \<times> 's) option"
    and calm_answers :: "'env \<Rightarrow> bool"
    and shows_as :: "'s \<Rightarrow> (byte list \<rightharpoonup> byte list) \<Rightarrow> bool"
  assumes serves: "shows_as s M \<Longrightarrow> calm_answers env \<Longrightarrow> \<exists>r s' M'. run env c s = Some (r, s') \<and> map_call M c r M' \<and> shows_as s' M'"
begin

lemma serves_all:
  "\<forall>(env, c)\<in>set calls. calm_answers env \<Longrightarrow> shows_as s M \<Longrightarrow>
    \<exists>rs s' M'. run_calls run calls s = Some (rs, s') \<and> map_calls M (map snd calls) rs M' \<and> shows_as s' M'"
proof (induction calls arbitrary: s M)
  case Nil
  then show ?case using map_calls.stop by auto
next
  case (Cons x calls)
  obtain env c where x: "x = (env, c)" by fastforce
  obtain r s1 M1 where r: "run env c s = Some (r, s1)" "map_call M c r M1" "shows_as s1 M1"
    using serves [OF Cons.prems(2), of env c] Cons.prems(1) x by auto
  obtain rs s2 M2 where rs: "run_calls run calls s1 = Some (rs, s2)" "map_calls M1 (map snd calls) rs M2" "shows_as s2 M2"
    using Cons.IH [OF _ r(3)] Cons.prems(1) by auto
  then show ?case using r x map_calls.step [OF r(2) rs(2)] by (intro exI [of _ "r # rs"] exI [of _ s2] exI [of _ M2]) simp
qed

end

lemma engine_call_effect:
  assumes "represents z e M" "crc_incremental z" "quiet_env env"
  shows "\<exists>r e' M'. engine_call z (dispatch ly kind) env c e = Some (r, e') \<and> map_call M c r M' \<and> represents z e' M'"
proof -
  let ?D = "dispatch ly kind"
  have q: "quiet_reads (ee_job env)" using assms(3) by (simp add: quiet_env_def)
  note writes = put_effect [OF assms(1,2) q, of _ ly kind]
  show ?thesis
  proof (cases c)
    case (CallGet k)
    obtain cat where ok: "engine_ok z cat e" "means (engine_records cat e) M" using assms(1) by (auto simp: represents_def)
    show ?thesis
    proof (cases "length k \<le> u32_max")
      case True
      obtain e' where "Engine_get z ?D env k e = Some (Inr (M k), e')" "engine_ok z cat e'" "engine_records cat e' = engine_records cat e"
        using get_effect [OF ok assms(2,3) True] by blast
      then have "engine_call z ?D env c e = Some (Value (Inr (M k)), e')" "represents z e' M" using CallGet ok(2) by (auto simp: represents_def)
      then show ?thesis using CallGet map_call.get [OF True, of M] by blast
    next
      case False
      then have "Engine_get z ?D env k e = Some (Inl InvalidArgument, e)" using engine_okD(1,2) [OF ok(1)] by (simp add: Engine_get_def ensure_open_def)
      then show ?thesis using CallGet map_call.get_too_long [of k M] False assms(1) by auto
    qed
  next
    case (CallPut k v)
    then show ?thesis using writes [of Put k v] map_call.put map_call.put_fails by (fastforce simp: Engine_put_def)
  next
    case (CallRemove k)
    then show ?thesis using writes [of Tombstone k "[]"] map_call.remove map_call.remove_fails by (fastforce simp: Engine_remove_def)
  next
    case CallFlush
    then show ?thesis using flush_unlocked_effect [OF assms(1,2) q, of ly kind] map_call.flush by (fastforce simp: Engine_flush_def)
  next
    case (CallCompactRange a b)
    then show ?thesis using compact_range_effect [OF assms(1,2) q, of ly kind a b] map_call.compact by fastforce
  qed
qed

interpretation db: map_service "engine_call z (dispatch ly kind)" quiet_env "\<lambda>e M. crc_incremental z \<and> represents z e M" for z ly kind
  by unfold_locales (use engine_call_effect in blast)

section \<open>Records that block the flush\<close>

lemma unstorable_effect:
  assumes "mt_ok (e_mem e)" "immutable_tables (e_mem e) = s # ss" "\<not> list_all storable (driver_records (table s))"
  shows "\<exists>c e'. flush_oldest_immutable z (dispatch ly kind) env e = Some (c, e') \<and> c \<noteq> Ok \<and> e_mem e' = e_mem e"
proof -
  let ?id = "sc_next_table_id (m_counters (e_manifest e))" let ?D = "dispatch ly kind"
  obtain b e0 where f: "next_fault e = (b, e0)" by fastforce
  have m: "e_mem e0 = e_mem e" using next_fault_core [OF f] by simp
  have no: "SSTableManager_build z ?D b (ucast ?id) (e_mem e0) (e_mgr e0) \<noteq> Inr (Some t)" for t
  proof
    assume "SSTableManager_build z ?D b (ucast ?id) (e_mem e0) (e_mgr e0) = Inr (Some t)"
    from built_generation(1) [OF _ _ this] assms m have "section_ok z (tb_data t)" "section_records (tb_data t) = driver_records (table s)"
      by (auto simp: builder_holds_def)
    then show False using section_storable assms(3) by metis
  qed
  show ?thesis
    using f no build_error [of z ?D b "ucast ?id" "e_mem e0" "e_mgr e0"] assms(2) m
    by (cases "SSTableManager_build z ?D b (ucast ?id) (e_mem e0) (e_mgr e0)")
      (auto simp: flush_oldest_immutable_def MemTable_oldest_immutable_def Let_def split: option.splits)
qed

section \<open>Properties\<close>

text \<open>C1 (the database is a map). On an empty directory of a well-behaved file system the database opens. From
  then on every sequence of lookups, puts, removes, flushes and range compactions returns, and the replies are
  those of the same sequence on a map that starts empty: a lookup returns the value of the last put of the key that was
  not removed, flushes and compactions change nothing. Later errors on files that are written, in commits, in the log
  and in allocations of the engine are allowed; a put or remove that reports an error took effect or did not.\<close>

theorem database_refines_map:
  assumes "DBOptions_validate opts = Ok" "length (db_path opts) \<le> 40000" "fresh_disk opts d" "calm_open opts env" "True \<notin> set faults"
    and "crc_incremental z" "\<forall>(env', c)\<in>set calls. quiet_env env'"
  shows "\<exists>e rs e' M. KVDB_open z (dispatch ly kind) env opts d False faults = Inr e \<and>
    run_calls (engine_call z (dispatch ly kind)) calls e = Some (rs, e') \<and> map_calls Map.empty (map snd calls) rs M \<and> represents z e' M"
  using open_fresh_effect [OF assms(1-5), of z ly kind] db.serves_all [OF assms(7), of z _ Map.empty ly kind] assms(6) by blast

text \<open>C2 (lookups). When files of tables can be read, a lookup in an open engine returns the value the map holds for the key,
  whether it is in the mutable table, in a frozen generation or in a table of any level, and changes no answer.\<close>

theorem engine_get_correct:
  assumes "represents z e M" "crc_incremental z" "quiet_env env" "length key \<le> u32_max"
  shows "\<exists>e'. Engine_get z (dispatch ly kind) env key e = Some (Inr (M key), e') \<and> represents z e' M"
proof -
  obtain cat where "engine_ok z cat e" "means (engine_records cat e) M" using assms(1) by (auto simp: represents_def)
  from get_effect [OF this assms(2-4), of ly kind] this(2) show ?thesis by (metis represents_def)
qed

text \<open>C3 (writes). A put or remove returns. When it returns Ok the map has the new value, or no value, for the key; when it
  reports an error, the map is the old or the new one. Nothing else changes, also when the write starts a flush and compactions.\<close>

theorem engine_write_correct:
  assumes "represents z e M" "crc_incremental z" "quiet_env env"
  shows "(\<exists>c e'. Engine_put z (dispatch ly kind) env key val e = Some (c, e') \<and>
      (represents z e' (M(key \<mapsto> val)) \<or> c \<noteq> Ok \<and> represents z e' M)) \<and>
    (\<exists>c e'. Engine_remove z (dispatch ly kind) env key e = Some (c, e') \<and>
      (represents z e' (M(key := None)) \<or> c \<noteq> Ok \<and> represents z e' M))"
proof -
  have q: "quiet_reads (ee_job env)" using assms(3) by (simp add: quiet_env_def)
  note w = put_effect [OF assms(1,2) q, of _ ly kind key]
  from w [of Put val] w [of Tombstone "[]"] show ?thesis by (simp add: Engine_put_def Engine_remove_def)
qed

text \<open>C4 (maintenance). Provided that the inputs of a compaction can be opened and read, flushes, background compactions and range
  compactions end and leave the map as it is, also when they fail half-way: writes of tables, syncs, renames, removals of files,
  the commit to the manifest, the replacement of the log and the memory of the drivers may all fail. (An open engine of the
  model has an arena that is not out of memory.)\<close>

theorem engine_maintenance_invisible:
  assumes "represents z e M" "crc_incremental z" "quiet_reads (ee_job env)"
  shows "(\<exists>c e'. Engine_flush z (dispatch ly kind) env e = Some (c, e') \<and> represents z e' M) \<and>
    (\<exists>c e'. maybe_compact_unlocked z env e = Some (c, e') \<and> represents z e' M) \<and>
    (\<exists>c e'. Engine_compact_range z (dispatch ly kind) env a b e = Some (c, e') \<and> represents z e' M)"
  using flush_unlocked_effect [OF assms, of ly kind] maybe_compact_effect [OF assms] compact_range_effect [OF assms, of ly kind a b]
  by (simp add: Engine_flush_def)

text \<open>C39 (an oversized record stops flushing). A generation with a record that no block can hold is never flushed: every
  attempt fails and leaves it, and all generations behind it, in memory.\<close>

theorem unstorable_record_blocks_flush:
  assumes "mt_ok (e_mem e)" "immutable_tables (e_mem e) = s # ss" "\<not> list_all storable (driver_records (table s))"
  shows "\<exists>c e'. flush_oldest_immutable z (dispatch ly kind) env e = Some (c, e') \<and> c \<noteq> Ok \<and> e_mem e' = e_mem e"
  by (rule unstorable_effect [OF assms])

text \<open>C40 (validated options). Options that pass validation are accepted by every component: an arena and the level manager can be
  constructed with them, and the scheduler takes them.\<close>

theorem validated_options_accepted:
  assumes "DBOptions_validate opts = Ok"
  shows "(\<exists>ar. arena_init (ao_page_size (db_arena opts)) (ao_large_threshold (db_arena opts)) script = Some ar \<and> arena_ok ar) \<and>
    (\<exists>lm. LevelManager_new (unat (co_max_levels (db_compaction opts))) = Some lm \<and> levels_ok lm) \<and>
    CompactionOptions_validate (scheduler_options opts) = Ok"
proof -
  note c = scheduler_options_valid [OF DBOptions_validateD(3) [OF assms]]
  show ?thesis using validated_arena [OF DBOptions_validateD(2) [OF assms], of script] arena_init_ok c empty_levels_ok [of "unat (co_max_levels (db_compaction opts))"]
    by (auto simp: LevelManager_new_def)
qed

section \<open>Example\<close>

definition ex_dopts :: DBOptions where
  "ex_dopts = DBOptions_default\<lparr>db_path := ''db''\<rparr>"

definition ex_denv :: engine_env where
  "ex_denv = \<lparr>ee_exists_ok = (\<lambda>_. True), ee_remove_ok = (\<lambda>_. True), ee_db_dir = Some False, ee_is_directory = None, ee_create_db_dir = True,
     ee_create_sstable_dir = True, ee_manifest_size_ok = True, ee_manifest_read = ex_read_env, ee_manifest_write = ex_write_env,
     ee_manifest_resize_ok = True, ee_wal_read = ex_read_env, ee_wal_write = (\<lambda>_. ex_write_env), ee_table_read = (\<lambda>_. ex_read_env),
     ee_table_write = (\<lambda>_. ex_write_env), ee_job = ex_jenv, ee_chance = (\<lambda>_. ex_chance), ee_read_oom = [], ee_arena_oom = []\<rparr>"

abbreviation ex_D :: "any_driver Driver" where
  "ex_D \<equiv> dispatch ex_layout KRBTree"

lemma ex_db:
  "DBOptions_validate ex_dopts = Ok" "length (db_path ex_dopts) \<le> 40000" "fresh_disk ex_dopts Map.empty" "calm_open ex_dopts ex_denv" "quiet_env ex_denv"
proof -
  have "DBCompactionOptions_validate (db_compaction ex_dopts) = Ok" by (simp add: DBCompactionOptions_validate_def ex_dopts_def DBOptions_default_def upt_rec)
  then show "DBOptions_validate ex_dopts = Ok"
    by (simp add: DBOptions_validate_def ArenaOptions_validate_def MemTableOptions_validate_def WALOptions_validate_def SSTableOptions_validate_def
      BloomFilterOptions_validate_def ManifestOptions_validate_def SSTableManagerOptions_validate_def Let_def ex_dopts_def DBOptions_default_def)
  show "length (db_path ex_dopts) \<le> 40000" by (simp add: ex_dopts_def)
  show "fresh_disk ex_dopts Map.empty" by (simp add: fresh_disk_def)
  show "calm_open ex_dopts ex_denv" using ex_calm by (simp add: calm_open_def ex_denv_def ex_dopts_def DBOptions_default_def)
  show "quiet_env ex_denv" by (simp add: quiet_env_def quiet_tables_def quiet_reads_def ex_denv_def ex_jenv_def ex_read_env_def)
qed

lemma ex_open:
  obtains e where "KVDB_open IndexSection.ex_zlib ex_D ex_denv ex_dopts Map.empty False [] = Inr e" "represents IndexSection.ex_zlib e Map.empty"
  using open_fresh_effect [OF ex_db(1-4), of "[]" IndexSection.ex_zlib ex_layout KRBTree] by auto

theorem database_refines_map_witness:
  "\<exists>e c x e'. KVDB_open IndexSection.ex_zlib ex_D ex_denv ex_dopts Map.empty False [] = Inr e \<and>
     run_calls (engine_call IndexSection.ex_zlib ex_D) [(ex_denv, CallPut [1] [2]), (ex_denv, CallGet [1])] e = Some ([Done c, Value (Inr x)], e') \<and>
     (x = Some [2] \<or> c \<noteq> Ok)"
proof -
  let ?calls = "[(ex_denv, CallPut [1] [2]), (ex_denv, CallGet [1])]"
  have "\<forall>(env', c)\<in>set ?calls. quiet_env env'" using ex_db(5) by simp
  from database_refines_map [OF ex_db(1-4) _ IndexSection.ex_zlib_incremental this, of "[]" ex_layout KRBTree]
  obtain e rs e' M where r: "KVDB_open IndexSection.ex_zlib ex_D ex_denv ex_dopts Map.empty False [] = Inr e"
    "run_calls (engine_call IndexSection.ex_zlib ex_D) ?calls e = Some (rs, e')" "map_calls Map.empty [CallPut [1] [2], CallGet [1]] rs M" by auto
  from r(3) obtain c x where "rs = [Done c, Value (Inr x)]" "x = Some [2] \<or> c \<noteq> Ok"
    by (auto elim!: map_callsE map_callE)
  then show ?thesis using r(1,2) by blast
qed

theorem engine_get_correct_witness:
  "\<exists>e e'. KVDB_open IndexSection.ex_zlib ex_D ex_denv ex_dopts Map.empty False [] = Inr e \<and> Engine_get IndexSection.ex_zlib ex_D ex_denv [1] e = Some (Inr None, e')"
proof -
  obtain e where e: "KVDB_open IndexSection.ex_zlib ex_D ex_denv ex_dopts Map.empty False [] = Inr e" "represents IndexSection.ex_zlib e Map.empty" by (rule ex_open)
  then show ?thesis using engine_get_correct [OF e(2) IndexSection.ex_zlib_incremental ex_db(5), of "[1]" ex_layout KRBTree] by auto
qed

theorem engine_write_correct_witness:
  "\<exists>e c e'. KVDB_open IndexSection.ex_zlib ex_D ex_denv ex_dopts Map.empty False [] = Inr e \<and> Engine_put IndexSection.ex_zlib ex_D ex_denv [1] [2] e = Some (c, e') \<and>
     (represents IndexSection.ex_zlib e' [[1] \<mapsto> [2]] \<or> c \<noteq> Ok \<and> represents IndexSection.ex_zlib e' Map.empty)"
proof -
  obtain e where e: "KVDB_open IndexSection.ex_zlib ex_D ex_denv ex_dopts Map.empty False [] = Inr e" "represents IndexSection.ex_zlib e Map.empty" by (rule ex_open)
  then show ?thesis using engine_write_correct [OF e(2) IndexSection.ex_zlib_incremental ex_db(5), of ex_layout KRBTree "[1]" "[2]"] by blast
qed

text \<open>A database that holds one key.\<close>

lemma ex_filled:
  obtains e where "represents IndexSection.ex_zlib e [[1] \<mapsto> [2]]"
proof -
  obtain e where e: "represents IndexSection.ex_zlib e Map.empty" "e_next_seq e = 1" "e_mem e = MemTable_new ex_D"
    using open_fresh_effect [OF ex_db(1-4), of "[]" IndexSection.ex_zlib ex_layout KRBTree] by auto
  then obtain cat where ok: "engine_ok IndexSection.ex_zlib cat e" and M: "means (engine_records cat e) Map.empty" by (auto simp: represents_def)
  define r where "r = put_record [1] [2] Put 1"
  have r: "seq_num r = e_next_seq e" "rtype r \<noteq> Undefined" "e_next_seq e \<noteq> - 1" using e(2) by (simp_all add: r_def put_record_def)
  note new = dv.new_inv [of ex_layout KRBTree] dv.new_recs [of ex_layout KRBTree]
  have "served ex_chance" by (simp add: served_def ex_chance_def)
  then have "fst (d_insert ex_D ex_chance r (d_new ex_D)) = Ok" using dv.insert_duplicate [OF new(1)] new(2) by simp
  then obtain d where "d_insert ex_D ex_chance r (d_new ex_D) = (Ok, d)" by (metis prod.collapse)
  then obtain e1 where a: "apply_record ex_D ex_denv r e = (Ok, e1)"
    by (simp add: apply_record_def MemTable_apply_def MemTable_new_def e(3) ex_denv_def)
  have "means (insert r (engine_records cat e)) (Map.empty(key_entry r := visible (Some r)))"
    by (rule means_insert [OF M _ engine_finite]) (use engine_okD(8) [OF ok] r(1) in simp)
  moreover have "Map.empty(key_entry r := visible (Some r)) = [[1] \<mapsto> [2]]" by (simp add: r_def put_record_def visible_def)
  moreover have "engine_ok IndexSection.ex_zlib cat (e1\<lparr>e_next_seq := e_next_seq e1 + 1\<rparr>)" "engine_records cat e1 = insert r (engine_records cat e)"
    using apply_record_effect [OF ok r a] by simp_all
  moreover have "engine_records cat (e1\<lparr>e_next_seq := e_next_seq e1 + 1\<rparr>) = engine_records cat e1" by (simp add: engine_records_def)
  ultimately have "represents IndexSection.ex_zlib (e1\<lparr>e_next_seq := e_next_seq e1 + 1\<rparr>) [[1] \<mapsto> [2]]" unfolding represents_def by (metis (no_types))
  then show ?thesis by (rule that)
qed

theorem engine_maintenance_invisible_witness:
  "\<exists>e. represents IndexSection.ex_zlib e [[1] \<mapsto> [2]] \<and>
     (\<exists>c e'. Engine_flush IndexSection.ex_zlib ex_D ex_denv e = Some (c, e') \<and> represents IndexSection.ex_zlib e' [[1] \<mapsto> [2]]) \<and>
     (\<exists>c e'. Engine_compact_range IndexSection.ex_zlib ex_D ex_denv [1] [2] e = Some (c, e') \<and> represents IndexSection.ex_zlib e' [[1] \<mapsto> [2]])"
proof -
  obtain e where e: "represents IndexSection.ex_zlib e [[1] \<mapsto> [2]]" by (rule ex_filled)
  have "quiet_reads (ee_job ex_denv)" using ex_db(5) by (simp add: quiet_env_def)
  from engine_maintenance_invisible [OF e IndexSection.ex_zlib_incremental this, of ex_layout KRBTree "[1]" "[2]"] e show ?thesis by blast
qed

text \<open>A value of 5000 bytes is logged and stored in memory, but no block can hold it.\<close>

definition ex_large :: InternalRecord where
  "ex_large = \<lparr>key_entry = [1], value_entry = replicate 5000 0, rtype = Put, seq_num = 1\<rparr>"

definition ex_stuck :: "any_driver \<Rightarrow> any_driver Engine" where
  "ex_stuck t = (Engine_new ex_D ex_dopts Map.empty [])\<lparr>e_mem := \<lparr>mutable_table = d_new ex_D, immutable_tables = [\<lparr>generation_id = 1, table = t\<rparr>], next_generation_id = 2\<rparr>\<rparr>"

theorem unstorable_record_blocks_flush_witness:
  "\<exists>t c e'. d_insert ex_D ex_chance ex_large (d_new ex_D) = (Ok, t) \<and>
     flush_oldest_immutable IndexSection.ex_zlib ex_D ex_denv (ex_stuck t) = Some (c, e') \<and> c \<noteq> Ok \<and> e_mem e' = e_mem (ex_stuck t)"
proof -
  note new = dv.new_inv [of ex_layout KRBTree] dv.new_recs [of ex_layout KRBTree]
  have "served ex_chance" by (simp add: served_def ex_chance_def)
  then have "fst (d_insert ex_D ex_chance ex_large (d_new ex_D)) = Ok" using dv.insert_duplicate [OF new(1)] new(2) by simp
  then obtain t where t: "d_insert ex_D ex_chance ex_large (d_new ex_D) = (Ok, t)" by (metis prod.collapse)
  then have r: "driver_ok t" "driver_records t = [ex_large]" using dv.insert_ok [OF new(1) t] new(2) by simp_all
  have "mt_ok (e_mem (ex_stuck t))" using r(1) new(1) by (simp add: ex_stuck_def memtable_ok_def)
  moreover have "immutable_tables (e_mem (ex_stuck t)) = \<lparr>generation_id = 1, table = t\<rparr> # []" by (simp add: ex_stuck_def)
  moreover have "\<not> list_all storable (driver_records (table \<lparr>generation_id = 1, table = t\<rparr>))" using r(2) by (simp add: storable_def ex_large_def)
  ultimately show ?thesis using unstorable_record_blocks_flush t by blast
qed

theorem validated_options_accepted_witness:
  "DBOptions_validate ex_dopts = Ok \<and> CompactionOptions_validate (scheduler_options ex_dopts) = Ok"
  using validated_options_accepted [OF ex_db(1)] ex_db(1) by blast

end
