(* ===== verification/Spec2Isabelle.thy ===== *)
theory Spec2Isabelle
  imports EngineCorrect
begin

text \<open>
  A verification library for KVDB (\<^verbatim>\<open>src/\<close>), a log-structured key-value store in C++.

  \<^bold>\<open>The program.\<close> A write goes to the write-ahead log (\<^verbatim>\<open>core/engine/wal.cpp\<close>) and to the
  mutable generation of the memory table (\<^verbatim>\<open>core/engine/mem_table.cpp\<close>), which stores records in one of
  four ordered structures (\<^verbatim>\<open>data_structures/\<close>). Frozen generations are flushed to sorted tables
  (\<^verbatim>\<open>core/sstable_entities/\<close>, \<^verbatim>\<open>core/sstable_infra/\<close>, \<^verbatim>\<open>core/engine/sstable.cpp\<close>). The level manager
  (\<^verbatim>\<open>core/engine/level_manager.cpp\<close>) holds the metadata of the tables; every change of it is a version
  edit in the manifest (\<^verbatim>\<open>core/engine/manifest.cpp\<close>, \<^verbatim>\<open>core/engine/table_meta.cpp\<close>). Compaction
  (\<^verbatim>\<open>core/compaction/\<close>, \<^verbatim>\<open>utils/merge_iterator.cpp\<close>) merges tables into the next level. Everything
  rests on the file abstraction and the block-aware field I/O (\<^verbatim>\<open>abstractions/file.cpp\<close>,
  \<^verbatim>\<open>utils/file_helpers.cpp\<close>, \<^verbatim>\<open>utils/endian_io.cpp\<close>, \<^verbatim>\<open>utils/crc32_helpers.cpp\<close>) and on the arena
  (\<^verbatim>\<open>core/allocator/arena.cpp\<close>).

  \<^bold>\<open>The theories\<close>, in the order in which they build on each other:

  \<^item> \<open>Prelude\<close>: words, status codes, results, the sequencing idioms (\<open>run_all\<close>, \<open>bind_r\<close>).
  \<^item> \<open>Records\<close>, \<open>Endian\<close>: keys in byte order, records in internal-key order, little-endian codecs,
    the stream form of a record and its round trip.
  \<^item> \<open>Files\<close>, \<open>BlockIO\<close>, \<open>BlockStream\<close>: files whose system calls follow a script (short transfers,
    interrupts, errors), padding to blocks, fixed-size fields (locale \<open>block_codec\<close>), sequences of
    fields (\<open>lay\<close>, \<open>lays\<close>, \<open>reads\<close>). \<open>emits\<close> and \<open>yields\<close> say what a write leaves and a read returns.
  \<^item> \<open>Arena\<close>, \<open>Loader\<close>: the arena with its objects and arrays, checkpoints and rollback: regions are aligned
    and disjoint, a rollback destroys exactly the objects created since; readers that allocate (\<open>loader\<close>), with
    the rules that they return (\<open>calm\<close>), move forward (\<open>forward\<close>) and read back what was laid out
    (\<open>loads\<close>).
  \<^item> \<open>WAL\<close>, \<open>WALWriter\<close>, \<open>WALLoader\<close>, \<open>WALRecovery\<close>, \<open>WALStreaming\<close>, \<open>WALSession\<close>, \<open>WALExamples\<close>: the
    log. The loaders return on every input, batch loading is iterated streaming loading. A session is any
    sequence of writes and syncs that goes on after failures, as the engine does: what was written before
    the first failed write is recovered from every cut of the file that keeps it, synced records survive;
    a write after a failed one may be lost although it was acknowledged (\<open>wal_write_after_failure_lost\<close>).
  \<^item> \<open>BST\<close>, \<open>DriverSpec\<close>, \<open>RBTree\<close>, \<open>Treap\<close>, \<open>SplayTree\<close>, \<open>SkipList\<close>, \<open>DriverKinds\<close>, \<open>MemTable\<close>: the
    ordered structures behind one interface (locale \<open>ordered_driver\<close>, interpreted for each of them and
    for the virtual dispatch), and the memory table: reads see the last write, a flush retires exactly
    what was dumped, under any interleaving of clients and flushers.
  \<^item> \<open>LevelManager\<close>, \<open>TableMetaIO\<close>, \<open>VersionEdits\<close>, \<open>ManifestLog\<close>, \<open>ManifestRecovery\<close>: table metadata,
    levels, the durable edits, staging, commit and recovery. Commits append and sync exactly the encoded
    edit or leave levels and counters alone, and are atomic across a crash as long as no edit needs padding; an edit that does locks the database out
    (\<open>manifest_padded_edit_locks_out\<close>).
  \<^item> \<open>CompactionScheduler\<close>: options, plans and the scheduler; its plans are valid and no other table of
    the target level meets their key range.
  \<^item> \<open>TableFormat\<close>, \<open>IndexSection\<close>: what the sections of a table share, and the index: binary search,
    writing, loading.
  \<^item> \<open>DataSection\<close>: data blocks; a section holds its records in order, is written block by block together
    with its index, and cannot exceed about one megabyte.
  \<^item> \<open>FileHeader\<close>, \<open>BloomSection\<close>, \<open>MetaSection\<close>, \<open>FileFooter\<close>: the remaining sections. The filter has no
    false negatives, the metadata summarises the data, long boundary keys make a table unwritable.
  \<^item> \<open>DataSectionView\<close>: the lazy reader of data blocks; on a written section it finds and reads back the
    newest record of a key.
  \<^item> \<open>SSTable\<close>: the table object: building, publication by rename, loading, lookup. Publication is atomic, a
    published table loads, and lookups return the newest record of a key.
  \<^item> \<open>SSTableIterator\<close>, \<open>MergeIterator\<close>: the block-lazy iterator over a table and the heap-based merge of
    several, both interpretations of the locale \<open>cursor\<close>, whose loops deliver exactly the remaining records.
  \<^item> \<open>SSTableBuilder\<close>, \<open>SSTableManager\<close>: building tables, the size estimate, table metadata, file names, the
    pool of open tables. A table can be rebuilt from its own iterator.
  \<^item> \<open>CompactionJob\<close>: running a plan. The edit replaces the inputs by tables that hold exactly the newest
    version of every key, without tombstones at the bottommost level; a failed run leaves existing files alone.
  \<^item> \<open>DBOptions\<close>, \<open>Engine\<close>: the options and their validation; the engine with all its operations.
  \<^item> \<open>EngineStore\<close>, \<open>EngineView\<close>, \<open>EngineFlush\<close>, \<open>EngineCompact\<close>, \<open>EngineRefine\<close>, \<open>EngineCorrect\<close>: an open engine stands for
    a map from keys to values. Lookups read the map, puts and removes update it, flushes, background and
    manual compactions leave it alone, and all of them return, as long as table files can be read; a
    failed write is applied or not.
    \<open>database_refines_map\<close> states this from the opening of a new database on (locale \<open>map_service\<close>).

  \<^bold>\<open>Conventions.\<close> A status is its code; messages are not modelled. A \<open>Result\<close> is a sum with the code on
  the left. Reference parameters are part of the returned state; the offset a caller tracks for a file
  is the field \<open>woff\<close> or \<open>roff\<close> of the file. On-disk integers are words; offsets and sizes are natural
  numbers and every overflow check of the source is written out. An \<open>ArenaEntry\<close> is its bytes, so the
  null-pointer checks on it vanish. \<open>Type::Undefined\<close> stands for every invalid type byte. Asserts are
  compiled out. zlib's \<open>crc32\<close> is the parameter \<open>zlib\<close>. Exceptions are the value \<open>None\<close>. The answers of
  the operating system and of the heap are arguments or scripts in the state: failed and partial
  writes, interrupted calls, failing opens, \<open>lseek\<close> and \<open>fstat\<close> on an open file succeed, arena
  allocations fail by script, \<open>bad_alloc\<close> in the drivers, the memory table and while staging an edit
  are arguments. Trees are zipper locations, so that parent links are implicit; the skip list is a
  pointer store whose searches have as much fuel as there are nodes, which is enough because levels
  are acyclic. Random priorities and coins are arguments, object sizes are the parameter \<open>layout\<close>.
  Operations under a mutex are atomic steps.

  \<^bold>\<open>Termination.\<close> The loops of the loaders are total functions: a loaded fragment or edit moves the
  offset (\<open>Fragment_load_keeps\<close>, \<open>VersionEdit_load_returns\<close>). The merge loop, the background compaction
  loop and the loop that closes a manual plan are partial functions that are proved to return: records
  are consumed, the weight of the store goes down (\<open>weight_replace\<close>), the plan grows
  (\<open>close_plan_pass\<close>). No other loop needs fuel.

  \<^bold>\<open>Not modelled\<close>: the Windows branch and directory operations (platform calls), page contents and the
  owner check of arena checkpoints (addresses), \<open>bad_alloc\<close> inside the log, the I/O layer and the vectors
  of table sections, the vendored MurmurHash3 (nothing calls it), the command line program (console I/O).
  The class \<open>WAL\<close> only forwards to the writer and the loader, which the engine of the model calls directly. Recovery is proved for the log and for the manifest, not for a whole engine.
\<close>

end
